(* ===== verification/Prelude.thy ===== *)
theory Prelude
  imports Main "HOL-Library.Word" "HOL-Library.Signed_Division"
begin

text \<open>
  What the component theories share: names for the machine integers of the Rust code, the
  panics a run can end in and the result type that carries them, checked indexing of
  vectors, the integer division of i64, little-endian bytes, and the generic lemmas about
  them.

  Integer arithmetic is that of the release profile (the one the benchmarks are built
  with): u32, u64, i32 and i64 wrap, which \<open>'n word\<close> does by itself. Indexing, slicing,
  division by zero, \<open>expect\<close> and an explicit \<open>panic!\<close> stop the program in every profile;
  they are the \<open>Inl\<close> values below. \<open>usize\<close> is a natural number; where a sum of two of them
  can pass \<open>2 ^ 64\<close> the wrap-around is written out with \<open>usize_add\<close>.
\<close>

named_theorems step_simps \<open>equations that run a model definition one step further\<close>

type_synonym u8 = "8 word"
type_synonym u16 = "16 word"
type_synonym u32 = "32 word"
type_synonym i32 = "32 word"
type_synonym u64 = "64 word"
type_synonym i64 = "64 word"
type_synonym usize = nat

section \<open>Panics and results\<close>

datatype panic =
    Index_out_of_bounds
  | Div_by_zero
  | Div_overflow
  | Missing_key
  | Unknown_order
  | Pool_exhausted nat
  | Parent_missing
  | Entry_missing
  | Restore_failed
  | Receiver_gone
  | Join_failed
  | Assertion_failed
  | Expect_failed

fun and_then :: "'e + 'a \<Rightarrow> ('a \<Rightarrow> 'e + 'b) \<Rightarrow> 'e + 'b" where
  "and_then (Inl e) f = Inl e"
| "and_then (Inr x) f = f x"

lemma and_then_eq_Inr [simp]:
  "and_then m f = Inr y \<longleftrightarrow> (\<exists>x. m = Inr x \<and> f x = Inr y)"
  by (cases m) auto

lemma and_then_eq_Inl:
  "and_then m f = Inl e \<longleftrightarrow> m = Inl e \<or> (\<exists>x. m = Inr x \<and> f x = Inl e)"
  by (cases m) auto

lemma and_then_assoc: "and_then (and_then m f) g = and_then m (\<lambda>x. and_then (f x) g)"
  by (cases m) auto

lemma and_then_cong [fundef_cong]:
  "m = m' \<Longrightarrow> (\<And>x. m' = Inr x \<Longrightarrow> f x = f' x) \<Longrightarrow> and_then m f = and_then m' f'"
  by (cases m') auto

lemma and_then_Inr_right [simp]: "and_then m Inr = m"
  by (cases m) auto

text \<open>A \<open>for\<close> loop whose body can panic, over the sequence the loop ranges over.\<close>

fun try_fold :: "('a \<Rightarrow> 's \<Rightarrow> 'e + 's) \<Rightarrow> 'a list \<Rightarrow> 's \<Rightarrow> 'e + 's" where
  "try_fold f [] s = Inr s"
| "try_fold f (x # xs) s = and_then (f x s) (try_fold f xs)"

lemma try_fold_append:
  "try_fold f (xs @ ys) s = and_then (try_fold f xs s) (try_fold f ys)"
  by (induction xs arbitrary: s) (auto simp: and_then_assoc cong: and_then_cong)

lemma try_fold_fun_cong:
  "(\<And>x u. x \<in> set xs \<Longrightarrow> f x u = g x u) \<Longrightarrow> try_fold f xs s = try_fold g xs s"
proof (induction xs arbitrary: s)
  case Nil
  then show ?case by simp
next
  case (Cons x xs)
  then have "f x s = g x s" and "try_fold f xs = try_fold g xs" by auto
  then show ?case by simp
qed

lemma try_fold_cong [fundef_cong]:
  "xs = ys \<Longrightarrow> s = t \<Longrightarrow> (\<And>x u. x \<in> set ys \<Longrightarrow> f x u = g x u) \<Longrightarrow>
   try_fold f xs s = try_fold g ys t"
  using try_fold_fun_cong by metis

text \<open>An invariant of the loop body holds after the loop, which then does not panic.\<close>

lemma try_fold_inv:
  assumes "\<And>x s. x \<in> set xs \<Longrightarrow> I s \<Longrightarrow> \<exists>s'. f x s = Inr s' \<and> I s'"
    and "I s"
  shows "\<exists>s'. try_fold f xs s = Inr s' \<and> I s'"
  using assms
proof (induction xs arbitrary: s)
  case Nil
  then show ?case by simp
next
  case (Cons x xs)
  from Cons.prems obtain s1 where s1: "f x s = Inr s1" and "I s1" by fastforce
  with Cons.IH [of s1] Cons.prems(1) show ?case by simp
qed

text \<open>Over the indices of a range the invariant may depend on the index.\<close>

lemma try_fold_upt:
  assumes "\<And>k s. k < n \<Longrightarrow> I k s \<Longrightarrow> \<exists>s'. f k s = Inr s' \<and> I (Suc k) s'"
    and "I 0 s"
  shows "\<exists>s'. try_fold f [0..<n] s = Inr s' \<and> I n s'"
  using assms
proof (induction n)
  case 0
  then show ?case by simp
next
  case (Suc n)
  then obtain s1 where "try_fold f [0..<n] s = Inr s1" "I n s1" by fastforce
  with Suc.prems(1) [of n s1] show ?case by (auto simp: try_fold_append)
qed

text \<open>A loop that runs its body a fixed number of times.\<close>

fun try_iter :: "('s \<Rightarrow> 'e + 's) \<Rightarrow> nat \<Rightarrow> 's \<Rightarrow> 'e + 's" where
  "try_iter f 0 s = Inr s"
| "try_iter f (Suc n) s = and_then (f s) (try_iter f n)"

lemma try_iter_inv:
  assumes "\<And>k s. k < n \<Longrightarrow> I k s \<Longrightarrow> \<exists>s'. f s = Inr s' \<and> I (Suc k) s'"
    and "I 0 s"
  shows "\<exists>s'. try_iter f n s = Inr s' \<and> I n s'"
  using assms
proof (induction n arbitrary: s I)
  case 0
  then show ?case by simp
next
  case (Suc n)
  obtain s1 where s1: "f s = Inr s1" "I (Suc 0) s1" using Suc.prems(1) [of 0 s] Suc.prems(2) by blast
  have "\<exists>s'. try_iter f n s1 = Inr s' \<and> I (Suc n) s'"
  proof (rule Suc.IH [of "\<lambda>k. I (Suc k)"])
    show "\<exists>s'. f s = Inr s' \<and> I (Suc (Suc k)) s'" if "k < n" "I (Suc k) s" for k s
      using Suc.prems(1) [of "Suc k" s] that by simp
  qed (rule s1(2))
  with s1 show ?case by simp
qed

section \<open>Vectors\<close>

definition idx :: "'a list \<Rightarrow> nat \<Rightarrow> panic + 'a" where
  "idx xs i = (if i < length xs then Inr (xs ! i) else Inl Index_out_of_bounds)"

definition idx_set :: "'a list \<Rightarrow> nat \<Rightarrow> 'a \<Rightarrow> panic + 'a list" where
  "idx_set xs i x = (if i < length xs then Inr (xs[i := x]) else Inl Index_out_of_bounds)"

definition idx_modify :: "'a list \<Rightarrow> nat \<Rightarrow> ('a \<Rightarrow> 'a) \<Rightarrow> panic + 'a list" where
  "idx_modify xs i f =
     (if i < length xs then Inr (xs[i := f (xs ! i)]) else Inl Index_out_of_bounds)"

lemma idx_simps [step_simps]:
  "i < length xs \<Longrightarrow> idx xs i = Inr (xs ! i)"
  "\<not> i < length xs \<Longrightarrow> idx xs i = Inl Index_out_of_bounds"
  "i < length xs \<Longrightarrow> idx_set xs i x = Inr (xs[i := x])"
  "i < length xs \<Longrightarrow> idx_modify xs i f = Inr (xs[i := f (xs ! i)])"
  "\<not> i < length xs \<Longrightarrow> idx_modify xs i f = Inl Index_out_of_bounds"
  by (simp_all add: idx_def idx_set_def idx_modify_def)

lemma idx_eq_Inr [simp]: "idx xs i = Inr x \<longleftrightarrow> i < length xs \<and> x = xs ! i"
  by (auto simp: idx_def)

lemma idx_modify_eq_Inr [simp]:
  "idx_modify xs i f = Inr ys \<longleftrightarrow> i < length xs \<and> ys = xs[i := f (xs ! i)]"
  by (auto simp: idx_modify_def)

lemma remove1_filter: "distinct xs \<Longrightarrow> remove1 x xs = filter (\<lambda>y. y \<noteq> x) xs"
  by (induction xs) (auto simp: filter_id_conv intro!: filter_True [symmetric])

text \<open>Sums over a list that change at one member only.\<close>

lemma sum_list_change:
  fixes f g :: "'a \<Rightarrow> 'b :: ab_group_add"
  assumes "distinct xs" and "x \<in> set xs" and "\<And>y. y \<in> set xs \<Longrightarrow> y \<noteq> x \<Longrightarrow> f y = g y"
  shows "sum_list (map f xs) = sum_list (map g xs) - g x + f x"
proof -
  obtain ys zs where xs: "xs = ys @ x # zs" using assms(2) by (meson split_list)
  then have "x \<notin> set ys" "x \<notin> set zs" using assms(1) by auto
  then have "map f ys = map g ys" "map f zs = map g zs"
    using assms(3) unfolding xs by (auto intro!: map_cong)
  then have "sum_list (map f ys) = sum_list (map g ys)" "sum_list (map f zs) = sum_list (map g zs)"
    by (simp_all only:)
  then show ?thesis unfolding xs by (simp add: algebra_simps)
qed

lemma sum_list_removed:
  fixes f :: "'a \<Rightarrow> 'b :: ab_group_add"
  assumes "x \<in> set xs"
  shows "sum_list (map f (remove1 x xs)) = sum_list (map f xs) - f x"
  using assms by (induction xs) (auto simp: algebra_simps)

section \<open>Integers\<close>

text \<open>i64 division: it truncates towards zero and panics on 0 and on \<open>MIN / -1\<close>.\<close>

definition i64_min :: i64 where
  "i64_min = word_of_int (- (2 ^ 63))"

definition div_i64 :: "i64 \<Rightarrow> i64 \<Rightarrow> panic + i64" where
  "div_i64 a b =
     (if b = 0 then Inl Div_by_zero
      else if a = i64_min \<and> b = - 1 then Inl Div_overflow
      else Inr (word_of_int (sint a sdiv sint b)))"

lemma mult_sdiv_self: "0 \<le> a \<Longrightarrow> 0 < x \<Longrightarrow> (a * x :: int) sdiv x = a"
  by (cases "a = 0") (auto simp: signed_divide_int_def sgn_if zero_less_mult_iff)

text \<open>Signed minimum, as \<open>i64::min\<close>.\<close>

definition min_i64 :: "i64 \<Rightarrow> i64 \<Rightarrow> i64" where
  "min_i64 a b = (if a \<le>s b then a else b)"

definition usize_add :: "usize \<Rightarrow> usize \<Rightarrow> usize" where
  "usize_add a b = (a + b) mod 2 ^ 64"

definition usize_sub :: "usize \<Rightarrow> usize \<Rightarrow> usize" where
  "usize_sub a b = (a + (2 ^ 64 - b mod 2 ^ 64)) mod 2 ^ 64"

lemma usize_sub_small [simp]: "b \<le> a \<Longrightarrow> a < 2 ^ 64 \<Longrightarrow> usize_sub a b = a - b"
proof -
  assume "b \<le> a" "a < 2 ^ 64"
  then have "a + (2 ^ 64 - b mod 2 ^ 64) = (a - b) + 2 ^ 64" by simp
  then show ?thesis using \<open>a < 2 ^ 64\<close> by (simp add: usize_sub_def)
qed

lemma usize_add_small [simp]: "a + b < 2 ^ 64 \<Longrightarrow> usize_add a b = a + b"
  by (simp add: usize_add_def)

lemma unat_u32_bound: "unat (w :: u32) < 4294967296"
  using unsigned_less [of w, where 'a = nat] by simp

lemma unat_u8_bound: "unat (w :: u8) < 256"
  using unsigned_less [of w, where 'a = nat] by simp

lemma unat_of_nat_u32: "n < 4294967296 \<Longrightarrow> unat (of_nat n :: u32) = n"
  by (simp add: unat_of_nat take_bit_nat_eq_self)

lemma unat_Suc_u32: "Suc (unat (w :: u32)) < 4294967296 \<Longrightarrow> unat (w + 1) = Suc (unat w)"
  by (simp add: unat_word_ariths)

lemma of_nat_eq_u32:
  "m < 4294967296 \<Longrightarrow> n < 4294967296 \<Longrightarrow> (of_nat m :: u32) = of_nat n \<longleftrightarrow> m = n"
  by (metis unat_of_nat_u32)

text \<open>Reading a word as a signed integer.\<close>

lemma sint_small:
  assumes "unat (w :: 'a :: len word) < 2 ^ (LENGTH('a) - Suc 0)"
  shows "sint w = int (unat w)"
proof -
  have u: "uint w = int (unat w)" by simp
  have "sint w = signed_take_bit (LENGTH('a) - Suc 0) (uint w)" by (rule sint_uint)
  also have "\<dots> = uint w"
  proof (rule signed_take_bit_int_eq_self)
    show "uint w < 2 ^ (LENGTH('a) - Suc 0)"
      unfolding u using assms by (metis of_nat_less_iff of_nat_numeral of_nat_power)
    show "- (2 ^ (LENGTH('a) - Suc 0)) \<le> uint w"
      by (rule order_trans [of _ 0]) simp_all
  qed
  finally show ?thesis by simp
qed

lemma sint_small32: "unat (w :: 32 word) < 2 ^ 31 \<Longrightarrow> sint w = int (unat w)"
  by (rule sint_small) simp

lemma sint_small64: "unat (w :: 64 word) < 2 ^ 63 \<Longrightarrow> sint w = int (unat w)"
  by (rule sint_small) simp

lemma word_of_int_sint: "word_of_int (sint w) = (w :: 'a :: len word)"
  by simp

lemma sint_eq_iff: "sint (w :: 'a :: len word) = sint v \<longleftrightarrow> w = v"
  by (metis word_of_int_sint)

lemma sint_word_of_int:
  "- (2 ^ (LENGTH('a) - 1)) \<le> i \<Longrightarrow> i < 2 ^ (LENGTH('a) - 1) \<Longrightarrow>
   sint (word_of_int i :: 'a :: len word) = i"
  unfolding sint_sbintrunc' by (rule signed_take_bit_int_eq_self)

lemma sless_u31:
  "unat (a :: 32 word) < 2 ^ 31 \<Longrightarrow> unat (b :: 32 word) < 2 ^ 31 \<Longrightarrow>
   a <s b \<longleftrightarrow> unat a < unat b"
  unfolding word_sless_alt by (simp only: sint_small32 of_nat_less_iff)

section \<open>Little-endian bytes\<close>

fun le_bytes :: "nat \<Rightarrow> nat \<Rightarrow> u8 list" where
  "le_bytes 0 n = []"
| "le_bytes (Suc k) n = of_nat (n mod 256) # le_bytes k (n div 256)"

fun le_value :: "u8 list \<Rightarrow> nat" where
  "le_value [] = 0"
| "le_value (b # bs) = unat b + 256 * le_value bs"

lemma length_le_bytes [simp]: "length (le_bytes k n) = k"
  by (induction k arbitrary: n) auto

lemma unat_of_nat_u8 [simp]: "unat (of_nat (n mod 256) :: u8) = n mod 256"
  by (simp add: unat_of_nat take_bit_nat_eq_self)

lemma le_value_le_bytes: "le_value (le_bytes k n) = n mod 256 ^ k"
proof (induction k arbitrary: n)
  case 0
  then show ?case by simp
next
  case (Suc k)
  show ?case by (simp add: Suc mod_mult2_eq)
qed

lemma digit_bound: "b < 256 \<Longrightarrow> v < m \<Longrightarrow> b + 256 * v < 256 * (m :: nat)"
  by linarith

lemma le_value_bound: "le_value bs < 256 ^ length bs"
  by (induction bs) (simp_all add: digit_bound unat_u8_bound)

lemma le_bytes_le_value: "length bs = k \<Longrightarrow> le_bytes k (le_value bs) = bs"
proof (induction bs arbitrary: k)
  case Nil
  then show ?case by simp
next
  case (Cons b bs)
  have "unat b < 256" by (rule unat_u8_bound)
  with Cons show ?case by auto
qed

end
