(* ===== verification/Pool.thy ===== *)
theory Pool
  imports Prelude
begin

text \<open>
  The data of the limit order book (rust/smr-collections/common/src/book.rs): the order
  record, the price level, the \<open>NIL\<close> handle, and the doubly linked FIFOs and the singly
  linked free list that slot handles form inside the pool. The lemmas say what unlinking
  and appending a slot do to such a list and that a write outside it leaves it alone.
\<close>

section \<open>Orders and levels\<close>

definition NIL :: u32 where
  "NIL = - 1"

record order =
  order_id :: i64
  price :: i64
  qty :: i64
  filled :: i64
  next_slot :: u32
  prev_slot :: u32
  side :: u8

record price_level =
  head :: u32
  tail :: u32
  qty_total :: i64
  lvl_count :: u32

definition empty_level :: price_level where
  "empty_level = \<lparr>head = NIL, tail = NIL, qty_total = 0, lvl_count = 0\<rparr>"

definition zero_order :: order where
  "zero_order = \<lparr>order_id = 0, price = 0, qty = 0, filled = 0,
     next_slot = NIL, prev_slot = NIL, side = 0\<rparr>"

lemma unat_NIL: "unat NIL = 4294967295"
  by (simp add: NIL_def unsigned_minus_1_eq_mask mask_eq_exp_minus_1)

lemma slot_not_NIL: "unat s < n \<Longrightarrow> n < 4294967296 \<Longrightarrow> s \<noteq> NIL"
  by (auto simp: unat_NIL)

abbreviation order_at :: "order list \<Rightarrow> u32 \<Rightarrow> order" where
  "order_at p s \<equiv> p ! unat s"

definition remaining :: "order \<Rightarrow> i64" where
  "remaining ord = qty ord - filled ord"

section \<open>Linked lists of slots\<close>

text \<open>
  \<open>dseg p pr ss h nx t\<close>: starting at handle \<open>h\<close> the \<open>next\<close> links run through the slots
  \<open>ss\<close> to \<open>nx\<close>, the \<open>prev\<close> links run back to \<open>pr\<close>, and \<open>t\<close> is the last slot (\<open>pr\<close> if
  there is none).
\<close>

fun dseg :: "order list \<Rightarrow> u32 \<Rightarrow> u32 list \<Rightarrow> u32 \<Rightarrow> u32 \<Rightarrow> u32 \<Rightarrow> bool" where
  "dseg p pr [] h nx t \<longleftrightarrow> h = nx \<and> t = pr"
| "dseg p pr (s # ss) h nx t \<longleftrightarrow>
     h = s \<and> s \<noteq> NIL \<and> unat s < length p \<and> prev_slot (order_at p s) = pr \<and>
     dseg p s ss (next_slot (order_at p s)) nx t"

fun chain :: "order list \<Rightarrow> u32 \<Rightarrow> u32 list \<Rightarrow> bool" where
  "chain p h [] \<longleftrightarrow> h = NIL"
| "chain p h (s # ss) \<longleftrightarrow>
     h = s \<and> s \<noteq> NIL \<and> unat s < length p \<and> chain p (next_slot (order_at p s)) ss"

text \<open>Following \<open>next\<close> from a handle, at most \<open>k\<close> slots.\<close>

fun walk :: "nat \<Rightarrow> order list \<Rightarrow> u32 \<Rightarrow> u32 list" where
  "walk 0 p h = []"
| "walk (Suc k) p h =
     (if h = NIL \<or> \<not> unat h < length p then [] else h # walk k p (next_slot (order_at p h)))"

lemma dseg_append:
  "dseg p pr (xs @ ys) h nx t \<longleftrightarrow> (\<exists>m u. dseg p pr xs h m u \<and> dseg p u ys m nx t)"
  by (induction xs arbitrary: pr h) auto

lemma dseg_bounds: "dseg p pr ss h nx t \<Longrightarrow> s \<in> set ss \<Longrightarrow> s \<noteq> NIL \<and> unat s < length p"
  by (induction ss arbitrary: pr h) auto

lemma chain_bounds: "chain p h ss \<Longrightarrow> s \<in> set ss \<Longrightarrow> s \<noteq> NIL \<and> unat s < length p"
  by (induction ss arbitrary: h) auto

lemma dseg_last: "dseg p pr ss h nx t \<Longrightarrow> t = (if ss = [] then pr else last ss)"
  by (induction ss arbitrary: pr h) auto

lemma dseg_head: "dseg p pr ss h nx t \<Longrightarrow> h = (if ss = [] then nx else hd ss)"
  by (cases ss) auto

lemma dseg_chain: "dseg p pr ss h NIL t \<Longrightarrow> chain p h ss"
  by (induction ss arbitrary: pr h) auto

lemma dseg_NIL_iff:
  "dseg p NIL ss h NIL t \<Longrightarrow> (h = NIL \<longleftrightarrow> ss = []) \<and> (t = NIL \<longleftrightarrow> ss = [])"
  using dseg_head [of p NIL ss h NIL t] dseg_last [of p NIL ss h NIL t]
    dseg_bounds [of p NIL ss h NIL t "hd ss"] dseg_bounds [of p NIL ss h NIL t "last ss"]
  by (auto split: if_splits)

lemma walk_chain: "chain p h ss \<Longrightarrow> length ss \<le> k \<Longrightarrow> walk k p h = ss"
proof (induction ss arbitrary: h k)
  case Nil
  then show ?case by (cases k) auto
next
  case (Cons s ss)
  then show ?case by (cases k) auto
qed

lemma slots_length:
  assumes "distinct ss" and "\<And>s. s \<in> set ss \<Longrightarrow> unat s < n"
  shows "length ss \<le> n"
proof -
  have "inj_on unat (set ss)" by (simp add: inj_on_def word_unat_eq_iff)
  then have "length ss = card (unat ` set ss)"
    using assms(1) by (simp add: card_image distinct_card)
  also have "\<dots> \<le> card {..<n}"
    by (rule card_mono) (use assms(2) in auto)
  finally show ?thesis by simp
qed

lemma walk_dseg:
  assumes "dseg p pr ss h NIL t" and "distinct ss" and "length p \<le> k"
  shows "walk k p h = ss"
proof (rule walk_chain)
  show "chain p h ss" using assms(1) by (rule dseg_chain)
  have "length ss \<le> length p"
    using assms(2) dseg_bounds [OF assms(1)] by (blast intro: slots_length)
  then show "length ss \<le> k" using assms(3) by simp
qed

section \<open>Writes\<close>

text \<open>Writes of a link through a handle; writing through \<open>NIL\<close> does nothing.\<close>

definition set_next :: "order list \<Rightarrow> u32 \<Rightarrow> u32 \<Rightarrow> order list" where
  "set_next p s n = (if s = NIL then p else p[unat s := (order_at p s)\<lparr>next_slot := n\<rparr>])"

definition set_prev :: "order list \<Rightarrow> u32 \<Rightarrow> u32 \<Rightarrow> order list" where
  "set_prev p s v = (if s = NIL then p else p[unat s := (order_at p s)\<lparr>prev_slot := v\<rparr>])"

lemma length_set_link [simp]:
  "length (set_next p s n) = length p" "length (set_prev p s n) = length p"
  by (simp_all add: set_next_def set_prev_def)

lemma order_at_update:
  "order_at (p[unat s := x]) u = (if s = u \<and> unat s < length p then x else order_at p u)"
  by (cases "s = u") (auto simp: nth_list_update list_update_beyond word_unat_eq_iff)

lemma order_at_set_next:
  "order_at (set_next p s n) u =
     (if s = u \<and> s \<noteq> NIL \<and> unat s < length p then (order_at p s)\<lparr>next_slot := n\<rparr>
      else order_at p u)"
  by (auto simp: set_next_def order_at_update)

lemma order_at_set_prev:
  "order_at (set_prev p s n) u =
     (if s = u \<and> s \<noteq> NIL \<and> unat s < length p then (order_at p s)\<lparr>prev_slot := n\<rparr>
      else order_at p u)"
  by (auto simp: set_prev_def order_at_update)

text \<open>Link writes leave what the order says alone.\<close>

lemma set_next_content [simp]:
  "order_id (order_at (set_next p s n) u) = order_id (order_at p u)"
  "price (order_at (set_next p s n) u) = price (order_at p u)"
  "qty (order_at (set_next p s n) u) = qty (order_at p u)"
  "filled (order_at (set_next p s n) u) = filled (order_at p u)"
  "side (order_at (set_next p s n) u) = side (order_at p u)"
  "remaining (order_at (set_next p s n) u) = remaining (order_at p u)"
  by (auto simp: order_at_set_next remaining_def)

lemma set_prev_content [simp]:
  "order_id (order_at (set_prev p s n) u) = order_id (order_at p u)"
  "price (order_at (set_prev p s n) u) = price (order_at p u)"
  "qty (order_at (set_prev p s n) u) = qty (order_at p u)"
  "filled (order_at (set_prev p s n) u) = filled (order_at p u)"
  "side (order_at (set_prev p s n) u) = side (order_at p u)"
  "remaining (order_at (set_prev p s n) u) = remaining (order_at p u)"
  by (auto simp: order_at_set_prev remaining_def)

lemmas order_at_writes = order_at_update order_at_set_next order_at_set_prev

lemma dseg_cong:
  assumes "length p = length p'"
    and "\<And>s. s \<in> set ss \<Longrightarrow> next_slot (order_at p s) = next_slot (order_at p' s)"
    and "\<And>s. s \<in> set ss \<Longrightarrow> prev_slot (order_at p s) = prev_slot (order_at p' s)"
  shows "dseg p pr ss h nx t = dseg p' pr ss h nx t"
  using assms by (induction ss arbitrary: pr h) auto

lemma chain_cong:
  assumes "length p = length p'"
    and "\<And>s. s \<in> set ss \<Longrightarrow> next_slot (order_at p s) = next_slot (order_at p' s)"
  shows "chain p h ss = chain p' h ss"
  using assms by (induction ss arbitrary: h) auto

text \<open>Retargeting the last \<open>next\<close> link, and the first \<open>prev\<close> link.\<close>

lemma dseg_retarget:
  assumes "dseg p pr xs h m u" and "distinct xs"
  shows "dseg (set_next p u nx) pr xs (if xs = [] then nx else h) nx u"
  using assms
proof (induction xs arbitrary: pr h)
  case Nil
  then show ?case by simp
next
  case (Cons x xs)
  then have IH: "dseg (set_next p u nx) x xs (if xs = [] then nx else next_slot (order_at p x)) nx u"
    by simp
  have last: "u = (if xs = [] then x else last xs)"
    using dseg_last [OF Cons.prems(1)] by simp
  have "order_at (set_next p u nx) x =
      (if xs = [] then (order_at p x)\<lparr>next_slot := nx\<rparr> else order_at p x)"
    using Cons.prems last by (auto simp: order_at_set_next)
  with IH Cons.prems show ?case by (auto split: if_splits)
qed

lemma dseg_reprev:
  assumes "dseg p s ys nx e t" and "distinct ys" and "e = NIL"
  shows "dseg (set_prev p nx v) v ys nx e (if ys = [] then v else t)"
proof (cases ys)
  case Nil
  with assms show ?thesis by simp
next
  case (Cons y ys')
  with assms have y: "nx = y" "y \<noteq> NIL" "unat y < length p" "y \<notin> set ys'"
    and tl: "dseg p y ys' (next_slot (order_at p y)) e t" by auto
  have "dseg (set_prev p y v) y ys' (next_slot (order_at p y)) e t"
    using tl y(4) by (subst dseg_cong [of _ p]) (auto simp: order_at_set_prev)
  with Cons y show ?thesis by (simp add: order_at_set_prev)
qed

lemma dseg_remove:
  assumes "dseg p NIL (xs @ s # ys) h NIL t" and "distinct (xs @ s # ys)"
    and "pv = prev_slot (order_at p s)" and "nx = next_slot (order_at p s)"
  shows "dseg (set_prev (set_next p pv nx) nx pv) NIL (xs @ ys)
      (if h = s then nx else h) NIL (if t = s then pv else t)"
    and "pv = (if xs = [] then NIL else last xs)"
    and "nx = (if ys = [] then NIL else hd ys)"
proof -
  from assms(1) obtain m u where xs: "dseg p NIL xs h m u" and sys: "dseg p u (s # ys) m NIL t"
    by (auto simp: dseg_append)
  from sys assms(3,4) have ms: "m = s" "u = pv" and ys: "dseg p s ys nx NIL t" by auto
  show pv: "pv = (if xs = [] then NIL else last xs)" using dseg_last [OF xs] ms by simp
  show nx: "nx = (if ys = [] then NIL else hd ys)" using dseg_head [OF ys] by simp
  have hs: "h = s \<longleftrightarrow> xs = []" using dseg_head [OF xs] ms assms(2) by (cases xs) auto
  have ts: "t = s \<longleftrightarrow> ys = []"
  proof (cases "ys = []")
    case False
    then have "last ys \<in> set ys" by simp
    with False dseg_last [OF ys] assms(2) show ?thesis by auto
  qed (use dseg_last [OF ys] in simp)
  let ?p1 = "set_next p pv nx" and ?p2 = "set_prev (set_next p pv nx) nx pv"
  have dis: "set xs \<inter> set ys = {}" using assms(2) by simp
  have pv_ys: "pv \<notin> set ys \<or> pv = NIL"
    using pv dis by (metis disjoint_iff last_in_set)
  have nx_xs: "nx \<notin> set xs \<or> nx = NIL"
    using nx dis by (metis disjoint_iff hd_in_set)
  have "dseg ?p1 NIL xs (if xs = [] then nx else h) nx pv"
    using dseg_retarget [OF xs] assms(2) ms by simp
  then have 1: "dseg ?p2 NIL xs (if xs = [] then nx else h) nx pv"
    using nx_xs by (subst dseg_cong [of _ ?p1]) (auto simp: order_at_set_prev)
  have "dseg ?p1 s ys nx NIL t"
    using ys pv_ys by (subst dseg_cong [of _ p]) (auto simp: order_at_set_next)
  then have 2: "dseg ?p2 pv ys nx NIL (if ys = [] then pv else t)"
    using assms(2) by (intro dseg_reprev) auto
  from 1 2 show "dseg ?p2 NIL (xs @ ys) (if h = s then nx else h) NIL (if t = s then pv else t)"
    unfolding dseg_append hs ts by blast
qed

lemma dseg_snoc:
  assumes "dseg p NIL ss h NIL t" and "distinct ss" and "s \<notin> set ss"
    and "s \<noteq> NIL" and "unat s < length p" and "prev_slot ord = t" and "next_slot ord = NIL"
  shows "dseg (set_next (p[unat s := ord]) t s) NIL (ss @ [s]) (if t = NIL then s else h) NIL s"
proof -
  let ?p1 = "p[unat s := ord]"
  have "dseg ?p1 NIL ss h NIL t"
    using assms(1,3) by (subst dseg_cong [of _ p]) (auto simp: order_at_update)
  then have 1: "dseg (set_next ?p1 t s) NIL ss (if ss = [] then s else h) s t"
    using assms(2) by (rule dseg_retarget)
  have "t = NIL \<or> t \<in> set ss" using dseg_last [OF assms(1)] by (auto split: if_splits)
  then have "order_at (set_next ?p1 t s) s = ord"
    using assms(3,4,5) by (auto simp: order_at_writes)
  with assms(4-7) have "dseg (set_next ?p1 t s) t [s] s NIL s" by simp
  with 1 dseg_NIL_iff [OF assms(1)] show ?thesis by (auto simp: dseg_append)
qed

end
