(* ===== verification/Smr_Config.thy ===== *)
theory Smr_Config
  imports Prelude
begin

text \<open>
  The benchmark configuration (rust/bench-common/src/smrcoll.rs): \<open>SmrConfig::from_env\<close>
  with its integer parsers, every validation in the order of the code, and
  \<open>require_bump_capacity\<close>. The process environment (\<open>std::env::var\<close>) is the parameter
  \<open>env\<close>, \<open>None\<close> for a variable that is unset or not Unicode. Strings are ASCII, so that
  \<open>str::trim\<close> strips the six ASCII white-space characters. An error is a constructor per
  message of the code.
\<close>

record smr_config =
  cfg_cap :: usize
  cfg_levels :: u32
  cfg_tick :: i64
  cfg_price_min :: i64
  cfg_steady :: usize
  cfg_warmup :: usize
  cfg_iters :: usize
  cfg_chunk :: usize
  cfg_apply_batch :: usize
  cfg_multi_table :: bool
  cfg_live_iters :: usize
  cfg_snap_every :: usize
  cfg_otr_bps :: u64

datatype config_error =
    Not_an_integer string string
  | Must_be_positive string
  | Tick_not_positive
  | Levels_out_of_range
  | Steady_out_of_range
  | Otr_out_of_range u64
  | Chunk_above_cap
  | Apply_batch_out_of_range usize usize
  | Snap_every_above_live_iters
  | Bump_capacity_exceeded

section \<open>Parsing integers\<close>

definition is_space :: "char \<Rightarrow> bool" where
  "is_space c = (c \<in> {CHR '' '', CHR 0x09, CHR 0x0A, CHR 0x0B, CHR 0x0C, CHR 0x0D})"

definition trim :: "string \<Rightarrow> string" where
  "trim s = rev (dropWhile is_space (rev (dropWhile is_space s)))"

definition digit_value :: "char \<Rightarrow> nat option" where
  "digit_value c =
     (let n = (of_char c :: nat) in if 48 \<le> n \<and> n \<le> 57 then Some (n - 48) else None)"

fun parse_digits :: "nat \<Rightarrow> string \<Rightarrow> nat option" where
  "parse_digits acc [] = Some acc"
| "parse_digits acc (c # cs) =
     (case digit_value c of None \<Rightarrow> None | Some d \<Rightarrow> parse_digits (10 * acc + d) cs)"

text \<open>\<open>str::parse::<usize>\<close>: an optional plus sign, at least one digit, no overflow.\<close>

definition parse_u64_str :: "string \<Rightarrow> nat option" where
  "parse_u64_str s =
     (let ds = (case s of [] \<Rightarrow> [] | c # cs \<Rightarrow> if c = CHR ''+'' then cs else s) in
      if ds = [] then None
      else case parse_digits 0 ds of
          None \<Rightarrow> None
        | Some n \<Rightarrow> if n < 2 ^ 64 then Some n else None)"

text \<open>\<open>str::parse::<i64>\<close>: also a minus sign, within the range of i64.\<close>

definition parse_i64_str :: "string \<Rightarrow> i64 option" where
  "parse_i64_str s =
     (let neg = (case s of [] \<Rightarrow> False | c # cs \<Rightarrow> c = CHR ''-'');
          ds = (case s of [] \<Rightarrow> [] | c # cs \<Rightarrow> if c = CHR ''+'' \<or> c = CHR ''-'' then cs else s) in
      if ds = [] then None
      else case parse_digits 0 ds of
          None \<Rightarrow> None
        | Some n \<Rightarrow>
            if neg then (if n \<le> 2 ^ 63 then Some (- of_nat n) else None)
            else (if n < 2 ^ 63 then Some (of_nat n) else None))"

definition parse_usize ::
  "(string \<Rightarrow> string option) \<Rightarrow> string \<Rightarrow> usize \<Rightarrow> config_error + usize" where
  "parse_usize env key dflt =
     (case env key of
        None \<Rightarrow> Inr dflt
      | Some s \<Rightarrow>
          (case parse_u64_str (trim s) of
             None \<Rightarrow> Inl (Not_an_integer key s)
           | Some v \<Rightarrow> if v = 0 then Inl (Must_be_positive key) else Inr v))"

definition parse_usize_allow_zero ::
  "(string \<Rightarrow> string option) \<Rightarrow> string \<Rightarrow> usize \<Rightarrow> config_error + usize" where
  "parse_usize_allow_zero env key dflt =
     (case env key of
        None \<Rightarrow> Inr dflt
      | Some s \<Rightarrow>
          (case parse_u64_str (trim s) of
             None \<Rightarrow> Inl (Not_an_integer key s)
           | Some v \<Rightarrow> Inr v))"

definition parse_i64 ::
  "(string \<Rightarrow> string option) \<Rightarrow> string \<Rightarrow> i64 \<Rightarrow> config_error + i64" where
  "parse_i64 env key dflt =
     (case env key of
        None \<Rightarrow> Inr dflt
      | Some s \<Rightarrow>
          (case parse_i64_str (trim s) of
             None \<Rightarrow> Inl (Not_an_integer key s)
           | Some v \<Rightarrow> Inr v))"

section \<open>\<open>SmrConfig::from_env\<close>\<close>

definition check_config :: "smr_config \<Rightarrow> config_error + smr_config" where
  "check_config c =
     (if cfg_tick c \<le>s 0 then Inl Tick_not_positive
      else if cfg_levels c = 0 \<or> 65535 < cfg_levels c then Inl Levels_out_of_range
      else if cfg_cap c < cfg_steady c \<or> 65535 < cfg_steady c then Inl Steady_out_of_range
      else if 10000 < cfg_otr_bps c then Inl (Otr_out_of_range (cfg_otr_bps c))
      else if cfg_cap c < cfg_chunk c then Inl Chunk_above_cap
      else if cfg_apply_batch c = 0 \<or> cfg_iters c < cfg_apply_batch c
        then Inl (Apply_batch_out_of_range (cfg_iters c) (cfg_apply_batch c))
      else if cfg_live_iters c < cfg_snap_every c then Inl Snap_every_above_live_iters
      else Inr c)"

definition from_env :: "(string \<Rightarrow> string option) \<Rightarrow> config_error + smr_config" where
  "from_env env =
     and_then (parse_usize env ''SMRC_CAP'' 262144) (\<lambda>cap.
     and_then (parse_usize env ''SMRC_LEVELS'' 1024) (\<lambda>levels.
     and_then (parse_i64 env ''SMRC_TICK'' 1) (\<lambda>tick.
     and_then (parse_i64 env ''SMRC_PRICE_MIN'' 0) (\<lambda>price_min.
     and_then (parse_usize env ''SMRC_STEADY'' 60000) (\<lambda>steady.
     and_then (parse_usize env ''SMRC_WARMUP'' 10000) (\<lambda>warmup.
     and_then (parse_usize env ''SMRC_ITERS'' 100000) (\<lambda>iters.
     and_then (parse_usize env ''SMRC_CHUNK'' 4096) (\<lambda>chunk.
     and_then (parse_usize env ''SMRC_APPLY_BATCH'' 64) (\<lambda>apply_batch.
     let multi_table =
       (case env ''SMRC_MULTI_TABLE'' of None \<Rightarrow> False | Some v \<Rightarrow> v = ''1'' \<or> v = ''true'') in
     and_then (parse_usize env ''SMRC_LIVE_ITERS'' 200000) (\<lambda>live_iters.
     and_then (parse_usize env ''SMRC_SNAP_EVERY'' 20000) (\<lambda>snap_every.
     and_then (parse_usize_allow_zero env ''SMRC_OTR_BPS'' 100) (\<lambda>otr_bps.
     check_config
       \<lparr>cfg_cap = cap, cfg_levels = of_nat levels, cfg_tick = tick, cfg_price_min = price_min,
        cfg_steady = steady, cfg_warmup = warmup, cfg_iters = iters, cfg_chunk = chunk,
        cfg_apply_batch = apply_batch, cfg_multi_table = multi_table,
        cfg_live_iters = live_iters, cfg_snap_every = snap_every,
        cfg_otr_bps = of_nat otr_bps\<rparr>))))))))))))"

definition require_bump_capacity :: "smr_config \<Rightarrow> config_error + unit" where
  "require_bump_capacity c =
     (if cfg_cap c < usize_add (cfg_warmup c) (cfg_iters c) then Inl Bump_capacity_exceeded
      else Inr ())"

section \<open>What an accepted configuration satisfies\<close>

lemma check_config_Inr:
  "check_config c = Inr c' \<longleftrightarrow>
     c' = c \<and> 0 <s cfg_tick c \<and> 0 < unat (cfg_levels c) \<and> unat (cfg_levels c) \<le> 65535 \<and>
     cfg_steady c \<le> cfg_cap c \<and> cfg_steady c \<le> 65535 \<and> unat (cfg_otr_bps c) \<le> 10000 \<and>
     cfg_chunk c \<le> cfg_cap c \<and> 0 < cfg_apply_batch c \<and> cfg_apply_batch c \<le> cfg_iters c \<and>
     cfg_snap_every c \<le> cfg_live_iters c"
proof -
  have lev: "(cfg_levels c = 0 \<or> 65535 < cfg_levels c) \<longleftrightarrow>
      \<not> (0 < unat (cfg_levels c) \<and> unat (cfg_levels c) \<le> 65535)"
    by (auto simp: word_less_nat_alt unat_gt_0)
  have otr: "10000 < cfg_otr_bps c \<longleftrightarrow> \<not> unat (cfg_otr_bps c) \<le> 10000"
    by (auto simp: word_less_nat_alt)
  have tick: "cfg_tick c \<le>s 0 \<longleftrightarrow> \<not> 0 <s cfg_tick c"
    by (auto simp: word_sle_eq word_sless_alt)
  show ?thesis
    unfolding check_config_def lev otr tick by (auto simp: not_less)
qed

lemma parse_usize_pos:
  "parse_usize env key d = Inr v \<Longrightarrow> 0 < d \<Longrightarrow> 0 < v"
  by (auto simp: parse_usize_def split: option.splits if_splits)

lemma from_env_checked:
  assumes "from_env env = Inr c"
  shows "check_config c = Inr c \<and> 0 < cfg_chunk c \<and> 0 < cfg_cap c \<and> 0 < cfg_warmup c \<and>
    0 < cfg_steady c \<and> 0 < cfg_iters c"
  using assms parse_usize_pos
  by (auto simp: from_env_def Let_def check_config_Inr)

end
