(* ===== verification/Book.thy ===== *)
theory Book
  imports Pool Smr_Config
begin

text \<open>
  The flat limit order book (rust/smr-collections/common/src/book.rs): a ladder of price
  levels per side, a pool of orders linked into one FIFO per level by slot handles, a LIFO
  free list threaded through the freed slots, an id map and the cached best levels. The
  operations follow the code statement by statement; the invariant and what the operations
  do to it are in the theory \<open>Book_Inv\<close>.

  \<open>HashMap<i64, u32>\<close> is a partial map: the code only looks up, inserts and removes keys.
  i32 comparisons are the signed ones (\<open><s\<close>) on 32-bit words, and \<open>as i32\<close> on a u32 keeps
  the bits.
\<close>

record book =
  price_min :: i64
  tick :: i64
  n_levels :: u32
  bids :: "price_level list"
  asks :: "price_level list"
  pool :: "order list"
  hwm :: u32
  best_bid :: i32
  best_ask :: i32
  idmap :: "i64 \<rightharpoonup> u32"
  free_head :: u32

definition book_new :: "smr_config \<Rightarrow> book" where
  "book_new cfg =
     \<lparr>price_min = cfg_price_min cfg, tick = cfg_tick cfg, n_levels = cfg_levels cfg,
      bids = replicate (unat (cfg_levels cfg)) empty_level,
      asks = replicate (unat (cfg_levels cfg)) empty_level,
      pool = replicate (cfg_cap cfg) zero_order,
      hwm = 0, best_bid = - 1, best_ask = - 1, idmap = Map.empty, free_head = NIL\<rparr>"

section \<open>Accessors\<close>

definition tick_of :: "i64 \<Rightarrow> i64 \<Rightarrow> i64 \<Rightarrow> panic + u32" where
  "tick_of pmin tk pr = and_then (div_i64 (pr - pmin) tk) (\<lambda>q. Inr (ucast q))"

definition lane :: "book \<Rightarrow> u8 \<Rightarrow> price_level list" where
  "lane b sd = (if sd = 0 then bids b else asks b)"

definition set_lane :: "book \<Rightarrow> u8 \<Rightarrow> price_level list \<Rightarrow> book" where
  "set_lane b sd ls = (if sd = 0 then b\<lparr>bids := ls\<rparr> else b\<lparr>asks := ls\<rparr>)"

text \<open>\<open>&mut self.lane(side)[t]\<close> and \<open>&mut self.pool[slot]\<close>, written through by \<open>f\<close>.\<close>

definition modify_level ::
  "book \<Rightarrow> u8 \<Rightarrow> u32 \<Rightarrow> (price_level \<Rightarrow> price_level) \<Rightarrow> panic + book" where
  "modify_level b sd t f =
     and_then (idx_modify (lane b sd) (unat t) f) (\<lambda>ls. Inr (set_lane b sd ls))"

definition modify_order :: "book \<Rightarrow> u32 \<Rightarrow> (order \<Rightarrow> order) \<Rightarrow> panic + book" where
  "modify_order b s f = and_then (idx_modify (pool b) (unat s) f) (\<lambda>p. Inr (b\<lparr>pool := p\<rparr>))"

definition get_order :: "book \<Rightarrow> u32 \<Rightarrow> panic + order" where
  "get_order b s = idx (pool b) (unat s)"

definition get_level :: "book \<Rightarrow> u8 \<Rightarrow> u32 \<Rightarrow> panic + price_level" where
  "get_level b sd t = idx (lane b sd) (unat t)"

definition get_slot :: "book \<Rightarrow> i64 \<Rightarrow> panic + u32" where
  "get_slot b oid = (case idmap b oid of None \<Rightarrow> Inl Missing_key | Some s \<Rightarrow> Inr s)"

definition level_qty :: "book \<Rightarrow> u8 \<Rightarrow> u32 \<Rightarrow> panic + i64" where
  "level_qty b sd t = and_then (get_level b sd t) (\<lambda>l. Inr (qty_total l))"

section \<open>Slot allocation\<close>

definition alloc_slot :: "book \<Rightarrow> panic + u32 \<times> book" where
  "alloc_slot b =
     (if free_head b \<noteq> NIL then
        and_then (get_order b (free_head b)) (\<lambda>ord.
        Inr (free_head b, b\<lparr>free_head := next_slot ord\<rparr>))
      else if unat (hwm b) = length (pool b) then Inl (Pool_exhausted (length (pool b)))
      else Inr (hwm b, b\<lparr>hwm := hwm b + 1\<rparr>))"

definition free_slot :: "book \<Rightarrow> u32 \<Rightarrow> panic + book" where
  "free_slot b s =
     and_then (modify_order b s
       (\<lambda>ord. ord\<lparr>order_id := 0, next_slot := free_head b, prev_slot := NIL\<rparr>)) (\<lambda>b'.
     Inr (b'\<lparr>free_head := s\<rparr>))"

section \<open>Insert and update\<close>

text \<open>The write to the level on insert, and the update of the cached best levels.\<close>

definition level_push :: "u32 \<Rightarrow> i64 \<Rightarrow> price_level \<Rightarrow> price_level" where
  "level_push s q l =
     (let l = (if tail l = NIL then l\<lparr>head := s\<rparr> else l) in
      l\<lparr>tail := s, qty_total := qty_total l + q, lvl_count := lvl_count l + 1\<rparr>)"

definition raise_bid :: "u8 \<Rightarrow> u32 \<Rightarrow> i32 \<Rightarrow> i32" where
  "raise_bid sd t best = (if sd = 0 \<and> (best <s 0 \<or> best <s t) then t else best)"

definition lower_ask :: "u8 \<Rightarrow> u32 \<Rightarrow> i32 \<Rightarrow> i32" where
  "lower_ask sd t best = (if sd = 1 \<and> (best <s 0 \<or> t <s best) then t else best)"

definition book_insert :: "book \<Rightarrow> i64 \<Rightarrow> i64 \<Rightarrow> i64 \<Rightarrow> u8 \<Rightarrow> panic + book" where
  "book_insert b oid pr q sd =
     and_then (tick_of (price_min b) (tick b) pr) (\<lambda>t.
     and_then (alloc_slot b) (\<lambda>(slot, b).
     and_then (get_level b sd t) (\<lambda>lvl.
     let prev_tail = tail lvl in
     and_then (modify_order b slot (\<lambda>_.
       \<lparr>order_id = oid, price = pr, qty = q, filled = 0,
        next_slot = NIL, prev_slot = prev_tail, side = sd\<rparr>)) (\<lambda>b.
     and_then (modify_level b sd t (level_push slot q)) (\<lambda>b.
     and_then (if prev_tail \<noteq> NIL
               then modify_order b prev_tail (\<lambda>ord. ord\<lparr>next_slot := slot\<rparr>)
               else Inr b) (\<lambda>b.
     Inr (b\<lparr>idmap := (idmap b)(oid \<mapsto> slot),
            best_bid := raise_bid sd t (best_bid b),
            best_ask := lower_ask sd t (best_ask b)\<rparr>)))))))"

definition book_update :: "book \<Rightarrow> i64 \<Rightarrow> i64 \<Rightarrow> panic + book" where
  "book_update b oid fill_qty =
     and_then (get_slot b oid) (\<lambda>slot.
     and_then (get_order b slot) (\<lambda>ord.
     let add = min_i64 fill_qty (qty ord - filled ord) in
     and_then (modify_order b slot (\<lambda>ord. ord\<lparr>filled := filled ord + add\<rparr>)) (\<lambda>b.
     and_then (tick_of (price_min b) (tick b) (price ord)) (\<lambda>t.
     modify_level b (side ord) t (\<lambda>l. l\<lparr>qty_total := qty_total l - add\<rparr>)))))"

section \<open>Cancel and fill\<close>

definition level_pop :: "u32 \<Rightarrow> u32 \<Rightarrow> u32 \<Rightarrow> i64 \<Rightarrow> price_level \<Rightarrow> price_level" where
  "level_pop s pv nx rm l =
     (let l = (if head l = s then l\<lparr>head := nx\<rparr> else l);
          l = (if tail l = s then l\<lparr>tail := pv\<rparr> else l) in
      l\<lparr>qty_total := qty_total l - rm, lvl_count := lvl_count l - 1\<rparr>)"

definition unlink :: "book \<Rightarrow> u32 \<Rightarrow> u8 \<Rightarrow> u32 \<Rightarrow> i64 \<Rightarrow> panic + book" where
  "unlink b slot sd t rm =
     and_then (get_order b slot) (\<lambda>ord.
     let pv = prev_slot ord; nx = next_slot ord in
     and_then (if pv \<noteq> NIL then modify_order b pv (\<lambda>ord. ord\<lparr>next_slot := nx\<rparr>)
               else Inr b) (\<lambda>b.
     and_then (if nx \<noteq> NIL then modify_order b nx (\<lambda>ord. ord\<lparr>prev_slot := pv\<rparr>)
               else Inr b) (\<lambda>b.
     modify_level b sd t (level_pop slot pv nx rm))))"

text \<open>
  The rescan of a lane over the sequence of indices the \<open>for\<close> loop ranges over; \<open>-1\<close> when
  no level is occupied.
\<close>

fun scan_best :: "price_level list \<Rightarrow> nat list \<Rightarrow> panic + i32" where
  "scan_best ls [] = Inr (- 1)"
| "scan_best ls (i # is) =
     and_then (idx ls i) (\<lambda>l. if head l \<noteq> NIL then Inr (of_nat i) else scan_best ls is)"

definition repair_best :: "book \<Rightarrow> u8 \<Rightarrow> u32 \<Rightarrow> panic + book" where
  "repair_best b sd t =
     (if sd = 0 then
        if best_bid b \<noteq> t then Inr b
        else and_then (idx (bids b) (unat t)) (\<lambda>l.
          if head l \<noteq> NIL then Inr b
          else and_then (scan_best (bids b) (rev [0..<Suc (unat t)])) (\<lambda>nb.
            Inr (b\<lparr>best_bid := nb\<rparr>)))
      else
        if best_ask b \<noteq> t then Inr b
        else and_then (idx (asks b) (unat t)) (\<lambda>l.
          if head l \<noteq> NIL then Inr b
          else and_then (scan_best (asks b) [unat t..<unat (n_levels b)]) (\<lambda>na.
            Inr (b\<lparr>best_ask := na\<rparr>))))"

definition id_remove :: "book \<Rightarrow> i64 \<Rightarrow> panic + u32 \<times> book" where
  "id_remove b oid =
     (case idmap b oid of
        None \<Rightarrow> Inl Unknown_order
      | Some s \<Rightarrow> Inr (s, b\<lparr>idmap := (idmap b)(oid := None)\<rparr>))"

definition book_cancel :: "book \<Rightarrow> i64 \<Rightarrow> panic + book" where
  "book_cancel b oid =
     and_then (id_remove b oid) (\<lambda>(slot, b).
     and_then (get_order b slot) (\<lambda>ord.
     let rm = qty ord - filled ord in
     and_then (tick_of (price_min b) (tick b) (price ord)) (\<lambda>t.
     and_then (unlink b slot (side ord) t rm) (\<lambda>b.
     and_then (free_slot b slot) (\<lambda>b.
     repair_best b (side ord) t)))))"

definition book_fill :: "book \<Rightarrow> i64 \<Rightarrow> panic + book" where
  "book_fill b oid =
     and_then (id_remove b oid) (\<lambda>(slot, b).
     and_then (get_order b slot) (\<lambda>ord.
     let rm = qty ord - filled ord in
     and_then (modify_order b slot (\<lambda>ord. ord\<lparr>filled := qty ord\<rparr>)) (\<lambda>b.
     and_then (tick_of (price_min b) (tick b) (price ord)) (\<lambda>t.
     and_then (unlink b slot (side ord) t rm) (\<lambda>b.
     and_then (free_slot b slot) (\<lambda>b.
     repair_best b (side ord) t))))))"

end
