(* ===== verification/Book_Inv.thy ===== *)
theory Book_Inv
  imports Book
begin

text \<open>
  What the flat book keeps true, and that its operations keep it. The invariant names, for
  every side and level, the slots of the level's FIFO (\<open>Q\<close>) and the slots of the free list
  (\<open>F\<close>): the levels list exactly the live slots of their price and side, the free list
  exactly the freed ones, the id map is the inverse of the order ids, the aggregates are the
  sum and the length of the FIFO, and the cached best levels are the best occupied ones.
\<close>

section \<open>The invariant\<close>

definition is_side :: "u8 \<Rightarrow> bool" where
  "is_side sd \<longleftrightarrow> sd = 0 \<or> sd = 1"

definition on_level :: "book \<Rightarrow> order \<Rightarrow> u8 \<Rightarrow> nat \<Rightarrow> bool" where
  "on_level b ord sd t \<longleftrightarrow>
     side ord = sd \<and> (case tick_of (price_min b) (tick b) (price ord) of
                        Inl _ \<Rightarrow> False | Inr w \<Rightarrow> unat w = t)"

definition used_slot :: "book \<Rightarrow> u32 \<Rightarrow> bool" where
  "used_slot b s \<longleftrightarrow> unat s < unat (hwm b) \<and> order_id (order_at (pool b) s) \<noteq> 0"

definition free_slot_of :: "book \<Rightarrow> u32 \<Rightarrow> bool" where
  "free_slot_of b s \<longleftrightarrow> unat s < unat (hwm b) \<and> order_id (order_at (pool b) s) = 0"

definition fifo_ok :: "order list \<Rightarrow> price_level \<Rightarrow> u32 list \<Rightarrow> bool" where
  "fifo_ok p l ss \<longleftrightarrow>
     dseg p NIL ss (head l) NIL (tail l) \<and> distinct ss \<and>
     lvl_count l = of_nat (length ss) \<and>
     qty_total l = sum_list (map (\<lambda>s. remaining (order_at p s)) ss)"

definition geometry_ok :: "book \<Rightarrow> bool" where
  "geometry_ok b \<longleftrightarrow>
     length (bids b) = unat (n_levels b) \<and> length (asks b) = unat (n_levels b) \<and>
     unat (n_levels b) < 2 ^ 31 \<and> length (pool b) < 2 ^ 32 \<and>
     unat (hwm b) \<le> length (pool b)"

definition levels_ok :: "book \<Rightarrow> (u8 \<Rightarrow> nat \<Rightarrow> u32 list) \<Rightarrow> bool" where
  "levels_ok b Q \<longleftrightarrow>
     (\<forall>sd t. is_side sd \<longrightarrow> t < unat (n_levels b) \<longrightarrow>
        fifo_ok (pool b) (lane b sd ! t) (Q sd t) \<and>
        (\<forall>s. s \<in> set (Q sd t) \<longleftrightarrow> used_slot b s \<and> on_level b (order_at (pool b) s) sd t))"

definition free_ok :: "book \<Rightarrow> u32 list \<Rightarrow> bool" where
  "free_ok b F \<longleftrightarrow>
     chain (pool b) (free_head b) F \<and> distinct F \<and> (\<forall>s. s \<in> set F \<longleftrightarrow> free_slot_of b s)"

definition ids_ok :: "book \<Rightarrow> bool" where
  "ids_ok b \<longleftrightarrow>
     (\<forall>i s. idmap b i = Some s \<longleftrightarrow> used_slot b s \<and> order_id (order_at (pool b) s) = i)"

definition grid_ok :: "book \<Rightarrow> bool" where
  "grid_ok b \<longleftrightarrow>
     (\<forall>s. used_slot b s \<longrightarrow>
        (\<exists>t < unat (n_levels b). on_level b (order_at (pool b) s) (side (order_at (pool b) s)) t)) \<and>
     (\<forall>i < length (pool b). is_side (side (pool b ! i))) \<and>
     (\<forall>i < length (pool b). unat (hwm b) \<le> i \<longrightarrow> pool b ! i = zero_order)"

definition bid_ok :: "price_level list \<Rightarrow> i32 \<Rightarrow> bool" where
  "bid_ok ls w \<longleftrightarrow>
     (w = - 1 \<and> (\<forall>i < length ls. head (ls ! i) = NIL)) \<or>
     (\<exists>i < length ls. w = of_nat i \<and> head (ls ! i) \<noteq> NIL \<and>
        (\<forall>j < length ls. i < j \<longrightarrow> head (ls ! j) = NIL))"

definition ask_ok :: "price_level list \<Rightarrow> i32 \<Rightarrow> bool" where
  "ask_ok ls w \<longleftrightarrow>
     (w = - 1 \<and> (\<forall>i < length ls. head (ls ! i) = NIL)) \<or>
     (\<exists>i < length ls. w = of_nat i \<and> head (ls ! i) \<noteq> NIL \<and>
        (\<forall>j < i. head (ls ! j) = NIL))"

definition core_inv :: "book \<Rightarrow> (u8 \<Rightarrow> nat \<Rightarrow> u32 list) \<Rightarrow> u32 list \<Rightarrow> bool" where
  "core_inv b Q F \<longleftrightarrow>
     geometry_ok b \<and> levels_ok b Q \<and> free_ok b F \<and> ids_ok b \<and> grid_ok b"

definition book_inv :: "book \<Rightarrow> (u8 \<Rightarrow> nat \<Rightarrow> u32 list) \<Rightarrow> u32 list \<Rightarrow> bool" where
  "book_inv b Q F \<longleftrightarrow>
     core_inv b Q F \<and> bid_ok (bids b) (best_bid b) \<and> ask_ok (asks b) (best_ask b)"

definition wf_book :: "book \<Rightarrow> bool" where
  "wf_book b \<longleftrightarrow> (\<exists>Q F. book_inv b Q F)"

lemmas book_inv_defs = book_inv_def core_inv_def geometry_ok_def

section \<open>Basic facts\<close>

lemma is_side_cases: "is_side sd \<Longrightarrow> (sd = 0 \<Longrightarrow> P) \<Longrightarrow> (sd = 1 \<Longrightarrow> P) \<Longrightarrow> P"
  by (auto simp: is_side_def)

lemma is_side_simps [simp]: "is_side 0" "is_side 1"
  by (simp_all add: is_side_def)

lemma lane_set_lane:
  "is_side sd \<Longrightarrow> is_side sd' \<Longrightarrow>
   lane (set_lane b sd ls) sd' = (if sd = sd' then ls else lane b sd')"
  by (auto simp: lane_def set_lane_def is_side_def)

lemma set_lane_simps [simp]:
  "price_min (set_lane b sd ls) = price_min b" "tick (set_lane b sd ls) = tick b"
  "n_levels (set_lane b sd ls) = n_levels b" "pool (set_lane b sd ls) = pool b"
  "hwm (set_lane b sd ls) = hwm b" "best_bid (set_lane b sd ls) = best_bid b"
  "best_ask (set_lane b sd ls) = best_ask b" "idmap (set_lane b sd ls) = idmap b"
  "free_head (set_lane b sd ls) = free_head b"
  "pool_update f (set_lane b sd ls) = set_lane (pool_update f b) sd ls"
  by (simp_all add: set_lane_def)

lemma lane_simps [simp]:
  "lane (b\<lparr>pool := p\<rparr>) sd = lane b sd" "lane (b\<lparr>hwm := h\<rparr>) sd = lane b sd"
  "lane (b\<lparr>free_head := f\<rparr>) sd = lane b sd" "lane (b\<lparr>idmap := m\<rparr>) sd = lane b sd"
  "lane (b\<lparr>best_bid := w\<rparr>) sd = lane b sd" "lane (b\<lparr>best_ask := w\<rparr>) sd = lane b sd"
  by (simp_all add: lane_def)

lemma on_level_unique: "on_level b ord sd t \<Longrightarrow> on_level b ord sd' t' \<Longrightarrow> sd = sd' \<and> t = t'"
  by (auto simp: on_level_def split: sum.splits)

lemma on_level_tick:
  "on_level b ord sd t \<longleftrightarrow>
   side ord = sd \<and> (\<exists>w. tick_of (price_min b) (tick b) (price ord) = Inr w \<and> unat w = t)"
  by (auto simp: on_level_def split: sum.splits)

lemma core_inv_lane_length:
  "core_inv b Q F \<Longrightarrow> is_side sd \<Longrightarrow> length (lane b sd) = unat (n_levels b)"
  by (auto simp: core_inv_def geometry_ok_def lane_def)

lemma core_inv_pool_bound: "core_inv b Q F \<Longrightarrow> length (pool b) < 4294967296"
  by (simp add: core_inv_def geometry_ok_def)

lemma core_inv_hwm: "core_inv b Q F \<Longrightarrow> unat (hwm b) \<le> length (pool b)"
  by (simp add: core_inv_def geometry_ok_def)

lemma core_inv_slot:
  "core_inv b Q F \<Longrightarrow> unat s < unat (hwm b) \<Longrightarrow> unat s < length (pool b) \<and> s \<noteq> NIL"
  using core_inv_hwm core_inv_pool_bound slot_not_NIL by fastforce

lemma core_inv_fifo:
  "core_inv b Q F \<Longrightarrow> is_side sd \<Longrightarrow> t < unat (n_levels b) \<Longrightarrow>
   fifo_ok (pool b) (lane b sd ! t) (Q sd t)"
  by (simp add: core_inv_def levels_ok_def)

lemma core_inv_mem:
  "core_inv b Q F \<Longrightarrow> is_side sd \<Longrightarrow> t < unat (n_levels b) \<Longrightarrow>
   s \<in> set (Q sd t) \<longleftrightarrow> used_slot b s \<and> on_level b (order_at (pool b) s) sd t"
  by (simp add: core_inv_def levels_ok_def)

lemma core_inv_id:
  "core_inv b Q F \<Longrightarrow>
   idmap b i = Some s \<longleftrightarrow> used_slot b s \<and> order_id (order_at (pool b) s) = i"
  by (simp add: core_inv_def ids_ok_def)

lemma core_inv_free_mem: "core_inv b Q F \<Longrightarrow> s \<in> set F \<longleftrightarrow> free_slot_of b s"
  by (simp add: core_inv_def free_ok_def)

lemma core_inv_grid:
  assumes "core_inv b Q F" and "used_slot b s"
  obtains sd t where "is_side sd" and "t < unat (n_levels b)"
    and "on_level b (order_at (pool b) s) sd t" and "sd = side (order_at (pool b) s)"
proof -
  from assms obtain t where t: "t < unat (n_levels b)"
    "on_level b (order_at (pool b) s) (side (order_at (pool b) s)) t"
    by (auto simp: core_inv_def grid_ok_def)
  have "unat s < length (pool b)"
    using core_inv_slot [OF assms(1)] assms(2) by (simp add: used_slot_def)
  then have "is_side (side (order_at (pool b) s))"
    using assms(1) by (simp add: core_inv_def grid_ok_def)
  with t show thesis using that by blast
qed

lemma fifo_ok_empty: "fifo_ok p l [] \<longleftrightarrow> l = empty_level"
  by (auto simp: fifo_ok_def empty_level_def)

lemma fifo_ok_head: "fifo_ok p l ss \<Longrightarrow> head l = NIL \<longleftrightarrow> ss = []"
  using dseg_NIL_iff by (auto simp: fifo_ok_def)

lemma fifo_ok_tail: "fifo_ok p l ss \<Longrightarrow> tail l = (if ss = [] then NIL else last ss)"
  by (auto simp: fifo_ok_def dest: dseg_last)

text \<open>A write that keeps the links and the quantities of the listed slots keeps the level.\<close>

lemma fifo_ok_cong:
  assumes "length p = length p'"
    and "\<And>s. s \<in> set ss \<Longrightarrow> order_at p' s = order_at p s"
  shows "fifo_ok p' l ss = fifo_ok p l ss"
proof -
  have "dseg p' NIL ss (head l) NIL (tail l) = dseg p NIL ss (head l) NIL (tail l)"
    using assms by (intro dseg_cong) auto
  moreover have "map (\<lambda>s. remaining (order_at p' s)) ss = map (\<lambda>s. remaining (order_at p s)) ss"
    using assms by simp
  ultimately show ?thesis by (simp only: fifo_ok_def)
qed

section \<open>The empty book\<close>

lemma book_inv_new:
  assumes "cfg_cap cfg < 2 ^ 32" and "unat (cfg_levels cfg) < 2 ^ 31"
  shows "book_inv (book_new cfg) (\<lambda>_ _. []) []"
proof -
  have emp: "fifo_ok p empty_level []" for p by (simp add: fifo_ok_empty)
  have "head empty_level = NIL" by (simp add: empty_level_def)
  then show ?thesis
    using assms emp
    by (auto simp: book_inv_defs levels_ok_def free_ok_def ids_ok_def grid_ok_def bid_ok_def
        ask_ok_def book_new_def used_slot_def free_slot_of_def lane_def zero_order_def)
qed

section \<open>The cached best levels\<close>

lemma minus_one_neq_level: "i < 2 ^ 31 \<Longrightarrow> (of_nat i :: i32) \<noteq> - 1"
proof
  assume i: "i < 2 ^ 31" and "(of_nat i :: i32) = - 1"
  then have "unat (of_nat i :: i32) = unat NIL" by (simp add: NIL_def)
  with i unat_of_nat_u32 [of i] unat_NIL show False by simp
qed

lemma raise_bid_ok:
  assumes "bid_ok ls w" and "t < length ls" and "length ls < 2 ^ 31"
    and "head l \<noteq> NIL" and "u = of_nat t"
  shows "bid_ok (ls[t := l]) (raise_bid 0 u w)"
proof -
  have ut: "unat u = t" "unat u < 2 ^ 31" using assms by (simp_all add: unat_of_nat_u32)
  from assms(1) consider
      (none) "w = - 1" "\<forall>i < length ls. head (ls ! i) = NIL"
    | (some) i where "i < length ls" "w = of_nat i" "head (ls ! i) \<noteq> NIL"
        "\<forall>j < length ls. i < j \<longrightarrow> head (ls ! j) = NIL"
    by (auto simp: bid_ok_def)
  then show ?thesis
  proof cases
    case none
    have "(- 1 :: i32) <s 0" by simp
    with none have "raise_bid 0 u w = u" by (simp add: raise_bid_def)
    moreover have "bid_ok (ls[t := l]) u"
      unfolding bid_ok_def using none assms by (auto simp: nth_list_update intro!: exI [of _ t])
    ultimately show ?thesis by simp
  next
    case some
    have ui: "unat w = i" "unat w < 2 ^ 31" using some assms by (simp_all add: unat_of_nat_u32)
    have n0: "\<not> w <s 0" using ui sless_u31 [of w 0] by simp
    have "w <s u \<longleftrightarrow> i < t" using ui ut sless_u31 by simp
    with n0 have r: "raise_bid 0 u w = (if i < t then u else w)" by (simp add: raise_bid_def)
    show ?thesis
    proof (cases "i < t")
      case True
      then show ?thesis unfolding r bid_ok_def using some assms
        by (auto simp: nth_list_update intro!: exI [of _ t])
    next
      case False
      then show ?thesis unfolding r bid_ok_def using some assms
        by (auto simp: nth_list_update intro!: exI [of _ i])
    qed
  qed
qed

lemma lower_ask_ok:
  assumes "ask_ok ls w" and "t < length ls" and "length ls < 2 ^ 31"
    and "head l \<noteq> NIL" and "u = of_nat t"
  shows "ask_ok (ls[t := l]) (lower_ask 1 u w)"
proof -
  have ut: "unat u = t" "unat u < 2 ^ 31" using assms by (simp_all add: unat_of_nat_u32)
  from assms(1) consider
      (none) "w = - 1" "\<forall>i < length ls. head (ls ! i) = NIL"
    | (some) i where "i < length ls" "w = of_nat i" "head (ls ! i) \<noteq> NIL"
        "\<forall>j < i. head (ls ! j) = NIL"
    by (auto simp: ask_ok_def)
  then show ?thesis
  proof cases
    case none
    have "(- 1 :: i32) <s 0" by simp
    with none have "lower_ask 1 u w = u" by (simp add: lower_ask_def)
    moreover have "ask_ok (ls[t := l]) u"
      unfolding ask_ok_def using none assms by (auto simp: nth_list_update intro!: exI [of _ t])
    ultimately show ?thesis by simp
  next
    case some
    have ui: "unat w = i" "unat w < 2 ^ 31" using some assms by (simp_all add: unat_of_nat_u32)
    have n0: "\<not> w <s 0" using ui sless_u31 [of w 0] by simp
    have "u <s w \<longleftrightarrow> t < i" using ui ut sless_u31 by simp
    with n0 have r: "lower_ask 1 u w = (if t < i then u else w)" by (simp add: lower_ask_def)
    show ?thesis
    proof (cases "t < i")
      case True
      then show ?thesis unfolding r ask_ok_def using some assms
        by (auto simp: nth_list_update intro!: exI [of _ t])
    next
      case False
      then show ?thesis unfolding r ask_ok_def using some assms
        by (auto simp: nth_list_update intro!: exI [of _ i])
    qed
  qed
qed

text \<open>Only the occupied levels matter.\<close>

lemma bid_ok_heads:
  assumes "map head ls = map head ls'"
  shows "bid_ok ls w = bid_ok ls' w"
proof -
  have "length ls = length ls'" using assms by (metis length_map)
  moreover have "i < length ls' \<Longrightarrow> head (ls ! i) = head (ls' ! i)" for i
    using assms by (metis calculation nth_map)
  ultimately show ?thesis by (auto simp: bid_ok_def)
qed

lemma ask_ok_heads:
  assumes "map head ls = map head ls'"
  shows "ask_ok ls w = ask_ok ls' w"
proof -
  have "length ls = length ls'" using assms by (metis length_map)
  moreover have "i < length ls' \<Longrightarrow> head (ls ! i) = head (ls' ! i)" for i
    using assms by (metis calculation nth_map)
  ultimately show ?thesis by (auto simp: ask_ok_def)
qed

text \<open>The rescan after a removal: it never indexes out of the lane it walks.\<close>

lemma scan_down_ok:
  assumes "k \<le> length ls" and "\<And>j. j < length ls \<Longrightarrow> k \<le> j \<Longrightarrow> head (ls ! j) = NIL"
  shows "\<exists>w. scan_best ls (rev [0..<k]) = Inr w \<and> bid_ok ls w"
  using assms
proof (induction k)
  case 0
  then show ?case by (simp add: bid_ok_def)
next
  case (Suc k)
  then have k: "k < length ls" by simp
  show ?case
  proof (cases "head (ls ! k) = NIL")
    case True
    have "head (ls ! j) = NIL" if "j < length ls" "k \<le> j" for j
      using that True Suc.prems(2) [of j] by (cases "j = k") auto
    with Suc.IH k True show ?thesis by (simp add: idx_simps)
  next
    case False
    then have "bid_ok ls (of_nat k)"
      unfolding bid_ok_def using k Suc.prems by (intro disjI2 exI [of _ k]) auto
    with False k show ?thesis by (simp add: idx_simps)
  qed
qed

lemma scan_up_ok:
  assumes "k \<le> length ls" and "\<And>j. j < k \<Longrightarrow> head (ls ! j) = NIL"
  shows "\<exists>w. scan_best ls [k..<length ls] = Inr w \<and> ask_ok ls w"
  using assms
proof (induction "length ls - k" arbitrary: k)
  case 0
  then show ?case by (auto simp: ask_ok_def)
next
  case (Suc d)
  then have k: "k < length ls" and range: "[k..<length ls] = k # [Suc k..<length ls]"
    by (simp_all add: upt_conv_Cons)
  show ?case
  proof (cases "head (ls ! k) = NIL")
    case True
    have "head (ls ! j) = NIL" if "j < Suc k" for j
      using that True Suc.prems(2) [of j] by (cases "j = k") auto
    with Suc.hyps(1) [of "Suc k"] Suc.hyps(2) k True show ?thesis
      unfolding range by (simp add: idx_simps)
  next
    case False
    then have "ask_ok ls (of_nat k)"
      unfolding ask_ok_def using k Suc.prems by (intro disjI2 exI [of _ k]) auto
    with False k show ?thesis unfolding range by (simp add: idx_simps)
  qed
qed

text \<open>Emptying or shortening one level, then \<open>repair_best\<close>, leaves the cached bests right.\<close>

lemma bid_ok_shorten:
  assumes "bid_ok ls w" and "t < length ls" and "length ls < 2 ^ 31"
    and "head l \<noteq> NIL \<or> w \<noteq> of_nat t" and "head (ls ! t) \<noteq> NIL"
  shows "bid_ok (ls[t := l]) w"
proof -
  from assms(1,2,5) obtain i where i: "i < length ls" "w = of_nat i" "head (ls ! i) \<noteq> NIL"
    "\<forall>j < length ls. i < j \<longrightarrow> head (ls ! j) = NIL"
    by (auto simp: bid_ok_def)
  with assms have "t \<le> i" by (meson leI)
  with i assms show ?thesis
    unfolding bid_ok_def by (intro disjI2 exI [of _ i]) (auto simp: nth_list_update)
qed

lemma ask_ok_shorten:
  assumes "ask_ok ls w" and "t < length ls" and "length ls < 2 ^ 31"
    and "head l \<noteq> NIL \<or> w \<noteq> of_nat t" and "head (ls ! t) \<noteq> NIL"
  shows "ask_ok (ls[t := l]) w"
proof -
  from assms(1,2,5) obtain i where i: "i < length ls" "w = of_nat i" "head (ls ! i) \<noteq> NIL"
    "\<forall>j < i. head (ls ! j) = NIL"
    by (auto simp: ask_ok_def)
  with assms have "i \<le> t" by (meson leI)
  with i assms show ?thesis
    unfolding ask_ok_def by (intro disjI2 exI [of _ i]) (auto simp: nth_list_update)
qed

lemma bid_ok_above:
  assumes "bid_ok ls (of_nat t)" and "t < length ls" and "length ls < 2 ^ 31"
    and "j < length ls" and "t < j"
  shows "head (ls ! j) = NIL"
  using assms of_nat_eq_u32 by (fastforce simp: bid_ok_def)

lemma ask_ok_below:
  assumes "ask_ok ls (of_nat t)" and "t < length ls" and "length ls < 2 ^ 31" and "j < t"
  shows "head (ls ! j) = NIL"
  using assms of_nat_eq_u32 by (fastforce simp: ask_ok_def)

section \<open>Changing one level\<close>

text \<open>
  An operation touches one level: the slots of its FIFO before and after are the only ones it
  writes. Everything the invariant says of the other levels then still holds.
\<close>

definition set_queue ::
  "(u8 \<Rightarrow> nat \<Rightarrow> u32 list) \<Rightarrow> u8 \<Rightarrow> nat \<Rightarrow> u32 list \<Rightarrow> u8 \<Rightarrow> nat \<Rightarrow> u32 list" where
  "set_queue Q sd t ss = Q(sd := (Q sd)(t := ss))"

lemma set_queue_apply:
  "set_queue Q sd t ss sd' t' = (if sd = sd' \<and> t = t' then ss else Q sd' t')"
  by (simp add: set_queue_def)

definition same_grid :: "book \<Rightarrow> book \<Rightarrow> bool" where
  "same_grid b b' \<longleftrightarrow>
     price_min b' = price_min b \<and> tick b' = tick b \<and> n_levels b' = n_levels b \<and>
     length (bids b') = length (bids b) \<and> length (asks b') = length (asks b) \<and>
     length (pool b') = length (pool b)"

lemma on_level_cong:
  "price_min b' = price_min b \<Longrightarrow> tick b' = tick b \<Longrightarrow> price ord' = price ord \<Longrightarrow>
   side ord' = side ord \<Longrightarrow> on_level b' ord' sd t = on_level b ord sd t"
  by (simp add: on_level_def)

lemma level_change:
  assumes inv: "core_inv b Q F" and sd: "is_side sd" and t: "t < unat (n_levels b)"
    and grid: "same_grid b b'" and hwm: "unat (hwm b') \<le> length (pool b)"
    and lanes: "\<And>sd' t'. is_side sd' \<Longrightarrow> sd' \<noteq> sd \<or> t' \<noteq> t \<Longrightarrow> lane b' sd' ! t' = lane b sd' ! t'"
    and fifo: "fifo_ok (pool b') (lane b' sd ! t) ss"
    and new: "\<And>u. u \<in> set ss \<Longrightarrow>
        used_slot b' u \<and> on_level b' (order_at (pool b') u) sd t \<and>
        (u \<in> set (Q sd t) \<or> \<not> used_slot b u)"
    and gone: "\<And>u. u \<in> set (Q sd t) \<Longrightarrow> u \<notin> set ss \<Longrightarrow> \<not> used_slot b' u"
    and rest: "\<And>u. u \<notin> set (Q sd t) \<Longrightarrow> u \<notin> set ss \<Longrightarrow>
        order_at (pool b') u = order_at (pool b) u \<and>
        (unat u < unat (hwm b') \<longleftrightarrow> unat u < unat (hwm b))"
  shows "geometry_ok b' \<and> levels_ok b' (set_queue Q sd t ss) \<and>
    (\<forall>s. used_slot b' s \<longrightarrow> (\<exists>i < unat (n_levels b').
       on_level b' (order_at (pool b') s) (side (order_at (pool b') s)) i))"
proof -
  have geo: "geometry_ok b'"
    using inv grid hwm by (simp add: core_inv_def geometry_ok_def same_grid_def)
  have same: "on_level b' ord sd' t' = on_level b ord sd' t'" for ord sd' t'
    using grid by (simp add: same_grid_def on_level_def)
  have used: "used_slot b' u = used_slot b u" if "u \<notin> set (Q sd t)" "u \<notin> set ss" for u
    using rest [OF that] by (simp add: used_slot_def)
  have memq: "u \<in> set (Q sd' t') \<longleftrightarrow> used_slot b u \<and> on_level b (order_at (pool b) u) sd' t'"
    if "is_side sd'" "t' < unat (n_levels b)" for u sd' t'
    using core_inv_mem [OF inv that] .
  have mem: "u \<in> set (Q sd' t') \<longleftrightarrow>
      used_slot b' u \<and> on_level b' (order_at (pool b') u) sd' t'"
    if st: "is_side sd'" "t' < unat (n_levels b)" "sd' \<noteq> sd \<or> t' \<noteq> t" for u sd' t'
  proof (cases "u \<in> set ss")
    case True
    then have "on_level b (order_at (pool b') u) sd t" using new same by simp
    then have "\<not> on_level b' (order_at (pool b') u) sd' t'"
      using on_level_unique st(3) same by metis
    moreover have "u \<notin> set (Q sd' t')"
      using new [OF True] memq [OF sd t, of u] memq [OF st(1,2), of u] on_level_unique st(3)
      by metis
    ultimately show ?thesis by simp
  next
    case False
    show ?thesis
    proof (cases "u \<in> set (Q sd t)")
      case True
      then have "u \<notin> set (Q sd' t')"
        using memq [OF sd t, of u] memq [OF st(1,2), of u] on_level_unique st(3) by metis
      with gone [OF True False] show ?thesis by simp
    next
      case nq: False
      show ?thesis using memq [OF st(1,2)] used [OF nq False] rest [OF nq False] same by simp
    qed
  qed
  have other: "fifo_ok (pool b') (lane b' sd' ! t') (Q sd' t')"
    if st: "is_side sd'" "t' < unat (n_levels b)" "sd' \<noteq> sd \<or> t' \<noteq> t" for sd' t'
  proof -
    have "order_at (pool b') u = order_at (pool b) u" if u: "u \<in> set (Q sd' t')" for u
    proof -
      have "u \<notin> set (Q sd t)" and "u \<notin> set ss"
        using u new [of u] memq [OF sd t, of u] memq [OF st(1,2), of u] on_level_unique st(3)
        by metis+
      then show ?thesis using rest by blast
    qed
    then have "fifo_ok (pool b') (lane b sd' ! t') (Q sd' t')"
      using core_inv_fifo [OF inv st(1,2)] grid
      by (subst fifo_ok_cong [of "pool b"]) (auto simp: same_grid_def)
    then show ?thesis using lanes st by simp
  qed
  have here: "u \<in> set ss \<longleftrightarrow> used_slot b' u \<and> on_level b' (order_at (pool b') u) sd t" for u
    using new [of u] gone [of u] used [of u] rest [of u] memq [OF sd t, of u] same by metis
  have nl: "n_levels b' = n_levels b" using grid by (simp add: same_grid_def)
  have "fifo_ok (pool b') (lane b' sd' ! t') (set_queue Q sd t ss sd' t') \<and>
      (\<forall>u. u \<in> set (set_queue Q sd t ss sd' t') \<longleftrightarrow>
         used_slot b' u \<and> on_level b' (order_at (pool b') u) sd' t')"
    if st: "is_side sd'" "t' < unat (n_levels b)" for sd' t'
  proof (cases "sd' = sd \<and> t' = t")
    case True
    then show ?thesis using fifo here by (simp add: set_queue_apply)
  next
    case False
    then show ?thesis using mem st other by (auto simp: set_queue_apply)
  qed
  then have lev: "levels_ok b' (set_queue Q sd t ss)" unfolding levels_ok_def nl by blast
  have "\<exists>i < unat (n_levels b').
      on_level b' (order_at (pool b') s) (side (order_at (pool b') s)) i" if s: "used_slot b' s"
    for s
  proof (cases "s \<in> set ss")
    case True
    then have "on_level b' (order_at (pool b') s) sd t" using new by simp
    then show ?thesis using t nl by (auto simp: on_level_def)
  next
    case False
    then have nq: "s \<notin> set (Q sd t)" using gone s by blast
    with False s have "used_slot b s" using used by simp
    then obtain sd' t' where "t' < unat (n_levels b)" "on_level b (order_at (pool b) s) sd' t'"
      "sd' = side (order_at (pool b) s)"
      by (rule core_inv_grid [OF inv])
    then show ?thesis using rest [OF nq False] same nl by auto
  qed
  with geo lev show ?thesis by blast
qed

end
