(* ===== verification/Book_Ops.thy ===== *)
theory Book_Ops
  imports Book_Inv
begin

text \<open>
  What insert, update, cancel and fill do to a book that satisfies the invariant: none of
  them panics, the books they reach are given explicitly, and the invariant holds again with
  the FIFO of one level changed (a slot appended, nothing, or a slot removed).
\<close>

section \<open>Taking a slot\<close>

text \<open>The book has room: some slot is free or was never used.\<close>

definition has_room :: "book \<Rightarrow> bool" where
  "has_room b \<longleftrightarrow> free_head b \<noteq> NIL \<or> unat (hwm b) < length (pool b)"

lemma alloc_spec:
  assumes inv: "core_inv b Q F" and room: "has_room b"
  obtains s h fh F' where "alloc_slot b = Inr (s, b\<lparr>free_head := fh, hwm := h\<rparr>)"
    and "unat s < length (pool b)" and "s \<noteq> NIL" and "\<not> used_slot b s"
    and "unat h \<le> length (pool b)" and "unat s < unat h"
    and "\<forall>u. u \<noteq> s \<longrightarrow> (unat u < unat h \<longleftrightarrow> unat u < unat (hwm b))"
    and "chain (pool b) fh F'" and "distinct F'" and "set F' = {u. free_slot_of b u} - {s}"
proof (cases "free_head b = NIL")
  case True
  have F: "F = []" using inv True by (cases F) (auto simp: core_inv_def free_ok_def)
  have lt: "unat (hwm b) < length (pool b)" using room True by (simp add: has_room_def)
  have bd: "length (pool b) < 4294967296" by (rule core_inv_pool_bound [OF inv])
  have h: "unat (hwm b + 1) = Suc (unat (hwm b))" using lt bd by (intro unat_Suc_u32) simp
  have "alloc_slot b = Inr (hwm b, b\<lparr>free_head := free_head b, hwm := hwm b + 1\<rparr>)"
    using True lt by (simp add: alloc_slot_def)
  moreover have "unat u < unat (hwm b + 1) \<longleftrightarrow> unat u < unat (hwm b)" if "u \<noteq> hwm b" for u
    using that h by (auto simp: word_unat_eq_iff)
  moreover have "{u. free_slot_of b u} - {hwm b} = set []"
    using core_inv_free_mem [OF inv] F by auto
  ultimately show thesis
    using True lt h slot_not_NIL [OF lt bd]
    by (intro that [of "hwm b" "hwm b + 1" "free_head b" "[]"]) (auto simp: used_slot_def)
next
  case False
  with inv obtain s F' where F: "F = s # F'" by (cases F) (auto simp: core_inv_def free_ok_def)
  then have s: "free_head b = s" "s \<noteq> NIL" "unat s < length (pool b)"
    and F': "chain (pool b) (next_slot (order_at (pool b) s)) F'" "distinct F'" "s \<notin> set F'"
    and mem: "\<And>u. u \<in> set (s # F') \<longleftrightarrow> free_slot_of b u"
    using inv by (auto simp: core_inv_def free_ok_def)
  have "free_slot_of b s" using mem by auto
  then have fs: "unat s < unat (hwm b)" "\<not> used_slot b s"
    by (simp_all add: free_slot_of_def used_slot_def)
  have "alloc_slot b = Inr (s, b\<lparr>free_head := next_slot (order_at (pool b) s), hwm := hwm b\<rparr>)"
    using False s by (simp add: alloc_slot_def get_order_def idx_simps)
  moreover have "set F' = {u. free_slot_of b u} - {s}"
    using mem F'(3) by auto
  ultimately show thesis
    using s fs F' core_inv_hwm [OF inv]
    by (intro that [of s "hwm b" "next_slot (order_at (pool b) s)" F']) auto
qed

section \<open>Insert\<close>

text \<open>
  The book an insert reaches: the order in the slot taken, linked behind the old tail, the
  level's aggregates, the id map and the cached bests.
\<close>

definition inserted ::
  "book \<Rightarrow> u32 \<Rightarrow> u32 \<Rightarrow> u32 \<Rightarrow> u32 \<Rightarrow> i64 \<Rightarrow> i64 \<Rightarrow> i64 \<Rightarrow> u8 \<Rightarrow> book" where
  "inserted b s fh h t oid pr q sd =
     (let lvl = lane b sd ! unat t;
          ord = \<lparr>order_id = oid, price = pr, qty = q, filled = 0,
                 next_slot = NIL, prev_slot = tail lvl, side = sd\<rparr>;
          p = set_next ((pool b)[unat s := ord]) (tail lvl) s
      in set_lane (b\<lparr>free_head := fh, hwm := h, pool := p, idmap := (idmap b)(oid \<mapsto> s),
              best_bid := raise_bid sd t (best_bid b), best_ask := lower_ask sd t (best_ask b)\<rparr>)
           sd ((lane b sd)[unat t := level_push s q lvl]))"

lemma inserted_simps [simp]:
  "price_min (inserted b s fh h t oid pr q sd) = price_min b"
  "tick (inserted b s fh h t oid pr q sd) = tick b"
  "n_levels (inserted b s fh h t oid pr q sd) = n_levels b"
  "hwm (inserted b s fh h t oid pr q sd) = h"
  "free_head (inserted b s fh h t oid pr q sd) = fh"
  "best_bid (inserted b s fh h t oid pr q sd) = raise_bid sd t (best_bid b)"
  "best_ask (inserted b s fh h t oid pr q sd) = lower_ask sd t (best_ask b)"
  "idmap (inserted b s fh h t oid pr q sd) = (idmap b)(oid \<mapsto> s)"
  "length (bids (inserted b s fh h t oid pr q sd)) = length (bids b)"
  "length (asks (inserted b s fh h t oid pr q sd)) = length (asks b)"
  "length (pool (inserted b s fh h t oid pr q sd)) = length (pool b)"
  by (simp_all add: inserted_def Let_def set_lane_def lane_def)

lemma lane_inserted:
  "is_side sd \<Longrightarrow> is_side sd' \<Longrightarrow> lane (inserted b s fh h t oid pr q sd) sd' =
     (if sd = sd' then (lane b sd)[unat t := level_push s q (lane b sd ! unat t)] else lane b sd')"
  by (simp add: inserted_def Let_def lane_set_lane)

lemma pool_inserted:
  "pool (inserted b s fh h t oid pr q sd) =
     set_next ((pool b)[unat s := \<lparr>order_id = oid, price = pr, qty = q, filled = 0,
                 next_slot = NIL, prev_slot = tail (lane b sd ! unat t), side = sd\<rparr>])
       (tail (lane b sd ! unat t)) s"
  by (simp add: inserted_def Let_def)

lemma set_lane_update:
  "set_lane (b\<lparr>pool := p\<rparr>) sd ls = (set_lane b sd ls)\<lparr>pool := p\<rparr>"
  "set_lane (b\<lparr>idmap := m\<rparr>) sd ls = (set_lane b sd ls)\<lparr>idmap := m\<rparr>"
  "set_lane (b\<lparr>best_bid := w\<rparr>) sd ls = (set_lane b sd ls)\<lparr>best_bid := w\<rparr>"
  "set_lane (b\<lparr>best_ask := w\<rparr>) sd ls = (set_lane b sd ls)\<lparr>best_ask := w\<rparr>"
  "set_lane (b\<lparr>free_head := fh\<rparr>) sd ls = (set_lane b sd ls)\<lparr>free_head := fh\<rparr>"
  "set_lane (b\<lparr>hwm := h\<rparr>) sd ls = (set_lane b sd ls)\<lparr>hwm := h\<rparr>"
  by (simp_all add: set_lane_def)

lemma book_insert_run:
  assumes "alloc_slot b = Inr (s, b\<lparr>free_head := fh, hwm := h\<rparr>)"
    and "tick_of (price_min b) (tick b) pr = Inr t" and "unat t < length (lane b sd)"
    and "unat s < length (pool b)"
    and "tail (lane b sd ! unat t) = NIL \<or> unat (tail (lane b sd ! unat t)) < length (pool b)"
  shows "book_insert b oid pr q sd = Inr (inserted b s fh h t oid pr q sd)"
  using assms
  by (cases "sd = 0"; cases "tail (lane b sd ! unat t) = NIL")
    (simp_all add: book_insert_def get_level_def modify_order_def modify_level_def idx_simps
      inserted_def Let_def set_next_def set_lane_def lane_def)

text \<open>The level written by an insert, and the order of every slot afterwards.\<close>

lemma order_at_inserted:
  assumes "unat s < length (pool b)" and "s \<noteq> tail (lane b sd ! unat t)"
  shows "order_at (pool (inserted b s fh h t oid pr q sd)) u =
    (if u = s then \<lparr>order_id = oid, price = pr, qty = q, filled = 0, next_slot = NIL,
        prev_slot = tail (lane b sd ! unat t), side = sd\<rparr>
     else if u = tail (lane b sd ! unat t) \<and> u \<noteq> NIL \<and> unat u < length (pool b)
     then (order_at (pool b) u)\<lparr>next_slot := s\<rparr>
     else order_at (pool b) u)"
  unfolding pool_inserted using assms by (auto simp: order_at_set_next order_at_update)

lemma fifo_ok_push:
  assumes "fifo_ok p l ss" and "s \<notin> set ss" and "s \<noteq> NIL" and "unat s < length p"
    and "prev_slot ord = tail l" and "next_slot ord = NIL" and "remaining ord = q"
  shows "fifo_ok (set_next (p[unat s := ord]) (tail l) s) (level_push s q l) (ss @ [s])"
proof -
  let ?p = "set_next (p[unat s := ord]) (tail l) s"
  have d: "dseg p NIL ss (head l) NIL (tail l)" "distinct ss"
    using assms(1) by (simp_all add: fifo_ok_def)
  have "dseg ?p NIL (ss @ [s]) (if tail l = NIL then s else head l) NIL s"
    using d assms by (intro dseg_snoc) auto
  moreover have "remaining (order_at ?p u) = remaining (order_at p u)" if "u \<in> set ss" for u
    using that assms(2) by (auto simp: order_at_update)
  moreover have "remaining (order_at ?p s) = q"
    using assms by (simp add: order_at_update)
  ultimately show ?thesis
    using assms(1,2)
    by (cases "tail l = NIL") (simp_all add: fifo_ok_def level_push_def Let_def cong: map_cong)
qed

text \<open>
  Entering an order into any unused slot \<open>s\<close>, be it taken from the free list or from above the
  high-water mark, keeps the invariant.
\<close>

lemma inserted_inv:
  assumes inv: "book_inv b Q F" and sd: "is_side sd" and tk: "tick_of (price_min b) (tick b) pr = Inr t"
    and t: "unat t < unat (n_levels b)" and oid: "oid \<noteq> 0" "idmap b oid = None"
    and s: "unat s < length (pool b)" "s \<noteq> NIL" "\<not> used_slot b s"
    and h: "unat h \<le> length (pool b)" "unat s < unat h"
      "\<forall>u. u \<noteq> s \<longrightarrow> (unat u < unat h \<longleftrightarrow> unat u < unat (hwm b))"
    and F': "chain (pool b) fh F'" "distinct F'" "set F' = {u. free_slot_of b u} - {s}"
  shows "book_inv (inserted b s fh h t oid pr q sd)
      (set_queue Q sd (unat t) (Q sd (unat t) @ [s])) F'"
proof -
  have core: "core_inv b Q F" and bb: "bid_ok (bids b) (best_bid b)" "ask_ok (asks b) (best_ask b)"
    using inv by (simp_all add: book_inv_def)
  let ?b = "inserted b s fh h t oid pr q sd" and ?ss = "Q sd (unat t)"
  let ?lvl = "lane b sd ! unat t"
  have fifo: "fifo_ok (pool b) ?lvl ?ss" by (rule core_inv_fifo [OF core sd t])
  have mem: "u \<in> set ?ss \<longleftrightarrow> used_slot b u \<and> on_level b (order_at (pool b) u) sd (unat t)" for u
    by (rule core_inv_mem [OF core sd t])
  have s_ss: "s \<notin> set ?ss" using mem s by simp
  have tl: "tail ?lvl = NIL \<or> tail ?lvl \<in> set ?ss" using fifo_ok_tail [OF fifo] by simp
  have s_tl: "s \<noteq> tail ?lvl" using tl s_ss s by auto
  have ln: "length (lane b sd) = unat (n_levels b)" by (rule core_inv_lane_length [OF core sd])
  have at: "order_at (pool ?b) u =
      (if u = s then \<lparr>order_id = oid, price = pr, qty = q, filled = 0, next_slot = NIL,
          prev_slot = tail ?lvl, side = sd\<rparr>
       else if u = tail ?lvl \<and> u \<noteq> NIL \<and> unat u < length (pool b)
       then (order_at (pool b) u)\<lparr>next_slot := s\<rparr> else order_at (pool b) u)" for u
    by (rule order_at_inserted [OF s(1) s_tl])
  have used: "used_slot ?b u \<longleftrightarrow> u = s \<or> used_slot b u" for u
    using h oid at [of u] by (auto simp: used_slot_def)
  have fifo': "fifo_ok (pool ?b) (lane ?b sd ! unat t) (?ss @ [s])"
  proof -
    have "lane ?b sd ! unat t = level_push s q ?lvl" using sd t ln by (simp add: lane_inserted)
    then show ?thesis
      unfolding pool_inserted using fifo s_ss s by (simp add: fifo_ok_push remaining_def)
  qed
  have onl: "on_level ?b (order_at (pool ?b) u) sd (unat t)" if "u \<in> set (?ss @ [s])" for u
    using that mem [of u] tk at [of u] by (auto simp: on_level_def)
  have lc: "geometry_ok ?b \<and> levels_ok ?b (set_queue Q sd (unat t) (?ss @ [s])) \<and>
    (\<forall>u. used_slot ?b u \<longrightarrow> (\<exists>i < unat (n_levels ?b).
        on_level ?b (order_at (pool ?b) u) (side (order_at (pool ?b) u)) i))"
    using core sd t
  proof (rule level_change)
    show "same_grid b ?b" by (simp add: same_grid_def)
    show "unat (hwm ?b) \<le> length (pool b)" using h by simp
    show "lane ?b sd' ! t' = lane b sd' ! t'" if "is_side sd'" "sd' \<noteq> sd \<or> t' \<noteq> unat t" for sd' t'
      using that sd by (auto simp: lane_inserted)
    show "fifo_ok (pool ?b) (lane ?b sd ! unat t) (?ss @ [s])" by (rule fifo')
    show "used_slot ?b u \<and> on_level ?b (order_at (pool ?b) u) sd (unat t) \<and>
        (u \<in> set ?ss \<or> \<not> used_slot b u)" if "u \<in> set (?ss @ [s])" for u
      using that onl [OF that] used mem [of u] s by auto
    show "\<not> used_slot ?b u" if "u \<in> set ?ss" "u \<notin> set (?ss @ [s])" for u
      using that by simp
    show "order_at (pool ?b) u = order_at (pool b) u \<and>
        (unat u < unat (hwm ?b) \<longleftrightarrow> unat u < unat (hwm b))"
      if "u \<notin> set ?ss" "u \<notin> set (?ss @ [s])" for u
      using that tl h at [of u] by auto
  qed
  have ids: "ids_ok ?b"
  proof -
    have "idmap b i = Some u \<longleftrightarrow> used_slot b u \<and> order_id (order_at (pool b) u) = i" for i u
      by (rule core_inv_id [OF core])
    moreover from this oid(2) have "\<And>u. used_slot b u \<Longrightarrow> order_id (order_at (pool b) u) \<noteq> oid"
      by (metis option.distinct(1))
    moreover have "order_id (order_at (pool ?b) u) = (if u = s then oid else order_id (order_at (pool b) u))"
      for u using at by simp
    ultimately show ?thesis using s used by (auto simp: ids_ok_def)
  qed
  have free: "free_ok ?b F'"
  proof -
    have "free_slot_of ?b u \<longleftrightarrow> u \<in> set F'" for u
      using F' h at [of u] oid by (auto simp: free_slot_of_def)
    moreover have "next_slot (order_at (pool ?b) u) = next_slot (order_at (pool b) u)"
      if "u \<in> set F'" for u
      using that F'(3) tl at [of u] mem [of u] by (auto simp: free_slot_of_def used_slot_def)
    then have "chain (pool ?b) fh F'"
      using F' by (subst chain_cong [of _ "pool b"]) auto
    ultimately show ?thesis using F' by (simp add: free_ok_def)
  qed
  have grid: "grid_ok ?b"
  proof -
    have sides: "is_side (side (pool ?b ! i))" if "i < length (pool ?b)" for i
    proof -
      have "i < 4294967296" using that core_inv_pool_bound [OF core] by simp
      then have i: "i = unat (of_nat i :: u32)" by (simp add: unat_of_nat_u32)
      have "is_side (side (pool b ! i))" using that core by (simp add: core_inv_def grid_ok_def)
      then have "is_side (side (order_at (pool ?b) (of_nat i)))"
        unfolding at using sd i by (auto simp del: unat_of_nat)
      then show ?thesis using i by simp
    qed
    have high: "pool ?b ! i = zero_order" if "i < length (pool ?b)" "unat (hwm ?b) \<le> i" for i
    proof -
      have "i < 4294967296" using that core_inv_pool_bound [OF core] by simp
      then have i: "i = unat (of_nat i :: u32)" by (simp add: unat_of_nat_u32)
      define u :: u32 where "u = of_nat i"
      have iu: "i = unat u" using i by (simp add: u_def)
      then have "u \<noteq> s" and nh: "\<not> unat u < unat (hwm b)" using that h by auto
      moreover have "u \<noteq> tail ?lvl \<or> u = NIL"
        using nh tl mem [of u] by (auto simp: used_slot_def)
      moreover have "pool b ! i = zero_order"
        using that nh iu core by (simp add: core_inv_def grid_ok_def)
      ultimately show ?thesis using at [of u] iu by auto
    qed
    show ?thesis using lc sides high by (simp add: grid_ok_def)
  qed
  have hd: "head (level_push s q ?lvl) \<noteq> NIL"
    using s(2) fifo_ok_head [OF fifo] fifo_ok_tail [OF fifo] last_in_set [of ?ss] mem
      core_inv_slot [OF core]
    by (auto simp: level_push_def Let_def used_slot_def split: if_splits)
  have nl: "unat (n_levels b) < 2 ^ 31" using core by (simp add: core_inv_def geometry_ok_def)
  have best: "bid_ok (bids ?b) (best_bid ?b) \<and> ask_ok (asks ?b) (best_ask ?b)"
    using sd
  proof (rule is_side_cases)
    assume 0: "sd = 0"
    then have "bids ?b = (bids b)[unat t := level_push s q ?lvl]" "asks ?b = asks b"
      using lane_inserted [of 0 0] lane_inserted [of 0 1] by (simp_all add: lane_def)
    then show ?thesis
      using raise_bid_ok [OF bb(1), of "unat t" "level_push s q ?lvl" t] bb(2) 0 hd t nl ln
      by (simp add: lower_ask_def lane_def)
  next
    assume 1: "sd = 1"
    then have "asks ?b = (asks b)[unat t := level_push s q ?lvl]" "bids ?b = bids b"
      using lane_inserted [of 1 1] lane_inserted [of 1 0] by (simp_all add: lane_def)
    then show ?thesis
      using lower_ask_ok [OF bb(2), of "unat t" "level_push s q ?lvl" t] bb(1) 1 hd t nl ln
      by (simp add: raise_bid_def lane_def)
  qed
  show ?thesis using lc ids free grid best by (simp add: book_inv_def core_inv_def)
qed

text \<open>The tail of a level is \<open>NIL\<close> or a live slot, hence not an unused one.\<close>

lemma level_tail:
  assumes core: "core_inv b Q F" and sd: "is_side sd" and t: "t < unat (n_levels b)"
  shows "tail (lane b sd ! t) = NIL \<or> used_slot b (tail (lane b sd ! t)) \<and> unat (tail (lane b sd ! t)) < length (pool b)"
proof -
  have "tail (lane b sd ! t) = NIL \<or> tail (lane b sd ! t) \<in> set (Q sd t)"
    using fifo_ok_tail [OF core_inv_fifo [OF core sd t]] by simp
  then show ?thesis
    using core_inv_mem [OF core sd t] core_inv_slot [OF core] by (auto simp: used_slot_def)
qed

text \<open>An insert into a book with room, at a price of the grid, under a fresh id.\<close>

lemma insert_spec:
  assumes inv: "book_inv b Q F" and room: "has_room b"
    and sd: "is_side sd" and tk: "tick_of (price_min b) (tick b) pr = Inr t"
    and t: "unat t < unat (n_levels b)" and oid: "oid \<noteq> 0" "idmap b oid = None"
  obtains s fh h F' where "book_insert b oid pr q sd = Inr (inserted b s fh h t oid pr q sd)"
    and "book_inv (inserted b s fh h t oid pr q sd)
           (set_queue Q sd (unat t) (Q sd (unat t) @ [s])) F'"
    and "s \<noteq> NIL" and "unat s < length (pool b)" and "\<not> used_slot b s"
    and "s \<noteq> tail (lane b sd ! unat t)" and "unat s < unat h"
proof -
  have core: "core_inv b Q F" using inv by (simp add: book_inv_def)
  obtain s h fh F' where al: "alloc_slot b = Inr (s, b\<lparr>free_head := fh, hwm := h\<rparr>)"
    and s: "unat s < length (pool b)" "s \<noteq> NIL" "\<not> used_slot b s"
    and h: "unat h \<le> length (pool b)" "unat s < unat h"
      "\<forall>u. u \<noteq> s \<longrightarrow> (unat u < unat h \<longleftrightarrow> unat u < unat (hwm b))"
    and F': "chain (pool b) fh F'" "distinct F'" "set F' = {u. free_slot_of b u} - {s}"
    by (rule alloc_spec [OF core room])
  note tl = level_tail [OF core sd t]
  have "unat t < length (lane b sd)" using t core_inv_lane_length [OF core sd] by simp
  then have run: "book_insert b oid pr q sd = Inr (inserted b s fh h t oid pr q sd)"
    using book_insert_run [OF al tk _ s(1)] tl by blast
  have "s \<noteq> tail (lane b sd ! unat t)" using tl s by auto
  with run inserted_inv [OF inv sd tk t oid s h F'] s h(2) show thesis using that by blast
qed

section \<open>Update\<close>

definition updated :: "book \<Rightarrow> u32 \<Rightarrow> u32 \<Rightarrow> i64 \<Rightarrow> book" where
  "updated b s t add =
     (let ord = order_at (pool b) s; l = lane b (side ord) ! unat t
      in set_lane (b\<lparr>pool := (pool b)[unat s := ord\<lparr>filled := filled ord + add\<rparr>]\<rparr>) (side ord)
           ((lane b (side ord))[unat t := l\<lparr>qty_total := qty_total l - add\<rparr>]))"

lemma updated_simps [simp]:
  "price_min (updated b s t add) = price_min b" "tick (updated b s t add) = tick b"
  "n_levels (updated b s t add) = n_levels b" "hwm (updated b s t add) = hwm b"
  "free_head (updated b s t add) = free_head b" "best_bid (updated b s t add) = best_bid b"
  "best_ask (updated b s t add) = best_ask b" "idmap (updated b s t add) = idmap b"
  "length (bids (updated b s t add)) = length (bids b)"
  "length (asks (updated b s t add)) = length (asks b)"
  "pool (updated b s t add) =
     (pool b)[unat s := (order_at (pool b) s)\<lparr>filled := filled (order_at (pool b) s) + add\<rparr>]"
  by (simp_all add: updated_def Let_def set_lane_def lane_def)

lemma lane_updated:
  "is_side sd \<Longrightarrow> is_side sd' \<Longrightarrow> side (order_at (pool b) s) = sd \<Longrightarrow>
   lane (updated b s t add) sd' =
     (if sd = sd' then (lane b sd)[unat t := (lane b sd ! unat t)\<lparr>qty_total :=
          qty_total (lane b sd ! unat t) - add\<rparr>] else lane b sd')"
  by (simp add: updated_def Let_def lane_set_lane)

text \<open>The order an id names: its slot, its level and where it stands in the level's FIFO.\<close>

lemma order_of_id:
  assumes inv: "core_inv b Q F" and id: "idmap b i = Some s"
  obtains t where "tick_of (price_min b) (tick b) (price (order_at (pool b) s)) = Inr t"
    and "is_side (side (order_at (pool b) s))" and "unat t < unat (n_levels b)"
    and "s \<in> set (Q (side (order_at (pool b) s)) (unat t))"
    and "unat s < length (pool b)" and "s \<noteq> NIL" and "unat s < unat (hwm b)"
    and "used_slot b s" and "order_id (order_at (pool b) s) = i"
proof -
  have us: "used_slot b s" "order_id (order_at (pool b) s) = i"
    using core_inv_id [OF inv] id by auto
  then have h: "unat s < unat (hwm b)" by (simp add: used_slot_def)
  obtain sd t' where st: "is_side sd" "t' < unat (n_levels b)"
    "on_level b (order_at (pool b) s) sd t'" "sd = side (order_at (pool b) s)"
    by (rule core_inv_grid [OF inv us(1)])
  then obtain t where "tick_of (price_min b) (tick b) (price (order_at (pool b) s)) = Inr t"
    "unat t = t'"
    by (auto simp: on_level_tick)
  with st us h core_inv_slot [OF inv h] core_inv_mem [OF inv st(1,2), of s] show thesis
    by (intro that [of t]) auto
qed

lemma book_update_run:
  assumes "idmap b i = Some s" and "unat s < length (pool b)"
    and "tick_of (price_min b) (tick b) (price (order_at (pool b) s)) = Inr t"
    and "unat t < length (lane b (side (order_at (pool b) s)))"
  shows "book_update b i q =
    Inr (updated b s t (min_i64 q (remaining (order_at (pool b) s))))"
  using assms
  by (simp add: book_update_def get_slot_def get_order_def modify_order_def modify_level_def
      idx_simps updated_def Let_def remaining_def)

lemma fifo_ok_fill:
  assumes "fifo_ok p l ss" and "s \<in> set ss"
  shows "fifo_ok (p[unat s := (order_at p s)\<lparr>filled := filled (order_at p s) + add\<rparr>])
    (l\<lparr>qty_total := qty_total l - add\<rparr>) ss"
proof -
  let ?p = "p[unat s := (order_at p s)\<lparr>filled := filled (order_at p s) + add\<rparr>]"
  have d: "dseg p NIL ss (head l) NIL (tail l)" "distinct ss"
    using assms(1) by (simp_all add: fifo_ok_def)
  have s: "unat s < length p" using dseg_bounds [OF d(1) assms(2)] by simp
  have "dseg ?p NIL ss (head l) NIL (tail l)"
    using d by (subst dseg_cong [of _ p]) (auto simp: order_at_update)
  moreover have "remaining (order_at ?p s) = remaining (order_at p s) - add"
    using s by (simp add: order_at_update remaining_def)
  with sum_list_change [OF d(2) assms(2), of "\<lambda>u. remaining (order_at ?p u)"
      "\<lambda>u. remaining (order_at p u)"]
  have "sum_list (map (\<lambda>u. remaining (order_at ?p u)) ss) =
      sum_list (map (\<lambda>u. remaining (order_at p u)) ss) - add"
    by (simp add: order_at_update)
  ultimately show ?thesis using assms(1) by (simp add: fifo_ok_def)
qed

lemma update_spec:
  assumes inv: "book_inv b Q F" and id: "idmap b i = Some s"
    and tk: "tick_of (price_min b) (tick b) (price (order_at (pool b) s)) = Inr t"
  shows "book_update b i q = Inr (updated b s t (min_i64 q (remaining (order_at (pool b) s)))) \<and>
    book_inv (updated b s t add) Q F"
proof -
  have core: "core_inv b Q F" and bb: "bid_ok (bids b) (best_bid b)" "ask_ok (asks b) (best_ask b)"
    using inv by (simp_all add: book_inv_def)
  let ?b = "updated b s t add" and ?ord = "order_at (pool b) s"
  let ?sd = "side ?ord"
  obtain t' where "tick_of (price_min b) (tick b) (price ?ord) = Inr t'"
    and sd: "is_side ?sd" and t': "unat t' < unat (n_levels b)" "s \<in> set (Q ?sd (unat t'))"
    and s: "unat s < length (pool b)" "s \<noteq> NIL" and h: "unat s < unat (hwm b)"
    by (rule order_of_id [OF core id])
  with tk have t: "unat t < unat (n_levels b)" and mem: "s \<in> set (Q ?sd (unat t))" by simp_all
  have ln: "length (lane b ?sd) = unat (n_levels b)" by (rule core_inv_lane_length [OF core sd])
  have at: "order_at (pool ?b) u = (if u = s then ?ord\<lparr>filled := filled ?ord + add\<rparr>
      else order_at (pool b) u)" for u
    using s by (simp add: order_at_update)
  have used: "used_slot ?b u = used_slot b u" and free: "free_slot_of ?b u = free_slot_of b u"
    and onl: "on_level ?b (order_at (pool ?b) u) sd' j = on_level b (order_at (pool b) u) sd' j"
    for u sd' j
    using at [of u] by (simp_all add: used_slot_def free_slot_of_def on_level_def)
  have lc: "geometry_ok ?b \<and> levels_ok ?b (set_queue Q ?sd (unat t) (Q ?sd (unat t))) \<and>
    (\<forall>u. used_slot ?b u \<longrightarrow> (\<exists>i < unat (n_levels ?b).
        on_level ?b (order_at (pool ?b) u) (side (order_at (pool ?b) u)) i))"
    using core sd t
  proof (rule level_change)
    show "same_grid b ?b" by (simp add: same_grid_def)
    show "unat (hwm ?b) \<le> length (pool b)" using core_inv_hwm [OF core] by simp
    show "lane ?b sd' ! t' = lane b sd' ! t'" if "is_side sd'" "sd' \<noteq> ?sd \<or> t' \<noteq> unat t" for sd' t'
      using that sd by (auto simp: lane_updated)
    show "fifo_ok (pool ?b) (lane ?b ?sd ! unat t) (Q ?sd (unat t))"
      using fifo_ok_fill [OF core_inv_fifo [OF core sd t] mem] sd t ln by (simp add: lane_updated)
    show "used_slot ?b u \<and> on_level ?b (order_at (pool ?b) u) ?sd (unat t) \<and>
        (u \<in> set (Q ?sd (unat t)) \<or> \<not> used_slot b u)" if "u \<in> set (Q ?sd (unat t))" for u
      using that core_inv_mem [OF core sd t, of u] used onl by auto
    show "\<not> used_slot ?b u" if "u \<in> set (Q ?sd (unat t))" "u \<notin> set (Q ?sd (unat t))" for u
      using that by simp
    show "order_at (pool ?b) u = order_at (pool b) u \<and>
        (unat u < unat (hwm ?b) \<longleftrightarrow> unat u < unat (hwm b))"
      if "u \<notin> set (Q ?sd (unat t))" "u \<notin> set (Q ?sd (unat t))" for u
      using that mem by (auto simp: order_at_update)
  qed
  have "set_queue Q ?sd (unat t) (Q ?sd (unat t)) = Q" by (simp add: set_queue_def)
  moreover have "ids_ok ?b"
    using core at by (simp add: core_inv_def ids_ok_def used)
  moreover have "free_ok ?b F"
  proof -
    have "chain (pool ?b) (free_head b) F"
      using core at by (subst chain_cong [of _ "pool b"]) (auto simp: core_inv_def free_ok_def)
    then show ?thesis using core by (simp add: core_inv_def free_ok_def free)
  qed
  moreover have "grid_ok ?b"
  proof -
    have "side (pool ?b ! j) = side (pool b ! j)" for j
      using s by (cases "j = unat s") simp_all
    moreover have "pool ?b ! j = pool b ! j" if "unat (hwm b) \<le> j" for j
      using that h by (simp add: nth_list_update)
    ultimately show ?thesis using lc core by (simp add: core_inv_def grid_ok_def)
  qed
  moreover have heads: "map head (lane ?b sd') = map head (lane b sd')" if "is_side sd'" for sd'
    using that sd t ln by (auto simp: lane_updated list_eq_iff_nth_eq nth_list_update)
  have "map head (bids ?b) = map head (bids b)" "map head (asks ?b) = map head (asks b)"
    using heads [of 0] heads [of 1] by (simp_all add: lane_def)
  then have "bid_ok (bids ?b) (best_bid ?b)" "ask_ok (asks ?b) (best_ask ?b)"
    using bb by (simp_all add: bid_ok_heads [of "bids ?b" "bids b"]
        ask_ok_heads [of "asks ?b" "asks b"])
  ultimately show ?thesis
    using lc book_update_run [OF id s(1) tk, of q] t ln by (simp add: book_inv_def core_inv_def)
qed

section \<open>Cancel and fill\<close>

text \<open>
  The book both removals reach before the rescan. They differ in the \<open>filled\<close> field the
  freed slot keeps.
\<close>

definition unlinked :: "book \<Rightarrow> u32 \<Rightarrow> u32 \<Rightarrow> i64 \<Rightarrow> i64 \<Rightarrow> book" where
  "unlinked b s t oid f =
     (let ord = order_at (pool b) s; l = lane b (side ord) ! unat t;
          pv = prev_slot ord; nx = next_slot ord;
          p = (set_prev (set_next (pool b) pv nx) nx pv)[unat s :=
                 ord\<lparr>filled := f, order_id := 0, next_slot := free_head b, prev_slot := NIL\<rparr>]
      in set_lane (b\<lparr>idmap := (idmap b)(oid := None), pool := p, free_head := s\<rparr>) (side ord)
           ((lane b (side ord))[unat t := level_pop s pv nx (remaining ord) l]))"

lemma unlinked_simps [simp]:
  "price_min (unlinked b s t oid f) = price_min b" "tick (unlinked b s t oid f) = tick b"
  "n_levels (unlinked b s t oid f) = n_levels b" "hwm (unlinked b s t oid f) = hwm b"
  "free_head (unlinked b s t oid f) = s" "best_bid (unlinked b s t oid f) = best_bid b"
  "best_ask (unlinked b s t oid f) = best_ask b"
  "idmap (unlinked b s t oid f) = (idmap b)(oid := None)"
  "length (bids (unlinked b s t oid f)) = length (bids b)"
  "length (asks (unlinked b s t oid f)) = length (asks b)"
  "length (pool (unlinked b s t oid f)) = length (pool b)"
  by (simp_all add: unlinked_def Let_def set_lane_def lane_def)

lemma lane_unlinked:
  "is_side sd \<Longrightarrow> is_side sd' \<Longrightarrow> side (order_at (pool b) s) = sd \<Longrightarrow>
   lane (unlinked b s t oid f) sd' =
     (if sd = sd' then (lane b sd)[unat t := level_pop s (prev_slot (order_at (pool b) s))
          (next_slot (order_at (pool b) s)) (remaining (order_at (pool b) s))
          (lane b sd ! unat t)] else lane b sd')"
  by (simp add: unlinked_def Let_def lane_set_lane)

lemma pool_unlinked:
  "pool (unlinked b s t oid f) =
     (set_prev (set_next (pool b) (prev_slot (order_at (pool b) s)) (next_slot (order_at (pool b) s)))
        (next_slot (order_at (pool b) s)) (prev_slot (order_at (pool b) s)))
     [unat s := (order_at (pool b) s)\<lparr>filled := f, order_id := 0, next_slot := free_head b,
                  prev_slot := NIL\<rparr>]"
  by (simp add: unlinked_def Let_def)

text \<open>Writes to different slots commute.\<close>

lemma set_next_swap:
  "u \<noteq> s \<Longrightarrow> set_next (p[unat s := x]) u n = (set_next p u n)[unat s := x]"
  by (simp add: set_next_def list_update_swap word_unat_eq_iff)

lemma set_prev_swap:
  "u \<noteq> s \<Longrightarrow> set_prev (p[unat s := x]) u n = (set_prev p u n)[unat s := x]"
  by (simp add: set_prev_def list_update_swap word_unat_eq_iff)

definition slot_ok :: "order list \<Rightarrow> u32 \<Rightarrow> u32 \<Rightarrow> bool" where
  "slot_ok p s u \<longleftrightarrow> u \<noteq> s \<and> (u = NIL \<or> unat u < length p)"

lemma unlink_run:
  assumes "unat s < length (pool b)" and "slot_ok (pool b) s (prev_slot (order_at (pool b) s))"
    and "slot_ok (pool b) s (next_slot (order_at (pool b) s))" and "unat t < length (lane b sd)"
  shows "unlink b s sd t rm =
    Inr (set_lane (b\<lparr>pool := set_prev (set_next (pool b) (prev_slot (order_at (pool b) s))
             (next_slot (order_at (pool b) s))) (next_slot (order_at (pool b) s))
             (prev_slot (order_at (pool b) s))\<rparr>) sd
           ((lane b sd)[unat t := level_pop s (prev_slot (order_at (pool b) s))
               (next_slot (order_at (pool b) s)) rm (lane b sd ! unat t)]))"
  using assms
  by (cases "prev_slot (order_at (pool b) s) = NIL"; cases "next_slot (order_at (pool b) s) = NIL")
    (simp_all add: unlink_def get_order_def modify_order_def modify_level_def idx_simps Let_def
      slot_ok_def set_next_def set_prev_def)

lemma free_slot_run:
  "unat s < length (pool b) \<Longrightarrow> free_slot b s =
     Inr (b\<lparr>pool := (pool b)[unat s := (order_at (pool b) s)\<lparr>order_id := 0,
             next_slot := free_head b, prev_slot := NIL\<rparr>], free_head := s\<rparr>)"
  by (simp add: free_slot_def modify_order_def idx_simps)

lemma book_cancel_run:
  assumes "idmap b i = Some s" and "unat s < length (pool b)"
    and "slot_ok (pool b) s (prev_slot (order_at (pool b) s))"
    and "slot_ok (pool b) s (next_slot (order_at (pool b) s))"
    and "tick_of (price_min b) (tick b) (price (order_at (pool b) s)) = Inr t"
    and "unat t < length (lane b (side (order_at (pool b) s)))"
  shows "book_cancel b i = repair_best (unlinked b s t i (filled (order_at (pool b) s)))
           (side (order_at (pool b) s)) t"
  using assms
  by (simp add: book_cancel_def id_remove_def get_order_def idx_simps Let_def unlink_run
      free_slot_run unlinked_def set_lane_update order_at_writes slot_ok_def remaining_def)

lemma book_fill_run:
  assumes "idmap b i = Some s" and "unat s < length (pool b)"
    and "slot_ok (pool b) s (prev_slot (order_at (pool b) s))"
    and "slot_ok (pool b) s (next_slot (order_at (pool b) s))"
    and "tick_of (price_min b) (tick b) (price (order_at (pool b) s)) = Inr t"
    and "unat t < length (lane b (side (order_at (pool b) s)))"
  shows "book_fill b i = repair_best (unlinked b s t i (qty (order_at (pool b) s)))
           (side (order_at (pool b) s)) t"
  using assms
  by (simp add: book_fill_def id_remove_def get_order_def modify_order_def idx_simps Let_def
      unlink_run free_slot_run unlinked_def set_lane_update order_at_writes slot_ok_def
      remaining_def set_next_swap set_prev_swap)

lemma fifo_ok_pop:
  assumes fifo: "fifo_ok p l ss" and s: "s \<in> set ss"
    and out: "\<And>u. u \<in> set ss \<Longrightarrow> u \<noteq> s \<Longrightarrow>
      order_at p' u = order_at (set_prev (set_next p (prev_slot (order_at p s))
         (next_slot (order_at p s))) (next_slot (order_at p s)) (prev_slot (order_at p s))) u"
    and len: "length p' = length p"
  shows "fifo_ok p' (level_pop s (prev_slot (order_at p s)) (next_slot (order_at p s))
    (remaining (order_at p s)) l) (remove1 s ss)"
proof -
  let ?pv = "prev_slot (order_at p s)" and ?nx = "next_slot (order_at p s)"
  let ?p = "set_prev (set_next p ?pv ?nx) ?nx ?pv"
  obtain xs ys where ss: "ss = xs @ s # ys" using s by (meson split_list)
  have d: "dseg p NIL (xs @ s # ys) (head l) NIL (tail l)" "distinct (xs @ s # ys)"
    using fifo ss by (simp_all add: fifo_ok_def)
  then have rem: "remove1 s ss = xs @ ys" unfolding ss by (simp add: remove1_append)
  have "dseg ?p NIL (xs @ ys) (if head l = s then ?nx else head l) NIL
      (if tail l = s then ?pv else tail l)"
    by (rule dseg_remove(1) [OF d refl refl])
  moreover have out': "order_at p' u = order_at ?p u" if "u \<in> set (xs @ ys)" for u
    using that out [of u] d(2) unfolding ss by auto
  ultimately have "dseg p' NIL (xs @ ys) (if head l = s then ?nx else head l) NIL
      (if tail l = s then ?pv else tail l)"
    using len by (subst dseg_cong [of _ ?p]) auto
  moreover have "map (\<lambda>u. remaining (order_at p' u)) (xs @ ys) =
      map (\<lambda>u. remaining (order_at p u)) (xs @ ys)"
    using out' by (intro map_cong) auto
  then have "sum_list (map (\<lambda>u. remaining (order_at p' u)) (remove1 s ss)) =
      sum_list (map (\<lambda>u. remaining (order_at p u)) ss) - remaining (order_at p s)"
    using sum_list_removed [OF s, of "\<lambda>u. remaining (order_at p u)"] unfolding rem
    by (simp only:)
  moreover have "length ss = Suc (length (xs @ ys))" by (simp add: ss)
  ultimately show ?thesis
    using fifo d(2) unfolding rem by (auto simp: fifo_ok_def level_pop_def Let_def)
qed

text \<open>The neighbours of a listed slot.\<close>

lemma fifo_neighbours:
  assumes fifo: "fifo_ok p l ss" and s: "s \<in> set ss"
  shows "prev_slot (order_at p s) = NIL \<or> prev_slot (order_at p s) \<in> set ss - {s}"
    and "next_slot (order_at p s) = NIL \<or> next_slot (order_at p s) \<in> set ss - {s}"
proof -
  obtain xs ys where ss: "ss = xs @ s # ys" using s by (meson split_list)
  have d: "dseg p NIL (xs @ s # ys) (head l) NIL (tail l)" "distinct (xs @ s # ys)"
    using fifo ss by (simp_all add: fifo_ok_def)
  note ends = dseg_remove(2,3) [OF d refl refl]
  have "xs \<noteq> [] \<Longrightarrow> last xs \<in> set xs" "ys \<noteq> [] \<Longrightarrow> hd ys \<in> set ys" by simp_all
  with ends d(2) ss show "prev_slot (order_at p s) = NIL \<or> prev_slot (order_at p s) \<in> set ss - {s}"
    "next_slot (order_at p s) = NIL \<or> next_slot (order_at p s) \<in> set ss - {s}"
    by auto
qed

lemma unlinked_core:
  assumes core: "core_inv b Q F" and id: "idmap b i = Some s"
    and tk: "tick_of (price_min b) (tick b) (price (order_at (pool b) s)) = Inr t"
    and sd: "sd = side (order_at (pool b) s)"
  shows "core_inv (unlinked b s t i f)
    (set_queue Q sd (unat t) (remove1 s (Q sd (unat t)))) (s # F)"
proof -
  let ?b = "unlinked b s t i f" and ?ord = "order_at (pool b) s" and ?ss = "Q sd (unat t)"
  let ?p = "set_prev (set_next (pool b) (prev_slot ?ord) (next_slot ?ord))
      (next_slot ?ord) (prev_slot ?ord)"
  obtain t' where "tick_of (price_min b) (tick b) (price ?ord) = Inr t'"
    and "is_side (side ?ord)" "unat t' < unat (n_levels b)" "s \<in> set (Q (side ?ord) (unat t'))"
    and s: "unat s < length (pool b)" "s \<noteq> NIL" and h: "unat s < unat (hwm b)"
    and us: "used_slot b s" "order_id ?ord = i"
    by (rule order_of_id [OF core id])
  with tk have sd': "is_side sd" and t: "unat t < unat (n_levels b)" and mem: "s \<in> set ?ss"
    by (simp_all add: sd)
  have ln: "length (lane b sd) = unat (n_levels b)" by (rule core_inv_lane_length [OF core sd'])
  have fifo: "fifo_ok (pool b) (lane b sd ! unat t) ?ss" by (rule core_inv_fifo [OF core sd' t])
  note nb = fifo_neighbours [OF fifo mem]
  have at: "order_at (pool ?b) u = (if u = s then ?ord\<lparr>order_id := 0, filled := f,
      next_slot := free_head b, prev_slot := NIL\<rparr> else order_at ?p u)" for u
    unfolding pool_unlinked using s by (simp add: order_at_update)
  have out: "order_at (pool ?b) u = order_at (pool b) u" if "u \<notin> set ?ss" for u
    using that nb mem at [of u] by (auto simp: order_at_writes)
  have used: "used_slot ?b u \<longleftrightarrow> u \<noteq> s \<and> used_slot b u"
    and free: "free_slot_of ?b u \<longleftrightarrow> u = s \<or> free_slot_of b u"
    and oid: "order_id (order_at (pool ?b) u) = (if u = s then 0 else order_id (order_at (pool b) u))"
    and onl: "on_level ?b (order_at (pool ?b) u) sd' j = on_level b (order_at (pool b) u) sd' j"
    for u sd' j
    using at [of u] h by (auto simp: used_slot_def free_slot_of_def on_level_def)
  have lc: "geometry_ok ?b \<and> levels_ok ?b (set_queue Q sd (unat t) (remove1 s ?ss)) \<and>
    (\<forall>u. used_slot ?b u \<longrightarrow> (\<exists>i < unat (n_levels ?b).
        on_level ?b (order_at (pool ?b) u) (side (order_at (pool ?b) u)) i))"
    using core sd' t
  proof (rule level_change)
    have dis: "distinct ?ss" using fifo by (simp add: fifo_ok_def)
    show "same_grid b ?b" by (simp add: same_grid_def)
    show "unat (hwm ?b) \<le> length (pool b)" using core_inv_hwm [OF core] by simp
    show "lane ?b sd'' ! t' = lane b sd'' ! t'" if "is_side sd''" "sd'' \<noteq> sd \<or> t' \<noteq> unat t"
      for sd'' t'
      using that sd' by (auto simp: lane_unlinked sd)
    have "lane ?b sd ! unat t = level_pop s (prev_slot ?ord) (next_slot ?ord) (remaining ?ord)
        (lane b sd ! unat t)"
      using sd' t ln by (simp add: lane_unlinked sd)
    then show "fifo_ok (pool ?b) (lane ?b sd ! unat t) (remove1 s ?ss)"
      using fifo_ok_pop [OF fifo mem, of "pool ?b"] at by simp
    show "used_slot ?b u \<and> on_level ?b (order_at (pool ?b) u) sd (unat t) \<and>
        (u \<in> set ?ss \<or> \<not> used_slot b u)" if "u \<in> set (remove1 s ?ss)" for u
      using that core_inv_mem [OF core sd' t, of u] used onl dis by auto
    show "\<not> used_slot ?b u" if "u \<in> set ?ss" "u \<notin> set (remove1 s ?ss)" for u
      using that used dis by auto
    show "order_at (pool ?b) u = order_at (pool b) u \<and>
        (unat u < unat (hwm ?b) \<longleftrightarrow> unat u < unat (hwm b))"
      if "u \<notin> set ?ss" "u \<notin> set (remove1 s ?ss)" for u
      using out [OF that(1)] by simp
  qed
  have F: "chain (pool b) (free_head b) F" "distinct F" "\<And>u. u \<in> set F \<longleftrightarrow> free_slot_of b u"
    using core by (simp_all add: core_inv_def free_ok_def)
  have notF: "u \<notin> set F" if "u \<in> set ?ss" for u
    using that F(3) core_inv_mem [OF core sd' t, of u] by (auto simp: free_slot_of_def used_slot_def)
  have "free_ok ?b (s # F)"
  proof -
    have "order_at (pool ?b) u = order_at (pool b) u" if "u \<in> set F" for u
      using that notF out by blast
    then have "chain (pool ?b) (free_head b) F"
      using F(1) by (subst chain_cong [of _ "pool b"]) auto
    then show ?thesis using F s notF [OF mem] at [of s] by (auto simp: free_ok_def free)
  qed
  moreover have "ids_ok ?b"
  proof -
    have "idmap ?b j = Some u \<longleftrightarrow> used_slot ?b u \<and> order_id (order_at (pool ?b) u) = j" for j u
    proof (cases "j = i")
      case True
      then show ?thesis
        using id core_inv_id [OF core, of i u] by (cases "u = s") (auto simp: used oid)
    next
      case False
      then show ?thesis
        using us core_inv_id [OF core, of j u] by (cases "u = s") (auto simp: used oid)
    qed
    then show ?thesis by (simp add: ids_ok_def)
  qed
  moreover have "grid_ok ?b"
  proof -
    have "is_side (side (pool ?b ! j)) \<and> (unat (hwm b) \<le> j \<longrightarrow> pool ?b ! j = zero_order)"
      if j: "j < length (pool b)" for j
    proof -
      define u :: u32 where "u = of_nat j"
      have u: "j = unat u"
        using j core_inv_pool_bound [OF core] by (simp add: u_def unat_of_nat_u32)
      have "side (order_at (pool ?b) u) = side (order_at (pool b) u)" using at [of u] by simp
      moreover have "order_at (pool ?b) u = order_at (pool b) u" if "unat (hwm b) \<le> unat u"
        using that core_inv_mem [OF core sd' t, of u] by (intro out) (auto simp: used_slot_def)
      ultimately show ?thesis using core j u by (auto simp: core_inv_def grid_ok_def)
    qed
    then show ?thesis using lc by (simp add: grid_ok_def)
  qed
  ultimately show ?thesis using lc by (simp add: core_inv_def)
qed

text \<open>The cached bests do not bear on the rest of the invariant.\<close>

lemma core_inv_best [simp]:
  "core_inv (b\<lparr>best_bid := w\<rparr>) Q F = core_inv b Q F"
  "core_inv (b\<lparr>best_ask := w\<rparr>) Q F = core_inv b Q F"
  by (simp_all add: core_inv_def geometry_ok_def levels_ok_def free_ok_def ids_ok_def grid_ok_def
      used_slot_def free_slot_of_def on_level_def)

text \<open>The rescan after level \<open>t\<close> of one side lost an order.\<close>

lemma repair_best_spec:
  assumes sd: "is_side sd" and t: "unat t < unat (n_levels b)"
    and len: "length (bids b) = unat (n_levels b)" "length (asks b) = unat (n_levels b)"
    and nl: "unat (n_levels b) < 2 ^ 31"
    and old: "bid_ok lb (best_bid b)" "ask_ok la (best_ask b)"
    and lanes: "bids b = (if sd = 0 then lb[unat t := l] else lb)"
      "asks b = (if sd = 0 then la else la[unat t := l])"
    and occ: "head ((if sd = 0 then lb else la) ! unat t) \<noteq> NIL"
  shows "\<exists>b' w v. repair_best b sd t = Inr b' \<and> b' = b\<lparr>best_bid := w, best_ask := v\<rparr> \<and>
    bid_ok (bids b) w \<and> ask_ok (asks b) v"
proof (cases "sd = 0")
  case True
  have l: "length lb = unat (n_levels b)" using lanes len True by simp
  have t_of: "t = of_nat (unat t)" by simp
  show ?thesis
  proof (cases "best_bid b = t \<and> head l = NIL")
    case rescan: True
    have above: "head (bids b ! j) = NIL" if "j < length (bids b)" "Suc (unat t) \<le> j" for j
    proof -
      have "head (lb ! j) = NIL"
        using bid_ok_above [of lb "unat t" j] old(1) that rescan t_of t nl l lanes True by simp
      then show ?thesis using that lanes True by simp
    qed
    have "Suc (unat t) \<le> length (bids b)" using t len by simp
    from scan_down_ok [OF this above] obtain w
      where w: "scan_best (bids b) (rev [0..<Suc (unat t)]) = Inr w" "bid_ok (bids b) w" by blast
    then have "repair_best b sd t = Inr (b\<lparr>best_bid := w\<rparr>)"
      using True rescan t l lanes by (simp add: repair_best_def idx_simps)
    then show ?thesis using w old lanes True
      by (intro exI [of _ "b\<lparr>best_bid := w\<rparr>"] exI [of _ w] exI [of _ "best_ask b"]) simp
  next
    case keep: False
    then have "repair_best b sd t = Inr b"
      using True t l lanes by (auto simp: repair_best_def idx_simps)
    moreover have "bid_ok (bids b) (best_bid b)"
      using bid_ok_shorten [of lb "best_bid b" "unat t" l] old t l nl lanes True keep occ t_of by auto
    ultimately show ?thesis using old lanes True
      by (intro exI [of _ b] exI [of _ "best_bid b"] exI [of _ "best_ask b"]) simp
  qed
next
  case False
  have l: "length la = unat (n_levels b)" using lanes len False by simp
  have t_of: "t = of_nat (unat t)" by simp
  show ?thesis
  proof (cases "best_ask b = t \<and> head l = NIL")
    case rescan: True
    have below: "head (asks b ! j) = NIL" if "j < unat t" for j
    proof -
      have "head (la ! j) = NIL"
        using ask_ok_below [of la "unat t" j] old(2) that rescan t_of t nl l lanes False by simp
      then show ?thesis using that lanes False by simp
    qed
    have "unat t \<le> length (asks b)" using t len by simp
    from scan_up_ok [OF this below] obtain w
      where w: "scan_best (asks b) [unat t..<unat (n_levels b)] = Inr w" "ask_ok (asks b) w"
      unfolding len by blast
    then have "repair_best b sd t = Inr (b\<lparr>best_ask := w\<rparr>)"
      using False rescan t l lanes by (simp add: repair_best_def idx_simps)
    then show ?thesis using w old lanes False
      by (intro exI [of _ "b\<lparr>best_ask := w\<rparr>"] exI [of _ "best_bid b"] exI [of _ w]) simp
  next
    case keep: False
    then have "repair_best b sd t = Inr b"
      using False t l lanes by (auto simp: repair_best_def idx_simps)
    moreover have "ask_ok (asks b) (best_ask b)"
      using ask_ok_shorten [of la "best_ask b" "unat t" l] old t l nl lanes False keep occ t_of by auto
    ultimately show ?thesis using old lanes False
      by (intro exI [of _ b] exI [of _ "best_bid b"] exI [of _ "best_ask b"]) simp
  qed
qed

text \<open>
  Removing a live order: both operations unlink the slot, free it and rescan; the invariant
  holds with the slot taken out of its FIFO and put on the free list.
\<close>

lemma remove_spec:
  assumes inv: "book_inv b Q F" and id: "idmap b i = Some s"
    and tk: "tick_of (price_min b) (tick b) (price (order_at (pool b) s)) = Inr t"
    and sd: "sd = side (order_at (pool b) s)"
  shows "\<exists>w v. repair_best (unlinked b s t i f) sd t =
      Inr ((unlinked b s t i f)\<lparr>best_bid := w, best_ask := v\<rparr>) \<and>
    book_inv ((unlinked b s t i f)\<lparr>best_bid := w, best_ask := v\<rparr>)
      (set_queue Q sd (unat t) (remove1 s (Q sd (unat t)))) (s # F)"
    and "book_cancel b i = repair_best (unlinked b s t i (filled (order_at (pool b) s))) sd t"
    and "book_fill b i = repair_best (unlinked b s t i (qty (order_at (pool b) s))) sd t"
proof -
  have core: "core_inv b Q F" and bb: "bid_ok (bids b) (best_bid b)" "ask_ok (asks b) (best_ask b)"
    using inv by (simp_all add: book_inv_def)
  let ?b = "unlinked b s t i f" and ?ord = "order_at (pool b) s"
  obtain t' where "tick_of (price_min b) (tick b) (price ?ord) = Inr t'"
    and "is_side (side ?ord)" "unat t' < unat (n_levels b)" "s \<in> set (Q (side ?ord) (unat t'))"
    and s: "unat s < length (pool b)" and h: "unat s < unat (hwm b)"
    by (rule order_of_id [OF core id])
  with tk have sd': "is_side sd" and t: "unat t < unat (n_levels b)"
    and mem: "s \<in> set (Q sd (unat t))"
    by (simp_all add: sd)
  have fifo: "fifo_ok (pool b) (lane b sd ! unat t) (Q sd (unat t))"
    by (rule core_inv_fifo [OF core sd' t])
  have ln: "length (lane b sd) = unat (n_levels b)" by (rule core_inv_lane_length [OF core sd'])
  have "unat u < length (pool b)" if "u \<in> set (Q sd (unat t))" for u
    using that core_inv_mem [OF core sd' t, of u] core_inv_slot [OF core, of u]
    by (simp add: used_slot_def)
  then have ok: "slot_ok (pool b) s (prev_slot ?ord)" "slot_ok (pool b) s (next_slot ?ord)"
    using fifo_neighbours [OF fifo mem] core_inv_slot [OF core h] by (auto simp: slot_ok_def)
  note t_lane = t [folded ln]
  show "book_cancel b i = repair_best (unlinked b s t i (filled ?ord)) sd t"
    unfolding sd by (rule book_cancel_run [OF id s ok tk t_lane [unfolded sd]])
  show "book_fill b i = repair_best (unlinked b s t i (qty ?ord)) sd t"
    unfolding sd by (rule book_fill_run [OF id s ok tk t_lane [unfolded sd]])
  have geo: "length (bids b) = unat (n_levels b)" "length (asks b) = unat (n_levels b)"
    "unat (n_levels b) < 2 ^ 31"
    using core by (simp_all add: core_inv_def geometry_ok_def)
  define l where "l = level_pop s (prev_slot ?ord) (next_slot ?ord) (remaining ?ord)
      (lane b sd ! unat t)"
  have lanes: "bids ?b = (if sd = 0 then (bids b)[unat t := l] else bids b)"
    "asks ?b = (if sd = 0 then asks b else (asks b)[unat t := l])"
    using sd' lane_unlinked [OF sd', of 0 b s] lane_unlinked [OF sd', of 1 b s]
    by (auto simp: sd [symmetric] l_def lane_def is_side_def)
  have "Q sd (unat t) \<noteq> []" using mem by auto
  then have occ: "head ((if sd = 0 then bids b else asks b) ! unat t) \<noteq> NIL"
    using fifo_ok_head [OF fifo] by (simp add: lane_def split: if_splits)
  have "\<exists>b' w v. repair_best ?b sd t = Inr b' \<and> b' = ?b\<lparr>best_bid := w, best_ask := v\<rparr> \<and>
      bid_ok (bids ?b) w \<and> ask_ok (asks ?b) v"
    using sd' t geo bb lanes occ
    by (intro repair_best_spec [of sd t ?b "bids b" "asks b" l]) simp_all
  moreover have "core_inv ?b (set_queue Q sd (unat t) (remove1 s (Q sd (unat t)))) (s # F)"
    by (rule unlinked_core [OF core id tk sd])
  ultimately show "\<exists>w v. repair_best ?b sd t = Inr (?b\<lparr>best_bid := w, best_ask := v\<rparr>) \<and>
      book_inv (?b\<lparr>best_bid := w, best_ask := v\<rparr>)
        (set_queue Q sd (unat t) (remove1 s (Q sd (unat t)))) (s # F)"
    by (auto simp: book_inv_def)
qed

end
