(* ===== verification/Book_Spec.thy ===== *)
theory Book_Spec
  imports Book_Ops
begin

text \<open>
  What the book promises, without slots, links or caches: for every side and level the queue
  of resting orders in time priority. The flat book implements it: its operations commute
  with the abstraction, and level totals, counts, bests and the id map are read off the
  queues.
\<close>

section \<open>The abstract book\<close>

record entry =
  e_id :: i64
  e_price :: i64
  e_qty :: i64
  e_filled :: i64

type_synonym ladder = "u8 \<Rightarrow> nat \<Rightarrow> entry list"

definition entry_of :: "order \<Rightarrow> entry" where
  "entry_of ord = \<lparr>e_id = order_id ord, e_price = price ord, e_qty = qty ord, e_filled = filled ord\<rparr>"

definition e_remaining :: "entry \<Rightarrow> i64" where
  "e_remaining e = e_qty e - e_filled e"

definition ladder_of :: "book \<Rightarrow> ladder" where
  "ladder_of b = (\<lambda>sd t. if is_side sd \<and> t < unat (n_levels b)
     then map (\<lambda>s. entry_of (order_at (pool b) s))
            (walk (length (pool b)) (pool b) (head (lane b sd ! t)))
     else [])"

definition spec_insert :: "entry \<Rightarrow> u8 \<Rightarrow> nat \<Rightarrow> ladder \<Rightarrow> ladder" where
  "spec_insert e sd t L = L(sd := (L sd)(t := L sd t @ [e]))"

definition spec_update :: "i64 \<Rightarrow> i64 \<Rightarrow> ladder \<Rightarrow> ladder" where
  "spec_update i q L = (\<lambda>sd t. map (\<lambda>e. if e_id e = i
     then e\<lparr>e_filled := e_filled e + min_i64 q (e_remaining e)\<rparr> else e) (L sd t))"

definition spec_remove :: "i64 \<Rightarrow> ladder \<Rightarrow> ladder" where
  "spec_remove i L = (\<lambda>sd t. filter (\<lambda>e. e_id e \<noteq> i) (L sd t))"

definition spec_total :: "entry list \<Rightarrow> i64" where
  "spec_total es = sum_list (map e_remaining es)"

text \<open>The best occupied level among the first \<open>n\<close>, highest for bids and lowest for asks.\<close>

definition spec_best_bid :: "nat \<Rightarrow> ladder \<Rightarrow> i32" where
  "spec_best_bid n L = (case filter (\<lambda>t. L 0 t \<noteq> []) (rev [0..<n]) of [] \<Rightarrow> - 1 | t # _ \<Rightarrow> of_nat t)"

definition spec_best_ask :: "nat \<Rightarrow> ladder \<Rightarrow> i32" where
  "spec_best_ask n L = (case filter (\<lambda>t. L 1 t \<noteq> []) [0..<n] of [] \<Rightarrow> - 1 | t # _ \<Rightarrow> of_nat t)"

definition ladder_ids :: "nat \<Rightarrow> ladder \<Rightarrow> i64 set" where
  "ladder_ids n L = (\<Union>sd \<in> {0, 1}. \<Union>t \<in> {..<n}. e_id ` set (L sd t))"

text \<open>What no operation changes.\<close>

record geometry =
  g_price_min :: i64
  g_tick :: i64
  g_levels :: u32
  g_capacity :: nat

definition geom_of :: "book \<Rightarrow> geometry" where
  "geom_of b = \<lparr>g_price_min = price_min b, g_tick = tick b, g_levels = n_levels b,
     g_capacity = length (pool b)\<rparr>"

lemma in_ladder_ids:
  "i \<in> ladder_ids n L \<longleftrightarrow> (\<exists>sd t. is_side sd \<and> t < n \<and> i \<in> e_id ` set (L sd t))"
  unfolding ladder_ids_def is_side_def by blast

lemma spec_insert_ids:
  assumes "is_side sd" and "t < n"
  shows "ladder_ids n (spec_insert e sd t L) = insert (e_id e) (ladder_ids n L)"
proof (rule set_eqI)
  fix i
  have "i \<in> e_id ` set (spec_insert e sd t L sd' t') \<longleftrightarrow>
      sd' = sd \<and> t' = t \<and> i = e_id e \<or> i \<in> e_id ` set (L sd' t')" for sd' t'
    by (auto simp: spec_insert_def)
  then show "i \<in> ladder_ids n (spec_insert e sd t L) \<longleftrightarrow> i \<in> insert (e_id e) (ladder_ids n L)"
    unfolding in_ladder_ids insert_iff using assms by blast
qed

lemma spec_remove_ids: "ladder_ids n (spec_remove i L) = ladder_ids n L - {i}"
  by (auto simp: ladder_ids_def spec_remove_def)

lemma spec_update_ids: "ladder_ids n (spec_update i q L) = ladder_ids n L"
proof -
  have "e_id ` set (spec_update i q L sd t) = e_id ` set (L sd t)" for sd t
    unfolding spec_update_def set_map image_image by (intro image_cong refl) simp
  then show ?thesis by (simp add: ladder_ids_def)
qed

lemma finite_ladder_ids [simp]: "finite (ladder_ids n L)"
  by (simp add: ladder_ids_def)

section \<open>Reading the book\<close>

lemma ladder_of_queue:
  assumes "core_inv b Q F" and "is_side sd" and "t < unat (n_levels b)"
  shows "ladder_of b sd t = map (\<lambda>s. entry_of (order_at (pool b) s)) (Q sd t)"
proof -
  have "dseg (pool b) NIL (Q sd t) (head (lane b sd ! t)) NIL (tail (lane b sd ! t))"
    "distinct (Q sd t)"
    using core_inv_fifo [OF assms] by (simp_all add: fifo_ok_def)
  then have "walk (length (pool b)) (pool b) (head (lane b sd ! t)) = Q sd t"
    by (rule walk_dseg) simp
  with assms show ?thesis by (simp add: ladder_of_def)
qed

lemma book_inv_core: "book_inv b Q F \<Longrightarrow> core_inv b Q F"
  by (simp add: book_inv_def)

lemma ladder_of_eqI:
  assumes inv: "core_inv b Q F" and n: "n_levels b = n"
    and "\<And>sd t. is_side sd \<Longrightarrow> t < unat n \<Longrightarrow>
           map (\<lambda>s. entry_of (order_at (pool b) s)) (Q sd t) = L sd t"
    and "\<And>sd t. \<not> (is_side sd \<and> t < unat n) \<Longrightarrow> L sd t = []"
  shows "ladder_of b = L"
proof (intro ext)
  fix sd t
  show "ladder_of b sd t = L sd t"
  proof (cases "is_side sd \<and> t < unat n")
    case True
    then show ?thesis using ladder_of_queue [OF inv] assms(3) n by simp
  next
    case False
    then show ?thesis using assms(4) n by (auto simp: ladder_of_def)
  qed
qed

lemma ladder_of_outside: "\<not> (is_side sd \<and> t < unat (n_levels b)) \<Longrightarrow> ladder_of b sd t = []"
  by (auto simp: ladder_of_def)

lemma entry_of_remaining [simp]: "e_remaining (entry_of ord) = remaining ord"
  by (simp add: e_remaining_def entry_of_def remaining_def)

lemma level_reads:
  assumes inv: "book_inv b Q F" and sd: "is_side sd" and t: "unat t < unat (n_levels b)"
  shows "level_qty b sd t = Inr (spec_total (ladder_of b sd (unat t)))"
    and "lvl_count (lane b sd ! unat t) = of_nat (length (ladder_of b sd (unat t)))"
    and "head (lane b sd ! unat t) = NIL \<longleftrightarrow> ladder_of b sd (unat t) = []"
proof -
  note core = book_inv_core [OF inv]
  have ln: "unat t < length (lane b sd)" using t core_inv_lane_length [OF core sd] by simp
  have f: "fifo_ok (pool b) (lane b sd ! unat t) (Q sd (unat t))"
    by (rule core_inv_fifo [OF core sd t])
  note L = ladder_of_queue [OF core sd t]
  show "level_qty b sd t = Inr (spec_total (ladder_of b sd (unat t)))"
    using f ln by (simp add: level_qty_def get_level_def idx_simps L spec_total_def fifo_ok_def comp_def)
  show "lvl_count (lane b sd ! unat t) = of_nat (length (ladder_of b sd (unat t)))"
    using f by (simp add: L fifo_ok_def)
  show "head (lane b sd ! unat t) = NIL \<longleftrightarrow> ladder_of b sd (unat t) = []"
    using fifo_ok_head [OF f] by (simp add: L)
qed

lemma head_iff_queue:
  assumes "book_inv b Q F" and "is_side sd" and "j < unat (n_levels b)"
  shows "head (lane b sd ! j) = NIL \<longleftrightarrow> ladder_of b sd j = []"
  using fifo_ok_head [OF core_inv_fifo [OF book_inv_core [OF assms(1)] assms(2,3)]]
    ladder_of_queue [OF book_inv_core [OF assms(1)] assms(2,3)]
  by simp

lemma filter_downto:
  assumes "i < n" and "P i" and "\<And>j. j < n \<Longrightarrow> i < j \<Longrightarrow> \<not> P j"
  shows "\<exists>is. filter P (rev [0..<n]) = i # is"
  using assms by (induction n) (auto simp: less_Suc_eq)

lemma filter_upto:
  assumes "i < n" and "P i" and "\<And>j. j < i \<Longrightarrow> \<not> P j"
  shows "\<exists>is. filter P [0..<n] = i # is"
proof -
  have "[0..<n] = [0..<i] @ i # [Suc i..<n]"
    using assms(1) upt_add_eq_append [of 0 i "n - i"] by (simp add: upt_conv_Cons)
  moreover have "filter P [0..<i] = []" using assms(3) by (simp add: filter_empty_conv)
  ultimately show ?thesis using assms(2) by simp
qed

lemma best_reads:
  assumes inv: "book_inv b Q F"
  shows "best_bid b = spec_best_bid (unat (n_levels b)) (ladder_of b)"
    and "best_ask b = spec_best_ask (unat (n_levels b)) (ladder_of b)"
proof -
  let ?n = "unat (n_levels b)"
  have len: "length (bids b) = ?n" "length (asks b) = ?n"
    using book_inv_core [OF inv] by (simp_all add: core_inv_def geometry_ok_def)
  have hd0: "head (bids b ! j) = NIL \<longleftrightarrow> ladder_of b 0 j = []" if "j < ?n" for j
    using head_iff_queue [OF inv _ that, of 0] by (simp add: lane_def)
  have hd1: "head (asks b ! j) = NIL \<longleftrightarrow> ladder_of b 1 j = []" if "j < ?n" for j
    using head_iff_queue [OF inv _ that, of 1] by (simp add: lane_def)
  have "bid_ok (bids b) (best_bid b)" using inv by (simp add: book_inv_def)
  then consider (none) "best_bid b = - 1" "\<forall>j < ?n. ladder_of b 0 j = []"
    | (some) i where "i < ?n" "best_bid b = of_nat i" "ladder_of b 0 i \<noteq> []"
        "\<forall>j < ?n. i < j \<longrightarrow> ladder_of b 0 j = []"
    unfolding bid_ok_def len using hd0 by auto
  then show "best_bid b = spec_best_bid ?n (ladder_of b)"
  proof cases
    case none
    then have "filter (\<lambda>t. ladder_of b 0 t \<noteq> []) (rev [0..<?n]) = []"
      by (auto simp: filter_empty_conv)
    with none show ?thesis by (simp add: spec_best_bid_def)
  next
    case some
    then obtain js where "filter (\<lambda>t. ladder_of b 0 t \<noteq> []) (rev [0..<?n]) = i # js"
      using filter_downto [of i ?n "\<lambda>t. ladder_of b 0 t \<noteq> []"] by blast
    with some show ?thesis by (simp add: spec_best_bid_def)
  qed
  have "ask_ok (asks b) (best_ask b)" using inv by (simp add: book_inv_def)
  then consider (none) "best_ask b = - 1" "\<forall>j < ?n. ladder_of b 1 j = []"
    | (some) i where "i < ?n" "best_ask b = of_nat i" "ladder_of b 1 i \<noteq> []"
        "\<forall>j < i. ladder_of b 1 j = []"
    unfolding ask_ok_def len using hd1 by (auto dest: less_trans)
  then show "best_ask b = spec_best_ask ?n (ladder_of b)"
  proof cases
    case none
    then have "filter (\<lambda>t. ladder_of b 1 t \<noteq> []) [0..<?n] = []"
      by (auto simp: filter_empty_conv)
    with none show ?thesis by (simp add: spec_best_ask_def)
  next
    case some
    then obtain js where "filter (\<lambda>t. ladder_of b 1 t \<noteq> []) [0..<?n] = i # js"
      using filter_upto [of i ?n "\<lambda>t. ladder_of b 1 t \<noteq> []"] by blast
    with some show ?thesis by (simp add: spec_best_ask_def)
  qed
qed

lemma ids_read:
  assumes inv: "book_inv b Q F"
  shows "dom (idmap b) = ladder_ids (unat (n_levels b)) (ladder_of b)"
proof -
  note core = book_inv_core [OF inv]
  have L: "e_id ` set (ladder_of b sd t) = (\<lambda>s. order_id (order_at (pool b) s)) ` set (Q sd t)"
    if "is_side sd" "t < unat (n_levels b)" for sd t
    using ladder_of_queue [OF core that] by (auto simp: entry_of_def image_image)
  have "i \<in> ladder_ids (unat (n_levels b)) (ladder_of b)" if id: "idmap b i = Some s" for i s
  proof -
    obtain t where "tick_of (price_min b) (tick b) (price (order_at (pool b) s)) = Inr t"
      "is_side (side (order_at (pool b) s))" "unat t < unat (n_levels b)"
      "s \<in> set (Q (side (order_at (pool b) s)) (unat t))" "order_id (order_at (pool b) s) = i"
      by (rule order_of_id [OF core id])
    then show ?thesis
      using L unfolding ladder_ids_def is_side_def by fastforce
  qed
  moreover have "i \<in> dom (idmap b)" if "i \<in> ladder_ids (unat (n_levels b)) (ladder_of b)" for i
  proof -
    from that obtain sd t where st: "is_side sd" "t < unat (n_levels b)"
      and "i \<in> e_id ` set (ladder_of b sd t)"
      unfolding ladder_ids_def is_side_def by blast
    then obtain s where "s \<in> set (Q sd t)" "order_id (order_at (pool b) s) = i"
      unfolding L [OF st] by auto
    then show ?thesis using core_inv_mem [OF core st, of s] core_inv_id [OF core, of i s] by auto
  qed
  ultimately show ?thesis by blast
qed

section \<open>Room\<close>

text \<open>
  As many orders rest as slots were handed out and not freed, so a book has room exactly when
  fewer orders rest than the pool has slots.
\<close>

lemma live_count_hwm:
  assumes inv: "core_inv b Q F"
  shows "card (dom (idmap b)) \<le> unat (hwm b)"
    and "free_head b = NIL \<longleftrightarrow> card (dom (idmap b)) = unat (hwm b)"
proof -
  let ?used = "{s. used_slot b s}" and ?all = "{s :: u32. unat s < unat (hwm b)}"
  have fin: "finite (?all)" by simp
  have "inj_on (\<lambda>s. order_id (order_at (pool b) s)) ?used"
  proof (rule inj_onI)
    fix s u
    assume "s \<in> ?used" "u \<in> ?used" "order_id (order_at (pool b) s) = order_id (order_at (pool b) u)"
    then have "idmap b (order_id (order_at (pool b) s)) = Some s"
      "idmap b (order_id (order_at (pool b) s)) = Some u"
      using core_inv_id [OF inv] by simp_all
    then show "s = u" by simp
  qed
  moreover have "dom (idmap b) = (\<lambda>s. order_id (order_at (pool b) s)) ` ?used"
    using core_inv_id [OF inv] by (auto simp: dom_def)
  ultimately have cd: "card (dom (idmap b)) = card ?used" by (simp add: card_image)
  have all: "card ?all = unat (hwm b)"
  proof -
    have "inj_on (unat :: u32 \<Rightarrow> nat) ?all" by (simp add: inj_on_def word_unat_eq_iff)
    moreover have "unat ` ?all = {..<unat (hwm b)}"
    proof
      show "{..<unat (hwm b)} \<subseteq> unat ` ?all"
      proof
        fix k
        assume "k \<in> {..<unat (hwm b)}"
        moreover from this have "unat (of_nat k :: u32) = k"
          using unat_u32_bound [of "hwm b"] by (intro unat_of_nat_u32) simp
        ultimately show "k \<in> unat ` ?all" by (intro image_eqI [of _ _ "of_nat k"]) simp_all
      qed
    qed auto
    ultimately show ?thesis by (metis card_image card_lessThan)
  qed
  have head: "F = [] \<longleftrightarrow> free_head b = NIL"
    using inv by (cases F) (auto simp: core_inv_def free_ok_def)
  have setF: "set F = ?all - ?used"
    by (rule set_eqI) (auto simp: core_inv_free_mem [OF inv] free_slot_of_def used_slot_def)
  have sub: "?used \<subseteq> ?all" by (auto simp: used_slot_def)
  have le: "card ?used \<le> card ?all" by (rule card_mono [OF fin sub])
  have "F = [] \<longleftrightarrow> ?used = ?all"
    unfolding set_empty [symmetric] setF using sub by blast
  also have "\<dots> \<longleftrightarrow> card ?used = card ?all"
    by (rule iffI, erule arg_cong, rule card_subset_eq [OF fin sub])
  finally have "F = [] \<longleftrightarrow> card (dom (idmap b)) = unat (hwm b)"
    unfolding cd all .
  with le [folded cd, unfolded all] head
  show "card (dom (idmap b)) \<le> unat (hwm b)" "free_head b = NIL \<longleftrightarrow> card (dom (idmap b)) = unat (hwm b)"
    by blast+
qed

lemma room_iff:
  assumes inv: "core_inv b Q F"
  shows "has_room b \<longleftrightarrow> card (dom (idmap b)) < length (pool b)"
  using live_count_hwm [OF inv] core_inv_hwm [OF inv] unfolding has_room_def by linarith

section \<open>Refinement\<close>

definition entry_for :: "i64 \<Rightarrow> i64 \<Rightarrow> i64 \<Rightarrow> entry" where
  "entry_for oid pr q = \<lparr>e_id = oid, e_price = pr, e_qty = q, e_filled = 0\<rparr>"

text \<open>An insert the book accepts: room, a side, a price on the grid, a fresh non-zero id.\<close>

definition can_insert :: "book \<Rightarrow> i64 \<Rightarrow> i64 \<Rightarrow> u8 \<Rightarrow> bool" where
  "can_insert b oid pr sd \<longleftrightarrow>
     has_room b \<and> is_side sd \<and> oid \<noteq> 0 \<and> idmap b oid = None \<and>
     (case tick_of (price_min b) (tick b) pr of
        Inl _ \<Rightarrow> False | Inr t \<Rightarrow> unat t < unat (n_levels b))"

lemma inserted_ladder:
  assumes core: "core_inv b Q F"
    and core': "core_inv (inserted b s fh h t oid pr q sd) (set_queue Q sd (unat t) (Q sd (unat t) @ [s])) F'"
    and pre: "is_side sd" "unat t < unat (n_levels b)"
    and s: "unat s < length (pool b)" "\<not> used_slot b s" "s \<noteq> tail (lane b sd ! unat t)"
  shows "ladder_of (inserted b s fh h t oid pr q sd) = spec_insert (entry_for oid pr q) sd (unat t) (ladder_of b)"
proof (rule ladder_of_eqI [OF core'])
  let ?b = "inserted b s fh h t oid pr q sd"
  have at: "entry_of (order_at (pool ?b) u) =
      (if u = s then entry_for oid pr q else entry_of (order_at (pool b) u))" for u
    unfolding order_at_inserted [OF s(1,3)] by (simp add: entry_of_def entry_for_def)
  show "n_levels ?b = n_levels b" by simp
  fix sd' t'
  show "map (\<lambda>s. entry_of (order_at (pool ?b) s))
      (set_queue Q sd (unat t) (Q sd (unat t) @ [s]) sd' t') =
    spec_insert (entry_for oid pr q) sd (unat t) (ladder_of b) sd' t'"
    if st: "is_side sd'" "t' < unat (n_levels b)"
  proof -
    have "s \<notin> set (Q sd' t')" using core_inv_mem [OF core st, of s] s(2) by simp
    then have "map (\<lambda>u. entry_of (order_at (pool ?b) u)) (Q sd' t') = ladder_of b sd' t'"
      unfolding ladder_of_queue [OF core st] at by (intro map_cong) auto
    then show ?thesis
      using at [of s] by (auto simp: set_queue_apply spec_insert_def)
  qed
  show "spec_insert (entry_for oid pr q) sd (unat t) (ladder_of b) sd' t' = []"
    if "\<not> (is_side sd' \<and> t' < unat (n_levels b))"
    using that pre ladder_of_outside [OF that] by (auto simp: spec_insert_def)
qed

lemma insert_refines_inv:
  assumes inv: "book_inv b Q F" and ok: "can_insert b oid pr sd"
    and tk: "tick_of (price_min b) (tick b) pr = Inr t"
  shows "\<exists>b'. book_insert b oid pr q sd = Inr b' \<and> wf_book b' \<and>
    ladder_of b' = spec_insert (entry_for oid pr q) sd (unat t) (ladder_of b) \<and>
    geom_of b' = geom_of b"
proof -
  have pre: "has_room b" "is_side sd" "oid \<noteq> 0" "idmap b oid = None" "unat t < unat (n_levels b)"
    using ok tk by (simp_all add: can_insert_def)
  obtain s h fh F' where run: "book_insert b oid pr q sd = Inr (inserted b s fh h t oid pr q sd)"
    and inv': "book_inv (inserted b s fh h t oid pr q sd)
           (set_queue Q sd (unat t) (Q sd (unat t) @ [s])) F'"
    and s: "s \<noteq> NIL" "unat s < length (pool b)" "\<not> used_slot b s"
      "s \<noteq> tail (lane b sd ! unat t)"
    by (rule insert_spec [OF inv pre(1,2) tk pre(5,3,4)])
  have "ladder_of (inserted b s fh h t oid pr q sd) = spec_insert (entry_for oid pr q) sd (unat t) (ladder_of b)"
    by (rule inserted_ladder [OF book_inv_core [OF inv] book_inv_core [OF inv'] pre(2,5) s(2-4)])
  then show ?thesis using run inv' by (auto simp: wf_book_def geom_of_def)
qed

lemma update_refines_inv:
  assumes inv: "book_inv b Q F" and id: "idmap b i = Some s"
  shows "\<exists>b'. book_update b i q = Inr b' \<and> wf_book b' \<and>
    ladder_of b' = spec_update i q (ladder_of b) \<and> geom_of b' = geom_of b"
proof -
  note core = book_inv_core [OF inv]
  obtain t where tk: "tick_of (price_min b) (tick b) (price (order_at (pool b) s)) = Inr t"
    and s: "unat s < length (pool b)" and oid: "order_id (order_at (pool b) s) = i"
    by (rule order_of_id [OF core id])
  let ?add = "min_i64 q (remaining (order_at (pool b) s))"
  let ?b = "updated b s t ?add"
  have run: "book_update b i q = Inr ?b \<and> book_inv ?b Q F" by (rule update_spec [OF inv id tk])
  then have inv': "book_inv ?b Q F" ..
  have at: "entry_of (order_at (pool ?b) u) = (if u = s
      then (entry_of (order_at (pool b) s))\<lparr>e_filled := filled (order_at (pool b) s) + ?add\<rparr>
      else entry_of (order_at (pool b) u))" for u
    using s by (simp add: order_at_update entry_of_def)
  have "ladder_of ?b = spec_update i q (ladder_of b)"
  proof (rule ladder_of_eqI [OF book_inv_core [OF inv']])
    show "n_levels ?b = n_levels b" by simp
    fix sd t'
    show "map (\<lambda>s. entry_of (order_at (pool ?b) s)) (Q sd t') = spec_update i q (ladder_of b) sd t'"
      if st: "is_side sd" "t' < unat (n_levels b)"
    proof -
      have "entry_of (order_at (pool ?b) u) = (let e = entry_of (order_at (pool b) u)
          in if e_id e = i then e\<lparr>e_filled := e_filled e + min_i64 q (e_remaining e)\<rparr> else e)"
        if "u \<in> set (Q sd t')" for u
      proof -
        have "u = s \<longleftrightarrow> order_id (order_at (pool b) u) = i"
          using that core_inv_mem [OF core st, of u] core_inv_id [OF core, of i u] id by auto
        then show ?thesis
          unfolding at by (cases "u = s") (simp_all add: entry_of_def e_remaining_def remaining_def)
      qed
      then show ?thesis
        unfolding spec_update_def ladder_of_queue [OF core st] map_map comp_def
        by (intro map_cong refl) (simp add: Let_def)
    qed
    show "spec_update i q (ladder_of b) sd t' = []" if "\<not> (is_side sd \<and> t' < unat (n_levels b))"
      using ladder_of_outside [OF that] by (simp add: spec_update_def)
  qed
  then show ?thesis using run by (auto simp: wf_book_def geom_of_def)
qed

lemma ladder_of_best [simp]:
  "ladder_of (b\<lparr>best_bid := w, best_ask := v\<rparr>) = ladder_of b"
  by (simp add: ladder_of_def cong: if_cong)

lemma unlinked_ladder:
  assumes core: "core_inv b Q F" and id: "idmap b i = Some s"
    and tk: "tick_of (price_min b) (tick b) (price (order_at (pool b) s)) = Inr t"
    and core': "core_inv (unlinked b s t i f) (set_queue Q (side (order_at (pool b) s)) (unat t)
        (remove1 s (Q (side (order_at (pool b) s)) (unat t)))) F'"
  shows "ladder_of (unlinked b s t i f) = spec_remove i (ladder_of b)"
proof (rule ladder_of_eqI [OF core'])
  let ?sd = "side (order_at (pool b) s)"
  let ?b = "unlinked b s t i f" and ?Q = "set_queue Q ?sd (unat t) (remove1 s (Q ?sd (unat t)))"
  have s: "unat s < length (pool b)"
    using core_inv_slot [OF core] core_inv_id [OF core, of i s] id by (auto simp: used_slot_def)
  show "n_levels ?b = n_levels b" by simp
  fix sd t'
  show "map (\<lambda>s. entry_of (order_at (pool ?b) s)) (?Q sd t') = spec_remove i (ladder_of b) sd t'"
    if st: "is_side sd" "t' < unat (n_levels b)"
  proof -
    have dis: "distinct (Q sd t')"
      using core_inv_fifo [OF core st] by (simp add: fifo_ok_def)
    have mem: "u = s \<longleftrightarrow> order_id (order_at (pool b) u) = i" if "u \<in> set (Q sd t')" for u
      using that core_inv_mem [OF core st, of u] core_inv_id [OF core, of i u] id by auto
    have Qs: "?Q sd t' = filter (\<lambda>u. u \<noteq> s) (Q sd t')"
    proof (cases "?sd = sd \<and> unat t = t'")
      case True
      then show ?thesis using dis by (simp add: set_queue_apply remove1_filter)
    next
      case False
      have "\<not> on_level b (order_at (pool b) s) sd t'"
        using False tk by (auto simp: on_level_def)
      then have "s \<notin> set (Q sd t')" using core_inv_mem [OF core st, of s] by simp
      then have "filter (\<lambda>u. u \<noteq> s) (Q sd t') = Q sd t'"
        by (auto simp: filter_id_conv)
      then show ?thesis using False by (auto simp: set_queue_apply)
    qed
    have "entry_of (order_at (pool ?b) u) = entry_of (order_at (pool b) u)" if "u \<noteq> s" for u
      unfolding pool_unlinked using that by (simp add: order_at_update entry_of_def)
    then show ?thesis
      unfolding spec_remove_def ladder_of_queue [OF core st] Qs filter_map comp_def
      using mem by (auto simp: entry_of_def intro!: map_cong filter_cong)
  qed
  show "spec_remove i (ladder_of b) sd t' = []" if "\<not> (is_side sd \<and> t' < unat (n_levels b))"
    using ladder_of_outside [OF that] by (simp add: spec_remove_def)
qed

lemma remove_refines_inv:
  assumes inv: "book_inv b Q F" and id: "idmap b i = Some s"
  shows "\<exists>b'. book_cancel b i = Inr b' \<and> wf_book b' \<and> ladder_of b' = spec_remove i (ladder_of b) \<and>
      free_head b' = s \<and> geom_of b' = geom_of b"
    and "\<exists>b'. book_fill b i = Inr b' \<and> wf_book b' \<and> ladder_of b' = spec_remove i (ladder_of b) \<and>
      free_head b' = s \<and> geom_of b' = geom_of b"
proof -
  note core = book_inv_core [OF inv]
  obtain t where tk: "tick_of (price_min b) (tick b) (price (order_at (pool b) s)) = Inr t"
    and oid: "order_id (order_at (pool b) s) = i" and us: "used_slot b s"
    and s: "unat s < length (pool b)"
    by (rule order_of_id [OF core id])
  let ?sd = "side (order_at (pool b) s)"
  note spec = remove_spec [OF inv id tk refl]
  have key: "\<exists>b'. repair_best (unlinked b s t i f) ?sd t = Inr b' \<and> wf_book b' \<and>
      ladder_of b' = spec_remove i (ladder_of b) \<and> free_head b' = s \<and> geom_of b' = geom_of b" for f
  proof -
    let ?b = "unlinked b s t i f" and ?Q = "set_queue Q ?sd (unat t) (remove1 s (Q ?sd (unat t)))"
    obtain w v where run: "repair_best ?b ?sd t = Inr (?b\<lparr>best_bid := w, best_ask := v\<rparr>)"
      and inv': "book_inv (?b\<lparr>best_bid := w, best_ask := v\<rparr>) ?Q (s # F)"
      using spec(1) [of f] by blast
    from book_inv_core [OF inv'] have core': "core_inv ?b ?Q (s # F)" by simp
    have "ladder_of ?b = spec_remove i (ladder_of b)"
      by (rule unlinked_ladder [OF core id tk core'])
    then show ?thesis using run inv' by (auto simp: wf_book_def geom_of_def)
  qed
  show "\<exists>b'. book_cancel b i = Inr b' \<and> wf_book b' \<and> ladder_of b' = spec_remove i (ladder_of b) \<and>
      free_head b' = s \<and> geom_of b' = geom_of b"
    unfolding spec(2) by (rule key)
  show "\<exists>b'. book_fill b i = Inr b' \<and> wf_book b' \<and> ladder_of b' = spec_remove i (ladder_of b) \<and>
      free_head b' = s \<and> geom_of b' = geom_of b"
    unfolding spec(3) by (rule key)
qed

end
