(* ===== verification/Chunks.thy ===== *)
theory Chunks
  imports Prelude
begin

text \<open>
  A vector split into chunks of a fixed size, the last one shorter: what indexing by
  quotient and remainder reads and writes in terms of the whole vector.
\<close>

definition div_usize :: "usize \<Rightarrow> usize \<Rightarrow> panic + usize" where
  "div_usize a b = (if b = 0 then Inl Div_by_zero else Inr (a div b))"

definition rem_usize :: "usize \<Rightarrow> usize \<Rightarrow> panic + usize" where
  "rem_usize a b = (if b = 0 then Inl Div_by_zero else Inr (a mod b))"

text \<open>\<open>usize::div_ceil\<close>.\<close>

definition div_ceil :: "usize \<Rightarrow> usize \<Rightarrow> panic + usize" where
  "div_ceil a b = (if b = 0 then Inl Div_by_zero
     else Inr (if a mod b = 0 then a div b else a div b + 1))"

lemma usize_div_simps [step_simps]:
  "0 < b \<Longrightarrow> div_usize a b = Inr (a div b)" "0 < b \<Longrightarrow> rem_usize a b = Inr (a mod b)"
  "div_usize a 0 = Inl Div_by_zero" "rem_usize a 0 = Inl Div_by_zero"
  by (simp_all add: div_usize_def rem_usize_def)

fun chunked :: "nat \<Rightarrow> nat \<Rightarrow> 'a list list \<Rightarrow> bool" where
  "chunked k n [] \<longleftrightarrow> n = 0"
| "chunked k n (c # cs) \<longleftrightarrow> 0 < n \<and> length c = min k n \<and> chunked k (n - k) cs"

lemma chunked_length: "chunked k n cs \<Longrightarrow> length (concat cs) = n"
  by (induction k n cs rule: chunked.induct) auto

lemma chunked_nth:
  assumes "chunked k n cs" and "0 < k" and "i < n"
  shows "i div k < length cs \<and> i mod k < length (cs ! (i div k)) \<and>
    cs ! (i div k) ! (i mod k) = concat cs ! i"
  using assms
proof (induction k n cs arbitrary: i rule: chunked.induct)
  case (1 k n)
  then show ?case by simp
next
  case (2 k n c cs)
  show ?case
  proof (cases "i < k")
    case True
    with 2 show ?thesis by (simp add: nth_append)
  next
    case False
    with 2 have "i - k < n - k" "chunked k (n - k) cs" "length c = k" by auto
    with 2 have "(i - k) div k < length cs \<and> (i - k) mod k < length (cs ! ((i - k) div k)) \<and>
        cs ! ((i - k) div k) ! ((i - k) mod k) = concat cs ! (i - k)" by simp
    moreover have "i div k = Suc ((i - k) div k)" "i mod k = (i - k) mod k"
      using False 2(3) by (simp_all add: le_div_geq le_mod_geq)
    ultimately show ?thesis using False \<open>length c = k\<close> by (simp add: nth_append)
  qed
qed

lemma chunked_update:
  assumes "chunked k n cs" and "0 < k" and "i < n"
  shows "chunked k n (cs[i div k := (cs ! (i div k))[i mod k := x]]) \<and>
    concat (cs[i div k := (cs ! (i div k))[i mod k := x]]) = (concat cs)[i := x]"
  using assms
proof (induction k n cs arbitrary: i rule: chunked.induct)
  case (1 k n)
  then show ?case by simp
next
  case (2 k n c cs)
  show ?case
  proof (cases "i < k")
    case True
    with 2 show ?thesis by (simp add: list_update_append)
  next
    case False
    with 2 have *: "i - k < n - k" "chunked k (n - k) cs" "length c = k" by auto
    with 2 have "chunked k (n - k) (cs[(i - k) div k := (cs ! ((i - k) div k))[(i - k) mod k := x]]) \<and>
        concat (cs[(i - k) div k := (cs ! ((i - k) div k))[(i - k) mod k := x]]) =
        (concat cs)[i - k := x]" by simp
    moreover have "i div k = Suc ((i - k) div k)" "i mod k = (i - k) mod k"
      using False 2(3) by (simp_all add: le_div_geq le_mod_geq)
    ultimately show ?thesis using False * 2 by (simp add: list_update_append)
  qed
qed

lemma chunked_outside:
  assumes "chunked k n cs" and "0 < k" and "n \<le> i" and "i div k < length cs"
  shows "length (cs ! (i div k)) \<le> i mod k"
  using assms
proof (induction k n cs arbitrary: i rule: chunked.induct)
  case (1 k n)
  then show ?case by simp
next
  case (2 k n c cs)
  show ?case
  proof (cases "i < k")
    case True
    with 2 show ?thesis by simp
  next
    case False
    then have "i div k = Suc ((i - k) div k)" "i mod k = (i - k) mod k"
      using 2(3) by (simp_all add: le_div_geq le_mod_geq)
    with 2 False show ?thesis by simp
  qed
qed

text \<open>Building the table: \<open>(0..n.div_ceil(k)).map(|ci| vec![x; k.min(n - ci * k)])\<close>.\<close>

lemma chunked_build:
  assumes "0 < k" and "m = (if n mod k = 0 then n div k else n div k + 1)"
  shows "chunked k n (map (\<lambda>ci. replicate (min k (n - ci * k)) x) [0..<m]) \<and>
    concat (map (\<lambda>ci. replicate (min k (n - ci * k)) x) [0..<m]) = replicate n x"
  using assms
proof (induction n arbitrary: m rule: less_induct)
  case (less n)
  show ?case
  proof (cases "n = 0")
    case True
    with less show ?thesis by simp
  next
    case n: False
    define m' where "m' = (if (n - k) mod k = 0 then (n - k) div k else (n - k) div k + 1)"
    have m: "m = Suc m'"
    proof (cases "n < k")
      case True
      with less n show ?thesis by (simp add: m'_def)
    next
      case False
      with less show ?thesis by (simp add: m'_def le_div_geq le_mod_geq)
    qed
    have IH: "chunked k (n - k) (map (\<lambda>ci. replicate (min k (n - k - ci * k)) x) [0..<m']) \<and>
        concat (map (\<lambda>ci. replicate (min k (n - k - ci * k)) x) [0..<m']) = replicate (n - k) x"
      using less(1) [of "n - k" m'] less(2) n m'_def by simp
    have split: "map (\<lambda>ci. replicate (min k (n - ci * k)) x) [0..<m] =
        replicate (min k n) x # map (\<lambda>ci. replicate (min k (n - k - ci * k)) x) [0..<m']"
      unfolding m upt_conv_Cons [OF zero_less_Suc] map_Suc_upt [symmetric]
      by (simp add: comp_def)
    have "min k n + (n - k) = n" by simp
    then show ?thesis unfolding split using IH n
      by (simp add: replicate_add [symmetric])
  qed
qed

end
