(* ===== verification/Cow.thy ===== *)
theory Cow
  imports Book Chunks
begin

text \<open>
  The chunked copy-on-write book (rust/smr-collections/common/src/cowbook.rs). Chunks live
  behind \<open>Arc\<close>s, which a snapshot root shares with the live book, so the model has a heap:
  an address is an index into the list of all chunks ever allocated, \<open>Arc::new\<close> appends, and
  cloning a chunk table copies addresses. A write goes through the address, as the unsafe
  write in \<open>order_mut\<close> and \<open>level_mut\<close> does, so a root holding that address would see it.
\<close>

record order_chunk =
  oc_born :: u64
  oc_orders :: "order list"

record level_chunk =
  lc_born :: u64
  lc_levels :: "price_level list"

record root =
  r_price_min :: i64
  r_tick :: i64
  r_n_levels :: u32
  r_capacity :: u32
  r_hwm :: u32
  r_best_bid :: i32
  r_best_ask :: i32
  r_chunk :: usize
  r_free_head :: u32
  r_order_chunks :: "nat list"
  r_bid_chunks :: "nat list"
  r_ask_chunks :: "nat list"

record cowbook =
  c_price_min :: i64
  c_tick :: i64
  c_n_levels :: u32
  c_capacity :: u32
  c_chunk :: usize
  c_gen :: u64
  c_order_chunks :: "nat list"
  c_bid_chunks :: "nat list"
  c_ask_chunks :: "nat list"
  c_hwm :: u32
  c_best_bid :: i32
  c_best_ask :: i32
  c_free_head :: u32
  c_idmap :: "i64 \<rightharpoonup> u32"
  order_heap :: "order_chunk list"
  level_heap :: "level_chunk list"

definition LEVEL_CHUNK :: usize where
  "LEVEL_CHUNK = 256"

definition chunk_lens :: "usize \<Rightarrow> usize \<Rightarrow> usize \<Rightarrow> usize list" where
  "chunk_lens k n m = map (\<lambda>ci. min k (n - ci * k)) [0..<m]"

definition cow_new :: "smr_config \<Rightarrow> panic + cowbook" where
  "cow_new cfg =
     and_then (div_ceil (cfg_cap cfg) (cfg_chunk cfg)) (\<lambda>m.
     and_then (div_ceil (unat (cfg_levels cfg)) LEVEL_CHUNK) (\<lambda>lm.
     let mk_lane = map (\<lambda>len. \<lparr>lc_born = 1, lc_levels = replicate len empty_level\<rparr>)
           (chunk_lens LEVEL_CHUNK (unat (cfg_levels cfg)) lm) in
     Inr \<lparr>c_price_min = cfg_price_min cfg, c_tick = cfg_tick cfg,
          c_n_levels = cfg_levels cfg, c_capacity = of_nat (cfg_cap cfg),
          c_chunk = cfg_chunk cfg, c_gen = 1,
          c_order_chunks = [0..<m], c_bid_chunks = [0..<lm], c_ask_chunks = [lm..<lm + lm],
          c_hwm = 0, c_best_bid = - 1, c_best_ask = - 1, c_free_head = NIL,
          c_idmap = Map.empty,
          order_heap = map (\<lambda>len. \<lparr>oc_born = 1, oc_orders = replicate len zero_order\<rparr>)
            (chunk_lens (cfg_chunk cfg) (cfg_cap cfg) m),
          level_heap = mk_lane @ mk_lane\<rparr>))"

section \<open>Accessors\<close>

definition cow_tick_of :: "cowbook \<Rightarrow> i64 \<Rightarrow> panic + u32" where
  "cow_tick_of c pr = tick_of (c_price_min c) (c_tick c) pr"

text \<open>Reading through a chunk table, as \<open>Root::order\<close> and \<open>CowBook::order\<close> do.\<close>

definition read_order ::
  "order_chunk list \<Rightarrow> nat list \<Rightarrow> usize \<Rightarrow> u32 \<Rightarrow> panic + order" where
  "read_order oh tbl k s =
     and_then (div_usize (unat s) k) (\<lambda>ci.
     and_then (idx tbl ci) (\<lambda>a.
     and_then (rem_usize (unat s) k) (\<lambda>off.
     idx (oc_orders (oh ! a)) off)))"

definition read_level :: "level_chunk list \<Rightarrow> nat list \<Rightarrow> u32 \<Rightarrow> panic + price_level" where
  "read_level lh tbl t =
     and_then (idx tbl (unat t div LEVEL_CHUNK)) (\<lambda>a.
     idx (lc_levels (lh ! a)) (unat t mod LEVEL_CHUNK))"

definition cow_order :: "cowbook \<Rightarrow> u32 \<Rightarrow> panic + order" where
  "cow_order c s = read_order (order_heap c) (c_order_chunks c) (c_chunk c) s"

definition cow_table :: "cowbook \<Rightarrow> u8 \<Rightarrow> nat list" where
  "cow_table c sd = (if sd = 0 then c_bid_chunks c else c_ask_chunks c)"

definition cow_level :: "cowbook \<Rightarrow> u8 \<Rightarrow> u32 \<Rightarrow> panic + price_level" where
  "cow_level c sd t = read_level (level_heap c) (cow_table c sd) t"

definition root_order :: "order_chunk list \<Rightarrow> root \<Rightarrow> u32 \<Rightarrow> panic + order" where
  "root_order oh r s = read_order oh (r_order_chunks r) (r_chunk r) s"

definition root_level :: "level_chunk list \<Rightarrow> root \<Rightarrow> u8 \<Rightarrow> u32 \<Rightarrow> panic + price_level" where
  "root_level lh r sd t = read_level lh (if sd = 0 then r_bid_chunks r else r_ask_chunks r) t"

definition set_table :: "cowbook \<Rightarrow> u8 \<Rightarrow> nat list \<Rightarrow> cowbook" where
  "set_table c sd tbl =
     (if sd = 0 then c\<lparr>c_bid_chunks := tbl\<rparr> else c\<lparr>c_ask_chunks := tbl\<rparr>)"

text \<open>
  \<open>order_mut\<close> and \<open>level_mut\<close>, written through by \<open>f\<close>: a chunk older than the current
  generation is copied first and the copy replaces it in the book's own table.
\<close>

definition own_order_chunk :: "cowbook \<Rightarrow> nat \<Rightarrow> panic + cowbook" where
  "own_order_chunk c ci =
     and_then (idx (c_order_chunks c) ci) (\<lambda>a.
     if oc_born (order_heap c ! a) < c_gen c
     then Inr (c\<lparr>order_heap := order_heap c @
                   [\<lparr>oc_born = c_gen c, oc_orders = oc_orders (order_heap c ! a)\<rparr>],
                 c_order_chunks := (c_order_chunks c)[ci := length (order_heap c)]\<rparr>)
     else Inr c)"

definition order_mut :: "cowbook \<Rightarrow> u32 \<Rightarrow> (order \<Rightarrow> order) \<Rightarrow> panic + cowbook" where
  "order_mut c s f =
     and_then (div_usize (unat s) (c_chunk c)) (\<lambda>ci.
     and_then (own_order_chunk c ci) (\<lambda>c.
     and_then (rem_usize (unat s) (c_chunk c)) (\<lambda>off.
     and_then (idx (c_order_chunks c) ci) (\<lambda>a.
     and_then (idx_modify (oc_orders (order_heap c ! a)) off f) (\<lambda>os.
     Inr (c\<lparr>order_heap := (order_heap c)[a := (order_heap c ! a)\<lparr>oc_orders := os\<rparr>]\<rparr>))))))"

definition own_level_chunk :: "cowbook \<Rightarrow> u8 \<Rightarrow> nat \<Rightarrow> panic + cowbook" where
  "own_level_chunk c sd ci =
     and_then (idx (cow_table c sd) ci) (\<lambda>a.
     if lc_born (level_heap c ! a) < c_gen c
     then Inr (set_table (c\<lparr>level_heap := level_heap c @
                   [\<lparr>lc_born = c_gen c, lc_levels = lc_levels (level_heap c ! a)\<rparr>]\<rparr>) sd
                 ((cow_table c sd)[ci := length (level_heap c)]))
     else Inr c)"

definition level_mut ::
  "cowbook \<Rightarrow> u8 \<Rightarrow> u32 \<Rightarrow> (price_level \<Rightarrow> price_level) \<Rightarrow> panic + cowbook" where
  "level_mut c sd t f =
     (let ci = unat t div LEVEL_CHUNK in
      and_then (own_level_chunk c sd ci) (\<lambda>c.
      and_then (idx (cow_table c sd) ci) (\<lambda>a.
      and_then (idx_modify (lc_levels (level_heap c ! a)) (unat t mod LEVEL_CHUNK) f) (\<lambda>ls.
      Inr (c\<lparr>level_heap := (level_heap c)[a := (level_heap c ! a)\<lparr>lc_levels := ls\<rparr>]\<rparr>)))))"

definition cow_get_slot :: "cowbook \<Rightarrow> i64 \<Rightarrow> panic + u32" where
  "cow_get_slot c oid = (case c_idmap c oid of None \<Rightarrow> Inl Missing_key | Some s \<Rightarrow> Inr s)"

definition cow_level_qty :: "cowbook \<Rightarrow> u8 \<Rightarrow> u32 \<Rightarrow> panic + i64" where
  "cow_level_qty c sd t = and_then (cow_level c sd t) (\<lambda>l. Inr (qty_total l))"

section \<open>Operations\<close>

definition cow_alloc_slot :: "cowbook \<Rightarrow> panic + u32 \<times> cowbook" where
  "cow_alloc_slot c =
     (if c_free_head c \<noteq> NIL then
        and_then (cow_order c (c_free_head c)) (\<lambda>ord.
        Inr (c_free_head c, c\<lparr>c_free_head := next_slot ord\<rparr>))
      else if c_hwm c = c_capacity c then Inl (Pool_exhausted (unat (c_capacity c)))
      else Inr (c_hwm c, c\<lparr>c_hwm := c_hwm c + 1\<rparr>))"

definition cow_free_slot :: "cowbook \<Rightarrow> u32 \<Rightarrow> panic + cowbook" where
  "cow_free_slot c s =
     and_then (order_mut c s
       (\<lambda>ord. ord\<lparr>order_id := 0, next_slot := c_free_head c, prev_slot := NIL\<rparr>)) (\<lambda>c'.
     Inr (c'\<lparr>c_free_head := s\<rparr>))"

definition cow_insert :: "cowbook \<Rightarrow> i64 \<Rightarrow> i64 \<Rightarrow> i64 \<Rightarrow> u8 \<Rightarrow> panic + cowbook" where
  "cow_insert c oid pr q sd =
     and_then (cow_tick_of c pr) (\<lambda>t.
     and_then (cow_alloc_slot c) (\<lambda>(slot, c).
     and_then (cow_level c sd t) (\<lambda>lvl.
     let prev_tail = tail lvl in
     and_then (order_mut c slot (\<lambda>_.
       \<lparr>order_id = oid, price = pr, qty = q, filled = 0,
        next_slot = NIL, prev_slot = prev_tail, side = sd\<rparr>)) (\<lambda>c.
     and_then (level_mut c sd t (level_push slot q)) (\<lambda>c.
     and_then (if prev_tail \<noteq> NIL
               then order_mut c prev_tail (\<lambda>ord. ord\<lparr>next_slot := slot\<rparr>)
               else Inr c) (\<lambda>c.
     Inr (c\<lparr>c_idmap := (c_idmap c)(oid \<mapsto> slot),
            c_best_bid := raise_bid sd t (c_best_bid c),
            c_best_ask := lower_ask sd t (c_best_ask c)\<rparr>)))))))"

text \<open>\<open>update\<close> reads and writes the order through one \<open>order_mut\<close> reference.\<close>

definition cow_update :: "cowbook \<Rightarrow> i64 \<Rightarrow> i64 \<Rightarrow> panic + cowbook" where
  "cow_update c oid fill_qty =
     and_then (cow_get_slot c oid) (\<lambda>slot.
     and_then (cow_order c slot) (\<lambda>ord.
     let add = min_i64 fill_qty (qty ord - filled ord) in
     and_then (order_mut c slot (\<lambda>ord. ord\<lparr>filled := filled ord + add\<rparr>)) (\<lambda>c.
     and_then (cow_tick_of c (price ord)) (\<lambda>t.
     level_mut c (side ord) t (\<lambda>l. l\<lparr>qty_total := qty_total l - add\<rparr>)))))"

definition cow_unlink :: "cowbook \<Rightarrow> u32 \<Rightarrow> u8 \<Rightarrow> u32 \<Rightarrow> i64 \<Rightarrow> panic + cowbook" where
  "cow_unlink c slot sd t rm =
     and_then (cow_order c slot) (\<lambda>ord.
     let pv = prev_slot ord; nx = next_slot ord in
     and_then (if pv \<noteq> NIL then order_mut c pv (\<lambda>ord. ord\<lparr>next_slot := nx\<rparr>)
               else Inr c) (\<lambda>c.
     and_then (if nx \<noteq> NIL then order_mut c nx (\<lambda>ord. ord\<lparr>prev_slot := pv\<rparr>)
               else Inr c) (\<lambda>c.
     level_mut c sd t (level_pop slot pv nx rm))))"

fun cow_scan :: "cowbook \<Rightarrow> u8 \<Rightarrow> nat list \<Rightarrow> panic + i32" where
  "cow_scan c sd [] = Inr (- 1)"
| "cow_scan c sd (i # is) =
     and_then (cow_level c sd (of_nat i)) (\<lambda>l.
       if head l \<noteq> NIL then Inr (of_nat i) else cow_scan c sd is)"

definition cow_repair_best :: "cowbook \<Rightarrow> u8 \<Rightarrow> u32 \<Rightarrow> panic + cowbook" where
  "cow_repair_best c sd t =
     (if sd = 0 then
        if c_best_bid c \<noteq> t then Inr c
        else and_then (cow_level c 0 t) (\<lambda>l.
          if head l \<noteq> NIL then Inr c
          else and_then (cow_scan c 0 (rev [0..<Suc (unat t)])) (\<lambda>nb.
            Inr (c\<lparr>c_best_bid := nb\<rparr>)))
      else
        if c_best_ask c \<noteq> t then Inr c
        else and_then (cow_level c 1 t) (\<lambda>l.
          if head l \<noteq> NIL then Inr c
          else and_then (cow_scan c 1 [unat t..<unat (c_n_levels c)]) (\<lambda>na.
            Inr (c\<lparr>c_best_ask := na\<rparr>))))"

definition cow_id_remove :: "cowbook \<Rightarrow> i64 \<Rightarrow> panic + u32 \<times> cowbook" where
  "cow_id_remove c oid =
     (case c_idmap c oid of
        None \<Rightarrow> Inl Unknown_order
      | Some s \<Rightarrow> Inr (s, c\<lparr>c_idmap := (c_idmap c)(oid := None)\<rparr>))"

definition cow_cancel :: "cowbook \<Rightarrow> i64 \<Rightarrow> panic + cowbook" where
  "cow_cancel c oid =
     and_then (cow_id_remove c oid) (\<lambda>(slot, c).
     and_then (cow_order c slot) (\<lambda>ord.
     let rm = qty ord - filled ord in
     and_then (cow_tick_of c (price ord)) (\<lambda>t.
     and_then (cow_unlink c slot (side ord) t rm) (\<lambda>c.
     and_then (cow_free_slot c slot) (\<lambda>c.
     cow_repair_best c (side ord) t)))))"

definition cow_fill :: "cowbook \<Rightarrow> i64 \<Rightarrow> panic + cowbook" where
  "cow_fill c oid =
     and_then (cow_id_remove c oid) (\<lambda>(slot, c).
     and_then (cow_order c slot) (\<lambda>ord.
     let rm = qty ord - filled ord in
     and_then (order_mut c slot (\<lambda>ord. ord\<lparr>filled := qty ord\<rparr>)) (\<lambda>c.
     and_then (cow_tick_of c (price ord)) (\<lambda>t.
     and_then (cow_unlink c slot (side ord) t rm) (\<lambda>c.
     and_then (cow_free_slot c slot) (\<lambda>c.
     cow_repair_best c (side ord) t))))))"

text \<open>Freezing the state: the tables are cloned, then the generation moves on.\<close>

definition capture :: "cowbook \<Rightarrow> root \<times> cowbook" where
  "capture c =
     (\<lparr>r_price_min = c_price_min c, r_tick = c_tick c, r_n_levels = c_n_levels c,
       r_capacity = c_capacity c, r_hwm = c_hwm c, r_best_bid = c_best_bid c,
       r_best_ask = c_best_ask c, r_chunk = c_chunk c, r_free_head = c_free_head c,
       r_order_chunks = c_order_chunks c, r_bid_chunks = c_bid_chunks c,
       r_ask_chunks = c_ask_chunks c\<rparr>,
      c\<lparr>c_gen := c_gen c + 1\<rparr>)"

end
