(* ===== verification/Cow_Sim.thy ===== *)
theory Cow_Sim
  imports Cow
begin

text \<open>
  The copy-on-write book is the flat book. Reading every chunk through the tables gives a
  flat book (\<open>flat\<close>); every operation commutes with that view, panics included, and writes
  no chunk older than the current generation, which is why a captured root never changes.
\<close>

section \<open>Relating results\<close>

text \<open>Two runs agree when both panic alike or both return related values.\<close>

definition agree :: "('a \<Rightarrow> 'b \<Rightarrow> bool) \<Rightarrow> 'e + 'a \<Rightarrow> 'e + 'b \<Rightarrow> bool" where
  "agree R m m' = rel_sum (=) R m m'"

lemma agree_simps [simp]:
  "agree R (Inl e) (Inl e') \<longleftrightarrow> e = e'" "agree R (Inr x) (Inr y) \<longleftrightarrow> R x y"
  "\<not> agree R (Inl e) (Inr y)" "\<not> agree R (Inr x) (Inl e')"
  by (simp_all add: agree_def)

lemma agree_and_then:
  assumes "agree R m m'" and "\<And>x y. m = Inr x \<Longrightarrow> m' = Inr y \<Longrightarrow> R x y \<Longrightarrow> agree S (f x) (f' y)"
  shows "agree S (and_then m f) (and_then m' f')"
  using assms by (cases m; cases m') auto

lemma agree_InrE:
  assumes "agree R m m'" and "m' = Inr y"
  obtains x where "m = Inr x" and "R x y"
  using assms by (cases m) auto

lemma agree_eq [simp]: "agree (=) m m' \<longleftrightarrow> m = m'"
  by (cases m; cases m') auto

lemma agree_mono: "agree R m m' \<Longrightarrow> (\<And>x y. R x y \<Longrightarrow> S x y) \<Longrightarrow> agree S m m'"
  by (cases m; cases m') auto

section \<open>The flat view\<close>

definition order_view :: "cowbook \<Rightarrow> order list list" where
  "order_view c = map (\<lambda>a. oc_orders (order_heap c ! a)) (c_order_chunks c)"

definition level_view :: "cowbook \<Rightarrow> u8 \<Rightarrow> price_level list list" where
  "level_view c sd = map (\<lambda>a. lc_levels (level_heap c ! a)) (cow_table c sd)"

definition flat :: "cowbook \<Rightarrow> book" where
  "flat c =
     \<lparr>price_min = c_price_min c, tick = c_tick c, n_levels = c_n_levels c,
      bids = concat (level_view c 0), asks = concat (level_view c 1),
      pool = concat (order_view c), hwm = c_hwm c, best_bid = c_best_bid c,
      best_ask = c_best_ask c, idmap = c_idmap c, free_head = c_free_head c\<rparr>"

definition cow_ok :: "cowbook \<Rightarrow> bool" where
  "cow_ok c \<longleftrightarrow>
     0 < c_chunk c \<and>
     chunked (c_chunk c) (unat (c_capacity c)) (order_view c) \<and>
     chunked LEVEL_CHUNK (unat (c_n_levels c)) (level_view c 0) \<and>
     chunked LEVEL_CHUNK (unat (c_n_levels c)) (level_view c 1) \<and>
     distinct (c_order_chunks c) \<and> distinct (c_bid_chunks c @ c_ask_chunks c) \<and>
     set (c_order_chunks c) \<subseteq> {..<length (order_heap c)} \<and>
     set (c_bid_chunks c @ c_ask_chunks c) \<subseteq> {..<length (level_heap c)} \<and>
     (\<forall>a < length (order_heap c). oc_born (order_heap c ! a) \<le> c_gen c) \<and>
     (\<forall>a < length (level_heap c). lc_born (level_heap c ! a) \<le> c_gen c)"

text \<open>What may have happened to the heap since \<open>c\<close>: no frozen chunk was written.\<close>

definition frame :: "cowbook \<Rightarrow> cowbook \<Rightarrow> bool" where
  "frame c c' \<longleftrightarrow>
     c_gen c' = c_gen c \<and>
     length (order_heap c) \<le> length (order_heap c') \<and>
     length (level_heap c) \<le> length (level_heap c') \<and>
     (\<forall>a < length (order_heap c). oc_born (order_heap c ! a) < c_gen c \<longrightarrow>
        order_heap c' ! a = order_heap c ! a) \<and>
     (\<forall>a < length (level_heap c). lc_born (level_heap c ! a) < c_gen c \<longrightarrow>
        level_heap c' ! a = level_heap c ! a)"

lemma frame_refl [simp]: "frame c c"
  by (simp add: frame_def)

lemma frame_trans: "frame a b \<Longrightarrow> frame b c \<Longrightarrow> frame a c"
  by (auto simp: frame_def)

text \<open>The simulation relation, relative to the state an operation started from.\<close>

definition sim :: "cowbook \<Rightarrow> cowbook \<Rightarrow> book \<Rightarrow> bool" where
  "sim c0 c b \<longleftrightarrow> cow_ok c \<and> frame c0 c \<and> flat c = b"

lemma flat_simps [simp]:
  "price_min (flat c) = c_price_min c" "tick (flat c) = c_tick c"
  "n_levels (flat c) = c_n_levels c" "hwm (flat c) = c_hwm c"
  "best_bid (flat c) = c_best_bid c" "best_ask (flat c) = c_best_ask c"
  "idmap (flat c) = c_idmap c" "free_head (flat c) = c_free_head c"
  "pool (flat c) = concat (order_view c)"
  by (simp_all add: flat_def)

lemma lane_flat: "lane (flat c) sd = concat (level_view c sd)"
  by (simp add: lane_def flat_def level_view_def cow_table_def)

lemma cow_ok_chunks:
  assumes "cow_ok c"
  shows "chunked (c_chunk c) (unat (c_capacity c)) (order_view c)" and "0 < c_chunk c"
    and "chunked LEVEL_CHUNK (unat (c_n_levels c)) (level_view c sd)"
    and "distinct (c_order_chunks c)" and "distinct (cow_table c sd)"
    and "set (c_order_chunks c) \<subseteq> {..<length (order_heap c)}"
    and "set (cow_table c sd) \<subseteq> {..<length (level_heap c)}"
  using assms by (auto simp: cow_ok_def level_view_def cow_table_def)

lemma LEVEL_CHUNK_pos [simp]: "0 < LEVEL_CHUNK"
  by (simp add: LEVEL_CHUNK_def)

text \<open>Updates of the scalars.\<close>

lemma cow_ok_scalars [simp]:
  "cow_ok (c\<lparr>c_hwm := h\<rparr>) = cow_ok c" "cow_ok (c\<lparr>c_free_head := fh\<rparr>) = cow_ok c"
  "cow_ok (c\<lparr>c_idmap := m\<rparr>) = cow_ok c" "cow_ok (c\<lparr>c_best_bid := w\<rparr>) = cow_ok c"
  "cow_ok (c\<lparr>c_best_ask := w\<rparr>) = cow_ok c"
  by (simp_all add: cow_ok_def order_view_def level_view_def cow_table_def)

lemma frame_scalars [simp]:
  "frame c0 (c\<lparr>c_hwm := h\<rparr>) = frame c0 c" "frame c0 (c\<lparr>c_free_head := fh\<rparr>) = frame c0 c"
  "frame c0 (c\<lparr>c_idmap := m\<rparr>) = frame c0 c" "frame c0 (c\<lparr>c_best_bid := w\<rparr>) = frame c0 c"
  "frame c0 (c\<lparr>c_best_ask := w\<rparr>) = frame c0 c"
  by (simp_all add: frame_def)

lemma flat_scalars [simp]:
  "flat (c\<lparr>c_hwm := h\<rparr>) = (flat c)\<lparr>hwm := h\<rparr>"
  "flat (c\<lparr>c_free_head := fh\<rparr>) = (flat c)\<lparr>free_head := fh\<rparr>"
  "flat (c\<lparr>c_idmap := m\<rparr>) = (flat c)\<lparr>idmap := m\<rparr>"
  "flat (c\<lparr>c_best_bid := w\<rparr>) = (flat c)\<lparr>best_bid := w\<rparr>"
  "flat (c\<lparr>c_best_ask := w\<rparr>) = (flat c)\<lparr>best_ask := w\<rparr>"
  by (simp_all add: flat_def order_view_def level_view_def cow_table_def)

section \<open>Reading\<close>

lemma read_order_flat:
  assumes "chunked k n (map (\<lambda>a. oc_orders (oh ! a)) tbl)" and "0 < k"
  shows "read_order oh tbl k s = idx (concat (map (\<lambda>a. oc_orders (oh ! a)) tbl)) (unat s)"
proof (cases "unat s < n")
  case True
  with chunked_nth [OF assms True] chunked_length [OF assms(1)] show ?thesis
    by (auto simp: read_order_def usize_div_simps assms(2) idx_simps)
next
  case False
  then have out: "\<not> unat s < length (concat (map (\<lambda>a. oc_orders (oh ! a)) tbl))"
    using chunked_length [OF assms(1)] by simp
  show ?thesis
  proof (cases "unat s div k < length tbl")
    case True
    then have "\<not> unat s mod k < length (oc_orders (oh ! (tbl ! (unat s div k))))"
      using chunked_outside [OF assms(1,2), of "unat s"] False by simp
    with True out show ?thesis
      by (simp add: read_order_def usize_div_simps assms(2) idx_simps)
  next
    case False
    with out show ?thesis by (simp add: read_order_def usize_div_simps assms(2) idx_simps)
  qed
qed

lemma read_level_flat:
  assumes "chunked LEVEL_CHUNK n (map (\<lambda>a. lc_levels (lh ! a)) tbl)"
  shows "read_level lh tbl t = idx (concat (map (\<lambda>a. lc_levels (lh ! a)) tbl)) (unat t)"
proof (cases "unat t < n")
  case True
  with chunked_nth [OF assms _ True] chunked_length [OF assms] show ?thesis
    by (auto simp: read_level_def idx_simps)
next
  case False
  then have out: "\<not> unat t < length (concat (map (\<lambda>a. lc_levels (lh ! a)) tbl))"
    using chunked_length [OF assms] by simp
  show ?thesis
  proof (cases "unat t div LEVEL_CHUNK < length tbl")
    case True
    then have "\<not> unat t mod LEVEL_CHUNK < length (lc_levels (lh ! (tbl ! (unat t div LEVEL_CHUNK))))"
      using chunked_outside [OF assms, of "unat t"] False by simp
    with True out show ?thesis by (simp add: read_level_def idx_simps)
  next
    case False
    with out show ?thesis by (simp add: read_level_def idx_simps)
  qed
qed

lemma cow_order_flat: "cow_ok c \<Longrightarrow> cow_order c s = get_order (flat c) s"
  using read_order_flat cow_ok_chunks(1,2) unfolding order_view_def
  by (fastforce simp: cow_order_def get_order_def order_view_def)

lemma cow_level_flat: "cow_ok c \<Longrightarrow> cow_level c sd t = get_level (flat c) sd t"
  using read_level_flat cow_ok_chunks(3) [of c sd] unfolding level_view_def
  by (fastforce simp: cow_level_def get_level_def lane_flat level_view_def)

section \<open>Writing\<close>

lemma map_heap_write:
  assumes "distinct tbl" and "i < length tbl" and "tbl ! i < length heap"
  shows "map (\<lambda>a. g (heap[tbl ! i := y] ! a)) tbl = (map (\<lambda>a. g (heap ! a)) tbl)[i := g y]"
  using assms by (auto simp: list_eq_iff_nth_eq nth_list_update nth_eq_iff_index_eq)

lemma map_heap_alloc:
  assumes "set tbl \<subseteq> {..<length heap}"
  shows "map (\<lambda>a. g ((heap @ ys) ! a)) tbl = map (\<lambda>a. g (heap ! a)) tbl"
    and "map (\<lambda>a. g ((heap @ [y]) ! a)) (tbl[i := length heap]) =
      (map (\<lambda>a. g (heap ! a)) tbl)[i := g y]"
proof -
  show *: "map (\<lambda>a. g ((heap @ ys) ! a)) tbl = map (\<lambda>a. g (heap ! a)) tbl" for ys
    using assms by (intro map_cong refl) (auto simp: nth_append subset_iff)
  show "map (\<lambda>a. g ((heap @ [y]) ! a)) (tbl[i := length heap]) =
      (map (\<lambda>a. g (heap ! a)) tbl)[i := g y]"
    unfolding map_update * by simp
qed

lemma map_heap_other:
  assumes "a \<notin> set tbl"
  shows "map (\<lambda>x. g (heap[a := y] ! x)) tbl = map (\<lambda>x. g (heap ! x)) tbl"
  using assms by (intro map_cong refl) (metis nth_list_update_neq)

lemma distinct_fresh:
  assumes "distinct tbl" and "set tbl \<subseteq> {..<n}"
  shows "distinct (tbl[i := n])" and "set (tbl[i := n]) \<subseteq> {..<Suc n}"
proof -
  have "n \<notin> set tbl" using assms(2) by auto
  then show "distinct (tbl[i := n])" using assms(1) by (cases "i < length tbl") (auto simp: distinct_list_update)
  show "set (tbl[i := n]) \<subseteq> {..<Suc n}"
    using assms(2) set_update_subset_insert [of tbl i n] by fastforce
qed

lemma own_order_chunk_spec:
  assumes ok: "cow_ok c" and i: "i < length (c_order_chunks c)"
  shows "\<exists>c'. own_order_chunk c i = Inr c' \<and> cow_ok c' \<and> frame c c' \<and> flat c' = flat c \<and>
    order_view c' = order_view c \<and> c_chunk c' = c_chunk c \<and> c_capacity c' = c_capacity c \<and>
    \<not> oc_born (order_heap c' ! (c_order_chunks c' ! i)) < c_gen c'"
proof (cases "oc_born (order_heap c ! (c_order_chunks c ! i)) < c_gen c")
  case False
  then have "own_order_chunk c i = Inr c" using i by (simp add: own_order_chunk_def idx_simps)
  with False ok show ?thesis by (intro exI [of _ c]) simp
next
  case True
  let ?a = "c_order_chunks c ! i"
  let ?x = "\<lparr>oc_born = c_gen c, oc_orders = oc_orders (order_heap c ! ?a)\<rparr>"
  let ?c = "c\<lparr>order_heap := order_heap c @ [?x],
      c_order_chunks := (c_order_chunks c)[i := length (order_heap c)]\<rparr>"
  have run: "own_order_chunk c i = Inr ?c"
    using True i by (simp add: own_order_chunk_def idx_simps)
  have ov: "order_view ?c = order_view c"
    using i map_heap_alloc(2) [OF cow_ok_chunks(6) [OF ok], of oc_orders ?x i]
    by (simp add: order_view_def list_update_same_conv)
  have lv: "level_view ?c sd = level_view c sd" for sd
    by (simp add: level_view_def cow_table_def)
  have born: "\<forall>a < length (order_heap ?c). oc_born (order_heap ?c ! a) \<le> c_gen c"
    using ok by (auto simp: cow_ok_def nth_append less_Suc_eq)
  have "cow_ok ?c"
    using ok born distinct_fresh [OF cow_ok_chunks(4,6) [OF ok], of i]
    unfolding cow_ok_def ov lv by (simp add: lessThan_Suc)
  moreover have "frame c ?c" by (simp add: frame_def nth_append)
  moreover have "flat ?c = flat c" by (simp add: flat_def ov lv)
  ultimately show ?thesis using run ov i by (intro exI [of _ ?c]) simp
qed

lemma order_mut_sim:
  assumes ok: "cow_ok c"
  shows "agree (sim c) (order_mut c s f) (modify_order (flat c) s f)"
proof -
  let ?k = "c_chunk c" and ?n = "unat (c_capacity c)" and ?i = "unat s div c_chunk c"
  note ch = cow_ok_chunks [OF ok]
  have len: "length (concat (order_view c)) = ?n" using chunked_length [OF ch(1)] .
  show ?thesis
  proof (cases "?i < length (c_order_chunks c)")
    case False
    then have "\<not> unat s < ?n"
      using chunked_nth [OF ch(1,2), of "unat s"] by (auto simp: order_view_def)
    then show ?thesis
      using False ch(2) len
      by (simp add: order_mut_def modify_order_def usize_div_simps own_order_chunk_def idx_simps)
  next
    case True
    obtain c1 where own: "own_order_chunk c ?i = Inr c1" and ok1: "cow_ok c1"
      and fr: "frame c c1" and fl: "flat c1 = flat c" and ov: "order_view c1 = order_view c"
      and kc: "c_chunk c1 = ?k" "c_capacity c1 = c_capacity c"
      and born: "\<not> oc_born (order_heap c1 ! (c_order_chunks c1 ! ?i)) < c_gen c1"
      using own_order_chunk_spec [OF ok True] by blast
    note ch1 = cow_ok_chunks [OF ok1]
    have i1: "?i < length (c_order_chunks c1)" using True arg_cong [OF ov, of length]
      by (simp add: order_view_def)
    let ?a = "c_order_chunks c1 ! ?i"
    have a: "?a < length (order_heap c1)" using i1 ch1(6) nth_mem by blast
    have os: "oc_orders (order_heap c1 ! ?a) = order_view c ! ?i"
      using i1 unfolding ov [symmetric] by (simp add: order_view_def)
    show ?thesis
    proof (cases "unat s < ?n")
      case out: False
      then have "\<not> unat s mod ?k < length (oc_orders (order_heap c1 ! ?a))"
        unfolding os using chunked_outside [OF ch(1,2), of "unat s"] True
        by (simp add: order_view_def)
      then show ?thesis
        using out ch(2) len own i1 kc
        by (simp add: order_mut_def modify_order_def usize_div_simps idx_simps)
    next
      case inside: True
      note nth = chunked_nth [OF ch(1,2) inside]
      let ?x = "f (concat (order_view c) ! unat s)"
      let ?os = "(order_view c ! ?i)[unat s mod ?k := ?x]"
      let ?c = "c1\<lparr>order_heap := (order_heap c1)[?a := (order_heap c1 ! ?a)\<lparr>oc_orders := ?os\<rparr>]\<rparr>"
      have run: "order_mut c s f = Inr ?c"
        using nth own i1 ch(2) kc os
        by (simp add: order_mut_def usize_div_simps idx_simps)
      have ov': "order_view ?c = (order_view c)[?i := ?os]"
        unfolding ov [symmetric]
        using map_heap_write [OF ch1(4) i1 a, of oc_orders] by (simp add: order_view_def)
      have lv: "level_view ?c sd = level_view c1 sd" for sd
        by (simp add: level_view_def cow_table_def)
      note upd = chunked_update [OF ch(1,2) inside, of ?x]
      have "oc_born (order_heap ?c ! b) = oc_born (order_heap c1 ! b)" for b
        using a by (cases "b = ?a") simp_all
      then have "cow_ok ?c"
        using ok1 upd unfolding cow_ok_def ov' lv by (simp add: kc ov)
      moreover have "frame c1 ?c" using born a by (auto simp: frame_def nth_list_update)
      then have "frame c ?c" using fr frame_trans by blast
      moreover have "flat ?c = (flat c)\<lparr>pool := (pool (flat c))[unat s := f (pool (flat c) ! unat s)]\<rparr>"
        using upd fl by (simp add: flat_def ov' lv)
      ultimately have "sim c ?c ((flat c)\<lparr>pool := (pool (flat c))[unat s := f (pool (flat c) ! unat s)]\<rparr>)"
        by (simp add: sim_def)
      then show ?thesis using inside len by (simp add: run modify_order_def idx_simps)
    qed
  qed
qed

lemma set_table_simps [simp]:
  "order_heap (set_table c sd tbl) = order_heap c" "level_heap (set_table c sd tbl) = level_heap c"
  "c_gen (set_table c sd tbl) = c_gen c" "c_chunk (set_table c sd tbl) = c_chunk c"
  "c_capacity (set_table c sd tbl) = c_capacity c" "c_n_levels (set_table c sd tbl) = c_n_levels c"
  "c_price_min (set_table c sd tbl) = c_price_min c" "c_tick (set_table c sd tbl) = c_tick c"
  "c_hwm (set_table c sd tbl) = c_hwm c" "c_best_bid (set_table c sd tbl) = c_best_bid c"
  "c_best_ask (set_table c sd tbl) = c_best_ask c" "c_idmap (set_table c sd tbl) = c_idmap c"
  "c_free_head (set_table c sd tbl) = c_free_head c"
  "c_order_chunks (set_table c sd tbl) = c_order_chunks c"
  "order_view (set_table c sd tbl) = order_view c"
  by (simp_all add: set_table_def order_view_def)

lemma cow_table_set_table:
  "cow_table (set_table c sd tbl) sd' = (if (sd = 0) = (sd' = 0) then tbl else cow_table c sd')"
  by (simp add: cow_table_def set_table_def)

lemma heap_update_simps [simp]:
  "cow_table (c\<lparr>level_heap := lh\<rparr>) sd = cow_table c sd"
  "order_view (c\<lparr>level_heap := lh\<rparr>) = order_view c"
  by (simp_all add: cow_table_def order_view_def)

lemma cow_tables:
  "c_bid_chunks c = cow_table c 0" "c_ask_chunks c = cow_table c 1"
  by (simp_all add: cow_table_def)

lemma cow_ok_tables:
  "cow_ok c \<longleftrightarrow>
     0 < c_chunk c \<and> chunked (c_chunk c) (unat (c_capacity c)) (order_view c) \<and>
     (\<forall>sd. chunked LEVEL_CHUNK (unat (c_n_levels c)) (level_view c sd)) \<and>
     distinct (c_order_chunks c) \<and>
     (\<forall>sd. distinct (cow_table c sd) \<and> set (cow_table c sd) \<subseteq> {..<length (level_heap c)}) \<and>
     set (cow_table c 0) \<inter> set (cow_table c 1) = {} \<and>
     set (c_order_chunks c) \<subseteq> {..<length (order_heap c)} \<and>
     (\<forall>a < length (order_heap c). oc_born (order_heap c ! a) \<le> c_gen c) \<and>
     (\<forall>a < length (level_heap c). lc_born (level_heap c ! a) \<le> c_gen c)"
proof -
  have "(\<forall>sd :: u8. P (cow_table c sd)) \<longleftrightarrow> P (cow_table c 0) \<and> P (cow_table c 1)" for P
  proof -
    have "cow_table c sd = cow_table c 0 \<or> cow_table c sd = cow_table c 1" for sd
      by (simp add: cow_table_def)
    then show ?thesis by metis
  qed
  from this [of "\<lambda>tbl. chunked LEVEL_CHUNK (unat (c_n_levels c))
      (map (\<lambda>a. lc_levels (level_heap c ! a)) tbl)"]
    this [of "\<lambda>tbl. distinct tbl \<and> set tbl \<subseteq> {..<length (level_heap c)}"]
  show ?thesis
    unfolding cow_ok_def cow_tables level_view_def by auto
qed

lemma own_level_chunk_spec:
  assumes ok: "cow_ok c" and i: "i < length (cow_table c sd)"
  shows "\<exists>c'. own_level_chunk c sd i = Inr c' \<and> cow_ok c' \<and> frame c c' \<and> flat c' = flat c \<and>
    level_view c' = level_view c \<and> c_n_levels c' = c_n_levels c \<and>
    \<not> lc_born (level_heap c' ! (cow_table c' sd ! i)) < c_gen c'"
proof (cases "lc_born (level_heap c ! (cow_table c sd ! i)) < c_gen c")
  case False
  then have "own_level_chunk c sd i = Inr c" using i by (simp add: own_level_chunk_def idx_simps)
  with False ok show ?thesis by (intro exI [of _ c]) simp
next
  case True
  let ?a = "cow_table c sd ! i" and ?n = "length (level_heap c)"
  let ?x = "\<lparr>lc_born = c_gen c, lc_levels = lc_levels (level_heap c ! ?a)\<rparr>"
  let ?c = "set_table (c\<lparr>level_heap := level_heap c @ [?x]\<rparr>) sd ((cow_table c sd)[i := ?n])"
  have run: "own_level_chunk c sd i = Inr ?c"
    using True i by (simp add: own_level_chunk_def idx_simps)
  have ov: "order_view ?c = order_view c" by (simp add: order_view_def)
  have tb: "cow_table ?c sd' = (if (sd = 0) = (sd' = 0) then (cow_table c sd)[i := ?n]
      else cow_table c sd')" for sd'
    unfolding cow_table_set_table by (simp add: cow_table_def)
  have same: "(sd = 0) = (sd' = 0) \<Longrightarrow> cow_table c sd' = cow_table c sd" for sd'
    by (simp add: cow_table_def)
  have lv: "level_view ?c sd' = level_view c sd'" for sd'
    using i map_heap_alloc [OF cow_ok_chunks(7) [OF ok, of sd], of lc_levels]
      map_heap_alloc(1) [OF cow_ok_chunks(7) [OF ok, of sd'], of lc_levels] same [of sd']
    by (cases "(sd = 0) = (sd' = 0)")
      (simp_all add: level_view_def tb list_update_same_conv)
  have born: "\<forall>a < length (level_heap ?c). lc_born (level_heap ?c ! a) \<le> c_gen c"
    using ok by (auto simp: cow_ok_def nth_append less_Suc_eq)
  have tbl: "distinct (cow_table ?c sd') \<and> set (cow_table ?c sd') \<subseteq> {..<Suc ?n}" for sd'
    using distinct_fresh [OF cow_ok_chunks(5,7) [OF ok, of sd], of i] cow_ok_chunks(5,7) [OF ok, of sd']
    by (auto simp: tb)
  have dis: "set (cow_table ?c 0) \<inter> set (cow_table ?c 1) = {}"
  proof -
    have old: "set (cow_table c 0) \<inter> set (cow_table c 1) = {}"
      using ok unfolding cow_ok_tables by blast
    have n: "?n \<notin> set (cow_table c sd')" for sd' using cow_ok_chunks(7) [OF ok, of sd'] by blast
    have up: "set ((cow_table c sd)[i := ?n]) \<subseteq> insert ?n (set (cow_table c sd))"
      by (rule set_update_subset_insert)
    show ?thesis
    proof (cases "sd = 0")
      case True
      then have "cow_table ?c 0 = (cow_table c 0)[i := ?n]" "cow_table ?c 1 = cow_table c 1"
        unfolding tb by simp_all
      then show ?thesis using old n [of 1] up True by auto
    next
      case False
      then have "cow_table ?c 1 = (cow_table c sd)[i := ?n]" "cow_table ?c 0 = cow_table c 0"
        "cow_table c sd = cow_table c 1"
        unfolding tb by (simp_all add: cow_table_def)
      then show ?thesis using old n [of 0] up by auto
    qed
  qed
  have "cow_ok ?c"
    using ok born tbl dis unfolding cow_ok_tables ov lv by simp
  moreover have "frame c ?c" by (simp add: frame_def nth_append)
  moreover have "flat ?c = flat c" by (simp add: flat_def ov lv)
  moreover have "\<not> lc_born (level_heap ?c ! (cow_table ?c sd ! i)) < c_gen ?c"
    using i by (simp add: tb)
  ultimately show ?thesis using run lv by (intro exI [of _ ?c]) auto
qed

lemma set_lane_flat:
  "set_lane (flat c) sd ls = (flat c)\<lparr>bids := if sd = 0 then ls else bids (flat c),
     asks := if sd = 0 then asks (flat c) else ls\<rparr>"
  by (simp add: set_lane_def)

lemma level_mut_sim:
  assumes ok: "cow_ok c"
  shows "agree (sim c) (level_mut c sd t f) (modify_level (flat c) sd t f)"
proof -
  let ?n = "unat (c_n_levels c)" and ?i = "unat t div LEVEL_CHUNK"
  note ch = cow_ok_chunks [OF ok]
  have len: "length (lane (flat c) sd) = ?n" unfolding lane_flat using chunked_length [OF ch(3)] .
  show ?thesis
  proof (cases "?i < length (cow_table c sd)")
    case False
    then have "\<not> unat t < ?n"
      using chunked_nth [OF ch(3) LEVEL_CHUNK_pos, of "unat t" sd] by (auto simp: level_view_def)
    then show ?thesis
      using False len by (simp add: level_mut_def modify_level_def own_level_chunk_def idx_simps)
  next
    case True
    obtain c1 where own: "own_level_chunk c sd ?i = Inr c1" and ok1: "cow_ok c1"
      and fr: "frame c c1" and fl: "flat c1 = flat c" and lv: "level_view c1 = level_view c"
      and nl: "c_n_levels c1 = c_n_levels c"
      and born: "\<not> lc_born (level_heap c1 ! (cow_table c1 sd ! ?i)) < c_gen c1"
      using own_level_chunk_spec [OF ok True] by blast
    note ch1 = cow_ok_chunks [OF ok1]
    have i1: "?i < length (cow_table c1 sd)"
      using True arg_cong [OF fun_cong [OF lv, of sd], of length] by (simp add: level_view_def)
    let ?a = "cow_table c1 sd ! ?i"
    have a: "?a < length (level_heap c1)" using i1 ch1(7) [of sd] nth_mem by blast
    have ls: "lc_levels (level_heap c1 ! ?a) = level_view c sd ! ?i"
      using i1 unfolding lv [symmetric] by (simp add: level_view_def)
    show ?thesis
    proof (cases "unat t < ?n")
      case out: False
      then have "\<not> unat t mod LEVEL_CHUNK < length (lc_levels (level_heap c1 ! ?a))"
        unfolding ls using chunked_outside [OF ch(3) LEVEL_CHUNK_pos, of "unat t" sd] True
        by (simp add: level_view_def)
      then show ?thesis
        using out len own i1 by (simp add: level_mut_def modify_level_def idx_simps)
    next
      case inside: True
      note nth = chunked_nth [OF ch(3) LEVEL_CHUNK_pos inside, of sd]
      let ?x = "f (concat (level_view c sd) ! unat t)"
      let ?ls = "(level_view c sd ! ?i)[unat t mod LEVEL_CHUNK := ?x]"
      let ?c = "c1\<lparr>level_heap := (level_heap c1)[?a := (level_heap c1 ! ?a)\<lparr>lc_levels := ?ls\<rparr>]\<rparr>"
      have run: "level_mut c sd t f = Inr ?c"
        using nth own i1 ls by (simp add: level_mut_def Let_def idx_simps)
      have ov: "order_view ?c = order_view c1" by (simp add: order_view_def)
      have tb: "cow_table ?c sd' = cow_table c1 sd'" for sd' by simp
      have lv': "level_view ?c sd' = (if (sd = 0) = (sd' = 0) then (level_view c sd)[?i := ?ls]
          else level_view c sd')" for sd'
      proof (cases "(sd = 0) = (sd' = 0)")
        case True
        then have "cow_table c1 sd' = cow_table c1 sd" by (simp add: cow_table_def)
        then show ?thesis
          using True map_heap_write [OF ch1(5) i1 a, of lc_levels]
          unfolding lv [symmetric] by (simp add: level_view_def tb)
      next
        case False
        have "?a \<in> set (cow_table c1 sd)" using i1 by simp
        moreover have "set (cow_table c1 sd) \<inter> set (cow_table c1 sd') = {}"
          using ok1 False by (auto simp: cow_ok_tables cow_table_def split: if_splits)
        ultimately have "?a \<notin> set (cow_table c1 sd')" by blast
        then show ?thesis
          using False unfolding lv [symmetric] by (simp add: level_view_def tb map_heap_other)
      qed
      note upd = chunked_update [OF ch(3) LEVEL_CHUNK_pos inside, of sd ?x]
      have "lc_born (level_heap ?c ! b) = lc_born (level_heap c1 ! b)" for b
        using a by (cases "b = ?a") simp_all
      then have "cow_ok ?c"
        using ok1 upd ch(3) unfolding cow_ok_tables ov lv' tb by (simp add: nl)
      moreover have "frame c1 ?c" using born a by (auto simp: frame_def nth_list_update)
      then have "frame c ?c" using fr frame_trans by blast
      moreover have "flat ?c = set_lane (flat c) sd
          ((lane (flat c) sd)[unat t := f (lane (flat c) sd ! unat t)])"
      proof -
        have "level_view ?c 0 = (if sd = 0 then (level_view c sd)[?i := ?ls] else level_view c 0)"
          "level_view ?c 1 = (if sd = 0 then level_view c 1 else (level_view c sd)[?i := ?ls])"
          using lv' [of 0] lv' [of 1] by simp_all
        moreover have "flat ?c =
            (flat c1)\<lparr>bids := concat (level_view ?c 0), asks := concat (level_view ?c 1)\<rparr>"
          by (simp add: flat_def)
        ultimately have "flat ?c = (flat c)\<lparr>
            bids := if sd = 0 then concat ((level_view c sd)[?i := ?ls]) else concat (level_view c 0),
            asks := if sd = 0 then concat (level_view c 1) else concat ((level_view c sd)[?i := ?ls])\<rparr>"
          unfolding fl by (simp split: if_splits)
        then show ?thesis
          unfolding set_lane_flat lane_flat conjunct2 [OF upd] by (simp add: flat_def)
      qed
      ultimately have "sim c ?c (set_lane (flat c) sd
          ((lane (flat c) sd)[unat t := f (lane (flat c) sd ! unat t)]))"
        by (simp add: sim_def)
      then show ?thesis using inside len by (simp add: run modify_level_def idx_simps)
    qed
  qed
qed

section \<open>The operations\<close>

lemma agree_bind_eq:
  "m = m' \<Longrightarrow> (\<And>x. m' = Inr x \<Longrightarrow> agree S (f x) (f' x)) \<Longrightarrow>
   agree S (and_then m f) (and_then m' f')"
  by (cases m') auto

lemma agree_bind_sim:
  "agree (sim c0) m m' \<Longrightarrow> (\<And>c b. sim c0 c b \<Longrightarrow> agree S (f c) (f' b)) \<Longrightarrow>
   agree S (and_then m f) (and_then m' f')"
  by (rule agree_and_then)

lemma agree_if:
  "(P \<Longrightarrow> agree S x y) \<Longrightarrow> (\<not> P \<Longrightarrow> agree S x' y') \<Longrightarrow>
   agree S (if P then x else x') (if P then y else y')"
  by simp

lemma sim_order_mut: "sim c0 c b \<Longrightarrow> agree (sim c0) (order_mut c s f) (modify_order b s f)"
  using agree_mono [OF order_mut_sim [of c s f], of "sim c0"] frame_trans
  by (auto simp: sim_def)

lemma sim_level_mut: "sim c0 c b \<Longrightarrow> agree (sim c0) (level_mut c sd t f) (modify_level b sd t f)"
  using agree_mono [OF level_mut_sim [of c sd t f], of "sim c0"] frame_trans
  by (auto simp: sim_def)

lemma sim_reads:
  assumes "sim c0 c b"
  shows "cow_order c s = get_order b s" and "cow_level c sd t = get_level b sd t"
    and "cow_tick_of c pr = tick_of (price_min b) (tick b) pr"
    and "cow_get_slot c oid = get_slot b oid" and "c_free_head c = free_head b"
    and "c_best_bid c = best_bid b" and "c_best_ask c = best_ask b" and "c_idmap c = idmap b"
    and "c_n_levels c = n_levels b" and "c_hwm c = hwm b"
    and "unat (c_capacity c) = length (pool b)"
proof -
  have ok: "cow_ok c" and b: "flat c = b" using assms by (simp_all add: sim_def)
  show "cow_order c s = get_order b s" "cow_level c sd t = get_level b sd t"
    using cow_order_flat [OF ok] cow_level_flat [OF ok] b by simp_all
  show "unat (c_capacity c) = length (pool b)"
    using chunked_length [OF cow_ok_chunks(1) [OF ok]] b by auto
  show "cow_tick_of c pr = tick_of (price_min b) (tick b) pr" "cow_get_slot c oid = get_slot b oid"
    "c_free_head c = free_head b" "c_best_bid c = best_bid b" "c_best_ask c = best_ask b"
    "c_idmap c = idmap b" "c_n_levels c = n_levels b" "c_hwm c = hwm b"
    using b by (auto simp: cow_tick_of_def cow_get_slot_def get_slot_def)
qed

lemma sim_scalars:
  assumes "sim c0 c b"
  shows "sim c0 (c\<lparr>c_hwm := h\<rparr>) (b\<lparr>hwm := h\<rparr>)"
    and "sim c0 (c\<lparr>c_free_head := fh\<rparr>) (b\<lparr>free_head := fh\<rparr>)"
    and "sim c0 (c\<lparr>c_idmap := m\<rparr>) (b\<lparr>idmap := m\<rparr>)"
    and "sim c0 (c\<lparr>c_best_bid := w\<rparr>) (b\<lparr>best_bid := w\<rparr>)"
    and "sim c0 (c\<lparr>c_best_ask := w\<rparr>) (b\<lparr>best_ask := w\<rparr>)"
  using assms by (auto simp: sim_def)

lemma sim_pair: "agree (\<lambda>(s, c) (s', b). s = s' \<and> sim c0 c b) m m' \<Longrightarrow>
   (\<And>s c b. sim c0 c b \<Longrightarrow> agree S (f (s, c)) (f' (s, b))) \<Longrightarrow>
   agree S (and_then m f) (and_then m' f')"
  by (erule agree_and_then) auto

lemma sim_alloc_slot:
  assumes "sim c0 c b"
  shows "agree (\<lambda>(s, c) (s', b). s = s' \<and> sim c0 c b) (cow_alloc_slot c) (alloc_slot b)"
proof -
  have "c_hwm c = c_capacity c \<longleftrightarrow> unat (hwm b) = length (pool b)"
    using sim_reads(10,11) [OF assms] word_unat_eq_iff by metis
  then show ?thesis
    unfolding cow_alloc_slot_def alloc_slot_def sim_reads [OF assms]
    using sim_scalars [OF assms] sim_reads(10,11) [OF assms]
    by (auto intro!: agree_bind_eq agree_if)
qed

lemma sim_free_slot: "sim c0 c b \<Longrightarrow> agree (sim c0) (cow_free_slot c s) (free_slot b s)"
  unfolding cow_free_slot_def free_slot_def
  by (auto simp: sim_reads intro!: agree_bind_sim sim_order_mut sim_scalars)

lemma sim_scan:
  "sim c0 c b \<Longrightarrow> (\<And>i. i \<in> set is \<Longrightarrow> i < 4294967296) \<Longrightarrow>
   cow_scan c sd is = scan_best (lane b sd) is"
proof (induction "is")
  case Nil
  then show ?case by simp
next
  case (Cons i "is")
  then have "cow_level c sd (of_nat i) = idx (lane b sd) i"
    by (simp add: sim_reads(2) get_level_def unat_of_nat_u32 del: unat_of_nat)
  with Cons show ?case by (auto intro: and_then_cong)
qed

lemma sim_repair_best:
  assumes "sim c0 c b"
  shows "agree (sim c0) (cow_repair_best c sd t) (repair_best b sd t)"
proof -
  have down: "cow_scan c 0 (rev [0..<Suc (unat t)]) = scan_best (bids b) (rev [0..<Suc (unat t)])"
    using unat_u32_bound [of t] sim_scan [OF assms, of "rev [0..<Suc (unat t)]" 0]
    by (simp add: lane_def del: upt_Suc cow_scan.simps scan_best.simps)
  have up: "cow_scan c 1 [unat t..<unat (c_n_levels c)] = scan_best (asks b) [unat t..<unat (n_levels b)]"
    using unat_u32_bound [of "n_levels b"] sim_reads(9) [OF assms]
      sim_scan [OF assms, of "[unat t..<unat (n_levels b)]" 1]
    by (simp add: lane_def)
  show ?thesis
    unfolding cow_repair_best_def repair_best_def down up
    using sim_scalars [OF assms] assms
    by (auto simp: sim_reads [OF assms] get_level_def lane_def intro!: agree_bind_eq agree_if)
qed

lemma sim_unlink:
  assumes "sim c0 c b"
  shows "agree (sim c0) (cow_unlink c s sd t rm) (unlink b s sd t rm)"
  unfolding cow_unlink_def unlink_def Let_def sim_reads [OF assms]
  using assms
  by (intro agree_bind_eq agree_bind_sim [of c0] agree_if sim_order_mut sim_level_mut refl) auto

lemma sim_id_remove:
  assumes "sim c0 c b"
  shows "agree (\<lambda>(s, c) (s', b). s = s' \<and> sim c0 c b) (cow_id_remove c i) (id_remove b i)"
  unfolding cow_id_remove_def id_remove_def sim_reads [OF assms]
  using sim_scalars [OF assms] by (auto split: option.splits)

lemma sim_insert:
  assumes "sim c0 c b"
  shows "agree (sim c0) (cow_insert c i pr q sd) (book_insert b i pr q sd)"
proof -
  show ?thesis
    unfolding cow_insert_def book_insert_def Let_def sim_reads [OF assms]
    using assms
    by (auto simp: sim_reads intro!: agree_bind_eq sim_pair [of c0] agree_bind_sim [of c0]
        sim_alloc_slot sim_order_mut sim_level_mut agree_if sim_scalars)
qed

lemma sim_update:
  assumes "sim c0 c b"
  shows "agree (sim c0) (cow_update c i q) (book_update b i q)"
  unfolding cow_update_def book_update_def Let_def sim_reads [OF assms]
  using assms
  by (auto simp: sim_reads intro!: agree_bind_eq agree_bind_sim [of c0] sim_order_mut sim_level_mut)

lemma sim_cancel:
  assumes "sim c0 c b"
  shows "agree (sim c0) (cow_cancel c i) (book_cancel b i)"
  unfolding cow_cancel_def book_cancel_def Let_def
  using assms
  by (auto simp: sim_reads intro!: agree_bind_eq sim_pair [of c0] agree_bind_sim [of c0] sim_id_remove
      sim_unlink sim_free_slot sim_repair_best)

lemma sim_fill:
  assumes "sim c0 c b"
  shows "agree (sim c0) (cow_fill c i) (book_fill b i)"
  unfolding cow_fill_def book_fill_def Let_def
  using assms
  by (auto simp: sim_reads intro!: agree_bind_eq sim_pair [of c0] agree_bind_sim [of c0] sim_id_remove
      sim_order_mut sim_unlink sim_free_slot sim_repair_best)

section \<open>Construction and capture\<close>

lemma cow_new_flat:
  assumes chunk: "0 < cfg_chunk cfg" and cap: "cfg_cap cfg < 2 ^ 32"
  shows "\<exists>c. cow_new cfg = Inr c \<and> cow_ok c \<and> flat c = book_new cfg"
proof -
  let ?k = "cfg_chunk cfg" and ?n = "cfg_cap cfg" and ?l = "unat (cfg_levels cfg)"
  define m where "m = (if ?n mod ?k = 0 then ?n div ?k else ?n div ?k + 1)"
  define lm where "lm = (if ?l mod LEVEL_CHUNK = 0 then ?l div LEVEL_CHUNK else ?l div LEVEL_CHUNK + 1)"
  define os where "os = map (\<lambda>len. \<lparr>oc_born = 1, oc_orders = replicate len zero_order\<rparr>)
      (chunk_lens ?k ?n m)"
  define ls where "ls = map (\<lambda>len. \<lparr>lc_born = 1, lc_levels = replicate len empty_level\<rparr>)
      (chunk_lens LEVEL_CHUNK ?l lm)"
  obtain c where run: "cow_new cfg = Inr c"
    and c: "c = \<lparr>c_price_min = cfg_price_min cfg, c_tick = cfg_tick cfg,
          c_n_levels = cfg_levels cfg, c_capacity = of_nat ?n,
          c_chunk = ?k, c_gen = 1,
          c_order_chunks = [0..<m], c_bid_chunks = [0..<lm], c_ask_chunks = [lm..<lm + lm],
          c_hwm = 0, c_best_bid = - 1, c_best_ask = - 1, c_free_head = NIL,
          c_idmap = Map.empty, order_heap = os, level_heap = ls @ ls\<rparr>"
    using chunk by (simp add: cow_new_def div_ceil_def Let_def m_def lm_def os_def ls_def LEVEL_CHUNK_def)
  have lens: "length os = m" "length ls = lm" by (simp_all add: os_def ls_def chunk_lens_def)
  have ov: "order_view c = map (\<lambda>ci. replicate (min ?k (?n - ci * ?k)) zero_order) [0..<m]"
    using lens by (simp add: order_view_def c list_eq_iff_nth_eq os_def chunk_lens_def)
  have lv: "level_view c sd =
      map (\<lambda>ci. replicate (min LEVEL_CHUNK (?l - ci * LEVEL_CHUNK)) empty_level) [0..<lm]" for sd
    using lens by (simp add: level_view_def cow_table_def c list_eq_iff_nth_eq ls_def chunk_lens_def nth_append)
  have och: "chunked ?k ?n (order_view c)" "concat (order_view c) = replicate ?n zero_order"
    unfolding ov using chunked_build [OF chunk m_def, of zero_order] by blast+
  have lch: "chunked LEVEL_CHUNK ?l (level_view c sd)" "concat (level_view c sd) = replicate ?l empty_level" for sd
    unfolding lv using chunked_build [OF LEVEL_CHUNK_pos lm_def, of empty_level] by blast+
  have u: "unat (c_capacity c) = ?n" using cap by (simp add: c unat_of_nat_u32 del: unat_of_nat)
  have "\<forall>a < length os. oc_born (os ! a) \<le> 1" "\<forall>a < length (ls @ ls). lc_born ((ls @ ls) ! a) \<le> 1"
    by (auto simp: os_def ls_def nth_append)
  moreover have "c_n_levels c = cfg_levels cfg" "c_chunk c = ?k" "c_gen c = 1"
    "order_heap c = os" "level_heap c = ls @ ls" "c_order_chunks c = [0..<m]"
    "c_bid_chunks c = [0..<lm]" "c_ask_chunks c = [lm..<lm + lm]"
    by (simp_all add: c)
  ultimately have "cow_ok c"
    using chunk och lch lens u unfolding cow_ok_def by auto
  moreover have "flat c = book_new cfg"
    using och(2) lch(2) by (simp add: flat_def book_new_def c)
  ultimately show ?thesis using run by blast
qed

text \<open>
  The flat book a root shows when read against a heap; the id map is not part of a root.
\<close>

definition root_book :: "order_chunk list \<Rightarrow> level_chunk list \<Rightarrow> root \<Rightarrow> book" where
  "root_book oh lh r =
     \<lparr>price_min = r_price_min r, tick = r_tick r, n_levels = r_n_levels r,
      bids = concat (map (\<lambda>a. lc_levels (lh ! a)) (r_bid_chunks r)),
      asks = concat (map (\<lambda>a. lc_levels (lh ! a)) (r_ask_chunks r)),
      pool = concat (map (\<lambda>a. oc_orders (oh ! a)) (r_order_chunks r)),
      hwm = r_hwm r, best_bid = r_best_bid r, best_ask = r_best_ask r,
      idmap = Map.empty, free_head = r_free_head r\<rparr>"

text \<open>A root is frozen in a state: all its chunks are older than the current generation.\<close>

definition frozen :: "cowbook \<Rightarrow> root \<Rightarrow> bool" where
  "frozen c r \<longleftrightarrow>
     (\<forall>a \<in> set (r_order_chunks r). a < length (order_heap c) \<and> oc_born (order_heap c ! a) < c_gen c) \<and>
     (\<forall>a \<in> set (r_bid_chunks r @ r_ask_chunks r).
        a < length (level_heap c) \<and> lc_born (level_heap c ! a) < c_gen c)"

lemma capture_spec:
  assumes ok: "cow_ok c" and gen: "unat (c_gen c) < 2 ^ 64 - 1"
  shows "cow_ok (snd (capture c))" and "flat (snd (capture c)) = flat c"
    and "frozen (snd (capture c)) (fst (capture c))"
    and "root_book (order_heap c) (level_heap c) (fst (capture c)) = (flat c)\<lparr>idmap := Map.empty\<rparr>"
proof -
  have bump: "w < c_gen c + 1" if "w \<le> c_gen c" for w
  proof -
    have "unat (c_gen c + 1) = Suc (unat (c_gen c))"
      using gen by (simp add: unat_word_ariths)
    then show ?thesis using that by (simp add: word_le_nat_alt word_less_nat_alt)
  qed
  show "cow_ok (snd (capture c))"
    using ok bump by (auto simp: cow_ok_def capture_def order_view_def level_view_def cow_table_def
        intro: less_imp_le)
  show "flat (snd (capture c)) = flat c"
    by (simp add: flat_def capture_def order_view_def level_view_def cow_table_def)
  show "frozen (snd (capture c)) (fst (capture c))"
    using ok bump by (auto simp: frozen_def capture_def cow_ok_def)
  show "root_book (order_heap c) (level_heap c) (fst (capture c)) = (flat c)\<lparr>idmap := Map.empty\<rparr>"
    by (simp add: root_book_def flat_def capture_def order_view_def level_view_def cow_table_def)
qed

text \<open>Along any step that respects the frame, a frozen root stays frozen and unchanged.\<close>

lemma frozen_frame:
  assumes fr: "frame c c'" and r: "frozen c r"
  shows "frozen c' r"
    and "root_book (order_heap c') (level_heap c') r = root_book (order_heap c) (level_heap c) r"
proof -
  have o: "order_heap c' ! a = order_heap c ! a" if "a \<in> set (r_order_chunks r)" for a
    using that r fr by (simp add: frozen_def frame_def)
  have l: "level_heap c' ! a = level_heap c ! a" if "a \<in> set (r_bid_chunks r @ r_ask_chunks r)" for a
    using that r fr unfolding frozen_def frame_def by blast
  show "frozen c' r"
    unfolding frozen_def
  proof (intro conjI ballI)
    fix a assume a: "a \<in> set (r_order_chunks r)"
    show "a < length (order_heap c')" using a r fr by (auto simp: frozen_def frame_def)
    show "oc_born (order_heap c' ! a) < c_gen c'"
      using a r fr unfolding o [OF a] by (simp add: frozen_def frame_def)
  next
    fix a assume a: "a \<in> set (r_bid_chunks r @ r_ask_chunks r)"
    show "a < length (level_heap c')" using a r fr unfolding frozen_def frame_def
      by (meson order.strict_trans2)
    show "lc_born (level_heap c' ! a) < c_gen c'"
      using a r fr unfolding l [OF a] frozen_def frame_def by metis
  qed
  show "root_book (order_heap c') (level_heap c') r = root_book (order_heap c) (level_heap c) r"
    using o l by (auto simp: root_book_def intro!: arg_cong [where f = concat])
qed

end
