(* ===== verification/Store.thy ===== *)
theory Store
  imports Book_Spec Cow_Sim
begin

text \<open>
  The contract a churn store keeps (the trait \<open>ChurnStore\<close> of
  rust/smr-collections/common/src/churn.rs): insert, cancel and fill on a state with an
  abstract ladder. The flat book and the copy-on-write book are both instances, so what is
  proved from the contract holds of either.
\<close>

definition accepts :: "geometry \<Rightarrow> ladder \<Rightarrow> i64 \<Rightarrow> u8 \<Rightarrow> u32 \<Rightarrow> i64 \<Rightarrow> bool" where
  "accepts g L oid sd t pr \<longleftrightarrow>
     is_side sd \<and> oid \<noteq> 0 \<and> oid \<notin> ladder_ids (unat (g_levels g)) L \<and>
     tick_of (g_price_min g) (g_tick g) pr = Inr t \<and> unat t < unat (g_levels g)"

definition live_count :: "geometry \<Rightarrow> ladder \<Rightarrow> nat" where
  "live_count g L = card (ladder_ids (unat (g_levels g)) L)"

locale rest_store =
  fixes ok :: "nat \<Rightarrow> 's \<Rightarrow> bool" and view :: "'s \<Rightarrow> ladder" and geom :: "'s \<Rightarrow> geometry"
    and ins :: "'s \<Rightarrow> i64 \<Rightarrow> i64 \<Rightarrow> i64 \<Rightarrow> u8 \<Rightarrow> panic + 's"
    and can :: "'s \<Rightarrow> i64 \<Rightarrow> panic + 's" and fil :: "'s \<Rightarrow> i64 \<Rightarrow> panic + 's"
  assumes cap_bound: "ok n s \<Longrightarrow> g_capacity (geom s) < 2 ^ 32"
    and ins_ok: "ok (Suc n) s \<Longrightarrow> live_count (geom s) (view s) < g_capacity (geom s) \<Longrightarrow>
      accepts (geom s) (view s) oid sd t pr \<Longrightarrow>
      \<exists>s'. ins s oid pr q sd = Inr s' \<and> ok n s' \<and> geom s' = geom s \<and>
        view s' = spec_insert (entry_for oid pr q) sd (unat t) (view s)"
    and can_ok: "ok (Suc n) s \<Longrightarrow> oid \<in> ladder_ids (unat (g_levels (geom s))) (view s) \<Longrightarrow>
      \<exists>s'. can s oid = Inr s' \<and> ok n s' \<and> geom s' = geom s \<and> view s' = spec_remove oid (view s)"
    and fil_ok: "ok (Suc n) s \<Longrightarrow> oid \<in> ladder_ids (unat (g_levels (geom s))) (view s) \<Longrightarrow>
      \<exists>s'. fil s oid = Inr s' \<and> ok n s' \<and> geom s' = geom s \<and> view s' = spec_remove oid (view s)"

text \<open>The panics a store also promises: a full pool, an id that does not rest.\<close>

locale order_store = rest_store +
  assumes ins_full: "ok (Suc n) s \<Longrightarrow> live_count (geom s) (view s) = g_capacity (geom s) \<Longrightarrow>
      accepts (geom s) (view s) oid sd t pr \<Longrightarrow>
      ins s oid pr q sd = Inl (Pool_exhausted (g_capacity (geom s)))"
    and can_unknown: "ok (Suc n) s \<Longrightarrow> oid \<notin> ladder_ids (unat (g_levels (geom s))) (view s) \<Longrightarrow>
      can s oid = Inl Unknown_order"
    and fil_unknown: "ok (Suc n) s \<Longrightarrow> oid \<notin> ladder_ids (unat (g_levels (geom s))) (view s) \<Longrightarrow>
      fil s oid = Inl Unknown_order"

section \<open>The flat book\<close>

lemma wf_book_ids: "wf_book b \<Longrightarrow> dom (idmap b) = ladder_ids (unat (n_levels b)) (ladder_of b)"
  unfolding wf_book_def by (elim exE) (rule ids_read)

lemma book_unknown:
  "idmap b i = None \<Longrightarrow> book_cancel b i = Inl Unknown_order"
  "idmap b i = None \<Longrightarrow> book_fill b i = Inl Unknown_order"
  "idmap b i = None \<Longrightarrow> book_update b i q = Inl Missing_key"
  by (simp_all add: book_cancel_def book_fill_def book_update_def id_remove_def get_slot_def)

lemma book_full:
  assumes "book_inv b Q F" and "card (dom (idmap b)) = length (pool b)"
    and "tick_of (price_min b) (tick b) pr = Inr t"
  shows "book_insert b i pr q sd = Inl (Pool_exhausted (length (pool b)))"
proof -
  have "\<not> has_room b" using room_iff [OF book_inv_core [OF assms(1)]] assms(2) by simp
  then have "free_head b = NIL" "unat (hwm b) = length (pool b)"
    using core_inv_hwm [OF book_inv_core [OF assms(1)]] by (auto simp: has_room_def)
  then show ?thesis using assms(3) by (simp add: book_insert_def alloc_slot_def)
qed

interpretation flat_store: order_store "\<lambda>_. wf_book" ladder_of geom_of book_insert book_cancel book_fill
proof
  fix b :: book and oid pr q :: i64 and sd :: u8 and t :: u32
  assume wf: "wf_book b"
  then obtain Q F where inv: "book_inv b Q F" by (auto simp: wf_book_def)
  have ids: "ladder_ids (unat (g_levels (geom_of b))) (ladder_of b) = dom (idmap b)"
    using wf_book_ids [OF wf] by (simp add: geom_of_def)
  have g: "g_price_min (geom_of b) = price_min b" "g_tick (geom_of b) = tick b"
    "g_levels (geom_of b) = n_levels b" "g_capacity (geom_of b) = length (pool b)"
    by (simp_all add: geom_of_def)
  show "g_capacity (geom_of b) < 2 ^ 32"
    using core_inv_pool_bound [OF book_inv_core [OF inv]] by (simp add: g)
  {
    assume acc: "accepts (geom_of b) (ladder_of b) oid sd t pr"
    show "\<exists>s'. book_insert b oid pr q sd = Inr s' \<and> wf_book s' \<and> geom_of s' = geom_of b \<and>
        ladder_of s' = spec_insert (entry_for oid pr q) sd (unat t) (ladder_of b)"
      if "live_count (geom_of b) (ladder_of b) < g_capacity (geom_of b)"
    proof -
      have "can_insert b oid pr sd"
        using acc that room_iff [OF book_inv_core [OF inv]] ids
        by (auto simp: can_insert_def accepts_def live_count_def g)
      then show ?thesis using insert_refines_inv [OF inv, of oid pr sd t q] acc
        by (auto simp: accepts_def g)
    qed
    show "book_insert b oid pr q sd = Inl (Pool_exhausted (g_capacity (geom_of b)))"
      if "live_count (geom_of b) (ladder_of b) = g_capacity (geom_of b)"
      using book_full [OF inv, of pr t oid q sd] acc that ids
      by (simp add: accepts_def live_count_def g)
  }
  {
    assume "oid \<in> ladder_ids (unat (g_levels (geom_of b))) (ladder_of b)"
    then obtain s where id: "idmap b oid = Some s" unfolding ids by auto
    show "\<exists>s'. book_cancel b oid = Inr s' \<and> wf_book s' \<and> geom_of s' = geom_of b \<and>
        ladder_of s' = spec_remove oid (ladder_of b)"
      using remove_refines_inv(1) [OF inv id] by blast
    show "\<exists>s'. book_fill b oid = Inr s' \<and> wf_book s' \<and> geom_of s' = geom_of b \<and>
        ladder_of s' = spec_remove oid (ladder_of b)"
      using remove_refines_inv(2) [OF inv id] by blast
  }
  {
    assume "oid \<notin> ladder_ids (unat (g_levels (geom_of b))) (ladder_of b)"
    then have "idmap b oid = None" unfolding ids by auto
    then show "book_cancel b oid = Inl Unknown_order" "book_fill b oid = Inl Unknown_order"
      by (rule book_unknown)+
  }
qed

section \<open>The copy-on-write book\<close>

definition cow_wf :: "cowbook \<Rightarrow> bool" where
  "cow_wf c \<longleftrightarrow> cow_ok c \<and> wf_book (flat c)"

lemma cow_sim_self: "cow_ok c \<Longrightarrow> sim c c (flat c)"
  by (simp add: sim_def)

text \<open>A run of the flat book that does not panic is one of the copy-on-write book.\<close>

lemma cow_run:
  assumes "agree (sim c) m m'" and "m' = Inr b'"
  obtains c' where "m = Inr c'" and "cow_ok c'" and "frame c c'" and "flat c' = b'"
  using assms by (cases m) (auto simp: sim_def)

lemma cow_panic: "agree (sim c) m m' \<Longrightarrow> m' = Inl e \<Longrightarrow> m = Inl e"
  by (cases m) auto

interpretation cow_store: order_store "\<lambda>_. cow_wf" "\<lambda>c. ladder_of (flat c)" "\<lambda>c. geom_of (flat c)"
  cow_insert cow_cancel cow_fill
proof
  fix c :: cowbook and oid pr q :: i64 and sd :: u8 and t :: u32
  assume wf: "cow_wf c"
  then have self: "sim c c (flat c)" and b: "wf_book (flat c)"
    by (simp_all add: cow_wf_def cow_sim_self)
  have lift: "\<exists>c'. m = Inr c' \<and> cow_wf c' \<and> geom_of (flat c') = g \<and> ladder_of (flat c') = L"
    if "agree (sim c) m m'" "\<exists>b'. m' = Inr b' \<and> wf_book b' \<and> geom_of b' = g \<and> ladder_of b' = L"
    for m m' g L
    using that by (cases m) (auto simp: sim_def cow_wf_def)
  show "g_capacity (geom_of (flat c)) < 2 ^ 32" by (rule flat_store.cap_bound [OF b])
  show "\<exists>s'. cow_insert c oid pr q sd = Inr s' \<and> cow_wf s' \<and> geom_of (flat s') = geom_of (flat c) \<and>
      ladder_of (flat s') = spec_insert (entry_for oid pr q) sd (unat t) (ladder_of (flat c))"
    if "live_count (geom_of (flat c)) (ladder_of (flat c)) < g_capacity (geom_of (flat c))"
      "accepts (geom_of (flat c)) (ladder_of (flat c)) oid sd t pr"
    by (rule lift [OF sim_insert [OF self] flat_store.ins_ok [OF b that]])
  show "cow_insert c oid pr q sd = Inl (Pool_exhausted (g_capacity (geom_of (flat c))))"
    if "live_count (geom_of (flat c)) (ladder_of (flat c)) = g_capacity (geom_of (flat c))"
      "accepts (geom_of (flat c)) (ladder_of (flat c)) oid sd t pr"
    by (rule cow_panic [OF sim_insert [OF self] flat_store.ins_full [OF b that]])
  show "\<exists>s'. cow_cancel c oid = Inr s' \<and> cow_wf s' \<and> geom_of (flat s') = geom_of (flat c) \<and>
      ladder_of (flat s') = spec_remove oid (ladder_of (flat c))"
    if "oid \<in> ladder_ids (unat (g_levels (geom_of (flat c)))) (ladder_of (flat c))"
    by (rule lift [OF sim_cancel [OF self] flat_store.can_ok [OF b that]])
  show "cow_cancel c oid = Inl Unknown_order"
    if "oid \<notin> ladder_ids (unat (g_levels (geom_of (flat c)))) (ladder_of (flat c))"
    by (rule cow_panic [OF sim_cancel [OF self] flat_store.can_unknown [OF b that]])
  show "\<exists>s'. cow_fill c oid = Inr s' \<and> cow_wf s' \<and> geom_of (flat s') = geom_of (flat c) \<and>
      ladder_of (flat s') = spec_remove oid (ladder_of (flat c))"
    if "oid \<in> ladder_ids (unat (g_levels (geom_of (flat c)))) (ladder_of (flat c))"
    by (rule lift [OF sim_fill [OF self] flat_store.fil_ok [OF b that]])
  show "cow_fill c oid = Inl Unknown_order"
    if "oid \<notin> ladder_ids (unat (g_levels (geom_of (flat c)))) (ladder_of (flat c))"
    by (rule cow_panic [OF sim_fill [OF self] flat_store.fil_unknown [OF b that]])
qed

section \<open>The high-water mark\<close>

text \<open>
  The flat book hands out a fresh slot only when no freed one is left, so its high-water mark
  stays below any bound \<open>K\<close> the population stays below: for every such \<open>K\<close> the book is a
  store of capacity \<open>K\<close> that also keeps the mark at most \<open>K\<close>.
\<close>

lemma modify_hwm:
  "modify_order b s f = Inr b' \<Longrightarrow> hwm b' = hwm b"
  "modify_level b sd t g = Inr b' \<Longrightarrow> hwm b' = hwm b"
  by (auto simp: modify_order_def modify_level_def)

lemma insert_hwm:
  assumes "book_insert b oid pr q sd = Inr b'"
  shows "hwm b' = (if free_head b \<noteq> NIL then hwm b else hwm b + 1)"
  using assms
  by (auto simp: book_insert_def alloc_slot_def Let_def dest!: modify_hwm split: if_splits)

lemma unlink_hwm: "unlink b s sd t rm = Inr b' \<Longrightarrow> hwm b' = hwm b"
  by (auto simp: unlink_def Let_def dest!: modify_hwm split: if_splits)

lemma free_slot_hwm: "free_slot b s = Inr b' \<Longrightarrow> hwm b' = hwm b"
  by (auto simp: free_slot_def dest!: modify_hwm)

lemma repair_best_hwm: "repair_best b sd t = Inr b' \<Longrightarrow> hwm b' = hwm b"
  by (auto simp: repair_best_def split: if_splits)

lemma id_remove_hwm: "id_remove b oid = Inr (s, b') \<Longrightarrow> hwm b' = hwm b"
  by (auto simp: id_remove_def split: option.splits)

lemmas step_hwm = modify_hwm unlink_hwm free_slot_hwm repair_best_hwm id_remove_hwm

lemma remove_hwm:
  "book_cancel b oid = Inr b' \<Longrightarrow> hwm b' = hwm b"
  "book_fill b oid = Inr b' \<Longrightarrow> hwm b' = hwm b"
  by (auto simp: book_cancel_def book_fill_def Let_def dest!: step_hwm)

lemma update_hwm: "book_update b oid q = Inr b' \<Longrightarrow> hwm b' = hwm b"
  by (auto simp: book_update_def Let_def dest!: step_hwm)

definition peak_ok :: "nat \<Rightarrow> book \<Rightarrow> bool" where
  "peak_ok K b \<longleftrightarrow> wf_book b \<and> unat (hwm b) \<le> K \<and> K \<le> length (pool b)"

definition peak_geom :: "nat \<Rightarrow> book \<Rightarrow> geometry" where
  "peak_geom K b = (geom_of b)\<lparr>g_capacity := K\<rparr>"

interpretation peak_store: rest_store "\<lambda>_. peak_ok K" ladder_of "peak_geom K" book_insert book_cancel book_fill
  for K
proof
  fix b :: book and oid pr q :: i64 and sd :: u8 and t :: u32
  assume ok: "peak_ok K b"
  then have wf: "wf_book b" and hw: "unat (hwm b) \<le> K" and K: "K \<le> length (pool b)"
    by (simp_all add: peak_ok_def)
  obtain Q F where inv: "book_inv b Q F" using wf by (auto simp: wf_book_def)
  have g: "g_levels (peak_geom K b) = g_levels (geom_of b)" "g_capacity (peak_geom K b) = K"
    "g_price_min (peak_geom K b) = g_price_min (geom_of b)" "g_tick (peak_geom K b) = g_tick (geom_of b)"
    by (simp_all add: peak_geom_def)
  have cap: "g_capacity (geom_of b') = length (pool b')" for b' by (simp add: geom_of_def)
  have same: "peak_geom K b' = peak_geom K b \<and> length (pool b') = length (pool b)"
    if "geom_of b' = geom_of b" for b'
    using that cap [of b'] cap [of b] by (simp add: peak_geom_def)
  have keep: "\<exists>s'. m = Inr s' \<and> peak_ok K s' \<and> peak_geom K s' = peak_geom K b \<and> ladder_of s' = L"
    if ex: "\<exists>s'. m = Inr s' \<and> wf_book s' \<and> geom_of s' = geom_of b \<and> ladder_of s' = L"
      and same_hwm: "\<And>b'. m = Inr b' \<Longrightarrow> hwm b' = hwm b" for m :: "panic + book" and L
  proof -
    obtain b' where b': "m = Inr b'" "wf_book b'" "geom_of b' = geom_of b" "ladder_of b' = L"
      using ex by blast
    then show ?thesis using same_hwm [OF b'(1)] same [OF b'(3)] hw K by (simp add: peak_ok_def)
  qed
  show "g_capacity (peak_geom K b) < 2 ^ 32"
    using flat_store.cap_bound [OF wf] K by (simp add: g cap)
  show "\<exists>s'. book_insert b oid pr q sd = Inr s' \<and> peak_ok K s' \<and> peak_geom K s' = peak_geom K b \<and>
      ladder_of s' = spec_insert (entry_for oid pr q) sd (unat t) (ladder_of b)"
    if live: "live_count (peak_geom K b) (ladder_of b) < g_capacity (peak_geom K b)"
      and acc: "accepts (peak_geom K b) (ladder_of b) oid sd t pr"
  proof -
    have lc: "live_count (geom_of b) (ladder_of b) < K" using live by (simp add: live_count_def g)
    have acc': "accepts (geom_of b) (ladder_of b) oid sd t pr" using acc by (simp add: accepts_def g)
    have "live_count (geom_of b) (ladder_of b) < g_capacity (geom_of b)" using lc K cap by simp
    from flat_store.ins_ok [OF wf this acc'] obtain b' where b': "book_insert b oid pr q sd = Inr b'"
      "wf_book b'" "geom_of b' = geom_of b"
      "ladder_of b' = spec_insert (entry_for oid pr q) sd (unat t) (ladder_of b)" by blast
    have "unat (hwm b') \<le> K"
    proof (cases "free_head b = NIL")
      case True
      have "card (dom (idmap b)) = unat (hwm b)"
        using live_count_hwm(2) [OF book_inv_core [OF inv]] True by simp
      then have "unat (hwm b) < K" using lc wf_book_ids [OF wf] by (simp add: live_count_def geom_of_def)
      moreover have "Suc (unat (hwm b)) < 4294967296"
        using calculation K flat_store.cap_bound [OF wf] by (simp add: cap)
      ultimately show ?thesis using insert_hwm [OF b'(1)] True by (simp add: unat_Suc_u32)
    next
      case False
      then show ?thesis using insert_hwm [OF b'(1)] hw by simp
    qed
    then show ?thesis
      using b' K same [OF b'(3)] by (intro exI [of _ b']) (simp add: peak_ok_def)
  qed
  show "\<exists>s'. book_cancel b oid = Inr s' \<and> peak_ok K s' \<and> peak_geom K s' = peak_geom K b \<and>
      ladder_of s' = spec_remove oid (ladder_of b)"
    if "oid \<in> ladder_ids (unat (g_levels (peak_geom K b))) (ladder_of b)"
    by (rule keep [OF flat_store.can_ok [OF wf that [unfolded g]]]) (rule remove_hwm(1))
  show "\<exists>s'. book_fill b oid = Inr s' \<and> peak_ok K s' \<and> peak_geom K s' = peak_geom K b \<and>
      ladder_of s' = spec_remove oid (ladder_of b)"
    if "oid \<in> ladder_ids (unat (g_levels (peak_geom K b))) (ladder_of b)"
    by (rule keep [OF flat_store.fil_ok [OF wf that [unfolded g]]]) (rule remove_hwm(2))
qed

end
