(* ===== verification/Rng.thy ===== *)
theory Rng
  imports Prelude
begin

unbundle bit_operations_syntax

text \<open>
  The workload generator: splitmix64 (rust/smr-collections/common/src/rng.rs) and the orders
  derived from it (the \<open>workload\<close> module of book.rs). The state of the generator is the
  64-bit word of the struct.
\<close>

definition SEED :: u64 where
  "SEED = 0x123456789ABCDEF0"

definition splitmix_mix :: "u64 \<Rightarrow> u64" where
  "splitmix_mix state =
     (let z = state;
          z = (z XOR drop_bit 30 z) * 0xBF58476D1CE4E5B9;
          z = (z XOR drop_bit 27 z) * 0x94D049BB133111EB
      in z XOR drop_bit 31 z)"

definition splitmix_next :: "u64 \<Rightarrow> u64 \<times> u64" where
  "splitmix_next state = (let s = state + 0x9E3779B97F4A7C15 in (splitmix_mix s, s))"

definition rem_u64 :: "u64 \<Rightarrow> u64 \<Rightarrow> panic + u64" where
  "rem_u64 a b = (if b = 0 then Inl Div_by_zero else Inr (a mod b))"

record insert_req =
  ins_order_id :: i64
  ins_price :: i64
  ins_qty :: i64
  ins_side :: u8

record update_req =
  upd_order_id :: i64
  upd_fill_qty :: i64

text \<open>\<open>workload::next_insert\<close> and \<open>workload::next_update\<close>; the state is returned beside.\<close>

definition next_insert :: "u64 \<Rightarrow> usize \<Rightarrow> u32 \<Rightarrow> i64 \<Rightarrow> i64 \<Rightarrow> panic + insert_req \<times> u64" where
  "next_insert rng i n_levels tick price_min =
     (let (r1, rng) = splitmix_next rng;
          (r2, rng) = splitmix_next rng in
      and_then (rem_u64 r1 (ucast n_levels)) (\<lambda>t.
      Inr (\<lparr>ins_order_id = of_nat i + 1, ins_price = price_min + t * tick,
            ins_qty = 1 + r2 mod 1000, ins_side = ucast (drop_bit 32 r1 AND 1)\<rparr>, rng)))"

definition next_update :: "u64 \<Rightarrow> usize \<Rightarrow> panic + update_req \<times> u64" where
  "next_update rng n =
     (let (u, rng) = splitmix_next rng in
      and_then (rem_u64 u (of_nat n)) (\<lambda>r.
      Inr (\<lparr>upd_order_id = r + 1, upd_fill_qty = 1 + drop_bit 32 u mod 100\<rparr>, rng)))"

section \<open>What the generated requests satisfy\<close>

lemma unat_mod_less: "0 < unat b \<Longrightarrow> unat ((a :: 'a :: len word) mod b) < unat b"
  by (simp add: unat_mod)

lemma ucast_u32_u64: "unat (ucast (w :: u32) :: u64) = unat w"
  using unat_u32_bound [of w] by (simp add: unsigned_ucast_eq take_bit_nat_eq_self)

lemma and_one_side: "(ucast ((x :: u64) AND 1) :: u8) = 0 \<or> (ucast (x AND 1) :: u8) = 1"
  by (simp add: and_one_eq mod2_eq_if)

lemma next_insert_spec:
  assumes n: "0 < unat n_levels"
  shows "\<exists>r t rng'. next_insert rng i n_levels tick price_min = Inr (r, rng') \<and>
    ins_order_id r = of_nat i + 1 \<and> ins_price r = price_min + t * tick \<and>
    unat t < unat n_levels \<and> (ins_side r = 0 \<or> ins_side r = 1) \<and>
    0 < unat (ins_qty r) \<and> unat (ins_qty r) \<le> 1000"
proof -
  obtain r1 s1 where 1: "splitmix_next rng = (r1, s1)" by (cases "splitmix_next rng")
  obtain r2 s2 where 2: "splitmix_next s1 = (r2, s2)" by (cases "splitmix_next s1")
  let ?n = "ucast n_levels :: u64"
  have un: "unat ?n = unat n_levels" by (rule ucast_u32_u64)
  then have n0: "?n \<noteq> 0" using n by (metis unat_0 less_irrefl)
  let ?r = "\<lparr>ins_order_id = of_nat i + 1, ins_price = price_min + (r1 mod ?n) * tick,
            ins_qty = 1 + r2 mod 1000, ins_side = ucast (drop_bit 32 r1 AND 1)\<rparr>"
  have "next_insert rng i n_levels tick price_min = Inr (?r, s2)"
    using n0 by (simp add: next_insert_def 1 2 rem_u64_def)
  moreover have "unat (r1 mod ?n) < unat n_levels" using unat_mod_less [of ?n r1] un n by simp
  moreover have q: "unat (r2 mod 1000) < 1000" using unat_mod_less [of "1000 :: u64" r2] by simp
  then have "unat (1 + r2 mod 1000) = 1 + unat (r2 mod 1000)"
    by (simp add: unat_word_ariths)
  ultimately show ?thesis using and_one_side [of "drop_bit 32 r1"] q
    by (intro exI [of _ ?r] exI [of _ "r1 mod ?n"] exI [of _ s2]) simp
qed

lemma next_update_spec:
  assumes n: "0 < n" and "n < 2 ^ 63"
  shows "\<exists>r rng'. next_update rng n = Inr (r, rng') \<and>
    1 \<le> unat (upd_order_id r) \<and> unat (upd_order_id r) \<le> n \<and>
    1 \<le> unat (upd_fill_qty r) \<and> unat (upd_fill_qty r) \<le> 100"
proof -
  obtain u s where 1: "splitmix_next rng = (u, s)" by (cases "splitmix_next rng")
  let ?n = "of_nat n :: u64"
  have un: "unat ?n = n" using assms by (simp add: unat_of_nat take_bit_nat_eq_self)
  then have n0: "?n \<noteq> 0" using n by (metis unat_0 less_irrefl)
  let ?r = "\<lparr>upd_order_id = u mod ?n + 1, upd_fill_qty = 1 + drop_bit 32 u mod 100\<rparr>"
  have "next_update rng n = Inr (?r, s)"
    using n0 by (simp add: next_update_def 1 rem_u64_def)
  moreover have a: "unat (u mod ?n) < n" using unat_mod_less [of ?n u] un n by simp
  then have "unat (u mod ?n + 1) = unat (u mod ?n) + 1"
    using assms by (simp add: unat_word_ariths)
  moreover have q: "unat (drop_bit 32 u mod 100) < 100"
    using unat_mod_less [of "100 :: u64" "drop_bit 32 u"] by simp
  then have "unat (1 + drop_bit 32 u mod 100) = 1 + unat (drop_bit 32 u mod 100)"
    by (simp add: unat_word_ariths)
  ultimately show ?thesis using a q by (intro exI [of _ ?r] exI [of _ s]) simp
qed

end
