(* ===== verification/Churn.thy ===== *)
theory Churn
  imports Store Rng
begin

text \<open>
  The churn workload (rust/smr-collections/common/src/churn.rs): a generator of inserts,
  cancels and fills over the ids it knows to be resting, applied to any store. The theorems
  say that the generator and the store stay in step: no run panics while the pool has one
  slot to spare, and the book reached is the specification's.
\<close>

datatype churn_op =
    Op_insert i64 i64 i64 u8
  | Op_cancel i64
  | Op_fill i64

record churn =
  ch_rng :: u64
  ch_live :: "i64 list"
  ch_i :: usize
  ch_otr_bps :: u64
  ch_levels :: u32
  ch_tick :: i64
  ch_price_min :: i64

definition churn_new :: "smr_config \<Rightarrow> churn" where
  "churn_new cfg =
     \<lparr>ch_rng = SEED, ch_live = [], ch_i = 0, ch_otr_bps = cfg_otr_bps cfg,
      ch_levels = cfg_levels cfg, ch_tick = cfg_tick cfg, ch_price_min = cfg_price_min cfg\<rparr>"

definition insert_op :: "churn \<Rightarrow> panic + churn_op \<times> churn" where
  "insert_op ch =
     and_then (next_insert (ch_rng ch) (ch_i ch) (ch_levels ch) (ch_tick ch) (ch_price_min ch))
       (\<lambda>(ins, rng).
     Inr (Op_insert (ins_order_id ins) (ins_price ins) (ins_qty ins) (ins_side ins),
          ch\<lparr>ch_rng := rng, ch_i := usize_add (ch_i ch) 1,
             ch_live := ch_live ch @ [ins_order_id ins]\<rparr>))"

text \<open>\<open>Vec::swap_remove\<close>: the last element takes the place of the removed one.\<close>

definition swap_remove :: "'a list \<Rightarrow> nat \<Rightarrow> 'a list" where
  "swap_remove xs v = butlast (xs[v := last xs])"

definition next_op :: "churn \<Rightarrow> panic + churn_op \<times> churn" where
  "next_op ch =
     (if ch_i ch mod 2 = 0 \<or> ch_live ch = [] then insert_op ch
      else
        let ch = ch\<lparr>ch_i := usize_add (ch_i ch) 1\<rparr>;
            (r, rng) = splitmix_next (ch_rng ch) in
        and_then (rem_u64 r (of_nat (length (ch_live ch)))) (\<lambda>v.
        and_then (idx (ch_live ch) (unat v)) (\<lambda>id.
        let (r2, rng) = splitmix_next rng;
            is_fill = r2 mod 10000 < ch_otr_bps ch;
            ch = ch\<lparr>ch_rng := rng, ch_live := swap_remove (ch_live ch) (unat v)\<rparr> in
        Inr (if is_fill then Op_fill id else Op_cancel id, ch))))"

text \<open>The store's three operations are arguments: the trait the code is generic in.\<close>

definition churn_apply ::
  "('s \<Rightarrow> i64 \<Rightarrow> i64 \<Rightarrow> i64 \<Rightarrow> u8 \<Rightarrow> panic + 's) \<Rightarrow> ('s \<Rightarrow> i64 \<Rightarrow> panic + 's) \<Rightarrow>
   ('s \<Rightarrow> i64 \<Rightarrow> panic + 's) \<Rightarrow> 's \<Rightarrow> churn_op \<Rightarrow> panic + 's" where
  "churn_apply ins can fil s op =
     (case op of
        Op_insert oid pr q sd \<Rightarrow> ins s oid pr q sd
      | Op_cancel oid \<Rightarrow> can s oid
      | Op_fill oid \<Rightarrow> fil s oid)"

fun churn_prebuild ::
  "('s \<Rightarrow> i64 \<Rightarrow> i64 \<Rightarrow> i64 \<Rightarrow> u8 \<Rightarrow> panic + 's) \<Rightarrow> ('s \<Rightarrow> i64 \<Rightarrow> panic + 's) \<Rightarrow>
   ('s \<Rightarrow> i64 \<Rightarrow> panic + 's) \<Rightarrow> nat \<Rightarrow> 's \<times> churn \<Rightarrow> panic + 's \<times> churn" where
  "churn_prebuild ins can fil 0 (s, ch) = Inr (s, ch)"
| "churn_prebuild ins can fil (Suc n) (s, ch) =
     and_then (insert_op ch) (\<lambda>(op, ch).
     and_then (churn_apply ins can fil s op) (\<lambda>s.
     churn_prebuild ins can fil n (s, ch)))"

text \<open>
  The timed loop. The clock is not under src/: \<open>ns k\<close> is the time the k-th timed operation
  took, as \<open>Instant\<close> reports it.
\<close>

record churn_samples =
  insert_ns :: "u64 list"
  cancel_ns :: "u64 list"
  fill_ns :: "u64 list"

definition record_sample :: "churn_op \<Rightarrow> u64 \<Rightarrow> churn_samples \<Rightarrow> churn_samples" where
  "record_sample op t smp =
     (case op of
        Op_insert _ _ _ _ \<Rightarrow> smp\<lparr>insert_ns := insert_ns smp @ [t]\<rparr>
      | Op_cancel _ \<Rightarrow> smp\<lparr>cancel_ns := cancel_ns smp @ [t]\<rparr>
      | Op_fill _ \<Rightarrow> smp\<lparr>fill_ns := fill_ns smp @ [t]\<rparr>)"

fun churn_warmup ::
  "('s \<Rightarrow> i64 \<Rightarrow> i64 \<Rightarrow> i64 \<Rightarrow> u8 \<Rightarrow> panic + 's) \<Rightarrow> ('s \<Rightarrow> i64 \<Rightarrow> panic + 's) \<Rightarrow>
   ('s \<Rightarrow> i64 \<Rightarrow> panic + 's) \<Rightarrow> nat \<Rightarrow> 's \<times> churn \<Rightarrow> panic + 's \<times> churn" where
  "churn_warmup ins can fil 0 (s, ch) = Inr (s, ch)"
| "churn_warmup ins can fil (Suc n) (s, ch) =
     and_then (next_op ch) (\<lambda>(op, ch).
     and_then (churn_apply ins can fil s op) (\<lambda>s.
     churn_warmup ins can fil n (s, ch)))"

fun churn_timed ::
  "('s \<Rightarrow> i64 \<Rightarrow> i64 \<Rightarrow> i64 \<Rightarrow> u8 \<Rightarrow> panic + 's) \<Rightarrow> ('s \<Rightarrow> i64 \<Rightarrow> panic + 's) \<Rightarrow>
   ('s \<Rightarrow> i64 \<Rightarrow> panic + 's) \<Rightarrow> u64 list \<Rightarrow> 's \<times> churn \<times> churn_samples \<Rightarrow>
   panic + 's \<times> churn \<times> churn_samples" where
  "churn_timed ins can fil [] (s, ch, smp) = Inr (s, ch, smp)"
| "churn_timed ins can fil (t # ts) (s, ch, smp) =
     and_then (next_op ch) (\<lambda>(op, ch).
     and_then (churn_apply ins can fil s op) (\<lambda>s.
     churn_timed ins can fil ts (s, ch, record_sample op t smp)))"

definition run_churn ::
  "('s \<Rightarrow> i64 \<Rightarrow> i64 \<Rightarrow> i64 \<Rightarrow> u8 \<Rightarrow> panic + 's) \<Rightarrow> ('s \<Rightarrow> i64 \<Rightarrow> panic + 's) \<Rightarrow>
   ('s \<Rightarrow> i64 \<Rightarrow> panic + 's) \<Rightarrow> (nat \<Rightarrow> u64) \<Rightarrow> smr_config \<Rightarrow> 's \<Rightarrow> churn \<Rightarrow>
   panic + 's \<times> churn \<times> churn_samples" where
  "run_churn ins can fil ns cfg s ch =
     and_then (churn_warmup ins can fil (cfg_warmup cfg) (s, ch)) (\<lambda>(s, ch).
     churn_timed ins can fil (map ns [0..<cfg_iters cfg])
       (s, ch, \<lparr>insert_ns = [], cancel_ns = [], fill_ns = []\<rparr>))"

section \<open>The specification of a run\<close>

definition spec_apply :: "geometry \<Rightarrow> churn_op \<Rightarrow> ladder \<Rightarrow> ladder" where
  "spec_apply g op L =
     (case op of
        Op_insert oid pr q sd \<Rightarrow>
          (case tick_of (g_price_min g) (g_tick g) pr of
             Inl _ \<Rightarrow> L | Inr t \<Rightarrow> spec_insert (entry_for oid pr q) sd (unat t) L)
      | Op_cancel oid \<Rightarrow> spec_remove oid L
      | Op_fill oid \<Rightarrow> spec_remove oid L)"

text \<open>
  The grid of prices the generator draws from is exact: the highest level's offset fits i64.
\<close>

definition price_grid :: "geometry \<Rightarrow> bool" where
  "price_grid g \<longleftrightarrow>
     0 <s g_tick g \<and> 0 < unat (g_levels g) \<and> unat (g_levels g) \<le> 65535 \<and>
     int (unat (g_levels g)) * sint (g_tick g) < 2 ^ 63"

lemma tick_of_grid:
  assumes g: "price_grid g" and t: "unat t < unat (g_levels g)"
  shows "tick_of (g_price_min g) (g_tick g) (g_price_min g + t * g_tick g) = Inr (ucast t)"
proof -
  let ?k = "g_tick g"
  have k: "0 < sint ?k" using g by (simp add: price_grid_def word_sless_alt)
  have t16: "unat t < 65535" using t g by (simp add: price_grid_def)
  have st: "sint t = int (unat t)" using t16 by (intro sint_small64) simp
  have b: "int (unat t) * sint ?k < 2 ^ 63"
  proof -
    have "int (unat t) \<le> int (unat (g_levels g))"
      unfolding of_nat_le_iff using t by (rule less_imp_le)
    then have "int (unat t) * sint ?k \<le> int (unat (g_levels g)) * sint ?k"
      using k by (intro mult_right_mono) simp_all
    then show ?thesis using g by (simp add: price_grid_def)
  qed
  have "sint (t * ?k) = int (unat t) * sint ?k"
  proof -
    have eq: "t * ?k = word_of_int (int (unat t) * sint ?k)"
      by (metis st word_of_int_sint of_int_mult)
    have "0 \<le> int (unat t) * sint ?k" using k by simp
    then have "- (2 ^ 63) \<le> int (unat t) * sint ?k" by (rule order_trans [rotated]) simp
    then have "sint (word_of_int (int (unat t) * sint ?k) :: i64) = int (unat t) * sint ?k"
      using b by (intro sint_word_of_int) simp_all
    then show ?thesis unfolding eq .
  qed
  moreover have "?k \<noteq> 0" "?k \<noteq> - 1" using k by auto
  moreover have "int (unat t) * sint ?k sdiv sint ?k = int (unat t)"
    using k by (intro mult_sdiv_self) simp_all
  moreover have "word_of_int (int (unat t)) = t" by simp
  ultimately show ?thesis
    by (simp add: tick_of_def div_i64_def)
qed

section \<open>Generator and store in step\<close>

text \<open>
  The generator knows exactly the resting ids. Between operations at most \<open>m\<close> orders rest at
  an even index and \<open>m + 1\<close>, at least one, at an odd one.
\<close>

definition known_ids :: "churn \<Rightarrow> i64 set \<Rightarrow> bool" where
  "known_ids ch ids \<longleftrightarrow>
     distinct (ch_live ch) \<and> set (ch_live ch) = ids \<and>
     (\<forall>x \<in> ids. \<exists>j < ch_i ch. x = of_nat j + 1)"

definition churn_known :: "geometry \<Rightarrow> churn \<Rightarrow> ladder \<Rightarrow> bool" where
  "churn_known g ch L \<longleftrightarrow>
     ch_levels ch = g_levels g \<and> ch_tick ch = g_tick g \<and> ch_price_min ch = g_price_min g \<and>
     known_ids ch (ladder_ids (unat (g_levels g)) L)"

definition churn_inv :: "geometry \<Rightarrow> nat \<Rightarrow> churn \<Rightarrow> ladder \<Rightarrow> bool" where
  "churn_inv g m ch L \<longleftrightarrow>
     churn_known g ch L \<and>
     (if even (ch_i ch) then length (ch_live ch) \<le> m
      else 1 \<le> length (ch_live ch) \<and> length (ch_live ch) \<le> m + 1)"

lemma length_swap_remove [simp]: "length (swap_remove xs v) = length xs - 1"
  by (simp add: swap_remove_def)

lemma swap_remove_spec:
  assumes "distinct xs" and "v < length xs"
  shows "distinct (swap_remove xs v) \<and> set (swap_remove xs v) = set xs - {xs ! v}"
proof -
  obtain ys x where xs: "xs = ys @ [x]" using assms(2) by (cases xs rule: rev_cases) auto
  show ?thesis
  proof (cases "v = length ys")
    case True
    with assms show ?thesis by (simp add: swap_remove_def xs)
  next
    case False
    with assms(2) have v: "v < length ys" by (simp add: xs)
    then have eq: "swap_remove xs v = ys[v := x]"
      by (simp add: swap_remove_def xs list_update_append)
    obtain as bs where ys: "ys = as @ ys ! v # bs" "length as = v"
      using id_take_nth_drop [OF v] v by fastforce
    from ys(2) have "ys[v := x] = as @ x # bs" by (subst ys(1)) (simp add: list_update_append)
    moreover have "xs ! v = ys ! v" using v by (simp add: xs nth_append)
    moreover from ys(1) assms(1) have "distinct (as @ ys ! v # bs @ [x])"
      unfolding xs by (metis append.assoc append_Cons)
    moreover from ys(1) have "set xs = set (as @ ys ! v # bs @ [x])"
      unfolding xs by (metis append.assoc append_Cons)
    ultimately show ?thesis unfolding eq by auto
  qed
qed

lemma of_nat_succ_eq:
  assumes "Suc j < 2 ^ 64" and "Suc k < 2 ^ 64"
  shows "(of_nat j + 1 :: i64) = of_nat k + 1 \<longleftrightarrow> j = k" and "(of_nat j + 1 :: i64) \<noteq> 0"
proof -
  have u: "unat (of_nat n + 1 :: i64) = Suc n" if "Suc n < 2 ^ 64" for n
    using that by (simp add: unat_word_ariths unat_of_nat take_bit_nat_eq_self)
  show "(of_nat j + 1 :: i64) = of_nat k + 1 \<longleftrightarrow> j = k" using u assms by (metis Suc_inject)
  show "(of_nat j + 1 :: i64) \<noteq> 0" using u [OF assms(1)] by (metis nat.distinct(1) unat_0)
qed

lemma known_ids_fresh:
  assumes "known_ids ch ids" and "Suc (ch_i ch) < 2 ^ 64"
  shows "(of_nat (ch_i ch) + 1 :: i64) \<notin> ids" and "(of_nat (ch_i ch) + 1 :: i64) \<noteq> 0"
proof -
  show "(of_nat (ch_i ch) + 1 :: i64) \<notin> ids"
  proof
    assume "(of_nat (ch_i ch) + 1 :: i64) \<in> ids"
    with assms(1) obtain j where j: "j < ch_i ch" "(of_nat (ch_i ch) + 1 :: i64) = of_nat j + 1"
      unfolding known_ids_def by blast
    then have "Suc j < 2 ^ 64" using assms(2) by simp
    from of_nat_succ_eq(1) [OF assms(2) this] j show False by blast
  qed
  show "(of_nat (ch_i ch) + 1 :: i64) \<noteq> 0" by (rule of_nat_succ_eq(2) [OF assms(2,2)])
qed

text \<open>What the generator hands out, whatever the store.\<close>

lemma known_count:
  "churn_known g ch L \<Longrightarrow> live_count g L = length (ch_live ch)"
  unfolding churn_known_def known_ids_def live_count_def by (metis distinct_card)

lemma insert_op_spec:
  assumes inv: "churn_known g ch L" and g: "price_grid g" and i: "Suc (ch_i ch) < 2 ^ 64"
  shows "\<exists>oid pr q sd t ch'. insert_op ch = Inr (Op_insert oid pr q sd, ch') \<and>
    accepts g L oid sd t pr \<and> ch_i ch' = Suc (ch_i ch) \<and>
    ch_live ch' = ch_live ch @ [oid] \<and>
    churn_known g ch' (spec_insert (entry_for oid pr q) sd (unat t) L)"
proof -
  have geo: "ch_levels ch = g_levels g" "ch_tick ch = g_tick g" "ch_price_min ch = g_price_min g"
    and k: "known_ids ch (ladder_ids (unat (g_levels g)) L)"
    using inv by (simp_all add: churn_known_def)
  have pos: "0 < unat (g_levels g)" using g by (simp add: price_grid_def)
  obtain r t rng where n: "next_insert (ch_rng ch) (ch_i ch) (g_levels g) (g_tick g) (g_price_min g) =
      Inr (r, rng)" and r: "ins_order_id r = of_nat (ch_i ch) + 1"
      "ins_price r = g_price_min g + t * g_tick g" "unat t < unat (g_levels g)"
      "ins_side r = 0 \<or> ins_side r = 1"
    using next_insert_spec [OF pos] by blast
  note fresh = known_ids_fresh [OF k i]
  let ?id = "ins_order_id r" and ?t = "ucast t :: u32"
  let ?ch = "ch\<lparr>ch_rng := rng, ch_i := usize_add (ch_i ch) 1, ch_live := ch_live ch @ [?id]\<rparr>"
  have run: "insert_op ch = Inr (Op_insert ?id (ins_price r) (ins_qty r) (ins_side r), ?ch)"
    by (simp add: insert_op_def geo n)
  have ut: "unat ?t = unat t"
    using r(3) unat_u32_bound [of "g_levels g"] by (simp add: unsigned_ucast_eq take_bit_nat_eq_self)
  then have acc: "accepts g L ?id (ins_side r) ?t (ins_price r)"
    using r fresh tick_of_grid [OF g r(3)] by (simp add: accepts_def is_side_def)
  have ids: "ladder_ids (unat (g_levels g))
      (spec_insert (entry_for ?id (ins_price r) (ins_qty r)) (ins_side r) (unat ?t) L) =
      insert ?id (ladder_ids (unat (g_levels g)) L)"
    using acc by (subst spec_insert_ids) (simp_all add: accepts_def entry_for_def)
  have "known_ids ?ch (insert ?id (ladder_ids (unat (g_levels g)) L))"
    using k fresh(1) i by (auto simp: known_ids_def r(1) less_Suc_eq)
  then have "churn_known g ?ch
      (spec_insert (entry_for ?id (ins_price r) (ins_qty r)) (ins_side r) (unat ?t) L)"
    using geo by (simp add: churn_known_def ids)
  with run acc i show ?thesis
    by (intro exI [of _ ?id] exI [of _ "ins_price r"] exI [of _ "ins_qty r"]
        exI [of _ "ins_side r"] exI [of _ ?t] exI [of _ ?ch]) simp
qed

lemma next_op_spec:
  assumes inv: "churn_inv g m ch L" and g: "price_grid g" and i: "Suc (ch_i ch) < 2 ^ 64"
    and m: "m + 1 < 2 ^ 64"
  shows "(\<exists>oid pr q sd t ch'. next_op ch = Inr (Op_insert oid pr q sd, ch') \<and>
      even (ch_i ch) \<and> accepts g L oid sd t pr \<and> ch_i ch' = Suc (ch_i ch) \<and>
      churn_inv g m ch' (spec_insert (entry_for oid pr q) sd (unat t) L)) \<or>
    (\<exists>oid op ch'. next_op ch = Inr (op, ch') \<and> (op = Op_cancel oid \<or> op = Op_fill oid) \<and>
      odd (ch_i ch) \<and> oid \<in> ladder_ids (unat (g_levels g)) L \<and> ch_i ch' = Suc (ch_i ch) \<and>
      churn_inv g m ch' (spec_remove oid L))"
proof (cases "even (ch_i ch)")
  case True
  have known: "churn_known g ch L" using inv by (simp add: churn_inv_def)
  obtain oid pr q sd t ch' where op: "insert_op ch = Inr (Op_insert oid pr q sd, ch')"
    and acc: "accepts g L oid sd t pr" and ch': "ch_i ch' = Suc (ch_i ch)"
      "ch_live ch' = ch_live ch @ [oid]"
      "churn_known g ch' (spec_insert (entry_for oid pr q) sd (unat t) L)"
    using insert_op_spec [OF known g i] by blast
  have "next_op ch = insert_op ch" using True by (simp add: next_op_def even_iff_mod_2_eq_zero)
  moreover have "churn_inv g m ch' (spec_insert (entry_for oid pr q) sd (unat t) L)"
    using inv True ch' by (simp add: churn_inv_def)
  ultimately show ?thesis using op acc ch'(1) True by auto
next
  case False
  then have len: "1 \<le> length (ch_live ch)" "length (ch_live ch) \<le> m + 1"
    and k: "distinct (ch_live ch)" "set (ch_live ch) = ladder_ids (unat (g_levels g)) L"
    using inv by (auto simp: churn_inv_def churn_known_def known_ids_def)
  let ?n = "of_nat (length (ch_live ch)) :: u64"
  obtain r s1 where 1: "splitmix_next (ch_rng ch) = (r, s1)" by (cases "splitmix_next (ch_rng ch)")
  obtain r2 s2 where 2: "splitmix_next s1 = (r2, s2)" by (cases "splitmix_next s1")
  have un: "unat ?n = length (ch_live ch)"
    using len m by (simp add: unat_of_nat take_bit_nat_eq_self)
  then have n0: "?n \<noteq> 0" using len by (metis not_one_le_zero unat_0)
  define v where "v = unat (r mod ?n)"
  have v: "v < length (ch_live ch)"
  proof -
    have "0 < unat ?n" using un len by linarith
    from unat_mod_less [OF this, of r] show ?thesis unfolding v_def un .
  qed
  let ?id = "ch_live ch ! v"
  let ?op = "if r2 mod 10000 < ch_otr_bps ch then Op_fill ?id else Op_cancel ?id"
  let ?ch = "ch\<lparr>ch_i := usize_add (ch_i ch) 1, ch_rng := s2, ch_live := swap_remove (ch_live ch) v\<rparr>"
  have "ch_live ch \<noteq> []" using len by auto
  then have run: "next_op ch = Inr (?op, ?ch)"
    using False n0 v
    by (simp add: next_op_def 1 2 rem_u64_def idx_simps v_def even_iff_mod_2_eq_zero Let_def)
  have mem: "?id \<in> ladder_ids (unat (g_levels g)) L" using v k(2) nth_mem by blast
  have "known_ids ?ch (ladder_ids (unat (g_levels g)) (spec_remove ?id L))"
    using swap_remove_spec [OF k(1) v] inv i
    by (auto simp: known_ids_def churn_inv_def churn_known_def spec_remove_ids k(2) less_Suc_eq)
  then have "churn_inv g m ?ch (spec_remove ?id L)"
    using inv False len i by (auto simp: churn_inv_def churn_known_def)
  moreover have "?op = Op_cancel ?id \<or> ?op = Op_fill ?id" by simp
  ultimately show ?thesis using run mem False i by (intro disjI2) fastforce
qed

section \<open>Runs\<close>

text \<open>The operations the generator hands out, without a store.\<close>

fun churn_ops :: "nat \<Rightarrow> churn \<Rightarrow> panic + churn_op list \<times> churn" where
  "churn_ops 0 ch = Inr ([], ch)"
| "churn_ops (Suc n) ch =
     and_then (next_op ch) (\<lambda>(op, ch).
     and_then (churn_ops n ch) (\<lambda>(ops, ch). Inr (op # ops, ch)))"

definition sample_count :: "churn_samples \<Rightarrow> nat" where
  "sample_count smp = length (insert_ns smp) + length (cancel_ns smp) + length (fill_ns smp)"

lemma sample_count_record [simp]: "sample_count (record_sample op t smp) = Suc (sample_count smp)"
  by (cases op) (simp_all add: record_sample_def sample_count_def)

text \<open>How many orders rest at an even index when the steady state is \<open>n\<close>.\<close>

definition spare :: "nat \<Rightarrow> nat" where
  "spare n = (if even n then n else n - 1)"

context rest_store
begin

lemma churn_step:
  assumes s: "ok (Suc z) s" and inv: "churn_inv (geom s) m ch (view s)" and g: "price_grid (geom s)"
    and m: "m + 1 \<le> g_capacity (geom s)" and i: "Suc (ch_i ch) < 2 ^ 64"
  shows "\<exists>op ch' s'. next_op ch = Inr (op, ch') \<and> churn_apply ins can fil s op = Inr s' \<and>
    ok z s' \<and> geom s' = geom s \<and> view s' = spec_apply (geom s) op (view s) \<and>
    churn_inv (geom s) m ch' (view s') \<and> ch_i ch' = Suc (ch_i ch)"
proof -
  have m64: "m + 1 < 2 ^ 64" using m cap_bound [OF s] by simp
  from next_op_spec [OF inv g i m64] consider
      (new) oid pr q sd t ch' where "next_op ch = Inr (Op_insert oid pr q sd, ch')" "even (ch_i ch)"
        "accepts (geom s) (view s) oid sd t pr" "ch_i ch' = Suc (ch_i ch)"
        "churn_inv (geom s) m ch' (spec_insert (entry_for oid pr q) sd (unat t) (view s))"
    | (gone) oid op ch' where "next_op ch = Inr (op, ch')" "op = Op_cancel oid \<or> op = Op_fill oid"
        "oid \<in> ladder_ids (unat (g_levels (geom s))) (view s)" "ch_i ch' = Suc (ch_i ch)"
        "churn_inv (geom s) m ch' (spec_remove oid (view s))"
    by blast
  then show ?thesis
  proof cases
    case new
    note op = new(1) and ev = new(2) and acc = new(3) and i' = new(4) and inv' = new(5)
    have "live_count (geom s) (view s) < g_capacity (geom s)"
      using inv ev m known_count by (fastforce simp: churn_inv_def)
    then obtain s' where "ins s oid pr q sd = Inr s'" "ok z s'" "geom s' = geom s"
      "view s' = spec_insert (entry_for oid pr q) sd (unat t) (view s)"
      using ins_ok [OF s _ acc] by blast
    moreover have "tick_of (g_price_min (geom s)) (g_tick (geom s)) pr = Inr t"
      using acc by (simp add: accepts_def)
    ultimately show ?thesis using op i' inv'
      by (intro exI [of _ "Op_insert oid pr q sd"] exI [of _ ch'] exI [of _ s'])
        (simp add: churn_apply_def spec_apply_def)
  next
    case gone
    note op = gone(1) and kind = gone(2) and mem = gone(3) and i' = gone(4) and inv' = gone(5)
    have "\<exists>s'. churn_apply ins can fil s op = Inr s' \<and> ok z s' \<and> geom s' = geom s \<and>
        view s' = spec_remove oid (view s)"
      using kind can_ok [OF s mem] fil_ok [OF s mem] by (auto simp: churn_apply_def)
    moreover have "spec_apply (geom s) op (view s) = spec_remove oid (view s)"
      using kind by (auto simp: spec_apply_def)
    ultimately show ?thesis using op i' inv' by fastforce
  qed
qed

lemma churn_timed_run:
  assumes "ok (length ts + z) s" and "churn_inv (geom s) m ch (view s)" and "price_grid (geom s)"
    and "m + 1 \<le> g_capacity (geom s)" and "ch_i ch + length ts < 2 ^ 64"
  shows "\<exists>s' ch' smp' ops. churn_timed ins can fil ts (s, ch, smp) = Inr (s', ch', smp') \<and>
    churn_ops (length ts) ch = Inr (ops, ch') \<and> ok z s' \<and> geom s' = geom s \<and>
    view s' = fold (spec_apply (geom s)) ops (view s) \<and> churn_inv (geom s) m ch' (view s') \<and>
    ch_i ch' = ch_i ch + length ts \<and> sample_count smp' = sample_count smp + length ts"
  using assms
proof (induction ts arbitrary: s ch smp)
  case Nil
  then show ?case by simp
next
  case (Cons t ts)
  then have i: "Suc (ch_i ch) < 2 ^ 64" and s: "ok (Suc (length ts + z)) s" by simp_all
  from churn_step [OF s Cons.prems(2-4) i] obtain op ch1 s1 where
    1: "next_op ch = Inr (op, ch1)" "churn_apply ins can fil s op = Inr s1" "ok (length ts + z) s1"
      "geom s1 = geom s" "view s1 = spec_apply (geom s) op (view s)"
      "churn_inv (geom s) m ch1 (view s1)" "ch_i ch1 = Suc (ch_i ch)"
    by blast
  have "\<exists>s' ch' smp' ops. churn_timed ins can fil ts (s1, ch1, record_sample op t smp) = Inr (s', ch', smp') \<and>
    churn_ops (length ts) ch1 = Inr (ops, ch') \<and> ok z s' \<and> geom s' = geom s1 \<and>
    view s' = fold (spec_apply (geom s1)) ops (view s1) \<and> churn_inv (geom s1) m ch' (view s') \<and>
    ch_i ch' = ch_i ch1 + length ts \<and>
    sample_count smp' = sample_count (record_sample op t smp) + length ts"
    using 1 Cons.prems by (intro Cons.IH) simp_all
  then obtain s' ch' smp' ops where "churn_timed ins can fil ts (s1, ch1, record_sample op t smp) =
      Inr (s', ch', smp')"
    "churn_ops (length ts) ch1 = Inr (ops, ch')" "ok z s'" "geom s' = geom s"
    "view s' = fold (spec_apply (geom s)) ops (view s1)" "churn_inv (geom s) m ch' (view s')"
    "ch_i ch' = ch_i ch1 + length ts" "sample_count smp' = Suc (sample_count smp) + length ts"
    using 1 by auto
  with 1 show ?case
    by (intro exI [of _ s'] exI [of _ ch'] exI [of _ smp'] exI [of _ "op # ops"]) simp
qed

lemma churn_warmup_run:
  assumes "ok (n + z) s" and "churn_inv (geom s) m ch (view s)" and "price_grid (geom s)"
    and "m + 1 \<le> g_capacity (geom s)" and "ch_i ch + n < 2 ^ 64"
  shows "\<exists>s' ch' ops. churn_warmup ins can fil n (s, ch) = Inr (s', ch') \<and>
    churn_ops n ch = Inr (ops, ch') \<and> ok z s' \<and> geom s' = geom s \<and>
    view s' = fold (spec_apply (geom s)) ops (view s) \<and> churn_inv (geom s) m ch' (view s') \<and>
    ch_i ch' = ch_i ch + n"
  using assms
proof (induction n arbitrary: s ch)
  case 0
  then show ?case by simp
next
  case (Suc n)
  then have i: "Suc (ch_i ch) < 2 ^ 64" and s: "ok (Suc (n + z)) s" by simp_all
  from churn_step [OF s Suc.prems(2-4) i] obtain op ch1 s1 where
    1: "next_op ch = Inr (op, ch1)" "churn_apply ins can fil s op = Inr s1" "ok (n + z) s1"
      "geom s1 = geom s" "view s1 = spec_apply (geom s) op (view s)"
      "churn_inv (geom s) m ch1 (view s1)" "ch_i ch1 = Suc (ch_i ch)"
    by blast
  have "\<exists>s' ch' ops. churn_warmup ins can fil n (s1, ch1) = Inr (s', ch') \<and>
    churn_ops n ch1 = Inr (ops, ch') \<and> ok z s' \<and> geom s' = geom s1 \<and>
    view s' = fold (spec_apply (geom s1)) ops (view s1) \<and> churn_inv (geom s1) m ch' (view s') \<and>
    ch_i ch' = ch_i ch1 + n"
    using 1 Suc.prems by (intro Suc.IH) simp_all
  then obtain s' ch' ops where "churn_warmup ins can fil n (s1, ch1) = Inr (s', ch')"
    "churn_ops n ch1 = Inr (ops, ch')" "ok z s'" "geom s' = geom s"
    "view s' = fold (spec_apply (geom s)) ops (view s1)" "churn_inv (geom s) m ch' (view s')"
    "ch_i ch' = ch_i ch1 + n"
    using 1 by auto
  with 1 show ?case
    by (intro exI [of _ s'] exI [of _ ch'] exI [of _ "op # ops"]) simp
qed

lemma churn_prebuild_run:
  assumes "ok (n + z) s" and "churn_known (geom s) ch (view s)" and "price_grid (geom s)"
    and "length (ch_live ch) + n \<le> g_capacity (geom s)" and "ch_i ch + n < 2 ^ 64"
  shows "\<exists>s' ch'. churn_prebuild ins can fil n (s, ch) = Inr (s', ch') \<and>
    ok z s' \<and> geom s' = geom s \<and> churn_known (geom s) ch' (view s') \<and>
    length (ch_live ch') = length (ch_live ch) + n \<and> ch_i ch' = ch_i ch + n"
  using assms
proof (induction n arbitrary: s ch)
  case 0
  then show ?case by simp
next
  case (Suc n)
  then have i: "Suc (ch_i ch) < 2 ^ 64" and s: "ok (Suc (n + z)) s" by simp_all
  obtain oid pr q sd t ch1 where op: "insert_op ch = Inr (Op_insert oid pr q sd, ch1)"
    and acc: "accepts (geom s) (view s) oid sd t pr" and ch1: "ch_i ch1 = Suc (ch_i ch)"
      "ch_live ch1 = ch_live ch @ [oid]"
      "churn_known (geom s) ch1 (spec_insert (entry_for oid pr q) sd (unat t) (view s))"
    using insert_op_spec [OF Suc.prems(2,3) i] by blast
  have "live_count (geom s) (view s) < g_capacity (geom s)"
    using known_count [OF Suc.prems(2)] Suc.prems(4) by simp
  from ins_ok [OF s this acc] obtain s1 where s1: "ins s oid pr q sd = Inr s1" "ok (n + z) s1"
    "geom s1 = geom s" "view s1 = spec_insert (entry_for oid pr q) sd (unat t) (view s)"
    by blast
  have "\<exists>s' ch'. churn_prebuild ins can fil n (s1, ch1) = Inr (s', ch') \<and>
    ok z s' \<and> geom s' = geom s1 \<and> churn_known (geom s1) ch' (view s') \<and>
    length (ch_live ch') = length (ch_live ch1) + n \<and> ch_i ch' = ch_i ch1 + n"
    using s1 ch1 Suc.prems by (intro Suc.IH) simp_all
  with op s1 ch1 show ?case by (auto simp: churn_apply_def)
qed

text \<open>Prebuild, warm-up and the timed loop, one after the other.\<close>

lemma churn_full_run:
  assumes s: "ok (steady + (cfg_warmup cfg + (cfg_iters cfg + z))) s" and ch: "churn_known (geom s) ch (view s)" "ch_live ch = []" "ch_i ch = 0"
    and g: "price_grid (geom s)" and m: "spare steady + 1 \<le> g_capacity (geom s)"
    and n: "steady + cfg_warmup cfg + cfg_iters cfg < 2 ^ 64"
  shows "\<exists>s1 ch1 s2 ch2 smp. churn_prebuild ins can fil steady (s, ch) = Inr (s1, ch1) \<and>
    run_churn ins can fil ns cfg s1 ch1 = Inr (s2, ch2, smp) \<and>
    ok z s2 \<and> geom s2 = geom s \<and> churn_inv (geom s) (spare steady) ch2 (view s2) \<and>
    sample_count smp = cfg_iters cfg"
proof -
  have "steady \<le> g_capacity (geom s)" using m by (simp add: spare_def split: if_splits)
  with churn_prebuild_run [OF s ch(1) g] obtain s1 ch1 where
    1: "churn_prebuild ins can fil steady (s, ch) = Inr (s1, ch1)" "ok (cfg_warmup cfg + (cfg_iters cfg + z)) s1" "geom s1 = geom s"
      "churn_known (geom s) ch1 (view s1)" "length (ch_live ch1) = steady" "ch_i ch1 = steady"
    using ch n by auto
  have inv1: "churn_inv (geom s) (spare steady) ch1 (view s1)"
    using 1 by (cases "even steady") (auto simp: churn_inv_def spare_def intro: Suc_leI odd_pos)
  obtain s2 ch2 ops where
    2: "churn_warmup ins can fil (cfg_warmup cfg) (s1, ch1) = Inr (s2, ch2)" "ok (cfg_iters cfg + z) s2"
      "geom s2 = geom s" "churn_inv (geom s) (spare steady) ch2 (view s2)"
      "ch_i ch2 = steady + cfg_warmup cfg"
    using churn_warmup_run [of "cfg_warmup cfg" "cfg_iters cfg + z" s1 "spare steady" ch1] 1 inv1 g m n by auto
  obtain s3 ch3 smp ops' where
    3: "churn_timed ins can fil (map ns [0..<cfg_iters cfg])
        (s2, ch2, \<lparr>insert_ns = [], cancel_ns = [], fill_ns = []\<rparr>) = Inr (s3, ch3, smp)" "ok z s3"
      "geom s3 = geom s" "churn_inv (geom s) (spare steady) ch3 (view s3)"
      "sample_count smp = cfg_iters cfg"
    using churn_timed_run [of "map ns [0..<cfg_iters cfg]" z s2 "spare steady" ch2
        "\<lparr>insert_ns = [], cancel_ns = [], fill_ns = []\<rparr>"] 2 g m n
    by (auto simp: sample_count_def)
  from 1 2 3 show ?thesis by (auto simp: run_churn_def)
qed

end

context order_store
begin

text \<open>With an even steady state and no slot to spare, the first operation exhausts the pool.\<close>

lemma churn_exhausted:
  assumes s: "ok (Suc z) s" and inv: "churn_known (geom s) ch (view s)" and g: "price_grid (geom s)"
    and full: "length (ch_live ch) = g_capacity (geom s)" and ev: "even (ch_i ch)"
    and i: "Suc (ch_i ch) < 2 ^ 64"
  shows "churn_warmup ins can fil (Suc n) (s, ch) = Inl (Pool_exhausted (g_capacity (geom s)))"
proof -
  obtain oid pr q sd t ch1 where op: "insert_op ch = Inr (Op_insert oid pr q sd, ch1)"
    and acc: "accepts (geom s) (view s) oid sd t pr"
    using insert_op_spec [OF inv g i] by blast
  have "live_count (geom s) (view s) = g_capacity (geom s)" using known_count [OF inv] full by simp
  from ins_full [OF s this acc] op ev show ?thesis
    by (simp add: next_op_def churn_apply_def even_iff_mod_2_eq_zero)
qed

end

section \<open>The same run on both books\<close>

text \<open>
  The generator does not look at the store, so a run on the copy-on-write book and one on its
  flat view agree step by step, panics included.
\<close>

lemma churn_apply_agree:
  "sim c0 c b \<Longrightarrow>
   agree (sim c0) (churn_apply cow_insert cow_cancel cow_fill c op)
     (churn_apply book_insert book_cancel book_fill b op)"
  by (cases op) (simp_all add: churn_apply_def sim_insert sim_cancel sim_fill)

lemma churn_timed_agree:
  "sim c0 c b \<Longrightarrow>
   agree (\<lambda>(c, ch, smp) (b, ch', smp'). sim c0 c b \<and> ch = ch' \<and> smp = smp')
     (churn_timed cow_insert cow_cancel cow_fill ts (c, ch, smp))
     (churn_timed book_insert book_cancel book_fill ts (b, ch, smp))"
proof (induction ts arbitrary: c b ch smp)
  case Nil
  then show ?case by simp
next
  case (Cons t ts)
  then show ?case
    by (auto intro!: agree_bind_eq agree_bind_sim [of c0] churn_apply_agree)
qed

lemma churn_warmup_agree:
  "sim c0 c b \<Longrightarrow>
   agree (\<lambda>(c, ch) (b, ch'). sim c0 c b \<and> ch = ch')
     (churn_warmup cow_insert cow_cancel cow_fill n (c, ch))
     (churn_warmup book_insert book_cancel book_fill n (b, ch))"
proof (induction n arbitrary: c b ch)
  case 0
  then show ?case by simp
next
  case (Suc n)
  then show ?case
    by (auto intro!: agree_bind_eq agree_bind_sim [of c0] churn_apply_agree)
qed

lemma run_churn_agree:
  assumes "sim c0 c b"
  shows "agree (\<lambda>(c, ch, smp) (b, ch', smp'). sim c0 c b \<and> ch = ch' \<and> smp = smp')
     (run_churn cow_insert cow_cancel cow_fill ns cfg c ch)
     (run_churn book_insert book_cancel book_fill ns cfg b ch)"
  unfolding run_churn_def
proof (rule agree_and_then [OF churn_warmup_agree [OF assms]])
  fix x :: "cowbook \<times> churn" and y :: "book \<times> churn"
  assume R: "(\<lambda>(c, ch) (b, ch'). sim c0 c b \<and> ch = ch') x y"
  obtain c1 b1 ch1 where xy: "x = (c1, ch1)" "y = (b1, ch1)" "sim c0 c1 b1"
    using R by (cases x; cases y) auto
  show "agree (\<lambda>(c, ch, smp) (b, ch', smp'). sim c0 c b \<and> ch = ch' \<and> smp = smp')
      ((\<lambda>(s, ch). churn_timed cow_insert cow_cancel cow_fill (map ns [0..<cfg_iters cfg])
         (s, ch, \<lparr>insert_ns = [], cancel_ns = [], fill_ns = []\<rparr>)) x)
      ((\<lambda>(s, ch). churn_timed book_insert book_cancel book_fill (map ns [0..<cfg_iters cfg])
         (s, ch, \<lparr>insert_ns = [], cancel_ns = [], fill_ns = []\<rparr>)) y)"
    unfolding xy prod.case by (rule churn_timed_agree [OF xy(3)])
qed

end
