(* ===== verification/Snap_Trace.thy ===== *)
theory Snap_Trace
  imports Cow_Sim
begin

text \<open>
  Captured roots over time: sequences of operations and further captures on the
  copy-on-write book, and what a root captured before them still shows.
\<close>

datatype cow_cmd =
    Cmd_insert i64 i64 i64 u8
  | Cmd_update i64 i64
  | Cmd_cancel i64
  | Cmd_fill i64
  | Cmd_capture

definition cow_exec :: "cow_cmd \<Rightarrow> cowbook \<Rightarrow> panic + cowbook" where
  "cow_exec cmd c =
     (case cmd of
        Cmd_insert i pr q sd \<Rightarrow> cow_insert c i pr q sd
      | Cmd_update i q \<Rightarrow> cow_update c i q
      | Cmd_cancel i \<Rightarrow> cow_cancel c i
      | Cmd_fill i \<Rightarrow> cow_fill c i
      | Cmd_capture \<Rightarrow> Inr (snd (capture c)))"

definition flat_exec :: "cow_cmd \<Rightarrow> book \<Rightarrow> panic + book" where
  "flat_exec cmd b =
     (case cmd of
        Cmd_insert i pr q sd \<Rightarrow> book_insert b i pr q sd
      | Cmd_update i q \<Rightarrow> book_update b i q
      | Cmd_cancel i \<Rightarrow> book_cancel b i
      | Cmd_fill i \<Rightarrow> book_fill b i
      | Cmd_capture \<Rightarrow> Inr b)"

lemma cow_exec_sim:
  assumes "cow_ok c" and "cmd \<noteq> Cmd_capture"
  shows "agree (sim c) (cow_exec cmd c) (flat_exec cmd (flat c))"
proof -
  have "sim c c (flat c)" using assms(1) by (simp add: sim_def)
  with assms(2) show ?thesis
    by (cases cmd) (simp_all add: cow_exec_def flat_exec_def sim_insert sim_update sim_cancel sim_fill)
qed

lemma cow_exec_step:
  assumes ok: "cow_ok c" and gen: "unat (c_gen c) < 2 ^ 64 - 1" and run: "cow_exec cmd c = Inr c'"
  shows "cow_ok c'" and "unat (c_gen c') \<le> Suc (unat (c_gen c))"
    and "frozen c r \<Longrightarrow> frozen c' r \<and>
      root_book (order_heap c') (level_heap c') r = root_book (order_heap c) (level_heap c) r"
proof -
  have "cow_ok c' \<and> unat (c_gen c') \<le> Suc (unat (c_gen c)) \<and> (frozen c r \<longrightarrow> frozen c' r \<and>
      root_book (order_heap c') (level_heap c') r = root_book (order_heap c) (level_heap c) r)"
  proof (cases "cmd = Cmd_capture")
    case True
    then have c': "c' = snd (capture c)" using run by (simp add: cow_exec_def)
    then have g: "c_gen c' = c_gen c + 1" and "order_heap c' = order_heap c" "level_heap c' = level_heap c"
      by (simp_all add: capture_def)
    moreover have u: "unat (c_gen c + 1) = Suc (unat (c_gen c))"
      using gen by (simp add: unat_word_ariths)
    moreover have "w < c_gen c \<Longrightarrow> w < c_gen c + 1" for w
      using u by (simp add: word_less_nat_alt)
    ultimately show ?thesis
      using capture_spec(1) [OF ok gen] c' by (auto simp: frozen_def)
  next
    case False
    from cow_exec_sim [OF ok this] run have "cow_ok c'" and fr: "frame c c'"
      by (cases "flat_exec cmd (flat c)"; simp add: sim_def)+
    with frozen_frame [OF fr] show ?thesis by (auto simp: frame_def)
  qed
  then show "cow_ok c'" "unat (c_gen c') \<le> Suc (unat (c_gen c))"
    "frozen c r \<Longrightarrow> frozen c' r \<and>
      root_book (order_heap c') (level_heap c') r = root_book (order_heap c) (level_heap c) r"
    by blast+
qed

lemma cow_exec_trace:
  assumes "try_fold cow_exec cmds c = Inr c'" and "cow_ok c" and "frozen c r"
    and "unat (c_gen c) + length cmds < 2 ^ 64"
  shows "cow_ok c' \<and> frozen c' r \<and>
    root_book (order_heap c') (level_heap c') r = root_book (order_heap c) (level_heap c) r"
  using assms
proof (induction cmds arbitrary: c)
  case Nil
  then show ?case by simp
next
  case (Cons cmd cmds)
  then obtain c1 where c1: "cow_exec cmd c = Inr c1" "try_fold cow_exec cmds c1 = Inr c'" by auto
  have gen: "unat (c_gen c) < 2 ^ 64 - 1" using Cons.prems(4) by simp
  note step = cow_exec_step [OF Cons.prems(2) gen c1(1)]
  have "unat (c_gen c1) + length cmds < 2 ^ 64" using step(2) Cons.prems(4) by simp
  with Cons.IH [OF c1(2) step(1)] step(3) [OF Cons.prems(3)] show ?case by simp
qed

text \<open>A whole trace commutes with the flat view, captures being invisible in it.\<close>

lemma cow_exec_flat:
  assumes "cow_ok c" and "unat (c_gen c) + length cmds < 2 ^ 64"
  shows "agree (\<lambda>c b. cow_ok c \<and> flat c = b) (try_fold cow_exec cmds c)
    (try_fold flat_exec cmds (flat c))"
  using assms
proof (induction cmds arbitrary: c)
  case Nil
  then show ?case by simp
next
  case (Cons cmd cmds)
  have gen: "unat (c_gen c) < 2 ^ 64 - 1" using Cons.prems(2) by simp
  have step: "agree (\<lambda>c b. cow_ok c \<and> flat c = b) (cow_exec cmd c) (flat_exec cmd (flat c))"
  proof (cases "cmd = Cmd_capture")
    case True
    then show ?thesis
      using capture_spec(1,2) [OF Cons.prems(1) gen] by (simp add: cow_exec_def flat_exec_def)
  next
    case False
    show ?thesis by (rule agree_mono [OF cow_exec_sim [OF Cons.prems(1) False]]) (simp add: sim_def)
  qed
  show ?case unfolding try_fold.simps
  proof (rule agree_and_then [OF step])
    fix c1 b1
    assume c1: "cow_exec cmd c = Inr c1" and r: "cow_ok c1 \<and> flat c1 = b1"
    have "unat (c_gen c1) + length cmds < 2 ^ 64"
      using cow_exec_step(2) [OF Cons.prems(1) gen c1] Cons.prems(2) by simp
    with Cons.IH [of c1] r show "agree (\<lambda>c b. cow_ok c \<and> flat c = b) (try_fold cow_exec cmds c1)
        (try_fold flat_exec cmds b1)" by simp
  qed
qed

end
