(* ===== verification/Demo.thy ===== *)
theory Demo
  imports Churn Snap_Trace
begin

text \<open>
  Small concrete states the witnesses run on: a configuration with two slots and four
  levels, and the books reached by one insert and by one cancel.
\<close>

definition demo_cfg :: smr_config where
  "demo_cfg = \<lparr>cfg_cap = 3, cfg_levels = 4, cfg_tick = 1, cfg_price_min = 0,
     cfg_steady = 2, cfg_warmup = 2, cfg_iters = 4, cfg_chunk = 2, cfg_apply_batch = 1,
     cfg_multi_table = False, cfg_live_iters = 1, cfg_snap_every = 1, cfg_otr_bps = 100\<rparr>"

definition demo_book :: book where
  "demo_book = (case book_insert (book_new demo_cfg) 7 2 10 0 of Inr b \<Rightarrow> b | Inl _ \<Rightarrow> book_new demo_cfg)"

lemma demo_new_inv: "book_inv (book_new demo_cfg) (\<lambda>_ _. []) []"
  by (rule book_inv_new) (simp_all add: demo_cfg_def)

lemma demo_new_wf: "wf_book (book_new demo_cfg)"
  using demo_new_inv by (auto simp: wf_book_def)

lemma demo_new_accepts: "can_insert (book_new demo_cfg) 7 2 0"
  "tick_of (price_min (book_new demo_cfg)) (tick (book_new demo_cfg)) 2 = Inr 2"
  by (simp_all add: can_insert_def has_room_def book_new_def demo_cfg_def tick_of_def div_i64_def
      i64_min_def)

lemma demo_book_run: "book_insert (book_new demo_cfg) 7 2 10 0 = Inr demo_book" and
  demo_book_wf: "wf_book demo_book"
  using insert_refines_inv [OF demo_new_inv demo_new_accepts, of 10]
  by (auto simp: demo_book_def)

lemma demo_book_fields:
  "idmap demo_book = [7 \<mapsto> 0]" "price_min demo_book = 0" "tick demo_book = 1"
  "n_levels demo_book = 4" "length (pool demo_book) = 3" "best_bid demo_book = 2"
  "best_ask demo_book = - 1" "free_head demo_book = NIL" "hwm demo_book = 1"
  by (simp_all add: demo_book_def book_insert_def book_new_def demo_cfg_def tick_of_def div_i64_def
      i64_min_def alloc_slot_def get_level_def idx_def lane_def modify_order_def idx_modify_def
      modify_level_def set_lane_def empty_level_def level_push_def raise_bid_def lower_ask_def
      word_sless_alt Let_def)

text \<open>The configuration of an empty environment.\<close>

lemma default_config:
  obtains cfg where "from_env (\<lambda>_. None) = Inr cfg" and "cfg_cap cfg = 262144"
    and "cfg_levels cfg = 1024" and "cfg_tick cfg = 1" and "cfg_price_min cfg = 0"
    and "cfg_steady cfg = 60000" and "cfg_warmup cfg = 10000" and "cfg_iters cfg = 100000"
    and "cfg_chunk cfg = 4096" and "cfg_live_iters cfg = 200000" and "cfg_snap_every cfg = 20000"
  by (simp add: from_env_def parse_usize_def parse_i64_def parse_usize_allow_zero_def
      check_config_def word_sle_eq Let_def)

lemma default_grid:
  assumes "cfg_cap cfg = 262144" and "cfg_levels cfg = 1024" and "cfg_tick cfg = 1" and "cfg_price_min cfg = 0"
  shows "price_grid (geom_of (book_new cfg))"
  by (simp add: price_grid_def geom_of_def book_new_def assms word_sless_alt)

end
