(* ===== verification/Book_Theorems.thy ===== *)
theory Book_Theorems
  imports Demo
begin

text \<open>
  The properties of the order books: the flat book refines the ladder of FIFO queues, the
  copy-on-write book refines the flat one, captured roots do not change.
\<close>

lemma wf_bookE:
  assumes "wf_book b"
  obtains Q F where "book_inv b Q F"
  using assms by (auto simp: wf_book_def)

section \<open>The flat book\<close>

text \<open>C1: An insert that is accepted (there is a free slot, the price is on the grid, the id is
  new and not 0) returns a well-formed book, in which the order is the last of its level's
  queue, all other queues are as before and the geometry is unchanged.\<close>

theorem book_insert_refines:
  assumes "wf_book b" and "can_insert b oid pr sd" and "tick_of (price_min b) (tick b) pr = Inr t"
  shows "\<exists>b'. book_insert b oid pr q sd = Inr b' \<and> wf_book b' \<and>
    ladder_of b' = spec_insert (entry_for oid pr q) sd (unat t) (ladder_of b) \<and>
    geom_of b' = geom_of b"
  using assms(1) insert_refines_inv [OF _ assms(2,3)] by (elim wf_bookE)

theorem book_insert_refines_witness:
  "\<exists>b'. book_insert (book_new demo_cfg) 7 2 10 0 = Inr b' \<and> wf_book b' \<and>
    ladder_of b' = spec_insert (entry_for 7 2 10) 0 2 (ladder_of (book_new demo_cfg)) \<and>
    geom_of b' = geom_of (book_new demo_cfg)"
  using book_insert_refines [OF demo_new_wf demo_new_accepts, of 10] by simp

text \<open>C2: A cancel of a resting order returns a well-formed book whose queues are the old ones
  without that order, the others in the same order; its slot is the next to be reused.\<close>

theorem book_cancel_refines:
  assumes "wf_book b" and "idmap b oid = Some s"
  shows "\<exists>b'. book_cancel b oid = Inr b' \<and> wf_book b' \<and>
    ladder_of b' = spec_remove oid (ladder_of b) \<and> free_head b' = s \<and> geom_of b' = geom_of b"
  using assms(1) remove_refines_inv(1) [OF _ assms(2)] by (elim wf_bookE)

theorem book_cancel_refines_witness:
  "\<exists>b'. book_cancel demo_book 7 = Inr b' \<and> wf_book b' \<and>
    ladder_of b' = spec_remove 7 (ladder_of demo_book) \<and> free_head b' = 0 \<and>
    geom_of b' = geom_of demo_book"
  by (rule book_cancel_refines [OF demo_book_wf]) (simp add: demo_book_fields)

text \<open>A fill does the same structural work as a cancel.\<close>

theorem book_fill_refines:
  assumes "wf_book b" and "idmap b oid = Some s"
  shows "\<exists>b'. book_fill b oid = Inr b' \<and> wf_book b' \<and>
    ladder_of b' = spec_remove oid (ladder_of b) \<and> free_head b' = s \<and> geom_of b' = geom_of b"
  using assms(1) remove_refines_inv(2) [OF _ assms(2)] by (elim wf_bookE)

theorem book_fill_refines_witness:
  "\<exists>b'. book_fill demo_book 7 = Inr b' \<and> wf_book b' \<and>
    ladder_of b' = spec_remove 7 (ladder_of demo_book) \<and> free_head b' = 0 \<and>
    geom_of b' = geom_of demo_book"
  by (rule book_fill_refines [OF demo_book_wf]) (simp add: demo_book_fields)

text \<open>C3: An update adds the smaller of the given and the remaining quantity (as i64 values)
  to the order's filled quantity and changes nothing else of any queue.\<close>

theorem book_update_refines:
  assumes "wf_book b" and "idmap b oid = Some s"
  shows "\<exists>b'. book_update b oid q = Inr b' \<and> wf_book b' \<and>
    ladder_of b' = spec_update oid q (ladder_of b) \<and> geom_of b' = geom_of b"
  using assms(1) update_refines_inv [OF _ assms(2)] by (elim wf_bookE)

theorem book_update_refines_witness:
  "\<exists>b'. book_update demo_book 7 4 = Inr b' \<and> wf_book b' \<and>
    ladder_of b' = spec_update 7 4 (ladder_of demo_book) \<and> geom_of b' = geom_of demo_book"
  by (rule book_update_refines [OF demo_book_wf]) (simp add: demo_book_fields)





text \<open>The book made from any accepted configuration whose pool handles fit u32 is
  well-formed and empty.\<close>

theorem book_new_wf:
  assumes "from_env env = Inr cfg" and "cfg_cap cfg < 2 ^ 32"
  shows "wf_book (book_new cfg) \<and> ladder_of (book_new cfg) = (\<lambda>_ _. [])"
proof -
  have "unat (cfg_levels cfg) < 2 ^ 31"
    using from_env_checked [OF assms(1)] by (simp add: check_config_Inr)
  then have inv: "book_inv (book_new cfg) (\<lambda>_ _. []) []"
    using assms(2) by (intro book_inv_new)
  moreover have "ladder_of (book_new cfg) = (\<lambda>_ _. [])"
    by (rule ladder_of_eqI [OF book_inv_core [OF inv] refl]) simp_all
  ultimately show ?thesis by (auto simp: wf_book_def)
qed

theorem book_new_wf_witness:
  "\<exists>cfg. from_env (\<lambda>_. None) = Inr cfg \<and> cfg_cap cfg = 262144 \<and> wf_book (book_new cfg)"
proof -
  obtain cfg where cfg: "from_env (\<lambda>_. None) = Inr cfg" "cfg_cap cfg = 262144"
    by (simp add: from_env_def parse_usize_def parse_i64_def parse_usize_allow_zero_def
        check_config_def word_sle_eq Let_def)
  then have "wf_book (book_new cfg)" using book_new_wf [OF cfg(1)] by simp
  with cfg show ?thesis by blast
qed

text \<open>C6: The panics of the operations on a well-formed book: an unknown id stops update, cancel
  and fill; a full pool stops an insert at a price with a tick; a price off the ladder stops
  it after a slot was taken.\<close>

theorem book_panics:
  assumes "wf_book b"
  shows "(idmap b i = None \<longrightarrow>
      book_update b i q = Inl Missing_key \<and> book_cancel b i = Inl Unknown_order \<and>
      book_fill b i = Inl Unknown_order) \<and>
    (card (dom (idmap b)) = length (pool b) \<and> tick_of (price_min b) (tick b) pr = Inr t \<longrightarrow>
      book_insert b i pr q sd = Inl (Pool_exhausted (length (pool b)))) \<and>
    (card (dom (idmap b)) < length (pool b) \<and> tick_of (price_min b) (tick b) pr = Inr t \<and>
      unat (n_levels b) \<le> unat t \<longrightarrow> book_insert b i pr q sd = Inl Index_out_of_bounds) \<and>
    (tick b = 0 \<longrightarrow> book_insert b i pr q sd = Inl Div_by_zero)"
proof -
  obtain Q F where inv: "book_inv b Q F" using assms by (rule wf_bookE)
  note core = book_inv_core [OF inv]
  have "book_insert b i pr q sd = Inl Index_out_of_bounds"
    if "card (dom (idmap b)) < length (pool b)" "tick_of (price_min b) (tick b) pr = Inr t"
      "unat (n_levels b) \<le> unat t"
  proof -
    have room: "has_room b" using room_iff [OF core] that(1) by simp
    obtain s h fh F' where "alloc_slot b = Inr (s, b\<lparr>free_head := fh, hwm := h\<rparr>)"
      by (rule alloc_spec [OF core room])
    moreover have "length (lane b sd) = unat (n_levels b)"
      using core by (simp add: core_inv_def geometry_ok_def lane_def)
    ultimately show ?thesis
      using that by (simp add: book_insert_def get_level_def idx_def)
  qed
  moreover have "book_insert b i pr q sd = Inl Div_by_zero" if "tick b = 0"
    using that by (simp add: book_insert_def tick_of_def div_i64_def)
  ultimately show ?thesis using book_full [OF inv] book_unknown [of b i] by blast
qed

theorem book_panics_witness:
  "book_cancel demo_book 8 = Inl Unknown_order \<and> book_update demo_book 8 1 = Inl Missing_key \<and>
   book_insert demo_book 8 9 1 0 = Inl Index_out_of_bounds"
proof -
  have "tick_of (price_min demo_book) (tick demo_book) 9 = Inr 9"
    by (simp add: demo_book_fields tick_of_def div_i64_def i64_min_def)
  then show ?thesis
    using book_panics [OF demo_book_wf, of 8 1 9 9 0] by (simp add: demo_book_fields)
qed

text \<open>Freed slots are reused last in, first out: the first insert after a cancel takes the
  slot the cancelled order had.\<close>

theorem book_slot_reuse:
  assumes "wf_book b" and "idmap b i = Some s"
    and "book_cancel b i = Inr b1" and "book_insert b1 j pr q sd = Inr b2"
  shows "idmap b2 j = Some s \<and> hwm b2 = hwm b1"
proof -
  obtain Q F where inv: "book_inv b Q F" using assms(1) by (rule wf_bookE)
  have "s \<noteq> NIL"
    using core_inv_id [OF book_inv_core [OF inv], of i s] core_inv_slot [OF book_inv_core [OF inv], of s]
      assms(2) by (simp add: used_slot_def)
  moreover have "free_head b1 = s" using remove_refines_inv(1) [OF inv assms(2)] assms(3) by auto
  ultimately show ?thesis
    using assms(4)
    by (auto simp: book_insert_def alloc_slot_def modify_order_def modify_level_def Let_def
        split: if_splits)
qed

theorem book_slot_reuse_witness:
  "\<exists>b1 b2. book_cancel demo_book 7 = Inr b1 \<and> book_insert b1 9 3 5 1 = Inr b2 \<and>
    idmap b2 9 = Some 0"
proof -
  have id: "idmap demo_book 7 = Some 0" by (simp add: demo_book_fields)
  obtain Q F where inv: "book_inv demo_book Q F" using demo_book_wf by (rule wf_bookE)
  obtain b1 where b1: "book_cancel demo_book 7 = Inr b1" "wf_book b1" "free_head b1 = 0"
    "ladder_of b1 = spec_remove 7 (ladder_of demo_book)" "geom_of b1 = geom_of demo_book"
    using remove_refines_inv(1) [OF inv id] by blast
  obtain Q1 F1 where inv1: "book_inv b1 Q1 F1" using b1(2) by (rule wf_bookE)
  have g: "price_min b1 = 0" "tick b1 = 1" "n_levels b1 = 4"
    using b1(5) by (simp_all add: geom_of_def demo_book_fields)
  have "9 \<notin> dom (idmap b1)"
    using ids_read [OF inv1] ids_read [OF inv]
    by (simp add: g b1(4) spec_remove_ids demo_book_fields)
  then have ok: "can_insert b1 9 3 1" and tk: "tick_of (price_min b1) (tick b1) 3 = Inr 3"
    by (auto simp: can_insert_def has_room_def b1(3) NIL_def g tick_of_def div_i64_def i64_min_def)
  obtain b2 where b2: "book_insert b1 9 3 5 1 = Inr b2"
    using insert_refines_inv [OF inv1 ok tk] by blast
  have "idmap b2 9 = Some 0" using book_slot_reuse [OF demo_book_wf id b1(1) b2] by simp
  with b1(1) b2 show ?thesis by blast
qed

section \<open>The copy-on-write book\<close>

text \<open>C7: The copy-on-write book behaves as the flat book: from any state with a well-formed
  heap, a sequence of operations and captures panics exactly when the flat book does, with
  the same panic, and otherwise ends in the state with the same flat view.\<close>

theorem cow_refines_flat:
  assumes "cow_ok c" and "unat (c_gen c) + length cmds < 2 ^ 64"
  shows "case try_fold cow_exec cmds c of
      Inl e \<Rightarrow> try_fold flat_exec cmds (flat c) = Inl e
    | Inr c' \<Rightarrow> cow_ok c' \<and> try_fold flat_exec cmds (flat c) = Inr (flat c')"
  using cow_exec_flat [OF assms]
  by (cases "try_fold cow_exec cmds c"; cases "try_fold flat_exec cmds (flat c)") auto

lemma demo_cow: "\<exists>c. cow_new demo_cfg = Inr c \<and> cow_ok c \<and> flat c = book_new demo_cfg"
  by (rule cow_new_flat) (simp_all add: demo_cfg_def)

lemma demo_cow_gen: "cow_new demo_cfg = Inr c \<Longrightarrow> c_gen c = 1"
  by (auto simp: cow_new_def Let_def)

theorem cow_refines_flat_witness:
  "\<exists>c c'. cow_new demo_cfg = Inr c \<and> try_fold cow_exec [Cmd_capture, Cmd_insert 7 2 10 0] c = Inr c' \<and>
    flat c' = demo_book"
proof -
  obtain c where c: "cow_new demo_cfg = Inr c" "cow_ok c" "flat c = book_new demo_cfg"
    using demo_cow by blast
  have gen: "unat (c_gen c) + length [Cmd_capture, Cmd_insert 7 2 10 0] < 2 ^ 64"
    by (simp add: demo_cow_gen [OF c(1)])
  have "try_fold flat_exec [Cmd_capture, Cmd_insert 7 2 10 0] (flat c) = Inr demo_book"
    by (simp add: flat_exec_def c(3) demo_book_run)
  then show ?thesis
    using cow_refines_flat [OF c(2) gen] c(1) by (auto split: sum.splits)
qed

text \<open>A new copy-on-write book, for a chunk size above 0, has a well-formed heap and is
  the new flat book.\<close>

theorem cow_new_refines:
  assumes "0 < cfg_chunk cfg" and "cfg_cap cfg < 2 ^ 32"
  shows "\<exists>c. cow_new cfg = Inr c \<and> cow_ok c \<and> flat c = book_new cfg"
  by (rule cow_new_flat [OF assms])

theorem cow_new_refines_witness:
  "\<exists>c. cow_new demo_cfg = Inr c \<and> cow_ok c \<and> flat c = book_new demo_cfg"
  by (rule cow_new_refines) (simp_all add: demo_cfg_def)

text \<open>C8: A captured root is a snapshot. Right after the capture it shows the flat view of the
  book (without the id map), and whatever operations and further captures follow, reading it
  through the heap they leave behind shows the same.\<close>

theorem root_is_frozen:
  assumes "cow_ok c" and "capture c = (r, c1)" and "unat (c_gen c) + Suc (length cmds) < 2 ^ 64"
    and "try_fold cow_exec cmds c1 = Inr c2"
  shows "root_book (order_heap c2) (level_heap c2) r = (flat c)\<lparr>idmap := Map.empty\<rparr>"
proof -
  have gen: "unat (c_gen c) < 2 ^ 64 - 1" using assms(3) by simp
  have r: "r = fst (capture c)" "c1 = snd (capture c)" using assms(2) by simp_all
  have heaps: "order_heap c1 = order_heap c" "level_heap c1 = level_heap c"
    using assms(2) by (auto simp: capture_def)
  have "unat (c_gen c1) \<le> Suc (unat (c_gen c))"
    using gen assms(2) by (auto simp: capture_def unat_word_ariths)
  then have "unat (c_gen c1) + length cmds < 2 ^ 64" using assms(3) by simp
  from cow_exec_trace [OF assms(4) _ _ this] capture_spec [OF assms(1) gen]
  show ?thesis unfolding r [symmetric] heaps by simp
qed

theorem root_is_frozen_witness:
  "\<exists>c r c1 c2. cow_new demo_cfg = Inr c \<and> capture c = (r, c1) \<and>
    try_fold cow_exec [Cmd_insert 7 2 10 0] c1 = Inr c2 \<and> flat c2 = demo_book \<and>
    root_book (order_heap c2) (level_heap c2) r = (book_new demo_cfg)\<lparr>idmap := Map.empty\<rparr>"
proof -
  obtain c where c: "cow_new demo_cfg = Inr c" "cow_ok c" "flat c = book_new demo_cfg"
    using demo_cow by blast
  have g: "c_gen c = 1" by (rule demo_cow_gen [OF c(1)])
  obtain r c1 where r: "capture c = (r, c1)" by (cases "capture c")
  have "cow_ok c1" "flat c1 = book_new demo_cfg"
    using capture_spec(1,2) [OF c(2)] r c(3) g by simp_all
  moreover have "unat (c_gen c1) + length [Cmd_insert 7 2 10 0] < 2 ^ 64"
    using r g by (auto simp: capture_def)
  ultimately have "agree (\<lambda>c b. cow_ok c \<and> flat c = b) (try_fold cow_exec [Cmd_insert 7 2 10 0] c1)
      (Inr demo_book)"
    using cow_exec_flat [of c1 "[Cmd_insert 7 2 10 0]"] by (simp add: flat_exec_def demo_book_run)
  then obtain c2 where c2: "try_fold cow_exec [Cmd_insert 7 2 10 0] c1 = Inr c2" "flat c2 = demo_book"
    by (cases "try_fold cow_exec [Cmd_insert 7 2 10 0] c1") auto
  have "unat (c_gen c) + Suc (length [Cmd_insert 7 2 10 0]) < 2 ^ 64" by (simp add: g)
  from root_is_frozen [OF c(2) r this c2(1)] c r c2 show ?thesis by auto
qed

section \<open>The workload\<close>



text \<open>The timed run on the copy-on-write book and on its flat view agree: they panic alike,
  or end with the same generator state, the same samples and the same flat view.\<close>

theorem churn_cow_equals_flat:
  assumes "cow_ok c"
  shows "case run_churn cow_insert cow_cancel cow_fill ns cfg c ch of
      Inl e \<Rightarrow> run_churn book_insert book_cancel book_fill ns cfg (flat c) ch = Inl e
    | Inr (c', ch', smp) \<Rightarrow> cow_ok c' \<and>
        run_churn book_insert book_cancel book_fill ns cfg (flat c) ch = Inr (flat c', ch', smp)"
proof -
  have "sim c c (flat c)" using assms by (simp add: sim_def)
  from run_churn_agree [OF this, of ns cfg ch] show ?thesis
    by (cases "run_churn cow_insert cow_cancel cow_fill ns cfg c ch";
        cases "run_churn book_insert book_cancel book_fill ns cfg (flat c) ch")
      (auto simp: sim_def)
qed

theorem churn_cow_equals_flat_witness:
  "\<exists>c. cow_new demo_cfg = Inr c \<and>
    (case run_churn cow_insert cow_cancel cow_fill (\<lambda>_. 5) demo_cfg c (churn_new demo_cfg) of
      Inl e \<Rightarrow> run_churn book_insert book_cancel book_fill (\<lambda>_. 5) demo_cfg (book_new demo_cfg)
        (churn_new demo_cfg) = Inl e
    | Inr (c', ch', smp) \<Rightarrow> cow_ok c' \<and>
        run_churn book_insert book_cancel book_fill (\<lambda>_. 5) demo_cfg (book_new demo_cfg)
          (churn_new demo_cfg) = Inr (flat c', ch', smp))"
proof -
  obtain c where c: "cow_new demo_cfg = Inr c" "cow_ok c" "flat c = book_new demo_cfg"
    using demo_cow by blast
  from churn_cow_equals_flat [OF c(2), of "\<lambda>_. 5" demo_cfg "churn_new demo_cfg"] c show ?thesis
    unfolding c(3) by blast
qed

text \<open>C10: A configuration whose steady state is even and equal to the capacity is accepted, but
  the run stops with a full pool at its very first operation.\<close>

theorem churn_full_pool:
  assumes "from_env env = Inr cfg" and "cfg_cap cfg < 2 ^ 32" and "price_grid (geom_of (book_new cfg))"
    and "cfg_steady cfg = cfg_cap cfg" and "even (cfg_steady cfg)"
  shows "\<exists>b1 ch1.
    churn_prebuild book_insert book_cancel book_fill (cfg_steady cfg) (book_new cfg, churn_new cfg) =
      Inr (b1, ch1) \<and>
    run_churn book_insert book_cancel book_fill ns cfg b1 ch1 = Inl (Pool_exhausted (cfg_cap cfg))"
proof -
  have "unat (cfg_levels cfg) < 2 ^ 31"
    using from_env_checked [OF assms(1)] by (simp add: check_config_Inr)
  then have inv: "book_inv (book_new cfg) (\<lambda>_ _. []) []" using assms(2) by (intro book_inv_new)
  have wf: "wf_book (book_new cfg)" using inv by (auto simp: wf_book_def)
  have "ladder_ids (unat (n_levels (book_new cfg))) (ladder_of (book_new cfg)) = {}"
    using ids_read [OF inv] by (simp add: book_new_def)
  then have known: "churn_known (geom_of (book_new cfg)) (churn_new cfg) (ladder_of (book_new cfg))"
    by (simp add: churn_known_def known_ids_def churn_new_def geom_of_def) (simp add: book_new_def)
  have cap: "g_capacity (geom_of (book_new cfg)) = cfg_cap cfg" by (simp add: geom_of_def book_new_def)
  obtain b1 ch1 where pre:
    "churn_prebuild book_insert book_cancel book_fill (cfg_steady cfg) (book_new cfg, churn_new cfg) =
      Inr (b1, ch1)" "wf_book b1" "geom_of b1 = geom_of (book_new cfg)"
    "churn_known (geom_of b1) ch1 (ladder_of b1)" "length (ch_live ch1) = cfg_cap cfg"
    "ch_i ch1 = cfg_cap cfg"
    using flat_store.churn_prebuild_run [OF wf known assms(3), of "cfg_steady cfg"] assms(2,4) cap
    by (auto simp: churn_new_def)
  obtain n where n: "cfg_warmup cfg = Suc n"
    using from_env_checked [OF assms(1)] by (cases "cfg_warmup cfg") auto
  have "churn_warmup book_insert book_cancel book_fill (Suc n) (b1, ch1) =
      Inl (Pool_exhausted (g_capacity (geom_of b1)))"
    using pre assms cap by (intro flat_store.churn_exhausted) simp_all
  with pre cap n show ?thesis by (auto simp: run_churn_def)
qed

definition full_env :: "string \<Rightarrow> string option" where
  "full_env key = (if key = ''SMRC_CAP'' \<or> key = ''SMRC_STEADY'' then Some ''6''
     else if key = ''SMRC_CHUNK'' then Some ''2'' else None)"

theorem churn_full_pool_witness:
  "\<exists>cfg b1 ch1. from_env full_env = Inr cfg \<and> cfg_steady cfg = 6 \<and>
    churn_prebuild book_insert book_cancel book_fill 6 (book_new cfg, churn_new cfg) = Inr (b1, ch1) \<and>
    run_churn book_insert book_cancel book_fill (\<lambda>_. 0) cfg b1 ch1 = Inl (Pool_exhausted 6)"
proof -
  obtain cfg where cfg: "from_env full_env = Inr cfg" "cfg_cap cfg = 6" "cfg_steady cfg = 6"
    "cfg_levels cfg = 1024" "cfg_tick cfg = 1" "cfg_price_min cfg = 0"
    by (simp add: from_env_def parse_usize_def parse_i64_def parse_usize_allow_zero_def
      check_config_def word_sle_eq Let_def full_env_def trim_def is_space_def parse_u64_str_def
      digit_value_def)
  have "price_grid (geom_of (book_new cfg))"
    by (simp add: price_grid_def geom_of_def book_new_def cfg word_sless_alt)
  then show ?thesis
    using churn_full_pool [OF cfg(1), of "\<lambda>_. 0"] cfg by auto
qed

text \<open>The generator's first output for the fixed seed is the value the Rust, Go and Java
  suites pin.\<close>

theorem splitmix_golden:
  "fst (splitmix_next SEED) = 0x161922c645ce50e8 \<and> snd (splitmix_next SEED) = SEED + 0x9E3779B97F4A7C15"
  by (simp add: splitmix_next_def splitmix_mix_def SEED_def Let_def)

text \<open>On a ladder with at least one level, the i-th generated insert has id i + 1, a side, a
  quantity from 1 to 1000 and a price a whole number of ticks, below the number of levels,
  above the minimum; when the ladder's prices fit i64 the book finds exactly that level.\<close>

theorem next_insert_on_grid:
  assumes "price_grid g"
  shows "\<exists>r t rng'. next_insert rng i (g_levels g) (g_tick g) (g_price_min g) = Inr (r, rng') \<and>
    ins_order_id r = of_nat i + 1 \<and> is_side (ins_side r) \<and>
    0 < unat (ins_qty r) \<and> unat (ins_qty r) \<le> 1000 \<and>
    unat t < unat (g_levels g) \<and> ins_price r = g_price_min g + t * g_tick g \<and>
    tick_of (g_price_min g) (g_tick g) (ins_price r) = Inr (ucast t)"
  using next_insert_spec [of "g_levels g" rng i "g_tick g" "g_price_min g"] tick_of_grid [OF assms] assms
  by (auto simp: price_grid_def is_side_def)

theorem next_insert_on_grid_witness:
  "\<exists>r rng'. next_insert SEED 0 4 1 100 = Inr (r, rng') \<and> ins_order_id r = 1 \<and> is_side (ins_side r)"
proof -
  have "price_grid \<lparr>g_price_min = 100, g_tick = 1, g_levels = 4, g_capacity = 3\<rparr>"
    by (simp add: price_grid_def word_sless_alt)
  from next_insert_on_grid [OF this, of SEED 0] show ?thesis by auto
qed

text \<open>Every configuration the environment parser accepts passes all range checks: a positive
  tick, 1 to 65535 levels, a steady state within the capacity and 65535, at most 10000 basis
  points, a chunk within the capacity, a batch within the iterations, and no zero among the
  sizes that must be positive.\<close>

theorem from_env_in_range:
  assumes "from_env env = Inr cfg"
  shows "0 <s cfg_tick cfg \<and> 0 < unat (cfg_levels cfg) \<and> unat (cfg_levels cfg) \<le> 65535 \<and>
    0 < cfg_steady cfg \<and> cfg_steady cfg \<le> cfg_cap cfg \<and> cfg_steady cfg \<le> 65535 \<and>
    unat (cfg_otr_bps cfg) \<le> 10000 \<and> 0 < cfg_chunk cfg \<and> cfg_chunk cfg \<le> cfg_cap cfg \<and>
    0 < cfg_apply_batch cfg \<and> cfg_apply_batch cfg \<le> cfg_iters cfg \<and>
    cfg_snap_every cfg \<le> cfg_live_iters cfg \<and> 0 < cfg_warmup cfg"
  using from_env_checked [OF assms] by (auto simp: check_config_Inr)

theorem from_env_in_range_witness:
  "\<exists>cfg. from_env (\<lambda>_. None) = Inr cfg \<and> 0 < cfg_steady cfg \<and> unat (cfg_levels cfg) \<le> 65535"
proof -
  obtain cfg where cfg: "from_env (\<lambda>_. None) = Inr cfg" by (rule default_config)
  from from_env_in_range [OF cfg] cfg show ?thesis by blast
qed

text \<open>C19: The number of levels is truncated to 32 bits before its range is checked, so a setting
  of 2^32 + 1 levels is accepted as one level.\<close>

definition wrap_env :: "string \<Rightarrow> string option" where
  "wrap_env key = (if key = ''SMRC_LEVELS'' then Some ''4294967297'' else None)"

theorem from_env_levels_wrap:
  "\<exists>cfg. from_env wrap_env = Inr cfg \<and> cfg_levels cfg = 1"
  by (simp add: from_env_def parse_usize_def parse_i64_def parse_usize_allow_zero_def
      check_config_def word_sle_eq Let_def wrap_env_def trim_def is_space_def parse_u64_str_def
      digit_value_def)

end
