(* ===== verification/Sbe.thy ===== *)
theory Sbe
  imports Prelude
begin

text \<open>
  The buffers of the generated SBE codec
  (rust/smr-collections/booksnap-sbe/generated/booksnap/src/lib.rs): bounds-checked reads
  and writes of little-endian fields, and its error value. A slice range whose end wraps or
  lies behind the buffer stops the program.
\<close>

datatype sbe_err = Parent_not_set

text \<open>\<open>expect\<close> and \<open>unwrap\<close> on the codec's results.\<close>

fun expect_sbe :: "sbe_err + 'a \<Rightarrow> panic + 'a" where
  "expect_sbe (Inl _) = Inl Parent_missing"
| "expect_sbe (Inr x) = Inr x"

fun expect_some :: "panic \<Rightarrow> 'a option \<Rightarrow> panic + 'a" where
  "expect_some e None = Inl e"
| "expect_some e (Some x) = Inr x"

definition put_bytes_at :: "u8 list \<Rightarrow> usize \<Rightarrow> u8 list \<Rightarrow> panic + u8 list" where
  "put_bytes_at data i bs =
     (let e = usize_add i (length bs) in
      if i \<le> e \<and> e \<le> length data then Inr (take i data @ bs @ drop e data)
      else Inl Index_out_of_bounds)"

definition put_u8_at :: "u8 list \<Rightarrow> usize \<Rightarrow> u8 \<Rightarrow> panic + u8 list" where
  "put_u8_at data i v = idx_set data i v"

definition put_u16_at :: "u8 list \<Rightarrow> usize \<Rightarrow> u16 \<Rightarrow> panic + u8 list" where
  "put_u16_at data i v = put_bytes_at data i (le_bytes 2 (unat v))"

definition put_u32_at :: "u8 list \<Rightarrow> usize \<Rightarrow> u32 \<Rightarrow> panic + u8 list" where
  "put_u32_at data i v = put_bytes_at data i (le_bytes 4 (unat v))"

definition put_i32_at :: "u8 list \<Rightarrow> usize \<Rightarrow> i32 \<Rightarrow> panic + u8 list" where
  "put_i32_at data i v = put_bytes_at data i (le_bytes 4 (unat v))"

definition put_i64_at :: "u8 list \<Rightarrow> usize \<Rightarrow> i64 \<Rightarrow> panic + u8 list" where
  "put_i64_at data i v = put_bytes_at data i (le_bytes 8 (unat v))"

definition get_bytes_at :: "nat \<Rightarrow> u8 list \<Rightarrow> usize \<Rightarrow> panic + u8 list" where
  "get_bytes_at n data i =
     (let e = usize_add i n in
      if i \<le> e \<and> e \<le> length data then Inr (take n (drop i data))
      else Inl Index_out_of_bounds)"

definition get_u8_at :: "u8 list \<Rightarrow> usize \<Rightarrow> panic + u8" where
  "get_u8_at data i = idx data i"

definition get_u16_at :: "u8 list \<Rightarrow> usize \<Rightarrow> panic + u16" where
  "get_u16_at data i = and_then (get_bytes_at 2 data i) (\<lambda>bs. Inr (of_nat (le_value bs)))"

definition get_u32_at :: "u8 list \<Rightarrow> usize \<Rightarrow> panic + u32" where
  "get_u32_at data i = and_then (get_bytes_at 4 data i) (\<lambda>bs. Inr (of_nat (le_value bs)))"

definition get_i32_at :: "u8 list \<Rightarrow> usize \<Rightarrow> panic + i32" where
  "get_i32_at data i = and_then (get_bytes_at 4 data i) (\<lambda>bs. Inr (of_nat (le_value bs)))"

definition get_i64_at :: "u8 list \<Rightarrow> usize \<Rightarrow> panic + i64" where
  "get_i64_at data i = and_then (get_bytes_at 8 data i) (\<lambda>bs. Inr (of_nat (le_value bs)))"

section \<open>Writing at the end of what is written\<close>

text \<open>
  The codec writes its fields in the order of their offsets, so every write appends to a
  prefix: \<open>written buf pre n\<close> says that \<open>buf\<close> starts with \<open>pre\<close> and has \<open>n\<close> bytes in all.
\<close>

definition written :: "u8 list \<Rightarrow> u8 list \<Rightarrow> nat \<Rightarrow> bool" where
  "written buf pre n \<longleftrightarrow> length buf = n \<and> take (length pre) buf = pre"

lemma written_prefix: "written buf pre n \<longleftrightarrow> length buf = n \<and> (\<exists>rest. buf = pre @ rest)"
proof
  assume "written buf pre n"
  then have "length buf = n" "buf = pre @ drop (length pre) buf"
    unfolding written_def by (simp, metis append_take_drop_id)
  then show "length buf = n \<and> (\<exists>rest. buf = pre @ rest)" by blast
qed (auto simp: written_def)

definition room_for :: "nat \<Rightarrow> u8 list \<Rightarrow> nat \<Rightarrow> bool" where
  "room_for k pre n \<longleftrightarrow> length pre + k \<le> n \<and> n < 2 ^ 64"

lemma put_bytes_append:
  assumes "written buf pre n" and "i = length pre" and "room_for (length bs) pre n"
  shows "\<exists>buf'. put_bytes_at buf i bs = Inr buf' \<and> written buf' (pre @ bs) n \<and>
    drop (length pre + length bs) buf' = drop (length pre + length bs) buf"
proof -
  have e: "usize_add i (length bs) = length pre + length bs"
    using assms by (simp add: room_for_def)
  have n: "length buf = n" and pre: "take (length pre) buf = pre"
    using assms(1) by (simp_all add: written_def)
  have "put_bytes_at buf i bs = Inr (pre @ bs @ drop (length pre + length bs) buf)"
    using assms(2,3) n pre e by (simp add: put_bytes_at_def room_for_def Let_def)
  moreover have "written (pre @ bs @ drop (length pre + length bs) buf) (pre @ bs) n"
    using assms(3) n by (simp add: written_def room_for_def)
  ultimately show ?thesis by simp
qed

lemma put_u8_append:
  assumes "written buf pre n" and "i = length pre" and "room_for 1 pre n"
  shows "\<exists>buf'. put_u8_at buf i v = Inr buf' \<and> written buf' (pre @ [v]) n \<and>
    drop (length pre + 1) buf' = drop (length pre + 1) buf"
proof -
  obtain rest where buf: "buf = pre @ rest" and n: "length buf = n"
    using assms(1) by (auto simp: written_prefix)
  with assms(3) obtain r rest' where rest: "rest = r # rest'" by (cases rest) (auto simp: room_for_def)
  have "put_u8_at buf i v = Inr (pre @ v # rest')"
    using assms(2) by (simp add: put_u8_at_def idx_simps buf rest)
  moreover have "written (pre @ v # rest') (pre @ [v]) n" using n by (simp add: written_def buf rest)
  ultimately show ?thesis by (simp add: buf rest)
qed

section \<open>Reading what was written\<close>

lemma get_bytes_mid:
  assumes "i = length pre" and "n = length bs" and "length (pre @ bs @ rest) < 2 ^ 64"
  shows "get_bytes_at n (pre @ bs @ rest) i = Inr bs"
proof -
  have "usize_add i n = length pre + length bs" using assms by simp
  then show ?thesis using assms(1,2) by (simp add: get_bytes_at_def Let_def)
qed

lemma of_nat_le_value_u16: "(of_nat (le_value (le_bytes 2 (unat v))) :: u16) = v"
  unfolding le_value_le_bytes
  using unsigned_less [of v, where 'a = nat] by (simp add: mod_less)

lemma of_nat_le_value_u32: "(of_nat (le_value (le_bytes 4 (unat v))) :: u32) = v"
  unfolding le_value_le_bytes using unat_u32_bound [of v] by (simp add: mod_less)

lemma of_nat_le_value_u64: "(of_nat (le_value (le_bytes 8 (unat v))) :: u64) = v"
  unfolding le_value_le_bytes
  using unsigned_less [of v, where 'a = nat] by (simp add: mod_less)

lemma get_field_u16:
  "i = length pre \<Longrightarrow> length (pre @ le_bytes 2 (unat v) @ rest) < 2 ^ 64 \<Longrightarrow>
   get_u16_at (pre @ le_bytes 2 (unat v) @ rest) i = Inr v"
  using get_bytes_mid [of i pre 2 "le_bytes 2 (unat v)" rest]
  by (simp add: get_u16_at_def of_nat_le_value_u16 del: of_nat_mod)

lemma get_field_u32:
  "i = length pre \<Longrightarrow> length (pre @ le_bytes 4 (unat v) @ rest) < 2 ^ 64 \<Longrightarrow>
   get_u32_at (pre @ le_bytes 4 (unat v) @ rest) i = Inr v \<and>
   get_i32_at (pre @ le_bytes 4 (unat v) @ rest) i = Inr v"
  using get_bytes_mid [of i pre 4 "le_bytes 4 (unat v)" rest]
  by (simp add: get_u32_at_def get_i32_at_def of_nat_le_value_u32)

lemma get_field_i64:
  "i = length pre \<Longrightarrow> length (pre @ le_bytes 8 (unat v) @ rest) < 2 ^ 64 \<Longrightarrow>
   get_i64_at (pre @ le_bytes 8 (unat v) @ rest) i = Inr v"
  using get_bytes_mid [of i pre 8 "le_bytes 8 (unat v)" rest]
  by (simp add: get_i64_at_def of_nat_le_value_u64)

lemma get_field_u8:
  "i = length pre \<Longrightarrow> get_u8_at (pre @ v # rest) i = Inr v"
  by (simp add: get_u8_at_def idx_simps)

end
