(* ===== verification/Book_Sbe.thy ===== *)
theory Book_Sbe
  imports Sbe
begin

text \<open>
  The generated codec of the book snapshot (message_header_codec.rs, book_snapshot_codec.rs
  and side.rs of rust/smr-collections/booksnap-sbe): the message header, the root block and
  the two repeating groups, encoder and decoder. A group encoder holds the root encoder as
  its parent until \<open>parent()\<close> takes it back; the two groups have the same fields and differ
  in block length and columns.
\<close>

section \<open>\<open>Side\<close>\<close>

datatype sbe_side = BID | ASK | Side_null

definition side_of_u8 :: "u8 \<Rightarrow> sbe_side" where
  "side_of_u8 v = (if v = 0 then BID else if v = 1 then ASK else Side_null)"

fun u8_of_side :: "sbe_side \<Rightarrow> u8" where
  "u8_of_side BID = 0"
| "u8_of_side ASK = 1"
| "u8_of_side Side_null = 0xFF"

definition side_of_str :: "string \<Rightarrow> sbe_side" where
  "side_of_str v = (if v = ''BID'' then BID else if v = ''ASK'' then ASK else Side_null)"

section \<open>The root encoder\<close>

record bs_enc =
  e_buf :: "u8 list"
  e_initial_offset :: usize
  e_offset :: usize
  e_limit :: usize

definition SBE_SCHEMA_ID :: u16 where "SBE_SCHEMA_ID = 8"
definition SBE_SCHEMA_VERSION :: u16 where "SBE_SCHEMA_VERSION = 2"
definition SBE_BLOCK_LENGTH :: u16 where "SBE_BLOCK_LENGTH = 40"
definition SBE_TEMPLATE_ID :: u16 where "SBE_TEMPLATE_ID = 1"
definition ENCODED_LENGTH :: usize where "ENCODED_LENGTH = 8"

definition bs_enc_wrap :: "u8 list \<Rightarrow> usize \<Rightarrow> bs_enc" where
  "bs_enc_wrap buf off =
     \<lparr>e_buf = buf, e_initial_offset = off, e_offset = off,
      e_limit = usize_add off (unat SBE_BLOCK_LENGTH)\<rparr>"

definition bs_encoded_length :: "bs_enc \<Rightarrow> usize" where
  "bs_encoded_length e = e_limit e - e_offset e"

definition e_put :: "(u8 list \<Rightarrow> usize \<Rightarrow> 'v \<Rightarrow> panic + u8 list) \<Rightarrow> bs_enc \<Rightarrow> usize \<Rightarrow> 'v \<Rightarrow> panic + bs_enc" where
  "e_put put e off v = and_then (put (e_buf e) off v) (\<lambda>d. Inr (e\<lparr>e_buf := d\<rparr>))"

definition bs_price_min :: "i64 \<Rightarrow> bs_enc \<Rightarrow> panic + bs_enc" where
  "bs_price_min v e = e_put put_i64_at e (e_offset e) v"

definition bs_tick_size :: "i64 \<Rightarrow> bs_enc \<Rightarrow> panic + bs_enc" where
  "bs_tick_size v e = e_put put_i64_at e (usize_add (e_offset e) 8) v"

definition bs_nl_evels :: "u32 \<Rightarrow> bs_enc \<Rightarrow> panic + bs_enc" where
  "bs_nl_evels v e = e_put put_u32_at e (usize_add (e_offset e) 16) v"

definition bs_capacity :: "u32 \<Rightarrow> bs_enc \<Rightarrow> panic + bs_enc" where
  "bs_capacity v e = e_put put_u32_at e (usize_add (e_offset e) 20) v"

definition bs_hwm :: "u32 \<Rightarrow> bs_enc \<Rightarrow> panic + bs_enc" where
  "bs_hwm v e = e_put put_u32_at e (usize_add (e_offset e) 24) v"

definition bs_best_bid :: "i32 \<Rightarrow> bs_enc \<Rightarrow> panic + bs_enc" where
  "bs_best_bid v e = e_put put_i32_at e (usize_add (e_offset e) 28) v"

definition bs_best_ask :: "i32 \<Rightarrow> bs_enc \<Rightarrow> panic + bs_enc" where
  "bs_best_ask v e = e_put put_i32_at e (usize_add (e_offset e) 32) v"

definition bs_free_head :: "u32 \<Rightarrow> bs_enc \<Rightarrow> panic + bs_enc" where
  "bs_free_head v e = e_put put_u32_at e (usize_add (e_offset e) 36) v"

section \<open>Encoders with a parent\<close>

record header_enc =
  he_parent :: "bs_enc option"
  he_offset :: usize

record group_enc =
  ge_parent :: "bs_enc option"
  ge_count :: u16
  ge_index :: usize
  ge_offset :: usize
  ge_initial_limit :: usize

definition USIZE_MAX :: usize where "USIZE_MAX = 2 ^ 64 - 1"

definition he_put :: "header_enc \<Rightarrow> usize \<Rightarrow> u16 \<Rightarrow> panic + header_enc" where
  "he_put h off v =
     (case he_parent h of
        None \<Rightarrow> Inl Parent_missing
      | Some p \<Rightarrow> and_then (e_put put_u16_at p off v) (\<lambda>p. Inr (h\<lparr>he_parent := Some p\<rparr>)))"

definition h_wrap :: "bs_enc \<Rightarrow> usize \<Rightarrow> header_enc" where
  "h_wrap p off = \<lparr>he_parent = Some p, he_offset = off\<rparr>"

definition h_block_length :: "u16 \<Rightarrow> header_enc \<Rightarrow> panic + header_enc" where
  "h_block_length v h = he_put h (he_offset h) v"

definition h_template_id :: "u16 \<Rightarrow> header_enc \<Rightarrow> panic + header_enc" where
  "h_template_id v h = he_put h (usize_add (he_offset h) 2) v"

definition h_schema_id :: "u16 \<Rightarrow> header_enc \<Rightarrow> panic + header_enc" where
  "h_schema_id v h = he_put h (usize_add (he_offset h) 4) v"

definition h_version :: "u16 \<Rightarrow> header_enc \<Rightarrow> panic + header_enc" where
  "h_version v h = he_put h (usize_add (he_offset h) 6) v"

definition h_parent :: "header_enc \<Rightarrow> sbe_err + bs_enc" where
  "h_parent h = (case he_parent h of None \<Rightarrow> Inl Parent_not_set | Some p \<Rightarrow> Inr p)"

definition bs_header :: "bs_enc \<Rightarrow> usize \<Rightarrow> panic + header_enc" where
  "bs_header e off =
     and_then (h_block_length SBE_BLOCK_LENGTH (h_wrap e off)) (\<lambda>h.
     and_then (h_template_id SBE_TEMPLATE_ID h) (\<lambda>h.
     and_then (h_schema_id SBE_SCHEMA_ID h) (\<lambda>h.
     h_version SBE_SCHEMA_VERSION h)))"

definition LEVELS_BLOCK :: u16 where "LEVELS_BLOCK = 25"
definition ORDERS_BLOCK :: u16 where "ORDERS_BLOCK = 45"

definition group_wrap :: "u16 \<Rightarrow> bs_enc \<Rightarrow> u16 \<Rightarrow> panic + group_enc" where
  "group_wrap block p count =
     (let lim = e_limit p; p = p\<lparr>e_limit := usize_add lim 4\<rparr> in
      and_then (e_put put_u16_at p lim block) (\<lambda>p.
      and_then (e_put put_u16_at p (usize_add lim 2) count) (\<lambda>p.
      Inr \<lparr>ge_parent = Some p, ge_count = count, ge_index = USIZE_MAX,
           ge_offset = USIZE_MAX, ge_initial_limit = lim\<rparr>)))"

definition levels_encoder :: "bs_enc \<Rightarrow> u16 \<Rightarrow> panic + group_enc" where
  "levels_encoder e count = group_wrap LEVELS_BLOCK e count"

definition orders_encoder :: "bs_enc \<Rightarrow> u16 \<Rightarrow> panic + group_enc" where
  "orders_encoder e count = group_wrap ORDERS_BLOCK e count"

definition group_parent :: "group_enc \<Rightarrow> sbe_err + bs_enc" where
  "group_parent g = (case ge_parent g of None \<Rightarrow> Inl Parent_not_set | Some p \<Rightarrow> Inr p)"

definition group_get_limit :: "group_enc \<Rightarrow> panic + usize" where
  "group_get_limit g = (case ge_parent g of None \<Rightarrow> Inl Parent_missing | Some p \<Rightarrow> Inr (e_limit p))"

text \<open>
  \<open>advance\<close>: past the announced count it returns \<open>None\<close> and leaves the offset where it was.
\<close>

definition group_advance :: "u16 \<Rightarrow> group_enc \<Rightarrow> sbe_err + usize option \<times> group_enc" where
  "group_advance block g =
     (let i = usize_add (ge_index g) 1 in
      if unat (ge_count g) \<le> i then Inr (None, g)
      else case ge_parent g of
          None \<Rightarrow> Inl Parent_not_set
        | Some p \<Rightarrow>
            let off = e_limit p in
            Inr (Some i, g\<lparr>ge_offset := off, ge_index := i,
              ge_parent := Some (p\<lparr>e_limit := usize_add off (unat block)\<rparr>)\<rparr>))"

definition ge_put :: "(u8 list \<Rightarrow> usize \<Rightarrow> 'v \<Rightarrow> panic + u8 list) \<Rightarrow> usize \<Rightarrow> 'v \<Rightarrow> group_enc \<Rightarrow> panic + group_enc" where
  "ge_put put off v g =
     (case ge_parent g of
        None \<Rightarrow> Inl Parent_missing
      | Some p \<Rightarrow> and_then (e_put put p off v) (\<lambda>p. Inr (g\<lparr>ge_parent := Some p\<rparr>)))"

section \<open>Columns of the groups\<close>

definition lg_side :: "sbe_side \<Rightarrow> group_enc \<Rightarrow> panic + group_enc" where
  "lg_side v g = ge_put put_u8_at (ge_offset g) (u8_of_side v) g"

definition lg_level_tick :: "u32 \<Rightarrow> group_enc \<Rightarrow> panic + group_enc" where
  "lg_level_tick v g = ge_put put_u32_at (usize_add (ge_offset g) 1) v g"

definition lg_qty_total :: "i64 \<Rightarrow> group_enc \<Rightarrow> panic + group_enc" where
  "lg_qty_total v g = ge_put put_i64_at (usize_add (ge_offset g) 5) v g"

definition lg_order_count :: "u32 \<Rightarrow> group_enc \<Rightarrow> panic + group_enc" where
  "lg_order_count v g = ge_put put_u32_at (usize_add (ge_offset g) 13) v g"

definition lg_head :: "u32 \<Rightarrow> group_enc \<Rightarrow> panic + group_enc" where
  "lg_head v g = ge_put put_u32_at (usize_add (ge_offset g) 17) v g"

definition lg_tail :: "u32 \<Rightarrow> group_enc \<Rightarrow> panic + group_enc" where
  "lg_tail v g = ge_put put_u32_at (usize_add (ge_offset g) 21) v g"

definition og_slot :: "u32 \<Rightarrow> group_enc \<Rightarrow> panic + group_enc" where
  "og_slot v g = ge_put put_u32_at (ge_offset g) v g"

definition og_order_id :: "i64 \<Rightarrow> group_enc \<Rightarrow> panic + group_enc" where
  "og_order_id v g = ge_put put_i64_at (usize_add (ge_offset g) 4) v g"

definition og_price :: "i64 \<Rightarrow> group_enc \<Rightarrow> panic + group_enc" where
  "og_price v g = ge_put put_i64_at (usize_add (ge_offset g) 12) v g"

definition og_qty :: "i64 \<Rightarrow> group_enc \<Rightarrow> panic + group_enc" where
  "og_qty v g = ge_put put_i64_at (usize_add (ge_offset g) 20) v g"

definition og_filled :: "i64 \<Rightarrow> group_enc \<Rightarrow> panic + group_enc" where
  "og_filled v g = ge_put put_i64_at (usize_add (ge_offset g) 28) v g"

definition og_side :: "sbe_side \<Rightarrow> group_enc \<Rightarrow> panic + group_enc" where
  "og_side v g = ge_put put_u8_at (usize_add (ge_offset g) 36) (u8_of_side v) g"

definition og_next_slot :: "u32 \<Rightarrow> group_enc \<Rightarrow> panic + group_enc" where
  "og_next_slot v g = ge_put put_u32_at (usize_add (ge_offset g) 37) v g"

definition og_prev :: "u32 \<Rightarrow> group_enc \<Rightarrow> panic + group_enc" where
  "og_prev v g = ge_put put_u32_at (usize_add (ge_offset g) 41) v g"

section \<open>The decoder\<close>

record bs_dec =
  d_buf :: "u8 list"
  d_initial_offset :: usize
  d_offset :: usize
  d_limit :: usize
  d_acting_block_length :: u16
  d_acting_version :: u16

record header_dec =
  hd_parent :: "(u8 list) option"
  hd_offset :: usize

record group_dec =
  gd_parent :: "bs_dec option"
  gd_block_length :: u16
  gd_count :: u16
  gd_index :: usize
  gd_offset :: usize

definition hd_wrap :: "u8 list \<Rightarrow> usize \<Rightarrow> header_dec" where
  "hd_wrap buf off = \<lparr>hd_parent = Some buf, hd_offset = off\<rparr>"

definition hd_get :: "header_dec \<Rightarrow> usize \<Rightarrow> panic + u16" where
  "hd_get h off =
     (case hd_parent h of None \<Rightarrow> Inl Parent_missing | Some buf \<Rightarrow> get_u16_at buf off)"

definition hd_block_length :: "header_dec \<Rightarrow> panic + u16" where
  "hd_block_length h = hd_get h (hd_offset h)"

definition hd_template_id :: "header_dec \<Rightarrow> panic + u16" where
  "hd_template_id h = hd_get h (usize_add (hd_offset h) 2)"

definition hd_schema_id :: "header_dec \<Rightarrow> panic + u16" where
  "hd_schema_id h = hd_get h (usize_add (hd_offset h) 4)"

definition hd_version :: "header_dec \<Rightarrow> panic + u16" where
  "hd_version h = hd_get h (usize_add (hd_offset h) 6)"

definition bs_dec_wrap :: "u8 list \<Rightarrow> usize \<Rightarrow> u16 \<Rightarrow> u16 \<Rightarrow> bs_dec" where
  "bs_dec_wrap buf off bl ver =
     \<lparr>d_buf = buf, d_initial_offset = off, d_offset = off, d_limit = usize_add off (unat bl),
      d_acting_block_length = bl, d_acting_version = ver\<rparr>"

text \<open>The debug assertion on the template id is not part of a release build.\<close>

definition bs_dec_header :: "header_dec \<Rightarrow> usize \<Rightarrow> panic + bs_dec" where
  "bs_dec_header h off =
     and_then (hd_block_length h) (\<lambda>bl.
     and_then (hd_version h) (\<lambda>ver.
     and_then (case hd_parent h of None \<Rightarrow> Inl Parent_missing | Some buf \<Rightarrow> Inr buf) (\<lambda>buf.
     Inr (bs_dec_wrap buf (usize_add off ENCODED_LENGTH) bl ver))))"

definition ds_price_min :: "bs_dec \<Rightarrow> panic + i64" where
  "ds_price_min d = get_i64_at (d_buf d) (d_offset d)"

definition ds_tick_size :: "bs_dec \<Rightarrow> panic + i64" where
  "ds_tick_size d = get_i64_at (d_buf d) (usize_add (d_offset d) 8)"

definition ds_nl_evels :: "bs_dec \<Rightarrow> panic + u32" where
  "ds_nl_evels d = get_u32_at (d_buf d) (usize_add (d_offset d) 16)"

definition ds_capacity :: "bs_dec \<Rightarrow> panic + u32" where
  "ds_capacity d = get_u32_at (d_buf d) (usize_add (d_offset d) 20)"

definition ds_hwm :: "bs_dec \<Rightarrow> panic + u32" where
  "ds_hwm d = get_u32_at (d_buf d) (usize_add (d_offset d) 24)"

definition ds_best_bid :: "bs_dec \<Rightarrow> panic + i32" where
  "ds_best_bid d = get_i32_at (d_buf d) (usize_add (d_offset d) 28)"

definition ds_best_ask :: "bs_dec \<Rightarrow> panic + i32" where
  "ds_best_ask d = get_i32_at (d_buf d) (usize_add (d_offset d) 32)"

definition ds_free_head :: "bs_dec \<Rightarrow> panic + u32" where
  "ds_free_head d = get_u32_at (d_buf d) (usize_add (d_offset d) 36)"

definition group_dec_wrap :: "bs_dec \<Rightarrow> panic + group_dec" where
  "group_dec_wrap p =
     (let off = d_limit p in
      and_then (get_u16_at (d_buf p) off) (\<lambda>bl.
      and_then (get_u16_at (d_buf p) (usize_add off 2)) (\<lambda>count.
      Inr \<lparr>gd_parent = Some (p\<lparr>d_limit := usize_add off 4\<rparr>), gd_block_length = bl,
           gd_count = count, gd_index = USIZE_MAX, gd_offset = 0\<rparr>)))"

definition levels_decoder :: "bs_dec \<Rightarrow> panic + group_dec" where
  "levels_decoder d = group_dec_wrap d"

definition orders_decoder :: "bs_dec \<Rightarrow> panic + group_dec" where
  "orders_decoder d = group_dec_wrap d"

definition group_dec_parent :: "group_dec \<Rightarrow> sbe_err + bs_dec" where
  "group_dec_parent g = (case gd_parent g of None \<Rightarrow> Inl Parent_not_set | Some p \<Rightarrow> Inr p)"

definition group_dec_advance :: "group_dec \<Rightarrow> sbe_err + usize option \<times> group_dec" where
  "group_dec_advance g =
     (let i = usize_add (gd_index g) 1 in
      if unat (gd_count g) \<le> i then Inr (None, g)
      else case gd_parent g of
          None \<Rightarrow> Inl Parent_not_set
        | Some p \<Rightarrow>
            let off = d_limit p in
            Inr (Some i, g\<lparr>gd_offset := off, gd_index := i,
              gd_parent := Some (p\<lparr>d_limit := usize_add off (unat (gd_block_length g))\<rparr>)\<rparr>))"

definition gd_get :: "(u8 list \<Rightarrow> usize \<Rightarrow> panic + 'v) \<Rightarrow> usize \<Rightarrow> group_dec \<Rightarrow> panic + 'v" where
  "gd_get get off g =
     (case gd_parent g of None \<Rightarrow> Inl Parent_missing | Some p \<Rightarrow> get (d_buf p) off)"

definition ld_side :: "group_dec \<Rightarrow> panic + sbe_side" where
  "ld_side g = and_then (gd_get get_u8_at (gd_offset g) g) (\<lambda>v. Inr (side_of_u8 v))"

definition ld_level_tick :: "group_dec \<Rightarrow> panic + u32" where
  "ld_level_tick g = gd_get get_u32_at (usize_add (gd_offset g) 1) g"

definition ld_qty_total :: "group_dec \<Rightarrow> panic + i64" where
  "ld_qty_total g = gd_get get_i64_at (usize_add (gd_offset g) 5) g"

definition ld_order_count :: "group_dec \<Rightarrow> panic + u32" where
  "ld_order_count g = gd_get get_u32_at (usize_add (gd_offset g) 13) g"

definition ld_head :: "group_dec \<Rightarrow> panic + u32" where
  "ld_head g = gd_get get_u32_at (usize_add (gd_offset g) 17) g"

definition ld_tail :: "group_dec \<Rightarrow> panic + u32" where
  "ld_tail g = gd_get get_u32_at (usize_add (gd_offset g) 21) g"

definition od_slot :: "group_dec \<Rightarrow> panic + u32" where
  "od_slot g = gd_get get_u32_at (gd_offset g) g"

definition od_order_id :: "group_dec \<Rightarrow> panic + i64" where
  "od_order_id g = gd_get get_i64_at (usize_add (gd_offset g) 4) g"

definition od_price :: "group_dec \<Rightarrow> panic + i64" where
  "od_price g = gd_get get_i64_at (usize_add (gd_offset g) 12) g"

definition od_qty :: "group_dec \<Rightarrow> panic + i64" where
  "od_qty g = gd_get get_i64_at (usize_add (gd_offset g) 20) g"

definition od_filled :: "group_dec \<Rightarrow> panic + i64" where
  "od_filled g = gd_get get_i64_at (usize_add (gd_offset g) 28) g"

definition od_side :: "group_dec \<Rightarrow> panic + sbe_side" where
  "od_side g = and_then (gd_get get_u8_at (usize_add (gd_offset g) 36) g) (\<lambda>v. Inr (side_of_u8 v))"

definition od_next_slot :: "group_dec \<Rightarrow> panic + u32" where
  "od_next_slot g = gd_get get_u32_at (usize_add (gd_offset g) 37) g"

definition od_prev :: "group_dec \<Rightarrow> panic + u32" where
  "od_prev g = gd_get get_u32_at (usize_add (gd_offset g) 41) g"

end
