(* ===== verification/Snapshot.thy ===== *)
theory Snapshot
  imports Book_Sbe Cow
begin

text \<open>
  The snapshot codec: \<open>encode\<close> and \<open>restore\<close> of the flat book (snapshot.rs) and
  \<open>encode_root\<close> and \<open>restore_cow\<close> of the copy-on-write book (cowsnap.rs), both in
  rust/smr-collections/common/src. The checksum function of the crate \<open>crc32c\<close> is not part
  of the repository: it is the parameter \<open>crc\<close>.
\<close>

definition HEADER_LEN :: usize where "HEADER_LEN = 8"

definition side_enum :: "u8 \<Rightarrow> sbe_side" where
  "side_enum sd = (if sd = 0 then BID else ASK)"

fun side_u8 :: "sbe_side \<Rightarrow> u8" where
  "side_u8 ASK = 1"
| "side_u8 _ = 0"

datatype restore_error =
    Snapshot_too_short
  | Crc_mismatch
  | Unsupported_version u16
  | Capacity_mismatch u32 usize

section \<open>Encoding\<close>

text \<open>The count of occupied levels is a u16, as in the group header.\<close>

fun count_occupied :: "price_level list \<Rightarrow> u16 \<Rightarrow> u16" where
  "count_occupied [] n = n"
| "count_occupied (l # ls) n = count_occupied ls (if head l \<noteq> NIL then n + 1 else n)"

definition write_level :: "u8 \<Rightarrow> u32 \<Rightarrow> price_level \<Rightarrow> group_enc \<Rightarrow> panic + group_enc" where
  "write_level sd t lvl lg =
     (if head lvl = NIL then Inr lg
      else
        and_then (expect_sbe (group_advance LEVELS_BLOCK lg)) (\<lambda>(_, lg).
        and_then (lg_side (side_enum sd) lg) (\<lambda>lg.
        and_then (lg_level_tick t lg) (\<lambda>lg.
        and_then (lg_qty_total (qty_total lvl) lg) (\<lambda>lg.
        and_then (lg_order_count (lvl_count lvl) lg) (\<lambda>lg.
        and_then (lg_head (head lvl) lg) (\<lambda>lg.
        lg_tail (tail lvl) lg)))))))"

definition write_order :: "nat \<Rightarrow> order \<Rightarrow> group_enc \<Rightarrow> panic + group_enc" where
  "write_order slot ord og =
     and_then (expect_sbe (group_advance ORDERS_BLOCK og)) (\<lambda>(_, og).
     and_then (og_slot (of_nat slot) og) (\<lambda>og.
     and_then (og_order_id (order_id ord) og) (\<lambda>og.
     and_then (og_price (price ord) og) (\<lambda>og.
     and_then (og_qty (qty ord) og) (\<lambda>og.
     and_then (og_filled (filled ord) og) (\<lambda>og.
     and_then (og_side (side_enum (side ord)) og) (\<lambda>og.
     and_then (og_next_slot (next_slot ord) og) (\<lambda>og.
     og_prev (prev_slot ord) og))))))))"

definition write_root ::
  "i64 \<Rightarrow> i64 \<Rightarrow> u32 \<Rightarrow> u32 \<Rightarrow> u32 \<Rightarrow> i32 \<Rightarrow> i32 \<Rightarrow> u32 \<Rightarrow> u8 list \<Rightarrow> panic + bs_enc" where
  "write_root pmin tk nl cap hw bb ba fh buf =
     and_then (bs_header (bs_enc_wrap buf HEADER_LEN) 0) (\<lambda>header.
     and_then (expect_sbe (h_parent header)) (\<lambda>enc.
     and_then (bs_price_min pmin enc) (\<lambda>enc.
     and_then (bs_tick_size tk enc) (\<lambda>enc.
     and_then (bs_nl_evels nl enc) (\<lambda>enc.
     and_then (bs_capacity cap enc) (\<lambda>enc.
     and_then (bs_hwm hw enc) (\<lambda>enc.
     and_then (bs_best_bid bb enc) (\<lambda>enc.
     and_then (bs_best_ask ba enc) (\<lambda>enc.
     bs_free_head fh enc)))))))))"

definition slice_to :: "u8 list \<Rightarrow> usize \<Rightarrow> panic + u8 list" where
  "slice_to buf n = (if n \<le> length buf then Inr (take n buf) else Inl Index_out_of_bounds)"

text \<open>The trailing checksum; the result is the image's length and the buffer.\<close>

definition write_crc :: "(u8 list \<Rightarrow> u32) \<Rightarrow> group_enc \<Rightarrow> panic + usize \<times> u8 list" where
  "write_crc crc og =
     and_then (group_get_limit og) (\<lambda>sbe_len.
     and_then (expect_sbe (group_parent og)) (\<lambda>enc.
     and_then (slice_to (e_buf enc) sbe_len) (\<lambda>body.
     and_then (put_bytes_at (e_buf enc) sbe_len (le_bytes 4 (unat (crc body)))) (\<lambda>buf.
     Inr (usize_add sbe_len 4, buf)))))"

definition encode :: "(u8 list \<Rightarrow> u32) \<Rightarrow> book \<Rightarrow> u8 list \<Rightarrow> panic + usize \<times> u8 list" where
  "encode crc b buf =
     (let level_count = count_occupied (asks b) (count_occupied (bids b) 0) in
      and_then (write_root (price_min b) (tick b) (n_levels b) (of_nat (length (pool b))) (hwm b)
                  (best_bid b) (best_ask b) (free_head b) buf) (\<lambda>enc.
      and_then (levels_encoder enc level_count) (\<lambda>lg.
      and_then (try_fold (\<lambda>(t, lvl). write_level 0 (of_nat t) lvl) (enumerate 0 (bids b)) lg) (\<lambda>lg.
      and_then (try_fold (\<lambda>(t, lvl). write_level 1 (of_nat t) lvl) (enumerate 0 (asks b)) lg) (\<lambda>lg.
      and_then (expect_sbe (group_parent lg)) (\<lambda>enc.
      and_then (orders_encoder enc (ucast (hwm b))) (\<lambda>og.
      and_then (try_fold (\<lambda>slot og. and_then (idx (pool b) slot) (\<lambda>ord. write_order slot ord og))
                  [0..<unat (hwm b)] og) (\<lambda>og.
      write_crc crc og))))))))"

text \<open>The same over a frozen root, read against the heap it lives in.\<close>

fun count_occupied_root ::
  "level_chunk list \<Rightarrow> root \<Rightarrow> u8 \<Rightarrow> nat list \<Rightarrow> u16 \<Rightarrow> panic + u16" where
  "count_occupied_root lh r sd [] n = Inr n"
| "count_occupied_root lh r sd (t # ts) n =
     and_then (root_level lh r sd (of_nat t)) (\<lambda>l.
     count_occupied_root lh r sd ts (if head l \<noteq> NIL then n + 1 else n))"

definition encode_root ::
  "(u8 list \<Rightarrow> u32) \<Rightarrow> order_chunk list \<Rightarrow> level_chunk list \<Rightarrow> root \<Rightarrow> u8 list \<Rightarrow>
   panic + usize \<times> u8 list" where
  "encode_root crc oh lh r buf =
     (let ts = [0..<unat (r_n_levels r)];
          level = (\<lambda>sd t lg. and_then (root_level lh r sd (of_nat t)) (\<lambda>lvl.
            write_level sd (of_nat t) lvl lg)) in
      and_then (count_occupied_root lh r 0 ts 0) (\<lambda>n.
      and_then (count_occupied_root lh r 1 ts n) (\<lambda>level_count.
      and_then (write_root (r_price_min r) (r_tick r) (r_n_levels r) (r_capacity r) (r_hwm r)
                  (r_best_bid r) (r_best_ask r) (r_free_head r) buf) (\<lambda>enc.
      and_then (levels_encoder enc level_count) (\<lambda>lg.
      and_then (try_fold (level 0) ts lg) (\<lambda>lg.
      and_then (try_fold (level 1) ts lg) (\<lambda>lg.
      and_then (expect_sbe (group_parent lg)) (\<lambda>enc.
      and_then (orders_encoder enc (ucast (r_hwm r))) (\<lambda>og.
      and_then (try_fold (\<lambda>slot og. and_then (root_order oh r (of_nat slot)) (\<lambda>ord.
                  write_order slot ord og)) [0..<unat (r_hwm r)] og) (\<lambda>og.
      write_crc crc og))))))))))"

section \<open>Restoring\<close>

text \<open>One row of each group.\<close>

definition read_level_row :: "group_dec \<Rightarrow> panic + u8 \<times> u32 \<times> price_level" where
  "read_level_row lg =
     and_then (ld_side lg) (\<lambda>sd.
     and_then (ld_level_tick lg) (\<lambda>t.
     and_then (ld_head lg) (\<lambda>hd.
     and_then (ld_tail lg) (\<lambda>tl.
     and_then (ld_qty_total lg) (\<lambda>qt.
     and_then (ld_order_count lg) (\<lambda>n.
     Inr (side_u8 sd, t, \<lparr>head = hd, tail = tl, qty_total = qt, lvl_count = n\<rparr>)))))))"

definition read_order_row :: "group_dec \<Rightarrow> panic + u32 \<times> order" where
  "read_order_row og =
     and_then (od_slot og) (\<lambda>slot.
     and_then (od_order_id og) (\<lambda>oid.
     and_then (od_price og) (\<lambda>pr.
     and_then (od_qty og) (\<lambda>q.
     and_then (od_filled og) (\<lambda>f.
     and_then (od_next_slot og) (\<lambda>nx.
     and_then (od_prev og) (\<lambda>pv.
     and_then (od_side og) (\<lambda>sd.
     Inr (slot, \<lparr>order_id = oid, price = pr, qty = q, filled = f, next_slot = nx,
                 prev_slot = pv, side = side_u8 sd\<rparr>)))))))))"

definition next_row :: "group_dec \<Rightarrow> panic + group_dec" where
  "next_row g =
     and_then (expect_sbe (group_dec_advance g)) (\<lambda>(i, g).
     and_then (expect_some Entry_missing i) (\<lambda>_. Inr g))"

definition load_level :: "group_dec \<times> book \<Rightarrow> panic + group_dec \<times> book" where
  "load_level = (\<lambda>(lg, b).
     and_then (next_row lg) (\<lambda>lg.
     and_then (read_level_row lg) (\<lambda>(sd, t, lvl).
     and_then (modify_level b sd t (\<lambda>_. lvl)) (\<lambda>b. Inr (lg, b)))))"

definition load_order :: "group_dec \<times> book \<Rightarrow> panic + group_dec \<times> book" where
  "load_order = (\<lambda>(og, b).
     and_then (next_row og) (\<lambda>og.
     and_then (read_order_row og) (\<lambda>(slot, ord).
     and_then (modify_order b slot (\<lambda>_. ord)) (\<lambda>b.
     Inr (og, if order_id ord \<noteq> 0 then b\<lparr>idmap := (idmap b)(order_id ord \<mapsto> slot)\<rparr> else b)))))"

definition restore ::
  "(u8 list \<Rightarrow> u32) \<Rightarrow> u8 list \<Rightarrow> smr_config \<Rightarrow> panic + restore_error + book" where
  "restore crc bytes cfg =
     (if length bytes < 4 then Inr (Inl Snapshot_too_short)
      else
        let sbe_len = length bytes - 4;
            want = of_nat (le_value (drop sbe_len bytes));
            body = take sbe_len bytes in
        if crc body \<noteq> want then Inr (Inl Crc_mismatch)
        else
          let b = book_new cfg; header = hd_wrap body 0 in
          and_then (hd_version header) (\<lambda>ver.
          if ver \<noteq> 2 then Inr (Inl (Unsupported_version ver))
          else
            and_then (bs_dec_header header 0) (\<lambda>dec.
            and_then (ds_price_min dec) (\<lambda>pmin.
            and_then (ds_tick_size dec) (\<lambda>tk.
            and_then (ds_nl_evels dec) (\<lambda>nl.
            and_then (ds_hwm dec) (\<lambda>hw.
            and_then (ds_best_bid dec) (\<lambda>bb.
            and_then (ds_best_ask dec) (\<lambda>ba.
            and_then (ds_capacity dec) (\<lambda>cap.
            if unat cap \<noteq> cfg_cap cfg then Inr (Inl (Capacity_mismatch cap (cfg_cap cfg)))
            else
              and_then (ds_free_head dec) (\<lambda>fh.
              let b = b\<lparr>price_min := pmin, tick := tk, n_levels := nl, hwm := hw,
                        best_bid := bb, best_ask := ba, free_head := fh\<rparr> in
              and_then (levels_decoder dec) (\<lambda>lg.
              and_then (try_iter load_level (unat (gd_count lg)) (lg, b)) (\<lambda>(lg, b).
              and_then (expect_sbe (group_dec_parent lg)) (\<lambda>dec.
              and_then (orders_decoder dec) (\<lambda>og.
              and_then (try_iter load_order (unat (gd_count og)) (og, b)) (\<lambda>(og, b).
              Inr (Inr b)))))))))))))))))"

text \<open>
  The restore of the copy-on-write book writes levels field by field and orders through
  \<open>order_mut\<close>, all into chunks of the first generation.
\<close>

definition cow_load_level :: "group_dec \<times> cowbook \<Rightarrow> panic + group_dec \<times> cowbook" where
  "cow_load_level = (\<lambda>(lg, c).
     and_then (next_row lg) (\<lambda>lg.
     and_then (read_level_row lg) (\<lambda>(sd, t, lvl).
     and_then (level_mut c sd t (\<lambda>l. l\<lparr>head := head lvl, tail := tail lvl,
         qty_total := qty_total lvl, lvl_count := lvl_count lvl\<rparr>)) (\<lambda>c. Inr (lg, c)))))"

definition cow_read_order_row :: "group_dec \<Rightarrow> panic + u32 \<times> order" where
  "cow_read_order_row og =
     and_then (od_slot og) (\<lambda>slot.
     and_then (od_order_id og) (\<lambda>oid.
     and_then (od_price og) (\<lambda>pr.
     and_then (od_qty og) (\<lambda>q.
     and_then (od_filled og) (\<lambda>f.
     and_then (od_side og) (\<lambda>sd.
     and_then (od_next_slot og) (\<lambda>nx.
     and_then (od_prev og) (\<lambda>pv.
     Inr (slot, \<lparr>order_id = oid, price = pr, qty = q, filled = f, next_slot = nx,
                 prev_slot = pv, side = side_u8 sd\<rparr>)))))))))"

definition cow_load_order :: "group_dec \<times> cowbook \<Rightarrow> panic + group_dec \<times> cowbook" where
  "cow_load_order = (\<lambda>(og, c).
     and_then (next_row og) (\<lambda>og.
     and_then (cow_read_order_row og) (\<lambda>(slot, ord).
     and_then (order_mut c slot (\<lambda>r. r\<lparr>order_id := order_id ord, price := price ord,
         qty := qty ord, filled := filled ord, side := side ord, next_slot := next_slot ord,
         prev_slot := prev_slot ord\<rparr>)) (\<lambda>c.
     Inr (og, if order_id ord \<noteq> 0 then c\<lparr>c_idmap := (c_idmap c)(order_id ord \<mapsto> slot)\<rparr> else c)))))"

definition restore_cow ::
  "(u8 list \<Rightarrow> u32) \<Rightarrow> u8 list \<Rightarrow> smr_config \<Rightarrow> panic + restore_error + cowbook" where
  "restore_cow crc bytes cfg =
     (if length bytes < 4 then Inr (Inl Snapshot_too_short)
      else
        let sbe_len = length bytes - 4;
            want = of_nat (le_value (drop sbe_len bytes));
            body = take sbe_len bytes in
        if crc body \<noteq> want then Inr (Inl Crc_mismatch)
        else
          and_then (cow_new cfg) (\<lambda>c.
          let header = hd_wrap body 0 in
          and_then (hd_version header) (\<lambda>ver.
          if ver \<noteq> 2 then Inr (Inl (Unsupported_version ver))
          else
            and_then (bs_dec_header header 0) (\<lambda>dec.
            and_then (ds_price_min dec) (\<lambda>pmin.
            and_then (ds_tick_size dec) (\<lambda>tk.
            and_then (ds_nl_evels dec) (\<lambda>nl.
            and_then (ds_hwm dec) (\<lambda>hw.
            and_then (ds_best_bid dec) (\<lambda>bb.
            and_then (ds_best_ask dec) (\<lambda>ba.
            and_then (ds_capacity dec) (\<lambda>cap.
            if unat cap \<noteq> cfg_cap cfg then Inr (Inl (Capacity_mismatch cap (cfg_cap cfg)))
            else
              and_then (ds_free_head dec) (\<lambda>fh.
              let c = c\<lparr>c_price_min := pmin, c_tick := tk, c_n_levels := nl, c_hwm := hw,
                        c_best_bid := bb, c_best_ask := ba, c_free_head := fh\<rparr> in
              and_then (levels_decoder dec) (\<lambda>lg.
              and_then (try_iter cow_load_level (unat (gd_count lg)) (lg, c)) (\<lambda>(lg, c).
              and_then (expect_sbe (group_dec_parent lg)) (\<lambda>dec.
              and_then (orders_decoder dec) (\<lambda>og.
              and_then (try_iter cow_load_order (unat (gd_count og)) (og, c)) (\<lambda>(og, c).
              Inr (Inr c))))))))))))))))))"

end
