(* ===== verification/Snapshot_Enc.thy ===== *)
theory Snapshot_Enc
  imports Snapshot Book_Spec
begin

text \<open>
  What \<open>encode\<close> writes: the bytes of a snapshot image as a function of the book, and the
  proof that the encoder fills the buffer with exactly them. Consecutive field writes fuse
  into one write of the block, and blocks append to what is already written.
\<close>

section \<open>The image\<close>

definition level_bytes :: "u8 \<Rightarrow> u32 \<Rightarrow> price_level \<Rightarrow> u8 list" where
  "level_bytes sd t l =
     [u8_of_side (side_enum sd)] @ le_bytes 4 (unat t) @ le_bytes 8 (unat (qty_total l)) @
     le_bytes 4 (unat (lvl_count l)) @ le_bytes 4 (unat (head l)) @ le_bytes 4 (unat (tail l))"

definition order_bytes :: "nat \<Rightarrow> order \<Rightarrow> u8 list" where
  "order_bytes s ord =
     le_bytes 4 (unat (of_nat s :: u32)) @ le_bytes 8 (unat (order_id ord)) @
     le_bytes 8 (unat (price ord)) @ le_bytes 8 (unat (qty ord)) @ le_bytes 8 (unat (filled ord)) @
     [u8_of_side (side_enum (side ord))] @ le_bytes 4 (unat (next_slot ord)) @
     le_bytes 4 (unat (prev_slot ord))"

definition header_bytes :: "u8 list" where
  "header_bytes = le_bytes 2 40 @ le_bytes 2 1 @ le_bytes 2 8 @ le_bytes 2 2"

definition root_bytes :: "i64 \<Rightarrow> i64 \<Rightarrow> u32 \<Rightarrow> u32 \<Rightarrow> u32 \<Rightarrow> i32 \<Rightarrow> i32 \<Rightarrow> u32 \<Rightarrow> u8 list" where
  "root_bytes pmin tk nl cap hw bb ba fh =
     le_bytes 8 (unat pmin) @ le_bytes 8 (unat tk) @ le_bytes 4 (unat nl) @ le_bytes 4 (unat cap) @
     le_bytes 4 (unat hw) @ le_bytes 4 (unat bb) @ le_bytes 4 (unat ba) @ le_bytes 4 (unat fh)"

definition group_bytes :: "u16 \<Rightarrow> u16 \<Rightarrow> u8 list" where
  "group_bytes block n = le_bytes 2 (unat block) @ le_bytes 2 (unat n)"

text \<open>The occupied levels of a lane with their indices, in order.\<close>

definition occupied :: "price_level list \<Rightarrow> (nat \<times> price_level) list" where
  "occupied ls = filter (\<lambda>(t, l). head l \<noteq> NIL) (enumerate 0 ls)"

definition lane_bytes :: "u8 \<Rightarrow> price_level list \<Rightarrow> u8 list" where
  "lane_bytes sd ls = concat (map (\<lambda>(t, l). level_bytes sd (of_nat t) l) (occupied ls))"

definition level_total :: "book \<Rightarrow> nat" where
  "level_total b = length (occupied (bids b)) + length (occupied (asks b))"

definition image :: "book \<Rightarrow> u8 list" where
  "image b =
     header_bytes @
     root_bytes (price_min b) (tick b) (n_levels b) (of_nat (length (pool b))) (hwm b) (best_bid b)
       (best_ask b) (free_head b) @
     group_bytes LEVELS_BLOCK (of_nat (level_total b)) @ lane_bytes 0 (bids b) @ lane_bytes 1 (asks b) @
     group_bytes ORDERS_BLOCK (ucast (hwm b)) @
     concat (map (\<lambda>s. order_bytes s (pool b ! s)) [0..<unat (hwm b)])"

lemma length_blocks [simp]:
  "length (level_bytes sd t l) = 25" "length (order_bytes s ord) = 45" "length header_bytes = 8"
  "length (root_bytes pmin tk nl cap hw bb ba fh) = 40" "length (group_bytes blk n) = 4"
  by (simp_all add: level_bytes_def order_bytes_def header_bytes_def root_bytes_def group_bytes_def)

lemma block_values [simp]:
  "unat LEVELS_BLOCK = 25" "unat ORDERS_BLOCK = 45" "unat SBE_BLOCK_LENGTH = 40"
  by (simp_all add: LEVELS_BLOCK_def ORDERS_BLOCK_def SBE_BLOCK_LENGTH_def)

lemma length_concat_blocks:
  "(\<And>x. x \<in> set xs \<Longrightarrow> length (f x) = k) \<Longrightarrow> length (concat (map f xs)) = k * length xs"
  by (induction xs) auto

lemma length_lane_bytes: "length (lane_bytes sd ls) = 25 * length (occupied ls)"
  unfolding lane_bytes_def by (rule length_concat_blocks) (auto split: prod.splits)

lemma length_image: "length (image b) = 56 + 25 * level_total b + 45 * unat (hwm b)"
proof -
  have "length (concat (map (\<lambda>s. order_bytes s (pool b ! s)) [0..<unat (hwm b)])) =
      45 * length [0..<unat (hwm b)]"
    by (rule length_concat_blocks) simp
  then show ?thesis by (simp add: image_def length_lane_bytes level_total_def)
qed

section \<open>Fusing writes\<close>

lemma put_u8_bytes: "i < 2 ^ 64 - 1 \<Longrightarrow> put_u8_at data i v = put_bytes_at data i [v]"
  by (auto simp: put_u8_at_def idx_set_def put_bytes_at_def Let_def upd_conv_take_nth_drop)

lemma put_chain:
  assumes "j = i + length bs" and "i + length bs + length cs \<le> length data" and "length data < 2 ^ 64"
  shows "and_then (put_bytes_at data i bs) (\<lambda>d. put_bytes_at d j cs) = put_bytes_at data i (bs @ cs)"
    and "and_then (put_bytes_at data i bs) (\<lambda>d. and_then (put_bytes_at d j cs) f) =
      and_then (put_bytes_at data i (bs @ cs)) f"
proof -
  have "and_then (put_bytes_at data i bs) (\<lambda>d. put_bytes_at d j cs) = put_bytes_at data i (bs @ cs)"
    using assms by (simp add: put_bytes_at_def Let_def add.assoc add.commute add.left_commute)
  then show "and_then (put_bytes_at data i bs) (\<lambda>d. put_bytes_at d j cs) = put_bytes_at data i (bs @ cs)"
    and "and_then (put_bytes_at data i bs) (\<lambda>d. and_then (put_bytes_at d j cs) f) =
      and_then (put_bytes_at data i (bs @ cs)) f"
    by (simp_all add: and_then_assoc [symmetric])
qed

lemma put_block:
  assumes "i + length bs \<le> length data" and "length data < 2 ^ 64"
  shows "put_bytes_at data i bs = Inr (take i data @ bs @ drop (i + length bs) data)"
  using assms by (simp add: put_bytes_at_def Let_def)

text \<open>The parent with a new buffer.\<close>

lemma put_level_fields:
  assumes p: "ge_parent g = Some p" and off: "ge_offset g + 25 \<le> length (e_buf p)"
    and len: "length (e_buf p) < 2 ^ 64"
  shows "and_then (lg_side (side_enum sd) g) (\<lambda>g. and_then (lg_level_tick t g) (\<lambda>g.
      and_then (lg_qty_total (qty_total l) g) (\<lambda>g. and_then (lg_order_count (lvl_count l) g) (\<lambda>g.
      and_then (lg_head (head l) g) (\<lambda>g. lg_tail (tail l) g))))) =
    Inr (g\<lparr>ge_parent := Some (p\<lparr>e_buf := take (ge_offset g) (e_buf p) @ level_bytes sd t l @
      drop (ge_offset g + 25) (e_buf p)\<rparr>)\<rparr>)"
proof -
  have add: "usize_add (ge_offset g) k = ge_offset g + k" if "k \<le> 25" for k
    using that off len by simp
  have "put_bytes_at (e_buf p) (ge_offset g) (level_bytes sd t l) =
      Inr (take (ge_offset g) (e_buf p) @ level_bytes sd t l @ drop (ge_offset g + 25) (e_buf p))"
    using put_block [of "ge_offset g" "level_bytes sd t l" "e_buf p"] off len by simp
  then show ?thesis
    using p off len
    by (simp add: lg_side_def lg_level_tick_def lg_qty_total_def lg_order_count_def lg_head_def
        lg_tail_def ge_put_def e_put_def and_then_assoc add put_u8_bytes put_u32_at_def put_i64_at_def
        put_chain level_bytes_def)
qed

lemma put_order_fields:
  assumes p: "ge_parent g = Some p" and off: "ge_offset g + 45 \<le> length (e_buf p)"
    and len: "length (e_buf p) < 2 ^ 64"
  shows "and_then (og_slot (of_nat s) g) (\<lambda>g. and_then (og_order_id (order_id ord) g) (\<lambda>g.
      and_then (og_price (price ord) g) (\<lambda>g. and_then (og_qty (qty ord) g) (\<lambda>g.
      and_then (og_filled (filled ord) g) (\<lambda>g. and_then (og_side (side_enum (side ord)) g) (\<lambda>g.
      and_then (og_next_slot (next_slot ord) g) (\<lambda>g. og_prev (prev_slot ord) g))))))) =
    Inr (g\<lparr>ge_parent := Some (p\<lparr>e_buf := take (ge_offset g) (e_buf p) @ order_bytes s ord @
      drop (ge_offset g + 45) (e_buf p)\<rparr>)\<rparr>)"
proof -
  have add: "usize_add (ge_offset g) k = ge_offset g + k" if "k \<le> 45" for k
    using that off len by simp
  have "put_bytes_at (e_buf p) (ge_offset g) (order_bytes s ord) =
      Inr (take (ge_offset g) (e_buf p) @ order_bytes s ord @ drop (ge_offset g + 45) (e_buf p))"
    using put_block [of "ge_offset g" "order_bytes s ord" "e_buf p"] off len by simp
  then show ?thesis
    using p off len
    by (simp add: og_slot_def og_order_id_def og_price_def og_qty_def og_filled_def og_side_def
        og_next_slot_def og_prev_def ge_put_def e_put_def and_then_assoc add put_u8_bytes
        put_u32_at_def put_i64_at_def put_chain order_bytes_def)
qed

lemma write_root_run:
  assumes len: "48 \<le> length buf" "length buf < 2 ^ 64"
  shows "write_root pmin tk nl cap hw bb ba fh buf =
    Inr \<lparr>e_buf = header_bytes @ root_bytes pmin tk nl cap hw bb ba fh @ drop 48 buf,
         e_initial_offset = 8, e_offset = 8, e_limit = 48\<rparr>"
proof -
  let ?e = "\<lambda>d. \<lparr>e_buf = d, e_initial_offset = 8, e_offset = 8, e_limit = 48\<rparr> :: bs_enc"
  let ?d = "header_bytes @ drop 8 buf"
  let ?root = "root_bytes pmin tk nl cap hw bb ba fh"
  have w: "bs_enc_wrap buf HEADER_LEN = ?e buf"
    by (simp add: bs_enc_wrap_def HEADER_LEN_def)
  have "put_bytes_at buf 0 header_bytes = Inr ?d"
    using put_block [of 0 header_bytes buf] len by simp
  then have "bs_header (?e buf) 0 = Inr \<lparr>he_parent = Some (?e ?d), he_offset = 0\<rparr>"
    using len
    by (simp add: bs_header_def h_wrap_def h_block_length_def h_template_id_def h_schema_id_def
        h_version_def he_put_def e_put_def and_then_assoc put_u16_at_def put_chain header_bytes_def
        SBE_BLOCK_LENGTH_def SBE_TEMPLATE_ID_def SBE_SCHEMA_ID_def SBE_SCHEMA_VERSION_def)
  then have h: "and_then (bs_header (bs_enc_wrap buf HEADER_LEN) 0) (\<lambda>header.
      and_then (expect_sbe (h_parent header)) f) = f (?e ?d)" for f :: "bs_enc \<Rightarrow> panic + bs_enc"
    by (simp add: w h_parent_def)
  have "put_bytes_at ?d 8 ?root = Inr (header_bytes @ ?root @ drop 48 buf)"
    using put_block [of 8 ?root ?d] len by simp
  moreover define d where "d = ?d"
  moreover from this have "length d = length buf" using len by simp
  ultimately show ?thesis
    using len unfolding write_root_def h d_def [symmetric]
    by (simp add: bs_price_min_def bs_tick_size_def bs_nl_evels_def bs_capacity_def bs_hwm_def
        bs_best_bid_def bs_best_ask_def bs_free_head_def e_put_def and_then_assoc put_u32_at_def
        put_i32_at_def put_i64_at_def put_chain root_bytes_def)
qed

section \<open>Blocks append\<close>

text \<open>
  A group encoder that has written \<open>k\<close> of \<open>n\<close> rows: its parent's buffer starts with \<open>pre\<close>
  and the limit is behind it.
\<close>

definition group_at :: "group_enc \<Rightarrow> u8 list \<Rightarrow> nat \<Rightarrow> nat \<Rightarrow> nat \<Rightarrow> bool" where
  "group_at g pre N n k \<longleftrightarrow>
     (\<exists>p rest. ge_parent g = Some p \<and> e_buf p = pre @ rest \<and> length (pre @ rest) = N \<and>
        e_limit p = length pre) \<and>
     unat (ge_count g) = n \<and> usize_add (ge_index g) 1 = k"

lemma group_wrap_run:
  assumes "e_buf p = pre @ rest" and "e_limit p = length pre" and "length (pre @ rest) = N"
    and "length pre + 4 \<le> N" and "N < 2 ^ 64"
  shows "\<exists>g. group_wrap block p n = Inr g \<and> ge_offset g = USIZE_MAX \<and>
    group_at g (pre @ group_bytes block n) N (unat n) 0"
proof -
  let ?d = "pre @ group_bytes block n @ drop 4 rest"
  have add: "usize_add (length pre) k = length pre + k" if "k \<le> 4" for k
    using that assms(4,5) by simp
  have "put_bytes_at (pre @ rest) (length pre) (group_bytes block n) = Inr ?d"
    using put_block [of "length pre" "group_bytes block n" "pre @ rest"] assms by simp
  then have "group_wrap block p n = Inr \<lparr>ge_parent = Some (p\<lparr>e_limit := length pre + 4, e_buf := ?d\<rparr>),
      ge_count = n, ge_index = USIZE_MAX, ge_offset = USIZE_MAX, ge_initial_limit = length pre\<rparr>"
    using assms
    by (simp add: group_wrap_def Let_def e_put_def and_then_assoc add put_u16_at_def put_chain
        group_bytes_def)
  moreover have "length pre + length (group_bytes block n) + length (drop 4 rest) = N"
    using assms by simp
  ultimately show ?thesis
    by (simp add: group_at_def USIZE_MAX_def usize_add_def)
qed

lemma group_advance_run:
  assumes at: "group_at g pre N n k" and k: "k < n" and room: "length pre + unat block \<le> N" "N < 2 ^ 64"
  shows "\<exists>p rest. group_advance block g = Inr (Some k, g\<lparr>ge_offset := length pre, ge_index := k,
        ge_parent := Some (p\<lparr>e_limit := length pre + unat block\<rparr>)\<rparr>) \<and>
      e_buf p = pre @ rest \<and> length (pre @ rest) = N"
  using assms by (auto simp: group_at_def group_advance_def Let_def)

lemma write_level_run:
  assumes at: "group_at g pre N n k" and occ: "head l \<noteq> NIL" and k: "k < n"
    and room: "length pre + 25 \<le> N" "N < 2 ^ 64"
  shows "\<exists>g'. write_level sd t l g = Inr g' \<and> group_at g' (pre @ level_bytes sd t l) N n (Suc k)"
proof -
  obtain p rest where adv: "group_advance LEVELS_BLOCK g = Inr (Some k, g\<lparr>ge_offset := length pre,
      ge_index := k, ge_parent := Some (p\<lparr>e_limit := length pre + 25\<rparr>)\<rparr>)"
    and buf: "e_buf p = pre @ rest" "length (pre @ rest) = N"
    using group_advance_run [OF at k, of LEVELS_BLOCK] room by auto
  let ?g = "g\<lparr>ge_offset := length pre, ge_index := k, ge_parent := Some (p\<lparr>e_limit := length pre + 25\<rparr>)\<rparr>"
  have n: "n < 2 ^ 16" using at unsigned_less [of "ge_count g", where 'a = nat] by (simp add: group_at_def)
  have "write_level sd t l g = Inr (?g\<lparr>ge_parent := Some (p\<lparr>e_limit := length pre + 25,
      e_buf := pre @ level_bytes sd t l @ drop 25 rest\<rparr>)\<rparr>)"
    using put_level_fields [of ?g "p\<lparr>e_limit := length pre + 25\<rparr>" sd t l] buf room occ
    by (simp add: write_level_def adv)
  moreover have "group_at (?g\<lparr>ge_parent := Some (p\<lparr>e_limit := length pre + 25,
      e_buf := pre @ level_bytes sd t l @ drop 25 rest\<rparr>)\<rparr>) (pre @ level_bytes sd t l) N n (Suc k)"
    using at buf room k n by (auto simp: group_at_def)
  ultimately show ?thesis by blast
qed

lemma write_order_run:
  assumes at: "group_at g pre N n k" and k: "k < n" and room: "length pre + 45 \<le> N" "N < 2 ^ 64"
  shows "\<exists>g'. write_order s ord g = Inr g' \<and> group_at g' (pre @ order_bytes s ord) N n (Suc k)"
proof -
  obtain p rest where adv: "group_advance ORDERS_BLOCK g = Inr (Some k, g\<lparr>ge_offset := length pre,
      ge_index := k, ge_parent := Some (p\<lparr>e_limit := length pre + 45\<rparr>)\<rparr>)"
    and buf: "e_buf p = pre @ rest" "length (pre @ rest) = N"
    using group_advance_run [OF at k, of ORDERS_BLOCK] room by auto
  let ?g = "g\<lparr>ge_offset := length pre, ge_index := k, ge_parent := Some (p\<lparr>e_limit := length pre + 45\<rparr>)\<rparr>"
  have n: "n < 2 ^ 16" using at unsigned_less [of "ge_count g", where 'a = nat] by (simp add: group_at_def)
  have "write_order s ord g = Inr (?g\<lparr>ge_parent := Some (p\<lparr>e_limit := length pre + 45,
      e_buf := pre @ order_bytes s ord @ drop 45 rest\<rparr>)\<rparr>)"
    using put_order_fields [of ?g "p\<lparr>e_limit := length pre + 45\<rparr>" s ord] buf room
    by (simp add: write_order_def adv)
  moreover have "group_at (?g\<lparr>ge_parent := Some (p\<lparr>e_limit := length pre + 45,
      e_buf := pre @ order_bytes s ord @ drop 45 rest\<rparr>)\<rparr>) (pre @ order_bytes s ord) N n (Suc k)"
    using at buf room k n by (auto simp: group_at_def)
  ultimately show ?thesis by blast
qed

section \<open>The loops\<close>

lemma write_lane_run:
  assumes "group_at g pre N n k" and "k + length (filter (\<lambda>(t, l). head l \<noteq> NIL) xs) \<le> n"
    and "length pre + 25 * length (filter (\<lambda>(t, l). head l \<noteq> NIL) xs) \<le> N" and "N < 2 ^ 64"
  shows "\<exists>g'. try_fold (\<lambda>(t, lvl). write_level sd (of_nat t) lvl) xs g = Inr g' \<and>
    group_at g' (pre @ concat (map (\<lambda>(t, l). level_bytes sd (of_nat t) l)
        (filter (\<lambda>(t, l). head l \<noteq> NIL) xs))) N n (k + length (filter (\<lambda>(t, l). head l \<noteq> NIL) xs))"
  using assms
proof (induction xs arbitrary: g pre k)
  case Nil
  then show ?case by simp
next
  case (Cons x xs)
  obtain t l where x: "x = (t, l)" by (cases x)
  show ?case
  proof (cases "head l = NIL")
    case True
    then have "write_level sd (of_nat t) l g = Inr g" by (simp add: write_level_def)
    with Cons True show ?thesis by (simp add: x)
  next
    case False
    then obtain g1 where g1: "write_level sd (of_nat t) l g = Inr g1"
      "group_at g1 (pre @ level_bytes sd (of_nat t) l) N n (Suc k)"
      using write_level_run [OF Cons.prems(1) False, of sd "of_nat t"] Cons.prems by (auto simp: x)
    with Cons.IH [OF g1(2)] Cons.prems False show ?thesis by (simp add: x)
  qed
qed

lemma write_orders_run:
  assumes "group_at g pre N n k" and "k + length ss \<le> n"
    and "length pre + 45 * length ss \<le> N" and "N < 2 ^ 64"
    and "\<And>s. s \<in> set ss \<Longrightarrow> s < length p"
  shows "\<exists>g'. try_fold (\<lambda>slot og. and_then (idx p slot) (\<lambda>ord. write_order slot ord og)) ss g = Inr g' \<and>
    group_at g' (pre @ concat (map (\<lambda>s. order_bytes s (p ! s)) ss)) N n (k + length ss)"
  using assms
proof (induction ss arbitrary: g pre k)
  case Nil
  then show ?case by simp
next
  case (Cons s ss)
  obtain g1 where g1: "write_order s (p ! s) g = Inr g1"
    "group_at g1 (pre @ order_bytes s (p ! s)) N n (Suc k)"
    using write_order_run [OF Cons.prems(1), of s "p ! s"] Cons.prems by auto
  with Cons.IH [OF g1(2)] Cons.prems show ?case by (simp add: idx_simps)
qed

lemma count_occupied_eq:
  "count_occupied ls n = n + of_nat (length (filter (\<lambda>(t, l). head l \<noteq> NIL) (enumerate i ls)))"
proof (induction ls arbitrary: n i)
  case Nil
  then show ?case by simp
next
  case (Cons l ls)
  show ?case using Cons.IH [of "n + 1" "Suc i"] Cons.IH [of n "Suc i"] by simp
qed

lemma level_count_eq:
  "count_occupied (asks b) (count_occupied (bids b) 0) = of_nat (level_total b)"
  by (simp add: count_occupied_eq [of _ _ 0] level_total_def occupied_def)

lemma write_crc_run:
  assumes at: "group_at g pre N n k" and room: "length pre + 4 \<le> N" "N < 2 ^ 64"
  shows "\<exists>buf'. write_crc crc g = Inr (length pre + 4, buf') \<and> length buf' = N \<and>
    take (length pre + 4) buf' = pre @ le_bytes 4 (unat (crc pre))"
proof -
  obtain p rest where p: "ge_parent g = Some p" "e_buf p = pre @ rest" "length (pre @ rest) = N"
    "e_limit p = length pre"
    using at by (auto simp: group_at_def)
  have "put_bytes_at (pre @ rest) (length pre) (le_bytes 4 (unat (crc pre))) =
      Inr (pre @ le_bytes 4 (unat (crc pre)) @ drop 4 rest)"
    using put_block [of "length pre" "le_bytes 4 (unat (crc pre))" "pre @ rest"] p room by simp
  then have "write_crc crc g = Inr (length pre + 4, pre @ le_bytes 4 (unat (crc pre)) @ drop 4 rest)"
    using p room by (simp add: write_crc_def group_get_limit_def group_parent_def slice_to_def)
  then show ?thesis using p room by simp
qed

lemma unat_of_nat_u16: "n < 65536 \<Longrightarrow> unat (of_nat n :: u16) = n"
  by (simp add: unat_of_nat take_bit_nat_eq_self)

lemma unat_ucast_u16: "unat (w :: u32) < 65536 \<Longrightarrow> unat (ucast w :: u16) = unat w"
  by (simp add: unsigned_ucast_eq take_bit_nat_eq_self)

text \<open>Everything in front of the rows of the orders.\<close>

definition image_front :: "book \<Rightarrow> u8 list" where
  "image_front b =
     (((header_bytes @ root_bytes (price_min b) (tick b) (n_levels b) (of_nat (length (pool b))) (hwm b)
         (best_bid b) (best_ask b) (free_head b)) @
       group_bytes LEVELS_BLOCK (of_nat (level_total b))) @ lane_bytes 0 (bids b)) @ lane_bytes 1 (asks b)"

lemma image_front_image:
  "(image_front b @ group_bytes ORDERS_BLOCK (ucast (hwm b))) @
   concat (map (\<lambda>s. order_bytes s (pool b ! s)) [0..<unat (hwm b)]) = image b"
  by (simp add: image_def image_front_def)

lemma length_image_front [simp]: "length (image_front b) = 52 + 25 * level_total b"
  by (simp add: image_front_def length_lane_bytes level_total_def)

lemma encode_levels_run:
  assumes lv: "level_total b < 65536" and room: "56 + 25 * level_total b \<le> length buf" "length buf < 2 ^ 64"
  shows "\<exists>g. encode crc b buf =
      and_then (try_fold (\<lambda>slot og. and_then (idx (pool b) slot) (\<lambda>ord. write_order slot ord og))
        [0..<unat (hwm b)] g) (write_crc crc) \<and>
    ge_offset g = USIZE_MAX \<and>
    group_at g (image_front b @ group_bytes ORDERS_BLOCK (ucast (hwm b))) (length buf)
      (unat (ucast (hwm b) :: u16)) 0"
proof -
  let ?N = "length buf" and ?n = "level_total b"
  let ?pre0 = "header_bytes @ root_bytes (price_min b) (tick b) (n_levels b) (of_nat (length (pool b)))
      (hwm b) (best_bid b) (best_ask b) (free_head b)"
  let ?pre1 = "?pre0 @ group_bytes LEVELS_BLOCK (of_nat ?n)"
  obtain e where e: "write_root (price_min b) (tick b) (n_levels b) (of_nat (length (pool b))) (hwm b)
      (best_bid b) (best_ask b) (free_head b) buf = Inr e" "e_buf e = ?pre0 @ drop 48 buf" "e_limit e = 48"
    using write_root_run [of buf] room by simp
  obtain g0 where g0: "levels_encoder e (of_nat ?n) = Inr g0" "group_at g0 ?pre1 ?N ?n 0"
    using group_wrap_run [of e ?pre0 "drop 48 buf" ?N LEVELS_BLOCK "of_nat ?n"] e room lv
    by (auto simp: levels_encoder_def unat_of_nat_u16 simp del: unat_of_nat)
  obtain g1 where g1: "try_fold (\<lambda>(t, lvl). write_level 0 (of_nat t) lvl) (enumerate 0 (bids b)) g0 = Inr g1"
    "group_at g1 (?pre1 @ lane_bytes 0 (bids b)) ?N ?n (length (occupied (bids b)))"
    using write_lane_run [OF g0(2), of "enumerate 0 (bids b)" 0] room
    by (auto simp: occupied_def lane_bytes_def level_total_def)
  obtain g2 where g2: "try_fold (\<lambda>(t, lvl). write_level 1 (of_nat t) lvl) (enumerate 0 (asks b)) g1 = Inr g2"
    "group_at g2 (image_front b) ?N ?n ?n"
    using write_lane_run [OF g1(2), of "enumerate 0 (asks b)" 1] room
    by (auto simp: image_front_def occupied_def lane_bytes_def level_total_def
        length_lane_bytes [unfolded lane_bytes_def occupied_def])
  obtain p rest where p: "ge_parent g2 = Some p" "e_buf p = image_front b @ rest"
    "length (image_front b @ rest) = ?N" "e_limit p = length (image_front b)"
    using g2(2) unfolding group_at_def by blast
  have "length (image_front b) + 4 \<le> ?N" using room by simp
  from group_wrap_run [OF p(2,4,3) this room(2), of ORDERS_BLOCK "ucast (hwm b)"]
  obtain h where h: "orders_encoder p (ucast (hwm b)) = Inr h" "ge_offset h = USIZE_MAX"
    "group_at h (image_front b @ group_bytes ORDERS_BLOCK (ucast (hwm b))) ?N (unat (ucast (hwm b) :: u16)) 0"
    unfolding orders_encoder_def by blast
  have "encode crc b buf =
      and_then (try_fold (\<lambda>slot og. and_then (idx (pool b) slot) (\<lambda>ord. write_order slot ord og))
        [0..<unat (hwm b)] h) (write_crc crc)"
    unfolding encode_def Let_def level_count_eq
    by (simp add: e(1) g0(1) g1(1) g2(1) group_parent_def p(1) h(1))
  then show ?thesis using h by blast
qed

lemma encode_run:
  assumes hw: "unat (hwm b) \<le> length (pool b)" "unat (hwm b) < 65536" and lv: "level_total b < 65536"
    and room: "length (image b) + 4 \<le> length buf" "length buf < 2 ^ 64"
  shows "\<exists>buf'. encode crc b buf = Inr (length (image b) + 4, buf') \<and> length buf' = length buf \<and>
    take (length (image b) + 4) buf' = image b @ le_bytes 4 (unat (crc (image b)))"
proof -
  let ?N = "length buf" and ?h = "unat (hwm b)"
  let ?pre = "image_front b @ group_bytes ORDERS_BLOCK (ucast (hwm b))"
  have N: "56 + 25 * level_total b + 45 * ?h + 4 \<le> ?N" using room by (simp add: length_image)
  then have "56 + 25 * level_total b \<le> ?N" by simp
  from encode_levels_run [OF lv this room(2)] obtain h0 where
    enc: "encode crc b buf =
      and_then (try_fold (\<lambda>slot og. and_then (idx (pool b) slot) (\<lambda>ord. write_order slot ord og))
        [0..<?h] h0) (write_crc crc)"
    and h0: "group_at h0 ?pre ?N ?h 0"
    unfolding unat_ucast_u16 [OF hw(2)] by blast
  have "length ?pre + 45 * length [0..<?h] \<le> ?N" using N by simp
  from write_orders_run [OF h0 _ this room(2), of "pool b"] hw obtain h1 where
    h1: "try_fold (\<lambda>slot og. and_then (idx (pool b) slot) (\<lambda>ord. write_order slot ord og)) [0..<?h] h0 = Inr h1"
    "group_at h1 (image b) ?N ?h (0 + ?h)"
    unfolding image_front_image by auto
  from write_crc_run [OF h1(2) room] show ?thesis unfolding enc h1(1) by auto
qed

text \<open>
  With 65536 slots handed out the count of the orders group is 0: the first row is written
  at the offset of no row, behind any buffer.
\<close>

lemma encode_count_wraps:
  assumes hw: "unat (hwm b) = 65536" "unat (hwm b) \<le> length (pool b)" and lv: "level_total b < 65536"
    and room: "56 + 25 * level_total b \<le> length buf" "length buf < 2 ^ 64"
  shows "encode crc b buf = Inl Index_out_of_bounds"
proof -
  have zero: "unat (ucast (hwm b) :: u16) = 0"
    using hw(1) by (simp add: unsigned_ucast_eq take_bit_eq_mod)
  obtain g where
    enc: "encode crc b buf =
      and_then (try_fold (\<lambda>slot og. and_then (idx (pool b) slot) (\<lambda>ord. write_order slot ord og))
        [0..<unat (hwm b)] g) (write_crc crc)"
    and off: "ge_offset g = USIZE_MAX"
    and at: "group_at g (image_front b @ group_bytes ORDERS_BLOCK (ucast (hwm b))) (length buf) 0 0"
    using encode_levels_run [OF lv room, of crc] unfolding zero by blast
  obtain p rest where "ge_parent g = Some p"
    "e_buf p = (image_front b @ group_bytes ORDERS_BLOCK (ucast (hwm b))) @ rest"
    "length ((image_front b @ group_bytes ORDERS_BLOCK (ucast (hwm b))) @ rest) = length buf"
    using at unfolding group_at_def by blast
  then have g: "ge_parent g = Some p" "length (e_buf p) = length buf" "ge_count g = 0"
    using at by (simp_all add: group_at_def unat_eq_0)
  have "group_advance ORDERS_BLOCK g = Inr (None, g)" using g by (simp add: group_advance_def Let_def)
  moreover have "og_slot 0 g = Inl Index_out_of_bounds"
    using g off room by (simp add: og_slot_def ge_put_def e_put_def put_u32_at_def put_bytes_at_def Let_def
        USIZE_MAX_def usize_add_def)
  ultimately have "write_order 0 ord g = Inl Index_out_of_bounds" for ord
    by (simp add: write_order_def)
  moreover have "[0..<unat (hwm b)] = 0 # [Suc 0..<unat (hwm b)]"
    by (rule upt_conv_Cons) (use hw(1) in linarith)
  moreover have "0 < length (pool b)" using hw by linarith
  ultimately show ?thesis unfolding enc by (simp add: idx_simps)
qed

end
