(* ===== verification/Snapshot_Dec.thy ===== *)
theory Snapshot_Dec
  imports Snapshot_Enc
begin

text \<open>
  What \<open>restore\<close> reads from an image: every field comes back, the rows of the two groups
  are read in the order they were written, and writing them into an empty book gives the
  encoded book, the id map included.
\<close>

section \<open>Fields\<close>

lemma get_field:
  assumes "i + k \<le> length data" and "length data < 2 ^ 64"
  shows "get_bytes_at k data i = Inr (take k (drop i data))"
  using assms by (simp add: get_bytes_at_def Let_def)

lemma get_u16_take:
  "take 2 (drop i data) = le_bytes 2 (unat v) \<Longrightarrow> i + 2 \<le> length data \<Longrightarrow> length data < 2 ^ 64 \<Longrightarrow>
   get_u16_at data i = Inr v"
  unfolding get_u16_at_def by (subst get_field) (simp_all only: of_nat_le_value_u16 and_then.simps)

lemma get_u32_take:
  "take 4 (drop i data) = le_bytes 4 (unat v) \<Longrightarrow> i + 4 \<le> length data \<Longrightarrow> length data < 2 ^ 64 \<Longrightarrow>
   get_u32_at data i = Inr v"
  unfolding get_u32_at_def by (subst get_field) (simp_all only: of_nat_le_value_u32 and_then.simps)

lemma get_i32_take:
  "take 4 (drop i data) = le_bytes 4 (unat v) \<Longrightarrow> i + 4 \<le> length data \<Longrightarrow> length data < 2 ^ 64 \<Longrightarrow>
   get_i32_at data i = Inr v"
  unfolding get_i32_at_def by (subst get_field) (simp_all only: of_nat_le_value_u32 and_then.simps)

lemma get_i64_take:
  "take 8 (drop i data) = le_bytes 8 (unat v) \<Longrightarrow> i + 8 \<le> length data \<Longrightarrow> length data < 2 ^ 64 \<Longrightarrow>
   get_i64_at data i = Inr v"
  unfolding get_i64_at_def by (subst get_field) (simp_all only: of_nat_le_value_u64 and_then.simps)

lemmas get_take = get_u16_take get_u32_take get_i32_take get_i64_take

lemma side_round_trip: "side_u8 (side_of_u8 (u8_of_side (side_enum sd))) = (if sd = 0 then 0 else 1)"
  by (simp add: side_enum_def side_of_u8_def)

lemma read_level_row_run:
  assumes p: "gd_parent g = Some d" and buf: "d_buf d = pre @ level_bytes sd t l @ post"
    and off: "gd_offset g = length pre" and len: "length (d_buf d) < 2 ^ 64"
  shows "read_level_row g = Inr (if sd = 0 then 0 else 1, t, l)"
proof -
  let ?D = "pre @ level_bytes sd t l @ post"
  have L: "length ?D < 2 ^ 64" using len buf by simp
  have add: "usize_add (length pre) k = length pre + k" if "k \<le> 25" for k
    using that L by simp
  have u8: "get_u8_at ?D (length pre) = Inr (u8_of_side (side_enum sd))"
    by (simp add: get_u8_at_def idx_simps level_bytes_def nth_append)
  have fields: "get_u32_at ?D (length pre + 1) = Inr t" "get_i64_at ?D (length pre + 5) = Inr (qty_total l)"
    "get_u32_at ?D (length pre + 13) = Inr (lvl_count l)" "get_u32_at ?D (length pre + 17) = Inr (head l)"
    "get_u32_at ?D (length pre + 21) = Inr (tail l)"
    using L by (auto intro!: get_take simp: level_bytes_def)
  show ?thesis
    using p off fields u8
    by (simp add: read_level_row_def ld_side_def ld_level_tick_def ld_head_def ld_tail_def
        ld_qty_total_def ld_order_count_def gd_get_def add buf side_round_trip)
qed

lemma read_order_row_run:
  assumes p: "gd_parent g = Some d" and buf: "d_buf d = pre @ order_bytes s ord @ post"
    and off: "gd_offset g = length pre" and len: "length (d_buf d) < 2 ^ 64" and sd: "is_side (side ord)"
  shows "read_order_row g = Inr (of_nat s, ord)" and "cow_read_order_row g = Inr (of_nat s, ord)"
proof -
  let ?D = "pre @ order_bytes s ord @ post"
  have L: "length ?D < 2 ^ 64" using len buf by simp
  have add: "usize_add (length pre) k = length pre + k" if "k \<le> 45" for k
    using that L by simp
  have u8: "get_u8_at ?D (length pre + 36) = Inr (u8_of_side (side_enum (side ord)))"
    by (simp add: get_u8_at_def idx_simps order_bytes_def nth_append)
  have fields: "get_u32_at ?D (length pre) = Inr (of_nat s)" "get_i64_at ?D (length pre + 4) = Inr (order_id ord)"
    "get_i64_at ?D (length pre + 12) = Inr (price ord)" "get_i64_at ?D (length pre + 20) = Inr (qty ord)"
    "get_i64_at ?D (length pre + 28) = Inr (filled ord)" "get_u32_at ?D (length pre + 37) = Inr (next_slot ord)"
    "get_u32_at ?D (length pre + 41) = Inr (prev_slot ord)"
    using L by (auto intro!: get_take simp: order_bytes_def simp del: unat_of_nat)
  have side: "side_u8 (side_of_u8 (u8_of_side (side_enum (side ord)))) = side ord"
    using sd by (auto simp: side_round_trip is_side_def)
  show "read_order_row g = Inr (of_nat s, ord)" "cow_read_order_row g = Inr (of_nat s, ord)"
    using p off fields u8 side
    by (simp_all add: read_order_row_def cow_read_order_row_def od_slot_def od_order_id_def od_price_def
        od_qty_def od_filled_def od_next_slot_def od_prev_def od_side_def gd_get_def add buf)
qed

section \<open>Rows\<close>

definition dec_at :: "group_dec \<Rightarrow> u8 list \<Rightarrow> nat \<Rightarrow> nat \<Rightarrow> nat \<Rightarrow> nat \<Rightarrow> bool" where
  "dec_at g D pos blk n k \<longleftrightarrow>
     (\<exists>d. gd_parent g = Some d \<and> d_buf d = D \<and> d_limit d = pos) \<and>
     unat (gd_block_length g) = blk \<and> unat (gd_count g) = n \<and> usize_add (gd_index g) 1 = k"

lemma group_dec_wrap_run:
  assumes "d_buf d = pre @ group_bytes blk n @ post" and "d_limit d = length pre"
    and "length (d_buf d) < 2 ^ 64"
  shows "\<exists>g. group_dec_wrap d = Inr g \<and> gd_count g = n \<and>
    dec_at g (d_buf d) (length pre + 4) (unat blk) (unat n) 0"
proof -
  let ?D = "pre @ group_bytes blk n @ post"
  have L: "length ?D < 2 ^ 64" using assms by simp
  have add: "usize_add (length pre) k = length pre + k" if "k \<le> 4" for k
    using that L by simp
  have "get_u16_at ?D (length pre) = Inr blk" "get_u16_at ?D (length pre + 2) = Inr n"
    using L by (auto intro!: get_take simp: group_bytes_def)
  then show ?thesis
    using assms by (simp add: group_dec_wrap_def Let_def add dec_at_def USIZE_MAX_def usize_add_def)
qed

lemma next_row_run:
  assumes at: "dec_at g D pos blk n k" and k: "k < n" and len: "pos + blk < 2 ^ 64"
  shows "\<exists>g'. next_row g = Inr g' \<and> gd_offset g' = pos \<and> dec_at g' D (pos + blk) blk n (Suc k)"
proof -
  have n: "n < 2 ^ 16" using at unsigned_less [of "gd_count g", where 'a = nat] by (simp add: dec_at_def)
  show ?thesis
    using assms n by (auto simp: dec_at_def next_row_def group_dec_advance_def Let_def)
qed

definition put_level_row :: "u8 \<times> nat \<times> price_level \<Rightarrow> book \<Rightarrow> book" where
  "put_level_row = (\<lambda>(sd, t, l) b. set_lane b sd ((lane b sd)[t := l]))"

lemma load_levels_run:
  assumes "dec_at g (pre @ concat (map (\<lambda>(sd, t, l). level_bytes sd (of_nat t) l) rows) @ post)
      (length pre) 25 n k"
    and "k + length rows \<le> n"
    and "length (pre @ concat (map (\<lambda>(sd, t, l). level_bytes sd (of_nat t) l) rows) @ post) < 2 ^ 64"
    and "\<And>sd t l. (sd, t, l) \<in> set rows \<Longrightarrow> is_side sd \<and> t < length (lane b sd) \<and> t < 2 ^ 32"
  shows "\<exists>g'. try_iter load_level (length rows) (g, b) = Inr (g', fold put_level_row rows b) \<and>
    dec_at g' (pre @ concat (map (\<lambda>(sd, t, l). level_bytes sd (of_nat t) l) rows) @ post)
      (length pre + 25 * length rows) 25 n (k + length rows)"
  using assms
proof (induction rows arbitrary: g pre k b)
  case Nil
  then show ?case by simp
next
  case (Cons row rows)
  obtain sd t l where row: "row = (sd, t, l)" by (cases row)
  have st: "is_side sd" "t < length (lane b sd)" "t < 2 ^ 32" using Cons.prems(4) by (auto simp: row)
  let ?bytes = "\<lambda>(sd, t, l). level_bytes sd (of_nat t) l"
  let ?D = "pre @ concat (map ?bytes (row # rows)) @ post"
  obtain g1 where g1: "next_row g = Inr g1" "gd_offset g1 = length pre"
    "dec_at g1 ?D (length pre + 25) 25 n (Suc k)"
    using next_row_run [OF Cons.prems(1)] Cons.prems(2,3) by (auto simp: row)
  obtain d where d: "gd_parent g1 = Some d" "d_buf d = ?D" using g1(3) by (auto simp: dec_at_def)
  have "read_level_row g1 = Inr (if sd = 0 then 0 else 1, of_nat t, l)"
    using d g1(2) Cons.prems(3)
    by (intro read_level_row_run [of g1 d pre sd "of_nat t" l "concat (map ?bytes rows) @ post"])
      (simp_all add: row)
  moreover have "(if sd = 0 then 0 else 1) = sd" using st(1) by (auto simp: is_side_def)
  moreover have "unat (of_nat t :: u32) = t" using st(3) by (intro unat_of_nat_u32) simp
  ultimately have step: "load_level (g, b) = Inr (g1, put_level_row row b)"
    using g1(1) st by (simp add: load_level_def modify_level_def idx_simps put_level_row_def row
        del: unat_of_nat)
  have D: "?D = (pre @ level_bytes sd (of_nat t) l) @ concat (map ?bytes rows) @ post"
    by (simp add: row)
  have "\<exists>g'. try_iter load_level (length rows) (g1, put_level_row row b) =
      Inr (g', fold put_level_row rows (put_level_row row b)) \<and>
    dec_at g' ((pre @ level_bytes sd (of_nat t) l) @ concat (map ?bytes rows) @ post)
      (length (pre @ level_bytes sd (of_nat t) l) + 25 * length rows) 25 n (Suc k + length rows)"
  proof (rule Cons.IH)
    show "dec_at g1 ((pre @ level_bytes sd (of_nat t) l) @ concat (map ?bytes rows) @ post)
        (length (pre @ level_bytes sd (of_nat t) l)) 25 n (Suc k)"
      using g1(3) unfolding D by simp
    show "Suc k + length rows \<le> n" using Cons.prems(2) by simp
    show "length ((pre @ level_bytes sd (of_nat t) l) @ concat (map ?bytes rows) @ post) < 2 ^ 64"
      using Cons.prems(3) unfolding D .
    show "is_side sd' \<and> t' < length (lane (put_level_row row b) sd') \<and> t' < 2 ^ 32"
      if "(sd', t', l') \<in> set rows" for sd' t' l'
      using Cons.prems(4) [of sd' t' l'] that st(1) by (auto simp: put_level_row_def row lane_set_lane)
  qed
  then show ?case using step unfolding D [symmetric] by (auto simp: add.assoc)
qed

definition put_order_row :: "nat \<times> order \<Rightarrow> book \<Rightarrow> book" where
  "put_order_row = (\<lambda>(s, ord) b. let b = b\<lparr>pool := (pool b)[s := ord]\<rparr> in
     if order_id ord \<noteq> 0 then b\<lparr>idmap := (idmap b)(order_id ord \<mapsto> of_nat s)\<rparr> else b)"

lemma load_orders_run:
  assumes "dec_at g (pre @ concat (map (\<lambda>(s, ord). order_bytes s ord) rows) @ post) (length pre) 45 n k"
    and "k + length rows \<le> n"
    and "length (pre @ concat (map (\<lambda>(s, ord). order_bytes s ord) rows) @ post) < 2 ^ 64"
    and "\<And>s ord. (s, ord) \<in> set rows \<Longrightarrow> is_side (side ord) \<and> s < length (pool b) \<and> s < 2 ^ 32"
  shows "\<exists>g'. try_iter load_order (length rows) (g, b) = Inr (g', fold put_order_row rows b)"
  using assms
proof (induction rows arbitrary: g pre k b)
  case Nil
  then show ?case by simp
next
  case (Cons row rows)
  obtain s ord where row: "row = (s, ord)" by (cases row)
  have st: "is_side (side ord)" "s < length (pool b)" "s < 2 ^ 32" using Cons.prems(4) by (auto simp: row)
  let ?bytes = "\<lambda>(s, ord). order_bytes s ord"
  let ?D = "pre @ concat (map ?bytes (row # rows)) @ post"
  obtain g1 where g1: "next_row g = Inr g1" "gd_offset g1 = length pre"
    "dec_at g1 ?D (length pre + 45) 45 n (Suc k)"
    using next_row_run [OF Cons.prems(1)] Cons.prems(2,3) by (auto simp: row)
  obtain d where d: "gd_parent g1 = Some d" "d_buf d = ?D" using g1(3) by (auto simp: dec_at_def)
  have "read_order_row g1 = Inr (of_nat s, ord)"
    using d g1(2) Cons.prems(3) st(1)
    by (intro read_order_row_run [of g1 d pre s ord "concat (map ?bytes rows) @ post"])
      (simp_all add: row)
  moreover have "unat (of_nat s :: u32) = s" using st(3) by (intro unat_of_nat_u32) simp
  ultimately have step: "load_order (g, b) = Inr (g1, put_order_row row b)"
    using g1(1) st by (simp add: load_order_def modify_order_def idx_simps put_order_row_def row Let_def
        del: unat_of_nat)
  have D: "?D = (pre @ order_bytes s ord) @ concat (map ?bytes rows) @ post"
    by (simp add: row)
  have "\<exists>g'. try_iter load_order (length rows) (g1, put_order_row row b) =
      Inr (g', fold put_order_row rows (put_order_row row b))"
  proof (rule Cons.IH)
    show "dec_at g1 ((pre @ order_bytes s ord) @ concat (map ?bytes rows) @ post)
        (length (pre @ order_bytes s ord)) 45 n (Suc k)"
      using g1(3) unfolding D by simp
    show "Suc k + length rows \<le> n" using Cons.prems(2) by simp
    show "length ((pre @ order_bytes s ord) @ concat (map ?bytes rows) @ post) < 2 ^ 64"
      using Cons.prems(3) unfolding D .
    show "is_side (side ord') \<and> s' < length (pool (put_order_row row b)) \<and> s' < 2 ^ 32"
      if "(s', ord') \<in> set rows" for s' ord'
      using Cons.prems(4) [of s' ord'] that by (auto simp: put_order_row_def row Let_def)
  qed
  then show ?case using step by auto
qed

section \<open>Rebuilding the book\<close>

text \<open>Writing back elements a vector already has gives that vector where they were written.\<close>

lemma fold_updates:
  assumes "\<And>t x. (t, x) \<in> set rows \<Longrightarrow> x = ls ! t" and "length base = length ls"
  shows "length (fold (\<lambda>(t, x) xs. xs[t := x]) rows base) = length ls \<and>
    (\<forall>i < length ls. fold (\<lambda>(t, x) xs. xs[t := x]) rows base ! i =
       (if i \<in> fst ` set rows then ls ! i else base ! i))"
  using assms
proof (induction rows arbitrary: base)
  case Nil
  then show ?case by simp
next
  case (Cons row rows)
  obtain t x where row: "row = (t, x)" by (cases row)
  have x: "x = ls ! t" using Cons.prems(1) by (simp add: row)
  have IH: "length (fold (\<lambda>(t, x) xs. xs[t := x]) rows (base[t := x])) = length ls \<and>
    (\<forall>i < length ls. fold (\<lambda>(t, x) xs. xs[t := x]) rows (base[t := x]) ! i =
       (if i \<in> fst ` set rows then ls ! i else base[t := x] ! i))"
  proof (rule Cons.IH)
    show "y = ls ! i" if "(i, y) \<in> set rows" for i y using Cons.prems(1) [of i y] that by simp
    show "length (base[t := x]) = length ls" using Cons.prems(2) by simp
  qed
  have "fold (\<lambda>(t, x) xs. xs[t := x]) (row # rows) base ! i =
      (if i \<in> fst ` set (row # rows) then ls ! i else base ! i)" if i: "i < length ls" for i
    using IH i x Cons.prems(2) by (cases "t = i") (simp_all add: row)
  then show ?case using IH by (simp add: row)
qed

lemma fold_occupied:
  assumes "\<And>i. i < length ls \<Longrightarrow> head (ls ! i) = NIL \<Longrightarrow> ls ! i = empty_level"
  shows "fold (\<lambda>(t, l) xs. xs[t := l]) (occupied ls) (replicate (length ls) empty_level) = ls"
proof -
  have rows: "(t, l) \<in> set (occupied ls) \<longleftrightarrow> t < length ls \<and> l = ls ! t \<and> head l \<noteq> NIL" for t l
    by (auto simp: occupied_def in_set_enumerate_eq)
  note f = fold_updates [of "occupied ls" ls "replicate (length ls) empty_level"]
  show ?thesis
  proof (rule nth_equalityI)
    show "length (fold (\<lambda>(t, l) xs. xs[t := l]) (occupied ls) (replicate (length ls) empty_level)) = length ls"
      using f rows by auto
    fix i
    assume "i < length (fold (\<lambda>(t, l) xs. xs[t := l]) (occupied ls) (replicate (length ls) empty_level))"
    then have i: "i < length ls" using f rows by auto
    show "fold (\<lambda>(t, l) xs. xs[t := l]) (occupied ls) (replicate (length ls) empty_level) ! i = ls ! i"
    proof (cases "head (ls ! i) = NIL")
      case True
      then have "i \<notin> fst ` set (occupied ls)" using rows by force
      then show ?thesis using f rows i assms [OF i True] by simp
    next
      case False
      then have "(i, ls ! i) \<in> set (occupied ls)" using rows i by simp
      then have "i \<in> fst ` set (occupied ls)" by force
      then show ?thesis using f rows i by simp
    qed
  qed
qed

definition level_rows :: "book \<Rightarrow> (u8 \<times> nat \<times> price_level) list" where
  "level_rows b = map (\<lambda>(t, l). (0, t, l)) (occupied (bids b)) @ map (\<lambda>(t, l). (1, t, l)) (occupied (asks b))"

lemma fold_bid_rows:
  "fold put_level_row (map (\<lambda>(t, l). (0, t, l)) xs) b =
   b\<lparr>bids := fold (\<lambda>(t, l) ls. ls[t := l]) xs (bids b)\<rparr>"
  by (induction xs arbitrary: b) (auto simp: put_level_row_def set_lane_def lane_def)

lemma fold_ask_rows:
  "fold put_level_row (map (\<lambda>(t, l). (1, t, l)) xs) b =
   b\<lparr>asks := fold (\<lambda>(t, l) ls. ls[t := l]) xs (asks b)\<rparr>"
  by (induction xs arbitrary: b) (auto simp: put_level_row_def set_lane_def lane_def)

definition order_rows :: "book \<Rightarrow> (nat \<times> order) list" where
  "order_rows b = map (\<lambda>s. (s, pool b ! s)) [0..<unat (hwm b)]"

definition id_step :: "nat \<times> order \<Rightarrow> (i64 \<rightharpoonup> u32) \<Rightarrow> (i64 \<rightharpoonup> u32)" where
  "id_step = (\<lambda>(s, ord) m. if order_id ord \<noteq> 0 then m(order_id ord \<mapsto> of_nat s) else m)"

lemma fold_order_rows:
  "fold put_order_row rows b =
   b\<lparr>pool := fold (\<lambda>(s, ord) p. p[s := ord]) rows (pool b), idmap := fold id_step rows (idmap b)\<rparr>"
  by (induction rows arbitrary: b) (auto simp: put_order_row_def id_step_def Let_def)

lemma fold_id_step:
  assumes "\<And>j k. j < n \<Longrightarrow> k < n \<Longrightarrow> order_id (p ! j) = order_id (p ! k) \<Longrightarrow> order_id (p ! j) \<noteq> 0 \<Longrightarrow> j = k"
  shows "fold id_step (map (\<lambda>s. (s, p ! s)) [0..<n]) Map.empty i = Some s \<longleftrightarrow>
    (\<exists>j < n. order_id (p ! j) = i \<and> i \<noteq> 0 \<and> s = of_nat j)"
  using assms
proof (induction n)
  case 0
  then show ?case by simp
next
  case (Suc n)
  have IH: "fold id_step (map (\<lambda>s. (s, p ! s)) [0..<n]) Map.empty i = Some s \<longleftrightarrow>
    (\<exists>j < n. order_id (p ! j) = i \<and> i \<noteq> 0 \<and> s = of_nat j)"
    using Suc.prems by (intro Suc.IH) simp
  show ?case
  proof (cases "order_id (p ! n) \<noteq> 0 \<and> order_id (p ! n) = i")
    case True
    then have "j = n" if "j < Suc n" "order_id (p ! j) = i" for j
      using Suc.prems [of j n] that True by simp
    then show ?thesis using True by (auto simp: id_step_def less_Suc_eq)
  next
    case False
    then show ?thesis using IH by (auto simp: id_step_def less_Suc_eq)
  qed
qed

text \<open>Every occupied level holds a live slot, so they are not more.\<close>

lemma level_total_live:
  assumes inv: "core_inv b Q F"
  shows "level_total b \<le> length (filter (\<lambda>i. order_id (pool b ! i) \<noteq> 0) [0..<unat (hwm b)])"
proof -
  let ?keys = "{(sd, t). is_side sd \<and> t < unat (n_levels b) \<and> Q sd t \<noteq> []}"
  let ?f = "\<lambda>(sd, t). unat (hd (Q sd t))"
  have occ: "length (occupied (lane b sd)) = card {t. t < unat (n_levels b) \<and> Q sd t \<noteq> []}"
    if sd: "is_side sd" for sd
  proof -
    let ?ls = "lane b sd"
    have len: "length ?ls = unat (n_levels b)" by (rule core_inv_lane_length [OF inv sd])
    have "distinct (map fst (occupied ?ls))"
      unfolding occupied_def by (rule distinct_map_filter) (simp add: map_fst_enumerate)
    then have "length (occupied ?ls) = card (set (map fst (occupied ?ls)))"
      by (metis distinct_card length_map)
    also have "set (map fst (occupied ?ls)) = {t. t < unat (n_levels b) \<and> Q sd t \<noteq> []}"
      using fifo_ok_head [OF core_inv_fifo [OF inv sd]] len
      by (force simp: occupied_def in_set_enumerate_eq image_iff)
    finally show ?thesis .
  qed
  have inj: "inj_on ?f ?keys"
  proof (rule inj_onI)
    fix x y
    assume xy: "x \<in> ?keys" "y \<in> ?keys" "?f x = ?f y"
    obtain sd t sd' t' where p: "x = (sd, t)" "y = (sd', t')" by (cases x; cases y)
    then have "hd (Q sd t) = hd (Q sd' t')" using xy(3) by (simp add: word_unat_eq_iff)
    moreover have "hd (Q sd t) \<in> set (Q sd t)" "hd (Q sd' t') \<in> set (Q sd' t')" using xy p by auto
    ultimately show "x = y"
      using core_inv_mem [OF inv, of sd t "hd (Q sd t)"] core_inv_mem [OF inv, of sd' t' "hd (Q sd t)"]
        on_level_unique xy p by (metis (mono_tags, lifting) case_prodD mem_Collect_eq)
  qed
  let ?live = "filter (\<lambda>i. order_id (pool b ! i) \<noteq> 0) [0..<unat (hwm b)]"
  have sub: "?f ` ?keys \<subseteq> set ?live"
    using core_inv_mem [OF inv] hd_in_set by (fastforce simp: used_slot_def)
  have keys: "?keys = (\<lambda>t. (0, t)) ` {t. t < unat (n_levels b) \<and> Q 0 t \<noteq> []} \<union>
      (\<lambda>t. (1, t)) ` {t. t < unat (n_levels b) \<and> Q 1 t \<noteq> []}"
    by (auto simp: is_side_def)
  have "card ?keys = level_total b"
    unfolding keys level_total_def
    by (subst card_Un_disjoint)
      (auto simp: card_image inj_on_def occ [of 0, unfolded lane_def, simplified]
        occ [of 1, unfolded lane_def, simplified])
  moreover have "card ?keys \<le> card (set ?live)" using card_inj_on_le [OF inj sub] by simp
  moreover have "card (set ?live) = length ?live" by (intro distinct_card) simp
  ultimately show ?thesis by simp
qed

lemma level_total_bound:
  assumes "core_inv b Q F"
  shows "level_total b \<le> unat (hwm b)"
  using level_total_live [OF assms] length_filter_le [of "\<lambda>i. order_id (pool b ! i) \<noteq> 0" "[0..<unat (hwm b)]"]
  by simp

end
