(* ===== verification/Snapshot_Img.thy ===== *)
theory Snapshot_Img
  imports Snapshot_Dec
begin

text \<open>
  The way back from an image: the fields of its root block, and the book that the rows of its
  two groups rebuild, the id map included.
\<close>

section \<open>The root block\<close>

definition root_dec :: "u8 list \<Rightarrow> bs_dec" where
  "root_dec body = bs_dec_wrap body 8 40 2"

lemma image_root:
  "\<exists>rest. image b = header_bytes @ root_bytes (price_min b) (tick b) (n_levels b)
     (of_nat (length (pool b))) (hwm b) (best_bid b) (best_ask b) (free_head b) @ rest"
  by (simp add: image_def)

lemma header_reads:
  assumes "length (header_bytes @ rest) < 2 ^ 64"
  shows "hd_version (hd_wrap (header_bytes @ rest) 0) = Inr 2"
    and "bs_dec_header (hd_wrap (header_bytes @ rest) 0) 0 = Inr (root_dec (header_bytes @ rest))"
proof -
  have "get_u16_at (header_bytes @ rest) 6 = Inr 2" "get_u16_at (header_bytes @ rest) 0 = Inr 40"
    using assms by (auto intro!: get_take simp: header_bytes_def)
  then show "hd_version (hd_wrap (header_bytes @ rest) 0) = Inr 2"
    "bs_dec_header (hd_wrap (header_bytes @ rest) 0) 0 = Inr (root_dec (header_bytes @ rest))"
    by (simp_all add: hd_version_def hd_get_def hd_wrap_def bs_dec_header_def hd_block_length_def
        root_dec_def ENCODED_LENGTH_def)
qed

lemma root_reads:
  assumes "D = header_bytes @ root_bytes pmin tk nl cap hw bb ba fh @ rest" and "length D < 2 ^ 64"
  shows "ds_price_min (root_dec D) = Inr pmin" and "ds_tick_size (root_dec D) = Inr tk"
    and "ds_nl_evels (root_dec D) = Inr nl" and "ds_capacity (root_dec D) = Inr cap"
    and "ds_hwm (root_dec D) = Inr hw" and "ds_best_bid (root_dec D) = Inr bb"
    and "ds_best_ask (root_dec D) = Inr ba" and "ds_free_head (root_dec D) = Inr fh"
  using assms
  by (auto intro!: get_take simp: ds_price_min_def ds_tick_size_def ds_nl_evels_def ds_capacity_def
      ds_hwm_def ds_best_bid_def ds_best_ask_def ds_free_head_def root_dec_def bs_dec_wrap_def
      root_bytes_def)

section \<open>Rebuilding\<close>

lemma rebuild_pool:
  assumes "n \<le> length p" and "\<And>i. n \<le> i \<Longrightarrow> i < length p \<Longrightarrow> p ! i = zero_order"
  shows "fold (\<lambda>(s, ord) p. p[s := ord]) (map (\<lambda>s. (s, p ! s)) [0..<n]) (replicate (length p) zero_order) = p"
proof -
  let ?rows = "map (\<lambda>s. (s, p ! s)) [0..<n]"
  let ?new = "fold (\<lambda>(s, ord) p. p[s := ord]) ?rows (replicate (length p) zero_order)"
  have new: "length ?new = length p \<and> (\<forall>i < length p. ?new ! i =
      (if i \<in> fst ` set ?rows then p ! i else replicate (length p) zero_order ! i))"
    by (rule fold_updates) auto
  have mem: "i \<in> fst ` set ?rows \<longleftrightarrow> i < n" for i by force
  show ?thesis
  proof (rule nth_equalityI)
    show "length ?new = length p" using new by blast
    show "?new ! i = p ! i" if "i < length ?new" for i
    proof (cases "i < n")
      case True
      then show ?thesis using new that mem by simp
    next
      case False
      then show ?thesis using new that mem assms(2) [of i] by simp
    qed
  qed
qed

lemma rebuild_ids:
  assumes inv: "core_inv b Q F"
  shows "fold id_step (order_rows b) Map.empty = idmap b"
proof (rule ext)
  fix i
  let ?m = "fold id_step (order_rows b) Map.empty"
  have h: "unat (hwm b) \<le> length (pool b)" "length (pool b) < 4294967296"
    using core_inv_hwm [OF inv] core_inv_pool_bound [OF inv] .
  have slot: "unat (of_nat j :: u32) = j" if "j < unat (hwm b)" for j
    using that h by (intro unat_of_nat_u32) simp
  have uniq: "j = k" if "j < unat (hwm b)" "k < unat (hwm b)" "order_id (pool b ! j) = order_id (pool b ! k)"
      "order_id (pool b ! j) \<noteq> 0" for j k
  proof -
    have "used_slot b (of_nat j)" "used_slot b (of_nat k)"
      unfolding used_slot_def slot [OF that(1)] slot [OF that(2)] using that by simp_all
    then have "idmap b (order_id (pool b ! j)) = Some (of_nat j)"
      "idmap b (order_id (pool b ! j)) = Some (of_nat k)"
      unfolding core_inv_id [OF inv] slot [OF that(1)] slot [OF that(2)] using that by simp_all
    then show "j = k" using slot that by (metis option.inject)
  qed
  have "?m i = Some s \<longleftrightarrow> idmap b i = Some s" for s
  proof -
    have "?m i = Some s \<longleftrightarrow> (\<exists>j < unat (hwm b). order_id (pool b ! j) = i \<and> i \<noteq> 0 \<and> s = of_nat j)"
      unfolding order_rows_def by (rule fold_id_step) (use uniq in blast)
    also have "\<dots> \<longleftrightarrow> used_slot b s \<and> order_id (order_at (pool b) s) = i"
    proof
      assume "\<exists>j < unat (hwm b). order_id (pool b ! j) = i \<and> i \<noteq> 0 \<and> s = of_nat j"
      then obtain j where j: "j < unat (hwm b)" "order_id (pool b ! j) = i" "i \<noteq> 0" "s = of_nat j" by blast
      then have "unat s = j" using slot by blast
      with j show "used_slot b s \<and> order_id (order_at (pool b) s) = i" by (simp add: used_slot_def)
    next
      assume "used_slot b s \<and> order_id (order_at (pool b) s) = i"
      then show "\<exists>j < unat (hwm b). order_id (pool b ! j) = i \<and> i \<noteq> 0 \<and> s = of_nat j"
        by (intro exI [of _ "unat s"]) (auto simp: used_slot_def)
    qed
    finally show ?thesis unfolding core_inv_id [OF inv] .
  qed
  then show "?m i = idmap b i" by (metis option.exhaust)
qed

lemma rebuild_lane:
  assumes inv: "core_inv b Q F" and sd: "is_side sd"
  shows "fold (\<lambda>(t, l) ls. ls[t := l]) (occupied (lane b sd)) (replicate (unat (n_levels b)) empty_level) =
    lane b sd"
proof -
  have len: "length (lane b sd) = unat (n_levels b)" by (rule core_inv_lane_length [OF inv sd])
  show ?thesis unfolding len [symmetric]
  proof (rule fold_occupied)
    fix i
    assume i: "i < length (lane b sd)" "head (lane b sd ! i) = NIL"
    then have f: "fifo_ok (pool b) (lane b sd ! i) (Q sd i)"
      using core_inv_fifo [OF inv sd] len by simp
    then have "Q sd i = []" using fifo_ok_head i(2) by blast
    with f show "lane b sd ! i = empty_level" by (simp add: fifo_ok_empty)
  qed
qed

lemma rebuild:
  assumes inv: "core_inv b Q F"
  shows "fold put_order_row (order_rows b) (fold put_level_row (level_rows b)
      (b\<lparr>bids := replicate (unat (n_levels b)) empty_level,
         asks := replicate (unat (n_levels b)) empty_level,
         pool := replicate (length (pool b)) zero_order, idmap := Map.empty\<rparr>)) = b"
proof -
  have p: "fold (\<lambda>(s, ord) p. p[s := ord]) (order_rows b) (replicate (length (pool b)) zero_order) = pool b"
    unfolding order_rows_def
    by (rule rebuild_pool) (use inv in \<open>simp_all add: core_inv_def geometry_ok_def grid_ok_def\<close>)
  show ?thesis
    using rebuild_lane [OF inv, of 0] rebuild_lane [OF inv, of 1]
    by (simp add: level_rows_def fold_bid_rows [simplified] fold_ask_rows [simplified] fold_order_rows p rebuild_ids [OF inv] lane_def)
qed

end
