(* ===== verification/Snapshot_Round.thy ===== *)
theory Snapshot_Round
  imports Snapshot_Img
begin

text \<open>
  Restoring an image gives back the book it was encoded from: the decoders of the two groups
  stand where the encoder wrote them, and their rows rebuild the book.
\<close>

lemma group_parent_at: "dec_at g D pos blk n k \<Longrightarrow>
   \<exists>d. expect_sbe (group_dec_parent g) = Inr d \<and> d_buf d = D \<and> d_limit d = pos"
  by (auto simp: dec_at_def group_dec_parent_def)

text \<open>
  The two groups of an image, read into any book whose lanes and pool are as long as those of
  the encoded one.
\<close>

lemma image_split:
  "image b = (header_bytes @ root_bytes (price_min b) (tick b) (n_levels b) (of_nat (length (pool b)))
      (hwm b) (best_bid b) (best_ask b) (free_head b)) @ group_bytes LEVELS_BLOCK (of_nat (level_total b)) @
    concat (map (\<lambda>(sd, t, l). level_bytes sd (of_nat t) l) (level_rows b)) @
    group_bytes ORDERS_BLOCK (ucast (hwm b)) @
    concat (map (\<lambda>(s, ord). order_bytes s ord) (order_rows b))"
  by (simp add: image_def lane_bytes_def level_rows_def order_rows_def comp_def case_prod_unfold)

lemma length_rows [simp]:
  "length (level_rows b) = level_total b" "length (order_rows b) = unat (hwm b)"
  by (simp_all add: level_rows_def level_total_def order_rows_def)

lemma level_rows_bounds:
  "core_inv b Q F \<Longrightarrow> (sd, t, l) \<in> set (level_rows b) \<Longrightarrow>
   is_side sd \<and> t < unat (n_levels b) \<and> t < 2 ^ 32"
  by (auto simp: level_rows_def occupied_def in_set_enumerate_eq core_inv_def geometry_ok_def)

lemma order_rows_bounds:
  assumes "core_inv b Q F" and "(s, ord) \<in> set (order_rows b)"
  shows "is_side (side ord) \<and> s < length (pool b) \<and> s < 2 ^ 32"
  using assms by (auto simp: order_rows_def core_inv_def geometry_ok_def grid_ok_def)

lemma levels_of_image:
  assumes len: "length (image b) < 2 ^ 64" and lv: "level_total b < 65536"
  shows "\<exists>g. levels_decoder (root_dec (image b)) = Inr g \<and> unat (gd_count g) = level_total b \<and>
    dec_at g (image b) 52 25 (level_total b) 0"
proof -
  let ?pre = "header_bytes @ root_bytes (price_min b) (tick b) (n_levels b) (of_nat (length (pool b)))
      (hwm b) (best_bid b) (best_ask b) (free_head b)"
  have "\<exists>g. group_dec_wrap (root_dec (image b)) = Inr g \<and> gd_count g = of_nat (level_total b) \<and>
    dec_at g (d_buf (root_dec (image b))) (length ?pre + 4) (unat LEVELS_BLOCK)
      (unat (of_nat (level_total b) :: u16)) 0"
    by (rule group_dec_wrap_run)
      (use image_split [of b] len in \<open>simp_all add: root_dec_def bs_dec_wrap_def\<close>)
  then show ?thesis
    using unat_of_nat_u16 [OF lv] by (auto simp: levels_decoder_def root_dec_def bs_dec_wrap_def)
qed

lemma orders_of_image:
  assumes len: "length (image b) < 2 ^ 64" and hw: "unat (hwm b) < 65536"
    and at: "dec_at g (image b) (52 + 25 * level_total b) 25 n k"
  shows "\<exists>d g'. expect_sbe (group_dec_parent g) = Inr d \<and> orders_decoder d = Inr g' \<and>
    unat (gd_count g') = unat (hwm b) \<and>
    dec_at g' (image b) (56 + 25 * level_total b) 45 (unat (hwm b)) 0"
proof -
  obtain d where d: "expect_sbe (group_dec_parent g) = Inr d" "d_buf d = image b"
    "d_limit d = 52 + 25 * level_total b"
    using group_parent_at [OF at] by blast
  let ?pre = "(header_bytes @ root_bytes (price_min b) (tick b) (n_levels b) (of_nat (length (pool b)))
      (hwm b) (best_bid b) (best_ask b) (free_head b)) @ group_bytes LEVELS_BLOCK (of_nat (level_total b)) @
    concat (map (\<lambda>(sd, t, l). level_bytes sd (of_nat t) l) (level_rows b))"
  have pre: "length ?pre = 52 + 25 * level_total b"
    using length_concat_blocks [of "level_rows b" "\<lambda>(sd, t, l). level_bytes sd (of_nat t) l" 25] by auto
  have "\<exists>g. group_dec_wrap d = Inr g \<and> gd_count g = ucast (hwm b) \<and>
    dec_at g (d_buf d) (length ?pre + 4) (unat ORDERS_BLOCK) (unat (ucast (hwm b) :: u16)) 0"
    by (rule group_dec_wrap_run) (use image_split [of b] len d pre in simp_all)
  then show ?thesis
    using unat_ucast_u16 [OF hw] d unfolding orders_decoder_def pre by (auto simp: add.commute)
qed

lemma load_image_levels:
  assumes inv: "core_inv b Q F" and len: "length (image b) < 2 ^ 64"
    and at: "dec_at g (image b) 52 25 (level_total b) 0"
    and b0: "length (bids b0) = unat (n_levels b)" "length (asks b0) = unat (n_levels b)"
  shows "\<exists>g'. try_iter load_level (level_total b) (g, b0) = Inr (g', fold put_level_row (level_rows b) b0) \<and>
    dec_at g' (image b) (52 + 25 * level_total b) 25 (level_total b) (level_total b)"
proof -
  let ?pre = "(header_bytes @ root_bytes (price_min b) (tick b) (n_levels b) (of_nat (length (pool b)))
      (hwm b) (best_bid b) (best_ask b) (free_head b)) @ group_bytes LEVELS_BLOCK (of_nat (level_total b))"
  let ?post = "group_bytes ORDERS_BLOCK (ucast (hwm b)) @
      concat (map (\<lambda>(s, ord). order_bytes s ord) (order_rows b))"
  have pre: "length ?pre = 52" by simp
  have D: "?pre @ concat (map (\<lambda>(sd, t, l). level_bytes sd (of_nat t) l) (level_rows b)) @ ?post = image b"
    unfolding image_split by simp
  have "is_side sd \<and> t < length (lane b0 sd) \<and> t < 2 ^ 32" if "(sd, t, l) \<in> set (level_rows b)" for sd t l
    using level_rows_bounds [OF inv that] b0 by (auto simp: lane_def)
  from load_levels_run [of g ?pre "level_rows b" ?post "level_total b" 0 b0, unfolded D pre, OF at _ len this]
  show ?thesis by simp
qed

lemma load_image_orders:
  assumes inv: "core_inv b Q F" and len: "length (image b) < 2 ^ 64"
    and at: "dec_at g (image b) (56 + 25 * level_total b) 45 (unat (hwm b)) 0"
    and b0: "length (pool b0) = length (pool b)"
  shows "\<exists>g'. try_iter load_order (unat (hwm b)) (g, b0) = Inr (g', fold put_order_row (order_rows b) b0)"
proof -
  let ?pre = "(header_bytes @ root_bytes (price_min b) (tick b) (n_levels b) (of_nat (length (pool b)))
      (hwm b) (best_bid b) (best_ask b) (free_head b)) @ group_bytes LEVELS_BLOCK (of_nat (level_total b)) @
    concat (map (\<lambda>(sd, t, l). level_bytes sd (of_nat t) l) (level_rows b)) @
    group_bytes ORDERS_BLOCK (ucast (hwm b))"
  have pre: "length ?pre = 56 + 25 * level_total b"
    using length_concat_blocks [of "level_rows b" "\<lambda>(sd, t, l). level_bytes sd (of_nat t) l" 25] by auto
  have D: "?pre @ concat (map (\<lambda>(s, ord). order_bytes s ord) (order_rows b)) @ [] = image b"
    unfolding image_split by simp
  have "is_side (side ord) \<and> s < length (pool b0) \<and> s < 2 ^ 32" if "(s, ord) \<in> set (order_rows b)" for s ord
    using order_rows_bounds [OF inv that] b0 by simp
  from load_orders_run [of g ?pre "order_rows b" "[]" "unat (hwm b)" 0 b0, unfolded D pre, OF at _ len this]
  show ?thesis by simp
qed

lemma fold_level_rows_pool: "length (pool (fold put_level_row rows b0)) = length (pool b0)"
  by (induction rows arbitrary: b0) (auto simp: put_level_row_def)

text \<open>The image with its checksum restores to the encoded book.\<close>

lemma restore_image:
  assumes inv: "core_inv b Q F" and hw: "unat (hwm b) < 65536" and len: "length (image b) + 4 < 2 ^ 64"
    and cfg: "cfg_cap cfg = length (pool b)" "cfg_levels cfg = n_levels b"
  shows "restore crc (image b @ le_bytes 4 (unat (crc (image b)))) cfg = Inr (Inr b)"
proof -
  let ?D = "image b"
  have L: "length ?D < 2 ^ 64" and lv: "level_total b < 65536"
    using len hw level_total_bound [OF inv] by simp_all
  define b0 where "b0 = (book_new cfg)\<lparr>price_min := price_min b, tick := tick b, n_levels := n_levels b,
      hwm := hwm b, best_bid := best_bid b, best_ask := best_ask b, free_head := free_head b\<rparr>"
  obtain rest where D: "?D = header_bytes @ root_bytes (price_min b) (tick b) (n_levels b)
      (of_nat (length (pool b))) (hwm b) (best_bid b) (best_ask b) (free_head b) @ rest"
    using image_root by blast
  note hdr = header_reads [of "root_bytes (price_min b) (tick b) (n_levels b) (of_nat (length (pool b)))
      (hwm b) (best_bid b) (best_ask b) (free_head b) @ rest", folded D, OF L]
  note root = root_reads [OF D L]
  have cap: "unat (of_nat (length (pool b)) :: u32) = length (pool b)"
    using core_inv_pool_bound [OF inv] by (rule unat_of_nat_u32)
  obtain g where g: "levels_decoder (root_dec ?D) = Inr g" "unat (gd_count g) = level_total b"
    "dec_at g ?D 52 25 (level_total b) 0"
    using levels_of_image [OF L lv] by blast
  obtain g1 where g1: "try_iter load_level (level_total b) (g, b0) = Inr (g1, fold put_level_row (level_rows b) b0)"
    "dec_at g1 ?D (52 + 25 * level_total b) 25 (level_total b) (level_total b)"
    using load_image_levels [OF inv L g(3), of b0] by (auto simp: b0_def book_new_def cfg)
  obtain d h where h: "expect_sbe (group_dec_parent g1) = Inr d" "orders_decoder d = Inr h"
    "unat (gd_count h) = unat (hwm b)" "dec_at h ?D (56 + 25 * level_total b) 45 (unat (hwm b)) 0"
    using orders_of_image [OF L hw g1(2)] by blast
  obtain h1 where h1: "try_iter load_order (unat (hwm b)) (h, fold put_level_row (level_rows b) b0) =
      Inr (h1, fold put_order_row (order_rows b) (fold put_level_row (level_rows b) b0))"
    using load_image_orders [OF inv L h(4), of "fold put_level_row (level_rows b) b0"]
    by (auto simp: fold_level_rows_pool b0_def book_new_def cfg)
  have b0: "b0 = b\<lparr>bids := replicate (unat (n_levels b)) empty_level,
      asks := replicate (unat (n_levels b)) empty_level,
      pool := replicate (length (pool b)) zero_order, idmap := Map.empty\<rparr>"
    by (simp add: b0_def book_new_def cfg)
  have want: "(of_nat (le_value (le_bytes 4 (unat (crc ?D)))) :: u32) = crc ?D"
    by (rule of_nat_le_value_u32)
  show ?thesis
    using rebuild [OF inv, folded b0]
    by (simp add: restore_def Let_def want hdr root cap cfg b0_def [symmetric] g(1,2) g1(1) h(1-3) h1)
qed

end
