(* ===== verification/Snapshot_Cow.thy ===== *)
theory Snapshot_Cow
  imports Snapshot_Round Snap_Trace
begin

text \<open>
  The snapshot codec over the copy-on-write book: encoding a frozen root writes what encoding
  the flat book it shows writes, and restoring builds a copy-on-write book whose flat view is
  the restored flat book.
\<close>

section \<open>Encoding a root\<close>

text \<open>A root whose tables split the pool and the lanes, as those of a captured book do.\<close>

definition root_chunked :: "order_chunk list \<Rightarrow> level_chunk list \<Rightarrow> root \<Rightarrow> bool" where
  "root_chunked oh lh r \<longleftrightarrow>
     0 < r_chunk r \<and>
     chunked (r_chunk r) (unat (r_capacity r)) (map (\<lambda>a. oc_orders (oh ! a)) (r_order_chunks r)) \<and>
     chunked LEVEL_CHUNK (unat (r_n_levels r)) (map (\<lambda>a. lc_levels (lh ! a)) (r_bid_chunks r)) \<and>
     chunked LEVEL_CHUNK (unat (r_n_levels r)) (map (\<lambda>a. lc_levels (lh ! a)) (r_ask_chunks r))"

lemma capture_chunked:
  "cow_ok c \<Longrightarrow> root_chunked (order_heap c) (level_heap c) (fst (capture c))"
  by (simp add: root_chunked_def capture_def cow_ok_def order_view_def level_view_def cow_table_def)

lemma root_chunked_frame:
  assumes fr: "frame c c'" and r: "frozen c r"
    and "root_chunked (order_heap c) (level_heap c) r"
  shows "root_chunked (order_heap c') (level_heap c') r"
proof -
  have "map (\<lambda>a. oc_orders (order_heap c' ! a)) (r_order_chunks r) =
      map (\<lambda>a. oc_orders (order_heap c ! a)) (r_order_chunks r)"
    using r fr by (simp add: frozen_def frame_def)
  moreover have "map (\<lambda>a. lc_levels (level_heap c' ! a)) (r_bid_chunks r) =
      map (\<lambda>a. lc_levels (level_heap c ! a)) (r_bid_chunks r)"
    "map (\<lambda>a. lc_levels (level_heap c' ! a)) (r_ask_chunks r) =
      map (\<lambda>a. lc_levels (level_heap c ! a)) (r_ask_chunks r)"
    using r fr by (simp_all add: frozen_def frame_def)
  ultimately show ?thesis using assms(3) unfolding root_chunked_def by (simp only:)
qed

lemma cow_exec_chunked:
  assumes "try_fold cow_exec cmds c = Inr c'" and "cow_ok c" and "frozen c r"
    and "unat (c_gen c) + length cmds < 2 ^ 64" and "root_chunked (order_heap c) (level_heap c) r"
  shows "root_chunked (order_heap c') (level_heap c') r"
  using assms
proof (induction cmds arbitrary: c)
  case Nil
  then show ?case by simp
next
  case (Cons cmd cmds)
  then obtain c1 where c1: "cow_exec cmd c = Inr c1" "try_fold cow_exec cmds c1 = Inr c'" by auto
  have gen: "unat (c_gen c) < 2 ^ 64 - 1" using Cons.prems(4) by simp
  note step = cow_exec_step [OF Cons.prems(2) gen c1(1)]
  have "unat (c_gen c1) + length cmds < 2 ^ 64" using step(2) Cons.prems(4) by simp
  moreover have "root_chunked (order_heap c1) (level_heap c1) r"
  proof (cases "cmd = Cmd_capture")
    case True
    then show ?thesis using c1(1) Cons.prems(5) by (auto simp: cow_exec_def capture_def)
  next
    case False
    from cow_exec_sim [OF Cons.prems(2) this] c1(1) have "frame c c1"
      by (cases "flat_exec cmd (flat c)") (simp_all add: sim_def)
    then show ?thesis using Cons.prems(3,5) by (rule root_chunked_frame)
  qed
  ultimately show ?case using Cons.IH [OF c1(2) step(1)] step(3) [OF Cons.prems(3)] by simp
qed

lemma root_order_idx:
  "root_chunked oh lh r \<Longrightarrow> root_order oh r s = idx (pool (root_book oh lh r)) (unat s)"
  using read_order_flat [of "r_chunk r" "unat (r_capacity r)" oh "r_order_chunks r"]
  by (simp add: root_order_def root_chunked_def root_book_def)

lemma root_level_idx:
  assumes "root_chunked oh lh r"
  shows "root_level lh r sd t = idx (lane (root_book oh lh r) sd) (unat t)"
  using assms read_level_flat [of "unat (r_n_levels r)" lh]
  by (simp add: root_level_def root_chunked_def root_book_def lane_def)

lemma root_lane_length:
  assumes "root_chunked oh lh r"
  shows "length (lane (root_book oh lh r) sd) = unat (r_n_levels r)"
  using assms chunked_length [of LEVEL_CHUNK "unat (r_n_levels r)" "map (\<lambda>a. lc_levels (lh ! a)) (r_bid_chunks r)"]
    chunked_length [of LEVEL_CHUNK "unat (r_n_levels r)" "map (\<lambda>a. lc_levels (lh ! a)) (r_ask_chunks r)"]
  by (simp add: root_chunked_def root_book_def lane_def)

lemma root_level_at:
  assumes "root_chunked oh lh r" and "t < unat (r_n_levels r)"
  shows "root_level lh r sd (of_nat t) = Inr (lane (root_book oh lh r) sd ! t)"
proof -
  have "unat (of_nat t :: u32) = t"
    using assms(2) unat_u32_bound [of "r_n_levels r"] by (intro unat_of_nat_u32) simp
  then show ?thesis
    unfolding root_level_idx [OF assms(1)] using root_lane_length [OF assms(1)] assms(2)
    by (simp add: idx_simps)
qed

lemma count_root_lane:
  assumes "root_chunked oh lh r"
  shows "count_occupied_root lh r sd [0..<unat (r_n_levels r)] n =
    Inr (count_occupied (lane (root_book oh lh r) sd) n)"
proof -
  let ?ls = "lane (root_book oh lh r) sd"
  have run: "count_occupied_root lh r sd ts n = Inr (count_occupied (map ((!) ?ls) ts) n)"
    if "set ts \<subseteq> {..<unat (r_n_levels r)}" for ts n
    using that by (induction ts arbitrary: n) (auto simp: root_level_at [OF assms])
  show ?thesis
    using run [of "[0..<unat (r_n_levels r)]"] root_lane_length [OF assms, of sd]
    by (metis (no_types, lifting) atLeastLessThan_iff lessThan_iff map_nth set_upt subsetI)
qed

lemma try_fold_map: "try_fold f (map g xs) s = try_fold (\<lambda>x. f (g x)) xs s"
  by (induction xs arbitrary: s) (simp_all cong: and_then_cong)

lemma enumerate_upt: "enumerate 0 xs = map (\<lambda>t. (t, xs ! t)) [0..<length xs]"
  by (rule nth_equalityI) (simp_all add: nth_enumerate_eq)

lemma write_root_lane:
  assumes "root_chunked oh lh r"
  shows "try_fold (\<lambda>t lg. and_then (root_level lh r sd (of_nat t)) (\<lambda>lvl. write_level sd (of_nat t) lvl lg))
      [0..<unat (r_n_levels r)] lg =
    try_fold (\<lambda>(t, lvl). write_level sd (of_nat t) lvl) (enumerate 0 (lane (root_book oh lh r) sd)) lg"
  unfolding enumerate_upt try_fold_map root_lane_length [OF assms]
  by (rule try_fold_fun_cong) (simp add: root_level_at [OF assms])

lemma write_root_orders:
  assumes "root_chunked oh lh r"
  shows "try_fold (\<lambda>slot og. and_then (root_order oh r (of_nat slot)) (\<lambda>ord. write_order slot ord og))
      [0..<unat (r_hwm r)] og =
    try_fold (\<lambda>slot og. and_then (idx (pool (root_book oh lh r)) slot) (\<lambda>ord. write_order slot ord og))
      [0..<unat (r_hwm r)] og"
proof (rule try_fold_fun_cong)
  fix slot u
  assume "slot \<in> set [0..<unat (r_hwm r)]"
  then have "unat (of_nat slot :: u32) = slot"
    using unat_u32_bound [of "r_hwm r"] by (intro unat_of_nat_u32) simp
  then show "and_then (root_order oh r (of_nat slot)) (\<lambda>ord. write_order slot ord u) =
      and_then (idx (pool (root_book oh lh r)) slot) (\<lambda>ord. write_order slot ord u)"
    by (simp only: root_order_idx [OF assms])
qed

lemma root_capacity:
  assumes "root_chunked oh lh r"
  shows "of_nat (length (pool (root_book oh lh r))) = r_capacity r"
proof -
  have "length (pool (root_book oh lh r)) = unat (r_capacity r)"
    unfolding root_book_def using assms chunked_length unfolding root_chunked_def by fastforce
  then show ?thesis by simp
qed

text \<open>Encoding a root is encoding the flat book it shows.\<close>

lemma encode_root_flat:
  assumes ok: "root_chunked oh lh r"
  shows "encode_root crc oh lh r buf = encode crc (root_book oh lh r) buf"
proof -
  let ?b = "root_book oh lh r"
  have lanes: "bids ?b = lane ?b 0" "asks ?b = lane ?b 1" by (simp_all add: lane_def)
  have fields: "price_min ?b = r_price_min r" "tick ?b = r_tick r" "n_levels ?b = r_n_levels r"
    "hwm ?b = r_hwm r" "best_bid ?b = r_best_bid r" "best_ask ?b = r_best_ask r"
    "free_head ?b = r_free_head r"
    by (simp_all add: root_book_def)
  show ?thesis
    unfolding encode_root_def encode_def Let_def lanes fields root_capacity [OF ok]
    by (simp only: count_root_lane [OF ok] write_root_lane [OF ok] write_root_orders [OF ok] and_then.simps)
qed

section \<open>Restoring a copy-on-write book\<close>

lemma get_bytes_error: "get_bytes_at k data i = Inl e \<Longrightarrow> e = Index_out_of_bounds"
  by (auto simp: get_bytes_at_def Let_def split: if_splits)

text \<open>Reading a row fails alike whatever the order of its fields.\<close>

lemma gd_get_error:
  assumes "gd_parent g = Some p"
  shows "od_side g = Inl e \<Longrightarrow> e = Index_out_of_bounds"
    and "od_next_slot g = Inl e \<Longrightarrow> e = Index_out_of_bounds"
    and "od_prev g = Inl e \<Longrightarrow> e = Index_out_of_bounds"
  using assms
  by (auto simp: od_side_def od_next_slot_def od_prev_def gd_get_def get_u8_at_def get_u32_at_def
      idx_def and_then_eq_Inl dest: get_bytes_error split: if_splits)

lemma cow_read_order_row_eq: "cow_read_order_row g = read_order_row g"
proof (cases "gd_parent g")
  case None
  then show ?thesis by (simp add: cow_read_order_row_def read_order_row_def od_slot_def gd_get_def)
next
  case (Some p)
  note e = gd_get_error [OF Some]
  have "and_then (od_side g) (\<lambda>sd. and_then (od_next_slot g) (\<lambda>nx. and_then (od_prev g) (\<lambda>pv. f nx pv sd))) =
    and_then (od_next_slot g) (\<lambda>nx. and_then (od_prev g) (\<lambda>pv. and_then (od_side g) (\<lambda>sd. f nx pv sd)))"
    for f :: "u32 \<Rightarrow> u32 \<Rightarrow> sbe_side \<Rightarrow> panic + u32 \<times> order"
    using e by (cases "od_side g"; cases "od_next_slot g"; cases "od_prev g") auto
  then show ?thesis by (simp add: cow_read_order_row_def read_order_row_def)
qed

lemma load_level_sim:
  assumes "sim c0 c b"
  shows "agree (\<lambda>(g, c) (g', b). g = g' \<and> sim c0 c b) (cow_load_level (g, c)) (load_level (g, b))"
proof -
  have f: "(\<lambda>l. l\<lparr>head := head v, tail := tail v, qty_total := qty_total v, lvl_count := lvl_count v\<rparr>) =
      (\<lambda>_. v)" for v :: price_level by (simp add: fun_eq_iff)
  show ?thesis
    unfolding cow_load_level_def load_level_def prod.case f
    by (intro agree_bind_eq [OF refl]) (auto intro!: agree_bind_sim [OF sim_level_mut [OF assms]])
qed

lemma load_order_sim:
  assumes "sim c0 c b"
  shows "agree (\<lambda>(g, c) (g', b). g = g' \<and> sim c0 c b) (cow_load_order (g, c)) (load_order (g, b))"
proof -
  have f: "(\<lambda>r. r\<lparr>order_id := order_id v, price := price v, qty := qty v, filled := filled v,
      side := side v, next_slot := next_slot v, prev_slot := prev_slot v\<rparr>) = (\<lambda>_. v)" for v :: order
    by (simp add: fun_eq_iff)
  show ?thesis
    unfolding cow_load_order_def load_order_def prod.case cow_read_order_row_eq f
    by (intro agree_bind_eq [OF refl])
      (auto intro!: agree_bind_sim [OF sim_order_mut [OF assms]] simp: sim_reads sim_scalars)
qed

lemma try_iter_sim:
  assumes step: "\<And>g c b. sim c0 c b \<Longrightarrow> agree (\<lambda>(g, c) (g', b). g = g' \<and> sim c0 c b) (f (g, c)) (f' (g, b))"
    and "sim c0 c b"
  shows "agree (\<lambda>(g, c) (g', b). g = g' \<and> sim c0 c b) (try_iter f n (g, c)) (try_iter f' n (g, b))"
  using assms(2)
proof (induction n arbitrary: g c b)
  case 0
  then show ?case by simp
next
  case (Suc n)
  show ?case
    unfolding try_iter.simps
    by (rule agree_and_then [OF step [OF Suc.prems]]) (use Suc.IH in auto)
qed


lemma load_levels_sim:
  "sim c0 c b \<Longrightarrow> agree (\<lambda>(g, c) (g', b). g = g' \<and> sim c0 c b)
     (try_iter cow_load_level n (g, c)) (try_iter load_level n (g, b))"
  by (rule try_iter_sim [of c0 cow_load_level load_level]) (rule load_level_sim)

lemma load_orders_sim:
  "sim c0 c b \<Longrightarrow> agree (\<lambda>(g, c) (g', b). g = g' \<and> sim c0 c b)
     (try_iter cow_load_order n (g, c)) (try_iter load_order n (g, b))"
  by (rule try_iter_sim [of c0 cow_load_order load_order]) (rule load_order_sim)

text \<open>
  On every input the two restores agree, panics and errors included, when the image is of a
  ladder as long as the configured one.
\<close>

definition same_levels :: "u8 list \<Rightarrow> smr_config \<Rightarrow> bool" where
  "same_levels bytes cfg \<longleftrightarrow>
     (\<forall>dec nl. bs_dec_header (hd_wrap (take (length bytes - 4) bytes) 0) 0 = Inr dec \<longrightarrow>
        ds_nl_evels dec = Inr nl \<longrightarrow> nl = cfg_levels cfg)"

lemma sim_root_fields:
  assumes "sim c0 c b" and "nl = c_n_levels c"
  shows "sim c0 (c\<lparr>c_price_min := pmin, c_tick := tk, c_n_levels := nl, c_hwm := hw,
      c_best_bid := bb, c_best_ask := ba, c_free_head := fh\<rparr>)
    (b\<lparr>price_min := pmin, tick := tk, n_levels := nl, hwm := hw,
      best_bid := bb, best_ask := ba, free_head := fh\<rparr>)"
  using assms
  by (auto simp: sim_def cow_ok_def frame_def flat_def order_view_def level_view_def cow_table_def)

lemma cow_new_gen: "cow_new cfg = Inr c \<Longrightarrow> c_gen c = 1"
  by (auto simp: cow_new_def Let_def)

lemma restore_cow_agrees:
  assumes cfg: "0 < cfg_chunk cfg" "cfg_cap cfg < 2 ^ 32" and lev: "same_levels bytes cfg"
  shows "agree (rel_sum (=) (\<lambda>c b. cow_ok c \<and> c_gen c = 1 \<and> flat c = b)) (restore_cow crc bytes cfg) (restore crc bytes cfg)"
proof -
  obtain c where c: "cow_new cfg = Inr c" "cow_ok c" "flat c = book_new cfg"
    using cow_new_flat [OF cfg] by blast
  have n: "c_n_levels c = cfg_levels cfg" using c(3) by (simp add: flat_def book_new_def)
  have s: "sim c c (book_new cfg)" using c by (simp add: sim_def)
  have gen: "c_gen c = 1" by (rule cow_new_gen [OF c(1)])
  let ?R = "rel_sum (=) (\<lambda>c b. cow_ok c \<and> c_gen c = 1 \<and> flat c = b) ::
    restore_error + cowbook \<Rightarrow> restore_error + book \<Rightarrow> bool"
  have tail: "agree ?R
      (and_then (try_iter cow_load_level k (lg, c1)) (\<lambda>(lg, c). and_then (expect_sbe (group_dec_parent lg))
        (\<lambda>dec. and_then (orders_decoder dec) (\<lambda>og.
          and_then (try_iter cow_load_order (unat (gd_count og)) (og, c)) (\<lambda>(og, c). Inr (Inr c))))))
      (and_then (try_iter load_level k (lg, b1)) (\<lambda>(lg, b). and_then (expect_sbe (group_dec_parent lg))
        (\<lambda>dec. and_then (orders_decoder dec) (\<lambda>og.
          and_then (try_iter load_order (unat (gd_count og)) (og, b)) (\<lambda>(og, b). Inr (Inr b))))))"
    if "sim c c1 b1" for k lg c1 b1
    by (rule sim_pair [OF load_levels_sim [OF that]])
      (auto simp: sim_def frame_def gen intro!: agree_bind_eq [OF refl] sim_pair [OF load_orders_sim])
  show ?thesis
  proof (cases "length bytes < 4 \<or> crc (take (length bytes - 4) bytes) \<noteq> of_nat (le_value (drop (length bytes - 4) bytes))")
    case True
    then show ?thesis by (auto simp: restore_cow_def restore_def Let_def)
  next
    case False
    then have go: "(length bytes < 4) = False"
      "(crc (take (length bytes - 4) bytes) \<noteq> of_nat (le_value (drop (length bytes - 4) bytes))) = False"
      by auto
    let ?hd = "hd_wrap (take (length bytes - 4) bytes) 0"
    show ?thesis
      unfolding restore_cow_def restore_def Let_def go if_False c(1) and_then.simps
    proof (intro agree_bind_eq [OF refl] agree_if)
      fix dec nl
      assume "bs_dec_header ?hd 0 = Inr dec" "ds_nl_evels dec = Inr nl"
      then have nl: "nl = c_n_levels c" using lev n by (simp add: same_levels_def)
      fix pmin tk hw bb ba fh lg
      show "agree ?R
        (and_then (try_iter cow_load_level (unat (gd_count lg)) (lg, c\<lparr>c_price_min := pmin, c_tick := tk,
            c_n_levels := nl, c_hwm := hw, c_best_bid := bb, c_best_ask := ba, c_free_head := fh\<rparr>))
          (\<lambda>(lg, c). and_then (expect_sbe (group_dec_parent lg)) (\<lambda>dec. and_then (orders_decoder dec) (\<lambda>og.
            and_then (try_iter cow_load_order (unat (gd_count og)) (og, c)) (\<lambda>(og, c). Inr (Inr c))))))
        (and_then (try_iter load_level (unat (gd_count lg)) (lg, (book_new cfg)\<lparr>price_min := pmin, tick := tk,
            n_levels := nl, hwm := hw, best_bid := bb, best_ask := ba, free_head := fh\<rparr>))
          (\<lambda>(lg, b). and_then (expect_sbe (group_dec_parent lg)) (\<lambda>dec. and_then (orders_decoder dec) (\<lambda>og.
            and_then (try_iter load_order (unat (gd_count og)) (og, b)) (\<lambda>(og, b). Inr (Inr b))))))"
        by (rule tail [OF sim_root_fields [OF s nl]])
    qed simp_all
  qed
qed

section \<open>Well-formed books\<close>

lemma wf_book_core: "wf_book b \<Longrightarrow> \<exists>Q F. core_inv b Q F"
  by (auto simp: wf_book_def book_inv_def)

lemma wf_book_encode:
  assumes wf: "wf_book b" and hw: "unat (hwm b) < 65536"
    and room: "length (image b) + 4 \<le> length buf" "length buf < 2 ^ 64"
  shows "\<exists>buf'. encode crc b buf = Inr (length (image b) + 4, buf') \<and> length buf' = length buf \<and>
    take (length (image b) + 4) buf' = image b @ le_bytes 4 (unat (crc (image b)))"
proof -
  obtain Q F where inv: "core_inv b Q F" using wf_book_core [OF wf] by blast
  have "level_total b < 65536" using level_total_bound [OF inv] hw by simp
  from encode_run [OF core_inv_hwm [OF inv] hw this room, of crc] show ?thesis by blast
qed

lemma level_total_lanes:
  assumes "core_inv b Q F"
  shows "level_total b \<le> 2 * unat (n_levels b)"
proof -
  have occ: "length (occupied ls) \<le> length ls" for ls
    unfolding occupied_def using length_filter_le [of _ "enumerate 0 ls"] by simp
  have "length (bids b) = unat (n_levels b)" "length (asks b) = unat (n_levels b)"
    using core_inv_lane_length [OF assms, of 0] core_inv_lane_length [OF assms, of 1]
    by (simp_all add: lane_def)
  then show ?thesis
    using occ [of "bids b"] occ [of "asks b"] unfolding level_total_def by linarith
qed

lemma image_ids [simp]: "image (b\<lparr>idmap := m\<rparr>) = image b"
  by (simp add: image_def level_total_def lane_bytes_def occupied_def)

lemma encode_ids [simp]: "encode crc (b\<lparr>idmap := m\<rparr>) buf = encode crc b buf"
  by (simp add: encode_def)

lemma image_same_levels:
  assumes "length (image b) + 4 < 2 ^ 64" and "cfg_levels cfg = n_levels b"
  shows "same_levels (image b @ le_bytes 4 n) cfg"
proof -
  obtain rest where D: "image b = header_bytes @ root_bytes (price_min b) (tick b) (n_levels b)
      (of_nat (length (pool b))) (hwm b) (best_bid b) (best_ask b) (free_head b) @ rest"
    using image_root by blast
  have L: "length (image b) < 2 ^ 64" using assms by simp
  note hdr = header_reads [of "root_bytes (price_min b) (tick b) (n_levels b) (of_nat (length (pool b)))
      (hwm b) (best_bid b) (best_ask b) (free_head b) @ rest", folded D, OF L]
  show ?thesis
    using hdr root_reads(3) [OF D L] assms(2) by (auto simp: same_levels_def)
qed

text \<open>A root captured from a well-formed book, encoded after later commands.\<close>

lemma encode_captured:
  assumes ok: "cow_ok c" and run: "try_fold cow_exec cmds (snd (capture c)) = Inr c'"
    and gen: "unat (c_gen c) + 1 + length cmds < 2 ^ 64"
  shows "encode_root crc (order_heap c') (level_heap c') (fst (capture c)) buf = encode crc (flat c) buf"
proof -
  have g: "unat (c_gen c) < 2 ^ 64 - 1" using gen by simp
  let ?r = "fst (capture c)" and ?c = "snd (capture c)"
  have g1: "unat (c_gen ?c) + length cmds < 2 ^ 64"
  proof -
    have "unat (c_gen ?c) = Suc (unat (c_gen c))"
      using g by (simp add: capture_def unat_word_ariths)
    then show ?thesis using gen by simp
  qed
  note cs = capture_spec [OF ok g]
  have heaps: "order_heap ?c = order_heap c" "level_heap ?c = level_heap c" by (simp_all add: capture_def)
  have tr: "cow_ok c' \<and> frozen c' ?r \<and> root_book (order_heap c') (level_heap c') ?r =
      root_book (order_heap ?c) (level_heap ?c) ?r"
    by (rule cow_exec_trace [OF run cs(1,3) g1])
  have "root_chunked (order_heap c') (level_heap c') ?r"
    by (rule cow_exec_chunked [OF run cs(1,3) g1]) (use capture_chunked [OF ok] heaps in simp)
  then show ?thesis using encode_root_flat tr cs(4) heaps by simp
qed

end
