(* ===== verification/Snapshot_Theorems.thy ===== *)
theory Snapshot_Theorems
  imports Snapshot_Cow Demo
begin

text \<open>
  The properties of the snapshot codec (snapshot.rs and cowsnap.rs) with a concrete instance
  of each. The checksum function is arbitrary throughout.
\<close>

section \<open>Facts the properties share\<close>

lemma restore_wrong_capacity:
  assumes len: "length (image b) + 4 < 2 ^ 64" and cap: "length (pool b) < 2 ^ 32"
    and ne: "cfg_cap cfg \<noteq> length (pool b)"
  shows "restore crc (image b @ le_bytes 4 (unat (crc (image b)))) cfg =
    Inr (Inl (Capacity_mismatch (of_nat (length (pool b))) (cfg_cap cfg)))"
proof -
  let ?D = "image b"
  have L: "length ?D < 2 ^ 64" using len by simp
  obtain rest where D: "?D = header_bytes @ root_bytes (price_min b) (tick b) (n_levels b)
      (of_nat (length (pool b))) (hwm b) (best_bid b) (best_ask b) (free_head b) @ rest"
    using image_root by blast
  note hdr = header_reads [of "root_bytes (price_min b) (tick b) (n_levels b) (of_nat (length (pool b)))
      (hwm b) (best_bid b) (best_ask b) (free_head b) @ rest", folded D, OF L]
  have "unat (of_nat (length (pool b)) :: u32) = length (pool b)"
    using cap by (intro unat_of_nat_u32) simp
  then show ?thesis
    using ne of_nat_le_value_u32 [of "crc ?D"]
    by (simp add: restore_def Let_def hdr root_reads [OF D L] eq_commute [of "length (pool b)"])
qed

lemma load_shapes:
  assumes "try_iter f n (g, b) = Inr (g', b')"
    and "\<And>g b g' b'. f (g, b) = Inr (g', b') \<Longrightarrow>
      length (pool b') = length (pool b) \<and> length (bids b') = length (bids b) \<and> length (asks b') = length (asks b)"
  shows "length (pool b') = length (pool b) \<and> length (bids b') = length (bids b) \<and> length (asks b') = length (asks b)"
  using assms(1)
proof (induction n arbitrary: g b)
  case 0
  then show ?case by simp
next
  case (Suc n)
  then obtain g1 b1 where "f (g, b) = Inr (g1, b1)" "try_iter f n (g1, b1) = Inr (g', b')" by auto
  with Suc.IH [of g1 b1] assms(2) show ?case by fastforce
qed

lemma modify_level_shape:
  assumes "modify_level b sd t f = Inr b'"
  shows "length (pool b') = length (pool b) \<and> length (bids b') = length (bids b) \<and> length (asks b') = length (asks b)"
proof (cases "sd = 0")
  case True
  then show ?thesis using assms by (auto simp: modify_level_def set_lane_def lane_def)
next
  case False
  then show ?thesis using assms by (auto simp: modify_level_def set_lane_def lane_def)
qed

lemma load_level_shape:
  assumes "load_level (g, b) = Inr (g', b')"
  shows "length (pool b') = length (pool b) \<and> length (bids b') = length (bids b) \<and> length (asks b') = length (asks b)"
proof -
  obtain sd t l where "modify_level b sd t (\<lambda>_. l) = Inr b'"
    using assms by (auto simp: load_level_def)
  then show ?thesis by (rule modify_level_shape)
qed

lemma load_order_shape:
  assumes "load_order (g, b) = Inr (g', b')"
  shows "length (pool b') = length (pool b) \<and> length (bids b') = length (bids b) \<and> length (asks b') = length (asks b)"
proof -
  obtain s ord b1 where "modify_order b s (\<lambda>_. ord) = Inr b1"
    "(if order_id ord \<noteq> 0 then b1\<lparr>idmap := (idmap b1)(order_id ord \<mapsto> s)\<rparr> else b1) = b'"
    using assms
    by (simp only: load_order_def and_then_eq_Inr split_paired_Ex prod.case sum.inject prod.inject) blast
  then show ?thesis by (cases "order_id ord = 0") (auto simp: modify_order_def)
qed

section \<open>Round trips\<close>

text \<open>C11: A well-formed book with at most 65535 slots handed out encodes into any buffer that
  is long enough, without panicking, and restoring the bytes under the same geometry gives
  back exactly that book, the rebuilt id map included.\<close>

theorem snapshot_round_trip:
  assumes wf: "wf_book b" and hw: "unat (hwm b) < 65536"
    and room: "length (image b) + 4 \<le> length buf" "length buf < 2 ^ 64"
    and cfg: "cfg_cap cfg = length (pool b)" "cfg_levels cfg = n_levels b"
  shows "\<exists>n buf'. encode crc b buf = Inr (n, buf') \<and> restore crc (take n buf') cfg = Inr (Inr b)"
proof -
  obtain Q F where inv: "core_inv b Q F" using wf_book_core [OF wf] by blast
  have len: "length (image b) + 4 < 2 ^ 64" using room by simp
  show ?thesis
    using wf_book_encode [OF wf hw room, of crc] restore_image [OF inv hw len cfg, of crc] by auto
qed

theorem snapshot_round_trip_witness:
  "\<exists>n buf'. encode (\<lambda>bs. of_nat (length bs)) demo_book (replicate 200 0) = Inr (n, buf') \<and>
     restore (\<lambda>bs. of_nat (length bs)) (take n buf') demo_cfg = Inr (Inr demo_book)"
proof (rule snapshot_round_trip [OF demo_book_wf])
  show "unat (hwm demo_book) < 65536" by (simp add: demo_book_fields)
  obtain Q F where "core_inv demo_book Q F" using wf_book_core [OF demo_book_wf] by blast
  then have "level_total demo_book \<le> 1" using level_total_bound by (fastforce simp: demo_book_fields)
  then show "length (image demo_book) + 4 \<le> length (replicate 200 0)"
    by (simp add: length_image demo_book_fields)
qed (simp_all add: demo_book_fields demo_cfg_def)

lemma demo_restores:
  "\<exists>n buf'. restore (\<lambda>_. 3) (take n buf') demo_cfg = Inr (Inr demo_book)"
proof -
  obtain Q F where inv: "core_inv demo_book Q F" using wf_book_core [OF demo_book_wf] by blast
  then have "level_total demo_book \<le> 1" using level_total_bound by (fastforce simp: demo_book_fields)
  then have "length (image demo_book) + 4 < 2 ^ 64" by (simp add: length_image demo_book_fields)
  from restore_image [OF inv _ this, of demo_cfg "\<lambda>_. 3"]
  have "restore (\<lambda>_. 3) (image demo_book @ le_bytes 4 3) demo_cfg = Inr (Inr demo_book)"
    by (simp add: demo_book_fields demo_cfg_def)
  then show ?thesis by (metis take_all_iff order_refl)
qed

lemma demo_image_length: "length (image (book_new demo_cfg)) = 56"
proof -
  obtain Q F where "core_inv (book_new demo_cfg) Q F" using wf_book_core [OF demo_new_wf] by blast
  then have "level_total (book_new demo_cfg) = 0" using level_total_bound by (fastforce simp: book_new_def)
  then show ?thesis by (simp add: length_image book_new_def)
qed

text \<open>C12: A root captured from the copy-on-write book and encoded after any number of later
  operations and captures restores to the book as it was at the capture.\<close>

theorem root_snapshot_restores:
  assumes ok: "cow_ok c" "wf_book (flat c)" and hw: "unat (hwm (flat c)) < 65536"
    and run: "try_fold cow_exec cmds (snd (capture c)) = Inr c'"
    and gen: "unat (c_gen c) + 1 + length cmds < 2 ^ 64"
    and room: "length (image (flat c)) + 4 \<le> length buf" "length buf < 2 ^ 64"
    and cfg: "cfg_cap cfg = length (pool (flat c))" "cfg_levels cfg = n_levels (flat c)"
  shows "\<exists>n buf'. encode_root crc (order_heap c') (level_heap c') (fst (capture c)) buf = Inr (n, buf') \<and>
    restore crc (take n buf') cfg = Inr (Inr (flat c))"
proof -
  obtain Q F where inv: "core_inv (flat c) Q F" using wf_book_core [OF ok(2)] by blast
  have len: "length (image (flat c)) + 4 < 2 ^ 64" using room by simp
  show ?thesis
    using wf_book_encode [OF ok(2) hw room, of crc] restore_image [OF inv hw len cfg, of crc]
    unfolding encode_captured [OF ok(1) run gen] by auto
qed

lemma demo_cow_start:
  "\<exists>c. cow_new demo_cfg = Inr c \<and> cow_ok c \<and> flat c = book_new demo_cfg \<and> c_gen c = 1"
  using cow_new_flat [of demo_cfg] cow_new_gen by (fastforce simp: demo_cfg_def)

theorem root_snapshot_restores_witness:
  "\<exists>c c' n buf'. cow_new demo_cfg = Inr c \<and>
     try_fold cow_exec [Cmd_insert 7 2 10 0, Cmd_capture] (snd (capture c)) = Inr c' \<and>
     encode_root (\<lambda>_. 3) (order_heap c') (level_heap c') (fst (capture c)) (replicate 200 0) = Inr (n, buf') \<and>
     restore (\<lambda>_. 3) (take n buf') demo_cfg = Inr (Inr (book_new demo_cfg))"
proof -
  obtain c where c: "cow_new demo_cfg = Inr c" "cow_ok c" "flat c = book_new demo_cfg" "c_gen c = 1"
    using demo_cow_start by blast
  have ok: "cow_ok (snd (capture c))" "flat (snd (capture c)) = book_new demo_cfg" "c_gen (snd (capture c)) = 2"
    using capture_spec(1,2) [OF c(2)] c by (simp_all add: capture_def)
  have "agree (\<lambda>c b. cow_ok c \<and> flat c = b) (try_fold cow_exec [Cmd_insert 7 2 10 0, Cmd_capture] (snd (capture c)))
      (try_fold flat_exec [Cmd_insert 7 2 10 0, Cmd_capture] (book_new demo_cfg))"
    using cow_exec_flat [OF ok(1), of "[Cmd_insert 7 2 10 0, Cmd_capture]"] ok(2,3) by simp
  moreover have "try_fold flat_exec [Cmd_insert 7 2 10 0, Cmd_capture] (book_new demo_cfg) = Inr demo_book"
    by (simp add: flat_exec_def demo_book_run)
  ultimately obtain c' where run: "try_fold cow_exec [Cmd_insert 7 2 10 0, Cmd_capture] (snd (capture c)) = Inr c'"
    by (rule agree_InrE)
  have "\<exists>n buf'. encode_root (\<lambda>_. 3) (order_heap c') (level_heap c') (fst (capture c)) (replicate 200 0) = Inr (n, buf') \<and>
      restore (\<lambda>_. 3) (take n buf') demo_cfg = Inr (Inr (flat c))"
    by (rule root_snapshot_restores [OF c(2) _ _ run])
      (use c demo_image_length demo_new_wf in \<open>simp_all add: book_new_def demo_cfg_def\<close>)
  then show ?thesis using c run by auto
qed

text \<open>C13: Recovery is faithful: the copy-on-write book restored from a captured root shows the
  flat book of the capture, and every sequence of commands run on it gives the same flat
  books, and the same panics, as on the original from the capture on.\<close>

theorem cow_recovery:
  assumes ok: "cow_ok c" "wf_book (flat c)" and hw: "unat (hwm (flat c)) < 65536"
    and gen: "unat (c_gen c) + length cmds < 2 ^ 64" "1 + length cmds < 2 ^ 64"
    and room: "length (image (flat c)) + 4 \<le> length buf" "length buf < 2 ^ 64"
    and cfg: "cfg_cap cfg = length (pool (flat c))" "cfg_levels cfg = n_levels (flat c)" "0 < cfg_chunk cfg"
  shows "\<exists>n buf' r. encode_root crc (order_heap c) (level_heap c) (fst (capture c)) buf = Inr (n, buf') \<and>
    restore_cow crc (take n buf') cfg = Inr (Inr r) \<and> flat r = flat c \<and>
    map_sum id flat (try_fold cow_exec cmds r) = map_sum id flat (try_fold cow_exec cmds c)"
proof -
  obtain Q F where inv: "core_inv (flat c) Q F" using wf_book_core [OF ok(2)] by blast
  have len: "length (image (flat c)) + 4 < 2 ^ 64" using room by simp
  let ?img = "image (flat c) @ le_bytes 4 (unat (crc (image (flat c))))"
  have enc: "encode_root crc (order_heap c) (level_heap c) (fst (capture c)) buf = encode crc (flat c) buf"
    using encode_root_flat [OF capture_chunked [OF ok(1)]]
    by (simp add: root_book_def capture_def flat_def order_view_def level_view_def cow_table_def encode_def)
  have rest: "restore crc ?img cfg = Inr (Inr (flat c))"
    by (rule restore_image [OF inv hw len cfg(1,2)])
  have "agree (rel_sum (=) (\<lambda>c b. cow_ok c \<and> c_gen c = 1 \<and> flat c = b)) (restore_cow crc ?img cfg) (restore crc ?img cfg)"
    using core_inv_pool_bound [OF inv] cfg image_same_levels [OF len cfg(2)]
    by (intro restore_cow_agrees) simp_all
  then obtain r where r: "restore_cow crc ?img cfg = Inr (Inr r)" "cow_ok r" "c_gen r = 1" "flat r = flat c"
    unfolding rest by (auto elim!: agree_InrE [OF _ refl] rel_sum.cases)
  have g: "unat (c_gen r) + length cmds < 2 ^ 64" using r(3) gen(2) by simp
  have "map_sum id flat (try_fold cow_exec cmds r) = map_sum id flat (try_fold cow_exec cmds c)"
    using cow_exec_flat [OF r(2) g] cow_exec_flat [OF ok(1) gen(1)] unfolding r(4)
    by (cases "try_fold cow_exec cmds r"; cases "try_fold cow_exec cmds c";
        cases "try_fold flat_exec cmds (flat c)") auto
  then show ?thesis
    using wf_book_encode [OF ok(2) hw room, of crc] r unfolding enc by auto
qed

theorem cow_recovery_witness:
  "\<exists>c n buf' r. cow_new demo_cfg = Inr c \<and>
     encode_root (\<lambda>_. 3) (order_heap c) (level_heap c) (fst (capture c)) (replicate 200 0) = Inr (n, buf') \<and>
     restore_cow (\<lambda>_. 3) (take n buf') demo_cfg = Inr (Inr r) \<and> flat r = flat c \<and>
     map_sum id flat (try_fold cow_exec [Cmd_insert 7 2 10 0, Cmd_fill 7] r) =
     map_sum id flat (try_fold cow_exec [Cmd_insert 7 2 10 0, Cmd_fill 7] c)"
proof -
  obtain c where c: "cow_new demo_cfg = Inr c" "cow_ok c" "flat c = book_new demo_cfg" "c_gen c = 1"
    using demo_cow_start by blast
  have "\<exists>n buf' r. encode_root (\<lambda>_. 3) (order_heap c) (level_heap c) (fst (capture c)) (replicate 200 0) = Inr (n, buf') \<and>
     restore_cow (\<lambda>_. 3) (take n buf') demo_cfg = Inr (Inr r) \<and> flat r = flat c \<and>
     map_sum id flat (try_fold cow_exec [Cmd_insert 7 2 10 0, Cmd_fill 7] r) =
     map_sum id flat (try_fold cow_exec [Cmd_insert 7 2 10 0, Cmd_fill 7] c)"
    by (rule cow_recovery [OF c(2)])
      (use c demo_image_length demo_new_wf in \<open>simp_all add: book_new_def demo_cfg_def\<close>)
  then show ?thesis using c(1) by blast
qed

section \<open>Rejections\<close>

text \<open>A book comes out of \<open>restore\<close> only for an input of at least four bytes whose
  trailing checksum matches, and it has the capacity and the lane lengths of the
  configuration, whatever the image says.\<close>

theorem restore_accepts:
  assumes "restore crc bytes cfg = Inr (Inr b)"
  shows "4 \<le> length bytes \<and>
    crc (take (length bytes - 4) bytes) = of_nat (le_value (drop (length bytes - 4) bytes)) \<and>
    length (pool b) = cfg_cap cfg \<and> length (bids b) = unat (cfg_levels cfg) \<and>
    length (asks b) = unat (cfg_levels cfg)"
proof -
  have go: "\<not> length bytes < 4"
    "crc (take (length bytes - 4) bytes) = of_nat (le_value (drop (length bytes - 4) bytes))"
    using assms by (auto simp: restore_def Let_def split: if_splits)
  obtain ver dec pmin tk nl hw bb ba cap fh lg lg1 b1 og og1 where
    "try_iter load_level (unat (gd_count lg)) (lg, (book_new cfg)\<lparr>price_min := pmin, tick := tk,
        n_levels := nl, hwm := hw, best_bid := bb, best_ask := ba, free_head := fh\<rparr>) = Inr (lg1, b1)"
    "try_iter load_order (unat (gd_count og)) (og, b1) = Inr (og1, b)"
    using assms go by (auto simp: restore_def Let_def split: if_splits)
  from load_shapes [OF this(1) load_level_shape] load_shapes [OF this(2) load_order_shape] go
  show ?thesis by (simp add: book_new_def)
qed

theorem restore_accepts_witness:
  "\<exists>bytes. restore (\<lambda>_. 3) bytes demo_cfg = Inr (Inr demo_book) \<and> 4 \<le> length bytes \<and>
     length (pool demo_book) = 3 \<and> length (bids demo_book) = 4"
proof -
  obtain n buf' where r: "restore (\<lambda>_. 3) (take n buf') demo_cfg = Inr (Inr demo_book)"
    using demo_restores by blast
  show ?thesis
    using restore_accepts [OF r] r by (intro exI [of _ "take n buf'"]) (simp add: demo_cfg_def)
qed

text \<open>A snapshot taken under another capacity is refused as such, whatever it holds.\<close>

theorem restore_capacity_mismatch:
  assumes wf: "wf_book b" and hw: "unat (hwm b) < 65536"
    and room: "length (image b) + 4 \<le> length buf" "length buf < 2 ^ 64"
    and ne: "cfg_cap cfg \<noteq> length (pool b)"
  shows "\<exists>n buf'. encode crc b buf = Inr (n, buf') \<and>
    restore crc (take n buf') cfg = Inr (Inl (Capacity_mismatch (of_nat (length (pool b))) (cfg_cap cfg)))"
proof -
  obtain Q F where inv: "core_inv b Q F" using wf_book_core [OF wf] by blast
  have "length (image b) + 4 < 2 ^ 64" "length (pool b) < 2 ^ 32"
    using room core_inv_pool_bound [OF inv] by simp_all
  from restore_wrong_capacity [OF this ne, of crc] wf_book_encode [OF wf hw room, of crc]
  show ?thesis by auto
qed

theorem restore_capacity_mismatch_witness:
  "\<exists>n buf'. encode (\<lambda>_. 3) (book_new demo_cfg) (replicate 200 0) = Inr (n, buf') \<and>
     restore (\<lambda>_. 3) (take n buf') (demo_cfg\<lparr>cfg_cap := 5\<rparr>) = Inr (Inl (Capacity_mismatch 3 5))"
  using restore_capacity_mismatch [OF demo_new_wf _ _ _, of "replicate 200 0" "demo_cfg\<lparr>cfg_cap := 5\<rparr>" "\<lambda>_. 3"]
    demo_image_length by (simp add: book_new_def demo_cfg_def)

text \<open>C14: A well-formed book with 65536 slots handed out cannot be encoded: the count of the
  orders group is a u16, it becomes 0, and the first row's write panics.\<close>

theorem snapshot_count_wraps:
  assumes wf: "wf_book b" and hw: "unat (hwm b) = 65536" and lv: "level_total b < 65536"
    and room: "56 + 25 * level_total b \<le> length buf" "length buf < 2 ^ 64"
  shows "encode crc b buf = Inl Index_out_of_bounds"
proof -
  obtain Q F where inv: "core_inv b Q F" using wf_book_core [OF wf] by blast
  show ?thesis by (rule encode_count_wraps [OF hw core_inv_hwm [OF inv] lv room])
qed

text \<open>A book with 65536 resting orders, as prebuilding that many from a new book leaves it.\<close>

definition wide_cfg :: smr_config where
  "wide_cfg = demo_cfg\<lparr>cfg_cap := 65536\<rparr>"

lemma wide_book:
  "\<exists>b. wf_book b \<and> unat (hwm b) = 65536 \<and> n_levels b = 4"
proof -
  have inv: "book_inv (book_new wide_cfg) (\<lambda>_ _. []) []"
    by (rule book_inv_new) (simp_all add: wide_cfg_def demo_cfg_def)
  have wf: "wf_book (book_new wide_cfg)" using inv by (auto simp: wf_book_def)
  have g: "price_grid (geom_of (book_new wide_cfg))"
    by (simp add: price_grid_def geom_of_def book_new_def wide_cfg_def demo_cfg_def word_sless_alt)
  have "ladder_ids (unat (n_levels (book_new wide_cfg))) (ladder_of (book_new wide_cfg)) = {}"
    using ids_read [OF inv] by (simp add: book_new_def)
  then have k: "churn_known (geom_of (book_new wide_cfg)) (churn_new wide_cfg) (ladder_of (book_new wide_cfg))"
    by (simp add: churn_known_def known_ids_def churn_new_def geom_of_def) (simp add: book_new_def)
  have cap: "g_capacity (geom_of (book_new wide_cfg)) = 65536"
    by (simp add: geom_of_def book_new_def wide_cfg_def)
  obtain b ch where b: "wf_book b" "geom_of b = geom_of (book_new wide_cfg)"
    "churn_known (geom_of (book_new wide_cfg)) ch (ladder_of b)" "length (ch_live ch) = 65536"
    using flat_store.churn_prebuild_run [OF wf k g, of 65536] cap by (auto simp: churn_new_def)
  obtain Q F where inv': "book_inv b Q F" using b(1) by (auto simp: wf_book_def)
  have len: "length (pool b) = 65536" "n_levels b = 4"
    using b(2) by (simp_all add: geom_of_def book_new_def wide_cfg_def demo_cfg_def)
  have "card (dom (idmap b)) = 65536"
    using known_count [OF b(3)] b(4) wf_book_ids [OF b(1)] len
    by (simp add: live_count_def geom_of_def book_new_def wide_cfg_def demo_cfg_def)
  then have "unat (hwm b) = 65536"
    using live_count_hwm(1) [OF book_inv_core [OF inv']] core_inv_hwm [OF book_inv_core [OF inv']] len
    by linarith
  then show ?thesis using b(1) len by blast
qed

theorem snapshot_count_wraps_witness:
  "\<exists>b. wf_book b \<and> unat (hwm b) = 65536 \<and> encode (\<lambda>_. 3) b (replicate 300 0) = Inl Index_out_of_bounds"
proof -
  obtain b where b: "wf_book b" "unat (hwm b) = 65536" "n_levels b = 4" using wide_book by blast
  obtain Q F where "core_inv b Q F" using wf_book_core [OF b(1)] by blast
  then have "level_total b \<le> 8" using level_total_lanes b(3) by fastforce
  then have "encode (\<lambda>_. 3) b (replicate 300 0) = Inl Index_out_of_bounds"
    by (intro snapshot_count_wraps [OF b(1,2)]) simp_all
  then show ?thesis using b by blast
qed

end
