(* ===== verification/Bench.thy ===== *)
theory Bench
  imports Churn Snapshot_Cow
begin

text \<open>
  The experiments over the two books (the \<open>main\<close> functions under rust/smr-collections and
  \<open>measure\<close> of rust/bench-common/src/smrcoll.rs): from the parsed configuration to the
  samples they report. Reading the clock and printing are not modelled: the durations are
  arguments (\<open>ns k\<close> is what the k-th timed operation took), and the samples a program prints
  are its result. A configuration error ends the process before the run: it is the left value
  of the outer sum; a panic of the run is the left value of the inner one.
\<close>

section \<open>Timing\<close>

definition measure ::
  "(nat \<Rightarrow> u64) \<Rightarrow> usize \<Rightarrow> usize \<Rightarrow> ('s \<Rightarrow> panic + 's) \<Rightarrow> 's \<Rightarrow> panic + u64 list \<times> 's" where
  "measure ns warmup iters op s =
     and_then (try_iter op warmup s) (\<lambda>s.
     try_fold (\<lambda>k (samples, s). and_then (op s) (\<lambda>s. Inr (samples[k := ns k], s)))
       [0..<iters] (replicate iters 0, s))"

section \<open>The request streams\<close>

text \<open>The body of the loop that fills a book, and the body that amends resting orders.\<close>

definition insert_step ::
  "('s \<Rightarrow> i64 \<Rightarrow> i64 \<Rightarrow> i64 \<Rightarrow> u8 \<Rightarrow> panic + 's) \<Rightarrow> smr_config \<Rightarrow> usize \<Rightarrow> 's \<times> u64 \<Rightarrow>
   panic + 's \<times> u64" where
  "insert_step ins cfg i = (\<lambda>(s, rng).
     and_then (next_insert rng i (cfg_levels cfg) (cfg_tick cfg) (cfg_price_min cfg)) (\<lambda>(r, rng).
     and_then (ins s (ins_order_id r) (ins_price r) (ins_qty r) (ins_side r)) (\<lambda>s. Inr (s, rng))))"

definition update_step ::
  "('s \<Rightarrow> i64 \<Rightarrow> i64 \<Rightarrow> panic + 's) \<Rightarrow> usize \<Rightarrow> 's \<times> u64 \<Rightarrow> panic + 's \<times> u64" where
  "update_step upd n = (\<lambda>(s, rng).
     and_then (next_update rng n) (\<lambda>(r, rng).
     and_then (upd s (upd_order_id r) (upd_fill_qty r)) (\<lambda>s. Inr (s, rng))))"

definition steady_book ::
  "('s \<Rightarrow> i64 \<Rightarrow> i64 \<Rightarrow> i64 \<Rightarrow> u8 \<Rightarrow> panic + 's) \<Rightarrow> smr_config \<Rightarrow> 's \<Rightarrow> panic + 's \<times> u64" where
  "steady_book ins cfg s = try_fold (insert_step ins cfg) [0..<cfg_steady cfg] (s, SEED)"

section \<open>Insert, update and churn\<close>

definition insert_bench ::
  "(smr_config \<Rightarrow> panic + 's) \<Rightarrow> ('s \<Rightarrow> i64 \<Rightarrow> i64 \<Rightarrow> i64 \<Rightarrow> u8 \<Rightarrow> panic + 's) \<Rightarrow>
   (string \<Rightarrow> string option) \<Rightarrow> (nat \<Rightarrow> u64) \<Rightarrow> config_error + panic + u64 list" where
  "insert_bench new ins env ns =
     and_then (from_env env) (\<lambda>cfg.
     and_then (require_bump_capacity cfg) (\<lambda>_.
     Inr (and_then (new cfg) (\<lambda>s.
       and_then (measure ns (cfg_warmup cfg) (cfg_iters cfg)
           (\<lambda>(i, s). and_then (insert_step ins cfg i s) (\<lambda>s. Inr (usize_add i 1, s)))
           (0, s, SEED)) (\<lambda>(samples, _). Inr samples)))))"

definition update_bench ::
  "(smr_config \<Rightarrow> panic + 's) \<Rightarrow> ('s \<Rightarrow> i64 \<Rightarrow> i64 \<Rightarrow> i64 \<Rightarrow> u8 \<Rightarrow> panic + 's) \<Rightarrow>
   ('s \<Rightarrow> i64 \<Rightarrow> i64 \<Rightarrow> panic + 's) \<Rightarrow>
   (string \<Rightarrow> string option) \<Rightarrow> (nat \<Rightarrow> u64) \<Rightarrow> config_error + panic + u64 list" where
  "update_bench new ins upd env ns =
     and_then (from_env env) (\<lambda>cfg.
     Inr (and_then (new cfg) (\<lambda>s.
       and_then (steady_book ins cfg s) (\<lambda>st.
       and_then (measure ns (cfg_warmup cfg) (cfg_iters cfg) (update_step upd (cfg_steady cfg)) st)
         (\<lambda>(samples, _). Inr samples)))))"

definition churn_bench ::
  "(smr_config \<Rightarrow> panic + 's) \<Rightarrow> ('s \<Rightarrow> i64 \<Rightarrow> i64 \<Rightarrow> i64 \<Rightarrow> u8 \<Rightarrow> panic + 's) \<Rightarrow>
   ('s \<Rightarrow> i64 \<Rightarrow> panic + 's) \<Rightarrow> ('s \<Rightarrow> i64 \<Rightarrow> panic + 's) \<Rightarrow>
   (string \<Rightarrow> string option) \<Rightarrow> (nat \<Rightarrow> u64) \<Rightarrow> config_error + panic + churn_samples" where
  "churn_bench new ins can fil env ns =
     and_then (from_env env) (\<lambda>cfg.
     Inr (and_then (new cfg) (\<lambda>s.
       and_then (churn_prebuild ins can fil (cfg_steady cfg) (s, churn_new cfg)) (\<lambda>(s, ch).
       and_then (run_churn ins can fil ns cfg s ch) (\<lambda>(_, _, samples). Inr samples)))))"

definition insert_main where
  "insert_main = insert_bench (\<lambda>cfg. Inr (book_new cfg)) book_insert"

definition mvcc_insert_main where
  "mvcc_insert_main = insert_bench cow_new cow_insert"

definition update_main where
  "update_main = update_bench (\<lambda>cfg. Inr (book_new cfg)) book_insert book_update"

definition mvcc_update_main where
  "mvcc_update_main = update_bench cow_new cow_insert cow_update"

definition churn_main where
  "churn_main = churn_bench (\<lambda>cfg. Inr (book_new cfg)) book_insert book_cancel book_fill"

definition mvcc_churn_main where
  "mvcc_churn_main = churn_bench cow_new cow_insert cow_cancel cow_fill"

section \<open>Snapshots of a steady book\<close>

text \<open>The size of the buffer; usize arithmetic wraps.\<close>

definition buf_len :: "smr_config \<Rightarrow> usize" where
  "buf_len cfg = (64 + cfg_cap cfg * 64 + unat (cfg_levels cfg) * 2 * 32) mod 2 ^ 64"

text \<open>\<open>expect\<close> on what a restore returns, and the slice \<open>&buf[..snap_len]\<close>.\<close>

fun expect_restored :: "restore_error + 'a \<Rightarrow> panic + 'a" where
  "expect_restored (Inl _) = Inl Restore_failed"
| "expect_restored (Inr x) = Inr x"

definition restore_from ::
  "(u8 list \<Rightarrow> panic + restore_error + 'a) \<Rightarrow> u8 list \<Rightarrow> usize \<Rightarrow> panic + 'a" where
  "restore_from res buf n = and_then (slice_to buf n) (\<lambda>bytes. and_then (res bytes) expect_restored)"

record snap_out =
  so_snap :: "u64 list"
  so_rest :: "u64 list"
  so_len :: usize

definition snapshot_step ::
  "(u8 list \<Rightarrow> u32) \<Rightarrow> smr_config \<Rightarrow> book \<Rightarrow> u8 list \<Rightarrow> panic + (usize \<times> book) \<times> u8 list" where
  "snapshot_step crc cfg b buf =
     and_then (encode crc b buf) (\<lambda>(n, buf).
     and_then (restore_from (\<lambda>bytes. restore crc bytes cfg) buf n) (\<lambda>r. Inr ((n, r), buf)))"

definition snapshot_main ::
  "(u8 list \<Rightarrow> u32) \<Rightarrow> (string \<Rightarrow> string option) \<Rightarrow> (nat \<Rightarrow> u64) \<Rightarrow> (nat \<Rightarrow> u64) \<Rightarrow>
   config_error + panic + snap_out" where
  "snapshot_main crc env sns rns =
     and_then (from_env env) (\<lambda>cfg.
     Inr (and_then (steady_book book_insert cfg (book_new cfg)) (\<lambda>(b, _).
       and_then (try_iter (\<lambda>buf. and_then (snapshot_step crc cfg b buf) (\<lambda>(_, buf). Inr buf))
           (cfg_warmup cfg) (replicate (buf_len cfg) 0)) (\<lambda>buf.
       and_then (try_fold (\<lambda>k (out, buf). and_then (snapshot_step crc cfg b buf) (\<lambda>((n, _), buf).
             Inr (out\<lparr>so_snap := (so_snap out)[k := sns k], so_rest := (so_rest out)[k := rns k],
                      so_len := n\<rparr>, buf)))
           [0..<cfg_iters cfg]
           (\<lparr>so_snap = replicate (cfg_iters cfg) 0, so_rest = replicate (cfg_iters cfg) 0, so_len = 0\<rparr>, buf))
         (\<lambda>(out, _). Inr out)))))"

definition mvcc_snapshot_step ::
  "(u8 list \<Rightarrow> u32) \<Rightarrow> smr_config \<Rightarrow> cowbook \<times> u8 list \<Rightarrow>
   panic + (usize \<times> cowbook) \<times> cowbook \<times> u8 list" where
  "mvcc_snapshot_step crc cfg = (\<lambda>(c, buf).
     let (r, c) = capture c in
     and_then (encode_root crc (order_heap c) (level_heap c) r buf) (\<lambda>(n, buf).
     and_then (restore_from (\<lambda>bytes. restore_cow crc bytes cfg) buf n) (\<lambda>d. Inr ((n, d), c, buf))))"

definition mvcc_snapshot_main ::
  "(u8 list \<Rightarrow> u32) \<Rightarrow> (string \<Rightarrow> string option) \<Rightarrow> (nat \<Rightarrow> u64) \<Rightarrow> (nat \<Rightarrow> u64) \<Rightarrow>
   config_error + panic + snap_out" where
  "mvcc_snapshot_main crc env sns rns =
     and_then (from_env env) (\<lambda>cfg.
     Inr (and_then (cow_new cfg) (\<lambda>c.
       and_then (steady_book cow_insert cfg c) (\<lambda>(c, _).
       and_then (try_iter (\<lambda>st. and_then (mvcc_snapshot_step crc cfg st) (\<lambda>(_, st). Inr st))
           (cfg_warmup cfg) (c, replicate (buf_len cfg) 0)) (\<lambda>st.
       and_then (try_fold (\<lambda>k (out, st). and_then (mvcc_snapshot_step crc cfg st) (\<lambda>((n, _), st).
             Inr (out\<lparr>so_snap := (so_snap out)[k := sns k], so_rest := (so_rest out)[k := rns k],
                      so_len := n\<rparr>, st)))
           [0..<cfg_iters cfg]
           (\<lparr>so_snap = replicate (cfg_iters cfg) 0, so_rest = replicate (cfg_iters cfg) 0, so_len = 0\<rparr>, st))
         (\<lambda>(out, _). Inr out))))))"

section \<open>Snapshots beside the writer\<close>

record live_out =
  lo_writer :: "u64 list"
  lo_snaps :: "u64 list"
  lo_len :: usize

text \<open>The snapshot the loops take every \<open>snap_every\<close> operations.\<close>

definition live_snap ::
  "(u8 list \<Rightarrow> u32) \<Rightarrow> (nat \<Rightarrow> u64) \<Rightarrow> smr_config \<Rightarrow> nat \<Rightarrow> book \<Rightarrow> u8 list \<times> live_out \<Rightarrow>
   panic + u8 list \<times> live_out" where
  "live_snap crc sns cfg k b = (\<lambda>(buf, out).
     and_then (rem_usize k (cfg_snap_every cfg)) (\<lambda>m.
     if m = 0 then
       and_then (encode crc b buf) (\<lambda>(n, buf).
       Inr (buf, out\<lparr>lo_snaps := lo_snaps out @ [sns k], lo_len := n\<rparr>))
     else Inr (buf, out)))"

definition live_out_new :: "smr_config \<Rightarrow> live_out" where
  "live_out_new cfg = \<lparr>lo_writer = replicate (cfg_live_iters cfg) 0, lo_snaps = [], lo_len = 0\<rparr>"

definition live_stw_step ::
  "(u8 list \<Rightarrow> u32) \<Rightarrow> (nat \<Rightarrow> u64) \<Rightarrow> (nat \<Rightarrow> u64) \<Rightarrow> smr_config \<Rightarrow> nat \<Rightarrow>
   (book \<times> u64) \<times> u8 list \<times> live_out \<Rightarrow> panic + (book \<times> u64) \<times> u8 list \<times> live_out" where
  "live_stw_step crc wns sns cfg k = (\<lambda>(st, bo).
     and_then (live_snap crc sns cfg k (fst st) bo) (\<lambda>(buf, out).
     and_then (update_step book_update (cfg_steady cfg) st) (\<lambda>st.
     Inr (st, buf, out\<lparr>lo_writer := (lo_writer out)[k := wns k]\<rparr>))))"

definition live_stw_main ::
  "(u8 list \<Rightarrow> u32) \<Rightarrow> (string \<Rightarrow> string option) \<Rightarrow> (nat \<Rightarrow> u64) \<Rightarrow> (nat \<Rightarrow> u64) \<Rightarrow>
   config_error + panic + live_out" where
  "live_stw_main crc env wns sns =
     and_then (from_env env) (\<lambda>cfg.
     Inr (and_then (steady_book book_insert cfg (book_new cfg)) (\<lambda>st.
       and_then (try_iter (update_step book_update (cfg_steady cfg)) (cfg_warmup cfg) st) (\<lambda>st.
       and_then (encode crc (fst st) (replicate (buf_len cfg) 0)) (\<lambda>(_, buf).
       and_then (try_fold (live_stw_step crc wns sns cfg) [0..<cfg_live_iters cfg]
           (st, buf, live_out_new cfg)) (\<lambda>(_, _, out).
       Inr out))))))"

text \<open>The churn variant draws its operation first and sorts the sample by its kind.\<close>

definition live_churn_step ::
  "(u8 list \<Rightarrow> u32) \<Rightarrow> (nat \<Rightarrow> u64) \<Rightarrow> (nat \<Rightarrow> u64) \<Rightarrow> smr_config \<Rightarrow> nat \<Rightarrow>
   (book \<times> churn) \<times> u8 list \<times> live_out \<times> churn_samples \<Rightarrow>
   panic + (book \<times> churn) \<times> u8 list \<times> live_out \<times> churn_samples" where
  "live_churn_step crc wns sns cfg k = (\<lambda>((b, ch), buf, out, smp).
     and_then (next_op ch) (\<lambda>(op, ch).
     and_then (live_snap crc sns cfg k b (buf, out)) (\<lambda>(buf, out).
     and_then (churn_apply book_insert book_cancel book_fill b op) (\<lambda>b.
     Inr ((b, ch), buf, out\<lparr>lo_writer := (lo_writer out)[k := wns k]\<rparr>,
          record_sample op (wns k) smp)))))"

definition live_stw_churn_main ::
  "(u8 list \<Rightarrow> u32) \<Rightarrow> (string \<Rightarrow> string option) \<Rightarrow> (nat \<Rightarrow> u64) \<Rightarrow> (nat \<Rightarrow> u64) \<Rightarrow>
   config_error + panic + live_out \<times> churn_samples" where
  "live_stw_churn_main crc env wns sns =
     and_then (from_env env) (\<lambda>cfg.
     Inr (and_then (churn_prebuild book_insert book_cancel book_fill (cfg_steady cfg)
              (book_new cfg, churn_new cfg)) (\<lambda>st.
       and_then (churn_warmup book_insert book_cancel book_fill (cfg_warmup cfg) st) (\<lambda>(b, ch).
       and_then (encode crc b (replicate (buf_len cfg) 0)) (\<lambda>(_, buf).
       and_then (try_fold (live_churn_step crc wns sns cfg) [0..<cfg_live_iters cfg]
           ((b, ch), buf, live_out_new cfg, \<lparr>insert_ns = [], cancel_ns = [], fill_ns = []\<rparr>))
         (\<lambda>(_, _, out, smp). Inr (out, smp)))))))"

end
