(* ===== verification/Bench_Runs.thy ===== *)
theory Bench_Runs
  imports Bench
begin

text \<open>
  Why the experiments run to their end: a store that keeps the contract takes every request
  of the streams, and every snapshot the programs take fits its buffer and restores.
\<close>

section \<open>Timing\<close>

lemma samples_step:
  "(map ns [0..<k] @ replicate (Suc m) x)[k := ns k] = map ns [0..<Suc k] @ replicate m x"
  by (simp add: list_update_append)

lemma measure_run:
  assumes step: "\<And>k s. k < warmup + iters \<Longrightarrow> I k s \<Longrightarrow> \<exists>s'. op s = Inr s' \<and> I (Suc k) s'" and "I 0 s"
  shows "\<exists>s'. measure ns warmup iters op s = Inr (map ns [0..<iters], s') \<and> I (warmup + iters) s'"
proof -
  obtain s1 where s1: "try_iter op warmup s = Inr s1" "I warmup s1"
    using try_iter_inv [of warmup I op s] assms by (auto intro: less_trans)
  have "\<exists>p. try_fold (\<lambda>k (samples, s). and_then (op s) (\<lambda>s. Inr (samples[k := ns k], s)))
      [0..<iters] (replicate iters 0, s1) = Inr p \<and>
    (\<exists>s'. p = (map ns [0..<iters] @ replicate (iters - iters) 0, s') \<and> I (warmup + iters) s')"
  proof (rule try_fold_upt [where I = "\<lambda>k p.
      \<exists>s'. p = (map ns [0..<k] @ replicate (iters - k) 0, s') \<and> I (warmup + k) s'"])
    fix k p
    assume k: "k < iters" and "\<exists>s'. p = (map ns [0..<k] @ replicate (iters - k) 0, s') \<and> I (warmup + k) s'"
    then obtain s' where p: "p = (map ns [0..<k] @ replicate (iters - k) 0, s')" "I (warmup + k) s'" by blast
    obtain s2 where s2: "op s' = Inr s2" "I (Suc (warmup + k)) s2"
      using step [of "warmup + k" s'] p(2) k by auto
    have "iters - k = Suc (iters - Suc k)" using k by simp
    then have "(map ns [0..<k] @ replicate (iters - k) 0)[k := ns k] =
        map ns [0..<Suc k] @ replicate (iters - Suc k) 0"
      using samples_step [of ns k "iters - Suc k" 0] by (simp only:)
    then show "\<exists>q. (\<lambda>(samples, s). and_then (op s) (\<lambda>s. Inr (samples[k := ns k], s))) p = Inr q \<and>
        (\<exists>s'. q = (map ns [0..<Suc k] @ replicate (iters - Suc k) 0, s') \<and> I (warmup + Suc k) s')"
      using s2 by (simp add: p(1))
  qed (use s1 in simp)
  then show ?thesis using s1 by (auto simp: measure_def)
qed

section \<open>The request streams\<close>

text \<open>The ids of the first \<open>i\<close> inserts.\<close>

definition stream_ids :: "usize \<Rightarrow> i64 set" where
  "stream_ids i = (\<lambda>j. of_nat j + 1) ` {..<i}"

lemma stream_ids_0 [simp]: "stream_ids 0 = {}"
  by (simp add: stream_ids_def)

lemma stream_ids_Suc: "stream_ids (Suc i) = insert (of_nat i + 1) (stream_ids i)"
  by (simp add: stream_ids_def lessThan_Suc)

lemma card_stream_ids:
  assumes "i < 2 ^ 64 - 1"
  shows "card (stream_ids i) = i"
proof -
  have "inj_on (\<lambda>j. of_nat j + 1 :: i64) {..<i}"
    using of_nat_succ_eq(1) assms by (intro inj_onI) simp
  then show ?thesis by (simp add: stream_ids_def card_image)
qed

lemma stream_ids_fresh:
  assumes "i < 2 ^ 64 - 1"
  shows "(of_nat i + 1 :: i64) \<notin> stream_ids i" and "(of_nat i + 1 :: i64) \<noteq> 0"
proof -
  show "(of_nat i + 1 :: i64) \<notin> stream_ids i"
  proof
    assume "(of_nat i + 1 :: i64) \<in> stream_ids i"
    then obtain j where j: "j < i" "(of_nat i + 1 :: i64) = of_nat j + 1" by (auto simp: stream_ids_def)
    then have "Suc j < 2 ^ 64" "Suc i < 2 ^ 64" using assms by simp_all
    from of_nat_succ_eq(1) [OF this(2,1)] j show False by simp
  qed
  show "(of_nat i + 1 :: i64) \<noteq> 0"
    using of_nat_succ_eq(2) [of i i] assms by simp
qed

lemma in_stream_ids:
  assumes "1 \<le> unat x" and "unat x \<le> n"
  shows "(x :: i64) \<in> stream_ids n"
proof -
  have "x = of_nat (unat x)" by simp
  also have "unat x = Suc (unat x - 1)" using assms(1) by simp
  finally have "x = of_nat (unat x - 1) + 1" by (simp only: of_nat_Suc add.commute)
  then show ?thesis using assms unfolding stream_ids_def by (intro image_eqI [of _ _ "unat x - 1"]) simp_all
qed

definition grid_cfg :: "geometry \<Rightarrow> smr_config \<Rightarrow> bool" where
  "grid_cfg g cfg \<longleftrightarrow> price_grid g \<and>
     g_levels g = cfg_levels cfg \<and> g_tick g = cfg_tick cfg \<and> g_price_min g = cfg_price_min cfg"


text \<open>The next insert is one the queues accept, and the next update amends a resting order.\<close>

lemma stream_insert:
  assumes g: "grid_cfg g cfg" and ids: "ladder_ids (unat (g_levels g)) L = stream_ids i" and i: "i < 2 ^ 64 - 1"
  shows "\<exists>r t rng'. next_insert rng i (cfg_levels cfg) (cfg_tick cfg) (cfg_price_min cfg) = Inr (r, rng') \<and>
    accepts g L (ins_order_id r) (ins_side r) t (ins_price r) \<and>
    ladder_ids (unat (g_levels g))
      (spec_insert (entry_for (ins_order_id r) (ins_price r) (ins_qty r)) (ins_side r) (unat t) L) = stream_ids (Suc i)"
proof -
  have geo: "price_grid g" "cfg_levels cfg = g_levels g" "cfg_tick cfg = g_tick g" "cfg_price_min cfg = g_price_min g"
    using g by (simp_all add: grid_cfg_def)
  have pos: "0 < unat (g_levels g)" using geo(1) by (simp add: price_grid_def)
  obtain r t rng' where n: "next_insert rng i (g_levels g) (g_tick g) (g_price_min g) = Inr (r, rng')"
    and r: "ins_order_id r = of_nat i + 1" "ins_price r = g_price_min g + t * g_tick g"
      "unat t < unat (g_levels g)" "ins_side r = 0 \<or> ins_side r = 1"
    using next_insert_spec [OF pos] by blast
  let ?t = "ucast t :: u32"
  have "unat ?t = unat t"
    using r(3) unat_u32_bound [of "g_levels g"] by (simp add: unsigned_ucast_eq take_bit_nat_eq_self)
  then have acc: "accepts g L (ins_order_id r) (ins_side r) ?t (ins_price r)"
    using r stream_ids_fresh [OF i] tick_of_grid [OF geo(1) r(3)] ids by (simp add: accepts_def is_side_def)
  then have "ladder_ids (unat (g_levels g))
      (spec_insert (entry_for (ins_order_id r) (ins_price r) (ins_qty r)) (ins_side r) (unat ?t) L) = stream_ids (Suc i)"
    using ids by (subst spec_insert_ids) (simp_all add: accepts_def entry_for_def stream_ids_Suc r(1))
  then show ?thesis using n acc geo by auto
qed

lemma stream_update:
  assumes n: "0 < n" "n < 2 ^ 63"
  shows "\<exists>r rng'. next_update rng n = Inr (r, rng') \<and> upd_order_id r \<in> stream_ids n"
  using next_update_spec [OF n] in_stream_ids by blast

context rest_store
begin

lemma insert_step_run:
  assumes s: "ok (Suc z) s" and g: "grid_cfg (geom s) cfg"
    and ids: "ladder_ids (unat (g_levels (geom s))) (view s) = stream_ids i" and room: "i < g_capacity (geom s)"
  shows "\<exists>s' rng'. insert_step ins cfg i (s, rng) = Inr (s', rng') \<and> ok z s' \<and> geom s' = geom s \<and>
    ladder_ids (unat (g_levels (geom s))) (view s') = stream_ids (Suc i)"
proof -
  have i: "i < 2 ^ 64 - 1" using room cap_bound [OF s] by simp
  obtain r t rng' where r: "next_insert rng i (cfg_levels cfg) (cfg_tick cfg) (cfg_price_min cfg) = Inr (r, rng')"
    "accepts (geom s) (view s) (ins_order_id r) (ins_side r) t (ins_price r)"
    "ladder_ids (unat (g_levels (geom s))) (spec_insert (entry_for (ins_order_id r) (ins_price r) (ins_qty r))
      (ins_side r) (unat t) (view s)) = stream_ids (Suc i)"
    using stream_insert [OF g ids i] by blast
  have "live_count (geom s) (view s) < g_capacity (geom s)"
    using room card_stream_ids [OF i] ids by (simp add: live_count_def)
  from ins_ok [OF s this r(2), of "ins_qty r"] r(1,3) show ?thesis
    by (auto simp: insert_step_def)
qed

lemma steady_run:
  assumes s: "ok (cfg_steady cfg + z) s" and g: "grid_cfg (geom s) cfg"
    and ids: "ladder_ids (unat (g_levels (geom s))) (view s) = {}"
    and room: "cfg_steady cfg \<le> g_capacity (geom s)"
  shows "\<exists>s' rng'. steady_book ins cfg s = Inr (s', rng') \<and> ok z s' \<and> geom s' = geom s \<and>
    ladder_ids (unat (g_levels (geom s))) (view s') = stream_ids (cfg_steady cfg)"
proof -
  let ?I = "\<lambda>k p. ok (cfg_steady cfg - k + z) (fst p) \<and> geom (fst p) = geom s \<and>
      ladder_ids (unat (g_levels (geom s))) (view (fst p)) = stream_ids k"
  have "\<exists>p. try_fold (insert_step ins cfg) [0..<cfg_steady cfg] (s, SEED) = Inr p \<and> ?I (cfg_steady cfg) p"
  proof (rule try_fold_upt [where I = ?I])
    fix k and p :: "'s \<times> u64"
    assume "k < cfg_steady cfg" "?I k p"
    moreover obtain t rng where "p = (t, rng)" by (cases p)
    ultimately have t: "ok (Suc (cfg_steady cfg - Suc k + z)) t" "geom t = geom s"
      "ladder_ids (unat (g_levels (geom t))) (view t) = stream_ids k"
      and p: "p = (t, rng)" and k: "k < cfg_steady cfg" by (simp_all add: Suc_diff_Suc)
    have g': "grid_cfg (geom t) cfg" and r: "k < g_capacity (geom t)" using g t(2) k room by simp_all
    show "\<exists>p'. insert_step ins cfg k p = Inr p' \<and> ?I (Suc k) p'"
      using insert_step_run [OF t(1) g' t(3) r, of rng] t(2) by (auto simp: p)
  qed (use s ids in simp)
  then show ?thesis by (auto simp: steady_book_def)
qed

lemma insert_measure_run:
  assumes s: "ok (cfg_warmup cfg + cfg_iters cfg + z) s" and g: "grid_cfg (geom s) cfg"
    and ids: "ladder_ids (unat (g_levels (geom s))) (view s) = {}"
    and room: "cfg_warmup cfg + cfg_iters cfg \<le> g_capacity (geom s)"
  shows "\<exists>p. measure ns (cfg_warmup cfg) (cfg_iters cfg)
      (\<lambda>(i, s). and_then (insert_step ins cfg i s) (\<lambda>s. Inr (usize_add i 1, s))) (0, s, SEED) =
    Inr (map ns [0..<cfg_iters cfg], p)"
proof -
  let ?I = "\<lambda>k p. fst p = k \<and> ok (cfg_warmup cfg + cfg_iters cfg - k + z) (fst (snd p)) \<and> geom (fst (snd p)) = geom s \<and>
      ladder_ids (unat (g_levels (geom s))) (view (fst (snd p))) = stream_ids k"
  let ?op = "\<lambda>(i, s). and_then (insert_step ins cfg i s) (\<lambda>s. Inr (usize_add i 1, s))"
  have "\<exists>p'. ?op p = Inr p' \<and> ?I (Suc k) p'" if k: "k < cfg_warmup cfg + cfg_iters cfg" and I: "?I k p"
    for k and p :: "usize \<times> 's \<times> u64"
  proof -
    obtain t rng where p: "p = (k, t, rng)" using I by (cases p) auto
    have t: "ok (Suc (cfg_warmup cfg + cfg_iters cfg - Suc k + z)) t" "geom t = geom s"
      "ladder_ids (unat (g_levels (geom t))) (view t) = stream_ids k"
      using I k by (simp_all add: p Suc_diff_Suc)
    have g': "grid_cfg (geom t) cfg" and r: "k < g_capacity (geom t)" using g t(2) k room by simp_all
    obtain t' rng' where "insert_step ins cfg k (t, rng) = Inr (t', rng')"
      "ok (cfg_warmup cfg + cfg_iters cfg - Suc k + z) t'" "geom t' = geom t"
      "ladder_ids (unat (g_levels (geom t))) (view t') = stream_ids (Suc k)"
      using insert_step_run [OF t(1) g' t(3) r] by blast
    moreover have "usize_add k 1 = Suc k" using r cap_bound [OF t(1)] by simp
    ultimately show ?thesis using t(2) by (simp add: p)
  qed
  moreover have "?I 0 (0, s, SEED)" using s ids by simp
  ultimately show ?thesis
    using measure_run [of "cfg_warmup cfg" "cfg_iters cfg" ?I ?op "(0, s, SEED)" ns] by blast
qed

end

text \<open>A store that also amends.\<close>

locale amend_store = rest_store +
  fixes upd :: "'a \<Rightarrow> i64 \<Rightarrow> i64 \<Rightarrow> panic + 'a"
  assumes upd_ok: "ok (Suc n) s \<Longrightarrow> oid \<in> ladder_ids (unat (g_levels (geom s))) (view s) \<Longrightarrow>
      \<exists>s'. upd s oid q = Inr s' \<and> ok n s' \<and> geom s' = geom s \<and> view s' = spec_update oid q (view s)"
begin

lemma update_step_run:
  assumes s: "ok (Suc z) s" and ids: "ladder_ids (unat (g_levels (geom s))) (view s) = stream_ids n"
    and n: "0 < n" "n < 2 ^ 63"
  shows "\<exists>s' rng'. update_step upd n (s, rng) = Inr (s', rng') \<and> ok z s' \<and> geom s' = geom s \<and>
    ladder_ids (unat (g_levels (geom s))) (view s') = stream_ids n"
proof -
  obtain r rng' where r: "next_update rng n = Inr (r, rng')" "upd_order_id r \<in> stream_ids n"
    using stream_update [OF n] by blast
  from upd_ok [OF s, of "upd_order_id r" "upd_fill_qty r"] show ?thesis
    using r ids by (auto simp: update_step_def spec_update_ids)
qed

lemma update_iter_run:
  assumes s: "ok (w + m + z) s" and ids: "ladder_ids (unat (g_levels (geom s))) (view s) = stream_ids n"
    and n: "0 < n" "n < 2 ^ 63"
  shows "\<exists>s' rng'. try_iter (update_step upd n) m (s, rng) = Inr (s', rng') \<and> ok (w + z) s' \<and> geom s' = geom s \<and>
      ladder_ids (unat (g_levels (geom s))) (view s') = stream_ids n"
    and "\<exists>p. measure ns w m (update_step upd n) (s, rng) = Inr (map ns [0..<m], p)"
proof -
  let ?I = "\<lambda>(k :: nat) p. ok (w + m - k + z) (fst p) \<and> geom (fst p) = geom s \<and>
      ladder_ids (unat (g_levels (geom s))) (view (fst p)) = stream_ids n"
  have step: "\<exists>p'. update_step upd n p = Inr p' \<and> ?I (Suc k) p'" if k: "k < w + m" and I: "?I k p"
    for k and p :: "'a \<times> u64"
  proof -
    have "w + m - k + z = Suc (w + m - Suc k + z)" using k by simp
    then have "ok (Suc (w + m - Suc k + z)) (fst p)" using I by simp
    from update_step_run [OF this _ n, of "snd p"] show ?thesis using I by (cases p) fastforce
  qed
  show "\<exists>s' rng'. try_iter (update_step upd n) m (s, rng) = Inr (s', rng') \<and> ok (w + z) s' \<and> geom s' = geom s \<and>
      ladder_ids (unat (g_levels (geom s))) (view s') = stream_ids n"
    using try_iter_inv [of m ?I "update_step upd n" "(s, rng)"] step s ids by fastforce
  show "\<exists>p. measure ns w m (update_step upd n) (s, rng) = Inr (map ns [0..<m], p)"
    using measure_run [of w m ?I "update_step upd n" "(s, rng)" ns] step s ids by fastforce
qed

end

interpretation flat_amend: amend_store "\<lambda>_. wf_book" ladder_of geom_of book_insert book_cancel book_fill book_update
proof
  fix b :: book and oid q :: i64
  assume wf: "wf_book b" and "oid \<in> ladder_ids (unat (g_levels (geom_of b))) (ladder_of b)"
  then obtain s where "idmap b oid = Some s" using wf_book_ids [OF wf] by (auto simp: geom_of_def)
  then show "\<exists>s'. book_update b oid q = Inr s' \<and> wf_book s' \<and> geom_of s' = geom_of b \<and>
      ladder_of s' = spec_update oid q (ladder_of b)"
    using wf update_refines_inv [of b _ _ oid s q] unfolding wf_book_def by blast
qed

interpretation cow_amend: amend_store "\<lambda>_. cow_wf" "\<lambda>c. ladder_of (flat c)" "\<lambda>c. geom_of (flat c)"
  cow_insert cow_cancel cow_fill cow_update
proof
  fix c :: cowbook and oid q :: i64
  assume wf: "cow_wf c" and id: "oid \<in> ladder_ids (unat (g_levels (geom_of (flat c)))) (ladder_of (flat c))"
  then have self: "sim c c (flat c)" and b: "wf_book (flat c)" by (simp_all add: cow_wf_def cow_sim_self)
  obtain b' where b': "book_update (flat c) oid q = Inr b'" "wf_book b'" "geom_of b' = geom_of (flat c)"
    "ladder_of b' = spec_update oid q (ladder_of (flat c))"
    using flat_amend.upd_ok [OF b id] by blast
  obtain c' where "cow_update c oid q = Inr c'" "cow_ok c'" "flat c' = b'"
    by (rule cow_run [OF sim_update [OF self] b'(1)])
  then show "\<exists>s'. cow_update c oid q = Inr s' \<and> cow_wf s' \<and> geom_of (flat s') = geom_of (flat c) \<and>
      ladder_of (flat s') = spec_update oid q (ladder_of (flat c))"
    using b' by (auto simp: cow_wf_def)
qed

interpretation peak_amend: amend_store "\<lambda>_. peak_ok K" ladder_of "peak_geom K" book_insert book_cancel book_fill
  book_update for K
proof
  fix b :: book and oid q :: i64
  assume ok: "peak_ok K b" and id: "oid \<in> ladder_ids (unat (g_levels (peak_geom K b))) (ladder_of b)"
  have wf: "wf_book b" using ok by (simp add: peak_ok_def)
  have "g_levels (peak_geom K b) = g_levels (geom_of b)" by (simp add: peak_geom_def)
  then obtain b' where b': "book_update b oid q = Inr b'" "wf_book b'" "geom_of b' = geom_of b"
    "ladder_of b' = spec_update oid q (ladder_of b)"
    using flat_amend.upd_ok [OF wf] id by fastforce
  have "length (pool b') = length (pool b)"
    using arg_cong [where f = g_capacity, OF b'(3)] by (simp add: geom_of_def)
  then show "\<exists>s'. book_update b oid q = Inr s' \<and> peak_ok K s' \<and> peak_geom K s' = peak_geom K b \<and>
      ladder_of s' = spec_update oid q (ladder_of b)"
    using ok b' update_hwm [OF b'(1)] by (simp add: peak_ok_def peak_geom_def)
qed

section \<open>The start of every program\<close>

lemma new_book_start:
  assumes env: "from_env env = Inr cfg" and cap: "cfg_cap cfg < 2 ^ 32"
    and grid: "price_grid (geom_of (book_new cfg))"
  shows "wf_book (book_new cfg)" and "grid_cfg (geom_of (book_new cfg)) cfg"
    and "ladder_ids (unat (g_levels (geom_of (book_new cfg)))) (ladder_of (book_new cfg)) = {}"
    and "g_capacity (geom_of (book_new cfg)) = cfg_cap cfg"
    and "\<exists>c. cow_new cfg = Inr c \<and> cow_wf c \<and> flat c = book_new cfg \<and> c_gen c = 1"
    and "churn_known (geom_of (book_new cfg)) (churn_new cfg) (ladder_of (book_new cfg))"
proof -
  have ck: "unat (cfg_levels cfg) < 2 ^ 31" "0 < cfg_chunk cfg"
    using from_env_checked [OF env] by (simp_all add: check_config_Inr)
  have inv: "book_inv (book_new cfg) (\<lambda>_ _. []) []" by (rule book_inv_new [OF cap ck(1)])
  then show wf: "wf_book (book_new cfg)" by (auto simp: wf_book_def)
  show "grid_cfg (geom_of (book_new cfg)) cfg"
    using grid by (simp add: grid_cfg_def geom_of_def) (simp add: book_new_def)
  show "g_capacity (geom_of (book_new cfg)) = cfg_cap cfg" by (simp add: geom_of_def book_new_def)
  show ids: "ladder_ids (unat (g_levels (geom_of (book_new cfg)))) (ladder_of (book_new cfg)) = {}"
    using ids_read [OF inv] by (simp add: geom_of_def) (simp add: book_new_def)
  obtain c where "cow_new cfg = Inr c" "cow_ok c" "flat c = book_new cfg"
    using cow_new_flat [OF ck(2) cap] by blast
  then show "\<exists>c. cow_new cfg = Inr c \<and> cow_wf c \<and> flat c = book_new cfg \<and> c_gen c = 1"
    using wf cow_new_gen by (auto simp: cow_wf_def)
  show "churn_known (geom_of (book_new cfg)) (churn_new cfg) (ladder_of (book_new cfg))"
    using ids by (simp add: churn_known_def known_ids_def churn_new_def) (simp add: geom_of_def book_new_def)
qed

text \<open>The same start as a store that keeps its high-water mark at most \<open>K\<close>.\<close>

lemma new_peak_start:
  assumes env: "from_env env = Inr cfg" and cap: "cfg_cap cfg < 2 ^ 32"
    and grid: "price_grid (geom_of (book_new cfg))" and K: "K \<le> cfg_cap cfg"
  shows "peak_ok K (book_new cfg)" and "grid_cfg (peak_geom K (book_new cfg)) cfg"
    and "ladder_ids (unat (g_levels (peak_geom K (book_new cfg)))) (ladder_of (book_new cfg)) = {}"
    and "g_capacity (peak_geom K (book_new cfg)) = K"
    and "churn_known (peak_geom K (book_new cfg)) (churn_new cfg) (ladder_of (book_new cfg))"
proof -
  note start = new_book_start [OF env cap grid]
  show "peak_ok K (book_new cfg)" using start(1) K by (simp add: peak_ok_def book_new_def)
  show "g_capacity (peak_geom K (book_new cfg)) = K" by (simp add: peak_geom_def)
  show "grid_cfg (peak_geom K (book_new cfg)) cfg"
    using start(2) by (auto simp: grid_cfg_def peak_geom_def price_grid_def)
  show "ladder_ids (unat (g_levels (peak_geom K (book_new cfg)))) (ladder_of (book_new cfg)) = {}"
    using start(3) by (simp add: peak_geom_def)
  show "churn_known (peak_geom K (book_new cfg)) (churn_new cfg) (ladder_of (book_new cfg))"
    using start(6) by (simp add: churn_known_def peak_geom_def)
qed

lemma peak_levels: "peak_geom K b = peak_geom K (book_new cfg) \<Longrightarrow> n_levels b = cfg_levels cfg"
  by (drule arg_cong [where f = g_levels]) (simp add: peak_geom_def geom_of_def book_new_def)

section \<open>Snapshots fit\<close>

lemma buf_len_eq:
  assumes "cfg_cap cfg < 2 ^ 32"
  shows "buf_len cfg = 64 + cfg_cap cfg * 64 + unat (cfg_levels cfg) * 64" and "buf_len cfg < 2 ^ 64"
proof -
  have "64 + cfg_cap cfg * 64 + unat (cfg_levels cfg) * 64 < 2 ^ 64"
    using assms unat_u32_bound [of "cfg_levels cfg"] by simp
  then show "buf_len cfg = 64 + cfg_cap cfg * 64 + unat (cfg_levels cfg) * 64" "buf_len cfg < 2 ^ 64"
    by (simp_all add: buf_len_def)
qed

lemma image_fits:
  assumes wf: "wf_book b" and len: "n_levels b = cfg_levels cfg" "unat (hwm b) \<le> cfg_cap cfg"
    and cap: "cfg_cap cfg < 2 ^ 32"
  shows "length (image b) + 4 \<le> buf_len cfg"
proof -
  obtain Q F where inv: "core_inv b Q F" using wf_book_core [OF wf] by blast
  show ?thesis
    using level_total_lanes [OF inv] len(2)
    unfolding buf_len_eq(1) [OF cap] length_image len(1) by linarith
qed

lemma bench_encode:
  assumes wf: "wf_book b" and len: "n_levels b = cfg_levels cfg" "unat (hwm b) \<le> cfg_cap cfg"
    and cap: "cfg_cap cfg < 2 ^ 32" and hw: "unat (hwm b) < 65536" and buf: "length buf = buf_len cfg"
  shows "\<exists>buf'. encode crc b buf = Inr (length (image b) + 4, buf') \<and> length buf' = buf_len cfg \<and>
    slice_to buf' (length (image b) + 4) = Inr (image b @ le_bytes 4 (unat (crc (image b))))"
proof -
  have fits: "length (image b) + 4 \<le> length buf" "length buf < 2 ^ 64"
    using image_fits [OF wf len cap] buf buf_len_eq(2) [OF cap] by simp_all
  obtain buf' where buf': "encode crc b buf = Inr (length (image b) + 4, buf')" "length buf' = length buf"
    "take (length (image b) + 4) buf' = image b @ le_bytes 4 (unat (crc (image b)))"
    using wf_book_encode [OF wf hw fits, of crc] by blast
  then show ?thesis using fits buf by (simp add: slice_to_def)
qed

lemma bench_restore:
  assumes wf: "wf_book b" and len: "n_levels b = cfg_levels cfg" "length (pool b) = cfg_cap cfg"
    and cap: "cfg_cap cfg < 2 ^ 32" and hw: "unat (hwm b) < 65536" and buf: "length buf = buf_len cfg"
  shows "\<exists>buf'. snapshot_step crc cfg b buf = Inr ((length (image b) + 4, b), buf') \<and> length buf' = buf_len cfg"
proof -
  obtain Q F where inv: "core_inv b Q F" using wf_book_core [OF wf] by blast
  have le: "unat (hwm b) \<le> cfg_cap cfg" using core_inv_hwm [OF inv] len(2) by simp
  obtain buf' where buf': "encode crc b buf = Inr (length (image b) + 4, buf')" "length buf' = buf_len cfg"
    "slice_to buf' (length (image b) + 4) = Inr (image b @ le_bytes 4 (unat (crc (image b))))"
    using bench_encode [OF wf len(1) le cap hw buf, of crc] by blast
  have "restore crc (image b @ le_bytes 4 (unat (crc (image b)))) cfg = Inr (Inr b)"
    by (rule restore_image [OF inv hw])
      (use image_fits [OF wf len(1) le cap] buf_len_eq(2) [OF cap] len in simp_all)
  then show ?thesis using buf' by (simp add: snapshot_step_def restore_from_def)
qed

text \<open>A book of the experiments: no more than \<open>K\<close> slots handed out, the shape of the configuration.\<close>

definition live_book :: "nat \<Rightarrow> smr_config \<Rightarrow> book \<Rightarrow> bool" where
  "live_book K cfg b \<longleftrightarrow> peak_ok K b \<and> peak_geom K b = peak_geom K (book_new cfg)"

lemma live_encode:
  assumes "live_book K cfg b" and "K \<le> 65535" and "K \<le> cfg_cap cfg" and "cfg_cap cfg < 2 ^ 32"
    and "length buf = buf_len cfg"
  shows "\<exists>n buf'. encode crc b buf = Inr (n, buf') \<and> length buf' = buf_len cfg"
proof -
  have "wf_book b" "n_levels b = cfg_levels cfg" "unat (hwm b) \<le> cfg_cap cfg" "unat (hwm b) < 65536"
    using assms peak_levels by (auto simp: live_book_def peak_ok_def)
  from bench_encode [OF this(1-3) assms(4) this(4) assms(5), of crc] show ?thesis by blast
qed

lemma from_env_snap_every: "from_env env = Inr cfg \<Longrightarrow> 0 < cfg_snap_every cfg"
  using parse_usize_pos by (auto simp: from_env_def Let_def check_config_Inr)

end
