(* ===== verification/Cow_Runs.thy ===== *)
theory Cow_Runs
  imports Bench_Runs
begin

text \<open>
  The copy-on-write book as a store that remembers the state it started from: an operation
  writes no chunk frozen at that state, and hands out at most \<open>K\<close> slots. The experiments that
  take snapshots beside the writer rest on it.
\<close>

definition cow_since :: "nat \<Rightarrow> cowbook \<Rightarrow> cowbook \<Rightarrow> bool" where
  "cow_since K c0 c \<longleftrightarrow> sim c0 c (flat c) \<and> peak_ok K (flat c)"

lemma cow_since_run:
  assumes "agree (sim c0) m m'" and "\<exists>b'. m' = Inr b' \<and> peak_ok K b' \<and> P b'"
  shows "\<exists>c'. m = Inr c' \<and> cow_since K c0 c' \<and> P (flat c')"
  using assms by (cases m) (auto simp: cow_since_def sim_def)

interpretation cow_since_store: amend_store "\<lambda>_. cow_since K c0" "\<lambda>c. ladder_of (flat c)"
  "\<lambda>c. peak_geom K (flat c)" cow_insert cow_cancel cow_fill cow_update for K c0
proof
  fix c :: cowbook and oid pr q :: i64 and sd :: u8 and t :: u32
  assume c: "cow_since K c0 c"
  then have pk: "peak_ok K (flat c)" and s: "sim c0 c (flat c)" by (simp_all add: cow_since_def)
  show "g_capacity (peak_geom K (flat c)) < 2 ^ 32" by (rule peak_store.cap_bound [OF pk])
  show "\<exists>s'. cow_insert c oid pr q sd = Inr s' \<and> cow_since K c0 s' \<and>
      peak_geom K (flat s') = peak_geom K (flat c) \<and>
      ladder_of (flat s') = spec_insert (entry_for oid pr q) sd (unat t) (ladder_of (flat c))"
    if "live_count (peak_geom K (flat c)) (ladder_of (flat c)) < g_capacity (peak_geom K (flat c))"
      "accepts (peak_geom K (flat c)) (ladder_of (flat c)) oid sd t pr"
    by (rule cow_since_run [OF sim_insert [OF s] peak_store.ins_ok [OF pk that]])
  show "\<exists>s'. cow_cancel c oid = Inr s' \<and> cow_since K c0 s' \<and>
      peak_geom K (flat s') = peak_geom K (flat c) \<and> ladder_of (flat s') = spec_remove oid (ladder_of (flat c))"
    and "\<exists>s'. cow_fill c oid = Inr s' \<and> cow_since K c0 s' \<and>
      peak_geom K (flat s') = peak_geom K (flat c) \<and> ladder_of (flat s') = spec_remove oid (ladder_of (flat c))"
    and "\<exists>s'. cow_update c oid q = Inr s' \<and> cow_since K c0 s' \<and>
      peak_geom K (flat s') = peak_geom K (flat c) \<and> ladder_of (flat s') = spec_update oid q (ladder_of (flat c))"
    if "oid \<in> ladder_ids (unat (g_levels (peak_geom K (flat c)))) (ladder_of (flat c))"
    by (rule cow_since_run [OF sim_cancel [OF s] peak_store.can_ok [OF pk that]],
        rule cow_since_run [OF sim_fill [OF s] peak_store.fil_ok [OF pk that]],
        rule cow_since_run [OF sim_update [OF s] peak_amend.upd_ok [OF pk that]])
qed

text \<open>A root frozen at the start stays frozen and keeps showing the same book.\<close>

lemma cow_since_frozen:
  assumes "cow_since K c0 c" and "frozen c0 r"
  shows "frozen c r" and "c_gen c = c_gen c0"
    and "root_book (order_heap c) (level_heap c) r = root_book (order_heap c0) (level_heap c0) r"
proof -
  have fr: "frame c0 c" using assms(1) by (simp add: cow_since_def sim_def)
  then show "frozen c r" "root_book (order_heap c) (level_heap c) r = root_book (order_heap c0) (level_heap c0) r"
    using frozen_frame [OF fr assms(2)] by blast+
  show "c_gen c = c_gen c0" using fr by (simp add: frame_def)
qed

lemma cow_since_start:
  assumes env: "from_env env = Inr cfg" and cap: "cfg_cap cfg < 2 ^ 32"
    and grid: "price_grid (geom_of (book_new cfg))" and K: "K \<le> cfg_cap cfg"
  shows "\<exists>c. cow_new cfg = Inr c \<and> cow_since K c c \<and> flat c = book_new cfg \<and> c_gen c = 1"
proof -
  obtain c where c: "cow_new cfg = Inr c" "cow_wf c" "flat c = book_new cfg" "c_gen c = 1"
    using new_book_start(5) [OF env cap grid] by blast
  moreover have "cow_since K c c"
    using c new_peak_start(1) [OF env cap grid K] by (simp add: cow_since_def cow_wf_def sim_def)
  ultimately show ?thesis by blast
qed

section \<open>Captures and their images\<close>

lemma capture_gen:
  assumes "unat (c_gen c) < 2 ^ 64 - 1"
  shows "unat (c_gen (snd (capture c))) = Suc (unat (c_gen c))"
  using assms by (simp add: capture_def unat_word_ariths)

lemma mvcc_step_run:
  assumes c: "cow_ok c" "wf_book (flat c)" and gen: "unat (c_gen c) + 1 < 2 ^ 64"
    and cfg: "n_levels (flat c) = cfg_levels cfg" "length (pool (flat c)) = cfg_cap cfg"
      "cfg_cap cfg < 2 ^ 32" "0 < cfg_chunk cfg"
    and hw: "unat (hwm (flat c)) < 65536" and buf: "length buf = buf_len cfg"
  shows "\<exists>d c' buf'. mvcc_snapshot_step crc cfg (c, buf) = Inr ((length (image (flat c)) + 4, d), c', buf') \<and>
    flat d = flat c \<and> cow_ok c' \<and> flat c' = flat c \<and> unat (c_gen c') = Suc (unat (c_gen c)) \<and>
    length buf' = buf_len cfg"
proof -
  let ?b = "flat c" and ?r = "fst (capture c)" and ?c = "snd (capture c)"
  let ?img = "image ?b @ le_bytes 4 (unat (crc (image ?b)))"
  have g: "unat (c_gen c) < 2 ^ 64 - 1" using gen by simp
  obtain Q F where inv: "core_inv ?b Q F" using wf_book_core [OF c(2)] by blast
  have le: "unat (hwm ?b) \<le> cfg_cap cfg" using core_inv_hwm [OF inv] cfg(2) by simp
  obtain buf' where buf': "encode crc ?b buf = Inr (length (image ?b) + 4, buf')" "length buf' = buf_len cfg"
    "slice_to buf' (length (image ?b) + 4) = Inr ?img"
    using bench_encode [OF c(2) cfg(1) le cfg(3) hw buf, of crc] by blast
  have enc: "encode_root crc (order_heap ?c) (level_heap ?c) ?r buf = encode crc ?b buf"
    by (rule encode_captured [OF c(1), of "[]"]) (use gen in simp_all)
  have len: "length (image ?b) + 4 < 2 ^ 64"
    using image_fits [OF c(2) cfg(1) le cfg(3)] buf_len_eq(2) [OF cfg(3)] by simp
  have rest: "restore crc ?img cfg = Inr (Inr ?b)"
    by (rule restore_image [OF inv hw len cfg(2) [symmetric] cfg(1) [symmetric]])
  have "agree (rel_sum (=) (\<lambda>c b. cow_ok c \<and> c_gen c = 1 \<and> flat c = b)) (restore_cow crc ?img cfg) (restore crc ?img cfg)"
    using cfg image_same_levels [OF len] by (intro restore_cow_agrees) simp_all
  then obtain d where d: "restore_cow crc ?img cfg = Inr (Inr d)" "flat d = ?b"
    unfolding rest by (auto elim!: agree_InrE [OF _ refl] rel_sum.cases)
  have "mvcc_snapshot_step crc cfg (c, buf) = Inr ((length (image ?b) + 4, d), ?c, buf')"
    using buf' d(1) enc by (simp add: mvcc_snapshot_step_def restore_from_def split_beta)
  then show ?thesis using capture_spec(1,2) [OF c(1) g] capture_gen [OF g] d(2) buf'(2) by blast
qed

text \<open>The loop that times snapshots and restores, on either book.\<close>

lemma snap_loop_run:
  assumes step: "\<And>k s. k < w + m \<Longrightarrow> I k s \<Longrightarrow> \<exists>d s'. step s = Inr ((n, d), s') \<and> I (Suc k) s'"
    and "I 0 s" and m: "0 < m"
  shows "\<exists>s1 s2. try_iter (\<lambda>s. and_then (step s) (\<lambda>(_, s). Inr s)) w s = Inr s1 \<and>
    try_fold (\<lambda>k (out, s). and_then (step s) (\<lambda>((n, _), s).
        Inr (out\<lparr>so_snap := (so_snap out)[k := sns k], so_rest := (so_rest out)[k := rns k], so_len := n\<rparr>, s)))
      [0..<m] (\<lparr>so_snap = replicate m 0, so_rest = replicate m 0, so_len = 0\<rparr>, s1) =
    Inr (\<lparr>so_snap = map sns [0..<m], so_rest = map rns [0..<m], so_len = n\<rparr>, s2)"
proof -
  obtain s1 where 1: "try_iter (\<lambda>s. and_then (step s) (\<lambda>(_, s). Inr s)) w s = Inr s1" "I w s1"
  proof -
    have "\<exists>s1. try_iter (\<lambda>s. and_then (step s) (\<lambda>(_, s). Inr s)) w s = Inr s1 \<and> I w s1"
    proof (rule try_iter_inv [where I = I])
      fix k s assume "k < w" "I k s"
      then obtain d s' where "step s = Inr ((n, d), s')" "I (Suc k) s'" using step [of k s] by auto
      then show "\<exists>s'. and_then (step s) (\<lambda>(_, s). Inr s) = Inr s' \<and> I (Suc k) s'" by simp
    qed (rule assms(2))
    with that show thesis by blast
  qed
  let ?out = "\<lambda>k. \<lparr>so_snap = map sns [0..<k] @ replicate (m - k) 0,
      so_rest = map rns [0..<k] @ replicate (m - k) 0, so_len = if k = 0 then 0 else n\<rparr>"
  let ?body = "\<lambda>k (out, s). and_then (step s) (\<lambda>((n, _), s).
      Inr (out\<lparr>so_snap := (so_snap out)[k := sns k], so_rest := (so_rest out)[k := rns k], so_len := n\<rparr>, s))"
  have "\<exists>p. try_fold ?body [0..<m] (?out 0, s1) = Inr p \<and> fst p = ?out m \<and> I (w + m) (snd p)"
  proof (rule try_fold_upt [where I = "\<lambda>k p. fst p = ?out k \<and> I (w + k) (snd p)"])
    fix k and p :: "snap_out \<times> 'a"
    assume k: "k < m" and I: "fst p = ?out k \<and> I (w + k) (snd p)"
    obtain d s' where s': "step (snd p) = Inr ((n, d), s')" "I (Suc (w + k)) s'"
      using step [of "w + k" "snd p"] I k by auto
    have m: "m - k = Suc (m - Suc k)" using k by simp
    have "?body k p = Inr (?out (Suc k), s')"
      using I s'(1) samples_step [of sns k "m - Suc k" 0] samples_step [of rns k "m - Suc k" 0] m
      by (cases p) simp
    then show "\<exists>p'. ?body k p = Inr p' \<and> fst p' = ?out (Suc k) \<and> I (w + Suc k) (snd p')"
      using s'(2) by simp
  qed (use 1 in simp)
  then show ?thesis using 1(1) m by auto
qed

end
