(* ===== verification/Bench_Theorems.thy ===== *)
theory Bench_Theorems
  imports Cow_Runs Demo
begin

text \<open>
  The experiments end: under an accepted configuration whose prices fit i64 no request of the
  streams panics, every loop takes all its samples, every snapshot fits the buffer and
  restores.
\<close>

section \<open>What the programs share\<close>

lemma no_bump_wrap:
  assumes "require_bump_capacity cfg = Inr u" and "cfg_warmup cfg + cfg_iters cfg < 2 ^ 64"
  shows "cfg_warmup cfg + cfg_iters cfg \<le> cfg_cap cfg"
  using assms by (simp add: require_bump_capacity_def split: if_splits)

lemma steady_peak:
  assumes env: "from_env env = Inr cfg" and cap: "cfg_cap cfg < 2 ^ 32"
    and grid: "price_grid (geom_of (book_new cfg))"
  shows "\<exists>b rng. steady_book book_insert cfg (book_new cfg) = Inr (b, rng) \<and> peak_ok (cfg_steady cfg) b \<and>
    peak_geom (cfg_steady cfg) b = peak_geom (cfg_steady cfg) (book_new cfg) \<and>
    ladder_ids (unat (cfg_levels cfg)) (ladder_of b) = stream_ids (cfg_steady cfg) \<and>
    length (pool b) = cfg_cap cfg"
proof -
  have st: "cfg_steady cfg \<le> cfg_cap cfg"
    using from_env_checked [OF env] by (simp add: check_config_Inr)
  note start = new_peak_start [OF env cap grid st]
  obtain b rng where b: "steady_book book_insert cfg (book_new cfg) = Inr (b, rng)"
    "peak_ok (cfg_steady cfg) b" "peak_geom (cfg_steady cfg) b = peak_geom (cfg_steady cfg) (book_new cfg)"
    "ladder_ids (unat (g_levels (peak_geom (cfg_steady cfg) (book_new cfg)))) (ladder_of b) = stream_ids (cfg_steady cfg)"
    using peak_store.steady_run [OF start(1-3)] start(4) by auto
  obtain b2 rng2 where "steady_book book_insert cfg (book_new cfg) = Inr (b2, rng2)"
    "geom_of b2 = geom_of (book_new cfg)"
    using flat_store.steady_run [OF new_book_start(1,2,3) [OF env cap grid]]
      new_book_start(4) [OF env cap grid] st by auto
  then have "geom_of b = geom_of (book_new cfg)" using b(1) by simp
  from arg_cong [where f = g_capacity, OF this] have "length (pool b) = cfg_cap cfg"
    by (simp add: geom_of_def book_new_def)
  then show ?thesis using b by (simp add: peak_geom_def geom_of_def) (simp add: book_new_def)
qed

section \<open>Insert and update\<close>

text \<open>The insert experiments take all their samples: when the capacity check passes and its
  sum does not wrap, neither the flat nor the copy-on-write book panics on any of the
  warm-up and timed inserts.\<close>

theorem insert_bench_completes:
  assumes env: "from_env env = Inr cfg" and bump: "require_bump_capacity cfg = Inr ()"
    and wrap: "cfg_warmup cfg + cfg_iters cfg < 2 ^ 64" and cap: "cfg_cap cfg < 2 ^ 32"
    and grid: "price_grid (geom_of (book_new cfg))"
  shows "insert_main env ns = Inr (Inr (map ns [0..<cfg_iters cfg])) \<and>
    mvcc_insert_main env ns = Inr (Inr (map ns [0..<cfg_iters cfg]))"
proof -
  note start = new_book_start [OF env cap grid]
  have room: "cfg_warmup cfg + cfg_iters cfg \<le> g_capacity (geom_of (book_new cfg))"
    unfolding start(4) by (rule no_bump_wrap [OF bump wrap])
  obtain c where c: "cow_new cfg = Inr c" "cow_wf c" "flat c = book_new cfg" using start(5) by blast
  show ?thesis
    using flat_store.insert_measure_run [OF start(1-3) room, of ns]
      cow_store.insert_measure_run [OF c(2), of cfg ns] start(2,3) room
    by (auto simp: insert_main_def mvcc_insert_main_def insert_bench_def env bump c)
qed

theorem insert_bench_completes_witness:
  "insert_main (\<lambda>_. None) of_nat = Inr (Inr (map of_nat [0..<100000]))"
proof -
  obtain cfg where cfg: "from_env (\<lambda>_. None) = Inr cfg" "cfg_cap cfg = 262144" "cfg_levels cfg = 1024"
    "cfg_tick cfg = 1" "cfg_price_min cfg = 0" "cfg_steady cfg = 60000" "cfg_warmup cfg = 10000"
    "cfg_iters cfg = 100000" "cfg_live_iters cfg = 200000" "cfg_snap_every cfg = 20000"
    by (rule default_config)
  have cap: "cfg_cap cfg < 2 ^ 32" by (simp add: cfg)
  have bump: "require_bump_capacity cfg = Inr ()" and wrap: "cfg_warmup cfg + cfg_iters cfg < 2 ^ 64"
    by (simp_all add: require_bump_capacity_def cfg)
  show ?thesis
    using insert_bench_completes [OF cfg(1) bump wrap cap default_grid [OF cfg(2-5)], of of_nat]
    unfolding cfg by blast
qed

text \<open>The update experiments take all their samples on both books: every amended id rests.\<close>

theorem update_bench_completes:
  assumes env: "from_env env = Inr cfg" and cap: "cfg_cap cfg < 2 ^ 32"
    and grid: "price_grid (geom_of (book_new cfg))"
  shows "update_main env ns = Inr (Inr (map ns [0..<cfg_iters cfg])) \<and>
    mvcc_update_main env ns = Inr (Inr (map ns [0..<cfg_iters cfg]))"
proof -
  note start = new_book_start [OF env cap grid]
  have n: "0 < cfg_steady cfg" "cfg_steady cfg < 2 ^ 63"
    and room: "cfg_steady cfg \<le> g_capacity (geom_of (book_new cfg))"
    using from_env_checked [OF env] by (simp_all add: check_config_Inr start(4))
  obtain c where c: "cow_new cfg = Inr c" "cow_wf c" "flat c = book_new cfg" using start(5) by blast
  obtain b rng where b: "steady_book book_insert cfg (book_new cfg) = Inr (b, rng)" "wf_book b"
    "geom_of b = geom_of (book_new cfg)"
    "ladder_ids (unat (g_levels (geom_of b))) (ladder_of b) = stream_ids (cfg_steady cfg)"
    using flat_store.steady_run [OF start(1-3) room] by auto
  obtain c1 rng1 where c1: "steady_book cow_insert cfg c = Inr (c1, rng1)" "cow_wf c1"
    "ladder_ids (unat (g_levels (geom_of (flat c1)))) (ladder_of (flat c1)) = stream_ids (cfg_steady cfg)"
    using cow_store.steady_run [OF c(2), of cfg] start(2,3) room c(3) by auto
  show ?thesis
    using flat_amend.update_iter_run(2) [OF b(2,4) n, of ns "cfg_warmup cfg" "cfg_iters cfg" rng]
      cow_amend.update_iter_run(2) [OF c1(2,3) n, of ns "cfg_warmup cfg" "cfg_iters cfg" rng1]
    by (auto simp: update_main_def mvcc_update_main_def update_bench_def env c(1) b(1) c1(1))
qed

theorem update_bench_completes_witness:
  "mvcc_update_main (\<lambda>_. None) of_nat = Inr (Inr (map of_nat [0..<100000]))"
proof -
  obtain cfg where cfg: "from_env (\<lambda>_. None) = Inr cfg" "cfg_cap cfg = 262144" "cfg_levels cfg = 1024"
    "cfg_tick cfg = 1" "cfg_price_min cfg = 0" "cfg_steady cfg = 60000" "cfg_warmup cfg = 10000"
    "cfg_iters cfg = 100000" "cfg_live_iters cfg = 200000" "cfg_snap_every cfg = 20000"
    by (rule default_config)
  have cap: "cfg_cap cfg < 2 ^ 32" by (simp add: cfg)
  show ?thesis
    using update_bench_completes [OF cfg(1) cap default_grid [OF cfg(2-5)], of of_nat] unfolding cfg by blast
qed

section \<open>Snapshots\<close>



lemma mvcc_steady:
  assumes env: "from_env env = Inr cfg" and cap: "cfg_cap cfg < 2 ^ 32"
    and grid: "price_grid (geom_of (book_new cfg))"
  shows "\<exists>c0 c rng. cow_new cfg = Inr c0 \<and> steady_book cow_insert cfg c0 = Inr (c, rng) \<and>
    cow_since (cfg_steady cfg) c0 c \<and> c_gen c = 1 \<and>
    peak_geom (cfg_steady cfg) (flat c) = peak_geom (cfg_steady cfg) (book_new cfg) \<and>
    ladder_ids (unat (cfg_levels cfg)) (ladder_of (flat c)) = stream_ids (cfg_steady cfg) \<and>
    length (pool (flat c)) = cfg_cap cfg"
proof -
  let ?K = "cfg_steady cfg"
  have st: "?K \<le> cfg_cap cfg" using from_env_checked [OF env] by (simp add: check_config_Inr)
  obtain c0 where c0: "cow_new cfg = Inr c0" "cow_since ?K c0 c0" "flat c0 = book_new cfg" "c_gen c0 = 1"
    using cow_since_start [OF env cap grid st] by blast
  note start = new_peak_start [OF env cap grid st]
  have lev: "g_levels (peak_geom ?K (book_new cfg)) = cfg_levels cfg"
    by (simp add: peak_geom_def geom_of_def book_new_def)
  obtain c rng where c: "steady_book cow_insert cfg c0 = Inr (c, rng)" "cow_since ?K c0 c"
    "peak_geom ?K (flat c) = peak_geom ?K (book_new cfg)"
    "ladder_ids (unat (cfg_levels cfg)) (ladder_of (flat c)) = stream_ids ?K"
    using cow_since_store.steady_run [OF c0(2), unfolded c0(3), OF start(2,3)] start(4) lev by auto
  have "sim c0 c0 (book_new cfg)" using c0 by (simp add: cow_since_def)
  obtain c2 rng2 where "steady_book cow_insert cfg c0 = Inr (c2, rng2)"
    "geom_of (flat c2) = geom_of (book_new cfg)"
    using cow_store.steady_run [of c0 cfg] new_book_start(2-4) [OF env cap grid] c0 st
    by (auto simp: cow_wf_def cow_since_def sim_def peak_ok_def)
  then have "geom_of (flat c) = geom_of (book_new cfg)" using c(1) by simp
  from arg_cong [where f = g_capacity, OF this] have "length (pool (flat c)) = cfg_cap cfg"
    by (simp add: geom_of_def) (simp add: book_new_def)
  moreover have "c_gen c = 1" using c(2) c0(4) by (simp add: cow_since_def sim_def frame_def)
  ultimately show ?thesis using c c0(1) by blast
qed

text \<open>The snapshot experiment of the copy-on-write book ends as well, as long as its captures
  do not wrap the generation: every captured root encodes and restores to the same book.\<close>

theorem mvcc_snapshot_main_completes:
  assumes env: "from_env env = Inr cfg" and cap: "cfg_cap cfg < 2 ^ 32"
    and grid: "price_grid (geom_of (book_new cfg))" and gen: "cfg_warmup cfg + cfg_iters cfg + 1 < 2 ^ 64"
  shows "\<exists>n. mvcc_snapshot_main crc env sns rns = Inr (Inr \<lparr>so_snap = map sns [0..<cfg_iters cfg],
      so_rest = map rns [0..<cfg_iters cfg], so_len = n\<rparr>)"
proof -
  obtain c0 c rng where c: "cow_new cfg = Inr c0" "steady_book cow_insert cfg c0 = Inr (c, rng)"
    "cow_since (cfg_steady cfg) c0 c" "c_gen c = 1"
    "peak_geom (cfg_steady cfg) (flat c) = peak_geom (cfg_steady cfg) (book_new cfg)"
    "length (pool (flat c)) = cfg_cap cfg"
    using mvcc_steady [OF env cap grid] by blast
  have ck: "cfg_steady cfg \<le> 65535" "0 < cfg_iters cfg" "0 < cfg_chunk cfg"
    using from_env_checked [OF env] by (simp_all add: check_config_Inr)
  have ok: "cow_ok c" "wf_book (flat c)" "unat (hwm (flat c)) < 65536"
    using c(3) ck(1) by (simp_all add: cow_since_def sim_def peak_ok_def)
  let ?I = "\<lambda>k (c', buf). cow_ok c' \<and> flat c' = flat c \<and> unat (c_gen c') = Suc k \<and> length buf = buf_len cfg"
  have step: "\<exists>d s'. mvcc_snapshot_step crc cfg s = Inr ((length (image (flat c)) + 4, d), s') \<and> ?I (Suc k) s'"
    if k: "k < cfg_warmup cfg + cfg_iters cfg" and I: "?I k s" for k s
  proof -
    obtain c1 buf where s: "s = (c1, buf)" by (cases s)
    have 1: "cow_ok c1" "flat c1 = flat c" "unat (c_gen c1) = Suc k" "length buf = buf_len cfg"
      using I by (simp_all add: s)
    have g: "unat (c_gen c1) + 1 < 2 ^ 64" using 1(3) k gen by simp
    show ?thesis
      using mvcc_step_run [OF 1(1), unfolded 1(2), OF ok(2) g peak_levels [OF c(5)] c(6) cap ck(3) ok(3) 1(4), of crc]
        1(3) by (auto simp: s)
  qed
  have I0: "?I 0 (c, replicate (buf_len cfg) 0)" using ok(1) c(4) by simp
  show ?thesis
    using snap_loop_run [of "cfg_warmup cfg" "cfg_iters cfg" ?I "mvcc_snapshot_step crc cfg", OF step I0 ck(2), of rns sns]
      c(1,2) by (auto simp: mvcc_snapshot_main_def env)
qed

theorem mvcc_snapshot_main_completes_witness:
  "\<exists>n. mvcc_snapshot_main (\<lambda>bytes. of_nat (length bytes)) (\<lambda>_. None) of_nat of_nat =
     Inr (Inr \<lparr>so_snap = map of_nat [0..<100000], so_rest = map of_nat [0..<100000], so_len = n\<rparr>)"
proof -
  obtain cfg where cfg: "from_env (\<lambda>_. None) = Inr cfg" "cfg_cap cfg = 262144" "cfg_levels cfg = 1024"
    "cfg_tick cfg = 1" "cfg_price_min cfg = 0" "cfg_steady cfg = 60000" "cfg_warmup cfg = 10000"
    "cfg_iters cfg = 100000" "cfg_live_iters cfg = 200000" "cfg_snap_every cfg = 20000"
    by (rule default_config)
  have cap: "cfg_cap cfg < 2 ^ 32" by (simp add: cfg)
  have gen: "cfg_warmup cfg + cfg_iters cfg + 1 < 2 ^ 64" by (simp add: cfg)
  show ?thesis
    using mvcc_snapshot_main_completes [OF cfg(1) cap default_grid [OF cfg(2-5)] gen,
        of "\<lambda>bytes. of_nat (length bytes)" of_nat of_nat] unfolding cfg by blast
qed

section \<open>Snapshots beside the writer\<close>

text \<open>What the loops have reported after \<open>k\<close> operations.\<close>

definition live_done :: "(nat \<Rightarrow> u64) \<Rightarrow> (nat \<Rightarrow> u64) \<Rightarrow> smr_config \<Rightarrow> nat \<Rightarrow> live_out \<Rightarrow> bool" where
  "live_done wns sns cfg k out \<longleftrightarrow>
     lo_writer out = map wns [0..<k] @ replicate (cfg_live_iters cfg - k) 0 \<and>
     lo_snaps out = map sns (filter (\<lambda>k. k mod cfg_snap_every cfg = 0) [0..<k])"

lemma live_done_0 [simp]: "live_done wns sns cfg 0 (live_out_new cfg)"
  by (simp add: live_done_def live_out_new_def)

lemma live_done_all:
  "live_done wns sns cfg (cfg_live_iters cfg) out \<Longrightarrow>
   out = \<lparr>lo_writer = map wns [0..<cfg_live_iters cfg],
     lo_snaps = map sns (filter (\<lambda>k. k mod cfg_snap_every cfg = 0) [0..<cfg_live_iters cfg]), lo_len = lo_len out\<rparr>"
  by (simp add: live_done_def)

lemma live_snap_run:
  assumes book: "live_book K cfg b" "K \<le> 65535" "K \<le> cfg_cap cfg" "cfg_cap cfg < 2 ^ 32"
    and buf: "length buf = buf_len cfg" and every: "0 < cfg_snap_every cfg"
    and dn: "live_done wns sns cfg k out" and k: "k < cfg_live_iters cfg"
  shows "\<exists>buf' out'. live_snap crc sns cfg k b (buf, out) = Inr (buf', out') \<and> length buf' = buf_len cfg \<and>
    live_done wns sns cfg (Suc k) (out'\<lparr>lo_writer := (lo_writer out')[k := wns k]\<rparr>)"
proof -
  obtain n buf' where enc: "encode crc b buf = Inr (n, buf')" "length buf' = buf_len cfg"
    using live_encode [OF book buf] by blast
  have "cfg_live_iters cfg - k = Suc (cfg_live_iters cfg - Suc k)" using k by simp
  then have "(lo_writer out)[k := wns k] = map wns [0..<Suc k] @ replicate (cfg_live_iters cfg - Suc k) 0"
    using dn samples_step [of wns k "cfg_live_iters cfg - Suc k" 0] by (simp only: live_done_def)
  then show ?thesis
    using dn enc every buf by (auto simp: live_done_def live_snap_def usize_div_simps)
qed

text \<open>The stop-the-world experiment with updates ends for every accepted configuration: a
  snapshot is taken at every multiple of the cadence and every operation has its sample.\<close>

theorem live_stw_completes:
  assumes env: "from_env env = Inr cfg" and cap: "cfg_cap cfg < 2 ^ 32"
    and grid: "price_grid (geom_of (book_new cfg))"
  shows "\<exists>n. live_stw_main crc env wns sns = Inr (Inr \<lparr>lo_writer = map wns [0..<cfg_live_iters cfg],
    lo_snaps = map sns (filter (\<lambda>k. k mod cfg_snap_every cfg = 0) [0..<cfg_live_iters cfg]), lo_len = n\<rparr>)"
proof -
  let ?K = "cfg_steady cfg" and ?L = "cfg_live_iters cfg"
  have ck: "?K \<le> 65535" "?K \<le> cfg_cap cfg" "0 < ?K" "?K < 2 ^ 63"
    using from_env_checked [OF env] by (simp_all add: check_config_Inr)
  note fit = ck(1,2) cap
  obtain b rng where b: "steady_book book_insert cfg (book_new cfg) = Inr (b, rng)" "live_book ?K cfg b"
    "ladder_ids (unat (cfg_levels cfg)) (ladder_of b) = stream_ids ?K"
    using steady_peak [OF env cap grid] unfolding live_book_def by blast
  let ?ok = "\<lambda>st. live_book ?K cfg (fst st) \<and> ladder_ids (unat (cfg_levels cfg)) (ladder_of (fst st)) = stream_ids ?K"
  have upd: "\<exists>st'. update_step book_update ?K st = Inr st' \<and> ?ok st'" if ok: "?ok st" for st
  proof -
    obtain b rng where st: "st = (b, rng)" by (cases st)
    have lev: "g_levels (peak_geom ?K b) = cfg_levels cfg" and p: "peak_ok ?K b"
      using ok peak_levels [of ?K b cfg] by (simp_all add: st live_book_def peak_geom_def geom_of_def)
    have ids: "ladder_ids (unat (g_levels (peak_geom ?K b))) (ladder_of b) = stream_ids ?K"
      using ok by (simp add: lev st)
    show ?thesis
      using peak_amend.update_step_run [OF p ids ck(3,4), of rng] ok lev by (auto simp: st live_book_def)
  qed
  obtain st1 where 1: "try_iter (update_step book_update ?K) (cfg_warmup cfg) (b, rng) = Inr st1" "?ok st1"
    using try_iter_inv [of "cfg_warmup cfg" "\<lambda>_. ?ok" "update_step book_update ?K" "(b, rng)"] upd b by auto
  obtain n1 buf where buf: "encode crc (fst st1) (replicate (buf_len cfg) 0) = Inr (n1, buf)"
    "length buf = buf_len cfg"
    using live_encode [OF _ fit, of "fst st1" "replicate (buf_len cfg) 0" crc] 1(2) by auto
  let ?I = "\<lambda>k (st, buf, out). ?ok st \<and> length buf = buf_len cfg \<and> live_done wns sns cfg k out"
  have "\<exists>p. try_fold (live_stw_step crc wns sns cfg) [0..<?L] (st1, buf, live_out_new cfg) = Inr p \<and> ?I ?L p"
  proof (rule try_fold_upt [where I = ?I])
    fix k and p :: "(book \<times> u64) \<times> u8 list \<times> live_out"
    assume k: "k < ?L" and I: "?I k p"
    obtain st2 buf2 out2 where p: "p = (st2, buf2, out2)" by (cases p) auto
    have ok: "live_book ?K cfg (fst st2)" "?ok st2" "length buf2 = buf_len cfg" "live_done wns sns cfg k out2"
      using I by (simp_all add: p)
    obtain buf3 out3 where s: "live_snap crc sns cfg k (fst st2) (buf2, out2) = Inr (buf3, out3)"
      "length buf3 = buf_len cfg" "live_done wns sns cfg (Suc k) (out3\<lparr>lo_writer := (lo_writer out3)[k := wns k]\<rparr>)"
      using live_snap_run [OF ok(1) fit ok(3) from_env_snap_every [OF env] ok(4) k] by blast
    obtain st4 where "update_step book_update ?K st2 = Inr st4" "?ok st4" using upd [OF ok(2)] by blast
    with s show "\<exists>p'. live_stw_step crc wns sns cfg k p = Inr p' \<and> ?I (Suc k) p'"
      by (simp add: p live_stw_step_def)
  qed (use 1 buf in simp)
  then obtain st buf' out where "try_fold (live_stw_step crc wns sns cfg) [0..<?L] (st1, buf, live_out_new cfg) =
      Inr (st, buf', out)" "live_done wns sns cfg ?L out" by auto
  then have "live_stw_main crc env wns sns = Inr (Inr out)"
    using b(1) 1(1) buf(1) by (simp add: live_stw_main_def env)
  then show ?thesis using live_done_all [OF \<open>live_done wns sns cfg ?L out\<close>] by metis
qed

theorem live_stw_completes_witness:
  "\<exists>out. live_stw_main (\<lambda>bytes. of_nat (length bytes)) (\<lambda>_. None) of_nat of_nat = Inr (Inr out) \<and>
     lo_writer out = map of_nat [0..<200000]"
proof -
  obtain cfg where cfg: "from_env (\<lambda>_. None) = Inr cfg" "cfg_cap cfg = 262144" "cfg_levels cfg = 1024"
    "cfg_tick cfg = 1" "cfg_price_min cfg = 0" "cfg_steady cfg = 60000" "cfg_warmup cfg = 10000"
    "cfg_iters cfg = 100000" "cfg_live_iters cfg = 200000" "cfg_snap_every cfg = 20000"
    by (rule default_config)
  have cap: "cfg_cap cfg < 2 ^ 32" by (simp add: cfg)
  show ?thesis
    using live_stw_completes [OF cfg(1) cap default_grid [OF cfg(2-5)],
        of "\<lambda>bytes. of_nat (length bytes)" of_nat of_nat] unfolding cfg by fastforce
qed



end
