(* ===== verification/Live_Mvcc.thy ===== *)
theory Live_Mvcc
  imports Bench
begin

text \<open>
  The two concurrent experiments (rust/smr-collections/live_mvcc and live_mvcc_churn): the main
  thread runs the workload on the copy-on-write book and hands captured roots over a channel of
  one slot to a serializer thread; the flag \<open>busy\<close> says that a snapshot is under way. Each
  atomic access, channel operation and thread-local block between two of them is one step of
  its thread, and a run interleaves the steps of the two threads in any order.

  Spinning on \<open>busy\<close>, a send into a full channel, a receive from an empty one and a join of a
  running thread wait: the step is not enabled. Encoding a root is one step although it reads
  many chunks, because no chunk of a captured root is ever written again. The two programs
  differ in the workload only, which is a parameter here: \<open>draw\<close> chooses the operation of an
  iteration before the trigger is looked at and \<open>app\<close> performs it. The memory orderings of
  the accesses to \<open>busy\<close> are not modelled; the runs are sequentially consistent.
\<close>

section \<open>The threads\<close>

datatype 'o main_pc =
    Warm_mark
  | Warm_capture
  | Warm_send root
  | Warm_spin
  | Loop nat
  | Check nat 'o
  | Mark nat 'o
  | Capture nat 'o
  | Send nat 'o root
  | Apply nat 'o
  | Join
  | Done

datatype ser_pc = Ser_recv | Ser_encode root | Ser_clear | Ser_done | Ser_panicked

text \<open>
  The shared and local variables. The last two fields are history: the books captured so far,
  as their flat views, and the images written so far.
\<close>

record ('w, 'o) live =
  lv_pc :: "'o main_pc"
  lv_book :: cowbook
  lv_work :: 'w
  lv_writer :: "u64 list"
  lv_skipped :: u64
  lv_busy :: bool
  lv_chan :: "root list"
  lv_open :: bool
  lv_ser :: ser_pc
  lv_buf :: "u8 list"
  lv_durs :: "u64 list"
  lv_len :: usize
  lv_caps :: "book list"
  lv_imgs :: "u8 list list"

text \<open>A send into the channel of capacity one: it waits while the slot is taken.\<close>

definition chan_send :: "root \<Rightarrow> 'o main_pc \<Rightarrow> ('w, 'o) live \<Rightarrow> (panic + ('w, 'o) live) option" where
  "chan_send r next s =
     (if lv_ser s = Ser_done \<or> lv_ser s = Ser_panicked then Some (Inl Receiver_gone)
      else if lv_chan s = [] then Some (Inr (s\<lparr>lv_chan := [r], lv_pc := next\<rparr>))
      else None)"

text \<open>The capture that becomes the message; \<open>next\<close> is where the main thread goes with it.\<close>

definition live_capture :: "(root \<Rightarrow> 'o main_pc) \<Rightarrow> ('w, 'o) live \<Rightarrow> ('w, 'o) live" where
  "live_capture next s =
     (let (r, c) = capture (lv_book s) in
      s\<lparr>lv_book := c, lv_pc := next r, lv_caps := lv_caps s @ [flat (lv_book s)]\<rparr>)"

definition main_step ::
  "smr_config \<Rightarrow> (nat \<Rightarrow> u64) \<Rightarrow> ('w \<Rightarrow> panic + 'o \<times> 'w) \<Rightarrow>
   (nat \<Rightarrow> 'o \<Rightarrow> cowbook \<times> 'w \<Rightarrow> panic + cowbook \<times> 'w) \<Rightarrow>
   ('w, 'o) live \<Rightarrow> (panic + ('w, 'o) live) option" where
  "main_step cfg wns draw app s =
     (case lv_pc s of
        Warm_mark \<Rightarrow> Some (Inr (s\<lparr>lv_busy := True, lv_pc := Warm_capture\<rparr>))
      | Warm_capture \<Rightarrow> Some (Inr (live_capture Warm_send s))
      | Warm_send r \<Rightarrow> chan_send r Warm_spin s
      | Warm_spin \<Rightarrow> if lv_busy s then None else Some (Inr (s\<lparr>lv_pc := Loop 0\<rparr>))
      | Loop k \<Rightarrow>
          Some (if k < cfg_live_iters cfg then
              and_then (draw (lv_work s)) (\<lambda>(op, w). Inr (s\<lparr>lv_work := w, lv_pc := Check k op\<rparr>))
            else Inr (s\<lparr>lv_open := False, lv_pc := Join\<rparr>))
      | Check k op \<Rightarrow>
          Some (and_then (rem_usize k (cfg_snap_every cfg)) (\<lambda>m.
            Inr (if m = 0 then
                if lv_busy s then s\<lparr>lv_skipped := lv_skipped s + 1, lv_pc := Apply k op\<rparr>
                else s\<lparr>lv_pc := Mark k op\<rparr>
              else s\<lparr>lv_pc := Apply k op\<rparr>)))
      | Mark k op \<Rightarrow> Some (Inr (s\<lparr>lv_busy := True, lv_pc := Capture k op\<rparr>))
      | Capture k op \<Rightarrow> Some (Inr (live_capture (Send k op) s))
      | Send k op r \<Rightarrow> chan_send r (Apply k op) s
      | Apply k op \<Rightarrow>
          Some (and_then (app k op (lv_book s, lv_work s)) (\<lambda>(c, w).
            Inr (s\<lparr>lv_book := c, lv_work := w, lv_writer := (lv_writer s)[k := wns k],
                   lv_pc := Loop (Suc k)\<rparr>)))
      | Join \<Rightarrow>
          (if lv_ser s = Ser_done then Some (Inr (s\<lparr>lv_pc := Done\<rparr>))
           else if lv_ser s = Ser_panicked then Some (Inl Join_failed)
           else None)
      | Done \<Rightarrow> None)"

definition ser_step ::
  "(u8 list \<Rightarrow> u32) \<Rightarrow> (nat \<Rightarrow> u64) \<Rightarrow> ('w, 'o) live \<Rightarrow> ('w, 'o) live option" where
  "ser_step crc sns s =
     (case lv_ser s of
        Ser_recv \<Rightarrow>
          (case lv_chan s of
             r # rs \<Rightarrow> Some (s\<lparr>lv_chan := rs, lv_ser := Ser_encode r\<rparr>)
           | [] \<Rightarrow> if lv_open s then None else Some (s\<lparr>lv_ser := Ser_done\<rparr>))
      | Ser_encode r \<Rightarrow>
          (case encode_root crc (order_heap (lv_book s)) (level_heap (lv_book s)) r (lv_buf s) of
             Inl _ \<Rightarrow> Some (s\<lparr>lv_ser := Ser_panicked\<rparr>)
           | Inr (n, buf) \<Rightarrow>
               Some (s\<lparr>lv_buf := buf, lv_len := n, lv_durs := lv_durs s @ [sns (length (lv_durs s))],
                       lv_ser := Ser_clear, lv_imgs := lv_imgs s @ [take n buf]\<rparr>))
      | Ser_clear \<Rightarrow> Some (s\<lparr>lv_busy := False, lv_ser := Ser_recv\<rparr>)
      | Ser_done \<Rightarrow> None
      | Ser_panicked \<Rightarrow> None)"

inductive live_step for crc wns sns cfg draw app where
  Main: "main_step cfg wns draw app s = Some (Inr s') \<Longrightarrow> live_step crc wns sns cfg draw app s s'"
| Serializer: "ser_step crc sns s = Some s' \<Longrightarrow> live_step crc wns sns cfg draw app s s'"

inductive_cases live_stepE: "live_step crc wns sns cfg draw app s s'"

inductive live_reach for crc wns sns cfg draw app s0 where
  Start: "live_reach crc wns sns cfg draw app s0 s0"
| Step: "live_reach crc wns sns cfg draw app s0 s \<Longrightarrow> live_step crc wns sns cfg draw app s s' \<Longrightarrow>
    live_reach crc wns sns cfg draw app s0 s'"

section \<open>The programs\<close>

definition live_start :: "smr_config \<Rightarrow> cowbook \<Rightarrow> 'w \<Rightarrow> ('w, 'o) live" where
  "live_start cfg c w =
     \<lparr>lv_pc = Warm_mark, lv_book = c, lv_work = w, lv_writer = replicate (cfg_live_iters cfg) 0,
      lv_skipped = 0, lv_busy = False, lv_chan = [], lv_open = True, lv_ser = Ser_recv,
      lv_buf = replicate (buf_len cfg) 0, lv_durs = [], lv_len = 0, lv_caps = [], lv_imgs = []\<rparr>"

text \<open>What is printed: the sample of the warm handshake is dropped.\<close>

definition live_report :: "('w, 'o) live \<Rightarrow> u64 list \<times> u64 list \<times> u64 \<times> usize" where
  "live_report s = (lv_writer s, drop 1 (lv_durs s), lv_skipped s, lv_len s)"

text \<open>The update workload draws nothing in advance.\<close>

definition upd_draw :: "u64 \<Rightarrow> panic + unit \<times> u64" where
  "upd_draw rng = Inr ((), rng)"

definition upd_app :: "smr_config \<Rightarrow> nat \<Rightarrow> unit \<Rightarrow> cowbook \<times> u64 \<Rightarrow> panic + cowbook \<times> u64" where
  "upd_app cfg k op = update_step cow_update (cfg_steady cfg)"

definition mvcc_writer ::
  "smr_config \<Rightarrow> (nat \<Rightarrow> u64) \<Rightarrow> (u64, unit) live \<Rightarrow> (panic + (u64, unit) live) option" where
  "mvcc_writer cfg wns = main_step cfg wns upd_draw (upd_app cfg)"

definition live_mvcc_start ::
  "(string \<Rightarrow> string option) \<Rightarrow> config_error + panic + smr_config \<times> (u64, unit) live" where
  "live_mvcc_start env =
     and_then (from_env env) (\<lambda>cfg.
     Inr (and_then (cow_new cfg) (\<lambda>c.
       and_then (steady_book cow_insert cfg c) (\<lambda>st.
       and_then (try_iter (update_step cow_update (cfg_steady cfg)) (cfg_warmup cfg) st) (\<lambda>(c, rng).
       Inr (cfg, live_start cfg c rng))))))"

text \<open>The churn workload sorts the samples by the kind of operation.\<close>

definition churn_draw :: "churn \<times> churn_samples \<Rightarrow> panic + churn_op \<times> churn \<times> churn_samples" where
  "churn_draw = (\<lambda>(ch, smp). and_then (next_op ch) (\<lambda>(op, ch). Inr (op, ch, smp)))"

definition churn_app ::
  "(nat \<Rightarrow> u64) \<Rightarrow> nat \<Rightarrow> churn_op \<Rightarrow> cowbook \<times> churn \<times> churn_samples \<Rightarrow>
   panic + cowbook \<times> churn \<times> churn_samples" where
  "churn_app wns k op = (\<lambda>(c, ch, smp).
     and_then (churn_apply cow_insert cow_cancel cow_fill c op) (\<lambda>c.
     Inr (c, ch, record_sample op (wns k) smp)))"

definition mvcc_churn_writer ::
  "smr_config \<Rightarrow> (nat \<Rightarrow> u64) \<Rightarrow> (churn \<times> churn_samples, churn_op) live \<Rightarrow>
   (panic + (churn \<times> churn_samples, churn_op) live) option" where
  "mvcc_churn_writer cfg wns = main_step cfg wns churn_draw (churn_app wns)"

definition live_churn_report ::
  "(churn \<times> churn_samples, churn_op) live \<Rightarrow> (u64 list \<times> u64 list \<times> u64 \<times> usize) \<times> churn_samples" where
  "live_churn_report s = (live_report s, snd (lv_work s))"

definition live_churn_start ::
  "(string \<Rightarrow> string option) \<Rightarrow>
   config_error + panic + smr_config \<times> (churn \<times> churn_samples, churn_op) live" where
  "live_churn_start env =
     and_then (from_env env) (\<lambda>cfg.
     Inr (and_then (cow_new cfg) (\<lambda>c.
       and_then (churn_prebuild cow_insert cow_cancel cow_fill (cfg_steady cfg) (c, churn_new cfg)) (\<lambda>st.
       and_then (churn_warmup cow_insert cow_cancel cow_fill (cfg_warmup cfg) st) (\<lambda>(c, ch).
       Inr (cfg, live_start cfg c (ch, \<lparr>insert_ns = [], cancel_ns = [], fill_ns = []\<rparr>)))))))"

end
