(* ===== verification/Live_Inv.thy ===== *)
theory Live_Inv
  imports Live_Mvcc Cow_Runs
begin

text \<open>
  What holds in every state of the two threads: the workload is where the main thread says it
  is, at most one snapshot is under way and \<open>busy\<close> tells so, every root on its way shows the
  book it captured, and every trigger is a capture or a skip.
\<close>

section \<open>The invariant\<close>

fun pc_pos :: "nat \<Rightarrow> 'o main_pc \<Rightarrow> nat" where
  "pc_pos L (Loop k) = k"
| "pc_pos L (Check k _) = k"
| "pc_pos L (Mark k _) = k"
| "pc_pos L (Capture k _) = k"
| "pc_pos L (Send k _ _) = k"
| "pc_pos L (Apply k _) = k"
| "pc_pos L Join = L"
| "pc_pos L Done = L"
| "pc_pos L _ = 0"

fun pc_op :: "'o main_pc \<Rightarrow> 'o option" where
  "pc_op (Check _ op) = Some op"
| "pc_op (Mark _ op) = Some op"
| "pc_op (Capture _ op) = Some op"
| "pc_op (Send _ op _) = Some op"
| "pc_op (Apply _ op) = Some op"
| "pc_op _ = None"

text \<open>The root the main thread is about to send, and all roots not yet encoded, oldest first.\<close>

fun sending :: "'o main_pc \<Rightarrow> root list" where
  "sending (Warm_send r) = [r]"
| "sending (Send _ _ r) = [r]"
| "sending _ = []"

fun encoding :: "ser_pc \<Rightarrow> root list" where
  "encoding (Ser_encode r) = [r]"
| "encoding _ = []"

definition pending :: "('w, 'o) live \<Rightarrow> root list" where
  "pending s = encoding (lv_ser s) @ lv_chan s @ sending (lv_pc s)"

fun serving :: "ser_pc \<Rightarrow> nat" where
  "serving (Ser_encode _) = 1"
| "serving Ser_clear = 1"
| "serving _ = 0"

definition under_way :: "('w, 'o) live \<Rightarrow> nat" where
  "under_way s = length (lv_chan s) + serving (lv_ser s)"

text \<open>Where the main thread holds the flag, and where it knows the flag is down.\<close>

fun holds_flag :: "'o main_pc \<Rightarrow> bool" where
  "holds_flag Warm_capture = True"
| "holds_flag (Warm_send _) = True"
| "holds_flag (Capture _ _) = True"
| "holds_flag (Send _ _ _) = True"
| "holds_flag _ = False"

fun flag_down :: "'o main_pc \<Rightarrow> bool" where
  "flag_down Warm_mark = True"
| "flag_down (Loop k) \<longleftrightarrow> k = 0"
| "flag_down (Check k _) \<longleftrightarrow> k = 0"
| "flag_down (Mark _ _) = True"
| "flag_down _ = False"

definition proto_inv :: "('w, 'o) live \<Rightarrow> bool" where
  "proto_inv s \<longleftrightarrow>
     lv_ser s \<noteq> Ser_panicked \<and>
     (lv_open s \<longleftrightarrow> lv_pc s \<noteq> Join \<and> lv_pc s \<noteq> Done) \<and>
     (lv_ser s = Ser_done \<longrightarrow> lv_chan s = [] \<and> \<not> lv_open s) \<and>
     (lv_pc s = Done \<longrightarrow> lv_ser s = Ser_done) \<and>
     (if holds_flag (lv_pc s) then under_way s = 0 else under_way s \<le> 1) \<and>
     (lv_busy s \<longleftrightarrow> holds_flag (lv_pc s) \<or> under_way s = 1) \<and>
     (flag_down (lv_pc s) \<longrightarrow> \<not> lv_busy s)"

text \<open>The triggers among the first \<open>k\<close> iterations, and how many of them (the warm handshake
  included) are settled at a point of the main thread.\<close>

definition trigs :: "smr_config \<Rightarrow> nat \<Rightarrow> nat" where
  "trigs cfg k = length (filter (\<lambda>k. k mod cfg_snap_every cfg = 0) [0..<k])"

fun settled :: "smr_config \<Rightarrow> 'o main_pc \<Rightarrow> nat" where
  "settled cfg Warm_mark = 0"
| "settled cfg Warm_capture = 0"
| "settled cfg (Warm_send _) = 1"
| "settled cfg Warm_spin = 1"
| "settled cfg (Loop k) = 1 + trigs cfg k"
| "settled cfg (Check k _) = 1 + trigs cfg k"
| "settled cfg (Mark k _) = trigs cfg (Suc k)"
| "settled cfg (Capture k _) = trigs cfg (Suc k)"
| "settled cfg (Send k _ _) = 1 + trigs cfg (Suc k)"
| "settled cfg (Apply k _) = 1 + trigs cfg (Suc k)"
| "settled cfg Join = 1 + trigs cfg (cfg_live_iters cfg)"
| "settled cfg Done = 1 + trigs cfg (cfg_live_iters cfg)"

definition count_inv :: "smr_config \<Rightarrow> (nat \<Rightarrow> u64) \<Rightarrow> ('w, 'o) live \<Rightarrow> bool" where
  "count_inv cfg wns s \<longleftrightarrow>
     length (lv_caps s) + unat (lv_skipped s) = settled cfg (lv_pc s) \<and>
     unat (lv_skipped s) \<le> settled cfg (lv_pc s) - 2 \<and>
     lv_writer s = map wns [0..<pc_pos (cfg_live_iters cfg) (lv_pc s)] @
       replicate (cfg_live_iters cfg - pc_pos (cfg_live_iters cfg) (lv_pc s)) 0"

definition signed_image :: "(u8 list \<Rightarrow> u32) \<Rightarrow> book \<Rightarrow> u8 list" where
  "signed_image crc b = image b @ le_bytes 4 (unat (crc (image b)))"

definition shows_book :: "nat \<Rightarrow> smr_config \<Rightarrow> cowbook \<Rightarrow> root \<Rightarrow> book \<Rightarrow> bool" where
  "shows_book K cfg c r b \<longleftrightarrow>
     frozen c r \<and> root_chunked (order_heap c) (level_heap c) r \<and>
     root_book (order_heap c) (level_heap c) r = b\<lparr>idmap := Map.empty\<rparr> \<and> live_book K cfg b"

definition image_inv ::
  "(u8 list \<Rightarrow> u32) \<Rightarrow> (nat \<Rightarrow> u64) \<Rightarrow> nat \<Rightarrow> smr_config \<Rightarrow> ('w, 'o) live \<Rightarrow> bool" where
  "image_inv crc sns K cfg s \<longleftrightarrow>
     unat (c_gen (lv_book s)) = Suc (length (lv_caps s)) \<and>
     length (lv_imgs s) \<le> length (lv_caps s) \<and>
     lv_imgs s = map (signed_image crc) (take (length (lv_imgs s)) (lv_caps s)) \<and>
     list_all2 (shows_book K cfg (lv_book s)) (pending s) (drop (length (lv_imgs s)) (lv_caps s)) \<and>
     list_all (live_book K cfg) (lv_caps s) \<and>
     lv_durs s = map sns [0..<length (lv_imgs s)] \<and> length (lv_buf s) = buf_len cfg"

section \<open>Roots and images\<close>

lemma shows_since:
  assumes c: "cow_since K c0 c" and r: "shows_book K cfg c0 r b"
  shows "shows_book K cfg c r b"
proof -
  have f: "frozen c0 r" and ch: "root_chunked (order_heap c0) (level_heap c0) r"
    using r by (simp_all add: shows_book_def)
  have "frame c0 c" using c by (simp add: cow_since_def sim_def)
  from root_chunked_frame [OF this f ch] cow_since_frozen [OF c f] r show ?thesis
    by (simp add: shows_book_def)
qed

lemma shows_captured:
  assumes c: "cow_since K c c" "live_book K cfg (flat c)" and gen: "unat (c_gen c) < 2 ^ 64 - 1"
  shows "shows_book K cfg (snd (capture c)) (fst (capture c)) (flat c)"
    and "cow_since K (snd (capture c)) (snd (capture c))"
    and "shows_book K cfg c r b \<Longrightarrow> shows_book K cfg (snd (capture c)) r b"
proof -
  have ok: "cow_ok c" using c(1) by (simp add: cow_since_def sim_def)
  note cap = capture_spec [OF ok gen]
  have heaps: "order_heap (snd (capture c)) = order_heap c" "level_heap (snd (capture c)) = level_heap c"
    by (simp_all add: capture_def)
  show "shows_book K cfg (snd (capture c)) (fst (capture c)) (flat c)"
    using cap capture_chunked [OF ok] c(2) by (simp add: shows_book_def heaps)
  show "cow_since K (snd (capture c)) (snd (capture c))"
    using cap(1,2) c(1) by (simp add: cow_since_def sim_def)
  show "shows_book K cfg (snd (capture c)) r b" if "shows_book K cfg c r b"
  proof -
    have "w < c_gen c + 1" if "w < c_gen c" for w
    proof -
      have "unat (c_gen c + 1) = Suc (unat (c_gen c))" using gen by (simp add: unat_word_ariths)
      then show ?thesis using that by (simp add: word_less_nat_alt)
    qed
    then show ?thesis using that by (auto simp: shows_book_def heaps frozen_def capture_def)
  qed
qed

lemma encode_idmap: "encode crc (b\<lparr>idmap := m\<rparr>) buf = encode crc b buf"
  by (simp add: encode_def)

lemma encode_shown:
  assumes r: "shows_book K cfg c r b" and K: "K \<le> 65535" "K \<le> cfg_cap cfg" "cfg_cap cfg < 2 ^ 32"
    and buf: "length buf = buf_len cfg"
  shows "\<exists>n buf'. encode_root crc (order_heap c) (level_heap c) r buf = Inr (n, buf') \<and>
    take n buf' = signed_image crc b \<and> length buf' = buf_len cfg"
proof -
  have enc: "encode_root crc (order_heap c) (level_heap c) r buf = encode crc b buf"
    using r encode_root_flat [of "order_heap c" "level_heap c" r crc buf] by (simp add: shows_book_def encode_idmap)
  have "wf_book b" "n_levels b = cfg_levels cfg" "unat (hwm b) \<le> cfg_cap cfg" "unat (hwm b) < 65536"
    using r K peak_levels by (auto simp: shows_book_def live_book_def peak_ok_def)
  from bench_encode [OF this(1-3) K(3) this(4) buf, of crc] show ?thesis
    unfolding enc signed_image_def by (auto simp: slice_to_def split: if_splits)
qed

lemma trigs_simps:
  "trigs cfg 0 = 0"
  "trigs cfg (Suc k) = (if k mod cfg_snap_every cfg = 0 then Suc (trigs cfg k) else trigs cfg k)"
  by (simp_all add: trigs_def)

lemma trigs_pos: "0 < k \<Longrightarrow> 0 < trigs cfg k"
proof (induction k)
  case (Suc k)
  then show ?case by (cases "k = 0") (simp_all add: trigs_simps)
qed simp

lemma trigs_le: "trigs cfg k \<le> k"
  by (induction k) (auto simp: trigs_simps)

section \<open>The steps keep it\<close>

lemma chan_send_Inr:
  "chan_send r next s = Some (Inr s') \<longleftrightarrow>
   lv_ser s \<noteq> Ser_done \<and> lv_ser s \<noteq> Ser_panicked \<and> lv_chan s = [] \<and>
   s' = s\<lparr>lv_chan := [r], lv_pc := next\<rparr>"
  by (auto simp: chan_send_def)

lemma main_stepE:
  assumes step: "main_step cfg wns draw app s = Some (Inr s')" and every: "0 < cfg_snap_every cfg"
  obtains
    (warm_mark) "lv_pc s = Warm_mark" "s' = s\<lparr>lv_busy := True, lv_pc := Warm_capture\<rparr>"
  | (warm_capture) "lv_pc s = Warm_capture" "s' = live_capture Warm_send s"
  | (warm_send) r where "lv_pc s = Warm_send r" "chan_send r Warm_spin s = Some (Inr s')"
  | (warm_spin) "lv_pc s = Warm_spin" "\<not> lv_busy s" "s' = s\<lparr>lv_pc := Loop 0\<rparr>"
  | (draw) k op w where "lv_pc s = Loop k" "k < cfg_live_iters cfg" "draw (lv_work s) = Inr (op, w)"
      "s' = s\<lparr>lv_work := w, lv_pc := Check k op\<rparr>"
  | (finish) k where "lv_pc s = Loop k" "\<not> k < cfg_live_iters cfg" "s' = s\<lparr>lv_open := False, lv_pc := Join\<rparr>"
  | (skip) k op where "lv_pc s = Check k op" "k mod cfg_snap_every cfg = 0" "lv_busy s"
      "s' = s\<lparr>lv_skipped := lv_skipped s + 1, lv_pc := Apply k op\<rparr>"
  | (fire) k op where "lv_pc s = Check k op" "k mod cfg_snap_every cfg = 0" "\<not> lv_busy s"
      "s' = s\<lparr>lv_pc := Mark k op\<rparr>"
  | (pass) k op where "lv_pc s = Check k op" "k mod cfg_snap_every cfg \<noteq> 0" "s' = s\<lparr>lv_pc := Apply k op\<rparr>"
  | (mark) k op where "lv_pc s = Mark k op" "s' = s\<lparr>lv_busy := True, lv_pc := Capture k op\<rparr>"
  | (capture) k op where "lv_pc s = Capture k op" "s' = live_capture (Send k op) s"
  | (send) k op r where "lv_pc s = Send k op r" "chan_send r (Apply k op) s = Some (Inr s')"
  | (apply_op) k op c w where "lv_pc s = Apply k op" "app k op (lv_book s, lv_work s) = Inr (c, w)"
      "s' = s\<lparr>lv_book := c, lv_work := w, lv_writer := (lv_writer s)[k := wns k], lv_pc := Loop (Suc k)\<rparr>"
  | (join) "lv_pc s = Join" "lv_ser s = Ser_done" "s' = s\<lparr>lv_pc := Done\<rparr>"
proof (cases "lv_pc s")
  case Warm_mark
  then show thesis using step by (intro warm_mark) (auto simp: main_step_def)
next
  case Warm_capture
  then show thesis using step by (intro warm_capture) (auto simp: main_step_def)
next
  case (Warm_send r)
  then show thesis using step by (intro warm_send) (auto simp: main_step_def)
next
  case Warm_spin
  then show thesis using step by (intro warm_spin) (auto simp: main_step_def split: if_splits)
next
  case (Loop k)
  show thesis
  proof (cases "k < cfg_live_iters cfg")
    case True
    then obtain op w where "draw (lv_work s) = Inr (op, w)" "s' = s\<lparr>lv_work := w, lv_pc := Check k op\<rparr>"
      using Loop step by (auto simp: main_step_def)
    with Loop True show thesis by (rule draw)
  next
    case False
    then show thesis using Loop step by (intro finish) (auto simp: main_step_def)
  qed
next
  case (Check k op)
  consider "k mod cfg_snap_every cfg = 0" "lv_busy s" | "k mod cfg_snap_every cfg = 0" "\<not> lv_busy s"
    | "k mod cfg_snap_every cfg \<noteq> 0" by blast
  then show thesis
  proof cases
    case 1
    then show thesis using Check step every by (intro skip) (auto simp: main_step_def usize_div_simps)
  next
    case 2
    then show thesis using Check step every by (intro fire) (auto simp: main_step_def usize_div_simps)
  next
    case 3
    then show thesis using Check step every by (intro pass) (auto simp: main_step_def usize_div_simps)
  qed
next
  case (Mark k op)
  then show thesis using step by (intro mark) (auto simp: main_step_def)
next
  case (Capture k op)
  then show thesis using step by (intro capture) (auto simp: main_step_def)
next
  case (Send k op r)
  then show thesis using step by (intro send) (auto simp: main_step_def)
next
  case (Apply k op)
  then obtain c w where "app k op (lv_book s, lv_work s) = Inr (c, w)"
    "s' = s\<lparr>lv_book := c, lv_work := w, lv_writer := (lv_writer s)[k := wns k], lv_pc := Loop (Suc k)\<rparr>"
    using step by (auto simp: main_step_def)
  with Apply show thesis by (rule apply_op)
next
  case Join
  then show thesis using step by (intro join) (auto simp: main_step_def split: if_splits)
qed (use step in \<open>simp add: main_step_def\<close>)

lemma ser_stepE:
  assumes "ser_step crc sns s = Some s'"
  obtains
    (recv) r rs where "lv_ser s = Ser_recv" "lv_chan s = r # rs" "s' = s\<lparr>lv_chan := rs, lv_ser := Ser_encode r\<rparr>"
  | (hang_up) "lv_ser s = Ser_recv" "lv_chan s = []" "\<not> lv_open s" "s' = s\<lparr>lv_ser := Ser_done\<rparr>"
  | (panic) r e where "lv_ser s = Ser_encode r"
      "encode_root crc (order_heap (lv_book s)) (level_heap (lv_book s)) r (lv_buf s) = Inl e"
      "s' = s\<lparr>lv_ser := Ser_panicked\<rparr>"
  | (encode) r n buf where "lv_ser s = Ser_encode r"
      "encode_root crc (order_heap (lv_book s)) (level_heap (lv_book s)) r (lv_buf s) = Inr (n, buf)"
      "s' = s\<lparr>lv_buf := buf, lv_len := n, lv_durs := lv_durs s @ [sns (length (lv_durs s))],
         lv_ser := Ser_clear, lv_imgs := lv_imgs s @ [take n buf]\<rparr>"
  | (clear) "lv_ser s = Ser_clear" "s' = s\<lparr>lv_busy := False, lv_ser := Ser_recv\<rparr>"
proof (cases "lv_ser s")
  case Ser_recv
  show thesis
  proof (cases "lv_chan s")
    case Nil
    then show thesis using Ser_recv assms by (intro hang_up) (auto simp: ser_step_def split: if_splits)
  next
    case (Cons r rs)
    then show thesis using Ser_recv assms by (intro recv) (auto simp: ser_step_def)
  qed
next
  case (Ser_encode r)
  let ?enc = "encode_root crc (order_heap (lv_book s)) (level_heap (lv_book s)) r (lv_buf s)"
  show thesis
  proof (cases ?enc)
    case (Inl e)
    then show thesis using Ser_encode assms by (intro panic) (auto simp: ser_step_def)
  next
    case (Inr p)
    then show thesis using Ser_encode assms by (cases p, intro encode) (auto simp: ser_step_def)
  qed
next
  case Ser_clear
  then show thesis using assms by (intro clear) (auto simp: ser_step_def)
qed (use assms in \<open>simp_all add: ser_step_def\<close>)

lemma live_capture_simps [simp]:
  "lv_pc (live_capture next s) = next (fst (capture (lv_book s)))"
  "lv_book (live_capture next s) = snd (capture (lv_book s))"
  "lv_caps (live_capture next s) = lv_caps s @ [flat (lv_book s)]"
  "lv_work (live_capture next s) = lv_work s" "lv_writer (live_capture next s) = lv_writer s"
  "lv_skipped (live_capture next s) = lv_skipped s" "lv_busy (live_capture next s) = lv_busy s"
  "lv_chan (live_capture next s) = lv_chan s" "lv_open (live_capture next s) = lv_open s"
  "lv_ser (live_capture next s) = lv_ser s" "lv_buf (live_capture next s) = lv_buf s"
  "lv_durs (live_capture next s) = lv_durs s" "lv_len (live_capture next s) = lv_len s"
  "lv_imgs (live_capture next s) = lv_imgs s"
  by (simp_all add: live_capture_def split_beta)

lemma proto_main:
  assumes inv: "proto_inv s" and step: "main_step cfg wns draw app s = Some (Inr s')" and every: "0 < cfg_snap_every cfg"
  shows "proto_inv s'"
  using step every
proof (cases rule: main_stepE)
  case (skip k op)
  then show ?thesis using inv by (cases k) (auto simp: proto_inv_def under_way_def)
qed (use inv in \<open>auto simp: proto_inv_def under_way_def chan_send_Inr le_Suc_eq\<close>)

lemma proto_ser:
  assumes inv: "proto_inv s" and step: "ser_step crc sns s = Some s'" and alive: "lv_ser s' \<noteq> Ser_panicked"
  shows "proto_inv s'"
  using step
proof (cases rule: ser_stepE)
  case (recv r rs)
  then show ?thesis using inv by (cases "holds_flag (lv_pc s)") (auto simp: proto_inv_def under_way_def)
next
  case clear
  then show ?thesis using inv by (cases "holds_flag (lv_pc s)") (auto simp: proto_inv_def under_way_def)
qed (use inv alive in \<open>auto simp: proto_inv_def under_way_def\<close>)

lemma count_ser:
  assumes "count_inv cfg wns s" and "ser_step crc sns s = Some s'"
  shows "count_inv cfg wns s'"
  using assms(2,1) by (cases rule: ser_stepE) (simp_all add: count_inv_def)

text \<open>The count: a skip needs the flag up, so the first trigger is never skipped.\<close>

lemma count_main:
  assumes inv: "count_inv cfg wns s" "proto_inv s" and pos: "pc_pos (cfg_live_iters cfg) (lv_pc s) \<le> cfg_live_iters cfg"
    and op: "pc_op (lv_pc s) \<noteq> None \<longrightarrow> pc_pos (cfg_live_iters cfg) (lv_pc s) < cfg_live_iters cfg"
    and L: "cfg_live_iters cfg + 3 < 2 ^ 64"
    and step: "main_step cfg wns draw app s = Some (Inr s')" and every: "0 < cfg_snap_every cfg"
  shows "count_inv cfg wns s'"
  using step every
proof (cases rule: main_stepE)
  case (skip k op)
  have "k \<noteq> 0" using inv(2) skip by (cases k) (simp_all add: proto_inv_def)
  then have p: "0 < trigs cfg k" by (simp add: trigs_pos)
  have c: "length (lv_caps s) + unat (lv_skipped s) = 1 + trigs cfg k" "unat (lv_skipped s) \<le> trigs cfg k - 1"
    "lv_writer s = map wns [0..<k] @ replicate (cfg_live_iters cfg - k) 0"
    using inv(1) skip(1) by (simp_all add: count_inv_def)
  have "unat (lv_skipped s) \<le> k" using c(2) trigs_le [of cfg k] by simp
  then have "unat (lv_skipped s + 1) = Suc (unat (lv_skipped s))"
    using pos L skip(1) by (simp add: unat_word_ariths)
  then show ?thesis using c p skip(2) unfolding skip(4) count_inv_def by (simp add: trigs_simps)
next
  case (apply_op k op c w)
  then have "k < cfg_live_iters cfg" using op by simp
  then have "cfg_live_iters cfg - k = Suc (cfg_live_iters cfg - Suc k)" by simp
  moreover have "lv_writer s = map wns [0..<k] @ replicate (cfg_live_iters cfg - k) 0"
    using inv(1) apply_op(1) by (simp add: count_inv_def)
  ultimately have "(lv_writer s)[k := wns k] = map wns [0..<Suc k] @ replicate (cfg_live_iters cfg - Suc k) 0"
    using samples_step [of wns k "cfg_live_iters cfg - Suc k" 0] by (simp only:)
  then show ?thesis using inv(1) apply_op by (simp add: count_inv_def)
next
  case (finish k)
  then have "k = cfg_live_iters cfg" using pos by simp
  then show ?thesis using inv(1) finish by (simp add: count_inv_def)
next
  case (fire k op)
  then show ?thesis using inv(1) by (simp add: count_inv_def trigs_simps)
next
  case (pass k op)
  then show ?thesis using inv(1) by (simp add: count_inv_def trigs_simps)
next
  case (capture k op)
  then show ?thesis using inv(1) by (auto simp: count_inv_def)
next
  case (draw k op w)
  then show ?thesis using inv(1) by (simp add: count_inv_def)
qed (use inv(1) in \<open>simp_all add: count_inv_def chan_send_Inr trigs_simps\<close>)

lemma encoding_idle: "serving p = 0 \<Longrightarrow> encoding p = []"
  by (cases p) simp_all

lemma image_capture:
  assumes inv: "image_inv crc sns K cfg s" and c: "cow_since K (lv_book s) (lv_book s)" "live_book K cfg (flat (lv_book s))"
    and gen: "length (lv_caps s) + 2 < 2 ^ 64" and idle: "under_way s = 0" "sending (lv_pc s) = []"
    and nxt: "\<And>r. sending (next r) = [r]"
  shows "image_inv crc sns K cfg (live_capture next s)"
proof -
  have g: "unat (c_gen (lv_book s)) < 2 ^ 64 - 1" using inv gen by (simp add: image_inv_def)
  have p: "pending s = []" "pending (live_capture next s) = [fst (capture (lv_book s))]"
    using idle encoding_idle by (simp_all add: pending_def under_way_def nxt)
  have "drop (length (lv_imgs s)) (lv_caps s) = []" and le: "length (lv_imgs s) \<le> length (lv_caps s)"
    using inv unfolding image_inv_def p(1) by simp_all
  then have len: "length (lv_imgs s) = length (lv_caps s)" by simp
  show ?thesis
    using inv c(2) shows_captured(1) [OF c g] capture_gen [OF g] len
    unfolding image_inv_def p(2) by simp
qed

lemma image_main:
  assumes inv: "image_inv crc sns K cfg s" "proto_inv s"
    and c: "cow_since K (lv_book s) (lv_book s)" "live_book K cfg (flat (lv_book s))"
    and gen: "length (lv_caps s) + 2 < 2 ^ 64"
    and app: "\<And>k op c' w'. lv_pc s = Apply k op \<Longrightarrow> app k op (lv_book s, lv_work s) = Inr (c', w') \<Longrightarrow>
      cow_since K (lv_book s) c'"
    and step: "main_step cfg wns draw app s = Some (Inr s')" and every: "0 < cfg_snap_every cfg"
  shows "image_inv crc sns K cfg s'"
  using step every
proof (cases rule: main_stepE)
  case warm_capture
  have "under_way s = 0" using inv(2) warm_capture(1) by (simp add: proto_inv_def)
  then show ?thesis unfolding warm_capture(2)
    by (intro image_capture [OF inv(1) c gen]) (simp_all add: warm_capture(1))
next
  case (capture k op)
  have "under_way s = 0" using inv(2) capture(1) by (simp add: proto_inv_def)
  then show ?thesis unfolding capture(2)
    by (intro image_capture [OF inv(1) c gen]) (simp_all add: capture(1))
next
  case (apply_op k op c' w')
  have since: "cow_since K (lv_book s) c'" by (rule app [OF apply_op(1,2)])
  then have "c_gen c' = c_gen (lv_book s)" by (simp add: cow_since_def sim_def frame_def)
  moreover have "pending s' = pending s" by (simp add: pending_def apply_op)
  moreover have "list_all2 (shows_book K cfg c') (pending s) (drop (length (lv_imgs s)) (lv_caps s))"
    using inv(1) shows_since [OF since] unfolding image_inv_def by (blast intro: list_all2_mono)
  ultimately show ?thesis using inv(1) by (simp add: image_inv_def apply_op(3))
qed (use inv(1) in \<open>simp_all add: image_inv_def pending_def chan_send_Inr\<close>)

lemma image_ser:
  assumes inv: "image_inv crc sns K cfg s" and K: "K \<le> 65535" "K \<le> cfg_cap cfg" "cfg_cap cfg < 2 ^ 32"
    and step: "ser_step crc sns s = Some s'"
  shows "image_inv crc sns K cfg s' \<and> (lv_ser s \<noteq> Ser_panicked \<longrightarrow> lv_ser s' \<noteq> Ser_panicked)"
proof -
  have enc: "\<exists>n buf'. encode_root crc (order_heap (lv_book s)) (level_heap (lv_book s)) r (lv_buf s) = Inr (n, buf') \<and>
      take n buf' = signed_image crc (lv_caps s ! length (lv_imgs s)) \<and> length buf' = buf_len cfg \<and>
      length (lv_imgs s) < length (lv_caps s) \<and>
      list_all2 (shows_book K cfg (lv_book s)) (lv_chan s @ sending (lv_pc s)) (drop (Suc (length (lv_imgs s))) (lv_caps s))"
    if r: "lv_ser s = Ser_encode r" for r
  proof -
    have all: "list_all2 (shows_book K cfg (lv_book s)) (r # lv_chan s @ sending (lv_pc s))
        (drop (length (lv_imgs s)) (lv_caps s))"
      using inv r by (simp add: image_inv_def pending_def)
    then have "length (lv_imgs s) < length (lv_caps s)" by (cases "length (lv_imgs s) < length (lv_caps s)") simp_all
    then have d: "drop (length (lv_imgs s)) (lv_caps s) =
        lv_caps s ! length (lv_imgs s) # drop (Suc (length (lv_imgs s))) (lv_caps s)"
      by (rule Cons_nth_drop_Suc [symmetric])
    have b: "length (lv_buf s) = buf_len cfg" using inv by (simp add: image_inv_def)
    have "shows_book K cfg (lv_book s) r (lv_caps s ! length (lv_imgs s))" using all by (simp add: d)
    from encode_shown [OF this K b, of crc] all \<open>length (lv_imgs s) < length (lv_caps s)\<close> show ?thesis
      by (simp add: d)
  qed
  show ?thesis
    using step
  proof (cases rule: ser_stepE)
    case (panic r e)
    then show ?thesis using enc by fastforce
  next
    case (encode r n buf)
    obtain n' buf' where e: "encode_root crc (order_heap (lv_book s)) (level_heap (lv_book s)) r (lv_buf s) = Inr (n', buf')"
      "take n' buf' = signed_image crc (lv_caps s ! length (lv_imgs s))" "length buf' = buf_len cfg"
      "length (lv_imgs s) < length (lv_caps s)"
      "list_all2 (shows_book K cfg (lv_book s)) (lv_chan s @ sending (lv_pc s)) (drop (Suc (length (lv_imgs s))) (lv_caps s))"
      using enc [OF encode(1)] by blast
    have [simp]: "n' = n" "buf' = buf" using e(1) encode(2) by simp_all
    have "length (lv_durs s) = length (lv_imgs s)" "lv_durs s = map sns [0..<length (lv_imgs s)]"
      "lv_imgs s = map (signed_image crc) (take (length (lv_imgs s)) (lv_caps s))"
      using inv by (simp_all add: image_inv_def)
    then show ?thesis
      using inv e unfolding encode(3) image_inv_def pending_def
      by (simp add: take_Suc_conv_app_nth)
  qed (use inv in \<open>simp_all add: image_inv_def pending_def\<close>)
qed

section \<open>The contract of a workload\<close>

text \<open>The bounds of a run: what is snapshotted fits, no counter wraps.\<close>

definition live_fits :: "nat \<Rightarrow> smr_config \<Rightarrow> bool" where
  "live_fits K cfg \<longleftrightarrow> K \<le> 65535 \<and> K \<le> cfg_cap cfg \<and> cfg_cap cfg < 2 ^ 32 \<and>
     0 < cfg_snap_every cfg \<and> cfg_live_iters cfg + 3 < 2 ^ 64"

text \<open>
  \<open>W k\<close> holds before operation \<open>k\<close> is drawn, \<open>D k\<close> between its draw and its execution; both look
  at the flat view only. A capture between the two changes neither.
\<close>

locale live_work =
  fixes K :: nat and cfg :: smr_config
    and draw :: "'w \<Rightarrow> panic + 'o \<times> 'w" and app :: "nat \<Rightarrow> 'o \<Rightarrow> cowbook \<times> 'w \<Rightarrow> panic + cowbook \<times> 'w"
    and W :: "nat \<Rightarrow> book \<Rightarrow> 'w \<Rightarrow> bool" and D :: "nat \<Rightarrow> book \<Rightarrow> 'w \<Rightarrow> 'o \<Rightarrow> bool"
  assumes draw_ok: "W k b w \<Longrightarrow> k < cfg_live_iters cfg \<Longrightarrow> live_book K cfg b \<Longrightarrow>
      \<exists>op w'. draw w = Inr (op, w') \<and> D k b w' op"
    and app_ok: "D k (flat c) w op \<Longrightarrow> k < cfg_live_iters cfg \<Longrightarrow> cow_since K c c \<Longrightarrow>
      live_book K cfg (flat c) \<Longrightarrow>
      \<exists>c' w'. app k op (c, w) = Inr (c', w') \<and> cow_since K c c' \<and> live_book K cfg (flat c') \<and> W (Suc k) (flat c') w'"
begin

definition work_inv :: "('w, 'o) live \<Rightarrow> bool" where
  "work_inv s \<longleftrightarrow> live_fits K cfg \<and> cow_since K (lv_book s) (lv_book s) \<and> live_book K cfg (flat (lv_book s)) \<and>
     (let k = pc_pos (cfg_live_iters cfg) (lv_pc s) in
      k \<le> cfg_live_iters cfg \<and>
      (case pc_op (lv_pc s) of
         Some op \<Rightarrow> k < cfg_live_iters cfg \<and> D k (flat (lv_book s)) (lv_work s) op
       | None \<Rightarrow> W k (flat (lv_book s)) (lv_work s)))"

definition live_inv :: "(u8 list \<Rightarrow> u32) \<Rightarrow> (nat \<Rightarrow> u64) \<Rightarrow> (nat \<Rightarrow> u64) \<Rightarrow> ('w, 'o) live \<Rightarrow> bool" where
  "live_inv crc wns sns s \<longleftrightarrow>
     work_inv s \<and> proto_inv s \<and> count_inv cfg wns s \<and> image_inv crc sns K cfg s"

lemma since_self: "cow_since K c c' \<Longrightarrow> cow_since K c' c'"
  by (simp add: cow_since_def sim_def)

lemma main_no_panic:
  assumes w: "work_inv s" and p: "proto_inv s"
  shows "main_step cfg wns draw app s \<noteq> Some (Inl e)"
proof (cases "lv_pc s")
  case (Loop k)
  then show ?thesis
    using w draw_ok [of k "flat (lv_book s)" "lv_work s"] by (auto simp: main_step_def work_inv_def)
next
  case (Apply k op)
  then show ?thesis
    using w app_ok [of k "lv_book s" "lv_work s" op] by (auto simp: main_step_def work_inv_def)
qed (use p w in \<open>auto simp: main_step_def proto_inv_def chan_send_def usize_div_simps work_inv_def live_fits_def\<close>)

lemma work_fits:
  assumes "work_inv s"
  shows "K \<le> 65535" and "K \<le> cfg_cap cfg" and "cfg_cap cfg < 2 ^ 32" and "0 < cfg_snap_every cfg"
    and "cfg_live_iters cfg + 3 < 2 ^ 64"
  using assms by (simp_all add: work_inv_def live_fits_def)


lemma work_main:
  assumes w: "work_inv s" and gen: "unat (c_gen (lv_book s)) < 2 ^ 64 - 1"
    and step: "main_step cfg wns draw app s = Some (Inr s')"
  shows "work_inv s'"
  using step work_fits(4) [OF w]
proof (cases rule: main_stepE)
  case warm_capture
  have c: "cow_since K (lv_book s) (lv_book s)" "live_book K cfg (flat (lv_book s))"
    using w by (simp_all add: work_inv_def)
  then have "flat (snd (capture (lv_book s))) = flat (lv_book s)"
    using capture_spec(2) [OF _ gen] by (simp add: cow_since_def sim_def)
  then show ?thesis using w warm_capture shows_captured(2) [OF c gen] by (simp add: work_inv_def)
next
  case (capture k op)
  have c: "cow_since K (lv_book s) (lv_book s)" "live_book K cfg (flat (lv_book s))"
    using w by (simp_all add: work_inv_def)
  then have "flat (snd (capture (lv_book s))) = flat (lv_book s)"
    using capture_spec(2) [OF _ gen] by (simp add: cow_since_def sim_def)
  then show ?thesis using w capture shows_captured(2) [OF c gen] by (simp add: work_inv_def)
next
  case (finish k)
  then have "k = cfg_live_iters cfg" using w by (simp add: work_inv_def)
  then show ?thesis using w finish by (simp add: work_inv_def)
next
  case (draw k op w')
  then show ?thesis using w draw_ok [of k "flat (lv_book s)" "lv_work s"] by (auto simp: work_inv_def)
next
  case (apply_op k op c w')
  then show ?thesis using w app_ok [of k "lv_book s" "lv_work s" op] since_self by (auto simp: work_inv_def)
qed (use w in \<open>auto simp: work_inv_def chan_send_Inr\<close>)

lemma settled_le:
  assumes "pc_pos (cfg_live_iters cfg) pc \<le> cfg_live_iters cfg"
    and "pc_op pc \<noteq> None \<longrightarrow> pc_pos (cfg_live_iters cfg) pc < cfg_live_iters cfg"
  shows "settled cfg pc \<le> Suc (cfg_live_iters cfg)"
  using assms trigs_le [of cfg "pc_pos (cfg_live_iters cfg) pc"] trigs_le [of cfg "Suc (pc_pos (cfg_live_iters cfg) pc)"]
  by (cases pc) simp_all

lemma main_keeps:
  assumes inv: "live_inv crc wns sns s" and step: "main_step cfg wns draw app s = Some (Inr s')"
  shows "live_inv crc wns sns s'"
proof -
  have w: "work_inv s" and p: "proto_inv s" and n: "count_inv cfg wns s" and i: "image_inv crc sns K cfg s"
    using inv by (simp_all add: live_inv_def)
  have c: "cow_since K (lv_book s) (lv_book s)" "live_book K cfg (flat (lv_book s))"
    using w by (simp_all add: work_inv_def)
  have pos: "pc_pos (cfg_live_iters cfg) (lv_pc s) \<le> cfg_live_iters cfg"
    "pc_op (lv_pc s) \<noteq> None \<longrightarrow> pc_pos (cfg_live_iters cfg) (lv_pc s) < cfg_live_iters cfg"
    using w by (auto simp: work_inv_def Let_def)
  note fits = work_fits(1-3) [OF w] and every = work_fits(4) [OF w] and iters = work_fits(5) [OF w]
  have caps: "length (lv_caps s) \<le> Suc (cfg_live_iters cfg)"
    using n settled_le [OF pos] by (simp add: count_inv_def)
  then have gen: "length (lv_caps s) + 2 < 2 ^ 64" using iters by simp
  then have g: "unat (c_gen (lv_book s)) < 2 ^ 64 - 1" using i by (simp add: image_inv_def)
  have app: "cow_since K (lv_book s) c'" if "lv_pc s = Apply k op" "app k op (lv_book s, lv_work s) = Inr (c', w')"
    for k op c' w'
    using w app_ok [of k "lv_book s" "lv_work s" op] that by (auto simp: work_inv_def)
  show ?thesis
    using work_main [OF w g step] proto_main [OF p step every] count_main [OF n p pos iters step every]
      image_main [OF i p c gen app step every]
    by (simp add: live_inv_def)
qed

lemma ser_keeps:
  assumes inv: "live_inv crc wns sns s" and step: "ser_step crc sns s = Some s'"
  shows "live_inv crc wns sns s'"
proof -
  have w: "work_inv s" and p: "proto_inv s" and n: "count_inv cfg wns s" and i: "image_inv crc sns K cfg s"
    using inv by (simp_all add: live_inv_def)
  have "work_inv s'" using step w by (cases rule: ser_stepE) (auto simp: work_inv_def Let_def split: option.splits)
  moreover have "lv_ser s \<noteq> Ser_panicked" using p by (simp add: proto_inv_def)
  ultimately show ?thesis
    using image_ser [OF i work_fits(1-3) [OF w] step] proto_ser [OF p step] count_ser [OF n step] by (simp add: live_inv_def)
qed

lemma step_keeps:
  "live_step crc wns sns cfg draw app s s' \<Longrightarrow> live_inv crc wns sns s \<Longrightarrow> live_inv crc wns sns s'"
  by (erule live_stepE) (rule main_keeps ser_keeps; assumption)+

lemma reach_inv:
  "live_reach crc wns sns cfg draw app s0 s \<Longrightarrow> live_inv crc wns sns s0 \<Longrightarrow> live_inv crc wns sns s"
  by (induction rule: live_reach.induct) (auto intro: step_keeps)

lemma start_inv:
  assumes "live_fits K cfg" and "cow_since K c c" and "live_book K cfg (flat c)" and "c_gen c = 1" and "W 0 (flat c) w"
  shows "live_inv crc wns sns (live_start cfg c w)"
  using assms
  by (simp add: live_inv_def work_inv_def proto_inv_def count_inv_def image_inv_def live_start_def under_way_def
      pending_def)

text \<open>A run cannot get stuck before the main thread is done.\<close>

lemma progress:
  assumes inv: "live_inv crc wns sns s" and going: "lv_pc s \<noteq> Done"
  shows "\<exists>s'. live_step crc wns sns cfg draw app s s'"
proof -
  have w: "work_inv s" and p: "proto_inv s" using inv by (simp_all add: live_inv_def)
  show ?thesis
  proof (cases "main_step cfg wns draw app s")
    case (Some m)
    then show ?thesis using main_no_panic [OF w p] by (cases m) (auto intro: live_step.Main)
  next
    case None
    have "ser_step crc sns s \<noteq> None"
    proof (cases "lv_pc s")
      case Warm_spin
      then have "under_way s = 1" "lv_open s" "lv_ser s \<noteq> Ser_done"
        using None p by (auto simp: main_step_def proto_inv_def split: if_splits)
      then show ?thesis
        using p by (cases "lv_ser s"; cases "lv_chan s")
          (auto simp: ser_step_def under_way_def proto_inv_def split: sum.splits)
    next
      case (Warm_send r)
      then show ?thesis
        using None p by (auto simp: main_step_def chan_send_def proto_inv_def under_way_def split: if_splits)
    next
      case (Send k op r)
      then show ?thesis
        using None p by (auto simp: main_step_def chan_send_def proto_inv_def under_way_def split: if_splits)
    next
      case Join
      then have "lv_ser s \<noteq> Ser_done" "\<not> lv_open s" "lv_ser s \<noteq> Ser_panicked"
        using None p by (auto simp: main_step_def proto_inv_def split: if_splits)
      then show ?thesis
        by (cases "lv_ser s") (auto simp: ser_step_def split: list.splits sum.splits)
    qed (use None going in \<open>simp_all add: main_step_def\<close>)
    then show ?thesis by (auto intro: live_step.Serializer)
  qed
qed

text \<open>When it is done every captured book has its image and every clock its samples.\<close>

lemma finished:
  assumes inv: "live_inv crc wns sns s" and fin: "lv_pc s = Done"
  shows "lv_imgs s = map (signed_image crc) (lv_caps s)"
    and "length (lv_caps s) + unat (lv_skipped s) = 1 + trigs cfg (cfg_live_iters cfg)"
    and "0 < cfg_live_iters cfg \<Longrightarrow> 2 \<le> length (lv_caps s)"
    and "live_report s = (map wns [0..<cfg_live_iters cfg], map sns [1..<length (lv_caps s)], lv_skipped s, lv_len s)"
    and "W (cfg_live_iters cfg) (flat (lv_book s)) (lv_work s)"
proof -
  have p: "proto_inv s" and n: "count_inv cfg wns s" and i: "image_inv crc sns K cfg s"
    using inv by (simp_all add: live_inv_def)
  have "pending s = []" using p by (simp add: pending_def proto_inv_def fin)
  then have "drop (length (lv_imgs s)) (lv_caps s) = []" "length (lv_imgs s) \<le> length (lv_caps s)"
    "lv_durs s = map sns [0..<length (lv_imgs s)]"
    using i by (auto simp: image_inv_def)
  then have len: "length (lv_imgs s) = length (lv_caps s)" by simp
  show "lv_imgs s = map (signed_image crc) (lv_caps s)" using i len unfolding image_inv_def by (metis take_all_iff order_refl)
  show c: "length (lv_caps s) + unat (lv_skipped s) = 1 + trigs cfg (cfg_live_iters cfg)"
    using n by (simp add: count_inv_def fin)
  show "2 \<le> length (lv_caps s)" if "0 < cfg_live_iters cfg"
    using c n trigs_pos [OF that, of cfg] unfolding count_inv_def fin settled.simps by linarith
  show "live_report s = (map wns [0..<cfg_live_iters cfg], map sns [1..<length (lv_caps s)], lv_skipped s, lv_len s)"
    using n \<open>lv_durs s = _\<close> by (simp add: live_report_def count_inv_def fin len drop_map)
  show "W (cfg_live_iters cfg) (flat (lv_book s)) (lv_work s)"
    using inv by (simp add: live_inv_def work_inv_def fin)
qed

lemma finished_report:
  assumes inv: "live_inv crc wns sns s" and fin: "lv_pc s = Done"
  shows "\<exists>n. live_report s = (map wns [0..<cfg_live_iters cfg], map sns [1..<Suc n], lv_skipped s, lv_len s) \<and>
    n + unat (lv_skipped s) = trigs cfg (cfg_live_iters cfg) \<and> (0 < cfg_live_iters cfg \<longrightarrow> 0 < n)"
proof -
  note f = finished [OF inv fin]
  have "unat (lv_skipped s) \<le> trigs cfg (cfg_live_iters cfg)"
    using inv by (auto simp: live_inv_def count_inv_def fin)
  then obtain n where n: "length (lv_caps s) = Suc n" using f(2) by (cases "length (lv_caps s)") simp_all
  show ?thesis using f(2-4) unfolding n by (intro exI [of _ n]) auto
qed

lemma snapshots_right:
  assumes inv: "live_inv crc wns sns s"
  shows "main_step cfg wns draw app s \<noteq> Some (Inl e) \<and> lv_ser s \<noteq> Ser_panicked \<and>
    length (lv_chan s) + serving (lv_ser s) \<le> 1 \<and>
    lv_imgs s = map (\<lambda>b. image b @ le_bytes 4 (unat (crc (image b)))) (take (length (lv_imgs s)) (lv_caps s)) \<and>
    length (lv_caps s) = length (lv_imgs s) + length (pending s)"
proof -
  have w: "work_inv s" and p: "proto_inv s" and i: "image_inv crc sns K cfg s"
    using inv by (simp_all add: live_inv_def)
  have "lv_imgs s = map (signed_image crc) (take (length (lv_imgs s)) (lv_caps s))"
    and le: "length (lv_imgs s) \<le> length (lv_caps s)"
    and all: "list_all2 (shows_book K cfg (lv_book s)) (pending s) (drop (length (lv_imgs s)) (lv_caps s))"
    using i unfolding image_inv_def by blast+
  moreover have "length (lv_caps s) = length (lv_imgs s) + length (pending s)"
    using list_all2_lengthD [OF all] le by simp
  moreover have "length (lv_chan s) + serving (lv_ser s) \<le> 1" "lv_ser s \<noteq> Ser_panicked"
    using p by (auto simp: proto_inv_def under_way_def split: if_splits)
  ultimately show ?thesis using main_no_panic [OF w p] unfolding signed_image_def by blast
qed

text \<open>Every step uses fuel up, so runs are bounded.\<close>

fun main_fuel :: "'o main_pc \<Rightarrow> nat" where
  "main_fuel Warm_mark = 10 * cfg_live_iters cfg + 10"
| "main_fuel Warm_capture = 10 * cfg_live_iters cfg + 9"
| "main_fuel (Warm_send _) = 10 * cfg_live_iters cfg + 8"
| "main_fuel Warm_spin = 10 * cfg_live_iters cfg + 3"
| "main_fuel (Loop k) = 10 * (cfg_live_iters cfg - k) + 2"
| "main_fuel (Check k _) = 10 * (cfg_live_iters cfg - k) + 1"
| "main_fuel (Mark k _) = 10 * (cfg_live_iters cfg - k)"
| "main_fuel (Capture k _) = 10 * (cfg_live_iters cfg - k) - 1"
| "main_fuel (Send k _ _) = 10 * (cfg_live_iters cfg - k) - 2"
| "main_fuel (Apply k _) = 10 * (cfg_live_iters cfg - k) - 7"
| "main_fuel Join = 1"
| "main_fuel Done = 0"

fun ser_fuel :: "ser_pc \<Rightarrow> nat" where
  "ser_fuel Ser_recv = 1"
| "ser_fuel (Ser_encode _) = 3"
| "ser_fuel Ser_clear = 2"
| "ser_fuel _ = 0"

definition fuel :: "('w, 'o) live \<Rightarrow> nat" where
  "fuel s = main_fuel (lv_pc s) + 3 * length (lv_chan s) + ser_fuel (lv_ser s)"

lemma step_fuel:
  assumes inv: "live_inv crc wns sns s" and step: "live_step crc wns sns cfg draw app s s'"
  shows "fuel s' < fuel s"
proof -
  have w: "work_inv s" using inv by (simp add: live_inv_def)
  then have op: "pc_op (lv_pc s) \<noteq> None \<longrightarrow> pc_pos (cfg_live_iters cfg) (lv_pc s) < cfg_live_iters cfg"
    by (auto simp: work_inv_def Let_def)
  show ?thesis
    using step
  proof (rule live_stepE)
    assume "main_step cfg wns draw app s = Some (Inr s')"
    from this work_fits(4) [OF w] show ?thesis
      by (cases rule: main_stepE)
        (use op in \<open>simp_all add: fuel_def chan_send_Inr diff_Suc split: nat.splits\<close>)
  next
    assume "ser_step crc sns s = Some s'"
    then show ?thesis by (cases rule: ser_stepE) (simp_all add: fuel_def)
  qed
qed

lemma run_bounded:
  assumes "(live_step crc wns sns cfg draw app ^^ n) s0 s" and "live_inv crc wns sns s0"
  shows "n + fuel s \<le> fuel s0"
  using assms
proof (induction n arbitrary: s)
  case (Suc n)
  then obtain s1 where s1: "(live_step crc wns sns cfg draw app ^^ n) s0 s1" "live_step crc wns sns cfg draw app s1 s"
    by auto
  have "live_reach crc wns sns cfg draw app s0 s1" if "(live_step crc wns sns cfg draw app ^^ n) s0 s1" for n s1
    using that by (induction n arbitrary: s1) (auto intro: live_reach.intros)
  then have "live_inv crc wns sns s1" using reach_inv s1(1) Suc.prems(2) by blast
  from step_fuel [OF this s1(2)] Suc.IH [OF s1(1) Suc.prems(2)] show ?case by simp
qed simp

lemma reaches_done:
  assumes inv: "live_inv crc wns sns s0"
  shows "\<exists>s. live_reach crc wns sns cfg draw app s0 s \<and> lv_pc s = Done"
  using inv
proof (induction "fuel s0" arbitrary: s0 rule: less_induct)
  case less
  show ?case
  proof (cases "lv_pc s0 = Done")
    case True
    then show ?thesis by (blast intro: live_reach.Start)
  next
    case False
    then obtain s1 where s1: "live_step crc wns sns cfg draw app s0 s1" using progress less.prems by blast
    then obtain s where s: "live_reach crc wns sns cfg draw app s1 s" "lv_pc s = Done"
      using less.hyps [OF step_fuel [OF less.prems s1] step_keeps [OF s1 less.prems]] by blast
    from s(1) have "live_reach crc wns sns cfg draw app s0 s"
      by (induction rule: live_reach.induct) (blast intro: live_reach.intros s1)+
    then show ?thesis using s(2) by blast
  qed
qed

end

end
