(* ===== verification/Live_Theorems.thy ===== *)
theory Live_Theorems
  imports Live_Inv Demo
begin

text \<open>
  Both concurrent experiments, whatever the interleaving: no thread panics, every snapshot is
  the image of the book at the instant of its capture, and every run ends with all samples.
\<close>

section \<open>The two workloads\<close>

definition upd_work :: "smr_config \<Rightarrow> nat \<Rightarrow> book \<Rightarrow> u64 \<Rightarrow> bool" where
  "upd_work cfg k b rng \<longleftrightarrow> 0 < cfg_steady cfg \<and> cfg_steady cfg < 2 ^ 63 \<and>
     ladder_ids (unat (cfg_levels cfg)) (ladder_of b) = stream_ids (cfg_steady cfg)"

interpretation live_upd: live_work "cfg_steady cfg" cfg upd_draw "upd_app cfg" "upd_work cfg"
  "\<lambda>k b rng _. upd_work cfg k b rng" for cfg
proof
  fix k b and rng :: u64
  assume "upd_work cfg k b rng"
  then show "\<exists>op rng'. upd_draw rng = Inr (op, rng') \<and> upd_work cfg k b rng'"
    by (simp add: upd_draw_def)
next
  fix k c and rng :: u64 and op :: unit
  let ?K = "cfg_steady cfg"
  assume D: "upd_work cfg k (flat c) rng" and c: "cow_since ?K c c" and b: "live_book ?K cfg (flat c)"
  have lev: "g_levels (peak_geom ?K (flat c)) = cfg_levels cfg"
    using peak_levels [of ?K "flat c" cfg] b by (simp add: live_book_def) (simp add: peak_geom_def geom_of_def)
  have n: "0 < ?K" "?K < 2 ^ 63"
    and ids: "ladder_ids (unat (g_levels (peak_geom ?K (flat c)))) (ladder_of (flat c)) = stream_ids ?K"
    using D by (simp_all add: upd_work_def lev)
  obtain c' rng' where c': "update_step cow_update ?K (c, rng) = Inr (c', rng')" "cow_since ?K c c'"
    "peak_geom ?K (flat c') = peak_geom ?K (flat c)"
    "ladder_ids (unat (g_levels (peak_geom ?K (flat c)))) (ladder_of (flat c')) = stream_ids ?K"
    using cow_since_store.update_step_run [OF c ids n, of rng] by blast
  then have "live_book ?K cfg (flat c')" using b by (simp add: live_book_def cow_since_def)
  then show "\<exists>c' w'. upd_app cfg k op (c, rng) = Inr (c', w') \<and> cow_since ?K c c' \<and> live_book ?K cfg (flat c') \<and>
      upd_work cfg (Suc k) (flat c') w'"
    using c' n by (simp add: upd_app_def upd_work_def lev)
qed

definition churn_work :: "smr_config \<Rightarrow> nat \<Rightarrow> book \<Rightarrow> churn \<times> churn_samples \<Rightarrow> bool" where
  "churn_work cfg k b = (\<lambda>(ch, smp).
     price_grid (geom_of (book_new cfg)) \<and>
     churn_inv (peak_geom (spare (cfg_steady cfg) + 1) (book_new cfg)) (spare (cfg_steady cfg)) ch (ladder_of b) \<and>
     ch_i ch = cfg_steady cfg + cfg_warmup cfg + k \<and>
     cfg_steady cfg + cfg_warmup cfg + cfg_live_iters cfg < 2 ^ 64 \<and> spare (cfg_steady cfg) + 1 \<le> 65535 \<and>
     sample_count smp = k)"

definition churn_drawn :: "smr_config \<Rightarrow> nat \<Rightarrow> book \<Rightarrow> churn \<times> churn_samples \<Rightarrow> churn_op \<Rightarrow> bool" where
  "churn_drawn cfg k b = (\<lambda>(ch, smp) op. \<exists>ch0. next_op ch0 = Inr (op, ch) \<and> churn_work cfg k b (ch0, smp))"

lemma churn_work_grid:
  "churn_work cfg k b (ch, smp) \<Longrightarrow> price_grid (peak_geom (spare (cfg_steady cfg) + 1) (book_new cfg))"
  by (simp add: churn_work_def price_grid_def peak_geom_def)

interpretation live_churn: live_work "spare (cfg_steady cfg) + 1" cfg churn_draw "churn_app wns"
  "churn_work cfg" "churn_drawn cfg" for cfg wns
proof
  fix k b and w :: "churn \<times> churn_samples"
  assume W: "churn_work cfg k b w" and k: "k < cfg_live_iters cfg"
  obtain ch smp where w: "w = (ch, smp)" by (cases w)
  have i: "Suc (ch_i ch) < 2 ^ 64" and m: "spare (cfg_steady cfg) + 1 < 2 ^ 64"
    and inv: "churn_inv (peak_geom (spare (cfg_steady cfg) + 1) (book_new cfg)) (spare (cfg_steady cfg)) ch (ladder_of b)"
    using W k by (simp_all add: w churn_work_def)
  obtain op ch' where "next_op ch = Inr (op, ch')"
    using next_op_spec [OF inv churn_work_grid [OF W [unfolded w]] i m] by blast
  then show "\<exists>op w'. churn_draw w = Inr (op, w') \<and> churn_drawn cfg k b w' op"
    using W by (auto simp: w churn_draw_def churn_drawn_def)
next
  fix k c op and w :: "churn \<times> churn_samples"
  let ?K = "spare (cfg_steady cfg) + 1" and ?s = "spare (cfg_steady cfg)"
  assume D: "churn_drawn cfg k (flat c) w op" and k: "k < cfg_live_iters cfg" and c: "cow_since ?K c c"
    and b: "live_book ?K cfg (flat c)"
  obtain ch smp where w: "w = (ch, smp)" by (cases w)
  obtain ch0 where ch0: "next_op ch0 = Inr (op, ch)" and W: "churn_work cfg k (flat c) (ch0, smp)"
    using D by (auto simp: w churn_drawn_def)
  have geo: "peak_geom ?K (flat c) = peak_geom ?K (book_new cfg)" using b by (simp add: live_book_def)
  have inv: "churn_inv (peak_geom ?K (book_new cfg)) ?s ch0 (ladder_of (flat c))"
    and i: "Suc (ch_i ch0) < 2 ^ 64" using W k by (simp_all add: churn_work_def)
  have cap: "?s + 1 \<le> g_capacity (peak_geom ?K (book_new cfg))" by (simp add: peak_geom_def)
  obtain op' ch' c' where 1: "next_op ch0 = Inr (op', ch')"
    "churn_apply cow_insert cow_cancel cow_fill c op' = Inr c'" "cow_since ?K c c'"
    "peak_geom ?K (flat c') = peak_geom ?K (book_new cfg)"
    "churn_inv (peak_geom ?K (book_new cfg)) ?s ch' (ladder_of (flat c'))" "ch_i ch' = Suc (ch_i ch0)"
    using cow_since_store.churn_step [OF c, unfolded geo, OF inv churn_work_grid [OF W] cap i] by blast
  then have "live_book ?K cfg (flat c')" by (simp add: live_book_def cow_since_def)
  moreover have "op' = op" "ch' = ch" using 1(1) ch0 by simp_all
  ultimately show "\<exists>c' w'. churn_app wns k op (c, w) = Inr (c', w') \<and> cow_since ?K c c' \<and>
      live_book ?K cfg (flat c') \<and> churn_work cfg (Suc k) (flat c') w'"
    using 1 W by (simp add: churn_app_def churn_work_def w)
qed

section \<open>Where the runs start\<close>

lemma live_upd_start:
  assumes env: "from_env env = Inr cfg" and cap: "cfg_cap cfg < 2 ^ 32"
    and grid: "price_grid (geom_of (book_new cfg))" and iters: "cfg_live_iters cfg + 3 < 2 ^ 64"
  shows "\<exists>s. live_mvcc_start env = Inr (Inr (cfg, s)) \<and> live_upd.live_inv cfg crc wns sns s \<and>
    live_upd.fuel cfg s = 10 * cfg_live_iters cfg + 11"
proof -
  let ?K = "cfg_steady cfg"
  have ck: "?K \<le> 65535" "?K \<le> cfg_cap cfg" "0 < ?K" "?K < 2 ^ 63"
    using from_env_checked [OF env] by (simp_all add: check_config_Inr)
  have fits: "live_fits ?K cfg"
    using ck cap iters from_env_snap_every [OF env] by (simp add: live_fits_def)
  obtain c0 where c0: "cow_new cfg = Inr c0" "cow_since ?K c0 c0" "flat c0 = book_new cfg" "c_gen c0 = 1"
    using cow_since_start [OF env cap grid ck(2)] by blast
  note start = new_peak_start [OF env cap grid ck(2)]
  have lev: "g_levels (peak_geom ?K (book_new cfg)) = cfg_levels cfg"
    by (simp add: peak_geom_def geom_of_def book_new_def)
  obtain c1 rng1 where c1: "steady_book cow_insert cfg c0 = Inr (c1, rng1)" "cow_since ?K c0 c1"
    "peak_geom ?K (flat c1) = peak_geom ?K (book_new cfg)"
    "ladder_ids (unat (cfg_levels cfg)) (ladder_of (flat c1)) = stream_ids ?K"
    using cow_since_store.steady_run [OF c0(2), unfolded c0(3), OF start(2,3)] start(4) lev by auto
  have ids: "ladder_ids (unat (g_levels (peak_geom ?K (flat c1)))) (ladder_of (flat c1)) = stream_ids ?K"
    by (simp add: c1 lev)
  obtain c rng where c: "try_iter (update_step cow_update ?K) (cfg_warmup cfg) (c1, rng1) = Inr (c, rng)"
    "cow_since ?K c0 c" "peak_geom ?K (flat c) = peak_geom ?K (book_new cfg)"
    "ladder_ids (unat (cfg_levels cfg)) (ladder_of (flat c)) = stream_ids ?K"
    using cow_since_store.update_iter_run(1) [OF c1(2) ids ck(3,4), of "cfg_warmup cfg" rng1] c1(3) lev by auto
  have since: "cow_since ?K c c" using c(2) by (simp add: cow_since_def sim_def)
  have book: "live_book ?K cfg (flat c)" using c(2,3) by (simp add: live_book_def cow_since_def)
  have gen: "c_gen c = 1" using c(2) c0(4) by (simp add: cow_since_def sim_def frame_def)
  have "upd_work cfg 0 (flat c) rng" using c(4) ck by (simp add: upd_work_def)
  from live_upd.start_inv [OF fits since book gen this, of crc wns sns]
  show ?thesis using c0(1) c1(1) c(1)
    by (simp add: live_mvcc_start_def env live_upd.fuel_def live_start_def)
qed

lemma live_churn_begin:
  assumes env: "from_env env = Inr cfg" and cap: "cfg_cap cfg < 2 ^ 32"
    and grid: "price_grid (geom_of (book_new cfg))" and iters: "cfg_live_iters cfg + 3 < 2 ^ 64"
    and m: "spare (cfg_steady cfg) + 1 \<le> cfg_cap cfg"
    and n: "cfg_steady cfg + cfg_warmup cfg + cfg_live_iters cfg < 2 ^ 64"
  shows "\<exists>s. live_churn_start env = Inr (Inr (cfg, s)) \<and> live_churn.live_inv cfg crc wns sns s \<and>
    live_churn.fuel cfg s = 10 * cfg_live_iters cfg + 11"
proof -
  let ?s = "spare (cfg_steady cfg)"
  let ?K = "?s + 1" and ?b0 = "book_new cfg"
  have K: "?K \<le> 65535"
    using from_env_checked [OF env] by (auto simp: check_config_Inr spare_def elim!: evenE)
  have fits: "live_fits ?K cfg"
    using K m cap iters from_env_snap_every [OF env] by (simp add: live_fits_def)
  obtain c0 where c0: "cow_new cfg = Inr c0" "cow_since ?K c0 c0" "flat c0 = ?b0" "c_gen c0 = 1"
    using cow_since_start [OF env cap grid m] by blast
  note start = new_peak_start [OF env cap grid m]
  let ?g = "peak_geom ?K ?b0"
  have g: "price_grid ?g" "g_capacity ?g = ?K" using start(2) by (simp_all add: grid_cfg_def peak_geom_def)
  then have step: "?s + 1 \<le> g_capacity ?g" by (simp only:)
  have ch0: "ch_live (churn_new cfg) = []" "ch_i (churn_new cfg) = 0" by (simp_all add: churn_new_def)
  have room: "length (ch_live (churn_new cfg)) + cfg_steady cfg \<le> g_capacity ?g"
    "ch_i (churn_new cfg) + cfg_steady cfg < 2 ^ 64"
    using n unfolding g(2) ch0 by (simp_all add: spare_def split: if_splits)
  obtain c1 ch1 where 1: "churn_prebuild cow_insert cow_cancel cow_fill (cfg_steady cfg) (c0, churn_new cfg) = Inr (c1, ch1)"
    "cow_since ?K c0 c1" "peak_geom ?K (flat c1) = ?g" "churn_known ?g ch1 (ladder_of (flat c1))"
    "length (ch_live ch1) = cfg_steady cfg" "ch_i ch1 = cfg_steady cfg"
    using cow_since_store.churn_prebuild_run [OF c0(2), unfolded c0(3), OF start(5) g(1) room] ch0 by auto
  have inv1: "churn_inv ?g ?s ch1 (ladder_of (flat c1))"
    using 1 by (cases "even (cfg_steady cfg)") (auto simp: churn_inv_def spare_def intro: Suc_leI odd_pos)
  have n1: "ch_i ch1 + cfg_warmup cfg < 2 ^ 64" using 1(6) n by simp
  obtain c ch where 2: "churn_warmup cow_insert cow_cancel cow_fill (cfg_warmup cfg) (c1, ch1) = Inr (c, ch)"
    "cow_since ?K c0 c" "peak_geom ?K (flat c) = ?g" "churn_inv ?g ?s ch (ladder_of (flat c))"
    "ch_i ch = cfg_steady cfg + cfg_warmup cfg"
    using cow_since_store.churn_warmup_run [OF 1(2), unfolded 1(3), OF inv1 g(1) step n1] 1(6) by auto
  have since: "cow_since ?K c c" using 2(2) by (simp add: cow_since_def sim_def)
  have book: "live_book ?K cfg (flat c)" using 2(2,3) by (simp add: live_book_def cow_since_def)
  have gen: "c_gen c = 1" using 2(2) c0(4) by (simp add: cow_since_def sim_def frame_def)
  have "churn_work cfg 0 (flat c) (ch, \<lparr>insert_ns = [], cancel_ns = [], fill_ns = []\<rparr>)"
    using 2 n grid K by (simp add: churn_work_def sample_count_def)
  from live_churn.start_inv [OF fits since book gen this, of crc wns sns]
  show ?thesis using c0(1) 1(1) 2(1)
    by (simp add: live_churn_start_def env live_churn.fuel_def live_start_def)
qed


section \<open>Properties\<close>

text \<open>C17: In every reachable state of the update experiment no thread has panicked or is about to, at most
  one root is between its send and the end of its snapshot, and every image written so far is
  that of the book at the instant of its capture, in the order of the captures, although the
  main thread went on writing meanwhile.\<close>

theorem live_mvcc_snapshots_right:
  assumes env: "from_env env = Inr cfg" and cap: "cfg_cap cfg < 2 ^ 32"
    and grid: "price_grid (geom_of (book_new cfg))" and iters: "cfg_live_iters cfg + 3 < 2 ^ 64"
    and start: "live_mvcc_start env = Inr (Inr (cfg, s0))"
    and reach: "live_reach crc wns sns cfg upd_draw (upd_app cfg) s0 s"
  shows "mvcc_writer cfg wns s \<noteq> Some (Inl e) \<and> lv_ser s \<noteq> Ser_panicked \<and>
    length (lv_chan s) + serving (lv_ser s) \<le> 1 \<and>
    lv_imgs s = map (\<lambda>b. image b @ le_bytes 4 (unat (crc (image b)))) (take (length (lv_imgs s)) (lv_caps s)) \<and>
    length (lv_caps s) = length (lv_imgs s) + length (pending s)"
proof -
  have "live_upd.live_inv cfg crc wns sns s0"
    using live_upd_start [OF env cap grid iters, of crc wns sns] start by auto
  then show ?thesis
    using live_upd.reach_inv [OF reach] live_upd.snapshots_right unfolding mvcc_writer_def by blast
qed

theorem live_mvcc_snapshots_right_witness:
  "\<exists>cfg s0 s. from_env (\<lambda>_. None) = Inr cfg \<and> live_mvcc_start (\<lambda>_. None) = Inr (Inr (cfg, s0)) \<and>
     live_reach (\<lambda>bytes. of_nat (length bytes)) of_nat of_nat cfg upd_draw (upd_app cfg) s0 s \<and>
     lv_pc s = Done \<and> lv_ser s \<noteq> Ser_panicked \<and>
     lv_imgs s = map (\<lambda>b. image b @ le_bytes 4 (length (image b) mod 2 ^ 32)) (take (length (lv_imgs s)) (lv_caps s))"
proof -
  obtain cfg where cfg: "from_env (\<lambda>_. None) = Inr cfg" "cfg_cap cfg = 262144" "cfg_levels cfg = 1024"
    "cfg_tick cfg = 1" "cfg_price_min cfg = 0" "cfg_steady cfg = 60000" "cfg_warmup cfg = 10000"
    "cfg_iters cfg = 100000" "cfg_live_iters cfg = 200000" "cfg_snap_every cfg = 20000"
    by (rule default_config)
  have cap: "cfg_cap cfg < 2 ^ 32" and iters: "cfg_live_iters cfg + 3 < 2 ^ 64" by (simp_all add: cfg)
  let ?crc = "\<lambda>bytes :: u8 list. of_nat (length bytes) :: u32"
  note grid = default_grid [OF cfg(2-5)]
  obtain s0 where s0: "live_mvcc_start (\<lambda>_. None) = Inr (Inr (cfg, s0))" "live_upd.live_inv cfg ?crc of_nat of_nat s0"
    using live_upd_start [OF cfg(1) cap grid iters, of ?crc of_nat of_nat] by blast
  obtain s where s: "live_reach ?crc of_nat of_nat cfg upd_draw (upd_app cfg) s0 s" "lv_pc s = Done"
    using live_upd.reaches_done [OF s0(2)] by blast
  have u: "unat (of_nat n :: u32) = n mod 2 ^ 32" for n by (simp add: unat_of_nat)
  show ?thesis
    using live_mvcc_snapshots_right [OF cfg(1) cap grid iters s0(1) s(1)] cfg(1) s0(1) s unfolding u by blast
qed

text \<open>C18: The update experiment ends under every schedule: no run is longer than ten steps per
  operation and eleven more, a run that is not done can go on, some run is done, and when one
  is, every operation and every snapshot but the warm-up has its sample, every trigger is a
  snapshot or a skip, and at least one is a snapshot.\<close>

theorem live_mvcc_completes:
  assumes env: "from_env env = Inr cfg" and cap: "cfg_cap cfg < 2 ^ 32"
    and grid: "price_grid (geom_of (book_new cfg))" and iters: "cfg_live_iters cfg + 3 < 2 ^ 64"
  shows "\<exists>s0. live_mvcc_start env = Inr (Inr (cfg, s0)) \<and>
    (\<forall>n s. (live_step crc wns sns cfg upd_draw (upd_app cfg) ^^ n) s0 s \<longrightarrow> n \<le> 10 * cfg_live_iters cfg + 11) \<and>
    (\<exists>s. live_reach crc wns sns cfg upd_draw (upd_app cfg) s0 s \<and> lv_pc s = Done) \<and>
    (\<forall>s. live_reach crc wns sns cfg upd_draw (upd_app cfg) s0 s \<longrightarrow>
      (if lv_pc s = Done then
         \<exists>n. live_report s = (map wns [0..<cfg_live_iters cfg], map sns [1..<Suc n], lv_skipped s, lv_len s) \<and>
           n + unat (lv_skipped s) = trigs cfg (cfg_live_iters cfg) \<and> (0 < cfg_live_iters cfg \<longrightarrow> 0 < n)
       else \<exists>s'. live_step crc wns sns cfg upd_draw (upd_app cfg) s s'))"
proof -
  obtain s0 where s0: "live_mvcc_start env = Inr (Inr (cfg, s0))" "live_upd.live_inv cfg crc wns sns s0"
    "live_upd.fuel cfg s0 = 10 * cfg_live_iters cfg + 11"
    using live_upd_start [OF env cap grid iters, of crc wns sns] by blast
  have bound: "n \<le> 10 * cfg_live_iters cfg + 11"
    if "(live_step crc wns sns cfg upd_draw (upd_app cfg) ^^ n) s0 s" for n s
    using live_upd.run_bounded [OF that s0(2)] s0(3) by simp
  have "if lv_pc s = Done then
         \<exists>n. live_report s = (map wns [0..<cfg_live_iters cfg], map sns [1..<Suc n], lv_skipped s, lv_len s) \<and>
           n + unat (lv_skipped s) = trigs cfg (cfg_live_iters cfg) \<and> (0 < cfg_live_iters cfg \<longrightarrow> 0 < n)
       else \<exists>s'. live_step crc wns sns cfg upd_draw (upd_app cfg) s s'"
    if "live_reach crc wns sns cfg upd_draw (upd_app cfg) s0 s" for s
  proof -
    have inv: "live_upd.live_inv cfg crc wns sns s" using live_upd.reach_inv that s0(2) by blast
    show ?thesis
    proof (cases "lv_pc s = Done")
      case True
      then show ?thesis using live_upd.finished_report [OF inv] by simp
    qed (use live_upd.progress [OF inv] in simp)
  qed
  with s0(1) bound live_upd.reaches_done [OF s0(2)] show ?thesis by blast
qed

theorem live_mvcc_completes_witness:
  "\<exists>cfg s0 s. from_env (\<lambda>_. None) = Inr cfg \<and> live_mvcc_start (\<lambda>_. None) = Inr (Inr (cfg, s0)) \<and>
     live_reach (\<lambda>bytes. of_nat (length bytes)) of_nat of_nat cfg upd_draw (upd_app cfg) s0 s \<and> lv_pc s = Done"
proof -
  obtain cfg where cfg: "from_env (\<lambda>_. None) = Inr cfg" "cfg_cap cfg = 262144" "cfg_levels cfg = 1024"
    "cfg_tick cfg = 1" "cfg_price_min cfg = 0" "cfg_steady cfg = 60000" "cfg_warmup cfg = 10000"
    "cfg_iters cfg = 100000" "cfg_live_iters cfg = 200000" "cfg_snap_every cfg = 20000"
    by (rule default_config)
  have cap: "cfg_cap cfg < 2 ^ 32" and iters: "cfg_live_iters cfg + 3 < 2 ^ 64" by (simp_all add: cfg)
  show ?thesis
    using live_mvcc_completes [OF cfg(1) cap default_grid [OF cfg(2-5)] iters,
        of "\<lambda>bytes. of_nat (length bytes)" of_nat of_nat] cfg(1) by blast
qed

text \<open>In every reachable state of the churn experiment no thread has panicked or is about to, at most
  one root is between its send and the end of its snapshot, and every image written so far is
  that of the book at the instant of its capture, in the order of the captures, although the
  main thread went on writing meanwhile.\<close>

theorem live_churn_snapshots_right:
  assumes env: "from_env env = Inr cfg" and cap: "cfg_cap cfg < 2 ^ 32"
    and grid: "price_grid (geom_of (book_new cfg))" and iters: "cfg_live_iters cfg + 3 < 2 ^ 64"
    and m: "spare (cfg_steady cfg) + 1 \<le> cfg_cap cfg"
    and n: "cfg_steady cfg + cfg_warmup cfg + cfg_live_iters cfg < 2 ^ 64"
    and start: "live_churn_start env = Inr (Inr (cfg, s0))"
    and reach: "live_reach crc wns sns cfg churn_draw (churn_app wns) s0 s"
  shows "mvcc_churn_writer cfg wns s \<noteq> Some (Inl e) \<and> lv_ser s \<noteq> Ser_panicked \<and>
    length (lv_chan s) + serving (lv_ser s) \<le> 1 \<and>
    lv_imgs s = map (\<lambda>b. image b @ le_bytes 4 (unat (crc (image b)))) (take (length (lv_imgs s)) (lv_caps s)) \<and>
    length (lv_caps s) = length (lv_imgs s) + length (pending s)"
proof -
  have "live_churn.live_inv cfg crc wns sns s0"
    using live_churn_begin [OF env cap grid iters m n, of crc wns sns] start by auto
  then show ?thesis
    using live_churn.reach_inv [OF reach] live_churn.snapshots_right unfolding mvcc_churn_writer_def by blast
qed

theorem live_churn_snapshots_right_witness:
  "\<exists>cfg s0 s. from_env (\<lambda>_. None) = Inr cfg \<and> live_churn_start (\<lambda>_. None) = Inr (Inr (cfg, s0)) \<and>
     live_reach (\<lambda>bytes. of_nat (length bytes)) of_nat of_nat cfg churn_draw (churn_app of_nat) s0 s \<and>
     lv_pc s = Done \<and> lv_ser s \<noteq> Ser_panicked \<and>
     lv_imgs s = map (\<lambda>b. image b @ le_bytes 4 (length (image b) mod 2 ^ 32)) (take (length (lv_imgs s)) (lv_caps s))"
proof -
  obtain cfg where cfg: "from_env (\<lambda>_. None) = Inr cfg" "cfg_cap cfg = 262144" "cfg_levels cfg = 1024"
    "cfg_tick cfg = 1" "cfg_price_min cfg = 0" "cfg_steady cfg = 60000" "cfg_warmup cfg = 10000"
    "cfg_iters cfg = 100000" "cfg_live_iters cfg = 200000" "cfg_snap_every cfg = 20000"
    by (rule default_config)
  have cap: "cfg_cap cfg < 2 ^ 32" and iters: "cfg_live_iters cfg + 3 < 2 ^ 64" by (simp_all add: cfg)
  have m: "spare (cfg_steady cfg) + 1 \<le> cfg_cap cfg" by (simp add: spare_def cfg)
  have n: "cfg_steady cfg + cfg_warmup cfg + cfg_live_iters cfg < 2 ^ 64" by (simp add: cfg)
  let ?crc = "\<lambda>bytes :: u8 list. of_nat (length bytes) :: u32"
  note grid = default_grid [OF cfg(2-5)]
  obtain s0 where s0: "live_churn_start (\<lambda>_. None) = Inr (Inr (cfg, s0))" "live_churn.live_inv cfg ?crc of_nat of_nat s0"
    using live_churn_begin [OF cfg(1) cap grid iters m n, of ?crc of_nat of_nat] by blast
  obtain s where s: "live_reach ?crc of_nat of_nat cfg churn_draw (churn_app of_nat) s0 s" "lv_pc s = Done"
    using live_churn.reaches_done [OF s0(2)] by blast
  have u: "unat (of_nat n :: u32) = n mod 2 ^ 32" for n by (simp add: unat_of_nat)
  show ?thesis
    using live_churn_snapshots_right [OF cfg(1) cap grid iters m n s0(1) s(1)] cfg(1) s0(1) s unfolding u by blast
qed

text \<open>The churn experiment ends under every schedule: no run is longer than ten steps per
  operation and eleven more, a run that is not done can go on, some run is done, and when one
  is, every operation and every snapshot but the warm-up has its sample, every trigger is a
  snapshot or a skip, and at least one is a snapshot.\<close>

theorem live_churn_completes:
  assumes env: "from_env env = Inr cfg" and cap: "cfg_cap cfg < 2 ^ 32"
    and grid: "price_grid (geom_of (book_new cfg))" and iters: "cfg_live_iters cfg + 3 < 2 ^ 64"
    and m: "spare (cfg_steady cfg) + 1 \<le> cfg_cap cfg"
    and n: "cfg_steady cfg + cfg_warmup cfg + cfg_live_iters cfg < 2 ^ 64"
  shows "\<exists>s0. live_churn_start env = Inr (Inr (cfg, s0)) \<and>
    (\<forall>n s. (live_step crc wns sns cfg churn_draw (churn_app wns) ^^ n) s0 s \<longrightarrow> n \<le> 10 * cfg_live_iters cfg + 11) \<and>
    (\<exists>s. live_reach crc wns sns cfg churn_draw (churn_app wns) s0 s \<and> lv_pc s = Done) \<and>
    (\<forall>s. live_reach crc wns sns cfg churn_draw (churn_app wns) s0 s \<longrightarrow>
      (if lv_pc s = Done then
         \<exists>n smp. live_churn_report s = ((map wns [0..<cfg_live_iters cfg], map sns [1..<Suc n], lv_skipped s, lv_len s), smp) \<and>
           sample_count smp = cfg_live_iters cfg \<and>
           n + unat (lv_skipped s) = trigs cfg (cfg_live_iters cfg) \<and> (0 < cfg_live_iters cfg \<longrightarrow> 0 < n)
       else \<exists>s'. live_step crc wns sns cfg churn_draw (churn_app wns) s s'))"
proof -
  obtain s0 where s0: "live_churn_start env = Inr (Inr (cfg, s0))" "live_churn.live_inv cfg crc wns sns s0"
    "live_churn.fuel cfg s0 = 10 * cfg_live_iters cfg + 11"
    using live_churn_begin [OF env cap grid iters m n, of crc wns sns] by blast
  have bound: "n \<le> 10 * cfg_live_iters cfg + 11"
    if "(live_step crc wns sns cfg churn_draw (churn_app wns) ^^ n) s0 s" for n s
    using live_churn.run_bounded [OF that s0(2)] s0(3) by simp
  have "if lv_pc s = Done then
         \<exists>n smp. live_churn_report s = ((map wns [0..<cfg_live_iters cfg], map sns [1..<Suc n], lv_skipped s, lv_len s), smp) \<and>
           sample_count smp = cfg_live_iters cfg \<and>
           n + unat (lv_skipped s) = trigs cfg (cfg_live_iters cfg) \<and> (0 < cfg_live_iters cfg \<longrightarrow> 0 < n)
       else \<exists>s'. live_step crc wns sns cfg churn_draw (churn_app wns) s s'"
    if "live_reach crc wns sns cfg churn_draw (churn_app wns) s0 s" for s
  proof -
    have inv: "live_churn.live_inv cfg crc wns sns s" using live_churn.reach_inv that s0(2) by blast
    show ?thesis
    proof (cases "lv_pc s = Done")
      case True
      then show ?thesis
        using live_churn.finished_report [OF inv True] live_churn.finished(5) [OF inv True]
        by (auto simp: live_churn_report_def churn_work_def)
    qed (use live_churn.progress [OF inv] in simp)
  qed
  with s0(1) bound live_churn.reaches_done [OF s0(2)] show ?thesis by blast
qed

theorem live_churn_completes_witness:
  "\<exists>cfg s0 s. from_env (\<lambda>_. None) = Inr cfg \<and> live_churn_start (\<lambda>_. None) = Inr (Inr (cfg, s0)) \<and>
     live_reach (\<lambda>bytes. of_nat (length bytes)) of_nat of_nat cfg churn_draw (churn_app of_nat) s0 s \<and> lv_pc s = Done"
proof -
  obtain cfg where cfg: "from_env (\<lambda>_. None) = Inr cfg" "cfg_cap cfg = 262144" "cfg_levels cfg = 1024"
    "cfg_tick cfg = 1" "cfg_price_min cfg = 0" "cfg_steady cfg = 60000" "cfg_warmup cfg = 10000"
    "cfg_iters cfg = 100000" "cfg_live_iters cfg = 200000" "cfg_snap_every cfg = 20000"
    by (rule default_config)
  have cap: "cfg_cap cfg < 2 ^ 32" and iters: "cfg_live_iters cfg + 3 < 2 ^ 64" by (simp_all add: cfg)
  have m: "spare (cfg_steady cfg) + 1 \<le> cfg_cap cfg" by (simp add: spare_def cfg)
  have n: "cfg_steady cfg + cfg_warmup cfg + cfg_live_iters cfg < 2 ^ 64" by (simp add: cfg)
  show ?thesis
    using live_churn_completes [OF cfg(1) cap default_grid [OF cfg(2-5)] iters m n,
        of "\<lambda>bytes. of_nat (length bytes)" of_nat of_nat] cfg(1) by blast
qed

end
