(* ===== verification/Journal_Sbe.thy ===== *)
theory Journal_Sbe
  imports Book_Sbe
begin

text \<open>
  The generated codec of the journal record (journal_record_codec.rs, event_type.rs and lib.rs
  of rust/serialization/aeron_sbe/generated/journal): a root block, one repeating group and a
  variable-length text per entry. Its encoder and decoder structs have the fields of the book
  snapshot's, so the same records stand for them, and so do the message header functions,
  which the generator emits identically. An f64 is its bit pattern.
\<close>

section \<open>Buffers\<close>

definition put_f64_at :: "u8 list \<Rightarrow> usize \<Rightarrow> u64 \<Rightarrow> panic + u8 list" where
  "put_f64_at data i v = put_bytes_at data i (le_bytes 8 (unat v))"

definition get_f64_at :: "u8 list \<Rightarrow> usize \<Rightarrow> panic + u64" where
  "get_f64_at data i = and_then (get_bytes_at 8 data i) (\<lambda>bs. Inr (of_nat (le_value bs)))"

definition put_slice_at :: "u8 list \<Rightarrow> usize \<Rightarrow> u8 list \<Rightarrow> panic + u8 list" where
  "put_slice_at data i src =
     (if i \<le> length data \<and> length src \<le> length data - i
      then Inr (take i data @ src @ drop (i + length src) data) else Inl Index_out_of_bounds)"

definition get_slice_at :: "u8 list \<Rightarrow> usize \<Rightarrow> usize \<Rightarrow> panic + u8 list" where
  "get_slice_at data i n =
     (let e = usize_add i n in
      if i \<le> e \<and> e \<le> length data then Inr (take n (drop i data)) else Inl Index_out_of_bounds)"

section \<open>\<open>EventType\<close>\<close>

datatype event_type = APPEND | SNAPSHOT | Event_null

definition event_of_u8 :: "u8 \<Rightarrow> event_type" where
  "event_of_u8 v = (if v = 0 then APPEND else if v = 1 then SNAPSHOT else Event_null)"

fun u8_of_event :: "event_type \<Rightarrow> u8" where
  "u8_of_event APPEND = 0"
| "u8_of_event SNAPSHOT = 1"
| "u8_of_event Event_null = 0xFF"

section \<open>The root encoder\<close>

definition JR_SCHEMA_ID :: u16 where "JR_SCHEMA_ID = 7"
definition JR_SCHEMA_VERSION :: u16 where "JR_SCHEMA_VERSION = 1"
definition JR_BLOCK_LENGTH :: u16 where "JR_BLOCK_LENGTH = 50"
definition JR_TEMPLATE_ID :: u16 where "JR_TEMPLATE_ID = 1"

definition jr_wrap :: "u8 list \<Rightarrow> usize \<Rightarrow> bs_enc" where
  "jr_wrap buf off =
     \<lparr>e_buf = buf, e_initial_offset = off, e_offset = off,
      e_limit = usize_add off (unat JR_BLOCK_LENGTH)\<rparr>"

definition jr_header :: "bs_enc \<Rightarrow> usize \<Rightarrow> panic + header_enc" where
  "jr_header e off =
     and_then (h_block_length JR_BLOCK_LENGTH (h_wrap e off)) (\<lambda>h.
     and_then (h_template_id JR_TEMPLATE_ID h) (\<lambda>h.
     and_then (h_schema_id JR_SCHEMA_ID h) (\<lambda>h.
     h_version JR_SCHEMA_VERSION h)))"

definition jr_leadership_term_id :: "i64 \<Rightarrow> bs_enc \<Rightarrow> panic + bs_enc" where
  "jr_leadership_term_id v e = e_put put_i64_at e (e_offset e) v"

definition jr_log_position :: "i64 \<Rightarrow> bs_enc \<Rightarrow> panic + bs_enc" where
  "jr_log_position v e = e_put put_i64_at e (usize_add (e_offset e) 8) v"

definition jr_timestamp :: "i64 \<Rightarrow> bs_enc \<Rightarrow> panic + bs_enc" where
  "jr_timestamp v e = e_put put_i64_at e (usize_add (e_offset e) 16) v"

definition jr_cluster_session_id :: "i64 \<Rightarrow> bs_enc \<Rightarrow> panic + bs_enc" where
  "jr_cluster_session_id v e = e_put put_i64_at e (usize_add (e_offset e) 24) v"

definition jr_correlation_id :: "i64 \<Rightarrow> bs_enc \<Rightarrow> panic + bs_enc" where
  "jr_correlation_id v e = e_put put_i64_at e (usize_add (e_offset e) 32) v"

definition jr_leader_member_id :: "i32 \<Rightarrow> bs_enc \<Rightarrow> panic + bs_enc" where
  "jr_leader_member_id v e = e_put put_i32_at e (usize_add (e_offset e) 40) v"

definition jr_service_id :: "i32 \<Rightarrow> bs_enc \<Rightarrow> panic + bs_enc" where
  "jr_service_id v e = e_put put_i32_at e (usize_add (e_offset e) 44) v"

definition jr_event_type :: "event_type \<Rightarrow> bs_enc \<Rightarrow> panic + bs_enc" where
  "jr_event_type v e = e_put put_u8_at e (usize_add (e_offset e) 48) (u8_of_event v)"

definition jr_flags :: "u8 \<Rightarrow> bs_enc \<Rightarrow> panic + bs_enc" where
  "jr_flags v e = e_put put_u8_at e (usize_add (e_offset e) 49) v"

section \<open>The group of entries\<close>

definition ENTRIES_BLOCK :: u16 where "ENTRIES_BLOCK = 45"

definition entries_encoder :: "bs_enc \<Rightarrow> u16 \<Rightarrow> panic + group_enc" where
  "entries_encoder e count = group_wrap ENTRIES_BLOCK e count"

definition entries_advance :: "group_enc \<Rightarrow> sbe_err + usize option \<times> group_enc" where
  "entries_advance g = group_advance ENTRIES_BLOCK g"

definition group_set_limit :: "usize \<Rightarrow> group_enc \<Rightarrow> panic + group_enc" where
  "group_set_limit lim g =
     (case ge_parent g of
        None \<Rightarrow> Inl Parent_missing
      | Some p \<Rightarrow> Inr (g\<lparr>ge_parent := Some (p\<lparr>e_limit := lim\<rparr>)\<rparr>))"

definition en_entry_term_id :: "i64 \<Rightarrow> group_enc \<Rightarrow> panic + group_enc" where
  "en_entry_term_id v g = ge_put put_i64_at (ge_offset g) v g"

definition en_entry_index :: "i64 \<Rightarrow> group_enc \<Rightarrow> panic + group_enc" where
  "en_entry_index v g = ge_put put_i64_at (usize_add (ge_offset g) 8) v g"

definition en_entry_timestamp :: "i64 \<Rightarrow> group_enc \<Rightarrow> panic + group_enc" where
  "en_entry_timestamp v g = ge_put put_i64_at (usize_add (ge_offset g) 16) v g"

definition en_command_key :: "i32 \<Rightarrow> group_enc \<Rightarrow> panic + group_enc" where
  "en_command_key v g = ge_put put_i32_at (usize_add (ge_offset g) 24) v g"

definition en_cmd_qty :: "i64 \<Rightarrow> group_enc \<Rightarrow> panic + group_enc" where
  "en_cmd_qty v g = ge_put put_i64_at (usize_add (ge_offset g) 28) v g"

definition en_cmd_price :: "u64 \<Rightarrow> group_enc \<Rightarrow> panic + group_enc" where
  "en_cmd_price v g = ge_put put_f64_at (usize_add (ge_offset g) 36) v g"

definition en_cmd_flag :: "u8 \<Rightarrow> group_enc \<Rightarrow> panic + group_enc" where
  "en_cmd_flag v g = ge_put put_u8_at (usize_add (ge_offset g) 44) v g"

text \<open>The text goes behind the limit, its length in front of it; it is cut at 2^32 - 2 bytes.\<close>

definition en_cmd_text :: "u8 list \<Rightarrow> group_enc \<Rightarrow> panic + group_enc" where
  "en_cmd_text v g =
     and_then (group_get_limit g) (\<lambda>lim.
     let n = min (length v) (2 ^ 32 - 2) in
     and_then (group_set_limit (usize_add (usize_add lim 4) n) g) (\<lambda>g.
     and_then (ge_put put_u32_at lim (of_nat n) g) (\<lambda>g.
     ge_put put_slice_at (usize_add lim 4) (take n v) g)))"

section \<open>The decoder\<close>

definition jd_wrap :: "u8 list \<Rightarrow> usize \<Rightarrow> u16 \<Rightarrow> u16 \<Rightarrow> bs_dec" where
  "jd_wrap buf off bl ver =
     \<lparr>d_buf = buf, d_initial_offset = off, d_offset = off, d_limit = usize_add off (unat bl),
      d_acting_block_length = bl, d_acting_version = ver\<rparr>"

definition jd_header :: "header_dec \<Rightarrow> usize \<Rightarrow> panic + bs_dec" where
  "jd_header h off =
     and_then (hd_block_length h) (\<lambda>bl.
     and_then (hd_version h) (\<lambda>ver.
     and_then (case hd_parent h of None \<Rightarrow> Inl Parent_missing | Some buf \<Rightarrow> Inr buf) (\<lambda>buf.
     Inr (jd_wrap buf (usize_add off ENCODED_LENGTH) bl ver))))"

definition jd_leadership_term_id :: "bs_dec \<Rightarrow> panic + i64" where
  "jd_leadership_term_id d = get_i64_at (d_buf d) (d_offset d)"

definition jd_log_position :: "bs_dec \<Rightarrow> panic + i64" where
  "jd_log_position d = get_i64_at (d_buf d) (usize_add (d_offset d) 8)"

definition jd_timestamp :: "bs_dec \<Rightarrow> panic + i64" where
  "jd_timestamp d = get_i64_at (d_buf d) (usize_add (d_offset d) 16)"

definition jd_cluster_session_id :: "bs_dec \<Rightarrow> panic + i64" where
  "jd_cluster_session_id d = get_i64_at (d_buf d) (usize_add (d_offset d) 24)"

definition jd_correlation_id :: "bs_dec \<Rightarrow> panic + i64" where
  "jd_correlation_id d = get_i64_at (d_buf d) (usize_add (d_offset d) 32)"

definition jd_leader_member_id :: "bs_dec \<Rightarrow> panic + i32" where
  "jd_leader_member_id d = get_i32_at (d_buf d) (usize_add (d_offset d) 40)"

definition jd_service_id :: "bs_dec \<Rightarrow> panic + i32" where
  "jd_service_id d = get_i32_at (d_buf d) (usize_add (d_offset d) 44)"

definition jd_event_type :: "bs_dec \<Rightarrow> panic + event_type" where
  "jd_event_type d =
     and_then (get_u8_at (d_buf d) (usize_add (d_offset d) 48)) (\<lambda>v. Inr (event_of_u8 v))"

definition jd_flags :: "bs_dec \<Rightarrow> panic + u8" where
  "jd_flags d = get_u8_at (d_buf d) (usize_add (d_offset d) 49)"

definition entries_decoder :: "bs_dec \<Rightarrow> panic + group_dec" where
  "entries_decoder d = group_dec_wrap d"

definition entries_count :: "group_dec \<Rightarrow> u16" where
  "entries_count g = gd_count g"

definition entries_dec_advance :: "group_dec \<Rightarrow> sbe_err + usize option \<times> group_dec" where
  "entries_dec_advance g = group_dec_advance g"

definition ed_entry_term_id :: "group_dec \<Rightarrow> panic + i64" where
  "ed_entry_term_id g = gd_get get_i64_at (gd_offset g) g"

definition ed_entry_index :: "group_dec \<Rightarrow> panic + i64" where
  "ed_entry_index g = gd_get get_i64_at (usize_add (gd_offset g) 8) g"

definition ed_entry_timestamp :: "group_dec \<Rightarrow> panic + i64" where
  "ed_entry_timestamp g = gd_get get_i64_at (usize_add (gd_offset g) 16) g"

definition ed_command_key :: "group_dec \<Rightarrow> panic + i32" where
  "ed_command_key g = gd_get get_i32_at (usize_add (gd_offset g) 24) g"

definition ed_cmd_qty :: "group_dec \<Rightarrow> panic + i64" where
  "ed_cmd_qty g = gd_get get_i64_at (usize_add (gd_offset g) 28) g"

definition ed_cmd_price :: "group_dec \<Rightarrow> panic + u64" where
  "ed_cmd_price g = gd_get get_f64_at (usize_add (gd_offset g) 36) g"

definition ed_cmd_flag :: "group_dec \<Rightarrow> panic + u8" where
  "ed_cmd_flag g = gd_get get_u8_at (usize_add (gd_offset g) 44) g"

text \<open>The coordinates of the text; the limit moves behind it.\<close>

definition ed_cmd_text_decoder :: "group_dec \<Rightarrow> panic + (usize \<times> usize) \<times> group_dec" where
  "ed_cmd_text_decoder g =
     (case gd_parent g of
        None \<Rightarrow> Inl Parent_missing
      | Some p \<Rightarrow>
          let off = d_limit p in
          and_then (get_u32_at (d_buf p) off) (\<lambda>w.
          let n = unat w in
          Inr ((usize_add off 4, n),
            g\<lparr>gd_parent := Some (p\<lparr>d_limit := usize_add (usize_add off 4) n\<rparr>)\<rparr>)))"

definition ed_cmd_text_slice :: "group_dec \<Rightarrow> usize \<times> usize \<Rightarrow> panic + u8 list" where
  "ed_cmd_text_slice g = (\<lambda>(off, n). gd_get (\<lambda>data i. get_slice_at data i n) off g)"

end
