(* ===== verification/Journal.thy ===== *)
theory Journal
  imports Journal_Sbe
begin

text \<open>
  The journal records of the serialization benchmark: the record, its deterministic builder
  and the checksum over its fields (rust/serialization/common/src/lib.rs), the SBE cell
  (rust/serialization/aeron_sbe/src/lib.rs) and the part of the harness that lays the encoded
  records out as one journal and reads them back (rust/bench-common/src/serial.rs).

  The one floating-point product is exact (53 bits times a power of two), so its bit pattern is
  computed directly. A Rust string is its bytes; \<open>utf8\<close> is the validation of \<open>from_utf8\<close>.
\<close>

section \<open>The record\<close>

record journal_entry =
  en_term_id :: i64
  en_index :: i64
  en_timestamp :: i64
  en_key :: i32
  en_qty :: i64
  en_price :: u64
  en_flag :: bool
  en_text :: "u8 list"

record journal_record =
  jr_term_id :: i64
  jr_position :: i64
  jr_time :: i64
  jr_session :: i64
  jr_correlation :: i64
  jr_leader :: i32
  jr_service :: i32
  jr_event :: u8
  jr_flag_bits :: u8
  jr_entries :: "journal_entry list"

unbundle bit_operations_syntax

definition mix :: "u64 \<Rightarrow> u64" where
  "mix x =
     (let z = x + 0x9E3779B97F4A7C15;
          z = (z XOR drop_bit 30 z) * 0xBF58476D1CE4E5B9;
          z = (z XOR drop_bit 27 z) * 0x94D049BB133111EB
      in z XOR drop_bit 31 z)"

text \<open>The f64 \<open>n as f64 * 3.0517578125e-5\<close> (the factor is 2^-15) for \<open>n\<close> below 2^53.\<close>

fun top_bit :: "nat \<Rightarrow> nat" where
  "top_bit n = (if n < 2 then 0 else Suc (top_bit (n div 2)))"

definition price_bits :: "u64 \<Rightarrow> u64" where
  "price_bits n =
     (if n = 0 then 0
      else let e = top_bit (unat n) in
        push_bit 52 (of_nat (1023 + e - 15)) OR (push_bit (52 - e) n AND mask 52))"

definition build_text :: "u64 \<Rightarrow> usize \<Rightarrow> u8 list" where
  "build_text t n = map (\<lambda>i. 0x20 + (ucast (drop_bit (i mod 8 * 8) t) :: u8) mod 95) [0..<n]"

definition build_entry :: "u64 \<Rightarrow> usize \<Rightarrow> usize \<Rightarrow> u64 \<Rightarrow> usize \<Rightarrow> journal_entry" where
  "build_entry index n text_len h k =
     (let e = mix (h XOR of_nat k * 0x100000001B3) in
      \<lparr>en_term_id = e, en_index = index * of_nat n + of_nat k, en_timestamp = mix e,
       en_key = ucast (drop_bit 32 e), en_qty = mix e,
       en_price = price_bits (drop_bit 11 (mix (e XOR 0xF0))),
       en_flag = (mix (e XOR 0x0F) AND 1 = 1), en_text = build_text (mix (e XOR 0xAA)) text_len\<rparr>)"

definition build_record :: "u64 \<Rightarrow> usize \<Rightarrow> usize \<Rightarrow> journal_record" where
  "build_record index n text_len =
     (let h = mix index in
      \<lparr>jr_term_id = h, jr_position = push_bit 8 index, jr_time = mix h, jr_session = drop_bit 16 h,
       jr_correlation = mix (h XOR 0xABCD), jr_leader = ucast (drop_bit 8 h),
       jr_service = ucast (drop_bit 24 h), jr_event = ucast (h AND 1), jr_flag_bits = ucast (drop_bit 1 h),
       jr_entries = map (build_entry index n text_len h) [0..<n]\<rparr>)"

section \<open>The checksum\<close>

definition ck_new :: u64 where
  "ck_new = 0xcbf29ce484222325"

definition ck_step :: "u64 \<Rightarrow> u64 \<Rightarrow> u64" where
  "ck_step v c = (c XOR v) * 0x100000001B3"

definition add_i64 :: "i64 \<Rightarrow> u64 \<Rightarrow> u64" where
  "add_i64 v = ck_step v"

definition add_i32 :: "i32 \<Rightarrow> u64 \<Rightarrow> u64" where
  "add_i32 v = ck_step (ucast v)"

definition add_u8 :: "u8 \<Rightarrow> u64 \<Rightarrow> u64" where
  "add_u8 v = ck_step (ucast v)"

definition add_f64 :: "u64 \<Rightarrow> u64 \<Rightarrow> u64" where
  "add_f64 bits = ck_step bits"

definition add_bool :: "bool \<Rightarrow> u64 \<Rightarrow> u64" where
  "add_bool v = ck_step (if v then 1 else 0)"

definition add_str :: "u8 list \<Rightarrow> u64 \<Rightarrow> u64" where
  "add_str b c = fold (\<lambda>x. ck_step (ucast x)) b (ck_step (of_nat (length b)) c)"

definition checksum_entry :: "journal_entry \<Rightarrow> u64 \<Rightarrow> u64" where
  "checksum_entry e c =
     add_str (en_text e) (add_bool (en_flag e) (add_f64 (en_price e) (add_i64 (en_qty e)
       (add_i32 (en_key e) (add_i64 (en_timestamp e) (add_i64 (en_index e)
         (add_i64 (en_term_id e) c)))))))"

definition checksum_record :: "journal_record \<Rightarrow> u64" where
  "checksum_record r =
     (let c = add_i64 (jr_term_id r) ck_new;
          c = add_i64 (jr_position r) c;
          c = add_i64 (jr_time r) c;
          c = add_i64 (jr_session r) c;
          c = add_i64 (jr_correlation r) c;
          c = add_i32 (jr_leader r) c;
          c = add_i32 (jr_service r) c;
          c = add_u8 (jr_event r) c;
          c = add_u8 (jr_flag_bits r) c
      in fold checksum_entry (jr_entries r) c)"

section \<open>UTF-8\<close>

definition utf8_tail :: "u8 \<Rightarrow> bool" where
  "utf8_tail b \<longleftrightarrow> 0x80 \<le> b \<and> b \<le> 0xBF"

definition utf8_2 :: "u8 \<Rightarrow> u8 \<Rightarrow> bool" where
  "utf8_2 a b \<longleftrightarrow> 0xC2 \<le> a \<and> a \<le> 0xDF \<and> utf8_tail b"

definition utf8_3 :: "u8 \<Rightarrow> u8 \<Rightarrow> u8 \<Rightarrow> bool" where
  "utf8_3 a b c \<longleftrightarrow> utf8_tail c \<and>
     (a = 0xE0 \<and> 0xA0 \<le> b \<and> b \<le> 0xBF \<or> 0xE1 \<le> a \<and> a \<le> 0xEC \<and> utf8_tail b \<or>
      a = 0xED \<and> 0x80 \<le> b \<and> b \<le> 0x9F \<or> 0xEE \<le> a \<and> a \<le> 0xEF \<and> utf8_tail b)"

definition utf8_4 :: "u8 \<Rightarrow> u8 \<Rightarrow> u8 \<Rightarrow> u8 \<Rightarrow> bool" where
  "utf8_4 a b c d \<longleftrightarrow> utf8_tail c \<and> utf8_tail d \<and>
     (a = 0xF0 \<and> 0x90 \<le> b \<and> b \<le> 0xBF \<or> 0xF1 \<le> a \<and> a \<le> 0xF3 \<and> utf8_tail b \<or>
      a = 0xF4 \<and> 0x80 \<le> b \<and> b \<le> 0x8F)"

fun utf8 :: "u8 list \<Rightarrow> bool" where
  "utf8 [] = True"
| "utf8 (a # r) =
     (if a < 0x80 then utf8 r
      else case r of
        b # c # d # r4 \<Rightarrow>
          if utf8_2 a b then utf8 (c # d # r4)
          else if utf8_3 a b c then utf8 (d # r4) else utf8_4 a b c d \<and> utf8 r4
      | [b, c] \<Rightarrow> if utf8_2 a b then utf8 [c] else utf8_3 a b c
      | [b] \<Rightarrow> utf8_2 a b
      | [] \<Rightarrow> False)"

section \<open>The SBE cell\<close>

definition JR_HEADER_LEN :: usize where "JR_HEADER_LEN = 8"

definition encode_entry :: "journal_entry \<Rightarrow> group_enc \<Rightarrow> panic + group_enc" where
  "encode_entry e g =
     and_then (expect_sbe (entries_advance g)) (\<lambda>(_, g).
     and_then (en_entry_term_id (en_term_id e) g) (\<lambda>g.
     and_then (en_entry_index (en_index e) g) (\<lambda>g.
     and_then (en_entry_timestamp (en_timestamp e) g) (\<lambda>g.
     and_then (en_command_key (en_key e) g) (\<lambda>g.
     and_then (en_cmd_qty (en_qty e) g) (\<lambda>g.
     and_then (en_cmd_price (en_price e) g) (\<lambda>g.
     and_then (en_cmd_flag (if en_flag e then 1 else 0) g) (\<lambda>g.
     en_cmd_text (en_text e) g))))))))"

definition encode_fields :: "journal_record \<Rightarrow> bs_enc \<Rightarrow> panic + usize \<times> u8 list" where
  "encode_fields r e =
     and_then (jr_leadership_term_id (jr_term_id r) e) (\<lambda>e.
     and_then (jr_log_position (jr_position r) e) (\<lambda>e.
     and_then (jr_timestamp (jr_time r) e) (\<lambda>e.
     and_then (jr_cluster_session_id (jr_session r) e) (\<lambda>e.
     and_then (jr_correlation_id (jr_correlation r) e) (\<lambda>e.
     and_then (jr_leader_member_id (jr_leader r) e) (\<lambda>e.
     and_then (jr_service_id (jr_service r) e) (\<lambda>e.
     and_then (jr_event_type (event_of_u8 (jr_event r)) e) (\<lambda>e.
     and_then (jr_flags (jr_flag_bits r) e) (\<lambda>e.
     and_then (entries_encoder e (of_nat (length (jr_entries r)))) (\<lambda>g.
     and_then (try_fold encode_entry (jr_entries r) g) (\<lambda>g.
     and_then (group_get_limit g) (\<lambda>n.
     and_then (expect_sbe (group_parent g)) (\<lambda>e.
     Inr (n, e_buf e))))))))))))))"

definition journal_encode :: "journal_record \<Rightarrow> u8 list \<Rightarrow> panic + usize \<times> u8 list" where
  "journal_encode r buf =
     and_then (jr_header (jr_wrap buf JR_HEADER_LEN) 0) (\<lambda>h.
     and_then (expect_sbe (h_parent h)) (\<lambda>e.
     encode_fields r e))"

definition journal_encode_body :: "journal_record \<Rightarrow> u8 list \<Rightarrow> panic + usize \<times> u8 list" where
  "journal_encode_body r buf = encode_fields r (jr_wrap buf 0)"

text \<open>One entry read into the checksum; a text that is not UTF-8 counts as empty.\<close>

definition decode_entry ::
  "group_dec \<times> u64 \<Rightarrow> panic + group_dec \<times> u64" where
  "decode_entry = (\<lambda>(g, c).
     and_then (expect_sbe (entries_dec_advance g)) (\<lambda>(i, g).
     and_then (expect_some Entry_missing i) (\<lambda>_.
     and_then (ed_entry_term_id g) (\<lambda>v. let c = add_i64 v c in
     and_then (ed_entry_index g) (\<lambda>v. let c = add_i64 v c in
     and_then (ed_entry_timestamp g) (\<lambda>v. let c = add_i64 v c in
     and_then (ed_command_key g) (\<lambda>v. let c = add_i32 v c in
     and_then (ed_cmd_qty g) (\<lambda>v. let c = add_i64 v c in
     and_then (ed_cmd_price g) (\<lambda>v. let c = add_f64 v c in
     and_then (ed_cmd_flag g) (\<lambda>v. let c = add_bool (v \<noteq> 0) c in
     and_then (ed_cmd_text_decoder g) (\<lambda>(coords, g).
     and_then (ed_cmd_text_slice g coords) (\<lambda>bs.
     Inr (g, add_str (if utf8 bs then bs else []) c)))))))))))))"

definition decode_checksum :: "u8 list \<Rightarrow> panic + u64" where
  "decode_checksum bytes =
     and_then (jd_header (hd_wrap bytes 0) 0) (\<lambda>d.
     and_then (jd_leadership_term_id d) (\<lambda>v. let c = add_i64 v ck_new in
     and_then (jd_log_position d) (\<lambda>v. let c = add_i64 v c in
     and_then (jd_timestamp d) (\<lambda>v. let c = add_i64 v c in
     and_then (jd_cluster_session_id d) (\<lambda>v. let c = add_i64 v c in
     and_then (jd_correlation_id d) (\<lambda>v. let c = add_i64 v c in
     and_then (jd_leader_member_id d) (\<lambda>v. let c = add_i32 v c in
     and_then (jd_service_id d) (\<lambda>v. let c = add_i32 v c in
     and_then (jd_event_type d) (\<lambda>v. let c = add_u8 (u8_of_event v) c in
     and_then (jd_flags d) (\<lambda>v. let c = add_u8 v c in
     and_then (entries_decoder d) (\<lambda>g.
     and_then (try_iter decode_entry (unat (entries_count g)) (g, c)) (\<lambda>(_, c).
     Inr c))))))))))))"

section \<open>The journal in memory\<close>

text \<open>
  The harness appends every encoded record to one buffer and remembers where it starts; the
  scratch buffer is reused from record to record.
\<close>

definition lay_out ::
  "('r \<Rightarrow> u8 list \<Rightarrow> panic + usize \<times> u8 list) \<Rightarrow> 'r \<Rightarrow>
   u8 list \<times> u8 list \<times> (usize \<times> usize) list \<Rightarrow>
   panic + u8 list \<times> u8 list \<times> (usize \<times> usize) list" where
  "lay_out enc r = (\<lambda>(scratch, journal, frames).
     let start = length journal in
     and_then (enc r scratch) (\<lambda>(n, scratch).
     and_then (get_slice_at scratch 0 n) (\<lambda>bytes.
     Inr (scratch, journal @ bytes, frames @ [(start, n)]))))"

definition SCRATCH_LEN :: usize where "SCRATCH_LEN = 64 * 1024"

definition replay ::
  "(u8 list \<Rightarrow> panic + u64) \<Rightarrow> u8 list \<Rightarrow> (usize \<times> usize) list \<Rightarrow> panic + u64 list" where
  "replay dec journal frames =
     try_fold (\<lambda>(off, n) sums. and_then (get_slice_at journal off n) (\<lambda>bytes.
       and_then (dec bytes) (\<lambda>sum. Inr (sums @ [sum])))) frames []"

text \<open>The timed part of \<open>run_journal\<close>: encode every record, lay them out, decode every frame.\<close>

definition run_journal ::
  "usize \<Rightarrow> usize \<Rightarrow> (u64 \<Rightarrow> 'r) \<Rightarrow> ('r \<Rightarrow> u8 list \<Rightarrow> panic + usize \<times> u8 list) \<Rightarrow>
   (u8 list \<Rightarrow> panic + u64) \<Rightarrow> panic + usize \<times> u64 list" where
  "run_journal warmup n build enc dec =
     (let records = map (\<lambda>i. build (of_nat i)) [0..<usize_add warmup n];
          warm = try_fold (\<lambda>r (_, scratch). enc r scratch);
          timed = try_fold (\<lambda>r (_, scratch). and_then (enc r scratch) (\<lambda>(k, scratch).
            and_then (get_slice_at scratch 0 k) (\<lambda>_. Inr (k, scratch)))) in
      and_then (warm (take warmup records) (0, replicate SCRATCH_LEN 0)) (\<lambda>p.
      and_then (timed (drop warmup records) p) (\<lambda>(record_len, scratch).
      and_then (try_fold (lay_out enc) (drop warmup records) (scratch, [], [])) (\<lambda>(_, journal, frames).
      and_then (replay dec journal (take (min warmup (length frames)) frames)) (\<lambda>_.
      and_then (replay dec journal frames) (\<lambda>sums.
      Inr (record_len, sums)))))))"

section \<open>What the builder produces\<close>

lemma utf8_ascii: "list_all (\<lambda>b. b < 0x80) bs \<Longrightarrow> utf8 bs"
  by (induction bs) simp_all

lemma build_text_ascii: "list_all (\<lambda>b. b < 0x80) (build_text t n)"
proof -
  have "0x20 + (w :: u8) mod 95 < 0x80" for w
  proof -
    have "unat (w mod 95) < 95" by (simp add: unat_mod)
    then show ?thesis by (simp add: word_less_nat_alt unat_word_ariths(1) mod_less)
  qed
  then show ?thesis by (simp add: build_text_def list_all_iff)
qed

end
