(* ===== verification/Journal_Round.thy ===== *)
theory Journal_Round
  imports Journal Snapshot_Dec
begin

text \<open>
  What the SBE cell writes for a record, and that decoding it visits every field with its
  value: the checksum over the decoded bytes is the one over the record.
\<close>

section \<open>The bytes of a record\<close>

definition entry_block :: "journal_entry \<Rightarrow> u8 list" where
  "entry_block e =
     le_bytes 8 (unat (en_term_id e)) @ le_bytes 8 (unat (en_index e)) @ le_bytes 8 (unat (en_timestamp e)) @
     le_bytes 4 (unat (en_key e)) @ le_bytes 8 (unat (en_qty e)) @ le_bytes 8 (unat (en_price e)) @
     [if en_flag e then 1 else 0]"

definition text_bytes :: "u8 list \<Rightarrow> u8 list" where
  "text_bytes bs = le_bytes 4 (unat (of_nat (length bs) :: u32)) @ bs"

definition entry_bytes :: "journal_entry \<Rightarrow> u8 list" where
  "entry_bytes e = entry_block e @ text_bytes (en_text e)"

definition jr_header_bytes :: "u8 list" where
  "jr_header_bytes = le_bytes 2 50 @ le_bytes 2 1 @ le_bytes 2 7 @ le_bytes 2 1"

definition jr_root_bytes :: "journal_record \<Rightarrow> u8 list" where
  "jr_root_bytes r =
     le_bytes 8 (unat (jr_term_id r)) @ le_bytes 8 (unat (jr_position r)) @ le_bytes 8 (unat (jr_time r)) @
     le_bytes 8 (unat (jr_session r)) @ le_bytes 8 (unat (jr_correlation r)) @
     le_bytes 4 (unat (jr_leader r)) @ le_bytes 4 (unat (jr_service r)) @
     [u8_of_event (event_of_u8 (jr_event r)), jr_flag_bits r]"

definition body_bytes :: "journal_record \<Rightarrow> u8 list" where
  "body_bytes r = jr_root_bytes r @ group_bytes ENTRIES_BLOCK (of_nat (length (jr_entries r))) @
     concat (map entry_bytes (jr_entries r))"

text \<open>The records the format can hold: the counts fit their fields.\<close>

definition entry_fits :: "journal_entry \<Rightarrow> bool" where
  "entry_fits e \<longleftrightarrow> length (en_text e) < 2 ^ 32 - 1"

definition record_fits :: "journal_record \<Rightarrow> bool" where
  "record_fits r \<longleftrightarrow> length (jr_entries r) < 65536 \<and> list_all entry_fits (jr_entries r)"

lemma length_entry [simp]:
  "length (entry_block e) = 45" "length (text_bytes bs) = 4 + length bs"
  "length (entry_bytes e) = 49 + length (en_text e)" "length jr_header_bytes = 8"
  "length (jr_root_bytes r) = 50" "unat ENTRIES_BLOCK = 45" "unat JR_BLOCK_LENGTH = 50"
  by (simp_all add: entry_block_def text_bytes_def entry_bytes_def jr_header_bytes_def jr_root_bytes_def
      ENTRIES_BLOCK_def JR_BLOCK_LENGTH_def)

section \<open>Encoding\<close>

lemma put_entry_fields:
  assumes p: "ge_parent g = Some p" and off: "ge_offset g + 45 \<le> length (e_buf p)"
    and len: "length (e_buf p) < 2 ^ 64"
  shows "and_then (en_entry_term_id (en_term_id e) g) (\<lambda>g. and_then (en_entry_index (en_index e) g) (\<lambda>g.
      and_then (en_entry_timestamp (en_timestamp e) g) (\<lambda>g. and_then (en_command_key (en_key e) g) (\<lambda>g.
      and_then (en_cmd_qty (en_qty e) g) (\<lambda>g. and_then (en_cmd_price (en_price e) g) (\<lambda>g.
      and_then (en_cmd_flag (if en_flag e then 1 else 0) g) f)))))) =
    f (g\<lparr>ge_parent := Some (p\<lparr>e_buf := take (ge_offset g) (e_buf p) @ entry_block e @
      drop (ge_offset g + 45) (e_buf p)\<rparr>)\<rparr>)"
proof -
  have add: "usize_add (ge_offset g) k = ge_offset g + k" if "k \<le> 45" for k
    using that off len by simp
  have "put_bytes_at (e_buf p) (ge_offset g) (entry_block e) =
      Inr (take (ge_offset g) (e_buf p) @ entry_block e @ drop (ge_offset g + 45) (e_buf p))"
    using put_block [of "ge_offset g" "entry_block e" "e_buf p"] off len by simp
  then show ?thesis
    using p off len
    by (simp add: en_entry_term_id_def en_entry_index_def en_entry_timestamp_def en_command_key_def
        en_cmd_qty_def en_cmd_price_def en_cmd_flag_def ge_put_def e_put_def and_then_assoc add put_u8_bytes
        put_i32_at_def put_i64_at_def put_f64_at_def put_chain entry_block_def)
qed

lemma put_text:
  assumes p: "ge_parent g = Some p" and lim: "e_limit p = length pre" and buf: "e_buf p = pre @ rest"
    and room: "4 + length bs \<le> length rest" "length pre + length rest < 2 ^ 64" and len: "length bs < 2 ^ 32 - 1"
  shows "en_cmd_text bs g = Inr (g\<lparr>ge_parent := Some (p\<lparr>e_limit := length pre + 4 + length bs,
    e_buf := pre @ text_bytes bs @ drop (4 + length bs) rest\<rparr>)\<rparr>)"
proof -
  have n: "min (length bs) (2 ^ 32 - 2) = length bs" using len by simp
  have add: "usize_add (length pre) 4 = length pre + 4" "usize_add (length pre + 4) (length bs) = length pre + 4 + length bs"
    using room by simp_all
  have "put_bytes_at (pre @ rest) (length pre) (le_bytes 4 (unat (of_nat (length bs) :: u32))) =
      Inr (pre @ le_bytes 4 (unat (of_nat (length bs) :: u32)) @ drop 4 rest)"
    using put_block [of "length pre" "le_bytes 4 (unat (of_nat (length bs) :: u32))" "pre @ rest"] room by simp
  moreover have "put_slice_at (pre @ le_bytes 4 (unat (of_nat (length bs) :: u32)) @ drop 4 rest) (length pre + 4) bs =
      Inr (pre @ text_bytes bs @ drop (4 + length bs) rest)"
    using room by (simp add: put_slice_at_def text_bytes_def add.commute del: unat_of_nat)
  ultimately show ?thesis
    using p lim buf unfolding en_cmd_text_def n
    by (simp add: group_get_limit_def group_set_limit_def ge_put_def e_put_def put_u32_at_def add Let_def
        del: unat_of_nat)
qed

lemma encode_entry_run:
  assumes at: "group_at g pre N n k" and k: "k < n" and fits: "entry_fits e"
    and room: "length pre + length (entry_bytes e) \<le> N" "N < 2 ^ 64"
  shows "\<exists>g'. encode_entry e g = Inr g' \<and> group_at g' (pre @ entry_bytes e) N n (Suc k)"
proof -
  obtain p rest where adv: "group_advance ENTRIES_BLOCK g = Inr (Some k, g\<lparr>ge_offset := length pre,
      ge_index := k, ge_parent := Some (p\<lparr>e_limit := length pre + 45\<rparr>)\<rparr>)"
    and buf: "e_buf p = pre @ rest" "length (pre @ rest) = N"
    using group_advance_run [OF at k, of ENTRIES_BLOCK] room by auto
  let ?g = "g\<lparr>ge_offset := length pre, ge_index := k, ge_parent := Some (p\<lparr>e_limit := length pre + 45\<rparr>)\<rparr>"
  let ?p1 = "p\<lparr>e_limit := length pre + 45, e_buf := pre @ entry_block e @ drop 45 rest\<rparr>"
  let ?g2 = "?g\<lparr>ge_parent := Some (p\<lparr>e_limit := length pre + 45 + 4 + length (en_text e),
      e_buf := (pre @ entry_block e) @ text_bytes (en_text e) @ drop (4 + length (en_text e)) (drop 45 rest)\<rparr>)\<rparr>"
  have n: "n < 2 ^ 16" using at unsigned_less [of "ge_count g", where 'a = nat] by (simp add: group_at_def)
  have "encode_entry e g = en_cmd_text (en_text e) (?g\<lparr>ge_parent := Some ?p1\<rparr>)"
    using put_entry_fields [of ?g "p\<lparr>e_limit := length pre + 45\<rparr>" e "en_cmd_text (en_text e)"] buf room
    by (simp add: encode_entry_def entries_advance_def adv)
  also have "\<dots> = Inr ?g2"
    using put_text [of "?g\<lparr>ge_parent := Some ?p1\<rparr>" ?p1 "pre @ entry_block e" "drop 45 rest" "en_text e"]
      buf room fits by (simp add: entry_fits_def)
  finally have "encode_entry e g = Inr ?g2" .
  moreover have "group_at ?g2 (pre @ entry_bytes e) N n (Suc k)"
    using at buf room k n by (auto simp: group_at_def entry_bytes_def)
  ultimately show ?thesis by blast
qed

lemma encode_entries_run:
  assumes "group_at g pre N n k" and "k + length es \<le> n" and "list_all entry_fits es"
    and "length pre + length (concat (map entry_bytes es)) \<le> N" and "N < 2 ^ 64"
  shows "\<exists>g'. try_fold encode_entry es g = Inr g' \<and>
    group_at g' (pre @ concat (map entry_bytes es)) N n (k + length es)"
  using assms
proof (induction es arbitrary: g pre k)
  case Nil
  then show ?case by simp
next
  case (Cons e es)
  have "k < n" "entry_fits e" "length pre + length (entry_bytes e) \<le> N" using Cons.prems(2-4) by simp_all
  from encode_entry_run [OF Cons.prems(1) this Cons.prems(5)] obtain g1 where
    g1: "encode_entry e g = Inr g1" "group_at g1 (pre @ entry_bytes e) N n (Suc k)" by blast
  have "\<exists>g'. try_fold encode_entry es g1 = Inr g' \<and>
      group_at g' ((pre @ entry_bytes e) @ concat (map entry_bytes es)) N n (Suc k + length es)"
    by (rule Cons.IH [OF g1(2)]) (use Cons.prems in simp_all)
  then show ?case using g1(1) by auto
qed

lemma encode_fields_run:
  assumes e: "e_buf e = pre @ rest" "e_offset e = length pre" "e_limit e = length pre + 50"
    and fits: "record_fits r" and room: "length pre + length (body_bytes r) \<le> length (pre @ rest)"
      "length (pre @ rest) < 2 ^ 64"
  shows "\<exists>buf'. encode_fields r e = Inr (length pre + length (body_bytes r), buf') \<and>
    length buf' = length (pre @ rest) \<and>
    take (length pre + length (body_bytes r)) buf' = pre @ body_bytes r"
proof -
  let ?N = "length (pre @ rest)" and ?n = "length (jr_entries r)"
  let ?d = "pre @ jr_root_bytes r @ drop 50 rest"
  let ?pre1 = "pre @ jr_root_bytes r"
  let ?pre2 = "?pre1 @ group_bytes ENTRIES_BLOCK (of_nat ?n)"
  have blen: "length (body_bytes r) = 54 + length (concat (map entry_bytes (jr_entries r)))"
    by (simp add: body_bytes_def)
  have add: "usize_add (length pre) k = length pre + k" if "k \<le> 50" for k
    using that room blen by simp
  have "put_bytes_at (pre @ rest) (length pre) (jr_root_bytes r) = Inr ?d"
    using put_block [of "length pre" "jr_root_bytes r" "pre @ rest"] room blen by simp
  then have root: "encode_fields r e =
     and_then (entries_encoder (e\<lparr>e_buf := ?d\<rparr>) (of_nat ?n)) (\<lambda>g.
     and_then (try_fold encode_entry (jr_entries r) g) (\<lambda>g.
     and_then (group_get_limit g) (\<lambda>n.
     and_then (expect_sbe (group_parent g)) (\<lambda>e. Inr (n, e_buf e)))))"
    using e room blen
    by (simp add: encode_fields_def jr_leadership_term_id_def jr_log_position_def jr_timestamp_def
        jr_cluster_session_id_def jr_correlation_id_def jr_leader_member_id_def jr_service_id_def
        jr_event_type_def jr_flags_def e_put_def and_then_assoc add put_u8_bytes put_i32_at_def
        put_i64_at_def put_chain jr_root_bytes_def)
  have n: "unat (of_nat ?n :: u16) = ?n" using fits by (intro unat_of_nat_u16) (simp add: record_fits_def)
  have buf: "e_buf (e\<lparr>e_buf := ?d\<rparr>) = ?pre1 @ drop 50 rest" "e_limit (e\<lparr>e_buf := ?d\<rparr>) = length ?pre1"
    and len: "length (?pre1 @ drop 50 rest) = ?N" "length ?pre1 + 4 \<le> ?N"
    using e room blen by simp_all
  obtain g0 where g0: "entries_encoder (e\<lparr>e_buf := ?d\<rparr>) (of_nat ?n) = Inr g0" "group_at g0 ?pre2 ?N ?n 0"
    using group_wrap_run [OF buf len room(2), of ENTRIES_BLOCK "of_nat ?n"] unfolding entries_encoder_def n by blast
  have len2: "length ?pre2 + length (concat (map entry_bytes (jr_entries r))) \<le> ?N"
    using room blen by simp
  have all: "list_all entry_fits (jr_entries r)" using fits by (simp add: record_fits_def)
  obtain g1 where g1: "try_fold encode_entry (jr_entries r) g0 = Inr g1"
    "group_at g1 (?pre2 @ concat (map entry_bytes (jr_entries r))) ?N ?n (0 + ?n)"
    using encode_entries_run [OF g0(2) _ all len2 room(2)] by auto
  have bytes: "?pre2 @ concat (map entry_bytes (jr_entries r)) = pre @ body_bytes r"
    by (simp add: body_bytes_def)
  obtain p rest' where p: "ge_parent g1 = Some p" "e_buf p = (pre @ body_bytes r) @ rest'"
    "length ((pre @ body_bytes r) @ rest') = ?N" "e_limit p = length (pre @ body_bytes r)"
    using g1(2) unfolding bytes group_at_def by blast
  show ?thesis
    unfolding root g0(1) using g1(1) p by (simp add: group_get_limit_def group_parent_def)
qed

lemma journal_encode_run:
  assumes fits: "record_fits r" and room: "8 + length (body_bytes r) \<le> length buf" "length buf < 2 ^ 64"
  shows "\<exists>buf'. journal_encode r buf = Inr (8 + length (body_bytes r), buf') \<and> length buf' = length buf \<and>
    take (8 + length (body_bytes r)) buf' = jr_header_bytes @ body_bytes r"
proof -
  let ?e = "\<lambda>d. \<lparr>e_buf = d, e_initial_offset = 8, e_offset = 8, e_limit = 58\<rparr> :: bs_enc"
  let ?d = "jr_header_bytes @ drop 8 buf"
  have w: "jr_wrap buf JR_HEADER_LEN = ?e buf" by (simp add: jr_wrap_def JR_HEADER_LEN_def)
  have "put_bytes_at buf 0 jr_header_bytes = Inr ?d"
    using put_block [of 0 jr_header_bytes buf] room by simp
  then have "jr_header (?e buf) 0 = Inr \<lparr>he_parent = Some (?e ?d), he_offset = 0\<rparr>"
    using room
    by (simp add: jr_header_def h_wrap_def h_block_length_def h_template_id_def h_schema_id_def
        h_version_def he_put_def e_put_def and_then_assoc put_u16_at_def put_chain jr_header_bytes_def
        JR_BLOCK_LENGTH_def JR_TEMPLATE_ID_def JR_SCHEMA_ID_def JR_SCHEMA_VERSION_def)
  then have enc: "journal_encode r buf = encode_fields r (?e ?d)"
    by (simp add: journal_encode_def w h_parent_def)
  have "length ?d = length buf" using room by simp
  moreover have "\<exists>buf'. encode_fields r (?e ?d) = Inr (length jr_header_bytes + length (body_bytes r), buf') \<and>
    length buf' = length ?d \<and> take (length jr_header_bytes + length (body_bytes r)) buf' = jr_header_bytes @ body_bytes r"
    by (rule encode_fields_run [OF _ _ _ fits]) (use room in simp_all)
  ultimately show ?thesis unfolding enc by simp
qed

section \<open>Decoding\<close>

lemma get_f64_take:
  "take 8 (drop i data) = le_bytes 8 (unat v) \<Longrightarrow> i + 8 \<le> length data \<Longrightarrow> length data < 2 ^ 64 \<Longrightarrow>
   get_f64_at data i = Inr v"
  unfolding get_f64_at_def by (subst get_field) (simp_all only: of_nat_le_value_u64 and_then.simps)

lemma decode_entry_next_row:
  "decode_entry (g, c) = and_then (next_row g) (\<lambda>g.
     and_then (ed_entry_term_id g) (\<lambda>v. let c = add_i64 v c in
     and_then (ed_entry_index g) (\<lambda>v. let c = add_i64 v c in
     and_then (ed_entry_timestamp g) (\<lambda>v. let c = add_i64 v c in
     and_then (ed_command_key g) (\<lambda>v. let c = add_i32 v c in
     and_then (ed_cmd_qty g) (\<lambda>v. let c = add_i64 v c in
     and_then (ed_cmd_price g) (\<lambda>v. let c = add_f64 v c in
     and_then (ed_cmd_flag g) (\<lambda>v. let c = add_bool (v \<noteq> 0) c in
     and_then (ed_cmd_text_decoder g) (\<lambda>(coords, g).
     and_then (ed_cmd_text_slice g coords) (\<lambda>bs.
     Inr (g, add_str (if utf8 bs then bs else []) c)))))))))))"
  by (simp add: decode_entry_def next_row_def entries_dec_advance_def and_then_assoc split_def)

lemma decode_entry_run:
  assumes at: "dec_at g (pre @ entry_bytes e @ post) (length pre) 45 n k" and k: "k < n"
    and len: "length (pre @ entry_bytes e @ post) < 2 ^ 64"
    and fits: "entry_fits e" and utf8: "utf8 (en_text e)"
  shows "\<exists>g'. decode_entry (g, c) = Inr (g', checksum_entry e c) \<and>
    dec_at g' (pre @ entry_bytes e @ post) (length (pre @ entry_bytes e)) 45 n (Suc k)"
proof -
  let ?D = "pre @ entry_bytes e @ post" and ?p = "length pre" and ?t = "length (en_text e)"
  have L: "?p + 49 + ?t + length post < 2 ^ 64" using len by simp
  obtain g1 where g1: "next_row g = Inr g1" "gd_offset g1 = ?p" "dec_at g1 ?D (?p + 45) 45 n (Suc k)"
    using next_row_run [OF at k] L by auto
  then obtain d where d: "gd_parent g1 = Some d" "d_buf d = ?D" "d_limit d = ?p + 45"
    by (auto simp: dec_at_def)
  have add: "usize_add ?p k = ?p + k" if "k \<le> 45" for k using that L by simp
  have add': "usize_add (?p + 45) 4 = ?p + 49" "usize_add (?p + 49) ?t = ?p + 49 + ?t" using L by simp_all
  have t: "unat (of_nat ?t :: u32) = ?t" using fits by (simp add: entry_fits_def unat_of_nat)
  have fields: "get_i64_at ?D ?p = Inr (en_term_id e)" "get_i64_at ?D (?p + 8) = Inr (en_index e)"
    "get_i64_at ?D (?p + 16) = Inr (en_timestamp e)" "get_i32_at ?D (?p + 24) = Inr (en_key e)"
    "get_i64_at ?D (?p + 28) = Inr (en_qty e)" "get_f64_at ?D (?p + 36) = Inr (en_price e)"
    using L by (auto intro!: get_take get_f64_take simp: entry_bytes_def entry_block_def text_bytes_def
        simp del: unat_of_nat)
  have flag: "get_u8_at ?D (?p + 44) = Inr (if en_flag e then 1 else 0)"
    by (simp add: get_u8_at_def idx_simps entry_bytes_def entry_block_def nth_append)
  have len32: "get_u32_at ?D (?p + 45) = Inr (of_nat ?t)"
    using L by (intro get_take) (auto simp: entry_bytes_def text_bytes_def simp del: unat_of_nat)
  have slice: "get_slice_at ?D (?p + 49) ?t = Inr (en_text e)"
    using L by (simp add: get_slice_at_def add' Let_def entry_bytes_def text_bytes_def)
  let ?g = "g1\<lparr>gd_parent := Some (d\<lparr>d_limit := ?p + 49 + ?t\<rparr>)\<rparr>"
  have "decode_entry (g, c) = Inr (?g, checksum_entry e c)"
    unfolding decode_entry_next_row g1(1)
    using d fields flag len32 slice utf8 g1(2)
    by (simp add: ed_entry_term_id_def ed_entry_index_def ed_entry_timestamp_def ed_command_key_def
        ed_cmd_qty_def ed_cmd_price_def ed_cmd_flag_def ed_cmd_text_decoder_def ed_cmd_text_slice_def
        gd_get_def add add' t Let_def checksum_entry_def del: unat_of_nat)
  moreover have "dec_at ?g ?D (length (pre @ entry_bytes e)) 45 n (Suc k)"
    using g1(3) d by (auto simp: dec_at_def)
  ultimately show ?thesis by blast
qed

lemma decode_entries_run:
  assumes "dec_at g (pre @ concat (map entry_bytes es)) (length pre) 45 n k"
    and "k + length es \<le> n" and "length (pre @ concat (map entry_bytes es)) < 2 ^ 64"
    and "list_all entry_fits es" and "\<And>e. e \<in> set es \<Longrightarrow> utf8 (en_text e)"
  shows "\<exists>g'. try_iter decode_entry (length es) (g, c) = Inr (g', fold checksum_entry es c)"
  using assms
proof (induction es arbitrary: g pre k c)
  case Nil
  then show ?case by simp
next
  case (Cons e es)
  let ?rest = "concat (map entry_bytes es)"
  obtain g1 where g1: "decode_entry (g, c) = Inr (g1, checksum_entry e c)"
    "dec_at g1 (pre @ entry_bytes e @ ?rest) (length (pre @ entry_bytes e)) 45 n (Suc k)"
    using decode_entry_run [of g pre e ?rest n k c] Cons.prems by auto
  have "\<exists>g'. try_iter decode_entry (length es) (g1, checksum_entry e c) =
      Inr (g', fold checksum_entry es (checksum_entry e c))"
    by (rule Cons.IH [of _ "pre @ entry_bytes e" "Suc k"]) (use Cons.prems g1(2) in simp_all)
  with g1(1) show ?case by simp
qed

definition record_texts_utf8 :: "journal_record \<Rightarrow> bool" where
  "record_texts_utf8 r \<longleftrightarrow> list_all (\<lambda>e. utf8 (en_text e)) (jr_entries r)"

definition event_known :: "journal_record \<Rightarrow> bool" where
  "event_known r \<longleftrightarrow> jr_event r = 0 \<or> jr_event r = 1 \<or> jr_event r = 255"

lemma decode_checksum_run:
  assumes fits: "record_fits r" and utf8: "record_texts_utf8 r" and ev: "event_known r"
    and len: "8 + length (body_bytes r) < 2 ^ 64"
  shows "decode_checksum (jr_header_bytes @ body_bytes r) = Inr (checksum_record r)"
proof -
  let ?es = "concat (map entry_bytes (jr_entries r))" and ?n = "of_nat (length (jr_entries r)) :: u16"
  let ?D = "jr_header_bytes @ body_bytes r"
  let ?pre = "jr_header_bytes @ jr_root_bytes r"
  have D: "?D = ?pre @ group_bytes ENTRIES_BLOCK ?n @ ?es" by (simp add: body_bytes_def)
  have L: "length ?D < 2 ^ 64" "length ?es + 62 < 2 ^ 64" using len by (simp_all add: body_bytes_def)
  let ?d = "\<lparr>d_buf = ?D, d_initial_offset = 8, d_offset = 8, d_limit = 58,
    d_acting_block_length = 50, d_acting_version = 1\<rparr> :: bs_dec"
  have h: "get_u16_at ?D 0 = Inr 50" "get_u16_at ?D 6 = Inr 1"
    using L by (auto intro!: get_take simp: jr_header_bytes_def body_bytes_def)
  then have head: "jd_header (hd_wrap ?D 0) 0 = Inr ?d"
    by (simp add: jd_header_def hd_wrap_def hd_block_length_def hd_version_def hd_get_def jd_wrap_def
        ENCODED_LENGTH_def)
  have fields: "get_i64_at ?D 8 = Inr (jr_term_id r)" "get_i64_at ?D 16 = Inr (jr_position r)"
    "get_i64_at ?D 24 = Inr (jr_time r)" "get_i64_at ?D 32 = Inr (jr_session r)"
    "get_i64_at ?D 40 = Inr (jr_correlation r)" "get_i32_at ?D 48 = Inr (jr_leader r)"
    "get_i32_at ?D 52 = Inr (jr_service r)"
    using L by (auto intro!: get_take simp: jr_header_bytes_def body_bytes_def jr_root_bytes_def)
  have u8: "get_u8_at ?D 56 = Inr (u8_of_event (event_of_u8 (jr_event r)))" "get_u8_at ?D 57 = Inr (jr_flag_bits r)"
    by (simp_all add: get_u8_at_def idx_simps body_bytes_def jr_root_bytes_def nth_append)
  have event: "u8_of_event (event_of_u8 (u8_of_event (event_of_u8 (jr_event r)))) = jr_event r"
    using ev by (auto simp: event_known_def event_of_u8_def)
  have n: "unat ?n = length (jr_entries r)" using fits by (intro unat_of_nat_u16) (simp add: record_fits_def)
  obtain g where g: "group_dec_wrap ?d = Inr g" "gd_count g = ?n"
    "dec_at g (?pre @ group_bytes ENTRIES_BLOCK ?n @ ?es) (length ?pre + 4) 45 (length (jr_entries r)) 0"
    using group_dec_wrap_run [of ?d ?pre ENTRIES_BLOCK ?n ?es] L D n by auto
  have at: "dec_at g ((?pre @ group_bytes ENTRIES_BLOCK ?n) @ ?es)
      (length (?pre @ group_bytes ENTRIES_BLOCK ?n)) 45 (length (jr_entries r)) 0"
    using g(3) by simp
  have entries: "\<exists>g'. try_iter decode_entry (length (jr_entries r)) (g, c) =
      Inr (g', fold checksum_entry (jr_entries r) c)" for c
    by (rule decode_entries_run [OF at]) (use fits utf8 L in \<open>auto simp: record_fits_def record_texts_utf8_def list_all_iff\<close>)
  show ?thesis
    using entries unfolding decode_checksum_def head
    by (auto simp: jd_leadership_term_id_def jd_log_position_def jd_timestamp_def jd_cluster_session_id_def
        jd_correlation_id_def jd_leader_member_id_def jd_service_id_def jd_event_type_def jd_flags_def
        fields u8 event g(1,2) n entries_decoder_def entries_count_def Let_def checksum_record_def
        simp del: unat_of_nat)
qed

end
