(* ===== verification/Journal_Run.thy ===== *)
theory Journal_Run
  imports Journal_Round
begin

text \<open>
  The write/replay harness over any codec: its contract is a locale, the run over it is proved
  once, and the SBE cell provides it for the records the format can hold.
\<close>

locale record_codec =
  fixes enc :: "'r \<Rightarrow> u8 list \<Rightarrow> panic + usize \<times> u8 list"
    and dec :: "u8 list \<Rightarrow> panic + u64"
    and ok :: "'r \<Rightarrow> bool" and size_of :: "'r \<Rightarrow> nat" and sum_of :: "'r \<Rightarrow> u64"
  assumes round_trip: "ok r \<Longrightarrow> size_of r \<le> length buf \<Longrightarrow> length buf < 2 ^ 64 \<Longrightarrow>
    \<exists>buf'. enc r buf = Inr (size_of r, buf') \<and> length buf' = length buf \<and>
      dec (take (size_of r) buf') = Inr (sum_of r)"
begin

definition holds :: "'r \<Rightarrow> bool" where
  "holds r \<longleftrightarrow> ok r \<and> size_of r \<le> SCRATCH_LEN"

text \<open>\<open>readable journal frames rs\<close>: every frame lies in the journal and decodes to its record.\<close>

definition readable :: "u8 list \<Rightarrow> (usize \<times> usize) list \<Rightarrow> 'r list \<Rightarrow> bool" where
  "readable journal = list_all2 (\<lambda>(off, n) r. off + n \<le> length journal \<and>
     dec (take n (drop off journal)) = Inr (sum_of r))"

lemma enc_step:
  assumes "holds r" and "length buf = SCRATCH_LEN"
  obtains buf' where "enc r buf = Inr (size_of r, buf')" "length buf' = SCRATCH_LEN"
    "dec (take (size_of r) buf') = Inr (sum_of r)" "get_slice_at buf' 0 (size_of r) = Inr (take (size_of r) buf')"
proof -
  obtain buf' where b: "enc r buf = Inr (size_of r, buf')" "length buf' = length buf"
    "dec (take (size_of r) buf') = Inr (sum_of r)"
    using round_trip [of r buf] assms by (auto simp: holds_def SCRATCH_LEN_def)
  moreover have "get_slice_at buf' 0 (size_of r) = Inr (take (size_of r) buf')"
    using assms b(2) by (simp add: get_slice_at_def usize_add_def holds_def SCRATCH_LEN_def)
  ultimately show ?thesis using that assms(2) by simp
qed

lemma encode_all_run:
  assumes "list_all holds rs" and "length buf = SCRATCH_LEN"
  shows "\<exists>buf'. try_fold (\<lambda>r (_, scratch). enc r scratch) rs (k, buf) =
      Inr (if rs = [] then k else size_of (last rs), buf') \<and> length buf' = SCRATCH_LEN"
    and "\<exists>buf'. try_fold (\<lambda>r (_, scratch). and_then (enc r scratch) (\<lambda>(k, scratch).
        and_then (get_slice_at scratch 0 k) (\<lambda>_. Inr (k, scratch)))) rs (k, buf) =
      Inr (if rs = [] then k else size_of (last rs), buf') \<and> length buf' = SCRATCH_LEN"
proof -
  show "\<exists>buf'. try_fold (\<lambda>r (_, scratch). enc r scratch) rs (k, buf) =
      Inr (if rs = [] then k else size_of (last rs), buf') \<and> length buf' = SCRATCH_LEN"
    using assms
  proof (induction rs arbitrary: k buf)
    case (Cons r rs)
    obtain buf1 where b: "enc r buf = Inr (size_of r, buf1)" "length buf1 = SCRATCH_LEN"
      by (rule enc_step [of r buf]) (use Cons.prems in auto)
    show ?case using Cons.IH [of buf1 "size_of r"] Cons.prems b by auto
  qed simp
  show "\<exists>buf'. try_fold (\<lambda>r (_, scratch). and_then (enc r scratch) (\<lambda>(k, scratch).
        and_then (get_slice_at scratch 0 k) (\<lambda>_. Inr (k, scratch)))) rs (k, buf) =
      Inr (if rs = [] then k else size_of (last rs), buf') \<and> length buf' = SCRATCH_LEN"
    using assms
  proof (induction rs arbitrary: k buf)
    case (Cons r rs)
    obtain buf1 where b: "enc r buf = Inr (size_of r, buf1)" "length buf1 = SCRATCH_LEN"
      "get_slice_at buf1 0 (size_of r) = Inr (take (size_of r) buf1)"
      by (rule enc_step [of r buf]) (use Cons.prems in auto)
    show ?case using Cons.IH [of buf1 "size_of r"] Cons.prems b by auto
  qed simp
qed

lemma readable_append:
  assumes "readable journal frames rs"
  shows "readable (journal @ extra) frames rs"
  using assms unfolding readable_def by (rule list_all2_mono) auto

lemma readable_snoc:
  assumes "readable journal frames rs" and "dec bytes = Inr (sum_of r)"
  shows "readable (journal @ bytes) (frames @ [(length journal, length bytes)]) (rs @ [r])"
  using list_all2_appendI [OF readable_append [OF assms(1), of bytes, unfolded readable_def]] assms(2)
  by (simp add: readable_def)

lemma lay_out_run:
  assumes "list_all holds rs" and "length buf = SCRATCH_LEN" and "readable journal frames done_rs"
    and "length journal \<le> SCRATCH_LEN * length done_rs"
  shows "\<exists>buf' journal' frames'. try_fold (lay_out enc) rs (buf, journal, frames) = Inr (buf', journal', frames') \<and>
    readable journal' frames' (done_rs @ rs) \<and> length journal' \<le> SCRATCH_LEN * length (done_rs @ rs)"
  using assms
proof (induction rs arbitrary: buf journal frames done_rs)
  case (Cons r rs)
  obtain buf1 where b: "enc r buf = Inr (size_of r, buf1)" "length buf1 = SCRATCH_LEN"
    "dec (take (size_of r) buf1) = Inr (sum_of r)" "get_slice_at buf1 0 (size_of r) = Inr (take (size_of r) buf1)"
    by (rule enc_step [of r buf]) (use Cons.prems in auto)
  let ?j = "journal @ take (size_of r) buf1" and ?f = "frames @ [(length journal, size_of r)]"
  have fits: "size_of r \<le> SCRATCH_LEN" using Cons.prems(1) by (simp add: holds_def)
  have "readable ?j ?f (done_rs @ [r])"
    using readable_snoc [OF Cons.prems(3) b(3)] b(2) fits by (simp add: min_absorb2)
  moreover have "length ?j \<le> SCRATCH_LEN * length (done_rs @ [r])" using Cons.prems(4) b(2) fits by simp
  ultimately obtain buf' journal' frames' where
    "try_fold (lay_out enc) rs (buf1, ?j, ?f) = Inr (buf', journal', frames')"
    "readable journal' frames' ((done_rs @ [r]) @ rs)" "length journal' \<le> SCRATCH_LEN * length ((done_rs @ [r]) @ rs)"
    using Cons.IH [of buf1 ?j ?f "done_rs @ [r]"] Cons.prems(1) b(2) by auto
  moreover have "lay_out enc r (buf, journal, frames) = Inr (buf1, ?j, ?f)" using b by (simp add: lay_out_def)
  ultimately show ?case by simp
qed auto

lemma replay_run:
  assumes "readable journal frames rs" and "length journal < 2 ^ 64"
  shows "replay dec journal frames = Inr (map sum_of rs)"
proof -
  let ?step = "\<lambda>(off, n) sums. and_then (get_slice_at journal off n) (\<lambda>bytes.
       and_then (dec bytes) (\<lambda>sum. Inr (sums @ [sum])))"
  have "try_fold ?step frames sums = Inr (sums @ map sum_of rs)" for sums
    using assms(1) unfolding readable_def
  proof (induction arbitrary: sums rule: list_all2_induct)
    case (Cons f fs r rs)
    obtain off n where f: "f = (off, n)" by (cases f)
    have "get_slice_at journal off n = Inr (take n (drop off journal))"
      using Cons.hyps(1) assms(2) by (simp add: f get_slice_at_def Let_def)
    then show ?case using Cons.hyps(1) Cons.IH [of "sums @ [sum_of r]"] by (simp add: f)
  qed simp
  then show ?thesis by (simp add: replay_def)
qed

lemma readable_take: "readable journal frames rs \<Longrightarrow> readable journal (take k frames) (take k rs)"
  unfolding readable_def by (rule list_all2_takeI)

lemma run_journal_right:
  assumes records: "\<And>i. i < warmup + n \<Longrightarrow> holds (build (of_nat i))"
    and count: "warmup + n < 2 ^ 64" "SCRATCH_LEN * n < 2 ^ 64"
  shows "run_journal warmup n build enc dec = Inr
    (if warmup + n = 0 then 0 else size_of (build (of_nat (warmup + n - 1))),
     map (\<lambda>i. sum_of (build (of_nat i))) [warmup..<warmup + n])"
proof -
  let ?rs = "map (\<lambda>i. build (of_nat i)) [0..<warmup + n]"
  let ?warm = "take warmup ?rs" and ?timed = "drop warmup ?rs"
  have add: "usize_add warmup n = warmup + n" using count(1) by simp
  have all: "list_all holds ?rs" using records by (simp add: list_all_iff)
  then have warm: "list_all holds ?warm" and timed: "list_all holds ?timed"
    by (metis append_take_drop_id list_all_append)+
  obtain buf1 where b1: "length buf1 = SCRATCH_LEN"
    "try_fold (\<lambda>r (_, scratch). enc r scratch) ?warm (0, replicate SCRATCH_LEN 0) =
      Inr (if ?warm = [] then 0 else size_of (last ?warm), buf1)"
    using encode_all_run(1) [OF warm, of "replicate SCRATCH_LEN 0" 0] by auto
  obtain buf2 where b2: "length buf2 = SCRATCH_LEN"
    "try_fold (\<lambda>r (_, scratch). and_then (enc r scratch) (\<lambda>(k, scratch).
        and_then (get_slice_at scratch 0 k) (\<lambda>_. Inr (k, scratch)))) ?timed
      (if ?warm = [] then 0 else size_of (last ?warm), buf1) =
      Inr (if ?timed = [] then (if ?warm = [] then 0 else size_of (last ?warm)) else size_of (last ?timed), buf2)"
    using encode_all_run(2) [OF timed b1(1)] by blast
  obtain buf3 journal frames where j: "try_fold (lay_out enc) ?timed (buf2, [], []) = Inr (buf3, journal, frames)"
    "readable journal frames ?timed" "length journal \<le> SCRATCH_LEN * length ?timed"
    using lay_out_run [OF timed b2(1), of "[]" "[]" "[]"] by (auto simp: readable_def)
  have jlen: "length journal < 2 ^ 64" using j(3) count(2) by simp
  have size: "(if ?timed = [] then (if ?warm = [] then 0 else size_of (last ?warm)) else size_of (last ?timed)) =
      (if warmup + n = 0 then 0 else size_of (build (of_nat (warmup + n - 1))))"
    by (auto simp: drop_map take_map last_map take_upt)
  have sums: "map sum_of ?timed = map (\<lambda>i. sum_of (build (of_nat i))) [warmup..<warmup + n]"
    by (simp add: drop_map)
  show ?thesis
    unfolding run_journal_def add Let_def b1(2) and_then.simps b2(2) prod.case j(1)
      replay_run [OF j(2) jlen] replay_run [OF readable_take [OF j(2)] jlen] size sums ..
qed

end

section \<open>The SBE cell as a codec\<close>

definition record_ok :: "journal_record \<Rightarrow> bool" where
  "record_ok r \<longleftrightarrow> record_fits r \<and> record_texts_utf8 r \<and> event_known r"

definition record_size :: "journal_record \<Rightarrow> nat" where
  "record_size r = 62 + sum_list (map (\<lambda>e. 49 + length (en_text e)) (jr_entries r))"

lemma length_body_bytes: "8 + length (body_bytes r) = record_size r"
  by (simp add: body_bytes_def record_size_def length_concat comp_def)

interpretation sbe_cell: record_codec journal_encode decode_checksum record_ok record_size checksum_record
proof
  fix r :: journal_record and buf :: "u8 list"
  assume r: "record_ok r" and room: "record_size r \<le> length buf" "length buf < 2 ^ 64"
  obtain buf' where "journal_encode r buf = Inr (record_size r, buf')" "length buf' = length buf"
    "take (record_size r) buf' = jr_header_bytes @ body_bytes r"
    using journal_encode_run [of r buf] r room unfolding length_body_bytes record_ok_def by blast
  moreover have "decode_checksum (jr_header_bytes @ body_bytes r) = Inr (checksum_record r)"
    by (rule decode_checksum_run) (use r room length_body_bytes [of r] in \<open>simp_all add: record_ok_def\<close>)
  ultimately show "\<exists>buf'. journal_encode r buf = Inr (record_size r, buf') \<and> length buf' = length buf \<and>
      decode_checksum (take (record_size r) buf') = Inr (checksum_record r)" by auto
qed

lemma build_record_ok:
  assumes "entries < 65536" and "cmd < 2 ^ 32 - 1"
  shows "record_ok (build_record i entries cmd)"
    and "record_size (build_record i entries cmd) = 62 + entries * (49 + cmd)"
proof -
  have entry: "en_text (build_entry i n k h j) = build_text (mix (mix (h XOR of_nat j * 0x100000001B3) XOR 0xAA)) k"
    for n k h j by (simp add: build_entry_def Let_def)
  have len: "length (build_text t k) = k" for t k by (simp add: build_text_def)
  have ev: "event_known (build_record i entries cmd)"
  proof -
    have "mix i AND 1 = 0 \<or> mix i AND 1 = 1"
      by (simp add: and_one_eq mod_2_eq_odd)
    then show ?thesis by (auto simp: event_known_def build_record_def Let_def)
  qed
  show "record_ok (build_record i entries cmd)"
    using assms ev
    by (simp add: record_ok_def record_fits_def entry_fits_def record_texts_utf8_def build_record_def Let_def
        list_all_iff entry len utf8_ascii [OF build_text_ascii])
  show "record_size (build_record i entries cmd) = 62 + entries * (49 + cmd)"
    by (simp add: record_size_def build_record_def Let_def comp_def entry len sum_list_triv)
qed

text \<open>The properties of the journal records and their codec, with witnesses.\<close>

definition demo_record :: journal_record where
  "demo_record = \<lparr>jr_term_id = 0 - 7, jr_position = 1024, jr_time = 12, jr_session = 3, jr_correlation = 0 - 1,
     jr_leader = 2, jr_service = 0 - 5, jr_event = 1, jr_flag_bits = 255,
     jr_entries = [\<lparr>en_term_id = 1, en_index = 2, en_timestamp = 3, en_key = 0 - 4, en_qty = 5,
       en_price = 0x3FF8000000000000, en_flag = True, en_text = [0x68, 0xC3, 0xA9]\<rparr>]\<rparr>"

lemma demo_record_ok: "record_ok demo_record" and demo_record_size: "record_size demo_record = 114"
  by (simp_all add: demo_record_def record_ok_def record_fits_def entry_fits_def record_texts_utf8_def
      event_known_def record_size_def utf8_2_def utf8_tail_def)

text \<open>C19 (round trip): a record whose counts fit the format, whose texts are UTF-8 and whose event
  type is one of the schema's is encoded into any buffer with room for it, and decoding the
  written bytes folds exactly the checksum of the record.\<close>

theorem journal_round_trip:
  assumes "record_ok r" and "record_size r \<le> length buf" and "length buf < 2 ^ 64"
  shows "\<exists>buf'. journal_encode r buf = Inr (record_size r, buf') \<and> length buf' = length buf \<and>
    decode_checksum (take (record_size r) buf') = Inr (checksum_record r)"
  using assms by (rule sbe_cell.round_trip)

theorem journal_round_trip_witness:
  "\<exists>buf'. journal_encode demo_record (replicate 200 0) = Inr (114, buf') \<and> length buf' = 200 \<and>
    decode_checksum (take 114 buf') = Inr (checksum_record demo_record)"
  using journal_round_trip [of demo_record "replicate 200 0"] by (simp add: demo_record_ok demo_record_size)

text \<open>The body that \<open>encode_body\<close> writes at the start of a buffer is, byte for byte,
  what \<open>encode\<close> writes behind its 8-byte header.\<close>

theorem journal_bodies_agree:
  assumes "record_fits r" and "record_size r \<le> length buf" and "record_size r \<le> length buf2 + 8"
    and "length buf < 2 ^ 64" and "length buf2 < 2 ^ 64"
  shows "\<exists>buf' buf2'. journal_encode r buf = Inr (record_size r, buf') \<and>
    journal_encode_body r buf2 = Inr (record_size r - 8, buf2') \<and>
    take (record_size r - 8) buf2' = drop 8 (take (record_size r) buf')"
proof -
  obtain buf' where 1: "journal_encode r buf = Inr (record_size r, buf')"
    "take (record_size r) buf' = jr_header_bytes @ body_bytes r"
    using journal_encode_run [of r buf] assms unfolding length_body_bytes by blast
  have size: "record_size r - 8 = length (body_bytes r)" using length_body_bytes [of r] by simp
  let ?e = "\<lparr>e_buf = buf2, e_initial_offset = 0, e_offset = 0, e_limit = 50\<rparr> :: bs_enc"
  have "jr_wrap buf2 0 = ?e" by (simp add: jr_wrap_def)
  moreover have "\<exists>buf2'. encode_fields r ?e = Inr (length ([] :: u8 list) + length (body_bytes r), buf2') \<and>
      length buf2' = length ([] @ buf2) \<and> take (length ([] :: u8 list) + length (body_bytes r)) buf2' = [] @ body_bytes r"
    by (rule encode_fields_run [OF _ _ _ assms(1)]) (use assms size in simp_all)
  ultimately obtain buf2' where "journal_encode_body r buf2 = Inr (record_size r - 8, buf2')"
    "take (record_size r - 8) buf2' = body_bytes r"
    by (auto simp: journal_encode_body_def size)
  with 1 show ?thesis by (intro exI [of _ buf'] exI [of _ buf2']) simp
qed

theorem journal_bodies_agree_witness:
  "\<exists>buf' buf2'. journal_encode demo_record (replicate 200 0) = Inr (114, buf') \<and>
    journal_encode_body demo_record (replicate 150 1) = Inr (106, buf2') \<and>
    take 106 buf2' = drop 8 (take 114 buf')"
proof -
  have "record_fits demo_record" using demo_record_ok by (simp add: record_ok_def)
  then show ?thesis
    using journal_bodies_agree [of demo_record "replicate 200 0" "replicate 150 1"] by (simp add: demo_record_size)
qed

text \<open>For every entry count and text length whose records fit the harness's 64 KiB
  scratch buffer, the journal benchmark runs through: every frame of the journal it lays out
  decodes to the checksum of the record it was built from, in order, and the reported length is the
  size of the last record.\<close>

theorem journal_bench_right:
  assumes "62 + entries * (49 + cmd) \<le> SCRATCH_LEN" and "entries < 65536" and "cmd < 2 ^ 32 - 1"
    and "warmup + n < 2 ^ 64" and "SCRATCH_LEN * n < 2 ^ 64" and "0 < warmup + n"
  shows "run_journal warmup n (\<lambda>i. build_record i entries cmd) journal_encode decode_checksum =
    Inr (62 + entries * (49 + cmd),
      map (\<lambda>i. checksum_record (build_record (of_nat i) entries cmd)) [warmup..<warmup + n])"
proof -
  have "sbe_cell.holds (build_record i entries cmd)" for i
    using assms build_record_ok [OF assms(2,3)] by (simp add: sbe_cell.holds_def)
  from sbe_cell.run_journal_right [where build = "\<lambda>i. build_record i entries cmd", OF this assms(4,5)]
  show ?thesis using assms(6) by (simp add: build_record_ok [OF assms(2,3)])
qed

theorem journal_bench_right_witness:
  "run_journal 1 3 (\<lambda>i. build_record i 4 12) journal_encode decode_checksum =
    Inr (306, map (\<lambda>i. checksum_record (build_record (of_nat i) 4 12)) [1..<4])"
  using journal_bench_right [of 4 12 1 3] by (simp add: SCRATCH_LEN_def)

end
