(* ===== verification/Ring.thy ===== *)
theory Ring
  imports Prelude
begin

text \<open>
  The bounded single-producer single-consumer ring (rust/handoff-compare/src/spsc.rs, which
  mirrors rust/thread-handoff/ring/src/spsc.rs and adds the batch operations). Each thread runs
  a script of calls on its handle; every access to a shared atomic and every thread-local block
  between two of them is one step, and a run interleaves the steps in any order. A busy-wait is
  a step that goes back to its own program point. Runs are sequentially consistent: the
  acquire and release orderings of the code are not modelled.

  Tokens are \<open>u64\<close>; counters are \<open>usize\<close> with the wrap-around of a release build. The
  closure of \<open>batch_publish\<close> is the list of the values it returns.
\<close>

section \<open>The ring, its handles and their scripts\<close>

datatype push_call =
    Push u64
  | Batch_publish "u64 list"
  | Await_consumed usize

datatype pop_call =
    Pop
  | Drain usize
  | Drain_until nat usize

datatype prod_pc =
    P_next
  | P_full u64
  | P_store u64
  | P_wait "u64 list"
  | P_fill "u64 list" nat
  | P_publish

datatype cons_pc =
    C_next
  | C_empty
  | C_load
  | C_pop u64
  | C_take usize nat
  | C_publish

text \<open>The last field is history: the tokens that \<open>pop\<close> returned and \<open>drain\<close> handed to its closure.\<close>

record spsc =
  sp_buf :: "u64 list"
  sp_cap :: usize
  sp_head :: usize
  sp_tail :: usize
  pr_pc :: prod_pc
  pr_todo :: "push_call list"
  pr_tail :: usize
  pr_cached_head :: usize
  cn_pc :: cons_pc
  cn_todo :: "pop_call list"
  cn_head :: usize
  cn_cached_tail :: usize
  cn_got :: "u64 list"

definition spsc_new :: "usize \<Rightarrow> push_call list \<Rightarrow> pop_call list \<Rightarrow> panic + spsc" where
  "spsc_new cap ps cs =
     (if 0 < cap
      then Inr \<lparr>sp_buf = replicate cap 0, sp_cap = cap, sp_head = 0, sp_tail = 0,
        pr_pc = P_next, pr_todo = ps, pr_tail = 0, pr_cached_head = 0,
        cn_pc = C_next, cn_todo = cs, cn_head = 0, cn_cached_tail = 0, cn_got = []\<rparr>
      else Inl Assertion_failed)"

section \<open>The producer\<close>

definition push_entry :: "u64 \<Rightarrow> spsc \<Rightarrow> spsc" where
  "push_entry v s =
     s\<lparr>pr_pc := if usize_sub (pr_tail s) (pr_cached_head s) = sp_cap s then P_full v else P_store v\<rparr>"

definition push_wait :: "u64 \<Rightarrow> spsc \<Rightarrow> spsc" where
  "push_wait v s =
     (let h = sp_head s in
      s\<lparr>pr_cached_head := h, pr_pc := if usize_sub (pr_tail s) h < sp_cap s then P_store v else P_full v\<rparr>)"

definition push_store :: "u64 \<Rightarrow> spsc \<Rightarrow> panic + spsc" where
  "push_store v s =
     and_then (idx_set (sp_buf s) (pr_tail s mod sp_cap s) v) (\<lambda>buf.
     Inr (s\<lparr>sp_buf := buf, pr_tail := usize_add (pr_tail s) 1, pr_pc := P_publish\<rparr>))"

definition batch_entry :: "u64 list \<Rightarrow> spsc \<Rightarrow> panic + spsc" where
  "batch_entry vs s =
     (let n = length vs in
      if n \<le> sp_cap s
      then Inr (s\<lparr>pr_pc := if sp_cap s < usize_sub (usize_add (pr_tail s) n) (pr_cached_head s)
                        then P_wait vs else P_fill vs 0\<rparr>)
      else Inl Assertion_failed)"

definition batch_wait :: "u64 list \<Rightarrow> spsc \<Rightarrow> spsc" where
  "batch_wait vs s =
     (let h = sp_head s in
      s\<lparr>pr_cached_head := h,
        pr_pc := if usize_sub (usize_add (pr_tail s) (length vs)) h \<le> sp_cap s then P_fill vs 0 else P_wait vs\<rparr>)"

definition batch_fill :: "u64 list \<Rightarrow> nat \<Rightarrow> spsc \<Rightarrow> panic + spsc" where
  "batch_fill vs k s =
     (if k < length vs
      then and_then (idx_set (sp_buf s) (usize_add (pr_tail s) k mod sp_cap s) (vs ! k)) (\<lambda>buf.
        Inr (s\<lparr>sp_buf := buf, pr_pc := P_fill vs (Suc k)\<rparr>))
      else Inr (s\<lparr>pr_tail := usize_add (pr_tail s) (length vs), pr_pc := P_publish\<rparr>))"

definition consumed :: "spsc \<Rightarrow> usize" where
  "consumed s = sp_head s"

definition prod_step :: "spsc \<Rightarrow> (panic + spsc) option" where
  "prod_step s =
     (case pr_pc s of
        P_next \<Rightarrow>
          (case pr_todo s of
             [] \<Rightarrow> None
           | Push v # ps \<Rightarrow> Some (Inr (push_entry v (s\<lparr>pr_todo := ps\<rparr>)))
           | Batch_publish vs # ps \<Rightarrow> Some (batch_entry vs (s\<lparr>pr_todo := ps\<rparr>))
           | Await_consumed k # ps \<Rightarrow> Some (Inr (if consumed s < k then s else s\<lparr>pr_todo := ps\<rparr>)))
      | P_full v \<Rightarrow> Some (Inr (push_wait v s))
      | P_store v \<Rightarrow> Some (push_store v s)
      | P_wait vs \<Rightarrow> Some (Inr (batch_wait vs s))
      | P_fill vs k \<Rightarrow> Some (batch_fill vs k s)
      | P_publish \<Rightarrow> Some (Inr (s\<lparr>sp_tail := pr_tail s, pr_pc := P_next\<rparr>)))"

section \<open>The consumer\<close>

definition pop_entry :: "spsc \<Rightarrow> spsc" where
  "pop_entry s = s\<lparr>cn_pc := if cn_head s = cn_cached_tail s then C_empty else C_load\<rparr>"

definition pop_wait :: "spsc \<Rightarrow> spsc" where
  "pop_wait s =
     (let t = sp_tail s in s\<lparr>cn_cached_tail := t, cn_pc := if cn_head s \<noteq> t then C_load else C_empty\<rparr>)"

definition pop_load :: "spsc \<Rightarrow> panic + spsc" where
  "pop_load s =
     and_then (idx (sp_buf s) (cn_head s mod sp_cap s)) (\<lambda>v.
     Inr (s\<lparr>cn_head := usize_add (cn_head s) 1, cn_pc := C_pop v\<rparr>))"

text \<open>The start of a drain, up to its loop; a drain of nothing is over at once.\<close>

definition drain_entry :: "usize \<Rightarrow> spsc \<Rightarrow> spsc" where
  "drain_entry mx s =
     (let t = (if cn_head s = cn_cached_tail s then sp_tail s else cn_cached_tail s);
          n = min (usize_sub t (cn_head s)) mx in
      s\<lparr>cn_cached_tail := t, cn_pc := if n = 0 then C_next else C_take n 0\<rparr>)"

definition drain_take :: "usize \<Rightarrow> nat \<Rightarrow> spsc \<Rightarrow> panic + spsc" where
  "drain_take n k s =
     (if k < n
      then and_then (idx (sp_buf s) (usize_add (cn_head s) k mod sp_cap s)) (\<lambda>v.
        Inr (s\<lparr>cn_got := cn_got s @ [v], cn_pc := C_take n (Suc k)\<rparr>))
      else Inr (s\<lparr>cn_head := usize_add (cn_head s) n, cn_pc := C_publish\<rparr>))"

definition cons_step :: "spsc \<Rightarrow> (panic + spsc) option" where
  "cons_step s =
     (case cn_pc s of
        C_next \<Rightarrow>
          (case cn_todo s of
             [] \<Rightarrow> None
           | Pop # cs \<Rightarrow> Some (Inr (pop_entry (s\<lparr>cn_todo := cs\<rparr>)))
           | Drain mx # cs \<Rightarrow> Some (Inr (drain_entry mx (s\<lparr>cn_todo := cs\<rparr>)))
           | Drain_until n mx # cs \<Rightarrow>
               Some (Inr (if length (cn_got s) < n then drain_entry mx s else s\<lparr>cn_todo := cs\<rparr>)))
      | C_empty \<Rightarrow> Some (Inr (pop_wait s))
      | C_load \<Rightarrow> Some (pop_load s)
      | C_pop v \<Rightarrow> Some (Inr (s\<lparr>sp_head := cn_head s, cn_got := cn_got s @ [v], cn_pc := C_next\<rparr>))
      | C_take n k \<Rightarrow> Some (drain_take n k s)
      | C_publish \<Rightarrow> Some (Inr (s\<lparr>sp_head := cn_head s, cn_pc := C_next\<rparr>)))"

section \<open>Runs\<close>

inductive spsc_step :: "spsc \<Rightarrow> spsc \<Rightarrow> bool" where
  Producer: "prod_step s = Some (Inr s') \<Longrightarrow> spsc_step s s'"
| Consumer: "cons_step s = Some (Inr s') \<Longrightarrow> spsc_step s s'"

inductive_cases spsc_stepE: "spsc_step s s'"

inductive spsc_reach for s0 where
  Start: "spsc_reach s0 s0"
| Step: "spsc_reach s0 s \<Longrightarrow> spsc_step s s' \<Longrightarrow> spsc_reach s0 s'"

text \<open>The tokens a script publishes, in order, and the queue that the shared counters delimit.\<close>

fun call_tokens :: "push_call \<Rightarrow> u64 list" where
  "call_tokens (Push v) = [v]"
| "call_tokens (Batch_publish vs) = vs"
| "call_tokens (Await_consumed k) = []"

definition script_tokens :: "push_call list \<Rightarrow> u64 list" where
  "script_tokens ps = concat (map call_tokens ps)"

definition queue_view :: "spsc \<Rightarrow> u64 list" where
  "queue_view s = map (\<lambda>i. sp_buf s ! (i mod sp_cap s)) [sp_head s..<sp_tail s]"

section \<open>The benchmark of the ring\<close>

text \<open>
  rust/thread-handoff/ring/src/main.rs: the producer pushes the warm-up tokens, waits until they
  are consumed, pushes the measured ones and waits again; the consumer pops as many.
\<close>

definition ring_main :: "usize \<Rightarrow> usize \<Rightarrow> usize \<Rightarrow> panic + spsc" where
  "ring_main cap warmup iters =
     (let total = usize_add warmup iters in
      spsc_new cap
        (replicate warmup (Push 1) @ [Await_consumed warmup] @ replicate iters (Push 1) @ [Await_consumed total])
        (replicate total Pop))"

end
