(* ===== verification/Ring_Inv.thy ===== *)
theory Ring_Inv
  imports Ring
begin

text \<open>
  The invariant of the ring: the counters are ordered, each thread's cached copy of the other's
  counter lags behind it, every slot between the head and the tail still holds its token, and
  what the consumer got is a prefix of what the producer's script publishes.
\<close>

lemma mod_unequal:
  assumes "(i :: nat) < j" and "j < i + cap"
  shows "i mod cap \<noteq> j mod cap"
proof
  assume "i mod cap = j mod cap"
  then have "cap dvd j - i" using assms(1) by (metis less_imp_le mod_eq_dvd_iff_nat)
  then show False using assms by (auto dest: dvd_imp_le)
qed

fun pr_open :: "prod_pc \<Rightarrow> u64 list" where
  "pr_open (P_full v) = [v]"
| "pr_open (P_store v) = [v]"
| "pr_open (P_wait vs) = vs"
| "pr_open (P_fill vs k) = vs"
| "pr_open _ = []"

fun pr_stored :: "prod_pc \<Rightarrow> nat" where
  "pr_stored (P_fill vs k) = k"
| "pr_stored _ = 0"

text \<open>
  What the program points say of the published tail \<open>t\<close>, the producer's own tail \<open>pt\<close> and its
  copy \<open>ph\<close> of the head; and of the published head \<open>h\<close>, the consumer's own head \<open>ch\<close>, its copy
  \<open>ct\<close> of the tail and the number \<open>g\<close> of tokens it got.
\<close>

fun prod_ok :: "nat \<Rightarrow> nat \<Rightarrow> nat \<Rightarrow> nat \<Rightarrow> prod_pc \<Rightarrow> bool" where
  "prod_ok cap t pt ph P_next \<longleftrightarrow> t = pt"
| "prod_ok cap t pt ph (P_full v) \<longleftrightarrow> t = pt"
| "prod_ok cap t pt ph (P_store v) \<longleftrightarrow> t = pt \<and> pt < ph + cap"
| "prod_ok cap t pt ph (P_wait vs) \<longleftrightarrow> t = pt \<and> length vs \<le> cap"
| "prod_ok cap t pt ph (P_fill vs k) \<longleftrightarrow> t = pt \<and> k \<le> length vs \<and> pt + length vs \<le> ph + cap"
| "prod_ok cap t pt ph P_publish \<longleftrightarrow> t \<le> pt"

fun cons_ok :: "u64 list \<Rightarrow> nat \<Rightarrow> nat \<Rightarrow> nat \<Rightarrow> nat \<Rightarrow> cons_pc \<Rightarrow> bool" where
  "cons_ok xs h ch ct g C_next \<longleftrightarrow> ch = h \<and> g = h"
| "cons_ok xs h ch ct g C_empty \<longleftrightarrow> ch = h \<and> g = h"
| "cons_ok xs h ch ct g C_load \<longleftrightarrow> ch = h \<and> g = h \<and> ch < ct"
| "cons_ok xs h ch ct g (C_pop v) \<longleftrightarrow> ch = Suc h \<and> g = h \<and> v = xs ! h"
| "cons_ok xs h ch ct g (C_take n k) \<longleftrightarrow> ch = h \<and> g = h + k \<and> k \<le> n \<and> 0 < n \<and> ch + n \<le> ct"
| "cons_ok xs h ch ct g C_publish \<longleftrightarrow> h < ch \<and> g = ch"

definition spsc_inv :: "u64 list \<Rightarrow> spsc \<Rightarrow> bool" where
  "spsc_inv xs s \<longleftrightarrow>
     0 < sp_cap s \<and> sp_cap s < 2 ^ 64 \<and> length (sp_buf s) = sp_cap s \<and> length xs < 2 ^ 64 \<and>
     take (pr_tail s) xs @ pr_open (pr_pc s) @ script_tokens (pr_todo s) = xs \<and> pr_tail s \<le> length xs \<and>
     pr_cached_head s \<le> sp_head s \<and> sp_head s \<le> cn_head s \<and> cn_head s \<le> cn_cached_tail s \<and>
     cn_cached_tail s \<le> sp_tail s \<and> pr_tail s \<le> pr_cached_head s + sp_cap s \<and>
     (\<forall>i. sp_head s \<le> i \<and> i < pr_tail s + pr_stored (pr_pc s) \<longrightarrow> sp_buf s ! (i mod sp_cap s) = xs ! i) \<and>
     take (length (cn_got s)) xs = cn_got s \<and> prod_ok (sp_cap s) (sp_tail s) (pr_tail s) (pr_cached_head s) (pr_pc s) \<and>
     cons_ok xs (sp_head s) (cn_head s) (cn_cached_tail s) (length (cn_got s)) (cn_pc s)"

lemma split_take:
  assumes "take n xs @ ys @ zs = xs" and "n \<le> length xs"
  shows "take (n + length ys) xs = take n xs @ ys" and "n + length ys \<le> length xs"
    and "\<And>k. k < length ys \<Longrightarrow> xs ! (n + k) = ys ! k"
proof -
  have len: "length (take n xs) = n" using assms(2) by simp
  have n: "length xs = n + length ys + length zs" using arg_cong [OF assms(1) [symmetric], of length] assms(2) by simp
  then show "n + length ys \<le> length xs" by simp
  show "take (n + length ys) xs = take n xs @ ys"
    using arg_cong [OF assms(1) [symmetric], of "take (n + length ys)"] assms(2) by simp
  show "xs ! (n + k) = ys ! k" if "k < length ys" for k
    using arg_cong [OF assms(1) [symmetric], of "\<lambda>l. l ! (n + k)"] that assms(2) by (simp add: nth_append)
qed

text \<open>A store at the end of what is stored leaves every unread slot alone.\<close>

lemma store_slot:
  assumes cap: "0 < cap" "length buf = cap" and j: "j < h + cap"
    and old: "\<forall>i. h \<le> i \<and> i < j \<longrightarrow> buf ! (i mod cap) = xs ! i"
  shows "idx_set buf (j mod cap) v = Inr (buf[j mod cap := v])"
    and "v = xs ! j \<Longrightarrow> \<forall>i. h \<le> i \<and> i < Suc j \<longrightarrow> buf[j mod cap := v] ! (i mod cap) = xs ! i"
proof -
  have jm: "j mod cap < length buf" using cap by simp
  then show "idx_set buf (j mod cap) v = Inr (buf[j mod cap := v])" by (simp add: idx_set_def)
  assume v: "v = xs ! j"
  have "buf[j mod cap := v] ! (i mod cap) = xs ! i" if i: "h \<le> i" "i < Suc j" for i
  proof (cases "i = j")
    case True
    then show ?thesis using jm v by simp
  next
    case False
    then have "i mod cap \<noteq> j mod cap" using mod_unequal [of i j cap] i j by simp
    then show ?thesis using old i False by simp
  qed
  then show "\<forall>i. h \<le> i \<and> i < Suc j \<longrightarrow> buf[j mod cap := v] ! (i mod cap) = xs ! i" by blast
qed

section \<open>The steps of the producer\<close>

lemma push_entry_inv:
  assumes inv: "spsc_inv xs s" and pc: "pr_pc s = P_next" "pr_todo s = Push v # ps"
  shows "spsc_inv xs (push_entry v (s\<lparr>pr_todo := ps\<rparr>))"
proof -
  have "usize_sub (pr_tail s) (pr_cached_head s) = pr_tail s - pr_cached_head s" "pr_cached_head s \<le> pr_tail s"
    using inv pc by (auto simp: spsc_inv_def)
  then show ?thesis using inv pc by (auto simp: spsc_inv_def push_entry_def script_tokens_def)
qed

lemma push_wait_inv:
  assumes inv: "spsc_inv xs s" and pc: "pr_pc s = P_full v"
  shows "spsc_inv xs (push_wait v s)"
proof -
  have "usize_sub (pr_tail s) (sp_head s) = pr_tail s - sp_head s" "sp_head s \<le> pr_tail s"
    using inv pc by (auto simp: spsc_inv_def)
  then show ?thesis using inv pc by (auto simp: spsc_inv_def push_wait_def Let_def)
qed

lemma push_store_inv:
  assumes inv: "spsc_inv xs s" and pc: "pr_pc s = P_store v"
  shows "\<exists>s'. push_store v s = Inr s' \<and> spsc_inv xs s'"
proof -
  have xs: "take (pr_tail s) xs @ [v] @ script_tokens (pr_todo s) = xs" "pr_tail s \<le> length xs"
    and room: "pr_tail s < sp_head s + sp_cap s" using inv pc by (auto simp: spsc_inv_def)
  note t = split_take [OF xs]
  have add: "usize_add (pr_tail s) 1 = Suc (pr_tail s)" using t(2) inv by (simp add: spsc_inv_def)
  have v: "v = xs ! pr_tail s" using t(3) [of 0] by simp
  note slot = store_slot [of "sp_cap s" "sp_buf s" "pr_tail s" "sp_head s" xs v]
  have "idx_set (sp_buf s) (pr_tail s mod sp_cap s) v = Inr ((sp_buf s)[pr_tail s mod sp_cap s := v])"
    using slot(1) inv room pc by (simp add: spsc_inv_def)
  moreover have "\<forall>i. sp_head s \<le> i \<and> i < Suc (pr_tail s) \<longrightarrow>
      (sp_buf s)[pr_tail s mod sp_cap s := v] ! (i mod sp_cap s) = xs ! i"
    using slot(2) inv room pc v by (simp add: spsc_inv_def)
  moreover have "take (Suc (pr_tail s)) xs @ script_tokens (pr_todo s) = xs" using t(1) xs(1) by simp
  ultimately show ?thesis
    using inv pc t(2) by (auto simp: spsc_inv_def push_store_def add)
qed

lemma batch_entry_inv:
  assumes inv: "spsc_inv xs s" and pc: "pr_pc s = P_next" "pr_todo s = Batch_publish vs # ps"
    and n: "length vs \<le> sp_cap s"
  shows "\<exists>s'. batch_entry vs (s\<lparr>pr_todo := ps\<rparr>) = Inr s' \<and> spsc_inv xs s'"
proof -
  have xs: "take (pr_tail s) xs @ vs @ script_tokens ps = xs" "pr_tail s \<le> length xs"
    using inv pc by (auto simp: spsc_inv_def script_tokens_def)
  have "usize_sub (usize_add (pr_tail s) (length vs)) (pr_cached_head s) = pr_tail s + length vs - pr_cached_head s"
    using split_take(2) [OF xs] inv pc by (auto simp: spsc_inv_def)
  then show ?thesis using inv pc n by (auto simp: spsc_inv_def batch_entry_def script_tokens_def Let_def)
qed

lemma batch_wait_inv:
  assumes inv: "spsc_inv xs s" and pc: "pr_pc s = P_wait vs"
  shows "spsc_inv xs (batch_wait vs s)"
proof -
  have xs: "take (pr_tail s) xs @ vs @ script_tokens (pr_todo s) = xs" "pr_tail s \<le> length xs"
    using inv pc by (auto simp: spsc_inv_def)
  have "usize_sub (usize_add (pr_tail s) (length vs)) (sp_head s) = pr_tail s + length vs - sp_head s"
    "sp_head s \<le> pr_tail s"
    using split_take(2) [OF xs] inv pc by (auto simp: spsc_inv_def)
  then show ?thesis using inv pc by (auto simp: spsc_inv_def batch_wait_def Let_def)
qed

lemma batch_fill_inv:
  assumes inv: "spsc_inv xs s" and pc: "pr_pc s = P_fill vs k"
  shows "\<exists>s'. batch_fill vs k s = Inr s' \<and> spsc_inv xs s'"
proof -
  have xs: "take (pr_tail s) xs @ vs @ script_tokens (pr_todo s) = xs" "pr_tail s \<le> length xs"
    using inv pc by (auto simp: spsc_inv_def)
  note t = split_take [OF xs]
  have add: "usize_add (pr_tail s) j = pr_tail s + j" if "j \<le> length vs" for j
    using that t(2) inv by (simp add: spsc_inv_def)
  show ?thesis
  proof (cases "k < length vs")
    case True
    let ?j = "pr_tail s + k"
    have room: "?j < sp_head s + sp_cap s" using inv pc True by (simp add: spsc_inv_def)
    note slot = store_slot [of "sp_cap s" "sp_buf s" ?j "sp_head s" xs "vs ! k"]
    have "idx_set (sp_buf s) (?j mod sp_cap s) (vs ! k) = Inr ((sp_buf s)[?j mod sp_cap s := vs ! k])"
      using slot(1) inv room pc by (simp add: spsc_inv_def)
    moreover have "\<forall>i. sp_head s \<le> i \<and> i < Suc ?j \<longrightarrow>
        (sp_buf s)[?j mod sp_cap s := vs ! k] ! (i mod sp_cap s) = xs ! i"
      using slot(2) inv room pc t(3) [OF True] by (simp add: spsc_inv_def)
    ultimately show ?thesis
      using inv pc True by (auto simp: spsc_inv_def batch_fill_def add)
  next
    case False
    then have "k = length vs" using inv pc by (simp add: spsc_inv_def)
    moreover have "take (pr_tail s + length vs) xs @ script_tokens (pr_todo s) = xs" using t(1) xs(1) by simp
    ultimately show ?thesis
      using inv pc t(2) by (auto simp: spsc_inv_def batch_fill_def add)
  qed
qed

lemma publish_inv:
  assumes "spsc_inv xs s" and "pr_pc s = P_publish"
  shows "spsc_inv xs (s\<lparr>sp_tail := pr_tail s, pr_pc := P_next\<rparr>)"
  using assms by (auto simp: spsc_inv_def)

lemma await_inv:
  assumes "spsc_inv xs s" and "pr_pc s = P_next" and "pr_todo s = Await_consumed k # ps"
  shows "spsc_inv xs (s\<lparr>pr_todo := ps\<rparr>)"
  using assms by (auto simp: spsc_inv_def script_tokens_def)

section \<open>The steps of the consumer\<close>

lemma cons_todo_inv [simp]: "spsc_inv xs (s\<lparr>cn_todo := cs\<rparr>) = spsc_inv xs s"
  by (simp add: spsc_inv_def)

lemma got_snoc:
  assumes "take (length got) xs = got" and "length got < length xs"
  shows "take (Suc (length got)) xs = got @ [xs ! length got]"
  using assms by (simp add: take_Suc_conv_app_nth)

lemma pop_entry_inv:
  assumes "spsc_inv xs s" and "cn_pc s = C_next"
  shows "spsc_inv xs (pop_entry s)"
  using assms by (auto simp: spsc_inv_def pop_entry_def)

lemma tail_le: "spsc_inv xs s \<Longrightarrow> sp_tail s \<le> pr_tail s \<and> pr_tail s \<le> length xs \<and> length xs < 2 ^ 64"
  by (cases "pr_pc s") (auto simp: spsc_inv_def)

lemma pop_wait_inv:
  assumes "spsc_inv xs s" and "cn_pc s = C_empty"
  shows "spsc_inv xs (pop_wait s)"
  using assms by (auto simp: spsc_inv_def pop_wait_def Let_def)

text \<open>A slot between the head and the tail holds its token.\<close>

lemma read_slot:
  assumes inv: "spsc_inv xs s" and i: "sp_head s \<le> i" "i < sp_tail s"
  shows "idx (sp_buf s) (i mod sp_cap s) = Inr (xs ! i)"
proof -
  have "sp_buf s ! (i mod sp_cap s) = xs ! i" using inv i tail_le [OF inv] by (simp add: spsc_inv_def)
  then show ?thesis using inv by (simp add: idx_def spsc_inv_def)
qed

lemma pop_load_inv:
  assumes inv: "spsc_inv xs s" and pc: "cn_pc s = C_load"
  shows "\<exists>s'. pop_load s = Inr s' \<and> spsc_inv xs s'"
proof -
  have h: "cn_head s = sp_head s" "sp_head s < cn_cached_tail s" "cn_cached_tail s \<le> sp_tail s"
    using inv pc by (auto simp: spsc_inv_def)
  have "idx (sp_buf s) (cn_head s mod sp_cap s) = Inr (xs ! sp_head s)"
    using read_slot [OF inv, of "sp_head s"] h by simp
  moreover have "usize_add (cn_head s) 1 = Suc (cn_head s)" using h tail_le [OF inv] by simp
  ultimately have "pop_load s = Inr (s\<lparr>cn_head := Suc (cn_head s), cn_pc := C_pop (xs ! sp_head s)\<rparr>)"
    unfolding pop_load_def by simp
  moreover have "spsc_inv xs (s\<lparr>cn_head := Suc (cn_head s), cn_pc := C_pop (xs ! sp_head s)\<rparr>)"
    using inv pc unfolding spsc_inv_def by auto
  ultimately show ?thesis by blast
qed

lemma pop_done_inv:
  assumes inv: "spsc_inv xs s" and pc: "cn_pc s = C_pop v"
  shows "spsc_inv xs (s\<lparr>sp_head := cn_head s, cn_got := cn_got s @ [v], cn_pc := C_next\<rparr>)"
proof -
  have "length (cn_got s) < length xs" "v = xs ! length (cn_got s)" "take (length (cn_got s)) xs = cn_got s"
    using inv pc tail_le [OF inv] by (auto simp: spsc_inv_def)
  then have "take (Suc (length (cn_got s))) xs = cn_got s @ [v]" using got_snoc by blast
  then show ?thesis
    using inv pc by (cases "pr_pc s") (auto simp: spsc_inv_def)
qed

lemma drain_entry_inv:
  assumes inv: "spsc_inv xs s" and pc: "cn_pc s = C_next"
  shows "spsc_inv xs (drain_entry mx s)"
proof -
  have "usize_sub t (cn_head s) = t - cn_head s" if "cn_head s \<le> t" "t \<le> sp_tail s" for t
    using that tail_le [OF inv] by simp
  then show ?thesis
    using inv pc tail_le [OF inv] by (auto simp: spsc_inv_def drain_entry_def Let_def)
qed

lemma drain_take_inv:
  assumes inv: "spsc_inv xs s" and pc: "cn_pc s = C_take n k"
  shows "\<exists>s'. drain_take n k s = Inr s' \<and> spsc_inv xs s'"
proof -
  have h: "cn_head s = sp_head s" "sp_head s + n \<le> cn_cached_tail s" "cn_cached_tail s \<le> sp_tail s"
    "length (cn_got s) = sp_head s + k" "k \<le> n" "take (length (cn_got s)) xs = cn_got s"
    using inv pc by (auto simp: spsc_inv_def)
  have add: "usize_add (cn_head s) j = cn_head s + j" if "j \<le> n" for j
    using that h tail_le [OF inv] by simp
  show ?thesis
  proof (cases "k < n")
    case True
    have "idx (sp_buf s) ((sp_head s + k) mod sp_cap s) = Inr (xs ! (sp_head s + k))"
      using read_slot [OF inv, of "sp_head s + k"] h True by simp
    moreover have got: "take (Suc (sp_head s + k)) xs = cn_got s @ [xs ! (sp_head s + k)]"
      using got_snoc [OF h(6)] h True tail_le [OF inv] by simp
    moreover have "usize_add (cn_head s) k = sp_head s + k" using add [of k] h by simp
    ultimately have "drain_take n k s =
        Inr (s\<lparr>cn_got := cn_got s @ [xs ! (sp_head s + k)], cn_pc := C_take n (Suc k)\<rparr>)"
      unfolding drain_take_def using True by simp
    moreover have "spsc_inv xs (s\<lparr>cn_got := cn_got s @ [xs ! (sp_head s + k)], cn_pc := C_take n (Suc k)\<rparr>)"
      using inv pc h True got by (simp add: spsc_inv_def)
    ultimately show ?thesis by blast
  next
    case False
    then have k: "k = n" using h by simp
    have "usize_add (cn_head s) n = sp_head s + n" using add [of n] h by simp
    then have "drain_take n k s = Inr (s\<lparr>cn_head := sp_head s + n, cn_pc := C_publish\<rparr>)"
      using k by (simp add: drain_take_def)
    moreover have "spsc_inv xs (s\<lparr>cn_head := sp_head s + n, cn_pc := C_publish\<rparr>)"
      using inv pc k unfolding spsc_inv_def by auto
    ultimately show ?thesis by blast
  qed
qed

lemma drained_inv:
  assumes "spsc_inv xs s" and "cn_pc s = C_publish"
  shows "spsc_inv xs (s\<lparr>sp_head := cn_head s, cn_pc := C_next\<rparr>)"
  using assms by (cases "pr_pc s") (auto simp: spsc_inv_def)

end
