(* ===== verification/Ring_Runs.thy ===== *)
theory Ring_Runs
  imports Ring_Inv
begin

text \<open>
  The ring over whole runs: every step keeps the invariant, the only panic is a burst longer
  than the ring, every step that changes the state uses up fuel, and as long as the two scripts
  match some step changes the state.
\<close>

section \<open>Safety\<close>

lemma prod_step_safe:
  assumes inv: "spsc_inv xs s" and step: "prod_step s = Some r"
  shows "(\<exists>s'. r = Inr s' \<and> spsc_inv xs s') \<or>
    r = Inl Assertion_failed \<and> pr_pc s = P_next \<and> (\<exists>vs ps. pr_todo s = Batch_publish vs # ps \<and> sp_cap s < length vs)"
proof (cases "pr_pc s")
  case P_next
  show ?thesis
  proof (cases "pr_todo s")
    case (Cons c ps)
    show ?thesis
    proof (cases c)
      case (Push v)
      then show ?thesis using push_entry_inv [OF inv P_next] step P_next Cons by (auto simp: prod_step_def)
    next
      case (Batch_publish vs)
      then show ?thesis
        using batch_entry_inv [OF inv P_next, of vs ps] step P_next Cons
        by (cases "length vs \<le> sp_cap s") (auto simp: prod_step_def batch_entry_def Let_def)
    next
      case (Await_consumed k)
      then show ?thesis using await_inv [OF inv P_next] inv step P_next Cons by (auto simp: prod_step_def)
    qed
  qed (use step P_next in \<open>simp add: prod_step_def\<close>)
next
  case P_full
  then show ?thesis using push_wait_inv [OF inv] step by (auto simp: prod_step_def)
next
  case P_store
  then show ?thesis using push_store_inv [OF inv] step by (auto simp: prod_step_def)
next
  case P_wait
  then show ?thesis using batch_wait_inv [OF inv] step by (auto simp: prod_step_def)
next
  case P_fill
  then show ?thesis using batch_fill_inv [OF inv] step by (auto simp: prod_step_def)
next
  case P_publish
  then show ?thesis using publish_inv [OF inv] step by (auto simp: prod_step_def)
qed

lemma cons_step_safe:
  assumes inv: "spsc_inv xs s" and step: "cons_step s = Some r"
  shows "\<exists>s'. r = Inr s' \<and> spsc_inv xs s'"
proof (cases "cn_pc s")
  case C_next
  have inv': "spsc_inv xs (s\<lparr>cn_todo := cs\<rparr>)" "cn_pc (s\<lparr>cn_todo := cs\<rparr>) = C_next" for cs
    using inv C_next by simp_all
  show ?thesis
  proof (cases "cn_todo s")
    case (Cons c cs)
    show ?thesis
    proof (cases c)
      case Pop
      then show ?thesis using pop_entry_inv [OF inv'] step C_next Cons by (auto simp: cons_step_def)
    next
      case (Drain mx)
      then show ?thesis using drain_entry_inv [OF inv'] step C_next Cons by (auto simp: cons_step_def)
    next
      case (Drain_until n mx)
      then show ?thesis
        using drain_entry_inv [OF inv C_next] inv'(1) step C_next Cons by (auto simp: cons_step_def)
    qed
  qed (use step C_next in \<open>simp add: cons_step_def\<close>)
next
  case C_empty
  then show ?thesis using pop_wait_inv [OF inv] step by (auto simp: cons_step_def)
next
  case C_load
  then show ?thesis using pop_load_inv [OF inv] step by (auto simp: cons_step_def)
next
  case C_pop
  then show ?thesis using pop_done_inv [OF inv] step by (auto simp: cons_step_def)
next
  case C_take
  then show ?thesis using drain_take_inv [OF inv] step by (auto simp: cons_step_def)
next
  case C_publish
  then show ?thesis using drained_inv [OF inv] step by (auto simp: cons_step_def)
qed

lemma step_inv: "spsc_step s s' \<Longrightarrow> spsc_inv xs s \<Longrightarrow> spsc_inv xs s'"
  by (erule spsc_stepE) (use prod_step_safe cons_step_safe in blast)+

lemma spsc_reach_inv: "spsc_reach s0 s \<Longrightarrow> spsc_inv xs s0 \<Longrightarrow> spsc_inv xs s"
  by (induction rule: spsc_reach.induct) (auto intro: step_inv)

lemma spsc_new_inv:
  assumes "spsc_new cap ps cs = Inr s0" and "cap < 2 ^ 64" and "length (script_tokens ps) < 2 ^ 64"
  shows "spsc_inv (script_tokens ps) s0"
  using assms by (auto simp: spsc_new_def spsc_inv_def split: if_splits)

lemma queue_view_inv:
  assumes "spsc_inv xs s"
  shows "queue_view s = drop (sp_head s) (take (sp_tail s) xs)"
proof (rule nth_equalityI)
  note t = tail_le [OF assms]
  show "length (queue_view s) = length (drop (sp_head s) (take (sp_tail s) xs))"
    using t by (simp add: queue_view_def)
  show "queue_view s ! i = drop (sp_head s) (take (sp_tail s) xs) ! i" if "i < length (queue_view s)" for i
  proof -
    have i: "i < sp_tail s - sp_head s" using that by (simp add: queue_view_def)
    then have "sp_buf s ! ((sp_head s + i) mod sp_cap s) = xs ! (sp_head s + i)"
      using t assms unfolding spsc_inv_def by auto
    then show ?thesis using i t by (simp add: queue_view_def)
  qed
qed

section \<open>Fuel\<close>

fun push_cost :: "push_call \<Rightarrow> nat" where
  "push_cost (Push v) = 4"
| "push_cost (Batch_publish vs) = length vs + 4"
| "push_cost (Await_consumed k) = 1"

fun prod_rank :: "prod_pc \<Rightarrow> nat" where
  "prod_rank P_next = 0"
| "prod_rank (P_full v) = 3"
| "prod_rank (P_store v) = 2"
| "prod_rank (P_wait vs) = length vs + 3"
| "prod_rank (P_fill vs k) = length vs - k + 2"
| "prod_rank P_publish = 1"

fun pop_cost :: "pop_call \<Rightarrow> nat" where
  "pop_cost Pop = 4"
| "pop_cost (Drain mx) = 1"
| "pop_cost (Drain_until n mx) = 1"

fun cons_rank :: "cons_pc \<Rightarrow> nat" where
  "cons_rank C_next = 3"
| "cons_rank C_empty = 6"
| "cons_rank C_load = 5"
| "cons_rank (C_pop v) = 4"
| "cons_rank (C_take n k) = (if k = 0 then 2 else 5)"
| "cons_rank C_publish = 4"

definition prod_fuel :: "u64 list \<Rightarrow> spsc \<Rightarrow> nat" where
  "prod_fuel xs s = sum_list (map push_cost (pr_todo s)) + prod_rank (pr_pc s) + (length xs - pr_cached_head s)"

definition cons_fuel :: "u64 list \<Rightarrow> spsc \<Rightarrow> nat" where
  "cons_fuel xs s = sum_list (map pop_cost (cn_todo s)) + cons_rank (cn_pc s) +
     (length xs - cn_cached_tail s) + 4 * (length xs - length (cn_got s))"

lemma head_le: "spsc_inv xs s \<Longrightarrow> pr_cached_head s \<le> sp_head s \<and> sp_head s \<le> sp_tail s \<and> sp_tail s \<le> length xs"
  using tail_le by (fastforce simp: spsc_inv_def)

lemma prod_step_fuel:
  assumes inv: "spsc_inv xs s" and step: "prod_step s = Some (Inr s')" and "s' \<noteq> s"
  shows "prod_fuel xs s' < prod_fuel xs s \<and> cons_fuel xs s' = cons_fuel xs s"
proof (cases "pr_pc s")
  case P_next
  with step assms(3) show ?thesis
    by (auto simp: prod_step_def prod_fuel_def cons_fuel_def push_entry_def batch_entry_def Let_def
        split: list.splits push_call.splits if_splits)
next
  case (P_full v)
  have "pr_cached_head s \<noteq> sp_head s" if "s' = s\<lparr>pr_cached_head := sp_head s, pr_pc := P_full v\<rparr>"
    using assms(3) that P_full by auto
  with step P_full head_le [OF inv] show ?thesis
    by (auto simp: prod_step_def prod_fuel_def cons_fuel_def push_wait_def Let_def)
next
  case (P_wait vs)
  have "pr_cached_head s \<noteq> sp_head s" if "s' = s\<lparr>pr_cached_head := sp_head s, pr_pc := P_wait vs\<rparr>"
    using assms(3) that P_wait by auto
  with step P_wait head_le [OF inv] show ?thesis
    by (auto simp: prod_step_def prod_fuel_def cons_fuel_def batch_wait_def Let_def)
qed (use step in \<open>auto simp: prod_step_def prod_fuel_def cons_fuel_def push_store_def batch_fill_def
    split: if_splits\<close>)

lemma drain_entry_fuel:
  assumes inv: "spsc_inv xs s" and pc: "cn_pc s = C_next" and s': "drain_entry mx s \<noteq> s"
  shows "cons_fuel xs (drain_entry mx s) < cons_fuel xs s"
proof -
  define t where "t = (if cn_head s = cn_cached_tail s then sp_tail s else cn_cached_tail s)"
  define n where "n = min (usize_sub t (cn_head s)) mx"
  have d: "drain_entry mx s = s\<lparr>cn_cached_tail := t, cn_pc := if n = 0 then C_next else C_take n 0\<rparr>"
    by (simp add: drain_entry_def t_def n_def Let_def)
  have t: "cn_cached_tail s \<le> t" "t \<le> length xs" using inv head_le [OF inv] by (auto simp: spsc_inv_def t_def)
  have "cn_cached_tail s \<noteq> t" if "n = 0"
  proof
    assume "cn_cached_tail s = t"
    then have "drain_entry mx s = s\<lparr>cn_cached_tail := cn_cached_tail s, cn_pc := C_next\<rparr>" using that d by simp
    then show False using s' pc by simp
  qed
  then show ?thesis
    using t pc by (cases "n = 0") (simp_all add: d cons_fuel_def)
qed

lemma got_le: "spsc_inv xs s \<Longrightarrow> length (cn_got s) \<le> length xs"
  by (metis length_take min.cobounded2 spsc_inv_def min.commute)

lemma cons_step_fuel:
  assumes inv: "spsc_inv xs s" and step: "cons_step s = Some (Inr s')" and ne: "s' \<noteq> s"
  shows "cons_fuel xs s' < cons_fuel xs s"
proof (cases "cn_pc s")
  case C_next
  have inv': "spsc_inv xs (s\<lparr>cn_todo := cs\<rparr>)" "cn_pc (s\<lparr>cn_todo := cs\<rparr>) = C_next" for cs
    using inv C_next by simp_all
  show ?thesis
  proof (cases "cn_todo s")
    case (Cons c cs)
    have less: "cons_fuel xs (s\<lparr>cn_todo := cs\<rparr>) < cons_fuel xs s" using Cons by (cases c) (simp_all add: cons_fuel_def)
    show ?thesis
    proof (cases c)
      case Pop
      then show ?thesis using step C_next Cons by (auto simp: cons_step_def cons_fuel_def pop_entry_def)
    next
      case (Drain mx)
      then have s': "s' = drain_entry mx (s\<lparr>cn_todo := cs\<rparr>)" using step C_next Cons by (simp add: cons_step_def)
      show ?thesis
        using less_trans [OF drain_entry_fuel [OF inv', of mx cs] less] less
        by (cases "s' = s\<lparr>cn_todo := cs\<rparr>") (auto simp: s')
    next
      case (Drain_until n mx)
      then show ?thesis
        using drain_entry_fuel [OF inv C_next, of mx] less ne step C_next Cons
        by (auto simp: cons_step_def split: if_splits)
    qed
  qed (use step C_next in \<open>simp add: cons_step_def\<close>)
next
  case C_empty
  have "cn_cached_tail s \<noteq> sp_tail s" if "s' = s\<lparr>cn_cached_tail := sp_tail s, cn_pc := C_empty\<rparr>"
    using ne that C_empty by auto
  moreover have "cn_cached_tail s \<le> sp_tail s" using inv by (simp add: spsc_inv_def)
  ultimately show ?thesis
    using step C_empty head_le [OF inv] by (auto simp: cons_step_def cons_fuel_def pop_wait_def Let_def)
next
  case (C_pop v)
  then show ?thesis using step by (auto simp: cons_step_def cons_fuel_def)
next
  case (C_take n k)
  obtain s1 where s1: "drain_take n k s = Inr s1" "spsc_inv xs s1" using drain_take_inv [OF inv C_take] by blast
  then have "s' = s1" using step C_take by (simp add: cons_step_def)
  with s1 have "length (cn_got s') \<le> length xs" "0 < n" "k \<le> n" "drain_take n k s = Inr s'"
    using got_le inv C_take by (auto simp: spsc_inv_def)
  then show ?thesis
    using C_take by (auto simp: cons_fuel_def drain_take_def split: if_splits)
qed (use step in \<open>auto simp: cons_step_def cons_fuel_def pop_load_def\<close>)

lemma cons_step_prod_fuel: "cons_step s = Some (Inr s') \<Longrightarrow> prod_fuel xs s' = prod_fuel xs s"
  by (auto simp: cons_step_def prod_fuel_def pop_entry_def pop_wait_def pop_load_def drain_entry_def
      drain_take_def Let_def split: cons_pc.splits list.splits pop_call.splits if_splits)

lemma spsc_step_fuel:
  assumes "spsc_step s s'" and "spsc_inv xs s" and "s' \<noteq> s"
  shows "prod_fuel xs s' + cons_fuel xs s' < prod_fuel xs s + cons_fuel xs s"
  using assms(1)
proof (cases rule: spsc_step.cases)
  case Producer
  then show ?thesis using prod_step_fuel assms(2,3) by fastforce
next
  case Consumer
  then show ?thesis using cons_step_fuel cons_step_prod_fuel assms(2,3) by fastforce
qed

text \<open>The steps that change the state; a busy-wait that reads what it read before does not.\<close>

definition spsc_moves :: "spsc \<Rightarrow> spsc \<Rightarrow> bool" where
  "spsc_moves s s' \<longleftrightarrow> spsc_step s s' \<and> s' \<noteq> s"

lemma moves_bounded:
  "(spsc_moves ^^ n) s s' \<Longrightarrow> spsc_inv xs s \<Longrightarrow>
   spsc_inv xs s' \<and> n + (prod_fuel xs s' + cons_fuel xs s') \<le> prod_fuel xs s + cons_fuel xs s"
proof (induction n arbitrary: s')
  case (Suc n)
  from Suc.prems(1) obtain s1 where "(spsc_moves ^^ n) s s1" "spsc_moves s1 s'" by auto
  then have s1: "(spsc_moves ^^ n) s s1" "spsc_step s1 s'" "s' \<noteq> s1" by (simp_all add: spsc_moves_def)
  have inv: "spsc_inv xs s1" and fuel: "n + (prod_fuel xs s1 + cons_fuel xs s1) \<le> prod_fuel xs s + cons_fuel xs s"
    using Suc.IH [OF s1(1) Suc.prems(2)] by simp_all
  show ?case using spsc_step_fuel [OF s1(2) inv s1(3)] step_inv [OF s1(2) inv] fuel by simp
qed simp

section \<open>Matching scripts\<close>

text \<open>No burst is longer than the ring, and the producer only waits for tokens it has pushed.\<close>

fun script_fits :: "usize \<Rightarrow> nat \<Rightarrow> push_call list \<Rightarrow> bool" where
  "script_fits cap n [] \<longleftrightarrow> True"
| "script_fits cap n (Push v # ps) \<longleftrightarrow> script_fits cap (Suc n) ps"
| "script_fits cap n (Batch_publish vs # ps) \<longleftrightarrow> length vs \<le> cap \<and> script_fits cap (n + length vs) ps"
| "script_fits cap n (Await_consumed k # ps) \<longleftrightarrow> k \<le> n \<and> script_fits cap n ps"

text \<open>The consumer takes all of the \<open>n\<close> tokens, by as many pops or by draining until it has them.\<close>

definition takes_all :: "nat \<Rightarrow> pop_call list \<Rightarrow> bool" where
  "takes_all n cs \<longleftrightarrow> cs = replicate n Pop \<or> (\<exists>mx. 0 < mx \<and> cs = [Drain_until n mx])"

definition prod_plan :: "spsc \<Rightarrow> bool" where
  "prod_plan s \<longleftrightarrow> script_fits (sp_cap s) (pr_tail s + length (pr_open (pr_pc s))) (pr_todo s)"

fun popping :: "cons_pc \<Rightarrow> nat option" where
  "popping C_next = Some 0"
| "popping C_empty = Some 1"
| "popping C_load = Some 1"
| "popping (C_pop v) = Some 1"
| "popping (C_take n k) = None"
| "popping C_publish = None"

definition cons_plan :: "nat \<Rightarrow> spsc \<Rightarrow> bool" where
  "cons_plan n s \<longleftrightarrow>
     (\<exists>m k. cn_todo s = replicate m Pop \<and> popping (cn_pc s) = Some k \<and> length (cn_got s) + k + m = n) \<or>
     (\<exists>mx. 0 < mx \<and> cn_todo s = [Drain_until n mx] \<and> popping (cn_pc s) \<noteq> Some 1)"

lemma prod_step_plan:
  assumes inv: "spsc_inv xs s" and plan: "prod_plan s" and step: "prod_step s = Some r"
  shows "\<exists>s'. r = Inr s' \<and> prod_plan s' \<and> cn_todo s' = cn_todo s \<and> cn_pc s' = cn_pc s \<and> cn_got s' = cn_got s"
proof -
  have "r \<noteq> Inl e" for e
    using prod_step_safe [OF inv step] plan by (cases r) (auto simp: prod_plan_def)
  then obtain s' where r: "r = Inr s'" by (cases r) auto
  have tail: "usize_add (pr_tail s) (length (pr_open (pr_pc s))) = pr_tail s + length (pr_open (pr_pc s))"
    using inv split_take(2) [of "pr_tail s" xs "pr_open (pr_pc s)" "script_tokens (pr_todo s)"]
    by (auto simp: spsc_inv_def)
  show ?thesis
    using plan step tail unfolding r
    by (auto simp: prod_step_def prod_plan_def push_entry_def push_wait_def push_store_def batch_entry_def
        batch_wait_def batch_fill_def Let_def split: prod_pc.splits list.splits push_call.splits if_splits)
qed

lemma cons_step_plan:
  assumes plan: "cons_plan n s" and got: "length (cn_got s) \<le> n" and step: "cons_step s = Some (Inr s')"
  shows "cons_plan n s' \<and> sp_cap s' = sp_cap s \<and> pr_tail s' = pr_tail s \<and> pr_pc s' = pr_pc s \<and> pr_todo s' = pr_todo s"
  using plan got step
  by (auto simp: cons_step_def cons_plan_def pop_entry_def pop_wait_def pop_load_def drain_entry_def
      drain_take_def Let_def Cons_replicate_eq split: cons_pc.splits list.splits pop_call.splits if_splits)

definition spsc_plan :: "u64 list \<Rightarrow> spsc \<Rightarrow> bool" where
  "spsc_plan xs s \<longleftrightarrow> spsc_inv xs s \<and> prod_plan s \<and> cons_plan (length xs) s"

lemma step_plan:
  assumes "spsc_step s s'" and plan: "spsc_plan xs s"
  shows "spsc_plan xs s'"
  using assms(1)
proof (cases rule: spsc_step.cases)
  case Producer
  then show ?thesis
    using prod_step_plan [of xs s "Inr s'"] step_inv [OF assms(1), of xs] plan
    by (auto simp: spsc_plan_def cons_plan_def)
next
  case Consumer
  then show ?thesis
    using cons_step_plan [of "length xs" s s'] got_le [of xs s] step_inv [OF assms(1), of xs] plan
    by (auto simp: spsc_plan_def prod_plan_def)
qed

lemma reach_plan: "spsc_reach s0 s \<Longrightarrow> spsc_plan xs s0 \<Longrightarrow> spsc_plan xs s"
  by (induction rule: spsc_reach.induct) (auto intro: step_plan)

definition spsc_finished :: "spsc \<Rightarrow> bool" where
  "spsc_finished s \<longleftrightarrow> pr_pc s = P_next \<and> pr_todo s = [] \<and> cn_pc s = C_next \<and> cn_todo s = []"

lemma finished_got:
  assumes "spsc_plan xs s" and "spsc_finished s"
  shows "cn_got s = xs"
proof -
  have "length (cn_got s) = length xs" using assms by (auto simp: spsc_plan_def spsc_finished_def cons_plan_def)
  moreover have "take (length (cn_got s)) xs = cn_got s" using assms(1) by (simp add: spsc_plan_def spsc_inv_def)
  ultimately show ?thesis by simp
qed

lemma cons_movesI:
  assumes "cons_step s = Some (Inr s')" and "cn_pc s' \<noteq> cn_pc s \<or> cn_todo s' \<noteq> cn_todo s"
  shows "\<exists>s'. spsc_moves s s'"
  using assms spsc_step.Consumer unfolding spsc_moves_def by blast

lemma prod_movesI:
  assumes "prod_step s = Some (Inr s')" and "pr_pc s' \<noteq> pr_pc s \<or> pr_todo s' \<noteq> pr_todo s"
  shows "\<exists>s'. spsc_moves s s'"
  using assms spsc_step.Producer unfolding spsc_moves_def by blast

lemma cons_moves:
  assumes plan: "spsc_plan xs s"
    and work: "sp_head s < sp_tail s \<or> sp_head s = length xs \<and> (cn_pc s \<noteq> C_next \<or> cn_todo s \<noteq> [])"
  shows "\<exists>s'. spsc_moves s s'"
proof -
  have inv: "spsc_inv xs s" and cplan: "cons_plan (length xs) s" using plan by (simp_all add: spsc_plan_def)
  note h = head_le [OF inv] tail_le [OF inv]
  show ?thesis
  proof (cases "cn_pc s")
    case C_next
    have got: "cn_head s = sp_head s" "length (cn_got s) = sp_head s" "cn_head s \<le> cn_cached_tail s"
      "cn_cached_tail s \<le> sp_tail s"
      using inv C_next by (simp_all add: spsc_inv_def)
    show ?thesis
    proof (cases "cn_todo s")
      case Nil
      then show ?thesis using cplan work got h C_next by (auto simp: cons_plan_def)
    next
      case (Cons c cs)
      show ?thesis
      proof (cases c)
        case Pop
        show ?thesis
          by (rule cons_movesI [of _ "pop_entry (s\<lparr>cn_todo := cs\<rparr>)"])
            (simp_all add: cons_step_def C_next Cons Pop pop_entry_def)
      next
        case (Drain mx)
        show ?thesis using cplan Cons Drain by (auto simp: cons_plan_def Cons_replicate_eq)
      next
        case (Drain_until n mx)
        then have n: "n = length xs" "0 < mx" using cplan Cons by (auto simp: cons_plan_def Cons_replicate_eq)
        show ?thesis
        proof (cases "length (cn_got s) < n")
          case True
          let ?t = "if cn_head s = cn_cached_tail s then sp_tail s else cn_cached_tail s"
          have "cn_head s < ?t" "?t < 2 ^ 64" using True work got h n by auto
          then have "0 < min (usize_sub ?t (cn_head s)) mx" using n by simp
          then have "cn_pc (drain_entry mx s) \<noteq> C_next" unfolding drain_entry_def Let_def by simp
          then show ?thesis
            by (intro cons_movesI [of _ "drain_entry mx s"]) (simp_all add: cons_step_def C_next Cons Drain_until True)
        next
          case False
          then show ?thesis
            by (intro cons_movesI [of _ "s\<lparr>cn_todo := cs\<rparr>"]) (simp_all add: cons_step_def C_next Cons Drain_until)
        qed
      qed
    qed
  next
    case C_empty
    have "length (cn_got s) < length xs" using cplan C_empty by (auto simp: cons_plan_def)
    then have "cn_head s < sp_tail s" using inv C_empty work by (auto simp: spsc_inv_def)
    then have "cn_pc (pop_wait s) = C_load" by (simp add: pop_wait_def Let_def)
    then show ?thesis by (intro cons_movesI [of _ "pop_wait s"]) (simp_all add: cons_step_def C_empty)
  next
    case C_load
    obtain s1 where "pop_load s = Inr s1" using pop_load_inv [OF inv C_load] by blast
    then show ?thesis by (intro cons_movesI [of _ s1]) (auto simp: cons_step_def C_load pop_load_def)
  next
    case (C_pop v)
    then show ?thesis
      by (intro cons_movesI [of _ "s\<lparr>sp_head := cn_head s, cn_got := cn_got s @ [v], cn_pc := C_next\<rparr>"])
        (simp_all add: cons_step_def)
  next
    case (C_take n k)
    obtain s1 where "drain_take n k s = Inr s1" using drain_take_inv [OF inv C_take] by blast
    then show ?thesis
      by (intro cons_movesI [of _ s1]) (auto simp: cons_step_def C_take drain_take_def split: if_splits)
  next
    case C_publish
    then show ?thesis
      by (intro cons_movesI [of _ "s\<lparr>sp_head := cn_head s, cn_pc := C_next\<rparr>"]) (simp_all add: cons_step_def)
  qed
qed

text \<open>A waiting producer waits for a consumer that can go on.\<close>

lemma not_stuck:
  assumes plan: "spsc_plan xs s" and unfinished: "\<not> spsc_finished s"
  shows "\<exists>s'. spsc_moves s s'"
proof -
  have inv: "spsc_inv xs s" and pplan: "prod_plan s" using plan by (simp_all add: spsc_plan_def)
  note h = head_le [OF inv] tail_le [OF inv]
  show ?thesis
  proof (cases "pr_pc s")
    case P_next
    have tail: "sp_tail s = pr_tail s" using inv P_next by (simp add: spsc_inv_def)
    show ?thesis
    proof (cases "pr_todo s")
      case Nil
      then have "take (pr_tail s) xs = xs" using inv P_next by (simp add: spsc_inv_def script_tokens_def)
      then have "sp_tail s = length xs" using tail h by (metis length_take min_absorb2)
      then show ?thesis
        using cons_moves [OF plan] unfinished P_next Nil h by (fastforce simp: spsc_finished_def)
    next
      case (Cons c ps)
      show ?thesis
      proof (cases c)
        case (Push v)
        show ?thesis
          by (rule prod_movesI [of _ "push_entry v (s\<lparr>pr_todo := ps\<rparr>)"])
            (simp_all add: prod_step_def P_next Cons Push push_entry_def)
      next
        case (Batch_publish vs)
        then have "length vs \<le> sp_cap s" using pplan P_next Cons by (simp add: prod_plan_def)
        then obtain s1 where "batch_entry vs (s\<lparr>pr_todo := ps\<rparr>) = Inr s1" "pr_pc s1 \<noteq> P_next"
          by (auto simp: batch_entry_def Let_def)
        then show ?thesis
          by (intro prod_movesI [of _ s1]) (simp_all add: prod_step_def P_next Cons Batch_publish)
      next
        case (Await_consumed k)
        show ?thesis
        proof (cases "sp_head s < k")
          case True
          then have "sp_head s < sp_tail s" using pplan P_next Cons Await_consumed tail by (simp add: prod_plan_def)
          then show ?thesis using cons_moves [OF plan] by blast
        next
          case False
          then show ?thesis
            by (intro prod_movesI [of _ "s\<lparr>pr_todo := ps\<rparr>"])
              (simp_all add: prod_step_def P_next Cons Await_consumed consumed_def)
        qed
      qed
    qed
  next
    case (P_full v)
    have tail: "sp_tail s = pr_tail s" "0 < sp_cap s" using inv P_full by (simp_all add: spsc_inv_def)
    show ?thesis
    proof (cases "sp_head s < sp_tail s")
      case False
      then have "usize_sub (pr_tail s) (sp_head s) < sp_cap s" using tail h by simp
      then show ?thesis
        by (intro prod_movesI [of _ "push_wait v s"]) (simp_all add: prod_step_def P_full push_wait_def Let_def)
    qed (use cons_moves [OF plan] in blast)
  next
    case (P_wait vs)
    have tail: "sp_tail s = pr_tail s" "length vs \<le> sp_cap s"
      and xs: "take (pr_tail s) xs @ vs @ script_tokens (pr_todo s) = xs"
      using inv P_wait by (simp_all add: spsc_inv_def)
    show ?thesis
    proof (cases "sp_head s < sp_tail s")
      case False
      then have "usize_sub (usize_add (pr_tail s) (length vs)) (sp_head s) \<le> sp_cap s"
        using tail h split_take(2) [OF xs] by simp
      then show ?thesis
        by (intro prod_movesI [of _ "batch_wait vs s"]) (simp_all add: prod_step_def P_wait batch_wait_def Let_def)
    qed (use cons_moves [OF plan] in blast)
  next
    case (P_store v)
    obtain s1 where "push_store v s = Inr s1" using push_store_inv [OF inv P_store] by blast
    then show ?thesis by (intro prod_movesI [of _ s1]) (auto simp: prod_step_def P_store push_store_def)
  next
    case (P_fill vs k)
    obtain s1 where "batch_fill vs k s = Inr s1" using batch_fill_inv [OF inv P_fill] by blast
    then show ?thesis
      by (intro prod_movesI [of _ s1]) (auto simp: prod_step_def P_fill batch_fill_def split: if_splits)
  next
    case P_publish
    then show ?thesis
      by (intro prod_movesI [of _ "s\<lparr>sp_tail := pr_tail s, pr_pc := P_next\<rparr>"]) (simp_all add: prod_step_def)
  qed
qed

lemma spsc_new_plan:
  assumes new: "spsc_new cap ps cs = Inr s0" and cap: "cap < 2 ^ 64" "length (script_tokens ps) < 2 ^ 64"
    and fits: "script_fits cap 0 ps" and all: "takes_all (length (script_tokens ps)) cs"
  shows "spsc_plan (script_tokens ps) s0"
  using spsc_new_inv [OF new cap] assms
  by (auto simp: spsc_plan_def prod_plan_def cons_plan_def takes_all_def spsc_new_def split: if_splits)

end
