(* ===== verification/Ring_Theorems.thy ===== *)
theory Ring_Theorems
  imports Ring_Runs
begin

text \<open>The properties of the single-producer ring and its benchmark, with witnesses.\<close>

lemma step_cap: "spsc_step s s' \<Longrightarrow> sp_cap s' = sp_cap s"
  by (erule spsc_stepE)
    (auto simp: prod_step_def push_entry_def push_wait_def push_store_def batch_entry_def batch_wait_def
      batch_fill_def cons_step_def pop_entry_def pop_wait_def pop_load_def drain_entry_def drain_take_def Let_def
      split: prod_pc.splits list.splits push_call.splits cons_pc.splits pop_call.splits if_splits)

lemma reach_cap: "spsc_reach s0 s \<Longrightarrow> sp_cap s = sp_cap s0"
  by (induction rule: spsc_reach.induct) (auto simp: step_cap)

lemma spsc_new_cap: "spsc_new cap ps cs = Inr s0 \<Longrightarrow> sp_cap s0 = cap"
  by (auto simp: spsc_new_def split: if_splits)

lemma spsc_new_fuel:
  "spsc_new cap ps cs = Inr s0 \<Longrightarrow> prod_fuel xs s0 + cons_fuel xs s0 =
    sum_list (map push_cost ps) + sum_list (map pop_cost cs) + 6 * length xs + 3"
  by (auto simp: spsc_new_def prod_fuel_def cons_fuel_def split: if_splits)

text \<open>C20 (safety): in every interleaving of a producer and a consumer with any scripts, the consumer
  gets the pushed tokens in order, none lost, duplicated or overwritten: what it got is a prefix
  of what the producer publishes, the slots between the published counters hold the tokens in
  between, and they are never more than the capacity. The consumer never panics and the producer
  only on a burst longer than the ring.\<close>

theorem spsc_safe:
  assumes new: "spsc_new cap ps cs = Inr s0" and cap: "cap < 2 ^ 64"
    and tokens: "length (script_tokens ps) < 2 ^ 64" and reach: "spsc_reach s0 s"
  shows "take (length (cn_got s)) (script_tokens ps) = cn_got s \<and>
    queue_view s = drop (sp_head s) (take (sp_tail s) (script_tokens ps)) \<and>
    sp_head s \<le> sp_tail s \<and> sp_tail s - sp_head s \<le> cap \<and>
    (\<forall>e. cons_step s \<noteq> Some (Inl e)) \<and>
    (\<forall>e. prod_step s = Some (Inl e) \<longrightarrow>
      e = Assertion_failed \<and> (\<exists>vs qs. pr_todo s = Batch_publish vs # qs \<and> cap < length vs))"
proof -
  have inv: "spsc_inv (script_tokens ps) s" using spsc_reach_inv [OF reach] spsc_new_inv [OF new cap tokens] .
  have "sp_cap s = cap" using reach_cap [OF reach] spsc_new_cap [OF new] by simp
  moreover have "sp_tail s - sp_head s \<le> sp_cap s" "take (length (cn_got s)) (script_tokens ps) = cn_got s"
    using inv tail_le [OF inv] by (auto simp: spsc_inv_def)
  moreover have "cons_step s \<noteq> Some (Inl e)" for e using cons_step_safe [OF inv, of "Inl e"] by auto
  moreover have "e = Assertion_failed \<and> (\<exists>vs qs. pr_todo s = Batch_publish vs # qs \<and> sp_cap s < length vs)"
    if "prod_step s = Some (Inl e)" for e using prod_step_safe [OF inv that] by auto
  ultimately show ?thesis using queue_view_inv [OF inv] head_le [OF inv] by simp
qed

theorem spsc_safe_witness:
  "\<exists>s0. spsc_new 2 [Push 7, Batch_publish [8, 9]] [Pop, Drain 5] = Inr s0 \<and> spsc_reach s0 s0 \<and>
    queue_view s0 = [] \<and> sp_tail s0 - sp_head s0 \<le> 2"
proof -
  obtain s0 where s0: "spsc_new 2 [Push 7, Batch_publish [8, 9]] [Pop, Drain 5] = Inr s0" by (simp add: spsc_new_def)
  then have "sp_tail s0 = 0" by (auto simp: spsc_new_def)
  then show ?thesis
    using spsc_safe [OF s0 _ _ spsc_reach.Start] s0 spsc_reach.Start by (simp add: script_tokens_def)
qed

text \<open>C21 (liveness): with a producer whose bursts fit the ring and which awaits only tokens it has
  pushed, and a consumer that takes them all, no schedule gets stuck: in every reachable state both are
  done, and the consumer got exactly the pushed tokens, or some step changes the state; and no
  schedule has more than a fixed number of such steps, the others being busy-waits.\<close>

theorem spsc_completes:
  assumes new: "spsc_new cap ps cs = Inr s0" and cap: "cap < 2 ^ 64"
    and tokens: "length (script_tokens ps) < 2 ^ 64" and fits: "script_fits cap 0 ps"
    and all: "takes_all (length (script_tokens ps)) cs"
  shows "(\<forall>n s. (spsc_moves ^^ n) s0 s \<longrightarrow>
      n \<le> sum_list (map push_cost ps) + sum_list (map pop_cost cs) + 6 * length (script_tokens ps) + 3) \<and>
    (\<forall>s. spsc_reach s0 s \<longrightarrow>
      (if spsc_finished s then cn_got s = script_tokens ps else \<exists>s'. spsc_step s s' \<and> s' \<noteq> s))"
proof -
  have plan: "spsc_plan (script_tokens ps) s0" by (rule spsc_new_plan [OF new cap tokens fits all])
  then have inv: "spsc_inv (script_tokens ps) s0" by (simp add: spsc_plan_def)
  have "n \<le> sum_list (map push_cost ps) + sum_list (map pop_cost cs) + 6 * length (script_tokens ps) + 3"
    if "(spsc_moves ^^ n) s0 s" for n s
    using moves_bounded [OF that inv] spsc_new_fuel [OF new, of "script_tokens ps"] by simp
  moreover have "if spsc_finished s then cn_got s = script_tokens ps else \<exists>s'. spsc_step s s' \<and> s' \<noteq> s"
    if "spsc_reach s0 s" for s
    using reach_plan [OF that plan] finished_got not_stuck by (simp add: spsc_moves_def)
  ultimately show ?thesis by blast
qed

theorem spsc_completes_witness:
  "\<exists>s0. spsc_new 2 [Push 7, Batch_publish [8, 9], Await_consumed 3] [Drain_until 3 5] = Inr s0 \<and>
    spsc_reach s0 s0 \<and> (\<exists>s'. spsc_step s0 s' \<and> s' \<noteq> s0)"
proof -
  obtain s0 where s0: "spsc_new 2 [Push 7, Batch_publish [8, 9], Await_consumed 3] [Drain_until 3 5] = Inr s0"
    by (simp add: spsc_new_def)
  then have "\<not> spsc_finished s0" by (auto simp: spsc_new_def spsc_finished_def)
  then show ?thesis
    using spsc_completes [OF s0] s0 spsc_reach.Start by (simp add: script_tokens_def takes_all_def)
qed

section \<open>The benchmark\<close>

lemma script_fits_pushes:
  "script_fits cap n (replicate k (Push v) @ qs) = script_fits cap (n + k) qs"
  by (induction k arbitrary: n) simp_all

lemma ring_main_script:
  assumes "0 < cap" and "cap < 2 ^ 64" and "warmup + iters < 2 ^ 64"
  shows "\<exists>s0. ring_main cap warmup iters = Inr s0 \<and> spsc_plan (replicate (warmup + iters) 1) s0 \<and>
    prod_fuel (replicate (warmup + iters) 1) s0 + cons_fuel (replicate (warmup + iters) 1) s0 =
      14 * (warmup + iters) + 5"
proof -
  let ?ps = "replicate warmup (Push 1) @ Await_consumed warmup # replicate iters (Push 1) @ [Await_consumed (warmup + iters)]"
  let ?cs = "replicate (warmup + iters) Pop"
  have tokens: "script_tokens ?ps = replicate (warmup + iters) 1"
    by (simp add: script_tokens_def map_replicate_const concat_replicate_trivial replicate_add flip: concat_append)
       (simp add: concat_map_singleton map_replicate_const)
  obtain s0 where s0: "spsc_new cap ?ps ?cs = Inr s0" using assms(1) by (simp add: spsc_new_def)
  have "ring_main cap warmup iters = Inr s0" using s0 assms(3) by (simp add: ring_main_def Let_def)
  moreover have "spsc_plan (script_tokens ?ps) s0"
    by (rule spsc_new_plan [OF s0 assms(2)]) (use assms(3) in \<open>simp_all add: tokens takes_all_def script_fits_pushes\<close>)
  moreover have "prod_fuel (replicate (warmup + iters) 1) s0 + cons_fuel (replicate (warmup + iters) 1) s0 =
      14 * (warmup + iters) + 5"
    using spsc_new_fuel [OF s0, of "replicate (warmup + iters) 1"] by (simp add: sum_list_replicate)
  ultimately show ?thesis unfolding tokens by blast
qed

text \<open>The ring benchmark ends under every schedule, for every positive capacity:
  no schedule has more than 14 steps per token and five more that are not busy-waits, no
  reachable state is stuck, and when both threads are done the consumer popped every token.\<close>

theorem ring_main_completes:
  assumes "0 < cap" and "cap < 2 ^ 64" and "warmup + iters < 2 ^ 64"
  shows "\<exists>s0. ring_main cap warmup iters = Inr s0 \<and>
    (\<forall>n s. (spsc_moves ^^ n) s0 s \<longrightarrow> n \<le> 14 * (warmup + iters) + 5) \<and>
    (\<forall>s. spsc_reach s0 s \<longrightarrow>
      (if spsc_finished s then cn_got s = replicate (warmup + iters) 1 \<and> consumed s = warmup + iters
       else \<exists>s'. spsc_step s s' \<and> s' \<noteq> s))"
proof -
  obtain s0 where s0: "ring_main cap warmup iters = Inr s0" "spsc_plan (replicate (warmup + iters) 1) s0"
    "prod_fuel (replicate (warmup + iters) 1) s0 + cons_fuel (replicate (warmup + iters) 1) s0 =
      14 * (warmup + iters) + 5"
    using ring_main_script [OF assms] by blast
  then have inv: "spsc_inv (replicate (warmup + iters) 1) s0" by (simp add: spsc_plan_def)
  have "n \<le> 14 * (warmup + iters) + 5" if "(spsc_moves ^^ n) s0 s" for n s
    using moves_bounded [OF that inv] s0(3) by simp
  moreover have "if spsc_finished s then cn_got s = replicate (warmup + iters) 1 \<and> consumed s = warmup + iters
      else \<exists>s'. spsc_step s s' \<and> s' \<noteq> s" if "spsc_reach s0 s" for s
  proof -
    have plan: "spsc_plan (replicate (warmup + iters) 1) s" by (rule reach_plan [OF that s0(2)])
    then have "consumed s = length (cn_got s)" if "spsc_finished s"
      using that by (simp add: spsc_plan_def spsc_inv_def spsc_finished_def consumed_def)
    then show ?thesis using finished_got [OF plan] not_stuck [OF plan] by (simp add: spsc_moves_def)
  qed
  ultimately show ?thesis using s0(1) by blast
qed

theorem ring_main_completes_witness:
  "\<exists>s0. ring_main 1024 10 100 = Inr s0 \<and> (\<forall>n s. (spsc_moves ^^ n) s0 s \<longrightarrow> n \<le> 1545)"
  using ring_main_completes [of 1024 10 100] by auto

end
