(* ===== verification/Mpsc.thy ===== *)
theory Mpsc
  imports Prelude
begin

text \<open>
  The lock-free multi-producer single-consumer ring (rust/handoff-compare/src/mpsc.rs): producers
  claim a range of sequence numbers with one \<open>fetch_add\<close>, wait until its slots are free, write
  them and mark each with its round number; the consumer drains the marked prefix. Every access
  to a shared atomic, with the thread-local work up to the next one, is one step of its thread;
  the steps of all threads interleave in any order, sequentially consistent.

  A producer runs a list of bursts, each the values its closure returns; the clones of the
  producer handle are numbered. \<open>mq_log\<close> and \<open>mq_got\<close> are history: the claimed tokens with the
  producer of each, in sequence order, and the tokens handed to the closure of \<open>drain\<close>.
\<close>

datatype mp_pc =
    M_next
  | M_wait "u64 list" usize
  | M_write "u64 list" usize nat
  | M_mark "u64 list" usize nat

record producer =
  mp_pc :: mp_pc
  mp_todo :: "u64 list list"
  mp_cached_head :: usize

datatype drain_call =
    Drain_once usize
  | Drain_total nat usize

datatype mc_pc =
    K_next
  | K_scan usize usize
  | K_load usize usize
  | K_publish

record mpsc =
  mq_buf :: "u64 list"
  mq_avail :: "i64 list"
  mq_cap :: usize
  mq_claim :: usize
  mq_head :: usize
  mq_count :: nat
  mq_prod :: "nat \<Rightarrow> producer"
  mc_pc :: mc_pc
  mc_todo :: "drain_call list"
  mc_head :: usize
  mq_log :: "(nat \<times> u64) list"
  mq_got :: "u64 list"

fun is_power_of_two :: "nat \<Rightarrow> bool" where
  "is_power_of_two n = (if n < 2 then n = 1 else even n \<and> is_power_of_two (n div 2))"

declare is_power_of_two.simps [simp del]

definition mpsc_ring :: "usize \<Rightarrow> u64 list list list \<Rightarrow> drain_call list \<Rightarrow> panic + mpsc" where
  "mpsc_ring cap ps cs =
     (if 0 < cap \<and> is_power_of_two cap
      then Inr \<lparr>mq_buf = replicate cap 0, mq_avail = replicate cap (- 1), mq_cap = cap, mq_claim = 0,
        mq_head = 0, mq_count = length ps,
        mq_prod = (\<lambda>p. \<lparr>mp_pc = M_next, mp_todo = if p < length ps then ps ! p else [], mp_cached_head = 0\<rparr>),
        mc_pc = K_next, mc_todo = cs, mc_head = 0, mq_log = [], mq_got = []\<rparr>
      else Inl Assertion_failed)"

definition round_of :: "usize \<Rightarrow> usize \<Rightarrow> i64" where
  "round_of cap q = of_nat (q div cap)"

section \<open>A producer\<close>

definition set_prod :: "nat \<Rightarrow> (producer \<Rightarrow> producer) \<Rightarrow> mpsc \<Rightarrow> mpsc" where
  "set_prod p f s = s\<lparr>mq_prod := (mq_prod s)(p := f (mq_prod s p))\<rparr>"

text \<open>The head a claim of \<open>n\<close> slots from \<open>q\<close> waits for.\<close>

definition slots_free_at :: "usize \<Rightarrow> usize \<Rightarrow> nat \<Rightarrow> nat" where
  "slots_free_at cap q n = usize_add q n - cap"

definition mp_claim :: "nat \<Rightarrow> u64 list \<Rightarrow> mpsc \<Rightarrow> panic + mpsc" where
  "mp_claim p vs s =
     (if length vs \<le> mq_cap s
      then let q = mq_claim s in
        Inr (set_prod p (\<lambda>r. r\<lparr>mp_pc := if mp_cached_head r < slots_free_at (mq_cap s) q (length vs)
                                     then M_wait vs q else M_write vs q 0\<rparr>)
          (s\<lparr>mq_claim := usize_add q (length vs), mq_log := mq_log s @ map (Pair p) vs\<rparr>))
      else Inl Assertion_failed)"

definition mp_wait :: "nat \<Rightarrow> u64 list \<Rightarrow> usize \<Rightarrow> mpsc \<Rightarrow> mpsc" where
  "mp_wait p vs q s =
     (let h = mq_head s in
      set_prod p (\<lambda>r. r\<lparr>mp_cached_head := h,
        mp_pc := if slots_free_at (mq_cap s) q (length vs) \<le> h then M_write vs q 0 else M_wait vs q\<rparr>) s)"

definition mp_write :: "nat \<Rightarrow> u64 list \<Rightarrow> usize \<Rightarrow> nat \<Rightarrow> mpsc \<Rightarrow> panic + mpsc" where
  "mp_write p vs q k s =
     (if k < length vs
      then and_then (idx_set (mq_buf s) (usize_add q k mod mq_cap s) (vs ! k)) (\<lambda>buf.
        Inr (set_prod p (\<lambda>r. r\<lparr>mp_pc := M_mark vs q k\<rparr>) (s\<lparr>mq_buf := buf\<rparr>)))
      else Inr (set_prod p (\<lambda>r. r\<lparr>mp_pc := M_next\<rparr>) s))"

definition mp_mark :: "nat \<Rightarrow> u64 list \<Rightarrow> usize \<Rightarrow> nat \<Rightarrow> mpsc \<Rightarrow> panic + mpsc" where
  "mp_mark p vs q k s =
     (let i = usize_add q k in
      and_then (idx_set (mq_avail s) (i mod mq_cap s) (round_of (mq_cap s) i)) (\<lambda>avail.
      Inr (set_prod p (\<lambda>r. r\<lparr>mp_pc := M_write vs q (Suc k)\<rparr>) (s\<lparr>mq_avail := avail\<rparr>))))"

definition mp_step :: "nat \<Rightarrow> mpsc \<Rightarrow> (panic + mpsc) option" where
  "mp_step p s =
     (case mp_pc (mq_prod s p) of
        M_next \<Rightarrow>
          (case mp_todo (mq_prod s p) of
             [] \<Rightarrow> None
           | vs # rest \<Rightarrow> Some (mp_claim p vs (set_prod p (\<lambda>r. r\<lparr>mp_todo := rest\<rparr>) s)))
      | M_wait vs q \<Rightarrow> Some (Inr (mp_wait p vs q s))
      | M_write vs q k \<Rightarrow> Some (mp_write p vs q k s)
      | M_mark vs q k \<Rightarrow> Some (mp_mark p vs q k s))"

section \<open>The consumer\<close>

text \<open>One look at the loop of \<open>drain\<close>, with \<open>c\<close> tokens drained: the next slot is marked, or the drain is over.\<close>

definition mc_scan :: "usize \<Rightarrow> usize \<Rightarrow> mpsc \<Rightarrow> panic + mpsc" where
  "mc_scan mx c s =
     (if c < mx
      then and_then (idx (mq_avail s) (mc_head s mod mq_cap s)) (\<lambda>a.
        Inr (s\<lparr>mc_pc := if a = round_of (mq_cap s) (mc_head s) then K_load mx c
                       else if 0 < c then K_publish else K_next\<rparr>))
      else Inr (s\<lparr>mc_pc := if 0 < c then K_publish else K_next\<rparr>))"

definition mc_load :: "usize \<Rightarrow> usize \<Rightarrow> mpsc \<Rightarrow> panic + mpsc" where
  "mc_load mx c s =
     and_then (idx (mq_buf s) (mc_head s mod mq_cap s)) (\<lambda>v.
     Inr (s\<lparr>mq_got := mq_got s @ [v], mc_head := usize_add (mc_head s) 1, mc_pc := K_scan mx (usize_add c 1)\<rparr>))"

definition mc_step :: "mpsc \<Rightarrow> (panic + mpsc) option" where
  "mc_step s =
     (case mc_pc s of
        K_next \<Rightarrow>
          (case mc_todo s of
             [] \<Rightarrow> None
           | Drain_once mx # cs \<Rightarrow> Some (mc_scan mx 0 (s\<lparr>mc_todo := cs\<rparr>))
           | Drain_total n mx # cs \<Rightarrow>
               Some (if length (mq_got s) < n then mc_scan mx 0 s else Inr (s\<lparr>mc_todo := cs\<rparr>)))
      | K_scan mx c \<Rightarrow> Some (mc_scan mx c s)
      | K_load mx c \<Rightarrow> Some (mc_load mx c s)
      | K_publish \<Rightarrow> Some (Inr (s\<lparr>mq_head := mc_head s, mc_pc := K_next\<rparr>)))"

section \<open>Runs\<close>

inductive mpsc_step :: "mpsc \<Rightarrow> mpsc \<Rightarrow> bool" where
  Producer: "p < mq_count s \<Longrightarrow> mp_step p s = Some (Inr s') \<Longrightarrow> mpsc_step s s'"
| Consumer: "mc_step s = Some (Inr s') \<Longrightarrow> mpsc_step s s'"

inductive_cases mpsc_stepE: "mpsc_step s s'"

inductive mpsc_reach for s0 where
  Start: "mpsc_reach s0 s0"
| Step: "mpsc_reach s0 s \<Longrightarrow> mpsc_step s s' \<Longrightarrow> mpsc_reach s0 s'"

text \<open>The tokens that producer \<open>p\<close> claimed, in sequence order.\<close>

definition claimed_by :: "nat \<Rightarrow> mpsc \<Rightarrow> u64 list" where
  "claimed_by p s = map snd (filter (\<lambda>x. fst x = p) (mq_log s))"

end
