(* ===== verification/Mpsc_Inv.thy ===== *)
theory Mpsc_Inv
  imports Mpsc Ring_Inv
begin

text \<open>
  The invariant of the multi-producer ring. A claimed sequence number is pending while its
  producer has not marked it, and marked after; pending ranges are disjoint and ahead of the
  consumer; a marked number ahead of the consumer has its token and its round in its slot, and
  lies less than one capacity ahead of the published head, so no two live numbers share a slot.
\<close>

fun pending :: "mp_pc \<Rightarrow> nat set" where
  "pending M_next = {}"
| "pending (M_wait vs q) = {q..<q + length vs}"
| "pending (M_write vs q k) = {q + k..<q + length vs}"
| "pending (M_mark vs q k) = {q + k..<q + length vs}"

definition claims :: "(nat \<times> u64) list \<Rightarrow> nat \<Rightarrow> u64 list \<Rightarrow> nat \<Rightarrow> bool" where
  "claims log cap vs q \<longleftrightarrow>
     length vs \<le> cap \<and> q + length vs \<le> length log \<and> (\<forall>j<length vs. snd (log ! (q + j)) = vs ! j)"

fun mp_ok :: "(nat \<times> u64) list \<Rightarrow> nat \<Rightarrow> nat \<Rightarrow> u64 list \<Rightarrow> mp_pc \<Rightarrow> bool" where
  "mp_ok log cap h buf M_next \<longleftrightarrow> True"
| "mp_ok log cap h buf (M_wait vs q) \<longleftrightarrow> claims log cap vs q"
| "mp_ok log cap h buf (M_write vs q k) \<longleftrightarrow> claims log cap vs q \<and> k \<le> length vs \<and> q + length vs \<le> h + cap"
| "mp_ok log cap h buf (M_mark vs q k) \<longleftrightarrow>
     claims log cap vs q \<and> k < length vs \<and> q + length vs \<le> h + cap \<and> buf ! ((q + k) mod cap) = vs ! k"

definition marked :: "mpsc \<Rightarrow> nat \<Rightarrow> bool" where
  "marked s i \<longleftrightarrow> i < length (mq_log s) \<and> (\<forall>p. i \<notin> pending (mp_pc (mq_prod s p)))"

fun mc_ok :: "mpsc \<Rightarrow> mc_pc \<Rightarrow> bool" where
  "mc_ok s K_next \<longleftrightarrow> mc_head s = mq_head s"
| "mc_ok s (K_scan mx c) \<longleftrightarrow> mc_head s = mq_head s + c \<and> 0 < c"
| "mc_ok s (K_load mx c) \<longleftrightarrow> mc_head s = mq_head s + c \<and> marked s (mc_head s)"
| "mc_ok s K_publish \<longleftrightarrow> mq_head s < mc_head s"

definition unclaimed :: "mpsc \<Rightarrow> nat" where
  "unclaimed s = (\<Sum>p<mq_count s. length (concat (mp_todo (mq_prod s p))))"

definition mpsc_inv :: "nat \<Rightarrow> (nat \<Rightarrow> u64 list) \<Rightarrow> mpsc \<Rightarrow> bool" where
  "mpsc_inv budget script s \<longleftrightarrow>
     0 < mq_cap s \<and> length (mq_buf s) = mq_cap s \<and> length (mq_avail s) = mq_cap s \<and>
     mq_claim s = length (mq_log s) \<and> length (mq_log s) + unclaimed s = budget \<and> budget < 2 ^ 63 \<and>
     (\<forall>p. mp_ok (mq_log s) (mq_cap s) (mq_head s) (mq_buf s) (mp_pc (mq_prod s p)) \<and>
        mp_cached_head (mq_prod s p) \<le> mq_head s) \<and>
     (\<forall>p p'. p \<noteq> p' \<longrightarrow> pending (mp_pc (mq_prod s p)) \<inter> pending (mp_pc (mq_prod s p')) = {}) \<and>
     mq_head s \<le> mc_head s \<and> mc_head s \<le> length (mq_log s) \<and>
     (\<forall>p. \<forall>i\<in>pending (mp_pc (mq_prod s p)). mc_head s \<le> i) \<and>
     (\<forall>i. mc_head s \<le> i \<and> marked s i \<longrightarrow> i < mq_head s + mq_cap s \<and>
        mq_buf s ! (i mod mq_cap s) = snd (mq_log s ! i) \<and> mq_avail s ! (i mod mq_cap s) = round_of (mq_cap s) i) \<and>
     (\<forall>j<mq_cap s. mq_avail s ! j = - 1 \<or>
        (\<exists>i. i mod mq_cap s = j \<and> marked s i \<and> mq_avail s ! j = round_of (mq_cap s) i)) \<and>
     mq_got s = take (mc_head s) (map snd (mq_log s)) \<and> mc_ok s (mc_pc s) \<and>
     (\<forall>p. claimed_by p s @ concat (mp_todo (mq_prod s p)) = script p)"

lemma mpsc_inv_facts:
  assumes "mpsc_inv budget script s"
  shows inv_shape: "0 < mq_cap s" "length (mq_buf s) = mq_cap s" "length (mq_avail s) = mq_cap s"
      "mq_claim s = length (mq_log s)" "length (mq_log s) + unclaimed s = budget" "budget < 2 ^ 63"
      "mq_head s \<le> mc_head s" "mc_head s \<le> length (mq_log s)"
    and inv_ok: "\<And>p. mp_ok (mq_log s) (mq_cap s) (mq_head s) (mq_buf s) (mp_pc (mq_prod s p))"
      "\<And>p. mp_cached_head (mq_prod s p) \<le> mq_head s"
    and inv_disjoint: "\<And>p p'. p \<noteq> p' \<Longrightarrow> pending (mp_pc (mq_prod s p)) \<inter> pending (mp_pc (mq_prod s p')) = {}"
    and inv_ahead: "\<And>p i. i \<in> pending (mp_pc (mq_prod s p)) \<Longrightarrow> mc_head s \<le> i"
    and inv_slots: "\<And>i. mc_head s \<le> i \<Longrightarrow> marked s i \<Longrightarrow> i < mq_head s + mq_cap s"
      "\<And>i. mc_head s \<le> i \<Longrightarrow> marked s i \<Longrightarrow> mq_buf s ! (i mod mq_cap s) = snd (mq_log s ! i)"
      "\<And>i. mc_head s \<le> i \<Longrightarrow> marked s i \<Longrightarrow> mq_avail s ! (i mod mq_cap s) = round_of (mq_cap s) i"
    and inv_avail: "\<And>j. j < mq_cap s \<Longrightarrow> mq_avail s ! j = - 1 \<or>
        (\<exists>i. i mod mq_cap s = j \<and> marked s i \<and> mq_avail s ! j = round_of (mq_cap s) i)"
    and inv_got: "mq_got s = take (mc_head s) (map snd (mq_log s))"
    and inv_mc: "mc_ok s (mc_pc s)"
    and inv_script: "\<And>p. claimed_by p s @ concat (mp_todo (mq_prod s p)) = script p"
  using assms unfolding mpsc_inv_def by blast+

lemma mc_ok_mono:
  assumes "mc_ok s c" and "mc_head s' = mc_head s" and "mq_head s' = mq_head s"
    and "marked s (mc_head s) \<Longrightarrow> marked s' (mc_head s)"
  shows "mc_ok s' c"
proof (cases c)
  case (K_load mx n)
  then have "mc_head s = mq_head s + n" "marked s (mc_head s)" using assms(1) unfolding K_load mc_ok.simps by blast+
  then show ?thesis using assms(4) unfolding K_load mc_ok.simps assms(2,3) by blast
qed (use assms in simp_all)

lemma sum_upd:
  fixes f :: "'a \<Rightarrow> nat" and p n :: nat
  assumes "p < n"
  shows "(\<Sum>i<n. f ((g(p := x)) i)) + f (g p) = (\<Sum>i<n. f (g i)) + f x"
proof -
  have rest: "(\<Sum>i\<in>{..<n} - {p}. f ((g(p := x)) i)) = (\<Sum>i\<in>{..<n} - {p}. f (g i))"
    by (rule sum.cong) auto
  have p: "p \<in> {..<n}" using assms by simp
  show ?thesis
    using sum.remove [OF finite_lessThan p, of "\<lambda>i. f ((g(p := x)) i)"]
      sum.remove [OF finite_lessThan p, of "\<lambda>i. f (g i)"] rest by simp
qed

section \<open>Reading the marks\<close>

lemma unat_round_of: "i < 2 ^ 63 \<Longrightarrow> unat (round_of cap i) = i div cap"
proof -
  assume "i < 2 ^ 63"
  then have "i div cap < 2 ^ 63" using le_less_trans [OF div_le_dividend] by blast
  then show ?thesis by (simp add: round_of_def unat_of_nat take_bit_nat_eq_self)
qed

lemma round_of_inj:
  assumes "i < 2 ^ 63" and "j < 2 ^ 63" and "i mod cap = j mod cap" and "round_of cap i = round_of cap j"
  shows "i = j"
proof -
  have "i div cap = j div cap" using assms(4) unat_round_of [OF assms(1)] unat_round_of [OF assms(2)] by metis
  then show ?thesis using assms(3) by (metis div_mult_mod_eq)
qed

lemma round_of_proper:
  assumes "i < 2 ^ 63"
  shows "round_of cap i \<noteq> - 1"
proof
  assume "round_of cap i = - 1"
  then have "i div cap = unat (- 1 :: i64)" using unat_round_of [OF assms, of cap] by simp
  also have "\<dots> = 2 ^ 64 - 1" by (simp add: unsigned_minus_1_eq_mask mask_eq_exp_minus_1)
  finally show False using div_le_dividend [of i cap] assms by simp
qed

text \<open>A slot that carries the round of \<open>i\<close> was marked for \<open>i\<close>.\<close>

lemma mark_read:
  assumes inv: "mpsc_inv budget script s" and i: "i \<le> length (mq_log s)"
    and mark: "mq_avail s ! (i mod mq_cap s) = round_of (mq_cap s) i"
  shows "marked s i"
proof -
  have len: "length (mq_log s) < 2 ^ 63" and cap: "0 < mq_cap s" using inv_shape [OF inv] by simp_all
  note slots = inv_avail [OF inv]
  have "i mod mq_cap s < mq_cap s" using cap by simp
  then obtain i' where i': "i' mod mq_cap s = i mod mq_cap s" "marked s i'"
    "mq_avail s ! (i mod mq_cap s) = round_of (mq_cap s) i'"
    using slots mark round_of_proper [of i "mq_cap s"] i len by fastforce
  then have "i' < 2 ^ 63" using len by (simp add: marked_def)
  then have "i' = i" using round_of_inj [of i' i "mq_cap s"] i' mark i len by simp
  then show ?thesis using i'(2) by simp
qed

text \<open>Two live numbers are less than a capacity apart.\<close>

lemma live_slots:
  fixes h i j cap :: nat
  assumes "h \<le> i" "i < h + cap" "h \<le> j" "j < h + cap" "i \<noteq> j"
  shows "i mod cap \<noteq> j mod cap"
  using assms mod_unequal [of i j cap] mod_unequal [of j i cap] by fastforce

section \<open>The steps of a producer\<close>

lemma set_prod_simps [simp]:
  "mq_buf (set_prod p f s) = mq_buf s" "mq_avail (set_prod p f s) = mq_avail s" "mq_cap (set_prod p f s) = mq_cap s"
  "mq_claim (set_prod p f s) = mq_claim s" "mq_head (set_prod p f s) = mq_head s" "mq_count (set_prod p f s) = mq_count s"
  "mc_pc (set_prod p f s) = mc_pc s" "mc_todo (set_prod p f s) = mc_todo s" "mc_head (set_prod p f s) = mc_head s"
  "mq_log (set_prod p f s) = mq_log s" "mq_got (set_prod p f s) = mq_got s"
  "mq_prod (set_prod p f s) = (mq_prod s)(p := f (mq_prod s p))"
  by (simp_all add: set_prod_def)

lemma unclaimed_set_prod:
  assumes "p < mq_count s"
  shows "unclaimed (set_prod p f s) + length (concat (mp_todo (mq_prod s p))) =
    unclaimed s + length (concat (mp_todo (f (mq_prod s p))))"
  unfolding unclaimed_def set_prod_simps
  by (rule sum_upd [OF assms, where f = "\<lambda>r. length (concat (mp_todo r))"])

lemma unclaimed_cong: "mq_count s' = mq_count s \<Longrightarrow> (\<And>p. mp_todo (mq_prod s' p) = mp_todo (mq_prod s p)) \<Longrightarrow>
    unclaimed s' = unclaimed s"
  by (simp add: unclaimed_def)

lemma mp_claim_inv:
  assumes inv: "mpsc_inv budget script s" and p: "p < mq_count s" and pc: "mp_pc (mq_prod s p) = M_next"
    and todo: "mp_todo (mq_prod s p) = vs # rest" and fits: "length vs \<le> mq_cap s"
  shows "\<exists>s'. mp_claim p vs (set_prod p (\<lambda>r. r\<lparr>mp_todo := rest\<rparr>) s) = Inr s' \<and> mpsc_inv budget script s'"
proof -
  let ?q = "length (mq_log s)" and ?r = "mq_prod s p" and ?log = "mq_log s @ map (Pair p) vs"
  define pc' where
    "pc' = (if mp_cached_head ?r < slots_free_at (mq_cap s) ?q (length vs) then M_wait vs ?q else M_write vs ?q 0)"
  define s' where "s' = s\<lparr>mq_claim := ?q + length vs, mq_log := ?log,
    mq_prod := (mq_prod s)(p := ?r\<lparr>mp_todo := rest, mp_pc := pc'\<rparr>)\<rparr>"
  have un: "unclaimed s' + length (concat (vs # rest)) = unclaimed s + length (concat rest)"
    using sum_upd [OF p, of "\<lambda>r. length (concat (mp_todo r))" "mq_prod s" "?r\<lparr>mp_todo := rest, mp_pc := pc'\<rparr>"] todo
    by (simp add: unclaimed_def s'_def del: concat.simps)
  then have count: "length ?log + unclaimed s' = budget" using inv_shape(5) [OF inv] by simp
  then have room: "?q + length vs < 2 ^ 63" using inv_shape(6) [OF inv] by simp
  have add: "usize_add ?q (length vs) = ?q + length vs" using room by simp
  have step: "mp_claim p vs (set_prod p (\<lambda>r. r\<lparr>mp_todo := rest\<rparr>) s) = Inr s'"
    using inv_shape(4) [OF inv] fits by (simp add: mp_claim_def Let_def add s'_def pc'_def set_prod_def)
  have pend: "pending pc' = {?q..<?q + length vs}" by (simp add: pc'_def)
  have pend': "pending (mp_pc (mq_prod s' p')) = (if p' = p then {?q..<?q + length vs} else pending (mp_pc (mq_prod s p')))" for p'
    by (simp add: s'_def pend)
  have claim: "claims ?log (mq_cap s) vs ?q" using fits by (simp add: claims_def nth_append)
  have below: "i < ?q" if "i \<in> pending (mp_pc (mq_prod s p'))" for i p'
    using inv_ok(1) [OF inv, of p'] that by (cases "mp_pc (mq_prod s p')") (auto simp: claims_def)
  have marked: "marked s' i = marked s i" for i
  proof -
    have here: "i \<in> pending (mp_pc (mq_prod s' p)) \<longleftrightarrow> ?q \<le> i \<and> i < ?q + length vs" by (simp add: pend')
    have "i \<in> pending (mp_pc (mq_prod s' p')) \<longleftrightarrow> i \<in> pending (mp_pc (mq_prod s p'))" if "i < ?q" for p'
      using that pc by (simp add: pend')
    then show ?thesis using here by (cases "i < ?q") (auto simp: marked_def s'_def)
  qed
  have ok: "mp_ok ?log (mq_cap s) (mq_head s) (mq_buf s) c" if "mp_ok (mq_log s) (mq_cap s) (mq_head s) (mq_buf s) c" for c
    using that by (cases c) (auto simp: claims_def nth_append)
  have ok_p: "mp_ok ?log (mq_cap s) (mq_head s) (mq_buf s) pc'"
    using claim inv_ok(2) [OF inv, of p] add by (auto simp: pc'_def slots_free_at_def)
  have log: "claimed_by p' s' = claimed_by p' s @ (if p' = p then vs else [])" for p'
    by (simp add: claimed_by_def s'_def comp_def filter_map)
  have same: "mq_cap s' = mq_cap s" "mq_buf s' = mq_buf s" "mq_avail s' = mq_avail s" "mq_head s' = mq_head s"
    "mc_head s' = mc_head s" "mc_pc s' = mc_pc s" "mq_got s' = mq_got s" "mq_log s' = ?log"
    "mq_claim s' = ?q + length vs"
    "\<And>p'. mq_prod s' p' = (if p' = p then ?r\<lparr>mp_todo := rest, mp_pc := pc'\<rparr> else mq_prod s p')"
    by (simp_all add: s'_def)
  have "mpsc_inv budget script s'"
    unfolding mpsc_inv_def
  proof (intro conjI allI impI ballI)
    fix p'
    show "mp_ok (mq_log s') (mq_cap s') (mq_head s') (mq_buf s') (mp_pc (mq_prod s' p'))"
      using ok [OF inv_ok(1) [OF inv, of p']] ok_p by (simp add: same)
    show "mp_cached_head (mq_prod s' p') \<le> mq_head s'" using inv_ok(2) [OF inv] by (simp add: same)
    show "claimed_by p' s' @ concat (mp_todo (mq_prod s' p')) = script p'"
      using inv_script [OF inv, of p'] todo by (auto simp: log same)
  next
    fix p' p'' :: nat
    assume "p' \<noteq> p''"
    then show "pending (mp_pc (mq_prod s' p')) \<inter> pending (mp_pc (mq_prod s' p'')) = {}"
      using inv_disjoint [OF inv, of p' p''] below unfolding pend' by (auto simp: disjoint_iff split: if_splits dest!: below)
  next
    fix p' i
    assume "i \<in> pending (mp_pc (mq_prod s' p'))"
    then show "mc_head s' \<le> i"
      using inv_ahead [OF inv, of i p'] inv_shape(8) [OF inv] unfolding pend' by (auto simp: same split: if_splits)
  next
    fix i
    assume "mc_head s' \<le> i \<and> marked s' i"
    then have i: "mc_head s \<le> i" "marked s i" by (simp_all add: marked same)
    then have "?log ! i = mq_log s ! i" by (simp add: marked_def nth_append)
    then show "i < mq_head s' + mq_cap s'" "mq_buf s' ! (i mod mq_cap s') = snd (mq_log s' ! i)"
      "mq_avail s' ! (i mod mq_cap s') = round_of (mq_cap s') i"
      using inv_slots [OF inv i] by (simp_all add: same)
  next
    fix j
    assume "j < mq_cap s'"
    then show "mq_avail s' ! j = - 1 \<or> (\<exists>i. i mod mq_cap s' = j \<and> marked s' i \<and> mq_avail s' ! j = round_of (mq_cap s') i)"
      using inv_avail [OF inv, of j] by (simp add: marked same)
  next
    show "mc_ok s' (mc_pc s')" using mc_ok_mono [OF inv_mc [OF inv], of s'] by (simp add: same marked)
  qed (use inv_shape [OF inv] inv_got [OF inv] count room in \<open>simp_all add: same\<close>)
  then show ?thesis using step by blast
qed

text \<open>The other steps of a producer only touch the slots and their own program point.\<close>

lemma mp_local_inv:
  assumes inv: "mpsc_inv budget script s"
    and s': "s' = s\<lparr>mq_buf := buf, mq_avail := av, mq_prod := (mq_prod s)(p := r)\<rparr>"
    and r: "mp_todo r = mp_todo (mq_prod s p)" "mp_cached_head r \<le> mq_head s"
      "pending (mp_pc r) \<subseteq> pending (mp_pc (mq_prod s p))"
    and len: "length buf = mq_cap s" "length av = mq_cap s"
    and ok: "mp_ok (mq_log s) (mq_cap s) (mq_head s) buf (mp_pc r)"
      "\<And>p'. p' \<noteq> p \<Longrightarrow> mp_ok (mq_log s) (mq_cap s) (mq_head s) buf (mp_pc (mq_prod s p'))"
    and slots: "\<And>i. mc_head s \<le> i \<Longrightarrow> marked s' i \<Longrightarrow> i < mq_head s + mq_cap s \<and>
        buf ! (i mod mq_cap s) = snd (mq_log s ! i) \<and> av ! (i mod mq_cap s) = round_of (mq_cap s) i"
    and avail: "\<And>j. j < mq_cap s \<Longrightarrow> av ! j = - 1 \<or>
        (\<exists>i. i mod mq_cap s = j \<and> marked s' i \<and> av ! j = round_of (mq_cap s) i)"
  shows "mpsc_inv budget script s'"
proof -
  have same: "mq_cap s' = mq_cap s" "mq_buf s' = buf" "mq_avail s' = av" "mq_head s' = mq_head s"
    "mc_head s' = mc_head s" "mc_pc s' = mc_pc s" "mq_got s' = mq_got s" "mq_log s' = mq_log s"
    "mq_claim s' = mq_claim s" "\<And>p'. mq_prod s' p' = (if p' = p then r else mq_prod s p')"
    "claimed_by p' s' = claimed_by p' s" for p'
    by (simp_all add: s' claimed_by_def)
  have un: "unclaimed s' = unclaimed s" by (rule unclaimed_cong) (simp_all add: s' r)
  have pend: "pending (mp_pc (mq_prod s' p')) \<subseteq> pending (mp_pc (mq_prod s p'))" for p'
    using r(3) by (simp add: same)
  have mono: "marked s' i" if "marked s i" for i using that pend by (auto simp: marked_def same(8))
  show ?thesis
    unfolding mpsc_inv_def
  proof (intro conjI allI impI ballI)
    fix p'
    show "mp_ok (mq_log s') (mq_cap s') (mq_head s') (mq_buf s') (mp_pc (mq_prod s' p'))"
      using ok by (simp add: same)
    show "mp_cached_head (mq_prod s' p') \<le> mq_head s'" using inv_ok(2) [OF inv] r(2) by (simp add: same)
    show "claimed_by p' s' @ concat (mp_todo (mq_prod s' p')) = script p'"
      using inv_script [OF inv, of p'] r(1) by (cases "p' = p") (simp_all add: same)
  next
    fix p' p'' :: nat
    assume "p' \<noteq> p''"
    then show "pending (mp_pc (mq_prod s' p')) \<inter> pending (mp_pc (mq_prod s' p'')) = {}"
      using inv_disjoint [OF inv, of p' p''] pend [of p'] pend [of p''] by blast
  next
    fix p' i
    assume "i \<in> pending (mp_pc (mq_prod s' p'))"
    then show "mc_head s' \<le> i" using inv_ahead [OF inv, of i p'] pend [of p'] by (auto simp: same(5))
  next
    fix i
    assume "mc_head s' \<le> i \<and> marked s' i"
    then show "i < mq_head s' + mq_cap s'" "mq_buf s' ! (i mod mq_cap s') = snd (mq_log s' ! i)"
      "mq_avail s' ! (i mod mq_cap s') = round_of (mq_cap s') i"
      using slots [of i] by (simp_all add: same)
  next
    fix j
    assume "j < mq_cap s'"
    then show "mq_avail s' ! j = - 1 \<or> (\<exists>i. i mod mq_cap s' = j \<and> marked s' i \<and> mq_avail s' ! j = round_of (mq_cap s') i)"
      using avail [of j] by (simp add: same)
  next
    show "mc_ok s' (mc_pc s')" using mc_ok_mono [OF inv_mc [OF inv], of s'] mono by (simp add: same)
  qed (use inv_shape [OF inv] inv_got [OF inv] len in \<open>simp_all add: same un\<close>)
qed

lemma marked_same:
  assumes "mq_log s' = mq_log s" and "\<And>p. pending (mp_pc (mq_prod s' p)) = pending (mp_pc (mq_prod s p))"
  shows "marked s' i = marked s i"
  by (simp add: marked_def assms)

lemma mp_wait_inv:
  assumes inv: "mpsc_inv budget script s" and pc: "mp_pc (mq_prod s p) = M_wait vs q"
  shows "mpsc_inv budget script (mp_wait p vs q s)"
proof -
  have c: "claims (mq_log s) (mq_cap s) vs q" using inv_ok(1) [OF inv, of p] pc by simp
  then have "usize_add q (length vs) = q + length vs" using inv_shape [OF inv] by (simp add: claims_def)
  then have free: "slots_free_at (mq_cap s) q (length vs) \<le> mq_head s \<longleftrightarrow> q + length vs \<le> mq_head s + mq_cap s"
    by (auto simp: slots_free_at_def)
  let ?r = "(mq_prod s p)\<lparr>mp_cached_head := mq_head s,
    mp_pc := if slots_free_at (mq_cap s) q (length vs) \<le> mq_head s then M_write vs q 0 else M_wait vs q\<rparr>"
  have eq: "mp_wait p vs q s = s\<lparr>mq_buf := mq_buf s, mq_avail := mq_avail s, mq_prod := (mq_prod s)(p := ?r)\<rparr>"
    by (simp add: mp_wait_def set_prod_def Let_def)
  have same: "marked (mp_wait p vs q s) i = marked s i" for i
    by (rule marked_same) (simp_all add: eq pc)
  show ?thesis
    by (rule mp_local_inv [OF inv eq])
      (use c free inv_shape [OF inv] inv_ok [OF inv] inv_slots [OF inv] inv_avail [OF inv] pc in \<open>simp_all add: same\<close>)
qed

text \<open>A slot whose number is not yet marked is free for its producer.\<close>

lemma own_slot:
  assumes inv: "mpsc_inv budget script s" and p: "i \<in> pending (mp_pc (mq_prod s p))" "i < mq_head s + mq_cap s"
  shows "mc_head s \<le> j \<Longrightarrow> marked s j \<Longrightarrow> j mod mq_cap s \<noteq> i mod mq_cap s"
    and "p' \<noteq> p \<Longrightarrow> j \<in> pending (mp_pc (mq_prod s p')) \<Longrightarrow> j < mq_head s + mq_cap s \<Longrightarrow>
      j mod mq_cap s \<noteq> i mod mq_cap s"
proof -
  have h: "mq_head s \<le> i" using inv_ahead [OF inv p(1)] inv_shape(7) [OF inv] by simp
  show "j mod mq_cap s \<noteq> i mod mq_cap s" if "mc_head s \<le> j" "marked s j"
  proof (rule live_slots [of "mq_head s"])
    show "j \<noteq> i" using that p(1) by (auto simp: marked_def)
  qed (use that h p(2) inv_slots(1) [OF inv that] inv_shape(7) [OF inv] in simp_all)
  show "j mod mq_cap s \<noteq> i mod mq_cap s"
    if "p' \<noteq> p" "j \<in> pending (mp_pc (mq_prod s p'))" "j < mq_head s + mq_cap s"
  proof (rule live_slots [of "mq_head s"])
    show "j \<noteq> i" using that p(1) inv_disjoint [OF inv that(1)] by auto
  qed (use that h p(2) inv_ahead [OF inv that(2)] inv_shape(7) [OF inv] in simp_all)
qed

lemma mp_write_inv:
  assumes inv: "mpsc_inv budget script s" and pc: "mp_pc (mq_prod s p) = M_write vs q k"
  shows "\<exists>s'. mp_write p vs q k s = Inr s' \<and> mpsc_inv budget script s'"
proof -
  have c: "claims (mq_log s) (mq_cap s) vs q" "k \<le> length vs" "q + length vs \<le> mq_head s + mq_cap s"
    using inv_ok(1) [OF inv, of p] pc by simp_all
  note shape = inv_shape [OF inv]
  show ?thesis
  proof (cases "k < length vs")
    case True
    let ?i = "q + k" and ?r = "(mq_prod s p)\<lparr>mp_pc := M_mark vs q k\<rparr>"
    let ?buf = "(mq_buf s)[?i mod mq_cap s := vs ! k]"
    have add: "usize_add q k = ?i" using c True shape by (simp add: claims_def)
    have i: "?i \<in> pending (mp_pc (mq_prod s p))" "?i < mq_head s + mq_cap s" "?i mod mq_cap s < mq_cap s"
      using pc True c shape(1) by simp_all
    note own = own_slot [OF inv i(1,2)]
    define s' where "s' = s\<lparr>mq_buf := ?buf, mq_avail := mq_avail s, mq_prod := (mq_prod s)(p := ?r)\<rparr>"
    have step: "mp_write p vs q k s = Inr s'"
      using True i(3) shape(2) by (simp add: mp_write_def add idx_set_def set_prod_def s'_def)
    have same: "marked s' j = marked s j" for j by (rule marked_same) (simp_all add: s'_def pc)
    have other: "mp_ok (mq_log s) (mq_cap s) (mq_head s) ?buf (mp_pc (mq_prod s p'))" if "p' \<noteq> p" for p'
    proof (cases "mp_pc (mq_prod s p')")
      case (M_mark vs' q' k')
      then show ?thesis using inv_ok(1) [OF inv, of p'] own(2) [OF that, of "q' + k'"] by simp
    qed (use inv_ok(1) [OF inv, of p'] in simp_all)
    have "mpsc_inv budget script s'"
      by (rule mp_local_inv [OF inv s'_def])
        (use c True i shape inv_ok(2) [OF inv] inv_slots [OF inv] inv_avail [OF inv] pc other own(1) [THEN not_sym]
          in \<open>simp_all add: same\<close>)
    then show ?thesis using step by blast
  next
    case False
    let ?r = "(mq_prod s p)\<lparr>mp_pc := M_next\<rparr>"
    define s' where "s' = s\<lparr>mq_buf := mq_buf s, mq_avail := mq_avail s, mq_prod := (mq_prod s)(p := ?r)\<rparr>"
    have step: "mp_write p vs q k s = Inr s'" using False by (simp add: mp_write_def set_prod_def s'_def)
    have same: "marked s' j = marked s j" for j by (rule marked_same) (use False in \<open>simp_all add: s'_def pc\<close>)
    have "mpsc_inv budget script s'"
      by (rule mp_local_inv [OF inv s'_def])
        (use shape inv_ok [OF inv] inv_slots [OF inv] inv_avail [OF inv] in \<open>simp_all add: same\<close>)
    then show ?thesis using step by blast
  qed
qed

lemma mp_mark_inv:
  assumes inv: "mpsc_inv budget script s" and pc: "mp_pc (mq_prod s p) = M_mark vs q k"
  shows "\<exists>s'. mp_mark p vs q k s = Inr s' \<and> mpsc_inv budget script s'"
proof -
  have c: "claims (mq_log s) (mq_cap s) vs q" "k < length vs" "q + length vs \<le> mq_head s + mq_cap s"
    "mq_buf s ! ((q + k) mod mq_cap s) = vs ! k"
    using inv_ok(1) [OF inv, of p] pc by simp_all
  note shape = inv_shape [OF inv]
  let ?i = "q + k" and ?r = "(mq_prod s p)\<lparr>mp_pc := M_write vs q (Suc k)\<rparr>"
  let ?av = "(mq_avail s)[?i mod mq_cap s := round_of (mq_cap s) ?i]"
  have add: "usize_add q k = ?i" using c shape by (simp add: claims_def)
  have i: "?i \<in> pending (mp_pc (mq_prod s p))" "?i < mq_head s + mq_cap s" "?i mod mq_cap s < mq_cap s"
    "?i < length (mq_log s)" "snd (mq_log s ! ?i) = vs ! k"
    using pc c shape(1) by (simp_all add: claims_def)
  note own = own_slot [OF inv i(1,2)]
  define s' where "s' = s\<lparr>mq_buf := mq_buf s, mq_avail := ?av, mq_prod := (mq_prod s)(p := ?r)\<rparr>"
  have step: "mp_mark p vs q k s = Inr s'"
    using i(3) shape(3) by (simp add: mp_mark_def add idx_set_def set_prod_def s'_def Let_def)
  have marked: "marked s' j \<longleftrightarrow> marked s j \<or> j = ?i" for j
  proof -
    have "j \<in> pending (mp_pc (mq_prod s' p')) \<longleftrightarrow> j \<in> pending (mp_pc (mq_prod s p')) \<and> j \<noteq> ?i" for p'
      using i(1) inv_disjoint [OF inv, of p' p] by (cases "p' = p") (auto simp: s'_def pc)
    then show ?thesis using i(4) by (auto simp: marked_def s'_def)
  qed
  have "mpsc_inv budget script s'"
  proof (rule mp_local_inv [OF inv s'_def])
    fix j
    assume j: "mc_head s \<le> j" "marked s' j"
    show "j < mq_head s + mq_cap s \<and> mq_buf s ! (j mod mq_cap s) = snd (mq_log s ! j) \<and>
        ?av ! (j mod mq_cap s) = round_of (mq_cap s) j"
    proof (cases "j = ?i")
      case False
      then have "marked s j" using j(2) marked by simp
      then show ?thesis using inv_slots [OF inv j(1)] own(1) [OF j(1)] by simp
    qed (use i c(4) shape(3) in simp)
  next
    fix j
    assume "j < mq_cap s"
    then show "?av ! j = - 1 \<or> (\<exists>i. i mod mq_cap s = j \<and> marked s' i \<and> ?av ! j = round_of (mq_cap s) i)"
      using inv_avail [OF inv, of j] shape(3) i(3) marked by (cases "j = ?i mod mq_cap s") auto
  qed (use c i shape inv_ok [OF inv] pc in \<open>simp_all add: Suc_le_eq\<close>)
  then show ?thesis using step by blast
qed

section \<open>The steps of the consumer\<close>

text \<open>What a consumer step leaves as it is.\<close>

lemma mc_same [simp]:
  "marked (s\<lparr>mc_todo := cs\<rparr>) i = marked s i" "marked (s\<lparr>mc_pc := c\<rparr>) i = marked s i"
  "marked (s\<lparr>mc_head := h\<rparr>) i = marked s i" "marked (s\<lparr>mq_got := g\<rparr>) i = marked s i"
  "marked (s\<lparr>mq_head := h\<rparr>) i = marked s i"
  "unclaimed (s\<lparr>mc_todo := cs\<rparr>) = unclaimed s" "unclaimed (s\<lparr>mc_pc := c\<rparr>) = unclaimed s"
  "unclaimed (s\<lparr>mc_head := h\<rparr>) = unclaimed s" "unclaimed (s\<lparr>mq_got := g\<rparr>) = unclaimed s"
  "unclaimed (s\<lparr>mq_head := h\<rparr>) = unclaimed s"
  "claimed_by p (s\<lparr>mc_todo := cs\<rparr>) = claimed_by p s" "claimed_by p (s\<lparr>mc_pc := c\<rparr>) = claimed_by p s"
  "claimed_by p (s\<lparr>mc_head := h\<rparr>) = claimed_by p s" "claimed_by p (s\<lparr>mq_got := g\<rparr>) = claimed_by p s"
  "claimed_by p (s\<lparr>mq_head := h\<rparr>) = claimed_by p s"
  by (simp_all add: marked_def unclaimed_def claimed_by_def)

lemma mc_todo_inv [simp]: "mpsc_inv budget script (s\<lparr>mc_todo := cs\<rparr>) = mpsc_inv budget script s"
proof -
  have "mc_ok (s\<lparr>mc_todo := cs\<rparr>) (mc_pc s) = mc_ok s (mc_pc s)"
    by (cases "mc_pc s") simp_all
  then show ?thesis unfolding mpsc_inv_def by simp
qed

lemma mc_pc_inv:
  assumes inv: "mpsc_inv budget script s" and ok: "mc_ok s c"
  shows "mpsc_inv budget script (s\<lparr>mc_pc := c\<rparr>)"
proof -
  have "mc_ok (s\<lparr>mc_pc := c\<rparr>) c" by (rule mc_ok_mono [OF ok]) simp_all
  then show ?thesis using inv unfolding mpsc_inv_def by simp
qed

lemma mc_scan_inv:
  assumes inv: "mpsc_inv budget script s" and h: "mc_head s = mq_head s + c"
  shows "\<exists>s'. mc_scan mx c s = Inr s' \<and> mpsc_inv budget script s'"
proof -
  note shape = inv_shape [OF inv]
  have read: "idx (mq_avail s) (mc_head s mod mq_cap s) = Inr (mq_avail s ! (mc_head s mod mq_cap s))"
    using shape(1,3) by (simp add: idx_def)
  have load: "mq_avail s ! (mc_head s mod mq_cap s) = round_of (mq_cap s) (mc_head s) \<Longrightarrow> mc_ok s (K_load mx c)"
    using mark_read [OF inv shape(8)] h by simp
  have stop: "mc_ok s (if 0 < c then K_publish else K_next)" using h by simp
  show ?thesis
    using mc_pc_inv [OF inv load] mc_pc_inv [OF inv stop] by (auto simp: mc_scan_def read)
qed

lemma mc_load_inv:
  assumes inv: "mpsc_inv budget script s" and pc: "mc_pc s = K_load mx c"
  shows "\<exists>s'. mc_load mx c s = Inr s' \<and> mpsc_inv budget script s'"
proof -
  let ?h = "mc_head s"
  note shape = inv_shape [OF inv]
  have h: "?h = mq_head s + c" "marked s ?h" using inv_mc [OF inv] pc by auto
  then have lt: "?h < length (mq_log s)" by (simp add: marked_def)
  have add: "usize_add ?h 1 = Suc ?h" "usize_add c 1 = Suc c" using lt h(1) shape by simp_all
  have read: "idx (mq_buf s) (?h mod mq_cap s) = Inr (snd (mq_log s ! ?h))"
    using inv_slots(2) [OF inv _ h(2)] shape(1,2) by (simp add: idx_def)
  define s' where "s' = s\<lparr>mq_got := mq_got s @ [snd (mq_log s ! ?h)], mc_head := Suc ?h, mc_pc := K_scan mx (Suc c)\<rparr>"
  have same: "mq_cap s' = mq_cap s" "mq_buf s' = mq_buf s" "mq_avail s' = mq_avail s" "mq_head s' = mq_head s"
    "mc_head s' = Suc ?h" "mq_log s' = mq_log s" "mq_claim s' = mq_claim s" "mq_prod s' = mq_prod s"
    "mc_pc s' = K_scan mx (Suc c)" "\<And>i. marked s' i = marked s i" "unclaimed s' = unclaimed s"
    "\<And>p. claimed_by p s' = claimed_by p s"
    by (simp_all add: s'_def)
  have got: "mq_got s' = take (Suc ?h) (map snd (mq_log s))"
    using inv_got [OF inv] lt by (simp add: s'_def take_Suc_conv_app_nth)
  have "mpsc_inv budget script s'"
    unfolding mpsc_inv_def
  proof (intro conjI allI impI ballI)
    fix p i
    assume i: "i \<in> pending (mp_pc (mq_prod s' p))"
    then have "i \<noteq> ?h" using h(2) by (auto simp: marked_def same)
    then show "mc_head s' \<le> i" using inv_ahead [OF inv, of i p] i by (simp add: same)
  qed (use shape inv_ok [OF inv] inv_disjoint [OF inv] inv_slots [OF inv] inv_avail [OF inv] inv_script [OF inv] lt h(1) got
    in \<open>simp_all add: same\<close>)
  moreover have "mc_load mx c s = Inr s'" using add read by (simp add: mc_load_def s'_def)
  ultimately show ?thesis by blast
qed

lemma mc_publish_inv:
  assumes inv: "mpsc_inv budget script s" and pc: "mc_pc s = K_publish"
  shows "mpsc_inv budget script (s\<lparr>mq_head := mc_head s, mc_pc := K_next\<rparr>)"
proof -
  define s' where "s' = s\<lparr>mq_head := mc_head s, mc_pc := K_next\<rparr>"
  note shape = inv_shape [OF inv]
  have same: "mq_cap s' = mq_cap s" "mq_buf s' = mq_buf s" "mq_avail s' = mq_avail s" "mq_head s' = mc_head s"
    "mc_head s' = mc_head s" "mq_log s' = mq_log s" "mq_claim s' = mq_claim s" "mq_prod s' = mq_prod s"
    "mc_pc s' = K_next" "mq_got s' = mq_got s" "\<And>i. marked s' i = marked s i" "unclaimed s' = unclaimed s"
    "\<And>p. claimed_by p s' = claimed_by p s"
    by (simp_all add: s'_def)
  have ok: "mp_ok (mq_log s) (mq_cap s) (mc_head s) (mq_buf s) (mp_pc (mq_prod s p))" for p
    using inv_ok(1) [OF inv, of p] shape(7) by (cases "mp_pc (mq_prod s p)") simp_all
  have "mpsc_inv budget script s'"
    unfolding mpsc_inv_def
  proof (intro conjI allI impI ballI)
    fix i
    assume "mc_head s' \<le> i \<and> marked s' i"
    then show "i < mq_head s' + mq_cap s'" using inv_slots(1) [OF inv, of i] shape(7) by (simp add: same)
  next
    fix p
    show "mp_cached_head (mq_prod s' p) \<le> mq_head s'" using inv_ok(2) [OF inv, of p] shape(7) by (simp add: same)
  qed (use shape ok inv_ahead [OF inv] inv_disjoint [OF inv] inv_slots [OF inv] inv_avail [OF inv] inv_script [OF inv]
    inv_got [OF inv] in \<open>simp_all add: same\<close>)
  then show ?thesis by (simp add: s'_def)
qed

end
