(* ===== verification/Mpsc_Runs.thy ===== *)
theory Mpsc_Runs
  imports Mpsc_Inv
begin

text \<open>
  The multi-producer ring over whole runs: every step of every thread keeps the invariant, the
  only panic is a burst longer than the ring, every step that changes the state uses up fuel,
  and while the consumer drains until it has every token no schedule gets stuck.
\<close>

section \<open>Safety\<close>

lemma mp_step_safe:
  assumes inv: "mpsc_inv budget script s" and p: "p < mq_count s" and step: "mp_step p s = Some r"
  shows "(\<exists>s'. r = Inr s' \<and> mpsc_inv budget script s') \<or>
    r = Inl Assertion_failed \<and> mp_pc (mq_prod s p) = M_next \<and>
      (\<exists>vs rest. mp_todo (mq_prod s p) = vs # rest \<and> mq_cap s < length vs)"
proof (cases "mp_pc (mq_prod s p)")
  case M_next
  then obtain vs rest where todo: "mp_todo (mq_prod s p) = vs # rest"
    using step by (cases "mp_todo (mq_prod s p)") (simp_all add: mp_step_def)
  then have r: "r = mp_claim p vs (set_prod p (\<lambda>r. r\<lparr>mp_todo := rest\<rparr>) s)"
    using step M_next by (simp add: mp_step_def)
  show ?thesis
  proof (cases "length vs \<le> mq_cap s")
    case True
    then show ?thesis using mp_claim_inv [OF inv p M_next todo] r by auto
  next
    case False
    then show ?thesis using r M_next todo by (simp add: mp_claim_def)
  qed
next
  case M_wait
  then show ?thesis using mp_wait_inv [OF inv M_wait] step by (auto simp: mp_step_def)
next
  case M_write
  then show ?thesis using mp_write_inv [OF inv M_write] step by (auto simp: mp_step_def)
next
  case M_mark
  then show ?thesis using mp_mark_inv [OF inv M_mark] step by (auto simp: mp_step_def)
qed

lemma mc_step_safe:
  assumes inv: "mpsc_inv budget script s" and step: "mc_step s = Some r"
  shows "\<exists>s'. r = Inr s' \<and> mpsc_inv budget script s'"
proof (cases "mc_pc s")
  case K_next
  then have h: "mc_head s = mq_head s + 0" using inv_mc [OF inv] by simp
  have inv': "mpsc_inv budget script (s\<lparr>mc_todo := cs\<rparr>)" "mc_head (s\<lparr>mc_todo := cs\<rparr>) = mq_head (s\<lparr>mc_todo := cs\<rparr>) + 0" for cs
    using inv h by simp_all
  show ?thesis
    using step K_next mc_scan_inv [OF inv'] mc_scan_inv [OF inv h] inv'(1)
    by (auto simp: mc_step_def split: list.splits drain_call.splits if_splits)
next
  case (K_scan mx c)
  then show ?thesis using mc_scan_inv [OF inv, of c mx] inv_mc [OF inv] step by (auto simp: mc_step_def)
next
  case (K_load mx c)
  then show ?thesis using mc_load_inv [OF inv K_load] step by (auto simp: mc_step_def)
next
  case K_publish
  then show ?thesis using mc_publish_inv [OF inv K_publish] step by (auto simp: mc_step_def)
qed

lemma mpsc_step_inv: "mpsc_step s s' \<Longrightarrow> mpsc_inv budget script s \<Longrightarrow> mpsc_inv budget script s'"
  by (erule mpsc_stepE) (use mp_step_safe mc_step_safe in blast)+

lemma mpsc_reach_inv: "mpsc_reach s0 s \<Longrightarrow> mpsc_inv budget script s0 \<Longrightarrow> mpsc_inv budget script s"
  by (induction rule: mpsc_reach.induct) (auto intro: mpsc_step_inv)

definition burst_tokens :: "u64 list list list \<Rightarrow> nat \<Rightarrow> u64 list" where
  "burst_tokens ps p = (if p < length ps then concat (ps ! p) else [])"

lemma mpsc_ring_inv:
  assumes "mpsc_ring cap ps cs = Inr s0" and "(\<Sum>p<length ps. length (concat (ps ! p))) < 2 ^ 63"
  shows "mpsc_inv (\<Sum>p<length ps. length (concat (ps ! p))) (burst_tokens ps) s0"
proof -
  have s0: "s0 = \<lparr>mq_buf = replicate cap 0, mq_avail = replicate cap (- 1), mq_cap = cap, mq_claim = 0,
        mq_head = 0, mq_count = length ps,
        mq_prod = (\<lambda>p. \<lparr>mp_pc = M_next, mp_todo = if p < length ps then ps ! p else [], mp_cached_head = 0\<rparr>),
        mc_pc = K_next, mc_todo = cs, mc_head = 0, mq_log = [], mq_got = []\<rparr>" "0 < cap"
    using assms(1) by (auto simp: mpsc_ring_def split: if_splits)
  have "unclaimed s0 = (\<Sum>p<length ps. length (concat (ps ! p)))"
    unfolding unclaimed_def by (simp add: s0(1))
  then show ?thesis
    using assms(2) s0(2) unfolding mpsc_inv_def
    by (simp add: s0(1) marked_def claimed_by_def burst_tokens_def)
qed

section \<open>Fuel\<close>

fun mp_rank :: "mp_pc \<Rightarrow> nat" where
  "mp_rank M_next = 0"
| "mp_rank (M_wait vs q) = 2 * length vs + 3"
| "mp_rank (M_write vs q k) = 2 * (length vs - k) + 2"
| "mp_rank (M_mark vs q k) = 2 * (length vs - k) + 1"

definition mp_fuel :: "nat \<Rightarrow> producer \<Rightarrow> nat" where
  "mp_fuel budget r = sum_list (map (\<lambda>vs. 2 * length vs + 4) (mp_todo r)) + mp_rank (mp_pc r) + (budget - mp_cached_head r)"

fun mc_rank :: "mc_pc \<Rightarrow> nat" where
  "mc_rank K_next = 3"
| "mc_rank (K_scan mx c) = 5"
| "mc_rank (K_load mx c) = 2"
| "mc_rank K_publish = 4"

definition mc_fuel :: "nat \<Rightarrow> mpsc \<Rightarrow> nat" where
  "mc_fuel budget s = length (mc_todo s) + mc_rank (mc_pc s) + 4 * (budget - length (mq_got s))"

definition mpsc_fuel :: "nat \<Rightarrow> mpsc \<Rightarrow> nat" where
  "mpsc_fuel budget s = (\<Sum>p<mq_count s. mp_fuel budget (mq_prod s p)) + mc_fuel budget s"

lemma mp_step_shape:
  assumes "mp_step p s = Some (Inr s')"
  shows "\<exists>r. mq_prod s' = (mq_prod s)(p := r)" "mq_count s' = mq_count s" "mc_todo s' = mc_todo s"
    "mc_pc s' = mc_pc s" "mq_got s' = mq_got s" "mq_cap s' = mq_cap s" "mc_head s' = mc_head s" "mq_head s' = mq_head s"
  using assms
  by (auto simp: mp_step_def mp_claim_def mp_wait_def mp_write_def mp_mark_def set_prod_def Let_def
      split: mp_pc.splits list.splits if_splits)

lemma mp_step_fuel:
  assumes inv: "mpsc_inv budget script s" and p: "p < mq_count s" and step: "mp_step p s = Some (Inr s')" and ne: "s' \<noteq> s"
  shows "mpsc_fuel budget s' < mpsc_fuel budget s"
proof -
  obtain r where r: "mq_prod s' = (mq_prod s)(p := r)" using mp_step_shape(1) [OF step] by blast
  note shape = mp_step_shape(2-) [OF step]
  have head: "mp_cached_head (mq_prod s p) \<le> mq_head s" "mq_head s \<le> budget"
    using inv_ok(2) [OF inv] inv_shape [OF inv] by simp_all
  have less: "mp_fuel budget (mq_prod s' p) < mp_fuel budget (mq_prod s p)"
  proof (cases "mp_pc (mq_prod s p)")
    case (M_wait vs q)
    then have s': "s' = mp_wait p vs q s" using step by (simp add: mp_step_def)
    have "mp_cached_head (mq_prod s p) \<noteq> mq_head s" if "\<not> slots_free_at (mq_cap s) q (length vs) \<le> mq_head s"
    proof
      assume "mp_cached_head (mq_prod s p) = mq_head s"
      then have "(mq_prod s p)\<lparr>mp_cached_head := mq_head s, mp_pc := M_wait vs q\<rparr> = mq_prod s p"
        using M_wait by (cases "mq_prod s p") auto
      then have "s' = s" using that by (simp add: s' mp_wait_def set_prod_def Let_def)
      then show False using ne by simp
    qed
    then show ?thesis using M_wait head by (auto simp: s' mp_wait_def mp_fuel_def Let_def)
  next
    case (M_mark vs q k)
    then have "k < length vs" using inv_ok(1) [OF inv, of p] by simp
    then show ?thesis using step M_mark by (auto simp: mp_step_def mp_fuel_def mp_mark_def Let_def)
  qed (use step in \<open>auto simp: mp_step_def mp_fuel_def mp_claim_def mp_write_def Let_def
      split: list.splits if_splits\<close>)
  have "(\<Sum>i<mq_count s. mp_fuel budget (mq_prod s' i)) + mp_fuel budget (mq_prod s p) =
      (\<Sum>i<mq_count s. mp_fuel budget (mq_prod s i)) + mp_fuel budget r"
    unfolding r by (rule sum_upd [OF p])
  then show ?thesis using less by (simp add: mpsc_fuel_def mc_fuel_def shape r)
qed

lemma got_length: "mpsc_inv budget script s \<Longrightarrow> length (mq_got s) = mc_head s"
  using inv_got inv_shape(8) by fastforce

lemma mc_scan_rank:
  assumes "mc_scan mx c s = Inr s'"
  shows "mc_pc s' = (if c < mx \<and> mq_avail s ! (mc_head s mod mq_cap s) = round_of (mq_cap s) (mc_head s) then K_load mx c
      else if 0 < c then K_publish else K_next)" and "s' = s\<lparr>mc_pc := mc_pc s'\<rparr>"
  using assms by (auto simp: mc_scan_def idx_def split: if_splits)

lemma mc_step_fuel:
  assumes inv: "mpsc_inv budget script s" and step: "mc_step s = Some (Inr s')" and ne: "s' \<noteq> s"
  shows "mpsc_fuel budget s' < mpsc_fuel budget s"
proof -
  have prods: "mq_prod s' = mq_prod s" "mq_count s' = mq_count s"
    using step by (auto simp: mc_step_def mc_scan_def mc_load_def idx_def Let_def
        split: mc_pc.splits list.splits drain_call.splits if_splits)
  have "mc_fuel budget s' < mc_fuel budget s"
  proof (cases "mc_pc s")
    case K_next
    have same: "t = s" if "t = s\<lparr>mc_pc := K_next\<rparr>" for t using that K_next by simp
    show ?thesis
      using step K_next ne same
      by (auto simp: mc_step_def mc_scan_def mc_fuel_def idx_def split: list.splits drain_call.splits if_splits)
  next
    case (K_scan mx c)
    then have "0 < c" using inv_mc [OF inv] by simp
    then show ?thesis using step K_scan by (auto simp: mc_step_def mc_scan_def mc_fuel_def idx_def split: if_splits)
  next
    case (K_load mx c)
    have "marked s (mc_head s)" using inv_mc [OF inv] K_load by auto
    then have "length (mq_got s) < budget" using got_length [OF inv] inv_shape(5) [OF inv] by (simp add: marked_def)
    then show ?thesis using step K_load by (auto simp: mc_step_def mc_load_def mc_fuel_def idx_def split: if_splits)
  next
    case K_publish
    then show ?thesis using step by (auto simp: mc_step_def mc_fuel_def)
  qed
  then show ?thesis by (simp add: mpsc_fuel_def prods)
qed

definition mpsc_moves :: "mpsc \<Rightarrow> mpsc \<Rightarrow> bool" where
  "mpsc_moves s s' \<longleftrightarrow> mpsc_step s s' \<and> s' \<noteq> s"

lemma mpsc_moves_fuel:
  assumes "mpsc_moves s s'" and inv: "mpsc_inv budget script s"
  shows "mpsc_fuel budget s' < mpsc_fuel budget s"
proof -
  have "mpsc_step s s'" and ne: "s' \<noteq> s" using assms(1) by (simp_all add: mpsc_moves_def)
  then show ?thesis
    by (cases rule: mpsc_step.cases) (use mp_step_fuel [OF inv _ _ ne] mc_step_fuel [OF inv _ ne] in blast)+
qed

lemma mpsc_moves_bounded:
  "(mpsc_moves ^^ n) s s' \<Longrightarrow> mpsc_inv budget script s \<Longrightarrow>
   mpsc_inv budget script s' \<and> n + mpsc_fuel budget s' \<le> mpsc_fuel budget s"
proof (induction n arbitrary: s')
  case (Suc n)
  from Suc.prems(1) obtain s1 where s1: "(mpsc_moves ^^ n) s s1" "mpsc_moves s1 s'" by auto
  then have inv: "mpsc_inv budget script s1" and fuel: "n + mpsc_fuel budget s1 \<le> mpsc_fuel budget s"
    using Suc.IH Suc.prems(2) by blast+
  have "mpsc_step s1 s'" using s1(2) by (simp add: mpsc_moves_def)
  then show ?case using mpsc_moves_fuel [OF s1(2) inv] mpsc_step_inv inv fuel by fastforce
qed simp

section \<open>No schedule gets stuck\<close>

text \<open>Every burst fits the ring, and the consumer drains until it has every token.\<close>

definition bursts_fit :: "usize \<Rightarrow> u64 list list list \<Rightarrow> bool" where
  "bursts_fit cap ps \<longleftrightarrow> list_all (list_all (\<lambda>vs. length vs \<le> cap)) ps"

definition mpsc_plan :: "nat \<Rightarrow> (nat \<Rightarrow> u64 list) \<Rightarrow> mpsc \<Rightarrow> bool" where
  "mpsc_plan budget script s \<longleftrightarrow> mpsc_inv budget script s \<and>
     (\<forall>p. list_all (\<lambda>vs. length vs \<le> mq_cap s) (mp_todo (mq_prod s p))) \<and>
     (\<forall>p\<ge>mq_count s. mp_pc (mq_prod s p) = M_next \<and> mp_todo (mq_prod s p) = []) \<and>
     ((\<exists>mx. 0 < mx \<and> mc_todo s = [Drain_total budget mx]) \<or>
      mc_todo s = [] \<and> mc_pc s = K_next \<and> length (mq_got s) = budget) \<and>
     (case mc_pc s of K_load mx c \<Rightarrow> c < mx | _ \<Rightarrow> True)"

lemma plan_cons:
  assumes "mpsc_plan budget script s"
  obtains mx where "0 < mx" "mc_todo s = [Drain_total budget mx]"
  | "mc_todo s = []" "mc_pc s = K_next" "length (mq_got s) = budget"
  using assms unfolding mpsc_plan_def by blast

lemma mp_step_todo:
  assumes "mp_step p s = Some (Inr s')"
  shows "mp_todo (mq_prod s' q) = mp_todo (mq_prod s q) \<or> (\<exists>vs. mp_todo (mq_prod s q) = vs # mp_todo (mq_prod s' q))"
  using assms
  by (auto simp: mp_step_def mp_claim_def mp_wait_def mp_write_def mp_mark_def set_prod_def Let_def
      split: mp_pc.splits list.splits if_splits)

lemma mc_step_plan:
  assumes plan: "mpsc_plan budget script s" and step: "mc_step s = Some (Inr s')"
  shows "mpsc_plan budget script s'"
proof -
  have inv: "mpsc_inv budget script s" using plan by (simp add: mpsc_plan_def)
  then have inv': "mpsc_inv budget script s'" using mc_step_safe step by blast
  have same: "mq_prod s' = mq_prod s" "mq_count s' = mq_count s" "mq_cap s' = mq_cap s"
    using step by (auto simp: mc_step_def mc_scan_def mc_load_def idx_def
        split: mc_pc.splits list.splits drain_call.splits if_splits)
  have "length (mq_got s) \<le> budget" using got_length [OF inv] inv_shape [OF inv] by simp
  then have "((\<exists>mx. 0 < mx \<and> mc_todo s' = [Drain_total budget mx]) \<or>
      mc_todo s' = [] \<and> mc_pc s' = K_next \<and> length (mq_got s') = budget) \<and>
     (case mc_pc s' of K_load mx c \<Rightarrow> c < mx | _ \<Rightarrow> True)"
    using plan step
    by (auto simp: mpsc_plan_def mc_step_def mc_scan_def mc_load_def idx_def
        split: mc_pc.splits list.splits drain_call.splits if_splits)
  then show ?thesis using plan inv' by (simp add: mpsc_plan_def same)
qed

lemma mpsc_step_plan:
  assumes "mpsc_step s s'" and plan: "mpsc_plan budget script s"
  shows "mpsc_plan budget script s'"
  using assms(1)
proof (cases rule: mpsc_step.cases)
  case (Producer p)
  have inv: "mpsc_inv budget script s'" using mpsc_step_inv [OF assms(1)] plan by (simp add: mpsc_plan_def)
  note shape = mp_step_shape [OF Producer(2)]
  have "list_all (\<lambda>vs. length vs \<le> mq_cap s') (mp_todo (mq_prod s' q))" for q
  proof -
    have "list_all (\<lambda>vs. length vs \<le> mq_cap s) (mp_todo (mq_prod s q))" using plan by (simp add: mpsc_plan_def)
    then show ?thesis using mp_step_todo [OF Producer(2), of q] shape(6) by auto
  qed
  moreover have "mq_prod s' q = mq_prod s q" if "mq_count s \<le> q" for q
    using shape(1) that Producer(1) by auto
  ultimately show ?thesis using plan inv by (auto simp: mpsc_plan_def shape(2-5))
next
  case Consumer
  then show ?thesis using mc_step_plan [OF plan] by blast
qed

lemma mpsc_reach_plan: "mpsc_reach s0 s \<Longrightarrow> mpsc_plan budget script s0 \<Longrightarrow> mpsc_plan budget script s"
  by (induction rule: mpsc_reach.induct) (auto intro: mpsc_step_plan)

definition mpsc_finished :: "mpsc \<Rightarrow> bool" where
  "mpsc_finished s \<longleftrightarrow>
     (\<forall>p<mq_count s. mp_pc (mq_prod s p) = M_next \<and> mp_todo (mq_prod s p) = []) \<and> mc_pc s = K_next \<and> mc_todo s = []"

lemma mp_movesI:
  assumes "p < mq_count s" and "mp_step p s = Some (Inr s')" and "mp_pc (mq_prod s' p) \<noteq> mp_pc (mq_prod s p)"
  shows "\<exists>s'. mpsc_moves s s'"
proof -
  have "s' \<noteq> s" using assms(3) by auto
  then show ?thesis using mpsc_step.Producer [OF assms(1,2)] by (auto simp: mpsc_moves_def)
qed

lemma mc_movesI:
  assumes "mc_step s = Some (Inr s')" and "mc_pc s' \<noteq> mc_pc s \<or> mc_todo s' \<noteq> mc_todo s"
  shows "\<exists>s'. mpsc_moves s s'"
proof -
  have "s' \<noteq> s" using assms(2) by auto
  then show ?thesis using mpsc_step.Consumer [OF assms(1)] by (auto simp: mpsc_moves_def)
qed

text \<open>A producer moves unless it is done or waits for a head that the consumer has not published.\<close>

lemma mp_moves:
  assumes plan: "mpsc_plan budget script s" and p: "p < mq_count s"
    and busy: "mp_pc (mq_prod s p) \<noteq> M_next \<or> mp_todo (mq_prod s p) \<noteq> []"
  shows "(\<exists>s'. mpsc_moves s s') \<or>
    (\<exists>vs q. mp_pc (mq_prod s p) = M_wait vs q \<and> mq_head s + mq_cap s < q + length vs)"
proof -
  have inv: "mpsc_inv budget script s" using plan by (simp add: mpsc_plan_def)
  show ?thesis
  proof (cases "mp_pc (mq_prod s p)")
    case M_next
    then obtain vs rest where todo: "mp_todo (mq_prod s p) = vs # rest"
      using busy by (cases "mp_todo (mq_prod s p)") auto
    have "list_all (\<lambda>vs. length vs \<le> mq_cap s) (mp_todo (mq_prod s p))" using plan by (simp add: mpsc_plan_def)
    then have "length vs \<le> mq_cap s" using todo by simp
    then obtain s1 where s1: "mp_claim p vs (set_prod p (\<lambda>r. r\<lparr>mp_todo := rest\<rparr>) s) = Inr s1"
      "mp_pc (mq_prod s1 p) \<noteq> M_next" by (auto simp: mp_claim_def Let_def)
    then have "\<exists>s'. mpsc_moves s s'"
      by (intro mp_movesI [OF p, of s1]) (simp_all add: mp_step_def M_next todo)
    then show ?thesis ..
  next
    case (M_wait vs q)
    have "claims (mq_log s) (mq_cap s) vs q" using inv_ok(1) [OF inv, of p] M_wait by simp
    then have add: "usize_add q (length vs) = q + length vs" using inv_shape [OF inv] by (simp add: claims_def)
    show ?thesis
    proof (cases "slots_free_at (mq_cap s) q (length vs) \<le> mq_head s")
      case True
      then have "\<exists>s'. mpsc_moves s s'"
        by (intro mp_movesI [OF p, of "mp_wait p vs q s"]) (simp_all add: mp_step_def M_wait mp_wait_def Let_def)
      then show ?thesis ..
    next
      case False
      then show ?thesis using M_wait add by (auto simp: slots_free_at_def)
    qed
  next
    case (M_write vs q k)
    obtain s1 where "mp_write p vs q k s = Inr s1" using mp_write_inv [OF inv M_write] by blast
    then have "\<exists>s'. mpsc_moves s s'"
      by (intro mp_movesI [OF p, of s1]) (auto simp: mp_step_def M_write mp_write_def split: if_splits)
    then show ?thesis ..
  next
    case (M_mark vs q k)
    obtain s1 where "mp_mark p vs q k s = Inr s1" using mp_mark_inv [OF inv M_mark] by blast
    then have "\<exists>s'. mpsc_moves s s'"
      by (intro mp_movesI [OF p, of s1]) (auto simp: mp_step_def M_mark mp_mark_def Let_def)
    then show ?thesis ..
  qed
qed

text \<open>The consumer moves unless it is done or the next number is not marked.\<close>

lemma mc_moves:
  assumes plan: "mpsc_plan budget script s" and busy: "mc_pc s \<noteq> K_next \<or> mc_todo s \<noteq> []"
  shows "(\<exists>s'. mpsc_moves s s') \<or>
    mc_pc s = K_next \<and> mq_head s = mc_head s \<and> mc_head s < budget \<and> \<not> marked s (mc_head s)"
proof -
  have inv: "mpsc_inv budget script s" using plan by (simp add: mpsc_plan_def)
  note shape = inv_shape [OF inv]
  have read: "idx (mq_avail s) (mc_head s mod mq_cap s) = Inr (mq_avail s ! (mc_head s mod mq_cap s))"
    using shape(1,3) by (simp add: idx_def)
  show ?thesis
  proof (cases "mc_pc s")
    case K_next
    then have head: "mq_head s = mc_head s" using inv_mc [OF inv] by simp
    obtain mx where todo: "0 < mx" "mc_todo s = [Drain_total budget mx]"
      using plan busy K_next by (auto simp: mpsc_plan_def)
    consider (full) "\<not> length (mq_got s) < budget"
      | (marked) "length (mq_got s) < budget" "marked s (mc_head s)"
      | (unmarked) "length (mq_got s) < budget" "\<not> marked s (mc_head s)" by blast
    then show ?thesis
    proof cases
      case full
      then show ?thesis
        using mc_movesI [of s "s\<lparr>mc_todo := []\<rparr>"] by (simp add: mc_step_def K_next todo)
    next
      case marked
      then have "mq_avail s ! (mc_head s mod mq_cap s) = round_of (mq_cap s) (mc_head s)"
        using inv_slots(3) [OF inv] by simp
      then have "mc_step s = Some (Inr (s\<lparr>mc_pc := K_load mx 0\<rparr>))"
        using marked todo by (simp add: mc_step_def K_next mc_scan_def read)
      then show ?thesis using mc_movesI [of s "s\<lparr>mc_pc := K_load mx 0\<rparr>"] by (simp add: K_next)
    next
      case unmarked
      then show ?thesis using got_length [OF inv] K_next head by simp
    qed
  next
    case (K_scan mx c)
    obtain s1 where s1: "mc_scan mx c s = Inr s1" using mc_scan_inv [OF inv, of c mx] inv_mc [OF inv] K_scan by auto
    then have "\<exists>s'. mpsc_moves s s'"
      by (intro mc_movesI [of _ s1]) (auto simp: mc_step_def K_scan mc_scan_rank(1) [OF s1])
    then show ?thesis ..
  next
    case (K_load mx c)
    obtain s1 where "mc_load mx c s = Inr s1" using mc_load_inv [OF inv K_load] by blast
    then have "\<exists>s'. mpsc_moves s s'"
      by (intro mc_movesI [of _ s1]) (auto simp: mc_step_def K_load mc_load_def idx_def split: if_splits)
    then show ?thesis ..
  next
    case K_publish
    then have "\<exists>s'. mpsc_moves s s'"
      by (intro mc_movesI [of _ "s\<lparr>mq_head := mc_head s, mc_pc := K_next\<rparr>"]) (simp_all add: mc_step_def)
    then show ?thesis ..
  qed
qed

text \<open>
  When nobody moves, the next number is not marked although its token exists; then the
  producer that claimed it waits, but its slots are free. A producer that waits while
  everything claimed is consumed would wait for slots that are free as well.
\<close>

lemma mpsc_not_stuck:
  assumes plan: "mpsc_plan budget script s" and unfinished: "\<not> mpsc_finished s"
  shows "\<exists>s'. mpsc_moves s s'"
proof (rule ccontr)
  assume stuck: "\<nexists>s'. mpsc_moves s s'"
  have inv: "mpsc_inv budget script s" using plan by (simp add: mpsc_plan_def)
  note shape = inv_shape [OF inv]
  have idle: "mp_pc (mq_prod s p) = M_next" if "\<not> p < mq_count s" for p
    using plan that by (simp add: mpsc_plan_def)
  have waiting: "(\<exists>vs q. mp_pc (mq_prod s p) = M_wait vs q \<and> mq_head s + mq_cap s < q + length vs) \<or>
      mp_pc (mq_prod s p) = M_next \<and> mp_todo (mq_prod s p) = []" if "p < mq_count s" for p
    using mp_moves [OF plan that] stuck by blast
  have claim: "claims (mq_log s) (mq_cap s) vs q" if "mp_pc (mq_prod s p) = M_wait vs q" for p vs q
    using inv_ok(1) [OF inv, of p] that by simp
  consider (over) "mc_pc s = K_next" "mc_todo s = []"
    | (ahead) "mc_pc s = K_next" "mq_head s = mc_head s" "mc_head s < budget" "\<not> marked s (mc_head s)"
    using mc_moves [OF plan] stuck by blast
  then have head: "mq_head s = mc_head s" using inv_mc [OF inv] by cases simp_all
  have blocked: "mc_head s < q" if "mp_pc (mq_prod s p) = M_wait vs q" "mq_head s + mq_cap s < q + length vs" for p vs q
    using claim [OF that(1)] that(2) head by (simp add: claims_def)
  have log: "length (mq_log s) \<le> budget" using shape(5) by simp
  have all_marked: "marked s (mc_head s)" if lt: "mc_head s < length (mq_log s)"
  proof (rule ccontr)
    assume "\<not> marked s (mc_head s)"
    then obtain p where p: "mc_head s \<in> pending (mp_pc (mq_prod s p))" using lt by (auto simp: marked_def)
    then have "p < mq_count s" using idle [of p] by fastforce
    then show False using waiting [of p] p blocked by fastforce
  qed
  show False
  proof (cases "\<exists>p vs q. mp_pc (mq_prod s p) = M_wait vs q \<and> mq_head s + mq_cap s < q + length vs")
    case True
    then obtain p vs q where w: "mp_pc (mq_prod s p) = M_wait vs q" "mq_head s + mq_cap s < q + length vs" by blast
    have lt: "mc_head s < length (mq_log s)" using blocked [OF w] claim [OF w(1)] by (simp add: claims_def)
    show False
      using plan by (cases rule: plan_cons) (use all_marked [OF lt] lt mc_moves [OF plan] stuck got_length [OF inv] log in auto)
  next
    case False
    then have idle: "mp_pc (mq_prod s p) = M_next \<and> mp_todo (mq_prod s p) = []" if "p < mq_count s" for p
      using waiting [OF that] by blast
    then have "unclaimed s = 0" by (simp add: unclaimed_def)
    then have "length (mq_log s) = budget" using shape(5) by simp
    then show False
      using all_marked mc_moves [OF plan] stuck unfinished idle by (auto simp: mpsc_finished_def)
  qed
qed

lemma mpsc_finished_got:
  assumes plan: "mpsc_plan budget script s" and fin: "mpsc_finished s"
  shows "mq_got s = map snd (mq_log s)" and "\<And>p. claimed_by p s = script p"
proof -
  have inv: "mpsc_inv budget script s" using plan by (simp add: mpsc_plan_def)
  have todo: "mp_todo (mq_prod s p) = []" for p
    using plan fin by (cases "p < mq_count s") (auto simp: mpsc_plan_def mpsc_finished_def)
  then have "unclaimed s = 0" by (simp add: unclaimed_def)
  then have "length (mq_log s) = budget" using inv_shape(5) [OF inv] by simp
  moreover have "length (mq_got s) = budget"
    using plan by (cases rule: plan_cons) (use fin in \<open>simp_all add: mpsc_finished_def\<close>)
  ultimately show "mq_got s = map snd (mq_log s)" using inv_got [OF inv] got_length [OF inv] by simp
  show "claimed_by p s = script p" for p using inv_script [OF inv, of p] todo by simp
qed

lemma mpsc_ring_plan:
  assumes new: "mpsc_ring cap ps cs = Inr s0" and tokens: "(\<Sum>p<length ps. length (concat (ps ! p))) < 2 ^ 63"
    and fits: "bursts_fit cap ps" and mx: "0 < mx" and cs: "cs = [Drain_total (\<Sum>p<length ps. length (concat (ps ! p))) mx]"
  shows "mpsc_plan (\<Sum>p<length ps. length (concat (ps ! p))) (burst_tokens ps) s0"
proof -
  have s0: "mq_count s0 = length ps" "mc_todo s0 = cs" "mc_pc s0 = K_next" "mq_cap s0 = cap"
    "\<And>p. mq_prod s0 p = \<lparr>mp_pc = M_next, mp_todo = if p < length ps then ps ! p else [], mp_cached_head = 0\<rparr>"
    using new by (auto simp: mpsc_ring_def split: if_splits)
  have "list_all (\<lambda>vs. length vs \<le> cap) (mp_todo (mq_prod s0 p))" for p
    using fits by (simp add: s0 bursts_fit_def list_all_length)
  then show ?thesis using mpsc_ring_inv [OF new tokens] mx unfolding mpsc_plan_def by (simp add: s0 cs)
qed

lemma mpsc_ring_fuel:
  assumes "mpsc_ring cap ps cs = Inr s0"
  shows "mpsc_fuel budget s0 = (\<Sum>p<length ps. sum_list (map (\<lambda>vs. 2 * length vs + 4) (ps ! p)) + budget) +
    length cs + 3 + 4 * budget"
proof -
  have s0: "mq_count s0 = length ps" "mc_todo s0 = cs" "mc_pc s0 = K_next" "mq_got s0 = []"
    "\<And>p. p < length ps \<Longrightarrow> mq_prod s0 p = \<lparr>mp_pc = M_next, mp_todo = ps ! p, mp_cached_head = 0\<rparr>"
    using assms by (auto simp: mpsc_ring_def split: if_splits)
  have "(\<Sum>p<length ps. mp_fuel budget (mq_prod s0 p)) =
      (\<Sum>p<length ps. sum_list (map (\<lambda>vs. 2 * length vs + 4) (ps ! p)) + budget)"
    by (rule sum.cong) (simp_all add: s0 mp_fuel_def)
  then show ?thesis by (simp add: mpsc_fuel_def mc_fuel_def s0)
qed

end
