(* ===== verification/Mpsc_Theorems.thy ===== *)
theory Mpsc_Theorems
  imports Mpsc_Runs
begin

text \<open>The properties of the multi-producer ring, with witnesses.\<close>

lemma mpsc_step_cap:
  assumes "mpsc_step s s'"
  shows "mq_cap s' = mq_cap s"
  using assms
proof (cases rule: mpsc_step.cases)
  case (Producer p)
  then show ?thesis using mp_step_shape(6) by blast
next
  case Consumer
  then show ?thesis
    by (auto simp: mc_step_def mc_scan_def mc_load_def idx_def
        split: mc_pc.splits list.splits drain_call.splits if_splits)
qed

lemma mpsc_reach_cap: "mpsc_reach s0 s \<Longrightarrow> mq_cap s = mq_cap s0"
  by (induction rule: mpsc_reach.induct) (auto simp: mpsc_step_cap)

lemma mpsc_ring_cap: "mpsc_ring cap ps cs = Inr s0 \<Longrightarrow> mq_cap s0 = cap"
  by (auto simp: mpsc_ring_def split: if_splits)

text \<open>C22 (safety): in every interleaving of any number of producers with the consumer, every claimed
  token is delivered at most once and in claim order, whatever the order in which the slots are
  written: what the consumer got is a prefix of the claim order, in which each producer's tokens
  appear as it published them. No slot is overwritten before it is read, the consumer never
  panics, and a producer only on a burst longer than the ring.\<close>

theorem mpsc_safe:
  assumes new: "mpsc_ring cap ps cs = Inr s0" and tokens: "(\<Sum>p<length ps. length (concat (ps ! p))) < 2 ^ 63"
    and reach: "mpsc_reach s0 s"
  shows "mq_got s = take (length (mq_got s)) (map snd (mq_log s)) \<and>
    (\<forall>p. \<exists>rest. claimed_by p s @ rest = burst_tokens ps p) \<and>
    (\<forall>e. mc_step s \<noteq> Some (Inl e)) \<and>
    (\<forall>p e. p < mq_count s \<and> mp_step p s = Some (Inl e) \<longrightarrow> e = Assertion_failed \<and>
      (\<exists>vs rest. mp_todo (mq_prod s p) = vs # rest \<and> cap < length vs))"
proof -
  have inv: "mpsc_inv (\<Sum>p<length ps. length (concat (ps ! p))) (burst_tokens ps) s"
    using mpsc_reach_inv [OF reach mpsc_ring_inv [OF new tokens]] .
  have cap: "mq_cap s = cap" using mpsc_reach_cap [OF reach] mpsc_ring_cap [OF new] by simp
  have "mc_step s \<noteq> Some (Inl e)" for e using mc_step_safe [OF inv, of "Inl e"] by auto
  moreover have "e = Assertion_failed \<and> (\<exists>vs rest. mp_todo (mq_prod s p) = vs # rest \<and> cap < length vs)"
    if "p < mq_count s \<and> mp_step p s = Some (Inl e)" for p e
    using mp_step_safe [OF inv, of p "Inl e"] that cap by auto
  moreover have "mq_got s = take (length (mq_got s)) (map snd (mq_log s))"
    using inv_got [OF inv] got_length [OF inv] by simp
  ultimately show ?thesis using inv_script [OF inv] by blast
qed

theorem mpsc_safe_witness:
  "\<exists>s0. mpsc_ring 2 [[[1, 2], [3]], [[4]]] [Drain_once 9] = Inr s0 \<and> mpsc_reach s0 s0 \<and>
    (\<exists>rest. claimed_by 1 s0 @ rest = [4])"
proof -
  obtain s0 where s0: "mpsc_ring 2 [[[1, 2], [3]], [[4]]] [Drain_once 9] = Inr s0"
    by (simp add: mpsc_ring_def is_power_of_two.simps)
  have "\<exists>rest. claimed_by 1 s0 @ rest = burst_tokens [[[1, 2], [3]], [[4]]] 1"
    using mpsc_safe [OF s0 _ mpsc_reach.Start] by (simp add: lessThan_Suc)
  then show ?thesis using s0 mpsc_reach.Start by (auto simp: burst_tokens_def)
qed

text \<open>C23 (liveness): with bursts that fit the ring and a consumer that drains until it has every token, no
  schedule gets stuck: in every reachable state all threads are done and each producer's tokens
  have been delivered completely, or some step changes the state; and no schedule has more than
  a fixed number of such steps, the others being busy-waits and drains of nothing.\<close>

theorem mpsc_completes:
  assumes new: "mpsc_ring cap ps [Drain_total n mx] = Inr s0" and n: "n = (\<Sum>p<length ps. length (concat (ps ! p)))"
    and tokens: "n < 2 ^ 63" and fits: "bursts_fit cap ps" and mx: "0 < mx"
  shows "(\<forall>k s. (mpsc_moves ^^ k) s0 s \<longrightarrow>
      k \<le> (\<Sum>p<length ps. sum_list (map (\<lambda>vs. 2 * length vs + 4) (ps ! p)) + n) + 4 * n + 4) \<and>
    (\<forall>s. mpsc_reach s0 s \<longrightarrow>
      (if mpsc_finished s then mq_got s = map snd (mq_log s) \<and> (\<forall>p. claimed_by p s = burst_tokens ps p)
       else \<exists>s'. mpsc_step s s' \<and> s' \<noteq> s))"
proof -
  have plan: "mpsc_plan n (burst_tokens ps) s0"
    using mpsc_ring_plan [OF new _ fits mx] tokens unfolding n by blast
  then have inv: "mpsc_inv n (burst_tokens ps) s0" by (simp add: mpsc_plan_def)
  have "k \<le> (\<Sum>p<length ps. sum_list (map (\<lambda>vs. 2 * length vs + 4) (ps ! p)) + n) + 4 * n + 4"
    if "(mpsc_moves ^^ k) s0 s" for k s
    using mpsc_moves_bounded [OF that inv] mpsc_ring_fuel [OF new, of n] by simp
  moreover have "if mpsc_finished s then mq_got s = map snd (mq_log s) \<and> (\<forall>p. claimed_by p s = burst_tokens ps p)
      else \<exists>s'. mpsc_step s s' \<and> s' \<noteq> s" if "mpsc_reach s0 s" for s
    using mpsc_finished_got mpsc_not_stuck mpsc_reach_plan [OF that plan] by (simp add: mpsc_moves_def)
  ultimately show ?thesis by blast
qed

theorem mpsc_completes_witness:
  "\<exists>s0. mpsc_ring 2 [[[1, 2], [3]], [[4]]] [Drain_total 4 9] = Inr s0 \<and> mpsc_reach s0 s0 \<and>
    (\<exists>s'. mpsc_step s0 s' \<and> s' \<noteq> s0)"
proof -
  obtain s0 where s0: "mpsc_ring 2 [[[1, 2], [3]], [[4]]] [Drain_total 4 9] = Inr s0"
    by (simp add: mpsc_ring_def is_power_of_two.simps)
  then have "\<not> mpsc_finished s0" by (auto simp: mpsc_ring_def mpsc_finished_def split: if_splits)
  then show ?thesis
    using mpsc_completes [OF s0] s0 mpsc_reach.Start by (simp add: bursts_fit_def lessThan_Suc)
qed

end
