(* ===== verification/Digest.thy ===== *)
theory Digest
  imports Snapshot_Cow "HOL-Library.Multiset" "HOL-Library.Product_Lexorder"
begin

text \<open>
  The digest of a book (rust/smr-collections/common/src/digest.rs): the best levels, the FIFO of
  order ids of every occupied level and the resting orders sorted by id, as bytes, with no slot
  handle anywhere. The walk along a FIFO follows the \<open>next\<close> links until \<open>NIL\<close> and need not end
  on a damaged book, so a run is \<open>None\<close> when it does not return.
\<close>

section \<open>Runs that may not return\<close>

type_synonym 'a run = "(panic + 'a) option"

definition run_then :: "'a run \<Rightarrow> ('a \<Rightarrow> 'b run) \<Rightarrow> 'b run" where
  "run_then m f = Option.bind m (\<lambda>r. case r of Inl e \<Rightarrow> Some (Inl e) | Inr x \<Rightarrow> f x)"

lemma run_then_simps [simp]:
  "run_then None f = None" "run_then (Some (Inl e)) f = Some (Inl e)" "run_then (Some (Inr x)) f = f x"
  by (simp_all add: run_then_def)

fun run_fold :: "('a \<Rightarrow> 's \<Rightarrow> 's run) \<Rightarrow> 'a list \<Rightarrow> 's \<Rightarrow> 's run" where
  "run_fold f [] s = Some (Inr s)"
| "run_fold f (x # xs) s = run_then (f x s) (run_fold f xs)"

section \<open>The bytes\<close>

definition put_level :: "u8 \<Rightarrow> u32 \<Rightarrow> i64 \<Rightarrow> u32 \<Rightarrow> u8 list \<Rightarrow> u8 list" where
  "put_level sd t q c out =
     out @ [sd] @ le_bytes 4 (unat t) @ le_bytes 8 (unat q) @ le_bytes 4 (unat c)"

type_synonym live_row = "i64 \<times> i64 \<times> i64 \<times> i64 \<times> u8"

fun put_order :: "live_row \<Rightarrow> u8 list \<Rightarrow> u8 list" where
  "put_order (oid, pr, q, f, sd) out =
     out @ le_bytes 8 (unat oid) @ le_bytes 8 (unat pr) @ le_bytes 8 (unat q) @ le_bytes 8 (unat f) @ [sd]"

definition put_bests :: "i32 \<Rightarrow> i32 \<Rightarrow> nat \<Rightarrow> u8 list" where
  "put_bests bb ba n = le_bytes 4 (unat bb) @ le_bytes 4 (unat ba) @ le_bytes 4 (unat (of_nat n :: u32))"

text \<open>
  \<open>sort_unstable\<close> on the tuples: the lexicographic order with the signed order of i64. Equal
  tuples are indistinguishable, so the sorted vector is unique.
\<close>

fun row_key :: "live_row \<Rightarrow> int \<times> int \<times> int \<times> int \<times> nat" where
  "row_key (oid, pr, q, f, sd) = (sint oid, sint pr, sint q, sint f, unat sd)"

definition sort_rows :: "live_row list \<Rightarrow> live_row list" where
  "sort_rows = sort_key row_key"

definition put_rows :: "live_row list \<Rightarrow> u8 list \<Rightarrow> u8 list" where
  "put_rows live out = fold put_order (sort_rows live) out"

definition row_of_order :: "order \<Rightarrow> live_row" where
  "row_of_order ord = (order_id ord, price ord, qty ord, filled ord, side ord)"

text \<open>The walk from a handle, over a reader of a slot's order id and next link.\<close>

partial_function (option) fifo_bytes ::
  "(u32 \<Rightarrow> panic + i64 \<times> u32) \<Rightarrow> u32 \<Rightarrow> u8 list \<Rightarrow> u8 list run" where
  "fifo_bytes rd s out =
     (if s = NIL then Some (Inr out)
      else case rd s of
          Inl e \<Rightarrow> Some (Inl e)
        | Inr (oid, nx) \<Rightarrow> fifo_bytes rd nx (out @ le_bytes 8 (unat oid)))"

definition digest_level ::
  "(u32 \<Rightarrow> panic + i64 \<times> u32) \<Rightarrow> u8 \<Rightarrow> u32 \<Rightarrow> price_level \<Rightarrow> u8 list \<Rightarrow> u8 list run" where
  "digest_level rd sd t lvl out =
     (if head lvl = NIL then Some (Inr out)
      else fifo_bytes rd (head lvl) (put_level sd t (qty_total lvl) (lvl_count lvl) out))"

definition link_of :: "panic + order \<Rightarrow> panic + i64 \<times> u32" where
  "link_of m = and_then m (\<lambda>ord. Inr (order_id ord, next_slot ord))"

definition push_live :: "panic + order \<Rightarrow> live_row list \<Rightarrow> panic + live_row list" where
  "push_live m live =
     and_then m (\<lambda>ord. Inr (if order_id ord \<noteq> 0 then live @ [row_of_order ord] else live))"

section \<open>The two digests\<close>

definition digest_book :: "book \<Rightarrow> u8 list run" where
  "digest_book b =
     run_then (Some (try_fold (\<lambda>slot. push_live (idx (pool b) slot)) [0..<unat (hwm b)] [])) (\<lambda>live.
     run_then (run_fold (\<lambda>(sd, t, lvl). digest_level (\<lambda>s. link_of (get_order b s)) sd (of_nat t) lvl)
         (map (Pair 0) (enumerate 0 (bids b)) @ map (Pair 1) (enumerate 0 (asks b)))
         (put_bests (best_bid b) (best_ask b) (length live))) (\<lambda>out.
     Some (Inr (put_rows live out))))"

definition digest_root :: "order_chunk list \<Rightarrow> level_chunk list \<Rightarrow> root \<Rightarrow> u8 list run" where
  "digest_root oh lh r =
     run_then (Some (try_fold (\<lambda>slot. push_live (root_order oh r (of_nat slot))) [0..<unat (r_hwm r)] [])) (\<lambda>live.
     run_then (run_fold (\<lambda>(sd, t) out.
         run_then (Some (root_level lh r sd (of_nat t))) (\<lambda>lvl.
         digest_level (\<lambda>s. link_of (root_order oh r s)) sd (of_nat t) lvl out))
         (List.product [0, 1] [0..<unat (r_n_levels r)])
         (put_bests (r_best_bid r) (r_best_ask r) (length live))) (\<lambda>out.
     Some (Inr (put_rows live out))))"

section \<open>The digest of the queues\<close>

definition entry_bytes :: "entry \<Rightarrow> u8 list" where
  "entry_bytes e = le_bytes 8 (unat (e_id e))"

definition queue_bytes :: "u8 \<Rightarrow> nat \<Rightarrow> entry list \<Rightarrow> u8 list" where
  "queue_bytes sd t es =
     (if es = [] then []
      else put_level sd (of_nat t) (spec_total es) (of_nat (length es)) [] @ concat (map entry_bytes es))"

definition entry_row :: "u8 \<Rightarrow> entry \<Rightarrow> live_row" where
  "entry_row sd e = (e_id e, e_price e, e_qty e, e_filled e, sd)"

definition ladder_rows :: "nat \<Rightarrow> ladder \<Rightarrow> live_row list" where
  "ladder_rows n L = concat (map (\<lambda>(sd, t). map (entry_row sd) (L sd t)) (List.product [0, 1] [0..<n]))"

definition spec_digest :: "nat \<Rightarrow> ladder \<Rightarrow> u8 list" where
  "spec_digest n L =
     put_rows (ladder_rows n L)
       (put_bests (spec_best_bid n L) (spec_best_ask n L) (length (ladder_rows n L)) @
        concat (map (\<lambda>(sd, t). queue_bytes sd t (L sd t)) (List.product [0, 1] [0..<n])))"

section \<open>The walk and the levels\<close>

lemma fifo_bytes_dseg:
  assumes "dseg p pr ss h NIL u" and "\<And>s. s \<in> set ss \<Longrightarrow> rd s = Inr (order_id (order_at p s), next_slot (order_at p s))"
  shows "fifo_bytes rd h out = Some (Inr (out @ concat (map (\<lambda>s. le_bytes 8 (unat (order_id (order_at p s)))) ss)))"
  using assms
proof (induction ss arbitrary: pr h out)
  case Nil
  then show ?case by (simp add: fifo_bytes.simps)
next
  case (Cons s ss)
  then have h: "h = s" "s \<noteq> NIL" "dseg p s ss (next_slot (order_at p s)) NIL u" by simp_all
  have "rd s = Inr (order_id (order_at p s), next_slot (order_at p s))" using Cons.prems(2) by simp
  then show ?case
    using Cons.IH [OF h(3) Cons.prems(2), of "out @ le_bytes 8 (unat (order_id (order_at p s)))"] h
    by (subst fifo_bytes.simps) simp
qed

lemma digest_level_run:
  assumes inv: "book_inv b Q F" and sd: "is_side sd" and t: "t < unat (n_levels b)"
    and rd: "\<And>s. used_slot b s \<Longrightarrow> rd s = Inr (order_id (order_at (pool b) s), next_slot (order_at (pool b) s))"
  shows "digest_level rd sd (of_nat t) (lane b sd ! t) out = Some (Inr (out @ queue_bytes sd t (ladder_of b sd t)))"
proof -
  note core = book_inv_core [OF inv]
  have f: "fifo_ok (pool b) (lane b sd ! t) (Q sd t)" by (rule core_inv_fifo [OF core sd t])
  note L = ladder_of_queue [OF core sd t]
  have d: "dseg (pool b) NIL (Q sd t) (head (lane b sd ! t)) NIL (tail (lane b sd ! t))"
    and agg: "lvl_count (lane b sd ! t) = of_nat (length (Q sd t))"
      "qty_total (lane b sd ! t) = spec_total (ladder_of b sd t)"
    using f by (simp_all add: fifo_ok_def L spec_total_def comp_def)
  have rd': "rd s = Inr (order_id (order_at (pool b) s), next_slot (order_at (pool b) s))" if "s \<in> set (Q sd t)" for s
    using rd that core_inv_mem [OF core sd t] by blast
  have "head (lane b sd ! t) = NIL \<longleftrightarrow> Q sd t = []" using fifo_ok_head [OF f] by simp
  then show ?thesis
    using fifo_bytes_dseg [OF d rd']
    by (auto simp: digest_level_def queue_bytes_def put_level_def agg L entry_bytes_def entry_of_def comp_def)
qed

lemma digest_levels_run:
  assumes inv: "book_inv b Q F"
    and rd: "\<And>s. used_slot b s \<Longrightarrow> rd s = Inr (order_id (order_at (pool b) s), next_slot (order_at (pool b) s))"
    and g: "\<And>sd t out. is_side sd \<Longrightarrow> t < unat (n_levels b) \<Longrightarrow>
      g (sd, t) out = digest_level rd sd (of_nat t) (lane b sd ! t) out"
    and xs: "set xs \<subseteq> {0, 1} \<times> {..<unat (n_levels b)}"
  shows "run_fold g xs out = Some (Inr (out @ concat (map (\<lambda>(sd, t). queue_bytes sd t (ladder_of b sd t)) xs)))"
  using xs
proof (induction xs arbitrary: out)
  case Nil
  then show ?case by simp
next
  case (Cons x xs)
  obtain sd t where x: "x = (sd, t)" by fastforce
  with Cons.prems have st: "is_side sd" "t < unat (n_levels b)" by (auto simp: is_side_def)
  have "g x out = Some (Inr (out @ queue_bytes sd t (ladder_of b sd t)))"
    unfolding x g [OF st] by (rule digest_level_run [OF inv st rd])
  then show ?case using Cons by (simp add: x)
qed

section \<open>The live rows\<close>

lemma row_key_inj: "inj row_key"
  by (rule injI) (auto simp: sint_eq_iff word_unat_eq_iff)

lemma sort_rows_eq:
  assumes "distinct xs" and "distinct ys" and "set xs = set ys"
  shows "sort_rows xs = sort_rows ys"
proof -
  have "mset xs = mset ys" using assms by (simp add: set_eq_iff_mset_eq_distinct)
  then show ?thesis
    unfolding sort_rows_def
    by (intro sort_key_inj_key_eq) (simp_all add: inj_on_subset [OF row_key_inj])
qed

lemma put_rows_eq:
  assumes "distinct xs" and "distinct ys" and "set xs = set ys"
  shows "put_rows xs out = put_rows ys out" and "length xs = length ys"
  using sort_rows_eq [OF assms] assms distinct_card [of xs] distinct_card [of ys]
  by (simp_all add: put_rows_def)

text \<open>The rows the queues hold are those of the live slots, each once.\<close>

lemma set_concat_product:
  "set (concat (map f (List.product xs ys))) = (\<Union>x\<in>set xs. \<Union>y\<in>set ys. set (f (x, y)))"
  by (auto simp del: product.simps)

lemma set_ladder_rows:
  assumes inv: "book_inv b Q F"
  shows "set (ladder_rows (unat (n_levels b)) (ladder_of b)) =
    (\<lambda>s. row_of_order (order_at (pool b) s)) ` {s. used_slot b s}"
proof -
  note core = book_inv_core [OF inv]
  have row: "entry_row sd (entry_of (order_at (pool b) s)) = row_of_order (order_at (pool b) s)"
    if "is_side sd" "t < unat (n_levels b)" "s \<in> set (Q sd t)" for sd t s
    using that core_inv_mem [OF core, of sd t s]
    by (auto simp: entry_row_def entry_of_def row_of_order_def on_level_def)
  have L: "entry_row sd ` set (ladder_of b sd t) = (\<lambda>s. row_of_order (order_at (pool b) s)) ` set (Q sd t)"
    if "is_side sd" "t < unat (n_levels b)" for sd t
    unfolding ladder_of_queue [OF core that] set_map image_image
    using row [OF that] by (intro image_cong) auto
  have queued: "\<exists>sd t. is_side sd \<and> t < unat (n_levels b) \<and> s \<in> set (Q sd t)" if "used_slot b s" for s
  proof -
    have "idmap b (order_id (order_at (pool b) s)) = Some s" using core_inv_id [OF core] that by simp
    from order_of_id [OF core this] show ?thesis by blast
  qed
  have used_iff: "used_slot b s \<longleftrightarrow> (\<exists>sd t. is_side sd \<and> t < unat (n_levels b) \<and> s \<in> set (Q sd t))" for s
    using queued [of s] core_inv_mem [OF core] by meson
  have used: "{s. used_slot b s} = (\<Union>sd\<in>{0,1}. \<Union>t\<in>{..<unat (n_levels b)}. set (Q sd t))"
    unfolding used_iff by (auto simp: is_side_def)
  have "set (ladder_rows (unat (n_levels b)) (ladder_of b)) =
      (\<Union>sd\<in>{0,1}. \<Union>t\<in>{..<unat (n_levels b)}. entry_row sd ` set (ladder_of b sd t))"
    unfolding ladder_rows_def set_concat_product by (simp add: lessThan_atLeast0)
  also have "\<dots> = (\<Union>sd\<in>{0,1}. \<Union>t\<in>{..<unat (n_levels b)}.
      (\<lambda>s. row_of_order (order_at (pool b) s)) ` set (Q sd t))"
    by (intro SUP_cong refl L) (auto simp: is_side_def)
  also have "\<dots> = (\<lambda>s. row_of_order (order_at (pool b) s)) ` {s. used_slot b s}"
    unfolding used image_UN ..
  finally show ?thesis .
qed

lemma distinct_ladder_rows:
  assumes inv: "book_inv b Q F"
  shows "distinct (ladder_rows (unat (n_levels b)) (ladder_of b))"
proof -
  note core = book_inv_core [OF inv]
  let ?n = "unat (n_levels b)"
  have same: "s = u" if "used_slot b s" "used_slot b u"
    "order_id (order_at (pool b) s) = order_id (order_at (pool b) u)" for s u
    using that core_inv_id [OF core] by (metis option.inject)
  have dis: "distinct (map (entry_row sd) (ladder_of b sd t))" if st: "is_side sd" "t < ?n" for sd t
  proof -
    have "distinct (Q sd t)" using core_inv_fifo [OF core st] by (simp add: fifo_ok_def)
    moreover have "inj_on (\<lambda>s. entry_row sd (entry_of (order_at (pool b) s))) (set (Q sd t))"
      using core_inv_mem [OF core st] same
      by (intro inj_onI) (auto simp: entry_row_def entry_of_def)
    ultimately show ?thesis by (simp add: ladder_of_queue [OF core st] distinct_map comp_def)
  qed
  have apart: "sd = sd' \<and> t = t'" if st: "is_side sd" "t < ?n" and st': "is_side sd'" "t' < ?n"
    and r: "r \<in> set (map (entry_row sd) (ladder_of b sd t))" "r \<in> set (map (entry_row sd') (ladder_of b sd' t'))"
    for sd t sd' t' r
  proof -
    from r obtain s u where s: "s \<in> set (Q sd t)" "r = entry_row sd (entry_of (order_at (pool b) s))"
      and u: "u \<in> set (Q sd' t')" "r = entry_row sd' (entry_of (order_at (pool b) u))"
      unfolding ladder_of_queue [OF core st] ladder_of_queue [OF core st'] by auto
    then have "order_id (order_at (pool b) s) = order_id (order_at (pool b) u)"
      by (simp add: entry_row_def entry_of_def)
    moreover have "used_slot b s" "used_slot b u"
      using s u core_inv_mem [OF core st] core_inv_mem [OF core st'] by blast+
    ultimately have "s = u" by (rule same [rotated 2])
    then show ?thesis
      using s u core_inv_mem [OF core st] core_inv_mem [OF core st'] on_level_unique by blast
  qed
  have "distinct (concat (map (\<lambda>(sd, t). map (entry_row sd) (ladder_of b sd t)) xs))"
    if "distinct xs" "set xs \<subseteq> set (List.product [0, 1] [0..<?n])" for xs
    using that
  proof (induction xs)
    case Nil
    then show ?case by simp
  next
    case (Cons x xs)
    obtain sd t where x: "x = (sd, t)" by fastforce
    with Cons.prems have st: "is_side sd" "t < ?n" by (auto simp: is_side_def)
    have "r \<notin> set (map (entry_row sd') (ladder_of b sd' t'))"
      if "(sd', t') \<in> set xs" "r \<in> set (map (entry_row sd) (ladder_of b sd t))" for sd' t' r
    proof
      assume r: "r \<in> set (map (entry_row sd') (ladder_of b sd' t'))"
      have "is_side sd'" "t' < ?n" using that(1) Cons.prems(2) by (auto simp: is_side_def)
      from apart [OF st this that(2) r] that(1) Cons.prems(1) x show False by auto
    qed
    then have "set (map (entry_row sd) (ladder_of b sd t)) \<inter>
        set (concat (map (\<lambda>(sd, t). map (entry_row sd) (ladder_of b sd t)) xs)) = {}"
      by fastforce
    then show ?case using Cons dis [OF st] by (simp add: x)
  qed
  moreover have "distinct (List.product [0 :: u8, 1] [0..<?n])" by (rule distinct_product) simp_all
  ultimately show ?thesis unfolding ladder_rows_def by blast
qed

lemma push_live_run:
  assumes "\<And>i. i < n \<Longrightarrow> rd i = Inr (p ! i)"
  shows "try_fold (\<lambda>slot. push_live (rd slot)) [0..<n] live =
    Inr (live @ map (\<lambda>i. row_of_order (p ! i)) (filter (\<lambda>i. order_id (p ! i) \<noteq> 0) [0..<n]))"
  using assms by (induction n) (auto simp: try_fold_append push_live_def)

lemma live_rows:
  assumes inv: "core_inv b Q F"
  defines "live \<equiv> map (\<lambda>i. row_of_order (pool b ! i)) (filter (\<lambda>i. order_id (pool b ! i) \<noteq> 0) [0..<unat (hwm b)])"
  shows "distinct live" and "set live = (\<lambda>s. row_of_order (order_at (pool b) s)) ` {s. used_slot b s}"
proof -
  have slot: "unat (of_nat i :: u32) = i" if "i < unat (hwm b)" for i
    using that unat_u32_bound [of "hwm b"] by (intro unat_of_nat_u32) simp
  have used: "used_slot b (of_nat i) \<longleftrightarrow> i < unat (hwm b) \<and> order_id (pool b ! i) \<noteq> 0"
    if "i < unat (hwm b)" for i
    using slot [OF that] that by (simp add: used_slot_def)
  have same: "i = j" if "i < unat (hwm b)" "j < unat (hwm b)" "order_id (pool b ! i) \<noteq> 0"
    "order_id (pool b ! i) = order_id (pool b ! j)" for i j
  proof -
    have "used_slot b (of_nat i)" "used_slot b (of_nat j)" using used that by auto
    then have "idmap b (order_id (pool b ! i)) = Some (of_nat i)" "idmap b (order_id (pool b ! i)) = Some (of_nat j)"
      using core_inv_id [OF inv] slot [OF that(1)] slot [OF that(2)] that(4) by auto
    then have "(of_nat i :: u32) = of_nat j" by simp
    then show ?thesis using slot [OF that(1)] slot [OF that(2)] by metis
  qed
  then have "inj_on (\<lambda>i. row_of_order (pool b ! i)) (set (filter (\<lambda>i. order_id (pool b ! i) \<noteq> 0) [0..<unat (hwm b)]))"
    by (intro inj_onI) (auto simp: row_of_order_def)
  then show "distinct live" by (simp add: live_def distinct_map)
  have "set live = (\<lambda>i. row_of_order (pool b ! i)) ` {i. i < unat (hwm b) \<and> order_id (pool b ! i) \<noteq> 0}"
    by (auto simp: live_def)
  also have "\<dots> = (\<lambda>s. row_of_order (order_at (pool b) s)) ` {s. used_slot b s}"
  proof
    show "(\<lambda>i. row_of_order (pool b ! i)) ` {i. i < unat (hwm b) \<and> order_id (pool b ! i) \<noteq> 0} \<subseteq>
        (\<lambda>s. row_of_order (order_at (pool b) s)) ` {s. used_slot b s}"
    proof
      fix r
      assume "r \<in> (\<lambda>i. row_of_order (pool b ! i)) ` {i. i < unat (hwm b) \<and> order_id (pool b ! i) \<noteq> 0}"
      then obtain i where i: "i < unat (hwm b)" "order_id (pool b ! i) \<noteq> 0" "r = row_of_order (pool b ! i)" by blast
      then show "r \<in> (\<lambda>s. row_of_order (order_at (pool b) s)) ` {s. used_slot b s}"
        using used slot [OF i(1)] by (intro image_eqI [of _ _ "of_nat i"]) auto
    qed
  qed (auto simp: used_slot_def)
  finally show "set live = (\<lambda>s. row_of_order (order_at (pool b) s)) ` {s. used_slot b s}" .
qed

section \<open>The digests of a well-formed book\<close>

lemma put_rows_append: "put_rows live (out @ bs) = out @ put_rows live bs"
proof -
  have "fold put_order xs (out @ bs) = out @ fold put_order xs bs" for xs bs
    by (induction xs arbitrary: bs) auto
  then show ?thesis by (simp add: put_rows_def)
qed

text \<open>Any reader of the live slots and any level loop that reads the levels of the book.\<close>

lemma digest_run:
  assumes inv: "book_inv b Q F"
    and live: "distinct live" "set live = (\<lambda>s. row_of_order (order_at (pool b) s)) ` {s. used_slot b s}"
    and rd: "\<And>s. used_slot b s \<Longrightarrow> rd s = Inr (order_id (order_at (pool b) s), next_slot (order_at (pool b) s))"
    and g: "\<And>sd t out. is_side sd \<Longrightarrow> t < unat (n_levels b) \<Longrightarrow>
      g (sd, t) out = digest_level rd sd (of_nat t) (lane b sd ! t) out"
  shows "run_then (run_fold g (List.product [0, 1] [0..<unat (n_levels b)])
      (put_bests (best_bid b) (best_ask b) (length live))) (\<lambda>out. Some (Inr (put_rows live out))) =
    Some (Inr (spec_digest (unat (n_levels b)) (ladder_of b)))"
proof -
  note rows = put_rows_eq [OF live(1) distinct_ladder_rows [OF inv]]
  have "set live = set (ladder_rows (unat (n_levels b)) (ladder_of b))" using live(2) set_ladder_rows [OF inv] by simp
  note rows = rows [OF this]
  have run: "run_fold g (List.product [0, 1] [0..<unat (n_levels b)])
      (put_bests (best_bid b) (best_ask b) (length live)) =
    Some (Inr (put_bests (best_bid b) (best_ask b) (length live) @
      concat (map (\<lambda>(sd, t). queue_bytes sd t (ladder_of b sd t)) (List.product [0, 1] [0..<unat (n_levels b)]))))"
    by (rule digest_levels_run [OF inv rd g]) auto
  show ?thesis
    by (simp only: run run_then_simps) (simp only: spec_digest_def rows best_reads [OF inv])
qed

lemma run_fold_map: "run_fold f (map h xs) s = run_fold (\<lambda>x. f (h x)) xs s"
proof (induction xs arbitrary: s)
  case Nil
  then show ?case by simp
next
  case (Cons x xs)
  then have "run_fold f (map h xs) = run_fold (\<lambda>x. f (h x)) xs" by (intro ext)
  then show ?case by simp
qed

lemma lane_pairs:
  assumes "length (bids b) = n" and "length (asks b) = n"
  shows "map (Pair 0) (enumerate 0 (bids b)) @ map (Pair 1) (enumerate 0 (asks b)) =
    map (\<lambda>(sd, t). (sd, t, lane b sd ! t)) (List.product [0 :: u8, 1] [0..<n])"
  using assms by (simp add: enumerate_upt lane_def comp_def)

lemma digest_book_run:
  assumes inv: "book_inv b Q F"
  shows "digest_book b = Some (Inr (spec_digest (unat (n_levels b)) (ladder_of b)))"
proof -
  note core = book_inv_core [OF inv]
  let ?live = "map (\<lambda>i. row_of_order (pool b ! i)) (filter (\<lambda>i. order_id (pool b ! i) \<noteq> 0) [0..<unat (hwm b)])"
  let ?rd = "\<lambda>s. link_of (get_order b s)"
  have rd: "?rd s = Inr (order_id (order_at (pool b) s), next_slot (order_at (pool b) s))" if "used_slot b s" for s
    using that core_inv_slot [OF core] by (simp add: used_slot_def link_of_def get_order_def idx_simps)
  have live: "try_fold (\<lambda>slot. push_live (idx (pool b) slot)) [0..<unat (hwm b)] [] = Inr ([] @ ?live)"
    using core_inv_hwm [OF core] by (intro push_live_run) (simp add: idx_simps)
  have lens: "length (bids b) = unat (n_levels b)" "length (asks b) = unat (n_levels b)"
    using core_inv_lane_length [OF core, of 0] core_inv_lane_length [OF core, of 1] by (simp_all add: lane_def)
  show ?thesis
    unfolding digest_book_def live lane_pairs [OF lens] run_fold_map append_Nil run_then_simps
    by (rule digest_run [OF inv live_rows [OF core] rd]) (simp_all add: fun_eq_iff)
qed

text \<open>A root that shows the book, read through its chunks.\<close>

lemma digest_root_run:
  assumes inv: "book_inv b Q F" and ok: "root_chunked oh lh r"
    and shows_b: "root_book oh lh r = b\<lparr>idmap := Map.empty\<rparr>"
  shows "digest_root oh lh r = Some (Inr (spec_digest (unat (n_levels b)) (ladder_of b)))"
proof -
  note core = book_inv_core [OF inv]
  let ?live = "map (\<lambda>i. row_of_order (pool b ! i)) (filter (\<lambda>i. order_id (pool b ! i) \<noteq> 0) [0..<unat (hwm b)])"
  have fields: "r_hwm r = hwm b" "r_n_levels r = n_levels b" "r_best_bid r = best_bid b" "r_best_ask r = best_ask b"
    using arg_cong [OF shows_b, of hwm] arg_cong [OF shows_b, of n_levels]
      arg_cong [OF shows_b, of best_bid] arg_cong [OF shows_b, of best_ask]
    by (simp_all add: root_book_def)
  have order: "root_order oh r s = idx (pool b) (unat s)" for s
    using root_order_idx [OF ok] shows_b by simp
  have level: "root_level lh r sd (of_nat t) = Inr (lane b sd ! t)" if "t < unat (n_levels b)" for sd t
    using root_level_at [OF ok] that fields shows_b by (simp add: lane_def)
  have rd: "link_of (root_order oh r s) = Inr (order_id (order_at (pool b) s), next_slot (order_at (pool b) s))"
    if "used_slot b s" for s
    using that core_inv_slot [OF core] by (simp add: used_slot_def link_of_def order idx_simps)
  have live: "try_fold (\<lambda>slot. push_live (root_order oh r (of_nat slot))) [0..<unat (hwm b)] [] = Inr ([] @ ?live)"
  proof (rule push_live_run)
    fix i
    assume "i < unat (hwm b)"
    moreover from this have "unat (of_nat i :: u32) = i"
      using unat_u32_bound [of "hwm b"] by (intro unat_of_nat_u32) simp
    ultimately show "root_order oh r (of_nat i) = Inr (pool b ! i)"
      using core_inv_hwm [OF core] by (simp add: order idx_simps del: unat_of_nat)
  qed
  show ?thesis
    unfolding digest_root_def fields live append_Nil run_then_simps
    by (rule digest_run [OF inv live_rows [OF core] rd]) (simp_all add: level)
qed

end
