(* ===== verification/Digest_Theorems.thy ===== *)
theory Digest_Theorems
  imports Digest Demo
begin

text \<open>What the digest is good for: it is a function of the queues alone, and it is the same for a
  captured root.\<close>

text \<open>C24 (refinement): the digest of a well-formed book returns, without a panic, and depends on nothing but the
  queues of the book: two books with the same ladder, whatever slots their orders are in and
  whatever their free lists, have the same digest.\<close>

theorem digest_ignores_slots:
  assumes "wf_book b" and "wf_book b'" and "n_levels b' = n_levels b" and "ladder_of b' = ladder_of b"
  shows "digest_book b = Some (Inr (spec_digest (unat (n_levels b)) (ladder_of b))) \<and>
    digest_book b' = digest_book b"
  using assms digest_book_run by (auto simp: wf_book_def)

text \<open>An order inserted into a fresh book, and into one where another order came and went first.\<close>

lemma demo_other_slot:
  obtains b1 b2 b3 where "book_insert (book_new demo_cfg) 5 2 99 0 = Inr b1"
    and "book_insert b1 7 2 10 0 = Inr b2" and "book_cancel b2 5 = Inr b3" and "wf_book b3"
    and "n_levels b3 = n_levels demo_book" and "ladder_of b3 = ladder_of demo_book"
    and "free_head b3 \<noteq> NIL"
proof -
  let ?n = "book_new demo_cfg"
  have g: "price_min ?n = 0" "tick ?n = 1" "n_levels ?n = 4" "idmap ?n = Map.empty" "length (pool ?n) = 3"
    by (simp_all add: book_new_def demo_cfg_def)
  have tk: "tick_of 0 1 2 = Inr 2" using demo_new_accepts(2) g by simp
  have ok: "can_insert ?n 5 2 0" using demo_new_accepts(1) g by (simp add: can_insert_def)
  have pre: "has_room ?n" "tick_of (price_min ?n) (tick ?n) 2 = Inr 2" "unat (2 :: u32) < unat (n_levels ?n)"
    "(5 :: i64) \<noteq> 0" "idmap ?n 5 = None"
    using ok g tk by (simp_all add: can_insert_def)
  obtain s fh h F1 Q1 where b1: "book_insert ?n 5 2 99 0 = Inr (inserted ?n s fh h 2 5 2 99 0)" and s: "s \<noteq> NIL"
    and inv1: "book_inv (inserted ?n s fh h 2 5 2 99 0) Q1 F1"
    using insert_spec [OF demo_new_inv pre(1) is_side_simps(1) pre(2-5)] by metis
  let ?b1 = "inserted ?n s fh h 2 5 2 99 0"
  have L1: "ladder_of ?b1 = spec_insert (entry_for 5 2 99) 0 2 (ladder_of ?n)"
    using insert_refines_inv [OF demo_new_inv ok, of 2 99] b1 g tk by simp
  have "card (dom (idmap ?b1)) = 1" by (simp add: g)
  then have "has_room ?b1" using room_iff [OF book_inv_core [OF inv1]] by (simp add: g)
  then have ok2: "can_insert ?b1 7 2 0" by (simp add: can_insert_def g tk)
  then have pre2: "has_room ?b1" "tick_of (price_min ?b1) (tick ?b1) 2 = Inr 2" "unat (2 :: u32) < unat (n_levels ?b1)"
    "(7 :: i64) \<noteq> 0" "idmap ?b1 7 = None"
    using g tk by (simp_all add: can_insert_def)
  obtain u fh' h' F2 Q2 where b2: "book_insert ?b1 7 2 10 0 = Inr (inserted ?b1 u fh' h' 2 7 2 10 0)"
    and inv2: "book_inv (inserted ?b1 u fh' h' 2 7 2 10 0) Q2 F2"
    using insert_spec [OF inv1 pre2(1) is_side_simps(1) pre2(2-5)] by metis
  let ?b2 = "inserted ?b1 u fh' h' 2 7 2 10 0"
  have L2: "ladder_of ?b2 = spec_insert (entry_for 7 2 10) 0 2 (ladder_of ?b1)"
    using insert_refines_inv [OF inv1 ok2, of 2 10] b2 g tk by simp
  have "idmap ?b2 5 = Some s" by simp
  from remove_refines_inv(1) [OF inv2 this] obtain b3 where b3: "book_cancel ?b2 5 = Inr b3" "wf_book b3"
    "ladder_of b3 = spec_remove 5 (ladder_of ?b2)" "free_head b3 = s" "geom_of b3 = geom_of ?b2" by blast
  have new: "ladder_of ?n = (\<lambda>_ _. [])"
    using ladder_of_eqI [OF book_inv_core [OF demo_new_inv] refl, of "\<lambda>_ _. []"] by simp
  have "ladder_of demo_book = spec_insert (entry_for 7 2 10) 0 2 (ladder_of ?n)"
    using insert_refines_inv [OF demo_new_inv demo_new_accepts, of 10] demo_book_run by auto
  then have "ladder_of b3 = ladder_of demo_book"
    unfolding b3(3) L2 L1 new by (auto simp: spec_insert_def spec_remove_def entry_for_def fun_eq_iff)
  moreover have "n_levels b3 = n_levels demo_book" using b3(5) by (simp add: geom_of_def g demo_book_fields)
  ultimately show thesis using that b1 b2 b3 s by blast
qed

theorem digest_ignores_slots_witness:
  "\<exists>b1 b2 b3. book_insert (book_new demo_cfg) 5 2 99 0 = Inr b1 \<and> book_insert b1 7 2 10 0 = Inr b2 \<and>
     book_cancel b2 5 = Inr b3 \<and> free_head b3 \<noteq> free_head demo_book \<and> digest_book b3 = digest_book demo_book"
proof -
  obtain b1 b2 b3 where b: "book_insert (book_new demo_cfg) 5 2 99 0 = Inr b1"
    "book_insert b1 7 2 10 0 = Inr b2" "book_cancel b2 5 = Inr b3" "wf_book b3"
    "n_levels b3 = n_levels demo_book" "ladder_of b3 = ladder_of demo_book" "free_head b3 \<noteq> NIL"
    by (rule demo_other_slot)
  have "free_head demo_book = NIL" by (simp add: demo_book_fields)
  then show ?thesis using digest_ignores_slots [OF demo_book_wf b(4,5,6)] b by metis
qed

text \<open>The digest of a captured root, taken after any number of later operations and captures,
  is the digest of the book at the capture.\<close>

theorem digest_root_is_frozen:
  assumes ok: "cow_ok c" "wf_book (flat c)" and run: "try_fold cow_exec cmds (snd (capture c)) = Inr c'"
    and gen: "unat (c_gen c) + 1 + length cmds < 2 ^ 64"
  shows "digest_root (order_heap c') (level_heap c') (fst (capture c)) = digest_book (flat c)"
proof -
  obtain Q F where inv: "book_inv (flat c) Q F" using ok(2) by (auto simp: wf_book_def)
  have g: "unat (c_gen c) < 2 ^ 64 - 1" using gen by simp
  note cap = capture_spec [OF ok(1) g]
  have heaps: "order_heap (snd (capture c)) = order_heap c" "level_heap (snd (capture c)) = level_heap c"
    and "unat (c_gen (snd (capture c))) \<le> Suc (unat (c_gen c))"
    using g by (auto simp: capture_def unat_word_ariths)
  then have g': "unat (c_gen (snd (capture c))) + length cmds < 2 ^ 64" using gen by simp
  have "root_chunked (order_heap c') (level_heap c') (fst (capture c))"
    using cow_exec_chunked [OF run cap(1,3) g'] capture_chunked [OF ok(1)] heaps by simp
  moreover have "root_book (order_heap c') (level_heap c') (fst (capture c)) = (flat c)\<lparr>idmap := Map.empty\<rparr>"
    using cow_exec_trace [OF run cap(1,3) g'] cap(4) heaps by simp
  ultimately show ?thesis using digest_root_run [OF inv] digest_book_run [OF inv] by simp
qed

theorem digest_root_is_frozen_witness:
  "\<exists>c c'. cow_new demo_cfg = Inr c \<and> try_fold cow_exec [Cmd_insert 7 2 10 0, Cmd_capture] (snd (capture c)) = Inr c' \<and>
     digest_root (order_heap c') (level_heap c') (fst (capture c)) = digest_book (book_new demo_cfg)"
proof -
  obtain c where c: "cow_new demo_cfg = Inr c" "cow_ok c" "flat c = book_new demo_cfg" "c_gen c = 1"
    using cow_new_flat [of demo_cfg] cow_new_gen by (fastforce simp: demo_cfg_def)
  have ok: "cow_ok (snd (capture c))" "flat (snd (capture c)) = book_new demo_cfg" "c_gen (snd (capture c)) = 2"
    using capture_spec(1,2) [OF c(2)] c by (simp_all add: capture_def)
  have "agree (\<lambda>c b. cow_ok c \<and> flat c = b) (try_fold cow_exec [Cmd_insert 7 2 10 0, Cmd_capture] (snd (capture c)))
      (try_fold flat_exec [Cmd_insert 7 2 10 0, Cmd_capture] (book_new demo_cfg))"
    using cow_exec_flat [OF ok(1), of "[Cmd_insert 7 2 10 0, Cmd_capture]"] ok(2,3) by simp
  moreover have "try_fold flat_exec [Cmd_insert 7 2 10 0, Cmd_capture] (book_new demo_cfg) = Inr demo_book"
    by (simp add: flat_exec_def demo_book_run)
  ultimately obtain c' where run: "try_fold cow_exec [Cmd_insert 7 2 10 0, Cmd_capture] (snd (capture c)) = Inr c'"
    by (rule agree_InrE)
  have "digest_root (order_heap c') (level_heap c') (fst (capture c)) = digest_book (flat c)"
    using digest_root_is_frozen [OF c(2) _ run] c demo_new_wf by simp
  then show ?thesis using c run by auto
qed

end
