(* ===== verification/Ultima.thy ===== *)
theory Ultima
  imports Digest Churn Snapshot
begin

text \<open>
  The order book on the database ultima_db (rust/smr-collections/ultima-common/src/lib.rs). The
  database is not part of the repository: it is the argument \<open>db\<close>, a record of the operations
  the code calls, over the types \<open>'s\<close> of a store, \<open>'w\<close> of a write and \<open>'v\<close> of a read
  transaction and \<open>'b\<close> of a bulk load. What the code relies on is stated in the theory
  \<open>Ultima_Db\<close>. Rows are keyed by a u64; an order's slot handle is its row id less one.

  The rows of the orders table have the fields of the flat book's orders. The \<open>debug_assert\<close>s are
  not part of the release profile.
\<close>

section \<open>The rows\<close>

type_synonym order_rec = order

record level_rec =
  lr_side :: u8
  lr_tick :: u32
  lr_qty_total :: i64
  lr_count :: u32
  lr_head :: u32
  lr_tail :: u32

record meta_rec =
  mr_price_min :: i64
  mr_tick :: i64
  mr_n_levels :: u32
  mr_capacity :: u32
  mr_hwm :: u32
  mr_best_bid :: i32
  mr_best_ask :: i32

definition slot_of :: "u64 \<Rightarrow> u32" where
  "slot_of row = ucast (row - 1)"

definition row_of :: "u32 \<Rightarrow> u64" where
  "row_of slot = ucast slot + 1"

definition level_id :: "u32 \<Rightarrow> u8 \<Rightarrow> u32 \<Rightarrow> u64" where
  "level_id nl sd t = ucast sd * ucast nl + ucast t + 1"

section \<open>The database\<close>

datatype tab = Levels | Orders | Meta

record ('w, 'r) table_api =
  tb_get :: "u64 \<Rightarrow> 'w \<Rightarrow> 'r option"
  tb_insert :: "'r \<Rightarrow> 'w \<Rightarrow> (u64 \<times> 'w) option"
  tb_update :: "u64 \<Rightarrow> 'r \<Rightarrow> 'w \<Rightarrow> 'w option"
  tb_delete :: "u64 \<Rightarrow> 'w \<Rightarrow> 'w option"

record ('v, 'r) reader_api =
  rd_get :: "u64 \<Rightarrow> 'v \<Rightarrow> 'r option"
  rd_iter :: "'v \<Rightarrow> (u64 \<times> 'r) list"
  rd_len :: "'v \<Rightarrow> nat"

text \<open>\<open>db_open ts\<close> opens the named tables: \<open>open_table\<close> for one, \<open>open_tables2\<close>, \<open>open_tables3\<close>.\<close>

record ('s, 'w, 'v, 'b) ultima_db =
  db_new :: "'s option"
  db_begin_write :: "u64 \<Rightarrow> 's \<Rightarrow> 'w option"
  db_commit :: "'w \<Rightarrow> 's \<Rightarrow> 's option"
  db_pin :: "u64 \<Rightarrow> 's \<Rightarrow> 's option"
  db_begin_read :: "u64 \<Rightarrow> 's \<Rightarrow> 'v option"
  db_open :: "tab list \<Rightarrow> 'w \<Rightarrow> 'w option"
  db_levels :: "('w, level_rec) table_api"
  db_orders :: "('w, order_rec) table_api"
  db_meta :: "('w, meta_rec) table_api"
  db_open_read :: "tab \<Rightarrow> 'v \<Rightarrow> 'v option"
  rd_levels :: "('v, level_rec) reader_api"
  rd_orders :: "('v, order_rec) reader_api"
  rd_meta :: "('v, meta_rec) reader_api"
  db_bulk :: "'s \<Rightarrow> 'b"
  bulk_levels :: "(u64 \<times> level_rec) list \<Rightarrow> 'b \<Rightarrow> 'b option"
  bulk_orders :: "(u64 \<times> order_rec) list \<Rightarrow> 'b \<Rightarrow> 'b option"
  bulk_meta :: "(u64 \<times> meta_rec) list \<Rightarrow> 'b \<Rightarrow> 'b option"
  bulk_commit :: "'b \<Rightarrow> 's \<Rightarrow> (u64 \<times> 's) option"

fun expect :: "'a option \<Rightarrow> panic + 'a" where
  "expect None = Inl Expect_failed"
| "expect (Some x) = Inr x"

section \<open>The book\<close>

record 's ultima_book =
  ub_store :: 's
  ub_version :: u64
  ub_price_min :: i64
  ub_tick :: i64
  ub_n_levels :: u32
  ub_ids :: "i64 \<rightharpoonup> u64"

definition ultima_empty :: "('s, 'w, 'v, 'b) ultima_db \<Rightarrow> smr_config \<Rightarrow> panic + 's ultima_book" where
  "ultima_empty db cfg =
     and_then (expect (db_new db)) (\<lambda>s.
     Inr \<lparr>ub_store = s, ub_version = 0, ub_price_min = cfg_price_min cfg, ub_tick = cfg_tick cfg,
          ub_n_levels = cfg_levels cfg, ub_ids = Map.empty\<rparr>)"

text \<open>A write transaction at the next version, with \<open>body\<close> between its begin and its commit.\<close>

definition with_txn ::
  "('s, 'w, 'v, 'b) ultima_db \<Rightarrow> ('s ultima_book \<Rightarrow> 'w \<Rightarrow> panic + 's ultima_book \<times> 'w) \<Rightarrow>
   's ultima_book \<Rightarrow> panic + 's ultima_book" where
  "with_txn db body U =
     (let U = U\<lparr>ub_version := ub_version U + 1\<rparr> in
      and_then (expect (db_begin_write db (ub_version U) (ub_store U))) (\<lambda>w.
      and_then (body U w) (\<lambda>(U, w).
      and_then (expect (db_commit db w (ub_store U))) (\<lambda>s. Inr (U\<lparr>ub_store := s\<rparr>)))))"

definition empty_level_rec :: "u8 \<Rightarrow> u32 \<Rightarrow> level_rec" where
  "empty_level_rec sd t =
     \<lparr>lr_side = sd, lr_tick = t, lr_qty_total = 0, lr_count = 0, lr_head = NIL, lr_tail = NIL\<rparr>"

definition seed_levels :: "('s, 'w, 'v, 'b) ultima_db \<Rightarrow> u32 \<Rightarrow> 'w \<Rightarrow> panic + 'w" where
  "seed_levels db nl w =
     and_then (expect (db_open db [Levels] w)) (\<lambda>w.
     try_fold (\<lambda>(sd, t) w. and_then (expect (tb_insert (db_levels db) (empty_level_rec sd (of_nat t)) w))
         (\<lambda>(_, w). Inr w))
       (List.product [0, 1] [0..<unat nl]) w)"

definition ultima_new :: "('s, 'w, 'v, 'b) ultima_db \<Rightarrow> smr_config \<Rightarrow> panic + 's ultima_book" where
  "ultima_new db cfg =
     and_then (ultima_empty db cfg) (with_txn db (\<lambda>U w.
       and_then (seed_levels db (cfg_levels cfg) w) (\<lambda>w.
       and_then (expect (db_open db [Meta] w)) (\<lambda>w.
       and_then (expect (tb_insert (db_meta db)
         \<lparr>mr_price_min = cfg_price_min cfg, mr_tick = cfg_tick cfg, mr_n_levels = cfg_levels cfg,
          mr_capacity = of_nat (cfg_cap cfg), mr_hwm = 0, mr_best_bid = - 1, mr_best_ask = - 1\<rparr> w)) (\<lambda>(_, w).
       Inr (U, w))))))"

definition ub_tick_of :: "'s ultima_book \<Rightarrow> i64 \<Rightarrow> panic + u32" where
  "ub_tick_of U pr = tick_of (ub_price_min U) (ub_tick U) pr"

definition row_id :: "'s ultima_book \<Rightarrow> i64 \<Rightarrow> panic + u64" where
  "row_id U oid = (case ub_ids U oid of None \<Rightarrow> Inl Missing_key | Some row \<Rightarrow> Inr row)"

definition pin_current :: "('s, 'w, 'v, 'b) ultima_db \<Rightarrow> 's ultima_book \<Rightarrow> panic + u64 \<times> 's ultima_book" where
  "pin_current db U =
     and_then (expect (db_pin db (ub_version U) (ub_store U))) (\<lambda>s.
     Inr (ub_version U, U\<lparr>ub_store := s\<rparr>))"

section \<open>The operations in a transaction\<close>

text \<open>
  Each operation exists twice in the code: opening its tables as it goes, and over writers that
  the batch has opened. The two bodies are the same; \<open>opn\<close> is what stands for opening.
\<close>

definition open_now :: "('s, 'w, 'v, 'b) ultima_db \<Rightarrow> tab list \<Rightarrow> 'w \<Rightarrow> panic + 'w" where
  "open_now db ts w = expect (db_open db ts w)"

definition opened :: "tab list \<Rightarrow> 'w \<Rightarrow> panic + 'w" where
  "opened ts w = Inr w"

definition level_rec_push :: "u32 \<Rightarrow> i64 \<Rightarrow> level_rec \<Rightarrow> level_rec" where
  "level_rec_push s q l =
     (let l = (if lr_tail l = NIL then l\<lparr>lr_head := s\<rparr> else l) in
      l\<lparr>lr_tail := s, lr_qty_total := lr_qty_total l + q, lr_count := lr_count l + 1\<rparr>)"

definition insert_with ::
  "('s, 'w, 'v, 'b) ultima_db \<Rightarrow> (tab list \<Rightarrow> 'w \<Rightarrow> panic + 'w) \<Rightarrow>
   i64 \<Rightarrow> i64 \<Rightarrow> i64 \<Rightarrow> u8 \<Rightarrow> 's ultima_book \<Rightarrow> 'w \<Rightarrow> panic + 's ultima_book \<times> 'w" where
  "insert_with db opn oid pr q sd U w =
     and_then (ub_tick_of U pr) (\<lambda>t.
     let lid = level_id (ub_n_levels U) sd t in
     and_then (opn [Levels] w) (\<lambda>w.
     and_then (expect (tb_get (db_levels db) lid w)) (\<lambda>lvl.
     let prev_tail = lr_tail lvl in
     and_then (opn [Orders] w) (\<lambda>w.
     and_then (expect (tb_insert (db_orders db)
       \<lparr>order_id = oid, price = pr, qty = q, filled = 0, next_slot = NIL, prev_slot = prev_tail, side = sd\<rparr> w))
       (\<lambda>(row, w).
     let slot = slot_of row; U = U\<lparr>ub_ids := (ub_ids U)(oid \<mapsto> row)\<rparr> in
     and_then (if prev_tail \<noteq> NIL
               then and_then (expect (tb_get (db_orders db) (row_of prev_tail) w)) (\<lambda>p.
                    expect (tb_update (db_orders db) (row_of prev_tail) (p\<lparr>next_slot := slot\<rparr>) w))
               else Inr w) (\<lambda>w.
     and_then (opn [Levels] w) (\<lambda>w.
     and_then (expect (tb_update (db_levels db) lid (level_rec_push slot q lvl) w)) (\<lambda>w.
     and_then (opn [Meta] w) (\<lambda>w.
     and_then (expect (tb_get (db_meta db) 1 w)) (\<lambda>m.
     and_then (expect (tb_update (db_meta db) 1
       (m\<lparr>mr_hwm := slot + 1, mr_best_bid := raise_bid sd t (mr_best_bid m),
          mr_best_ask := lower_ask sd t (mr_best_ask m)\<rparr>) w)) (\<lambda>w.
     Inr (U, w))))))))))))"

definition apply_insert where "apply_insert db = insert_with db (open_now db)"

definition apply_insert_mt where "apply_insert_mt db = insert_with db opened"

definition update_with ::
  "('s, 'w, 'v, 'b) ultima_db \<Rightarrow> (tab list \<Rightarrow> 'w \<Rightarrow> panic + 'w) \<Rightarrow>
   i64 \<Rightarrow> i64 \<Rightarrow> 's ultima_book \<Rightarrow> 'w \<Rightarrow> panic + 's ultima_book \<times> 'w" where
  "update_with db opn oid fill_qty U w =
     and_then (row_id U oid) (\<lambda>row.
     and_then (opn [Orders] w) (\<lambda>w.
     and_then (expect (tb_get (db_orders db) row w)) (\<lambda>ord.
     let add = min_i64 fill_qty (qty ord - filled ord); ord = ord\<lparr>filled := filled ord + add\<rparr> in
     and_then (ub_tick_of U (price ord)) (\<lambda>t.
     let lid = level_id (ub_n_levels U) (side ord) t in
     and_then (expect (tb_update (db_orders db) row ord w)) (\<lambda>w.
     and_then (opn [Levels] w) (\<lambda>w.
     and_then (expect (tb_get (db_levels db) lid w)) (\<lambda>lvl.
     and_then (expect (tb_update (db_levels db) lid (lvl\<lparr>lr_qty_total := lr_qty_total lvl - add\<rparr>) w)) (\<lambda>w.
     Inr (U, w)))))))))"

definition apply_update where "apply_update db = update_with db (open_now db)"

definition apply_update_mt where "apply_update_mt db = update_with db opened"

text \<open>The rescan: the first level_occupied level of the sequence the \<open>for\<close> loop ranges over.\<close>

definition level_occupied :: "('s, 'w, 'v, 'b) ultima_db \<Rightarrow> 'w \<Rightarrow> u64 \<Rightarrow> bool" where
  "level_occupied db w lid = (case tb_get (db_levels db) lid w of None \<Rightarrow> False | Some l \<Rightarrow> lr_head l \<noteq> NIL)"

fun first_occupied :: "(nat \<Rightarrow> bool) \<Rightarrow> nat list \<Rightarrow> i32" where
  "first_occupied occ [] = - 1"
| "first_occupied occ (i # is) = (if occ i then of_nat i else first_occupied occ is)"

text \<open>\<open>None\<close> is the result \<open>false\<close>: the level was not the cached best.\<close>

definition rescan_best ::
  "('s, 'w, 'v, 'b) ultima_db \<Rightarrow> 's ultima_book \<Rightarrow> 'w \<Rightarrow> meta_rec \<Rightarrow> u8 \<Rightarrow> u32 \<Rightarrow> meta_rec option" where
  "rescan_best db U w m sd t =
     (if sd = 0 then
        if mr_best_bid m \<noteq> t then None
        else Some (m\<lparr>mr_best_bid := first_occupied
          (\<lambda>i. level_occupied db w (level_id (ub_n_levels U) 0 (of_nat i))) (rev [0..<Suc (unat t)])\<rparr>)
      else
        if mr_best_ask m \<noteq> t then None
        else Some (m\<lparr>mr_best_ask := first_occupied
          (\<lambda>i. level_occupied db w (level_id (ub_n_levels U) 1 (of_nat i))) [unat t..<unat (ub_n_levels U)]\<rparr>))"

definition repair_with ::
  "('s, 'w, 'v, 'b) ultima_db \<Rightarrow> (tab list \<Rightarrow> 'w \<Rightarrow> panic + 'w) \<Rightarrow>
   's ultima_book \<Rightarrow> u8 \<Rightarrow> u32 \<Rightarrow> 'w \<Rightarrow> panic + 'w" where
  "repair_with db opn U sd t w =
     and_then (opn [Meta, Levels] w) (\<lambda>w.
     and_then (expect (tb_get (db_meta db) 1 w)) (\<lambda>m.
     case rescan_best db U w m sd t of
       None \<Rightarrow> Inr w
     | Some m \<Rightarrow> expect (tb_update (db_meta db) 1 m w)))"

definition level_rec_pop :: "u32 \<Rightarrow> u32 \<Rightarrow> u32 \<Rightarrow> i64 \<Rightarrow> level_rec \<Rightarrow> level_rec" where
  "level_rec_pop s pv nx rm l =
     (let l = (if lr_head l = s then l\<lparr>lr_head := nx\<rparr> else l);
          l = (if lr_tail l = s then l\<lparr>lr_tail := pv\<rparr> else l) in
      l\<lparr>lr_qty_total := lr_qty_total l - rm, lr_count := lr_count l - 1\<rparr>)"

definition relink ::
  "('s, 'w, 'v, 'b) ultima_db \<Rightarrow> u32 \<Rightarrow> (order_rec \<Rightarrow> order_rec) \<Rightarrow> 'w \<Rightarrow> panic + 'w" where
  "relink db u f w =
     (if u \<noteq> NIL
      then and_then (expect (tb_get (db_orders db) (row_of u) w)) (\<lambda>p.
           expect (tb_update (db_orders db) (row_of u) (f p) w))
      else Inr w)"

definition cancel_with ::
  "('s, 'w, 'v, 'b) ultima_db \<Rightarrow> (tab list \<Rightarrow> 'w \<Rightarrow> panic + 'w) \<Rightarrow>
   i64 \<Rightarrow> 's ultima_book \<Rightarrow> 'w \<Rightarrow> panic + 's ultima_book \<times> 'w" where
  "cancel_with db opn oid U w =
     (case ub_ids U oid of
        None \<Rightarrow> Inl Unknown_order
      | Some row \<Rightarrow>
          let U = U\<lparr>ub_ids := (ub_ids U)(oid := None)\<rparr>; slot = slot_of row in
          and_then (opn [Orders] w) (\<lambda>w.
          and_then (expect (tb_get (db_orders db) row w)) (\<lambda>ord.
          let rm = qty ord - filled ord; pv = prev_slot ord; nx = next_slot ord in
          and_then (ub_tick_of U (price ord)) (\<lambda>t.
          let lid = level_id (ub_n_levels U) (side ord) t in
          and_then (relink db pv (\<lambda>p. p\<lparr>next_slot := nx\<rparr>) w) (\<lambda>w.
          and_then (relink db nx (\<lambda>n. n\<lparr>prev_slot := pv\<rparr>) w) (\<lambda>w.
          and_then (expect (tb_delete (db_orders db) row w)) (\<lambda>w.
          and_then (opn [Levels] w) (\<lambda>w.
          and_then (expect (tb_get (db_levels db) lid w)) (\<lambda>lvl.
          let lvl = level_rec_pop slot pv nx rm lvl in
          and_then (expect (tb_update (db_levels db) lid lvl w)) (\<lambda>w.
          and_then (if lr_head lvl = NIL then repair_with db opn U (side ord) t w else Inr w) (\<lambda>w.
          Inr (U, w))))))))))))"

definition apply_cancel where "apply_cancel db = cancel_with db (open_now db)"

definition apply_cancel_mt where "apply_cancel_mt db = cancel_with db opened"

section \<open>Commands and batches\<close>

definition ultima_insert where
  "ultima_insert db U oid pr q sd = with_txn db (apply_insert db oid pr q sd) U"

definition ultima_cancel where "ultima_cancel db U oid = with_txn db (apply_cancel db oid) U"

definition ultima_fill where "ultima_fill db U oid = ultima_cancel db U oid"

definition ultima_update where
  "ultima_update db U oid fill_qty = with_txn db (apply_update db oid fill_qty) U"

text \<open>A batch in one transaction; an empty one begins none.\<close>

definition batch_txn ::
  "('s, 'w, 'v, 'b) ultima_db \<Rightarrow> ('c \<Rightarrow> 's ultima_book \<Rightarrow> 'w \<Rightarrow> panic + 's ultima_book \<times> 'w) \<Rightarrow>
   tab list \<Rightarrow> 'c list \<Rightarrow> 's ultima_book \<Rightarrow> panic + 's ultima_book" where
  "batch_txn db app ts cmds U =
     (if cmds = [] then Inr U
      else with_txn db (\<lambda>U w.
        and_then (if ts = [] then Inr w else open_now db ts w) (\<lambda>w.
        try_fold (\<lambda>c (U, w). app c U w) cmds (U, w))) U)"

definition insert_batch_txn where
  "insert_batch_txn db = batch_txn db (\<lambda>(oid, pr, q, sd). apply_insert db oid pr q sd) []"

definition update_batch_txn where
  "update_batch_txn db = batch_txn db (\<lambda>(oid, q). apply_update db oid q) []"

definition cancel_batch_txn where
  "cancel_batch_txn db = batch_txn db (apply_cancel db) []"

definition insert_batch_txn_multi where
  "insert_batch_txn_multi db =
     batch_txn db (\<lambda>(oid, pr, q, sd). apply_insert_mt db oid pr q sd) [Levels, Orders, Meta]"

definition update_batch_txn_multi where
  "update_batch_txn_multi db = batch_txn db (\<lambda>(oid, q). apply_update_mt db oid q) [Orders, Levels]"

definition cancel_batch_txn_multi where
  "cancel_batch_txn_multi db = batch_txn db (apply_cancel_mt db) [Orders, Levels, Meta]"

definition churn_batch_txn where
  "churn_batch_txn db = batch_txn db (\<lambda>op. case op of
       Op_insert oid pr q sd \<Rightarrow> apply_insert db oid pr q sd
     | Op_cancel oid \<Rightarrow> apply_cancel db oid
     | Op_fill oid \<Rightarrow> apply_cancel db oid) []"

definition churn_batch_txn_multi where
  "churn_batch_txn_multi db = batch_txn db (\<lambda>op. case op of
       Op_insert oid pr q sd \<Rightarrow> apply_insert_mt db oid pr q sd
     | Op_cancel oid \<Rightarrow> apply_cancel_mt db oid
     | Op_fill oid \<Rightarrow> apply_cancel_mt db oid) [Orders, Levels, Meta]"

section \<open>Reading a version\<close>

definition level_of_rec :: "level_rec \<Rightarrow> price_level" where
  "level_of_rec l = \<lparr>head = lr_head l, tail = lr_tail l, qty_total = lr_qty_total l, lvl_count = lr_count l\<rparr>"

definition open_version :: "('s, 'w, 'v, 'b) ultima_db \<Rightarrow> 's \<Rightarrow> u64 \<Rightarrow> panic + 'v \<times> meta_rec" where
  "open_version db s version =
     and_then (expect (db_begin_read db version s)) (\<lambda>v.
     and_then (expect (db_open_read db Levels v)) (\<lambda>v.
     and_then (expect (db_open_read db Orders v)) (\<lambda>v.
     and_then (expect (db_open_read db Meta v)) (\<lambda>v.
     and_then (expect (rd_get (rd_meta db) 1 v)) (\<lambda>m. Inr (v, m))))))"

definition encode_at ::
  "('s, 'w, 'v, 'b) ultima_db \<Rightarrow> (u8 list \<Rightarrow> u32) \<Rightarrow> 's \<Rightarrow> u64 \<Rightarrow> u8 list \<Rightarrow> panic + usize \<times> u8 list" where
  "encode_at db crc s version buf =
     and_then (open_version db s version) (\<lambda>(v, m).
     let level_count = of_nat (length (filter (\<lambda>(_, l). lr_head l \<noteq> NIL) (rd_iter (rd_levels db) v))) in
     and_then (write_root (mr_price_min m) (mr_tick m) (mr_n_levels m) (mr_capacity m) (mr_hwm m)
                 (mr_best_bid m) (mr_best_ask m) NIL buf) (\<lambda>enc.
     and_then (levels_encoder enc level_count) (\<lambda>lg.
     and_then (try_fold (\<lambda>(_, l). write_level (lr_side l) (lr_tick l) (level_of_rec l))
                 (rd_iter (rd_levels db) v) lg) (\<lambda>lg.
     and_then (expect_sbe (group_parent lg)) (\<lambda>enc.
     and_then (orders_encoder enc (of_nat (rd_len (rd_orders db) v))) (\<lambda>og.
     and_then (try_fold (\<lambda>(oid, ord). write_order (unat (slot_of oid)) ord) (rd_iter (rd_orders db) v) og)
       (\<lambda>og.
     write_crc crc og)))))))"

definition digest_ultima :: "('s, 'w, 'v, 'b) ultima_db \<Rightarrow> 's \<Rightarrow> u64 \<Rightarrow> u8 list run" where
  "digest_ultima db s version =
     run_then (Some (open_version db s version)) (\<lambda>(v, m).
     run_then (run_fold (\<lambda>(sd, t) out.
         case rd_get (rd_levels db) (level_id (mr_n_levels m) sd (of_nat t)) v of
           None \<Rightarrow> Some (Inr out)
         | Some l \<Rightarrow>
             digest_level (\<lambda>s. link_of (expect (rd_get (rd_orders db) (row_of s) v))) sd (of_nat t)
               (level_of_rec l) out)
         (List.product [0, 1] [0..<unat (mr_n_levels m)])
         (put_bests (mr_best_bid m) (mr_best_ask m) (rd_len (rd_orders db) v))) (\<lambda>out.
     Some (Inr (put_rows (map (\<lambda>(_, ord). row_of_order ord) (rd_iter (rd_orders db) v)) out))))"

end
