(* ===== verification/Ultima_Db.thy ===== *)
theory Ultima_Db
  imports Ultima
begin

text \<open>
  What the code relies on of the database ultima_db, as hypotheses on the argument \<open>db\<close>. A table
  is a map from row ids with an auto-increment counter, a write transaction works on the tables
  of the latest version and becomes the next one at its commit, readers see the tables of the
  version they name, and the versions that stay readable are the latest and the pinned ones.
  \<open>plain_db\<close> is the database with exactly this behaviour. A database is lawful when views of its
  stores and transactions turn every operation that succeeds on \<open>plain_db\<close> into one that
  succeeds on it, with the same result; of anything else nothing is assumed.
\<close>

section \<open>Tables and versions\<close>

record 'r tbl =
  t_rows :: "u64 \<rightharpoonup> 'r"
  t_next :: u64

record txn =
  tx_version :: u64
  tx_levels :: "level_rec tbl option"
  tx_orders :: "order_rec tbl option"
  tx_meta :: "meta_rec tbl option"

record stored =
  sv_current :: u64
  sv_at :: "u64 \<rightharpoonup> txn"
  sv_pinned :: "u64 set"

definition empty_tbl :: "'r tbl" where
  "empty_tbl = \<lparr>t_rows = Map.empty, t_next = 1\<rparr>"

definition created :: "'r tbl option \<Rightarrow> 'r tbl" where
  "created m = (case m of None \<Rightarrow> empty_tbl | Some t \<Rightarrow> t)"

definition plain_table ::
  "(txn \<Rightarrow> 'r tbl option) \<Rightarrow> ('r tbl \<Rightarrow> txn \<Rightarrow> txn) \<Rightarrow> (txn, 'r) table_api" where
  "plain_table sel put =
     \<lparr>tb_get = (\<lambda>k w. Option.bind (sel w) (\<lambda>t. t_rows t k)),
      tb_insert = (\<lambda>r w. map_option (\<lambda>t. (t_next t,
        put (t\<lparr>t_rows := (t_rows t)(t_next t \<mapsto> r), t_next := t_next t + 1\<rparr>) w)) (sel w)),
      tb_update = (\<lambda>k r w. Option.bind (sel w) (\<lambda>t.
        if t_rows t k = None then None else Some (put (t\<lparr>t_rows := (t_rows t)(k \<mapsto> r)\<rparr>) w))),
      tb_delete = (\<lambda>k w. Option.bind (sel w) (\<lambda>t.
        if t_rows t k = None then None else Some (put (t\<lparr>t_rows := (t_rows t)(k := None)\<rparr>) w)))\<rparr>"

text \<open>A reader lists the rows in ascending order of their ids.\<close>

definition rows_in_order :: "(u64 \<rightharpoonup> 'r) \<Rightarrow> (u64 \<times> 'r) list" where
  "rows_in_order m = map (\<lambda>k. (k, the (m k))) (sorted_list_of_set (dom m))"

definition plain_reader :: "(txn \<Rightarrow> 'r tbl option) \<Rightarrow> (txn, 'r) reader_api" where
  "plain_reader sel =
     \<lparr>rd_get = (\<lambda>k w. Option.bind (sel w) (\<lambda>t. t_rows t k)),
      rd_iter = (\<lambda>w. rows_in_order (t_rows (created (sel w)))),
      rd_len = (\<lambda>w. card (dom (t_rows (created (sel w)))))\<rparr>"

fun open_tab :: "tab \<Rightarrow> txn \<Rightarrow> txn" where
  "open_tab Levels w = w\<lparr>tx_levels := Some (created (tx_levels w))\<rparr>"
| "open_tab Orders w = w\<lparr>tx_orders := Some (created (tx_orders w))\<rparr>"
| "open_tab Meta w = w\<lparr>tx_meta := Some (created (tx_meta w))\<rparr>"

fun has_tab :: "tab \<Rightarrow> txn \<Rightarrow> bool" where
  "has_tab Levels w \<longleftrightarrow> tx_levels w \<noteq> None"
| "has_tab Orders w \<longleftrightarrow> tx_orders w \<noteq> None"
| "has_tab Meta w \<longleftrightarrow> tx_meta w \<noteq> None"

text \<open>
  A bulk load replaces the tables it was given; its lists are in strictly ascending order of the
  ids. Where the counter of a loaded table stands and which version a load gets are parameters of
  \<open>plain_db\<close>.
\<close>

definition loaded :: "((u64 \<times> 'r) list \<Rightarrow> u64) \<Rightarrow> (u64 \<times> 'r) list \<Rightarrow> 'r tbl option" where
  "loaded counter rows =
     (if sorted_wrt (<) (map fst rows) then Some \<lparr>t_rows = map_of rows, t_next = counter rows\<rparr> else None)"

definition empty_txn :: txn where
  "empty_txn = \<lparr>tx_version = 0, tx_levels = None, tx_orders = None, tx_meta = None\<rparr>"

definition commit_txn :: "txn \<Rightarrow> stored \<Rightarrow> stored" where
  "commit_txn w s =
     s\<lparr>sv_current := tx_version w, sv_at := (sv_at s |` sv_pinned s)(tx_version w \<mapsto> w)\<rparr>"

definition plain_db ::
  "((u64 \<times> level_rec) list \<Rightarrow> u64) \<Rightarrow> ((u64 \<times> order_rec) list \<Rightarrow> u64) \<Rightarrow> ((u64 \<times> meta_rec) list \<Rightarrow> u64) \<Rightarrow>
   (stored \<Rightarrow> u64) \<Rightarrow> (stored, txn, txn, txn) ultima_db" where
  "plain_db cl co cm bv =
     \<lparr>db_new = Some \<lparr>sv_current = 0, sv_at = [0 \<mapsto> empty_txn], sv_pinned = {}\<rparr>,
      db_begin_write = (\<lambda>v s. if sv_current s < v
        then map_option (tx_version_update (\<lambda>_. v)) (sv_at s (sv_current s)) else None),
      db_commit = (\<lambda>w s. Some (commit_txn w s)),
      db_pin = (\<lambda>v s. if sv_at s v = None then None else Some (s\<lparr>sv_pinned := insert v (sv_pinned s)\<rparr>)),
      db_begin_read = (\<lambda>v s. sv_at s v),
      db_open = (\<lambda>ts w. Some (fold open_tab ts w)),
      db_levels = plain_table tx_levels (\<lambda>t. tx_levels_update (\<lambda>_. Some t)),
      db_orders = plain_table tx_orders (\<lambda>t. tx_orders_update (\<lambda>_. Some t)),
      db_meta = plain_table tx_meta (\<lambda>t. tx_meta_update (\<lambda>_. Some t)),
      db_open_read = (\<lambda>tb w. if has_tab tb w then Some w else None),
      rd_levels = plain_reader tx_levels,
      rd_orders = plain_reader tx_orders,
      rd_meta = plain_reader tx_meta,
      db_bulk = (\<lambda>s. empty_txn),
      bulk_levels = (\<lambda>rows b. map_option (\<lambda>t. b\<lparr>tx_levels := Some t\<rparr>) (loaded cl rows)),
      bulk_orders = (\<lambda>rows b. map_option (\<lambda>t. b\<lparr>tx_orders := Some t\<rparr>) (loaded co rows)),
      bulk_meta = (\<lambda>rows b. map_option (\<lambda>t. b\<lparr>tx_meta := Some t\<rparr>) (loaded cm rows)),
      bulk_commit = (\<lambda>b s. let w = b\<lparr>tx_version := bv s\<rparr> in Some (tx_version w, commit_txn w s))\<rparr>"

section \<open>Lawful databases\<close>

record ('s, 'w, 'v, 'b) db_views =
  of_store :: "'s \<Rightarrow> stored"
  of_write :: "'w \<Rightarrow> txn"
  of_read :: "'v \<Rightarrow> txn"
  of_bulk :: "'b \<Rightarrow> txn"

definition keeps :: "('a \<Rightarrow> 'b) \<Rightarrow> 'a option \<Rightarrow> 'b option \<Rightarrow> bool" where
  "keeps f m m' \<longleftrightarrow> (\<forall>y. m' = Some y \<longrightarrow> (\<exists>x. m = Some x \<and> f x = y))"

definition table_laws :: "('w \<Rightarrow> txn) \<Rightarrow> ('w, 'r) table_api \<Rightarrow> (txn, 'r) table_api \<Rightarrow> bool" where
  "table_laws f T T' \<longleftrightarrow>
     (\<forall>k w. tb_get T k w = tb_get T' k (f w)) \<and>
     (\<forall>r w. keeps (map_prod (\<lambda>x. x) f) (tb_insert T r w) (tb_insert T' r (f w))) \<and>
     (\<forall>k r w. keeps f (tb_update T k r w) (tb_update T' k r (f w))) \<and>
     (\<forall>k w. keeps f (tb_delete T k w) (tb_delete T' k (f w)))"

definition reader_laws :: "('v \<Rightarrow> txn) \<Rightarrow> ('v, 'r) reader_api \<Rightarrow> (txn, 'r) reader_api \<Rightarrow> bool" where
  "reader_laws f R R' \<longleftrightarrow>
     (\<forall>k v. rd_get R k v = rd_get R' k (f v)) \<and> (\<forall>v. rd_iter R v = rd_iter R' (f v)) \<and>
     (\<forall>v. rd_len R v = rd_len R' (f v))"

definition refines_db ::
  "('s, 'w, 'v, 'b) db_views \<Rightarrow> ('s, 'w, 'v, 'b) ultima_db \<Rightarrow> (stored, txn, txn, txn) ultima_db \<Rightarrow> bool" where
  "refines_db V db db' \<longleftrightarrow>
     keeps (of_store V) (db_new db) (db_new db') \<and>
     (\<forall>v s. keeps (of_write V) (db_begin_write db v s) (db_begin_write db' v (of_store V s))) \<and>
     (\<forall>w s. keeps (of_store V) (db_commit db w s) (db_commit db' (of_write V w) (of_store V s))) \<and>
     (\<forall>v s. keeps (of_store V) (db_pin db v s) (db_pin db' v (of_store V s))) \<and>
     (\<forall>v s. keeps (of_read V) (db_begin_read db v s) (db_begin_read db' v (of_store V s))) \<and>
     (\<forall>ts w. keeps (of_write V) (db_open db ts w) (db_open db' ts (of_write V w))) \<and>
     table_laws (of_write V) (db_levels db) (db_levels db') \<and>
     table_laws (of_write V) (db_orders db) (db_orders db') \<and>
     table_laws (of_write V) (db_meta db) (db_meta db') \<and>
     (\<forall>tb v. keeps (of_read V) (db_open_read db tb v) (db_open_read db' tb (of_read V v))) \<and>
     reader_laws (of_read V) (rd_levels db) (rd_levels db') \<and>
     reader_laws (of_read V) (rd_orders db) (rd_orders db') \<and>
     reader_laws (of_read V) (rd_meta db) (rd_meta db') \<and>
     (\<forall>s. of_bulk V (db_bulk db s) = db_bulk db' (of_store V s)) \<and>
     (\<forall>rows b. keeps (of_bulk V) (bulk_levels db rows b) (bulk_levels db' rows (of_bulk V b))) \<and>
     (\<forall>rows b. keeps (of_bulk V) (bulk_orders db rows b) (bulk_orders db' rows (of_bulk V b))) \<and>
     (\<forall>rows b. keeps (of_bulk V) (bulk_meta db rows b) (bulk_meta db' rows (of_bulk V b))) \<and>
     (\<forall>b s. keeps (map_prod (\<lambda>x. x) (of_store V)) (bulk_commit db b s) (bulk_commit db' (of_bulk V b) (of_store V s)))"

definition lawful :: "('s, 'w, 'v, 'b) db_views \<Rightarrow> ('s, 'w, 'v, 'b) ultima_db \<Rightarrow> bool" where
  "lawful V db \<longleftrightarrow> (\<exists>cl co cm bv. refines_db V db (plain_db cl co cm bv))"

text \<open>The database of the witnesses.\<close>

definition plain_views :: "(stored, txn, txn, txn) db_views" where
  "plain_views = \<lparr>of_store = (\<lambda>s. s), of_write = (\<lambda>w. w), of_read = (\<lambda>v. v), of_bulk = (\<lambda>b. b)\<rparr>"

lemma keeps_self [simp]: "keeps (\<lambda>x. x) m m" "keeps (map_prod (\<lambda>x. x) (\<lambda>x. x)) p p"
  by (auto simp: keeps_def)

lemma refines_self: "refines_db plain_views db db"
  by (simp add: refines_db_def plain_views_def table_laws_def reader_laws_def)

lemma plain_lawful: "lawful plain_views (plain_db cl co cm bv)"
  unfolding lawful_def using refines_self by blast

section \<open>Runs on a lawful database\<close>

text \<open>Whatever succeeds on \<open>db'\<close> succeeds on \<open>db\<close>, with the result that \<open>f\<close> shows.\<close>

definition sim_run :: "('a \<Rightarrow> 'b) \<Rightarrow> panic + 'a \<Rightarrow> panic + 'b \<Rightarrow> bool" where
  "sim_run f m m' \<longleftrightarrow> (\<forall>y. m' = Inr y \<longrightarrow> (\<exists>x. m = Inr x \<and> f x = y))"

lemma sim_InrI: "f x = y \<Longrightarrow> sim_run f (Inr x) (Inr y)"
  by (simp add: sim_run_def)

lemma sim_Inl: "sim_run f m (Inl e)"
  by (simp add: sim_run_def)

lemma sim_expect: "keeps f m m' \<Longrightarrow> sim_run f (expect m) (expect m')"
  by (cases m'; cases m) (auto simp: keeps_def sim_run_def)

lemma sim_same: "m = m' \<Longrightarrow> sim_run (\<lambda>x. x) m m'"
  by (simp add: sim_run_def)

lemma sim_then:
  assumes "sim_run f m m'" and "\<And>x. sim_run g (k x) (k' (f x))"
  shows "sim_run g (and_then m k) (and_then m' k')"
  using assms unfolding sim_run_def by fastforce

lemma sim_if: "(c \<Longrightarrow> sim_run f a a') \<Longrightarrow> (\<not> c \<Longrightarrow> sim_run f b b') \<Longrightarrow>
    sim_run f (if c then a else b) (if c then a' else b')"
  by simp

lemma sim_fold:
  assumes "\<And>x s. sim_run f (g x s) (g' x (f s))"
  shows "sim_run f (try_fold g xs s) (try_fold g' xs (f s))"
proof (induction xs arbitrary: s)
  case Nil
  show ?case by (simp add: sim_run_def)
next
  case (Cons x xs)
  show ?case unfolding try_fold.simps by (rule sim_then) (rule assms, rule Cons)
qed

definition show_book :: "('s \<Rightarrow> 't) \<Rightarrow> 's ultima_book \<Rightarrow> 't ultima_book" where
  "show_book f U =
     \<lparr>ub_store = f (ub_store U), ub_version = ub_version U, ub_price_min = ub_price_min U,
      ub_tick = ub_tick U, ub_n_levels = ub_n_levels U, ub_ids = ub_ids U\<rparr>"

lemma show_book_simps [simp]:
  "ub_store (show_book f U) = f (ub_store U)" "ub_version (show_book f U) = ub_version U"
  "ub_price_min (show_book f U) = ub_price_min U" "ub_tick (show_book f U) = ub_tick U"
  "ub_n_levels (show_book f U) = ub_n_levels U" "ub_ids (show_book f U) = ub_ids U"
  "show_book f (U\<lparr>ub_version := v\<rparr>) = (show_book f U)\<lparr>ub_version := v\<rparr>"
  "show_book f (U\<lparr>ub_ids := m\<rparr>) = (show_book f U)\<lparr>ub_ids := m\<rparr>"
  "show_book f (U\<lparr>ub_store := s\<rparr>) = (show_book f U)\<lparr>ub_store := f s\<rparr>"
  "ub_tick_of (show_book f U) = ub_tick_of U" "row_id (show_book f U) = row_id U"
  by (simp_all add: show_book_def ub_tick_of_def row_id_def fun_eq_iff)


text \<open>The operations of a refined database, one by one.\<close>

lemma db_sims:
  assumes "refines_db V db db'"
  shows sim_new: "sim_run (of_store V) (expect (db_new db)) (expect (db_new db'))"
    and sim_begin_write: "\<And>v s. sim_run (of_write V) (expect (db_begin_write db v s))
        (expect (db_begin_write db' v (of_store V s)))"
    and sim_commit: "\<And>w s. sim_run (of_store V) (expect (db_commit db w s))
        (expect (db_commit db' (of_write V w) (of_store V s)))"
    and sim_pin: "\<And>v s. sim_run (of_store V) (expect (db_pin db v s)) (expect (db_pin db' v (of_store V s)))"
    and sim_begin_read: "\<And>v s. sim_run (of_read V) (expect (db_begin_read db v s))
        (expect (db_begin_read db' v (of_store V s)))"
    and sim_open: "\<And>ts w. sim_run (of_write V) (open_now db ts w) (open_now db' ts (of_write V w))"
    and sim_open_read: "\<And>tb v. sim_run (of_read V) (expect (db_open_read db tb v))
        (expect (db_open_read db' tb (of_read V v)))"
  using assms by (simp_all add: refines_db_def sim_expect open_now_def)

lemma table_sims:
  assumes "table_laws f T T'"
  shows sim_get: "\<And>k w. sim_run (\<lambda>r. r) (expect (tb_get T k w)) (expect (tb_get T' k (f w)))"
    and sim_tb_insert: "\<And>r w. sim_run (map_prod (\<lambda>x. x) f) (expect (tb_insert T r w)) (expect (tb_insert T' r (f w)))"
    and sim_tb_update: "\<And>k r w. sim_run f (expect (tb_update T k r w)) (expect (tb_update T' k r (f w)))"
    and sim_tb_delete: "\<And>k w. sim_run f (expect (tb_delete T k w)) (expect (tb_delete T' k (f w)))"
  using assms by (simp_all add: table_laws_def sim_expect sim_same)

lemma table_law_facts:
  assumes "refines_db V db db'"
  shows levels_laws: "table_laws (of_write V) (db_levels db) (db_levels db')"
    and orders_laws: "table_laws (of_write V) (db_orders db) (db_orders db')"
    and meta_laws: "table_laws (of_write V) (db_meta db) (db_meta db')"
    and levels_reads: "reader_laws (of_read V) (rd_levels db) (rd_levels db')"
    and orders_reads: "reader_laws (of_read V) (rd_orders db) (rd_orders db')"
    and meta_reads: "reader_laws (of_read V) (rd_meta db) (rd_meta db')"
  using assms by (simp_all add: refines_db_def)

lemma sim_opened: "sim_run f (opened ts w) (opened ts (f w))"
  by (simp add: opened_def sim_InrI)

lemma sim_prod:
  assumes "sim_run (map_prod f g) m m'" and "\<And>x y. sim_run h (k x y) (k' (f x) (g y))"
  shows "sim_run h (and_then m (\<lambda>(x, y). k x y)) (and_then m' (\<lambda>(x, y). k' x y))"
  using assms by (intro sim_then) auto

lemma ub_tick_of_update [simp]:
  "ub_tick_of (U\<lparr>ub_ids := m\<rparr>) = ub_tick_of U" "ub_tick_of (U\<lparr>ub_version := v\<rparr>) = ub_tick_of U"
  "ub_tick_of (U\<lparr>ub_store := s\<rparr>) = ub_tick_of U"
  "ub_n_levels (U\<lparr>ub_ids := m\<rparr>) = ub_n_levels U"
  by (simp_all add: ub_tick_of_def fun_eq_iff)

lemma insert_with_sim:
  assumes R: "refines_db V db db'"
    and opn: "\<And>ts w. sim_run (of_write V) (opn ts w) (opn' ts (of_write V w))"
  shows "sim_run (map_prod (show_book (of_store V)) (of_write V)) (insert_with db opn oid pr q sd U w)
    (insert_with db' opn' oid pr q sd (show_book (of_store V) U) (of_write V w))"
  unfolding insert_with_def Let_def show_book_simps
  by (intro sim_then [OF sim_same [OF refl]] sim_then [OF opn] sim_then [OF sim_get [OF levels_laws [OF R]]]
      sim_then [OF sim_get [OF meta_laws [OF R]]] sim_then [OF sim_get [OF orders_laws [OF R]]]
      sim_then [OF sim_tb_update [OF levels_laws [OF R]]] sim_then [OF sim_tb_update [OF meta_laws [OF R]]]
      sim_prod [OF sim_tb_insert [OF orders_laws [OF R]]] sim_then [OF sim_if [where f = "of_write V"]]
      sim_tb_update [OF orders_laws [OF R]]) (simp_all add: sim_InrI)

lemma update_with_sim:
  assumes R: "refines_db V db db'"
    and opn: "\<And>ts w. sim_run (of_write V) (opn ts w) (opn' ts (of_write V w))"
  shows "sim_run (map_prod (show_book (of_store V)) (of_write V)) (update_with db opn oid q U w)
    (update_with db' opn' oid q (show_book (of_store V) U) (of_write V w))"
  unfolding update_with_def Let_def show_book_simps
  by (intro sim_then [OF sim_same [OF refl]] sim_then [OF opn] sim_then [OF sim_get [OF levels_laws [OF R]]]
      sim_then [OF sim_get [OF orders_laws [OF R]]]
      sim_then [OF sim_tb_update [OF levels_laws [OF R]]] sim_then [OF sim_tb_update [OF orders_laws [OF R]]])
    (simp_all add: sim_InrI)

lemma rescan_best_show:
  assumes R: "refines_db V db db'"
  shows "rescan_best db U w m sd t = rescan_best db' (show_book (of_store V) U) (of_write V w) m sd t"
  using levels_laws [OF R] by (simp add: rescan_best_def level_occupied_def table_laws_def)

lemma repair_with_sim:
  assumes R: "refines_db V db db'"
    and opn: "\<And>ts w. sim_run (of_write V) (opn ts w) (opn' ts (of_write V w))"
  shows "sim_run (of_write V) (repair_with db opn U sd t w)
    (repair_with db' opn' (show_book (of_store V) U) sd t (of_write V w))"
proof -
  have "sim_run (of_write V)
      (case rescan_best db U w m sd t of None \<Rightarrow> Inr w | Some m \<Rightarrow> expect (tb_update (db_meta db) 1 m w))
      (case rescan_best db' (show_book (of_store V) U) (of_write V w) m sd t of
         None \<Rightarrow> Inr (of_write V w) | Some m \<Rightarrow> expect (tb_update (db_meta db') 1 m (of_write V w)))" for m w
    unfolding rescan_best_show [OF R, symmetric]
    by (cases "rescan_best db U w m sd t") (simp_all add: sim_InrI sim_tb_update [OF meta_laws [OF R]])
  then show ?thesis
    unfolding repair_with_def
    by (intro sim_then [OF opn] sim_then [OF sim_get [OF meta_laws [OF R]]])
qed

lemma relink_sim:
  assumes R: "refines_db V db db'"
  shows "sim_run (of_write V) (relink db u f w) (relink db' u f (of_write V w))"
  unfolding relink_def
  by (intro sim_if sim_then [OF sim_get [OF orders_laws [OF R]]] sim_tb_update [OF orders_laws [OF R]])
    (simp_all add: sim_InrI)

lemma cancel_with_sim:
  assumes R: "refines_db V db db'"
    and opn: "\<And>ts w. sim_run (of_write V) (opn ts w) (opn' ts (of_write V w))"
  shows "sim_run (map_prod (show_book (of_store V)) (of_write V)) (cancel_with db opn oid U w)
    (cancel_with db' opn' oid (show_book (of_store V) U) (of_write V w))"
proof (cases "ub_ids U oid")
  case None
  then show ?thesis by (simp add: cancel_with_def sim_Inl)
next
  case (Some row)
  have rep: "sim_run (of_write V) (repair_with db opn U' sd t w)
      (repair_with db' opn' (show_book (of_store V) U') sd t (of_write V w))" for U' sd t w
    by (rule repair_with_sim [OF R]) (rule opn)
  show ?thesis
    unfolding cancel_with_def Let_def show_book_simps Some option.case ub_tick_of_update
    by (intro sim_then [OF opn] sim_then [OF sim_get [OF orders_laws [OF R]]]
        sim_then [OF relink_sim [OF R]] sim_then [OF sim_get [OF levels_laws [OF R]]]
        sim_then [OF sim_tb_delete [OF orders_laws [OF R]]] sim_then [OF sim_tb_update [OF levels_laws [OF R]]]
        sim_then [OF sim_if [where f = "of_write V"]] sim_then [OF sim_same [OF refl]])
      (simp_all add: sim_InrI rep [of "U\<lparr>ub_ids := (ub_ids U)(oid := None)\<rparr>", simplified])
qed

text \<open>A transaction, the commands and the batches.\<close>

lemma with_txn_sim:
  assumes R: "refines_db V db db'"
    and body: "\<And>U w. sim_run (map_prod (show_book (of_store V)) (of_write V)) (body U w)
      (body' (show_book (of_store V) U) (of_write V w))"
  shows "sim_run (show_book (of_store V)) (with_txn db body U) (with_txn db' body' (show_book (of_store V) U))"
proof -
  have "sim_run (show_book (of_store V))
      (and_then (expect (db_begin_write db (ub_version U1) (ub_store U1))) (\<lambda>w. and_then (body U1 w)
        (\<lambda>(U, w). and_then (expect (db_commit db w (ub_store U))) (\<lambda>s. Inr (U\<lparr>ub_store := s\<rparr>)))))
      (and_then (expect (db_begin_write db' (ub_version U1) (of_store V (ub_store U1)))) (\<lambda>w.
        and_then (body' (show_book (of_store V) U1) w)
        (\<lambda>(U, w). and_then (expect (db_commit db' w (ub_store U))) (\<lambda>s. Inr (U\<lparr>ub_store := s\<rparr>)))))" for U1
    by (intro sim_then [OF sim_begin_write [OF R]] sim_prod [OF body])
      (simp, intro sim_then [OF sim_commit [OF R]] sim_InrI, simp)
  from this [of "U\<lparr>ub_version := ub_version U + 1\<rparr>"] show ?thesis by (simp add: with_txn_def Let_def)
qed

lemma batch_txn_sim:
  assumes R: "refines_db V db db'"
    and app: "\<And>c U w. sim_run (map_prod (show_book (of_store V)) (of_write V)) (app c U w)
      (app' c (show_book (of_store V) U) (of_write V w))"
  shows "sim_run (show_book (of_store V)) (batch_txn db app ts cmds U)
    (batch_txn db' app' ts cmds (show_book (of_store V) U))"
proof -
  have "sim_run (map_prod (show_book (of_store V)) (of_write V)) (try_fold (\<lambda>c (U, w). app c U w) cmds (U, w))
      (try_fold (\<lambda>c (U, w). app' c U w) cmds (show_book (of_store V) U, of_write V w))" for U w
    using sim_fold [of "map_prod (show_book (of_store V)) (of_write V)" "\<lambda>c (U, w). app c U w"
        "\<lambda>c (U, w). app' c U w" cmds "(U, w)"] app by (simp add: split_beta)
  then show ?thesis
    unfolding batch_txn_def
    by (intro sim_if sim_InrI with_txn_sim [OF R] sim_then [where f = "of_write V"])
      (simp_all add: sim_InrI sim_open [OF R])
qed

lemma command_sims:
  assumes R: "refines_db V db db'"
  shows "sim_run (show_book (of_store V)) (ultima_insert db U oid pr q sd)
      (ultima_insert db' (show_book (of_store V) U) oid pr q sd)"
    and "sim_run (show_book (of_store V)) (ultima_update db U oid q)
      (ultima_update db' (show_book (of_store V) U) oid q)"
    and "sim_run (show_book (of_store V)) (ultima_cancel db U oid)
      (ultima_cancel db' (show_book (of_store V) U) oid)"
    and "sim_run (show_book (of_store V)) (ultima_fill db U oid)
      (ultima_fill db' (show_book (of_store V) U) oid)"
  unfolding ultima_insert_def ultima_update_def ultima_cancel_def ultima_fill_def
    apply_insert_def apply_update_def apply_cancel_def
  by (intro with_txn_sim [OF R] insert_with_sim [OF R] update_with_sim [OF R] cancel_with_sim [OF R]
      sim_open [OF R])+

lemma open_version_sim:
  assumes R: "refines_db V db db'"
  shows "sim_run (map_prod (of_read V) (\<lambda>m. m)) (open_version db s v) (open_version db' (of_store V s) v)"
proof -
  have "rd_get (rd_meta db) 1 v = rd_get (rd_meta db') 1 (of_read V v)" for v
    using meta_reads [OF R] by (simp add: reader_laws_def)
  then show ?thesis
    unfolding open_version_def
    by (intro sim_then [OF sim_begin_read [OF R]] sim_then [OF sim_open_read [OF R]]
        sim_then [OF sim_same] sim_InrI) simp_all
qed

text \<open>The readers return what they return on the refined database.\<close>

lemma digest_ultima_sim:
  assumes R: "refines_db V db db'" and "digest_ultima db' (of_store V s) v = Some (Inr out)"
  shows "digest_ultima db s v = Some (Inr out)"
proof -
  from assms(2) obtain v' m where o': "open_version db' (of_store V s) v = Inr (v', m)"
    by (cases "open_version db' (of_store V s) v") (auto simp: digest_ultima_def)
  then obtain x where o: "open_version db s v = Inr (x, m)" and v': "v' = of_read V x"
    using open_version_sim [OF R, of s v] unfolding sim_run_def by force
  have reads: "rd_get (rd_levels db) k x = rd_get (rd_levels db') k (of_read V x)"
    "rd_get (rd_orders db) k x = rd_get (rd_orders db') k (of_read V x)"
    "rd_iter (rd_levels db) x = rd_iter (rd_levels db') (of_read V x)"
    "rd_iter (rd_orders db) x = rd_iter (rd_orders db') (of_read V x)"
    "rd_len (rd_orders db) x = rd_len (rd_orders db') (of_read V x)" for k
    using levels_reads [OF R] orders_reads [OF R] by (simp_all add: reader_laws_def)
  show ?thesis
    using assms(2) unfolding digest_ultima_def o o' v' run_then_simps prod.case reads .
qed

lemma encode_at_sim:
  assumes R: "refines_db V db db'" and "encode_at db' crc (of_store V s) v buf = Inr out"
  shows "encode_at db crc s v buf = Inr out"
proof -
  from assms(2) obtain v' m where o': "open_version db' (of_store V s) v = Inr (v', m)"
    by (cases "open_version db' (of_store V s) v") (auto simp: encode_at_def)
  then obtain x where o: "open_version db s v = Inr (x, m)" and v': "v' = of_read V x"
    using open_version_sim [OF R, of s v] unfolding sim_run_def by force
  have reads: "rd_get (rd_levels db) k x = rd_get (rd_levels db') k (of_read V x)"
    "rd_get (rd_orders db) k x = rd_get (rd_orders db') k (of_read V x)"
    "rd_iter (rd_levels db) x = rd_iter (rd_levels db') (of_read V x)"
    "rd_iter (rd_orders db) x = rd_iter (rd_orders db') (of_read V x)"
    "rd_len (rd_orders db) x = rd_len (rd_orders db') (of_read V x)" for k
    using levels_reads [OF R] orders_reads [OF R] by (simp_all add: reader_laws_def)
  show ?thesis
    using assms(2) unfolding encode_at_def o o' v' and_then.simps prod.case reads .
qed

end
