(* ===== verification/Ultima_Inv.thy ===== *)
theory Ultima_Inv
  imports Ultima_Db
begin

text \<open>
  The book on the database against the flat book. The tables are related to a flat book whose
  pool never runs out and whose dead slots are never taken again: its live slots are the rows of
  the orders table, its lanes the rows of the levels table, its scalars the meta row. The
  operations of the code take that relation to the states the flat book's operations reach, an
  insert taking the slot at the high-water mark instead of a freed one.
\<close>

section \<open>Row ids\<close>

lemma unat_row_of: "unat (row_of s) = Suc (unat s)"
proof -
  have "unat s < 2 ^ 32" using unat_u32_bound [of s] by simp
  then show ?thesis by (simp add: row_of_def unat_word_ariths ucast_u32_u64)
qed

lemma row_of_inj [simp]: "row_of s = row_of u \<longleftrightarrow> s = u"
  by (auto dest: arg_cong [of _ _ unat] simp: unat_row_of word_unat_eq_iff)

lemma slot_of_row [simp]: "slot_of (row_of s) = s"
proof -
  have "unat s < 2 ^ 32" using unat_u32_bound [of s] by simp
  then show ?thesis
    by (simp add: slot_of_def row_of_def word_unat_eq_iff unsigned_ucast_eq take_bit_nat_eq_self
        take_bit_word_beyond_length_eq)
qed

lemma row_of_Suc: "unat h < 4294967295 \<Longrightarrow> row_of h + 1 = row_of (h + 1)"
  by (simp add: word_unat_eq_iff unat_row_of unat_word_ariths)

lemma unat_level_id:
  assumes "is_side sd" and "unat nl < 2 ^ 31"
  shows "unat (level_id nl sd t) = unat sd * unat nl + unat t + 1"
proof -
  have "unat t < 2 ^ 32" using unat_u32_bound [of t] by simp
  then show ?thesis
    using assms by (auto simp: is_side_def level_id_def unat_word_ariths ucast_u32_u64)
qed

lemma level_id_inj:
  assumes "is_side sd" "is_side sd'" "unat t < unat nl" "unat t' < unat nl" "unat nl < 2 ^ 31"
  shows "level_id nl sd t = level_id nl sd' t' \<longleftrightarrow> sd = sd' \<and> t = t'"
proof
  assume "level_id nl sd t = level_id nl sd' t'"
  then have "unat sd * unat nl + unat t = unat sd' * unat nl + unat t'"
    using unat_level_id [OF assms(1,5), of t] unat_level_id [OF assms(2,5), of t'] by simp
  then show "sd = sd' \<and> t = t'"
    using assms by (auto simp: is_side_def word_unat_eq_iff)
qed simp

section \<open>The relation\<close>

definition level_row :: "u8 \<Rightarrow> u32 \<Rightarrow> price_level \<Rightarrow> level_rec" where
  "level_row sd t l =
     \<lparr>lr_side = sd, lr_tick = t, lr_qty_total = qty_total l, lr_count = lvl_count l,
      lr_head = head l, lr_tail = tail l\<rparr>"

definition meta_row :: "u32 \<Rightarrow> book \<Rightarrow> meta_rec" where
  "meta_row cap b =
     \<lparr>mr_price_min = price_min b, mr_tick = tick b, mr_n_levels = n_levels b, mr_capacity = cap,
      mr_hwm = hwm b, mr_best_bid = best_bid b, mr_best_ask = best_ask b\<rparr>"

definition level_at :: "book \<Rightarrow> u64 \<Rightarrow> level_rec \<Rightarrow> bool" where
  "level_at b k r \<longleftrightarrow> (\<exists>sd t. is_side sd \<and> unat t < unat (n_levels b) \<and>
     k = level_id (n_levels b) sd t \<and> r = level_row sd t (lane b sd ! unat t))"

definition order_row :: "book \<Rightarrow> u64 \<Rightarrow> order_rec \<Rightarrow> bool" where
  "order_row b k r \<longleftrightarrow> (\<exists>s. used_slot b s \<and> k = row_of s \<and> r = order_at (pool b) s)"

definition tables_show :: "u32 \<Rightarrow> book \<Rightarrow> level_rec tbl \<Rightarrow> order_rec tbl \<Rightarrow> meta_rec tbl \<Rightarrow> bool" where
  "tables_show cap b L R M \<longleftrightarrow>
     (\<forall>k r. t_rows L k = Some r \<longleftrightarrow> level_at b k r) \<and>
     (\<forall>k r. t_rows R k = Some r \<longleftrightarrow> order_row b k r) \<and> t_next R = row_of (hwm b) \<and>
     t_rows M = [1 \<mapsto> meta_row cap b]"

definition txn_shows :: "u32 \<Rightarrow> book \<Rightarrow> txn \<Rightarrow> bool" where
  "txn_shows cap b w \<longleftrightarrow>
     tx_levels w \<noteq> None \<and> tx_meta w \<noteq> None \<and>
     tables_show cap b (created (tx_levels w)) (created (tx_orders w)) (created (tx_meta w))"

definition scalars_show :: "book \<Rightarrow> 's ultima_book \<Rightarrow> bool" where
  "scalars_show b U \<longleftrightarrow>
     ub_price_min U = price_min b \<and> ub_tick U = tick b \<and> ub_n_levels U = n_levels b \<and>
     ub_ids U = map_option row_of \<circ> idmap b"

text \<open>The pool of the flat book is as long as handles go, so a slot above the mark is at hand.\<close>

definition endless :: "book \<Rightarrow> bool" where
  "endless b \<longleftrightarrow> length (pool b) = 4294967295"

lemma order_row_row_of [simp]: "order_row b (row_of s) r \<longleftrightarrow> used_slot b s \<and> r = order_at (pool b) s"
  by (auto simp: order_row_def)

lemma level_at_id:
  assumes "is_side sd" "unat t < unat (n_levels b)" "unat (n_levels b) < 2 ^ 31"
  shows "level_at b (level_id (n_levels b) sd t) r \<longleftrightarrow> r = level_row sd t (lane b sd ! unat t)"
  using assms by (auto simp: level_at_def level_id_inj)

section \<open>Opening\<close>

definition opener :: "(txn \<Rightarrow> bool) \<Rightarrow> (tab list \<Rightarrow> txn \<Rightarrow> panic + txn) \<Rightarrow> bool" where
  "opener has_orders opn \<longleftrightarrow>
     (\<forall>ts w. tx_levels w \<noteq> None \<longrightarrow> tx_meta w \<noteq> None \<longrightarrow> has_orders w \<longrightarrow>
        opn ts w = Inr (if Orders \<in> set ts then w\<lparr>tx_orders := Some (created (tx_orders w))\<rparr> else w))"

lemma open_tab_there: "has_tab tb w \<Longrightarrow> open_tab tb w = w"
  by (cases tb) (auto simp: created_def)

lemma created_Some [simp]: "created (Some t) = t"
  by (simp add: created_def)

lemma fold_open:
  "tx_levels w \<noteq> None \<Longrightarrow> tx_meta w \<noteq> None \<Longrightarrow> fold open_tab ts w =
     (if Orders \<in> set ts then w\<lparr>tx_orders := Some (created (tx_orders w))\<rparr> else w)"
proof (induction ts arbitrary: w)
  case Nil
  then show ?case by simp
next
  case (Cons tb ts)
  then show ?case by (cases tb) (auto simp: open_tab_there)
qed

lemma opener_now: "opener (\<lambda>w. True) (open_now (plain_db cl co cm bv))"
  by (simp add: opener_def open_now_def plain_db_def fold_open)

lemma opener_opened: "opener (\<lambda>w. tx_orders w \<noteq> None) opened"
  by (auto simp: opener_def opened_def created_def)

lemma opener_mono: "opener P opn \<Longrightarrow> (\<And>w. Q w \<Longrightarrow> P w) \<Longrightarrow> opener Q opn"
  by (simp add: opener_def)

lemma plain_tables:
  "db_levels (plain_db cl co cm bv) = plain_table tx_levels (\<lambda>t. tx_levels_update (\<lambda>_. Some t))"
  "db_orders (plain_db cl co cm bv) = plain_table tx_orders (\<lambda>t. tx_orders_update (\<lambda>_. Some t))"
  "db_meta (plain_db cl co cm bv) = plain_table tx_meta (\<lambda>t. tx_meta_update (\<lambda>_. Some t))"
  by (simp_all add: plain_db_def)

lemma plain_table_simps:
  "sel w = Some t \<Longrightarrow> tb_get (plain_table sel put) k w = t_rows t k"
  "sel w = Some t \<Longrightarrow> tb_insert (plain_table sel put) r w =
     Some (t_next t, put (t\<lparr>t_rows := (t_rows t)(t_next t \<mapsto> r), t_next := t_next t + 1\<rparr>) w)"
  "sel w = Some t \<Longrightarrow> t_rows t k \<noteq> None \<Longrightarrow>
     tb_update (plain_table sel put) k r w = Some (put (t\<lparr>t_rows := (t_rows t)(k \<mapsto> r)\<rparr>) w)"
  "sel w = Some t \<Longrightarrow> t_rows t k \<noteq> None \<Longrightarrow>
     tb_delete (plain_table sel put) k w = Some (put (t\<lparr>t_rows := (t_rows t)(k := None)\<rparr>) w)"
  by (simp_all add: plain_table_def)

section \<open>Insert\<close>

definition push_row :: "book \<Rightarrow> i64 \<Rightarrow> i64 \<Rightarrow> i64 \<Rightarrow> u8 \<Rightarrow> u32 \<Rightarrow> book" where
  "push_row b oid pr q sd t = inserted b (hwm b) (free_head b) (hwm b + 1) t oid pr q sd"

lemma push_row_inv:
  assumes inv: "book_inv b Q F" and e: "endless b" and room: "unat (hwm b) < 4294967295"
    and sd: "is_side sd" and tk: "tick_of (price_min b) (tick b) pr = Inr t" and t: "unat t < unat (n_levels b)"
    and oid: "oid \<noteq> 0" "idmap b oid = None"
  shows "book_inv (push_row b oid pr q sd t) (set_queue Q sd (unat t) (Q sd (unat t) @ [hwm b])) F"
    and "endless (push_row b oid pr q sd t)"
    and "ladder_of (push_row b oid pr q sd t) = spec_insert (entry_for oid pr q) sd (unat t) (ladder_of b)"
proof -
  note core = book_inv_core [OF inv]
  have h: "unat (hwm b + 1) = Suc (unat (hwm b))" using room by (intro unat_Suc_u32) simp
  have s: "unat (hwm b) < length (pool b)" "hwm b \<noteq> NIL" "\<not> used_slot b (hwm b)"
    using room e by (auto simp: endless_def unat_NIL used_slot_def)
  have F: "chain (pool b) (free_head b) F" "distinct F" "set F = {u. free_slot_of b u}"
    using core by (auto simp: core_inv_def free_ok_def)
  then have F': "set F = {u. free_slot_of b u} - {hwm b}" by (auto simp: free_slot_of_def)
  show inv': "book_inv (push_row b oid pr q sd t) (set_queue Q sd (unat t) (Q sd (unat t) @ [hwm b])) F"
    unfolding push_row_def
    by (rule inserted_inv [OF inv sd tk t oid s _ _ _ F(1,2) F'])
      (use h s in \<open>auto simp: word_unat_eq_iff\<close>)
  show "endless (push_row b oid pr q sd t)" using e by (simp add: endless_def push_row_def)
  have tl: "hwm b \<noteq> tail (lane b sd ! unat t)" using level_tail [OF core sd t] s by auto
  show "ladder_of (push_row b oid pr q sd t) = spec_insert (entry_for oid pr q) sd (unat t) (ladder_of b)"
    unfolding push_row_def
    by (rule inserted_ladder [OF core book_inv_core [OF inv'[unfolded push_row_def]] sd t s(1,3) tl])
qed

lemma level_row_push: "level_rec_push s q (level_row sd t l) = level_row sd t (level_push s q l)"
  by (simp add: level_rec_push_def level_row_def level_push_def Let_def)


lemma level_row_simps [simp]:
  "lr_head (level_row sd t l) = head l" "lr_tail (level_row sd t l) = tail l"
  "lr_qty_total (level_row sd t l) = qty_total l" "lr_count (level_row sd t l) = lvl_count l"
  "lr_side (level_row sd t l) = sd" "lr_tick (level_row sd t l) = t" "level_of_rec (level_row sd t l) = l"
  by (simp_all add: level_row_def level_of_rec_def)

lemma meta_row_push:
  "(meta_row cap b)\<lparr>mr_hwm := hwm b + 1, mr_best_bid := raise_bid sd t (mr_best_bid (meta_row cap b)),
     mr_best_ask := lower_ask sd t (mr_best_ask (meta_row cap b))\<rparr> = meta_row cap (push_row b oid pr q sd t)"
  by (simp add: meta_row_def push_row_def)

text \<open>A change of one level, and of the order rows.\<close>

lemma level_at_changed:
  assumes "n_levels b' = n_levels b" and "is_side sd" "unat t < unat (n_levels b)" "unat (n_levels b) < 2 ^ 31"
    and "\<And>sd' t'. is_side sd' \<Longrightarrow> sd' \<noteq> sd \<or> t' \<noteq> unat t \<Longrightarrow> lane b' sd' ! t' = lane b sd' ! t'"
  shows "level_at b' k r \<longleftrightarrow>
    (if k = level_id (n_levels b) sd t then r = level_row sd t (lane b' sd ! unat t) else level_at b k r)"
proof (cases "k = level_id (n_levels b) sd t")
  case True
  then show ?thesis using level_at_id [of sd t b'] assms(1-4) by simp
next
  case False
  have "lane b' sd' ! unat t' = lane b sd' ! unat t'"
    if "is_side sd'" "k = level_id (n_levels b) sd' t'" for sd' t'
    using assms(5) [OF that(1)] False that(2) by (metis word_unat_eq_iff)
  then show ?thesis using False assms(1) unfolding level_at_def by (metis (full_types))
qed

lemma rows_showI:
  assumes "\<And>u r. rows (row_of u) = Some r \<longleftrightarrow> used_slot b u \<and> r = order_at (pool b) u"
    and "\<And>k. (\<And>u. k \<noteq> row_of u) \<Longrightarrow> rows k = None"
  shows "rows k = Some r \<longleftrightarrow> order_row b k r"
proof (cases "\<exists>u. k = row_of u")
  case True
  then show ?thesis using assms(1) by auto
next
  case False
  then show ?thesis using assms(2) by (auto simp: order_row_def)
qed

lemma rows_elsewhere:
  assumes "\<And>k r. rows k = Some r \<longleftrightarrow> order_row b k r" and "\<And>u. k \<noteq> row_of u"
  shows "rows k = None"
  using assms by (cases "rows k") (auto simp: order_row_def)

lemma insert_run:
  assumes inv: "book_inv b Q F" and e: "endless b" and room: "unat (hwm b) < 4294967295"
    and sd: "is_side sd" and tk: "tick_of (price_min b) (tick b) pr = Inr t" and t: "unat t < unat (n_levels b)"
    and oid: "oid \<noteq> 0"
    and shows_b: "txn_shows cap b w" "scalars_show b U"
    and opn: "opener P opn" "P w" "\<And>w'. tx_orders w' \<noteq> None \<Longrightarrow> P w'"
  shows "\<exists>U' w'. insert_with (plain_db cl co cm bv) opn oid pr q sd U w = Inr (U', w') \<and>
    txn_shows cap (push_row b oid pr q sd t) w' \<and> tx_orders w' \<noteq> None \<and> tx_version w' = tx_version w \<and>
    scalars_show (push_row b oid pr q sd t) U' \<and> ub_store U' = ub_store U \<and> ub_version U' = ub_version U"
proof -
  note core = book_inv_core [OF inv]
  have nl: "unat (n_levels b) < 2 ^ 31" using core by (simp add: core_inv_def geometry_ok_def)
  obtain L M where L: "tx_levels w = Some L" and M: "tx_meta w = Some M"
    using shows_b(1) by (auto simp: txn_shows_def)
  define R where "R = created (tx_orders w)"
  have ts: "tables_show cap b L R M" using shows_b(1) L M by (simp add: txn_shows_def R_def)
  let ?lid = "level_id (n_levels b) sd t" and ?lvl = "lane b sd ! unat t"
  let ?ord = "\<lparr>order_id = oid, price = pr, qty = q, filled = 0, next_slot = NIL, prev_slot = tail ?lvl, side = sd\<rparr>"
  let ?b = "push_row b oid pr q sd t"
  have lvl: "t_rows L k = Some r \<longleftrightarrow> level_at b k r" and row: "t_rows R k = Some r' \<longleftrightarrow> order_row b k r'" for k r r'
    using ts by (simp_all add: tables_show_def)
  have nx: "t_next R = row_of (hwm b)" and meta: "t_rows M = [1 \<mapsto> meta_row cap b]"
    using ts by (simp_all add: tables_show_def)
  have at_lid: "t_rows L ?lid = Some (level_row sd t ?lvl)"
    unfolding lvl level_at_id [OF sd t nl] ..
  note tl = level_tail [OF core sd t]
  have tl_ne: "tail ?lvl \<noteq> hwm b" if "tail ?lvl \<noteq> NIL" using tl that by (auto simp: used_slot_def)
  have tl_row: "t_rows R (row_of (tail ?lvl)) = Some (order_at (pool b) (tail ?lvl))" if "tail ?lvl \<noteq> NIL"
    using tl that by (simp add: row)
  let ?rows = "(t_rows R)(row_of (hwm b) \<mapsto> ?ord)"
  define R' where "R' = R\<lparr>t_rows := (if tail ?lvl \<noteq> NIL
      then ?rows(row_of (tail ?lvl) \<mapsto> (order_at (pool b) (tail ?lvl))\<lparr>next_slot := hwm b\<rparr>) else ?rows),
    t_next := row_of (hwm b) + 1\<rparr>"
  define L' where "L' = L\<lparr>t_rows := (t_rows L)(?lid \<mapsto> level_row sd t (level_push (hwm b) q ?lvl))\<rparr>"
  define M' where "M' = M\<lparr>t_rows := [1 \<mapsto> meta_row cap ?b]\<rparr>"
  define w' where "w' = w\<lparr>tx_levels := Some L', tx_orders := Some R', tx_meta := Some M'\<rparr>"
  define U' where "U' = U\<lparr>ub_ids := (ub_ids U)(oid \<mapsto> row_of (hwm b))\<rparr>"
  have o1: "opn [Levels] w = Inr w" and o2: "opn [Orders] w = Inr (w\<lparr>tx_orders := Some R\<rparr>)"
    using opn(1,2) L M by (simp_all add: opener_def R_def)
  have o3: "opn [tb] w'' = Inr w''" if "tb \<noteq> Orders" "tx_levels w'' \<noteq> None" "tx_meta w'' \<noteq> None"
    "tx_orders w'' \<noteq> None" for tb w''
    using opn(1) opn(3) [OF that(4)] that by (simp add: opener_def)
  have U: "ub_tick_of U pr = Inr t" "ub_n_levels U = n_levels b"
    using shows_b(2) tk by (simp_all add: scalars_show_def ub_tick_of_def)
  have run: "insert_with (plain_db cl co cm bv) opn oid pr q sd U w = Inr (U', w')"
    using tl_row tl_ne
    by (cases "tail ?lvl = NIL")
      (simp_all add: insert_with_def U Let_def o1 o2 o3 plain_tables plain_table_simps L M at_lid nx meta
        level_row_push meta_row_push [where oid = oid and pr = pr and q = q] U'_def w'_def L'_def R'_def M'_def)
  have s: "unat (hwm b) < length (pool b)" "hwm b \<noteq> tail ?lvl"
    using room e tl by (auto simp: endless_def used_slot_def unat_NIL)
  have at: "order_at (pool ?b) u = (if u = hwm b then ?ord
      else if u = tail ?lvl \<and> u \<noteq> NIL \<and> unat u < length (pool b)
      then (order_at (pool b) u)\<lparr>next_slot := hwm b\<rparr> else order_at (pool b) u)" for u
    unfolding push_row_def by (rule order_at_inserted [OF s])
  have h: "unat (hwm b + 1) = Suc (unat (hwm b))" using room by (intro unat_Suc_u32) simp
  have used: "used_slot ?b u \<longleftrightarrow> u = hwm b \<or> used_slot b u" for u
  proof -
    have "hwm ?b = hwm b + 1" by (simp add: push_row_def)
    moreover have "order_id (order_at (pool ?b) u) = (if u = hwm b then oid else order_id (order_at (pool b) u))"
      using at by simp
    ultimately show ?thesis using h oid by (auto simp: used_slot_def less_Suc_eq word_unat_eq_iff)
  qed
  have "t_rows L' k = Some r \<longleftrightarrow> level_at ?b k r" for k r
  proof -
    have ln: "length (lane b sd) = unat (n_levels b)" by (rule core_inv_lane_length [OF core sd])
    have "lane ?b sd' ! t' = lane b sd' ! t'" if "is_side sd'" "sd' \<noteq> sd \<or> t' \<noteq> unat t" for sd' t'
      using that sd by (auto simp: push_row_def lane_inserted)
    moreover have "lane ?b sd ! unat t = level_push (hwm b) q ?lvl"
      using sd t ln by (simp add: push_row_def lane_inserted)
    ultimately show ?thesis
      using level_at_changed [of ?b b sd t k r] sd t nl lvl
      by (auto simp: L'_def push_row_def)
  qed
  moreover have "t_rows R' k = Some r \<longleftrightarrow> order_row ?b k r" for k r
  proof (rule rows_showI)
    show "t_rows R' (row_of u) = Some r \<longleftrightarrow> used_slot ?b u \<and> r = order_at (pool ?b) u" for u r
      using tl s(2) by (auto simp: R'_def used at row)
    show "t_rows R' k = None" if "\<And>u. k \<noteq> row_of u" for k
      using that rows_elsewhere [of "t_rows R" b k] row by (auto simp: R'_def)
  qed
  moreover have "t_next R' = row_of (hwm ?b)" using row_of_Suc [OF room] by (simp add: R'_def push_row_def)
  ultimately have "tables_show cap ?b L' R' M'" by (simp add: tables_show_def M'_def)
  then have "txn_shows cap ?b w'" "tx_orders w' \<noteq> None" "tx_version w' = tx_version w"
    by (simp_all add: txn_shows_def w'_def)
  moreover have "scalars_show ?b U'" "ub_store U' = ub_store U" "ub_version U' = ub_version U"
    using shows_b(2) by (auto simp: scalars_show_def U'_def push_row_def fun_eq_iff)
  ultimately show ?thesis using run by blast
qed


section \<open>Update\<close>

lemma update_run:
  assumes inv: "book_inv b Q F" and id: "idmap b i = Some s"
    and tk: "tick_of (price_min b) (tick b) (price (order_at (pool b) s)) = Inr t"
    and shows_b: "txn_shows cap b w" "scalars_show b U"
    and opn: "opener P opn" "P w" "\<And>w'. tx_orders w' \<noteq> None \<Longrightarrow> P w'"
  shows "\<exists>w'. update_with (plain_db cl co cm bv) opn i q U w = Inr (U, w') \<and>
    txn_shows cap (updated b s t (min_i64 q (remaining (order_at (pool b) s)))) w' \<and>
    tx_orders w' \<noteq> None \<and> tx_version w' = tx_version w \<and>
    scalars_show (updated b s t (min_i64 q (remaining (order_at (pool b) s)))) U"
proof -
  note core = book_inv_core [OF inv]
  have nl: "unat (n_levels b) < 2 ^ 31" using core by (simp add: core_inv_def geometry_ok_def)
  let ?ord = "order_at (pool b) s" and ?sd = "side (order_at (pool b) s)"
  let ?add = "min_i64 q (remaining ?ord)"
  let ?b = "updated b s t ?add" and ?lid = "level_id (n_levels b) ?sd t"
  obtain t' where "tick_of (price_min b) (tick b) (price ?ord) = Inr t'"
    and sd: "is_side ?sd" and t': "unat t' < unat (n_levels b)"
    and s: "unat s < length (pool b)" and us: "used_slot b s"
    by (rule order_of_id [OF core id])
  with tk have t: "unat t < unat (n_levels b)" by simp
  let ?lvl = "lane b ?sd ! unat t"
  obtain L M where L: "tx_levels w = Some L" and M: "tx_meta w = Some M"
    using shows_b(1) by (auto simp: txn_shows_def)
  define R where "R = created (tx_orders w)"
  have ts: "tables_show cap b L R M" using shows_b(1) L M by (simp add: txn_shows_def R_def)
  have lvl: "t_rows L k = Some r \<longleftrightarrow> level_at b k r" and row: "t_rows R k = Some r' \<longleftrightarrow> order_row b k r'" for k r r'
    using ts by (simp_all add: tables_show_def)
  have nx: "t_next R = row_of (hwm b)" and meta: "t_rows M = [1 \<mapsto> meta_row cap b]"
    using ts by (simp_all add: tables_show_def)
  have at_lid: "t_rows L ?lid = Some (level_row ?sd t ?lvl)" unfolding lvl level_at_id [OF sd t nl] ..
  have at_row: "t_rows R (row_of s) = Some ?ord" using us by (simp add: row)
  define R' where "R' = R\<lparr>t_rows := (t_rows R)(row_of s \<mapsto> ?ord\<lparr>filled := filled ?ord + ?add\<rparr>)\<rparr>"
  define L' where "L' = L\<lparr>t_rows := (t_rows L)(?lid \<mapsto> level_row ?sd t (?lvl\<lparr>qty_total := qty_total ?lvl - ?add\<rparr>))\<rparr>"
  define w' where "w' = w\<lparr>tx_levels := Some L', tx_orders := Some R'\<rparr>"
  have o2: "opn [Orders] w = Inr (w\<lparr>tx_orders := Some R\<rparr>)"
    using opn(1,2) L M by (simp add: opener_def R_def)
  have o3: "opn [Levels] w'' = Inr w''" if "tx_levels w'' \<noteq> None" "tx_meta w'' \<noteq> None"
    "tx_orders w'' \<noteq> None" for w''
    using opn(1) opn(3) [OF that(3)] that by (simp add: opener_def)
  have U: "ub_tick_of U (price ?ord) = Inr t" "ub_n_levels U = n_levels b" "row_id U i = Inr (row_of s)"
    using shows_b(2) tk id by (simp_all add: scalars_show_def ub_tick_of_def row_id_def)
  have lr: "(level_row ?sd t ?lvl)\<lparr>lr_qty_total := qty_total ?lvl - x\<rparr> =
      level_row ?sd t (?lvl\<lparr>qty_total := qty_total ?lvl - x\<rparr>)" for x
    by (simp add: level_row_def)
  have run: "update_with (plain_db cl co cm bv) opn i q U w = Inr (U, w')"
    by (simp add: update_with_def U Let_def o2 o3 plain_tables plain_table_simps L M at_lid at_row lr
        w'_def L'_def R'_def flip: remaining_def)
  have "t_rows L' k = Some r \<longleftrightarrow> level_at ?b k r" for k r
  proof -
    have ln: "length (lane b ?sd) = unat (n_levels b)" by (rule core_inv_lane_length [OF core sd])
    have "lane ?b sd' ! t' = lane b sd' ! t'" if "is_side sd'" "sd' \<noteq> ?sd \<or> t' \<noteq> unat t" for sd' t'
      using that sd by (auto simp: lane_updated)
    moreover have "lane ?b ?sd ! unat t = ?lvl\<lparr>qty_total := qty_total ?lvl - ?add\<rparr>"
      using sd t ln by (simp add: lane_updated)
    ultimately show ?thesis
      using level_at_changed [of ?b b ?sd t k r] sd t nl lvl by (auto simp: L'_def)
  qed
  moreover have "t_rows R' k = Some r \<longleftrightarrow> order_row ?b k r" for k r
  proof (rule rows_showI)
    have used: "used_slot ?b u = used_slot b u" for u using s by (simp add: used_slot_def order_at_update)
    show "t_rows R' (row_of u) = Some r \<longleftrightarrow> used_slot ?b u \<and> r = order_at (pool ?b) u" for u r
      using us s by (auto simp: R'_def used row order_at_update)
    show "t_rows R' k = None" if "\<And>u. k \<noteq> row_of u" for k
      using that rows_elsewhere [of "t_rows R" b k] row by (auto simp: R'_def)
  qed
  moreover have "meta_row cap ?b = meta_row cap b" by (simp add: meta_row_def)
  ultimately have "tables_show cap ?b L' R' M" using nx meta by (simp add: tables_show_def R'_def)
  then have "txn_shows cap ?b w'" "tx_orders w' \<noteq> None" "tx_version w' = tx_version w"
    using M by (simp_all add: txn_shows_def w'_def)
  moreover have "scalars_show ?b U" using shows_b(2) by (simp add: scalars_show_def)
  ultimately show ?thesis using run by blast
qed

section \<open>The rescan\<close>

lemma first_occupied_scan:
  assumes "scan_best ls is = Inr w" and "\<And>i. i \<in> set is \<Longrightarrow> occ i \<longleftrightarrow> head (ls ! i) \<noteq> NIL"
  shows "first_occupied occ is = w"
  using assms by (induction "is") (auto simp: idx_def split: if_splits)

lemma shows_best:
  "level_at (b\<lparr>best_bid := v\<rparr>) = level_at b" "level_at (b\<lparr>best_ask := v\<rparr>) = level_at b"
  "order_row (b\<lparr>best_bid := v\<rparr>) = order_row b" "order_row (b\<lparr>best_ask := v\<rparr>) = order_row b"
  "meta_row cap (b\<lparr>best_bid := v\<rparr>) = (meta_row cap b)\<lparr>mr_best_bid := v\<rparr>"
  "meta_row cap (b\<lparr>best_ask := v\<rparr>) = (meta_row cap b)\<lparr>mr_best_ask := v\<rparr>"
  by (simp_all add: fun_eq_iff level_at_def order_row_def used_slot_def meta_row_def)

lemma repair_run:
  assumes sd: "is_side sd" and t: "unat t < unat (n_levels b)" and nl: "unat (n_levels b) < 2 ^ 31"
    and len: "length (lane b sd) = unat (n_levels b)"
    and repair: "repair_best b sd t = Inr b'" and empty: "head (lane b sd ! unat t) = NIL"
    and shows_b: "txn_shows cap b w" "tx_orders w \<noteq> None" and U: "ub_n_levels U = n_levels b"
    and opn: "opener P opn" "\<And>w'. tx_orders w' \<noteq> None \<Longrightarrow> P w'"
  shows "\<exists>w'. repair_with (plain_db cl co cm bv) opn U sd t w = Inr w' \<and> txn_shows cap b' w' \<and>
    tx_orders w' \<noteq> None \<and> tx_version w' = tx_version w"
proof -
  obtain L M where L: "tx_levels w = Some L" and M: "tx_meta w = Some M"
    using shows_b(1) by (auto simp: txn_shows_def)
  have o: "opn [Meta, Levels] w = Inr w" using opn(1) opn(2) [OF shows_b(2)] L M by (simp add: opener_def)
  have lvl: "t_rows L k = Some r \<longleftrightarrow> level_at b k r" and meta: "t_rows M = [1 \<mapsto> meta_row cap b]" for k r
    using shows_b(1) L M by (simp_all add: txn_shows_def tables_show_def)
  have occ: "level_occupied (plain_db cl co cm bv) w (level_id (ub_n_levels U) sd (of_nat i)) \<longleftrightarrow> head (lane b sd ! i) \<noteq> NIL"
    if "i < unat (n_levels b)" for i
  proof -
    have "unat (of_nat i :: u32) = i"
      using that unat_u32_bound [of "n_levels b"] by (intro unat_of_nat_u32) simp
    then have "t_rows L (level_id (n_levels b) sd (of_nat i)) = Some (level_row sd (of_nat i) (lane b sd ! i))"
      using that level_at_id [OF sd _ nl, of "of_nat i"] by (simp add: lvl)
    then show ?thesis by (simp add: level_occupied_def plain_tables plain_table_simps L U)
  qed
  show ?thesis
  proof (cases "sd = 0")
    case True
    show ?thesis
    proof (cases "best_bid b = t")
      case False
      then show ?thesis using True repair shows_b
        by (simp add: repair_with_def o plain_tables plain_table_simps M meta rescan_best_def meta_row_def
            repair_best_def)
    next
      case best: True
      then obtain v where v: "scan_best (bids b) (rev [0..<Suc (unat t)]) = Inr v" "b' = b\<lparr>best_bid := v\<rparr>"
        using repair empty t len True by (auto simp: repair_best_def lane_def idx_simps simp del: upt_Suc)
      have "first_occupied (\<lambda>i. level_occupied (plain_db cl co cm bv) w (level_id (ub_n_levels U) 0 (of_nat i)))
          (rev [0..<Suc (unat t)]) = v"
        by (rule first_occupied_scan [OF v(1)]) (use occ t True in \<open>auto simp: lane_def\<close>)
      then have r: "rescan_best (plain_db cl co cm bv) U w (meta_row cap b) sd t = Some ((meta_row cap b)\<lparr>mr_best_bid := v\<rparr>)"
        using best True by (simp add: rescan_best_def meta_row_def)
      show ?thesis
        using shows_b L M
        by (simp add: repair_with_def o plain_tables plain_table_simps meta r v(2) txn_shows_def tables_show_def
            shows_best)
    qed
  next
    case False
    then have sd1: "sd = 1" using sd by (simp add: is_side_def)
    show ?thesis
    proof (cases "best_ask b = t")
      case False
      then show ?thesis using sd1 repair shows_b
        by (simp add: repair_with_def o plain_tables plain_table_simps M meta rescan_best_def meta_row_def
            repair_best_def)
    next
      case best: True
      then obtain v where v: "scan_best (asks b) [unat t..<unat (n_levels b)] = Inr v" "b' = b\<lparr>best_ask := v\<rparr>"
        using repair empty t len sd1 by (auto simp: repair_best_def lane_def idx_simps)
      have "first_occupied (\<lambda>i. level_occupied (plain_db cl co cm bv) w (level_id (ub_n_levels U) 1 (of_nat i)))
          [unat t..<unat (n_levels b)] = v"
        by (rule first_occupied_scan [OF v(1)]) (use occ sd1 in \<open>auto simp: lane_def\<close>)
      then have r: "rescan_best (plain_db cl co cm bv) U w (meta_row cap b) sd t = Some ((meta_row cap b)\<lparr>mr_best_ask := v\<rparr>)"
        using best sd1 U by (simp add: rescan_best_def meta_row_def)
      show ?thesis
        using shows_b L M
        by (simp add: repair_with_def o plain_tables plain_table_simps meta r v(2) txn_shows_def tables_show_def
            shows_best)
    qed
  qed
qed


section \<open>Cancel\<close>

text \<open>Rows that hold the orders of the slots \<open>A\<close> of a pool, and a link written in one of them.\<close>

definition rows_of :: "u32 set \<Rightarrow> order list \<Rightarrow> (u64 \<rightharpoonup> order_rec) \<Rightarrow> bool" where
  "rows_of A p rows \<longleftrightarrow> (\<forall>k r. rows k = Some r \<longleftrightarrow> (\<exists>u\<in>A. k = row_of u \<and> r = order_at p u))"

lemma rows_of_at: "rows_of A p rows \<Longrightarrow> rows (row_of u) = (if u \<in> A then Some (order_at p u) else None)"
proof (cases "u \<in> A")
  case True
  then show "rows_of A p rows \<Longrightarrow> rows (row_of u) = (if u \<in> A then Some (order_at p u) else None)"
    by (auto simp: rows_of_def)
next
  case False
  then show "rows_of A p rows \<Longrightarrow> rows (row_of u) = (if u \<in> A then Some (order_at p u) else None)"
    by (cases "rows (row_of u)") (auto simp: rows_of_def)
qed

lemma relink_run:
  assumes "tx_orders w = Some R" and rows: "rows_of A p (t_rows R)" and u: "u = NIL \<or> u \<in> A \<and> unat u < length p"
  shows "\<exists>rows'. relink (plain_db cl co cm bv) u f w = Inr (w\<lparr>tx_orders := Some (R\<lparr>t_rows := rows'\<rparr>)\<rparr>) \<and>
    rows_of A (if u = NIL then p else p[unat u := f (order_at p u)]) rows'"
proof (cases "u = NIL")
  case True
  then show ?thesis using assms by (intro exI [of _ "t_rows R"]) (simp add: relink_def)
next
  case False
  then have u: "u \<in> A" "unat u < length p" using assms(3) by auto
  have "relink (plain_db cl co cm bv) u f w =
      Inr (w\<lparr>tx_orders := Some (R\<lparr>t_rows := (t_rows R)(row_of u \<mapsto> f (order_at p u))\<rparr>)\<rparr>)"
    using False u(1) by (simp add: relink_def plain_tables plain_table_simps assms(1) rows_of_at [OF rows])
  moreover have "rows_of A (p[unat u := f (order_at p u)]) ((t_rows R)(row_of u \<mapsto> f (order_at p u)))"
    using rows u by (auto simp: rows_of_def order_at_update)
  ultimately show ?thesis using False by auto
qed

lemma level_row_pop:
  "level_rec_pop s pv nx rm (level_row sd t l) = level_row sd t (level_pop s pv nx rm l)"
  by (simp add: level_rec_pop_def level_row_def level_pop_def Let_def)

lemma cancel_run:
  assumes inv: "book_inv b Q F" and id: "idmap b i = Some s"
    and tk: "tick_of (price_min b) (tick b) (price (order_at (pool b) s)) = Inr t"
    and repair: "repair_best (unlinked b s t i f) (side (order_at (pool b) s)) t = Inr b'"
    and shows_b: "txn_shows cap b w" "scalars_show b U"
    and opn: "opener P opn" "P w" "\<And>w'. tx_orders w' \<noteq> None \<Longrightarrow> P w'"
  shows "\<exists>U' w'. cancel_with (plain_db cl co cm bv) opn i U w = Inr (U', w') \<and>
    txn_shows cap b' w' \<and> tx_orders w' \<noteq> None \<and> tx_version w' = tx_version w \<and>
    scalars_show b' U' \<and> ub_store U' = ub_store U \<and> ub_version U' = ub_version U"
proof -
  note core = book_inv_core [OF inv]
  have nl: "unat (n_levels b) < 2 ^ 31" using core by (simp add: core_inv_def geometry_ok_def)
  let ?db = "plain_db cl co cm bv" and ?ord = "order_at (pool b) s" and ?sd = "side (order_at (pool b) s)"
  let ?b = "unlinked b s t i f" and ?lid = "level_id (n_levels b) ?sd t"
  let ?pv = "prev_slot ?ord" and ?nx = "next_slot ?ord"
  obtain t' where "tick_of (price_min b) (tick b) (price ?ord) = Inr t'"
    and sd: "is_side ?sd" and t': "unat t' < unat (n_levels b)" "s \<in> set (Q ?sd (unat t'))"
    and s: "unat s < length (pool b)" and us: "used_slot b s"
    by (rule order_of_id [OF core id])
  with tk have t: "unat t < unat (n_levels b)" and mem: "s \<in> set (Q ?sd (unat t))" by simp_all
  let ?lvl = "lane b ?sd ! unat t" and ?A = "{u. used_slot b u}"
  let ?lvl' = "level_pop s ?pv ?nx (remaining ?ord) ?lvl"
  have ln: "length (lane b ?sd) = unat (n_levels b)" by (rule core_inv_lane_length [OF core sd])
  have nb: "u = NIL \<or> u \<in> ?A \<and> unat u < length (pool b) \<and> u \<noteq> s" if "u = ?pv \<or> u = ?nx" for u
    using that fifo_neighbours [OF core_inv_fifo [OF core sd t] mem] core_inv_mem [OF core sd t]
      core_inv_slot [OF core] by (auto simp: used_slot_def)
  obtain L M where L: "tx_levels w = Some L" and M: "tx_meta w = Some M"
    using shows_b(1) by (auto simp: txn_shows_def)
  define R where "R = created (tx_orders w)"
  have ts: "tables_show cap b L R M" using shows_b(1) L M by (simp add: txn_shows_def R_def)
  have lvl: "t_rows L k = Some r \<longleftrightarrow> level_at b k r" for k r using ts by (simp add: tables_show_def)
  have row: "rows_of ?A (pool b) (t_rows R)"
    using ts by (auto simp: tables_show_def rows_of_def order_row_def)
  have nx: "t_next R = row_of (hwm b)" and meta: "t_rows M = [1 \<mapsto> meta_row cap b]"
    using ts by (simp_all add: tables_show_def)
  have at_lid: "t_rows L ?lid = Some (level_row ?sd t ?lvl)" unfolding lvl level_at_id [OF sd t nl] ..
  let ?w1 = "w\<lparr>tx_orders := Some R\<rparr>" and ?p1 = "set_next (pool b) ?pv ?nx"
  let ?p2 = "set_prev ?p1 ?nx ?pv"
  obtain rows1 where r1: "relink ?db ?pv (\<lambda>p. p\<lparr>next_slot := ?nx\<rparr>) ?w1 =
      Inr (w\<lparr>tx_orders := Some (R\<lparr>t_rows := rows1\<rparr>)\<rparr>)" and row1: "rows_of ?A ?p1 rows1"
    using relink_run [of ?w1 R ?A "pool b" ?pv cl co cm bv "\<lambda>p. p\<lparr>next_slot := ?nx\<rparr>"] row nb [of ?pv]
    by (auto simp: set_next_def split: if_splits)
  let ?w2 = "w\<lparr>tx_orders := Some (R\<lparr>t_rows := rows1\<rparr>)\<rparr>"
  obtain rows2 where r2: "relink ?db ?nx (\<lambda>n. n\<lparr>prev_slot := ?pv\<rparr>) ?w2 =
      Inr (w\<lparr>tx_orders := Some (R\<lparr>t_rows := rows2\<rparr>)\<rparr>)" and row2: "rows_of ?A ?p2 rows2"
    using relink_run [of ?w2 "R\<lparr>t_rows := rows1\<rparr>" ?A ?p1 ?nx cl co cm bv "\<lambda>n. n\<lparr>prev_slot := ?pv\<rparr>"] row1 nb [of ?nx]
    by (auto simp: set_prev_def split: if_splits)
  define L' where "L' = L\<lparr>t_rows := (t_rows L)(?lid \<mapsto> level_row ?sd t ?lvl')\<rparr>"
  define R' where "R' = R\<lparr>t_rows := rows2(row_of s := None)\<rparr>"
  define w' where "w' = w\<lparr>tx_orders := Some R', tx_levels := Some L'\<rparr>"
  define U' where "U' = U\<lparr>ub_ids := (ub_ids U)(i := None)\<rparr>"
  have "t_rows L' k = Some r \<longleftrightarrow> level_at ?b k r" for k r
  proof -
    have "lane ?b sd' ! t' = lane b sd' ! t'" if "is_side sd'" "sd' \<noteq> ?sd \<or> t' \<noteq> unat t" for sd' t'
      using that sd by (auto simp: lane_unlinked)
    moreover have "lane ?b ?sd ! unat t = ?lvl'" using sd t ln by (simp add: lane_unlinked)
    ultimately show ?thesis
      using level_at_changed [of ?b b ?sd t k r] sd t nl lvl by (auto simp: L'_def)
  qed
  moreover have "t_rows R' k = Some r \<longleftrightarrow> order_row ?b k r" for k r
  proof (rule rows_showI)
    have used: "used_slot ?b u \<longleftrightarrow> u \<noteq> s \<and> used_slot b u" for u
      unfolding used_slot_def pool_unlinked using s by (auto simp: order_at_update)
    have "order_at (pool ?b) u = order_at ?p2 u" if "u \<noteq> s" for u
      unfolding pool_unlinked using that by (simp add: order_at_update)
    then show "t_rows R' (row_of u) = Some r \<longleftrightarrow> used_slot ?b u \<and> r = order_at (pool ?b) u" for u r
      by (auto simp: R'_def used rows_of_at [OF row2])
    show "t_rows R' k = None" if "\<And>u. k \<noteq> row_of u" for k
      using that row2 by (cases "rows2 k") (auto simp: R'_def rows_of_def)
  qed
  moreover have "meta_row cap ?b = meta_row cap b" by (simp add: meta_row_def)
  ultimately have "tables_show cap ?b L' R' M" using nx meta by (simp add: tables_show_def R'_def)
  then have sh: "txn_shows cap ?b w'" "tx_orders w' \<noteq> None" "tx_version w' = tx_version w"
    using M by (simp_all add: txn_shows_def w'_def)
  have o2: "opn [Orders] w = Inr ?w1" using opn(1,2) L M by (simp add: opener_def R_def)
  have o3: "opn [Levels] w'' = Inr w''" if "tx_levels w'' \<noteq> None" "tx_meta w'' \<noteq> None"
    "tx_orders w'' \<noteq> None" for w''
    using opn(1) opn(3) [OF that(3)] that by (simp add: opener_def)
  have U: "ub_tick_of U (price ?ord) = Inr t" "ub_n_levels U = n_levels b" "ub_ids U i = Some (row_of s)"
    using shows_b(2) tk id by (simp_all add: scalars_show_def ub_tick_of_def)
  have run: "cancel_with ?db opn i U w =
      and_then (if head ?lvl' = NIL then repair_with ?db opn U' ?sd t w' else Inr w') (\<lambda>w. Inr (U', w))"
    using us
    by (simp add: cancel_with_def U Let_def o2 o3 plain_tables plain_table_simps L M at_lid r1 r2
        rows_of_at [OF row] rows_of_at [OF row2] level_row_pop w'_def L'_def R'_def U'_def flip: remaining_def)
  have lane': "lane ?b ?sd ! unat t = ?lvl'" using sd t ln by (simp add: lane_unlinked)
  have "\<exists>w''. (if head ?lvl' = NIL then repair_with ?db opn U' ?sd t w' else Inr w') = Inr w'' \<and>
      txn_shows cap b' w'' \<and> tx_orders w'' \<noteq> None \<and> tx_version w'' = tx_version w"
  proof (cases "head ?lvl' = NIL")
    case True
    have "length (lane ?b ?sd) = unat (n_levels ?b)" using sd ln by (simp add: lane_unlinked)
    then show ?thesis
      using repair_run [OF sd _ _ _ repair _ sh(1,2), of U' P opn cl co cm bv] t nl lane' True U(2) opn(1,3) sh(3)
      by (simp add: U'_def)
  next
    case False
    then have "b' = ?b"
      using repair lane' t ln sd core_inv_lane_length [OF core]
      by (auto simp: repair_best_def lane_def idx_def is_side_def split: if_splits)
    then show ?thesis using False sh by simp
  qed
  moreover have "scalars_show b' U'"
  proof -
    obtain v v' where "b' = ?b\<lparr>best_bid := v, best_ask := v'\<rparr>"
      using remove_spec(1) [OF inv id tk refl, of f] repair by auto
    then show ?thesis using shows_b(2) by (auto simp: scalars_show_def U'_def fun_eq_iff)
  qed
  moreover have "ub_store U' = ub_store U" "ub_version U' = ub_version U" by (simp_all add: U'_def)
  ultimately show ?thesis unfolding run by auto
qed

end
