(* ===== verification/Ultima_Runs.thy ===== *)
theory Ultima_Runs
  imports Ultima_Inv Snap_Trace
begin

text \<open>
  Sequences of commands on the database book, one transaction each or batched, against the
  specification's queues.
\<close>

section \<open>Commands and what they do to the queues\<close>

definition cmd_ok :: "geometry \<Rightarrow> ladder \<Rightarrow> cow_cmd \<Rightarrow> bool" where
  "cmd_ok g L cmd =
     (case cmd of
        Cmd_insert i pr q sd \<Rightarrow> \<exists>t. accepts g L i sd t pr
      | Cmd_update i q \<Rightarrow> i \<in> ladder_ids (unat (g_levels g)) L
      | Cmd_cancel i \<Rightarrow> i \<in> ladder_ids (unat (g_levels g)) L
      | Cmd_fill i \<Rightarrow> i \<in> ladder_ids (unat (g_levels g)) L
      | Cmd_capture \<Rightarrow> True)"

definition spec_cmd :: "geometry \<Rightarrow> cow_cmd \<Rightarrow> ladder \<Rightarrow> ladder" where
  "spec_cmd g cmd L =
     (case cmd of
        Cmd_insert i pr q sd \<Rightarrow>
          (case tick_of (g_price_min g) (g_tick g) pr of
             Inl _ \<Rightarrow> L | Inr t \<Rightarrow> spec_insert (entry_for i pr q) sd (unat t) L)
      | Cmd_update i q \<Rightarrow> spec_update i q L
      | Cmd_cancel i \<Rightarrow> spec_remove i L
      | Cmd_fill i \<Rightarrow> spec_remove i L
      | Cmd_capture \<Rightarrow> L)"

fun cmds_ok :: "geometry \<Rightarrow> ladder \<Rightarrow> cow_cmd list \<Rightarrow> bool" where
  "cmds_ok g L [] \<longleftrightarrow> True"
| "cmds_ok g L (cmd # cmds) \<longleftrightarrow> cmd_ok g L cmd \<and> cmds_ok g (spec_cmd g cmd L) cmds"

definition is_insert :: "cow_cmd \<Rightarrow> bool" where
  "is_insert cmd = (case cmd of Cmd_insert _ _ _ _ \<Rightarrow> True | _ \<Rightarrow> False)"

definition inserts :: "cow_cmd list \<Rightarrow> nat" where
  "inserts cmds = length (filter is_insert cmds)"

lemma inserts_simps [simp]:
  "inserts [] = 0" "inserts (cmd # cmds) = (if is_insert cmd then Suc (inserts cmds) else inserts cmds)"
  by (simp_all add: inserts_def)

lemma cmds_ok_append: "cmds_ok g L (xs @ ys) \<longleftrightarrow> cmds_ok g L xs \<and> cmds_ok g (fold (spec_cmd g) xs L) ys"
  by (induction xs arbitrary: L) auto

section \<open>A command in a transaction\<close>

definition cmd_body ::
  "('s, 'w, 'v, 'b) ultima_db \<Rightarrow> (tab list \<Rightarrow> 'w \<Rightarrow> panic + 'w) \<Rightarrow> cow_cmd \<Rightarrow>
   's ultima_book \<Rightarrow> 'w \<Rightarrow> panic + 's ultima_book \<times> 'w" where
  "cmd_body db opn cmd U w =
     (case cmd of
        Cmd_insert i pr q sd \<Rightarrow> insert_with db opn i pr q sd U w
      | Cmd_update i q \<Rightarrow> update_with db opn i q U w
      | Cmd_cancel i \<Rightarrow> cancel_with db opn i U w
      | Cmd_fill i \<Rightarrow> cancel_with db opn i U w
      | Cmd_capture \<Rightarrow> Inr (U, w))"

definition on_book :: "u32 \<Rightarrow> book \<Rightarrow> 's ultima_book \<Rightarrow> txn \<Rightarrow> bool" where
  "on_book cap b U w \<longleftrightarrow>
     wf_book b \<and> endless b \<and> txn_shows cap b w \<and> scalars_show b U \<and> (hwm b \<noteq> 0 \<longrightarrow> tx_orders w \<noteq> None)"

lemma cmd_body_run:
  assumes st: "on_book cap b U w" and ok: "cmd_ok (geom_of b) (ladder_of b) cmd"
    and room: "is_insert cmd \<Longrightarrow> unat (hwm b) < 4294967295"
    and opn: "opener P opn" "P w" "\<And>w'. tx_orders w' \<noteq> None \<Longrightarrow> P w'"
  shows "\<exists>U' w' b'. cmd_body (plain_db cl co cm bv) opn cmd U w = Inr (U', w') \<and> on_book cap b' U' w' \<and>
    P w' \<and> tx_version w' = tx_version w \<and> ub_store U' = ub_store U \<and> ub_version U' = ub_version U \<and>
    ladder_of b' = spec_cmd (geom_of b) cmd (ladder_of b) \<and> geom_of b' = geom_of b \<and>
    unat (hwm b') = unat (hwm b) + inserts [cmd]"
proof -
  obtain Q F where inv: "book_inv b Q F" and e: "endless b"
    and sh: "txn_shows cap b w" "scalars_show b U" using st by (auto simp: on_book_def wf_book_def)
  note core = book_inv_core [OF inv]
  have ids: "dom (idmap b) = ladder_ids (unat (n_levels b)) (ladder_of b)" by (rule ids_read [OF inv])
  have g: "g_levels (geom_of b) = n_levels b" "g_price_min (geom_of b) = price_min b" "g_tick (geom_of b) = tick b"
    by (simp_all add: geom_of_def)
  have rest: "\<exists>s. idmap b i = Some s" if "i \<in> ladder_ids (unat (g_levels (geom_of b))) (ladder_of b)" for i
    using that ids by (auto simp: g)
  have cancel: "\<exists>U' w' b'. cancel_with (plain_db cl co cm bv) opn i U w = Inr (U', w') \<and> on_book cap b' U' w' \<and>
      P w' \<and> tx_version w' = tx_version w \<and> ub_store U' = ub_store U \<and> ub_version U' = ub_version U \<and>
      ladder_of b' = spec_remove i (ladder_of b) \<and> geom_of b' = geom_of b \<and> unat (hwm b') = unat (hwm b)"
    if mem: "i \<in> ladder_ids (unat (g_levels (geom_of b))) (ladder_of b)" for i
  proof -
    obtain s where id: "idmap b i = Some s" using rest [OF mem] by blast
    obtain t where tk: "tick_of (price_min b) (tick b) (price (order_at (pool b) s)) = Inr t"
      by (rule order_of_id [OF core id])
    obtain v v' where rep: "repair_best (unlinked b s t i 0) (side (order_at (pool b) s)) t =
        Inr ((unlinked b s t i 0)\<lparr>best_bid := v, best_ask := v'\<rparr>)"
      and inv': "book_inv ((unlinked b s t i 0)\<lparr>best_bid := v, best_ask := v'\<rparr>)
        (set_queue Q (side (order_at (pool b) s)) (unat t) (remove1 s (Q (side (order_at (pool b) s)) (unat t)))) (s # F)"
      using remove_spec(1) [OF inv id tk refl, of 0] by blast
    let ?b = "(unlinked b s t i 0)\<lparr>best_bid := v, best_ask := v'\<rparr>"
    have "core_inv (unlinked b s t i 0)
        (set_queue Q (side (order_at (pool b) s)) (unat t) (remove1 s (Q (side (order_at (pool b) s)) (unat t)))) (s # F)"
      using book_inv_core [OF inv'] by simp
    then have "ladder_of ?b = spec_remove i (ladder_of b)"
      using unlinked_ladder [OF core id tk] by simp
    moreover obtain U' w' where "cancel_with (plain_db cl co cm bv) opn i U w = Inr (U', w')"
      "txn_shows cap ?b w'" "tx_orders w' \<noteq> None" "tx_version w' = tx_version w" "scalars_show ?b U'"
      "ub_store U' = ub_store U" "ub_version U' = ub_version U"
      using cancel_run [OF inv id tk rep sh opn] by blast
    ultimately show ?thesis
      using inv' e opn(3) [of w'] by (intro exI [of _ U'] exI [of _ w'] exI [of _ ?b])
        (auto simp: on_book_def wf_book_def endless_def geom_of_def)
  qed
  show ?thesis
  proof (cases cmd)
    case (Cmd_insert i pr q sd)
    then obtain t where acc: "accepts (geom_of b) (ladder_of b) i sd t pr" using ok by (auto simp: cmd_ok_def)
    then have pre: "is_side sd" "tick_of (price_min b) (tick b) pr = Inr t" "unat t < unat (n_levels b)"
      "i \<noteq> 0" "idmap b i = None"
      using ids by (auto simp: accepts_def g)
    have room': "unat (hwm b) < 4294967295" using room Cmd_insert by (simp add: is_insert_def)
    note b' = push_row_inv [OF inv e room' pre, of q]
    have "unat (hwm b + 1) = Suc (unat (hwm b))" using room' by (intro unat_Suc_u32) simp
    then have "unat (hwm (push_row b i pr q sd t)) = unat (hwm b) + 1" by (simp add: push_row_def)
    moreover obtain U' w' where "insert_with (plain_db cl co cm bv) opn i pr q sd U w = Inr (U', w')"
      "txn_shows cap (push_row b i pr q sd t) w'" "tx_orders w' \<noteq> None" "tx_version w' = tx_version w"
      "scalars_show (push_row b i pr q sd t) U'" "ub_store U' = ub_store U" "ub_version U' = ub_version U"
      using insert_run [OF inv e room' pre(1-4) sh opn] by blast
    ultimately show ?thesis
      using b' opn(3) [of w'] Cmd_insert pre(2)
      by (intro exI [of _ U'] exI [of _ w'] exI [of _ "push_row b i pr q sd t"])
        (auto simp: cmd_body_def on_book_def wf_book_def spec_cmd_def g is_insert_def geom_of_def push_row_def)
  next
    case (Cmd_update i q)
    then obtain s where id: "idmap b i = Some s" using ok rest by (auto simp: cmd_ok_def)
    obtain t where tk: "tick_of (price_min b) (tick b) (price (order_at (pool b) s)) = Inr t"
      by (rule order_of_id [OF core id])
    let ?b = "updated b s t (min_i64 q (remaining (order_at (pool b) s)))"
    have run: "book_update b i q = Inr ?b" and inv': "book_inv ?b Q F"
      using update_spec [OF inv id tk] by blast+
    then have "ladder_of ?b = spec_update i q (ladder_of b)"
      using update_refines_inv [OF inv id, of q] by auto
    moreover obtain w' where "update_with (plain_db cl co cm bv) opn i q U w = Inr (U, w')"
      "txn_shows cap ?b w'" "tx_orders w' \<noteq> None" "tx_version w' = tx_version w" "scalars_show ?b U"
      using update_run [OF inv id tk sh opn] by blast
    ultimately show ?thesis
      using inv' e opn(3) [of w'] Cmd_update
      by (intro exI [of _ U] exI [of _ w'] exI [of _ ?b])
        (auto simp: cmd_body_def on_book_def wf_book_def spec_cmd_def is_insert_def geom_of_def endless_def)
  next
    case (Cmd_cancel i)
    then show ?thesis
      using cancel [of i] ok by (simp add: cmd_ok_def cmd_body_def spec_cmd_def is_insert_def)
  next
    case (Cmd_fill i)
    then show ?thesis
      using cancel [of i] ok by (simp add: cmd_ok_def cmd_body_def spec_cmd_def is_insert_def)
  next
    case Cmd_capture
    then show ?thesis using st opn(2) by (auto simp: cmd_body_def spec_cmd_def is_insert_def)
  qed
qed

text \<open>A sequence of commands in one transaction.\<close>

lemma cmds_body_run:
  assumes "on_book cap b U w" and "cmds_ok (geom_of b) (ladder_of b) cmds"
    and "unat (hwm b) + inserts cmds \<le> 4294967295"
    and opn: "opener P opn" and P: "P w" and P': "\<And>w'. tx_orders w' \<noteq> None \<Longrightarrow> P w'"
  shows "\<exists>U' w' b'. try_fold (\<lambda>cmd (U, w). cmd_body (plain_db cl co cm bv) opn cmd U w) cmds (U, w) = Inr (U', w') \<and>
    on_book cap b' U' w' \<and> P w' \<and> tx_version w' = tx_version w \<and> ub_store U' = ub_store U \<and>
    ub_version U' = ub_version U \<and> ladder_of b' = fold (spec_cmd (geom_of b)) cmds (ladder_of b) \<and>
    geom_of b' = geom_of b \<and> unat (hwm b') = unat (hwm b) + inserts cmds"
  using assms(1-3) P
proof (induction cmds arbitrary: b U w)
  case Nil
  then show ?case by auto
next
  case (Cons cmd cmds)
  have ok: "cmd_ok (geom_of b) (ladder_of b) cmd" using Cons.prems(2) by simp
  have room: "is_insert cmd \<Longrightarrow> unat (hwm b) < 4294967295" using Cons.prems(3) by auto
  obtain U1 w1 b1 where 1: "cmd_body (plain_db cl co cm bv) opn cmd U w = Inr (U1, w1)" "on_book cap b1 U1 w1"
    "P w1" "tx_version w1 = tx_version w" "ub_store U1 = ub_store U" "ub_version U1 = ub_version U"
    "ladder_of b1 = spec_cmd (geom_of b) cmd (ladder_of b)" "geom_of b1 = geom_of b"
    "unat (hwm b1) = unat (hwm b) + inserts [cmd]"
    using cmd_body_run [OF Cons.prems(1) ok room opn Cons.prems(4) P', of cl co cm bv] by blast
  have "unat (hwm b1) + inserts cmds \<le> 4294967295" using Cons.prems(3) 1(9) by (auto split: if_splits)
  from Cons.IH [OF 1(2) _ this 1(3)] Cons.prems(2) 1 show ?case by (auto split: if_splits)
qed


section \<open>Transactions\<close>

definition store_shows :: "u32 \<Rightarrow> book \<Rightarrow> stored ultima_book \<Rightarrow> bool" where
  "store_shows cap b U \<longleftrightarrow>
     sv_current (ub_store U) = ub_version U \<and> (\<forall>v\<in>sv_pinned (ub_store U). v \<le> ub_version U) \<and>
     (\<exists>w. sv_at (ub_store U) (ub_version U) = Some w \<and> on_book cap b U w)"

lemma on_book_version [simp]:
  "on_book cap b (U\<lparr>ub_version := v\<rparr>) w = on_book cap b U w"
  "on_book cap b (U\<lparr>ub_store := s\<rparr>) w = on_book cap b U w"
  "on_book cap b U (w\<lparr>tx_version := v\<rparr>) = on_book cap b U w"
  by (simp_all add: on_book_def scalars_show_def txn_shows_def)

lemma unat_succ64: "unat (v :: u64) < 2 ^ 64 - 1 \<Longrightarrow> unat (v + 1) = Suc (unat v)"
  by (simp add: unat_word_ariths)

text \<open>What a pinned version shows does not change.\<close>

definition keeps_pins :: "stored ultima_book \<Rightarrow> stored ultima_book \<Rightarrow> bool" where
  "keeps_pins U U' \<longleftrightarrow> sv_pinned (ub_store U) \<subseteq> sv_pinned (ub_store U') \<and>
     (\<forall>v\<in>sv_pinned (ub_store U). sv_at (ub_store U') v = sv_at (ub_store U) v)"

lemma keeps_pins_refl [simp]: "keeps_pins U U"
  by (simp add: keeps_pins_def)

lemma keeps_pins_trans: "keeps_pins U U1 \<Longrightarrow> keeps_pins U1 U2 \<Longrightarrow> keeps_pins U U2"
  unfolding keeps_pins_def by (metis subset_iff)

lemma txn_run:
  assumes st: "store_shows cap b U" and v: "unat (ub_version U) < 2 ^ 64 - 1"
    and body: "\<And>w. on_book cap b U w \<Longrightarrow> \<exists>U' w' b'. body (U\<lparr>ub_version := ub_version U + 1\<rparr>) w = Inr (U', w') \<and>
      on_book cap b' U' w' \<and> tx_version w' = tx_version w \<and> ub_store U' = ub_store U \<and>
      ub_version U' = ub_version U + 1 \<and> R b'"
  shows "\<exists>U' b'. with_txn (plain_db cl co cm bv) body U = Inr U' \<and> store_shows cap b' U' \<and>
    ub_version U' = ub_version U + 1 \<and> keeps_pins U U' \<and> R b'"
proof -
  obtain w where cur: "sv_current (ub_store U) = ub_version U" and pins: "\<forall>v\<in>sv_pinned (ub_store U). v \<le> ub_version U"
    and w: "sv_at (ub_store U) (ub_version U) = Some w" "on_book cap b U w"
    using st by (auto simp: store_shows_def)
  let ?w = "w\<lparr>tx_version := ub_version U + 1\<rparr>"
  have lt: "ub_version U < ub_version U + 1" using unat_succ64 [OF v] by (simp add: word_less_nat_alt)
  obtain U' w' b' where run: "body (U\<lparr>ub_version := ub_version U + 1\<rparr>) ?w = Inr (U', w')"
    and on: "on_book cap b' U' w'" "tx_version w' = tx_version ?w" "ub_store U' = ub_store U"
      "ub_version U' = ub_version U + 1" and R: "R b'"
    using body [of ?w] w(2) by auto
  let ?U = "U'\<lparr>ub_store := commit_txn w' (ub_store U)\<rparr>"
  have new: "v \<noteq> ub_version U + 1" if "v \<in> sv_pinned (ub_store U)" for v
    using pins that lt by auto
  have "with_txn (plain_db cl co cm bv) body U = Inr ?U"
    using run on cur w(1) lt by (simp add: with_txn_def Let_def plain_db_def)
  moreover have "store_shows cap b' ?U"
    using on pins lt by (auto simp: store_shows_def commit_txn_def intro: order.trans less_imp_le)
  moreover have "keeps_pins U ?U"
    using on new by (auto simp: keeps_pins_def commit_txn_def restrict_map_def)
  ultimately show ?thesis using on(4) R by (intro exI [of _ ?U] exI [of _ b']) simp
qed

definition ultima_exec ::
  "('s, 'w, 'v, 'b) ultima_db \<Rightarrow> cow_cmd \<Rightarrow> 's ultima_book \<Rightarrow> panic + 's ultima_book" where
  "ultima_exec db cmd U =
     (case cmd of
        Cmd_insert i pr q sd \<Rightarrow> ultima_insert db U i pr q sd
      | Cmd_update i q \<Rightarrow> ultima_update db U i q
      | Cmd_cancel i \<Rightarrow> ultima_cancel db U i
      | Cmd_fill i \<Rightarrow> ultima_fill db U i
      | Cmd_capture \<Rightarrow> and_then (pin_current db U) (\<lambda>(_, U). Inr U))"

lemma ultima_exec_body:
  "cmd \<noteq> Cmd_capture \<Longrightarrow> ultima_exec db cmd U = with_txn db (cmd_body db (open_now db) cmd) U"
  by (cases cmd) (simp_all add: ultima_exec_def ultima_insert_def ultima_update_def ultima_cancel_def
      ultima_fill_def apply_insert_def apply_update_def apply_cancel_def cmd_body_def [abs_def])

lemma ultima_exec_run:
  assumes st: "store_shows cap b U" and v: "unat (ub_version U) < 2 ^ 64 - 1"
    and ok: "cmd_ok (geom_of b) (ladder_of b) cmd" and room: "is_insert cmd \<Longrightarrow> unat (hwm b) < 4294967295"
  shows "\<exists>U' b'. ultima_exec (plain_db cl co cm bv) cmd U = Inr U' \<and> store_shows cap b' U' \<and> keeps_pins U U' \<and>
    unat (ub_version U') \<le> Suc (unat (ub_version U)) \<and>
    ladder_of b' = spec_cmd (geom_of b) cmd (ladder_of b) \<and> geom_of b' = geom_of b \<and>
    unat (hwm b') = unat (hwm b) + inserts [cmd]"
proof (cases "cmd = Cmd_capture")
  case True
  let ?s = "ub_store U" let ?U = "U\<lparr>ub_store := ?s\<lparr>sv_pinned := insert (ub_version U) (sv_pinned ?s)\<rparr>\<rparr>"
  have "ultima_exec (plain_db cl co cm bv) cmd U = Inr ?U"
    using st True by (auto simp: ultima_exec_def pin_current_def plain_db_def store_shows_def)
  moreover have "store_shows cap b ?U" "keeps_pins U ?U"
    using st by (auto simp: store_shows_def keeps_pins_def)
  ultimately show ?thesis using True by (intro exI [of _ ?U] exI [of _ b]) (simp add: spec_cmd_def is_insert_def)
next
  case False
  have step: "\<exists>U' w' b'. cmd_body (plain_db cl co cm bv) (open_now (plain_db cl co cm bv)) cmd
      (U\<lparr>ub_version := ub_version U + 1\<rparr>) w = Inr (U', w') \<and> on_book cap b' U' w' \<and>
      tx_version w' = tx_version w \<and> ub_store U' = ub_store U \<and> ub_version U' = ub_version U + 1 \<and>
      (ladder_of b' = spec_cmd (geom_of b) cmd (ladder_of b) \<and> geom_of b' = geom_of b \<and>
      unat (hwm b') = unat (hwm b) + inserts [cmd])" if "on_book cap b U w" for w
    using cmd_body_run [of cap b "U\<lparr>ub_version := ub_version U + 1\<rparr>" w cmd, OF _ ok room opener_now, of cl co cm bv cl co cm bv]
      that by auto
  show ?thesis
    using txn_run [OF st v, where body = "cmd_body (plain_db cl co cm bv) (open_now (plain_db cl co cm bv)) cmd"
        and R = "\<lambda>b'. ladder_of b' = spec_cmd (geom_of b) cmd (ladder_of b) \<and> geom_of b' = geom_of b \<and>
          unat (hwm b') = unat (hwm b) + inserts [cmd]", OF step]
      unat_succ64 [OF v] unfolding ultima_exec_body [OF False] by fastforce
qed

lemma ultima_execs_run:
  assumes "store_shows cap b U" and "unat (ub_version U) + length cmds < 2 ^ 64"
    and "cmds_ok (geom_of b) (ladder_of b) cmds" and "unat (hwm b) + inserts cmds \<le> 4294967295"
  shows "\<exists>U' b'. try_fold (ultima_exec (plain_db cl co cm bv)) cmds U = Inr U' \<and> store_shows cap b' U' \<and>
    keeps_pins U U' \<and> unat (ub_version U') \<le> unat (ub_version U) + length cmds \<and>
    ladder_of b' = fold (spec_cmd (geom_of b)) cmds (ladder_of b) \<and> geom_of b' = geom_of b \<and>
    unat (hwm b') = unat (hwm b) + inserts cmds"
  using assms
proof (induction cmds arbitrary: b U)
  case Nil
  then show ?case by auto
next
  case (Cons cmd cmds)
  have v: "unat (ub_version U) < 2 ^ 64 - 1" using Cons.prems(2) by simp
  have ok: "cmd_ok (geom_of b) (ladder_of b) cmd" using Cons.prems(3) by simp
  have room: "is_insert cmd \<Longrightarrow> unat (hwm b) < 4294967295" using Cons.prems(4) by auto
  obtain U1 b1 where 1: "ultima_exec (plain_db cl co cm bv) cmd U = Inr U1" "store_shows cap b1 U1" "keeps_pins U U1"
    "unat (ub_version U1) \<le> Suc (unat (ub_version U))" "ladder_of b1 = spec_cmd (geom_of b) cmd (ladder_of b)"
    "geom_of b1 = geom_of b" "unat (hwm b1) = unat (hwm b) + inserts [cmd]"
    using ultima_exec_run [OF Cons.prems(1) v ok room, of cl co cm bv] by blast
  have "unat (ub_version U1) + length cmds < 2 ^ 64" using Cons.prems(2) 1(4) by simp
  moreover have "cmds_ok (geom_of b1) (ladder_of b1) cmds" using Cons.prems(3) 1(5,6) by simp
  moreover have "unat (hwm b1) + inserts cmds \<le> 4294967295" using Cons.prems(4) 1(7) by (auto split: if_splits)
  ultimately obtain U' b' where 2: "try_fold (ultima_exec (plain_db cl co cm bv)) cmds U1 = Inr U'" "store_shows cap b' U'"
    "keeps_pins U1 U'" "unat (ub_version U') \<le> unat (ub_version U1) + length cmds"
    "ladder_of b' = fold (spec_cmd (geom_of b1)) cmds (ladder_of b1)" "geom_of b' = geom_of b1"
    "unat (hwm b') = unat (hwm b1) + inserts cmds"
    using Cons.IH [OF 1(2)] by blast
  show ?case
    using 1 2 keeps_pins_trans [OF 1(3) 2(3)]
    by (intro exI [of _ U'] exI [of _ b']) (auto split: if_splits)
qed

section \<open>A new book\<close>

lemma level_id_step:
  assumes "k < 4294967296"
  shows "level_id nl sd (of_nat k) = level_id nl sd 0 + of_nat k"
proof -
  have "ucast (of_nat k :: u32) = (of_nat k :: u64)"
    using assms by (simp add: word_unat_eq_iff ucast_u32_u64 unat_of_nat take_bit_nat_eq_self)
  then show ?thesis by (simp add: level_id_def)
qed

lemma seed_lane_run:
  assumes sd: "is_side sd" and nl: "unat nl < 2 ^ 31" and k: "k \<le> unat nl"
    and L: "tx_levels w = Some L" and nx: "t_next L = level_id nl sd 0"
  shows "\<exists>L'. try_fold (\<lambda>(sd, t) w. and_then (expect (tb_insert (db_levels (plain_db cl co cm bv)) (empty_level_rec sd (of_nat t)) w))
      (\<lambda>(_, w). Inr w)) (map (Pair sd) [0..<k]) w = Inr (w\<lparr>tx_levels := Some L'\<rparr>) \<and>
    t_next L' = level_id nl sd (of_nat k) \<and>
    (\<forall>i r. t_rows L' i = Some r \<longleftrightarrow> (\<exists>t<k. i = level_id nl sd (of_nat t) \<and> r = empty_level_rec sd (of_nat t)) \<or>
      t_rows L i = Some r \<and> (\<forall>t<k. i \<noteq> level_id nl sd (of_nat t)))"
  using k
proof (induction k)
  case 0
  then show ?case using L nx by (intro exI [of _ L]) simp
next
  case (Suc k)
  then obtain L' where run: "try_fold (\<lambda>(sd, t) w. and_then (expect (tb_insert (db_levels (plain_db cl co cm bv))
        (empty_level_rec sd (of_nat t)) w)) (\<lambda>(_, w). Inr w)) (map (Pair sd) [0..<k]) w = Inr (w\<lparr>tx_levels := Some L'\<rparr>)"
    and nx': "t_next L' = level_id nl sd (of_nat k)"
    and rows: "\<And>i r. t_rows L' i = Some r \<longleftrightarrow> (\<exists>t<k. i = level_id nl sd (of_nat t) \<and> r = empty_level_rec sd (of_nat t)) \<or>
      t_rows L i = Some r \<and> (\<forall>t<k. i \<noteq> level_id nl sd (of_nat t))" by auto
  let ?L = "L'\<lparr>t_rows := (t_rows L')(level_id nl sd (of_nat k) \<mapsto> empty_level_rec sd (of_nat k)),
    t_next := level_id nl sd (of_nat k) + 1\<rparr>"
  have kb: "k < 4294967296" "Suc k < 4294967296" using Suc.prems nl by simp_all
  have new: "level_id nl sd (of_nat k) \<noteq> level_id nl sd (of_nat t)" if lt: "t < k" for t
  proof -
    have u: "unat (of_nat k :: u32) = k" "unat (of_nat t :: u32) = t"
      using lt kb by (simp_all add: unat_of_nat_u32)
    then have "(of_nat k :: u32) \<noteq> of_nat t" using lt by auto
    then show ?thesis
      using level_id_inj [OF sd sd _ _ nl, of "of_nat k" "of_nat t"] u lt Suc.prems by simp
  qed
  have "t_rows ?L i = Some r \<longleftrightarrow> (\<exists>t<Suc k. i = level_id nl sd (of_nat t) \<and> r = empty_level_rec sd (of_nat t)) \<or>
      t_rows L i = Some r \<and> (\<forall>t<Suc k. i \<noteq> level_id nl sd (of_nat t))" for i r
    using new by (auto simp: rows less_Suc_eq)
  moreover have "t_next ?L = level_id nl sd (of_nat (Suc k))"
    using level_id_step [OF kb(1), of nl sd] level_id_step [OF kb(2), of nl sd] by simp
  moreover have "try_fold (\<lambda>(sd, t) w. and_then (expect (tb_insert (db_levels (plain_db cl co cm bv))
        (empty_level_rec sd (of_nat t)) w)) (\<lambda>(_, w). Inr w)) (map (Pair sd) [0..<Suc k]) w = Inr (w\<lparr>tx_levels := Some ?L\<rparr>)"
    using run by (simp add: try_fold_append plain_tables plain_table_simps nx')
  ultimately show ?case by blast
qed

text \<open>The flat book that a new database book shows: one with a pool that never runs out.\<close>

definition endless_new :: "smr_config \<Rightarrow> book" where
  "endless_new cfg = book_new (cfg\<lparr>cfg_cap := 4294967295\<rparr>)"

lemma endless_new_simps:
  "price_min (endless_new cfg) = cfg_price_min cfg" "tick (endless_new cfg) = cfg_tick cfg"
  "n_levels (endless_new cfg) = cfg_levels cfg" "hwm (endless_new cfg) = 0" "best_bid (endless_new cfg) = - 1"
  "best_ask (endless_new cfg) = - 1" "idmap (endless_new cfg) = Map.empty" "endless (endless_new cfg)"
  "lane (endless_new cfg) sd = replicate (unat (cfg_levels cfg)) empty_level" "\<not> used_slot (endless_new cfg) s"
  by (simp_all add: endless_new_def book_new_def endless_def lane_def used_slot_def)

lemma endless_new_inv: "unat (cfg_levels cfg) < 2 ^ 31 \<Longrightarrow> book_inv (endless_new cfg) (\<lambda>_ _. []) []"
  unfolding endless_new_def by (rule book_inv_new) simp_all

lemma endless_new_ladder:
  assumes "unat (cfg_levels cfg) < 2 ^ 31"
  shows "ladder_of (endless_new cfg) = (\<lambda>_ _. [])"
  using ladder_of_eqI [OF book_inv_core [OF endless_new_inv [OF assms]] refl, of "\<lambda>_ _. []"] by simp

lemma plain_ops:
  "db_new (plain_db cl co cm bv) = Some \<lparr>sv_current = 0, sv_at = [0 \<mapsto> empty_txn], sv_pinned = {}\<rparr>"
  "db_begin_write (plain_db cl co cm bv) v s =
     (if sv_current s < v then map_option (tx_version_update (\<lambda>_. v)) (sv_at s (sv_current s)) else None)"
  "db_commit (plain_db cl co cm bv) w s = Some (commit_txn w s)"
  "db_open (plain_db cl co cm bv) ts w = Some (fold open_tab ts w)"
  by (simp_all add: plain_db_def)

lemma ex_side: "(\<exists>sd t. is_side sd \<and> P sd t) \<longleftrightarrow> (\<exists>t. P 0 t) \<or> (\<exists>t. P 1 t)"
  by (auto simp: is_side_def)

lemma level_row_empty: "level_row sd t empty_level = empty_level_rec sd t"
  by (simp add: level_row_def empty_level_rec_def empty_level_def)

lemma ultima_new_run:
  assumes nl: "unat (cfg_levels cfg) < 2 ^ 31"
  shows "\<exists>U. ultima_new (plain_db cl co cm bv) cfg = Inr U \<and>
    store_shows (of_nat (cfg_cap cfg)) (endless_new cfg) U \<and> ub_version U = 1 \<and> sv_pinned (ub_store U) = {}"
proof -
  let ?db = "plain_db cl co cm bv" and ?n = "cfg_levels cfg" and ?cap = "of_nat (cfg_cap cfg) :: u32"
  let ?b = "endless_new cfg"
  let ?step = "\<lambda>(sd, t) w. and_then (expect (tb_insert (db_levels ?db) (empty_level_rec sd (of_nat t)) w)) (\<lambda>(_, w). Inr w)"
  let ?U = "\<lparr>ub_store = \<lparr>sv_current = 0, sv_at = [0 \<mapsto> empty_txn], sv_pinned = {}\<rparr>, ub_version = 1,
    ub_price_min = cfg_price_min cfg, ub_tick = cfg_tick cfg, ub_n_levels = ?n, ub_ids = Map.empty\<rparr>"
  let ?w = "empty_txn\<lparr>tx_version := 1, tx_levels := Some empty_tbl\<rparr>"
  have l0: "level_id ?n 0 0 = 1" by (simp add: level_id_def)
  have ids: "level_id ?n 0 (of_nat (unat ?n)) = level_id ?n 1 0" by (simp add: level_id_def)
  obtain L1 where run1: "try_fold ?step (map (Pair 0) [0..<unat ?n]) ?w = Inr (?w\<lparr>tx_levels := Some L1\<rparr>)"
    and nx1: "t_next L1 = level_id ?n 0 (of_nat (unat ?n))"
    and rows1: "\<And>i r. t_rows L1 i = Some r \<longleftrightarrow> (\<exists>t<unat ?n. i = level_id ?n 0 (of_nat t) \<and> r = empty_level_rec 0 (of_nat t))"
    using seed_lane_run [of 0 ?n "unat ?n" ?w empty_tbl cl co cm bv] nl l0 by (auto simp: empty_tbl_def)
  obtain L2 where run2: "try_fold ?step (map (Pair 1) [0..<unat ?n]) (?w\<lparr>tx_levels := Some L1\<rparr>) = Inr (?w\<lparr>tx_levels := Some L2\<rparr>)"
    and rows2: "\<And>i r. t_rows L2 i = Some r \<longleftrightarrow> (\<exists>t<unat ?n. i = level_id ?n 1 (of_nat t) \<and> r = empty_level_rec 1 (of_nat t)) \<or>
      t_rows L1 i = Some r \<and> (\<forall>t<unat ?n. i \<noteq> level_id ?n 1 (of_nat t))"
    using seed_lane_run [of 1 ?n "unat ?n" "?w\<lparr>tx_levels := Some L1\<rparr>" L1 cl co cm bv] nl nx1 ids by auto
  have seed: "seed_levels ?db ?n (empty_txn\<lparr>tx_version := 1\<rparr>) = Inr (?w\<lparr>tx_levels := Some L2\<rparr>)"
    using run1 run2
    by (simp add: seed_levels_def try_fold_append plain_db_def empty_txn_def created_def)
  let ?m = "\<lparr>mr_price_min = cfg_price_min cfg, mr_tick = cfg_tick cfg, mr_n_levels = ?n, mr_capacity = ?cap,
    mr_hwm = 0, mr_best_bid = - 1, mr_best_ask = - 1\<rparr>"
  define M where "M = \<lparr>t_rows = [1 \<mapsto> ?m], t_next = 2\<rparr>"
  define w where "w = ?w\<lparr>tx_levels := Some L2, tx_meta := Some M\<rparr>"
  let ?V = "?U\<lparr>ub_store := commit_txn w (ub_store ?U)\<rparr>"
  have "ultima_new ?db cfg = Inr ?V"
    using seed by (simp add: ultima_new_def ultima_empty_def with_txn_def Let_def plain_ops plain_tables w_def M_def
        plain_table_simps created_def) (simp add: empty_txn_def empty_tbl_def)
  moreover have lv: "t_rows L2 k = Some r \<longleftrightarrow> level_at ?b k r" for k r
  proof -
    have dist: "level_id ?n 0 (of_nat u) \<noteq> level_id ?n 1 (of_nat v)" if "u < unat ?n" "v < unat ?n" for u v
      using that nl level_id_inj [of 0 1 "of_nat u" ?n "of_nat v"] by (simp add: unat_of_nat_u32)
    have tick: "(\<exists>t<unat ?n. P (of_nat t :: u32)) \<longleftrightarrow> (\<exists>t. unat t < unat ?n \<and> P t)" for P
    proof
      assume "\<exists>t<unat ?n. P (of_nat t)"
      then obtain t where t: "t < unat ?n" "P (of_nat t)" by blast
      then have "unat (of_nat t :: u32) = t" using nl by (intro unat_of_nat_u32) simp
      then show "\<exists>t. unat t < unat ?n \<and> P t" using t by (intro exI [of _ "of_nat t"]) (simp del: unat_of_nat)
    next
      assume "\<exists>t. unat t < unat ?n \<and> P t"
      then obtain t where "unat t < unat ?n" "P t" by blast
      then show "\<exists>t<unat ?n. P (of_nat t)" by (intro exI [of _ "unat t"]) simp
    qed
    have "t_rows L2 k = Some r \<longleftrightarrow> (\<exists>t<unat ?n. k = level_id ?n 1 (of_nat t) \<and> r = empty_level_rec 1 (of_nat t)) \<or>
        (\<exists>t<unat ?n. k = level_id ?n 0 (of_nat t) \<and> r = empty_level_rec 0 (of_nat t))"
      unfolding rows2 rows1 using dist by metis
    also have "\<dots> \<longleftrightarrow> (\<exists>t. unat t < unat ?n \<and> k = level_id ?n 1 t \<and> r = empty_level_rec 1 t) \<or>
        (\<exists>t. unat t < unat ?n \<and> k = level_id ?n 0 t \<and> r = empty_level_rec 0 t)"
      using tick [of "\<lambda>t. k = level_id ?n 1 t \<and> r = empty_level_rec 1 t"]
        tick [of "\<lambda>t. k = level_id ?n 0 t \<and> r = empty_level_rec 0 t"] by (simp only:)
    also have "\<dots> \<longleftrightarrow> level_at ?b k r"
      unfolding level_at_def endless_new_simps ex_side
      by (simp add: disj_commute level_row_empty cong: conj_cong)
    finally show ?thesis .
  qed
  moreover have "on_book ?cap ?b ?V w"
    using endless_new_inv [OF nl] lv
    by (auto simp: on_book_def wf_book_def endless_new_simps scalars_show_def fun_eq_iff txn_shows_def tables_show_def
        w_def M_def order_row_def empty_txn_def empty_tbl_def created_def row_of_def meta_row_def)
  ultimately show ?thesis
    by (intro exI [of _ ?V]) (simp add: store_shows_def commit_txn_def w_def)
qed

end
