(* ===== verification/Ultima_Read.thy ===== *)
theory Ultima_Read
  imports Ultima_Runs
begin

text \<open>
  Reading a version of the database book, the flat book run by the same commands, and the runs of
  commands and batches on any lawful database.
\<close>

section \<open>The flat book under accepted commands\<close>

lemma flat_exec_run:
  assumes wf: "wf_book b" and ok: "cmd_ok (geom_of b) (ladder_of b) cmd" and run: "flat_exec cmd b = Inr b'"
  shows "wf_book b'" and "ladder_of b' = spec_cmd (geom_of b) cmd (ladder_of b)" and "geom_of b' = geom_of b"
proof -
  obtain Q F where inv: "book_inv b Q F" using wf by (auto simp: wf_book_def)
  have ids: "dom (idmap b) = ladder_ids (unat (n_levels b)) (ladder_of b)" by (rule ids_read [OF inv])
  have g: "g_levels (geom_of b) = n_levels b" "g_price_min (geom_of b) = price_min b" "g_tick (geom_of b) = tick b"
    by (simp_all add: geom_of_def)
  have rest: "\<exists>s. idmap b i = Some s" if "i \<in> ladder_ids (unat (g_levels (geom_of b))) (ladder_of b)" for i
    using that ids by (auto simp: g)
  have "wf_book b' \<and> ladder_of b' = spec_cmd (geom_of b) cmd (ladder_of b) \<and> geom_of b' = geom_of b"
  proof (cases cmd)
    case (Cmd_insert i pr q sd)
    then obtain t where acc: "accepts (geom_of b) (ladder_of b) i sd t pr" using ok by (auto simp: cmd_ok_def)
    then have pre: "is_side sd" "tick_of (price_min b) (tick b) pr = Inr t" "unat t < unat (n_levels b)"
      "i \<noteq> 0" "idmap b i = None"
      using ids by (auto simp: accepts_def g)
    have "has_room b"
    proof (rule ccontr)
      assume "\<not> has_room b"
      then have "free_head b = NIL" "unat (hwm b) = length (pool b)"
        using core_inv_hwm [OF book_inv_core [OF inv]] by (simp_all add: has_room_def)
      then show False using run Cmd_insert pre(2) by (simp add: flat_exec_def book_insert_def alloc_slot_def)
    qed
    then have "can_insert b i pr sd" using pre by (simp add: can_insert_def)
    from insert_refines_inv [OF inv this pre(2), of q] show ?thesis
      using run Cmd_insert pre(2) by (auto simp: flat_exec_def spec_cmd_def g)
  next
    case (Cmd_update i q)
    then obtain s where "idmap b i = Some s" using ok rest by (auto simp: cmd_ok_def)
    from update_refines_inv [OF inv this, of q] show ?thesis
      using run Cmd_update by (auto simp: flat_exec_def spec_cmd_def)
  next
    case (Cmd_cancel i)
    then obtain s where "idmap b i = Some s" using ok rest by (auto simp: cmd_ok_def)
    from remove_refines_inv(1) [OF inv this] show ?thesis
      using run Cmd_cancel by (auto simp: flat_exec_def spec_cmd_def)
  next
    case (Cmd_fill i)
    then obtain s where "idmap b i = Some s" using ok rest by (auto simp: cmd_ok_def)
    from remove_refines_inv(2) [OF inv this] show ?thesis
      using run Cmd_fill by (auto simp: flat_exec_def spec_cmd_def)
  next
    case Cmd_capture
    then show ?thesis using run wf by (simp add: flat_exec_def spec_cmd_def)
  qed
  then show "wf_book b'" "ladder_of b' = spec_cmd (geom_of b) cmd (ladder_of b)" "geom_of b' = geom_of b"
    by blast+
qed

lemma flat_execs_run:
  assumes "wf_book b" and "cmds_ok (geom_of b) (ladder_of b) cmds" and "try_fold flat_exec cmds b = Inr b'"
  shows "wf_book b' \<and> ladder_of b' = fold (spec_cmd (geom_of b)) cmds (ladder_of b) \<and> geom_of b' = geom_of b"
  using assms
proof (induction cmds arbitrary: b)
  case Nil
  then show ?case by simp
next
  case (Cons cmd cmds)
  then obtain b1 where 1: "flat_exec cmd b = Inr b1" "try_fold flat_exec cmds b1 = Inr b'"
    by (cases "flat_exec cmd b") auto
  have ok: "cmd_ok (geom_of b) (ladder_of b) cmd" using Cons.prems(2) by simp
  note b1 = flat_exec_run [OF Cons.prems(1) ok 1(1)]
  show ?case using Cons.IH [OF b1(1) _ 1(2)] Cons.prems(2) b1 by simp
qed

section \<open>The digest of a version\<close>

lemma digest_rows:
  assumes inv: "book_inv b Q F" and t: "tx_levels w = Some L" "tx_orders w = Some R" "tx_meta w = Some M"
    and lvl: "\<And>k r. t_rows L k = Some r \<longleftrightarrow> level_at b k r" and row: "\<And>k r. t_rows R k = Some r \<longleftrightarrow> order_row b k r"
    and meta: "t_rows M = [1 \<mapsto> meta_row cap b]" and at: "sv_at s v = Some w"
  shows "digest_ultima (plain_db cl co cm bv) s v = Some (Inr (spec_digest (unat (n_levels b)) (ladder_of b)))"
proof -
  have nl: "unat (n_levels b) < 2 ^ 31"
    using book_inv_core [OF inv] by (simp add: core_inv_def geometry_ok_def)
  let ?live = "map (\<lambda>(_, ord). row_of_order ord) (rows_in_order (t_rows R))"
  let ?rd = "\<lambda>s. link_of (expect (t_rows R (row_of s)))"
  have dom: "dom (t_rows R) = row_of ` {s. used_slot b s}" by (auto simp: dom_def row order_row_def)
  have fin: "finite (dom (t_rows R))" unfolding dom by simp
  have at_row: "the (t_rows R (row_of s)) = order_at (pool b) s" if "used_slot b s" for s
    using that row by (metis order_row_row_of option.sel)
  have live: "?live = map (\<lambda>k. row_of_order (the (t_rows R k))) (sorted_list_of_set (dom (t_rows R)))"
    by (simp add: rows_in_order_def comp_def)
  have set: "set ?live = (\<lambda>s. row_of_order (order_at (pool b) s)) ` {s. used_slot b s}"
    unfolding live using fin by (auto simp: dom image_image at_row)
  have same: "s = u" if "used_slot b s" "used_slot b u"
    "order_id (order_at (pool b) s) = order_id (order_at (pool b) u)" for s u
    using that core_inv_id [OF book_inv_core [OF inv]] by (metis option.inject)
  have dist: "distinct ?live"
    unfolding live distinct_map using fin same at_row
    by (auto simp: inj_on_def dom row_of_order_def)
  have len: "card (dom (t_rows R)) = length ?live" by (simp add: live)
  have rd: "?rd s = Inr (order_id (order_at (pool b) s), next_slot (order_at (pool b) s))" if "used_slot b s" for s
    using that row [of "row_of s" "order_at (pool b) s"] by (simp add: link_of_def)
  have level: "t_rows L (level_id (n_levels b) sd (of_nat t)) = Some (level_row sd (of_nat t) (lane b sd ! t))"
    if "is_side sd" "t < unat (n_levels b)" for sd t
  proof -
    have "unat (of_nat t :: u32) = t" using that nl by (intro unat_of_nat_u32) simp
    then show ?thesis using level_at_id [OF that(1) _ nl, of "of_nat t"] that lvl by simp
  qed
  have o: "open_version (plain_db cl co cm bv) s v = Inr (w, meta_row cap b)"
    using at t by (simp add: open_version_def plain_db_def plain_reader_def meta)
  have m: "mr_n_levels (meta_row cap b) = n_levels b" "mr_best_bid (meta_row cap b) = best_bid b"
    "mr_best_ask (meta_row cap b) = best_ask b" by (simp_all add: meta_row_def)
  have reads: "rd_get (rd_levels (plain_db cl co cm bv)) k w = t_rows L k"
    "rd_get (rd_orders (plain_db cl co cm bv)) k w = t_rows R k"
    "rd_iter (rd_orders (plain_db cl co cm bv)) w = rows_in_order (t_rows R)"
    "rd_len (rd_orders (plain_db cl co cm bv)) w = length ?live" for k
    using len by (simp_all add: plain_db_def plain_reader_def t)
  show ?thesis
    unfolding digest_ultima_def o run_then_simps prod.case m reads
    by (rule digest_run [OF inv dist set rd]) (simp_all add: level)
qed

lemma digest_plain:
  assumes st: "on_book cap b U w" and ords: "tx_orders w \<noteq> None" and at: "sv_at s v = Some w"
  shows "digest_ultima (plain_db cl co cm bv) s v = Some (Inr (spec_digest (unat (n_levels b)) (ladder_of b)))"
proof -
  obtain Q F where inv: "book_inv b Q F" using st by (auto simp: on_book_def wf_book_def)
  obtain L R M where t: "tx_levels w = Some L" "tx_orders w = Some R" "tx_meta w = Some M"
    using st ords by (auto simp: on_book_def txn_shows_def)
  have "tables_show cap b L R M" using st t by (simp add: on_book_def txn_shows_def)
  then show ?thesis by (intro digest_rows [OF inv t _ _ _ at, of cap]) (simp_all add: tables_show_def)
qed

section \<open>Batches\<close>

datatype batch =
    Insert_batch "(i64 \<times> i64 \<times> i64 \<times> u8) list"
  | Update_batch "(i64 \<times> i64) list"
  | Cancel_batch "i64 list"
  | Churn_batch "churn_op list"

text \<open>\<open>multi\<close> chooses the variant that opens its tables once.\<close>

fun run_batch :: "('s, 'w, 'v, 'b) ultima_db \<Rightarrow> bool \<Rightarrow> batch \<Rightarrow> 's ultima_book \<Rightarrow> panic + 's ultima_book" where
  "run_batch db multi (Insert_batch xs) U = (if multi then insert_batch_txn_multi db xs U else insert_batch_txn db xs U)"
| "run_batch db multi (Update_batch xs) U = (if multi then update_batch_txn_multi db xs U else update_batch_txn db xs U)"
| "run_batch db multi (Cancel_batch xs) U = (if multi then cancel_batch_txn_multi db xs U else cancel_batch_txn db xs U)"
| "run_batch db multi (Churn_batch xs) U = (if multi then churn_batch_txn_multi db xs U else churn_batch_txn db xs U)"

fun churn_cmd :: "churn_op \<Rightarrow> cow_cmd" where
  "churn_cmd (Op_insert oid pr q sd) = Cmd_insert oid pr q sd"
| "churn_cmd (Op_cancel oid) = Cmd_cancel oid"
| "churn_cmd (Op_fill oid) = Cmd_fill oid"

fun batch_cmds :: "batch \<Rightarrow> cow_cmd list" where
  "batch_cmds (Insert_batch xs) = map (\<lambda>(oid, pr, q, sd). Cmd_insert oid pr q sd) xs"
| "batch_cmds (Update_batch xs) = map (\<lambda>(oid, q). Cmd_update oid q) xs"
| "batch_cmds (Cancel_batch xs) = map Cmd_cancel xs"
| "batch_cmds (Churn_batch xs) = map churn_cmd xs"

text \<open>Every batch is one transaction of its commands' bodies.\<close>

definition batch_opn :: "('s, 'w, 'v, 'b) ultima_db \<Rightarrow> bool \<Rightarrow> tab list \<Rightarrow> 'w \<Rightarrow> panic + 'w" where
  "batch_opn db multi = (if multi then opened else open_now db)"

definition cmds_batch :: "('s, 'w, 'v, 'b) ultima_db \<Rightarrow> bool \<Rightarrow> tab list \<Rightarrow> cow_cmd list \<Rightarrow>
    's ultima_book \<Rightarrow> panic + 's ultima_book" where
  "cmds_batch db multi ts cmds U =
     batch_txn db (cmd_body db (batch_opn db multi)) (if multi then ts else []) cmds U"

lemma batch_txn_map:
  fixes app :: "'c \<Rightarrow> 's ultima_book \<Rightarrow> 'w \<Rightarrow> panic + 's ultima_book \<times> 'w"
  shows "batch_txn db app ts (map f xs) U = batch_txn db (\<lambda>x. app (f x)) ts xs U"
proof -
  have "try_fold g (map f xs) = try_fold (\<lambda>x. g (f x)) xs" for g :: "_ \<Rightarrow> _ \<Rightarrow> panic + 's ultima_book \<times> 'w"
    by (induction xs) (rule ext, simp)+
  then show ?thesis by (simp add: batch_txn_def)
qed

fun batch_tabs :: "batch \<Rightarrow> tab list" where
  "batch_tabs (Insert_batch xs) = [Levels, Orders, Meta]"
| "batch_tabs (Update_batch xs) = [Orders, Levels]"
| "batch_tabs (Cancel_batch xs) = [Orders, Levels, Meta]"
| "batch_tabs (Churn_batch xs) = [Orders, Levels, Meta]"

lemma batch_tabs_orders: "Orders \<in> set (batch_tabs batch)"
  by (cases batch) simp_all

lemma churn_body:
  "(\<lambda>x. cmd_body db opn (churn_cmd x)) = (\<lambda>op. case op of Op_insert oid pr q sd \<Rightarrow> insert_with db opn oid pr q sd
      | Op_cancel oid \<Rightarrow> cancel_with db opn oid | Op_fill oid \<Rightarrow> cancel_with db opn oid)"
  by (auto simp: fun_eq_iff cmd_body_def split: churn_op.split)

lemma run_batch_cmds: "run_batch db multi batch U = cmds_batch db multi (batch_tabs batch) (batch_cmds batch) U"
proof (cases batch)
  case (Churn_batch xs)
  then show ?thesis
    unfolding Churn_batch run_batch.simps churn_batch_txn_multi_def churn_batch_txn_def
      apply_insert_def apply_insert_mt_def apply_cancel_def apply_cancel_mt_def
    by (simp add: cmds_batch_def batch_opn_def batch_txn_map churn_body)
qed (simp_all add: cmds_batch_def batch_opn_def batch_txn_map cmd_body_def [abs_def] split_def
    insert_batch_txn_multi_def insert_batch_txn_def update_batch_txn_multi_def update_batch_txn_def
    cancel_batch_txn_multi_def cancel_batch_txn_def
    apply_insert_def apply_insert_mt_def apply_update_def apply_update_mt_def apply_cancel_def apply_cancel_mt_def)

lemma batch_run:
  assumes st: "store_shows cap b U" and v: "unat (ub_version U) < 2 ^ 64 - 1"
    and ok: "cmds_ok (geom_of b) (ladder_of b) cmds" and room: "unat (hwm b) + inserts cmds \<le> 4294967295"
    and ts: "Orders \<in> set ts"
  shows "\<exists>U' b'. cmds_batch (plain_db cl co cm bv) multi ts cmds U = Inr U' \<and> store_shows cap b' U' \<and>
    keeps_pins U U' \<and> unat (ub_version U') \<le> Suc (unat (ub_version U)) \<and>
    ladder_of b' = fold (spec_cmd (geom_of b)) cmds (ladder_of b) \<and> geom_of b' = geom_of b \<and>
    unat (hwm b') = unat (hwm b) + inserts cmds"
proof (cases "cmds = []")
  case True
  then show ?thesis using st by (auto simp: cmds_batch_def batch_txn_def)
next
  case False
  let ?db = "plain_db cl co cm bv" and ?opn = "batch_opn (plain_db cl co cm bv) multi"
  let ?ts = "if multi then ts else []"
  let ?P = "\<lambda>w. multi \<longrightarrow> tx_orders w \<noteq> None"
  let ?R = "\<lambda>b'. ladder_of b' = fold (spec_cmd (geom_of b)) cmds (ladder_of b) \<and> geom_of b' = geom_of b \<and>
      unat (hwm b') = unat (hwm b) + inserts cmds"
  let ?body = "\<lambda>U w. and_then (if ?ts = [] then Inr w else open_now ?db ?ts w)
      (\<lambda>w. try_fold (\<lambda>c (U, w). cmd_body ?db ?opn c U w) cmds (U, w))"
  have opn: "opener ?P ?opn"
    using opener_now opener_opened by (auto simp: batch_opn_def intro: opener_mono)
  have step: "\<exists>U' w' b'. ?body (U\<lparr>ub_version := ub_version U + 1\<rparr>) w = Inr (U', w') \<and> on_book cap b' U' w' \<and>
      tx_version w' = tx_version w \<and> ub_store U' = ub_store U \<and> ub_version U' = ub_version U + 1 \<and> ?R b'"
    if on: "on_book cap b U w" for w
  proof -
    let ?w = "if multi then w\<lparr>tx_orders := Some (created (tx_orders w))\<rparr> else w"
    have "ts \<noteq> []" using ts by auto
    then have o: "(if ?ts = [] then Inr w else open_now ?db ?ts w) = Inr ?w"
      using opener_now [of cl co cm bv] on ts by (auto simp: opener_def on_book_def txn_shows_def)
    have "on_book cap b U ?w" using on by (simp add: on_book_def txn_shows_def)
    then have on': "on_book cap b (U\<lparr>ub_version := ub_version U + 1\<rparr>) ?w" by simp
    have P: "?P ?w" and ver: "tx_version ?w = tx_version w" by simp_all
    obtain U' w' b' where "try_fold (\<lambda>c (U, w). cmd_body ?db ?opn c U w) cmds (U\<lparr>ub_version := ub_version U + 1\<rparr>, ?w) =
        Inr (U', w')" "on_book cap b' U' w'" "tx_version w' = tx_version ?w" "ub_store U' = ub_store U"
      "ub_version U' = ub_version U + 1" "?R b'"
      using cmds_body_run [OF on' ok room opn P, of cl co cm bv] by auto
    then show ?thesis
      unfolding o and_then.simps ver by blast
  qed
  have "cmds_batch ?db multi ts cmds U = with_txn ?db ?body U"
    using False by (simp add: cmds_batch_def batch_txn_def)
  then show ?thesis
    using txn_run [OF st v, where body = ?body and R = ?R, OF step] unat_succ64 [OF v] by fastforce
qed

section \<open>Runs of commands and batches\<close>

datatype ultima_op =
    Single cow_cmd
  | Batched bool batch

fun ultima_do :: "('s, 'w, 'v, 'b) ultima_db \<Rightarrow> ultima_op \<Rightarrow> 's ultima_book \<Rightarrow> panic + 's ultima_book" where
  "ultima_do db (Single cmd) U = ultima_exec db cmd U"
| "ultima_do db (Batched multi batch) U = run_batch db multi batch U"

fun op_cmds :: "ultima_op \<Rightarrow> cow_cmd list" where
  "op_cmds (Single cmd) = [cmd]"
| "op_cmds (Batched multi batch) = batch_cmds batch"

definition all_cmds :: "ultima_op list \<Rightarrow> cow_cmd list" where
  "all_cmds ops = concat (map op_cmds ops)"

lemma all_cmds_simps [simp]:
  "all_cmds [] = []" "all_cmds (x # ops) = op_cmds x @ all_cmds ops" "all_cmds (ops @ ops') = all_cmds ops @ all_cmds ops'"
  by (simp_all add: all_cmds_def)

lemma inserts_append [simp]: "inserts (xs @ ys) = inserts xs + inserts ys"
  by (simp add: inserts_def)

lemma ultima_do_run:
  assumes st: "store_shows cap b U" and v: "unat (ub_version U) < 2 ^ 64 - 1"
    and ok: "cmds_ok (geom_of b) (ladder_of b) (op_cmds x)" and room: "unat (hwm b) + inserts (op_cmds x) \<le> 4294967295"
  shows "\<exists>U' b'. ultima_do (plain_db cl co cm bv) x U = Inr U' \<and> store_shows cap b' U' \<and> keeps_pins U U' \<and>
    unat (ub_version U') \<le> Suc (unat (ub_version U)) \<and>
    ladder_of b' = fold (spec_cmd (geom_of b)) (op_cmds x) (ladder_of b) \<and> geom_of b' = geom_of b \<and>
    unat (hwm b') = unat (hwm b) + inserts (op_cmds x)"
proof (cases x)
  case (Single cmd)
  have room': "unat (hwm b) < 4294967295" if "is_insert cmd" using room Single that by simp
  have "cmd_ok (geom_of b) (ladder_of b) cmd" using ok Single by simp
  from ultima_exec_run [OF st v this room', of cl co cm bv] show ?thesis using Single by simp
next
  case (Batched multi batch)
  then show ?thesis
    using batch_run [OF st v _ _ batch_tabs_orders, of "batch_cmds batch" cl co cm bv multi batch] ok room
    by (simp add: run_batch_cmds)
qed

lemma ultima_dos_run:
  assumes "store_shows cap b U" and "unat (ub_version U) + length ops < 2 ^ 64"
    and "cmds_ok (geom_of b) (ladder_of b) (all_cmds ops)" and "unat (hwm b) + inserts (all_cmds ops) \<le> 4294967295"
  shows "\<exists>U' b'. try_fold (ultima_do (plain_db cl co cm bv)) ops U = Inr U' \<and> store_shows cap b' U' \<and>
    keeps_pins U U' \<and> unat (ub_version U') \<le> unat (ub_version U) + length ops \<and>
    ladder_of b' = fold (spec_cmd (geom_of b)) (all_cmds ops) (ladder_of b) \<and> geom_of b' = geom_of b \<and>
    unat (hwm b') = unat (hwm b) + inserts (all_cmds ops)"
  using assms
proof (induction ops arbitrary: b U)
  case Nil
  then show ?case by auto
next
  case (Cons x ops)
  have v: "unat (ub_version U) < 2 ^ 64 - 1" using Cons.prems(2) by simp
  have ok: "cmds_ok (geom_of b) (ladder_of b) (op_cmds x)" using Cons.prems(3) by (simp add: cmds_ok_append)
  have room: "unat (hwm b) + inserts (op_cmds x) \<le> 4294967295" using Cons.prems(4) by simp
  obtain U1 b1 where 1: "ultima_do (plain_db cl co cm bv) x U = Inr U1" "store_shows cap b1 U1" "keeps_pins U U1"
    "unat (ub_version U1) \<le> Suc (unat (ub_version U))"
    "ladder_of b1 = fold (spec_cmd (geom_of b)) (op_cmds x) (ladder_of b)"
    "geom_of b1 = geom_of b" "unat (hwm b1) = unat (hwm b) + inserts (op_cmds x)"
    using ultima_do_run [OF Cons.prems(1) v ok room, of cl co cm bv] by blast
  have "unat (ub_version U1) + length ops < 2 ^ 64" using Cons.prems(2) 1(4) by simp
  moreover have "cmds_ok (geom_of b1) (ladder_of b1) (all_cmds ops)"
    using Cons.prems(3) 1(5,6) by (simp add: cmds_ok_append)
  moreover have "unat (hwm b1) + inserts (all_cmds ops) \<le> 4294967295" using Cons.prems(4) 1(7) by simp
  ultimately obtain U' b' where 2: "try_fold (ultima_do (plain_db cl co cm bv)) ops U1 = Inr U'" "store_shows cap b' U'"
    "keeps_pins U1 U'" "unat (ub_version U') \<le> unat (ub_version U1) + length ops"
    "ladder_of b' = fold (spec_cmd (geom_of b1)) (all_cmds ops) (ladder_of b1)" "geom_of b' = geom_of b1"
    "unat (hwm b') = unat (hwm b1) + inserts (all_cmds ops)"
    using Cons.IH [OF 1(2)] by blast
  show ?case
    using 1 2 keeps_pins_trans [OF 1(3) 2(3)]
    by (intro exI [of _ U'] exI [of _ b']) simp
qed

section \<open>The same runs on a lawful database\<close>

lemma seed_levels_sim:
  assumes R: "refines_db V db db'"
  shows "sim_run (of_write V) (seed_levels db nl w) (seed_levels db' nl (of_write V w))"
proof -
  let ?f = "\<lambda>db (sd, t) w. and_then (expect (tb_insert (db_levels db) (empty_level_rec sd (of_nat t)) w)) (\<lambda>(_, w). Inr w)"
  have "sim_run (of_write V) (?f db x w) (?f db' x (of_write V w))" for x w
    by (cases x) (simp, intro sim_prod [OF sim_tb_insert [OF levels_laws [OF R]]] sim_InrI, simp)
  then show ?thesis
    unfolding seed_levels_def using sim_open [OF R, of "[Levels]" w]
    by (intro sim_then [where f = "of_write V"] sim_fold) (simp_all add: open_now_def)
qed

lemma ultima_new_sim:
  assumes R: "refines_db V db db'"
  shows "sim_run (show_book (of_store V)) (ultima_new db cfg) (ultima_new db' cfg)"
proof -
  have new: "sim_run (show_book (of_store V)) (ultima_empty db cfg) (ultima_empty db' cfg)"
    unfolding ultima_empty_def by (intro sim_then [OF sim_new [OF R]] sim_InrI) (simp add: show_book_def)
  show ?thesis
    unfolding ultima_new_def
    by (intro sim_then [OF new] with_txn_sim [OF R] sim_then [OF seed_levels_sim [OF R]]
        sim_then [OF sim_open [OF R, of "[Meta]", unfolded open_now_def]]
        sim_prod [OF sim_tb_insert [OF meta_laws [OF R]]] sim_InrI) simp
qed

lemma pin_current_sim:
  assumes R: "refines_db V db db'"
  shows "sim_run (map_prod (\<lambda>v. v) (show_book (of_store V))) (pin_current db U) (pin_current db' (show_book (of_store V) U))"
  unfolding pin_current_def show_book_simps
  by (intro sim_then [OF sim_pin [OF R]] sim_InrI) simp

lemma ultima_exec_sim:
  assumes R: "refines_db V db db'"
  shows "sim_run (show_book (of_store V)) (ultima_exec db cmd U) (ultima_exec db' cmd (show_book (of_store V) U))"
  using command_sims [OF R]
  by (cases cmd) (simp_all add: ultima_exec_def sim_prod [OF pin_current_sim [OF R]] sim_InrI)

lemma cmd_body_sim:
  assumes R: "refines_db V db db'"
    and opn: "\<And>ts w. sim_run (of_write V) (opn ts w) (opn' ts (of_write V w))"
  shows "sim_run (map_prod (show_book (of_store V)) (of_write V)) (cmd_body db opn cmd U w)
    (cmd_body db' opn' cmd (show_book (of_store V) U) (of_write V w))"
  by (cases cmd) (simp_all add: cmd_body_def sim_InrI insert_with_sim [OF R, where opn = opn and opn' = opn', OF opn]
      update_with_sim [OF R, where opn = opn and opn' = opn', OF opn]
      cancel_with_sim [OF R, where opn = opn and opn' = opn', OF opn])

lemma ultima_do_sim:
  assumes R: "refines_db V db db'"
  shows "sim_run (show_book (of_store V)) (ultima_do db x U) (ultima_do db' x (show_book (of_store V) U))"
proof (cases x)
  case (Single cmd)
  then show ?thesis by (simp add: ultima_exec_sim [OF R])
next
  case (Batched multi batch)
  have opn: "sim_run (of_write V) (batch_opn db multi ts w) (batch_opn db' multi ts (of_write V w))" for ts w
    by (simp add: batch_opn_def sim_opened sim_open [OF R])
  show ?thesis
    unfolding Batched ultima_do.simps run_batch_cmds cmds_batch_def
    by (intro batch_txn_sim [OF R] cmd_body_sim [OF R] opn)
qed

end
