(* ===== verification/Ultima_Restore.thy ===== *)
theory Ultima_Restore
  imports Ultima_Read
begin

text \<open>
  The restore of the database book from a snapshot image (\<open>restore_ultima\<close> in
  rust/smr-collections/ultima-common/src/lib.rs): the decoded rows go into one bulk load that
  replaces the three tables. Unlike the other two restores it looks at the number of levels and at
  neither the schema version nor the capacity.
\<close>

datatype ultima_restore_error =
    Image_too_short
  | Image_crc_mismatch
  | Levels_mismatch
  | Orders_not_ascending
  | Bulk_add_failed tab
  | Bulk_commit_failed

text \<open>A loop whose body may return from the function.\<close>

fun iter_result :: "('s \<Rightarrow> panic + 'e + 's) \<Rightarrow> nat \<Rightarrow> 's \<Rightarrow> panic + 'e + 's" where
  "iter_result f 0 s = Inr (Inr s)"
| "iter_result f (Suc n) s =
     and_then (f s) (\<lambda>r. case r of Inl e \<Rightarrow> Inr (Inl e) | Inr s \<Rightarrow> iter_result f n s)"

definition empty_rows :: "u32 \<Rightarrow> (u64 \<times> level_rec) list" where
  "empty_rows nl = map (\<lambda>i. (of_nat i + 1,
     empty_level_rec (of_nat (i div unat nl)) (of_nat (i mod unat nl)))) [0..<2 * unat nl]"

definition read_level_rec :: "group_dec \<Rightarrow> panic + level_rec" where
  "read_level_rec lg =
     and_then (ld_side lg) (\<lambda>sd.
     and_then (ld_level_tick lg) (\<lambda>t.
     and_then (ld_qty_total lg) (\<lambda>qt.
     and_then (ld_order_count lg) (\<lambda>n.
     and_then (ld_head lg) (\<lambda>hd.
     and_then (ld_tail lg) (\<lambda>tl.
     Inr \<lparr>lr_side = side_u8 sd, lr_tick = t, lr_qty_total = qt, lr_count = n, lr_head = hd, lr_tail = tl\<rparr>))))))"

definition load_level_rec ::
  "u32 \<Rightarrow> group_dec \<times> (u64 \<times> level_rec) list \<Rightarrow> panic + group_dec \<times> (u64 \<times> level_rec) list" where
  "load_level_rec nl = (\<lambda>(lg, levels).
     and_then (next_row lg) (\<lambda>lg.
     and_then (read_level_rec lg) (\<lambda>l.
     let lid = level_id nl (lr_side l) (lr_tick l) in
     and_then (idx_set levels (unat (lid - 1)) (lid, l)) (\<lambda>levels. Inr (lg, levels)))))"

text \<open>The slot and the order id come first, then the rest of the row.\<close>

definition load_order_rec ::
  "group_dec \<times> (u64 \<times> order_rec) list \<times> (i64 \<rightharpoonup> u64) \<Rightarrow>
   panic + ultima_restore_error + group_dec \<times> (u64 \<times> order_rec) list \<times> (i64 \<rightharpoonup> u64)" where
  "load_order_rec = (\<lambda>(og, orders, ids).
     and_then (next_row og) (\<lambda>og.
     and_then (od_slot og) (\<lambda>slot.
     let row = row_of slot in
     if orders \<noteq> [] \<and> row \<le> fst (last orders) then Inr (Inl Orders_not_ascending)
     else
       and_then (od_order_id og) (\<lambda>oid.
       and_then (od_price og) (\<lambda>pr.
       and_then (od_qty og) (\<lambda>q.
       and_then (od_filled og) (\<lambda>f.
       and_then (od_side og) (\<lambda>sd.
       and_then (od_next_slot og) (\<lambda>nx.
       and_then (od_prev og) (\<lambda>pv.
       Inr (Inr (og,
         orders @ [(row, \<lparr>order_id = oid, price = pr, qty = q, filled = f, next_slot = nx, prev_slot = pv,
                         side = side_u8 sd\<rparr>)],
         ids(oid \<mapsto> row)))))))))))))"

definition bulk_install ::
  "('s, 'w, 'v, 'b) ultima_db \<Rightarrow> (u64 \<times> level_rec) list \<Rightarrow> (u64 \<times> order_rec) list \<Rightarrow> meta_rec \<Rightarrow>
   's ultima_book \<Rightarrow> ultima_restore_error + 's ultima_book" where
  "bulk_install db levels orders m U =
     (case bulk_levels db levels (db_bulk db (ub_store U)) of None \<Rightarrow> Inl (Bulk_add_failed Levels)
      | Some batch \<Rightarrow>
     case bulk_orders db orders batch of None \<Rightarrow> Inl (Bulk_add_failed Orders)
      | Some batch \<Rightarrow>
     case bulk_meta db [(1, m)] batch of None \<Rightarrow> Inl (Bulk_add_failed Meta)
      | Some batch \<Rightarrow>
     case bulk_commit db batch (ub_store U) of None \<Rightarrow> Inl Bulk_commit_failed
      | Some (version, s) \<Rightarrow> Inr (U\<lparr>ub_store := s, ub_version := version\<rparr>))"

definition restore_ultima ::
  "('s, 'w, 'v, 'b) ultima_db \<Rightarrow> (u8 list \<Rightarrow> u32) \<Rightarrow> u8 list \<Rightarrow> smr_config \<Rightarrow>
   panic + ultima_restore_error + 's ultima_book" where
  "restore_ultima db crc bytes cfg =
     (if length bytes < 4 then Inr (Inl Image_too_short)
      else
        let sbe_len = length bytes - 4;
            want = of_nat (le_value (drop sbe_len bytes));
            body = take sbe_len bytes in
        if crc body \<noteq> want then Inr (Inl Image_crc_mismatch)
        else
          and_then (bs_dec_header (hd_wrap body 0) 0) (\<lambda>dec.
          and_then (ds_price_min dec) (\<lambda>pmin.
          and_then (ds_tick_size dec) (\<lambda>tk.
          and_then (ds_nl_evels dec) (\<lambda>nl.
          and_then (ds_capacity dec) (\<lambda>cap.
          and_then (ds_hwm dec) (\<lambda>hw.
          and_then (ds_best_bid dec) (\<lambda>bb.
          and_then (ds_best_ask dec) (\<lambda>ba.
          if nl \<noteq> cfg_levels cfg then Inr (Inl Levels_mismatch)
          else
            and_then (ultima_empty db cfg) (\<lambda>U.
            and_then (levels_decoder dec) (\<lambda>lg.
            and_then (try_iter (load_level_rec nl) (unat (gd_count lg)) (lg, empty_rows nl)) (\<lambda>(lg, levels).
            and_then (expect_sbe (group_dec_parent lg)) (\<lambda>dec.
            and_then (orders_decoder dec) (\<lambda>og.
            and_then (iter_result load_order_rec (unat (gd_count og)) (og, [], ub_ids U)) (\<lambda>r.
            case r of Inl e \<Rightarrow> Inr (Inl e)
            | Inr (og, orders, ids) \<Rightarrow>
                Inr (bulk_install db levels orders
                  \<lparr>mr_price_min = pmin, mr_tick = tk, mr_n_levels = nl, mr_capacity = cap, mr_hwm = hw,
                   mr_best_bid = bb, mr_best_ask = ba\<rparr> (U\<lparr>ub_ids := ids\<rparr>)))))))))))))))))"

section \<open>On a lawful database\<close>

lemma keeps_Some: "keeps f m m' \<Longrightarrow> m' = Some y \<Longrightarrow> \<exists>x. m = Some x \<and> f x = y"
  by (simp add: keeps_def)

lemma bulk_install_sim:
  assumes R: "refines_db V db db'"
    and run: "bulk_install db' levels orders m (show_book (of_store V) U) = Inr U'"
  shows "\<exists>U1. bulk_install db levels orders m U = Inr U1 \<and> show_book (of_store V) U1 = U'"
proof -
  from run obtain b1 b2 b3 v s where r: "bulk_levels db' levels (db_bulk db' (of_store V (ub_store U))) = Some b1"
    "bulk_orders db' orders b1 = Some b2" "bulk_meta db' [(1, m)] b2 = Some b3"
    "bulk_commit db' b3 (of_store V (ub_store U)) = Some (v, s)"
    "U' = (show_book (of_store V) U)\<lparr>ub_store := s, ub_version := v\<rparr>"
    by (auto simp: bulk_install_def split: option.splits)
  have laws: "of_bulk V (db_bulk db s) = db_bulk db' (of_store V s)"
    "keeps (of_bulk V) (bulk_levels db rl b) (bulk_levels db' rl (of_bulk V b))"
    "keeps (of_bulk V) (bulk_orders db ro b) (bulk_orders db' ro (of_bulk V b))"
    "keeps (of_bulk V) (bulk_meta db rm b) (bulk_meta db' rm (of_bulk V b))"
    "keeps (map_prod (\<lambda>x. x) (of_store V)) (bulk_commit db b s) (bulk_commit db' (of_bulk V b) (of_store V s))"
    for s rl ro rm b
    using R by (simp_all add: refines_db_def)
  obtain c1 where c1: "bulk_levels db levels (db_bulk db (ub_store U)) = Some c1" "of_bulk V c1 = b1"
    using keeps_Some [OF laws(2), of levels "db_bulk db (ub_store U)" b1] r(1) laws(1) by auto
  obtain c2 where c2: "bulk_orders db orders c1 = Some c2" "of_bulk V c2 = b2"
    using keeps_Some [OF laws(3), of orders c1 b2] r(2) c1(2) by auto
  obtain c3 where c3: "bulk_meta db [(1, m)] c2 = Some c3" "of_bulk V c3 = b3"
    using keeps_Some [OF laws(4), of "[(1, m)]" c2 b3] r(3) c2(2) by auto
  obtain s1 where s1: "bulk_commit db c3 (ub_store U) = Some (v, s1)" "of_store V s1 = s"
    using keeps_Some [OF laws(5), of c3 "ub_store U" "(v, s)"] r(4) c3(2) by auto
  show ?thesis
    using c1 c2 c3 s1 r(5) by (auto simp: bulk_install_def show_book_def)
qed

end
