(* ===== verification/Ultima_Image.thy ===== *)
theory Ultima_Image
  imports Ultima_Restore Snapshot_Round
begin

text \<open>
  The snapshot image of a version: the bytes \<open>encode_at\<close> writes, as a function of the book the
  version shows, and what \<open>restore_ultima\<close> makes of them.
\<close>

section \<open>Listing a table\<close>

lemma rows_in_order_eq:
  assumes sorted: "sorted_wrt (<) (map key xs)" and rows: "\<And>k r. m k = Some r \<longleftrightarrow> (\<exists>x\<in>set xs. k = key x \<and> r = val x)"
  shows "rows_in_order m = map (\<lambda>x. (key x, val x)) xs"
proof -
  have dom: "dom m = set (map key xs)" by (auto simp: dom_def rows)
  have "sorted (map key xs)" "distinct (map key xs)"
    using sorted by (simp_all add: strict_sorted_iff)
  then have keys: "sorted_list_of_set (dom m) = map key xs"
    unfolding dom by (rule sorted_list_of_set.idem_if_sorted_distinct)
  have "the (m (key x)) = val x" if "x \<in> set xs" for x
    using rows [of "key x" "val x"] that by auto
  then show ?thesis unfolding rows_in_order_def keys by simp
qed

definition live_slots :: "book \<Rightarrow> nat list" where
  "live_slots b = filter (\<lambda>i. order_id (pool b ! i) \<noteq> 0) [0..<unat (hwm b)]"

lemma live_slot_u32:
  assumes "i \<in> set (live_slots b)"
  shows "unat (of_nat i :: u32) = i" and "used_slot b (of_nat i)" and "i < unat (hwm b)"
proof -
  show i: "i < unat (hwm b)" using assms by (simp add: live_slots_def)
  then show u: "unat (of_nat i :: u32) = i"
    using unat_u32_bound [of "hwm b"] by (intro unat_of_nat_u32) simp
  show "used_slot b (of_nat i)" using assms u by (simp add: live_slots_def used_slot_def)
qed

lemma used_live: "used_slot b s \<Longrightarrow> unat s \<in> set (live_slots b)"
  by (simp add: live_slots_def used_slot_def)

lemma order_row_live: "order_row b k r \<longleftrightarrow> (\<exists>i\<in>set (live_slots b). k = row_of (of_nat i) \<and> r = pool b ! i)"
proof
  assume "order_row b k r"
  then obtain s where s: "used_slot b s" "k = row_of s" "r = order_at (pool b) s" by (auto simp: order_row_def)
  then show "\<exists>i\<in>set (live_slots b). k = row_of (of_nat i) \<and> r = pool b ! i"
    using used_live [OF s(1)] by (intro bexI [of _ "unat s"]) simp_all
next
  assume "\<exists>i\<in>set (live_slots b). k = row_of (of_nat i) \<and> r = pool b ! i"
  then obtain i where i: "i \<in> set (live_slots b)" "k = row_of (of_nat i)" "r = pool b ! i" by blast
  then show "order_row b k r" using live_slot_u32 [OF i(1)] by (auto simp: order_row_def)
qed

lemma live_rows_sorted: "sorted_wrt (<) (map (\<lambda>i. row_of (of_nat i)) (live_slots b))"
proof -
  have "sorted_wrt (<) (live_slots b)" unfolding live_slots_def by (intro sorted_wrt_filter) simp
  then have "sorted_wrt (\<lambda>i j. row_of (of_nat i) < row_of (of_nat j)) (live_slots b)"
    by (rule sorted_wrt_mono_rel [rotated])
      (use live_slot_u32 in \<open>auto simp: word_less_nat_alt unat_row_of simp del: unat_of_nat\<close>)
  then show ?thesis by (simp add: sorted_wrt_map)
qed

lemma orders_listed:
  assumes "\<And>k r. rows k = Some r \<longleftrightarrow> order_row b k r"
  shows "rows_in_order rows = map (\<lambda>i. (row_of (of_nat i), pool b ! i)) (live_slots b)"
  by (rule rows_in_order_eq [OF live_rows_sorted]) (use assms order_row_live in blast)

definition level_keys :: "u32 \<Rightarrow> (u8 \<times> nat) list" where
  "level_keys nl = map (Pair 0) [0..<unat nl] @ map (Pair 1) [0..<unat nl]"

lemma level_keys_in: "(sd, t) \<in> set (level_keys nl) \<longleftrightarrow> is_side sd \<and> t < unat nl"
  by (auto simp: level_keys_def is_side_def)

lemma unat_level_key:
  assumes "unat nl < 2 ^ 31" and "(sd, t) \<in> set (level_keys nl)"
  shows "unat (level_id nl sd (of_nat t)) = unat sd * unat nl + t + 1" and "unat (of_nat t :: u32) = t"
proof -
  have t: "is_side sd" "t < unat nl" using assms(2) by (simp_all add: level_keys_in)
  show u: "unat (of_nat t :: u32) = t" using t(2) assms(1) by (intro unat_of_nat_u32) simp
  show "unat (level_id nl sd (of_nat t)) = unat sd * unat nl + t + 1"
    using unat_level_id [OF t(1) assms(1), of "of_nat t"] u by (simp del: unat_of_nat)
qed

lemma level_keys_sorted:
  assumes nl: "unat nl < 2 ^ 31"
  shows "sorted_wrt (<) (map (\<lambda>(sd, t). level_id nl sd (of_nat t)) (level_keys nl))"
proof -
  have "sorted_wrt (\<lambda>(sd, t) (sd', t'). unat sd * unat nl + t < unat sd' * unat nl + t') (level_keys nl)"
    by (auto simp: level_keys_def sorted_wrt_append sorted_wrt_map)
  then have "sorted_wrt (\<lambda>x y. (case x of (sd, t) \<Rightarrow> level_id nl sd (of_nat t)) < (case y of (sd, t) \<Rightarrow> level_id nl sd (of_nat t)))
      (level_keys nl)"
    by (rule sorted_wrt_mono_rel [rotated])
      (use unat_level_key [OF nl] in \<open>auto simp: word_less_nat_alt\<close>)
  then show ?thesis by (simp add: sorted_wrt_map)
qed

lemma levels_listed:
  assumes nl: "unat (n_levels b) < 2 ^ 31" and rows: "\<And>k r. rows k = Some r \<longleftrightarrow> level_at b k r"
  shows "rows_in_order rows =
    map (\<lambda>(sd, t). (level_id (n_levels b) sd (of_nat t), level_row sd (of_nat t) (lane b sd ! t))) (level_keys (n_levels b))"
proof -
  have "rows k = Some r \<longleftrightarrow> (\<exists>x\<in>set (level_keys (n_levels b)). k = (case x of (sd, t) \<Rightarrow> level_id (n_levels b) sd (of_nat t)) \<and>
      r = (case x of (sd, t) \<Rightarrow> level_row sd (of_nat t) (lane b sd ! t)))" for k r
  proof
    assume "rows k = Some r"
    then obtain sd t where t: "is_side sd" "unat t < unat (n_levels b)" "k = level_id (n_levels b) sd t"
      "r = level_row sd t (lane b sd ! unat t)" by (auto simp: rows level_at_def)
    then show "\<exists>x\<in>set (level_keys (n_levels b)). k = (case x of (sd, t) \<Rightarrow> level_id (n_levels b) sd (of_nat t)) \<and>
      r = (case x of (sd, t) \<Rightarrow> level_row sd (of_nat t) (lane b sd ! t))"
      by (intro bexI [of _ "(sd, unat t)"]) (auto simp: level_keys_in)
  next
    assume "\<exists>x\<in>set (level_keys (n_levels b)). k = (case x of (sd, t) \<Rightarrow> level_id (n_levels b) sd (of_nat t)) \<and>
      r = (case x of (sd, t) \<Rightarrow> level_row sd (of_nat t) (lane b sd ! t))"
    then obtain sd t where t: "(sd, t) \<in> set (level_keys (n_levels b))" "k = level_id (n_levels b) sd (of_nat t)"
      "r = level_row sd (of_nat t) (lane b sd ! t)" by auto
    note u = unat_level_key(2) [OF nl t(1)]
    show "rows k = Some r"
      unfolding rows level_at_def
      by (rule exI [of _ sd], rule exI [of _ "of_nat t"]) (use t u in \<open>auto simp: level_keys_in simp del: unat_of_nat\<close>)
  qed
  from rows_in_order_eq [OF level_keys_sorted [OF nl] this] show ?thesis by (simp add: split_def)
qed

section \<open>The image\<close>

definition db_front :: "u32 \<Rightarrow> book \<Rightarrow> u8 list" where
  "db_front cap b =
     (((header_bytes @ root_bytes (price_min b) (tick b) (n_levels b) cap (hwm b) (best_bid b) (best_ask b) NIL) @
       group_bytes LEVELS_BLOCK (of_nat (level_total b))) @ lane_bytes 0 (bids b)) @ lane_bytes 1 (asks b)"

definition db_image :: "u32 \<Rightarrow> book \<Rightarrow> u8 list" where
  "db_image cap b =
     (db_front cap b @ group_bytes ORDERS_BLOCK (of_nat (length (live_slots b)))) @
     concat (map (\<lambda>i. order_bytes i (pool b ! i)) (live_slots b))"

lemma length_db_front [simp]: "length (db_front cap b) = 52 + 25 * level_total b"
  by (simp add: db_front_def length_lane_bytes level_total_def)

lemma length_db_image: "length (db_image cap b) = 56 + 25 * level_total b + 45 * length (live_slots b)"
proof -
  have "length (concat (map (\<lambda>i. order_bytes i (pool b ! i)) (live_slots b))) = 45 * length (live_slots b)"
    by (rule length_concat_blocks) simp
  then show ?thesis by (simp add: db_image_def)
qed

lemma write_level_keys:
  "try_fold (\<lambda>(_, l). write_level (lr_side l) (lr_tick l) (level_of_rec l))
     (map (\<lambda>(sd, t). (level_id nl sd (of_nat t), level_row sd (of_nat t) (lane b sd ! t))) (map (Pair sd) [0..<n])) =
   try_fold (\<lambda>(t, lvl). write_level sd (of_nat t) lvl) (map (\<lambda>t. (t, lane b sd ! t)) [0..<n])"
  by (rule ext) (simp add: try_fold_map comp_def)

lemma level_total_occupied:
  assumes nl: "unat (n_levels b) < 2 ^ 31" and len: "length (bids b) = unat (n_levels b)" "length (asks b) = unat (n_levels b)"
  shows "length (filter (\<lambda>(_, l). lr_head l \<noteq> NIL)
    (map (\<lambda>(sd, t). (level_id (n_levels b) sd (of_nat t), level_row sd (of_nat t) (lane b sd ! t))) (level_keys (n_levels b)))) =
    level_total b"
proof -
  have "length (filter (\<lambda>(_, l). lr_head l \<noteq> NIL) (map (\<lambda>(sd, t). (level_id (n_levels b) sd (of_nat t),
      level_row sd (of_nat t) (lane b sd ! t))) (map (Pair sd) [0..<unat (n_levels b)]))) = length (occupied (lane b sd))"
    if "length (lane b sd) = unat (n_levels b)" for sd
    unfolding occupied_def enumerate_upt that by (simp add: filter_map comp_def split_def)
  from this [of 0] this [of 1] show ?thesis
    using len by (simp add: level_keys_def level_total_def lane_def)
qed

lemma encode_at_run:
  assumes inv: "book_inv b Q F" and t: "tx_levels w = Some L" "tx_orders w = Some R" "tx_meta w = Some M"
    and sh: "tables_show cap b L R M" and at: "sv_at s v = Some w"
    and small: "length (live_slots b) < 65536" "level_total b < 65536"
    and room: "length (db_image cap b) + 4 \<le> length buf" "length buf < 2 ^ 64"
  shows "\<exists>buf'. encode_at (plain_db cl co cm bv) crc s v buf = Inr (length (db_image cap b) + 4, buf') \<and>
    length buf' = length buf \<and> take (length (db_image cap b) + 4) buf' = db_image cap b @ le_bytes 4 (unat (crc (db_image cap b)))"
proof -
  let ?db = "plain_db cl co cm bv" and ?N = "length buf" and ?n = "level_total b" and ?live = "live_slots b"
  note core = book_inv_core [OF inv]
  have nl: "unat (n_levels b) < 2 ^ 31" using core by (simp add: core_inv_def geometry_ok_def)
  have lens: "length (bids b) = unat (n_levels b)" "length (asks b) = unat (n_levels b)"
    using core_inv_lane_length [OF core, of 0] core_inv_lane_length [OF core, of 1] by (simp_all add: lane_def)
  have o: "open_version ?db s v = Inr (w, meta_row cap b)"
    using at t sh by (simp add: open_version_def plain_db_def plain_reader_def tables_show_def)
  let ?lv = "map (\<lambda>(sd, t). (level_id (n_levels b) sd (of_nat t), level_row sd (of_nat t) (lane b sd ! t))) (level_keys (n_levels b))"
  let ?od = "map (\<lambda>i. (row_of (of_nat i), pool b ! i)) ?live"
  have rd: "rd_iter (rd_levels ?db) w = ?lv" "rd_iter (rd_orders ?db) w = ?od"
    using levels_listed [OF nl, of "t_rows L"] orders_listed [of "t_rows R" b] sh
    by (simp_all add: plain_db_def plain_reader_def t tables_show_def)
  have "length (rd_iter (rd_orders ?db) w) = rd_len (rd_orders ?db) w"
    by (simp add: plain_db_def plain_reader_def rows_in_order_def)
  then have len: "rd_len (rd_orders ?db) w = length ?live" by (simp add: rd)
  let ?pre0 = "header_bytes @ root_bytes (price_min b) (tick b) (n_levels b) cap (hwm b) (best_bid b) (best_ask b) NIL"
  let ?pre1 = "?pre0 @ group_bytes LEVELS_BLOCK (of_nat ?n)"
  let ?pre2 = "db_front cap b @ group_bytes ORDERS_BLOCK (of_nat (length ?live))"
  have N: "56 + 25 * ?n + 45 * length ?live + 4 \<le> ?N" using room by (simp add: length_db_image)
  obtain e where e: "write_root (price_min b) (tick b) (n_levels b) cap (hwm b) (best_bid b) (best_ask b) NIL buf = Inr e"
    "e_buf e = ?pre0 @ drop 48 buf" "e_limit e = 48"
    using write_root_run [of buf] N room(2) by simp
  obtain g0 where g0: "levels_encoder e (of_nat ?n) = Inr g0" "group_at g0 ?pre1 ?N ?n 0"
    using group_wrap_run [of e ?pre0 "drop 48 buf" ?N LEVELS_BLOCK "of_nat ?n"] e N room(2) small
    by (auto simp: levels_encoder_def unat_of_nat_u16 simp del: unat_of_nat)
  obtain g1 where g1: "try_fold (\<lambda>(t, lvl). write_level 0 (of_nat t) lvl) (enumerate 0 (bids b)) g0 = Inr g1"
    "group_at g1 (?pre1 @ lane_bytes 0 (bids b)) ?N ?n (length (occupied (bids b)))"
    using write_lane_run [OF g0(2), of "enumerate 0 (bids b)" 0] N room(2)
    by (auto simp: occupied_def lane_bytes_def level_total_def)
  obtain g2 where g2: "try_fold (\<lambda>(t, lvl). write_level 1 (of_nat t) lvl) (enumerate 0 (asks b)) g1 = Inr g2"
    "group_at g2 (db_front cap b) ?N ?n ?n"
    using write_lane_run [OF g1(2), of "enumerate 0 (asks b)" 1] N room(2)
    by (auto simp: db_front_def occupied_def lane_bytes_def level_total_def
        length_lane_bytes [unfolded lane_bytes_def occupied_def])
  have levels: "try_fold (\<lambda>(_, l). write_level (lr_side l) (lr_tick l) (level_of_rec l)) ?lv g0 = Inr g2"
    using g1(1) g2(1)
    by (simp only: level_keys_def map_append try_fold_append write_level_keys)
      (simp add: enumerate_upt lens lane_def)
  obtain p rest where p: "ge_parent g2 = Some p" "e_buf p = db_front cap b @ rest"
    "length (db_front cap b @ rest) = ?N" "e_limit p = length (db_front cap b)"
    using g2(2) unfolding group_at_def by blast
  have "length (db_front cap b) + 4 \<le> ?N" using N by simp
  from group_wrap_run [OF p(2,4,3) this room(2), of ORDERS_BLOCK "of_nat (length ?live)"]
  obtain h where h: "orders_encoder p (of_nat (length ?live)) = Inr h" "group_at h ?pre2 ?N (length ?live) 0"
    unfolding orders_encoder_def unat_of_nat_u16 [OF small(1)] by blast
  have "length ?pre2 + 45 * length ?live \<le> ?N" using N by simp
  moreover have bound: "i < length (pool b)" if "i \<in> set ?live" for i
    using live_slot_u32(3) [OF that] core_inv_hwm [OF core] by simp
  ultimately obtain h1 where
    h1: "try_fold (\<lambda>slot og. and_then (idx (pool b) slot) (\<lambda>ord. write_order slot ord og)) ?live h = Inr h1"
    "group_at h1 (db_image cap b) ?N (length ?live) (0 + length ?live)"
    using write_orders_run [OF h(2), of ?live "pool b"] room(2) by (auto simp: db_image_def)
  have "try_fold (\<lambda>(oid, ord). write_order (unat (slot_of oid)) ord) ?od h =
      try_fold (\<lambda>slot og. and_then (idx (pool b) slot) (\<lambda>ord. write_order slot ord og)) ?live h"
    unfolding try_fold_map
    by (rule try_fold_cong) (use bound live_slot_u32(1) in \<open>simp_all add: idx_simps del: unat_of_nat\<close>)
  with h1(1) have orders: "try_fold (\<lambda>(oid, ord). write_order (unat (slot_of oid)) ord) ?od h = Inr h1" by simp
  have "encode_at ?db crc s v buf = write_crc crc h1"
    unfolding encode_at_def o and_then.simps prod.case Let_def rd len level_total_occupied [OF nl lens]
    by (simp add: meta_row_def e(1) g0(1) levels group_parent_def p(1) h(1) orders)
  then show ?thesis using write_crc_run [OF h1(2) room] by auto
qed

end
