(* ===== verification/Ultima_Round.thy ===== *)
theory Ultima_Round
  imports Ultima_Image
begin

text \<open>
  Restoring the image of a version: the rows of its two groups, laid over the empty levels, are the
  listings of the version's tables, so the bulk load installs those tables again.
\<close>

section \<open>The levels\<close>

lemma read_level_rec_row: "read_level_row g = Inr (sd, t, l) \<Longrightarrow> read_level_rec g = Inr (level_row sd t l)"
  by (auto simp: read_level_row_def read_level_rec_def level_row_def)

definition put_rec :: "u32 \<Rightarrow> u8 \<times> nat \<times> price_level \<Rightarrow> (u64 \<times> level_rec) list \<Rightarrow> (u64 \<times> level_rec) list" where
  "put_rec nl = (\<lambda>(sd, t, l) xs. xs[unat sd * unat nl + t := (level_id nl sd (of_nat t), level_row sd (of_nat t) l)])"

lemma level_index:
  assumes "is_side sd" "t < unat nl" "unat nl < 2 ^ 31"
  shows "unat (level_id nl sd (of_nat t) - 1) = unat sd * unat nl + t" and "unat sd * unat nl + t < 2 * unat nl"
    and "unat (of_nat t :: u32) = t"
proof -
  have "(sd, t) \<in> set (level_keys nl)" using assms by (simp add: level_keys_in)
  note key = unat_level_key [OF assms(3) this]
  show "unat (of_nat t :: u32) = t" by (rule key(2))
  have "level_id nl sd (of_nat t) \<noteq> 0" using key(1) by (metis Suc_eq_plus1 nat.distinct(1) unat_0)
  then show "unat (level_id nl sd (of_nat t) - 1) = unat sd * unat nl + t"
    using key(1) by (simp add: unat_minus_one)
  show "unat sd * unat nl + t < 2 * unat nl" using assms by (auto simp: is_side_def)
qed

lemma load_recs_run:
  assumes "dec_at g (pre @ concat (map (\<lambda>(sd, t, l). level_bytes sd (of_nat t) l) rows) @ post) (length pre) 25 n k"
    and "k + length rows \<le> n"
    and "length (pre @ concat (map (\<lambda>(sd, t, l). level_bytes sd (of_nat t) l) rows) @ post) < 2 ^ 64"
    and "\<And>sd t l. (sd, t, l) \<in> set rows \<Longrightarrow> is_side sd \<and> t < unat nl"
    and "unat nl < 2 ^ 31" and "length xs = 2 * unat nl"
  shows "\<exists>g'. try_iter (load_level_rec nl) (length rows) (g, xs) = Inr (g', fold (put_rec nl) rows xs) \<and>
    dec_at g' (pre @ concat (map (\<lambda>(sd, t, l). level_bytes sd (of_nat t) l) rows) @ post)
      (length pre + 25 * length rows) 25 n (k + length rows)"
  using assms
proof (induction rows arbitrary: g pre k xs)
  case Nil
  then show ?case by simp
next
  case (Cons row rows)
  obtain sd t l where row: "row = (sd, t, l)" by (cases row)
  have st: "is_side sd" "t < unat nl" using Cons.prems(4) by (auto simp: row)
  note ix = level_index [OF st Cons.prems(5)]
  let ?bytes = "\<lambda>(sd, t, l). level_bytes sd (of_nat t) l"
  let ?D = "pre @ concat (map ?bytes (row # rows)) @ post"
  obtain g1 where g1: "next_row g = Inr g1" "gd_offset g1 = length pre"
    "dec_at g1 ?D (length pre + 25) 25 n (Suc k)"
    using next_row_run [OF Cons.prems(1)] Cons.prems(2,3) by (auto simp: row)
  obtain d where d: "gd_parent g1 = Some d" "d_buf d = ?D" using g1(3) by (auto simp: dec_at_def)
  have "read_level_row g1 = Inr (if sd = 0 then 0 else 1, of_nat t, l)"
    using d g1(2) Cons.prems(3)
    by (intro read_level_row_run [of g1 d pre sd "of_nat t" l "concat (map ?bytes rows) @ post"])
      (simp_all add: row)
  moreover have "(if sd = 0 then 0 else 1) = sd" using st(1) by (auto simp: is_side_def)
  ultimately have "read_level_rec g1 = Inr (level_row sd (of_nat t) l)" by (intro read_level_rec_row) simp
  then have step: "load_level_rec nl (g, xs) = Inr (g1, put_rec nl row xs)"
    using g1(1) ix Cons.prems(6) by (simp add: load_level_rec_def Let_def idx_simps put_rec_def row)
  have D: "?D = (pre @ level_bytes sd (of_nat t) l) @ concat (map ?bytes rows) @ post"
    by (simp add: row)
  have "\<exists>g'. try_iter (load_level_rec nl) (length rows) (g1, put_rec nl row xs) =
      Inr (g', fold (put_rec nl) rows (put_rec nl row xs)) \<and>
    dec_at g' ((pre @ level_bytes sd (of_nat t) l) @ concat (map ?bytes rows) @ post)
      (length (pre @ level_bytes sd (of_nat t) l) + 25 * length rows) 25 n (Suc k + length rows)"
    by (rule Cons.IH) (use Cons.prems(2-6) g1(3) D in \<open>auto simp: put_rec_def row\<close>)
  then show ?case using step unfolding D [symmetric] by (auto simp: add.assoc)
qed

section \<open>The orders\<close>

lemma load_order_rec_row:
  assumes "next_row g = Inr g1" and "read_order_row g1 = Inr (slot, ord)"
    and "orders \<noteq> [] \<Longrightarrow> fst (last orders) < row_of slot"
  shows "load_order_rec (g, orders, ids) = Inr (Inr (g1, orders @ [(row_of slot, ord)], ids(order_id ord \<mapsto> row_of slot)))"
proof -
  have "(orders \<noteq> [] \<and> row_of slot \<le> fst (last orders)) = False" using assms(3) by (auto simp: not_le)
  then show ?thesis
    using assms(1,2) by (auto simp: read_order_row_def) (simp_all add: load_order_rec_def Let_def)
qed

definition add_id :: "nat \<times> order \<Rightarrow> (i64 \<rightharpoonup> u64) \<Rightarrow> (i64 \<rightharpoonup> u64)" where
  "add_id = (\<lambda>(s, ord) m. m(order_id ord \<mapsto> row_of (of_nat s)))"

lemma load_order_recs_run:
  assumes "dec_at g (pre @ concat (map (\<lambda>(s, ord). order_bytes s ord) rows) @ post) (length pre) 45 n k"
    and "k + length rows \<le> n"
    and "length (pre @ concat (map (\<lambda>(s, ord). order_bytes s ord) rows) @ post) < 2 ^ 64"
    and "\<And>s ord. (s, ord) \<in> set rows \<Longrightarrow> is_side (side ord) \<and> s < 2 ^ 32 \<and>
      (orders \<noteq> [] \<longrightarrow> fst (last orders) < row_of (of_nat s))"
    and "sorted_wrt (<) (map fst rows)"
  shows "\<exists>g'. iter_result load_order_rec (length rows) (g, orders, ids) =
    Inr (Inr (g', orders @ map (\<lambda>(s, ord). (row_of (of_nat s), ord)) rows, fold add_id rows ids))"
  using assms
proof (induction rows arbitrary: g pre k orders ids)
  case Nil
  then show ?case by simp
next
  case (Cons row rows)
  obtain s ord where row: "row = (s, ord)" by (cases row)
  have st: "is_side (side ord)" "s < 2 ^ 32" "orders \<noteq> [] \<Longrightarrow> fst (last orders) < row_of (of_nat s)"
    using Cons.prems(4) by (auto simp: row)
  let ?bytes = "\<lambda>(s, ord). order_bytes s ord"
  let ?D = "pre @ concat (map ?bytes (row # rows)) @ post"
  obtain g1 where g1: "next_row g = Inr g1" "gd_offset g1 = length pre"
    "dec_at g1 ?D (length pre + 45) 45 n (Suc k)"
    using next_row_run [OF Cons.prems(1)] Cons.prems(2,3) by (auto simp: row)
  obtain d where d: "gd_parent g1 = Some d" "d_buf d = ?D" using g1(3) by (auto simp: dec_at_def)
  have "read_order_row g1 = Inr (of_nat s, ord)"
    using d g1(2) Cons.prems(3) st(1)
    by (intro read_order_row_run [of g1 d pre s ord "concat (map ?bytes rows) @ post"])
      (simp_all add: row)
  from load_order_rec_row [OF g1(1) this st(3)]
  have step: "load_order_rec (g, orders, ids) =
      Inr (Inr (g1, orders @ [(row_of (of_nat s), ord)], add_id row ids))" by (simp add: add_id_def row)
  have D: "?D = (pre @ order_bytes s ord) @ concat (map ?bytes rows) @ post" by (simp add: row)
  have later: "row_of (of_nat s) < row_of (of_nat s' :: u32)" if "(s', ord') \<in> set rows" for s' ord'
  proof -
    have "s < s'" "s' < 2 ^ 32" using Cons.prems(4,5) that by (auto simp: row)
    moreover from this have "unat (of_nat s :: u32) = s" "unat (of_nat s' :: u32) = s'"
      by (simp_all add: unat_of_nat_u32)
    ultimately show ?thesis by (simp add: word_less_nat_alt unat_row_of del: unat_of_nat)
  qed
  have "\<exists>g'. iter_result load_order_rec (length rows) (g1, orders @ [(row_of (of_nat s), ord)], add_id row ids) =
      Inr (Inr (g', (orders @ [(row_of (of_nat s), ord)]) @ map (\<lambda>(s, ord). (row_of (of_nat s), ord)) rows,
        fold add_id rows (add_id row ids)))"
    by (rule Cons.IH [of _ "pre @ order_bytes s ord" "Suc k"])
      (use Cons.prems(2-5) g1(3) D later in \<open>auto simp: row\<close>)
  then show ?case using step by (simp add: row)
qed

section \<open>The lists of the bulk load\<close>

text \<open>The levels read, over the empty ones, are the listing of the levels table.\<close>

definition level_list :: "book \<Rightarrow> (u64 \<times> level_rec) list" where
  "level_list b = map (\<lambda>(sd, t). (level_id (n_levels b) sd (of_nat t), level_row sd (of_nat t) (lane b sd ! t)))
     (level_keys (n_levels b))"

lemma level_list_at:
  assumes "is_side sd" "t < unat (n_levels b)"
  shows "level_list b ! (unat sd * unat (n_levels b) + t) =
    (level_id (n_levels b) sd (of_nat t), level_row sd (of_nat t) (lane b sd ! t))"
  using assms by (auto simp: level_list_def level_keys_def is_side_def nth_append)

lemma length_level_list [simp]: "length (level_list b) = 2 * unat (n_levels b)"
  by (simp add: level_list_def level_keys_def)

lemma empty_rows_at:
  assumes "is_side sd" "t < unat nl" "unat nl < 2 ^ 31"
  shows "empty_rows nl ! (unat sd * unat nl + t) = (level_id nl sd (of_nat t), empty_level_rec sd (of_nat t))"
proof -
  note ix = level_index [OF assms]
  have "(unat sd * unat nl + t) div unat nl = unat sd" "(unat sd * unat nl + t) mod unat nl = t"
    using assms(1,2) by (auto simp: is_side_def)
  moreover have "of_nat (unat sd * unat nl + t) + 1 = level_id nl sd (of_nat t)"
  proof -
    have "(of_nat (unat sd * unat nl + t) :: u64) = level_id nl sd (of_nat t) - 1"
      by (simp only: ix(1) [symmetric]) simp
    then show ?thesis by simp
  qed
  ultimately show ?thesis using ix(2) by (simp add: empty_rows_def)
qed

lemma rebuilt_levels:
  assumes inv: "core_inv b Q F"
  shows "fold (put_rec (n_levels b)) (level_rows b) (empty_rows (n_levels b)) = level_list b"
proof -
  let ?n = "unat (n_levels b)"
  have nl: "?n < 2 ^ 31" using inv by (simp add: core_inv_def geometry_ok_def)
  let ?rows = "map (\<lambda>(sd, t, l). (unat sd * ?n + t, level_id (n_levels b) sd (of_nat t), level_row sd (of_nat t) l)) (level_rows b)"
  have conv: "fold (put_rec (n_levels b)) rows xs = fold (\<lambda>(i, x) xs. xs[i := x])
      (map (\<lambda>(sd, t, l). (unat sd * ?n + t, level_id (n_levels b) sd (of_nat t), level_row sd (of_nat t) l)) rows) xs" for rows xs
    by (induction rows arbitrary: xs) (auto simp: put_rec_def)
  have len: "length (lane b sd) = ?n" if "is_side sd" for sd by (rule core_inv_lane_length [OF inv that])
  have mem: "(sd, t, l) \<in> set (level_rows b) \<longleftrightarrow> is_side sd \<and> t < ?n \<and> l = lane b sd ! t \<and> head l \<noteq> NIL" for sd t l
    using len [of 0] len [of 1]
    by (auto simp: level_rows_def occupied_def in_set_enumerate_eq is_side_def lane_def)
  have f: "length (fold (\<lambda>(i, x) xs. xs[i := x]) ?rows (empty_rows (n_levels b))) = length (level_list b) \<and>
    (\<forall>i < length (level_list b). fold (\<lambda>(i, x) xs. xs[i := x]) ?rows (empty_rows (n_levels b)) ! i =
      (if i \<in> fst ` set ?rows then level_list b ! i else empty_rows (n_levels b) ! i))"
    by (rule fold_updates) (use mem level_list_at in \<open>auto simp: empty_rows_def\<close>)
  show ?thesis
    unfolding conv
  proof (rule nth_equalityI)
    show "length (fold (\<lambda>(i, x) xs. xs[i := x]) ?rows (empty_rows (n_levels b))) = length (level_list b)" using f by blast
    fix i
    assume "i < length (fold (\<lambda>(i, x) xs. xs[i := x]) ?rows (empty_rows (n_levels b)))"
    then have i: "i < 2 * ?n" using f by simp
    obtain sd :: u8 and t where st: "is_side sd" "t < ?n" "i = unat sd * ?n + t"
    proof (cases "i < ?n")
      case True
      then show ?thesis using that [of 0 i] by simp
    next
      case False
      then show ?thesis using that [of 1 "i - ?n"] i by simp
    qed
    show "fold (\<lambda>(i, x) xs. xs[i := x]) ?rows (empty_rows (n_levels b)) ! i = level_list b ! i"
    proof (cases "head (lane b sd ! t) = NIL")
      case False
      then have "i \<in> fst ` set ?rows" using mem [of sd t "lane b sd ! t"] st by force
      then show ?thesis using f i by simp
    next
      case True
      have fo: "fifo_ok (pool b) (lane b sd ! t) (Q sd t)" by (rule core_inv_fifo [OF inv st(1,2)])
      then have "Q sd t = []" using fifo_ok_head True by blast
      with fo have "lane b sd ! t = empty_level" by (simp add: fifo_ok_empty)
      then have "empty_rows (n_levels b) ! i = level_list b ! i"
        using empty_rows_at [OF st(1,2) nl] level_list_at [OF st(1,2)] by (simp add: st(3) level_row_empty)
      then show ?thesis using f i by simp
    qed
  qed
qed

text \<open>A listing loads as the table it lists.\<close>

lemma listing_loads:
  assumes "finite (dom m)"
  shows "loaded counter (rows_in_order m) = Some \<lparr>t_rows = m, t_next = counter (rows_in_order m)\<rparr>"
proof -
  have "map fst (rows_in_order m) = sorted_list_of_set (dom m)" by (simp add: rows_in_order_def comp_def)
  moreover have "map_of (rows_in_order m) = m"
    using assms by (auto simp: rows_in_order_def map_of_map_restrict restrict_map_def fun_eq_iff dom_def)
  ultimately show ?thesis by (simp add: loaded_def)
qed

text \<open>The ids read are those of the book.\<close>

lemma fold_add_id:
  assumes "inj_on (\<lambda>(s, ord). order_id ord) (set rows)"
  shows "fold add_id rows Map.empty i = Some v \<longleftrightarrow> (\<exists>(s, ord)\<in>set rows. order_id ord = i \<and> row_of (of_nat s) = v)"
  using assms
proof (induction rows rule: rev_induct)
  case Nil
  then show ?case by simp
next
  case (snoc x rows)
  obtain s ord where x: "x = (s, ord)" by (cases x)
  have inj: "inj_on (\<lambda>(s, ord). order_id ord) (set rows)" using snoc.prems by (simp add: inj_on_def)
  have "order_id ord' = order_id ord \<Longrightarrow> (s', ord') = x" if "(s', ord') \<in> set rows" for s' ord'
    using snoc.prems that by (auto simp: inj_on_def x)
  then show ?case using snoc.IH [OF inj] by (auto simp: add_id_def x)
qed

definition live_rows_of :: "book \<Rightarrow> (nat \<times> order) list" where
  "live_rows_of b = map (\<lambda>i. (i, pool b ! i)) (live_slots b)"

lemma rebuilt_ids:
  assumes inv: "core_inv b Q F"
  shows "fold add_id (live_rows_of b) Map.empty = map_option row_of \<circ> idmap b"
proof
  fix i
  have same: "j = k" if "j \<in> set (live_slots b)" "k \<in> set (live_slots b)" "order_id (pool b ! j) = order_id (pool b ! k)" for j k
  proof -
    note j = live_slot_u32 [OF that(1)] and k = live_slot_u32 [OF that(2)]
    have "idmap b (order_id (pool b ! j)) = Some (of_nat j)" "idmap b (order_id (pool b ! j)) = Some (of_nat k)"
      unfolding core_inv_id [OF inv] using j k that(3) by (simp_all del: unat_of_nat)
    then show ?thesis using j(1) k(1) by (metis option.inject)
  qed
  then have inj: "inj_on (\<lambda>(s, ord). order_id ord) (set (live_rows_of b))"
    by (auto simp: inj_on_def live_rows_of_def)
  have "fold add_id (live_rows_of b) Map.empty i = Some v \<longleftrightarrow> (map_option row_of \<circ> idmap b) i = Some v" for v
  proof -
    have "fold add_id (live_rows_of b) Map.empty i = Some v \<longleftrightarrow>
        (\<exists>j\<in>set (live_slots b). order_id (pool b ! j) = i \<and> row_of (of_nat j) = v)"
      unfolding fold_add_id [OF inj] by (auto simp: live_rows_of_def)
    also have "\<dots> \<longleftrightarrow> (\<exists>s. used_slot b s \<and> order_id (order_at (pool b) s) = i \<and> row_of s = v)"
    proof
      assume "\<exists>j\<in>set (live_slots b). order_id (pool b ! j) = i \<and> row_of (of_nat j) = v"
      then obtain j where j: "j \<in> set (live_slots b)" "order_id (pool b ! j) = i" "row_of (of_nat j) = v" by blast
      then show "\<exists>s. used_slot b s \<and> order_id (order_at (pool b) s) = i \<and> row_of s = v"
        using live_slot_u32 [OF j(1)] by (intro exI [of _ "of_nat j"]) (simp del: unat_of_nat)
    next
      assume "\<exists>s. used_slot b s \<and> order_id (order_at (pool b) s) = i \<and> row_of s = v"
      then obtain s where "used_slot b s" "order_id (order_at (pool b) s) = i" "row_of s = v" by blast
      then show "\<exists>j\<in>set (live_slots b). order_id (pool b ! j) = i \<and> row_of (of_nat j) = v"
        using used_live [of b s] by (intro bexI [of _ "unat s"]) simp_all
    qed
    also have "\<dots> \<longleftrightarrow> (map_option row_of \<circ> idmap b) i = Some v"
      using core_inv_id [OF inv] by auto
    finally show ?thesis .
  qed
  then show "fold add_id (live_rows_of b) Map.empty i = (map_option row_of \<circ> idmap b) i" by (metis option.exhaust)
qed

section \<open>Restoring an image\<close>

lemma db_image_root:
  "\<exists>rest. db_image cap b = header_bytes @ root_bytes (price_min b) (tick b) (n_levels b) cap (hwm b) (best_bid b)
     (best_ask b) NIL @ rest"
  by (simp add: db_image_def db_front_def)

lemma db_image_split:
  "db_image cap b = (header_bytes @ root_bytes (price_min b) (tick b) (n_levels b) cap (hwm b) (best_bid b) (best_ask b) NIL) @
    group_bytes LEVELS_BLOCK (of_nat (level_total b)) @
    concat (map (\<lambda>(sd, t, l). level_bytes sd (of_nat t) l) (level_rows b)) @
    group_bytes ORDERS_BLOCK (of_nat (length (live_slots b))) @
    concat (map (\<lambda>(s, ord). order_bytes s ord) (live_rows_of b))"
  by (simp add: db_image_def db_front_def lane_bytes_def level_rows_def live_rows_of_def comp_def case_prod_unfold)

lemma live_rows_bounds:
  assumes inv: "core_inv b Q F" and mem: "(s, ord) \<in> set (live_rows_of b)"
  shows "is_side (side ord)" and "s < 2 ^ 32"
proof -
  have s: "s \<in> set (live_slots b)" "ord = pool b ! s" using mem by (auto simp: live_rows_of_def)
  then have "s < unat (hwm b)" by (simp add: live_slots_def)
  then show "s < 2 ^ 32" using unat_u32_bound [of "hwm b"] by simp
  show "is_side (side ord)"
    using s \<open>s < unat (hwm b)\<close> inv by (auto simp: core_inv_def grid_ok_def geometry_ok_def)
qed

lemma load_db_levels:
  assumes inv: "core_inv b Q F" and len: "length (db_image cap b) < 2 ^ 64" and lv: "level_total b < 65536"
  shows "\<exists>g g'. levels_decoder (root_dec (db_image cap b)) = Inr g \<and>
    try_iter (load_level_rec (n_levels b)) (unat (gd_count g)) (g, empty_rows (n_levels b)) = Inr (g', level_list b) \<and>
    dec_at g' (db_image cap b) (52 + 25 * level_total b) 25 (level_total b) (level_total b)"
proof -
  let ?D = "db_image cap b"
  let ?root = "header_bytes @ root_bytes (price_min b) (tick b) (n_levels b) cap (hwm b) (best_bid b) (best_ask b) NIL"
  let ?pre = "?root @ group_bytes LEVELS_BLOCK (of_nat (level_total b))"
  let ?post = "group_bytes ORDERS_BLOCK (of_nat (length (live_slots b))) @
      concat (map (\<lambda>(s, ord). order_bytes s ord) (live_rows_of b))"
  have nl: "unat (n_levels b) < 2 ^ 31" using inv by (simp add: core_inv_def geometry_ok_def)
  have "\<exists>g. group_dec_wrap (root_dec ?D) = Inr g \<and> gd_count g = of_nat (level_total b) \<and>
    dec_at g (d_buf (root_dec ?D)) (length ?root + 4) (unat LEVELS_BLOCK) (unat (of_nat (level_total b) :: u16)) 0"
    by (rule group_dec_wrap_run)
      (use db_image_split [of cap b] len in \<open>simp_all add: root_dec_def bs_dec_wrap_def\<close>)
  then obtain g where g: "levels_decoder (root_dec ?D) = Inr g" "unat (gd_count g) = level_total b"
    "dec_at g ?D 52 25 (level_total b) 0"
    using unat_of_nat_u16 [OF lv] by (auto simp: levels_decoder_def root_dec_def bs_dec_wrap_def)
  have pre: "length ?pre = 52" by simp
  have D: "?pre @ concat (map (\<lambda>(sd, t, l). level_bytes sd (of_nat t) l) (level_rows b)) @ ?post = ?D"
    unfolding db_image_split by simp
  have rows: "is_side sd \<and> t < unat (n_levels b)" if "(sd, t, l) \<in> set (level_rows b)" for sd t l
    using level_rows_bounds [OF inv that] by simp
  have "length (empty_rows (n_levels b)) = 2 * unat (n_levels b)" by (simp add: empty_rows_def)
  from load_recs_run [of g ?pre "level_rows b" ?post "level_total b" 0, unfolded D pre, OF g(3) _ len rows nl this]
  show ?thesis using g(1,2) by (simp add: rebuilt_levels [OF inv])
qed

lemma load_db_orders:
  assumes inv: "core_inv b Q F" and len: "length (db_image cap b) < 2 ^ 64" and few: "length (live_slots b) < 65536"
    and at: "dec_at g (db_image cap b) (52 + 25 * level_total b) 25 n k"
    and rows: "\<And>k r. rows k = Some r \<longleftrightarrow> order_row b k r"
  shows "\<exists>d h h'. expect_sbe (group_dec_parent g) = Inr d \<and> orders_decoder d = Inr h \<and>
    iter_result load_order_rec (unat (gd_count h)) (h, [], Map.empty) =
      Inr (Inr (h', rows_in_order rows, map_option row_of \<circ> idmap b))"
proof -
  let ?D = "db_image cap b" and ?m = "length (live_slots b)"
  obtain d where d: "expect_sbe (group_dec_parent g) = Inr d" "d_buf d = ?D" "d_limit d = 52 + 25 * level_total b"
    using group_parent_at [OF at] by blast
  let ?front = "(header_bytes @ root_bytes (price_min b) (tick b) (n_levels b) cap (hwm b) (best_bid b) (best_ask b) NIL) @
    group_bytes LEVELS_BLOCK (of_nat (level_total b)) @
    concat (map (\<lambda>(sd, t, l). level_bytes sd (of_nat t) l) (level_rows b))"
  let ?pre = "?front @ group_bytes ORDERS_BLOCK (of_nat ?m)"
  have front: "length ?front = 52 + 25 * level_total b"
    using length_concat_blocks [of "level_rows b" "\<lambda>(sd, t, l). level_bytes sd (of_nat t) l" 25] by auto
  have "\<exists>h. group_dec_wrap d = Inr h \<and> gd_count h = of_nat ?m \<and>
    dec_at h (d_buf d) (length ?front + 4) (unat ORDERS_BLOCK) (unat (of_nat ?m :: u16)) 0"
    by (rule group_dec_wrap_run) (use db_image_split [of cap b] len d front in simp_all)
  then obtain h where h: "orders_decoder d = Inr h" "unat (gd_count h) = ?m" "dec_at h ?D (56 + 25 * level_total b) 45 ?m 0"
    using unat_of_nat_u16 [OF few] d(2) unfolding front by (auto simp: orders_decoder_def add.commute)
  have pre: "length ?pre = 56 + 25 * level_total b" using front by simp
  have D: "?pre @ concat (map (\<lambda>(s, ord). order_bytes s ord) (live_rows_of b)) @ [] = ?D"
    unfolding db_image_split by simp
  have bounds: "is_side (side ord) \<and> s < 2 ^ 32 \<and> (([] :: (u64 \<times> order_rec) list) \<noteq> [] \<longrightarrow> fst (last []) < row_of (of_nat s))"
    if "(s, ord) \<in> set (live_rows_of b)" for s ord
    using live_rows_bounds [OF inv that] by simp
  have sorted: "sorted_wrt (<) (map fst (live_rows_of b))"
    by (simp add: live_rows_of_def comp_def live_slots_def sorted_wrt_filter)
  have l: "length (live_rows_of b) = ?m" by (simp add: live_rows_of_def)
  have "map (\<lambda>(s, ord). (row_of (of_nat s), ord)) (live_rows_of b) = rows_in_order rows"
    unfolding orders_listed [OF rows] by (simp add: live_rows_of_def)
  then show ?thesis
    using load_order_recs_run [of h ?pre "live_rows_of b" "[]" ?m 0 "[]" Map.empty, unfolded D pre, OF h(3) _ len bounds sorted]
      h(1,2) d(1) by (auto simp: l rebuilt_ids [OF inv])
qed

lemma plain_bulk:
  "db_bulk (plain_db cl co cm bv) s = empty_txn"
  "bulk_levels (plain_db cl co cm bv) ls w = map_option (\<lambda>t. w\<lparr>tx_levels := Some t\<rparr>) (loaded cl ls)"
  "bulk_orders (plain_db cl co cm bv) os w = map_option (\<lambda>t. w\<lparr>tx_orders := Some t\<rparr>) (loaded co os)"
  "bulk_meta (plain_db cl co cm bv) ms w = map_option (\<lambda>t. w\<lparr>tx_meta := Some t\<rparr>) (loaded cm ms)"
  "bulk_commit (plain_db cl co cm bv) w s = Some (bv s, commit_txn (w\<lparr>tx_version := bv s\<rparr>) s)"
  by (simp_all add: plain_db_def Let_def)

lemma one_row_loads: "loaded counter [(k, r)] = Some \<lparr>t_rows = [k \<mapsto> r], t_next = counter [(k, r)]\<rparr>"
  by (simp add: loaded_def)

lemma restore_ultima_run:
  assumes inv: "book_inv b Q F" and few: "length (live_slots b) < 65536" and len: "length (db_image cap b) + 4 < 2 ^ 64"
    and sh: "tables_show cap b L R M" and cfg: "cfg_levels cfg = n_levels b"
  shows "\<exists>U w L' R' M'. restore_ultima (plain_db cl co cm bv) crc
      (db_image cap b @ le_bytes 4 (unat (crc (db_image cap b)))) cfg = Inr (Inr U) \<and>
    sv_at (ub_store U) (ub_version U) = Some w \<and> tx_levels w = Some L' \<and> tx_orders w = Some R' \<and>
    tx_meta w = Some M' \<and> t_rows L' = t_rows L \<and> t_rows R' = t_rows R \<and> t_rows M' = t_rows M \<and>
    ub_ids U = map_option row_of \<circ> idmap b \<and> ub_price_min U = cfg_price_min cfg \<and> ub_tick U = cfg_tick cfg \<and>
    ub_n_levels U = cfg_levels cfg"
proof -
  let ?D = "db_image cap b" and ?db = "plain_db cl co cm bv"
  note core = book_inv_core [OF inv]
  have nl: "unat (n_levels b) < 2 ^ 31" using core by (simp add: core_inv_def geometry_ok_def)
  have lvl: "t_rows L k = Some r \<longleftrightarrow> level_at b k r" and row: "t_rows R k = Some r' \<longleftrightarrow> order_row b k r'"
    and meta: "t_rows M = [1 \<mapsto> meta_row cap b]" for k r r'
    using sh by (simp_all add: tables_show_def)
  have fin: "finite (dom (t_rows L))" "finite (dom (t_rows R))" by simp_all
  have lv: "level_total b < 65536"
    using level_total_live [OF core] few by (simp add: live_slots_def)
  have Dlen: "length ?D < 2 ^ 64" using len by simp
  obtain rest where D: "?D = header_bytes @ root_bytes (price_min b) (tick b) (n_levels b) cap (hwm b) (best_bid b)
      (best_ask b) NIL @ rest" using db_image_root by blast
  note hdr = header_reads(2) [of "root_bytes (price_min b) (tick b) (n_levels b) cap (hwm b) (best_bid b)
      (best_ask b) NIL @ rest", folded D, OF Dlen]
  note root = root_reads [OF D Dlen]
  obtain g g1 where g: "levels_decoder (root_dec ?D) = Inr g"
    "try_iter (load_level_rec (n_levels b)) (unat (gd_count g)) (g, empty_rows (n_levels b)) = Inr (g1, level_list b)"
    "dec_at g1 ?D (52 + 25 * level_total b) 25 (level_total b) (level_total b)"
    using load_db_levels [OF core Dlen lv] by blast
  obtain d h h1 where h: "expect_sbe (group_dec_parent g1) = Inr d" "orders_decoder d = Inr h"
    "iter_result load_order_rec (unat (gd_count h)) (h, [], Map.empty) =
      Inr (Inr (h1, rows_in_order (t_rows R), map_option row_of \<circ> idmap b))"
    using load_db_orders [OF core Dlen few g(3) row] by blast
  have want: "(of_nat (le_value (le_bytes 4 (unat (crc ?D)))) :: u32) = crc ?D" by (rule of_nat_le_value_u32)
  have levels: "level_list b = rows_in_order (t_rows L)"
    unfolding level_list_def by (rule levels_listed [OF nl lvl, symmetric])
  let ?s = "\<lparr>sv_current = 0, sv_at = [0 \<mapsto> empty_txn], sv_pinned = {}\<rparr>"
  let ?m = "meta_row cap b"
  let ?w = "empty_txn\<lparr>tx_levels := Some \<lparr>t_rows = t_rows L, t_next = cl (rows_in_order (t_rows L))\<rparr>,
    tx_orders := Some \<lparr>t_rows = t_rows R, t_next = co (rows_in_order (t_rows R))\<rparr>,
    tx_meta := Some \<lparr>t_rows = [1 \<mapsto> ?m], t_next = cm [(1, ?m)]\<rparr>, tx_version := bv ?s\<rparr>"
  let ?New = "\<lparr>ub_store = ?s, ub_version = 0, ub_price_min = cfg_price_min cfg, ub_tick = cfg_tick cfg,
    ub_n_levels = cfg_levels cfg, ub_ids = map_option row_of \<circ> idmap b\<rparr>"
  let ?U = "?New\<lparr>ub_store := commit_txn ?w ?s, ub_version := bv ?s\<rparr>"
  have m: "\<lparr>mr_price_min = price_min b, mr_tick = tick b, mr_n_levels = n_levels b, mr_capacity = cap, mr_hwm = hwm b,
      mr_best_bid = best_bid b, mr_best_ask = best_ask b\<rparr> = ?m" by (simp add: meta_row_def)
  have new: "ultima_empty ?db cfg = Inr (?New\<lparr>ub_ids := Map.empty\<rparr>)" by (simp add: ultima_empty_def plain_db_def)
  have bulk: "bulk_install ?db (level_list b) (rows_in_order (t_rows R)) ?m ?New = Inr ?U"
    unfolding levels bulk_install_def
    by (simp add: plain_bulk listing_loads [OF fin(1)] listing_loads [OF fin(2)] one_row_loads)
  have "restore_ultima ?db crc (?D @ le_bytes 4 (unat (crc ?D))) cfg = Inr (Inr ?U)"
    using bulk
    by (simp add: restore_ultima_def Let_def want hdr root cfg new g(1,2) h m)
  then show ?thesis
    by (intro exI [of _ ?U] exI [of _ ?w]) (simp add: commit_txn_def meta)
qed

lemma then_result:
  "(case r of Inl e \<Rightarrow> Inr (Inl e) | Inr (x, y, z) \<Rightarrow> Inr (f x y z)) = Inr (Inr s) \<longleftrightarrow>
   (\<exists>x y z. r = Inr (x, y, z) \<and> f x y z = Inr s)"
  by (auto split: sum.splits prod.splits)

lemma restore_ultima_sim:
  assumes R: "refines_db V db db'" and run: "restore_ultima db' crc bytes cfg = Inr (Inr U')"
  shows "\<exists>U. restore_ultima db crc bytes cfg = Inr (Inr U) \<and> show_book (of_store V) U = U'"
proof -
  let ?body = "take (length bytes - 4) bytes"
  obtain dec pmin tk nl cap hw bb ba N lg lg' levels dec' og og' orders ids where
    r: "\<not> length bytes < 4" "crc ?body = of_nat (le_value (drop (length bytes - 4) bytes))"
      "bs_dec_header (hd_wrap ?body 0) 0 = Inr dec" "ds_price_min dec = Inr pmin" "ds_tick_size dec = Inr tk"
      "ds_nl_evels dec = Inr nl" "ds_capacity dec = Inr cap" "ds_hwm dec = Inr hw" "ds_best_bid dec = Inr bb"
      "ds_best_ask dec = Inr ba" "nl = cfg_levels cfg" "levels_decoder dec = Inr lg"
      "try_iter (load_level_rec nl) (unat (gd_count lg)) (lg, empty_rows nl) = Inr (lg', levels)"
      "expect_sbe (group_dec_parent lg') = Inr dec'" "orders_decoder dec' = Inr og"
    and new: "ultima_empty db' cfg = Inr N"
    and ids: "iter_result load_order_rec (unat (gd_count og)) (og, [], ub_ids N) = Inr (Inr (og', orders, ids))"
    and bulk: "bulk_install db' levels orders \<lparr>mr_price_min = pmin, mr_tick = tk, mr_n_levels = nl, mr_capacity = cap,
        mr_hwm = hw, mr_best_bid = bb, mr_best_ask = ba\<rparr> (N\<lparr>ub_ids := ids\<rparr>) = Inr U'"
    using run by (auto simp: restore_ultima_def Let_def then_result split: if_splits)
  have "sim_run (show_book (of_store V)) (ultima_empty db cfg) (ultima_empty db' cfg)"
    unfolding ultima_empty_def by (intro sim_then [OF sim_new [OF R]] sim_InrI) (simp add: show_book_def)
  then obtain N1 where N1: "ultima_empty db cfg = Inr N1" "show_book (of_store V) N1 = N"
    using new by (auto simp: sim_run_def)
  have ids': "ub_ids N1 = ub_ids N" using arg_cong [OF N1(2), of ub_ids] by simp
  have "show_book (of_store V) (N1\<lparr>ub_ids := ids\<rparr>) = N\<lparr>ub_ids := ids\<rparr>" using N1(2) by simp
  then obtain U where "bulk_install db levels orders \<lparr>mr_price_min = pmin, mr_tick = tk, mr_n_levels = nl,
      mr_capacity = cap, mr_hwm = hw, mr_best_bid = bb, mr_best_ask = ba\<rparr> (N1\<lparr>ub_ids := ids\<rparr>) = Inr U"
    "show_book (of_store V) U = U'"
    using bulk_install_sim [OF R, of levels orders _ "N1\<lparr>ub_ids := ids\<rparr>" U'] bulk by metis
  then show ?thesis
    using r N1(1) ids ids' by (simp add: restore_ultima_def Let_def)
qed

end
