(* ===== verification/Ultima_Theorems.thy ===== *)
theory Ultima_Theorems
  imports Ultima_Round Demo
begin

text \<open>The book on the database and the flat book agree, at the latest version and at pinned ones.\<close>

section \<open>Runs from a new book\<close>

definition ultima_run :: "('s, 'w, 'v, 'b) ultima_db \<Rightarrow> smr_config \<Rightarrow> ultima_op list \<Rightarrow> panic + 's ultima_book" where
  "ultima_run db cfg ops = and_then (ultima_new db cfg) (try_fold (ultima_do db) ops)"

definition grid_of :: "smr_config \<Rightarrow> geometry" where
  "grid_of cfg = \<lparr>g_price_min = cfg_price_min cfg, g_tick = cfg_tick cfg, g_levels = cfg_levels cfg,
     g_capacity = cfg_cap cfg\<rparr>"

definition queues_after :: "smr_config \<Rightarrow> cow_cmd list \<Rightarrow> ladder" where
  "queues_after cfg cmds = fold (spec_cmd (grid_of cfg)) cmds (\<lambda>_ _. [])"

text \<open>What every run from a new book must keep to: commands the queues accept, and slot handles and
  versions that do not wrap around.\<close>

definition ultima_ok :: "smr_config \<Rightarrow> ultima_op list \<Rightarrow> bool" where
  "ultima_ok cfg ops \<longleftrightarrow>
     unat (cfg_levels cfg) < 2 ^ 31 \<and> cmds_ok (grid_of cfg) (\<lambda>_ _. []) (all_cmds ops) \<and>
     inserts (all_cmds ops) \<le> 4294967295 \<and> length ops + 1 < 2 ^ 64"

text \<open>The capacity of the pool plays no part in what the queues accept.\<close>

lemma capacity_aside:
  "spec_cmd (g\<lparr>g_capacity := c\<rparr>) = spec_cmd g" "cmds_ok (g\<lparr>g_capacity := c\<rparr>) L cmds = cmds_ok g L cmds"
proof -
  show eq: "spec_cmd (g\<lparr>g_capacity := c\<rparr>) = spec_cmd g"
    by (simp add: fun_eq_iff spec_cmd_def split: cow_cmd.split)
  have "cmd_ok (g\<lparr>g_capacity := c\<rparr>) L cmd = cmd_ok g L cmd" for L cmd
    by (simp add: cmd_ok_def accepts_def split: cow_cmd.split)
  then show "cmds_ok (g\<lparr>g_capacity := c\<rparr>) L cmds = cmds_ok g L cmds"
    by (induction cmds arbitrary: L) (simp_all add: eq)
qed

lemma geom_new: "geom_of (endless_new cfg) = (grid_of cfg)\<lparr>g_capacity := 4294967295\<rparr>" "geom_of (book_new cfg) = grid_of cfg"
  by (simp_all add: geom_of_def grid_of_def endless_new_def book_new_def)

lemma ultima_ok_append: "ultima_ok cfg (ops @ ops') \<Longrightarrow> ultima_ok cfg ops"
  by (simp add: ultima_ok_def cmds_ok_append)

lemma plain_run:
  assumes ok: "ultima_ok cfg ops"
  obtains U b where "ultima_run (plain_db cl co cm bv) cfg ops = Inr U" "store_shows (of_nat (cfg_cap cfg)) b U"
    "unat (ub_version U) \<le> 1 + length ops" "ladder_of b = queues_after cfg (all_cmds ops)" "n_levels b = cfg_levels cfg"
    "geom_of b = (grid_of cfg)\<lparr>g_capacity := 4294967295\<rparr>" "unat (hwm b) = inserts (all_cmds ops)"
proof -
  have nl: "unat (cfg_levels cfg) < 2 ^ 31" using ok by (simp add: ultima_ok_def)
  obtain U0 where U0: "ultima_new (plain_db cl co cm bv) cfg = Inr U0"
    "store_shows (of_nat (cfg_cap cfg)) (endless_new cfg) U0" "ub_version U0 = 1"
    using ultima_new_run [OF nl] by blast
  have 1: "unat (ub_version U0) + length ops < 2 ^ 64"
    "cmds_ok (geom_of (endless_new cfg)) (ladder_of (endless_new cfg)) (all_cmds ops)"
    "unat (hwm (endless_new cfg)) + inserts (all_cmds ops) \<le> 4294967295"
    using ok U0(3)
    by (simp_all add: ultima_ok_def endless_new_ladder [OF nl] geom_new capacity_aside
      endless_new_simps)
  obtain U b where U: "try_fold (ultima_do (plain_db cl co cm bv)) ops U0 = Inr U"
    "store_shows (of_nat (cfg_cap cfg)) b U" "unat (ub_version U) \<le> unat (ub_version U0) + length ops"
    "ladder_of b = fold (spec_cmd (geom_of (endless_new cfg))) (all_cmds ops) (ladder_of (endless_new cfg))"
    "geom_of b = geom_of (endless_new cfg)" "unat (hwm b) = unat (hwm (endless_new cfg)) + inserts (all_cmds ops)"
    using ultima_dos_run [OF U0(2) 1, of cl co cm bv] by blast
  have "n_levels b = cfg_levels cfg"
    using arg_cong [OF U(5), of g_levels] by (simp add: geom_of_def endless_new_simps)
  moreover have "ladder_of b = queues_after cfg (all_cmds ops)"
    using U(4) by (simp add: queues_after_def geom_new capacity_aside endless_new_ladder [OF nl])
  ultimately show thesis
    using that U U0 by (simp add: ultima_run_def endless_new_simps geom_new)
qed

lemma shown_digest:
  assumes st: "store_shows cap b U" and some: "hwm b \<noteq> 0"
  shows "digest_ultima (plain_db cl co cm bv) (ub_store U) (ub_version U) =
    Some (Inr (spec_digest (unat (n_levels b)) (ladder_of b)))"
proof -
  obtain w where w: "sv_at (ub_store U) (ub_version U) = Some w" "on_book cap b U w"
    using st by (auto simp: store_shows_def)
  then have "tx_orders w \<noteq> None" using some by (simp add: on_book_def)
  then show ?thesis by (rule digest_plain [OF w(2) _ w(1)])
qed

lemma pin_run:
  assumes st: "store_shows cap b U"
  shows "\<exists>U'. pin_current (plain_db cl co cm bv) U = Inr (ub_version U, U') \<and> store_shows cap b U' \<and>
    ub_version U' = ub_version U \<and> ub_version U \<in> sv_pinned (ub_store U')"
  using st by (intro exI [of _ "U\<lparr>ub_store := (ub_store U)\<lparr>sv_pinned := insert (ub_version U) (sv_pinned (ub_store U))\<rparr>\<rparr>"])
    (auto simp: pin_current_def plain_db_def store_shows_def)

text \<open>A run on a lawful database, from the one on \<open>plain_db\<close>.\<close>

lemma ultima_run_sim:
  assumes "refines_db V db db'"
  shows "sim_run (show_book (of_store V)) (ultima_run db cfg ops) (ultima_run db' cfg ops)"
  unfolding ultima_run_def
  by (intro sim_then [OF ultima_new_sim [OF assms]] sim_fold ultima_do_sim [OF assms])

lemma flat_run:
  assumes "unat (cfg_levels cfg) < 2 ^ 31" "cfg_cap cfg < 4294967296"
    and "cmds_ok (grid_of cfg) (\<lambda>_ _. []) cmds" and "try_fold flat_exec cmds (book_new cfg) = Inr b"
  shows "digest_book b = Some (Inr (spec_digest (unat (cfg_levels cfg)) (queues_after cfg cmds)))"
proof -
  have inv: "book_inv (book_new cfg) (\<lambda>_ _. []) []" by (rule book_inv_new) (use assms in simp_all)
  have new: "ladder_of (book_new cfg) = (\<lambda>_ _. [])"
    using ladder_of_eqI [OF book_inv_core [OF inv] refl, of "\<lambda>_ _. []"] by simp
  have "wf_book b \<and> ladder_of b = queues_after cfg cmds \<and> geom_of b = grid_of cfg"
    using flat_execs_run [of "book_new cfg" cmds b] inv assms(3,4)
    by (auto simp: wf_book_def geom_new new queues_after_def)
  then show ?thesis using digest_book_run by (auto simp: wf_book_def geom_of_def grid_of_def)
qed


section \<open>The properties\<close>

text \<open>C25: whatever commands a new book on the database is given, one transaction each or batched, with the
  tables opened once per batch or once per operation, it takes them all, and the digest of its
  latest version is the digest of the queues after those commands; it is the digest of the flat book
  run by the same commands one by one, whenever the flat book has room for them.\<close>

theorem ultima_digest_agrees:
  assumes db: "lawful V db" and ok: "ultima_ok cfg ops" and some: "0 < inserts (all_cmds ops)"
  shows "\<exists>U. ultima_run db cfg ops = Inr U \<and>
    digest_ultima db (ub_store U) (ub_version U) =
      Some (Inr (spec_digest (unat (cfg_levels cfg)) (queues_after cfg (all_cmds ops)))) \<and>
    (\<forall>b. cfg_cap cfg < 2 ^ 32 \<longrightarrow> try_fold flat_exec (all_cmds ops) (book_new cfg) = Inr b \<longrightarrow>
      digest_book b = digest_ultima db (ub_store U) (ub_version U))"
proof -
  obtain cl co cm bv where R: "refines_db V db (plain_db cl co cm bv)" using db by (auto simp: lawful_def)
  obtain U' b' where U': "ultima_run (plain_db cl co cm bv) cfg ops = Inr U'"
    "store_shows (of_nat (cfg_cap cfg)) b' U'" "ladder_of b' = queues_after cfg (all_cmds ops)"
    "n_levels b' = cfg_levels cfg" "unat (hwm b') = inserts (all_cmds ops)"
    by (rule plain_run [OF ok])
  obtain U where U: "ultima_run db cfg ops = Inr U" "show_book (of_store V) U = U'"
    using ultima_run_sim [OF R, of cfg ops] U'(1) by (auto simp: sim_run_def)
  have "hwm b' \<noteq> 0" using U'(5) some by auto
  from digest_ultima_sim [OF R, of "ub_store U" "ub_version U"] shown_digest [OF U'(2) this, of cl co cm bv] U(2)
  have "digest_ultima db (ub_store U) (ub_version U) =
      Some (Inr (spec_digest (unat (cfg_levels cfg)) (queues_after cfg (all_cmds ops))))"
    by (auto simp: U'(3,4))
  then show ?thesis using U(1) flat_run ok by (auto simp: ultima_ok_def)
qed

text \<open>C26: a version pinned between two such runs keeps its digest, the digest of the queues when it
  was pinned, whatever is done to the book afterwards.\<close>

theorem ultima_pin_frozen:
  assumes db: "lawful V db" and ok: "ultima_ok cfg (ops @ [Single Cmd_capture] @ later)"
    and some: "0 < inserts (all_cmds ops)"
  shows "\<exists>U version U1 U2. ultima_run db cfg ops = Inr U \<and> pin_current db U = Inr (version, U1) \<and>
    try_fold (ultima_do db) later U1 = Inr U2 \<and>
    digest_ultima db (ub_store U2) version =
      Some (Inr (spec_digest (unat (cfg_levels cfg)) (queues_after cfg (all_cmds ops))))"
proof -
  obtain cl co cm bv where R: "refines_db V db (plain_db cl co cm bv)" using db by (auto simp: lawful_def)
  let ?db = "plain_db cl co cm bv"
  obtain U' b where U': "ultima_run ?db cfg ops = Inr U'" "store_shows (of_nat (cfg_cap cfg)) b U'"
    "unat (ub_version U') \<le> 1 + length ops" "ladder_of b = queues_after cfg (all_cmds ops)"
    "n_levels b = cfg_levels cfg" "geom_of b = (grid_of cfg)\<lparr>g_capacity := 4294967295\<rparr>"
    "unat (hwm b) = inserts (all_cmds ops)"
    by (rule plain_run [OF ultima_ok_append [OF ok]])
  obtain U1' where U1': "pin_current ?db U' = Inr (ub_version U', U1')" "store_shows (of_nat (cfg_cap cfg)) b U1'"
    "ub_version U1' = ub_version U'" "ub_version U' \<in> sv_pinned (ub_store U1')"
    using pin_run [OF U'(2)] by blast
  have "unat (ub_version U1') + length later < 2 ^ 64" "unat (hwm b) + inserts (all_cmds later) \<le> 4294967295"
    "cmds_ok (geom_of b) (ladder_of b) (all_cmds later)"
    using ok U'(3) by (simp_all add: ultima_ok_def cmds_ok_append U1'(3) U'(4,6,7) capacity_aside queues_after_def
        is_insert_def spec_cmd_def)
  then obtain U2' b2 where U2': "try_fold (ultima_do ?db) later U1' = Inr U2'" "keeps_pins U1' U2'"
    using ultima_dos_run [OF U1'(2), of later cl co cm bv] by blast
  obtain U where U: "ultima_run db cfg ops = Inr U" "show_book (of_store V) U = U'"
    using ultima_run_sim [OF R, of cfg ops] U'(1) by (auto simp: sim_run_def)
  obtain U1 where U1: "pin_current db U = Inr (ub_version U', U1)" "show_book (of_store V) U1 = U1'"
    using pin_current_sim [OF R, of U] U1'(1) U(2) by (auto simp: sim_run_def)
  obtain U2 where U2: "try_fold (ultima_do db) later U1 = Inr U2" "show_book (of_store V) U2 = U2'"
    using sim_fold [of "show_book (of_store V)" "ultima_do db" "ultima_do ?db" later U1] ultima_do_sim [OF R] U2'(1) U1(2)
    by (auto simp: sim_run_def)
  obtain w where w: "sv_at (ub_store U1') (ub_version U') = Some w" "on_book (of_nat (cfg_cap cfg)) b U1' w"
    using U1'(2,3) by (auto simp: store_shows_def)
  have "hwm b \<noteq> 0" using U'(7) some by auto
  then have ords: "tx_orders w \<noteq> None" using w(2) by (simp add: on_book_def)
  have "sv_at (of_store V (ub_store U2)) (ub_version U') = Some w"
    using U2'(2) U1'(4) w(1) U2(2) by (auto simp: keeps_pins_def)
  from digest_ultima_sim [OF R digest_plain [OF w(2) ords this]]
  have "digest_ultima db (ub_store U2) (ub_version U') =
      Some (Inr (spec_digest (unat (cfg_levels cfg)) (queues_after cfg (all_cmds ops))))"
    by (simp add: U'(4,5))
  then show ?thesis using U(1) U1(1) U2(1) by blast
qed


lemma live_count_rows:
  assumes inv: "book_inv b Q F"
  shows "length (live_slots b) = length (ladder_rows (unat (n_levels b)) (ladder_of b))"
proof -
  note live = live_rows [OF book_inv_core [OF inv], folded live_slots_def]
  have "length (map (\<lambda>i. row_of_order (pool b ! i)) (live_slots b)) = length (ladder_rows (unat (n_levels b)) (ladder_of b))"
    using live set_ladder_rows [OF inv] distinct_ladder_rows [OF inv] by (intro put_rows_eq(2)) simp_all
  then show ?thesis by simp
qed

text \<open>The image of a shown book restores to a book with the same digest and row ids.\<close>

lemma shown_snapshot:
  assumes R: "refines_db V db (plain_db cl co cm bv)" and st: "store_shows cap b (show_book (of_store V) U)"
    and hw: "hwm b \<noteq> 0" and nl: "cfg_levels cfg = n_levels b" and few: "length (live_slots b) < 65536"
    and room: "length (db_image cap b) + 4 \<le> length buf" "length buf < 2 ^ 64"
  shows "\<exists>buf' U'. encode_at db crc (ub_store U) (ub_version U) buf = Inr (length (db_image cap b) + 4, buf') \<and>
    length buf' = length buf \<and>
    restore_ultima db crc (take (length (db_image cap b) + 4) buf') cfg = Inr (Inr U') \<and>
    digest_ultima db (ub_store U') (ub_version U') = digest_ultima db (ub_store U) (ub_version U) \<and>
    ub_ids U' = ub_ids U"
proof -
  let ?db = "plain_db cl co cm bv" and ?P = "show_book (of_store V) U"
  obtain w where w: "sv_at (ub_store ?P) (ub_version ?P) = Some w" "on_book cap b ?P w"
    using st by (auto simp: store_shows_def)
  obtain Q F where inv: "book_inv b Q F" using w(2) by (auto simp: on_book_def wf_book_def)
  obtain L O' M where t: "tx_levels w = Some L" "tx_orders w = Some O'" "tx_meta w = Some M"
    using w(2) hw by (auto simp: on_book_def txn_shows_def)
  have sh: "tables_show cap b L O' M" using w(2) t by (simp add: on_book_def txn_shows_def)
  have lv: "level_total b \<le> length (live_slots b)"
    using level_total_live [OF book_inv_core [OF inv]] by (simp add: live_slots_def)
  let ?D = "db_image cap b"
  obtain buf' where enc: "encode_at ?db crc (ub_store ?P) (ub_version ?P) buf = Inr (length ?D + 4, buf')"
    "length buf' = length buf" "take (length ?D + 4) buf' = ?D @ le_bytes 4 (unat (crc ?D))"
    using encode_at_run [OF inv t sh w(1) few _ room, of cl co cm bv crc] lv few by auto
  obtain P' w' L' R' M' where P': "restore_ultima ?db crc (?D @ le_bytes 4 (unat (crc ?D))) cfg = Inr (Inr P')"
    "sv_at (ub_store P') (ub_version P') = Some w'" "tx_levels w' = Some L'" "tx_orders w' = Some R'" "tx_meta w' = Some M'"
    "t_rows L' = t_rows L" "t_rows R' = t_rows O'" "t_rows M' = t_rows M" "ub_ids P' = map_option row_of \<circ> idmap b"
    using restore_ultima_run [OF inv few _ sh nl, of cl co cm bv crc] room by auto
  obtain U' where U': "restore_ultima db crc (?D @ le_bytes 4 (unat (crc ?D))) cfg = Inr (Inr U')"
    "show_book (of_store V) U' = P'"
    using restore_ultima_sim [OF R P'(1)] by blast
  have "digest_ultima ?db (ub_store P') (ub_version P') = Some (Inr (spec_digest (unat (n_levels b)) (ladder_of b)))"
    using sh by (intro digest_rows [OF inv P'(3,4,5) _ _ _ P'(2)]) (simp_all add: P'(6-8) tables_show_def)
  then have "digest_ultima db (ub_store U') (ub_version U') = Some (Inr (spec_digest (unat (n_levels b)) (ladder_of b)))"
    using digest_ultima_sim [OF R, of "ub_store U'" "ub_version U'"] U'(2) by auto
  moreover have "digest_ultima db (ub_store U) (ub_version U) = Some (Inr (spec_digest (unat (n_levels b)) (ladder_of b)))"
    using digest_ultima_sim [OF R, of "ub_store U" "ub_version U"] shown_digest [OF st hw, of cl co cm bv] by auto
  moreover have "encode_at db crc (ub_store U) (ub_version U) buf = Inr (length ?D + 4, buf')"
    using encode_at_sim [OF R, of crc "ub_store U" "ub_version U" buf] enc(1) by auto
  moreover have "ub_ids U' = ub_ids U"
    using w(2) P'(9) arg_cong [OF U'(2), of ub_ids] by (auto simp: on_book_def scalars_show_def)
  ultimately show ?thesis using U'(1) enc(2,3) by (intro exI conjI) (assumption | simp)+
qed

text \<open>C27: the snapshot image of the latest version restores: from the buffer \<open>encode_at\<close> fills,
  \<open>restore_ultima\<close> builds a book with the same digest and the same row ids, as long as the counts of
  the image, which are of sixteen bits, hold the resting orders and the buffer holds the image.\<close>

theorem ultima_snapshot_restores:
  assumes db: "lawful V db" and ok: "ultima_ok cfg ops" and some: "0 < inserts (all_cmds ops)"
    and few: "length (ladder_rows (unat (cfg_levels cfg)) (queues_after cfg (all_cmds ops))) < 65536"
    and room: "60 + 70 * length (ladder_rows (unat (cfg_levels cfg)) (queues_after cfg (all_cmds ops))) \<le> length buf"
      "length buf < 2 ^ 64"
  shows "\<exists>U n buf' U'. ultima_run db cfg ops = Inr U \<and>
    encode_at db crc (ub_store U) (ub_version U) buf = Inr (n, buf') \<and>
    restore_ultima db crc (take n buf') cfg = Inr (Inr U') \<and>
    digest_ultima db (ub_store U') (ub_version U') = digest_ultima db (ub_store U) (ub_version U) \<and>
    ub_ids U' = ub_ids U"
proof -
  obtain cl co cm bv where R: "refines_db V db (plain_db cl co cm bv)" using db by (auto simp: lawful_def)
  obtain P b where P: "ultima_run (plain_db cl co cm bv) cfg ops = Inr P" "store_shows (of_nat (cfg_cap cfg)) b P"
    "ladder_of b = queues_after cfg (all_cmds ops)" "n_levels b = cfg_levels cfg" "unat (hwm b) = inserts (all_cmds ops)"
    by (rule plain_run [OF ok])
  obtain U where U: "ultima_run db cfg ops = Inr U" "show_book (of_store V) U = P"
    using ultima_run_sim [OF R, of cfg ops] P(1) by (auto simp: sim_run_def)
  obtain Q F where inv: "book_inv b Q F" using P(2) by (auto simp: store_shows_def on_book_def wf_book_def)
  have live: "length (live_slots b) < 65536" "60 + 70 * length (live_slots b) \<le> length buf"
    using few room(1) by (simp_all add: live_count_rows [OF inv] P(3,4))
  have "level_total b \<le> length (live_slots b)"
    using level_total_live [OF book_inv_core [OF inv]] by (simp add: live_slots_def)
  then have "length (db_image (of_nat (cfg_cap cfg)) b) + 4 \<le> length buf" using live(2) by (simp add: length_db_image)
  moreover have "hwm b \<noteq> 0" using P(5) some by auto
  ultimately show ?thesis
    using shown_snapshot [OF R P(2) [folded U(2)] _ P(4) [symmetric] live(1) _ room(2), of crc] U(1) by blast
qed

section \<open>Witnesses\<close>

lemma demo_ultima_ok:
  "ultima_ok demo_cfg [Batched multi (Insert_batch [(7, 2, 10, 0)]), Single Cmd_capture, Single (Cmd_cancel 7)]"
proof -
  have "tick_of 0 1 2 = Inr 2" using demo_new_accepts(2) by (simp add: book_new_def demo_cfg_def)
  then show ?thesis
    by (simp add: ultima_ok_def demo_cfg_def inserts_def is_insert_def cmd_ok_def accepts_def grid_of_def
        spec_cmd_def in_ladder_ids spec_insert_def entry_for_def)
      (intro exI [of _ 2], simp)
qed

theorem ultima_digest_agrees_witness:
  "\<exists>U. ultima_run (plain_db (\<lambda>_. 1) (\<lambda>_. 1) (\<lambda>_. 1) (\<lambda>_. 1)) demo_cfg [Batched True (Insert_batch [(7, 2, 10, 0)])] = Inr U \<and>
     digest_ultima (plain_db (\<lambda>_. 1) (\<lambda>_. 1) (\<lambda>_. 1) (\<lambda>_. 1)) (ub_store U) (ub_version U) = digest_book demo_book"
proof -
  let ?ops = "[Batched True (Insert_batch [(7, 2, 10, 0)])]"
  have "ultima_ok demo_cfg ?ops" using demo_ultima_ok [of True] ultima_ok_append [of demo_cfg ?ops] by simp
  moreover have "try_fold flat_exec (all_cmds ?ops) (book_new demo_cfg) = Inr demo_book"
    by (simp add: flat_exec_def demo_book_run)
  moreover have "cfg_cap demo_cfg < 2 ^ 32" "0 < inserts (all_cmds ?ops)"
    by (simp_all add: demo_cfg_def inserts_def is_insert_def)
  ultimately show ?thesis using ultima_digest_agrees [OF plain_lawful, of demo_cfg ?ops] by metis
qed

theorem ultima_pin_frozen_witness:
  "\<exists>U version U1 U2. ultima_run (plain_db (\<lambda>_. 1) (\<lambda>_. 1) (\<lambda>_. 1) (\<lambda>_. 1)) demo_cfg
      [Batched False (Insert_batch [(7, 2, 10, 0)])] = Inr U \<and>
     pin_current (plain_db (\<lambda>_. 1) (\<lambda>_. 1) (\<lambda>_. 1) (\<lambda>_. 1)) U = Inr (version, U1) \<and>
     try_fold (ultima_do (plain_db (\<lambda>_. 1) (\<lambda>_. 1) (\<lambda>_. 1) (\<lambda>_. 1))) [Single (Cmd_cancel 7)] U1 = Inr U2 \<and>
     digest_ultima (plain_db (\<lambda>_. 1) (\<lambda>_. 1) (\<lambda>_. 1) (\<lambda>_. 1)) (ub_store U2) version =
       Some (Inr (spec_digest 4 (queues_after demo_cfg [Cmd_insert 7 2 10 0])))"
proof -
  have "0 < inserts (all_cmds [Batched False (Insert_batch [(7, 2, 10, 0)])])"
    by (simp add: inserts_def is_insert_def)
  from ultima_pin_frozen [OF plain_lawful _ this, of demo_cfg "[Single (Cmd_cancel 7)]"] demo_ultima_ok [of False]
  show ?thesis by (simp add: demo_cfg_def)
qed

lemma demo_queues: "length (ladder_rows 4 (queues_after demo_cfg [Cmd_insert 7 2 10 0])) = 1"
proof -
  have tk: "tick_of (g_price_min (grid_of demo_cfg)) (g_tick (grid_of demo_cfg)) 2 = Inr 2"
    using demo_new_accepts(2) by (simp add: grid_of_def book_new_def demo_cfg_def)
  have "queues_after demo_cfg [Cmd_insert 7 2 10 0] = spec_insert (entry_for 7 2 10) 0 2 (\<lambda>_ _. [])"
    by (simp add: queues_after_def spec_cmd_def tk)
  moreover have "[0..<4] = [0, 1, 2, 3 :: nat]" by (simp add: upt_rec)
  ultimately show ?thesis by (simp add: ladder_rows_def spec_insert_def)
qed

theorem ultima_snapshot_restores_witness:
  "\<exists>U n buf' U'. ultima_run (plain_db (\<lambda>_. 1) (\<lambda>_. 1) (\<lambda>_. 1) (\<lambda>_. 1)) demo_cfg [Batched True (Insert_batch [(7, 2, 10, 0)])] = Inr U \<and>
     encode_at (plain_db (\<lambda>_. 1) (\<lambda>_. 1) (\<lambda>_. 1) (\<lambda>_. 1)) (\<lambda>_. 0) (ub_store U) (ub_version U) (replicate 200 0) = Inr (n, buf') \<and>
     restore_ultima (plain_db (\<lambda>_. 1) (\<lambda>_. 1) (\<lambda>_. 1) (\<lambda>_. 1)) (\<lambda>_. 0) (take n buf') demo_cfg = Inr (Inr U') \<and>
     digest_ultima (plain_db (\<lambda>_. 1) (\<lambda>_. 1) (\<lambda>_. 1) (\<lambda>_. 1)) (ub_store U') (ub_version U') =
       digest_ultima (plain_db (\<lambda>_. 1) (\<lambda>_. 1) (\<lambda>_. 1) (\<lambda>_. 1)) (ub_store U) (ub_version U) \<and> ub_ids U' = ub_ids U"
proof -
  let ?ops = "[Batched True (Insert_batch [(7, 2, 10, 0)])]"
  have "ultima_ok demo_cfg ?ops" using demo_ultima_ok [of True] ultima_ok_append [of demo_cfg ?ops] by simp
  moreover have "0 < inserts (all_cmds ?ops)" by (simp add: inserts_def is_insert_def)
  moreover have "length (ladder_rows (unat (cfg_levels demo_cfg)) (queues_after demo_cfg (all_cmds ?ops))) = 1"
    using demo_queues by (simp add: demo_cfg_def)
  ultimately show ?thesis by (intro ultima_snapshot_restores [OF plain_lawful]) simp_all
qed

end
