(* ===== verification/Ultima_Bench.thy ===== *)
theory Ultima_Bench
  imports Ultima_Restore Ultima_Read Bench_Runs
begin

text \<open>
  The experiments over the book on the database (the \<open>main\<close> functions of
  rust/smr-collections/ultima_insert, ultima_update, ultima_churn, ultima_batch_insert,
  ultima_batch_update, ultima_batch_churn and ultima_snapshot), and the book as a store that
  keeps the contract of the theory \<open>Store\<close> for as many commands as its version counter and its
  row ids have left. The database is the argument \<open>db\<close>.
\<close>

section \<open>One transaction per command\<close>

definition ultima_insert_main where
  "ultima_insert_main db = insert_bench (ultima_new db) (ultima_insert db)"

definition ultima_update_main where
  "ultima_update_main db = update_bench (ultima_new db) (ultima_insert db) (ultima_update db)"

definition ultima_churn_main where
  "ultima_churn_main db = churn_bench (ultima_new db) (ultima_insert db) (ultima_cancel db) (ultima_fill db)"

section \<open>One transaction per batch\<close>

text \<open>\<open>(0..b).map(|_| next()).collect()\<close>.\<close>

fun draw_batch :: "('g \<Rightarrow> panic + 'c \<times> 'g) \<Rightarrow> nat \<Rightarrow> 'g \<Rightarrow> panic + 'c list \<times> 'g" where
  "draw_batch draw 0 g = Inr ([], g)"
| "draw_batch draw (Suc n) g =
     and_then (draw g) (\<lambda>(c, g).
     and_then (draw_batch draw n g) (\<lambda>(cs, g). Inr (c # cs, g)))"

definition batch_step ::
  "('g \<Rightarrow> panic + 'c \<times> 'g) \<Rightarrow> ('c list \<Rightarrow> 's \<Rightarrow> panic + 's) \<Rightarrow> usize \<Rightarrow> 's \<times> 'g \<Rightarrow> panic + 's \<times> 'g" where
  "batch_step draw app b = (\<lambda>(s, g).
     and_then (draw_batch draw b g) (\<lambda>(cmds, g).
     and_then (app cmds s) (\<lambda>s. Inr (s, g))))"

definition batch_measure ::
  "('g \<Rightarrow> panic + 'c \<times> 'g) \<Rightarrow> ('c list \<Rightarrow> 's \<Rightarrow> panic + 's) \<Rightarrow> (nat \<Rightarrow> u64) \<Rightarrow> smr_config \<Rightarrow>
   's \<times> 'g \<Rightarrow> panic + u64 list" where
  "batch_measure draw app ns cfg st =
     (let b = cfg_apply_batch cfg in
      and_then (div_usize (cfg_warmup cfg) b) (\<lambda>warm_batches.
      and_then (div_usize (cfg_iters cfg) b) (\<lambda>batches.
      and_then (measure ns warm_batches batches (batch_step draw app b) st) (\<lambda>(samples, _).
      Inr samples))))"

definition draw_insert :: "smr_config \<Rightarrow> usize \<times> u64 \<Rightarrow> panic + (i64 \<times> i64 \<times> i64 \<times> u8) \<times> usize \<times> u64" where
  "draw_insert cfg = (\<lambda>(i, rng).
     and_then (next_insert rng i (cfg_levels cfg) (cfg_tick cfg) (cfg_price_min cfg)) (\<lambda>(r, rng).
     Inr ((ins_order_id r, ins_price r, ins_qty r, ins_side r), usize_add i 1, rng)))"

definition draw_update :: "usize \<Rightarrow> u64 \<Rightarrow> panic + (i64 \<times> i64) \<times> u64" where
  "draw_update n rng =
     and_then (next_update rng n) (\<lambda>(r, rng). Inr ((upd_order_id r, upd_fill_qty r), rng))"

definition ultima_batch_insert_main ::
  "('s, 'w, 'v, 'b) ultima_db \<Rightarrow> (string \<Rightarrow> string option) \<Rightarrow> (nat \<Rightarrow> u64) \<Rightarrow>
   config_error + panic + u64 list" where
  "ultima_batch_insert_main db env ns =
     and_then (from_env env) (\<lambda>cfg.
     and_then (require_bump_capacity cfg) (\<lambda>_.
     Inr (and_then (ultima_new db cfg) (\<lambda>U.
       batch_measure (draw_insert cfg)
         (if cfg_multi_table cfg then insert_batch_txn_multi db else insert_batch_txn db)
         ns cfg (U, 0, SEED)))))"

definition ultima_batch_update_main ::
  "('s, 'w, 'v, 'b) ultima_db \<Rightarrow> (string \<Rightarrow> string option) \<Rightarrow> (nat \<Rightarrow> u64) \<Rightarrow>
   config_error + panic + u64 list" where
  "ultima_batch_update_main db env ns =
     and_then (from_env env) (\<lambda>cfg.
     Inr (and_then (ultima_new db cfg) (\<lambda>U.
       and_then (steady_book (ultima_insert db) cfg U) (\<lambda>st.
       batch_measure (draw_update (cfg_steady cfg))
         (if cfg_multi_table cfg then update_batch_txn_multi db else update_batch_txn db)
         ns cfg st))))"

definition ultima_batch_churn_main ::
  "('s, 'w, 'v, 'b) ultima_db \<Rightarrow> (string \<Rightarrow> string option) \<Rightarrow> (nat \<Rightarrow> u64) \<Rightarrow>
   config_error + panic + u64 list" where
  "ultima_batch_churn_main db env ns =
     and_then (from_env env) (\<lambda>cfg.
     Inr (and_then (ultima_new db cfg) (\<lambda>U.
       and_then (churn_prebuild (ultima_insert db) (ultima_cancel db) (ultima_fill db) (cfg_steady cfg)
           (U, churn_new cfg)) (\<lambda>st.
       batch_measure next_op
         (if cfg_multi_table cfg then churn_batch_txn_multi db else churn_batch_txn db)
         ns cfg st))))"

section \<open>Snapshots\<close>

definition ultima_snapshot_step ::
  "('s, 'w, 'v, 'b) ultima_db \<Rightarrow> (u8 list \<Rightarrow> u32) \<Rightarrow> smr_config \<Rightarrow> 's ultima_book \<Rightarrow> u8 list \<Rightarrow>
   panic + (usize \<times> 's ultima_book) \<times> u8 list" where
  "ultima_snapshot_step db crc cfg U buf =
     and_then (encode_at db crc (ub_store U) (ub_version U) buf) (\<lambda>(n, buf).
     and_then (slice_to buf n) (\<lambda>bytes.
     and_then (restore_ultima db crc bytes cfg) (\<lambda>r.
     case r of Inl _ \<Rightarrow> Inl Restore_failed | Inr U' \<Rightarrow> Inr ((n, U'), buf))))"

definition ultima_snapshot_main ::
  "('s, 'w, 'v, 'b) ultima_db \<Rightarrow> (u8 list \<Rightarrow> u32) \<Rightarrow> (string \<Rightarrow> string option) \<Rightarrow> (nat \<Rightarrow> u64) \<Rightarrow>
   (nat \<Rightarrow> u64) \<Rightarrow> config_error + panic + snap_out" where
  "ultima_snapshot_main db crc env sns rns =
     and_then (from_env env) (\<lambda>cfg.
     Inr (and_then (ultima_new db cfg) (\<lambda>U.
       and_then (steady_book (ultima_insert db) cfg U) (\<lambda>(U, _).
       and_then (try_iter (\<lambda>buf. and_then (ultima_snapshot_step db crc cfg U buf) (\<lambda>(_, buf). Inr buf))
           (cfg_warmup cfg) (replicate (buf_len cfg) 0)) (\<lambda>buf.
       and_then (try_fold (\<lambda>k (out, buf). and_then (ultima_snapshot_step db crc cfg U buf) (\<lambda>((n, _), buf).
             Inr (out\<lparr>so_snap := (so_snap out)[k := sns k], so_rest := (so_rest out)[k := rns k],
                      so_len := n\<rparr>, buf)))
           [0..<cfg_iters cfg]
           (\<lparr>so_snap = replicate (cfg_iters cfg) 0, so_rest = replicate (cfg_iters cfg) 0, so_len = 0\<rparr>, buf))
         (\<lambda>(out, _). Inr out))))))"

section \<open>The book as a store\<close>

text \<open>The resting orders of a version, and the flat book that the tables of the version show.\<close>

definition shown_book :: "('s, 'w, 'v, 'b) db_views \<Rightarrow> 's ultima_book \<Rightarrow> book" where
  "shown_book V U = (SOME b. \<exists>cap. store_shows cap b (show_book (of_store V) U))"

definition ub_ladder :: "('s, 'w, 'v, 'b) db_views \<Rightarrow> 's ultima_book \<Rightarrow> ladder" where
  "ub_ladder V U = ladder_of (shown_book V U)"

definition ub_geom :: "'s ultima_book \<Rightarrow> geometry" where
  "ub_geom U = \<lparr>g_price_min = ub_price_min U, g_tick = ub_tick U, g_levels = ub_n_levels U,
     g_capacity = 4294967295\<rparr>"

lemma shown_ladder_unique:
  assumes "store_shows cap b U" and "store_shows cap' b' U"
  shows "ladder_of b = ladder_of b'"
proof -
  obtain w where w: "on_book cap b U w" "on_book cap' b' U w"
    using assms by (auto simp: store_shows_def)
  obtain Q F Q' F' where inv: "book_inv b Q F" and inv': "book_inv b' Q' F'"
    using w by (auto simp: on_book_def wf_book_def)
  note core = book_inv_core [OF inv] and core' = book_inv_core [OF inv']
  have nl: "unat (n_levels b) < 2 ^ 31" using core by (simp add: core_inv_def geometry_ok_def)
  have n: "n_levels b' = n_levels b" and len: "length (pool b) = length (pool b')"
    using w by (simp_all add: on_book_def scalars_show_def endless_def)
  have lv: "level_at b k r \<longleftrightarrow> level_at b' k r" and ow: "order_row b k ord \<longleftrightarrow> order_row b' k ord" for k r ord
    using w by (auto simp: on_book_def txn_shows_def tables_show_def)
  have at: "order_at (pool b) s = order_at (pool b') s" if "used_slot b s" for s
    using that ow [of "row_of s" "order_at (pool b) s"] by simp
  show ?thesis
  proof (rule ladder_of_eqI [OF core refl])
    fix sd t assume sd: "is_side sd" and t: "t < unat (n_levels b)"
    have u: "unat (of_nat t :: u32) = t" using t nl by (intro unat_of_nat_u32) simp
    have "level_at b (level_id (n_levels b) sd (of_nat t)) (level_row sd (of_nat t) (lane b sd ! t))"
      using level_at_id [OF sd _ nl, of "of_nat t"] t u by simp
    then have "level_row sd (of_nat t) (lane b sd ! t) = level_row sd (of_nat t) (lane b' sd ! t)"
      unfolding lv using level_at_id [OF sd _ nl [folded n], of "of_nat t"] t u n by simp
    then have hd: "head (lane b' sd ! t) = head (lane b sd ! t)" by (simp add: level_row_def)
    have q: "dseg (pool b) NIL (Q sd t) (head (lane b sd ! t)) NIL (tail (lane b sd ! t))" "distinct (Q sd t)"
      using core_inv_fifo [OF core sd t] by (simp_all add: fifo_ok_def)
    have us: "used_slot b s" if "s \<in> set (Q sd t)" for s
      using that core sd t by (auto simp: core_inv_def levels_ok_def)
    have "dseg (pool b') NIL (Q sd t) (head (lane b sd ! t)) NIL (tail (lane b sd ! t))"
      using q(1) dseg_cong [OF len] at us by metis
    then have "walk (length (pool b')) (pool b') (head (lane b' sd ! t)) = Q sd t"
      unfolding hd by (rule walk_dseg) (use q in simp_all)
    then show "map (\<lambda>s. entry_of (order_at (pool b) s)) (Q sd t) = ladder_of b' sd t"
      using sd t at us by (simp add: ladder_of_def n)
  qed (simp add: ladder_of_outside n)
qed

text \<open>\<open>ub_ok V db n U\<close>: the book is in order, and there are versions and row ids for \<open>n\<close> commands.\<close>

definition ub_ok :: "('s, 'w, 'v, 'b) db_views \<Rightarrow> ('s, 'w, 'v, 'b) ultima_db \<Rightarrow> nat \<Rightarrow> 's ultima_book \<Rightarrow> bool" where
  "ub_ok V db n U \<longleftrightarrow> lawful V db \<and> (\<exists>cap b. store_shows cap b (show_book (of_store V) U) \<and>
     unat (ub_version U) + n < 2 ^ 64 \<and> unat (hwm b) + n \<le> 4294967295)"

lemma ub_ladder_eq: "store_shows cap b (show_book (of_store V) U) \<Longrightarrow> ub_ladder V U = ladder_of b"
  unfolding ub_ladder_def shown_book_def
  by (rule someI2 [where a = b]) (auto intro: shown_ladder_unique)

lemma shown_geom: "store_shows cap b (show_book (of_store V) U) \<Longrightarrow> geom_of b = ub_geom U"
  by (auto simp: store_shows_def on_book_def scalars_show_def endless_def geom_of_def ub_geom_def)

text \<open>An operation that the queues accept.\<close>

lemma ub_do_run:
  assumes ok: "ub_ok V db (n + m) U" and cmds: "cmds_ok (ub_geom U) (ub_ladder V U) (op_cmds x)"
    and m: "length (op_cmds x) \<le> m" "0 < m"
  shows "\<exists>U'. ultima_do db x U = Inr U' \<and> ub_ok V db n U' \<and> ub_geom U' = ub_geom U \<and>
    ub_ladder V U' = fold (spec_cmd (ub_geom U)) (op_cmds x) (ub_ladder V U)"
proof -
  obtain cl co cm bv where R: "refines_db V db (plain_db cl co cm bv)" and db: "lawful V db"
    using ok by (auto simp: ub_ok_def lawful_def)
  let ?U = "show_book (of_store V) U"
  obtain cap b where st: "store_shows cap b ?U" and b: "unat (ub_version U) + (n + m) < 2 ^ 64"
    "unat (hwm b) + (n + m) \<le> 4294967295" using ok by (auto simp: ub_ok_def)
  note geo = shown_geom [OF st] and lad = ub_ladder_eq [OF st]
  have ins: "inserts (op_cmds x) \<le> m" using m(1) by (auto simp: inserts_def intro: order.trans [OF length_filter_le])
  have "unat (ub_version ?U) < 2 ^ 64 - 1" "cmds_ok (geom_of b) (ladder_of b) (op_cmds x)"
    "unat (hwm b) + inserts (op_cmds x) \<le> 4294967295"
    using b m cmds ins by (simp_all add: geo lad)
  from ultima_do_run [OF st this, of cl co cm bv] obtain U1 b1 where
    1: "ultima_do (plain_db cl co cm bv) x ?U = Inr U1" "store_shows cap b1 U1"
      "unat (ub_version U1) \<le> Suc (unat (ub_version U))"
      "ladder_of b1 = fold (spec_cmd (ub_geom U)) (op_cmds x) (ub_ladder V U)" "geom_of b1 = ub_geom U"
      "unat (hwm b1) = unat (hwm b) + inserts (op_cmds x)" by (auto simp: geo lad)
  obtain U' where U': "ultima_do db x U = Inr U'" "show_book (of_store V) U' = U1"
    using ultima_do_sim [OF R, of x U] 1(1) by (auto simp: sim_run_def)
  have st': "store_shows cap b1 (show_book (of_store V) U')" using 1(2) U'(2) by simp
  have v: "ub_version U' = ub_version U1" using arg_cong [OF U'(2), of ub_version] by simp
  have "unat (ub_version U') + n < 2 ^ 64" "unat (hwm b1) + n \<le> 4294967295"
    using 1(3,6) b m ins unfolding v by linarith+
  then have "ub_ok V db n U'" using db st' by (auto simp: ub_ok_def)
  then show ?thesis using U'(1) 1(4,5) shown_geom [OF st'] ub_ladder_eq [OF st'] by (intro exI [of _ U']) simp
qed

end
