(* ===== verification/Ultima_Store.thy ===== *)
theory Ultima_Store
  imports Ultima_Bench Ultima_Theorems
begin

text \<open>
  The book on the database keeps the contract of a store, and the streams of the batch
  experiments are ones it accepts.
\<close>

lemma spec_cmd_insert:
  "accepts g L i sd t pr \<Longrightarrow> spec_cmd g (Cmd_insert i pr q sd) L = spec_insert (entry_for i pr q) sd (unat t) L"
  by (simp add: spec_cmd_def accepts_def)

lemma ub_do_single:
  assumes "ub_ok V db (Suc n) U" and "cmd_ok (ub_geom U) (ub_ladder V U) cmd"
  shows "\<exists>U'. ultima_exec db cmd U = Inr U' \<and> ub_ok V db n U' \<and> ub_geom U' = ub_geom U \<and>
    ub_ladder V U' = spec_cmd (ub_geom U) cmd (ub_ladder V U)"
  using ub_do_run [of V db n 1 U "Single cmd"] assms by simp

interpretation ub_store: amend_store "ub_ok V db" "ub_ladder V" ub_geom "ultima_insert db" "ultima_cancel db"
  "ultima_fill db" "ultima_update db" for V db
proof
  fix n U oid pr q sd t
  show "ub_ok V db n U \<Longrightarrow> g_capacity (ub_geom U) < 2 ^ 32" by (simp add: ub_geom_def)
  assume ok: "ub_ok V db (Suc n) U"
  show "\<exists>U'. ultima_insert db U oid pr q sd = Inr U' \<and> ub_ok V db n U' \<and> ub_geom U' = ub_geom U \<and>
      ub_ladder V U' = spec_insert (entry_for oid pr q) sd (unat t) (ub_ladder V U)"
    if acc: "accepts (ub_geom U) (ub_ladder V U) oid sd t pr"
    using ub_do_single [OF ok, of "Cmd_insert oid pr q sd"] acc spec_cmd_insert [OF acc, of q]
    by (auto simp: cmd_ok_def ultima_exec_def)
  assume mem: "oid \<in> ladder_ids (unat (g_levels (ub_geom U))) (ub_ladder V U)"
  show "\<exists>U'. ultima_cancel db U oid = Inr U' \<and> ub_ok V db n U' \<and> ub_geom U' = ub_geom U \<and>
      ub_ladder V U' = spec_remove oid (ub_ladder V U)"
    using ub_do_single [OF ok, of "Cmd_cancel oid"] mem by (simp add: cmd_ok_def ultima_exec_def spec_cmd_def)
  show "\<exists>U'. ultima_fill db U oid = Inr U' \<and> ub_ok V db n U' \<and> ub_geom U' = ub_geom U \<and>
      ub_ladder V U' = spec_remove oid (ub_ladder V U)"
    using ub_do_single [OF ok, of "Cmd_fill oid"] mem by (simp add: cmd_ok_def ultima_exec_def spec_cmd_def)
  show "\<exists>U'. ultima_update db U oid q = Inr U' \<and> ub_ok V db n U' \<and> ub_geom U' = ub_geom U \<and>
      ub_ladder V U' = spec_update oid q (ub_ladder V U)"
    using ub_do_single [OF ok, of "Cmd_update oid q"] mem by (simp add: cmd_ok_def ultima_exec_def spec_cmd_def)
qed

lemma ub_new_start:
  assumes db: "lawful V db" and nl: "unat (cfg_levels cfg) < 2 ^ 31" and n: "n \<le> 4294967295"
  shows "\<exists>U. ultima_new db cfg = Inr U \<and> ub_ok V db n U \<and> ub_geom U = geom_of (endless_new cfg) \<and>
    ub_ladder V U = (\<lambda>_ _. []) \<and> ub_version U = 1"
proof -
  obtain cl co cm bv where R: "refines_db V db (plain_db cl co cm bv)" using db by (auto simp: lawful_def)
  obtain U0 where U0: "ultima_new (plain_db cl co cm bv) cfg = Inr U0"
    "store_shows (of_nat (cfg_cap cfg)) (endless_new cfg) U0" "ub_version U0 = 1"
    using ultima_new_run [OF nl] by blast
  obtain U where U: "ultima_new db cfg = Inr U" "show_book (of_store V) U = U0"
    using ultima_new_sim [OF R, of cfg] U0(1) by (auto simp: sim_run_def)
  have st: "store_shows (of_nat (cfg_cap cfg)) (endless_new cfg) (show_book (of_store V) U)" using U0(2) U(2) by simp
  have v: "ub_version U = 1" using arg_cong [OF U(2), of ub_version] U0(3) by simp
  have "unat (ub_version U) + n < 2 ^ 64" "unat (hwm (endless_new cfg)) + n \<le> 4294967295"
    using n v by (simp_all add: endless_new_simps)
  then have "ub_ok V db n U" unfolding ub_ok_def using db st by blast
  then show ?thesis
    using U(1) v shown_geom [OF st] ub_ladder_eq [OF st] endless_new_ladder [OF nl]
    by (intro exI [of _ U]) simp
qed

section \<open>Batches\<close>

lemma draw_batch_run:
  assumes step: "\<And>k g L. k < n \<Longrightarrow> I k g L \<Longrightarrow> \<exists>c g'. draw g = Inr (c, g') \<and> cmd_ok geo L (f c) \<and>
      I (Suc k) g' (spec_cmd geo (f c) L)"
    and I: "I k0 g L" and "k0 + m \<le> n"
  shows "\<exists>cs g'. draw_batch draw m g = Inr (cs, g') \<and> length cs = m \<and> cmds_ok geo L (map f cs) \<and>
    I (k0 + m) g' (fold (spec_cmd geo) (map f cs) L)"
  using assms(2,3)
proof (induction m arbitrary: k0 g L)
  case 0
  then show ?case by simp
next
  case (Suc m)
  obtain c g1 where 1: "draw g = Inr (c, g1)" "cmd_ok geo L (f c)" "I (Suc k0) g1 (spec_cmd geo (f c) L)"
    using step [OF _ Suc.prems(1)] Suc.prems(2) by auto
  obtain cs g2 where "draw_batch draw m g1 = Inr (cs, g2)" "length cs = m" "cmds_ok geo (spec_cmd geo (f c) L) (map f cs)"
    "I (Suc k0 + m) g2 (fold (spec_cmd geo) (map f cs) (spec_cmd geo (f c) L))"
    using Suc.IH [OF 1(3)] Suc.prems(2) by auto
  then show ?case using 1(1,2) by (intro exI [of _ "c # cs"]) simp
qed

text \<open>A batch experiment ends: \<open>mk\<close> makes a batch of the commands, \<open>f\<close> names each command.\<close>

lemma batch_measure_run:
  fixes draw :: "'g \<Rightarrow> panic + 'c \<times> 'g" and mk :: "'c list \<Rightarrow> batch"
  assumes step: "\<And>k g L. k < cfg_warmup cfg + cfg_iters cfg \<Longrightarrow> I k g L \<Longrightarrow> \<exists>c g'. draw g = Inr (c, g') \<and>
      cmd_ok geo L (f c) \<and> I (Suc k) g' (spec_cmd geo (f c) L)"
    and I: "I 0 g (ub_ladder V U)" and U: "ub_ok V db (cfg_warmup cfg + cfg_iters cfg) U" "ub_geom U = geo"
    and mk: "\<And>cs. batch_cmds (mk cs) = map f cs" and app: "\<And>cs U. app cs U = run_batch db multi (mk cs) U"
    and b: "0 < cfg_apply_batch cfg"
  shows "batch_measure draw app ns cfg (U, g) = Inr (map ns [0..<cfg_iters cfg div cfg_apply_batch cfg])"
proof -
  let ?b = "cfg_apply_batch cfg" let ?n = "cfg_warmup cfg + cfg_iters cfg"
  let ?w = "cfg_warmup cfg div ?b" and ?m = "cfg_iters cfg div ?b"
  have fits: "(?w + ?m) * ?b \<le> ?n"
    unfolding add_mult_distrib by (intro add_mono div_times_less_eq_dividend)
  let ?J = "\<lambda>j p. ub_ok V db (?n - j * ?b) (fst p) \<and> ub_geom (fst p) = geo \<and>
      I (j * ?b) (snd p) (ub_ladder V (fst p))"
  have J: "\<exists>p'. batch_step draw app ?b p = Inr p' \<and> ?J (Suc j) p'" if j: "j < ?w + ?m" and J: "?J j p" for j p
  proof -
    have le: "j * ?b + ?b \<le> ?n"
      using j fits mult_le_mono1 [of "Suc j" "?w + ?m" ?b] by simp
    obtain cs g' where cs: "draw_batch draw ?b (snd p) = Inr (cs, g')" "length cs = ?b"
      "cmds_ok geo (ub_ladder V (fst p)) (map f cs)"
      "I (j * ?b + ?b) g' (fold (spec_cmd geo) (map f cs) (ub_ladder V (fst p)))"
      using draw_batch_run [where n = ?n and I = I and draw = draw and geo = geo and f = f, OF step] J le by blast
    have "ub_ok V db ((?n - Suc j * ?b) + ?b) (fst p)" using J le by (simp add: algebra_simps)
    from ub_do_run [OF this, of "Batched multi (mk cs)"] cs J b obtain U' where
      "run_batch db multi (mk cs) (fst p) = Inr U'" "ub_ok V db (?n - Suc j * ?b) U'" "ub_geom U' = geo"
      "ub_ladder V U' = fold (spec_cmd geo) (map f cs) (ub_ladder V (fst p))"
      by (auto simp: mk)
    then show ?thesis using cs(1,4) by (simp add: batch_step_def split_beta app add.commute)
  qed
  have "?J 0 (U, g)" using I U by simp
  then obtain p where "measure ns ?w ?m (batch_step draw app ?b) (U, g) = Inr (map ns [0..<?m], p)"
    using measure_run [of ?w ?m ?J "batch_step draw app ?b" "(U, g)" ns, OF J] by blast
  then show ?thesis using b by (simp add: batch_measure_def Let_def div_usize_def)
qed

lemma draw_insert_step:
  assumes g: "grid_cfg geo cfg" and k: "k < 2 ^ 64 - 1"
    and I: "fst p = k" "ladder_ids (unat (g_levels geo)) L = stream_ids k"
  shows "\<exists>c p'. draw_insert cfg p = Inr (c, p') \<and> cmd_ok geo L (case c of (i, pr, q, sd) \<Rightarrow> Cmd_insert i pr q sd) \<and>
    fst p' = Suc k \<and>
    ladder_ids (unat (g_levels geo)) (spec_cmd geo (case c of (i, pr, q, sd) \<Rightarrow> Cmd_insert i pr q sd) L) = stream_ids (Suc k)"
proof -
  obtain rng where p: "p = (k, rng)" using I(1) by (cases p) auto
  obtain r t rng' where r: "next_insert rng k (cfg_levels cfg) (cfg_tick cfg) (cfg_price_min cfg) = Inr (r, rng')"
    "accepts geo L (ins_order_id r) (ins_side r) t (ins_price r)"
    "ladder_ids (unat (g_levels geo)) (spec_insert (entry_for (ins_order_id r) (ins_price r) (ins_qty r))
      (ins_side r) (unat t) L) = stream_ids (Suc k)"
    using stream_insert [OF g I(2) k] by blast
  have "usize_add k 1 = Suc k" using k by simp
  then show ?thesis using r spec_cmd_insert [OF r(2), of "ins_qty r"]
    by (auto simp: draw_insert_def p cmd_ok_def)
qed

lemma draw_update_step:
  assumes n: "0 < n" "n < 2 ^ 63" and ids: "ladder_ids (unat (g_levels geo)) L = stream_ids n"
  shows "\<exists>c g'. draw_update n g = Inr (c, g') \<and> cmd_ok geo L (case c of (i, q) \<Rightarrow> Cmd_update i q) \<and>
    ladder_ids (unat (g_levels geo)) (spec_cmd geo (case c of (i, q) \<Rightarrow> Cmd_update i q) L) = stream_ids n"
  using stream_update [OF n, of g] ids by (auto simp: draw_update_def cmd_ok_def spec_cmd_def spec_update_ids)

lemma draw_churn_step:
  assumes "churn_inv geo m ch L" and "price_grid geo" and "Suc (ch_i ch) < 2 ^ 64" and "m + 1 < 2 ^ 64"
  shows "\<exists>op ch'. next_op ch = Inr (op, ch') \<and> cmd_ok geo L (churn_cmd op) \<and> ch_i ch' = Suc (ch_i ch) \<and>
    churn_inv geo m ch' (spec_cmd geo (churn_cmd op) L)"
  using next_op_spec [OF assms]
proof (elim disjE exE conjE)
  fix oid pr q sd t ch'
  assume "next_op ch = Inr (Op_insert oid pr q sd, ch')" and acc: "accepts geo L oid sd t pr"
    and "ch_i ch' = Suc (ch_i ch)" "churn_inv geo m ch' (spec_insert (entry_for oid pr q) sd (unat t) L)"
  then show ?thesis using spec_cmd_insert [OF acc, of q] by (auto simp: cmd_ok_def)
qed (auto simp: cmd_ok_def spec_cmd_def)

end
