(* ===== verification/Ultima_Bench_Theorems.thy ===== *)
theory Ultima_Bench_Theorems
  imports Ultima_Store Bench_Theorems
begin

text \<open>
  The experiments over the database end: on every lawful database no command of their streams
  panics, alone in its transaction or in a batch, and every snapshot fits its buffer and restores.
\<close>

section \<open>What the programs share\<close>

lemma ultima_start:
  assumes db: "lawful V db" and env: "from_env env = Inr cfg" and grid: "price_grid (geom_of (book_new cfg))"
    and n: "n \<le> 4294967295"
  shows "\<exists>U. ultima_new db cfg = Inr U \<and> ub_ok V db n U \<and> grid_cfg (ub_geom U) cfg \<and>
    ladder_ids (unat (g_levels (ub_geom U))) (ub_ladder V U) = {} \<and> g_capacity (ub_geom U) = 4294967295 \<and>
    churn_known (ub_geom U) (churn_new cfg) (ub_ladder V U)"
proof -
  have nl: "unat (cfg_levels cfg) < 2 ^ 31"
    using from_env_checked [OF env] by (simp add: check_config_Inr)
  obtain U where U: "ultima_new db cfg = Inr U" "ub_ok V db n U" "ub_geom U = geom_of (endless_new cfg)"
    "ub_ladder V U = (\<lambda>_ _. [])" using ub_new_start [OF db nl n] by blast
  have g: "ub_geom U = (geom_of (book_new cfg))\<lparr>g_capacity := 4294967295\<rparr>"
    unfolding U(3) by (simp add: geom_new)
  have cfg: "g_levels (ub_geom U) = cfg_levels cfg" "g_tick (ub_geom U) = cfg_tick cfg"
    "g_price_min (ub_geom U) = cfg_price_min cfg" "g_capacity (ub_geom U) = 4294967295"
    unfolding g by (simp_all add: geom_of_def book_new_def)
  have "price_grid (ub_geom U)" using grid unfolding g by (simp add: price_grid_def)
  moreover have none: "ladder_ids k (ub_ladder V U) = {}" for k by (simp add: U(4) ladder_ids_def)
  ultimately show ?thesis
    using U(1,2) by (intro exI [of _ U]) (simp add: grid_cfg_def churn_known_def known_ids_def churn_new_def cfg)
qed

lemma ultima_steady:
  assumes db: "lawful V db" and env: "from_env env = Inr cfg" and grid: "price_grid (geom_of (book_new cfg))"
    and n: "cfg_steady cfg + z \<le> 4294967295"
  shows "\<exists>U0 U rng. ultima_new db cfg = Inr U0 \<and> steady_book (ultima_insert db) cfg U0 = Inr (U, rng) \<and>
    ub_ok V db z U \<and> g_levels (ub_geom U) = cfg_levels cfg \<and>
    ladder_ids (unat (g_levels (ub_geom U))) (ub_ladder V U) = stream_ids (cfg_steady cfg)"
proof -
  obtain U0 where U0: "ultima_new db cfg = Inr U0" "ub_ok V db (cfg_steady cfg + z) U0" "grid_cfg (ub_geom U0) cfg"
    "ladder_ids (unat (g_levels (ub_geom U0))) (ub_ladder V U0) = {}" "g_capacity (ub_geom U0) = 4294967295"
    using ultima_start [OF db env grid n] by blast
  have "cfg_steady cfg \<le> g_capacity (ub_geom U0)" using n by (simp add: U0(5))
  from ub_store.steady_run [OF U0(2-4) this] show ?thesis
    using U0(1,3) by (auto simp: grid_cfg_def)
qed

lemma steady_small:
  assumes "from_env env = Inr cfg"
  shows "0 < cfg_steady cfg" "cfg_steady cfg \<le> 65535" "cfg_steady cfg < 2 ^ 63" "0 < cfg_apply_batch cfg"
    "0 < cfg_iters cfg"
  using from_env_checked [OF assms] by (simp_all add: check_config_Inr)

lemma spare_le: "spare n \<le> n"
  by (simp add: spare_def)

section \<open>One transaction per command\<close>

text \<open>C28: The experiments with one transaction per command take all their samples, on every lawful
  database and for every accepted configuration whose prices fit i64, as long as the row ids
  and versions they use do not wrap: no insert, update, cancel or fill panics.\<close>

theorem ultima_benches_complete:
  assumes db: "lawful V db" and env: "from_env env = Inr cfg" and grid: "price_grid (geom_of (book_new cfg))"
    and n: "cfg_steady cfg + cfg_warmup cfg + cfg_iters cfg \<le> 4294967295"
  shows "(require_bump_capacity cfg = Inr () \<longrightarrow>
      ultima_insert_main db env ns = Inr (Inr (map ns [0..<cfg_iters cfg]))) \<and>
    ultima_update_main db env ns = Inr (Inr (map ns [0..<cfg_iters cfg])) \<and>
    (\<exists>smp. ultima_churn_main db env ns = Inr (Inr smp) \<and> sample_count smp = cfg_iters cfg)"
proof (intro conjI impI)
  assume bump: "require_bump_capacity cfg = Inr ()"
  obtain U where U: "ultima_new db cfg = Inr U" "ub_ok V db (cfg_warmup cfg + cfg_iters cfg + 0) U"
    "grid_cfg (ub_geom U) cfg" "ladder_ids (unat (g_levels (ub_geom U))) (ub_ladder V U) = {}"
    "g_capacity (ub_geom U) = 4294967295"
    using ultima_start [OF db env grid, of "cfg_warmup cfg + cfg_iters cfg + 0"] n by auto
  have "cfg_warmup cfg + cfg_iters cfg \<le> g_capacity (ub_geom U)" using n by (simp add: U(5))
  from ub_store.insert_measure_run [OF U(2-4) this, of ns]
  show "ultima_insert_main db env ns = Inr (Inr (map ns [0..<cfg_iters cfg]))"
    by (auto simp: ultima_insert_main_def insert_bench_def env bump U(1))
next
  obtain U0 U rng where U: "ultima_new db cfg = Inr U0" "steady_book (ultima_insert db) cfg U0 = Inr (U, rng)"
    "ub_ok V db (cfg_warmup cfg + cfg_iters cfg + 0) U"
    "ladder_ids (unat (g_levels (ub_geom U))) (ub_ladder V U) = stream_ids (cfg_steady cfg)"
    using ultima_steady [OF db env grid, of "cfg_warmup cfg + cfg_iters cfg + 0"] n by auto
  from ub_store.update_iter_run(2) [OF U(3,4) steady_small(1,3) [OF env], of ns rng]
  show "ultima_update_main db env ns = Inr (Inr (map ns [0..<cfg_iters cfg]))"
    by (auto simp: ultima_update_main_def update_bench_def env U(1,2))
next
  let ?n = "cfg_steady cfg + (cfg_warmup cfg + (cfg_iters cfg + 0))"
  obtain U where U: "ultima_new db cfg = Inr U" "ub_ok V db ?n U" "grid_cfg (ub_geom U) cfg"
    "g_capacity (ub_geom U) = 4294967295" "churn_known (ub_geom U) (churn_new cfg) (ub_ladder V U)"
    using ultima_start [OF db env grid, of ?n] n by auto
  have "price_grid (ub_geom U)" "spare (cfg_steady cfg) + 1 \<le> g_capacity (ub_geom U)"
    using U(3) steady_small(2) [OF env] spare_le [of "cfg_steady cfg"] by (simp_all add: grid_cfg_def U(4))
  from ub_store.churn_full_run [OF U(2,5) _ _ this] n
  show "\<exists>smp. ultima_churn_main db env ns = Inr (Inr smp) \<and> sample_count smp = cfg_iters cfg"
    by (fastforce simp: ultima_churn_main_def churn_bench_def env U(1) churn_new_def)
qed

section \<open>One transaction per batch\<close>

lemma ultima_batch_insert_run:
  assumes db: "lawful V db" and env: "from_env env = Inr cfg" and grid: "price_grid (geom_of (book_new cfg))"
    and n: "cfg_steady cfg + cfg_warmup cfg + cfg_iters cfg \<le> 4294967295"
    and bump: "require_bump_capacity cfg = Inr ()"
  shows "ultima_batch_insert_main db env ns = Inr (Inr (map ns [0..<cfg_iters cfg div cfg_apply_batch cfg]))"
proof -
  let ?m = "cfg_warmup cfg + cfg_iters cfg"
  obtain U where U: "ultima_new db cfg = Inr U" "ub_ok V db ?m U" "grid_cfg (ub_geom U) cfg"
    "ladder_ids (unat (g_levels (ub_geom U))) (ub_ladder V U) = {}"
    using ultima_start [OF db env grid, of ?m] n by auto
  have "batch_measure (draw_insert cfg)
      (if cfg_multi_table cfg then insert_batch_txn_multi db else insert_batch_txn db) ns cfg (U, 0, SEED) =
    Inr (map ns [0..<cfg_iters cfg div cfg_apply_batch cfg])"
  proof (rule batch_measure_run [where I = "\<lambda>k p L. fst p = k \<and> ladder_ids (unat (g_levels (ub_geom U))) L = stream_ids k"
        and geo = "ub_geom U" and f = "\<lambda>(i, pr, q, sd). Cmd_insert i pr q sd" and mk = Insert_batch
        and multi = "cfg_multi_table cfg" and db = db and V = V])
    fix k and p :: "usize \<times> u64" and L
    assume "k < ?m" and I: "fst p = k \<and> ladder_ids (unat (g_levels (ub_geom U))) L = stream_ids k"
    then have "k < 2 ^ 64 - 1" using n by simp
    from draw_insert_step [OF U(3) this] I
    show "\<exists>c g'. draw_insert cfg p = Inr (c, g') \<and> cmd_ok (ub_geom U) L ((\<lambda>(i, pr, q, sd). Cmd_insert i pr q sd) c) \<and>
        fst g' = Suc k \<and> ladder_ids (unat (g_levels (ub_geom U)))
          (spec_cmd (ub_geom U) ((\<lambda>(i, pr, q, sd). Cmd_insert i pr q sd) c) L) = stream_ids (Suc k)"
      by blast
  qed (use U steady_small(4) [OF env] in simp_all)
  then show "ultima_batch_insert_main db env ns = Inr (Inr (map ns [0..<cfg_iters cfg div cfg_apply_batch cfg]))"
    by (simp add: ultima_batch_insert_main_def env bump U(1))
qed

lemma ultima_batch_update_run:
  assumes db: "lawful V db" and env: "from_env env = Inr cfg" and grid: "price_grid (geom_of (book_new cfg))"
    and n: "cfg_steady cfg + cfg_warmup cfg + cfg_iters cfg \<le> 4294967295"
  shows "ultima_batch_update_main db env ns = Inr (Inr (map ns [0..<cfg_iters cfg div cfg_apply_batch cfg]))"
proof -
  let ?m = "cfg_warmup cfg + cfg_iters cfg" and ?s = "cfg_steady cfg"
  obtain U0 U rng where U: "ultima_new db cfg = Inr U0" "steady_book (ultima_insert db) cfg U0 = Inr (U, rng)"
    "ub_ok V db ?m U" "ladder_ids (unat (g_levels (ub_geom U))) (ub_ladder V U) = stream_ids ?s"
    using ultima_steady [OF db env grid, of ?m] n by auto
  have "batch_measure (draw_update ?s)
      (if cfg_multi_table cfg then update_batch_txn_multi db else update_batch_txn db) ns cfg (U, rng) =
    Inr (map ns [0..<cfg_iters cfg div cfg_apply_batch cfg])"
  proof (rule batch_measure_run [where I = "\<lambda>_ _ L. ladder_ids (unat (g_levels (ub_geom U))) L = stream_ids ?s"
        and geo = "ub_geom U" and f = "\<lambda>(i, q). Cmd_update i q" and mk = Update_batch
        and multi = "cfg_multi_table cfg" and db = db and V = V])
    fix k and g :: u64 and L
    assume I: "ladder_ids (unat (g_levels (ub_geom U))) L = stream_ids ?s"
    show "\<exists>c g'. draw_update ?s g = Inr (c, g') \<and> cmd_ok (ub_geom U) L ((\<lambda>(i, q). Cmd_update i q) c) \<and>
        ladder_ids (unat (g_levels (ub_geom U))) (spec_cmd (ub_geom U) ((\<lambda>(i, q). Cmd_update i q) c) L) = stream_ids ?s"
      by (rule draw_update_step [OF steady_small(1,3) [OF env] I])
  qed (use U steady_small(4) [OF env] in simp_all)
  then show "ultima_batch_update_main db env ns = Inr (Inr (map ns [0..<cfg_iters cfg div cfg_apply_batch cfg]))"
    by (simp add: ultima_batch_update_main_def env U(1,2))
qed

lemma ultima_batch_churn_run:
  assumes db: "lawful V db" and env: "from_env env = Inr cfg" and grid: "price_grid (geom_of (book_new cfg))"
    and n: "cfg_steady cfg + cfg_warmup cfg + cfg_iters cfg \<le> 4294967295"
  shows "ultima_batch_churn_main db env ns = Inr (Inr (map ns [0..<cfg_iters cfg div cfg_apply_batch cfg]))"
proof -
  let ?m = "cfg_warmup cfg + cfg_iters cfg" and ?s = "cfg_steady cfg"
  obtain U0 where U0: "ultima_new db cfg = Inr U0" "ub_ok V db (?s + ?m) U0" "grid_cfg (ub_geom U0) cfg"
    "g_capacity (ub_geom U0) = 4294967295" "churn_known (ub_geom U0) (churn_new cfg) (ub_ladder V U0)"
    using ultima_start [OF db env grid, of "?s + ?m"] n by auto
  have g: "price_grid (ub_geom U0)" using U0(3) by (simp add: grid_cfg_def)
  have room: "length (ch_live (churn_new cfg)) + ?s \<le> g_capacity (ub_geom U0)" "ch_i (churn_new cfg) + ?s < 2 ^ 64"
    using n by (simp_all add: churn_new_def U0(4))
  obtain U ch where U: "churn_prebuild (ultima_insert db) (ultima_cancel db) (ultima_fill db) ?s (U0, churn_new cfg) =
      Inr (U, ch)" "ub_ok V db ?m U" "ub_geom U = ub_geom U0" "churn_known (ub_geom U0) ch (ub_ladder V U)"
    "length (ch_live ch) = ?s" "ch_i ch = ?s"
    using ub_store.churn_prebuild_run [OF U0(2,5) g room] by (auto simp: churn_new_def)
  have inv: "churn_inv (ub_geom U0) (spare ?s) ch (ub_ladder V U)"
    using U(4-6) by (cases "even ?s") (auto simp: churn_inv_def spare_def intro: Suc_leI odd_pos)
  have "batch_measure next_op (if cfg_multi_table cfg then churn_batch_txn_multi db else churn_batch_txn db) ns cfg (U, ch) =
    Inr (map ns [0..<cfg_iters cfg div cfg_apply_batch cfg])"
  proof (rule batch_measure_run [where I = "\<lambda>k ch L. churn_inv (ub_geom U0) (spare ?s) ch L \<and> ch_i ch = ?s + k"
        and geo = "ub_geom U0" and f = churn_cmd and mk = Churn_batch and multi = "cfg_multi_table cfg" and db = db and V = V])
    fix k ch L
    assume k: "k < ?m" and I: "churn_inv (ub_geom U0) (spare ?s) ch L \<and> ch_i ch = ?s + k"
    have "Suc (ch_i ch) < 2 ^ 64" "spare ?s + 1 < 2 ^ 64"
      using I k n steady_small(2) [OF env] spare_le [of ?s] by simp_all
    from draw_churn_step [OF _ g this] I
    show "\<exists>c g'. next_op ch = Inr (c, g') \<and> cmd_ok (ub_geom U0) L (churn_cmd c) \<and>
        churn_inv (ub_geom U0) (spare ?s) g' (spec_cmd (ub_geom U0) (churn_cmd c) L) \<and> ch_i g' = ?s + Suc k"
      by fastforce
  qed (use U inv steady_small(4) [OF env] in simp_all)
  then show "ultima_batch_churn_main db env ns = Inr (Inr (map ns [0..<cfg_iters cfg div cfg_apply_batch cfg]))"
    by (simp add: ultima_batch_churn_main_def env U0(1) U(1))
qed

text \<open>The experiments with one transaction per batch take a sample of every whole batch, with the
  tables opened once per batch or once per command: each batch is one the queues accept.\<close>

theorem ultima_batches_complete:
  assumes db: "lawful V db" and env: "from_env env = Inr cfg" and grid: "price_grid (geom_of (book_new cfg))"
    and n: "cfg_steady cfg + cfg_warmup cfg + cfg_iters cfg \<le> 4294967295"
  shows "(require_bump_capacity cfg = Inr () \<longrightarrow> ultima_batch_insert_main db env ns =
      Inr (Inr (map ns [0..<cfg_iters cfg div cfg_apply_batch cfg]))) \<and>
    ultima_batch_update_main db env ns = Inr (Inr (map ns [0..<cfg_iters cfg div cfg_apply_batch cfg])) \<and>
    ultima_batch_churn_main db env ns = Inr (Inr (map ns [0..<cfg_iters cfg div cfg_apply_batch cfg]))"
  using ultima_batch_insert_run [OF db env grid n] ultima_batch_update_run [OF db env grid n]
    ultima_batch_churn_run [OF db env grid n] by simp

section \<open>Snapshots\<close>

text \<open>There are as many live slots as resting ids.\<close>

lemma live_slots_card:
  assumes core: "core_inv b Q F"
  shows "length (live_slots b) = card (dom (idmap b))"
proof -
  let ?id = "\<lambda>i. order_id (pool b ! i)"
  have at: "idmap b (?id i) = Some (of_nat i)" if "i \<in> set (live_slots b)" for i
    using live_slot_u32(1,2) [OF that] by (simp add: core_inv_id [OF core] del: unat_of_nat)
  have "inj_on ?id (set (live_slots b))"
    using at live_slot_u32(1) by (intro inj_onI) (metis option.inject)
  moreover have "dom (idmap b) = ?id ` set (live_slots b)"
  proof
    show "dom (idmap b) \<subseteq> ?id ` set (live_slots b)"
      using used_live core_inv_id [OF core] by (fastforce simp: dom_def)
  qed (use at in auto)
  ultimately have "card (dom (idmap b)) = card (set (live_slots b))" by (simp add: card_image)
  also have "\<dots> = length (live_slots b)" by (intro distinct_card) (simp add: live_slots_def)
  finally show ?thesis by simp
qed

text \<open>The image of a book with few enough resting orders fits the buffer and restores.\<close>

lemma ub_snapshot_run:
  assumes ok: "ub_ok V db 0 U" and cfg: "ub_n_levels U = cfg_levels cfg" "cfg_cap cfg < 2 ^ 32"
    and ids: "ladder_ids (unat (g_levels (ub_geom U))) (ub_ladder V U) = ids" "ids \<noteq> {}"
      "card ids \<le> cfg_cap cfg" "card ids < 65536"
  shows "\<exists>n. \<forall>buf. length buf = buf_len cfg \<longrightarrow>
    (\<exists>U' buf'. ultima_snapshot_step db crc cfg U buf = Inr ((n, U'), buf') \<and> length buf' = buf_len cfg)"
proof -
  obtain cl co cm bv where R: "refines_db V db (plain_db cl co cm bv)" using ok by (auto simp: ub_ok_def lawful_def)
  obtain cap b where st: "store_shows cap b (show_book (of_store V) U)" using ok by (auto simp: ub_ok_def)
  obtain Q F where inv: "book_inv b Q F" using st by (auto simp: store_shows_def on_book_def wf_book_def)
  note core = book_inv_core [OF inv]
  have nl: "n_levels b = cfg_levels cfg" using arg_cong [OF shown_geom [OF st], of g_levels] cfg(1)
    by (simp add: geom_of_def ub_geom_def)
  have dom: "dom (idmap b) = ids"
    using ids_read [OF inv] ids(1) ub_ladder_eq [OF st] cfg(1) nl by (simp add: ub_geom_def)
  have live: "length (live_slots b) = card ids"
    using live_slots_card [OF core] dom by simp
  have hw: "hwm b \<noteq> 0" using live ids(2) dom by (auto simp: live_slots_def)
  have "length (db_image cap b) + 4 \<le> buf_len cfg"
    using level_total_lanes [OF core] live ids(3) by (simp add: length_db_image buf_len_eq(1) [OF cfg(2)] nl)
  then have room: "length (db_image cap b) + 4 \<le> buf_len cfg" "buf_len cfg < 2 ^ 64"
    using buf_len_eq(2) [OF cfg(2)] by simp_all
  have few: "length (live_slots b) < 65536" using live ids(4) by simp
  have "\<exists>U' buf'. ultima_snapshot_step db crc cfg U buf = Inr ((length (db_image cap b) + 4, U'), buf') \<and>
      length buf' = buf_len cfg" if len: "length buf = buf_len cfg" for buf
  proof -
    obtain buf' U' where "encode_at db crc (ub_store U) (ub_version U) buf = Inr (length (db_image cap b) + 4, buf')"
      "length buf' = buf_len cfg" "restore_ultima db crc (take (length (db_image cap b) + 4) buf') cfg = Inr (Inr U')"
      using shown_snapshot [OF R st hw nl [symmetric] few room [folded len], of crc] len by auto
    then show ?thesis using room(1) by (simp add: ultima_snapshot_step_def slice_to_def)
  qed
  then show ?thesis by blast
qed

text \<open>The snapshot experiment ends: every image of the steady book fits the buffer and restores,
  and both clocks give a sample per iteration.\<close>

theorem ultima_snapshot_main_completes:
  assumes db: "lawful V db" and env: "from_env env = Inr cfg" and cap: "cfg_cap cfg < 2 ^ 32"
    and grid: "price_grid (geom_of (book_new cfg))"
  shows "\<exists>n. ultima_snapshot_main db crc env sns rns = Inr (Inr \<lparr>so_snap = map sns [0..<cfg_iters cfg],
      so_rest = map rns [0..<cfg_iters cfg], so_len = n\<rparr>)"
proof -
  note small = steady_small [OF env]
  obtain U0 U rng where U: "ultima_new db cfg = Inr U0" "steady_book (ultima_insert db) cfg U0 = Inr (U, rng)"
    "ub_ok V db 0 U" "g_levels (ub_geom U) = cfg_levels cfg"
    "ladder_ids (unat (g_levels (ub_geom U))) (ub_ladder V U) = stream_ids (cfg_steady cfg)"
    using ultima_steady [OF db env grid, of 0] small(2) by auto
  have "card (stream_ids (cfg_steady cfg)) = cfg_steady cfg" using small(2) by (intro card_stream_ids) simp
  moreover have "cfg_steady cfg \<le> cfg_cap cfg" using from_env_checked [OF env] by (simp add: check_config_Inr)
  moreover have "stream_ids (cfg_steady cfg) \<noteq> {}" using small(1) by (auto simp: stream_ids_def)
  moreover have "ub_n_levels U = cfg_levels cfg" using U(4) by (simp add: ub_geom_def)
  ultimately obtain n where step: "\<And>buf. length buf = buf_len cfg \<Longrightarrow>
      \<exists>U' buf'. ultima_snapshot_step db crc cfg U buf = Inr ((n, U'), buf') \<and> length buf' = buf_len cfg"
    using ub_snapshot_run [OF U(3) _ cap U(5), of crc] small(2) by auto
  from snap_loop_run [of "cfg_warmup cfg" "cfg_iters cfg" "\<lambda>_ buf. length buf = buf_len cfg"
        "ultima_snapshot_step db crc cfg U" n "replicate (buf_len cfg) 0", OF step _ small(5), of rns sns]
  show ?thesis by (auto simp: ultima_snapshot_main_def env U(1,2))
qed

section \<open>Witnesses\<close>

lemma default_ultima:
  obtains cfg where "from_env (\<lambda>_. None) = Inr cfg" and "price_grid (geom_of (book_new cfg))"
    and "cfg_steady cfg + cfg_warmup cfg + cfg_iters cfg \<le> 4294967295" and "require_bump_capacity cfg = Inr ()"
    and "cfg_iters cfg = 100000" and "cfg_cap cfg < 2 ^ 32" and "0 < cfg_apply_batch cfg"
proof -
  obtain cfg where cfg: "from_env (\<lambda>_. None) = Inr cfg" "cfg_cap cfg = 262144" "cfg_levels cfg = 1024"
    "cfg_tick cfg = 1" "cfg_price_min cfg = 0" "cfg_steady cfg = 60000" "cfg_warmup cfg = 10000"
    "cfg_iters cfg = 100000"
    by (rule default_config)
  show thesis
    by (rule that [OF cfg(1) default_grid [OF cfg(2-5)]])
      (use steady_small(4) [OF cfg(1)] in \<open>simp_all add: require_bump_capacity_def cfg\<close>)
qed

theorem ultima_benches_complete_witness:
  "ultima_insert_main (plain_db (\<lambda>_. 1) (\<lambda>_. 1) (\<lambda>_. 1) (\<lambda>_. 1)) (\<lambda>_. None) of_nat =
     Inr (Inr (map of_nat [0..<100000]))"
proof -
  obtain cfg where "from_env (\<lambda>_. None) = Inr cfg" "price_grid (geom_of (book_new cfg))"
    "cfg_steady cfg + cfg_warmup cfg + cfg_iters cfg \<le> 4294967295" "require_bump_capacity cfg = Inr ()"
    "cfg_iters cfg = 100000" by (rule default_ultima)
  with ultima_benches_complete [OF plain_lawful, of "\<lambda>_. None" cfg] show ?thesis by simp
qed

theorem ultima_batches_complete_witness:
  "\<exists>n. ultima_batch_insert_main (plain_db (\<lambda>_. 1) (\<lambda>_. 1) (\<lambda>_. 1) (\<lambda>_. 1)) (\<lambda>_. None) of_nat =
     Inr (Inr (map of_nat [0..<n]))"
proof -
  obtain cfg where "from_env (\<lambda>_. None) = Inr cfg" "price_grid (geom_of (book_new cfg))"
    "cfg_steady cfg + cfg_warmup cfg + cfg_iters cfg \<le> 4294967295" "require_bump_capacity cfg = Inr ()"
    by (rule default_ultima)
  with ultima_batches_complete [OF plain_lawful, of "\<lambda>_. None" cfg] show ?thesis by blast
qed

theorem ultima_snapshot_main_completes_witness:
  "\<exists>n. ultima_snapshot_main (plain_db (\<lambda>_. 1) (\<lambda>_. 1) (\<lambda>_. 1) (\<lambda>_. 1)) (\<lambda>_. 0) (\<lambda>_. None) of_nat of_nat =
     Inr (Inr \<lparr>so_snap = map of_nat [0..<100000], so_rest = map of_nat [0..<100000], so_len = n\<rparr>)"
proof -
  obtain cfg where "from_env (\<lambda>_. None) = Inr cfg" "price_grid (geom_of (book_new cfg))" "cfg_cap cfg < 2 ^ 32"
    "cfg_iters cfg = 100000" by (rule default_ultima)
  with ultima_snapshot_main_completes [OF plain_lawful, of "\<lambda>_. None" cfg] show ?thesis by metis
qed

end
