(* ===== verification/Texts.thy ===== *)
theory Texts
  imports Smr_Config "HOL-Library.List_Lexorder" "HOL-Library.Char_ord" "HOL-Library.Product_Lexorder"
begin

text \<open>
  What the tools written in Rust share of its standard library: the lines of a string, decimal
  numbers, joining, and ordered maps. Strings are ASCII and compared byte by byte.
\<close>

section \<open>Strings\<close>

abbreviation newline :: string where "newline \<equiv> [CHR 0x0A]"

fun split_inclusive :: "string \<Rightarrow> string list" where
  "split_inclusive [] = []"
| "split_inclusive (c # cs) =
     (if c = CHR 0x0A then [c] # split_inclusive cs
      else case split_inclusive cs of [] \<Rightarrow> [[c]] | l # ls \<Rightarrow> (c # l) # ls)"

definition strip_eol :: "string \<Rightarrow> string" where
  "strip_eol l =
     (if l \<noteq> [] \<and> last l = CHR 0x0A then
        (let l = butlast l in if l \<noteq> [] \<and> last l = CHR 0x0D then butlast l else l)
      else l)"

definition str_lines :: "string \<Rightarrow> string list" where
  "str_lines s = map strip_eol (split_inclusive s)"

fun show_nat :: "nat \<Rightarrow> string" where
  "show_nat n = (if n < 10 then [char_of (48 + n)] else show_nat (n div 10) @ [char_of (48 + n mod 10)])"

declare show_nat.simps [simp del]

fun join_with :: "string \<Rightarrow> string list \<Rightarrow> string" where
  "join_with sep [] = []"
| "join_with sep [x] = x"
| "join_with sep (x # y # xs) = x @ sep @ join_with sep (y # xs)"

fun show_hex :: "nat \<Rightarrow> string" where
  "show_hex n =
     (let d = [char_of (if n mod 16 < 10 then 48 + n mod 16 else 87 + n mod 16)] in
      if n < 16 then d else show_hex (n div 16) @ d)"

declare show_hex.simps [simp del]

text \<open>\<open>{:?}\<close> of an ASCII string.\<close>

definition debug_char :: "char \<Rightarrow> string" where
  "debug_char c =
     (let bs = CHR 0x5C; n = of_char c in
      if c = CHR 0x00 then [bs, CHR ''0'']
      else if c = CHR 0x09 then [bs, CHR ''t'']
      else if c = CHR 0x0A then [bs, CHR ''n'']
      else if c = CHR 0x0D then [bs, CHR ''r'']
      else if c = CHR 0x22 \<or> c = bs then [bs, c]
      else if n < 32 \<or> n = 127 then [bs] @ ''u{'' @ show_hex n @ ''}''
      else [c])"

definition debug_str :: "string \<Rightarrow> string" where
  "debug_str s = [CHR 0x22] @ concat (map debug_char s) @ [CHR 0x22]"

text \<open>The pieces of a text: each but the last ends with its only newline.\<close>

fun lines_ok :: "string list \<Rightarrow> bool" where
  "lines_ok [] = True"
| "lines_ok [l] = (l \<noteq> [] \<and> CHR 0x0A \<notin> set (butlast l))"
| "lines_ok (l # ls) = (l \<noteq> [] \<and> last l = CHR 0x0A \<and> CHR 0x0A \<notin> set (butlast l) \<and> lines_ok ls)"

lemma split_inclusive_line: "CHR 0x0A \<notin> set l \<Longrightarrow> split_inclusive (l @ CHR 0x0A # r) = (l @ newline) # split_inclusive r"
  by (induction l) auto

lemma split_inclusive_last: "CHR 0x0A \<notin> set l \<Longrightarrow> l \<noteq> [] \<Longrightarrow> split_inclusive l = [l]"
proof (induction l)
  case (Cons c l)
  then show ?case by (cases "l = []") auto
qed simp

lemma lines_ok_split: "lines_ok (split_inclusive s)"
proof (induction s)
  case (Cons c s)
  then show ?case
    by (cases "split_inclusive s"; cases "tl (split_inclusive s)") auto
qed simp

lemma split_inclusive_concat: "lines_ok ls \<Longrightarrow> split_inclusive (concat ls) = ls"
proof (induction ls rule: lines_ok.induct)
  case (2 l)
  then have l: "l = butlast l @ [last l]" "CHR 0x0A \<notin> set (butlast l)" "l \<noteq> []" by simp_all
  show ?case
  proof (cases "last l = CHR 0x0A")
    case True
    then show ?thesis using split_inclusive_line [OF l(2), of "[]"] l(1) by simp
  next
    case False
    then have "CHR 0x0A \<notin> set l" using l by (metis Un_iff empty_iff insert_iff list.set set_append)
    then show ?thesis using split_inclusive_last l(3) by simp
  qed
next
  case (3 l l' ls)
  then have "l = butlast l @ newline" "CHR 0x0A \<notin> set (butlast l)"
    using append_butlast_last_id [of l] by simp_all
  then have "split_inclusive (l @ concat (l' # ls)) = l # split_inclusive (concat (l' # ls))"
    using split_inclusive_line [of "butlast l" "concat (l' # ls)"] by (metis append.assoc append_Cons append_Nil)
  with 3 show ?case by simp
qed simp

lemma lines_ok_drop: "lines_ok ls \<Longrightarrow> lines_ok (drop n ls)"
proof (induction ls arbitrary: n rule: lines_ok.induct)
  case (2 l)
  then show ?case by (cases n) auto
next
  case (3 l l' ls)
  then show ?case by (cases n) auto
qed simp

section \<open>BTreeMap\<close>

text \<open>A \<open>BTreeMap\<close> is the list of its entries in the order of the keys.\<close>

fun bt_insert :: "'k::linorder \<Rightarrow> 'a \<Rightarrow> ('k \<times> 'a) list \<Rightarrow> ('k \<times> 'a) list" where
  "bt_insert k v [] = [(k, v)]"
| "bt_insert k v ((k', v') # m) =
     (if k < k' then (k, v) # (k', v') # m
      else if k = k' then (k, v) # m
      else (k', v') # bt_insert k v m)"

definition bt_wf :: "('k::linorder \<times> 'a) list \<Rightarrow> bool" where
  "bt_wf m = sorted_wrt (<) (map fst m)"

lemma map_of_bt_insert [simp]: "map_of (bt_insert k v m) = (map_of m)(k \<mapsto> v)"
  by (induction m) auto

lemma set_bt_insert: "set (map fst (bt_insert k v m)) = insert k (set (map fst m))"
  by (simp flip: dom_map_of_conv_image_fst)

lemma bt_wf_insert [simp]: "bt_wf m \<Longrightarrow> bt_wf (bt_insert k v m)"
proof (induction m)
  case (Cons e m)
  obtain k' v' where e: "e = (k', v')" by (cases e)
  have "\<forall>x \<in> insert k (set (map fst m)). k' < x" if "\<not> k < k'" "k \<noteq> k'"
    using that Cons.prems by (auto simp: bt_wf_def e)
  then show ?case using Cons set_bt_insert [of k v m] by (auto simp: bt_wf_def e)
qed (simp add: bt_wf_def)

lemma bt_wf_fold: "(\<And>x m. bt_wf m \<Longrightarrow> bt_wf (f x m)) \<Longrightarrow> bt_wf m \<Longrightarrow> bt_wf (fold f xs m)"
  by (induction xs arbitrary: m) auto

lemma bt_wf_Nil [simp]: "bt_wf []"
  by (simp add: bt_wf_def)

lemma bt_wf_Cons: "bt_wf ((k, v) # m) \<Longrightarrow> bt_wf m \<and> map_of m k = None"
  by (auto simp: bt_wf_def map_of_eq_None_iff)

end
