(* ===== verification/Auto_Tasks.thy ===== *)
theory Auto_Tasks
  imports Prelude
begin

text \<open>
  The registry of the experiment runner (autobench/src/task_spec.rs): \<open>TaskSpec\<close>, one
  definition per row of the \<open>match\<close> of \<open>task_spec\<close>, in the order of the code, and the lookup.
\<close>

datatype kind = Network | Local

datatype direction = Minimize | Maximize

record task_row =
  ts_task :: string
  ts_language :: string
  ts_focus_area :: string
  ts_experiment :: string
  ts_kind :: kind
  ts_build :: "string list"
  ts_build_dir :: string
  ts_run :: "string list"
  ts_run_dir :: string
  ts_gate_a :: "string list"
  ts_gate_a_dir :: string
  ts_primary_metric :: string
  ts_direction :: direction
  ts_warmup_env :: string
  ts_iters_env :: string
  ts_extra_env :: "(string \<times> string) list"
  ts_expected_metrics :: "string list"
  ts_primary_key :: string

section \<open>The rows\<close>

definition rust_network_rtt_tcp_task :: task_row where
  "rust_network_rtt_tcp_task =
     \<lparr>ts_task = ''rust-network-rtt-tcp'', ts_language = ''rust'', ts_focus_area = ''network-rtt'',
      ts_experiment = ''tcp'', ts_kind = Network,
      ts_build = [''cargo'', ''build'', ''--release'', ''-p'', ''network-rtt-tcp''],
      ts_build_dir = ''rust'',
      ts_run = [''cargo'', ''run'', ''--release'', ''-q'', ''-p'', ''network-rtt-tcp''],
      ts_run_dir = ''rust'', ts_gate_a = [''cargo'', ''test''], ts_gate_a_dir = ''rust'',
      ts_primary_metric = ''rtt_p50'', ts_direction = Minimize, ts_warmup_env = ''RTT_WARMUP'',
      ts_iters_env = ''RTT_ITERATIONS'', ts_extra_env = [],
      ts_expected_metrics = [''rtt_p50_ns'', ''rtt_p99_ns'', ''rtt_mean_ns''],
      ts_primary_key = ''rtt_p50_ns''\<rparr>"

definition go_network_rtt_tcp_task :: task_row where
  "go_network_rtt_tcp_task =
     \<lparr>ts_task = ''go-network-rtt-tcp'', ts_language = ''go'', ts_focus_area = ''network-rtt'',
      ts_experiment = ''tcp'', ts_kind = Network,
      ts_build = [''go'', ''build'', ''-o'', ''bin/network-rtt-tcp'', ''./cmd/network-rtt-tcp''],
      ts_build_dir = ''go'', ts_run = [''./bin/network-rtt-tcp''], ts_run_dir = ''go'',
      ts_gate_a = [''go'', ''test'', ''./...''], ts_gate_a_dir = ''go'', ts_primary_metric = ''rtt_p50'',
      ts_direction = Minimize, ts_warmup_env = ''RTT_WARMUP'', ts_iters_env = ''RTT_ITERATIONS'',
      ts_extra_env = [], ts_expected_metrics = [''rtt_p50_ns'', ''rtt_p99_ns'', ''rtt_mean_ns''],
      ts_primary_key = ''rtt_p50_ns''\<rparr>"

definition java_network_rtt_tcp_task :: task_row where
  "java_network_rtt_tcp_task =
     \<lparr>ts_task = ''java-network-rtt-tcp'', ts_language = ''java'', ts_focus_area = ''network-rtt'',
      ts_experiment = ''tcp'', ts_kind = Network,
      ts_build = [''./gradlew'', ''--quiet'', '':network-rtt-tcp:installDist''], ts_build_dir = ''java'',
      ts_run = [''./network-rtt-tcp/build/install/network-rtt-tcp/bin/network-rtt-tcp''],
      ts_run_dir = ''java'',
      ts_gate_a = [''./gradlew'', ''--quiet'', '':network-rtt-tcp:test'', '':common:test''],
      ts_gate_a_dir = ''java'', ts_primary_metric = ''rtt_p50'', ts_direction = Minimize,
      ts_warmup_env = ''RTT_WARMUP'', ts_iters_env = ''RTT_ITERATIONS'', ts_extra_env = [],
      ts_expected_metrics = [''rtt_p50_ns'', ''rtt_p99_ns'', ''rtt_mean_ns''],
      ts_primary_key = ''rtt_p50_ns''\<rparr>"

definition rust_network_rtt_udp_task :: task_row where
  "rust_network_rtt_udp_task =
     \<lparr>ts_task = ''rust-network-rtt-udp'', ts_language = ''rust'', ts_focus_area = ''network-rtt'',
      ts_experiment = ''udp'', ts_kind = Network,
      ts_build = [''cargo'', ''build'', ''--release'', ''-p'', ''network-rtt-udp''],
      ts_build_dir = ''rust'',
      ts_run = [''cargo'', ''run'', ''--release'', ''-q'', ''-p'', ''network-rtt-udp''],
      ts_run_dir = ''rust'', ts_gate_a = [''cargo'', ''test''], ts_gate_a_dir = ''rust'',
      ts_primary_metric = ''rtt_p50'', ts_direction = Minimize, ts_warmup_env = ''RTT_WARMUP'',
      ts_iters_env = ''RTT_ITERATIONS'', ts_extra_env = [],
      ts_expected_metrics = [''rtt_p50_ns'', ''rtt_p99_ns'', ''rtt_mean_ns''],
      ts_primary_key = ''rtt_p50_ns''\<rparr>"

definition go_network_rtt_udp_task :: task_row where
  "go_network_rtt_udp_task =
     \<lparr>ts_task = ''go-network-rtt-udp'', ts_language = ''go'', ts_focus_area = ''network-rtt'',
      ts_experiment = ''udp'', ts_kind = Network,
      ts_build = [''go'', ''build'', ''-o'', ''bin/network-rtt-udp'', ''./cmd/network-rtt-udp''],
      ts_build_dir = ''go'', ts_run = [''./bin/network-rtt-udp''], ts_run_dir = ''go'',
      ts_gate_a = [''go'', ''test'', ''./...''], ts_gate_a_dir = ''go'', ts_primary_metric = ''rtt_p50'',
      ts_direction = Minimize, ts_warmup_env = ''RTT_WARMUP'', ts_iters_env = ''RTT_ITERATIONS'',
      ts_extra_env = [], ts_expected_metrics = [''rtt_p50_ns'', ''rtt_p99_ns'', ''rtt_mean_ns''],
      ts_primary_key = ''rtt_p50_ns''\<rparr>"

definition java_network_rtt_udp_task :: task_row where
  "java_network_rtt_udp_task =
     \<lparr>ts_task = ''java-network-rtt-udp'', ts_language = ''java'', ts_focus_area = ''network-rtt'',
      ts_experiment = ''udp'', ts_kind = Network,
      ts_build = [''./gradlew'', ''--quiet'', '':network-rtt-udp:installDist''], ts_build_dir = ''java'',
      ts_run = [''./network-rtt-udp/build/install/network-rtt-udp/bin/network-rtt-udp''],
      ts_run_dir = ''java'',
      ts_gate_a = [''./gradlew'', ''--quiet'', '':network-rtt-udp:test'', '':common:test''],
      ts_gate_a_dir = ''java'', ts_primary_metric = ''rtt_p50'', ts_direction = Minimize,
      ts_warmup_env = ''RTT_WARMUP'', ts_iters_env = ''RTT_ITERATIONS'', ts_extra_env = [],
      ts_expected_metrics = [''rtt_p50_ns'', ''rtt_p99_ns'', ''rtt_mean_ns''],
      ts_primary_key = ''rtt_p50_ns''\<rparr>"

definition rust_network_rtt_quic_task :: task_row where
  "rust_network_rtt_quic_task =
     \<lparr>ts_task = ''rust-network-rtt-quic'', ts_language = ''rust'', ts_focus_area = ''network-rtt'',
      ts_experiment = ''quic'', ts_kind = Network,
      ts_build = [''cargo'', ''build'', ''--release'', ''-p'', ''network-rtt-quic''],
      ts_build_dir = ''rust'',
      ts_run = [''cargo'', ''run'', ''--release'', ''-q'', ''-p'', ''network-rtt-quic''],
      ts_run_dir = ''rust'', ts_gate_a = [''cargo'', ''test''], ts_gate_a_dir = ''rust'',
      ts_primary_metric = ''rtt_p50'', ts_direction = Minimize, ts_warmup_env = ''RTT_WARMUP'',
      ts_iters_env = ''RTT_ITERATIONS'', ts_extra_env = [],
      ts_expected_metrics = [''rtt_p50_ns'', ''rtt_p99_ns'', ''rtt_mean_ns''],
      ts_primary_key = ''rtt_p50_ns''\<rparr>"

definition go_network_rtt_quic_task :: task_row where
  "go_network_rtt_quic_task =
     \<lparr>ts_task = ''go-network-rtt-quic'', ts_language = ''go'', ts_focus_area = ''network-rtt'',
      ts_experiment = ''quic'', ts_kind = Network,
      ts_build = [''go'', ''build'', ''-o'', ''bin/network-rtt-quic'', ''./cmd/network-rtt-quic''],
      ts_build_dir = ''go'', ts_run = [''./bin/network-rtt-quic''], ts_run_dir = ''go'',
      ts_gate_a = [''go'', ''test'', ''./...''], ts_gate_a_dir = ''go'', ts_primary_metric = ''rtt_p50'',
      ts_direction = Minimize, ts_warmup_env = ''RTT_WARMUP'', ts_iters_env = ''RTT_ITERATIONS'',
      ts_extra_env = [], ts_expected_metrics = [''rtt_p50_ns'', ''rtt_p99_ns'', ''rtt_mean_ns''],
      ts_primary_key = ''rtt_p50_ns''\<rparr>"

definition java_network_rtt_quic_task :: task_row where
  "java_network_rtt_quic_task =
     \<lparr>ts_task = ''java-network-rtt-quic'', ts_language = ''java'', ts_focus_area = ''network-rtt'',
      ts_experiment = ''quic'', ts_kind = Network,
      ts_build = [''./gradlew'', ''--quiet'', '':network-rtt-quic:installDist''], ts_build_dir = ''java'',
      ts_run = [''./network-rtt-quic/build/install/network-rtt-quic/bin/network-rtt-quic''],
      ts_run_dir = ''java'',
      ts_gate_a = [''./gradlew'', ''--quiet'', '':network-rtt-quic:test'', '':common:test''],
      ts_gate_a_dir = ''java'', ts_primary_metric = ''rtt_p50'', ts_direction = Minimize,
      ts_warmup_env = ''RTT_WARMUP'', ts_iters_env = ''RTT_ITERATIONS'', ts_extra_env = [],
      ts_expected_metrics = [''rtt_p50_ns'', ''rtt_p99_ns'', ''rtt_mean_ns''],
      ts_primary_key = ''rtt_p50_ns''\<rparr>"

definition rust_thread_handoff_spin_task :: task_row where
  "rust_thread_handoff_spin_task =
     \<lparr>ts_task = ''rust-thread-handoff-spin'', ts_language = ''rust'',
      ts_focus_area = ''thread-handoff'', ts_experiment = ''spin'', ts_kind = Local,
      ts_build = [''cargo'', ''build'', ''--release'', ''-p'', ''thread-handoff-spin''],
      ts_build_dir = ''rust'',
      ts_run = [''cargo'', ''run'', ''--release'', ''-q'', ''-p'', ''thread-handoff-spin''],
      ts_run_dir = ''rust'', ts_gate_a = [''cargo'', ''test''], ts_gate_a_dir = ''rust'',
      ts_primary_metric = ''handoff_rtt_p50'', ts_direction = Minimize, ts_warmup_env = ''TH_WARMUP'',
      ts_iters_env = ''TH_ITERATIONS'', ts_extra_env = [],
      ts_expected_metrics = [''handoff_rtt_p50_ns'', ''handoff_rtt_p99_ns'', ''handoff_rtt_mean_ns''],
      ts_primary_key = ''handoff_rtt_p50_ns''\<rparr>"

definition rust_thread_handoff_ring_task :: task_row where
  "rust_thread_handoff_ring_task =
     \<lparr>ts_task = ''rust-thread-handoff-ring'', ts_language = ''rust'',
      ts_focus_area = ''thread-handoff'', ts_experiment = ''ring'', ts_kind = Local,
      ts_build = [''cargo'', ''build'', ''--release'', ''-p'', ''thread-handoff-ring''],
      ts_build_dir = ''rust'',
      ts_run = [''cargo'', ''run'', ''--release'', ''-q'', ''-p'', ''thread-handoff-ring''],
      ts_run_dir = ''rust'', ts_gate_a = [''cargo'', ''test''], ts_gate_a_dir = ''rust'',
      ts_primary_metric = ''handoff_throughput'', ts_direction = Maximize, ts_warmup_env = ''TH_WARMUP'',
      ts_iters_env = ''TH_ITERATIONS'', ts_extra_env = [(''TH_RING_CAP'', ''1024'')],
      ts_expected_metrics = [''handoff_throughput_ops_per_sec''],
      ts_primary_key = ''handoff_throughput_ops_per_sec''\<rparr>"

definition rust_thread_handoff_disruptor_task :: task_row where
  "rust_thread_handoff_disruptor_task =
     \<lparr>ts_task = ''rust-thread-handoff-disruptor'', ts_language = ''rust'',
      ts_focus_area = ''thread-handoff'', ts_experiment = ''disruptor'', ts_kind = Local,
      ts_build = [''cargo'', ''build'', ''--release'', ''-p'', ''thread-handoff-disruptor''],
      ts_build_dir = ''rust'',
      ts_run = [''cargo'', ''run'', ''--release'', ''-q'', ''-p'', ''thread-handoff-disruptor''],
      ts_run_dir = ''rust'', ts_gate_a = [''cargo'', ''test''], ts_gate_a_dir = ''rust'',
      ts_primary_metric = ''handoff_throughput'', ts_direction = Maximize, ts_warmup_env = ''TH_WARMUP'',
      ts_iters_env = ''TH_ITERATIONS'', ts_extra_env = [(''TH_RING_CAP'', ''1024'')],
      ts_expected_metrics = [''handoff_throughput_ops_per_sec''],
      ts_primary_key = ''handoff_throughput_ops_per_sec''\<rparr>"

definition go_thread_handoff_spin_task :: task_row where
  "go_thread_handoff_spin_task =
     \<lparr>ts_task = ''go-thread-handoff-spin'', ts_language = ''go'', ts_focus_area = ''thread-handoff'',
      ts_experiment = ''spin'', ts_kind = Local,
      ts_build = [''go'', ''build'', ''-o'', ''bin/thread-handoff-spin'', ''./cmd/thread-handoff-spin''],
      ts_build_dir = ''go'', ts_run = [''./bin/thread-handoff-spin''], ts_run_dir = ''go'',
      ts_gate_a = [''go'', ''test'', ''./...''], ts_gate_a_dir = ''go'',
      ts_primary_metric = ''handoff_rtt_p50'', ts_direction = Minimize, ts_warmup_env = ''TH_WARMUP'',
      ts_iters_env = ''TH_ITERATIONS'', ts_extra_env = [],
      ts_expected_metrics = [''handoff_rtt_p50_ns'', ''handoff_rtt_p99_ns'', ''handoff_rtt_mean_ns''],
      ts_primary_key = ''handoff_rtt_p50_ns''\<rparr>"

definition go_thread_handoff_ring_task :: task_row where
  "go_thread_handoff_ring_task =
     \<lparr>ts_task = ''go-thread-handoff-ring'', ts_language = ''go'', ts_focus_area = ''thread-handoff'',
      ts_experiment = ''ring'', ts_kind = Local,
      ts_build = [''go'', ''build'', ''-o'', ''bin/thread-handoff-ring'', ''./cmd/thread-handoff-ring''],
      ts_build_dir = ''go'', ts_run = [''./bin/thread-handoff-ring''], ts_run_dir = ''go'',
      ts_gate_a = [''go'', ''test'', ''./...''], ts_gate_a_dir = ''go'',
      ts_primary_metric = ''handoff_throughput'', ts_direction = Maximize, ts_warmup_env = ''TH_WARMUP'',
      ts_iters_env = ''TH_ITERATIONS'', ts_extra_env = [(''TH_RING_CAP'', ''1024'')],
      ts_expected_metrics = [''handoff_throughput_ops_per_sec''],
      ts_primary_key = ''handoff_throughput_ops_per_sec''\<rparr>"

definition java_thread_handoff_spin_task :: task_row where
  "java_thread_handoff_spin_task =
     \<lparr>ts_task = ''java-thread-handoff-spin'', ts_language = ''java'',
      ts_focus_area = ''thread-handoff'', ts_experiment = ''spin'', ts_kind = Local,
      ts_build = [''./gradlew'', ''--quiet'', '':thread-handoff-spin:installDist''],
      ts_build_dir = ''java'',
      ts_run = [''./thread-handoff-spin/build/install/thread-handoff-spin/bin/thread-handoff-spin''],
      ts_run_dir = ''java'',
      ts_gate_a = [''./gradlew'', ''--quiet'', '':thread-handoff-spin:test'', '':common:test''],
      ts_gate_a_dir = ''java'', ts_primary_metric = ''handoff_rtt_p50'', ts_direction = Minimize,
      ts_warmup_env = ''TH_WARMUP'', ts_iters_env = ''TH_ITERATIONS'', ts_extra_env = [],
      ts_expected_metrics = [''handoff_rtt_p50_ns'', ''handoff_rtt_p99_ns'', ''handoff_rtt_mean_ns''],
      ts_primary_key = ''handoff_rtt_p50_ns''\<rparr>"

definition java_thread_handoff_ring_task :: task_row where
  "java_thread_handoff_ring_task =
     \<lparr>ts_task = ''java-thread-handoff-ring'', ts_language = ''java'',
      ts_focus_area = ''thread-handoff'', ts_experiment = ''ring'', ts_kind = Local,
      ts_build = [''./gradlew'', ''--quiet'', '':thread-handoff-ring:installDist''],
      ts_build_dir = ''java'',
      ts_run = [''./thread-handoff-ring/build/install/thread-handoff-ring/bin/thread-handoff-ring''],
      ts_run_dir = ''java'',
      ts_gate_a = [''./gradlew'', ''--quiet'', '':thread-handoff-ring:test'', '':common:test''],
      ts_gate_a_dir = ''java'', ts_primary_metric = ''handoff_throughput'', ts_direction = Maximize,
      ts_warmup_env = ''TH_WARMUP'', ts_iters_env = ''TH_ITERATIONS'',
      ts_extra_env = [(''TH_RING_CAP'', ''1024'')],
      ts_expected_metrics = [''handoff_throughput_ops_per_sec''],
      ts_primary_key = ''handoff_throughput_ops_per_sec''\<rparr>"

definition rust_thread_handoff_condvar_task :: task_row where
  "rust_thread_handoff_condvar_task =
     \<lparr>ts_task = ''rust-thread-handoff-condvar'', ts_language = ''rust'',
      ts_focus_area = ''thread-handoff'', ts_experiment = ''condvar'', ts_kind = Local,
      ts_build = [''cargo'', ''build'', ''--release'', ''-p'', ''thread-handoff-condvar''],
      ts_build_dir = ''rust'',
      ts_run = [''cargo'', ''run'', ''--release'', ''-q'', ''-p'', ''thread-handoff-condvar''],
      ts_run_dir = ''rust'', ts_gate_a = [''cargo'', ''test''], ts_gate_a_dir = ''rust'',
      ts_primary_metric = ''handoff_rtt_p50'', ts_direction = Minimize, ts_warmup_env = ''TH_WARMUP'',
      ts_iters_env = ''TH_ITERATIONS'', ts_extra_env = [],
      ts_expected_metrics = [''handoff_rtt_p50_ns'', ''handoff_rtt_p99_ns'', ''handoff_rtt_mean_ns''],
      ts_primary_key = ''handoff_rtt_p50_ns''\<rparr>"

definition go_thread_handoff_condvar_task :: task_row where
  "go_thread_handoff_condvar_task =
     \<lparr>ts_task = ''go-thread-handoff-condvar'', ts_language = ''go'',
      ts_focus_area = ''thread-handoff'', ts_experiment = ''condvar'', ts_kind = Local,
      ts_build = [''go'', ''build'', ''-o'', ''bin/thread-handoff-condvar'', ''./cmd/thread-handoff-condvar''],
      ts_build_dir = ''go'', ts_run = [''./bin/thread-handoff-condvar''], ts_run_dir = ''go'',
      ts_gate_a = [''go'', ''test'', ''./...''], ts_gate_a_dir = ''go'',
      ts_primary_metric = ''handoff_rtt_p50'', ts_direction = Minimize, ts_warmup_env = ''TH_WARMUP'',
      ts_iters_env = ''TH_ITERATIONS'', ts_extra_env = [],
      ts_expected_metrics = [''handoff_rtt_p50_ns'', ''handoff_rtt_p99_ns'', ''handoff_rtt_mean_ns''],
      ts_primary_key = ''handoff_rtt_p50_ns''\<rparr>"

definition java_thread_handoff_condvar_task :: task_row where
  "java_thread_handoff_condvar_task =
     \<lparr>ts_task = ''java-thread-handoff-condvar'', ts_language = ''java'',
      ts_focus_area = ''thread-handoff'', ts_experiment = ''condvar'', ts_kind = Local,
      ts_build = [''./gradlew'', ''--quiet'', '':thread-handoff-condvar:installDist''],
      ts_build_dir = ''java'',
      ts_run = [''./thread-handoff-condvar/build/install/thread-handoff-condvar/bin/thread-handoff-condvar''],
      ts_run_dir = ''java'',
      ts_gate_a = [''./gradlew'', ''--quiet'', '':thread-handoff-condvar:test'', '':common:test''],
      ts_gate_a_dir = ''java'', ts_primary_metric = ''handoff_rtt_p50'', ts_direction = Minimize,
      ts_warmup_env = ''TH_WARMUP'', ts_iters_env = ''TH_ITERATIONS'', ts_extra_env = [],
      ts_expected_metrics = [''handoff_rtt_p50_ns'', ''handoff_rtt_p99_ns'', ''handoff_rtt_mean_ns''],
      ts_primary_key = ''handoff_rtt_p50_ns''\<rparr>"

definition rust_thread_handoff_channel_task :: task_row where
  "rust_thread_handoff_channel_task =
     \<lparr>ts_task = ''rust-thread-handoff-channel'', ts_language = ''rust'',
      ts_focus_area = ''thread-handoff'', ts_experiment = ''channel'', ts_kind = Local,
      ts_build = [''cargo'', ''build'', ''--release'', ''-p'', ''thread-handoff-channel''],
      ts_build_dir = ''rust'',
      ts_run = [''cargo'', ''run'', ''--release'', ''-q'', ''-p'', ''thread-handoff-channel''],
      ts_run_dir = ''rust'', ts_gate_a = [''cargo'', ''test''], ts_gate_a_dir = ''rust'',
      ts_primary_metric = ''handoff_rtt_p50'', ts_direction = Minimize, ts_warmup_env = ''TH_WARMUP'',
      ts_iters_env = ''TH_ITERATIONS'', ts_extra_env = [],
      ts_expected_metrics = [''handoff_rtt_p50_ns'', ''handoff_rtt_p99_ns'', ''handoff_rtt_mean_ns''],
      ts_primary_key = ''handoff_rtt_p50_ns''\<rparr>"

definition go_thread_handoff_channel_task :: task_row where
  "go_thread_handoff_channel_task =
     \<lparr>ts_task = ''go-thread-handoff-channel'', ts_language = ''go'',
      ts_focus_area = ''thread-handoff'', ts_experiment = ''channel'', ts_kind = Local,
      ts_build = [''go'', ''build'', ''-o'', ''bin/thread-handoff-channel'', ''./cmd/thread-handoff-channel''],
      ts_build_dir = ''go'', ts_run = [''./bin/thread-handoff-channel''], ts_run_dir = ''go'',
      ts_gate_a = [''go'', ''test'', ''./...''], ts_gate_a_dir = ''go'',
      ts_primary_metric = ''handoff_rtt_p50'', ts_direction = Minimize, ts_warmup_env = ''TH_WARMUP'',
      ts_iters_env = ''TH_ITERATIONS'', ts_extra_env = [],
      ts_expected_metrics = [''handoff_rtt_p50_ns'', ''handoff_rtt_p99_ns'', ''handoff_rtt_mean_ns''],
      ts_primary_key = ''handoff_rtt_p50_ns''\<rparr>"

definition java_thread_handoff_channel_task :: task_row where
  "java_thread_handoff_channel_task =
     \<lparr>ts_task = ''java-thread-handoff-channel'', ts_language = ''java'',
      ts_focus_area = ''thread-handoff'', ts_experiment = ''channel'', ts_kind = Local,
      ts_build = [''./gradlew'', ''--quiet'', '':thread-handoff-channel:installDist''],
      ts_build_dir = ''java'',
      ts_run = [''./thread-handoff-channel/build/install/thread-handoff-channel/bin/thread-handoff-channel''],
      ts_run_dir = ''java'',
      ts_gate_a = [''./gradlew'', ''--quiet'', '':thread-handoff-channel:test'', '':common:test''],
      ts_gate_a_dir = ''java'', ts_primary_metric = ''handoff_rtt_p50'', ts_direction = Minimize,
      ts_warmup_env = ''TH_WARMUP'', ts_iters_env = ''TH_ITERATIONS'', ts_extra_env = [],
      ts_expected_metrics = [''handoff_rtt_p50_ns'', ''handoff_rtt_p99_ns'', ''handoff_rtt_mean_ns''],
      ts_primary_key = ''handoff_rtt_p50_ns''\<rparr>"

section \<open>The lookup\<close>

definition task_spec :: "string \<Rightarrow> task_row option" where
  "task_spec task =
     (if task = ''rust-network-rtt-tcp'' then Some rust_network_rtt_tcp_task
      else if task = ''go-network-rtt-tcp'' then Some go_network_rtt_tcp_task
      else if task = ''java-network-rtt-tcp'' then Some java_network_rtt_tcp_task
      else if task = ''rust-network-rtt-udp'' then Some rust_network_rtt_udp_task
      else if task = ''go-network-rtt-udp'' then Some go_network_rtt_udp_task
      else if task = ''java-network-rtt-udp'' then Some java_network_rtt_udp_task
      else if task = ''rust-network-rtt-quic'' then Some rust_network_rtt_quic_task
      else if task = ''go-network-rtt-quic'' then Some go_network_rtt_quic_task
      else if task = ''java-network-rtt-quic'' then Some java_network_rtt_quic_task
      else if task = ''rust-thread-handoff-spin'' then Some rust_thread_handoff_spin_task
      else if task = ''rust-thread-handoff-ring'' then Some rust_thread_handoff_ring_task
      else if task = ''rust-thread-handoff-disruptor'' then Some rust_thread_handoff_disruptor_task
      else if task = ''go-thread-handoff-spin'' then Some go_thread_handoff_spin_task
      else if task = ''go-thread-handoff-ring'' then Some go_thread_handoff_ring_task
      else if task = ''java-thread-handoff-spin'' then Some java_thread_handoff_spin_task
      else if task = ''java-thread-handoff-ring'' then Some java_thread_handoff_ring_task
      else if task = ''rust-thread-handoff-condvar'' then Some rust_thread_handoff_condvar_task
      else if task = ''go-thread-handoff-condvar'' then Some go_thread_handoff_condvar_task
      else if task = ''java-thread-handoff-condvar'' then Some java_thread_handoff_condvar_task
      else if task = ''rust-thread-handoff-channel'' then Some rust_thread_handoff_channel_task
      else if task = ''go-thread-handoff-channel'' then Some go_thread_handoff_channel_task
      else if task = ''java-thread-handoff-channel'' then Some java_thread_handoff_channel_task
      else None)"

text \<open>Everything a lookup can return.\<close>

definition task_rows :: "task_row list" where
  "task_rows =
     [rust_network_rtt_tcp_task,
      go_network_rtt_tcp_task,
      java_network_rtt_tcp_task,
      rust_network_rtt_udp_task,
      go_network_rtt_udp_task,
      java_network_rtt_udp_task,
      rust_network_rtt_quic_task,
      go_network_rtt_quic_task,
      java_network_rtt_quic_task,
      rust_thread_handoff_spin_task,
      rust_thread_handoff_ring_task,
      rust_thread_handoff_disruptor_task,
      go_thread_handoff_spin_task,
      go_thread_handoff_ring_task,
      java_thread_handoff_spin_task,
      java_thread_handoff_ring_task,
      rust_thread_handoff_condvar_task,
      go_thread_handoff_condvar_task,
      java_thread_handoff_condvar_task,
      rust_thread_handoff_channel_task,
      go_thread_handoff_channel_task,
      java_thread_handoff_channel_task]"

lemmas task_row_defs =
  rust_network_rtt_tcp_task_def  go_network_rtt_tcp_task_def  java_network_rtt_tcp_task_def
  rust_network_rtt_udp_task_def  go_network_rtt_udp_task_def  java_network_rtt_udp_task_def
  rust_network_rtt_quic_task_def  go_network_rtt_quic_task_def  java_network_rtt_quic_task_def
  rust_thread_handoff_spin_task_def  rust_thread_handoff_ring_task_def  rust_thread_handoff_disruptor_task_def
  go_thread_handoff_spin_task_def  go_thread_handoff_ring_task_def  java_thread_handoff_spin_task_def
  java_thread_handoff_ring_task_def  rust_thread_handoff_condvar_task_def  go_thread_handoff_condvar_task_def
  java_thread_handoff_condvar_task_def  rust_thread_handoff_channel_task_def  go_thread_handoff_channel_task_def
  java_thread_handoff_channel_task_def

end
