(* ===== verification/Auto_Sampling.thy ===== *)
theory Auto_Sampling
  imports Texts Auto_Tasks
begin

text \<open>
  One run of a benchmark under the experiment runner (autobench/src/sampling.rs and
  autobench/src/lib.rs): the median, the parser of the result lines, the readiness probes and the
  two drivers \<open>run_local_once\<close> and \<open>run_network_once\<close>.

  Processes, sockets and the JSON library are outside the repository; they are the argument
  \<open>X :: ('w, 'c, 's, 'j, 'v) outside\<close>, whose operations transform an opaque state \<open>'w\<close> and say how
  long they took. A read that never ends is \<open>None\<close>. The clock of a \<open>world\<close> is in milliseconds and
  \<open>children\<close> counts the processes that are started and not yet reaped. The values of the metrics
  are finite floating-point numbers of which only the order and zero are used: any linear order.
\<close>

section \<open>What the runner calls\<close>

datatype path = Under "string list" string | As_given string

record command =
  cmd_argv :: "string list"
  cmd_dir :: path
  cmd_env :: "string \<rightharpoonup> string"

record captured =
  out_success :: bool
  out_stdout :: string
  out_stderr :: string

record ('w, 'c, 's, 'j, 'v) outside =
  ox_cwd :: "string list option"
  ox_has_git :: "string list \<Rightarrow> bool"
  ox_output :: "command \<Rightarrow> 'w \<Rightarrow> (string + captured) \<times> nat \<times> 'w"
  ox_spawn :: "command \<Rightarrow> 'w \<Rightarrow> (string + 'c) \<times> nat \<times> 'w"
  ox_wait_timeout :: "'c \<Rightarrow> nat \<Rightarrow> 'w \<Rightarrow> (string + bool option) \<times> nat \<times> 'w"
  ox_kill_wait :: "'c \<Rightarrow> 'w \<Rightarrow> unit \<times> nat \<times> 'w"
  ox_read_stdout :: "'c \<Rightarrow> 'w \<Rightarrow> (string \<times> nat \<times> 'w) option"
  ox_read_stderr :: "'c \<Rightarrow> 'w \<Rightarrow> (string \<times> nat \<times> 'w) option"
  ox_connect :: "nat \<Rightarrow> 'w \<Rightarrow> bool \<times> nat \<times> 'w"
  ox_udp_bind :: "nat \<Rightarrow> 'w \<Rightarrow> 's option \<times> nat \<times> 'w"
  ox_udp_close :: "'s \<Rightarrow> 'w \<Rightarrow> unit \<times> nat \<times> 'w"
  ox_send_to :: "'s \<Rightarrow> string \<Rightarrow> nat \<Rightarrow> 'w \<Rightarrow> bool \<times> nat \<times> 'w"
  ox_recv_from :: "'s \<Rightarrow> nat \<Rightarrow> 'w \<Rightarrow> bool \<times> nat \<times> 'w"
  ox_oversleep :: "'w \<Rightarrow> unit \<times> nat \<times> 'w"
  js_from_str :: "string \<Rightarrow> 'j option"
  js_get :: "'j \<Rightarrow> string \<Rightarrow> 'j option"
  js_as_str :: "'j \<Rightarrow> string option"
  js_as_f64 :: "'j \<Rightarrow> 'v option"
  show_f64 :: "'v \<Rightarrow> string"

record 'w world =
  clock :: nat
  children :: nat
  outer :: 'w

definition call :: "('w \<Rightarrow> 'r \<times> nat \<times> 'w) \<Rightarrow> 'w world \<Rightarrow> 'r \<times> 'w world" where
  "call f w = (case f (outer w) of (r, dt, x) \<Rightarrow> (r, w\<lparr>clock := clock w + dt, outer := x\<rparr>))"

definition spawn :: "('w, 'c, 's, 'j, 'v) outside \<Rightarrow> command \<Rightarrow> 'w world \<Rightarrow> (string + 'c) \<times> 'w world" where
  "spawn X cmd w =
     (case call (ox_spawn X cmd) w of
        (Inl e, w) \<Rightarrow> (Inl e, w)
      | (Inr c, w) \<Rightarrow> (Inr c, w\<lparr>children := children w + 1\<rparr>))"

definition reap :: "('w, 'c, 's, 'j, 'v) outside \<Rightarrow> 'c \<Rightarrow> 'w world \<Rightarrow> 'w world" where
  "reap X c w = (case call (ox_kill_wait X c) w of (_, w) \<Rightarrow> w\<lparr>children := children w - 1\<rparr>)"

section \<open>Median\<close>

definition median :: "'v::{linorder,zero} list \<Rightarrow> 'v" where
  "median xs = (if xs = [] then 0 else sort xs ! ((length xs - 1) div 2))"

section \<open>The result lines\<close>

definition js_str_field :: "('w, 'c, 's, 'j, 'v) outside \<Rightarrow> 'j \<Rightarrow> string \<Rightarrow> string option" where
  "js_str_field X v k = Option.bind (js_get X v k) (js_as_str X)"

text \<open>The body of the loop over the lines, where each \<open>continue\<close> leaves the map as it is.\<close>

definition contract_line ::
  "('w, 'c, 's, 'j, 'v) outside \<Rightarrow> string \<Rightarrow> string \<Rightarrow> string \<Rightarrow> (string \<times> 'v) list \<Rightarrow> (string \<times> 'v) list" where
  "contract_line X focus_area experiment line out =
     (let line = trim line in
      if line = [] then out
      else case js_from_str X line of None \<Rightarrow> out | Some v \<Rightarrow>
        if js_str_field X v ''focus_area'' \<noteq> Some focus_area then out
        else if js_str_field X v ''experiment'' \<noteq> Some experiment then out
        else case js_str_field X v ''metric'' of None \<Rightarrow> out | Some metric \<Rightarrow>
          case js_str_field X v ''unit'' of None \<Rightarrow> out | Some unit \<Rightarrow>
          case Option.bind (js_get X v ''value'') (js_as_f64 X) of None \<Rightarrow> out | Some value \<Rightarrow>
            bt_insert (metric @ ''_'' @ unit) value out)"

definition parse_contract_metrics ::
  "('w, 'c, 's, 'j, 'v) outside \<Rightarrow> string \<Rightarrow> string \<Rightarrow> string \<Rightarrow> (string \<times> 'v) list" where
  "parse_contract_metrics X stdout focus_area experiment =
     fold (contract_line X focus_area experiment) (str_lines stdout) []"

section \<open>Launching the artifact\<close>

text \<open>The ancestors of the current directory, up to the root \<open>[]\<close>.\<close>

function resolve_up :: "(string list \<Rightarrow> bool) \<Rightarrow> string list \<Rightarrow> string \<Rightarrow> path" where
  "resolve_up has_git p dir =
     (if has_git p then Under p dir
      else if p = [] then As_given dir
      else resolve_up has_git (butlast p) dir)"
  by auto
termination by (relation "measure (\<lambda>(_, p, _). length p)") auto

declare resolve_up.simps [simp del]

definition resolve_dir :: "('w, 'c, 's, 'j, 'v) outside \<Rightarrow> string \<Rightarrow> path" where
  "resolve_dir X dir =
     (case ox_cwd X of None \<Rightarrow> As_given dir | Some p \<Rightarrow> resolve_up (ox_has_git X) p dir)"

definition run_command ::
  "('w, 'c, 's, 'j, 'v) outside \<Rightarrow> string list \<Rightarrow> string \<Rightarrow> (string \<times> string) list \<Rightarrow> panic + command" where
  "run_command X run run_dir env =
     (if run = [] then Inl Index_out_of_bounds
      else Inr \<lparr>cmd_argv = run, cmd_dir = resolve_dir X run_dir,
                cmd_env = fold (\<lambda>(k, v) m. m(k \<mapsto> v)) env Map.empty\<rparr>)"

section \<open>Readiness\<close>

text \<open>\<open>thread::sleep\<close> of 20 ms takes at least that long.\<close>

definition nap :: "('w, 'c, 's, 'j, 'v) outside \<Rightarrow> 'w world \<Rightarrow> 'w world" where
  "nap X w = (case call (ox_oversleep X) w of (_, w) \<Rightarrow> w\<lparr>clock := clock w + 20\<rparr>)"

lemma clock_call: "clock w \<le> clock (snd (call f w))"
  by (simp add: call_def split: prod.split)

lemma clock_nap: "clock w < clock (nap X w)"
  using clock_call [of w "ox_oversleep X"] by (auto simp: nap_def split: prod.split)

text \<open>The loop of the three probes: probe and sleep until the deadline.\<close>

function poll ::
  "('w, 'c, 's, 'j, 'v) outside \<Rightarrow> ('w \<Rightarrow> bool \<times> nat \<times> 'w) \<Rightarrow> nat \<Rightarrow> 'w world \<Rightarrow> bool \<times> 'w world" where
  "poll X probe deadline w =
     (if clock w < deadline then
        (let (r, w') = call probe w in
         if r then (True, w') else poll X probe deadline (nap X w'))
      else (False, w))"
  by auto
termination
proof (relation "measure (\<lambda>(_, _, deadline, w). deadline - clock w)", goal_cases)
  case (2 X probe deadline w p r w')
  then have "clock w \<le> clock w'" using clock_call [of w probe] by (metis snd_conv)
  then have "clock w < clock (nap X w')" using clock_nap [of w' X] by simp
  then show ?case using 2(1) by simp
qed simp

declare poll.simps [simp del]

definition wait_for_bind :: "('w, 'c, 's, 'j, 'v) outside \<Rightarrow> nat \<Rightarrow> nat \<Rightarrow> 'w world \<Rightarrow> bool \<times> 'w world" where
  "wait_for_bind X port timeout w = poll X (ox_connect X port) (clock w + timeout) w"

definition echo_probe :: "('w, 'c, 's, 'j, 'v) outside \<Rightarrow> 's \<Rightarrow> nat \<Rightarrow> 'w \<Rightarrow> bool \<times> nat \<times> 'w" where
  "echo_probe X sock port x =
     (case ox_send_to X sock ''PING'' port x of (sent, d, x) \<Rightarrow>
      if sent then (case ox_recv_from X sock 50 x of (r, d', x) \<Rightarrow> (r, d + d', x))
      else (False, d, x))"

definition wait_for_udp_echo :: "('w, 'c, 's, 'j, 'v) outside \<Rightarrow> nat \<Rightarrow> nat \<Rightarrow> 'w world \<Rightarrow> bool \<times> 'w world" where
  "wait_for_udp_echo X port timeout w =
     (case call (ox_udp_bind X 0) w of
        (None, w) \<Rightarrow> (False, w)
      | (Some sock, w) \<Rightarrow>
          (case poll X (echo_probe X sock port) (clock w + timeout) w of (r, w) \<Rightarrow>
             (r, snd (call (ox_udp_close X sock) w))))"

definition bind_probe :: "('w, 'c, 's, 'j, 'v) outside \<Rightarrow> nat \<Rightarrow> 'w \<Rightarrow> bool \<times> nat \<times> 'w" where
  "bind_probe X port x =
     (case ox_udp_bind X port x of
        (Some sock, d, x) \<Rightarrow> (case ox_udp_close X sock x of (_, d', x) \<Rightarrow> (False, d + d', x))
      | (None, d, x) \<Rightarrow> (True, d, x))"

definition wait_for_udp_bind_probe ::
  "('w, 'c, 's, 'j, 'v) outside \<Rightarrow> nat \<Rightarrow> nat \<Rightarrow> 'w world \<Rightarrow> bool \<times> 'w world" where
  "wait_for_udp_bind_probe X port timeout w = poll X (bind_probe X port) (clock w + timeout) w"

section \<open>One run\<close>

datatype transport = Tcp | Udp | Quic

definition from_experiment :: "string \<Rightarrow> transport" where
  "from_experiment experiment =
     (if experiment = ''udp'' then Udp else if experiment = ''quic'' then Quic else Tcp)"

fun port_env :: "transport \<Rightarrow> string" where
  "port_env Tcp = ''RTT_TCP_PORT''"
| "port_env Udp = ''RTT_UDP_PORT''"
| "port_env Quic = ''RTT_QUIC_PORT''"

record network_run =
  client_ok :: bool
  nr_stdout :: string
  nr_stderr :: string

record local_run =
  lr_ok :: bool
  lr_stdout :: string
  lr_stderr :: string

text \<open>How the runner can end before its work is done: a panic, or a call that never returns.\<close>

datatype stuck = Panicked panic | Hangs

definition run_local_once ::
  "('w, 'c, 's, 'j, 'v) outside \<Rightarrow> string list \<Rightarrow> string \<Rightarrow> (string \<times> string) list \<Rightarrow> 'w world \<Rightarrow>
   stuck + (string + local_run) \<times> 'w world" where
  "run_local_once X run run_dir env w =
     (case run_command X run run_dir env of Inl e \<Rightarrow> Inl (Panicked e) | Inr cmd \<Rightarrow>
      case call (ox_output X cmd) w of
        (Inl e, w) \<Rightarrow> Inr (Inl e, w)
      | (Inr o', w) \<Rightarrow>
          Inr (Inr \<lparr>lr_ok = out_success o', lr_stdout = out_stdout o', lr_stderr = out_stderr o'\<rparr>, w))"

definition wait_ready :: "('w, 'c, 's, 'j, 'v) outside \<Rightarrow> transport \<Rightarrow> nat \<Rightarrow> 'w world \<Rightarrow> bool \<times> 'w world" where
  "wait_ready X tr port =
     (case tr of
        Tcp \<Rightarrow> wait_for_bind X port 10000
      | Udp \<Rightarrow> wait_for_udp_echo X port 10000
      | Quic \<Rightarrow> wait_for_udp_bind_probe X port 10000)"

definition server_env :: "transport \<Rightarrow> nat \<Rightarrow> (string \<times> string) list \<Rightarrow> (string \<times> string) list" where
  "server_env tr port extra_env = [(''RTT_MODE'', ''server''), (port_env tr, show_nat port)] @ extra_env"

definition client_env :: "transport \<Rightarrow> nat \<Rightarrow> (string \<times> string) list \<Rightarrow> (string \<times> string) list" where
  "client_env tr port extra_env =
     [(''RTT_MODE'', ''client''), (''RTT_HOST'', ''127.0.0.1''), (port_env tr, show_nat port)] @ extra_env"

text \<open>A server that is not ready is still running when its stderr is read to the end; the drop of
  the guard, which kills and reaps it, comes at every return.\<close>

definition server_not_ready ::
  "('w, 'c, 's, 'j, 'v) outside \<Rightarrow> 'c \<Rightarrow> nat \<Rightarrow> 'w world \<Rightarrow> stuck + (string + network_run) \<times> 'w world" where
  "server_not_ready X c port w =
     (case ox_read_stderr X c (outer w) of
        None \<Rightarrow> Inl Hangs
      | Some (server_err, dt, x) \<Rightarrow>
          Inr (Inr \<lparr>client_ok = False, nr_stdout = [],
                    nr_stderr = ''server did not become ready on 127.0.0.1:'' @ show_nat port @
                      '' within 10s'' @ newline @ server_err\<rparr>,
               reap X c (w\<lparr>clock := clock w + dt, outer := x\<rparr>)))"

definition run_network_once ::
  "('w, 'c, 's, 'j, 'v) outside \<Rightarrow> string list \<Rightarrow> string \<Rightarrow> nat \<Rightarrow> (string \<times> string) list \<Rightarrow> transport \<Rightarrow>
   'w world \<Rightarrow> stuck + (string + network_run) \<times> 'w world" where
  "run_network_once X run run_dir port extra_env tr w =
     (case run_command X run run_dir (server_env tr port extra_env) of Inl e \<Rightarrow> Inl (Panicked e) | Inr server_cmd \<Rightarrow>
      case spawn X server_cmd w of
        (Inl e, w) \<Rightarrow> Inr (Inl e, w)
      | (Inr c, w) \<Rightarrow>
        (case wait_ready X tr port w of (ready, w) \<Rightarrow>
         if \<not> ready then server_not_ready X c port w
         else case run_command X run run_dir (client_env tr port extra_env) of
             Inl e \<Rightarrow> Inl (Panicked e)
           | Inr client_cmd \<Rightarrow>
             (case call (ox_output X client_cmd) w of
                (Inl e, w) \<Rightarrow> Inr (Inl e, reap X c w)
              | (Inr o', w) \<Rightarrow>
                  Inr (Inr \<lparr>client_ok = out_success o', nr_stdout = out_stdout o', nr_stderr = out_stderr o'\<rparr>,
                       reap X c w))))"

end
