(* ===== verification/Auto_Run.thy ===== *)
theory Auto_Run
  imports Auto_Sampling
begin

text \<open>
  The experiment runner (autobench/src/bin/run-iter.rs) and its verdict (autobench/src/verdict.rs):
  build, correctness smoke, samples, test gate. \<open>emit_and_exit\<close> and the functions that end in it are
  the \<open>Inl\<close> values of type \<open>ending\<close>, with the verdict printed and the world at the exit.
\<close>

section \<open>The verdict\<close>

fun improves :: "direction \<Rightarrow> 'v::linorder \<Rightarrow> 'v \<Rightarrow> bool" where
  "improves Minimize candidate champion = (candidate < champion)"
| "improves Maximize candidate champion = (candidate > champion)"

datatype status =
    Pass | Build_failed | Correctness_failed | Microbench_failed | Tests_failed | Timeout | Unknown_task

record durations =
  d_build :: nat
  d_correctness :: nat
  d_microbench :: nat
  d_tests :: nat

record 'v verdict =
  vd_status :: status
  vd_stage :: string
  vd_duration_s :: durations
  vd_metrics :: "(string \<times> 'v) list"
  vd_primary :: "'v option"
  vd_stderr_tail :: "string option"

definition verdict_new :: "status \<Rightarrow> string \<Rightarrow> 'v verdict" where
  "verdict_new status stage =
     \<lparr>vd_status = status, vd_stage = stage,
      vd_duration_s = \<lparr>d_build = 0, d_correctness = 0, d_microbench = 0, d_tests = 0\<rparr>,
      vd_metrics = [], vd_primary = None, vd_stderr_tail = None\<rparr>"

datatype ('v, 'w) ending =
    Printed "'v verdict" "'w world"
  | Exit_status nat
  | Stuck stuck

section \<open>Texts\<close>

definition tail_lines :: "string \<Rightarrow> nat \<Rightarrow> string" where
  "tail_lines s n =
     (let lines = split_inclusive s in
      concat (if n < length lines then drop (length lines - n) lines else lines))"

definition debug_strs :: "string list \<Rightarrow> string" where
  "debug_strs xs = ''['' @ join_with '', '' (map debug_str xs) @ '']''"

definition streams :: "string \<Rightarrow> string \<Rightarrow> string" where
  "streams err out =
     newline @ ''--- stderr ---'' @ newline @ err @ newline @ ''--- stdout ---'' @ newline @ out"

section \<open>A stage under a timeout\<close>

record stage_run =
  sr_exit_ok :: bool
  sr_stderr :: string
  sr_stdout :: string
  sr_duration_s :: nat
  sr_timed_out :: bool

text \<open>The pipes are read by two threads while the child runs; the reads are joined after the child
  has ended or has been killed.\<close>

definition join_reads ::
  "('w, 'c, 's, 'j, 'v) outside \<Rightarrow> 'c \<Rightarrow> 'w world \<Rightarrow> stuck + (string \<times> string) \<times> 'w world" where
  "join_reads X c w =
     (case ox_read_stdout X c (outer w) of None \<Rightarrow> Inl Hangs | Some (stdout, dt, x) \<Rightarrow>
      case ox_read_stderr X c x of None \<Rightarrow> Inl Hangs | Some (stderr, dt', x) \<Rightarrow>
        Inr ((stdout, stderr), w\<lparr>clock := clock w + dt + dt', outer := x\<rparr>))"

definition run_stage ::
  "('w, 'c, 's, 'j, 'v) outside \<Rightarrow> command \<Rightarrow> nat \<Rightarrow> 'w world \<Rightarrow> stuck + stage_run \<times> 'w world" where
  "run_stage X cmd timeout w0 =
     (let started = clock w0 in
      case spawn X cmd w0 of
        (Inl e, w) \<Rightarrow>
          Inr (\<lparr>sr_exit_ok = False, sr_stderr = ''failed to spawn: '' @ e, sr_stdout = [],
                sr_duration_s = 0, sr_timed_out = False\<rparr>, w)
      | (Inr c, w) \<Rightarrow>
        (case call (ox_wait_timeout X c timeout) w of
           (Inl e, w) \<Rightarrow> Inl (Panicked Expect_failed)
         | (Inr status, w) \<Rightarrow>
             (let w = (case status of
                          Some _ \<Rightarrow> w\<lparr>children := children w - 1\<rparr>
                        | None \<Rightarrow> reap X c w) in
              and_then (join_reads X c w) (\<lambda>((stdout, stderr), w).
              Inr (\<lparr>sr_exit_ok = (status = Some True), sr_stderr = stderr, sr_stdout = stdout,
                    sr_duration_s = clock w - started, sr_timed_out = (status = None)\<rparr>, w)))))"

definition stage_command :: "('w, 'c, 's, 'j, 'v) outside \<Rightarrow> string list \<Rightarrow> string \<Rightarrow> panic + command" where
  "stage_command X argv dir =
     (if argv = [] then Inl Index_out_of_bounds
      else Inr \<lparr>cmd_argv = argv, cmd_dir = resolve_dir X dir, cmd_env = Map.empty\<rparr>)"

section \<open>Failures\<close>

definition fail ::
  "'v verdict \<Rightarrow> status \<Rightarrow> string \<Rightarrow> stage_run \<Rightarrow> 'w world \<Rightarrow> ('v, 'w) ending" where
  "fail v fail_status stage run w =
     Printed (v\<lparr>vd_status := (if sr_timed_out run then Timeout else fail_status), vd_stage := stage,
                vd_stderr_tail := Some (tail_lines
                  (sr_stderr run @ newline @ ''--- stdout ---'' @ newline @ sr_stdout run) 50)\<rparr>) w"

definition correctness_fail :: "'v verdict \<Rightarrow> string \<Rightarrow> 'w world \<Rightarrow> ('v, 'w) ending" where
  "correctness_fail v detail w =
     Printed (v\<lparr>vd_status := Correctness_failed, vd_stage := ''correctness'',
                vd_stderr_tail := Some (tail_lines detail 50)\<rparr>) w"

definition microbench_fail :: "'v verdict \<Rightarrow> string \<Rightarrow> 'w world \<Rightarrow> ('v, 'w) ending" where
  "microbench_fail v detail w =
     Printed (v\<lparr>vd_status := Microbench_failed, vd_stage := ''microbench'',
                vd_stderr_tail := Some (tail_lines detail 50)\<rparr>) w"

text \<open>\<open>if stage_is_smoke\<close>: which of the two.\<close>

definition bench_fail :: "bool \<Rightarrow> 'v verdict \<Rightarrow> string \<Rightarrow> 'w world \<Rightarrow> ('v, 'w) ending" where
  "bench_fail is_smoke = (if is_smoke then correctness_fail else microbench_fail)"

definition lift_stuck :: "stuck + 'a \<Rightarrow> ('v, 'w) ending + 'a" where
  "lift_stuck r = (case r of Inl s \<Rightarrow> Inl (Stuck s) | Inr x \<Rightarrow> Inr x)"

section \<open>One run and its metrics\<close>

definition FITNESS_PORT :: nat where "FITNESS_PORT = 19100"

definition one_network_run ::
  "('w, 'c, 's, 'j, 'v) outside \<Rightarrow> 'v verdict \<Rightarrow> task_row \<Rightarrow> (string \<times> string) list \<Rightarrow> bool \<Rightarrow> 'w world \<Rightarrow>
   ('v, 'w) ending + network_run \<times> 'w world" where
  "one_network_run X v spec env stage_is_smoke w =
     and_then (lift_stuck (run_network_once X (ts_run spec) (ts_run_dir spec) FITNESS_PORT env
         (from_experiment (ts_experiment spec)) w)) (\<lambda>(r, w).
     case r of
       Inr run \<Rightarrow> Inr (run, w)
     | Inl e \<Rightarrow> Inl (bench_fail stage_is_smoke v (''two-process driver I/O error: '' @ e) w))"

definition local_env :: "task_row \<Rightarrow> string \<Rightarrow> string \<Rightarrow> (string \<times> string) list" where
  "local_env spec warmup iters =
     [(ts_warmup_env spec, warmup), (ts_iters_env spec, iters)] @ ts_extra_env spec"

definition expected_detail ::
  "('w, 'c, 's, 'j, 'v::{linorder,zero}) outside \<Rightarrow> task_row \<Rightarrow> (string \<times> 'v) list \<Rightarrow> string \<Rightarrow> string \<Rightarrow>
   string option" where
  "expected_detail X spec metrics stdout key =
     (case map_of metrics key of
        None \<Rightarrow> Some (''expected metric `'' @ key @ ''` missing for '' @ ts_focus_area spec @ ''/'' @
            ts_experiment spec @ '' (got '' @ debug_strs (map fst metrics) @ '')'' @ newline @
            ''--- stdout ---'' @ newline @ stdout)
      | Some val \<Rightarrow>
          if val \<le> 0 then Some (''metric `'' @ key @ ''`='' @ show_f64 X val @ '' is not > 0'' @ newline @
            ''--- stdout ---'' @ newline @ stdout)
          else None)"

definition check_expected ::
  "('w, 'c, 's, 'j, 'v::{linorder,zero}) outside \<Rightarrow> 'v verdict \<Rightarrow> task_row \<Rightarrow> (string \<times> 'v) list \<Rightarrow>
   string \<Rightarrow> bool \<Rightarrow> 'w world \<Rightarrow> ('v, 'w) ending + unit" where
  "check_expected X v spec metrics stdout is_smoke w =
     try_fold (\<lambda>key _. case expected_detail X spec metrics stdout key of
         None \<Rightarrow> Inr ()
       | Some detail \<Rightarrow> Inl (bench_fail is_smoke v detail w)) (ts_expected_metrics spec) ()"

section \<open>Correctness\<close>

definition SMOKE_WARMUP :: string where "SMOKE_WARMUP = ''20''"

definition SMOKE_ITERATIONS :: string where "SMOKE_ITERATIONS = ''200''"

definition correctness_network ::
  "('w, 'c, 's, 'j, 'v::{linorder,zero}) outside \<Rightarrow> 'v verdict \<Rightarrow> task_row \<Rightarrow> 'w world \<Rightarrow>
   ('v, 'w) ending + 'w world" where
  "correctness_network X v spec w =
     (let env = [(ts_warmup_env spec, SMOKE_WARMUP), (ts_iters_env spec, SMOKE_ITERATIONS)] in
      and_then (one_network_run X v spec env True w) (\<lambda>(run, w).
      if \<not> client_ok run then
        Inl (correctness_fail v (''correctness client exited non-zero'' @
          streams (nr_stderr run) (nr_stdout run)) w)
      else
        (let metrics = parse_contract_metrics X (nr_stdout run) (ts_focus_area spec) (ts_experiment spec) in
         and_then (check_expected X v spec metrics (nr_stdout run) True w) (\<lambda>_. Inr w))))"

definition correctness_local ::
  "('w, 'c, 's, 'j, 'v::{linorder,zero}) outside \<Rightarrow> 'v verdict \<Rightarrow> task_row \<Rightarrow> 'w world \<Rightarrow>
   ('v, 'w) ending + 'w world" where
  "correctness_local X v spec w =
     (let env = local_env spec SMOKE_WARMUP SMOKE_ITERATIONS in
      and_then (lift_stuck (run_local_once X (ts_run spec) (ts_run_dir spec) env w)) (\<lambda>(r, w).
      case r of
        Inl e \<Rightarrow> Inl (correctness_fail v (''local run I/O error: '' @ e) w)
      | Inr run \<Rightarrow>
          if \<not> lr_ok run then
            Inl (correctness_fail v (''correctness run exited non-zero'' @
              streams (lr_stderr run) (lr_stdout run)) w)
          else
            (let metrics = parse_contract_metrics X (lr_stdout run) (ts_focus_area spec) (ts_experiment spec) in
             and_then (check_expected X v spec metrics (lr_stdout run) True w) (\<lambda>_. Inr w))))"

definition correctness ::
  "('w, 'c, 's, 'j, 'v::{linorder,zero}) outside \<Rightarrow> 'v verdict \<Rightarrow> task_row \<Rightarrow> 'w world \<Rightarrow>
   ('v, 'w) ending + 'w world" where
  "correctness X v spec =
     (case ts_kind spec of Network \<Rightarrow> correctness_network X v spec | Local \<Rightarrow> correctness_local X v spec)"

section \<open>Samples\<close>

definition BENCH_WARMUP :: string where "BENCH_WARMUP = ''2000''"

definition BENCH_ITERATIONS :: string where "BENCH_ITERATIONS = ''20000''"

type_synonym 'v series = "(string \<times> 'v list) list"

definition push_metric :: "string \<times> 'v \<Rightarrow> 'v series \<Rightarrow> 'v series" where
  "push_metric = (\<lambda>(k, val) series.
     bt_insert k ((case map_of series k of None \<Rightarrow> [] | Some vs \<Rightarrow> vs) @ [val]) series)"

definition finalize_metrics ::
  "'v::{linorder,zero} verdict \<Rightarrow> task_row \<Rightarrow> 'v series \<Rightarrow> nat \<Rightarrow> 'w world \<Rightarrow> ('v, 'w) ending + 'v verdict" where
  "finalize_metrics v spec series n w =
     (let v = v\<lparr>vd_metrics := fold (\<lambda>(k, vals). bt_insert k (median vals)) series (vd_metrics v)\<rparr> in
      case map_of (vd_metrics v) (ts_primary_key spec) of
        Some p \<Rightarrow> Inr (v\<lparr>vd_primary := Some p\<rparr>)
      | None \<Rightarrow> Inl (microbench_fail v (''missing primary metric `'' @ ts_primary_key spec @ ''` after '' @
            show_nat n @ '' samples'') w))"

definition network_sample ::
  "('w, 'c, 's, 'j, 'v::{linorder,zero}) outside \<Rightarrow> 'v verdict \<Rightarrow> task_row \<Rightarrow> nat \<Rightarrow> 'v series \<times> 'w world \<Rightarrow>
   ('v, 'w) ending + 'v series \<times> 'w world" where
  "network_sample X v spec i = (\<lambda>(series, w).
     let env = [(ts_warmup_env spec, BENCH_WARMUP), (ts_iters_env spec, BENCH_ITERATIONS)] in
     and_then (one_network_run X v spec env False w) (\<lambda>(run, w).
     if \<not> client_ok run then
       Inl (microbench_fail v (''microbench client (sample '' @ show_nat i @ '') exited non-zero'' @
         streams (nr_stderr run) (nr_stdout run)) w)
     else
       (let metrics = parse_contract_metrics X (nr_stdout run) (ts_focus_area spec) (ts_experiment spec) in
        and_then (check_expected X v spec metrics (nr_stdout run) False w) (\<lambda>_.
        Inr (fold push_metric metrics series, w)))))"

definition local_sample ::
  "('w, 'c, 's, 'j, 'v::{linorder,zero}) outside \<Rightarrow> 'v verdict \<Rightarrow> task_row \<Rightarrow> nat \<Rightarrow> 'v series \<times> 'w world \<Rightarrow>
   ('v, 'w) ending + 'v series \<times> 'w world" where
  "local_sample X v spec i = (\<lambda>(series, w).
     let env = local_env spec BENCH_WARMUP BENCH_ITERATIONS in
     and_then (lift_stuck (run_local_once X (ts_run spec) (ts_run_dir spec) env w)) (\<lambda>(r, w).
     case r of
       Inl e \<Rightarrow> Inl (microbench_fail v (''local run I/O error (sample '' @ show_nat i @ ''): '' @ e) w)
     | Inr run \<Rightarrow>
         if \<not> lr_ok run then
           Inl (microbench_fail v (''microbench run (sample '' @ show_nat i @ '') exited non-zero'' @
             streams (lr_stderr run) (lr_stdout run)) w)
         else
           (let metrics = parse_contract_metrics X (lr_stdout run) (ts_focus_area spec) (ts_experiment spec) in
            and_then (check_expected X v spec metrics (lr_stdout run) False w) (\<lambda>_.
            Inr (fold push_metric metrics series, w)))))"

definition microbench_network ::
  "('w, 'c, 's, 'j, 'v::{linorder,zero}) outside \<Rightarrow> 'v verdict \<Rightarrow> task_row \<Rightarrow> nat \<Rightarrow> 'w world \<Rightarrow>
   ('v, 'w) ending + 'v verdict \<times> 'w world" where
  "microbench_network X v spec samples w =
     (let n = max samples 1 in
      and_then (try_fold (network_sample X v spec) [0..<n] ([], w)) (\<lambda>(series, w).
      and_then (finalize_metrics v spec series n w) (\<lambda>v. Inr (v, w))))"

definition microbench_local ::
  "('w, 'c, 's, 'j, 'v::{linorder,zero}) outside \<Rightarrow> 'v verdict \<Rightarrow> task_row \<Rightarrow> nat \<Rightarrow> 'w world \<Rightarrow>
   ('v, 'w) ending + 'v verdict \<times> 'w world" where
  "microbench_local X v spec samples w =
     (let n = max samples 1 in
      and_then (try_fold (local_sample X v spec) [0..<n] ([], w)) (\<lambda>(series, w).
      and_then (finalize_metrics v spec series n w) (\<lambda>v. Inr (v, w))))"

definition microbench ::
  "('w, 'c, 's, 'j, 'v::{linorder,zero}) outside \<Rightarrow> 'v verdict \<Rightarrow> task_row \<Rightarrow> nat \<Rightarrow> 'w world \<Rightarrow>
   ('v, 'w) ending + 'v verdict \<times> 'w world" where
  "microbench X v spec =
     (case ts_kind spec of Network \<Rightarrow> microbench_network X v spec | Local \<Rightarrow> microbench_local X v spec)"

section \<open>The program\<close>

record args =
  ar_task :: string
  ar_json :: bool
  ar_samples :: nat

definition BUILD_TIMEOUT :: nat where "BUILD_TIMEOUT = 600000"

definition TESTS_TIMEOUT :: nat where "TESTS_TIMEOUT = 900000"

text \<open>A build or test stage, with its verdict when it fails.\<close>

definition gate ::
  "('w, 'c, 's, 'j, 'v) outside \<Rightarrow> string list \<Rightarrow> string \<Rightarrow> nat \<Rightarrow> (stage_run \<Rightarrow> 'v verdict) \<Rightarrow> status \<Rightarrow> string \<Rightarrow>
   'w world \<Rightarrow> ('v, 'w) ending + 'v verdict \<times> 'w world" where
  "gate X argv dir timeout timed fail_status stage w =
     (case stage_command X argv dir of Inl e \<Rightarrow> Inl (Stuck (Panicked e)) | Inr cmd \<Rightarrow>
      and_then (lift_stuck (run_stage X cmd timeout w)) (\<lambda>(r, w).
      let v = timed r in
      if sr_timed_out r \<or> \<not> sr_exit_ok r then Inl (fail v fail_status stage r w) else Inr (v, w)))"

definition run_stages ::
  "('w, 'c, 's, 'j, 'v::{linorder,zero}) outside \<Rightarrow> args \<Rightarrow> task_row \<Rightarrow> 'w world \<Rightarrow>
   ('v, 'w) ending + 'v verdict \<times> 'w world" where
  "run_stages X args spec w =
     (let v = verdict_new Pass ''setup'' in
      and_then (gate X (ts_build spec) (ts_build_dir spec) BUILD_TIMEOUT
          (\<lambda>r. v\<lparr>vd_duration_s := (vd_duration_s v)\<lparr>d_build := sr_duration_s r\<rparr>\<rparr>) Build_failed ''build'' w) (\<lambda>(v, w).
      let started = clock w in
      and_then (correctness X v spec w) (\<lambda>w.
      let v = v\<lparr>vd_duration_s := (vd_duration_s v)\<lparr>d_correctness := clock w - started\<rparr>\<rparr>; started = clock w in
      and_then (microbench X v spec (ar_samples args) w) (\<lambda>(v, w).
      let v = v\<lparr>vd_duration_s := (vd_duration_s v)\<lparr>d_microbench := clock w - started\<rparr>\<rparr> in
      and_then (gate X (ts_gate_a spec) (ts_gate_a_dir spec) TESTS_TIMEOUT
          (\<lambda>r. v\<lparr>vd_duration_s := (vd_duration_s v)\<lparr>d_tests := sr_duration_s r\<rparr>\<rparr>) Tests_failed ''tests'' w) (\<lambda>(v, w).
      Inr (v\<lparr>vd_status := Pass, vd_stage := ''tests''\<rparr>, w))))))"

definition unknown_task_text :: "string \<Rightarrow> string" where
  "unknown_task_text task =
     ''unknown task '' @ debug_str task @ ''; known: {rust,go,java}-network-rtt-{tcp,udp,quic}, '' @
     ''{rust,go,java}-thread-handoff-{spin,ring}''"

definition run_iter ::
  "('w, 'c, 's, 'j, 'v::{linorder,zero}) outside \<Rightarrow> args \<Rightarrow> 'w world \<Rightarrow> ('v, 'w) ending" where
  "run_iter X args w =
     (case task_spec (ar_task args) of
        None \<Rightarrow>
          Printed ((verdict_new Unknown_task ''setup'')\<lparr>vd_stderr_tail := Some (unknown_task_text (ar_task args))\<rparr>) w
      | Some spec \<Rightarrow>
          if \<not> ar_json args then Exit_status 2
          else case run_stages X args spec w of Inl e \<Rightarrow> e | Inr (v, w) \<Rightarrow> Printed v w)"

end
