(* ===== verification/Auto_Inv.thy ===== *)
theory Auto_Inv
  imports Auto_Run
begin

text \<open>
  What the experiment runner keeps: the rows of the registry are consistent, the median is a middle
  element, every child is reaped, and a run ends with a verdict of the stage it reached. The last
  two are proved with \<open>run_ok\<close>, a Hoare-style judgement on computations that can end early.
\<close>

section \<open>The registry\<close>

text \<open>A row names its own cell, and its metrics are those the runner will look for.\<close>

definition row_ok :: "task_row \<Rightarrow> bool" where
  "row_ok s \<longleftrightarrow>
     ts_task s = ts_language s @ ''-'' @ ts_focus_area s @ ''-'' @ ts_experiment s \<and>
     ts_build s \<noteq> [] \<and> ts_run s \<noteq> [] \<and> ts_gate_a s \<noteq> [] \<and>
     list_all (\<lambda>d. d = ts_language s) [ts_build_dir s, ts_run_dir s, ts_gate_a_dir s] \<and>
     (ts_kind s = Network \<longleftrightarrow> ts_focus_area s = ''network-rtt'') \<and>
     distinct (ts_expected_metrics s) \<and> ts_primary_key s \<in> set (ts_expected_metrics s) \<and>
     ts_primary_key s = ts_primary_metric s @ (case ts_direction s of Minimize \<Rightarrow> ''_ns'' | Maximize \<Rightarrow> ''_ops_per_sec'') \<and>
     distinct ([ts_warmup_env s, ts_iters_env s, ''RTT_MODE'', ''RTT_HOST'',
       port_env (from_experiment (ts_experiment s))] @ map fst (ts_extra_env s))"

lemma task_rows_ok: "list_all row_ok task_rows"
  by (simp add: task_rows_def row_ok_def task_row_defs from_experiment_def)

lemma task_spec_map_of: "task_spec t = map_of (map (\<lambda>s. (ts_task s, s)) task_rows) t"
  by (simp add: task_spec_def task_rows_def map_of_Cons_code task_row_defs cong: if_cong split del: if_split)

lemma task_spec_row:
  assumes "task_spec t = Some s"
  shows "s \<in> set task_rows" and "ts_task s = t" and "row_ok s"
proof -
  show "s \<in> set task_rows" and "ts_task s = t"
    using assms by (auto simp: task_spec_map_of dest: map_of_SomeD)
  then show "row_ok s" using task_rows_ok by (simp add: list_all_iff)
qed

lemma task_rows_found: "list_all (\<lambda>s. task_spec (ts_task s) = Some s) task_rows"
  by (simp add: task_rows_def task_row_defs task_spec_def)

section \<open>The median\<close>

definition at_most :: "'v::linorder list \<Rightarrow> 'v \<Rightarrow> nat" where
  "at_most xs m = length (filter (\<lambda>x. x \<le> m) xs)"

lemma at_most_sort: "at_most (sort xs) m = at_most xs m"
  by (simp add: at_most_def filter_sort)

lemma at_most_nth:
  assumes "sorted xs" and "i < length xs"
  shows "Suc i \<le> at_most xs (xs ! i)" and "y < xs ! i \<Longrightarrow> at_most xs y \<le> i"
proof -
  have "x \<le> xs ! i" if "x \<in> set (take (Suc i) xs)" for x
  proof -
    obtain j where "j \<le> i" "x = xs ! j" using \<open>x \<in> _\<close> by (auto simp: in_set_conv_nth less_Suc_eq_le)
    then show ?thesis using assms sorted_nth_mono by blast
  qed
  then have "filter (\<lambda>x. x \<le> xs ! i) (take (Suc i) xs) = take (Suc i) xs" by simp
  moreover have "at_most xs (xs ! i) = at_most (take (Suc i) xs) (xs ! i) + at_most (drop (Suc i) xs) (xs ! i)"
    unfolding at_most_def by (metis append_take_drop_id filter_append length_append)
  ultimately show "Suc i \<le> at_most xs (xs ! i)" using assms(2) by (simp add: at_most_def)
next
  assume y: "y < xs ! i"
  have "\<not> x \<le> y" if "x \<in> set (drop i xs)" for x
  proof -
    obtain j where "i + j < length xs" "x = xs ! (i + j)" using \<open>x \<in> _\<close>
      by (force simp: in_set_conv_nth)
    then have "xs ! i \<le> x" using assms sorted_nth_mono by fastforce
    then show ?thesis using y by simp
  qed
  then have "filter (\<lambda>x. x \<le> y) (drop i xs) = []" by simp
  moreover have "at_most xs y = at_most (take i xs) y + at_most (drop i xs) y"
    unfolding at_most_def by (metis append_take_drop_id filter_append length_append)
  moreover have "at_most (take i xs) y \<le> i"
    unfolding at_most_def by (rule order_trans [OF length_filter_le]) simp
  ultimately show "at_most xs y \<le> i" by (simp add: at_most_def)
qed

section \<open>The last lines of a text\<close>

lemma tail_lines_short: "length (split_inclusive (tail_lines s n)) \<le> n"
  using lines_ok_split [of s]
  by (auto simp: tail_lines_def Let_def split_inclusive_concat lines_ok_drop)

section \<open>Computations that can end early\<close>

text \<open>\<open>run_ok A Q P r\<close>: the computation has a result with \<open>P\<close> or prints a verdict with \<open>Q\<close>; it is stuck
  only if \<open>A\<close> fails.\<close>

definition run_ok ::
  "bool \<Rightarrow> ('v verdict \<Rightarrow> 'w world \<Rightarrow> bool) \<Rightarrow> ('a \<Rightarrow> bool) \<Rightarrow> ('v, 'w) ending + 'a \<Rightarrow> bool" where
  "run_ok A Q P r =
     (case r of Inr a \<Rightarrow> P a
      | Inl e \<Rightarrow> (case e of Printed v w \<Rightarrow> Q v w | Exit_status _ \<Rightarrow> False | Stuck _ \<Rightarrow> \<not> A))"

lemma run_ok_simps [simp]:
  "run_ok A Q P (Inr a) = P a"
  "run_ok A Q P (Inl (Printed v w)) = Q v w"
  "run_ok A Q P (Inl (Exit_status n)) = False"
  "run_ok A Q P (Inl (Stuck s)) = (\<not> A)"
  by (simp_all add: run_ok_def)

lemma run_ok_bind:
  "run_ok A Q P m \<Longrightarrow> (\<And>a. P a \<Longrightarrow> run_ok A Q R (f a)) \<Longrightarrow> run_ok A Q R (and_then m f)"
  by (cases m) (auto simp: run_ok_def)

lemma run_ok_mono:
  "run_ok A Q P m \<Longrightarrow> (\<And>v w. Q v w \<Longrightarrow> Q' v w) \<Longrightarrow> (\<And>a. P a \<Longrightarrow> P' a) \<Longrightarrow> run_ok A Q' P' m"
  by (auto simp: run_ok_def split: sum.splits ending.splits)

lemma try_fold_Nil: "try_fold f [] = Inr"
  by (rule ext) simp

lemma run_ok_fold:
  assumes "\<And>k s. k < n \<Longrightarrow> I k s \<Longrightarrow> run_ok A Q (I (Suc k)) (f k s)" and "I 0 s"
  shows "run_ok A Q (I n) (try_fold f [0..<n] s)"
  using assms
proof (induction n)
  case (Suc n)
  have "run_ok A Q (I n) (try_fold f [0..<n] s)" by (rule Suc.IH) (use Suc.prems in auto)
  then have "run_ok A Q (I (Suc n)) (and_then (try_fold f [0..<n] s) (f n))"
    by (rule run_ok_bind) (use Suc.prems(1) in simp)
  moreover have "try_fold f [n] = f n"
    by (rule ext) (simp add: try_fold_Nil)
  ultimately show ?case by (simp add: try_fold_append)
qed simp

text \<open>What the runner relies on: waiting for a child and reading its pipes come to an end.\<close>

definition answers :: "('w, 'c, 's, 'j, 'v) outside \<Rightarrow> bool" where
  "answers X \<longleftrightarrow> (\<forall>c t x. fst (ox_wait_timeout X c t x) \<in> range Inr) \<and>
     (\<forall>c x. ox_read_stdout X c x \<noteq> None) \<and> (\<forall>c x. ox_read_stderr X c x \<noteq> None)"


section \<open>One run\<close>

lemma children_call [simp]: "children (snd (call f w)) = children w"
  by (simp add: call_def split: prod.split)

lemma call_children: "call f w = (r, w') \<Longrightarrow> children w' = children w"
  using children_call [of f w] by simp

lemma spawn_children:
  "spawn X cmd w = (Inl e, w') \<Longrightarrow> children w' = children w"
  "spawn X cmd w = (Inr c, w') \<Longrightarrow> children w' = Suc (children w)"
  by (auto simp: spawn_def dest: call_children split: prod.splits sum.splits)

lemma reap_children [simp]: "children (reap X c w) = children w - 1"
  by (auto simp: reap_def dest: call_children split: prod.splits)

lemma nap_children [simp]: "children (nap X w) = children w"
  by (auto simp: nap_def dest: call_children split: prod.splits)

lemma poll_children: "poll X probe deadline w = (r, w') \<Longrightarrow> children w' = children w"
proof (induction X probe deadline w rule: poll.induct)
  case (1 X probe deadline w)
  obtain p v where p: "call probe w = (p, v)" by (cases "call probe w")
  then have v: "children v = children w" by (rule call_children)
  show ?case
    using v 1(2) 1(1) [OF _ p [symmetric] refl] by (subst (asm) poll.simps) (auto simp: p split: if_splits)
qed

lemma wait_ready_children: "wait_ready X tr port w = (r, w') \<Longrightarrow> children w' = children w"
  by (cases tr)
    (auto simp: wait_ready_def wait_for_bind_def wait_for_udp_echo_def wait_for_udp_bind_probe_def
      dest!: call_children poll_children split: prod.splits option.splits)

lemma answersD:
  assumes "answers X"
  shows "ox_read_stdout X c x \<noteq> None" and "ox_read_stderr X c x \<noteq> None"
    and "call (ox_wait_timeout X c t) w \<noteq> (Inl e, w')"
  using assms by (auto simp: answers_def call_def split: prod.splits) (metis Inl_Inr_False fst_conv imageE)

lemma run_local_once_keeps:
  assumes "run \<noteq> []"
  shows "\<exists>r w'. run_local_once X run dir env w = Inr (r, w') \<and> children w' = children w"
  using assms by (auto simp: run_local_once_def run_command_def dest: call_children split: prod.splits sum.splits)

lemma run_network_once_keeps:
  assumes "run \<noteq> []"
  shows "case run_network_once X run dir port env tr w of
    Inl _ \<Rightarrow> \<not> answers X | Inr (_, w') \<Rightarrow> children w' = children w"
  using assms
  by (auto simp: run_network_once_def run_command_def server_not_ready_def
      dest!: call_children spawn_children wait_ready_children dest: answersD split: prod.splits sum.splits if_splits option.splits)

lemma run_stage_keeps:
  "case run_stage X cmd timeout w of Inl _ \<Rightarrow> \<not> answers X | Inr (_, w') \<Rightarrow> children w' = children w"
proof (cases "spawn X cmd w")
  case (Pair s w1)
  show ?thesis
  proof (cases s)
    case (Inl e)
    then show ?thesis using Pair spawn_children(1) by (simp add: run_stage_def)
  next
    case (Inr c)
    then have w1: "children w1 = Suc (children w)" using Pair spawn_children(2) [of X cmd w c w1] by simp
    obtain t w2 where t: "call (ox_wait_timeout X c timeout) w1 = (t, w2)" by fastforce
    then have w2: "children w2 = Suc (children w)" using w1 call_children by metis
    show ?thesis
      using Pair Inr t w2 answersD(3) [of X c timeout w1]
      by (cases t) (auto simp: run_stage_def join_reads_def Let_def dest: answersD split: sum.splits option.splits)
  qed
qed

end
