(* ===== verification/Auto_Stages.thy ===== *)
theory Auto_Stages
  imports Auto_Inv
begin

text \<open>
  The stages of the experiment runner: what each of them leaves in the verdict, with the rules of
  \<open>run_ok\<close>.
\<close>

section \<open>Reports\<close>

text \<open>The verdict \<open>v'\<close> is \<open>v\<close> stamped as a failure, with at most 50 lines of output.\<close>

definition report :: "status \<Rightarrow> string \<Rightarrow> 'v verdict \<Rightarrow> 'v verdict \<Rightarrow> bool" where
  "report st stage v v' \<longleftrightarrow> (\<exists>t. length (split_inclusive t) \<le> 50 \<and>
     v' = v\<lparr>vd_status := st, vd_stage := stage, vd_stderr_tail := Some t\<rparr>)"

definition bench_report :: "bool \<Rightarrow> 'v verdict \<Rightarrow> 'v verdict \<Rightarrow> bool" where
  "bench_report is_smoke = report (if is_smoke then Correctness_failed else Microbench_failed)
     (if is_smoke then ''correctness'' else ''microbench'')"

lemma run_ok_bench_fail [simp]:
  "run_ok A Q P (Inl (bench_fail is_smoke v d w)) \<longleftrightarrow>
   Q (v\<lparr>vd_status := (if is_smoke then Correctness_failed else Microbench_failed),
        vd_stage := (if is_smoke then ''correctness'' else ''microbench''),
        vd_stderr_tail := Some (tail_lines d 50)\<rparr>) w"
  by (simp add: bench_fail_def correctness_fail_def microbench_fail_def)

lemma bench_fails:
  "correctness_fail = bench_fail True" "microbench_fail = bench_fail False"
  by (simp_all add: bench_fail_def)

lemma bench_report_tail [simp]:
  "bench_report is_smoke v (v\<lparr>vd_status := (if is_smoke then Correctness_failed else Microbench_failed),
     vd_stage := (if is_smoke then ''correctness'' else ''microbench''), vd_stderr_tail := Some (tail_lines d 50)\<rparr>)"
  using tail_lines_short by (auto simp: bench_report_def report_def)

section \<open>Expected metrics\<close>

definition parsed :: "('w, 'c, 's, 'j, 'v) outside \<Rightarrow> task_row \<Rightarrow> string \<Rightarrow> (string \<times> 'v) list" where
  "parsed X spec stdout = parse_contract_metrics X stdout (ts_focus_area spec) (ts_experiment spec)"

definition all_positive :: "task_row \<Rightarrow> (string \<times> 'v::{linorder,zero}) list \<Rightarrow> bool" where
  "all_positive spec m \<longleftrightarrow> (\<forall>k \<in> set (ts_expected_metrics spec). \<exists>val. map_of m k = Some val \<and> 0 < val)"

lemma expected_detail_None:
  "expected_detail X spec m stdout k = None \<longleftrightarrow> (\<exists>val. map_of m k = Some val \<and> 0 < val)"
  by (auto simp: expected_detail_def split: option.splits)

lemma check_expected_ok:
  "run_ok A (\<lambda>v' w'. w' = w \<and> bench_report is_smoke v v') (\<lambda>_. all_positive spec m)
     (check_expected X v spec m stdout is_smoke w)"
proof -
  have "run_ok A (\<lambda>v' w'. w' = w \<and> bench_report is_smoke v v') (\<lambda>_. \<forall>k \<in> set ks. expected_detail X spec m stdout k = None)
      (try_fold (\<lambda>key _. case expected_detail X spec m stdout key of
         None \<Rightarrow> Inr () | Some detail \<Rightarrow> Inl (bench_fail is_smoke v detail w)) ks ())" for ks
  proof (induction ks)
    case (Cons k ks)
    then show ?case by (cases "expected_detail X spec m stdout k") auto
  qed simp
  then show ?thesis by (simp add: check_expected_def all_positive_def expected_detail_None)
qed

section \<open>One run\<close>

definition kept :: "nat \<Rightarrow> bool \<Rightarrow> 'v verdict \<Rightarrow> 'v verdict \<Rightarrow> 'w world \<Rightarrow> bool" where
  "kept n is_smoke v v' w' \<longleftrightarrow> children w' = n \<and> bench_report is_smoke v v'"

lemma kept_tail [simp]:
  "kept n is_smoke v (v\<lparr>vd_status := (if is_smoke then Correctness_failed else Microbench_failed),
     vd_stage := (if is_smoke then ''correctness'' else ''microbench''), vd_stderr_tail := Some (tail_lines d 50)\<rparr>) w \<longleftrightarrow>
   children w = n"
  by (simp add: kept_def)

lemma one_network_run_ok:
  assumes "ts_run spec \<noteq> []"
  shows "run_ok (answers X) (kept (children w) sm v) (\<lambda>(run, w'). children w' = children w)
    (one_network_run X v spec env sm w)"
  using run_network_once_keeps [OF assms, where X = X and dir = "ts_run_dir spec" and
      port = FITNESS_PORT and env = env and tr = "from_experiment (ts_experiment spec)" and w = w]
  by (auto simp: one_network_run_def lift_stuck_def split: sum.splits)

lemma run_local_ok:
  assumes "ts_run spec \<noteq> []"
  shows "run_ok (answers X) (kept (children w) sm v) (\<lambda>(r, w'). children w' = children w)
    (lift_stuck (run_local_once X (ts_run spec) (ts_run_dir spec) env w))"
  using run_local_once_keeps [OF assms, of X "ts_run_dir spec" env w] by (auto simp: lift_stuck_def)

lemma check_expected_kept:
  "children w = n \<Longrightarrow> run_ok A (kept n sm v) (\<lambda>_. all_positive spec m) (check_expected X v spec m stdout sm w)"
  by (rule run_ok_mono [OF check_expected_ok]) (auto simp: kept_def)

lemma correctness_ok:
  assumes "ts_run spec \<noteq> []"
  shows "run_ok (answers X) (kept (children w) True v) (\<lambda>w'. children w' = children w) (correctness X v spec w)"
  unfolding correctness_def correctness_network_def correctness_local_def Let_def bench_fails
  by (cases "ts_kind spec")
    (auto intro!: run_ok_bind [OF one_network_run_ok [OF assms]] run_ok_bind [OF run_local_ok [OF assms]]
      run_ok_bind [OF check_expected_kept] split: sum.splits simp del: if_True if_False)

definition sampled :: "('w, 'c, 's, 'j, 'v::{linorder,zero}) outside \<Rightarrow> task_row \<Rightarrow> nat \<Rightarrow> 'v series \<Rightarrow>
    'v series \<times> 'w world \<Rightarrow> bool" where
  "sampled X spec n series = (\<lambda>(series', w'). children w' = n \<and> (\<exists>stdout. all_positive spec (parsed X spec stdout) \<and>
     series' = fold push_metric (parsed X spec stdout) series))"

lemma network_sample_ok:
  assumes "ts_run spec \<noteq> []"
  shows "run_ok (answers X) (kept (children w) False v) (sampled X spec (children w) series)
    (network_sample X v spec i (series, w))"
  unfolding network_sample_def Let_def bench_fails parsed_def [symmetric]
  by (auto intro!: run_ok_bind [OF one_network_run_ok [OF assms]] run_ok_bind [OF check_expected_kept]
      simp: sampled_def simp del: if_True if_False) blast

lemma local_sample_ok:
  assumes "ts_run spec \<noteq> []"
  shows "run_ok (answers X) (kept (children w) False v) (sampled X spec (children w) series)
    (local_sample X v spec i (series, w))"
  unfolding local_sample_def Let_def bench_fails parsed_def [symmetric]
  by (auto intro!: run_ok_bind [OF run_local_ok [OF assms]] run_ok_bind [OF check_expected_kept]
      simp: sampled_def split: sum.splits simp del: if_True if_False) blast

section \<open>The series of the samples\<close>

lemma bt_wf_contract_line: "bt_wf m \<Longrightarrow> bt_wf (contract_line X fa ex line m)"
  by (auto simp: contract_line_def Let_def split: option.splits)

lemma bt_wf_parsed [simp]: "bt_wf (parsed X spec stdout)"
  unfolding parsed_def parse_contract_metrics_def by (intro bt_wf_fold bt_wf_contract_line bt_wf_Nil)

lemma map_of_push_metric [simp]:
  "map_of (push_metric (k, v) s) = (map_of s)(k \<mapsto> (case map_of s k of None \<Rightarrow> [] | Some vs \<Rightarrow> vs) @ [v])"
  by (simp add: push_metric_def)

lemma push_metrics:
  assumes "bt_wf m"
  shows "map_of (fold push_metric m s) k = (case map_of m k of None \<Rightarrow> map_of s k
    | Some v \<Rightarrow> Some ((case map_of s k of None \<Rightarrow> [] | Some vs \<Rightarrow> vs) @ [v]))"
  using assms
proof (induction m arbitrary: s)
  case (Cons e m)
  obtain k' v where e: "e = (k', v)" by (cases e)
  with Cons.prems have m: "bt_wf m" "map_of m k' = None" by (auto dest: bt_wf_Cons)
  show ?case
    using m(2) by (cases "k' = k") (simp_all add: e Cons.IH [OF m(1)] split: option.split)
qed simp

lemma bt_wf_push_metrics: "bt_wf s \<Longrightarrow> bt_wf (fold push_metric m s)"
  by (rule bt_wf_fold) (auto simp: push_metric_def split: prod.splits)

text \<open>The values of a metric over the runs, and the series that collects them.\<close>

definition column :: "('w, 'c, 's, 'j, 'v) outside \<Rightarrow> task_row \<Rightarrow> string list \<Rightarrow> string \<Rightarrow> 'v list" where
  "column X spec stdouts k = List.map_filter (\<lambda>stdout. map_of (parsed X spec stdout) k) stdouts"

definition series_of :: "('w, 'c, 's, 'j, 'v) outside \<Rightarrow> task_row \<Rightarrow> string list \<Rightarrow> 'v series \<Rightarrow> bool" where
  "series_of X spec stdouts series \<longleftrightarrow> bt_wf series \<and>
     (\<forall>k. map_of series k = (if column X spec stdouts k = [] then None else Some (column X spec stdouts k)))"

lemma column_simps:
  "column X spec [] k = []"
  "column X spec (os @ [o']) k = column X spec os k @ (case map_of (parsed X spec o') k of None \<Rightarrow> [] | Some v \<Rightarrow> [v])"
  by (auto simp: column_def map_filter_def split: option.splits)

lemma series_of_step:
  "series_of X spec os series \<Longrightarrow> series_of X spec (os @ [o']) (fold push_metric (parsed X spec o') series)"
  by (auto simp: series_of_def push_metrics bt_wf_push_metrics column_simps split: option.splits)

lemma column_positive:
  assumes "\<forall>o' \<in> set os. all_positive spec (parsed X spec o')" and "k \<in> set (ts_expected_metrics spec)"
  shows "length (column X spec os k) = length os" and "\<forall>x \<in> set (column X spec os k). 0 < x"
  using assms by (induction os) (auto simp: column_def map_filter_def all_positive_def)

lemma map_of_medians:
  assumes "bt_wf s"
  shows "map_of (fold (\<lambda>(k, vals). bt_insert k (median vals)) s m) k =
    (case map_of s k of None \<Rightarrow> map_of m k | Some vs \<Rightarrow> Some (median vs))"
  using assms
proof (induction s arbitrary: m)
  case (Cons e s)
  obtain k' vs where e: "e = (k', vs)" by (cases e)
  with Cons.prems have s: "bt_wf s" "map_of s k' = None" by (auto dest: bt_wf_Cons)
  show ?case
    using s(2) by (cases "k' = k") (simp_all add: e Cons.IH [OF s(1)] split: option.split)
qed simp

lemma median_in_set: "xs \<noteq> [] \<Longrightarrow> median xs \<in> set xs"
proof -
  assume "xs \<noteq> []"
  then have "(length xs - 1) div 2 < length (sort xs)" by (cases xs) (simp_all add: less_Suc_eq_le)
  then have "sort xs ! ((length xs - 1) div 2) \<in> set (sort xs)" by (rule nth_mem)
  then show "median xs \<in> set xs" using \<open>xs \<noteq> []\<close> by (simp add: median_def)
qed

text \<open>What a verdict holds after the samples: the medians of what the runs printed.\<close>

definition medians_of ::
  "('w, 'c, 's, 'j, 'v::{linorder,zero}) outside \<Rightarrow> task_row \<Rightarrow> nat \<Rightarrow> (string \<times> 'v) list \<Rightarrow> 'v option \<Rightarrow> bool" where
  "medians_of X spec n metrics primary \<longleftrightarrow> (\<exists>stdouts. length stdouts = n \<and>
     (\<forall>stdout \<in> set stdouts. all_positive spec (parsed X spec stdout)) \<and>
     (\<forall>k. map_of metrics k =
        (if column X spec stdouts k = [] then None else Some (median (column X spec stdouts k)))) \<and>
     primary = map_of metrics (ts_primary_key spec) \<and> (\<exists>p. primary = Some p \<and> 0 < p))"

lemma finalize_ok:
  assumes s: "series_of X spec os series" and os: "\<forall>o' \<in> set os. all_positive spec (parsed X spec o')"
    and key: "ts_primary_key spec \<in> set (ts_expected_metrics spec)" and v: "vd_metrics v = []" and n: "os \<noteq> []"
  shows "\<exists>ms p. finalize_metrics v spec series n w = Inr (v\<lparr>vd_metrics := ms, vd_primary := Some p\<rparr>) \<and>
    medians_of X spec (length os) ms (Some p)"
proof -
  let ?ms = "fold (\<lambda>(k, vals). bt_insert k (median vals)) series []"
  let ?c = "column X spec os"
  have ms: "map_of ?ms k = (if ?c k = [] then None else Some (median (?c k)))" for k
    using s by (auto simp: series_of_def map_of_medians)
  have "?c (ts_primary_key spec) \<noteq> []"
    using column_positive(1) [OF os key] n by auto
  then have p: "map_of ?ms (ts_primary_key spec) = Some (median (?c (ts_primary_key spec)))"
    and pos: "0 < median (?c (ts_primary_key spec))"
    using ms column_positive(2) [OF os key] median_in_set by auto
  have "medians_of X spec (length os) ?ms (Some (median (?c (ts_primary_key spec))))"
    unfolding medians_of_def using ms p pos os by (intro exI [of _ os]) simp
  then show ?thesis
    using p by (intro exI [of _ ?ms] exI [of _ "median (?c (ts_primary_key spec))"])
      (simp add: finalize_metrics_def Let_def v)
qed

section \<open>All samples\<close>

definition collected :: "('w, 'c, 's, 'j, 'v::{linorder,zero}) outside \<Rightarrow> task_row \<Rightarrow> nat \<Rightarrow> nat \<Rightarrow>
    'v series \<times> 'w world \<Rightarrow> bool" where
  "collected X spec c n = (\<lambda>(series, w'). children w' = c \<and> (\<exists>stdouts. length stdouts = n \<and>
     (\<forall>stdout \<in> set stdouts. all_positive spec (parsed X spec stdout)) \<and> series_of X spec stdouts series))"

lemma samples_ok:
  assumes step: "\<And>i series w. run_ok A (kept (children w) False v) (sampled X spec (children w) series) (f i (series, w))"
  shows "run_ok A (kept (children w) False v) (collected X spec (children w) n) (try_fold f [0..<n] ([], w))"
proof (rule run_ok_fold)
  show "collected X spec (children w) 0 ([], w)"
    by (simp add: collected_def series_of_def column_simps)
next
  fix k s
  assume "collected X spec (children w) k s"
  then obtain series w1 os where s: "s = (series, w1)" "children w1 = children w" and os: "length os = k"
    "\<forall>stdout \<in> set os. all_positive spec (parsed X spec stdout)" "series_of X spec os series"
    by (auto simp: collected_def)
  have "collected X spec (children w) (Suc k) s'" if "sampled X spec (children w1) series s'" for s'
    using that s(2) os
    by (auto simp: collected_def sampled_def intro!: exI [of _ "os @ [_]"] series_of_step)
  then show "run_ok A (kept (children w) False v) (collected X spec (children w) (Suc k)) (f k s)"
    using step [of w1 series k] s by (auto elim!: run_ok_mono)
qed

definition measured :: "('w, 'c, 's, 'j, 'v::{linorder,zero}) outside \<Rightarrow> task_row \<Rightarrow> nat \<Rightarrow> 'v verdict \<Rightarrow>
    'v verdict \<Rightarrow> bool" where
  "measured X spec n v v' \<longleftrightarrow> (\<exists>ms p. v' = v\<lparr>vd_metrics := ms, vd_primary := Some p\<rparr> \<and>
     medians_of X spec (max n 1) ms (Some p))"

lemma finalized_ok:
  assumes "row_ok spec" and "vd_metrics v = []" and "collected X spec c (max n 1) (series, w)"
  shows "run_ok A Q (\<lambda>(v', w'). children w' = c \<and> measured X spec n v v')
    (and_then (finalize_metrics v spec series (max n 1) w) (\<lambda>v. Inr (v, w)))"
proof -
  obtain os where os: "length os = max n 1" "\<forall>stdout \<in> set os. all_positive spec (parsed X spec stdout)"
    "series_of X spec os series" and c: "children w = c" using assms(3) by (auto simp: collected_def)
  have "os \<noteq> []" and "ts_primary_key spec \<in> set (ts_expected_metrics spec)"
    using os(1) assms(1) by (auto simp: row_ok_def)
  from finalize_ok [OF os(3,2) this(2) assms(2) this(1), of "max n 1" w] c os(1)
  show ?thesis by (auto simp: measured_def simp del: One_nat_def) blast
qed

lemma microbench_ok:
  assumes row: "row_ok spec" and v: "vd_metrics v = []"
  shows "run_ok (answers X) (kept (children w) False v)
    (\<lambda>(v', w'). children w' = children w \<and> measured X spec n v v') (microbench X v spec n w)"
proof -
  have run: "ts_run spec \<noteq> []" using row by (simp add: row_ok_def)
  show ?thesis
    unfolding microbench_def microbench_network_def microbench_local_def Let_def
    by (cases "ts_kind spec")
      (auto intro!: run_ok_bind [OF samples_ok] network_sample_ok local_sample_ok run finalized_ok row v
        simp del: One_nat_def)
qed

section \<open>Gates\<close>

definition gate_passed ::
  "('w, 'c, 's, 'j, 'v) outside \<Rightarrow> string list \<Rightarrow> string \<Rightarrow> nat \<Rightarrow> 'w world \<Rightarrow> stage_run \<Rightarrow> 'w world \<Rightarrow> bool" where
  "gate_passed X argv dir timeout w r w' \<longleftrightarrow> sr_exit_ok r \<and> \<not> sr_timed_out r \<and>
     (\<exists>cmd. stage_command X argv dir = Inr cmd \<and> run_stage X cmd timeout w = Inr (r, w'))"

lemma gate_ok:
  assumes "argv \<noteq> []"
  shows "run_ok (answers X)
    (\<lambda>v' w'. children w' = children w \<and> (\<exists>r st. st \<in> {fail_status, Timeout} \<and> report st stage (timed r) v'))
    (\<lambda>(v', w'). children w' = children w \<and> (\<exists>r. v' = timed r \<and> gate_passed X argv dir timeout w r w'))
    (gate X argv dir timeout timed fail_status stage w)"
proof -
  obtain cmd where cmd: "stage_command X argv dir = Inr cmd" using assms by (simp add: stage_command_def)
  show ?thesis
    using run_stage_keeps [where X = X and cmd = cmd and timeout = timeout and w = w]
    by (auto simp: gate_def cmd lift_stuck_def Let_def fail_def report_def gate_passed_def split: sum.splits
        intro: tail_lines_short)
qed

section \<open>All stages\<close>

text \<open>The verdict of a run that stopped early, and of one that passed.\<close>

definition early_verdict :: "'v verdict \<Rightarrow> bool" where
  "early_verdict v \<longleftrightarrow>
     (vd_status v, vd_stage v) \<in> {(Build_failed, ''build''), (Timeout, ''build''), (Correctness_failed, ''correctness''),
       (Microbench_failed, ''microbench''), (Tests_failed, ''tests''), (Timeout, ''tests'')} \<and>
     (vd_primary v = None \<longleftrightarrow> vd_stage v \<noteq> ''tests'') \<and>
     (\<exists>t. vd_stderr_tail v = Some t \<and> length (split_inclusive t) \<le> 50)"

definition passing_verdict ::
  "('w, 'c, 's, 'j, 'v::{linorder,zero}) outside \<Rightarrow> task_row \<Rightarrow> nat \<Rightarrow> 'w world \<Rightarrow> 'v verdict \<Rightarrow> 'w world \<Rightarrow> bool" where
  "passing_verdict X spec n w v w' \<longleftrightarrow>
     vd_status v = Pass \<and> vd_stage v = ''tests'' \<and> vd_stderr_tail v = None \<and>
     medians_of X spec (max n 1) (vd_metrics v) (vd_primary v) \<and>
     (\<exists>r u. gate_passed X (ts_build spec) (ts_build_dir spec) BUILD_TIMEOUT w r u) \<and>
     (\<exists>u r. gate_passed X (ts_gate_a spec) (ts_gate_a_dir spec) TESTS_TIMEOUT u r w')"

text \<open>The rules of the four stages, in the terms of the whole run.\<close>

lemma build_rule:
  assumes "ts_build spec \<noteq> []"
  shows "run_ok (answers X) (\<lambda>v' w'. children w' = children w \<and> early_verdict v')
    (\<lambda>(v', w'). children w' = children w \<and> vd_metrics v' = [] \<and> vd_primary v' = None \<and> vd_stderr_tail v' = None \<and>
       (\<exists>r. gate_passed X (ts_build spec) (ts_build_dir spec) BUILD_TIMEOUT w r w'))
    (gate X (ts_build spec) (ts_build_dir spec) BUILD_TIMEOUT
      (\<lambda>r. (verdict_new Pass ''setup'')\<lparr>vd_duration_s := (f r)\<rparr>) Build_failed ''build'' w)"
  by (rule run_ok_mono [OF gate_ok [OF assms]]) (auto simp: report_def early_verdict_def verdict_new_def)

lemma kept_early: "vd_primary v = None \<Longrightarrow> kept n sm v v' w \<Longrightarrow> children w = n \<and> early_verdict v'"
  by (cases sm) (auto simp: kept_def bench_report_def report_def early_verdict_def)

lemma correctness_rule:
  assumes "ts_run spec \<noteq> []" and "children w = c" and "vd_primary v = None"
  shows "run_ok (answers X) (\<lambda>v' w'. children w' = c \<and> early_verdict v') (\<lambda>w'. children w' = c) (correctness X v spec w)"
  by (rule run_ok_mono [OF correctness_ok [OF assms(1)]]) (use assms in \<open>auto dest: kept_early [OF assms(3)]\<close>)

lemma microbench_rule:
  assumes "row_ok spec" and "children w = c" and "vd_metrics v = []" and "vd_primary v = None" and "vd_stderr_tail v = None"
  shows "run_ok (answers X) (\<lambda>v' w'. children w' = c \<and> early_verdict v')
    (\<lambda>(v', w'). children w' = c \<and> medians_of X spec (max n 1) (vd_metrics v') (vd_primary v') \<and> vd_stderr_tail v' = None)
    (microbench X v spec n w)"
  by (rule run_ok_mono [OF microbench_ok [OF assms(1,3)]]) (use assms in \<open>auto simp: measured_def dest: kept_early [OF assms(4)]\<close>)

lemma tests_rule:
  assumes "ts_gate_a spec \<noteq> []" and "medians_of X spec n (vd_metrics v) (vd_primary v)" and "vd_stderr_tail v = None"
    and "children w = c"
  shows "run_ok (answers X) (\<lambda>v' w'. children w' = c \<and> early_verdict v')
    (\<lambda>(v', w'). children w' = c \<and> medians_of X spec n (vd_metrics v') (vd_primary v') \<and> vd_stderr_tail v' = None \<and>
       (\<exists>r. gate_passed X (ts_gate_a spec) (ts_gate_a_dir spec) TESTS_TIMEOUT w r w'))
    (gate X (ts_gate_a spec) (ts_gate_a_dir spec) TESTS_TIMEOUT (\<lambda>r. v\<lparr>vd_duration_s := f r\<rparr>) Tests_failed ''tests'' w)"
proof -
  have p: "vd_primary v \<noteq> None" using assms(2) by (auto simp: medians_of_def)
  show ?thesis
    by (rule run_ok_mono [OF gate_ok [OF assms(1)]]) (use p assms in \<open>auto simp: report_def early_verdict_def\<close>)
qed

lemma run_stages_ok:
  assumes row: "row_ok spec"
  shows "run_ok (answers X) (\<lambda>v w'. children w' = children w \<and> early_verdict v)
    (\<lambda>(v, w'). children w' = children w \<and> passing_verdict X spec (ar_samples args) w v w')
    (run_stages X args spec w)"
proof -
  have argv: "ts_build spec \<noteq> []" "ts_run spec \<noteq> []" "ts_gate_a spec \<noteq> []" using row by (simp_all add: row_ok_def)
  show ?thesis
    unfolding run_stages_def Let_def
    apply (rule run_ok_bind [OF build_rule [OF argv(1)]], clarify)
    apply (rule run_ok_bind [OF correctness_rule [OF argv(2)]], assumption, assumption)
    apply (rule run_ok_bind, rule microbench_rule [OF row], assumption)
    apply ((simp; fail)+, clarify)
    apply (rule run_ok_bind, rule tests_rule [OF argv(3), where n = "max (ar_samples args) 1"])
    apply (auto simp: passing_verdict_def simp del: One_nat_def)
     apply blast+
    done
qed

end
