(* ===== verification/Tool_Model.thy ===== *)
theory Tool_Model
  imports Texts
begin

text \<open>
  The data of the journal tool (tools/journal/src/model.rs): result lines, the key of a cell with
  its order, and the manifest of a run, with their parsers. The values are floating-point numbers,
  a type with an order and zero here; the deserializer of a result line (serde_json) is the argument \<open>from_json\<close>, which
  answers the message of its error or the line.
\<close>

section \<open>Result lines\<close>

record 'v result_line =
  rl_language :: string
  rl_focus_area :: string
  rl_experiment :: string
  rl_metric :: string
  rl_value :: 'v
  rl_unit :: string
  rl_samples :: int
  rl_notes :: "string option"

datatype cell_key =
  Cell_key (ck_focus_area: string) (ck_experiment: string) (ck_language: string) (ck_metric: string)

fun key_fields :: "cell_key \<Rightarrow> string \<times> string \<times> string \<times> string" where
  "key_fields (Cell_key f e l m) = (f, e, l, m)"

lemma key_fields_inject [simp]: "key_fields k = key_fields k' \<longleftrightarrow> k = k'"
  by (cases k; cases k') auto

text \<open>The derived order compares the fields one after the other.\<close>

instantiation cell_key :: linorder
begin

definition less_eq_cell_key :: "cell_key \<Rightarrow> cell_key \<Rightarrow> bool" where
  "less_eq_cell_key k k' \<longleftrightarrow> key_fields k \<le> key_fields k'"

definition less_cell_key :: "cell_key \<Rightarrow> cell_key \<Rightarrow> bool" where
  "less_cell_key k k' \<longleftrightarrow> key_fields k < key_fields k'"

instance
  by standard (auto simp: less_eq_cell_key_def less_cell_key_def less_le_not_le antisym)

end

definition cell_key_of :: "('v, 'x) result_line_scheme \<Rightarrow> cell_key" where
  "cell_key_of l = Cell_key (rl_focus_area l) (rl_experiment l) (rl_language l) (rl_metric l)"

definition is_placeholder :: "('v::zero, 'x) result_line_scheme \<Rightarrow> bool" where
  "is_placeholder l \<longleftrightarrow> rl_experiment l = ''placeholder'' \<or> rl_value l = 0"

fun show_key :: "cell_key \<Rightarrow> string" where
  "show_key (Cell_key f e l m) = f @ ''/'' @ e @ ''/'' @ l @ ''/'' @ m"

definition parse_results :: "(string \<Rightarrow> string + 'v result_line) \<Rightarrow> string \<Rightarrow> string + 'v result_line list" where
  "parse_results from_json body =
     try_fold (\<lambda>(i, raw) out.
       let line = trim raw in
       if line = [] then Inr out
       else case from_json line of
           Inl e \<Rightarrow> Inl (''results.jsonl line '' @ show_nat (i + 1) @ '': '' @ e)
         | Inr parsed \<Rightarrow> Inr (out @ [parsed]))
       (enumerate 0 (str_lines body)) []"

section \<open>The manifest\<close>

type_synonym manifest = "(string \<times> string) list"

definition mf_get :: "manifest \<Rightarrow> string \<Rightarrow> string option" where
  "mf_get m key = map_of m key"

definition git_sha :: "manifest \<Rightarrow> string" where
  "git_sha m = (case mf_get m ''git_sha'' of None \<Rightarrow> [] | Some s \<Rightarrow> s)"

definition timestamp :: "manifest \<Rightarrow> string" where
  "timestamp m = (case mf_get m ''timestamp'' of None \<Rightarrow> [] | Some s \<Rightarrow> s)"

definition short_sha :: "manifest \<Rightarrow> string" where
  "short_sha m =
     (let sha = trim (git_sha m) in
      if sha = [] \<or> sha = ''no-git'' \<or> sha = ''n/a'' then ''nogit'' else take 12 sha)"

definition run_id :: "manifest \<Rightarrow> string" where
  "run_id m =
     (let ts = trim (timestamp m); ts = (if ts = [] then ''notime'' else ts) in
      ts @ ''-'' @ short_sha m)"

fun split_once :: "char \<Rightarrow> string \<Rightarrow> (string \<times> string) option" where
  "split_once d [] = None"
| "split_once d (c # cs) =
     (if c = d then Some ([], cs)
      else case split_once d cs of None \<Rightarrow> None | Some (k, v) \<Rightarrow> Some (c # k, v))"

definition manifest_line :: "string \<Rightarrow> manifest \<Rightarrow> manifest" where
  "manifest_line raw flds =
     (let line = trim raw in
      if line = [] \<or> hd line = CHR ''#'' then flds
      else case split_once (CHR ''='') line of
          Some (k, v) \<Rightarrow> bt_insert (trim k) (trim v) flds
        | None \<Rightarrow> flds)"

definition parse_manifest :: "string \<Rightarrow> manifest" where
  "parse_manifest body = fold manifest_line (str_lines body) []"

end
