(* ===== verification/Tool_Compare.thy ===== *)
theory Tool_Compare
  imports Tool_Model
begin

text \<open>
  Comparing two runs (tools/journal/src/compare.rs, baseline.rs and the comparison of main.rs).
  Floating-point arithmetic is exact arithmetic in an ordered field followed by a rounding function, the
  argument \<open>rnd\<close>; overflow to infinity is left out. The rendering of numbers is the argument \<open>F\<close>.
\<close>

section \<open>Classifying a cell\<close>

datatype unit_direction = Lower_better | Higher_better | Unknown_unit

definition from_unit :: "string \<Rightarrow> unit_direction" where
  "from_unit u =
     (if u \<in> {''ns'', ''us'', ''ms'', ''s''} then Lower_better
      else if u \<in> {''ops_per_sec'', ''bytes_per_sec''} then Higher_better
      else Unknown_unit)"

definition effective_lower_better :: "unit_direction \<Rightarrow> bool" where
  "effective_lower_better d \<longleftrightarrow> d = Lower_better \<or> d = Unknown_unit"

datatype change = Regression | Improvement | Same

fun label :: "change \<Rightarrow> string" where
  "label Regression = ''REGRESSION''"
| "label Improvement = ''improved''"
| "label Same = ''ok''"

definition classify ::
  "('v \<Rightarrow> 'v) \<Rightarrow> 'v::linordered_field \<Rightarrow> 'v \<Rightarrow> string \<Rightarrow> 'v \<Rightarrow> 'v \<times> 'v option \<times> change \<times> unit_direction" where
  "classify rnd a b u threshold_pct =
     (let direction = from_unit u;
          abs_delta = rnd (b - a);
          pct_delta = (if a = 0 then None else Some (rnd (rnd (rnd (b - a) / \<bar>a\<bar>) * 100)));
          verdict = (case pct_delta of
              None \<Rightarrow> Same
            | Some pct \<Rightarrow>
                if \<bar>pct\<bar> < threshold_pct then Same
                else if effective_lower_better direction then (if pct > 0 then Regression else Improvement)
                else (if pct < 0 then Regression else Improvement))
      in (abs_delta, pct_delta, verdict, direction))"

section \<open>Joining\<close>

record 'v comparison =
  cm_key :: cell_key
  cm_unit :: string
  cm_direction :: unit_direction
  cm_a :: 'v
  cm_b :: 'v
  cm_abs_delta :: 'v
  cm_pct_delta :: "'v option"
  cm_verdict :: change
  cm_unknown_unit :: bool

record 'v join_result =
  jr_shared :: "'v comparison list"
  jr_added :: "cell_key list"
  jr_removed :: "cell_key list"

definition regressions :: "'v join_result \<Rightarrow> 'v comparison list" where
  "regressions r = filter (\<lambda>c. cm_verdict c = Regression) (jr_shared r)"

definition has_regression :: "'v join_result \<Rightarrow> bool" where
  "has_regression r \<longleftrightarrow> regressions r \<noteq> []"

definition index_line :: "'v::zero result_line \<Rightarrow> (cell_key \<times> 'v result_line) list \<Rightarrow> (cell_key \<times> 'v result_line) list" where
  "index_line l m = (if is_placeholder l then m else bt_insert (cell_key_of l) l m)"

definition index_lines :: "'v::zero result_line list \<Rightarrow> (cell_key \<times> 'v result_line) list" where
  "index_lines ls = fold index_line ls []"

definition compare_cell ::
  "('v \<Rightarrow> 'v) \<Rightarrow> 'v \<Rightarrow> cell_key \<Rightarrow> 'v::linordered_field result_line \<Rightarrow> 'v result_line \<Rightarrow> 'v comparison" where
  "compare_cell rnd threshold_pct key a_line b_line =
     (case classify rnd (rl_value a_line) (rl_value b_line) (rl_unit b_line) threshold_pct of
        (abs_delta, pct_delta, verdict, direction) \<Rightarrow>
          \<lparr>cm_key = key, cm_unit = rl_unit b_line, cm_direction = direction, cm_a = rl_value a_line,
           cm_b = rl_value b_line, cm_abs_delta = abs_delta, cm_pct_delta = pct_delta, cm_verdict = verdict,
           cm_unknown_unit = (direction = Unknown_unit)\<rparr>)"

definition join_runs ::
  "('v \<Rightarrow> 'v) \<Rightarrow> 'v::linordered_field result_line list \<Rightarrow> 'v result_line list \<Rightarrow> 'v \<Rightarrow> 'v join_result" where
  "join_runs rnd a_lines b_lines threshold_pct =
     (let a = index_lines a_lines; b = index_lines b_lines;
          r = fold (\<lambda>(key, a_line) r.
            case map_of b key of
              Some b_line \<Rightarrow> r\<lparr>jr_shared := jr_shared r @ [compare_cell rnd threshold_pct key a_line b_line]\<rparr>
            | None \<Rightarrow> r\<lparr>jr_removed := jr_removed r @ [key]\<rparr>) a
            \<lparr>jr_shared = [], jr_added = [], jr_removed = []\<rparr>
      in fold (\<lambda>key r. if map_of a key = None then r\<lparr>jr_added := jr_added r @ [key]\<rparr> else r) (map fst b) r)"

section \<open>Baselines\<close>

record 'v baseline_cell =
  bc_value :: 'v
  bc_unit :: string
  bc_run_id :: string

type_synonym 'v baselines = "(string \<times> 'v baseline_cell) list"

definition baseline_line :: "string \<Rightarrow> 'v::zero result_line \<Rightarrow> 'v baselines \<Rightarrow> 'v baselines" where
  "baseline_line rid l m =
     (if is_placeholder l then m
      else bt_insert (show_key (cell_key_of l))
        \<lparr>bc_value = rl_value l, bc_unit = rl_unit l, bc_run_id = rid\<rparr> m)"

definition build_baselines :: "string \<Rightarrow> 'v::zero result_line list \<Rightarrow> 'v baselines" where
  "build_baselines rid ls = fold (baseline_line rid) ls []"

fun split_on :: "char \<Rightarrow> string \<Rightarrow> string list" where
  "split_on d [] = [[]]"
| "split_on d (c # cs) =
     (if c = d then [] # split_on d cs
      else case split_on d cs of [] \<Rightarrow> [[c]] | p # ps \<Rightarrow> (c # p) # ps)"

definition cell_to_line :: "string \<times> 'v baseline_cell \<Rightarrow> 'v result_line option" where
  "cell_to_line = (\<lambda>(key, cell).
     case split_on (CHR ''/'') key of
       [f, e, l, m] \<Rightarrow> Some \<lparr>rl_language = l, rl_focus_area = f, rl_experiment = e, rl_metric = m,
         rl_value = bc_value cell, rl_unit = bc_unit cell, rl_samples = 0, rl_notes = None\<rparr>
     | _ \<Rightarrow> None)"

definition baseline_to_lines :: "'v baselines \<Rightarrow> 'v result_line list" where
  "baseline_to_lines base = List.map_filter cell_to_line base"

section \<open>The report\<close>

record 'v formats =
  fm_num :: "'v \<Rightarrow> string"
  fm_pct :: "'v \<Rightarrow> string"
  fm_threshold :: "'v \<Rightarrow> string"
  fm_val :: "'v \<Rightarrow> string"

definition fmt_signed :: "'v formats \<Rightarrow> 'v::linordered_field \<Rightarrow> string" where
  "fmt_signed F v = (if 0 \<le> v then ''+'' else ''-'') @ fm_num F \<bar>v\<bar>"

definition table_row :: "'v::linordered_field formats \<Rightarrow> 'v comparison \<Rightarrow> string list" where
  "table_row F c =
     [show_key (cm_key c), fm_num F (cm_a c), fm_num F (cm_b c), fmt_signed F (cm_abs_delta c),
      (case cm_pct_delta c of Some p \<Rightarrow> fm_pct F p @ ''%'' | None \<Rightarrow> ''n/a''),
      label (cm_verdict c) @ (if cm_unknown_unit c then '' (unknown unit: assumed lower-better)'' else [])]"

definition pad_right :: "nat \<Rightarrow> string \<Rightarrow> string" where
  "pad_right n s = s @ replicate (n - length s) (CHR '' '')"

definition print_row :: "string list \<Rightarrow> nat list \<Rightarrow> string" where
  "print_row cells widths = join_with ''  '' (map2 pad_right widths cells)"

definition col_widths :: "string list list \<Rightarrow> nat list \<Rightarrow> nat list" where
  "col_widths rows widths = fold (\<lambda>row ws. map2 (\<lambda>w cell. max w (length cell)) ws row) rows widths"

definition print_table :: "'v::linordered_field formats \<Rightarrow> 'v join_result \<Rightarrow> string \<Rightarrow> string \<Rightarrow> string list" where
  "print_table F result label_a label_b =
     (let header = [''cell'', ''A ('' @ label_a @ '')'', ''B ('' @ label_b @ '')'', ''abs delta'', ''% delta'', ''verdict''];
          rows = map (table_row F) (jr_shared result);
          widths = col_widths rows (map length header)
      in [print_row header widths, print_row (map (\<lambda>w. replicate w (CHR ''-'')) widths) widths] @
         map (\<lambda>row. print_row row widths) rows @ (if rows = [] then [''(no shared cells)''] else []))"

definition render_compare ::
  "('v \<Rightarrow> 'v) \<Rightarrow> 'v::linordered_field formats \<Rightarrow> 'v result_line list \<Rightarrow> 'v result_line list \<Rightarrow> string \<Rightarrow> string \<Rightarrow>
   'v \<Rightarrow> bool \<Rightarrow> string list \<times> bool" where
  "render_compare rnd F a_lines b_lines label_a label_b threshold strict =
     (let result = join_runs rnd a_lines b_lines threshold;
          out = print_table F result label_a label_b @
            map (\<lambda>key. ''added (only in '' @ label_b @ ''): '' @ show_key key) (jr_added result) @
            map (\<lambda>key. ''removed (only in '' @ label_a @ ''): '' @ show_key key) (jr_removed result) @
            [[], show_nat (length (regressions result)) @ '' regression(s) flagged at threshold '' @
               fm_threshold F threshold @ ''%.'']
      in (out, \<not> (strict \<and> has_regression result)))"

end
