(* ===== verification/Tool_Entry.thy ===== *)
theory Tool_Entry
  imports Tool_Compare
begin

text \<open>
  The texts of the journal tool: the index of the runs (tools/journal/src/index.rs) and the entry
  of a run (\<open>render_results\<close> and \<open>render_entry\<close> of tools/journal/src/record.rs).
\<close>

section \<open>Headlines\<close>

fun headline_loop :: "bool \<Rightarrow> string list \<Rightarrow> string" where
  "headline_loop in_section [] = []"
| "headline_loop in_section (raw # ls) =
     (let line = trim raw in
      if take 3 line = ''## '' then headline_loop (trim (drop 3 line) = ''What changed'') ls
      else if in_section \<and> line \<noteq> [] then
        (if hd line = CHR ''<'' \<and> last line = CHR ''>'' then [] else line)
      else headline_loop in_section ls)"

definition extract_headline :: "string \<Rightarrow> string" where
  "extract_headline entry_md = headline_loop False (str_lines entry_md)"

section \<open>The index\<close>

record run_row =
  rr_run_id :: string
  rr_sha :: string
  rr_timestamp :: string
  rr_headline :: string

definition is_digit :: "char \<Rightarrow> bool" where
  "is_digit c \<longleftrightarrow> digit_value c \<noteq> None"

definition slice :: "nat \<Rightarrow> nat \<Rightarrow> string \<Rightarrow> string" where
  "slice i j s = take (j - i) (drop i s)"

definition humanize_ts :: "string \<Rightarrow> string" where
  "humanize_ts ts =
     (if length ts = 16 \<and> ts ! 8 = CHR ''T'' \<and> ts ! 15 = CHR ''Z'' \<and>
         list_all is_digit (slice 0 8 ts) \<and> list_all is_digit (slice 9 15 ts)
      then slice 0 4 ts @ ''-'' @ slice 4 6 ts @ ''-'' @ slice 6 8 ts @ '' '' @ slice 9 11 ts @ '':'' @
        slice 11 13 ts @ '':'' @ slice 13 15 ts @ '' UTC''
      else ts)"

definition escape_bars :: "string \<Rightarrow> string" where
  "escape_bars s = concat (map (\<lambda>c. if c = CHR ''|'' then [CHR 0x5C, c] else [c]) s)"

definition index_row :: "run_row \<Rightarrow> string" where
  "index_row r =
     ''| '' @ humanize_ts (rr_timestamp r) @ '' | '' @ escape_bars (rr_headline r) @ '' | ['' @ rr_run_id r @
     ''](runs/'' @ rr_run_id r @ ''/entry.md) | '' @ rr_sha r @ '' |'' @ newline"

definition render_index :: "run_row list \<Rightarrow> string" where
  "render_index rows =
     ''# Journal index'' @ newline @ newline @
     ''Chronological table of recorded runs (newest first). Generated by `journal index`.'' @ newline @ newline @
     ''| timestamp | what changed | run-id | sha |'' @ newline @
     ''|-----------|--------------|--------|-----|'' @ newline @
     (if rows = [] then ''| | _(none)_ | | |'' @ newline else []) @
     concat (map index_row rows)"

section \<open>The results digest\<close>

record 'v result_group =
  gr_units :: "(string \<times> string) list"
  gr_langs :: "(string \<times> unit) list"
  gr_vals :: "((string \<times> string) \<times> 'v) list"

type_synonym 'v result_groups = "((string \<times> string) \<times> 'v result_group) list"

definition group_line :: "'v result_line \<Rightarrow> 'v result_groups \<Rightarrow> 'v result_groups" where
  "group_line r groups =
     (let k = (rl_focus_area r, rl_experiment r);
          g = (case map_of groups k of None \<Rightarrow> \<lparr>gr_units = [], gr_langs = [], gr_vals = []\<rparr> | Some g \<Rightarrow> g)
      in bt_insert k \<lparr>gr_units = (if map_of (gr_units g) (rl_metric r) = None
                                 then bt_insert (rl_metric r) (rl_unit r) (gr_units g) else gr_units g),
                     gr_langs = bt_insert (rl_language r) () (gr_langs g),
                     gr_vals = bt_insert (rl_language r, rl_metric r) (rl_value r) (gr_vals g)\<rparr> groups)"

text \<open>The cell of a language without a value is a dash, three bytes in UTF-8.\<close>

definition value_cell :: "'v formats \<Rightarrow> 'v result_group \<Rightarrow> string \<Rightarrow> string \<Rightarrow> string" where
  "value_cell F g lang m =
     (case map_of (gr_vals g) (lang, m) of
        Some v \<Rightarrow> '' '' @ fm_val F v @ '' |''
      | None \<Rightarrow> [CHR '' '', CHR 0xE2, CHR 0x80, CHR 0x94] @ '' |'')"

definition render_group :: "'v formats \<Rightarrow> (string \<times> string) \<times> 'v result_group \<Rightarrow> string" where
  "render_group F = (\<lambda>((focus_area, experiment), g).
     let metrics = map fst (gr_units g) in
     ''### '' @ focus_area @ '' / '' @ experiment @ newline @ newline @
     ''| language |'' @ concat (map (\<lambda>(m, u). '' '' @ m @ '' ('' @ u @ '') |'') (gr_units g)) @ newline @
     ''|---|'' @ concat (map (\<lambda>_. ''---|'') metrics) @ newline @
     concat (map (\<lambda>(lang, _). ''| '' @ lang @ '' |'' @ concat (map (value_cell F g lang) metrics) @ newline) (gr_langs g)) @
     newline)"

definition render_results :: "'v::zero formats \<Rightarrow> 'v result_line list \<Rightarrow> string" where
  "render_results F results =
     (let groups = fold group_line (filter (\<lambda>r. \<not> is_placeholder r) results) [] in
      if groups = [] then []
      else ''## Results'' @ newline @ newline @
        ''Per-cell values from this run (placeholder/stub cells omitted).'' @ newline @ newline @
        concat (map (render_group F) groups))"

section \<open>The entry\<close>

definition or_default :: "string \<Rightarrow> string option \<Rightarrow> string" where
  "or_default d x = (case x of None \<Rightarrow> d | Some s \<Rightarrow> s)"

definition what_changed :: "string option \<Rightarrow> string" where
  "what_changed desc =
     (case desc of
        Some d \<Rightarrow> if trim d \<noteq> [] then trim d
          else ''<one-paragraph description of what was added/changed in this version>''
      | None \<Rightarrow> ''<one-paragraph description of what was added/changed in this version>'')"

definition render_entry :: "'v::zero formats \<Rightarrow> string \<Rightarrow> manifest \<Rightarrow> 'v result_line list \<Rightarrow> string option \<Rightarrow> string" where
  "render_entry F rid m results desc =
     (let sha = (if git_sha m = [] then ''(unknown)'' else git_sha m) in
      ''# '' @ rid @ newline @
      newline @
      ''- commit: '' @ sha @ newline @
      ''- instance: '' @ or_default ''unknown'' (mf_get m ''instance_type'') @ '', '' @
        or_default ''?'' (mf_get m ''vcpus'') @ '' vCPU, kernel '' @ or_default ''?'' (mf_get m ''kernel'') @ newline @
      ''- params: payload='' @ or_default ''?'' (mf_get m ''rtt_payload_bytes'') @
        ''B warmup='' @ or_default ''?'' (mf_get m ''rtt_warmup'') @
        '' iterations='' @ or_default ''?'' (mf_get m ''rtt_iterations'') @ newline @
      newline @
      ''## What changed'' @ newline @
      what_changed desc @ newline @
      newline @
      render_results F results @
      ''## Hypothesis'' @ newline @
      ''<what we expected to happen>'' @ newline @
      newline @
      ''## Observations'' @ newline @
      ''<what actually happened; reference compare output / notable deltas>'' @ newline)"

end
