(* ===== verification/Tool_Record.thy ===== *)
theory Tool_Record
  imports Tool_Entry
begin

text \<open>
  The journal on disk (\<open>collect_rows\<close>, \<open>regenerate\<close>, \<open>record\<close>) and the commands of the program
  (tools/journal/src/main.rs). The file system is a finite map from paths to files and directories;
  it fails only as its structure demands, and \<open>io\<close> gives the message of a failure. A copy onto the same path
  truncates the file. The JSON library is the record \<open>J\<close>.
\<close>

section \<open>The file system\<close>

type_synonym fs_path = "string list"

datatype node = Dir | File string

type_synonym fs = "(fs_path \<times> node) list"

datatype fault = Not_found | Is_a_directory | Not_a_directory

definition fs_exists :: "fs \<Rightarrow> fs_path \<Rightarrow> bool" where
  "fs_exists fs p \<longleftrightarrow> map_of fs p \<noteq> None"

definition read_file :: "fs \<Rightarrow> fs_path \<Rightarrow> fault + string" where
  "read_file fs p =
     (case map_of fs p of None \<Rightarrow> Inl Not_found | Some Dir \<Rightarrow> Inl Is_a_directory | Some (File s) \<Rightarrow> Inr s)"

definition write_file :: "fs_path \<Rightarrow> string \<Rightarrow> fs \<Rightarrow> fault + fs" where
  "write_file p s fs =
     (if map_of fs p = Some Dir then Inl Is_a_directory
      else if p = [] \<or> map_of fs (butlast p) = None then Inl Not_found
      else if map_of fs (butlast p) \<noteq> Some Dir then Inl Not_a_directory
      else Inr (bt_insert p (File s) fs))"

definition copy_file :: "fs_path \<Rightarrow> fs_path \<Rightarrow> fs \<Rightarrow> fault + fs" where
  "copy_file src dst fs =
     and_then (read_file fs src) (\<lambda>s. write_file dst (if src = dst then [] else s) fs)"

definition create_dir_all :: "fs_path \<Rightarrow> fs \<Rightarrow> fault + fs" where
  "create_dir_all p fs =
     try_fold (\<lambda>n fs. case map_of fs (take n p) of
         None \<Rightarrow> Inr (bt_insert (take n p) Dir fs)
       | Some Dir \<Rightarrow> Inr fs
       | Some (File _) \<Rightarrow> Inl Not_a_directory) [0..<Suc (length p)] fs"

text \<open>\<open>Path::join\<close>: an absolute path replaces, empty components and dots vanish.\<close>

definition path_join :: "fs_path \<Rightarrow> string \<Rightarrow> fs_path" where
  "path_join p s =
     (let cs = filter (\<lambda>c. c \<noteq> [] \<and> c \<noteq> ''.'') (split_on (CHR ''/'') s) in
      if s \<noteq> [] \<and> hd s = CHR ''/'' then cs else p @ cs)"

definition show_path :: "fs_path \<Rightarrow> string" where
  "show_path p = ''/'' @ join_with ''/'' p"

definition io_error :: "(fault \<Rightarrow> string) \<Rightarrow> string \<Rightarrow> fault + 'a \<Rightarrow> string + 'a" where
  "io_error io what r = (case r of Inl e \<Rightarrow> Inl (what @ '': '' @ io e) | Inr x \<Rightarrow> Inr x)"

section \<open>The index on disk\<close>

definition run_names :: "fs \<Rightarrow> fs_path \<Rightarrow> string list" where
  "run_names fs runs_dir =
     map (last \<circ> fst) (filter (\<lambda>(p, n). p \<noteq> [] \<and> butlast p = runs_dir \<and> n = Dir) fs)"

definition run_row_of :: "fs \<Rightarrow> fs_path \<Rightarrow> string \<Rightarrow> run_row" where
  "run_row_of fs runs_dir rid =
     (let m = (case read_file fs (runs_dir @ [rid, ''manifest.txt'']) of Inl _ \<Rightarrow> [] | Inr s \<Rightarrow> parse_manifest s);
          headline = (case read_file fs (runs_dir @ [rid, ''entry.md'']) of Inl _ \<Rightarrow> [] | Inr s \<Rightarrow> extract_headline s)
      in \<lparr>rr_run_id = rid, rr_sha = short_sha m, rr_timestamp = timestamp m, rr_headline = headline\<rparr>)"

definition collect_rows :: "fs \<Rightarrow> fs_path \<Rightarrow> fault + run_row list" where
  "collect_rows fs runs_dir =
     (case map_of fs runs_dir of
        None \<Rightarrow> Inr []
      | Some (File _) \<Rightarrow> Inl Not_a_directory
      | Some Dir \<Rightarrow> Inr (rev (sort_key rr_run_id (rev (map (run_row_of fs runs_dir) (run_names fs runs_dir))))))"

definition regenerate :: "fs_path \<Rightarrow> fs \<Rightarrow> fault + fs" where
  "regenerate journal_dir fs =
     and_then (collect_rows fs (journal_dir @ [''runs''])) (\<lambda>rows.
     write_file (journal_dir @ [''INDEX.md'']) (render_index rows) fs)"

section \<open>Recording a run\<close>

record record_outcome =
  ro_run_id :: string
  ro_run_dir :: fs_path

text \<open>The checks of \<open>record\<close> before it writes: the manifest, the results and their texts.\<close>

definition read_run ::
  "(string \<Rightarrow> string + 'v result_line) \<Rightarrow> (fault \<Rightarrow> string) \<Rightarrow> fs_path \<Rightarrow> fs \<Rightarrow> string + manifest \<times> 'v result_line list" where
  "read_run from_json io from_dir fs =
     (let manifest_path = from_dir @ [''manifest.txt'']; results_path = from_dir @ [''results.jsonl''] in
      and_then (io_error io (''reading '' @ show_path manifest_path) (read_file fs manifest_path)) (\<lambda>manifest_body.
      if \<not> fs_exists fs results_path then Inl (''missing '' @ show_path results_path)
      else
        and_then (io_error io (''reading '' @ show_path results_path) (read_file fs results_path)) (\<lambda>results_body.
        and_then (parse_results from_json results_body) (\<lambda>results.
        Inr (parse_manifest manifest_body, results)))))"

definition write_run ::
  "'v::zero formats \<Rightarrow> (fault \<Rightarrow> string) \<Rightarrow> fs_path \<Rightarrow> fs_path \<Rightarrow> fs_path \<Rightarrow> manifest \<Rightarrow> 'v result_line list \<Rightarrow> string option \<Rightarrow>
   fs \<Rightarrow> string + fs" where
  "write_run F io from_dir journal_dir run_dir m results desc fs =
     and_then (io_error io ''copying results.jsonl''
       (copy_file (from_dir @ [''results.jsonl'']) (run_dir @ [''results.jsonl'']) fs)) (\<lambda>fs.
     and_then (io_error io ''copying manifest.txt''
       (copy_file (from_dir @ [''manifest.txt'']) (run_dir @ [''manifest.txt'']) fs)) (\<lambda>fs.
     and_then (io_error io ''writing entry.md''
       (write_file (run_dir @ [''entry.md'']) (render_entry F (run_id m) m results desc) fs)) (\<lambda>fs.
     io_error io ''regenerating INDEX.md'' (regenerate journal_dir fs))))"

definition record_run ::
  "(string \<Rightarrow> string + 'v result_line) \<Rightarrow> 'v::zero formats \<Rightarrow> (fault \<Rightarrow> string) \<Rightarrow> fs_path \<Rightarrow> fs_path \<Rightarrow> string option \<Rightarrow> bool \<Rightarrow>
   fs \<Rightarrow> string + record_outcome \<times> fs" where
  "record_run from_json F io from_dir journal_dir desc force fs =
     and_then (read_run from_json io from_dir fs) (\<lambda>(m, results).
     let run_dir = path_join (journal_dir @ [''runs'']) (run_id m) in
     and_then
       (if fs_exists fs run_dir then
          (if \<not> force then Inl (''run dir already exists: '' @ show_path run_dir @ '' (use --force to overwrite)'')
           else Inr fs)
        else io_error io (''creating '' @ show_path run_dir) (create_dir_all run_dir fs)) (\<lambda>fs.
     and_then (write_run F io from_dir journal_dir run_dir m results desc fs) (\<lambda>fs.
     Inr (\<lparr>ro_run_id = run_id m, ro_run_dir = run_dir\<rparr>, fs))))"

section \<open>The program\<close>

record 'v json =
  jn_line :: "string \<Rightarrow> string + 'v result_line"
  jn_to_pretty :: "'v baselines \<Rightarrow> string"
  jn_baselines :: "string \<Rightarrow> string + 'v baselines"

datatype 'v cli_command =
    Record fs_path "string option" bool "fs_path option"
  | Compare string "string option" bool 'v bool "fs_path option"
  | Set_baseline string "fs_path option"
  | Index "fs_path option"

function find_git_root :: "(fs_path \<Rightarrow> bool) \<Rightarrow> fs_path \<Rightarrow> fs_path option" where
  "find_git_root has_git d =
     (if has_git d then Some d else if d = [] then None else find_git_root has_git (butlast d))"
  by auto
termination by (relation "measure (\<lambda>(_, d). length d)") auto

declare find_git_root.simps [simp del]

definition resolve_journal_dir :: "(string + fs_path) \<Rightarrow> fs \<Rightarrow> fs_path option \<Rightarrow> string + fs_path" where
  "resolve_journal_dir cwd fs explicit =
     (case explicit of
        Some p \<Rightarrow> Inr p
      | None \<Rightarrow>
          (case cwd of Inl e \<Rightarrow> Inl (''cwd: '' @ e) | Inr d \<Rightarrow>
           case find_git_root (\<lambda>d. fs_exists fs (d @ [''.git''])) d of
             None \<Rightarrow> Inl ''not inside a git repo; pass --journal-dir explicitly''
           | Some root \<Rightarrow> Inr (root @ [''journal''])))"

definition read_run_results ::
  "'v json \<Rightarrow> (fault \<Rightarrow> string) \<Rightarrow> fs_path \<Rightarrow> string \<Rightarrow> fs \<Rightarrow> string + 'v result_line list" where
  "read_run_results J io journal run fs =
     (let p = path_join (journal @ [''runs'']) run @ [''results.jsonl''] in
      and_then (io_error io (''reading '' @ show_path p) (read_file fs p)) (parse_results (jn_line J)))"

definition to_json :: "'v json \<Rightarrow> 'v baselines \<Rightarrow> string" where
  "to_json J b = jn_to_pretty J b @ newline"

definition cmd_compare ::
  "('v \<Rightarrow> 'v) \<Rightarrow> 'v::linordered_field formats \<Rightarrow> 'v json \<Rightarrow> (fault \<Rightarrow> string) \<Rightarrow> fs_path \<Rightarrow> string \<Rightarrow> string option \<Rightarrow> bool \<Rightarrow>
   'v \<Rightarrow> bool \<Rightarrow> fs \<Rightarrow> string + string list \<times> bool" where
  "cmd_compare rnd F J io journal run_a run_b baseline threshold strict fs =
     and_then (read_run_results J io journal run_a fs) (\<lambda>run_lines.
     if baseline then
       (let p = journal @ [''baselines.json''] in
        and_then (io_error io (''reading '' @ show_path p) (read_file fs p)) (\<lambda>body.
        case jn_baselines J body of
          Inl e \<Rightarrow> Inl (''parsing baselines.json: '' @ e)
        | Inr base \<Rightarrow> Inr (render_compare rnd F (baseline_to_lines base) run_lines ''baseline'' run_a threshold strict)))
     else
       (case run_b of
          None \<Rightarrow> Inl ''compare needs a second run id, or pass --baseline''
        | Some run_b \<Rightarrow>
            and_then (read_run_results J io journal run_b fs) (\<lambda>b_lines.
            Inr (render_compare rnd F run_lines b_lines run_a run_b threshold strict))))"

text \<open>\<open>run\<close>: the lines printed, whether the exit code is success, and the file system. An error
  is its message; what was written before it is not modelled.\<close>

definition journal_command ::
  "('v \<Rightarrow> 'v) \<Rightarrow> 'v::linordered_field formats \<Rightarrow> 'v json \<Rightarrow> (fault \<Rightarrow> string) \<Rightarrow> (string + fs_path) \<Rightarrow> 'v cli_command \<Rightarrow>
   fs \<Rightarrow> string + (string list \<times> bool) \<times> fs" where
  "journal_command rnd F J io cwd cmd fs =
     (case cmd of
        Record from_dir desc force journal_dir \<Rightarrow>
          and_then (resolve_journal_dir cwd fs journal_dir) (\<lambda>journal.
          and_then (record_run (jn_line J) F io from_dir journal desc force fs) (\<lambda>(out, fs).
          Inr (([''recorded run '' @ ro_run_id out @ '' -> '' @ show_path (ro_run_dir out),
                 ''regenerated '' @ show_path (journal @ [''INDEX.md''])], True), fs)))
      | Compare run_a run_b baseline threshold strict journal_dir \<Rightarrow>
          and_then (resolve_journal_dir cwd fs journal_dir) (\<lambda>journal.
          and_then (cmd_compare rnd F J io journal run_a run_b baseline threshold strict fs) (\<lambda>out. Inr (out, fs)))
      | Set_baseline run journal_dir \<Rightarrow>
          and_then (resolve_journal_dir cwd fs journal_dir) (\<lambda>journal.
          and_then (read_run_results J io journal run fs) (\<lambda>lines.
          let baselines = build_baselines run lines; p = journal @ [''baselines.json''] in
          and_then (io_error io (''writing '' @ show_path p) (write_file p (to_json J baselines) fs)) (\<lambda>fs.
          Inr (([''wrote '' @ show_nat (length baselines) @ '' baseline cells from '' @ run @ '' -> '' @ show_path p], True), fs))))
      | Index journal_dir \<Rightarrow>
          and_then (resolve_journal_dir cwd fs journal_dir) (\<lambda>journal.
          and_then (io_error io ''regenerating INDEX.md'' (regenerate journal fs)) (\<lambda>fs.
          Inr (([''regenerated '' @ show_path (journal @ [''INDEX.md''])], True), fs))))"

end
