(* ===== verification/Tool_Inv.thy ===== *)
theory Tool_Inv
  imports Tool_Record
begin

text \<open>
  What the comparison of the journal tool computes: the last line of a cell decides, the join
  splits the cells of the two runs, and the baseline of a run has its cells.
\<close>

section \<open>Indexing\<close>

definition last_line :: "'v::zero result_line list \<Rightarrow> cell_key \<Rightarrow> 'v result_line option" where
  "last_line ls k =
     (let ms = filter (\<lambda>l. \<not> is_placeholder l \<and> cell_key_of l = k) ls in if ms = [] then None else Some (last ms))"

definition cells_of :: "'v::zero result_line list \<Rightarrow> cell_key set" where
  "cells_of ls = {k. last_line ls k \<noteq> None}"

lemma last_line_simps [simp]:
  "last_line [] k = None"
  "last_line (ls @ [l]) k = (if \<not> is_placeholder l \<and> cell_key_of l = k then Some l else last_line ls k)"
  by (auto simp: last_line_def)

lemma last_line_SomeD: "last_line ls k = Some l \<Longrightarrow> l \<in> set ls \<and> \<not> is_placeholder l \<and> cell_key_of l = k"
  by (induction ls rule: rev_induct) (auto split: if_splits)

lemma last_line_NoneD: "last_line ls k = None \<Longrightarrow> l \<in> set ls \<Longrightarrow> is_placeholder l \<or> cell_key_of l \<noteq> k"
  by (induction ls rule: rev_induct) (auto split: if_splits)

lemma index_lines_snoc: "index_lines (ls @ [l]) = index_line l (index_lines ls)"
  by (simp add: index_lines_def)

lemma map_of_index_lines: "map_of (index_lines ls) k = last_line ls k"
  by (induction ls rule: rev_induct) (auto simp: index_lines_snoc index_line_def, simp add: index_lines_def)

lemma bt_wf_index_lines [simp]: "bt_wf (index_lines ls)"
  unfolding index_lines_def by (rule bt_wf_fold) (auto simp: index_line_def)

lemma keys_index_lines: "set (map fst (index_lines ls)) = cells_of ls"
  by (simp add: cells_of_def dom_def map_of_index_lines flip: dom_map_of_conv_image_fst)

lemma bt_wf_mem: "bt_wf m \<Longrightarrow> (k, v) \<in> set m \<longleftrightarrow> map_of m k = Some v"
  by (simp add: bt_wf_def strict_sorted_iff)

section \<open>The join\<close>

definition shared_of ::
  "('v \<Rightarrow> 'v) \<Rightarrow> 'v \<Rightarrow> (cell_key \<times> 'v::linordered_field result_line) list \<Rightarrow> (cell_key \<rightharpoonup> 'v result_line) \<Rightarrow> 'v comparison list" where
  "shared_of rnd t a b = map (\<lambda>(k, l). compare_cell rnd t k l (the (b k))) (filter (\<lambda>(k, l). b k \<noteq> None) a)"

lemma join_runs_eq:
  "join_runs rnd as bs t =
     \<lparr>jr_shared = shared_of rnd t (index_lines as) (last_line bs),
      jr_added = filter (\<lambda>k. last_line as k = None) (map fst (index_lines bs)),
      jr_removed = filter (\<lambda>k. last_line bs k = None) (map fst (index_lines as))\<rparr>"
proof -
  have 1: "fold (\<lambda>(key, a_line) r. case b key of
        Some b_line \<Rightarrow> r\<lparr>jr_shared := jr_shared r @ [compare_cell rnd t key a_line b_line]\<rparr>
      | None \<Rightarrow> r\<lparr>jr_removed := jr_removed r @ [key]\<rparr>) a r =
      r\<lparr>jr_shared := jr_shared r @ shared_of rnd t a b, jr_removed := jr_removed r @ filter (\<lambda>k. b k = None) (map fst a)\<rparr>"
    for a b and r :: "'a join_result"
    by (induction a arbitrary: r) (auto simp: shared_of_def split: option.splits)
  have 2: "fold (\<lambda>key r. if f key = None then r\<lparr>jr_added := jr_added r @ [key]\<rparr> else r) ks r =
      r\<lparr>jr_added := jr_added r @ filter (\<lambda>k. f k = None) ks\<rparr>"
    for f :: "cell_key \<rightharpoonup> 'a result_line" and ks and r :: "'a join_result"
    by (induction ks arbitrary: r) auto
  have "map_of (index_lines ls) = last_line ls" for ls :: "'a result_line list"
    by (rule ext) (rule map_of_index_lines)
  then show ?thesis by (simp add: join_runs_def Let_def 1 2)
qed

lemma compare_cell_key [simp]: "cm_key (compare_cell rnd t k a b) = k"
  by (simp add: compare_cell_def split: prod.splits)

lemma shared_keys: "map cm_key (shared_of rnd t a b) = filter (\<lambda>k. b k \<noteq> None) (map fst a)"
  by (induction a) (auto simp: shared_of_def)

section \<open>Classification\<close>

definition rounding :: "('v::linordered_field \<Rightarrow> 'v) \<Rightarrow> bool" where
  "rounding rnd \<longleftrightarrow> rnd 0 = 0 \<and> mono rnd"

lemma roundingD:
  assumes "rounding rnd"
  shows "x \<le> 0 \<Longrightarrow> rnd x \<le> 0" and "0 \<le> x \<Longrightarrow> 0 \<le> rnd x"
  using assms by (metis monoD rounding_def)+

text \<open>The sign of the percentage is the sign of the change.\<close>

lemma pct_sign:
  assumes r: "rounding rnd" and a: "a \<noteq> 0"
  shows "b \<le> a \<Longrightarrow> rnd (rnd (rnd (b - a) / \<bar>a\<bar>) * 100) \<le> 0" and "a \<le> b \<Longrightarrow> 0 \<le> rnd (rnd (rnd (b - a) / \<bar>a\<bar>) * 100)"
proof -
  assume "b \<le> a"
  then have "rnd (b - a) \<le> 0" by (intro roundingD [OF r]) simp
  then have "rnd (rnd (b - a) / \<bar>a\<bar>) \<le> 0" by (rule roundingD(1) [OF r, OF divide_nonpos_nonneg]) simp
  then show "rnd (rnd (rnd (b - a) / \<bar>a\<bar>) * 100) \<le> 0" by (rule roundingD(1) [OF r, OF mult_nonpos_nonneg]) simp
next
  assume "a \<le> b"
  then have "0 \<le> rnd (b - a)" by (intro roundingD [OF r]) simp
  then have "0 \<le> rnd (rnd (b - a) / \<bar>a\<bar>)" by (rule roundingD(2) [OF r, OF divide_nonneg_nonneg]) simp
  then show "0 \<le> rnd (rnd (rnd (b - a) / \<bar>a\<bar>) * 100)" by (rule roundingD(2) [OF r, OF mult_nonneg_nonneg]) simp
qed

definition worse :: "unit_direction \<Rightarrow> 'v::linordered_field \<Rightarrow> 'v \<Rightarrow> bool" where
  "worse d a b \<longleftrightarrow> (if effective_lower_better d then a < b else b < a)"

lemma classify_right:
  assumes r: "rounding rnd" and t: "0 < t" and c: "classify rnd a b u t = (x, p, v, d)"
  shows "d = from_unit u" and "v = Regression \<Longrightarrow> worse d a b" and "v = Improvement \<Longrightarrow> worse d b a"
    and "a = b \<Longrightarrow> v = Same"
proof -
  let ?p = "rnd (rnd (rnd (b - a) / \<bar>a\<bar>) * 100)"
  show d: "d = from_unit u" using c by (simp add: classify_def Let_def)
  have v: "v = (if a = 0 then Same else if \<bar>?p\<bar> < t then Same
      else if effective_lower_better d then (if ?p > 0 then Regression else Improvement)
      else (if ?p < 0 then Regression else Improvement))"
    using c by (auto simp: classify_def Let_def)
  have p: "\<not> \<bar>?p\<bar> < t \<Longrightarrow> ?p \<noteq> 0" using t by auto
  have s: "a \<noteq> 0 \<Longrightarrow> 0 < ?p \<Longrightarrow> a < b" "a \<noteq> 0 \<Longrightarrow> ?p < 0 \<Longrightarrow> b < a"
    using pct_sign [OF r, of a b] by (meson not_le)+
  show "v = Regression \<Longrightarrow> worse d a b" "v = Improvement \<Longrightarrow> worse d b a"
    using v p s by (auto simp: worse_def not_less_iff_gr_or_eq split: if_splits)
  show "v = Same" if "a = b"
    using v t that pct_sign [OF r, of a b] by (auto split: if_splits)
qed

section \<open>Baselines\<close>

definition slash_free :: "cell_key \<Rightarrow> bool" where
  "slash_free k \<longleftrightarrow> (case k of Cell_key f e l m \<Rightarrow> \<forall>s \<in> {f, e, l, m}. CHR ''/'' \<notin> set s)"

lemma split_on_sep: "d \<notin> set p \<Longrightarrow> split_on d (p @ d # r) = p # split_on d r"
  by (induction p) auto

lemma split_on_last: "d \<notin> set p \<Longrightarrow> split_on d p = [p]"
  by (induction p) auto

lemma split_show_key: "slash_free (Cell_key f e l m) \<Longrightarrow> split_on (CHR ''/'') (show_key (Cell_key f e l m)) = [f, e, l, m]"
  by (simp add: slash_free_def split_on_sep split_on_last)

lemma show_key_inject: "slash_free k \<Longrightarrow> slash_free k' \<Longrightarrow> show_key k = show_key k' \<longleftrightarrow> k = k'"
  by (cases k; cases k') (metis split_show_key list.inject)

text \<open>The line that a baseline keeps of a result.\<close>

definition bare :: "'v result_line \<Rightarrow> 'v result_line" where
  "bare l = l\<lparr>rl_samples := 0, rl_notes := None\<rparr>"

definition baseline_of :: "string \<Rightarrow> 'v result_line \<Rightarrow> 'v baseline_cell" where
  "baseline_of rid l = \<lparr>bc_value = rl_value l, bc_unit = rl_unit l, bc_run_id = rid\<rparr>"

definition slash_free_lines :: "'v::zero result_line list \<Rightarrow> bool" where
  "slash_free_lines ls \<longleftrightarrow> (\<forall>l \<in> set ls. \<not> is_placeholder l \<longrightarrow> slash_free (cell_key_of l))"

lemma cell_to_line_show:
  "slash_free (cell_key_of l) \<Longrightarrow> cell_to_line (show_key (cell_key_of l), baseline_of rid l) = Some (bare l)"
  unfolding cell_key_of_def cell_to_line_def by (simp add: split_show_key baseline_of_def bare_def del: show_key.simps)

lemma bt_wf_build [simp]: "bt_wf (build_baselines rid ls)"
  unfolding build_baselines_def by (rule bt_wf_fold) (auto simp: baseline_line_def)

lemma build_cells:
  assumes "slash_free_lines ls"
  shows "map_of (build_baselines rid ls) s = Some c \<longleftrightarrow>
    (\<exists>k l. last_line ls k = Some l \<and> s = show_key k \<and> c = baseline_of rid l)"
  using assms
proof (induction ls rule: rev_induct)
  case Nil
  then show ?case by (simp add: build_baselines_def)
next
  case (snoc l ls)
  then have ls: "slash_free_lines ls" and l: "\<not> is_placeholder l \<Longrightarrow> slash_free (cell_key_of l)"
    by (auto simp: slash_free_lines_def)
  have free: "slash_free k" if "last_line ls k = Some l'" for k l'
    using ls last_line_SomeD [OF that] by (auto simp: slash_free_lines_def)
  have step: "build_baselines rid (ls @ [l]) = baseline_line rid l (build_baselines rid ls)"
    by (simp add: build_baselines_def)
  show ?case
  proof (cases "is_placeholder l")
    case True
    then show ?thesis using snoc.IH [OF ls] by (simp add: step baseline_line_def)
  next
    case False
    have ne: "show_key k \<noteq> show_key (cell_key_of l)" if "last_line ls k = Some l'" "k \<noteq> cell_key_of l" for k l'
      using show_key_inject [OF free [OF that(1)] l [OF False]] that(2) by simp
    show ?thesis
    proof (cases "s = show_key (cell_key_of l)")
      case True
      then show ?thesis
        using False ne ne [THEN not_sym] by (auto simp: step baseline_line_def baseline_of_def simp del: show_key.simps)
    next
      case s: False
      then show ?thesis
        using False snoc.IH [OF ls] by (auto simp: step baseline_line_def baseline_of_def)
    qed
  qed
qed

lemma baseline_lines_set:
  assumes "slash_free_lines ls"
  shows "set (baseline_to_lines (build_baselines rid ls)) = {bare l | k l. last_line ls k = Some l}"
proof -
  have conv: "cell_to_line (show_key k, baseline_of rid l) = Some (bare l)" if "last_line ls k = Some l" for k l
    using cell_to_line_show [of l rid] last_line_SomeD [OF that] assms by (auto simp: slash_free_lines_def)
  have mem: "(s, c) \<in> set (build_baselines rid ls) \<longleftrightarrow> (\<exists>k l. last_line ls k = Some l \<and> s = show_key k \<and> c = baseline_of rid l)" for s c
    using build_cells [OF assms, of rid s c] by (simp add: bt_wf_mem)
  show ?thesis
    using mem conv by (auto simp: baseline_to_lines_def map_filter_def image_iff) force+
qed

lemma bare_simps [simp]:
  "cell_key_of (bare l) = cell_key_of l" "is_placeholder (bare l) = is_placeholder l"
  "rl_value (bare l) = rl_value l" "rl_unit (bare l) = rl_unit l"
  by (simp_all add: bare_def cell_key_of_def is_placeholder_def)

lemma last_line_baseline:
  assumes "slash_free_lines ls"
  shows "last_line (baseline_to_lines (build_baselines rid ls)) k = map_option bare (last_line ls k)"
proof (cases "last_line (baseline_to_lines (build_baselines rid ls)) k")
  case None
  have "last_line ls k = None"
  proof (rule ccontr)
    assume "last_line ls k \<noteq> None"
    then obtain l where l: "last_line ls k = Some l" by blast
    then have "bare l \<in> set (baseline_to_lines (build_baselines rid ls))" using baseline_lines_set [OF assms] by blast
    from last_line_NoneD [OF None this] last_line_SomeD [OF l] show False by simp
  qed
  then show ?thesis using None by simp
next
  case (Some l')
  from last_line_SomeD [OF this] obtain k' l where l: "last_line ls k' = Some l" "l' = bare l" "cell_key_of l' = k"
    by (auto simp: baseline_lines_set [OF assms])
  with last_line_SomeD [OF l(1)] show ?thesis using Some by simp
qed

text \<open>
  The texts and the files of the journal tool: the headline that the index reads back from an
  entry, and what the writes of a recording leave on disk.
\<close>

section \<open>White space and lines\<close>

lemma set_trim: "set (trim s) \<subseteq> set s"
proof
  fix c
  assume "c \<in> set (trim s)"
  then have "c \<in> set (dropWhile is_space s)" by (auto simp: trim_def dest: set_dropWhileD)
  then show "c \<in> set s" by (rule set_dropWhileD)
qed

definition rtrim :: "string \<Rightarrow> string" where
  "rtrim s = rev (dropWhile is_space (rev s))"

lemma trim_rtrim: "trim s = rtrim (dropWhile is_space s)"
  by (simp add: trim_def rtrim_def)

lemma rtrim_Cons: "\<not> is_space c \<Longrightarrow> rtrim (c # s) = c # rtrim s"
  by (simp add: rtrim_def dropWhile_append)

lemma rtrim_snoc: "is_space c \<Longrightarrow> rtrim (s @ [c]) = rtrim s"
  by (simp add: rtrim_def)

lemma rtrim_take: "\<exists>n. rtrim s = take n s"
  unfolding rtrim_def dropWhile_eq_drop rev_drop by auto

lemma trim_Cons: "\<not> is_space c \<Longrightarrow> \<exists>n. trim (c # s) = c # take n s"
  using rtrim_take [of s] by (simp add: trim_rtrim rtrim_Cons)

lemma trim_snoc: "is_space c \<Longrightarrow> trim (s @ [c]) = trim s"
  by (cases "\<forall>x \<in> set s. is_space x") (simp_all add: trim_rtrim rtrim_snoc dropWhile_append flip: dropWhile_eq_Nil_conv)

lemma trim_trim [simp]: "trim (trim s) = trim s"
proof (cases "dropWhile is_space s")
  case Nil
  have "trim s = []" unfolding trim_def Nil by simp
  moreover have "trim [] = []" by (simp add: trim_def)
  ultimately show ?thesis by metis
next
  case (Cons c t)
  then have c: "\<not> is_space c" using hd_dropWhile [of is_space s] by simp
  have "rtrim (rtrim t) = rtrim t" by (simp add: rtrim_def dropWhile_idem)
  then show ?thesis using c by (simp add: trim_rtrim Cons rtrim_Cons)
qed

lemma trim_strip_eol: "trim (strip_eol (l @ newline)) = trim l"
proof (cases "l \<noteq> [] \<and> last l = CHR 0x0D")
  case True
  then obtain p where l: "l = p @ [CHR 0x0D]" by (metis append_butlast_last_id)
  have "is_space (CHR 0x0D)" by (simp add: is_space_def)
  from trim_snoc [OF this, of p] show ?thesis by (simp add: l strip_eol_def Let_def butlast_append)
next
  case False
  then show ?thesis by (auto simp: strip_eol_def Let_def)
qed

lemma str_lines_line: "CHR 0x0A \<notin> set l \<Longrightarrow> str_lines (l @ CHR 0x0A # r) = strip_eol (l @ newline) # str_lines r"
  by (simp add: str_lines_def split_inclusive_line)

lemma split_inclusive_pieces: "l \<in> set (split_inclusive s) \<Longrightarrow> CHR 0x0A \<notin> set (butlast l)"
proof (induction s arbitrary: l)
  case (Cons c s)
  then show ?case by (cases "split_inclusive s") (auto split: if_splits)
qed simp

lemma str_lines_newline: "l \<in> set (str_lines s) \<Longrightarrow> CHR 0x0A \<notin> set l"
proof -
  assume "l \<in> set (str_lines s)"
  then obtain p where p: "p \<in> set (split_inclusive s)" "l = strip_eol p" by (auto simp: str_lines_def)
  from split_inclusive_pieces [OF p(1)] show "CHR 0x0A \<notin> set l"
    by (cases p rule: rev_cases) (auto simp: p(2) strip_eol_def Let_def dest: in_set_butlastD)
qed

section \<open>The manifest has one line for a value\<close>

lemma split_once_set: "split_once d s = Some (k, v) \<Longrightarrow> set v \<subseteq> set s"
  by (induction s arbitrary: k v) (auto split: if_splits option.splits)

definition one_line_values :: "manifest \<Rightarrow> bool" where
  "one_line_values m \<longleftrightarrow> (\<forall>k v. map_of m k = Some v \<longrightarrow> CHR 0x0A \<notin> set v)"

lemma manifest_line_one: "one_line_values m \<Longrightarrow> CHR 0x0A \<notin> set raw \<Longrightarrow> one_line_values (manifest_line raw m)"
  using set_trim split_once_set [of "CHR ''=''" "trim raw"]
  by (fastforce simp: one_line_values_def manifest_line_def Let_def split: option.splits)

lemma parse_manifest_one: "one_line_values (parse_manifest body)"
proof -
  have "one_line_values (fold manifest_line ls m)" if "one_line_values m" "\<forall>l \<in> set ls. CHR 0x0A \<notin> set l" for ls m
    using that by (induction ls arbitrary: m) (auto simp: manifest_line_one)
  moreover have "one_line_values []" by (simp add: one_line_values_def)
  ultimately show ?thesis unfolding parse_manifest_def using str_lines_newline by blast
qed

lemma or_default_one:
  "one_line_values m \<Longrightarrow> CHR 0x0A \<notin> set d \<Longrightarrow> CHR 0x0A \<notin> set (or_default d (mf_get m k))"
  by (auto simp: one_line_values_def or_default_def mf_get_def split: option.splits)

lemma git_sha_one: "one_line_values m \<Longrightarrow> CHR 0x0A \<notin> set (git_sha m)"
  by (auto simp: one_line_values_def git_sha_def mf_get_def split: option.splits)

lemma run_id_one: "one_line_values m \<Longrightarrow> CHR 0x0A \<notin> set (run_id m)"
  using set_trim [of "timestamp m"] set_trim [of "git_sha m"] git_sha_one [of m]
  by (auto simp: run_id_def short_sha_def timestamp_def one_line_values_def mf_get_def Let_def
      dest!: in_set_takeD split: option.splits)

section \<open>The headline of an entry\<close>

text \<open>A line of an entry that is neither a section nor, outside the section, of interest.\<close>

lemma headline_skip:
  assumes "CHR 0x0A \<notin> set (c # l)" and "\<not> is_space c" and "c = CHR ''-'' \<or> c = CHR ''#'' \<and> l \<noteq> [] \<and> hd l = CHR '' ''"
  shows "headline_loop False (str_lines ((c # l) @ CHR 0x0A # r)) = headline_loop False (str_lines r)"
proof -
  obtain n where "trim (c # l) = c # take n l" using trim_Cons [OF assms(2)] by blast
  then have "take 3 (trim (c # l)) \<noteq> ''## ''"
    using assms(3) by (cases l; cases n) (auto simp: numeral_3_eq_3)
  then show ?thesis
    unfolding str_lines_line [OF assms(1)] headline_loop.simps trim_strip_eol by (simp add: Let_def)
qed

lemma headline_blank: "headline_loop False (str_lines (CHR 0x0A # r)) = headline_loop False (str_lines r)"
  using str_lines_line [of "[]" r] by (simp add: trim_strip_eol [of "[]", simplified]) (simp add: trim_def)

definition headline_text :: "string \<Rightarrow> bool" where
  "headline_text d \<longleftrightarrow> trim d \<noteq> [] \<and> CHR 0x0A \<notin> set (trim d) \<and> take 3 (trim d) \<noteq> ''## '' \<and>
     \<not> (hd (trim d) = CHR ''<'' \<and> last (trim d) = CHR ''>'')"

lemma headline_section:
  assumes "headline_text d"
  shows "headline_loop False (str_lines (''## What changed'' @ CHR 0x0A # trim d @ CHR 0x0A # r)) = trim d"
proof -
  have "headline_loop False (str_lines (''## What changed'' @ CHR 0x0A # trim d @ CHR 0x0A # r)) =
      headline_loop True (str_lines (trim d @ CHR 0x0A # r))"
    using str_lines_line [of "''## What changed''" "trim d @ CHR 0x0A # r"]
    by (simp add: trim_strip_eol [of "''## What changed''", simplified]) (simp add: trim_def is_space_def)
  also have "\<dots> = trim d"
    using assms by (auto simp: headline_text_def str_lines_line trim_strip_eol Let_def)
  finally show ?thesis .
qed

lemma entry_section:
  assumes m: "one_line_values m" and rid: "CHR 0x0A \<notin> set rid"
  shows "\<exists>r. extract_headline (render_entry F rid m results desc) =
    headline_loop False (str_lines (''## What changed'' @ CHR 0x0A # what_changed desc @ CHR 0x0A # r))"
proof -
  have sp: "\<not> is_space (CHR ''-'')" "\<not> is_space (CHR ''#'')" by (simp_all add: is_space_def)
  define L1 where "L1 = '' commit: '' @ (if git_sha m = [] then ''(unknown)'' else git_sha m)"
  define L2 where "L2 = '' instance: '' @ or_default ''unknown'' (mf_get m ''instance_type'') @ '', '' @
    or_default ''?'' (mf_get m ''vcpus'') @ '' vCPU, kernel '' @ or_default ''?'' (mf_get m ''kernel'')"
  define L3 where "L3 = '' params: payload='' @ or_default ''?'' (mf_get m ''rtt_payload_bytes'') @
    ''B warmup='' @ or_default ''?'' (mf_get m ''rtt_warmup'') @ '' iterations='' @ or_default ''?'' (mf_get m ''rtt_iterations'')"
  have L: "CHR 0x0A \<notin> set (CHR ''-'' # L1)" "CHR 0x0A \<notin> set (CHR ''-'' # L2)" "CHR 0x0A \<notin> set (CHR ''-'' # L3)"
    using or_default_one [OF m] git_sha_one [OF m] by (simp_all add: L1_def L2_def L3_def)
  obtain r where "render_entry F rid m results desc =
      (CHR ''#'' # '' '' @ rid) @ CHR 0x0A # CHR 0x0A # (CHR ''-'' # L1) @ CHR 0x0A # (CHR ''-'' # L2) @ CHR 0x0A #
      (CHR ''-'' # L3) @ CHR 0x0A # CHR 0x0A # ''## What changed'' @ CHR 0x0A # what_changed desc @ CHR 0x0A # r"
    by (simp add: render_entry_def L1_def L2_def L3_def Let_def)
  then show ?thesis
    using headline_skip [OF L(1) sp(1)] headline_skip [OF L(2) sp(1)] headline_skip [OF L(3) sp(1)] headline_blank
      headline_skip [of "CHR ''#''" "'' '' @ rid", OF _ sp(2)] rid
    by (auto simp: extract_headline_def simp del: headline_loop.simps)
qed

definition headline_of :: "string option \<Rightarrow> string" where
  "headline_of desc = (case desc of Some d \<Rightarrow> trim d | None \<Rightarrow> [])"

lemma extract_headline_entry:
  assumes m: "one_line_values m" and rid: "CHR 0x0A \<notin> set rid" and d: "pred_option headline_text desc"
  shows "extract_headline (render_entry F rid m results desc) = headline_of desc"
proof (cases desc)
  case None
  let ?p = "''<one-paragraph description of what was added/changed in this version>''"
  have "headline_loop False (str_lines (''## What changed'' @ CHR 0x0A # ?p @ CHR 0x0A # r)) = []" for r
    using str_lines_line [of "''## What changed''" "?p @ CHR 0x0A # r"] str_lines_line [of ?p r]
    by (simp add: strip_eol_def trim_def is_space_def)
  then show ?thesis using entry_section [OF m rid, of F results desc] None
    by (auto simp: headline_of_def what_changed_def simp del: headline_loop.simps append.simps)
next
  case (Some t)
  then have t: "headline_text t" using d by simp
  then have "what_changed desc = trim t" by (simp add: Some what_changed_def headline_text_def)
  then show ?thesis using entry_section [OF m rid, of F results desc] headline_section [OF t]
    by (auto simp: headline_of_def Some simp del: headline_loop.simps append.simps)
qed

section \<open>Files\<close>

lemma write_fileD:
  assumes "write_file p s fs = Inr fs'"
  shows "map_of fs' = (map_of fs)(p \<mapsto> File s)" and "bt_wf fs \<Longrightarrow> bt_wf fs'" and "p \<noteq> []" and "map_of fs (butlast p) = Some Dir"
  using assms by (auto simp: write_file_def split: if_splits)

lemma read_file_Inr: "read_file fs p = Inr s \<longleftrightarrow> map_of fs p = Some (File s)"
  by (auto simp: read_file_def split: option.splits node.splits)

lemma copy_fileD:
  assumes "copy_file src dst fs = Inr fs'" and "src \<noteq> dst"
  shows "\<exists>s. map_of fs src = Some (File s) \<and> map_of fs' = (map_of fs)(dst \<mapsto> File s)" and "bt_wf fs \<Longrightarrow> bt_wf fs'"
  using assms write_fileD by (auto simp: copy_file_def read_file_Inr)

lemma io_error_Inr [simp]: "io_error io what r = Inr x \<longleftrightarrow> r = Inr x"
  by (auto simp: io_error_def split: sum.splits)

text \<open>\<open>create_dir_all\<close> makes the path and its ancestors directories and changes nothing else.\<close>

lemma create_dir_allD:
  assumes "create_dir_all p fs = Inr fs'"
  shows "map_of fs' q = (if \<exists>n \<le> length p. q = take n p then Some Dir else map_of fs q)" and "bt_wf fs \<Longrightarrow> bt_wf fs'"
    and "n \<le> length p \<Longrightarrow> map_of fs (take n p) \<noteq> Some (File s)"
proof -
  let ?f = "\<lambda>n fs. case map_of fs (take n p) of
     None \<Rightarrow> Inr (bt_insert (take n p) Dir fs) | Some Dir \<Rightarrow> Inr fs | Some (File _) \<Rightarrow> Inl Not_a_directory"
  have "try_fold ?f [0..<m] fs = Inr fs' \<Longrightarrow> (\<forall>q. map_of fs' q = (if \<exists>n < m. q = take n p then Some Dir else map_of fs q)) \<and>
      (bt_wf fs \<longrightarrow> bt_wf fs') \<and> (\<forall>n < m. \<forall>s. map_of fs (take n p) \<noteq> Some (File s))" for m fs'
  proof (induction m arbitrary: fs')
    case (Suc m)
    then obtain fs1 where 1: "try_fold ?f [0..<m] fs = Inr fs1" and 2: "?f m fs1 = Inr fs'"
      by (auto simp: try_fold_append)
    have "\<forall>q. map_of fs' q = (if q = take m p then Some Dir else map_of fs1 q)" "bt_wf fs1 \<longrightarrow> bt_wf fs'"
      "\<forall>s. map_of fs1 (take m p) \<noteq> Some (File s)"
      using 2 by (auto split: option.splits node.splits)
    then show ?case using Suc.IH [OF 1] by (auto simp: less_Suc_eq split: if_splits)
  qed simp
  from this [of "Suc (length p)" fs'] assms
  show "map_of fs' q = (if \<exists>n \<le> length p. q = take n p then Some Dir else map_of fs q)" "bt_wf fs \<Longrightarrow> bt_wf fs'"
    "n \<le> length p \<Longrightarrow> map_of fs (take n p) \<noteq> Some (File s)"
    by (simp_all add: create_dir_all_def less_Suc_eq_le)
qed

text \<open>A directory above every file, and the file system in the order of the paths.\<close>

definition fs_ok :: "fs \<Rightarrow> bool" where
  "fs_ok fs \<longleftrightarrow> bt_wf fs \<and> (\<forall>p. p \<noteq> [] \<longrightarrow> map_of fs p \<noteq> None \<longrightarrow> map_of fs (butlast p) = Some Dir)"

lemma run_dir_ready:
  assumes fs: "fs_ok fs" and d: "(if fs_exists fs (r @ [x]) then Inr fs else create_dir_all (r @ [x]) fs) = Inr fs1"
  shows "bt_wf fs1" and "map_of fs1 r = Some Dir" and "map_of fs1 p = Some (File s) \<longleftrightarrow> map_of fs p = Some (File s)"
proof -
  have wf: "bt_wf fs" and up: "\<And>p. p \<noteq> [] \<Longrightarrow> map_of fs p \<noteq> None \<Longrightarrow> map_of fs (butlast p) = Some Dir"
    using fs by (auto simp: fs_ok_def)
  show "bt_wf fs1" "map_of fs1 r = Some Dir" "map_of fs1 p = Some (File s) \<longleftrightarrow> map_of fs p = Some (File s)"
  proof (atomize (full), cases "fs_exists fs (r @ [x])")
    case True
    then show "bt_wf fs1 \<and> map_of fs1 r = Some Dir \<and> (map_of fs1 p = Some (File s) \<longleftrightarrow> map_of fs p = Some (File s))"
      using d wf up [of "r @ [x]"] by (simp add: fs_exists_def)
  next
    case False
    then have c: "create_dir_all (r @ [x]) fs = Inr fs1" using d by simp
    have "\<exists>n \<le> length (r @ [x]). r = take n (r @ [x])" by (rule exI [of _ "length r"]) simp
    then have "map_of fs1 r = Some Dir" by (simp only: create_dir_allD(1) [OF c] if_True)
    moreover have "map_of fs1 p = Some (File s) \<longleftrightarrow> map_of fs p = Some (File s)"
      using create_dir_allD(3) [OF c] unfolding create_dir_allD(1) [OF c] by auto
    ultimately show "bt_wf fs1 \<and> map_of fs1 r = Some Dir \<and> (map_of fs1 p = Some (File s) \<longleftrightarrow> map_of fs p = Some (File s))"
      using create_dir_allD(2) [OF c wf] by blast
  qed
qed

section \<open>The index\<close>

lemma run_names_mem:
  assumes "bt_wf fs"
  shows "rid \<in> set (run_names fs d) \<longleftrightarrow> map_of fs (d @ [rid]) = Some Dir"
proof
  assume "rid \<in> set (run_names fs d)"
  then obtain p where "(p, Dir) \<in> set fs" "p \<noteq> []" "butlast p = d" "rid = last p" by (auto simp: run_names_def)
  then show "map_of fs (d @ [rid]) = Some Dir" using bt_wf_mem [OF assms] by (metis append_butlast_last_id)
next
  assume "map_of fs (d @ [rid]) = Some Dir"
  then have "(d @ [rid], Dir) \<in> set fs" using bt_wf_mem [OF assms] by blast
  then show "rid \<in> set (run_names fs d)" by (force simp: run_names_def)
qed

lemma run_names_distinct: "bt_wf fs \<Longrightarrow> distinct (run_names fs d)"
proof -
  assume "bt_wf fs"
  then have "distinct (map fst fs)" by (simp add: bt_wf_def strict_sorted_iff)
  then show ?thesis
    unfolding run_names_def
    by (subst distinct_map) (auto simp: distinct_map distinct_filter inj_on_def intro!: prod_eqI, metis append_butlast_last_id)
qed

lemma collect_rowsD:
  assumes fs: "bt_wf fs" and rows: "collect_rows fs d = Inr rows" and dir: "map_of fs d = Some Dir"
  shows "sorted_wrt (\<lambda>r r'. rr_run_id r > rr_run_id r') rows"
    and "set rows = run_row_of fs d ` {rid. map_of fs (d @ [rid]) = Some Dir}"
proof -
  let ?rs = "map (run_row_of fs d) (run_names fs d)"
  have r: "rows = rev (sort_key rr_run_id (rev ?rs))" using rows dir by (simp add: collect_rows_def)
  have [simp]: "rr_run_id (run_row_of fs d rid) = rid" for rid by (simp add: run_row_of_def Let_def)
  have "distinct (map rr_run_id (sort_key rr_run_id (rev ?rs)))"
    using run_names_distinct [OF fs, of d] by (auto simp: distinct_map inj_on_def dest!: arg_cong [where f = rr_run_id])
  then have "sorted_wrt (<) (map rr_run_id (sort_key rr_run_id (rev ?rs)))" by (simp add: strict_sorted_iff)
  then show "sorted_wrt (\<lambda>r r'. rr_run_id r > rr_run_id r') rows"
    by (simp add: r sorted_wrt_map sorted_wrt_rev)
  show "set rows = run_row_of fs d ` {rid. map_of fs (d @ [rid]) = Some Dir}"
    using run_names_mem [OF fs] by (auto simp: r)
qed

end
