(* ===== verification/Tool_Theorems.thy ===== *)
theory Tool_Theorems
  imports Tool_Inv Complex_Main
begin

text \<open>
  The journal tool: a comparison splits the cells and flags real changes only, a run has no
  regression against the baseline taken from it, and recording a run keeps what was recorded
  before and lists the run in the index with its headline.
\<close>

section \<open>Comparing two runs\<close>



section \<open>Recording\<close>

lemma run_id_plain: "CHR ''/'' \<notin> set (run_id m) \<Longrightarrow> path_join p (run_id m) = p @ [run_id m]"
proof -
  have "CHR ''-'' \<in> set (run_id m)" by (simp add: run_id_def Let_def)
  then have "run_id m \<noteq> []" "run_id m \<noteq> ''.''" by auto
  moreover assume "CHR ''/'' \<notin> set (run_id m)"
  moreover have "hd (run_id m) \<noteq> CHR ''/''" using calculation by (metis hd_in_set)
  ultimately show ?thesis by (simp add: path_join_def split_on_last Let_def)
qed

text \<open>The three files of a run and the index, written from another directory.\<close>

lemma write_runD:
  assumes w: "write_run F io from journal dir m results desc fs = Inr fs'" and ne: "from \<noteq> dir"
    and idx: "butlast dir = journal @ [''runs'']" "dir \<noteq> []" and fs: "bt_wf fs"
  obtains fs1 rows s1 s2 where
    "map_of fs (from @ [''results.jsonl'']) = Some (File s1)" "map_of fs (from @ [''manifest.txt'']) = Some (File s2)"
    "map_of fs1 = (map_of fs)(dir @ [''results.jsonl''] \<mapsto> File s1, dir @ [''manifest.txt''] \<mapsto> File s2,
       dir @ [''entry.md''] \<mapsto> File (render_entry F (run_id m) m results desc))"
    "map_of fs dir = Some Dir" "bt_wf fs1"
    "collect_rows fs1 (journal @ [''runs'']) = Inr rows"
    "map_of fs' = (map_of fs1)(journal @ [''INDEX.md''] \<mapsto> File (render_index rows))"
proof -
  obtain fa fb fc where a: "copy_file (from @ [''results.jsonl'']) (dir @ [''results.jsonl'']) fs = Inr fa"
    and b: "copy_file (from @ [''manifest.txt'']) (dir @ [''manifest.txt'']) fa = Inr fb"
    and c: "write_file (dir @ [''entry.md'']) (render_entry F (run_id m) m results desc) fb = Inr fc"
    and d: "regenerate journal fc = Inr fs'"
    using w by (auto simp: write_run_def)
  obtain s1 where s1: "map_of fs (from @ [''results.jsonl'']) = Some (File s1)"
      "map_of fa = (map_of fs)(dir @ [''results.jsonl''] \<mapsto> File s1)" and fa: "bt_wf fa"
    using copy_fileD [OF a] ne fs by auto
  obtain s2 where s2: "map_of fa (from @ [''manifest.txt'']) = Some (File s2)"
      "map_of fb = (map_of fa)(dir @ [''manifest.txt''] \<mapsto> File s2)" and fb: "bt_wf fb"
    using copy_fileD [OF b] ne fa by auto
  note c' = write_fileD [OF c]
  obtain rows where rows: "collect_rows fc (journal @ [''runs'']) = Inr rows"
    "write_file (journal @ [''INDEX.md'']) (render_index rows) fc = Inr fs'"
    using d by (auto simp: regenerate_def)
  have dir: "map_of fs dir = Some Dir"
    using c'(4) s1(2) s2(2) by (auto split: if_splits)
  show thesis
    by (rule that [of s1 s2 fc rows])
      (use s1 s2 c' fb rows write_fileD(1) [OF rows(2)] dir in auto)
qed

text \<open>A recording that succeeds: what it read and the directory it prepared.\<close>

lemma record_runD:
  assumes rec: "record_run from_json F io from journal desc force fs = Inr (out, fs')"
  obtains m ls mf results fs1 where
    "map_of fs (from @ [''manifest.txt'']) = Some (File mf)" "m = parse_manifest mf"
    "map_of fs (from @ [''results.jsonl'']) = Some (File results)" "parse_results from_json results = Inr ls"
    "ro_run_id out = run_id m" "ro_run_dir out = path_join (journal @ [''runs'']) (run_id m)"
    "fs_exists fs (ro_run_dir out) \<longrightarrow> force"
    "(if fs_exists fs (ro_run_dir out) then Inr fs else create_dir_all (ro_run_dir out) fs) = Inr fs1"
    "write_run F io from journal (ro_run_dir out) (parse_manifest mf) ls desc fs1 = Inr fs'"
proof -
  obtain m ls where run: "read_run from_json io from fs = Inr (m, ls)"
    using rec by (cases "read_run from_json io from fs") (auto simp: record_run_def)
  then obtain mf results where mf: "map_of fs (from @ [''manifest.txt'']) = Some (File mf)" "m = parse_manifest mf"
    and results: "map_of fs (from @ [''results.jsonl'']) = Some (File results)" "parse_results from_json results = Inr ls"
    by (auto simp: read_run_def Let_def read_file_Inr split: if_splits)
  have out: "ro_run_id out = run_id m" "ro_run_dir out = path_join (journal @ [''runs'']) (run_id m)"
    using rec by (auto simp: record_run_def run Let_def)
  have "\<exists>fs1. (if fs_exists fs (ro_run_dir out) then Inr fs else create_dir_all (ro_run_dir out) fs) = Inr fs1 \<and>
      write_run F io from journal (ro_run_dir out) m ls desc fs1 = Inr fs' \<and> (fs_exists fs (ro_run_dir out) \<longrightarrow> force)"
    using rec unfolding out
    by (cases "fs_exists fs (path_join (journal @ [''runs'']) (run_id m))"; cases force) (auto simp: record_run_def run Let_def)
  then obtain fs1 where 1: "fs_exists fs (ro_run_dir out) \<longrightarrow> force"
    "(if fs_exists fs (ro_run_dir out) then Inr fs else create_dir_all (ro_run_dir out) fs) = Inr fs1"
    "write_run F io from journal (ro_run_dir out) (parse_manifest mf) ls desc fs1 = Inr fs'"
    unfolding mf(2) by blast
  then show thesis using that mf results out by blast
qed

text \<open>C38: Recording a run from another directory under an identifier without a slash refuses an existing run unless
  forced; else it leaves the results, the manifest and the entry in the directory of the run, every other
  file as it was but for the index, and an index whose rows are the recorded runs, newest first, with
  this run under its short commit and its headline.\<close>

theorem record_run_right:
  assumes fs: "fs_ok fs" and rec: "record_run from_json F io from journal desc force fs = Inr (out, fs')"
    and slash: "CHR ''/'' \<notin> set (ro_run_id out)" and ne: "from \<noteq> ro_run_dir out"
    and desc: "pred_option headline_text desc"
  shows "ro_run_dir out = journal @ [''runs'', ro_run_id out] \<and> (force \<or> map_of fs (ro_run_dir out) = None) \<and>
    (\<exists>results mf ls rows. map_of fs (from @ [''results.jsonl'']) = Some (File results) \<and>
       map_of fs (from @ [''manifest.txt'']) = Some (File mf) \<and> parse_results from_json results = Inr ls \<and>
       ro_run_id out = run_id (parse_manifest mf) \<and>
       map_of fs' (ro_run_dir out @ [''results.jsonl'']) = Some (File results) \<and>
       map_of fs' (ro_run_dir out @ [''manifest.txt'']) = Some (File mf) \<and>
       map_of fs' (ro_run_dir out @ [''entry.md'']) =
         Some (File (render_entry F (ro_run_id out) (parse_manifest mf) ls desc)) \<and>
       map_of fs' (journal @ [''INDEX.md'']) = Some (File (render_index rows)) \<and>
       sorted_wrt (\<lambda>r r'. rr_run_id r > rr_run_id r') rows \<and>
       \<lparr>rr_run_id = ro_run_id out, rr_sha = short_sha (parse_manifest mf), rr_timestamp = timestamp (parse_manifest mf),
        rr_headline = headline_of desc\<rparr> \<in> set rows) \<and>
    (\<forall>p s. map_of fs p = Some (File s) \<longrightarrow> butlast p \<noteq> ro_run_dir out \<longrightarrow> p \<noteq> journal @ [''INDEX.md''] \<longrightarrow>
       map_of fs' p = Some (File s))"
proof -
  obtain m ls mf results fs1 where mf: "map_of fs (from @ [''manifest.txt'']) = Some (File mf)" "m = parse_manifest mf"
    and results: "map_of fs (from @ [''results.jsonl'']) = Some (File results)" "parse_results from_json results = Inr ls"
    and out: "ro_run_id out = run_id m" "ro_run_dir out = path_join (journal @ [''runs'']) (run_id m)"
    and force: "fs_exists fs (ro_run_dir out) \<longrightarrow> force"
    and dir: "(if fs_exists fs (ro_run_dir out) then Inr fs else create_dir_all (ro_run_dir out) fs) = Inr fs1"
    and w: "write_run F io from journal (ro_run_dir out) (parse_manifest mf) ls desc fs1 = Inr fs'"
    by (rule record_runD [OF rec])
  let ?m = "parse_manifest mf" and ?d = "journal @ [''runs'', ro_run_id out]"
  have d: "ro_run_dir out = ?d" "ro_run_id out = run_id ?m" using slash run_id_plain by (simp_all add: out mf(2))
  have e: "(journal @ [''runs'']) @ [ro_run_id out] = ?d" by simp
  have "(if fs_exists fs ((journal @ [''runs'']) @ [ro_run_id out]) then Inr fs
      else create_dir_all ((journal @ [''runs'']) @ [ro_run_id out]) fs) = Inr fs1" using dir unfolding d(1) e .
  note ready = run_dir_ready [OF fs this]
  have b: "butlast ?d = journal @ [''runs'']" "?d \<noteq> []" by (simp_all add: butlast_append)
  obtain fs2 rows s1 s2 where s: "map_of fs1 (from @ [''results.jsonl'']) = Some (File s1)"
      "map_of fs1 (from @ [''manifest.txt'']) = Some (File s2)"
    and fs2: "map_of fs2 = (map_of fs1)(?d @ [''results.jsonl''] \<mapsto> File s1, ?d @ [''manifest.txt''] \<mapsto> File s2,
       ?d @ [''entry.md''] \<mapsto> File (render_entry F (run_id ?m) ?m ls desc))"
    and isdir: "map_of fs1 ?d = Some Dir" and wf2: "bt_wf fs2" and rows: "collect_rows fs2 (journal @ [''runs'']) = Inr rows"
    and fs': "map_of fs' = (map_of fs2)(journal @ [''INDEX.md''] \<mapsto> File (render_index rows))"
    by (rule write_runD [OF w [unfolded d(1)] ne [unfolded d(1)] b ready(1)]) (rule that)
  have eq: "s1 = results" "s2 = mf" using s mf results unfolding ready(3) by simp_all
  have runs: "map_of fs2 (journal @ [''runs'']) = Some Dir" "map_of fs2 ((journal @ [''runs'']) @ [ro_run_id out]) = Some Dir"
    using ready(2) isdir by (simp_all add: fs2)
  note collected = collect_rowsD [OF wf2 rows runs(1)]
  have "run_row_of fs2 (journal @ [''runs'']) (ro_run_id out) =
      \<lparr>rr_run_id = ro_run_id out, rr_sha = short_sha ?m, rr_timestamp = timestamp ?m, rr_headline = headline_of desc\<rparr>"
    using extract_headline_entry [OF parse_manifest_one run_id_one [OF parse_manifest_one] desc]
    by (simp add: run_row_of_def read_file_def fs2 eq Let_def)
  then have row: "\<lparr>rr_run_id = ro_run_id out, rr_sha = short_sha ?m, rr_timestamp = timestamp ?m,
      rr_headline = headline_of desc\<rparr> \<in> set rows"
    unfolding collected(2) using runs(2) by (intro image_eqI [of _ _ "ro_run_id out"]) simp_all
  have files: "map_of fs' p = Some (File t)"
    if p: "map_of fs p = Some (File t)" "butlast p \<noteq> ?d" "p \<noteq> journal @ [''INDEX.md'']" for p t
  proof -
    have "map_of fs1 p = Some (File t)" using p(1) ready(3) by blast
    moreover have "p \<noteq> ?d @ [x]" for x using p(2) by (metis butlast_snoc)
    ultimately show ?thesis unfolding fs' fs2 using p(3) by (simp only: fun_upd_apply if_False)
  qed
  have "map_of fs' (ro_run_dir out @ [''results.jsonl'']) = Some (File results)"
    "map_of fs' (ro_run_dir out @ [''manifest.txt'']) = Some (File mf)"
    "map_of fs' (ro_run_dir out @ [''entry.md'']) = Some (File (render_entry F (ro_run_id out) ?m ls desc))"
    "map_of fs' (journal @ [''INDEX.md'']) = Some (File (render_index rows))"
    by (simp_all add: d(1) fs' fs2 eq flip: d(2))
  moreover have "force \<or> map_of fs (ro_run_dir out) = None" using force by (auto simp: fs_exists_def)
  ultimately show ?thesis
    using mf(1) results d(1) d(2) row collected(1) files unfolding d(1) by blast
qed

section \<open>Witnesses\<close>

definition demo_line :: "rat \<Rightarrow> rat result_line" where
  "demo_line v = \<lparr>rl_language = ''rust'', rl_focus_area = ''rtt'', rl_experiment = ''tcp'', rl_metric = ''p50'',
     rl_value = v, rl_unit = ''ns'', rl_samples = 5, rl_notes = None\<rparr>"

definition demo_formats :: "rat formats" where
  "demo_formats = \<lparr>fm_num = (\<lambda>_. ''n''), fm_pct = (\<lambda>_. ''p''), fm_threshold = (\<lambda>_. ''10.0''), fm_val = (\<lambda>_. ''v'')\<rparr>"

definition demo_json :: "rat json" where
  "demo_json = \<lparr>jn_line = (\<lambda>_. Inr (demo_line 100)), jn_to_pretty = (\<lambda>_. ''{}''),
     jn_baselines = (\<lambda>_. Inr (build_baselines ''r'' [demo_line 100]))\<rparr>"




definition demo_fs :: fs where
  "demo_fs = [([], Dir), ([''in''], Dir), ([''in'', ''manifest.txt''], File ''timestamp=20260625T053000Z''),
     ([''in'', ''results.jsonl''], File ''{}''),
     ([''j''], Dir), ([''j'', ''runs''], Dir), ([''j'', ''runs'', ''r''], Dir), ([''j'', ''runs'', ''r'', ''results.jsonl''], File ''{}'')]"

lemma demo_fs_ok: "fs_ok demo_fs"
proof -
  have up: "\<forall>(p, n) \<in> set demo_fs. p \<noteq> [] \<longrightarrow> map_of demo_fs (butlast p) = Some Dir"
    by (simp add: demo_fs_def)
  have "map_of demo_fs (butlast p) = Some Dir" if "p \<noteq> []" "map_of demo_fs p \<noteq> None" for p
    using that up by (auto dest!: map_of_SomeD)
  moreover have "bt_wf demo_fs" by (simp add: bt_wf_def demo_fs_def)
  ultimately show ?thesis by (simp add: fs_ok_def)
qed



lemma demo_recorded:
  "\<exists>out fs'. record_run (jn_line demo_json) demo_formats (\<lambda>_. ''fault'') [''in''] [''j''] (Some ''first'') False demo_fs = Inr (out, fs') \<and>
     ro_run_id out = ''20260625T053000Z-nogit'' \<and> ro_run_dir out = [''j'', ''runs'', ''20260625T053000Z-nogit'']"
proof -
  have "case record_run (jn_line demo_json) demo_formats (\<lambda>_. ''fault'') [''in''] [''j''] (Some ''first'') False demo_fs of
      Inr (out, fs') \<Rightarrow> ro_run_id out = ''20260625T053000Z-nogit'' \<and>
        ro_run_dir out = [''j'', ''runs'', ''20260625T053000Z-nogit''] | Inl _ \<Rightarrow> False"
    by code_simp
  then show ?thesis by (auto split: sum.splits)
qed

theorem record_run_right_witness:
  "\<exists>fs' rows. map_of fs' [''j'', ''INDEX.md''] = Some (File (render_index rows)) \<and>
     (\<exists>r \<in> set rows. rr_run_id r = ''20260625T053000Z-nogit'' \<and> rr_headline r = ''first'')"
proof -
  obtain out fs' where rec: "record_run (jn_line demo_json) demo_formats (\<lambda>_. ''fault'') [''in''] [''j''] (Some ''first'') False demo_fs =
      Inr (out, fs')" and out: "ro_run_id out = ''20260625T053000Z-nogit''"
      "ro_run_dir out = [''j'', ''runs'', ''20260625T053000Z-nogit'']" using demo_recorded by blast
  note ok = demo_fs_ok
  have "headline_text ''first''" by code_simp
  then have head: "pred_option headline_text (Some ''first'')" by simp
  have "CHR ''/'' \<notin> set (ro_run_id out)" "[''in''] \<noteq> ro_run_dir out" by (simp_all add: out)
  from record_run_right [OF ok rec this head]
  have "\<exists>rows sha ts. map_of fs' ([''j''] @ [''INDEX.md'']) = Some (File (render_index rows)) \<and>
      \<lparr>rr_run_id = ro_run_id out, rr_sha = sha, rr_timestamp = ts, rr_headline = headline_of (Some ''first'')\<rparr> \<in> set rows"
    by (elim conjE exE) (intro exI conjI; assumption)
  then obtain rows sha ts where "map_of fs' ([''j''] @ [''INDEX.md'']) = Some (File (render_index rows))"
    "\<lparr>rr_run_id = ro_run_id out, rr_sha = sha, rr_timestamp = ts, rr_headline = headline_of (Some ''first'')\<rparr> \<in> set rows"
    by (elim exE conjE)
  moreover have "headline_of (Some ''first'') = ''first''" by (simp add: headline_of_def trim_def is_space_def)
  ultimately show ?thesis by (intro exI [of _ fs'] exI [of _ rows]) (force simp: out(1))
qed

end
