(* ===== verification/Run_Config.thy ===== *)
theory Run_Config
  imports Texts
begin

text \<open>
  The configurations of the experiments that exchange messages or write files:
  \<open>Config\<close> (rust/bench-common/src/config.rs), \<open>HandoffConfig\<close> (handoff.rs), \<open>FsConfig\<close>
  (fswrite.rs) and \<open>RpcConfig\<close> (rust/rpc-roundtrip/common/src/lib.rs). As for
  \<open>SmrConfig\<close>, the environment is the parameter \<open>env\<close>; an error is the message the code formats.
\<close>

type_synonym environment = "string \<Rightarrow> string option"

datatype mode = Loopback | Server | Client

section \<open>Numbers and texts of the environment\<close>

text \<open>\<open>str::parse::<u16>\<close>.\<close>

definition parse_u16_str :: "string \<Rightarrow> u16 option" where
  "parse_u16_str s =
     (case parse_u64_str s of None \<Rightarrow> None | Some n \<Rightarrow> if n < 2 ^ 16 then Some (of_nat n) else None)"

definition trimmed_text :: "environment \<Rightarrow> string \<Rightarrow> string option" where
  "trimmed_text env name =
     (case env name of None \<Rightarrow> None | Some raw \<Rightarrow> if trim raw = [] then None else Some (trim raw))"

section \<open>\<open>Config\<close>\<close>

record config =
  rtt_mode :: mode
  rtt_host :: "string option"
  rtt_tcp_port :: u16
  rtt_udp_port :: u16
  rtt_quic_port :: u16
  rtt_payload_bytes :: usize
  rtt_warmup :: usize
  rtt_iterations :: usize

definition rtt_parse_mode :: "environment \<Rightarrow> string \<Rightarrow> string + mode" where
  "rtt_parse_mode env name =
     (case env name of
        None \<Rightarrow> Inr Loopback
      | Some raw \<Rightarrow>
          (let other = trim raw in
           if other = [] \<or> other = ''loopback'' then Inr Loopback
           else if other = ''server'' then Inr Server
           else if other = ''client'' then Inr Client
           else Inl (name @ '': invalid value '' @ debug_str other @ '' (expected loopback, server, or client)'')))"

definition rtt_parse_port :: "environment \<Rightarrow> string \<Rightarrow> u16 \<Rightarrow> string + u16" where
  "rtt_parse_port env name dflt =
     (case env name of
        None \<Rightarrow> Inr dflt
      | Some raw \<Rightarrow>
          (case parse_u16_str (trim raw) of
             None \<Rightarrow> Inl (name @ '': invalid value '' @ debug_str raw @ '' (expected a port 1-65535)'')
           | Some value \<Rightarrow>
               if value = 0 then Inl (name @ '': must be a non-zero port, got 0'') else Inr value))"

definition parse_positive :: "environment \<Rightarrow> string \<Rightarrow> usize \<Rightarrow> string + usize" where
  "parse_positive env name dflt =
     (case env name of
        None \<Rightarrow> Inr dflt
      | Some raw \<Rightarrow>
          (case parse_u64_str (trim raw) of
             None \<Rightarrow> Inl (name @ '': invalid value '' @ debug_str raw @ '' (expected a positive integer)'')
           | Some value \<Rightarrow> if value = 0 then Inl (name @ '': must be positive, got 0'') else Inr value))"

definition rtt_from_env :: "environment \<Rightarrow> string + config" where
  "rtt_from_env env =
     and_then (rtt_parse_mode env ''RTT_MODE'') (\<lambda>mode.
     let host = trimmed_text env ''RTT_HOST'' in
     and_then (rtt_parse_port env ''RTT_TCP_PORT'' 9100) (\<lambda>tcp_port.
     and_then (rtt_parse_port env ''RTT_UDP_PORT'' 9101) (\<lambda>udp_port.
     and_then (rtt_parse_port env ''RTT_QUIC_PORT'' 9102) (\<lambda>quic_port.
     and_then (parse_positive env ''RTT_PAYLOAD_BYTES'' 64) (\<lambda>payload_bytes.
     and_then (parse_positive env ''RTT_WARMUP'' 10000) (\<lambda>warmup.
     and_then (parse_positive env ''RTT_ITERATIONS'' 100000) (\<lambda>iterations.
     if mode = Client \<and> host = None
     then Inl ''RTT_HOST: required in client mode (set RTT_HOST=<responder>)''
     else Inr \<lparr>rtt_mode = mode, rtt_host = host, rtt_tcp_port = tcp_port, rtt_udp_port = udp_port,
       rtt_quic_port = quic_port, rtt_payload_bytes = payload_bytes, rtt_warmup = warmup,
       rtt_iterations = iterations\<rparr>)))))))"

definition rtt_require_host :: "config \<Rightarrow> string + string" where
  "rtt_require_host cfg =
     (case rtt_host cfg of None \<Rightarrow> Inl ''RTT_HOST: required in client mode'' | Some host \<Rightarrow> Inr host)"

section \<open>\<open>HandoffConfig\<close>\<close>

record handoff_config =
  th_warmup :: usize
  th_iterations :: usize
  th_ring_cap :: usize
  th_gap_ns :: u64

text \<open>The private \<open>parse_positive\<close> of handoff.rs (and of fswrite.rs) is the one of config.rs.\<close>

definition handoff_from_env :: "environment \<Rightarrow> string + handoff_config" where
  "handoff_from_env env =
     and_then (parse_positive env ''TH_WARMUP'' 10000) (\<lambda>warmup.
     and_then (parse_positive env ''TH_ITERATIONS'' 100000) (\<lambda>iterations.
     and_then (parse_positive env ''TH_RING_CAP'' 1024) (\<lambda>ring_cap.
     and_then (parse_positive env ''TH_GAP_NS'' 100000) (\<lambda>gap_ns.
     Inr \<lparr>th_warmup = warmup, th_iterations = iterations, th_ring_cap = ring_cap, th_gap_ns = of_nat gap_ns\<rparr>))))"

section \<open>\<open>FsConfig\<close>\<close>

record fs_config =
  fsw_dir :: string
  fsw_entry_bytes :: usize
  fsw_warmup :: usize
  fsw_iterations :: usize
  fsw_batch :: usize

definition fs_from_env :: "environment \<Rightarrow> string + fs_config" where
  "fs_from_env env =
     (case trimmed_text env ''FSW_DIR'' of
        None \<Rightarrow> Inl ''FSW_DIR: required (set FSW_DIR=<dir on a real disk, not tmpfs>)''
      | Some dir \<Rightarrow>
          and_then (parse_positive env ''FSW_ENTRY_BYTES'' 256) (\<lambda>entry_bytes.
          and_then (parse_positive env ''FSW_WARMUP'' 5000) (\<lambda>warmup.
          and_then (parse_positive env ''FSW_ITERATIONS'' 50000) (\<lambda>iterations.
          and_then (parse_positive env ''FSW_BATCH'' 32) (\<lambda>batch.
          Inr \<lparr>fsw_dir = dir, fsw_entry_bytes = entry_bytes, fsw_warmup = warmup,
            fsw_iterations = iterations, fsw_batch = batch\<rparr>)))))"

section \<open>\<open>RpcConfig\<close>\<close>

record rpc_config =
  rpc_mode :: mode
  rpc_host :: "string option"
  rpc_udp_port :: u16
  rpc_tcp_port :: u16
  rpc_grpc_port :: u16
  rpc_warmup :: usize
  rpc_iterations :: usize

definition rpc_parse_mode :: "environment \<Rightarrow> string \<Rightarrow> string + mode" where
  "rpc_parse_mode env name =
     (case env name of
        None \<Rightarrow> Inr Loopback
      | Some v \<Rightarrow>
          (let other = trim v in
           if other = [] \<or> other = ''loopback'' then Inr Loopback
           else if other = ''server'' then Inr Server
           else if other = ''client'' then Inr Client
           else Inl (name @ '': unknown mode '' @ debug_str other @ '' (want loopback|server|client)'')))"

definition rpc_parse_port :: "environment \<Rightarrow> string \<Rightarrow> u16 \<Rightarrow> string + u16" where
  "rpc_parse_port env name dflt =
     (case env name of
        None \<Rightarrow> Inr dflt
      | Some v \<Rightarrow>
          (case parse_u16_str (trim v) of
             None \<Rightarrow> Inl (name @ '': expected a u16 port, got '' @ debug_str v)
           | Some p \<Rightarrow> if p = 0 then Inl (name @ '': must be a non-zero port, got 0'') else Inr p))"

definition rpc_parse_positive :: "environment \<Rightarrow> string \<Rightarrow> usize \<Rightarrow> string + usize" where
  "rpc_parse_positive env name dflt =
     (case env name of
        None \<Rightarrow> Inr dflt
      | Some v \<Rightarrow>
          (case parse_u64_str (trim v) of
             None \<Rightarrow> Inl (name @ '': expected a positive integer, got '' @ debug_str v)
           | Some n \<Rightarrow> if n = 0 then Inl (name @ '': must be > 0'') else Inr n))"

definition rpc_from_env :: "environment \<Rightarrow> string + rpc_config" where
  "rpc_from_env env =
     and_then (rpc_parse_mode env ''RPC_MODE'') (\<lambda>mode.
     let host = trimmed_text env ''RPC_HOST'' in
     and_then (rpc_parse_port env ''RPC_UDP_PORT'' 9200) (\<lambda>udp_port.
     and_then (rpc_parse_port env ''RPC_TCP_PORT'' 9201) (\<lambda>tcp_port.
     and_then (rpc_parse_port env ''RPC_GRPC_PORT'' 9202) (\<lambda>grpc_port.
     and_then (rpc_parse_positive env ''RPC_WARMUP'' 10000) (\<lambda>warmup.
     and_then (rpc_parse_positive env ''RPC_ITERATIONS'' 100000) (\<lambda>iterations.
     if mode = Client \<and> host = None
     then Inl ''RPC_HOST: required in client mode (set RPC_HOST=<responder>)''
     else Inr \<lparr>rpc_mode = mode, rpc_host = host, rpc_udp_port = udp_port, rpc_tcp_port = tcp_port,
       rpc_grpc_port = grpc_port, rpc_warmup = warmup, rpc_iterations = iterations\<rparr>))))))"

definition rpc_require_host :: "rpc_config \<Rightarrow> string + string" where
  "rpc_require_host cfg =
     (case rpc_host cfg of None \<Rightarrow> Inl ''RPC_HOST: required in client mode'' | Some host \<Rightarrow> Inr host)"

section \<open>What an accepted configuration satisfies\<close>

lemma parse_u64_bound: "parse_u64_str s = Some n \<Longrightarrow> n < 2 ^ 64"
  by (auto simp: parse_u64_str_def Let_def split: if_splits option.splits)

lemma parse_positive_ok:
  "parse_positive env name d = Inr n \<Longrightarrow> 0 < d \<Longrightarrow> d < 2 ^ 64 \<Longrightarrow> 0 < n \<and> n < 2 ^ 64"
  by (auto simp: parse_positive_def dest: parse_u64_bound split: option.splits if_splits)

lemma rpc_parse_positive_ok:
  "rpc_parse_positive env name d = Inr n \<Longrightarrow> 0 < d \<Longrightarrow> d < 2 ^ 64 \<Longrightarrow> 0 < n \<and> n < 2 ^ 64"
  by (auto simp: rpc_parse_positive_def dest: parse_u64_bound split: option.splits if_splits)

lemma parse_port_ok: "rtt_parse_port env name d = Inr p \<Longrightarrow> d \<noteq> 0 \<Longrightarrow> p \<noteq> 0"
  "rpc_parse_port env name d = Inr p \<Longrightarrow> d \<noteq> 0 \<Longrightarrow> p \<noteq> 0"
  by (auto simp: rtt_parse_port_def rpc_parse_port_def split: option.splits if_splits)

lemma trimmed_text_nonempty: "trimmed_text env name = Some s \<Longrightarrow> s \<noteq> []"
  by (auto simp: trimmed_text_def split: option.splits if_splits)

lemma handoff_from_env_ok:
  assumes "handoff_from_env env = Inr cfg"
  shows "0 < th_warmup cfg \<and> th_warmup cfg < 2 ^ 64 \<and> 0 < th_iterations cfg \<and> th_iterations cfg < 2 ^ 64 \<and>
    0 < th_ring_cap cfg \<and> th_ring_cap cfg < 2 ^ 64 \<and> 0 < th_gap_ns cfg"
proof -
  obtain w i r g where p: "parse_positive env ''TH_WARMUP'' 10000 = Inr w"
    "parse_positive env ''TH_ITERATIONS'' 100000 = Inr i" "parse_positive env ''TH_RING_CAP'' 1024 = Inr r"
    "parse_positive env ''TH_GAP_NS'' 100000 = Inr g"
    and cfg: "cfg = \<lparr>th_warmup = w, th_iterations = i, th_ring_cap = r, th_gap_ns = of_nat g\<rparr>"
    using assms by (auto simp: handoff_from_env_def)
  have "0 < g" "g < 2 ^ 64" using parse_positive_ok [OF p(4)] by simp_all
  then have "0 < (of_nat g :: u64)" by (simp add: word_less_nat_alt unat_of_nat take_bit_nat_eq_self)
  then show ?thesis
    using parse_positive_ok [OF p(1)] parse_positive_ok [OF p(2)] parse_positive_ok [OF p(3)] cfg by simp
qed

lemma if_Inl_eq_Inr: "(if P then Inl e else Inr x) = Inr y \<longleftrightarrow> \<not> P \<and> y = x"
  by auto

lemma rpc_from_env_ok:
  assumes "rpc_from_env env = Inr cfg"
  shows "rpc_udp_port cfg \<noteq> 0 \<and> rpc_tcp_port cfg \<noteq> 0 \<and> rpc_grpc_port cfg \<noteq> 0 \<and> 0 < rpc_warmup cfg \<and>
    0 < rpc_iterations cfg \<and> rpc_warmup cfg < 2 ^ 64 \<and> rpc_iterations cfg < 2 ^ 64 \<and>
    (rpc_mode cfg = Client \<longrightarrow> (\<exists>host. rpc_require_host cfg = Inr host \<and> host \<noteq> []))"
proof -
  obtain mode udp tcp grpc w i where p: "rpc_parse_port env ''RPC_UDP_PORT'' 9200 = Inr udp"
    "rpc_parse_port env ''RPC_TCP_PORT'' 9201 = Inr tcp" "rpc_parse_port env ''RPC_GRPC_PORT'' 9202 = Inr grpc"
    "rpc_parse_positive env ''RPC_WARMUP'' 10000 = Inr w" "rpc_parse_positive env ''RPC_ITERATIONS'' 100000 = Inr i"
    and host: "\<not> (mode = Client \<and> trimmed_text env ''RPC_HOST'' = None)"
    and cfg: "cfg = \<lparr>rpc_mode = mode, rpc_host = trimmed_text env ''RPC_HOST'', rpc_udp_port = udp,
      rpc_tcp_port = tcp, rpc_grpc_port = grpc, rpc_warmup = w, rpc_iterations = i\<rparr>"
    using assms unfolding rpc_from_env_def Let_def and_then_eq_Inr if_Inl_eq_Inr by blast
  have "udp \<noteq> 0" "tcp \<noteq> 0" "grpc \<noteq> 0" using parse_port_ok(2) [OF p(1)] parse_port_ok(2) [OF p(2)] parse_port_ok(2) [OF p(3)] by simp_all
  then show ?thesis
    using rpc_parse_positive_ok [OF p(4)] rpc_parse_positive_ok [OF p(5)] host trimmed_text_nonempty
    unfolding cfg by (auto simp: rpc_require_host_def)
qed

lemma rtt_from_env_ok:
  assumes "rtt_from_env env = Inr cfg"
  shows "rtt_tcp_port cfg \<noteq> 0 \<and> rtt_udp_port cfg \<noteq> 0 \<and> rtt_quic_port cfg \<noteq> 0 \<and> 0 < rtt_payload_bytes cfg \<and>
    rtt_payload_bytes cfg < 2 ^ 64 \<and> 0 < rtt_warmup cfg \<and> 0 < rtt_iterations cfg \<and> rtt_warmup cfg < 2 ^ 64 \<and>
    rtt_iterations cfg < 2 ^ 64 \<and> (rtt_mode cfg = Client \<longrightarrow> (\<exists>host. rtt_require_host cfg = Inr host \<and> host \<noteq> []))"
proof -
  obtain mode tcp udp quic b w i where p: "rtt_parse_port env ''RTT_TCP_PORT'' 9100 = Inr tcp"
    "rtt_parse_port env ''RTT_UDP_PORT'' 9101 = Inr udp" "rtt_parse_port env ''RTT_QUIC_PORT'' 9102 = Inr quic"
    "parse_positive env ''RTT_PAYLOAD_BYTES'' 64 = Inr b"
    "parse_positive env ''RTT_WARMUP'' 10000 = Inr w" "parse_positive env ''RTT_ITERATIONS'' 100000 = Inr i"
    and host: "\<not> (mode = Client \<and> trimmed_text env ''RTT_HOST'' = None)"
    and cfg: "cfg = \<lparr>rtt_mode = mode, rtt_host = trimmed_text env ''RTT_HOST'', rtt_tcp_port = tcp,
      rtt_udp_port = udp, rtt_quic_port = quic, rtt_payload_bytes = b, rtt_warmup = w, rtt_iterations = i\<rparr>"
    using assms unfolding rtt_from_env_def Let_def and_then_eq_Inr if_Inl_eq_Inr by blast
  have "tcp \<noteq> 0" "udp \<noteq> 0" "quic \<noteq> 0" using parse_port_ok(1) [OF p(1)] parse_port_ok(1) [OF p(2)] parse_port_ok(1) [OF p(3)] by simp_all
  then show ?thesis
    using parse_positive_ok [OF p(4)] parse_positive_ok [OF p(5)] parse_positive_ok [OF p(6)] host trimmed_text_nonempty
    unfolding cfg by (auto simp: rtt_require_host_def)
qed

lemma fs_from_env_ok:
  assumes "fs_from_env env = Inr cfg"
  shows "fsw_dir cfg \<noteq> [] \<and> 0 < fsw_entry_bytes cfg \<and> 0 < fsw_warmup cfg \<and> 0 < fsw_iterations cfg \<and> 0 < fsw_batch cfg \<and>
    fsw_entry_bytes cfg < 2 ^ 64 \<and> fsw_warmup cfg < 2 ^ 64 \<and> fsw_iterations cfg < 2 ^ 64 \<and> fsw_batch cfg < 2 ^ 64"
  using assms
  by (auto simp: fs_from_env_def trimmed_text_def dest: parse_positive_ok split: option.splits if_splits)

end
