(* ===== verification/Handoff.thy ===== *)
theory Handoff
  imports Run_Config
begin

text \<open>
  The ping-pong experiments of the thread handoff (rust/thread-handoff): spin, backoff, condvar
  and channel. A timer thread makes the round trips of \<open>handoff::measure\<close> and a responder thread
  answers each of them. As for the rings, every access to shared memory is one step of its thread
  and a run interleaves the steps in any order, sequentially consistent. A step is an option:
  \<open>None\<close> when the thread is blocked or has ended. The durations in the samples are not modelled,
  only how many samples there are; the pacing of the backoff experiment is a pause of the timer
  between two round trips and changes no shared state.
\<close>

section \<open>The loop of the timer\<close>

record rounds =
  rd_warmup :: nat
  rd_iterations :: nat
  rd_samples :: nat

definition rounds_new :: "usize \<Rightarrow> usize \<Rightarrow> rounds" where
  "rounds_new warmup iterations = \<lparr>rd_warmup = warmup, rd_iterations = iterations, rd_samples = 0\<rparr>"

definition rounds_left :: "rounds \<Rightarrow> nat" where
  "rounds_left r = rd_warmup r + rd_iterations r"

text \<open>The end of a round trip: the warm-up is discarded, the rest gives a sample each.\<close>

definition round_done :: "rounds \<Rightarrow> rounds" where
  "round_done r =
     (if 0 < rd_warmup r then r\<lparr>rd_warmup := rd_warmup r - 1\<rparr>
      else r\<lparr>rd_iterations := rd_iterations r - 1, rd_samples := Suc (rd_samples r)\<rparr>)"

section \<open>The idle ladder of the backoff experiment\<close>

definition MAX_SPINS :: u32 where "MAX_SPINS = 10"
definition MAX_YIELDS :: u32 where "MAX_YIELDS = 20"
definition MIN_PARK_NS :: u64 where "MIN_PARK_NS = 1000"
definition MAX_PARK_NS :: u64 where "MAX_PARK_NS = 1000000"

text \<open>The last field is history: the durations the parker was called with.\<close>

record backoff =
  bo_spins :: u32
  bo_yields :: u32
  bo_park_ns :: u64
  bo_parks :: "u64 list"

definition sleeping :: backoff where
  "sleeping = \<lparr>bo_spins = 0, bo_yields = 0, bo_park_ns = MIN_PARK_NS, bo_parks = []\<rparr>"

definition idle :: "usize \<Rightarrow> backoff \<Rightarrow> backoff" where
  "idle work_count b =
     (if 0 < work_count then b\<lparr>bo_spins := 0, bo_yields := 0, bo_park_ns := MIN_PARK_NS\<rparr>
      else if bo_spins b < MAX_SPINS then b\<lparr>bo_spins := bo_spins b + 1\<rparr>
      else if bo_yields b < MAX_YIELDS then b\<lparr>bo_yields := bo_yields b + 1\<rparr>
      else b\<lparr>bo_parks := bo_parks b @ [bo_park_ns b], bo_park_ns := min (bo_park_ns b * 2) MAX_PARK_NS\<rparr>)"

section \<open>Spin and backoff: two atomic slots\<close>

datatype slot_timer = ST_send | ST_wait | ST_clear
datatype slot_responder = SR_wait | SR_clear | SR_reply

record slots =
  sl_req :: u64
  sl_resp :: u64
  sl_timer :: slot_timer
  sl_rounds :: rounds
  sl_responder :: slot_responder
  sl_left :: usize

definition slots_new :: "usize \<Rightarrow> usize \<Rightarrow> slots" where
  "slots_new warmup iterations =
     \<lparr>sl_req = 0, sl_resp = 0, sl_timer = ST_send, sl_rounds = rounds_new warmup iterations,
      sl_responder = SR_wait, sl_left = usize_add warmup iterations\<rparr>"

definition slot_timer_step :: "('x slots_scheme) \<Rightarrow> ('x slots_scheme) option" where
  "slot_timer_step s =
     (case sl_timer s of
        ST_send \<Rightarrow>
          (if rounds_left (sl_rounds s) = 0 then None else Some (s\<lparr>sl_req := 1, sl_timer := ST_wait\<rparr>))
      | ST_wait \<Rightarrow> Some (if sl_resp s = 0 then s else s\<lparr>sl_timer := ST_clear\<rparr>)
      | ST_clear \<Rightarrow> Some (s\<lparr>sl_resp := 0, sl_timer := ST_send, sl_rounds := round_done (sl_rounds s)\<rparr>))"

definition spin_responder_step :: "slots \<Rightarrow> slots option" where
  "spin_responder_step s =
     (case sl_responder s of
        SR_wait \<Rightarrow>
          (if sl_left s = 0 then None else Some (if sl_req s = 0 then s else s\<lparr>sl_responder := SR_clear\<rparr>))
      | SR_clear \<Rightarrow> Some (s\<lparr>sl_req := 0, sl_responder := SR_reply\<rparr>)
      | SR_reply \<Rightarrow> Some (s\<lparr>sl_resp := 1, sl_responder := SR_wait, sl_left := sl_left s - 1\<rparr>))"

inductive spin_step :: "slots \<Rightarrow> slots \<Rightarrow> bool" where
  Spin_timer: "slot_timer_step s = Some s' \<Longrightarrow> spin_step s s'"
| Spin_responder: "spin_responder_step s = Some s' \<Longrightarrow> spin_step s s'"

inductive_cases spin_stepE: "spin_step s s'"

text \<open>The responder of the backoff experiment idles on its ladder and resets it on a request.\<close>

record paced_slots = slots +
  sl_ladder :: backoff

definition paced_new :: "usize \<Rightarrow> usize \<Rightarrow> paced_slots" where
  "paced_new warmup iterations = slots.extend (slots_new warmup iterations) \<lparr>sl_ladder = sleeping\<rparr>"

definition backoff_responder_step :: "paced_slots \<Rightarrow> paced_slots option" where
  "backoff_responder_step s =
     (case sl_responder s of
        SR_wait \<Rightarrow>
          (if sl_left s = 0 then None
           else Some (if sl_req s = 0 then s\<lparr>sl_ladder := idle 0 (sl_ladder s)\<rparr>
                      else s\<lparr>sl_responder := SR_clear, sl_ladder := idle 1 (sl_ladder s)\<rparr>))
      | SR_clear \<Rightarrow> Some (s\<lparr>sl_req := 0, sl_responder := SR_reply\<rparr>)
      | SR_reply \<Rightarrow> Some (s\<lparr>sl_resp := 1, sl_responder := SR_wait, sl_left := sl_left s - 1\<rparr>))"

inductive backoff_step :: "paced_slots \<Rightarrow> paced_slots \<Rightarrow> bool" where
  Backoff_timer: "slot_timer_step s = Some s' \<Longrightarrow> backoff_step s s'"
| Backoff_responder: "backoff_responder_step s = Some s' \<Longrightarrow> backoff_step s s'"

inductive_cases backoff_stepE: "backoff_step s s'"

section \<open>Channel: two queues of the standard library\<close>

text \<open>
  A queue is the messages sent and not yet received. The timer holds the sender of one queue and
  the receiver of the other until it has joined the responder; the responder's ends are dropped
  when its closure returns, which makes a send to it fail, and a receive from it once the queue
  is empty.
\<close>

definition CHANNEL_SPIN_BUDGET :: nat where "CHANNEL_SPIN_BUDGET = 256"

datatype chan_timer = CT_send | CT_recv nat | CT_panicked
datatype chan_responder = CR_next | CR_recv nat | CR_send u64 | CR_returned

record channels =
  ch_req :: "u64 list"
  ch_resp :: "u64 list"
  ch_timer :: chan_timer
  ch_rounds :: rounds
  ch_responder :: chan_responder
  ch_left :: usize

definition channels_new :: "usize \<Rightarrow> usize \<Rightarrow> channels" where
  "channels_new warmup iterations =
     \<lparr>ch_req = [], ch_resp = [], ch_timer = CT_send, ch_rounds = rounds_new warmup iterations,
      ch_responder = CR_next, ch_left = usize_add warmup iterations\<rparr>"

text \<open>
  One call of \<open>try_recv\<close> (\<open>Suc k\<close> calls left) or of the blocking \<open>recv\<close> (none left): the number of
  calls left after an empty queue, or the value received and the rest of the queue, or the error.
\<close>

datatype received = Again nat | Value u64 "u64 list" | Disconnected | Blocked

fun spin_recv :: "nat \<Rightarrow> bool \<Rightarrow> u64 list \<Rightarrow> received" where
  "spin_recv k up (v # q) = Value v q"
| "spin_recv (Suc k) True [] = Again k"
| "spin_recv 0 True [] = Blocked"
| "spin_recv k False [] = Disconnected"

definition chan_timer_step :: "channels \<Rightarrow> channels option" where
  "chan_timer_step s =
     (let up = (ch_responder s \<noteq> CR_returned) in
      case ch_timer s of
        CT_send \<Rightarrow>
          (if rounds_left (ch_rounds s) = 0 then None
           else if up then Some (s\<lparr>ch_req := ch_req s @ [1], ch_timer := CT_recv CHANNEL_SPIN_BUDGET\<rparr>)
           else Some (s\<lparr>ch_timer := CT_panicked\<rparr>))
      | CT_recv k \<Rightarrow>
          (case spin_recv k up (ch_resp s) of
             Again k \<Rightarrow> Some (s\<lparr>ch_timer := CT_recv k\<rparr>)
           | Value v q \<Rightarrow> Some (s\<lparr>ch_resp := q, ch_timer := CT_send, ch_rounds := round_done (ch_rounds s)\<rparr>)
           | Disconnected \<Rightarrow> Some (s\<lparr>ch_timer := CT_panicked\<rparr>)
           | Blocked \<Rightarrow> None)
      | CT_panicked \<Rightarrow> None)"

definition chan_responder_step :: "channels \<Rightarrow> channels option" where
  "chan_responder_step s =
     (let up = (ch_timer s \<noteq> CT_panicked) in
      case ch_responder s of
        CR_next \<Rightarrow>
          Some (if ch_left s = 0 then s\<lparr>ch_responder := CR_returned\<rparr>
                else s\<lparr>ch_responder := CR_recv CHANNEL_SPIN_BUDGET\<rparr>)
      | CR_recv k \<Rightarrow>
          (case spin_recv k up (ch_req s) of
             Again k \<Rightarrow> Some (s\<lparr>ch_responder := CR_recv k\<rparr>)
           | Value v q \<Rightarrow> Some (s\<lparr>ch_req := q, ch_responder := CR_send v\<rparr>)
           | Disconnected \<Rightarrow> Some (s\<lparr>ch_responder := CR_returned\<rparr>)
           | Blocked \<Rightarrow> None)
      | CR_send v \<Rightarrow>
          Some (if up then s\<lparr>ch_resp := ch_resp s @ [v], ch_responder := CR_next, ch_left := ch_left s - 1\<rparr>
                else s\<lparr>ch_responder := CR_returned\<rparr>)
      | CR_returned \<Rightarrow> None)"

inductive chan_step :: "channels \<Rightarrow> channels \<Rightarrow> bool" where
  Chan_timer: "chan_timer_step s = Some s' \<Longrightarrow> chan_step s s'"
| Chan_responder: "chan_responder_step s = Some s' \<Longrightarrow> chan_step s s'"

inductive_cases chan_stepE: "chan_step s s'"

section \<open>Condvar: two mailboxes with a mutex and a condition variable\<close>

text \<open>
  \<open>mb_asleep\<close> says that the receiver waits on the condition variable and has not been woken: a
  mailbox has one receiver, so that \<open>notify_one\<close> wakes it or nobody. No thread panics while it
  holds a mutex, so that it is never poisoned.
\<close>

definition CONDVAR_SPIN_BUDGET :: nat where "CONDVAR_SPIN_BUDGET = 4000"

record mailbox =
  mb_full :: bool
  mb_slot :: "u64 option"
  mb_locked :: bool
  mb_asleep :: bool

definition mailbox_new :: mailbox where
  "mailbox_new = \<lparr>mb_full = False, mb_slot = None, mb_locked = False, mb_asleep = False\<rparr>"

datatype send_pc = S_lock | S_fill | S_flag | S_unlock | S_notify

text \<open>A step of \<open>send\<close>: where it goes on, \<open>None\<close> when it returns.\<close>

fun send_step :: "send_pc \<Rightarrow> u64 \<Rightarrow> mailbox \<Rightarrow> (send_pc option \<times> mailbox) option" where
  "send_step S_lock v m = (if mb_locked m then None else Some (Some S_fill, m\<lparr>mb_locked := True\<rparr>))"
| "send_step S_fill v m = Some (Some S_flag, m\<lparr>mb_slot := Some v\<rparr>)"
| "send_step S_flag v m = Some (Some S_unlock, m\<lparr>mb_full := True\<rparr>)"
| "send_step S_unlock v m = Some (Some S_notify, m\<lparr>mb_locked := False\<rparr>)"
| "send_step S_notify v m = Some (None, m\<lparr>mb_asleep := False\<rparr>)"

text \<open>
  The program points of \<open>recv\<close>: the spin with the looks left, the lock and the look under it, the
  drop of the guard of an empty slot; then the lock of the slow path, its look, the wait; and
  after a value was taken the flag and the drop of the guard.
\<close>

datatype recv_pc =
    V_spin nat
  | V_lock nat
  | V_take nat
  | V_drop nat
  | V_slow
  | V_check
  | V_wait
  | V_flag u64
  | V_unlock u64

text \<open>A step of \<open>recv\<close>: where it goes on, or the value it returns.\<close>

fun recv_step :: "recv_pc \<Rightarrow> mailbox \<Rightarrow> ((recv_pc + u64) \<times> mailbox) option" where
  "recv_step (V_spin 0) m = Some (Inl V_slow, m)"
| "recv_step (V_spin (Suc k)) m = Some (Inl (if mb_full m then V_lock k else V_spin k), m)"
| "recv_step (V_lock k) m = (if mb_locked m then None else Some (Inl (V_take k), m\<lparr>mb_locked := True\<rparr>))"
| "recv_step (V_take k) m =
     Some (case mb_slot m of Some v \<Rightarrow> (Inl (V_flag v), m\<lparr>mb_slot := None\<rparr>) | None \<Rightarrow> (Inl (V_drop k), m))"
| "recv_step (V_drop k) m = Some (Inl (V_spin k), m\<lparr>mb_locked := False\<rparr>)"
| "recv_step V_slow m = (if mb_locked m then None else Some (Inl V_check, m\<lparr>mb_locked := True\<rparr>))"
| "recv_step V_check m =
     Some (case mb_slot m of
         Some v \<Rightarrow> (Inl (V_flag v), m\<lparr>mb_slot := None\<rparr>)
       | None \<Rightarrow> (Inl V_wait, m\<lparr>mb_locked := False, mb_asleep := True\<rparr>))"
| "recv_step V_wait m =
     (if mb_asleep m \<or> mb_locked m then None else Some (Inl V_check, m\<lparr>mb_locked := True\<rparr>))"
| "recv_step (V_flag v) m = Some (Inl (V_unlock v), m\<lparr>mb_full := False\<rparr>)"
| "recv_step (V_unlock v) m = Some (Inr v, m\<lparr>mb_locked := False\<rparr>)"

datatype caller = At_top | Sending send_pc u64 | Receiving recv_pc

record rendezvous =
  rz_req :: mailbox
  rz_resp :: mailbox
  rz_timer :: caller
  rz_rounds :: rounds
  rz_responder :: caller
  rz_left :: usize

definition rendezvous_new :: "usize \<Rightarrow> usize \<Rightarrow> rendezvous" where
  "rendezvous_new warmup iterations =
     \<lparr>rz_req = mailbox_new, rz_resp = mailbox_new, rz_timer = At_top, rz_rounds = rounds_new warmup iterations,
      rz_responder = At_top, rz_left = usize_add warmup iterations\<rparr>"

definition cv_timer_step :: "rendezvous \<Rightarrow> rendezvous option" where
  "cv_timer_step s =
     (case rz_timer s of
        At_top \<Rightarrow> (if rounds_left (rz_rounds s) = 0 then None else Some (s\<lparr>rz_timer := Sending S_lock 1\<rparr>))
      | Sending pc v \<Rightarrow>
          (case send_step pc v (rz_req s) of
             None \<Rightarrow> None
           | Some (Some pc', m) \<Rightarrow> Some (s\<lparr>rz_req := m, rz_timer := Sending pc' v\<rparr>)
           | Some (None, m) \<Rightarrow> Some (s\<lparr>rz_req := m, rz_timer := Receiving (V_spin CONDVAR_SPIN_BUDGET)\<rparr>))
      | Receiving pc \<Rightarrow>
          (case recv_step pc (rz_resp s) of
             None \<Rightarrow> None
           | Some (Inl pc', m) \<Rightarrow> Some (s\<lparr>rz_resp := m, rz_timer := Receiving pc'\<rparr>)
           | Some (Inr v, m) \<Rightarrow> Some (s\<lparr>rz_resp := m, rz_timer := At_top, rz_rounds := round_done (rz_rounds s)\<rparr>)))"

definition cv_responder_step :: "rendezvous \<Rightarrow> rendezvous option" where
  "cv_responder_step s =
     (case rz_responder s of
        At_top \<Rightarrow> (if rz_left s = 0 then None else Some (s\<lparr>rz_responder := Receiving (V_spin CONDVAR_SPIN_BUDGET)\<rparr>))
      | Receiving pc \<Rightarrow>
          (case recv_step pc (rz_req s) of
             None \<Rightarrow> None
           | Some (Inl pc', m) \<Rightarrow> Some (s\<lparr>rz_req := m, rz_responder := Receiving pc'\<rparr>)
           | Some (Inr v, m) \<Rightarrow> Some (s\<lparr>rz_req := m, rz_responder := Sending S_lock v\<rparr>))
      | Sending pc v \<Rightarrow>
          (case send_step pc v (rz_resp s) of
             None \<Rightarrow> None
           | Some (Some pc', m) \<Rightarrow> Some (s\<lparr>rz_resp := m, rz_responder := Sending pc' v\<rparr>)
           | Some (None, m) \<Rightarrow> Some (s\<lparr>rz_resp := m, rz_responder := At_top, rz_left := rz_left s - 1\<rparr>)))"

inductive cv_step :: "rendezvous \<Rightarrow> rendezvous \<Rightarrow> bool" where
  Cv_timer: "cv_timer_step s = Some s' \<Longrightarrow> cv_step s s'"
| Cv_responder: "cv_responder_step s = Some s' \<Longrightarrow> cv_step s s'"

inductive_cases cv_stepE: "cv_step s s'"

text \<open>A condition variable may wake its waiter without a notification.\<close>

inductive cv_spurious :: "rendezvous \<Rightarrow> rendezvous \<Rightarrow> bool" where
  Wake_req: "mb_asleep (rz_req s) \<Longrightarrow> cv_spurious s (s\<lparr>rz_req := (rz_req s)\<lparr>mb_asleep := False\<rparr>\<rparr>)"
| Wake_resp: "mb_asleep (rz_resp s) \<Longrightarrow> cv_spurious s (s\<lparr>rz_resp := (rz_resp s)\<lparr>mb_asleep := False\<rparr>\<rparr>)"

inductive_cases cv_spuriousE: "cv_spurious s s'"

end
