(* ===== verification/Handoff_Spin.thy ===== *)
theory Handoff_Spin
  imports Handoff
begin

text \<open>
  What the ping-pong experiments have in common: a machine with steps of work and steps of
  waiting, an invariant, and a fuel that work burns. The locale gives the runs of every such
  machine their end; the spin and backoff experiments are its first two instances, the second by
  a simulation of the first.
\<close>

section \<open>Machines that work and wait\<close>

text \<open>A run with \<open>n\<close> steps of work and \<open>k\<close> steps of waiting.\<close>

inductive machine_run :: "('s \<Rightarrow> 's \<Rightarrow> bool) \<Rightarrow> ('s \<Rightarrow> 's \<Rightarrow> bool) \<Rightarrow> 's \<Rightarrow> nat \<Rightarrow> nat \<Rightarrow> 's \<Rightarrow> bool"
  for work wait s0 where
  Run_start: "machine_run work wait s0 0 0 s0"
| Run_work: "machine_run work wait s0 n k s \<Longrightarrow> work s s' \<Longrightarrow> machine_run work wait s0 (Suc n) k s'"
| Run_wait: "machine_run work wait s0 n k s \<Longrightarrow> wait s s' \<Longrightarrow> machine_run work wait s0 n (Suc k) s'"

locale handoff_machine =
  fixes work wait :: "'s \<Rightarrow> 's \<Rightarrow> bool" and inv :: "'s \<Rightarrow> bool" and fuel :: "'s \<Rightarrow> nat"
    and ended :: "'s \<Rightarrow> bool" and cost :: nat
  assumes work_inv: "inv s \<Longrightarrow> work s s' \<Longrightarrow> inv s'"
    and wait_inv: "inv s \<Longrightarrow> wait s s' \<Longrightarrow> inv s'"
    and work_burns: "inv s \<Longrightarrow> work s s' \<Longrightarrow> fuel s' < fuel s"
    and wait_cost: "inv s \<Longrightarrow> wait s s' \<Longrightarrow> fuel s' \<le> fuel s + cost"
    and goes_on: "inv s \<Longrightarrow> \<not> ended s \<Longrightarrow> \<exists>s'. work s s'"
begin

lemma run_inv: "machine_run work wait s0 n k s \<Longrightarrow> inv s0 \<Longrightarrow> inv s"
  by (induction rule: machine_run.induct) (auto intro: work_inv wait_inv)

lemma run_fuel: "machine_run work wait s0 n k s \<Longrightarrow> inv s0 \<Longrightarrow> n + fuel s \<le> fuel s0 + cost * k"
proof (induction rule: machine_run.induct)
  case (Run_work n k s s')
  then have "fuel s' < fuel s" using work_burns run_inv by blast
  with Run_work show ?case by simp
next
  case (Run_wait n k s s')
  then have "fuel s' \<le> fuel s + cost" using wait_cost run_inv by blast
  with Run_wait show ?case by simp
qed simp

lemma run_completes:
  assumes "machine_run work wait s0 n k s" and "inv s0"
  shows "n \<le> fuel s0 + cost * k" "inv s" "\<not> ended s \<Longrightarrow> \<exists>s'. work s s'"
  using run_fuel [OF assms] run_inv [OF assms] goes_on by auto

end

section \<open>Spin\<close>

definition spin_inv :: "nat \<Rightarrow> slots \<Rightarrow> bool" where
  "spin_inv n s \<longleftrightarrow>
     rd_iterations (sl_rounds s) + rd_samples (sl_rounds s) = n \<and>
     (let l = rounds_left (sl_rounds s) in
      case (sl_timer s, sl_responder s) of
        (ST_send, SR_wait) \<Rightarrow> sl_req s = 0 \<and> sl_resp s = 0 \<and> sl_left s = l
      | (ST_wait, SR_wait) \<Rightarrow>
          sl_req s = 1 \<and> sl_resp s = 0 \<and> sl_left s = l \<and> 0 < l \<or> sl_req s = 0 \<and> sl_resp s = 1 \<and> Suc (sl_left s) = l
      | (ST_wait, SR_clear) \<Rightarrow> sl_req s = 1 \<and> sl_resp s = 0 \<and> sl_left s = l \<and> 0 < l
      | (ST_wait, SR_reply) \<Rightarrow> sl_req s = 0 \<and> sl_resp s = 0 \<and> sl_left s = l \<and> 0 < l
      | (ST_clear, SR_wait) \<Rightarrow> sl_req s = 0 \<and> sl_resp s = 1 \<and> Suc (sl_left s) = l
      | _ \<Rightarrow> False)"

definition spin_fuel :: "slots \<Rightarrow> nat" where
  "spin_fuel s =
     6 * rounds_left (sl_rounds s) -
     (case sl_timer s of
        ST_send \<Rightarrow> 0
      | ST_wait \<Rightarrow>
          (case sl_responder s of SR_wait \<Rightarrow> if sl_resp s = 0 then 1 else 4 | SR_clear \<Rightarrow> 2 | SR_reply \<Rightarrow> 3)
      | ST_clear \<Rightarrow> 5)"

definition spin_ended :: "slots \<Rightarrow> bool" where
  "spin_ended s \<longleftrightarrow> sl_timer s = ST_send \<and> rounds_left (sl_rounds s) = 0 \<and> sl_responder s = SR_wait \<and> sl_left s = 0"

definition spin_work :: "slots \<Rightarrow> slots \<Rightarrow> bool" where
  "spin_work s s' \<longleftrightarrow> spin_step s s' \<and> s' \<noteq> s"

definition spin_wait :: "slots \<Rightarrow> slots \<Rightarrow> bool" where
  "spin_wait s s' \<longleftrightarrow> spin_step s s' \<and> s' = s"

lemma rounds_left_done [simp]: "rounds_left (round_done r) = rounds_left r - 1"
  by (auto simp: rounds_left_def round_done_def)

lemma round_done_samples:
  "0 < rounds_left r \<Longrightarrow> rd_iterations (round_done r) + rd_samples (round_done r) = rd_iterations r + rd_samples r"
  by (auto simp: rounds_left_def round_done_def)

lemmas spin_defs = spin_inv_def spin_fuel_def slot_timer_step_def spin_responder_step_def

lemma spin_step_inv: "spin_inv n s \<Longrightarrow> spin_step s s' \<Longrightarrow> spin_inv n s'"
  by (erule spin_stepE)
    (auto simp: spin_defs Let_def round_done_samples split: slot_timer.splits slot_responder.splits if_splits)

lemma spin_step_fuel: "spin_inv n s \<Longrightarrow> spin_step s s' \<Longrightarrow> s' \<noteq> s \<Longrightarrow> spin_fuel s' < spin_fuel s"
  by (erule spin_stepE)
    (auto simp: spin_defs Let_def split: slot_timer.splits slot_responder.splits if_splits)

lemma spin_goes_on:
  assumes "spin_inv n s" and "\<not> spin_ended s"
  shows "\<exists>s'. spin_work s s'"
proof -
  have "(\<exists>s'. slot_timer_step s = Some s' \<and> s' \<noteq> s) \<or> (\<exists>s'. spin_responder_step s = Some s' \<and> s' \<noteq> s)"
    using assms
    by (cases s) (auto simp: spin_defs spin_ended_def Let_def split: slot_timer.splits slot_responder.splits if_splits)
  then show ?thesis by (auto simp: spin_work_def intro: spin_step.intros)
qed

interpretation spin: handoff_machine spin_work spin_wait "spin_inv n" spin_fuel spin_ended 0 for n
  by unfold_locales
    (auto simp: spin_work_def spin_wait_def intro: spin_step_inv spin_step_fuel
      intro!: spin_goes_on [unfolded spin_work_def])

section \<open>The ladder\<close>

text \<open>Every park of the ladder lasts between the two bounds, and the next one too.\<close>

definition ladder_ok :: "backoff \<Rightarrow> bool" where
  "ladder_ok b \<longleftrightarrow>
     bo_spins b \<le> MAX_SPINS \<and> bo_yields b \<le> MAX_YIELDS \<and> MIN_PARK_NS \<le> bo_park_ns b \<and> bo_park_ns b \<le> MAX_PARK_NS \<and>
     (\<forall>ns \<in> set (bo_parks b). MIN_PARK_NS \<le> ns \<and> ns \<le> MAX_PARK_NS)"

lemmas ladder_defs = MAX_SPINS_def MAX_YIELDS_def MIN_PARK_NS_def MAX_PARK_NS_def

lemma double_park:
  assumes "(1000 :: u64) \<le> p" and "p \<le> 1000000"
  shows "unat (p * 2) = 2 * unat p" "1000 \<le> min (p * 2) 1000000"
proof -
  have "1000 \<le> unat p" "unat p \<le> 1000000" using assms by (simp_all add: word_le_nat_alt)
  then show double: "unat (p * 2) = 2 * unat p" by (simp add: unat_word_ariths)
  then show "1000 \<le> min (p * 2) 1000000" using \<open>1000 \<le> unat p\<close> by (auto simp: min_def word_le_nat_alt)
qed

lemma sleeping_ok: "ladder_ok sleeping"
  by (simp add: ladder_ok_def sleeping_def ladder_defs)

lemma word_less_inc: "(a :: u32) < b \<Longrightarrow> a + 1 \<le> b"
  by (rule inc_le)

lemma idle_ok: "ladder_ok b \<Longrightarrow> ladder_ok (idle w b)"
  using double_park(2) [of "bo_park_ns b"] word_less_inc [of "bo_spins b" MAX_SPINS] word_less_inc [of "bo_yields b" MAX_YIELDS]
  by (auto simp: ladder_ok_def idle_def MIN_PARK_NS_def MAX_PARK_NS_def)

text \<open>The ladder after \<open>n\<close> idle calls in a row, from its reset.\<close>

definition ladder_park :: "nat \<Rightarrow> nat" where
  "ladder_park i = min (1000 * 2 ^ i) 1000000"

definition climbed :: "u64 list \<Rightarrow> nat \<Rightarrow> backoff" where
  "climbed ps n =
     \<lparr>bo_spins = of_nat (min n 10), bo_yields = of_nat (min (n - 10) 20), bo_park_ns = of_nat (ladder_park (n - 30)),
      bo_parks = ps @ map (\<lambda>i. of_nat (ladder_park i)) [0..<n - 30]\<rparr>"

lemma ladder_park_Suc: "ladder_park (Suc i) = min (ladder_park i * 2) 1000000"
  by (auto simp: ladder_park_def min_def)

lemma ladder_park_bounds: "1000 \<le> ladder_park i" "ladder_park i \<le> 1000000"
  by (simp_all add: ladder_park_def)

lemma of_nat_ladder_Suc:
  "(of_nat (ladder_park (Suc i)) :: u64) = min (of_nat (ladder_park i) * 2) 1000000"
proof -
  have u: "unat (of_nat k :: u64) = k" if "k \<le> 2000000" for k
    using that by (simp add: unat_of_nat take_bit_nat_eq_self)
  have l: "ladder_park i \<le> 1000000" by (rule ladder_park_bounds)
  have "unat (min (of_nat (ladder_park i * 2)) (1000000 :: u64)) = min (ladder_park i * 2) 1000000"
    using u [of "ladder_park i * 2"] l by (auto simp: min_def word_le_nat_alt)
  also have "\<dots> = unat (of_nat (ladder_park (Suc i)) :: u64)"
    using u [of "ladder_park (Suc i)"] ladder_park_bounds(2) [of "Suc i"] by (simp add: ladder_park_Suc)
  finally show ?thesis by (simp add: word_unat_eq_iff)
qed

lemma idle_climbed: "idle 0 (climbed ps n) = climbed ps (Suc n)"
proof -
  have u: "unat (of_nat k :: u32) = k" if "k \<le> 100" for k
    using that by (simp add: unat_of_nat take_bit_nat_eq_self)
  have lt: "(of_nat (min a 10) :: u32) < 10 \<longleftrightarrow> a < 10" "(of_nat (min a 20) :: u32) < 20 \<longleftrightarrow> a < 20" for a
    using u [of "min a 10"] u [of "min a 20"] by (auto simp: word_less_nat_alt)
  consider "n < 10" | "10 \<le> n" "n < 30" | "30 \<le> n" by linarith
  then show ?thesis
  proof cases
    case 1
    then have "min (Suc n) 10 = Suc (min n 10)" by simp
    then show ?thesis using 1 lt(1) [of n]
      by (simp add: idle_def climbed_def ladder_defs add.commute)
  next
    case 2
    then have "min (Suc n - 10) 20 = Suc (min (n - 10) 20)" "min n 10 = 10" "min (Suc n) 10 = 10" by auto
    moreover have "n - 30 = 0" "Suc n - 30 = 0" using 2 by auto
    ultimately show ?thesis using 2 lt(1) [of n] lt(2) [of "n - 10"]
      by (simp add: idle_def climbed_def ladder_defs add.commute)
  next
    case 3
    then have "Suc n - 30 = Suc (n - 30)" "min (n - 10) 20 = 20" "min (Suc n - 10) 20 = 20" "min n 10 = 10"
      "min (Suc n) 10 = 10" by auto
    then show ?thesis
      by (simp add: idle_def climbed_def ladder_defs of_nat_ladder_Suc)
  qed
qed

lemma idle_many: "(idle 0 ^^ n) (climbed ps 0) = climbed ps n"
  by (induction n) (simp_all add: idle_climbed)

lemma climbed_0: "climbed ps 0 = sleeping\<lparr>bo_parks := ps\<rparr>"
  by (simp add: climbed_def sleeping_def ladder_defs ladder_park_def)

lemma idle_resets: "idle (Suc w) b = climbed (bo_parks b) 0"
  by (cases b) (simp add: idle_def climbed_0 sleeping_def)

section \<open>Backoff simulates spin\<close>

definition backoff_inv :: "nat \<Rightarrow> paced_slots \<Rightarrow> bool" where
  "backoff_inv n s \<longleftrightarrow> spin_inv n (slots.truncate s) \<and> ladder_ok (sl_ladder s)"

definition backoff_work :: "paced_slots \<Rightarrow> paced_slots \<Rightarrow> bool" where
  "backoff_work s s' \<longleftrightarrow> backoff_step s s' \<and> slots.truncate s' \<noteq> slots.truncate s"

definition backoff_wait :: "paced_slots \<Rightarrow> paced_slots \<Rightarrow> bool" where
  "backoff_wait s s' \<longleftrightarrow> backoff_step s s' \<and> slots.truncate s' = slots.truncate s"

lemma timer_truncate:
  "slot_timer_step (slots.truncate s) = map_option slots.truncate (slot_timer_step (s :: paced_slots))"
  by (auto simp: slot_timer_step_def slots.defs split: slot_timer.splits)

lemma responder_truncate:
  "spin_responder_step (slots.truncate s) = map_option slots.truncate (backoff_responder_step s)"
  by (auto simp: spin_responder_step_def backoff_responder_step_def slots.defs split: slot_responder.splits)

lemma backoff_simulates: "backoff_step s s' \<Longrightarrow> spin_step (slots.truncate s) (slots.truncate s')"
  by (erule backoff_stepE) (auto intro: Spin_timer Spin_responder simp: timer_truncate responder_truncate)

lemma spin_simulated:
  assumes "spin_step (slots.truncate s) t"
  shows "\<exists>s'. backoff_step s s' \<and> slots.truncate s' = t"
  using assms
proof (rule spin_stepE)
  show ?thesis if "slot_timer_step (slots.truncate s) = Some t"
    using that by (auto simp: timer_truncate intro: Backoff_timer)
  show ?thesis if "spin_responder_step (slots.truncate s) = Some t"
    using that by (auto simp: responder_truncate intro: Backoff_responder)
qed

lemma ladder_step_ok: "backoff_step s s' \<Longrightarrow> ladder_ok (sl_ladder s) \<Longrightarrow> ladder_ok (sl_ladder s')"
  by (erule backoff_stepE)
    (auto simp: slot_timer_step_def backoff_responder_step_def idle_ok split: slot_timer.splits slot_responder.splits if_splits)

lemma backoff_step_inv: "backoff_inv n s \<Longrightarrow> backoff_step s s' \<Longrightarrow> backoff_inv n s'"
  using spin_step_inv backoff_simulates ladder_step_ok unfolding backoff_inv_def by blast

lemma backoff_burns:
  "backoff_inv n s \<Longrightarrow> backoff_work s s' \<Longrightarrow> spin_fuel (slots.truncate s') < spin_fuel (slots.truncate s)"
  using spin_step_fuel backoff_simulates unfolding backoff_inv_def backoff_work_def by blast

lemma backoff_goes_on:
  assumes "backoff_inv n s" and "\<not> spin_ended (slots.truncate s)"
  shows "\<exists>s'. backoff_work s s'"
  using spin_goes_on [of n "slots.truncate s"] assms spin_simulated
  unfolding backoff_inv_def backoff_work_def spin_work_def by metis

interpretation backoff: handoff_machine backoff_work backoff_wait "backoff_inv n"
  "\<lambda>s. spin_fuel (slots.truncate s)" "\<lambda>s. spin_ended (slots.truncate s)" 0 for n
  by unfold_locales
    (auto simp: backoff_wait_def backoff_work_def intro: backoff_step_inv
      intro!: backoff_burns [unfolded backoff_work_def] backoff_goes_on [unfolded backoff_work_def])

section \<open>The start\<close>

lemma spin_start:
  "warmup + iterations < 2 ^ 64 \<Longrightarrow> spin_inv iterations (slots_new warmup iterations)"
  "spin_fuel (slots_new warmup iterations) = 6 * (warmup + iterations)"
  by (simp_all add: spin_inv_def spin_fuel_def slots_new_def rounds_new_def rounds_left_def)

lemma backoff_start:
  "slots.truncate (paced_new warmup iterations) = slots_new warmup iterations"
  "warmup + iterations < 2 ^ 64 \<Longrightarrow> backoff_inv iterations (paced_new warmup iterations)"
proof -
  show t: "slots.truncate (paced_new warmup iterations) = slots_new warmup iterations"
    by (simp add: paced_new_def slots_new_def slots.defs)
  have "sl_ladder (paced_new warmup iterations) = sleeping" by (simp add: paced_new_def slots.defs slots_new_def)
  then show "backoff_inv iterations (paced_new warmup iterations)" if "warmup + iterations < 2 ^ 64"
    using that spin_start(1) sleeping_ok t by (simp add: backoff_inv_def)
qed

lemma spin_ended_samples: "spin_inv n s \<Longrightarrow> spin_ended s \<Longrightarrow> rd_samples (sl_rounds s) = n"
  by (simp add: spin_inv_def spin_ended_def rounds_left_def)

end
