(* ===== verification/Handoff_Condvar.thy ===== *)
theory Handoff_Condvar
  imports Handoff_Spin
begin

text \<open>
  The channel and condvar experiments as machines that work and wait. Their invariant is an
  account of tokens: what one thread has still to put is what the other has still to take, less
  what is in the queue or mailbox between them.
\<close>

section \<open>Channel\<close>

fun ct_to_put :: "chan_timer \<Rightarrow> nat \<Rightarrow> nat" where
  "ct_to_put (CT_recv k) l = l - 1"
| "ct_to_put _ l = l"

fun cr_to_take :: "chan_responder \<Rightarrow> nat \<Rightarrow> nat" where
  "cr_to_take (CR_send v) l = l - 1"
| "cr_to_take _ l = l"

fun ct_ok :: "chan_timer \<Rightarrow> nat \<Rightarrow> bool" where
  "ct_ok CT_send l = True"
| "ct_ok (CT_recv k) l = (0 < l)"
| "ct_ok CT_panicked l = False"

fun cr_ok :: "chan_responder \<Rightarrow> nat \<Rightarrow> bool" where
  "cr_ok CR_next l = True"
| "cr_ok (CR_recv k) l = (0 < l)"
| "cr_ok (CR_send v) l = (0 < l)"
| "cr_ok CR_returned l = (l = 0)"

definition chan_inv :: "nat \<Rightarrow> channels \<Rightarrow> bool" where
  "chan_inv n s \<longleftrightarrow>
     rd_iterations (ch_rounds s) + rd_samples (ch_rounds s) = n \<and>
     cr_to_take (ch_responder s) (ch_left s) = ct_to_put (ch_timer s) (rounds_left (ch_rounds s)) + length (ch_req s) \<and>
     ch_left s + length (ch_resp s) = rounds_left (ch_rounds s) \<and>
     ct_ok (ch_timer s) (rounds_left (ch_rounds s)) \<and> cr_ok (ch_responder s) (ch_left s)"

lemma chan_inv_up: "chan_inv n s \<Longrightarrow> ch_timer s \<noteq> CT_panicked"
  by (auto simp: chan_inv_def)

lemma chan_inv_returned:
  "chan_inv n s \<Longrightarrow> ch_responder s = CR_returned \<Longrightarrow> rounds_left (ch_rounds s) = length (ch_resp s) \<and>
    (ch_timer s = CT_send \<longrightarrow> rounds_left (ch_rounds s) = 0)"
  by (cases "ch_timer s") (auto simp: chan_inv_def)

fun ct_fuel :: "chan_timer \<Rightarrow> nat \<Rightarrow> nat" where
  "ct_fuel (CT_recv k) l = (l - 1) * 258 + k + 1"
| "ct_fuel _ l = l * 258"

fun cr_fuel :: "chan_responder \<Rightarrow> nat \<Rightarrow> nat" where
  "cr_fuel CR_next l = l * 259 + 1"
| "cr_fuel (CR_recv k) l = (l - 1) * 259 + k + 3"
| "cr_fuel (CR_send v) l = (l - 1) * 259 + 2"
| "cr_fuel CR_returned l = 0"

definition chan_fuel :: "channels \<Rightarrow> nat" where
  "chan_fuel s = ct_fuel (ch_timer s) (rounds_left (ch_rounds s)) + cr_fuel (ch_responder s) (ch_left s)"

definition chan_ended :: "channels \<Rightarrow> bool" where
  "chan_ended s \<longleftrightarrow> ch_timer s = CT_send \<and> rounds_left (ch_rounds s) = 0 \<and> ch_responder s = CR_returned"

text \<open>What a thread can do in a state of the account: it never finds a queue disconnected.\<close>

lemma chan_timer_cases:
  assumes "chan_inv n s" and step: "chan_timer_step s = Some s'"
  obtains (send) "ch_timer s = CT_send" "0 < rounds_left (ch_rounds s)"
      "s' = s\<lparr>ch_req := ch_req s @ [1], ch_timer := CT_recv CHANNEL_SPIN_BUDGET\<rparr>"
    | (again) k where "ch_timer s = CT_recv (Suc k)" "ch_resp s = []" "s' = s\<lparr>ch_timer := CT_recv k\<rparr>"
    | (took) k v q where "ch_timer s = CT_recv k" "ch_resp s = v # q" "0 < rounds_left (ch_rounds s)"
      "s' = s\<lparr>ch_resp := q, ch_timer := CT_send, ch_rounds := round_done (ch_rounds s)\<rparr>"
proof (cases "ch_timer s")
  case CT_send
  moreover from this have "0 < rounds_left (ch_rounds s)" using step by (auto simp: chan_timer_step_def Let_def split: if_splits)
  moreover from this have "ch_responder s \<noteq> CR_returned" using chan_inv_returned [OF assms(1)] CT_send by auto
  ultimately show ?thesis using step by (intro send) (simp_all add: chan_timer_step_def Let_def)
next
  case (CT_recv k)
  then have l: "0 < rounds_left (ch_rounds s)" using assms(1) by (simp add: chan_inv_def)
  show ?thesis
  proof (cases "ch_resp s")
    case Nil
    then have up: "ch_responder s \<noteq> CR_returned" using chan_inv_returned [OF assms(1)] l by auto
    obtain j where k: "k = Suc j" using step CT_recv Nil up by (cases k) (simp_all add: chan_timer_step_def Let_def)
    show ?thesis using step CT_recv Nil up k by (intro again [of j]) (simp_all add: chan_timer_step_def Let_def)
  next
    case (Cons v q)
    show ?thesis using step CT_recv Cons l by (intro took [of k v q]) (simp_all add: chan_timer_step_def Let_def)
  qed
next
  case CT_panicked
  then show ?thesis using chan_inv_up [OF assms(1)] by simp
qed

lemma chan_responder_cases:
  assumes "chan_inv n s" and step: "chan_responder_step s = Some s'"
  obtains (stop) "ch_responder s = CR_next" "ch_left s = 0" "s' = s\<lparr>ch_responder := CR_returned\<rparr>"
    | (start) "ch_responder s = CR_next" "0 < ch_left s" "s' = s\<lparr>ch_responder := CR_recv CHANNEL_SPIN_BUDGET\<rparr>"
    | (again) k where "ch_responder s = CR_recv (Suc k)" "ch_req s = []" "s' = s\<lparr>ch_responder := CR_recv k\<rparr>"
    | (took) k v q where "ch_responder s = CR_recv k" "ch_req s = v # q" "0 < ch_left s"
      "s' = s\<lparr>ch_req := q, ch_responder := CR_send v\<rparr>"
    | (reply) v where "ch_responder s = CR_send v" "0 < ch_left s"
      "s' = s\<lparr>ch_resp := ch_resp s @ [v], ch_responder := CR_next, ch_left := ch_left s - 1\<rparr>"
proof (cases "ch_responder s")
  case CR_next
  show ?thesis
  proof (cases "ch_left s = 0")
    case True
    show ?thesis using step CR_next True by (intro stop) (simp_all add: chan_responder_step_def Let_def)
  next
    case False
    show ?thesis using step CR_next False by (intro start) (simp_all add: chan_responder_step_def Let_def)
  qed
next
  case (CR_recv k)
  have up: "ch_timer s \<noteq> CT_panicked" by (rule chan_inv_up [OF assms(1)])
  have left: "0 < ch_left s" using assms(1) unfolding chan_inv_def CR_recv cr_ok.simps by blast
  show ?thesis
  proof (cases "ch_req s")
    case Nil
    obtain j where k: "k = Suc j" using step CR_recv Nil up by (cases k) (simp_all add: chan_responder_step_def Let_def)
    show ?thesis using step CR_recv Nil up k by (intro again [of j]) (simp_all add: chan_responder_step_def Let_def)
  next
    case (Cons v q)
    show ?thesis using step CR_recv Cons left by (intro took [of k v q]) (simp_all add: chan_responder_step_def Let_def)
  qed
next
  case (CR_send v)
  have "ch_timer s \<noteq> CT_panicked" "0 < ch_left s"
    using chan_inv_up [OF assms(1)] assms(1) unfolding chan_inv_def CR_send cr_ok.simps by blast+
  then show ?thesis using step CR_send by (intro reply [of v]) (simp_all add: chan_responder_step_def Let_def)
next
  case CR_returned
  then show ?thesis using step by (simp add: chan_responder_step_def Let_def)
qed

lemma chan_timer_inv:
  assumes "chan_inv n s" and "chan_timer_step s = Some s'"
  shows "chan_inv n s'"
  using assms
  by (cases rule: chan_timer_cases) (use assms(1) in \<open>auto simp: chan_inv_def Let_def round_done_samples\<close>)

lemma chan_responder_inv:
  assumes "chan_inv n s" and "chan_responder_step s = Some s'"
  shows "chan_inv n s'"
  using assms
  by (cases rule: chan_responder_cases) (use assms(1) in \<open>auto simp: chan_inv_def Let_def\<close>)

lemma times_pred: "0 < (l :: nat) \<Longrightarrow> l * c = (l - 1) * c + c"
  by (cases l) simp_all

lemma chan_timer_fuel:
  assumes "chan_inv n s" and "chan_timer_step s = Some s'"
  shows "chan_fuel s' < chan_fuel s"
  using assms
  by (cases rule: chan_timer_cases)
    (use times_pred [of "rounds_left (ch_rounds s)" 258] in \<open>auto simp: chan_fuel_def CHANNEL_SPIN_BUDGET_def\<close>)

lemma chan_responder_fuel:
  assumes "chan_inv n s" and "chan_responder_step s = Some s'"
  shows "chan_fuel s' < chan_fuel s"
  using assms
  by (cases rule: chan_responder_cases)
    (use times_pred [of "ch_left s" 259] in \<open>auto simp: chan_fuel_def CHANNEL_SPIN_BUDGET_def\<close>)

text \<open>When the timer has nothing to do, the responder has.\<close>

lemma chan_timer_blocked:
  assumes "chan_timer_step s = None" and "ch_timer s \<noteq> CT_panicked"
  shows "ch_timer s = CT_send \<and> rounds_left (ch_rounds s) = 0 \<or>
    ch_timer s = CT_recv 0 \<and> ch_resp s = [] \<and> ch_responder s \<noteq> CR_returned"
proof (cases "ch_timer s")
  case CT_send
  then show ?thesis using assms by (simp add: chan_timer_step_def Let_def split: if_splits)
next
  case (CT_recv k)
  then show ?thesis using assms
    by (cases k; cases "ch_resp s"; cases "ch_responder s = CR_returned") (simp_all add: chan_timer_step_def Let_def)
next
  case CT_panicked
  then show ?thesis using assms by simp
qed

lemma chan_responder_blocked:
  assumes "chan_responder_step s = None" and "ch_timer s \<noteq> CT_panicked"
  shows "ch_responder s = CR_returned \<or> ch_responder s = CR_recv 0 \<and> ch_req s = []"
proof (cases "ch_responder s")
  case (CR_recv k)
  then show ?thesis using assms
    by (cases k; cases "ch_req s") (simp_all add: chan_responder_step_def Let_def)
qed (use assms in \<open>simp_all add: chan_responder_step_def Let_def\<close>)

lemma chan_goes_on:
  assumes "chan_inv n s" and "\<not> chan_ended s"
  shows "\<exists>s'. chan_step s s'"
proof -
  have up: "ch_timer s \<noteq> CT_panicked" by (rule chan_inv_up [OF assms(1)])
  have False if blocked: "chan_timer_step s = None" "chan_responder_step s = None"
    using chan_timer_blocked [OF blocked(1) up] chan_responder_blocked [OF blocked(2) up] assms
    by (auto simp: chan_inv_def chan_ended_def Let_def)
  then show ?thesis by (cases "chan_timer_step s"; cases "chan_responder_step s") (auto intro: chan_step.intros)
qed

interpretation chan: handoff_machine chan_step "\<lambda>_ _. False" "chan_inv n" chan_fuel chan_ended 0 for n
  by unfold_locales
    (auto elim!: chan_stepE intro: chan_timer_inv chan_responder_inv chan_timer_fuel chan_responder_fuel chan_goes_on)

lemma chan_start:
  "warmup + iterations < 2 ^ 64 \<Longrightarrow> chan_inv iterations (channels_new warmup iterations)"
  "warmup + iterations < 2 ^ 64 \<Longrightarrow> chan_fuel (channels_new warmup iterations) = 517 * (warmup + iterations) + 1"
  by (simp_all add: chan_inv_def chan_fuel_def channels_new_def rounds_new_def rounds_left_def)

text \<open>
  The condvar experiment as a machine that works and waits: first what a mailbox keeps under the
  steps of its sender and its receiver, then the two mailboxes between the timer and the responder.
\<close>

section \<open>The mailbox\<close>

definition holds_s :: "send_pc option \<Rightarrow> bool" where
  "holds_s pc \<longleftrightarrow> pc \<in> {Some S_fill, Some S_flag, Some S_unlock}"

fun holds_r :: "recv_pc option \<Rightarrow> bool" where
  "holds_r (Some (V_take k)) = True"
| "holds_r (Some (V_drop k)) = True"
| "holds_r (Some V_check) = True"
| "holds_r (Some (V_flag v)) = True"
| "holds_r (Some (V_unlock v)) = True"
| "holds_r _ = False"

text \<open>The receiver has seen the flag and not yet looked into the slot.\<close>

fun saw_full :: "recv_pc option \<Rightarrow> bool" where
  "saw_full (Some (V_lock k)) = True"
| "saw_full (Some (V_take k)) = True"
| "saw_full (Some (V_drop k)) = True"
| "saw_full _ = False"

fun took :: "recv_pc option \<Rightarrow> bool" where
  "took (Some (V_flag v)) = True"
| "took (Some (V_unlock v)) = True"
| "took _ = False"

fun clears_flag :: "recv_pc option \<Rightarrow> bool" where
  "clears_flag (Some (V_flag v)) = True"
| "clears_flag _ = False"

text \<open>
  A mailbox between a sender and a receiver (\<open>None\<close>: not in a call): the mutex is held by one of
  them exactly when it is locked; only the receiver sleeps, and with a token in the slot only
  while the sender is on its way to the notification; the flag says what is in the slot.
\<close>

definition mb_ok :: "send_pc option \<Rightarrow> recv_pc option \<Rightarrow> mailbox \<Rightarrow> bool" where
  "mb_ok sp rp m \<longleftrightarrow>
     mb_locked m = (holds_s sp \<or> holds_r rp) \<and> \<not> (holds_s sp \<and> holds_r rp) \<and>
     (mb_asleep m \<longrightarrow> rp = Some V_wait) \<and>
     (mb_asleep m \<and> mb_slot m \<noteq> None \<longrightarrow> sp \<in> {Some S_flag, Some S_unlock, Some S_notify}) \<and>
     mb_full m = (mb_slot m \<noteq> None \<and> sp \<noteq> Some S_flag \<or> clears_flag rp) \<and>
     (clears_flag rp \<longrightarrow> mb_slot m = None) \<and>
     (saw_full rp \<longrightarrow> mb_slot m \<noteq> None) \<and> (sp = Some S_flag \<longrightarrow> mb_slot m \<noteq> None)"

lemma mailbox_new_ok: "mb_ok None None mailbox_new"
  by (simp add: mb_ok_def mailbox_new_def holds_s_def)

lemma clears_holds: "clears_flag rp \<Longrightarrow> holds_r rp"
  by (cases rp rule: clears_flag.cases) auto

lemma send_start: "mb_ok None rp m \<Longrightarrow> mb_ok (Some S_lock) rp m"
  by (auto simp: mb_ok_def holds_s_def)

lemma recv_start: "mb_ok sp None m \<Longrightarrow> mb_ok sp (Some (V_spin k)) m"
  by (auto simp: mb_ok_def holds_s_def)

text \<open>A step of \<open>send\<close> that fills an empty slot, and what it leaves in the slot.\<close>

lemma send_step_ok:
  assumes "mb_ok (Some pc) rp m" and "send_step pc v m = Some (pc', m')" and "pc = S_fill \<longrightarrow> mb_slot m = None"
  shows "mb_ok pc' rp m' \<and> mb_slot m' = (if pc = S_fill then Some v else mb_slot m)"
proof -
  have "\<not> clears_flag rp" if "holds_s (Some pc)"
    using assms(1) that clears_holds [of rp] unfolding mb_ok_def by blast
  then show ?thesis
    using assms unfolding mb_ok_def
    by (cases pc; cases "mb_slot m"; cases "clears_flag rp") (auto simp: holds_s_def split: if_splits)
qed

lemma recv_step_ok:
  assumes "mb_ok sp (Some pc) m" and "recv_step pc m = Some (Inl pc', m')"
  shows "mb_ok sp (Some pc') m'"
  using assms
proof (cases "(pc, m)" rule: recv_step.cases)
  case (4 k m)
  then show ?thesis using assms by (cases "mb_slot m") (auto simp: mb_ok_def holds_s_def)
next
  case (7 m)
  then show ?thesis using assms by (cases "mb_slot m") (auto simp: mb_ok_def holds_s_def)
qed (use assms in \<open>auto simp: mb_ok_def holds_s_def split: if_splits\<close>)

lemma recv_step_returns:
  assumes "mb_ok sp (Some pc) m" and "recv_step pc m = Some (Inr v, m')"
  shows "mb_ok sp None m' \<and> pc = V_unlock v"
  using assms
  by (cases "(pc, m)" rule: recv_step.cases; cases "mb_slot m") (auto simp: mb_ok_def split: if_splits)

lemma recv_step_slot:
  assumes "recv_step pc m = Some (r, m')"
  shows "if \<not> took (Some pc) \<and> (case r of Inl pc' \<Rightarrow> took (Some pc') | Inr v \<Rightarrow> False)
    then mb_slot m \<noteq> None \<and> mb_slot m' = None
    else mb_slot m' = mb_slot m \<and> (took (Some pc) \<longrightarrow> (case r of Inl pc' \<Rightarrow> took (Some pc') | Inr v \<Rightarrow> True))"
  using assms
  by (cases "(pc, m)" rule: recv_step.cases; cases "mb_slot m") (auto split: if_splits)

text \<open>Who can be blocked in a mailbox: by the mutex that the other holds, or asleep.\<close>

lemma send_blocked: "send_step pc v m = None \<Longrightarrow> pc = S_lock \<and> mb_locked m"
  by (cases pc) (auto split: if_splits)

lemma recv_blocked: "recv_step pc m = None \<Longrightarrow> mb_locked m \<and> \<not> holds_r (Some pc) \<or> pc = V_wait \<and> mb_asleep m"
  by (cases "(pc, m)" rule: recv_step.cases) (auto split: if_splits option.splits)

section \<open>The two threads\<close>

fun sending :: "caller \<Rightarrow> send_pc option" where
  "sending (Sending pc v) = Some pc"
| "sending _ = None"

fun receiving :: "caller \<Rightarrow> recv_pc option" where
  "receiving (Receiving pc) = Some pc"
| "receiving _ = None"

text \<open>Whether a thread has put the token of its round, and whether it has taken it.\<close>

definition sent :: "caller \<Rightarrow> bool" where
  "sent c \<longleftrightarrow> sending c \<in> {Some S_flag, Some S_unlock, Some S_notify}"

definition tm_to_put :: "caller \<Rightarrow> nat \<Rightarrow> nat" where
  "tm_to_put c l = (if sent c \<or> receiving c \<noteq> None then l - 1 else l)"

definition tm_to_take :: "caller \<Rightarrow> nat \<Rightarrow> nat" where
  "tm_to_take c l = (if took (receiving c) then l - 1 else l)"

definition rs_to_put :: "caller \<Rightarrow> nat \<Rightarrow> nat" where
  "rs_to_put c l = (if sent c then l - 1 else l)"

definition rs_to_take :: "caller \<Rightarrow> nat \<Rightarrow> nat" where
  "rs_to_take c l = (if sending c \<noteq> None \<or> took (receiving c) then l - 1 else l)"

definition in_slot :: "mailbox \<Rightarrow> nat" where
  "in_slot m = (if mb_slot m = None then 0 else 1)"

definition cv_inv :: "nat \<Rightarrow> rendezvous \<Rightarrow> bool" where
  "cv_inv n s \<longleftrightarrow>
     rd_iterations (rz_rounds s) + rd_samples (rz_rounds s) = n \<and>
     mb_ok (sending (rz_timer s)) (receiving (rz_responder s)) (rz_req s) \<and>
     mb_ok (sending (rz_responder s)) (receiving (rz_timer s)) (rz_resp s) \<and>
     rs_to_take (rz_responder s) (rz_left s) = tm_to_put (rz_timer s) (rounds_left (rz_rounds s)) + in_slot (rz_req s) \<and>
     rs_to_put (rz_responder s) (rz_left s) + in_slot (rz_resp s) = tm_to_take (rz_timer s) (rounds_left (rz_rounds s)) \<and>
     (rz_timer s \<noteq> At_top \<longrightarrow> 0 < rounds_left (rz_rounds s)) \<and> (rz_responder s \<noteq> At_top \<longrightarrow> 0 < rz_left s)"

lemmas account_defs = tm_to_put_def tm_to_take_def rs_to_put_def rs_to_take_def in_slot_def sent_def

text \<open>A thread that is about to fill a slot finds it empty.\<close>

lemma fills_empty:
  assumes "cv_inv n s"
  shows "rz_timer s = Sending S_fill v \<Longrightarrow> mb_slot (rz_req s) = None"
    and "rz_responder s = Sending S_fill v \<Longrightarrow> mb_slot (rz_resp s) = None"
proof -
  have eqs: "rs_to_take (rz_responder s) (rz_left s) = tm_to_put (rz_timer s) (rounds_left (rz_rounds s)) + in_slot (rz_req s)"
    "rs_to_put (rz_responder s) (rz_left s) + in_slot (rz_resp s) = tm_to_take (rz_timer s) (rounds_left (rz_rounds s))"
    "rz_timer s \<noteq> At_top \<longrightarrow> 0 < rounds_left (rz_rounds s)" "rz_responder s \<noteq> At_top \<longrightarrow> 0 < rz_left s"
    using assms by (simp_all add: cv_inv_def)
  have rs: "rs_to_take c l \<le> rs_to_put c l" for c l by (cases c) (auto simp: account_defs)
  have tm: "tm_to_take c l \<le> tm_to_put c l + 1" for c l by (cases c) (auto simp: account_defs)
  show "mb_slot (rz_req s) = None" if "rz_timer s = Sending S_fill v"
  proof -
    have "tm_to_take (rz_timer s) l = l" "tm_to_put (rz_timer s) l = l" for l using that by (simp_all add: account_defs)
    then have "in_slot (rz_req s) = 0" using eqs(1,2) rs [of "rz_responder s" "rz_left s"] by simp
    then show ?thesis by (simp add: in_slot_def split: if_splits)
  qed
  show "mb_slot (rz_resp s) = None" if "rz_responder s = Sending S_fill v"
  proof -
    have "rs_to_put (rz_responder s) (rz_left s) = rz_left s" "rs_to_take (rz_responder s) (rz_left s) = rz_left s - 1" "0 < rz_left s"
      using that eqs(4) by (simp_all add: account_defs)
    then have "in_slot (rz_resp s) = 0"
      using eqs(1,2) tm [of "rz_timer s" "rounds_left (rz_rounds s)"] by simp
    then show ?thesis by (simp add: in_slot_def split: if_splits)
  qed
qed

section \<open>Every step keeps the account\<close>

fun send_next :: "send_pc \<Rightarrow> send_pc option" where
  "send_next S_lock = Some S_fill"
| "send_next S_fill = Some S_flag"
| "send_next S_flag = Some S_unlock"
| "send_next S_unlock = Some S_notify"
| "send_next S_notify = None"

lemma send_step_next: "send_step pc v m = Some (r, m') \<Longrightarrow> r = send_next pc"
  by (cases pc) (auto split: if_splits)

lemma cv_timer_inv:
  assumes inv: "cv_inv n s" and step: "cv_timer_step s = Some s'"
  shows "cv_inv n s'"
proof (cases "rz_timer s")
  case At_top
  then have "0 < rounds_left (rz_rounds s)" "s' = s\<lparr>rz_timer := Sending S_lock 1\<rparr>"
    using step by (auto simp: cv_timer_step_def split: if_splits)
  then show ?thesis using inv At_top by (auto simp: cv_inv_def account_defs intro: send_start)
next
  case (Sending pc v)
  obtain r m where st: "send_step pc v (rz_req s) = Some (r, m)"
    using step Sending by (cases "send_step pc v (rz_req s)") (auto simp: cv_timer_step_def)
  have ok: "mb_ok r (receiving (rz_responder s)) m" "mb_slot m = (if pc = S_fill then Some v else mb_slot (rz_req s))"
    and empty: "pc = S_fill \<longrightarrow> mb_slot (rz_req s) = None"
    using send_step_ok [OF _ st] fills_empty(1) [OF inv] inv Sending by (auto simp: cv_inv_def)
  have "s' = s\<lparr>rz_req := m, rz_timer := case send_next pc of
      Some pc' \<Rightarrow> Sending pc' v | None \<Rightarrow> Receiving (V_spin CONDVAR_SPIN_BUDGET)\<rparr>"
    using step Sending st send_step_next [OF st] by (auto simp: cv_timer_step_def split: option.splits)
  then show ?thesis using inv Sending ok empty send_step_next [OF st]
    by (cases pc) (auto simp: cv_inv_def account_defs intro: recv_start)
next
  case (Receiving pc)
  obtain r m where st: "recv_step pc (rz_resp s) = Some (r, m)"
    using step Receiving by (cases "recv_step pc (rz_resp s)") (auto simp: cv_timer_step_def)
  have resp: "mb_ok (sending (rz_responder s)) (Some pc) (rz_resp s)" using inv Receiving by (simp add: cv_inv_def)
  note slot = recv_step_slot [OF st]
  show ?thesis
  proof (cases r)
    case (Inl pc')
    then have "s' = s\<lparr>rz_resp := m, rz_timer := Receiving pc'\<rparr>" "mb_ok (sending (rz_responder s)) (Some pc') m"
      using step Receiving st recv_step_ok [OF resp] by (auto simp: cv_timer_step_def)
    then show ?thesis using inv Receiving slot Inl by (auto simp: cv_inv_def account_defs split: if_splits)
  next
    case (Inr v)
    then have "s' = s\<lparr>rz_resp := m, rz_timer := At_top, rz_rounds := round_done (rz_rounds s)\<rparr>"
      "mb_ok (sending (rz_responder s)) None m" "pc = V_unlock v"
      using step Receiving st recv_step_returns [OF resp] by (auto simp: cv_timer_step_def)
    then show ?thesis using inv Receiving slot Inr
      by (auto simp: cv_inv_def account_defs round_done_samples)
  qed
qed

lemma cv_responder_inv:
  assumes inv: "cv_inv n s" and step: "cv_responder_step s = Some s'"
  shows "cv_inv n s'"
proof (cases "rz_responder s")
  case At_top
  then have "0 < rz_left s" "s' = s\<lparr>rz_responder := Receiving (V_spin CONDVAR_SPIN_BUDGET)\<rparr>"
    using step by (auto simp: cv_responder_step_def split: if_splits)
  then show ?thesis using inv At_top by (auto simp: cv_inv_def account_defs intro: recv_start)
next
  case (Sending pc v)
  obtain r m where st: "send_step pc v (rz_resp s) = Some (r, m)"
    using step Sending by (cases "send_step pc v (rz_resp s)") (auto simp: cv_responder_step_def)
  have ok: "mb_ok r (receiving (rz_timer s)) m" "mb_slot m = (if pc = S_fill then Some v else mb_slot (rz_resp s))"
    and empty: "pc = S_fill \<longrightarrow> mb_slot (rz_resp s) = None"
    using send_step_ok [OF _ st] fills_empty(2) [OF inv] inv Sending by (auto simp: cv_inv_def)
  have "s' = (case send_next pc of
      Some pc' \<Rightarrow> s\<lparr>rz_resp := m, rz_responder := Sending pc' v\<rparr>
    | None \<Rightarrow> s\<lparr>rz_resp := m, rz_responder := At_top, rz_left := rz_left s - 1\<rparr>)"
    using step Sending st send_step_next [OF st] by (auto simp: cv_responder_step_def split: option.splits)
  then show ?thesis using inv Sending ok empty send_step_next [OF st]
    by (cases pc) (auto simp: cv_inv_def rs_to_put_def rs_to_take_def in_slot_def sent_def split: if_splits)
next
  case (Receiving pc)
  obtain r m where st: "recv_step pc (rz_req s) = Some (r, m)"
    using step Receiving by (cases "recv_step pc (rz_req s)") (auto simp: cv_responder_step_def)
  have req: "mb_ok (sending (rz_timer s)) (Some pc) (rz_req s)" using inv Receiving by (simp add: cv_inv_def)
  note slot = recv_step_slot [OF st]
  show ?thesis
  proof (cases r)
    case (Inl pc')
    then have "s' = s\<lparr>rz_req := m, rz_responder := Receiving pc'\<rparr>" "mb_ok (sending (rz_timer s)) (Some pc') m"
      using step Receiving st recv_step_ok [OF req] by (auto simp: cv_responder_step_def)
    then show ?thesis using inv Receiving slot Inl by (auto simp: cv_inv_def account_defs split: if_splits)
  next
    case (Inr v)
    then have "s' = s\<lparr>rz_req := m, rz_responder := Sending S_lock v\<rparr>"
      "mb_ok (sending (rz_timer s)) None m" "pc = V_unlock v"
      using step Receiving st recv_step_returns [OF req] by (auto simp: cv_responder_step_def)
    then show ?thesis using inv Receiving slot Inr by (auto simp: cv_inv_def account_defs intro: send_start)
  qed
qed

lemma wake_ok: "mb_ok sp rp m \<Longrightarrow> mb_ok sp rp (m\<lparr>mb_asleep := False\<rparr>)"
  by (simp add: mb_ok_def)

lemma cv_spurious_inv: "cv_inv n s \<Longrightarrow> cv_spurious s s' \<Longrightarrow> cv_inv n s'"
  by (erule cv_spuriousE) (simp_all add: cv_inv_def wake_ok in_slot_def)

section \<open>The fuel, and no deadlock\<close>

fun send_fuel :: "send_pc \<Rightarrow> nat" where
  "send_fuel S_lock = 7"
| "send_fuel S_fill = 6"
| "send_fuel S_flag = 5"
| "send_fuel S_unlock = 4"
| "send_fuel S_notify = 3"

fun recv_fuel :: "recv_pc \<Rightarrow> bool \<Rightarrow> nat" where
  "recv_fuel (V_spin k) z = 4 * k + 6"
| "recv_fuel (V_lock k) z = 4 * k + 9"
| "recv_fuel (V_take k) z = 4 * k + 8"
| "recv_fuel (V_drop k) z = 4 * k + 7"
| "recv_fuel V_slow z = 5"
| "recv_fuel V_check z = 4"
| "recv_fuel V_wait z = (if z then 3 else 5)"
| "recv_fuel (V_flag v) z = 2"
| "recv_fuel (V_unlock v) z = 1"

fun tm_fuel :: "caller \<Rightarrow> nat \<Rightarrow> bool \<Rightarrow> nat" where
  "tm_fuel At_top l z = l * 16015"
| "tm_fuel (Sending pc v) l z = (l - 1) * 16015 + send_fuel pc + 16007"
| "tm_fuel (Receiving pc) l z = (l - 1) * 16015 + recv_fuel pc z"

fun rs_fuel :: "caller \<Rightarrow> nat \<Rightarrow> bool \<Rightarrow> nat" where
  "rs_fuel At_top l z = l * 16015"
| "rs_fuel (Receiving pc) l z = (l - 1) * 16015 + recv_fuel pc z + 8"
| "rs_fuel (Sending pc v) l z = (l - 1) * 16015 + send_fuel pc"

definition cv_fuel :: "rendezvous \<Rightarrow> nat" where
  "cv_fuel s =
     tm_fuel (rz_timer s) (rounds_left (rz_rounds s)) (mb_asleep (rz_resp s)) +
     rs_fuel (rz_responder s) (rz_left s) (mb_asleep (rz_req s))"

definition cv_ended :: "rendezvous \<Rightarrow> bool" where
  "cv_ended s \<longleftrightarrow> rz_timer s = At_top \<and> rounds_left (rz_rounds s) = 0 \<and> rz_responder s = At_top \<and> rz_left s = 0"

lemma recv_wake: "recv_fuel pc False \<le> recv_fuel pc z + 2"
  by (cases pc) auto

lemma tm_wake: "tm_fuel c l False \<le> tm_fuel c l z + 2"
  using recv_wake by (cases c) (simp_all add: le_diff_conv add.commute add_mono)

lemma rs_wake: "rs_fuel c l False \<le> rs_fuel c l z + 2"
  using recv_wake by (cases c) (simp_all add: le_diff_conv add.commute add_mono)

text \<open>A step of \<open>send\<close> burns one, and the notification three when it wakes the receiver.\<close>

lemma send_step_fuel:
  assumes "send_step pc v m = Some (r, m')"
  shows "case r of Some pc' \<Rightarrow> send_fuel pc' < send_fuel pc \<and> mb_asleep m' = mb_asleep m | None \<Rightarrow> send_fuel pc = 3 \<and> \<not> mb_asleep m'"
  using assms by (cases pc) (auto split: if_splits)

lemma recv_step_fuel:
  assumes "recv_step pc m = Some (Inl pc', m')"
  shows "recv_fuel pc' (mb_asleep m') < recv_fuel pc (mb_asleep m)"
  using assms by (cases "(pc, m)" rule: recv_step.cases; cases "mb_slot m") (auto split: if_splits)

lemma cv_timer_fuel:
  assumes inv: "cv_inv n s" and step: "cv_timer_step s = Some s'"
  shows "cv_fuel s' < cv_fuel s"
proof (cases "rz_timer s")
  case At_top
  then show ?thesis using step times_pred [of "rounds_left (rz_rounds s)" 16015]
    by (auto simp: cv_timer_step_def cv_fuel_def split: if_splits)
next
  case (Sending pc v)
  obtain r m where st: "send_step pc v (rz_req s) = Some (r, m)"
    using step Sending by (cases "send_step pc v (rz_req s)") (auto simp: cv_timer_step_def)
  note burn = send_step_fuel [OF st]
  show ?thesis
    using step Sending st burn rs_wake [of "rz_responder s" "rz_left s" "mb_asleep (rz_req s)"]
    by (cases r) (auto simp: cv_timer_step_def cv_fuel_def CONDVAR_SPIN_BUDGET_def)
next
  case (Receiving pc)
  obtain r m where st: "recv_step pc (rz_resp s) = Some (r, m)"
    using step Receiving by (cases "recv_step pc (rz_resp s)") (auto simp: cv_timer_step_def)
  have resp: "mb_ok (sending (rz_responder s)) (Some pc) (rz_resp s)" using inv Receiving by (simp add: cv_inv_def)
  show ?thesis
    using step Receiving st recv_step_fuel recv_step_returns [OF resp]
    by (cases r) (auto simp: cv_timer_step_def cv_fuel_def)
qed

lemma cv_responder_fuel:
  assumes inv: "cv_inv n s" and step: "cv_responder_step s = Some s'"
  shows "cv_fuel s' < cv_fuel s"
proof (cases "rz_responder s")
  case At_top
  then show ?thesis using step times_pred [of "rz_left s" 16015]
    by (auto simp: cv_responder_step_def cv_fuel_def CONDVAR_SPIN_BUDGET_def split: if_splits)
next
  case (Sending pc v)
  obtain r m where st: "send_step pc v (rz_resp s) = Some (r, m)"
    using step Sending by (cases "send_step pc v (rz_resp s)") (auto simp: cv_responder_step_def)
  note burn = send_step_fuel [OF st]
  show ?thesis
    using step Sending st burn tm_wake [of "rz_timer s" "rounds_left (rz_rounds s)" "mb_asleep (rz_resp s)"]
    by (cases r) (auto simp: cv_responder_step_def cv_fuel_def)
next
  case (Receiving pc)
  obtain r m where st: "recv_step pc (rz_req s) = Some (r, m)"
    using step Receiving by (cases "recv_step pc (rz_req s)") (auto simp: cv_responder_step_def)
  have req: "mb_ok (sending (rz_timer s)) (Some pc) (rz_req s)" using inv Receiving by (simp add: cv_inv_def)
  show ?thesis
    using step Receiving st recv_step_fuel recv_step_returns [OF req]
    by (cases r) (auto simp: cv_responder_step_def cv_fuel_def)
qed

lemma cv_spurious_fuel: "cv_spurious s s' \<Longrightarrow> cv_fuel s' \<le> cv_fuel s + 2"
  using tm_wake [of "rz_timer s" "rounds_left (rz_rounds s)" True] rs_wake [of "rz_responder s" "rz_left s" True]
  by (elim cv_spuriousE) (auto simp: cv_fuel_def)

lemma cv_timer_blocked:
  assumes "cv_timer_step s = None"
  shows "rz_timer s = At_top \<and> rounds_left (rz_rounds s) = 0 \<or>
    (\<exists>v. rz_timer s = Sending S_lock v) \<and> mb_locked (rz_req s) \<or>
    (\<exists>pc. rz_timer s = Receiving pc \<and> (mb_locked (rz_resp s) \<and> \<not> holds_r (Some pc) \<or> pc = V_wait \<and> mb_asleep (rz_resp s)))"
  using assms send_blocked recv_blocked
  by (cases "rz_timer s") (auto simp: cv_timer_step_def split: if_splits option.splits sum.splits)

lemma cv_responder_blocked:
  assumes "cv_responder_step s = None"
  shows "rz_responder s = At_top \<and> rz_left s = 0 \<or>
    (\<exists>v. rz_responder s = Sending S_lock v) \<and> mb_locked (rz_resp s) \<or>
    (\<exists>pc. rz_responder s = Receiving pc \<and> (mb_locked (rz_req s) \<and> \<not> holds_r (Some pc) \<or> pc = V_wait \<and> mb_asleep (rz_req s)))"
  using assms send_blocked recv_blocked
  by (cases "rz_responder s") (auto simp: cv_responder_step_def split: if_splits option.splits sum.splits)

text \<open>A mailbox that is locked is held by a thread that can go on.\<close>

lemma req_locked:
  assumes "cv_inv n s" and "mb_locked (rz_req s)" and "cv_responder_step s = None"
  shows "holds_s (sending (rz_timer s))"
proof -
  have "holds_s (sending (rz_timer s)) \<or> holds_r (receiving (rz_responder s))"
    using assms(1,2) by (auto simp: cv_inv_def mb_ok_def)
  then show ?thesis using cv_responder_blocked [OF assms(3)] by auto
qed

lemma resp_locked:
  assumes "cv_inv n s" and "mb_locked (rz_resp s)" and "cv_timer_step s = None"
  shows "holds_s (sending (rz_responder s))"
proof -
  have "holds_s (sending (rz_responder s)) \<or> holds_r (receiving (rz_timer s))"
    using assms(1,2) by (auto simp: cv_inv_def mb_ok_def)
  then show ?thesis using cv_timer_blocked [OF assms(3)] by auto
qed

text \<open>No lost wake-up: while its mailbox has a token a receiver sleeps only if the sender is still to notify it.\<close>

lemma no_lost_wakeup:
  assumes "cv_inv n s"
  shows "mb_asleep (rz_req s) \<Longrightarrow> mb_slot (rz_req s) \<noteq> None \<Longrightarrow> sent (rz_timer s)"
    and "mb_asleep (rz_resp s) \<Longrightarrow> mb_slot (rz_resp s) \<noteq> None \<Longrightarrow> sent (rz_responder s)"
  using assms unfolding cv_inv_def mb_ok_def sent_def by blast+

lemma cv_goes_on:
  assumes inv: "cv_inv n s" and ended: "\<not> cv_ended s"
  shows "\<exists>s'. cv_step s s'"
proof -
  have False if blocked: "cv_timer_step s = None" "cv_responder_step s = None"
  proof -
    note tm = cv_timer_blocked [OF blocked(1)] and rs = cv_responder_blocked [OF blocked(2)]
    note awake = no_lost_wakeup [OF inv] and req = req_locked [OF inv _ blocked(2)] and resp = resp_locked [OF inv _ blocked(1)]
    have account: "rs_to_take (rz_responder s) (rz_left s) = tm_to_put (rz_timer s) (rounds_left (rz_rounds s)) + in_slot (rz_req s)"
      "rs_to_put (rz_responder s) (rz_left s) + in_slot (rz_resp s) = tm_to_take (rz_timer s) (rounds_left (rz_rounds s))"
      "rz_timer s \<noteq> At_top \<longrightarrow> 0 < rounds_left (rz_rounds s)" "rz_responder s \<noteq> At_top \<longrightarrow> 0 < rz_left s"
      using inv by (simp_all add: cv_inv_def)
    consider (top) "rz_timer s = At_top" "rounds_left (rz_rounds s) = 0"
      | (wait) "rz_timer s = Receiving V_wait" "mb_asleep (rz_resp s)"
      using tm req resp rs by (auto simp: holds_s_def)
    then show False
    proof cases
      case top
      have "rz_left s = 0"
        using account(2) top rs by (auto simp: account_defs split: if_splits)
      then show False using top rs account(4) ended by (auto simp: cv_ended_def)
    next
      case wait
      have "rz_responder s = At_top \<and> rz_left s = 0 \<or> rz_responder s = Receiving V_wait \<and> mb_asleep (rz_req s)"
        using rs req resp wait by (auto simp: holds_s_def)
      then show False
        using wait awake account by (auto simp: account_defs split: if_splits)
    qed
  qed
  then show ?thesis by (cases "cv_timer_step s"; cases "cv_responder_step s") (auto intro: cv_step.intros)
qed

interpretation cv: handoff_machine cv_step cv_spurious "cv_inv n" cv_fuel cv_ended 2 for n
  by unfold_locales
    (auto elim!: cv_stepE intro: cv_timer_inv cv_responder_inv cv_spurious_inv cv_timer_fuel cv_responder_fuel
      cv_goes_on intro!: cv_spurious_fuel [simplified])

lemma cv_start:
  "warmup + iterations < 2 ^ 64 \<Longrightarrow> cv_inv iterations (rendezvous_new warmup iterations)"
  "warmup + iterations < 2 ^ 64 \<Longrightarrow> cv_fuel (rendezvous_new warmup iterations) = 32030 * (warmup + iterations)"
  using mailbox_new_ok
  by (simp_all add: cv_inv_def cv_fuel_def rendezvous_new_def rounds_new_def rounds_left_def account_defs mailbox_new_def)

lemma cv_ended_samples: "cv_inv n s \<Longrightarrow> cv_ended s \<Longrightarrow> rd_samples (rz_rounds s) = n"
  by (simp add: cv_inv_def cv_ended_def rounds_left_def)

end
