(* ===== verification/Handoff_Theorems.thy ===== *)
theory Handoff_Theorems
  imports Handoff_Condvar
begin

text \<open>
  The properties of the ping-pong experiments, with witnesses: under every schedule the threads
  make their round trips and end. A schedule may have any number of waiting steps: looks at an
  empty slot, idle calls of the ladder, spurious wake-ups.
\<close>

text \<open>C29 (liveness): the condvar experiment never deadlocks and loses no wake-up. Under every schedule, with
  any spurious wake-ups, the steps are bounded (two more for every spurious wake-up), some thread can go on
  until both have made all their round trips, which gives a sample for every measured one; no mutex is held
  by two threads; and a receiver sleeps on a filled mailbox only while its sender is still to notify it.\<close>

theorem condvar_completes:
  assumes total: "warmup + iterations < 2 ^ 64"
    and run: "machine_run cv_step cv_spurious (rendezvous_new warmup iterations) n k s"
  shows "n \<le> 32030 * (warmup + iterations) + 2 * k \<and>
    (if cv_ended s then rd_samples (rz_rounds s) = iterations else \<exists>s'. cv_step s s') \<and>
    \<not> (holds_s (sending (rz_timer s)) \<and> holds_r (receiving (rz_responder s))) \<and>
    \<not> (holds_s (sending (rz_responder s)) \<and> holds_r (receiving (rz_timer s))) \<and>
    (mb_asleep (rz_req s) \<and> mb_slot (rz_req s) \<noteq> None \<longrightarrow> sent (rz_timer s)) \<and>
    (mb_asleep (rz_resp s) \<and> mb_slot (rz_resp s) \<noteq> None \<longrightarrow> sent (rz_responder s))"
proof -
  note fin = cv.run_completes [OF run cv_start(1) [OF total]]
  have "\<not> (holds_s (sending (rz_timer s)) \<and> holds_r (receiving (rz_responder s)))"
    "\<not> (holds_s (sending (rz_responder s)) \<and> holds_r (receiving (rz_timer s)))"
    using fin(2) unfolding cv_inv_def mb_ok_def by blast+
  then show ?thesis
    using fin(1,3) cv_start(2) [OF total] cv_ended_samples [OF fin(2)] no_lost_wakeup [OF fin(2)] by auto
qed

theorem condvar_completes_witness:
  "machine_run cv_step cv_spurious (rendezvous_new 1 2) 0 0 (rendezvous_new 1 2) \<and> (\<exists>s'. cv_step (rendezvous_new 1 2) s')"
  using condvar_completes [OF _ Run_start, of 1 2] Run_start
  by (simp add: cv_ended_def rendezvous_new_def rounds_new_def rounds_left_def)

text \<open>C30 (refinement): the backoff experiment is the spin experiment with a ladder: each of its steps is one of
  the spin experiment on the shared slots and every step of that one can be matched. So under every
  schedule it takes at most six steps per round trip that are not idling, is never stuck before both threads
  have made all their round trips, and takes a sample for every measured one; and the ladder never parks
  shorter than MIN_PARK_NS or longer than MAX_PARK_NS.\<close>

theorem backoff_completes:
  assumes total: "warmup + iterations < 2 ^ 64"
    and run: "machine_run backoff_work backoff_wait (paced_new warmup iterations) n k s"
  shows "n \<le> 6 * (warmup + iterations) \<and>
    (if spin_ended (slots.truncate s) then rd_samples (sl_rounds s) = iterations else \<exists>s'. backoff_work s s') \<and>
    (\<forall>s'. backoff_step s s' \<longrightarrow> spin_step (slots.truncate s) (slots.truncate s')) \<and>
    (\<forall>t. spin_step (slots.truncate s) t \<longrightarrow> (\<exists>s'. backoff_step s s' \<and> slots.truncate s' = t)) \<and>
    (\<forall>ns \<in> set (bo_parks (sl_ladder s)). MIN_PARK_NS \<le> ns \<and> ns \<le> MAX_PARK_NS)"
proof -
  note fin = backoff.run_completes [OF run backoff_start(2) [OF total]]
  have inv: "spin_inv iterations (slots.truncate s)" "ladder_ok (sl_ladder s)" using fin(2) by (simp_all add: backoff_inv_def)
  have "sl_rounds (slots.truncate s) = sl_rounds s" by (simp add: slots.defs)
  then have "rd_samples (sl_rounds s) = iterations" if "spin_ended (slots.truncate s)"
    using spin_ended_samples [OF inv(1) that] by simp
  moreover have "n \<le> 6 * (warmup + iterations)" using fin(1) by (simp add: backoff_start spin_start(2))
  ultimately show ?thesis
    using fin(3) inv(2) backoff_simulates spin_simulated unfolding ladder_ok_def by simp
qed

theorem backoff_completes_witness:
  "machine_run backoff_work backoff_wait (paced_new 1 2) 0 0 (paced_new 1 2) \<and> (\<exists>s'. backoff_work (paced_new 1 2) s')"
  using backoff_completes [OF _ Run_start, of 1 2] Run_start
  by (simp add: backoff_start spin_ended_def slots_new_def rounds_new_def rounds_left_def)

text \<open>The ladder after a reset and \<open>n\<close> idle calls: ten spins, twenty yields, then parks that double up to the bound.\<close>

theorem ladder_climbs:
  "bo_parks ((idle 0 ^^ n) (idle (Suc w) b)) = bo_parks b @ map (\<lambda>i. of_nat (min (1000 * 2 ^ i) 1000000)) [0..<n - 30]"
  unfolding idle_resets idle_many by (simp add: climbed_def ladder_park_def)

theorem spin_completes:
  assumes total: "warmup + iterations < 2 ^ 64"
    and run: "machine_run spin_work spin_wait (slots_new warmup iterations) n k s"
  shows "n \<le> 6 * (warmup + iterations) \<and>
    (if spin_ended s then rd_samples (sl_rounds s) = iterations else \<exists>s'. spin_work s s')"
  using spin.run_completes [OF run spin_start(1) [OF total]] spin_start(2) [of warmup iterations] spin_ended_samples by auto

text \<open>The channel experiment has no waiting steps: its spins are bounded. No thread panics.\<close>

theorem channel_completes:
  assumes total: "warmup + iterations < 2 ^ 64"
    and run: "machine_run chan_step (\<lambda>_ _. False) (channels_new warmup iterations) n k s"
  shows "n \<le> 517 * (warmup + iterations) + 1 \<and> ch_timer s \<noteq> CT_panicked \<and>
    (if chan_ended s then rd_samples (ch_rounds s) = iterations else \<exists>s'. chan_step s s')"
proof -
  note fin = chan.run_completes [OF run chan_start(1) [OF total]]
  have "rd_samples (ch_rounds s) = iterations" if "chan_ended s"
    using fin(2) that by (simp add: chan_inv_def chan_ended_def rounds_left_def)
  then show ?thesis using fin(1,3) chan_start(2) [OF total] chan_inv_up [OF fin(2)] by auto
qed

end
