(* ===== verification/Rpc.thy ===== *)
theory Rpc
  imports Run_Config
begin

text \<open>
  The remote procedure call over UDP: the payload, its builder and its checksum
  (rust/rpc-roundtrip/common/src/lib.rs), the framed messages (rust/rpc-roundtrip/sbe_udp/src/lib.rs),
  the responder and the client (its main.rs) and the measuring loop \<open>run_n\<close>
  (rust/bench-common/src/measure.rs). The SBE codec is generated when the crate is built: \<open>parse\<close>
  reads the fields \<open>hop\<close> and \<open>seq\<close> of a block and \<open>enc\<close> gives the bytes of a framed message. What a
  socket receives is a list of results for the responder, a function of the world for the client.
\<close>

section \<open>The payload\<close>

record payload =
  pl_hop :: u32
  pl_seq :: u64
  pl_timestamp :: i64
  pl_order_id :: u64
  pl_price :: i64
  pl_qty :: i64
  pl_symbol_id :: u32
  pl_account_id :: u64
  pl_venue_id :: u16
  pl_side :: u8
  pl_flags :: u8
  pl_signature :: "u8 list"
  pl_context :: "u8 list"

definition rpc_mix :: "u64 \<Rightarrow> u64" where
  "rpc_mix x =
     (let z = x + 0x9E3779B97F4A7C15;
          z = xor z (drop_bit 30 z) * 0xBF58476D1CE4E5B9;
          z = xor z (drop_bit 27 z) * 0x94D049BB133111EB in
      xor z (drop_bit 31 z))"

definition mixed_bytes :: "u64 \<Rightarrow> nat \<Rightarrow> u8 list" where
  "mixed_bytes s n = map (\<lambda>i. xor (ucast (drop_bit (i mod 8 * 8) s)) (of_nat i)) [0..<n]"

definition build_payload :: "u64 \<Rightarrow> payload" where
  "build_payload index =
     (let h = rpc_mix index in
      \<lparr>pl_hop = ucast index, pl_seq = index, pl_timestamp = rpc_mix h, pl_order_id = rpc_mix (xor h 1),
       pl_price = rpc_mix (xor h 2), pl_qty = rpc_mix (xor h 3), pl_symbol_id = ucast (drop_bit 16 h),
       pl_account_id = rpc_mix (xor h 4), pl_venue_id = ucast (drop_bit 8 h), pl_side = ucast (and h 1),
       pl_flags = ucast (drop_bit 1 h), pl_signature = mixed_bytes (rpc_mix (xor h 5)) 32,
       pl_context = mixed_bytes (rpc_mix (xor h 6)) 152\<rparr>)"

definition FNV_OFFSET :: u64 where "FNV_OFFSET = 0xcbf29ce484222325"
definition FNV_PRIME :: u64 where "FNV_PRIME = 0x00000100000001B3"

definition fnv_step :: "u64 \<Rightarrow> u64 \<Rightarrow> u64" where
  "fnv_step v a = xor a v * FNV_PRIME"

definition checksum_payload :: "payload \<Rightarrow> u64" where
  "checksum_payload p =
     fold fnv_step
       ([ucast (pl_hop p), pl_seq p, pl_timestamp p, pl_order_id p, pl_price p, pl_qty p, ucast (pl_symbol_id p),
         pl_account_id p, ucast (pl_venue_id p), ucast (pl_side p), ucast (pl_flags p)] @
        of_nat (length (pl_signature p)) # map ucast (pl_signature p) @
        of_nat (length (pl_context p)) # map ucast (pl_context p)) FNV_OFFSET"

section \<open>Framed messages\<close>

definition HOP_OFFSET :: nat where "HOP_OFFSET = 8"
definition ENCODED_LEN :: nat where "ENCODED_LEN = 252"

type_synonym parser = "u8 list \<Rightarrow> (u32 \<times> u64) option"

text \<open>\<open>encode\<close> into a buffer of \<open>n\<close> bytes: the bytes written.\<close>

definition encode_payload :: "(payload \<Rightarrow> u8 list) \<Rightarrow> payload \<Rightarrow> nat \<Rightarrow> panic + u8 list" where
  "encode_payload enc p n = (if length (enc p) \<le> n then Inr (enc p) else Inl Expect_failed)"

definition parse_body :: "parser \<Rightarrow> u8 list \<Rightarrow> panic + u32 \<times> u64" where
  "parse_body parse bytes =
     (if length bytes < 8 then Inl Index_out_of_bounds
      else case parse (drop 8 bytes) of None \<Rightarrow> Inl Expect_failed | Some r \<Rightarrow> Inr r)"

definition read_hop :: "parser \<Rightarrow> u8 list \<Rightarrow> panic + u32" where
  "read_hop parse bytes = and_then (parse_body parse bytes) (\<lambda>(hop, seq). Inr hop)"

definition read_seq :: "parser \<Rightarrow> u8 list \<Rightarrow> panic + u64" where
  "read_seq parse bytes = and_then (parse_body parse bytes) (\<lambda>(hop, seq). Inr seq)"

definition mutate_hop_in_place :: "parser \<Rightarrow> u8 list \<Rightarrow> panic + u8 list" where
  "mutate_hop_in_place parse buf =
     and_then (read_hop parse buf) (\<lambda>hop.
     if length buf < HOP_OFFSET + 4 then Inl Index_out_of_bounds
     else Inr (take HOP_OFFSET buf @ le_bytes 4 (unat (hop + 1)) @ drop (HOP_OFFSET + 4) buf))"

section \<open>The responder\<close>

datatype rpc_fault = Rpc_io string | Verification_failed | Rpc_panic panic

text \<open>A result of \<open>recv_from\<close>: a datagram and the address of its sender, or an error.\<close>

datatype recv_result = Datagram "u8 list" nat | Would_block | Interrupted | Recv_error string

record responder =
  rp_buf :: "u8 list"
  rp_spins :: nat
  rp_blocking :: bool
  rp_sent :: "(u8 list \<times> nat) list"

definition RPC_SPIN_BUDGET :: nat where "RPC_SPIN_BUDGET = 2048"

definition responder_new :: responder where
  "responder_new = \<lparr>rp_buf = replicate 2048 0, rp_spins = 0, rp_blocking = False, rp_sent = []\<rparr>"

fun lift_panic :: "panic + 'a \<Rightarrow> rpc_fault + 'a" where
  "lift_panic (Inl e) = Inl (Rpc_panic e)"
| "lift_panic (Inr x) = Inr x"

text \<open>
  One receive of the loop of \<open>serve\<close>. After \<open>SPIN_BUDGET\<close> empty looks the socket blocks until the next
  result but an interruption; every datagram starts a new look. A datagram that is longer than the buffer
  is cut. Sending and the change of the mode are assumed to succeed.
\<close>

fun serve_recv :: "parser \<Rightarrow> recv_result \<Rightarrow> responder \<Rightarrow> rpc_fault + responder" where
  "serve_recv parse (Datagram d src) r =
     (let n = min (length d) (length (rp_buf r)) in
      and_then (lift_panic (mutate_hop_in_place parse (take n d))) (\<lambda>b.
      Inr (r\<lparr>rp_buf := b @ drop n (rp_buf r), rp_spins := 0, rp_blocking := False, rp_sent := rp_sent r @ [(b, src)]\<rparr>)))"
| "serve_recv parse Would_block r =
     (if rp_blocking r then Inl (Rpc_io ''would block'')
      else Inr (r\<lparr>rp_spins := Suc (rp_spins r), rp_blocking := RPC_SPIN_BUDGET \<le> Suc (rp_spins r)\<rparr>))"
| "serve_recv parse Interrupted r = Inr r"
| "serve_recv parse (Recv_error e) r = Inl (Rpc_io e)"

definition serve :: "parser \<Rightarrow> recv_result list \<Rightarrow> rpc_fault + responder" where
  "serve parse rs = try_fold (serve_recv parse) rs responder_new"

section \<open>The client\<close>

record 'w rpc_socket =
  so_send :: "u8 list \<Rightarrow> 'w \<Rightarrow> rpc_fault + 'w"
  so_recv :: "'w \<Rightarrow> rpc_fault + u8 list \<times> 'w"

definition rpc_round_trip :: "parser \<Rightarrow> 'w rpc_socket \<Rightarrow> payload \<Rightarrow> u8 list \<Rightarrow> 'w \<Rightarrow> rpc_fault + 'w" where
  "rpc_round_trip parse sock req bytes w =
     and_then (so_send sock bytes w) (\<lambda>w.
     and_then (so_recv sock w) (\<lambda>(d, w).
     let reply = take 2048 d in
     and_then (lift_panic (read_hop parse reply)) (\<lambda>hop.
     if hop \<noteq> pl_hop req + 1 then Inl Verification_failed
     else and_then (lift_panic (read_seq parse reply)) (\<lambda>seq.
       if seq \<noteq> pl_seq req then Inl Verification_failed else Inr w))))"

text \<open>\<open>run_n\<close>: the durations are the argument \<open>ns\<close>.\<close>

definition run_n :: "(nat \<Rightarrow> u64) \<Rightarrow> nat \<Rightarrow> nat \<Rightarrow> ('w \<Rightarrow> 'e + 'w) \<Rightarrow> 'w \<Rightarrow> 'e + u64 list \<times> 'w" where
  "run_n ns warmup iterations round_trip w =
     and_then (try_iter round_trip warmup w) (\<lambda>w.
     try_fold (\<lambda>k (samples, w). and_then (round_trip w) (\<lambda>w. Inr (samples[k := ns k], w)))
       [0..<iterations] (replicate iterations 0, w))"

definition measure_client ::
  "parser \<Rightarrow> (payload \<Rightarrow> u8 list) \<Rightarrow> 'w rpc_socket \<Rightarrow> (nat \<Rightarrow> u64) \<Rightarrow> rpc_config \<Rightarrow> 'w \<Rightarrow> rpc_fault + u64 list \<times> 'w" where
  "measure_client parse enc sock ns cfg w =
     (let req = build_payload 0 in
      and_then (lift_panic (encode_payload enc req ENCODED_LEN)) (\<lambda>bytes.
      run_n ns (rpc_warmup cfg) (rpc_iterations cfg) (rpc_round_trip parse sock req bytes) w))"

text \<open>
  What the remote procedure call guarantees with a lawful codec: the responder answers every datagram,
  the client accepts exactly the right reply, and both together complete their round trips.
\<close>

section \<open>The codec\<close>

text \<open>
  What the schema (rust/rpc-roundtrip/sbe_udp/schema) says of the generated code: a block has 244 bytes,
  with \<open>hop\<close> in the first four and \<open>seq\<close> in the next eight, little-endian, and a message is a header of
  eight bytes and the block.
\<close>

definition rpc_codec :: "parser \<Rightarrow> (payload \<Rightarrow> u8 list) \<Rightarrow> bool" where
  "rpc_codec parse enc \<longleftrightarrow>
     (\<forall>b. parse b = (if length b < 244 then None
        else Some (of_nat (le_value (take 4 b)), of_nat (le_value (take 8 (drop 4 b)))))) \<and>
     (\<forall>p. length (enc p) = ENCODED_LEN \<and> parse (drop 8 (enc p)) = Some (pl_hop p, pl_seq p))"

definition demo_parse :: parser where
  "demo_parse b =
     (if length b < 244 then None else Some (of_nat (le_value (take 4 b)), of_nat (le_value (take 8 (drop 4 b)))))"

definition demo_enc :: "payload \<Rightarrow> u8 list" where
  "demo_enc p = replicate 8 0 @ le_bytes 4 (unat (pl_hop p)) @ le_bytes 8 (unat (pl_seq p)) @ replicate 232 0"

lemma of_nat_le_u32: "of_nat (le_value (le_bytes 4 (unat (w :: u32)))) = w"
  using unsigned_less [of w, where 'a = nat] by (simp add: le_value_le_bytes)

lemma of_nat_le_u64: "of_nat (le_value (le_bytes 8 (unat (w :: u64)))) = w"
  using unsigned_less [of w, where 'a = nat] by (simp add: le_value_le_bytes)

lemma demo_codec: "rpc_codec demo_parse demo_enc"
  by (simp add: rpc_codec_def demo_parse_def demo_enc_def ENCODED_LEN_def of_nat_le_u32 of_nat_le_u64)

section \<open>The responder\<close>

text \<open>The reply to a framed message: its hop is one more and the rest is the same.\<close>

definition reply_to :: "u8 list \<Rightarrow> u8 list" where
  "reply_to d = take 8 d @ le_bytes 4 (unat (of_nat (le_value (take 4 (drop 8 d))) + 1 :: u32)) @ drop 12 d"

fun framed :: "u8 list \<Rightarrow> bool" where
  "framed d \<longleftrightarrow> ENCODED_LEN \<le> length d \<and> length d \<le> 2048"

text \<open>
  What a working socket delivers: framed datagrams, interruptions, and empty looks only while the socket does not
  block, which it does from the 2048th on; \<open>k\<close> is the number of looks since the last datagram.
\<close>

fun polite :: "nat \<Rightarrow> recv_result list \<Rightarrow> bool" where
  "polite k [] = True"
| "polite k (Datagram d src # rs) = (framed d \<and> polite 0 rs)"
| "polite k (Would_block # rs) = (k < RPC_SPIN_BUDGET \<and> polite (Suc k) rs)"
| "polite k (Interrupted # rs) = polite k rs"
| "polite k (Recv_error e # rs) = False"

fun datagrams :: "recv_result list \<Rightarrow> (u8 list \<times> nat) list" where
  "datagrams [] = []"
| "datagrams (Datagram d src # rs) = (d, src) # datagrams rs"
| "datagrams (_ # rs) = datagrams rs"

lemma parse_body_framed:
  assumes "rpc_codec parse enc" and "ENCODED_LEN \<le> length d"
  shows "parse_body parse d = Inr (of_nat (le_value (take 4 (drop 8 d))), of_nat (le_value (take 8 (drop 12 d))))"
proof -
  have "\<not> length (drop 8 d) < 244" using assms(2) by (simp add: ENCODED_LEN_def)
  then have "parse (drop 8 d) = Some (of_nat (le_value (take 4 (drop 8 d))), of_nat (le_value (take 8 (drop 4 (drop 8 d)))))"
    using assms(1) unfolding rpc_codec_def by presburger
  then show ?thesis using assms(2) by (simp add: parse_body_def ENCODED_LEN_def)
qed

lemma mutate_framed:
  assumes "rpc_codec parse enc" and "ENCODED_LEN \<le> length d"
  shows "mutate_hop_in_place parse d = Inr (reply_to d)"
  using assms(2) by (simp add: mutate_hop_in_place_def read_hop_def parse_body_framed [OF assms] reply_to_def HOP_OFFSET_def ENCODED_LEN_def)

lemma mutate_short:
  assumes "rpc_codec parse enc" and "length d < ENCODED_LEN"
  shows "\<exists>e. mutate_hop_in_place parse d = Inl e"
proof -
  have "parse (drop 8 d) = None" if "8 \<le> length d"
    using assms that unfolding rpc_codec_def ENCODED_LEN_def by simp
  then show ?thesis by (auto simp: mutate_hop_in_place_def read_hop_def parse_body_def)
qed

lemma length_reply_to: "ENCODED_LEN \<le> length d \<Longrightarrow> length (reply_to d) = length d"
  by (simp add: reply_to_def ENCODED_LEN_def)

lemma parse_reply:
  assumes "rpc_codec parse enc" and "ENCODED_LEN \<le> length d" and "parse_body parse d = Inr (hop, seq)"
  shows "parse_body parse (reply_to d) = Inr (hop + 1, seq)"
proof -
  have d: "hop = of_nat (le_value (take 4 (drop 8 d)))" "seq = of_nat (le_value (take 8 (drop 12 d)))"
    using assms(3) parse_body_framed [OF assms(1,2)] by simp_all
  have "take 4 (drop 8 (reply_to d)) = le_bytes 4 (unat (hop + 1))" "take 8 (drop 12 (reply_to d)) = take 8 (drop 12 d)"
    using assms(2) d(1) by (simp_all add: reply_to_def ENCODED_LEN_def)
  then show ?thesis
    using parse_body_framed [OF assms(1), of "reply_to d"] assms(2) length_reply_to [OF assms(2)] d(2)
    by (simp add: of_nat_le_u32)
qed

text \<open>The state of the responder after \<open>k\<close> empty looks.\<close>

definition looked :: "nat \<Rightarrow> responder \<Rightarrow> bool" where
  "looked k r \<longleftrightarrow> length (rp_buf r) = 2048 \<and> rp_spins r = k \<and> rp_blocking r = (RPC_SPIN_BUDGET \<le> k)"

lemma serve_polite:
  assumes codec: "rpc_codec parse enc"
  shows "polite k rs \<Longrightarrow> looked k r \<Longrightarrow>
    \<exists>r' k'. try_fold (serve_recv parse) rs r = Inr r' \<and> looked k' r' \<and>
      rp_sent r' = rp_sent r @ map (\<lambda>(d, src). (reply_to d, src)) (datagrams rs)"
proof (induction k rs arbitrary: r rule: polite.induct)
  case (2 k d src rs)
  let ?r = "r\<lparr>rp_buf := reply_to d @ drop (length d) (rp_buf r), rp_spins := 0, rp_blocking := False,
    rp_sent := rp_sent r @ [(reply_to d, src)]\<rparr>"
  have d: "ENCODED_LEN \<le> length d" "length d \<le> length (rp_buf r)" "length (rp_buf r) = 2048"
    using 2(2,3) by (simp_all add: looked_def)
  have "serve_recv parse (Datagram d src) r = Inr ?r"
    using d mutate_framed [OF codec d(1)] by (simp add: Let_def)
  moreover have "looked 0 ?r" using d length_reply_to [OF d(1)] by (simp add: looked_def RPC_SPIN_BUDGET_def)
  ultimately show ?case using 2(1) [of ?r] 2(2) by auto
next
  case (3 k rs)
  let ?r = "r\<lparr>rp_spins := Suc k, rp_blocking := RPC_SPIN_BUDGET \<le> Suc k\<rparr>"
  have "serve_recv parse Would_block r = Inr ?r" "looked (Suc k) ?r" using 3(2,3) by (simp_all add: looked_def)
  then show ?case using 3(1) [of ?r] 3(2) by simp
qed auto

lemma new_looked: "looked 0 responder_new"
  by (simp add: looked_def responder_new_def RPC_SPIN_BUDGET_def)

text \<open>C31 (error): with a working socket the responder answers every framed datagram, in order and to its sender,
  with the same message one hop further: the reply parses to the next hop and the same sequence number. The first
  datagram that is shorter than a message kills the responder with a panic.\<close>

theorem rpc_responder_right:
  assumes codec: "rpc_codec parse enc" and rs: "polite 0 rs"
  shows "(\<exists>r. serve parse rs = Inr r \<and> map snd (rp_sent r) = map snd (datagrams rs) \<and>
      list_all2 (\<lambda>b d. length b = length d \<and>
        (\<forall>hop seq. parse_body parse d = Inr (hop, seq) \<longrightarrow> parse_body parse b = Inr (hop + 1, seq)))
        (map fst (rp_sent r)) (map fst (datagrams rs))) \<and>
    (\<forall>d src. length d < ENCODED_LEN \<longrightarrow> (\<exists>e. serve parse (rs @ [Datagram d src]) = Inl (Rpc_panic e)))"
proof -
  obtain r k where r: "serve parse rs = Inr r" "looked k r"
    and sent: "rp_sent r = map (\<lambda>(d, src). (reply_to d, src)) (datagrams rs)"
    using serve_polite [OF codec rs new_looked] by (auto simp: serve_def responder_new_def)
  have "framed d" if "polite k rs" "(d, src) \<in> set (datagrams rs)" for d src k
    using that by (induction k rs rule: polite.induct) auto
  then have framed: "ENCODED_LEN \<le> length d" if "d \<in> set (map fst (datagrams rs))" for d
    using that rs by fastforce
  let ?answers = "\<lambda>b d. length b = length d \<and>
    (\<forall>hop seq. parse_body parse d = Inr (hop, seq) \<longrightarrow> parse_body parse b = Inr (hop + 1, seq))"
  have all: "list_all2 ?answers (map reply_to ds) ds" if "\<And>d. d \<in> set ds \<Longrightarrow> ENCODED_LEN \<le> length d" for ds
    using that by (induction ds) (auto simp: length_reply_to parse_reply [OF codec])
  have "list_all2 ?answers (map reply_to (map fst (datagrams rs))) (map fst (datagrams rs))" by (rule all) (rule framed)
  then have "list_all2 ?answers (map fst (rp_sent r)) (map fst (datagrams rs))" by (simp add: sent case_prod_unfold comp_def)
  moreover have "map snd (rp_sent r) = map snd (datagrams rs)" by (simp add: sent case_prod_unfold comp_def)
  moreover have "\<exists>e. serve parse (rs @ [Datagram d src]) = Inl (Rpc_panic e)" if short: "length d < ENCODED_LEN" for d src
  proof -
    have "min (length d) (length (rp_buf r)) = length d" using short r(2) by (simp add: looked_def ENCODED_LEN_def)
    then show ?thesis using mutate_short [OF codec short] r(1) by (auto simp: serve_def try_fold_append Let_def)
  qed
  ultimately show ?thesis using r(1) by blast
qed

theorem rpc_responder_right_witness:
  "\<exists>r e. serve demo_parse [Would_block, Datagram (replicate 252 0) 7] = Inr r \<and> map snd (rp_sent r) = [7] \<and>
    serve demo_parse [Would_block, Datagram (replicate 252 0) 7, Datagram [] 8] = Inl (Rpc_panic e)"
  using rpc_responder_right [OF demo_codec, of "[Would_block, Datagram (replicate 252 0) 7]"]
  by (auto simp: RPC_SPIN_BUDGET_def ENCODED_LEN_def)

section \<open>The client\<close>

text \<open>A round trip succeeds exactly when the reply has the next hop and the same sequence number.\<close>

lemma round_trip_checks:
  "rpc_round_trip parse sock req bytes w = Inr w' \<longleftrightarrow>
    (\<exists>w1 d. so_send sock bytes w = Inr w1 \<and> so_recv sock w1 = Inr (d, w') \<and>
      parse_body parse (take 2048 d) = Inr (pl_hop req + 1, pl_seq req))"
proof -
  have lift: "lift_panic m = Inr x \<longleftrightarrow> m = Inr x" for m and x :: "'b" by (cases m) auto
  show ?thesis
    by (auto simp: rpc_round_trip_def read_hop_def read_seq_def Let_def lift split: if_splits)
qed

text \<open>
  \<open>run_loopback\<close>: the responder is the client's world. Sending delivers the datagram to it after the
  empty looks \<open>idle\<close>, and the client receives the last reply.
\<close>

definition loopback :: "parser \<Rightarrow> recv_result list \<Rightarrow> responder rpc_socket" where
  "loopback parse idle =
     \<lparr>so_send = (\<lambda>bytes. try_fold (serve_recv parse) (idle @ [Datagram bytes 0])),
      so_recv = (\<lambda>r. Inr (fst (last (rp_sent r)), r))\<rparr>"

lemma polite_append: "polite k xs \<Longrightarrow> (\<And>k. polite k ys) \<Longrightarrow> polite k (xs @ ys)"
  by (induction k xs rule: polite.induct) auto

lemma loopback_trip:
  assumes codec: "rpc_codec parse enc" and idle: "polite 0 idle" "datagrams idle = []"
    and r: "looked 0 r" "set (rp_sent r) \<subseteq> {(reply_to (enc req), 0)}"
  shows "\<exists>r'. rpc_round_trip parse (loopback parse idle) req (enc req) r = Inr r' \<and> looked 0 r' \<and>
    set (rp_sent r') \<subseteq> {(reply_to (enc req), 0)} \<and> length (rp_sent r') = Suc (length (rp_sent r))"
proof -
  have len: "length (enc req) = ENCODED_LEN" and parsed: "parse (drop 8 (enc req)) = Some (pl_hop req, pl_seq req)"
    using codec unfolding rpc_codec_def by blast+
  then have body: "parse_body parse (enc req) = Inr (pl_hop req, pl_seq req)"
    by (simp add: parse_body_def ENCODED_LEN_def)
  have framed: "framed (enc req)" using len by (simp add: ENCODED_LEN_def)
  obtain r1 k where r1: "try_fold (serve_recv parse) idle r = Inr r1" "looked k r1" "rp_sent r1 = rp_sent r"
    using serve_polite [OF codec idle(1) r(1)] idle(2) by auto
  let ?r = "r1\<lparr>rp_buf := reply_to (enc req) @ drop (length (enc req)) (rp_buf r1), rp_spins := 0, rp_blocking := False,
    rp_sent := rp_sent r1 @ [(reply_to (enc req), 0)]\<rparr>"
  have "serve_recv parse (Datagram (enc req) 0) r1 = Inr ?r"
    using r1(2) framed mutate_framed [OF codec, of "enc req"] by (simp add: looked_def Let_def)
  then have "so_send (loopback parse idle) (enc req) r = Inr ?r" using r1(1) by (simp add: loopback_def try_fold_append)
  moreover have "so_recv (loopback parse idle) ?r = Inr (reply_to (enc req), ?r)" by (simp add: loopback_def)
  moreover have "parse_body parse (take 2048 (reply_to (enc req))) = Inr (pl_hop req + 1, pl_seq req)"
    using parse_reply [OF codec _ body] length_reply_to [of "enc req"] len by (simp add: ENCODED_LEN_def)
  ultimately have "rpc_round_trip parse (loopback parse idle) req (enc req) r = Inr ?r"
    unfolding round_trip_checks by blast
  moreover have "looked 0 ?r"
    using r1(2) len length_reply_to [of "enc req"] by (simp add: looked_def RPC_SPIN_BUDGET_def ENCODED_LEN_def)
  ultimately show ?thesis using r(2) r1(3) by auto
qed

text \<open>\<open>run_n\<close> over an operation that keeps an invariant: every sample is taken.\<close>

lemma run_n_inv:
  assumes op: "\<And>k w. k < warmup + iterations \<Longrightarrow> I k w \<Longrightarrow> \<exists>w'. op w = Inr w' \<and> I (Suc k) w'" and start: "I 0 w"
  shows "\<exists>w'. run_n ns warmup iterations op w = Inr (map ns [0..<iterations], w') \<and> I (warmup + iterations) w'"
proof -
  obtain w1 where w1: "try_iter op warmup w = Inr w1" "I warmup w1"
    using try_iter_inv [of warmup I op w] op start by auto
  let ?J = "\<lambda>k (samples, w). samples = map ns [0..<k] @ replicate (iterations - k) 0 \<and> I (warmup + k) w"
  have "\<exists>s'. try_fold (\<lambda>k (samples, w). and_then (op w) (\<lambda>w. Inr (samples[k := ns k], w))) [0..<iterations]
      (replicate iterations 0, w1) = Inr s' \<and> ?J iterations s'"
  proof (rule try_fold_upt [where I = ?J])
    fix k s assume k: "k < iterations" and J: "?J k s"
    obtain samples w where s: "s = (samples, w)" by (cases s)
    obtain w' where "op w = Inr w'" "I (Suc (warmup + k)) w'" using op [of "warmup + k" w] k J s by auto
    moreover have "iterations - k = Suc (iterations - Suc k)" using k by simp
    ultimately show "\<exists>s'. (case s of (samples, w) \<Rightarrow> and_then (op w) (\<lambda>w. Inr (samples[k := ns k], w))) = Inr s' \<and> ?J (Suc k) s'"
      using J s by (simp add: list_update_append)
  qed (use w1 in simp)
  then show ?thesis using w1(1) by (auto simp: run_n_def)
qed

text \<open>C32 (functional): the loopback experiment completes: whatever the responder polls in between, the client
  accepts every reply, takes a sample of every measured round trip, and the responder has answered every
  round trip, warm-up included. And on any socket a round trip succeeds exactly when the reply carries
  the next hop and the same sequence number.\<close>

theorem rpc_loopback_completes:
  assumes codec: "rpc_codec parse enc" and cfg: "rpc_from_env env = Inr cfg"
    and idle: "polite 0 idle" "datagrams idle = []"
  shows "(\<exists>r. measure_client parse enc (loopback parse idle) ns cfg responder_new =
      Inr (map ns [0..<rpc_iterations cfg], r) \<and> length (rp_sent r) = rpc_warmup cfg + rpc_iterations cfg) \<and>
    0 < rpc_iterations cfg \<and>
    (\<forall>sock req bytes w w'. rpc_round_trip parse sock req bytes (w :: 'w) = Inr w' \<longleftrightarrow>
      (\<exists>w1 d. so_send sock bytes w = Inr w1 \<and> so_recv sock w1 = Inr (d, w') \<and>
        parse_body parse (take 2048 d) = Inr (pl_hop req + 1, pl_seq req)))"
proof -
  let ?req = "build_payload 0"
  let ?I = "\<lambda>k r. looked 0 r \<and> set (rp_sent r) \<subseteq> {(reply_to (enc ?req), 0)} \<and> length (rp_sent r) = k"
  have enc: "encode_payload enc ?req ENCODED_LEN = Inr (enc ?req)"
    using codec by (simp add: encode_payload_def rpc_codec_def)
  have start: "?I 0 responder_new" using new_looked by (simp add: responder_new_def)
  have "\<exists>w'. rpc_round_trip parse (loopback parse idle) ?req (enc ?req) w = Inr w' \<and> ?I (Suc k) w'"
    if "?I k w" for k w
    using loopback_trip [OF codec idle, of w ?req] that by auto
  then have "\<exists>r. run_n ns (rpc_warmup cfg) (rpc_iterations cfg)
      (rpc_round_trip parse (loopback parse idle) ?req (enc ?req)) responder_new =
      Inr (map ns [0..<rpc_iterations cfg], r) \<and> ?I (rpc_warmup cfg + rpc_iterations cfg) r"
    by (intro run_n_inv start) blast
  then have "\<exists>r. measure_client parse enc (loopback parse idle) ns cfg responder_new =
      Inr (map ns [0..<rpc_iterations cfg], r) \<and> length (rp_sent r) = rpc_warmup cfg + rpc_iterations cfg"
    using enc by (auto simp: measure_client_def Let_def)
  then show ?thesis using rpc_from_env_ok [OF cfg] by (simp add: round_trip_checks)
qed

theorem rpc_loopback_completes_witness:
  "\<exists>cfg r. rpc_from_env [''RPC_WARMUP'' \<mapsto> ''1'', ''RPC_ITERATIONS'' \<mapsto> '' 2 ''] = Inr cfg \<and>
    measure_client demo_parse demo_enc (loopback demo_parse [Would_block, Interrupted]) (\<lambda>_. 5) cfg responder_new = Inr ([5, 5], r) \<and>
    length (rp_sent r) = 3"
proof -
  let ?env = "[''RPC_WARMUP'' \<mapsto> ''1'', ''RPC_ITERATIONS'' \<mapsto> '' 2 '']"
  obtain cfg where cfg: "rpc_from_env ?env = Inr cfg" "rpc_warmup cfg = 1" "rpc_iterations cfg = 2"
    by (simp add: rpc_from_env_def rpc_parse_mode_def rpc_parse_port_def rpc_parse_positive_def trimmed_text_def
        parse_u64_str_def trim_def is_space_def digit_value_def Let_def)
  have "\<exists>r. measure_client demo_parse demo_enc (loopback demo_parse [Would_block, Interrupted]) (\<lambda>_. 5) cfg responder_new =
      Inr (map (\<lambda>_. 5) [0..<rpc_iterations cfg], r) \<and> length (rp_sent r) = rpc_warmup cfg + rpc_iterations cfg"
    by (rule rpc_loopback_completes [OF demo_codec cfg(1), THEN conjunct1]) (simp_all add: RPC_SPIN_BUDGET_def)
  then show ?thesis using cfg by (auto simp: upt_rec)
qed

section \<open>The payload and its checksum\<close>

text \<open>The checksums that the test of the crate and the other languages' implementations are held to.\<close>

lemma golden_0: "checksum_payload (build_payload 0) = 0x51694f16fd7829b6"
  by code_simp

lemma golden_42: "checksum_payload (build_payload 42) = 0x2a8920402906b171"
  by code_simp

end
