(* ===== verification/Fs_Write.thy ===== *)
theory Fs_Write
  imports Run_Config
begin

text \<open>
  The durable append of the filesystem experiments (rust/bench-common/src/fswrite.rs). A file is its
  bytes, the write position and what of it is on the disk; \<open>fails n\<close> is the error of the n-th
  operation on the file system, if it has one, which ends the run. The durations are the argument
  \<open>ns\<close>; the throughput and the printing are not modelled.
\<close>

datatype sync_kind = Full | Data

datatype fs_fault = Fs_io string | Fs_hangs

text \<open>The last two fields are history: the write position at every sync and the kinds of the syncs.\<close>

record disk_file =
  fl_bytes :: "u8 list"
  fl_pos :: nat
  fl_durable :: "u8 list"
  fl_ops :: nat
  fl_synced :: "nat list"

type_synonym fs_fails = "nat \<Rightarrow> string option"

definition fs_op :: "fs_fails \<Rightarrow> (disk_file \<Rightarrow> disk_file) \<Rightarrow> disk_file \<Rightarrow> fs_fault + disk_file" where
  "fs_op fails f d =
     (case fails (fl_ops d) of
        Some e \<Rightarrow> Inl (Fs_io e)
      | None \<Rightarrow> Inr (f (d\<lparr>fl_ops := Suc (fl_ops d)\<rparr>)))"

definition write_all :: "fs_fails \<Rightarrow> u8 list \<Rightarrow> disk_file \<Rightarrow> fs_fault + disk_file" where
  "write_all fails bs =
     fs_op fails (\<lambda>d. d\<lparr>fl_bytes := take (fl_pos d) (fl_bytes d) @ bs @ drop (fl_pos d + length bs) (fl_bytes d),
       fl_pos := fl_pos d + length bs\<rparr>)"

text \<open>\<open>sync_all\<close> and \<open>sync_data\<close> differ in the metadata only: both write the data and the size.\<close>

definition sync :: "fs_fails \<Rightarrow> sync_kind \<Rightarrow> disk_file \<Rightarrow> fs_fault + disk_file" where
  "sync fails kind = fs_op fails (\<lambda>d. d\<lparr>fl_durable := fl_bytes d, fl_synced := fl_synced d @ [fl_pos d]\<rparr>)"

definition open_truncated :: "fs_fails \<Rightarrow> fs_fault + disk_file" where
  "open_truncated fails = fs_op fails id \<lparr>fl_bytes = [], fl_pos = 0, fl_durable = [], fl_ops = 0, fl_synced = []\<rparr>"

text \<open>The loop of \<open>run_entries\<close>. With a batch of 0 entries it would never end.\<close>

function run_entries ::
  "fs_fails \<Rightarrow> (nat \<Rightarrow> u64) \<Rightarrow> u8 list \<Rightarrow> nat \<Rightarrow> nat \<Rightarrow> sync_kind \<Rightarrow> u64 list option \<Rightarrow> disk_file \<Rightarrow>
   fs_fault + u64 list option \<times> disk_file" where
  "run_entries fails ns entry remaining batch_size kind samples d =
     (if remaining = 0 then Inr (samples, d)
      else if batch_size = 0 then Inl Fs_hangs
      else
        (let count = min remaining batch_size in
         and_then (try_iter (write_all fails entry) count d) (\<lambda>d.
         and_then (sync fails kind d) (\<lambda>d.
         run_entries fails ns entry (remaining - count) batch_size kind
           (map_option (\<lambda>s. s @ [ns (length s)]) samples) d))))"
  by pat_completeness auto
termination by (relation "measure (\<lambda>(fails, ns, entry, remaining, _). remaining)") auto

declare run_entries.simps [simp del]

text \<open>The pre-allocation writes zeros, a megabyte at a time.\<close>

definition ZEROS :: nat where "ZEROS = 1024 * 1024"

function write_zeros :: "fs_fails \<Rightarrow> nat \<Rightarrow> disk_file \<Rightarrow> fs_fault + disk_file" where
  "write_zeros fails remaining d =
     (if remaining = 0 then Inr d
      else
        (let n = min remaining ZEROS in
         and_then (write_all fails (replicate n 0) d) (write_zeros fails (remaining - n))))"
  by pat_completeness auto
termination by (relation "measure (\<lambda>(fails, remaining, d). remaining)") (auto simp: ZEROS_def)

declare write_zeros.simps [simp del]

definition preallocate :: "fs_fails \<Rightarrow> fs_config \<Rightarrow> disk_file \<Rightarrow> fs_fault + disk_file" where
  "preallocate fails cfg d =
     (let total = usize_add (fsw_warmup cfg) (fsw_iterations cfg) * fsw_entry_bytes cfg mod 2 ^ 64 in
      and_then (write_zeros fails total d) (\<lambda>d.
      and_then (sync fails Full d) (fs_op fails (\<lambda>d. d\<lparr>fl_pos := 0\<rparr>))))"

definition run_durable_append ::
  "fs_fails \<Rightarrow> (nat \<Rightarrow> u64) \<Rightarrow> fs_config \<Rightarrow> sync_kind \<Rightarrow> nat \<Rightarrow> bool \<Rightarrow> fs_fault + u64 list \<times> disk_file" where
  "run_durable_append fails ns cfg kind batch_size prealloc =
     and_then (open_truncated fails) (\<lambda>d.
     and_then (sync fails Full d) (\<lambda>d.
     and_then (fs_op fails id d) (\<lambda>d.
     let entry = replicate (fsw_entry_bytes cfg) 0xAB in
     and_then (if prealloc then preallocate fails cfg d else Inr d) (\<lambda>d.
     and_then (run_entries fails ns entry (fsw_warmup cfg) batch_size kind None d) (\<lambda>(_, d).
     and_then (run_entries fails ns entry (fsw_iterations cfg) batch_size kind (Some []) d) (\<lambda>(samples, d).
     Inr (case samples of Some s \<Rightarrow> s | None \<Rightarrow> [], d)))))))"

text \<open>The experiments: fsync and fdatasync write single entries, prealloc too into a file of the final size, batch groups them.\<close>

definition run_and_emit ::
  "fs_fails \<Rightarrow> (nat \<Rightarrow> u64) \<Rightarrow> environment \<Rightarrow> sync_kind \<Rightarrow> bool \<Rightarrow> bool \<Rightarrow> string + fs_fault + u64 list \<times> disk_file" where
  "run_and_emit fails ns env kind prealloc batched =
     and_then (fs_from_env env) (\<lambda>cfg.
     Inr (run_durable_append fails ns cfg kind (if batched then fsw_batch cfg else 1) prealloc))"

section \<open>What a run leaves on the disk\<close>

text \<open>The file after \<open>n\<close> of the \<open>whole\<close> bytes, over the zeros that were there before.\<close>

definition appended :: "nat \<Rightarrow> nat \<Rightarrow> disk_file \<Rightarrow> bool" where
  "appended n whole d \<longleftrightarrow>
     fl_pos d = n \<and> (\<exists>k. fl_bytes d = replicate n 0xAB @ replicate k 0 \<and> n + k \<le> max n whole)"

definition quiet :: fs_fails where
  "quiet = (\<lambda>_. None)"

lemma fs_op_quiet [simp]: "fs_op quiet f d = Inr (f (d\<lparr>fl_ops := Suc (fl_ops d)\<rparr>))"
  by (simp add: fs_op_def quiet_def)

lemma write_entry:
  assumes "appended n whole d"
  shows "\<exists>d'. write_all quiet (replicate b 0xAB) d = Inr d' \<and> appended (n + b) whole d' \<and> fl_synced d' = fl_synced d"
proof -
  obtain k where k: "fl_pos d = n" "fl_bytes d = replicate n 0xAB @ replicate k 0" "n + k \<le> max n whole"
    using assms by (auto simp: appended_def)
  have "take n (fl_bytes d) @ replicate b 0xAB @ drop (n + b) (fl_bytes d) = replicate (n + b) 0xAB @ replicate (k - b) 0"
    by (simp add: k(2) replicate_add)
  moreover have "n + b + (k - b) \<le> max (n + b) whole" using k(3) by auto
  ultimately show ?thesis using k(1) by (auto simp: write_all_def appended_def)
qed

lemma write_entries:
  "appended n whole d \<Longrightarrow> \<exists>d'. try_iter (write_all quiet (replicate b 0xAB)) c d = Inr d' \<and>
    appended (n + c * b) whole d' \<and> fl_synced d' = fl_synced d"
proof (induction c arbitrary: n d)
  case (Suc c)
  obtain d1 where d1: "write_all quiet (replicate b 0xAB) d = Inr d1" "appended (n + b) whole d1" "fl_synced d1 = fl_synced d"
    using write_entry [OF Suc.prems] by blast
  from Suc.IH [OF d1(2)] obtain d2 where "try_iter (write_all quiet (replicate b 0xAB)) c d1 = Inr d2"
    "appended (n + b + c * b) whole d2" "fl_synced d2 = fl_synced d1" by blast
  with d1 show ?case by (auto simp: algebra_simps)
qed simp

definition ceil_div :: "nat \<Rightarrow> nat \<Rightarrow> nat" where
  "ceil_div a b = (a + b - 1) div b"

lemma ceil_div_step:
  assumes "0 < b" "0 < r"
  shows "ceil_div r b = Suc (ceil_div (r - min r b) b)"
proof (cases "r \<le> b")
  case True
  then have "(r + b - 1) div b = 1" using assms by (intro div_nat_eqI) auto
  then show ?thesis using True assms by (simp add: ceil_div_def)
next
  case False
  then have "r + b - 1 = b + (r - b + b - 1)" using assms by simp
  then have "(r + b - 1) div b = Suc ((r - b + b - 1) div b)" using assms by (metis div_add_self1 plus_1_eq_Suc add.commute less_numeral_extra(3))
  then show ?thesis using False by (simp add: ceil_div_def)
qed

text \<open>
  \<open>run_entries\<close> makes one sync for every batch and one for the rest, right behind the last entry of each;
  after the last of them the disk has every entry.
\<close>

definition sync_points :: "nat \<Rightarrow> nat \<Rightarrow> nat \<Rightarrow> nat \<Rightarrow> nat list" where
  "sync_points n eb r b = map (\<lambda>i. n + min r (Suc i * b) * eb) [0..<ceil_div r b]"

lemma sync_points_step:
  assumes "0 < b" "0 < r"
  shows "sync_points n eb r b = (n + min r b * eb) # sync_points (n + min r b * eb) eb (r - min r b) b"
proof -
  have "min r (Suc (Suc i) * b) = min r b + min (r - min r b) (Suc i * b)" for i
    by (cases "r \<le> b") (auto simp: min_def)
  then show ?thesis
    using ceil_div_step [OF assms] by (simp add: sync_points_def upt_conv_Cons algebra_simps map_Suc_upt [symmetric] del: upt_Suc)
qed

lemma sync_points_0: "0 < b \<Longrightarrow> sync_points n eb 0 b = []"
  by (simp add: sync_points_def ceil_div_def)

lemma run_entries_quiet:
  assumes "0 < b"
  shows "appended n whole d \<Longrightarrow>
    \<exists>samples' d'. run_entries quiet ns (replicate eb 0xAB) r b kind samples d = Inr (samples', d') \<and>
      appended (n + r * eb) whole d' \<and> fl_synced d' = fl_synced d @ sync_points n eb r b \<and>
      (0 < r \<longrightarrow> fl_durable d' = fl_bytes d') \<and>
      samples' = map_option (\<lambda>s. s @ map ns [length s..<length s + ceil_div r b]) samples"
proof (induction r arbitrary: n d samples rule: less_induct)
  case (less r)
  show ?case
  proof (cases "r = 0")
    case True
    then show ?thesis using less.prems sync_points_0 [OF assms]
      by (cases samples) (simp_all add: run_entries.simps ceil_div_def assms)
  next
    case False
    let ?c = "min r b"
    let ?samples = "map_option (\<lambda>s. s @ [ns (length s)]) samples"
    obtain d1 where d1: "try_iter (write_all quiet (replicate eb 0xAB)) ?c d = Inr d1" "appended (n + ?c * eb) whole d1"
      "fl_synced d1 = fl_synced d"
      using write_entries [OF less.prems] by blast
    let ?d = "d1\<lparr>fl_ops := Suc (fl_ops d1), fl_durable := fl_bytes d1, fl_synced := fl_synced d1 @ [fl_pos d1]\<rparr>"
    have sync: "sync quiet kind d1 = Inr ?d" "appended (n + ?c * eb) whole ?d" "fl_pos d1 = n + ?c * eb"
      using d1(2) by (simp_all add: sync_def appended_def)
    have lt: "r - ?c < r" using False assms by simp
    obtain samples' d' where d': "run_entries quiet ns (replicate eb 0xAB) (r - ?c) b kind ?samples ?d = Inr (samples', d')"
      "appended (n + ?c * eb + (r - ?c) * eb) whole d'"
      "fl_synced d' = fl_synced ?d @ sync_points (n + ?c * eb) eb (r - ?c) b"
      "0 < r - ?c \<longrightarrow> fl_durable d' = fl_bytes d'"
      "samples' = map_option (\<lambda>s. s @ map ns [length s..<length s + ceil_div (r - ?c) b]) ?samples"
      using less.IH [OF lt sync(2)] by blast
    have run: "run_entries quiet ns (replicate eb 0xAB) r b kind samples d = Inr (samples', d')"
      using False assms d1(1) sync(1) d'(1) by (subst run_entries.simps) (simp add: Let_def)
    have "n + ?c * eb + (r - ?c) * eb = n + r * eb"
      by (metis add_mult_distrib add.assoc le_add_diff_inverse min.cobounded1)
    then have app: "appended (n + r * eb) whole d'" using d'(2) by (simp only:)
    have durable: "fl_durable d' = fl_bytes d'"
    proof (cases "0 < r - ?c")
      case False
      then have "run_entries quiet ns (replicate eb 0xAB) (r - ?c) b kind ?samples ?d = Inr (?samples, ?d)"
        by (subst run_entries.simps) simp
      then show ?thesis using d'(1) by auto
    qed (use d'(4) in simp)
    have samples: "samples' = map_option (\<lambda>s. s @ map ns [length s..<length s + ceil_div r b]) samples"
      using d'(5) ceil_div_step [OF assms, of r] False by (cases samples) (simp_all add: upt_conv_Cons del: upt_Suc)
    have "sync_points n eb r b = (n + ?c * eb) # sync_points (n + ?c * eb) eb (r - ?c) b"
      by (rule sync_points_step) (use assms False in simp_all)
    then have "fl_synced d' = fl_synced d @ sync_points n eb r b" using d'(3) d1(3) sync(3) by simp
    with run app durable samples show ?thesis by blast
  qed
qed

lemma write_zeros_quiet:
  "fl_bytes d = replicate n 0 \<Longrightarrow> fl_pos d = n \<Longrightarrow>
    \<exists>d'. write_zeros quiet r d = Inr d' \<and> fl_bytes d' = replicate (n + r) 0 \<and> fl_synced d' = fl_synced d"
proof (induction r arbitrary: n d rule: less_induct)
  case (less r)
  show ?case
  proof (cases "r = 0")
    case True
    then show ?thesis using less.prems by (simp add: write_zeros.simps)
  next
    case False
    let ?c = "min r ZEROS"
    let ?d = "d\<lparr>fl_ops := Suc (fl_ops d), fl_bytes := replicate (n + ?c) 0, fl_pos := n + ?c\<rparr>"
    have "write_all quiet (replicate ?c 0) d = Inr ?d" using less.prems by (simp add: write_all_def replicate_add)
    moreover have lt: "r - ?c < r" using False by (simp add: ZEROS_def)
    obtain d' where "write_zeros quiet (r - ?c) ?d = Inr d'" "fl_bytes d' = replicate (n + ?c + (r - ?c)) 0" "fl_synced d' = fl_synced ?d"
      using less.IH [OF lt, of ?d "n + ?c"] by auto
    ultimately show ?thesis using False by (subst write_zeros.simps) (simp add: Let_def)
  qed
qed

lemma preallocate_quiet:
  assumes "fl_bytes d = []" and "fl_pos d = 0" and "(fsw_warmup cfg + fsw_iterations cfg) * fsw_entry_bytes cfg < 2 ^ 64"
    and "0 < fsw_entry_bytes cfg"
  shows "\<exists>d'. preallocate quiet cfg d = Inr d' \<and> appended 0 ((fsw_warmup cfg + fsw_iterations cfg) * fsw_entry_bytes cfg) d' \<and>
    length (fl_synced d') = Suc (length (fl_synced d))"
proof -
  let ?whole = "(fsw_warmup cfg + fsw_iterations cfg) * fsw_entry_bytes cfg"
  have "fsw_warmup cfg + fsw_iterations cfg \<le> ?whole" using assms(4) by (simp add: Suc_le_eq)
  then have "usize_add (fsw_warmup cfg) (fsw_iterations cfg) = fsw_warmup cfg + fsw_iterations cfg"
    by (rule usize_add_small [OF le_less_trans [OF _ assms(3)]])
  then have whole: "usize_add (fsw_warmup cfg) (fsw_iterations cfg) * fsw_entry_bytes cfg mod 2 ^ 64 = ?whole" using assms(3) by simp
  obtain d1 where d1: "write_zeros quiet ?whole d = Inr d1" "fl_bytes d1 = replicate ?whole 0" "fl_synced d1 = fl_synced d"
    using write_zeros_quiet [of d 0 ?whole] assms(1,2) by auto
  then show ?thesis unfolding preallocate_def Let_def whole by (auto simp: sync_def appended_def)
qed

text \<open>The property of the durable append, with a witness.\<close>

text \<open>C33 (bounds): on a file system without errors every durable-append experiment returns, with one sample
  for every started batch of the measured entries. The file then holds exactly the warm-up and measured entries,
  pre-allocated or not, and all of it is on the disk; the measured syncs stand right behind the last entry
  of every batch, so that no more than a batch is ever at risk.\<close>

theorem durable_append_right:
  assumes env: "fs_from_env env = Inr cfg"
    and size: "(fsw_warmup cfg + fsw_iterations cfg) * fsw_entry_bytes cfg < 2 ^ 64"
  shows "\<exists>samples d earlier. run_and_emit quiet ns env kind prealloc batched = Inr (Inr (samples, d)) \<and>
    samples = map ns [0..<ceil_div (fsw_iterations cfg) (if batched then fsw_batch cfg else 1)] \<and>
    fl_bytes d = replicate ((fsw_warmup cfg + fsw_iterations cfg) * fsw_entry_bytes cfg) 0xAB \<and>
    fl_durable d = fl_bytes d \<and>
    fl_synced d = earlier @ sync_points (fsw_warmup cfg * fsw_entry_bytes cfg) (fsw_entry_bytes cfg)
      (fsw_iterations cfg) (if batched then fsw_batch cfg else 1)"
proof -
  let ?b = "if batched then fsw_batch cfg else 1" and ?eb = "fsw_entry_bytes cfg"
  let ?w = "fsw_warmup cfg" and ?i = "fsw_iterations cfg"
  let ?whole = "(?w + ?i) * ?eb"
  have pos: "0 < ?b" "0 < ?eb" "0 < ?i" using fs_from_env_ok [OF env] by simp_all
  obtain d0 where d0: "open_truncated quiet = Inr d0" "fl_bytes d0 = []" "fl_pos d0 = 0" by (simp add: open_truncated_def)
  obtain d1 where d1: "sync quiet Full d0 = Inr d1" "fl_bytes d1 = []" "fl_pos d1 = 0" using d0(2,3) by (simp add: sync_def)
  obtain d2 where d2: "fs_op quiet id d1 = Inr d2" "fl_bytes d2 = []" "fl_pos d2 = 0" using d1(2,3) by simp
  obtain d3 where d3: "(if prealloc then preallocate quiet cfg d2 else Inr d2) = Inr d3" "appended 0 ?whole d3"
    using preallocate_quiet [OF d2(2,3) size pos(2)] d2(2,3) by (cases prealloc) (auto simp: appended_def)
  obtain d4 where d4: "run_entries quiet ns (replicate ?eb 0xAB) ?w ?b kind None d3 = Inr (None, d4)" "appended (?w * ?eb) ?whole d4"
    using run_entries_quiet [OF pos(1) d3(2), of ns ?eb ?w kind None] by auto
  obtain d5 where d5: "run_entries quiet ns (replicate ?eb 0xAB) ?i ?b kind (Some []) d4 = Inr (Some (map ns [0..<ceil_div ?i ?b]), d5)"
    "appended (?w * ?eb + ?i * ?eb) ?whole d5" "fl_synced d5 = fl_synced d4 @ sync_points (?w * ?eb) ?eb ?i ?b"
    "fl_durable d5 = fl_bytes d5"
    using run_entries_quiet [OF pos(1) d4(2), of ns ?eb ?i kind "Some []"] pos(3) by auto
  have "?w * ?eb + ?i * ?eb = ?whole" by (simp add: add_mult_distrib)
  then have "fl_bytes d5 = replicate ?whole 0xAB" using d5(2) by (auto simp: appended_def)
  moreover have "run_durable_append quiet ns cfg kind ?b prealloc = Inr (map ns [0..<ceil_div ?i ?b], d5)"
    using d0(1) d1(1) d2(1) d3(1) d4(1) d5(1) by (simp add: run_durable_append_def Let_def del: fs_op_quiet)
  ultimately show ?thesis using env d5(3,4) by (auto simp: run_and_emit_def)
qed

theorem durable_append_right_witness:
  "\<exists>samples d. run_and_emit quiet (\<lambda>_. 9)
      [''FSW_DIR'' \<mapsto> ''d'', ''FSW_ENTRY_BYTES'' \<mapsto> ''2'', ''FSW_WARMUP'' \<mapsto> ''1'', ''FSW_ITERATIONS'' \<mapsto> ''3'', ''FSW_BATCH'' \<mapsto> ''2'']
      Data True True = Inr (Inr (samples, d)) \<and> samples = [9, 9] \<and> fl_durable d = replicate 8 0xAB"
proof -
  let ?env = "[''FSW_DIR'' \<mapsto> ''d'', ''FSW_ENTRY_BYTES'' \<mapsto> ''2'', ''FSW_WARMUP'' \<mapsto> ''1'', ''FSW_ITERATIONS'' \<mapsto> ''3'', ''FSW_BATCH'' \<mapsto> ''2'']"
  obtain cfg where cfg: "fs_from_env ?env = Inr cfg" "fsw_warmup cfg = 1" "fsw_iterations cfg = 3" "fsw_entry_bytes cfg = 2" "fsw_batch cfg = 2"
    by (simp add: fs_from_env_def parse_positive_def trimmed_text_def parse_u64_str_def trim_def is_space_def digit_value_def Let_def)
  then show ?thesis
    using durable_append_right [OF cfg(1), of "\<lambda>_. 9" Data True True] by (auto simp: ceil_div_def upt_rec)
qed

text \<open>A failing operation ends the run with its error.\<close>

theorem first_failure_ends:
  "fails 0 = Some e \<Longrightarrow> fs_from_env env = Inr cfg \<Longrightarrow> run_and_emit fails ns env kind prealloc batched = Inr (Inl (Fs_io e))"
  by (simp add: run_and_emit_def run_durable_append_def open_truncated_def fs_op_def)

end
