(* ===== verification/Spec2Isabelle.thy ===== *)
theory Spec2Isabelle
  imports Book_Theorems Snapshot_Theorems Bench_Theorems Live_Theorems Journal_Run Ring_Theorems Mpsc_Theorems
    Digest_Theorems Ultima_Theorems Ultima_Bench_Theorems Auto_Theorems Tool_Theorems Handoff_Theorems Rpc Fs_Write
begin

text \<open>
  A verification development for the Rust code of the repository: a laboratory that compares
  implementations of the building blocks of a replicated in-memory service (an order book and its snapshots,
  hand-off between threads, serialization, messages, durable appends) and the tools that run and record the
  comparisons. Each theory opens with a text that names the source files it models; here is how they fit together.

  Conventions. A record of the code is a \<open>record\<close>, an enumeration a \<open>datatype\<close>, an integer a word of its width; \<open>usize\<close>
  is a \<open>nat\<close> whose arithmetic wraps where the code can (\<open>usize_add\<close>, \<open>usize_sub\<close>), as in a release build.
  A panic or an error is the left value of a sum, so every operation states on which inputs it fails
  (\<open>Prelude\<close>: \<open>and_then\<close>, \<open>try_fold\<close>, \<open>try_iter\<close>, indexing that can panic, little-endian bytes). Threads are
  step relations in which every access to shared memory is one step, and a run is any interleaving.

  The order book (rust/smr-collections/common/src).
  \<^item> book.rs: \<open>Book\<close> (the pool, the intrusive queues of the levels, the id map, the cached bests, and \<open>insert\<close>,
    \<open>update\<close>, \<open>cancel\<close>, \<open>fill\<close> with every panic); \<open>Pool\<close> and \<open>Book_Spec\<close> (what a well-formed book is, and the
    abstract book of FIFO queues); \<open>Book_Inv\<close>, \<open>Book_Ops\<close> (every operation keeps the invariant and refines the queues).
  \<^item> cowbook.rs: \<open>Chunks\<close>, \<open>Cow\<close> (the chunked book over an explicit heap; \<open>Arc\<close> sharing is sharing of addresses),
    \<open>Cow_Sim\<close> (the simulation of the flat book and the frozen roots). \<open>Store\<close> is the locale of what a book
    promises to the workloads, interpreted on the flat book, the copy-on-write book and the database book.
  \<^item> rng.rs, churn.rs: \<open>Rng\<close>, \<open>Churn\<close> (the generator of requests and the churn workload over any store).
  \<^item> snapshot.rs, cowsnap.rs and the generated codec booksnap: \<open>Sbe\<close>, \<open>Book_Sbe\<close> (the encoder and decoder calls),
    \<open>Snapshot\<close>, \<open>Snapshot_Enc\<close>, \<open>Snapshot_Dec\<close>, \<open>Snapshot_Img\<close>, \<open>Snap_Trace\<close>, \<open>Snapshot_Round\<close>, \<open>Snapshot_Cow\<close> (an image
    restores to the same book, also from a root while the book goes on; the bound of 65535 slots is needed).
  \<^item> digest.rs: \<open>Digest\<close> (the digest sees the queues only, so that it compares different representations).
  \<^item> ultima-common/src/lib.rs: \<open>Ultima_Db\<close> (the third-party database as a record of operations and the laws \<open>lawful\<close>
    the code relies on, with an instance that shows they can hold), \<open>Ultima\<close> and the other \<open>Ultima\<close> theories (the book in
    tables, its batches, its snapshots, and that it agrees with the flat book).

  The experiments. \<open>Smr_Config\<close> and \<open>Run_Config\<close> are the configurations read from the environment (rust/bench-common).
  \<open>Bench\<close>, \<open>Bench_Runs\<close>, \<open>Ultima_Bench\<close> are the programs that measure a book: for every accepted configuration they
  take all their samples. \<open>Live_Mvcc\<close>, \<open>Live_Inv\<close> are the programs in which a writer and a snapshotter run
  at the same time. \<open>Ring\<close> and \<open>Mpsc\<close> with their \<open>_Inv\<close> and \<open>_Runs\<close> theories are the two rings
  (rust/handoff-compare/src, rust/thread-handoff/ring): delivery in order, nothing overwritten, no schedule stuck.
  \<open>Handoff\<close> is the ping-pong over slots, channels and mailboxes (rust/thread-handoff): \<open>Handoff_Spin\<close> has the locale
  of machines that work and wait, its instance for spin, and backoff as a refinement of it; \<open>Handoff_Condvar\<close>
  channels and mailboxes (mutual exclusion, no lost wake-up, no deadlock). \<open>Journal\<close>, \<open>Journal_Sbe\<close>,
  \<open>Journal_Round\<close>, \<open>Journal_Run\<close> are the journal records and their codec (rust/serialization). \<open>Rpc\<close> is the remote call
  over UDP (rust/rpc-roundtrip) and \<open>Fs_Write\<close> the durable append (rust/bench-common/src/fswrite.rs).

  The tools. \<open>Auto_Tasks\<close>, \<open>Auto_Sampling\<close>, \<open>Auto_Run\<close>, \<open>Auto_Inv\<close>, \<open>Auto_Stages\<close> are the experiment runner (autobench/src):
  the registry of tasks, one run of a local or network experiment, and the stages up to the verdict. \<open>Tool_Model\<close>, \<open>Tool_Compare\<close>,
  \<open>Tool_Entry\<close>, \<open>Tool_Record\<close>, \<open>Tool_Inv\<close> are the journal of results (tools/journal/src). \<open>Texts\<close> is what they
  use of strings and ordered maps.

  The properties, with their witnesses, are in the \<open>_Theorems\<close> theories and at the end of \<open>Journal_Run\<close>,
  \<open>Rpc\<close> and \<open>Fs_Write\<close>. Termination: most loops are structural or over a list.
  The concurrent programs have a fuel that every step of progress burns, and the theorems give its value at the start; a
  busy-wait, an idle call or a spurious wake-up is a step that does not count, and in no reachable state is
  waiting all that is left. A loop of the code that may run for ever (a read from a pipe, a poll) has the value \<open>Hangs\<close>.

  Assumptions. Executions are sequentially consistent: the memory orderings of the atomics are not modelled. The checksum of an
  image, the database, the codecs generated by the build, processes, sockets, the clock, JSON and number formats are parameters;
  what a theorem needs of them is a named hypothesis (\<open>lawful\<close>, \<open>rpc_codec\<close>, \<open>rounding\<close>, the laws of \<open>outside\<close>) with an instance in the
  witness. Floating-point numbers are elements of an ordered field and a rounding function, so that -0.0 is 0 and
  nothing overflows. Strings are ASCII.

  Not modelled. Wall-clock durations (they are arguments) and the statistics and lines printed from them; resident-set readings; the
  experiments on the network (rust/network-rtt) but for their configuration; the disruptor experiment and the bincode and sbe_gen
  codecs, which are third-party or generated; the two programs in which threads share the database; when a pinned version
  is dropped; the state of the file system after an error of the journal tool; fsync against a crash of the device. The Go and Java
  implementations and the scripts are outside this development.
\<close>

end
